(* ===== verification/Prelude.thy ===== *)
theory Prelude
  imports Main "HOL-Library.Word" "HOL-Library.Monad_Syntax"
begin

text \<open>
  Shared vocabulary of the development: the machine integers of the C sources as words,
  bytes as \<open>8 word\<close>, and the generic facts on words and lists that the component theories
  use.  A C buffer is a list of bytes; a character constant of the sources is written
  \<open>asc CHR ''x''\<close>.

  The collection \<open>bitwise_eqs\<close> holds the equations that turn an equality of words into
  one Boolean equation per bit, which \<open>simp\<close> and \<open>auto\<close> then decide; \<open>nat_bits\<close> folds
  the small bit positions back into numerals.
\<close>

unbundle bit_operations_syntax

named_theorems bitwise_eqs \<open>equality of words, bit by bit\<close>
named_theorems nat_bits \<open>small bit positions as numerals\<close>

section \<open>Machine integers\<close>

type_synonym u8 = "8 word"
type_synonym u16 = "16 word"
type_synonym u32 = "32 word"
type_synonym u64 = "64 word"
type_synonym bytes = "u8 list"

text \<open>A character constant of the sources as the byte it denotes.\<close>

abbreviation asc :: "char \<Rightarrow> u8" where
  "asc c \<equiv> of_char c"

text \<open>C's \<open><<\<close> and \<open>>>\<close> on unsigned operands.\<close>

abbreviation shl :: "'a::len word \<Rightarrow> nat \<Rightarrow> 'a word" where
  "shl w n \<equiv> push_bit n w"

abbreviation shr :: "'a::len word \<Rightarrow> nat \<Rightarrow> 'a word" where
  "shr w n \<equiv> drop_bit n w"

section \<open>Words, bit by bit\<close>

lemma all_less_Suc_iff: "(\<forall>n < Suc k. P n) \<longleftrightarrow> P k \<and> (\<forall>n < k. P n)"
  by (auto simp: less_Suc_eq)

lemma all_less_1 [bitwise_eqs]: "(\<forall>n < Suc 0. P n) \<longleftrightarrow> P 0"
  by simp

lemma all_less_2 [bitwise_eqs]: "(\<forall>n < 2. P (n::nat)) \<longleftrightarrow> P 0 \<and> P 1"
  by (auto simp: less_2_cases_iff)

lemma all_less_4 [bitwise_eqs]: "(\<forall>n < 4. P (n::nat)) \<longleftrightarrow> P 0 \<and> P 1 \<and> P 2 \<and> P 3"
  by (simp add: eval_nat_numeral all_less_Suc_iff, blast)

lemma all_less_3 [bitwise_eqs]: "(\<forall>n < 3. P (n::nat)) \<longleftrightarrow> P 0 \<and> P 1 \<and> P 2"
  by (simp add: eval_nat_numeral all_less_Suc_iff, blast)

lemma all_less_5 [bitwise_eqs]: "(\<forall>n < 5. P (n::nat)) \<longleftrightarrow> P 0 \<and> P 1 \<and> P 2 \<and> P 3 \<and> P 4"
  by (simp add: eval_nat_numeral all_less_Suc_iff, blast)

lemma all_less_7 [bitwise_eqs]: "(\<forall>n < 7. P (n::nat)) \<longleftrightarrow> P 0 \<and> P 1 \<and> P 2 \<and> P 3 \<and> P 4 \<and> P 5 \<and> P 6"
  by (simp add: eval_nat_numeral all_less_Suc_iff, blast)

lemma all_less_8 [bitwise_eqs]:
  "(\<forall>n < 8. P (n::nat)) \<longleftrightarrow> P 0 \<and> P 1 \<and> P 2 \<and> P 3 \<and> P 4 \<and> P 5 \<and> P 6 \<and> P 7"
proof -
  have "(8::nat) = Suc (Suc (Suc (Suc (Suc (Suc (Suc (Suc 0)))))))" by simp
  then show ?thesis by (simp only: all_less_Suc_iff) (simp add: eval_nat_numeral, blast)
qed

lemma u8_eq_iff [bitwise_eqs]: "(a::u8) = b \<longleftrightarrow> (\<forall>n < 8. bit a n = bit b n)"
  by (auto intro: bit_word_eqI)

lemma Suc_Suc_0 [nat_bits]: "Suc (Suc 0) = 2"
  by simp

lemma bit_mult_2_right [nat_bits]:
  "bit (a * 2 :: 'a::len word) n \<longleftrightarrow> n < LENGTH('a) \<and> 0 < n \<and> bit a (n - 1)"
  by (auto simp: mult.commute [of a 2] bit_double_iff intro: bit_imp_le_length)

lemma shr_0x80: "r < 8 \<Longrightarrow> shr (0x80 :: u8) r = push_bit (7 - r) 1"
proof -
  have "\<forall>r < 8. shr (0x80 :: u8) r = push_bit (7 - r) 1"
    by (simp add: all_less_8)
  then show "r < 8 \<Longrightarrow> ?thesis" by blast
qed

text \<open>The bits of a number written to the base \<open>2 ^ m\<close>.\<close>

lemma bit_add_shift:
  fixes x a :: nat
  assumes "x < 2 ^ m"
  shows "bit (x + 2 ^ m * a) n \<longleftrightarrow> (if n < m then bit x n else bit a (n - m))"
proof (cases "n < m")
  case True
  then have "(2::nat) ^ m = 2 ^ n * 2 ^ (m - n)" by (simp flip: power_add)
  then have "(x + 2 ^ m * a) div 2 ^ n = x div 2 ^ n + 2 ^ (m - n) * a"
    by (simp add: mult.assoc)
  with True show ?thesis by (simp add: bit_iff_odd)
next
  case False
  then have "(2::nat) ^ n = 2 ^ m * 2 ^ (n - m)" by (simp flip: power_add)
  then have "(x + 2 ^ m * a) div 2 ^ n = a div 2 ^ (n - m)"
    using assms by (simp add: div_mult2_eq)
  with False show ?thesis by (simp add: bit_iff_odd)
qed

text \<open>A mask bounds the value of a word.\<close>

lemma unat_and_mask_less: "unat (x AND mask k) < 2 ^ k"
proof -
  have "unat (x AND mask k) = take_bit k (unat x)"
    by (simp flip: take_bit_eq_mask add: unsigned_take_bit_eq)
  then show ?thesis by simp
qed

lemma unat_and_numeral_mask_less:
  assumes "m = mask k" shows "unat (x AND m) < 2 ^ k"
  using unat_and_mask_less assms by simp

text \<open>Shifts as arithmetic.\<close>

lemma unat_shr: "unat (shr w n) = unat w div 2 ^ n" for w :: "'a::len word"
  unfolding unat_drop_bit_eq by (rule drop_bit_eq_div)

lemma unat_shl: "unat (shl w n) = unat w * 2 ^ n mod 2 ^ LENGTH('a)" for w :: "'a::len word"
  by (subst unsigned_push_bit_eq) (simp only: take_bit_eq_mod push_bit_eq_mult)

section \<open>Memory\<close>

text \<open>Reading and writing one cell of a buffer; an index out of range is no access at all
  (\<open>None\<close>).  A \<open>size_t\<close> difference wraps at \<open>2 ^ 64\<close>.\<close>

definition fetch :: "'a list \<Rightarrow> nat \<Rightarrow> 'a option" where
  "fetch xs i = (if i < length xs then Some (xs ! i) else None)"

definition store :: "'a list \<Rightarrow> nat \<Rightarrow> 'a \<Rightarrow> 'a list option" where
  "store xs i v = (if i < length xs then Some (xs[i := v]) else None)"

definition size_sub :: "nat \<Rightarrow> nat \<Rightarrow> nat" where
  "size_sub a b = (if b \<le> a then a - b else a + 2 ^ 64 - b)"

lemma fetch_Some [simp]: "i < length xs \<Longrightarrow> fetch xs i = Some (xs ! i)"
  by (simp add: fetch_def)

lemma store_Some [simp]: "i < length xs \<Longrightarrow> store xs i v = Some (xs[i := v])"
  by (simp add: store_def)

lemma fetch_eq_Some: "fetch xs i = Some v \<longleftrightarrow> i < length xs \<and> v = xs ! i"
  by (auto simp: fetch_def)

lemma store_eq_Some: "store xs i v = Some ys \<longleftrightarrow> i < length xs \<and> ys = xs[i := v]"
  by (auto simp: store_def)

lemma size_sub_le [simp]: "b \<le> a \<Longrightarrow> size_sub a b = a - b"
  by (simp add: size_sub_def)

section \<open>Lists\<close>

lemma replicate_numeral_Cons: "replicate (numeral k) x = x # replicate (pred_numeral k) x"
  by (simp add: numeral_eq_Suc)

section \<open>Arithmetic\<close>

text \<open>Rounding up to whole groups: one group covers the first \<open>n\<close> elements.\<close>

lemma ceil_div_add:
  fixes k n :: nat
  assumes "0 < n"
  shows "(n + k + (n - 1)) div n * m = m + (k + (n - 1)) div n * m"
  using div_add_self1 [of n "k + (n - 1)"] assms by (simp add: add.assoc)

lemma ceil_div_step:
  fixes k n :: nat
  assumes "0 < n" and "0 < k"
  shows "Suc ((k - n + (n - 1)) div n) \<le> (k + (n - 1)) div n"
proof (cases "n \<le> k")
  case True
  then have "k + (n - 1) = (k - n + (n - 1)) + n" by simp
  then show ?thesis using assms by (metis div_add_self2 le_refl neq0_conv Suc_eq_plus1)
next
  case False
  then have "n div n \<le> (k + (n - 1)) div n" using assms by (intro div_le_mono) simp
  with False assms show ?thesis by simp
qed

lemma ceil_div_step':
  fixes k n :: nat
  assumes "0 < n" and "0 < k"
  shows "m + (k - n + (n - 1)) div n * m \<le> (k + (n - 1)) div n * m"
  using mult_le_mono1 [OF ceil_div_step [OF assms], of m] by simp

end
