(* ===== verification/Base64.thy ===== *)
theory Base64
  imports Prelude
begin

text \<open>
  The base64, base32 and base16 codecs of \<open>src/base64/base64.c\<close>.  An encoder's loop over the
  source array is the recursion over the byte list, one equation per shape of the remaining
  input; a decoder's pointer \<open>source\<close> is the list of the bytes that are left, and its macro
  \<open>S(i)\<close>, which reads \<open>'='\<close> past the end, is \<open>src_at\<close>.  The target array is the list of the
  bytes written, in order, so its length is the C function's return value.

  The locale \<open>block_codec\<close> states what the four codecs have in common: a decoder that inverts
  the encoder, an encoder that works block by block, and its exact output length.
\<close>

section \<open>The tables\<close>

definition s_base64_enc :: bytes where
  "s_base64_enc = map of_char
     ''ABCDEFGHIJKLMNOPQRSTUVWXYZabcdefghijklmnopqrstuvwxyz0123456789+/''"

definition s_base64_url :: bytes where
  "s_base64_url = map of_char
     ''ABCDEFGHIJKLMNOPQRSTUVWXYZabcdefghijklmnopqrstuvwxyz0123456789-_''"

definition s_base64_dec :: bytes where
  "s_base64_dec =
    [0, 0, 0, 0, 0, 0, 0, 0, 0, 0, 0, 0, 0, 0, 0, 0,
     0, 0, 0, 0, 0, 0, 0, 0, 0, 0, 0, 0, 0, 0, 0, 0,
     0, 0, 0, 0, 0, 0, 0, 0, 0, 0, 0,62, 0,62, 0,63,
     52,53,54,55,56,57,58,59,60,61, 0, 0, 0, 0, 0, 0,
     0, 0, 1, 2, 3, 4, 5, 6, 7, 8, 9,10,11,12,13,14,
     15,16,17,18,19,20,21,22,23,24,25, 0, 0, 0, 0,63,
     0,26,27,28,29,30,31,32,33,34,35,36,37,38,39,40,
     41,42,43,44,45,46,47,48,49,50,51, 0, 0, 0, 0, 0] @ replicate 128 0"

definition s_base16_enc :: bytes where
  "s_base16_enc = map of_char ''0123456789ABCDEF''"

definition s_base16_dec :: bytes where
  "s_base16_dec =
    [0, 0, 0, 0, 0, 0, 0, 0, 0, 0, 0, 0, 0, 0, 0, 0,
     0, 0, 0, 0, 0, 0, 0, 0, 0, 0, 0, 0, 0, 0, 0, 0,
     0, 0, 0, 0, 0, 0, 0, 0, 0, 0, 0, 0, 0, 0, 0, 0,
     0, 1, 2, 3, 4, 5, 6, 7, 8, 9, 0, 0, 0, 0, 0, 0,
     0,10,11,12,13,14,15, 0, 0, 0, 0, 0, 0, 0, 0, 0,
     0, 0, 0, 0, 0, 0, 0, 0, 0, 0, 0, 0, 0, 0, 0, 0,
     0,10,11,12,13,14,15, 0, 0, 0, 0, 0, 0, 0, 0, 0,
     0, 0, 0, 0, 0, 0, 0, 0, 0, 0, 0, 0, 0, 0, 0, 0] @ replicate 128 0"

definition s_base32_enc :: bytes where
  "s_base32_enc = map of_char ''ABCDEFGHIJKLMNOPQRSTUVWXYZ234567''"

definition s_base32_dec :: bytes where
  "s_base32_dec =
    [0, 0, 0, 0, 0, 0, 0, 0, 0, 0, 0, 0, 0, 0, 0, 0,
     0, 0, 0, 0, 0, 0, 0, 0, 0, 0, 0, 0, 0, 0, 0, 0,
     0, 0, 0, 0, 0, 0, 0, 0, 0, 0, 0, 0, 0, 0, 0, 0,
     0, 0, 0x1A, 0x1B, 0x1C, 0x1D, 0x1E, 0x1F, 0, 0, 0, 0, 0, 0, 0, 0,
     0,    0x00, 0x01, 0x02, 0x03, 0x04, 0x05, 0x06, 0x07, 0x08, 0x09, 0x0A, 0x0B, 0x0C, 0x0D, 0x0E,
     0x0F, 0x10, 0x11, 0x12, 0x13, 0x14, 0x15, 0x16, 0x17, 0x18, 0x19, 0, 0, 0, 0, 0,
     0,    0x00, 0x01, 0x02, 0x03, 0x04, 0x05, 0x06, 0x07, 0x08, 0x09, 0x0A, 0x0B, 0x0C, 0x0D, 0x0E,
     0x0F, 0x10, 0x11, 0x12, 0x13, 0x14, 0x15, 0x16, 0x17, 0x18, 0x19, 0, 0, 0, 0, 0] @ replicate 128 0"

section \<open>The encoders and decoders\<close>

text \<open>An array access \<open>table[v]\<close> with a byte index.\<close>

abbreviation at_byte :: "bytes \<Rightarrow> u8 \<Rightarrow> u8" where
  "at_byte table v \<equiv> table ! unat v"

fun base64_encode_table :: "bytes \<Rightarrow> bytes \<Rightarrow> bytes" where
  "base64_encode_table table (p0 # p1 # p2 # rest) =
     at_byte table (shr p0 2 AND 0x3F)
     # at_byte table (shl (p0 AND 0x03) 4 OR (shr p1 4 AND 0x0F))
     # at_byte table (shl (p1 AND 0x0F) 2 OR (shr p2 6 AND 0x03))
     # at_byte table (p2 AND 0x3F)
     # base64_encode_table table rest"
| "base64_encode_table table [p0, p1] =
     [at_byte table (shr p0 2 AND 0x3F),
      at_byte table (shl (p0 AND 0x03) 4 OR (shr p1 4 AND 0x0F)),
      at_byte table (shl (p1 AND 0x0F) 2),
      asc CHR ''='']"
| "base64_encode_table table [p0] =
     [at_byte table (shr p0 2 AND 0x3F),
      at_byte table (shl (p0 AND 0x03) 4),
      asc CHR ''='',
      asc CHR ''='']"
| "base64_encode_table table [] = []"

definition base64_encode :: "bytes \<Rightarrow> bytes" where
  "base64_encode source = base64_encode_table s_base64_enc source"

definition base64_encode_url :: "bytes \<Rightarrow> bytes" where
  "base64_encode_url source = base64_encode_table s_base64_url source"

definition src_at :: "bytes \<Rightarrow> nat \<Rightarrow> u8" where
  "src_at source i = (if i < length source then source ! i else asc CHR ''='')"

fun base64_decode :: "bytes \<Rightarrow> bytes" where
  "base64_decode source =
     (if source = [] \<or> hd source = asc CHR ''='' then []
      else let S = src_at source; dec = at_byte s_base64_dec in
        [shl (dec (S 0)) 2 OR shr (dec (S 1)) 4]
        @ (if S 2 \<noteq> asc CHR ''='' then [shl (dec (S 1)) 4 OR shr (dec (S 2)) 2] else [])
        @ (if S 3 \<noteq> asc CHR ''='' then [shl (dec (S 2)) 6 OR dec (S 3)] else [])
        @ base64_decode (drop 4 source))"

declare base64_decode.simps [simp del]

fun base16_encode :: "bytes \<Rightarrow> bytes" where
  "base16_encode [] = []"
| "base16_encode (p # rest) =
     at_byte s_base16_enc (shr p 4 AND 0x0F) # at_byte s_base16_enc (p AND 0x0F)
     # base16_encode rest"

text \<open>The assertion \<open>0 == bytes % 2\<close> of the source is the case \<open>None\<close>.\<close>

fun base16_decode :: "bytes \<Rightarrow> bytes option" where
  "base16_decode [] = Some []"
| "base16_decode [c] = None"
| "base16_decode (c0 # c1 # rest) =
     map_option (Cons (shl (at_byte s_base16_dec c0) 4 OR at_byte s_base16_dec c1))
       (base16_decode rest)"

text \<open>The final \<open>while (0 != (j % 8)) target[j++] = '='\<close> pads the last group to eight.\<close>

definition base32_pad :: "bytes \<Rightarrow> bytes" where
  "base32_pad t = t @ replicate ((8 - length t mod 8) mod 8) (asc CHR ''='')"

fun base32_encode :: "bytes \<Rightarrow> bytes" where
  "base32_encode (p0 # p1 # p2 # p3 # p4 # rest) =
     at_byte s_base32_enc (shr p0 3 AND 0x1F)
     # at_byte s_base32_enc (shl (p0 AND 0x07) 2 OR (shr p1 6 AND 0x03))
     # at_byte s_base32_enc (shr p1 1 AND 0x1F)
     # at_byte s_base32_enc (shl (p1 AND 0x01) 4 OR (shr p2 4 AND 0x0F))
     # at_byte s_base32_enc (shl (p2 AND 0x0F) 1 OR (shr p3 7 AND 0x01))
     # at_byte s_base32_enc (shr p3 2 AND 0x1F)
     # at_byte s_base32_enc (shl (p3 AND 0x03) 3 OR (shr p4 5 AND 0x07))
     # at_byte s_base32_enc (p4 AND 0x1F)
     # base32_encode rest"
| "base32_encode [p0] = base32_pad
     [at_byte s_base32_enc (shr p0 3 AND 0x1F),
      at_byte s_base32_enc (shl (p0 AND 0x07) 2)]"
| "base32_encode [p0, p1] = base32_pad
     [at_byte s_base32_enc (shr p0 3 AND 0x1F),
      at_byte s_base32_enc (shl (p0 AND 0x07) 2 OR (shr p1 6 AND 0x03)),
      at_byte s_base32_enc (shr p1 1 AND 0x1F),
      at_byte s_base32_enc (shl (p1 AND 0x01) 4)]"
| "base32_encode [p0, p1, p2] = base32_pad
     [at_byte s_base32_enc (shr p0 3 AND 0x1F),
      at_byte s_base32_enc (shl (p0 AND 0x07) 2 OR (shr p1 6 AND 0x03)),
      at_byte s_base32_enc (shr p1 1 AND 0x1F),
      at_byte s_base32_enc (shl (p1 AND 0x01) 4 OR (shr p2 4 AND 0x0F)),
      at_byte s_base32_enc (shl (p2 AND 0x0F) 1)]"
| "base32_encode [p0, p1, p2, p3] = base32_pad
     [at_byte s_base32_enc (shr p0 3 AND 0x1F),
      at_byte s_base32_enc (shl (p0 AND 0x07) 2 OR (shr p1 6 AND 0x03)),
      at_byte s_base32_enc (shr p1 1 AND 0x1F),
      at_byte s_base32_enc (shl (p1 AND 0x01) 4 OR (shr p2 4 AND 0x0F)),
      at_byte s_base32_enc (shl (p2 AND 0x0F) 1 OR (shr p3 7 AND 0x01)),
      at_byte s_base32_enc (shr p3 2 AND 0x1F),
      at_byte s_base32_enc (shl (p3 AND 0x03) 3)]"
| "base32_encode [] = base32_pad []"

fun base32_decode :: "bytes \<Rightarrow> bytes" where
  "base32_decode source =
     (if source = [] \<or> hd source = asc CHR ''='' then []
      else let S = src_at source; dec = at_byte s_base32_dec in
        [shl (dec (S 0)) 3 OR shr (dec (S 1)) 2]
        @ (if S 2 \<noteq> asc CHR ''='' then
             [shl (dec (S 1)) 6 OR shl (dec (S 2)) 1 OR shr (dec (S 3)) 4] else [])
        @ (if S 4 \<noteq> asc CHR ''='' then [shl (dec (S 3)) 4 OR shr (dec (S 4)) 1] else [])
        @ (if S 5 \<noteq> asc CHR ''='' then
             [shl (dec (S 4)) 7 OR shl (dec (S 5)) 2 OR shr (dec (S 6)) 3] else [])
        @ (if S 7 \<noteq> asc CHR ''='' then [shl (dec (S 6)) 5 OR dec (S 7)] else [])
        @ base32_decode (drop 8 source))"

declare base32_decode.simps [simp del]

section \<open>Tables: decoding inverts encoding\<close>

lemma base64_tables:
  "list_all2 (\<lambda>c v. s_base64_dec ! unat c = v \<and> c \<noteq> asc CHR ''='') s_base64_enc (map of_nat [0..<64])"
  by (simp add: s_base64_enc_def s_base64_dec_def upt_conv_Cons)

lemma base64_url_tables:
  "list_all2 (\<lambda>c v. s_base64_dec ! unat c = v \<and> c \<noteq> asc CHR ''='') s_base64_url (map of_nat [0..<64])"
  by (simp add: s_base64_url_def s_base64_dec_def upt_conv_Cons)

lemma base32_tables:
  "list_all2 (\<lambda>c v. s_base32_dec ! unat c = v \<and> c \<noteq> asc CHR ''='') s_base32_enc (map of_nat [0..<32])"
  by (simp add: s_base32_enc_def s_base32_dec_def upt_conv_Cons)

lemma base16_tables:
  "list_all2 (\<lambda>c v. s_base16_dec ! unat c = v) s_base16_enc (map of_nat [0..<16])"
  by (simp add: s_base16_enc_def s_base16_dec_def upt_conv_Cons)

text \<open>
  A pair of tables inverts the indices below a bound: what the decoders need to know of the
  encoders' tables, and all they need.
\<close>

definition inverse_tables :: "nat \<Rightarrow> bytes \<Rightarrow> bytes \<Rightarrow> bool" where
  "inverse_tables n enc dec \<longleftrightarrow>
     (\<forall>v. unat v < n \<longrightarrow> at_byte dec (at_byte enc v) = v \<and> at_byte enc v \<noteq> asc CHR ''='')"

lemma inverse_tablesI:
  assumes "list_all2 (\<lambda>c v. dec ! unat c = v \<and> c \<noteq> asc CHR ''='') enc (map of_nat [0..<n])"
  shows "inverse_tables n enc dec"
proof -
  have "length enc = n" using assms by (auto dest: list_all2_lengthD)
  then show ?thesis
    using assms by (auto simp: inverse_tables_def dest: list_all2_nthD)
qed

lemma inverse_tablesD:
  assumes "inverse_tables (2 ^ k) enc dec" and "v AND mask k = v"
  shows "at_byte dec (at_byte enc v) = v" and "at_byte enc v \<noteq> asc CHR ''=''"
  using assms unat_and_mask_less [of v k] by (auto simp: inverse_tables_def)

lemma inverse_base64: "inverse_tables (2 ^ 6) s_base64_enc s_base64_dec"
  and inverse_base64_url: "inverse_tables (2 ^ 6) s_base64_url s_base64_dec"
  and inverse_base32: "inverse_tables (2 ^ 5) s_base32_enc s_base32_dec"
  using base64_tables base64_url_tables base32_tables by (auto intro!: inverse_tablesI)

section \<open>Round trips\<close>

text \<open>The indices the encoders compute are in range.\<close>

lemma sextet_index:
  fixes p q :: u8
  shows "(shr p 2 AND 0x3F) AND mask 6 = (shr p 2 AND 0x3F)"
    and "(shl (p AND 0x03) 4 OR (shr q 4 AND 0x0F)) AND mask 6
         = shl (p AND 0x03) 4 OR (shr q 4 AND 0x0F)"
    and "(shl (p AND 0x0F) 2 OR (shr q 6 AND 0x03)) AND mask 6
         = shl (p AND 0x0F) 2 OR (shr q 6 AND 0x03)"
    and "(p AND 0x3F) AND mask 6 = p AND 0x3F"
    and "shl (p AND 0x0F) 2 AND mask 6 = shl (p AND 0x0F) 2"
    and "shl (p AND 0x03) 4 AND mask 6 = shl (p AND 0x03) 4"
  by (simp_all add: bitwise_eqs bit_simps)

lemma quintet_index:
  fixes p q :: u8
  shows "(shr p 3 AND 0x1F) AND mask 5 = shr p 3 AND 0x1F"
    and "(shl (p AND 0x07) 2 OR (shr q 6 AND 0x03)) AND mask 5
         = shl (p AND 0x07) 2 OR (shr q 6 AND 0x03)"
    and "(shr p 1 AND 0x1F) AND mask 5 = shr p 1 AND 0x1F"
    and "(shl (p AND 0x01) 4 OR (shr q 4 AND 0x0F)) AND mask 5
         = shl (p AND 0x01) 4 OR (shr q 4 AND 0x0F)"
    and "(shl (p AND 0x0F) 1 OR (shr q 7 AND 0x01)) AND mask 5
         = shl (p AND 0x0F) 1 OR (shr q 7 AND 0x01)"
    and "(shr p 2 AND 0x1F) AND mask 5 = shr p 2 AND 0x1F"
    and "(shl (p AND 0x03) 3 OR (shr q 5 AND 0x07)) AND mask 5
         = shl (p AND 0x03) 3 OR (shr q 5 AND 0x07)"
    and "(p AND 0x1F) AND mask 5 = p AND 0x1F"
    and "shl (p AND 0x07) 2 AND mask 5 = shl (p AND 0x07) 2"
    and "shl (p AND 0x01) 4 AND mask 5 = shl (p AND 0x01) 4"
    and "shl (p AND 0x0F) 1 AND mask 5 = shl (p AND 0x0F) 1"
    and "shl (p AND 0x03) 3 AND mask 5 = shl (p AND 0x03) 3"
  by (simp_all add: bitwise_eqs bit_simps)

text \<open>
  What a decoder finds at the characters an encoder wrote: the index itself, and never the
  padding character.  The byte of \<open>'='\<close> is written out, as the simplifier does.
\<close>

lemma eq_sign: "asc CHR ''='' = 0x3D"
  by simp

lemma sextet_codes:
  fixes p q :: u8
  assumes "inverse_tables (2 ^ 6) t s_base64_dec"
  shows "v \<in> {shr p 2 AND 0x3F, shl (p AND 0x03) 4 OR (shr q 4 AND 0x0F),
              shl (p AND 0x0F) 2 OR (shr q 6 AND 0x03), p AND 0x3F,
              shl (p AND 0x0F) 2, shl (p AND 0x03) 4}
         \<Longrightarrow> at_byte s_base64_dec (at_byte t v) = v \<and> at_byte t v \<noteq> 0x3D"
  using inverse_tablesD [OF assms, of v] sextet_index unfolding eq_sign by (elim insertE) simp_all

lemma quintet_codes:
  fixes p q :: u8
  shows "v \<in> {shr p 3 AND 0x1F, shl (p AND 0x07) 2 OR (shr q 6 AND 0x03), shr p 1 AND 0x1F,
              shl (p AND 0x01) 4 OR (shr q 4 AND 0x0F), shl (p AND 0x0F) 1 OR (shr q 7 AND 0x01),
              shr p 2 AND 0x1F, shl (p AND 0x03) 3 OR (shr q 5 AND 0x07), p AND 0x1F,
              shl (p AND 0x07) 2, shl (p AND 0x01) 4, shl (p AND 0x0F) 1, shl (p AND 0x03) 3}
         \<Longrightarrow> at_byte s_base32_dec (at_byte s_base32_enc v) = v \<and> at_byte s_base32_enc v \<noteq> 0x3D"
  using inverse_tablesD [OF inverse_base32, of v] quintet_index unfolding eq_sign by (elim insertE) simp_all

lemmas src_at_Cons = src_at_def nth_Cons_numeral

lemma base64_decode_group:
  assumes "c0 \<noteq> 0x3D"
  shows "base64_decode (c0 # c1 # c2 # c3 # rest) =
    [shl (at_byte s_base64_dec c0) 2 OR shr (at_byte s_base64_dec c1) 4]
    @ (if c2 \<noteq> 0x3D then
         [shl (at_byte s_base64_dec c1) 4 OR shr (at_byte s_base64_dec c2) 2] else [])
    @ (if c3 \<noteq> 0x3D then
         [shl (at_byte s_base64_dec c2) 6 OR at_byte s_base64_dec c3] else [])
    @ base64_decode rest"
  using assms by (subst base64_decode.simps) (simp add: src_at_Cons)

lemma base64_decode_Nil [simp]: "base64_decode [] = []"
  by (simp add: base64_decode.simps)

lemma base64_roundtrip:
  assumes "inverse_tables (2 ^ 6) t s_base64_dec"
  shows "base64_decode (base64_encode_table t xs) = xs"
  using assms
proof (induction t xs rule: base64_encode_table.induct)
  case (1 table p0 p1 p2 rest)
  note codes = sextet_codes [OF "1.prems"]
  show ?case
    using "1.IH" [OF "1.prems"]
    by (simp add: base64_decode_group codes [of _ p0 p1] codes [of _ p1 p2] codes [of _ p2]
          del: push_bit_and)
       (simp add: bitwise_eqs bit_simps nat_bits)
next
  case (2 table p0 p1)
  note codes = sextet_codes [OF "2.prems"]
  show ?case
    by (simp add: base64_decode_group codes [of _ p0 p1] codes [of _ p1]
          del: push_bit_and)
       (simp add: bitwise_eqs bit_simps nat_bits)
next
  case (3 table p0)
  note codes = sextet_codes [OF "3.prems"]
  show ?case
    by (simp add: base64_decode_group codes [of _ p0] del: push_bit_and)
       (simp add: bitwise_eqs bit_simps nat_bits)
qed simp

lemma base32_decode_group:
  assumes "c0 \<noteq> 0x3D"
  shows "base32_decode (c0 # c1 # c2 # c3 # c4 # c5 # c6 # c7 # rest) =
    [shl (at_byte s_base32_dec c0) 3 OR shr (at_byte s_base32_dec c1) 2]
    @ (if c2 \<noteq> 0x3D then [shl (at_byte s_base32_dec c1) 6 OR shl (at_byte s_base32_dec c2) 1
                          OR shr (at_byte s_base32_dec c3) 4] else [])
    @ (if c4 \<noteq> 0x3D then [shl (at_byte s_base32_dec c3) 4 OR shr (at_byte s_base32_dec c4) 1]
       else [])
    @ (if c5 \<noteq> 0x3D then [shl (at_byte s_base32_dec c4) 7 OR shl (at_byte s_base32_dec c5) 2
                          OR shr (at_byte s_base32_dec c6) 3] else [])
    @ (if c7 \<noteq> 0x3D then [shl (at_byte s_base32_dec c6) 5 OR at_byte s_base32_dec c7] else [])
    @ base32_decode rest"
  using assms by (subst base32_decode.simps) (simp add: src_at_Cons)

lemma base32_decode_Nil [simp]: "base32_decode [] = []"
  by (simp add: base32_decode.simps)

lemma base32_pad_simps [simp]:
  "base32_pad [a, b] = [a, b, 0x3D, 0x3D, 0x3D, 0x3D, 0x3D, 0x3D]"
  "base32_pad [a, b, c, d] = [a, b, c, d, 0x3D, 0x3D, 0x3D, 0x3D]"
  "base32_pad [a, b, c, d, e] = [a, b, c, d, e, 0x3D, 0x3D, 0x3D]"
  "base32_pad [a, b, c, d, e, f, g] = [a, b, c, d, e, f, g, 0x3D]"
  "base32_pad [] = []"
  by (simp_all add: base32_pad_def replicate_numeral_Cons)

lemma base32_roundtrip: "base32_decode (base32_encode xs) = xs"
proof (induction xs rule: base32_encode.induct)
  case (1 p0 p1 p2 p3 p4 rest)
  then show ?case
    by (simp add: base32_decode_group quintet_codes [of _ p0 p1] quintet_codes [of _ p1 p2]
          quintet_codes [of _ p2 p3] quintet_codes [of _ p3 p4] quintet_codes [of _ p4]
          del: push_bit_and)
       (simp add: bitwise_eqs bit_simps nat_bits)
next
  case (2 p0)
  then show ?case
    by (simp add: base32_decode_group quintet_codes [of _ p0] del: push_bit_and)
       (simp add: bitwise_eqs bit_simps nat_bits)
next
  case (3 p0 p1)
  then show ?case
    by (simp add: base32_decode_group quintet_codes [of _ p0 p1] quintet_codes [of _ p1]
          del: push_bit_and)
       (simp add: bitwise_eqs bit_simps nat_bits)
next
  case (4 p0 p1 p2)
  then show ?case
    by (simp add: base32_decode_group quintet_codes [of _ p0 p1] quintet_codes [of _ p1 p2]
          quintet_codes [of _ p2] del: push_bit_and)
       (simp add: bitwise_eqs bit_simps nat_bits)
next
  case (5 p0 p1 p2 p3)
  then show ?case
    by (simp add: base32_decode_group quintet_codes [of _ p0 p1] quintet_codes [of _ p1 p2]
          quintet_codes [of _ p2 p3] quintet_codes [of _ p3] del: push_bit_and)
       (simp add: bitwise_eqs bit_simps nat_bits)
qed simp

lemma base16_code: "at_byte s_base16_dec (at_byte s_base16_enc (v AND 0x0F)) = v AND 0x0F"
proof -
  have "unat (v AND 0x0F) < 16"
    using unat_and_mask_less [of v 4] by (simp add: mask_numeral)
  moreover have "length s_base16_enc = 16"
    by (simp add: s_base16_enc_def)
  ultimately show ?thesis
    using list_all2_nthD [OF base16_tables, of "unat (v AND 0x0F)"] by simp
qed

lemma base16_roundtrip: "base16_decode (base16_encode xs) = Some xs"
  by (induction xs) (simp_all add: base16_code, simp add: bitwise_eqs bit_simps nat_bits)

section \<open>The contract of a block codec\<close>

locale block_codec =
  fixes enc :: "bytes \<Rightarrow> bytes" and dec :: "bytes \<Rightarrow> bytes" and n m :: nat
  assumes block_pos: "0 < n"
    and dec_enc: "dec (enc xs) = xs"
    and enc_append: "n dvd length xs \<Longrightarrow> enc (xs @ ys) = enc xs @ enc ys"
    and length_enc: "length (enc xs) = (length xs + (n - 1)) div n * m"
begin

lemma enc_inject: "enc xs = enc ys \<longleftrightarrow> xs = ys"
  by (metis dec_enc)

lemma enc_concat:
  assumes "\<forall>c \<in> set cs. n dvd length c"
  shows "enc (concat cs @ ys) = concat (map enc cs) @ enc ys"
  using assms by (induction cs) (simp_all add: enc_append)

lemma dec_stream:
  assumes "\<forall>c \<in> set cs. n dvd length c"
  shows "dec (concat (map enc cs) @ enc ys) = concat cs @ ys"
  using dec_enc [of "concat cs @ ys"] assms by (simp add: enc_concat)

end

lemma dvd_peel:
  fixes n :: nat
  shows "3 dvd Suc (Suc (Suc n)) \<longleftrightarrow> 3 dvd n" "\<not> 3 dvd Suc (Suc 0)" "\<not> 3 dvd Suc 0"
    "5 dvd Suc (Suc (Suc (Suc (Suc n)))) \<longleftrightarrow> 5 dvd n" "\<not> 5 dvd Suc 0" "\<not> 5 dvd Suc (Suc 0)"
    "\<not> 5 dvd Suc (Suc (Suc 0))" "\<not> 5 dvd Suc (Suc (Suc (Suc 0)))"
  by presburger+

lemma base64_encode_table_append:
  "3 dvd length xs \<Longrightarrow>
     base64_encode_table t (xs @ ys) = base64_encode_table t xs @ base64_encode_table t ys"
  by (induction t xs rule: base64_encode_table.induct) (simp_all add: dvd_peel)

lemma length_base64_encode_table:
  "length (base64_encode_table t xs) = (length xs + (3 - 1)) div 3 * 4"
proof (induction t xs rule: base64_encode_table.induct)
  case (1 table p0 p1 p2 rest)
  then show ?case using ceil_div_add [of 3 "length rest" 4] by simp
qed simp_all

lemma base32_encode_append:
  "5 dvd length xs \<Longrightarrow> base32_encode (xs @ ys) = base32_encode xs @ base32_encode ys"
  by (induction xs rule: base32_encode.induct) (simp_all add: dvd_peel)

lemma length_base32_encode: "length (base32_encode xs) = (length xs + (5 - 1)) div 5 * 8"
proof (induction xs rule: base32_encode.induct)
  case (1 p0 p1 p2 p3 p4 rest)
  then show ?case using ceil_div_add [of 5 "length rest" 8] by simp
qed simp_all

lemma base16_encode_append: "base16_encode (xs @ ys) = base16_encode xs @ base16_encode ys"
  by (induction xs) simp_all

lemma length_base16_encode: "length (base16_encode xs) = length xs * 2"
  by (induction xs) simp_all

interpretation b64: block_codec base64_encode base64_decode 3 4
  by unfold_locales
     (simp_all add: base64_encode_def base64_roundtrip [OF inverse_base64] base64_encode_table_append
       length_base64_encode_table)

interpretation b64url: block_codec base64_encode_url base64_decode 3 4
  by unfold_locales
     (simp_all add: base64_encode_url_def base64_roundtrip [OF inverse_base64_url]
       base64_encode_table_append length_base64_encode_table)

interpretation b32: block_codec base32_encode base32_decode 5 8
  by unfold_locales (simp_all add: base32_roundtrip base32_encode_append length_base32_encode)

interpretation b16: block_codec base16_encode "\<lambda>s. case base16_decode s of None \<Rightarrow> [] | Some t \<Rightarrow> t" 1 2
  by unfold_locales (simp_all add: base16_roundtrip base16_encode_append length_base16_encode)

section \<open>Target buffer bounds of the decoders\<close>

lemma length_base64_decode: "length (base64_decode s) \<le> (length s + 3) div 4 * 3"
proof (induction s rule: base64_decode.induct)
  case (1 source)
  show ?case
  proof (cases "source = [] \<or> hd source = asc CHR ''=''")
    case False
    then have "length (base64_decode source) \<le> 3 + length (base64_decode (drop 4 source))"
      by (subst base64_decode.simps) (simp add: Let_def)
    moreover have "length (base64_decode (drop 4 source)) \<le> (length (drop 4 source) + 3) div 4 * 3"
      using False by (intro 1) auto
    moreover have "3 + (length (drop 4 source) + 3) div 4 * 3 \<le> (length source + 3) div 4 * 3"
      using ceil_div_step' [of 4 "length source" 3] False by simp
    ultimately show ?thesis by linarith
  qed (subst base64_decode.simps, simp)
qed

lemma length_base32_decode: "length (base32_decode s) \<le> (length s + 7) div 8 * 5"
proof (induction s rule: base32_decode.induct)
  case (1 source)
  show ?case
  proof (cases "source = [] \<or> hd source = asc CHR ''=''")
    case False
    then have "length (base32_decode source) \<le> 5 + length (base32_decode (drop 8 source))"
      by (subst base32_decode.simps) (simp add: Let_def)
    moreover have "length (base32_decode (drop 8 source)) \<le> (length (drop 8 source) + 7) div 8 * 5"
      using False by (intro 1) auto
    moreover have "5 + (length (drop 8 source) + 7) div 8 * 5 \<le> (length source + 7) div 8 * 5"
      using ceil_div_step' [of 8 "length source" 5] False by simp
    ultimately show ?thesis by linarith
  qed (subst base32_decode.simps, simp)
qed

section \<open>Properties\<close>

text \<open>C25: Encoding a stream chunk by chunk, with every chunk but the last a whole number of
  three-byte groups, and decoding the concatenated text gives back the stream, for the standard
  and for the URL alphabet.  With no full chunk this is the round trip of one buffer.\<close>

theorem base64_chunked_roundtrip:
  assumes "\<forall>c \<in> set cs. 3 dvd length c"
  shows "base64_decode (concat (map base64_encode cs) @ base64_encode ys) = concat cs @ ys
    \<and> base64_decode (concat (map base64_encode_url cs) @ base64_encode_url ys) = concat cs @ ys"
  using assms by (simp add: b64.dec_stream b64url.dec_stream)

theorem base64_chunked_roundtrip_witness:
  "base64_decode (base64_encode [1, 2, 3] @ base64_encode [251, 255, 254] @ base64_encode [7, 8])
     = [1, 2, 3, 251, 255, 254, 7, 8]"
  using base64_chunked_roundtrip [of "[[1, 2, 3], [251, 255, 254]]" "[7, 8]"]
  by (simp add: dvd_peel)

text \<open>Base32 decodes what it encodes, also chunk by chunk over five-byte groups, and two
  different buffers never have the same base32 text; base16 decodes what it encodes, its
  assertion on an even length never failing on encoded text.\<close>

theorem base32_base16_roundtrip:
  assumes "\<forall>c \<in> set cs. 5 dvd length c"
  shows "base32_decode (concat (map base32_encode cs) @ base32_encode ys) = concat cs @ ys
    \<and> (base32_encode ys = base32_encode zs \<longleftrightarrow> ys = zs)
    \<and> base16_decode (base16_encode ys) = Some ys"
  using assms by (simp add: b32.dec_stream b32.enc_inject base16_roundtrip)

theorem base32_base16_roundtrip_witness:
  "base32_decode (base32_encode [1, 2, 3, 4, 255] @ base32_encode [9, 128])
     = [1, 2, 3, 4, 255, 9, 128]
   \<and> base16_decode (base16_encode [9, 128]) = Some [9, 128]"
  using base32_base16_roundtrip [of "[[1, 2, 3, 4, 255]]" "[9, 128]"] by (simp add: dvd_peel)

lemma length_base16_decode: "map_option length (base16_decode s) = (if even (length s) then Some (length s div 2) else None)"
  by (induction s rule: base16_decode.induct) (auto simp: option.map_comp comp_def)

text \<open>C40: what the functions write.  \<open>base64_decode\<close> never writes more than the \<open>(source + 3)/4 * 3\<close> bytes its header asks
  for, whatever the input; \<open>base64_encode\<close> and \<open>base64_encode_url\<close> write exactly \<open>(source + 2)/3 * 4\<close> characters, which
  the size the header asks for, larger by \<open>source/57\<close> for line breaks that are not written, always holds.  For the
  functions without a documented size: \<open>base32_decode\<close> writes at most \<open>(source + 7)/8 * 5\<close> bytes, \<open>base32_encode\<close> exactly
  \<open>(source + 4)/5 * 8\<close> and \<open>base16_encode\<close> exactly \<open>2 * source\<close> characters, and \<open>base16_decode\<close> exactly \<open>source/2\<close> bytes,
  its assertion failing on a source of odd length.\<close>

theorem base64_target_bounds:
  "length (base64_decode s) \<le> (length s + 3) div 4 * 3
    \<and> length (base64_encode s) = (length s + 2) div 3 * 4
    \<and> length (base64_encode s) \<le> (length s + 2) div 3 * 4 + length s div 57
    \<and> length (base64_encode_url s) = (length s + 2) div 3 * 4
    \<and> length (base32_decode s) \<le> (length s + 7) div 8 * 5
    \<and> length (base32_encode s) = (length s + 4) div 5 * 8
    \<and> map_option length (base16_decode s) = (if even (length s) then Some (length s div 2) else None)
    \<and> length (base16_encode s) = length s * 2"
  using length_base64_decode length_base32_decode b64.length_enc b64url.length_enc b32.length_enc
  by (simp add: length_base16_encode length_base16_decode)

end
