(* ===== verification/Urlcodec.thy ===== *)
theory Urlcodec
  imports Prelude
begin

text \<open>
  Percent-encoding, \<open>src/urlcodec/urlcodec.c\<close>.  A C string is the list of its bytes before the
  terminating NUL, which \<open>cstr_at\<close> supplies when it is read; the pointer \<open>p\<close> is the rest of
  the string together with its offset \<open>k = p - source\<close>, which the parameter \<open>srcBytes\<close> (with
  \<open>-1\<close> for no limit) is compared with.  The target is the list of the bytes written so far,
  so the source's index \<open>i\<close> is its length.  A call returns the C return value and what it
  wrote, the terminating NUL included when it fits.
\<close>

section \<open>The code\<close>

definition cstr_at :: "bytes \<Rightarrow> nat \<Rightarrow> u8" where
  "cstr_at p k = (if k < length p then p ! k else 0)"

definition s_encode :: bytes where
  "s_encode = map of_char ''0123456789ABCDEF''"

definition char_isnum :: "u8 \<Rightarrow> bool" where
  "char_isnum c \<longleftrightarrow> asc CHR ''0'' \<le> c \<and> c \<le> asc CHR ''9''"

definition char_isalpha :: "u8 \<Rightarrow> bool" where
  "char_isalpha c \<longleftrightarrow> (asc CHR ''a'' \<le> c \<and> c \<le> asc CHR ''z'') \<or> (asc CHR ''A'' \<le> c \<and> c \<le> asc CHR ''Z'')"

definition char_isalnum :: "u8 \<Rightarrow> bool" where
  "char_isalnum c \<longleftrightarrow> char_isnum c \<or> char_isalpha c"

definition char_ishex :: "u8 \<Rightarrow> bool" where
  "char_ishex c \<longleftrightarrow> char_isnum c \<or> (asc CHR ''a'' \<le> c \<and> c \<le> asc CHR ''f'')
     \<or> (asc CHR ''A'' \<le> c \<and> c \<le> asc CHR ''F'')"

text \<open>\<open>tolower\<close> of the C locale.\<close>

definition tolower :: "u8 \<Rightarrow> u8" where
  "tolower c = (if asc CHR ''A'' \<le> c \<and> c \<le> asc CHR ''Z'' then c + 32 else c)"

definition HEX :: "u8 \<Rightarrow> u8" where
  "HEX c = (if char_isnum c then c - asc CHR ''0'' else tolower c - asc CHR ''a'' + 10)"

definition src_more :: "int \<Rightarrow> nat \<Rightarrow> bool" where
  "src_more srcBytes k \<longleftrightarrow> srcBytes = -1 \<or> int k < srcBytes"

definition url_plain :: "u8 \<Rightarrow> bool" where
  "url_plain c \<longleftrightarrow> char_isalnum c \<or> c = asc CHR ''-'' \<or> c = asc CHR ''_'' \<or> c = asc CHR ''.'' \<or> c = asc CHR ''~''"

fun url_encode_loop :: "int \<Rightarrow> int \<Rightarrow> bytes \<Rightarrow> nat \<Rightarrow> bytes \<Rightarrow> bool \<times> bytes" where
  "url_encode_loop srcBytes tgtBytes [] k target = (True, target)"
| "url_encode_loop srcBytes tgtBytes (c # p) k target =
     (if c = 0 \<or> \<not> src_more srcBytes k \<or> \<not> int (length target) < tgtBytes then (True, target)
      else if url_plain c then
        url_encode_loop srcBytes tgtBytes p (Suc k) (target @ [c])
      else if c = asc CHR '' '' then
        url_encode_loop srcBytes tgtBytes p (Suc k) (target @ [asc CHR ''+''])
      else if int (length target) + 2 \<ge> tgtBytes then (False, target)
      else url_encode_loop srcBytes tgtBytes p (Suc k)
             (target @ [asc CHR ''%'', s_encode ! unat (shr c 4 AND 0xF), s_encode ! unat (c AND 0xF)]))"

definition url_finish :: "int \<Rightarrow> bool \<times> bytes \<Rightarrow> int \<times> bytes" where
  "url_finish tgtBytes rt =
     (case rt of (ok, target) \<Rightarrow>
       (if ok then int (length target) else -1,
        if int (length target) < tgtBytes then target @ [0] else target))"

definition url_encode :: "bytes \<Rightarrow> int \<Rightarrow> int \<Rightarrow> int \<times> bytes" where
  "url_encode source srcBytes tgtBytes =
     url_finish tgtBytes (url_encode_loop srcBytes tgtBytes source 0 [])"

function url_decode_loop :: "int \<Rightarrow> int \<Rightarrow> bytes \<Rightarrow> nat \<Rightarrow> bytes \<Rightarrow> bool \<times> bytes" where
  "url_decode_loop srcBytes tgtBytes p k target =
     (if cstr_at p 0 = 0 \<or> \<not> src_more srcBytes k \<or> \<not> int (length target) < tgtBytes then (True, target)
      else if cstr_at p 0 = asc CHR ''+'' then
        url_decode_loop srcBytes tgtBytes (drop 1 p) (k + 1) (target @ [asc CHR '' ''])
      else if cstr_at p 0 = asc CHR ''%'' then
        (if src_more srcBytes (k + 1) \<and> cstr_at p 1 = asc CHR ''%'' then
           url_decode_loop srcBytes tgtBytes (drop 2 p) (k + 2) (target @ [asc CHR ''%''])
         else if \<not> char_ishex (cstr_at p 1) \<or> \<not> char_ishex (cstr_at p 2) \<or> \<not> src_more srcBytes (k + 2) then
           (False, target)
         else
           url_decode_loop srcBytes tgtBytes (drop 3 p) (k + 3)
             (target @ [shl (HEX (cstr_at p 1)) 4 OR HEX (cstr_at p 2)]))
      else url_decode_loop srcBytes tgtBytes (drop 1 p) (k + 1) (target @ [cstr_at p 0]))"
  by pat_completeness auto
termination
  by (relation "measure (\<lambda>(srcBytes, tgtBytes, p, k, target). length p)")
     (auto simp: cstr_at_def split: if_splits)

declare url_decode_loop.simps [simp del]

definition url_decode :: "bytes \<Rightarrow> int \<Rightarrow> int \<Rightarrow> int \<times> bytes" where
  "url_decode source srcBytes tgtBytes =
     url_finish tgtBytes (url_decode_loop srcBytes tgtBytes source 0 [])"

section \<open>What the encoder writes\<close>

text \<open>The text of one byte, and of a string.\<close>

definition enc1 :: "u8 \<Rightarrow> bytes" where
  "enc1 c = (if url_plain c then [c] else if c = asc CHR '' '' then [asc CHR ''+'']
     else [asc CHR ''%'', s_encode ! unat (shr c 4 AND 0xF), s_encode ! unat (c AND 0xF)])"

abbreviation url_text :: "bytes \<Rightarrow> bytes" where
  "url_text s \<equiv> concat (map enc1 s)"

lemma enc1_cases:
  obtains "url_plain c" "enc1 c = [c]"
  | "\<not> url_plain c" "c = asc CHR '' ''" "enc1 c = [asc CHR ''+'']"
  | "\<not> url_plain c" "c \<noteq> asc CHR '' ''" "enc1 c =
      [asc CHR ''%'', s_encode ! unat (shr c 4 AND 0xF), s_encode ! unat (c AND 0xF)]"
  by (auto simp: enc1_def)

lemma url_encode_loop_bounds:
  "int (length target) \<le> max 0 tgtBytes \<Longrightarrow> url_encode_loop srcBytes tgtBytes p k target = (ok, t) \<Longrightarrow>
     int (length t) \<le> max 0 tgtBytes"
  by (induction srcBytes tgtBytes p k target rule: url_encode_loop.induct)
     (auto split: if_splits)

text \<open>A call that returns less than the space it had consumed the whole string.\<close>

lemma url_encode_loop_complete:
  assumes "0 \<notin> set p" and "url_encode_loop (-1) tgtBytes p k target = (True, t)"
    and "int (length t) < tgtBytes"
  shows "t = target @ url_text p"
  using assms
proof (induction p arbitrary: k target)
  case (Cons c p)
  from Cons.prems show ?case
    by (auto simp: src_more_def enc1_def split: if_splits dest!: Cons.IH [rotated])
qed simp

lemma url_encode_loop_enough:
  assumes "0 \<notin> set p" and "int (length target) + int (length (url_text p)) < tgtBytes"
  shows "url_encode_loop (-1) tgtBytes p k target = (True, target @ url_text p)"
  using assms
proof (induction p arbitrary: k target)
  case (Cons c p)
  then show ?case
    by (cases c rule: enc1_cases) (simp_all add: src_more_def)
qed simp

section \<open>Decoding the text\<close>

lemma s_encode_hex:
  "list_all2 (\<lambda>c v. HEX c = v \<and> char_ishex c \<and> c \<noteq> 0x25) s_encode (map of_nat [0..<16])"
  by (simp add: s_encode_def upt_conv_Cons HEX_def char_ishex_def char_isnum_def tolower_def)

lemma hex_digit:
  "HEX (s_encode ! unat (v AND 0xF)) = v AND 0xF \<and> char_ishex (s_encode ! unat (v AND 0xF))
     \<and> s_encode ! unat (v AND 0xF) \<noteq> 0x25"
proof -
  have "unat (v AND 0xF) < 16"
    using unat_and_mask_less [of v 4] by (simp add: mask_numeral)
  moreover have "length s_encode = 16" by (simp add: s_encode_def)
  ultimately show ?thesis
    using list_all2_nthD [OF s_encode_hex, of "unat (v AND 0xF)"] by simp
qed

lemma nibbles_join: "shl (shr c 4 AND 0xF) 4 OR (c AND 0xF) = (c::u8)"
  by (simp add: bitwise_eqs bit_simps nat_bits)

lemma url_plain_special: "url_plain c \<Longrightarrow> c \<noteq> 0 \<and> c \<noteq> 0x2B \<and> c \<noteq> 0x25"
  by (auto simp: url_plain_def char_isalnum_def char_isnum_def char_isalpha_def)

lemma url_decode_loop_enc1:
  assumes "c \<noteq> 0" and "int (length target) < tgtBytes"
  shows "url_decode_loop (-1) tgtBytes (enc1 c @ rest) k target =
         url_decode_loop (-1) tgtBytes rest (k + length (enc1 c)) (target @ [c])"
proof (cases c rule: enc1_cases)
  case 1
  then show ?thesis
    using assms url_plain_special [of c]
    by (subst url_decode_loop.simps) (simp add: cstr_at_def src_more_def)
next
  case 2
  then show ?thesis
    using assms by (subst url_decode_loop.simps) (simp add: cstr_at_def src_more_def)
next
  case 3
  then show ?thesis
    using assms hex_digit [of "shr c 4"] hex_digit [of c] nibbles_join [of c]
    by (subst url_decode_loop.simps) (simp add: cstr_at_def src_more_def numeral_3_eq_3)
qed

lemma url_decode_loop_text:
  assumes "0 \<notin> set s" and "int (length target) + int (length s) < tgtBytes"
  shows "url_decode_loop (-1) tgtBytes (url_text s) k target = (True, target @ s)"
  using assms
proof (induction s arbitrary: k target)
  case Nil
  then show ?case by (subst url_decode_loop.simps) (simp add: cstr_at_def)
next
  case (Cons c s)
  then show ?case by (simp add: url_decode_loop_enc1)
qed

lemma url_decode_loop_stop:
  "cstr_at p 0 = 0 \<or> \<not> src_more srcBytes k \<Longrightarrow>
     url_decode_loop srcBytes tgtBytes p k target = (True, target)"
  by (subst url_decode_loop.simps) auto

lemma cstr_at_nonzero: "cstr_at p 0 \<noteq> 0 \<Longrightarrow> p \<noteq> []"
  by (auto simp: cstr_at_def)

lemma url_decode_loop_bounds:
  assumes "int (length target) \<le> max 0 tgtBytes"
    and "url_decode_loop srcBytes tgtBytes p k target = (ok, t)"
  shows "int (length t) \<le> max 0 tgtBytes"
  using assms
proof (induction p arbitrary: k target rule: length_induct)
  case (1 p)
  have IH: "int (length t) \<le> tgtBytes"
    if "url_decode_loop srcBytes tgtBytes (drop j p) k' (target @ [c]) = (ok, t)"
      and "0 < j" "cstr_at p 0 \<noteq> 0" "int (length target) < tgtBytes" for j k' c
    using 1(1) [rule_format, of "drop j p" "target @ [c]" k'] that cstr_at_nonzero [of p] by simp
  from 1(2,3) show ?case
    unfolding url_decode_loop.simps [of _ _ p]
    by (simp only: split: if_splits) (auto dest: IH)
qed

section \<open>The limit on the source\<close>

text \<open>
  A limit of \<open>n\<close> bytes is the same as cutting the string after \<open>n\<close> bytes: nothing past the
  limit is used, although the decoder looks ahead.
\<close>

lemma url_encode_loop_take:
  "url_encode_loop (int n) tgtBytes p k target
     = url_encode_loop (-1) tgtBytes (take (n - k) p) k target"
proof (induction p arbitrary: k target)
  case (Cons c p)
  show ?case
  proof (cases "k < n")
    case True
    then obtain m where "n - k = Suc m" "n - Suc k = m" by (metis Suc_diff_Suc)
    with True show ?thesis by (simp add: Cons src_more_def)
  qed (simp add: src_more_def)
qed simp

lemma cstr_at_take: "cstr_at (take n p) k = (if k < n then cstr_at p k else 0)"
  by (simp add: cstr_at_def)

lemma not_ishex_0: "\<not> char_ishex 0"
  by (simp add: char_ishex_def char_isnum_def)

lemma url_decode_loop_take:
  "url_decode_loop (int n) tgtBytes p k target
     = url_decode_loop (-1) tgtBytes (take (n - k) p) k target"
proof (induction p arbitrary: k target rule: length_induct)
  case (1 p)
  show ?case
  proof (cases "p = [] \<or> \<not> k < n")
    case True
    then have "cstr_at p 0 = 0 \<or> \<not> src_more (int n) k" and "cstr_at (take (n - k) p) 0 = 0"
      by (auto simp: cstr_at_def src_more_def)
    then show ?thesis by (simp add: url_decode_loop_stop)
  next
    case False
    have IH: "url_decode_loop (int n) tgtBytes (drop j p) (k + j) t
        = url_decode_loop (-1) tgtBytes (drop j (take (n - k) p)) (k + j) t" if "0 < j" for j t
      using 1 [rule_format, of "drop j p" "k + j" t] that False by (simp add: drop_take)
    have [simp]: "src_more (int n) j \<longleftrightarrow> j < n" "src_more (-1) j" for j
      by (auto simp: src_more_def)
    show ?thesis
      using False
      unfolding url_decode_loop.simps [of "int n" tgtBytes p k target]
        url_decode_loop.simps [of "-1" tgtBytes "take (n - k) p" k target]
      by (simp only: IH zero_less_one zero_less_numeral)
         (simp add: cstr_at_take less_diff_conv add.commute not_ishex_0)
  qed
qed

section \<open>Properties\<close>

lemma url_encode_complete:
  assumes "0 \<notin> set s" and "url_encode s (-1) n = (r, t)" and "0 \<le> r" and "r < n"
  shows "t = url_text s @ [0]" and "r = int (length (url_text s))"
proof -
  obtain ok u where loop: "url_encode_loop (-1) n s 0 [] = (ok, u)" by fastforce
  with assms have "ok" "r = int (length u)" "t = u @ [0]"
    by (auto simp: url_encode_def url_finish_def split: if_splits)
  with loop assms url_encode_loop_complete [of s n 0 "[]" u]
  show "t = url_text s @ [0]" "r = int (length (url_text s))" by auto
qed

text \<open>C27: Percent-encoding followed by decoding gives back the string: whenever \<open>url_encode\<close>
  returns a count below the size of its target, the text it wrote, read as a C string, decodes
  to exactly the source, NUL-terminated, into any target with room for it.\<close>

theorem url_roundtrip:
  assumes "0 \<notin> set s" and "url_encode s (-1) n = (r, t)" and "0 \<le> r" and "r < n"
    and "int (length s) < m"
  shows "url_decode (butlast t) (-1) m = (int (length s), s @ [0])"
  using url_encode_complete(1) [OF assms(1-4)] url_decode_loop_text [OF assms(1), of "[]" m 0] assms(5)
  by (simp add: url_decode_def url_finish_def)

theorem url_roundtrip_witness:
  "url_decode (butlast (snd (url_encode (map of_char ''a b%&z'') (-1) 32))) (-1) 16
     = (6, map of_char ''a b%&z'' @ [0])"
proof -
  have "url_encode (map of_char ''a b%&z'') (-1) 32 = (10, map of_char ''a+b%25%26z'' @ [0])"
    by (simp add: url_encode_def url_finish_def src_more_def url_plain_def char_isalnum_def
        char_isnum_def char_isalpha_def s_encode_def)
  then show ?thesis
    using url_roundtrip [of "map of_char ''a b%&z''" 32 10 "map of_char ''a+b%25%26z'' @ [0]" 16]
    by simp
qed

text \<open>A source limit of \<open>n\<close> bytes behaves as cutting the string after \<open>n\<close> bytes, for
  both directions and any target size: the look-ahead of the decoder for \<open>%%\<close> and for the two
  digits of an escape never lets a byte past the limit change the result.\<close>

theorem url_source_limit:
  "url_encode s (int n) m = url_encode (take n s) (-1) m
   \<and> url_decode s (int n) m = url_decode (take n s) (-1) m"
  using url_encode_loop_take [of n m s 0 "[]"] url_decode_loop_take [of n m s 0 "[]"]
  by (simp add: url_encode_def url_decode_def)

text \<open>Neither direction ever writes past the target, whatever the source, the limit and the
  target size: the terminating NUL is included in the count, and is there whenever the call
  returns less than the target size.\<close>

theorem url_target_bounds:
  "int (length (snd (url_encode s k m))) \<le> max 0 m
   \<and> int (length (snd (url_decode s k m))) \<le> max 0 m
   \<and> (fst (url_encode s k m) \<in> {0..<m} \<longrightarrow> last (snd (url_encode s k m)) = 0)
   \<and> (fst (url_decode s k m) \<in> {0..<m} \<longrightarrow> last (snd (url_decode s k m)) = 0)"
proof -
  have fin: "int (length (snd (url_finish m rt))) \<le> max 0 m
      \<and> (fst (url_finish m rt) \<in> {0..<m} \<longrightarrow> last (snd (url_finish m rt)) = 0)"
    if "int (length (snd rt)) \<le> max 0 m" for rt
    using that by (auto simp: url_finish_def split: prod.splits)
  obtain a b c d where "url_encode_loop k m s 0 [] = (a, b)" "url_decode_loop k m s 0 [] = (c, d)"
    by fastforce
  then show ?thesis
    using fin [of "(a, b)"] fin [of "(c, d)"] url_encode_loop_bounds [of "[]" m k s 0 a b]
      url_decode_loop_bounds [of "[]" m k s 0 c d]
    by (simp add: url_encode_def url_decode_def)
qed

theorem url_target_bounds_witness:
  "fst (url_encode [97, 98] (-1) 8) \<in> {0..<8} \<and> last (snd (url_encode [97, 98] (-1) 8)) = 0"
proof -
  have "fst (url_encode [97, 98] (-1) 8) \<in> {0..<8}"
    by (simp add: url_encode_def url_finish_def src_more_def url_plain_def char_isalnum_def
        char_isnum_def char_isalpha_def)
  with url_target_bounds [of "[97, 98]" "-1" 8] show ?thesis by blast
qed

end
