(* ===== verification/Bit_Stream.thy ===== *)
theory Bit_Stream
  imports Prelude
begin

text \<open>
  The interface of a bit stream: bytes as lists of bits, most significant bit first, the value
  of a field, and the contracts of a reader and of a writer of fields as locales.  A format that
  writes a sequence of fields and reads it back relies on these contracts only; the bit streams
  of the sources interpret them.
\<close>

section \<open>Bits of bytes\<close>

definition byte_bits :: "u8 \<Rightarrow> bool list" where
  "byte_bits c = map (\<lambda>i. bit c (7 - i)) [0..<8]"

definition bits_of :: "bytes \<Rightarrow> bool list" where
  "bits_of d = concat (map byte_bits d)"

text \<open>The value of a bit list, first bit most significant, and the low \<open>n\<close> bits of a value.\<close>

definition bits_value :: "bool list \<Rightarrow> u64" where
  "bits_value bs = horner_sum of_bool 2 (rev bs)"

definition to_bits :: "nat \<Rightarrow> u64 \<Rightarrow> bool list" where
  "to_bits n v = map (\<lambda>i. bit v (n - 1 - i)) [0..<n]"

lemma bits_value_Nil [simp]: "bits_value [] = 0"
  by (simp add: bits_value_def)

lemma bits_value_append: "bits_value (xs @ ys) = shl (bits_value xs) (length ys) + bits_value ys"
  by (simp add: bits_value_def horner_sum_append push_bit_eq_mult algebra_simps)

lemma length_byte_bits [simp]: "length (byte_bits c) = 8"
  by (simp add: byte_bits_def)

lemma nth_byte_bits: "i < 8 \<Longrightarrow> byte_bits c ! i = bit c (7 - i)"
  by (simp add: byte_bits_def)

lemma length_bits_of [simp]: "length (bits_of d) = 8 * length d"
  by (induction d) (simp_all add: bits_of_def)

lemma bits_of_simps [simp]:
  "bits_of [] = []" "bits_of (c # d) = byte_bits c @ bits_of d"
  by (simp_all add: bits_of_def)

lemma nth_bits_of: "i < 8 * length d \<Longrightarrow> bits_of d ! i = bit (d ! (i div 8)) (7 - i mod 8)"
proof (induction d arbitrary: i)
  case (Cons c d)
  show ?case
  proof (cases "i < 8")
    case False
    then have "bits_of d ! (i - 8) = bit (d ! ((i - 8) div 8)) (7 - (i - 8) mod 8)"
      using Cons by auto
    moreover have "(i - 8) mod 8 = i mod 8" and "i div 8 = Suc ((i - 8) div 8)"
      using False by (simp_all add: le_mod_geq le_div_geq)
    ultimately show ?thesis using False by (simp add: nth_append)
  qed (simp add: nth_append nth_byte_bits)
qed simp

lemma drop_bits_of: "drop (8 * k) (bits_of d) = bits_of (drop k d)"
proof (induction d arbitrary: k)
  case (Cons c d)
  then show ?case by (cases k) simp_all
qed simp

text \<open>The value of a segment of one byte.\<close>

lemma bits_value_segment:
  assumes "r + n \<le> 8"
  shows "bits_value (take n (drop r (byte_bits c))) = take_bit n (shr (ucast c) (8 - r - n))"
proof -
  have "take n (drop r (byte_bits c)) = map (\<lambda>i. bit c (7 - r - i)) [0..<n]"
    using assms by (intro nth_equalityI) (simp_all add: nth_byte_bits add.commute)
  moreover have "rev (map (\<lambda>i. bit c (7 - r - i)) [0..<n])
      = map (bit (shr (ucast c :: u64) (8 - r - n))) [0..<n]"
    using assms
    by (intro nth_equalityI) (auto simp: rev_nth bit_simps intro!: arg_cong [where f = "bit c"])
  ultimately show ?thesis
    by (simp add: bits_value_def horner_sum_bit_eq_take_bit)
qed

lemma length_to_bits [simp]: "length (to_bits n v) = n"
  by (simp add: to_bits_def)

lemma nth_to_bits: "i < n \<Longrightarrow> to_bits n v ! i = bit v (n - 1 - i)"
  by (simp add: to_bits_def)

lemma bits_value_to_bits: "bits_value (to_bits n v) = take_bit n v"
proof -
  have "rev (to_bits n v) = map (bit v) [0..<n]"
    by (intro nth_equalityI) (auto simp: rev_nth to_bits_def)
  then show ?thesis by (simp add: bits_value_def horner_sum_bit_eq_take_bit)
qed

lemma to_bits_Suc: "to_bits (Suc n) v = bit v n # to_bits n v"
  by (simp add: to_bits_def upt_conv_Cons map_Suc_upt [symmetric] del: upt_Suc)

section \<open>Contracts\<close>

fun read_all :: "('s \<Rightarrow> nat \<Rightarrow> (u64 \<times> 's) option) \<Rightarrow> 's \<Rightarrow> nat list \<Rightarrow> (u64 list \<times> 's) option" where
  "read_all rd s [] = Some ([], s)"
| "read_all rd s (n # ns) =
     (case rd s n of None \<Rightarrow> None
      | Some (v, s') \<Rightarrow> map_option (\<lambda>(vs, t). (v # vs, t)) (read_all rd s' ns))"

fun write_all :: "('s \<Rightarrow> u64 \<Rightarrow> nat \<Rightarrow> 's option) \<Rightarrow> 's \<Rightarrow> (u64 \<times> nat) list \<Rightarrow> 's option" where
  "write_all wr s [] = Some s"
| "write_all wr s ((v, n) # fs) =
     (case wr s v n of None \<Rightarrow> None | Some s' \<Rightarrow> write_all wr s' fs)"

text \<open>Fields of at most 64 bits, and the stream they make.\<close>

definition fields_ok :: "(u64 \<times> nat) list \<Rightarrow> bool" where
  "fields_ok fs \<longleftrightarrow> (\<forall>(v, n) \<in> set fs. 0 < n \<and> n \<le> 64)"

definition fields_bits :: "(u64 \<times> nat) list \<Rightarrow> bool list" where
  "fields_bits fs = concat (map (\<lambda>(v, n). to_bits n v) fs)"

lemma fields_simps [simp]:
  "fields_ok []" "fields_ok ((v, n) # fs) \<longleftrightarrow> 0 < n \<and> n \<le> 64 \<and> fields_ok fs"
  "fields_bits [] = []" "fields_bits ((v, n) # fs) = to_bits n v @ fields_bits fs"
  by (auto simp: fields_ok_def fields_bits_def)

locale bit_reader =
  fixes rd :: "'r \<Rightarrow> nat \<Rightarrow> (u64 \<times> 'r) option"
    and rest :: "'r \<Rightarrow> bool list"
    and rwf :: "'r \<Rightarrow> bool"
  assumes read_field: "\<lbrakk>rwf s; 0 < n; n \<le> 64; n \<le> length (rest s)\<rbrakk> \<Longrightarrow>
    \<exists>s'. rd s n = Some (bits_value (take n (rest s)), s') \<and> rwf s' \<and> rest s' = drop n (rest s)"
begin

lemma read_fields:
  assumes "rwf s" and "fields_ok fs" and "rest s = fields_bits fs @ t"
  shows "\<exists>s'. read_all rd s (map snd fs) = Some (map (\<lambda>(v, n). take_bit n v) fs, s')
           \<and> rwf s' \<and> rest s' = t"
  using assms
proof (induction fs arbitrary: s)
  case (Cons f fs)
  obtain v n where f: "f = (v, n)" by fastforce
  from Cons.prems f read_field [of s n] obtain s' where s':
    "rd s n = Some (bits_value (to_bits n v), s')" "rwf s'" "rest s' = fields_bits fs @ t"
    by auto
  with Cons.IH [of s'] Cons.prems f obtain s'' where
    "read_all rd s' (map snd fs) = Some (map (\<lambda>(v, n). take_bit n v) fs, s'')"
    "rwf s''" "rest s'' = t" by auto
  with s' f show ?case by (simp add: bits_value_to_bits)
qed simp

end

locale bit_writer =
  fixes wr :: "'w \<Rightarrow> u64 \<Rightarrow> nat \<Rightarrow> 'w option"
    and written :: "'w \<Rightarrow> bool list"
    and room :: "'w \<Rightarrow> nat"
    and wwf :: "'w \<Rightarrow> bool"
  assumes write_field: "\<lbrakk>wwf s; 0 < n; n \<le> 64; n \<le> room s\<rbrakk> \<Longrightarrow>
    \<exists>s'. wr s v n = Some s' \<and> wwf s' \<and> written s' = written s @ to_bits n v \<and> room s' = room s - n"
begin

lemma write_fields:
  assumes "wwf s" and "fields_ok fs" and "length (fields_bits fs) \<le> room s"
  shows "\<exists>s'. write_all wr s fs = Some s' \<and> wwf s' \<and> written s' = written s @ fields_bits fs
           \<and> room s' = room s - length (fields_bits fs)"
  using assms
proof (induction fs arbitrary: s)
  case (Cons f fs)
  obtain v n where f: "f = (v, n)" by fastforce
  from Cons.prems f write_field [of s n v] obtain s' where s':
    "wr s v n = Some s'" "wwf s'" "written s' = written s @ to_bits n v" "room s' = room s - n"
    by auto
  with Cons.IH [of s'] Cons.prems f show ?case by auto
qed simp

end

text \<open>A reader opened on what a writer produced.\<close>

locale bit_channel = bit_reader rd rest rwf + bit_writer wr written room wwf
  for rd :: "'r \<Rightarrow> nat \<Rightarrow> (u64 \<times> 'r) option" and rest rwf
    and wr :: "'w \<Rightarrow> u64 \<Rightarrow> nat \<Rightarrow> 'w option" and written room wwf +
  fixes reopen :: "'w \<Rightarrow> 'r"
  assumes reopen: "wwf w \<Longrightarrow> rwf (reopen w) \<and> (\<exists>pad. rest (reopen w) = written w @ pad)"
begin

lemma fields_roundtrip:
  assumes "wwf s" and "written s = []" and "fields_ok fs" and "length (fields_bits fs) \<le> room s"
  shows "\<exists>s' r. write_all wr s fs = Some s'
    \<and> read_all rd (reopen s') (map snd fs) = Some (map (\<lambda>(v, n). take_bit n v) fs, r)"
proof -
  from write_fields [OF assms(1,3,4)] assms(2) obtain s' where
    s': "write_all wr s fs = Some s'" "wwf s'" "written s' = fields_bits fs" by auto
  with reopen [of s'] obtain pad where "rwf (reopen s')" "rest (reopen s') = fields_bits fs @ pad"
    by auto
  with read_fields [OF _ assms(3)] s'(1) show ?thesis by blast
qed

end

end
