(* ===== verification/Bits.thy ===== *)
theory Bits
  imports Bit_Stream
begin

text \<open>
  The bit-stream reader and writer of \<open>src/bits/bits.c\<close>.  \<open>struct bits\<close> is the record \<open>bits\<close>
  (the C fields \<open>data\<close>, \<open>size\<close>, \<open>bits\<close> and \<open>error\<close>, prefixed); a failed assertion of the source is \<open>None\<close>.  The offset and the size
  are natural numbers: a buffer in memory has fewer than \<open>2 ^ 61\<close> bytes, so \<open>bits->size * 8\<close>
  does not wrap.

  The abstraction is the list of the buffer's bits, most significant bit of each byte first
  (\<open>bits_of\<close> of \<open>Bit_Stream\<close>): reading \<open>n\<close> bits is the value of the next \<open>n\<close> elements, writing appends to the
  stream, and the Exp-Golomb reader decodes the code word at the front.
\<close>

section \<open>The code\<close>

record bits =
  bs_data :: bytes
  bs_size :: nat
  bs_bits :: nat
  bs_error :: int

definition bits_init :: "bytes \<Rightarrow> bits" where
  "bits_init d = \<lparr>bs_data = d, bs_size = length d, bs_bits = 0, bs_error = 0\<rparr>"

definition bits_next :: "bits \<Rightarrow> (int \<times> bits) option" where
  "bits_next b =
     (if \<not> bs_size b > 0 then None
      else if bs_bits b \<ge> bs_size b * 8 then Some (0, b\<lparr>bs_error := -1\<rparr>)
      else let v = bs_data b ! (bs_bits b div 8) AND shr 0x80 (bs_bits b mod 8)
           in Some (if v \<noteq> 0 then 1 else 0, b))"

text \<open>The loop over the whole bytes that follow the first one, and the last partial byte.\<close>

function bits_next_n_loop :: "bytes \<Rightarrow> nat \<Rightarrow> nat \<Rightarrow> nat \<Rightarrow> u64 \<Rightarrow> u64" where
  "bits_next_n_loop d sz j n v =
     (if n \<ge> 8 \<and> j < sz then bits_next_n_loop d sz (Suc j) (n - 8) (shl v 8 + ucast (d ! j))
      else if n > 0 then shl v n + ucast (shr (d ! j) (8 - n))
      else v)"
  by pat_completeness auto
termination
  by (relation "measure (\<lambda>(d, sz, j, n, v). n)") auto

declare bits_next_n_loop.simps [simp del]

definition bits_next_n :: "bits \<Rightarrow> int \<Rightarrow> (u64 \<times> bits) option" where
  "bits_next_n b n =
     (if \<not> (n > 0 \<and> n \<le> 64) then None
      else if \<not> bs_size b > 0 then None
      else if int (bs_bits b) + n > int (bs_size b) * 8 \<or> n > 64 \<or> n < 0 then Some (0, b\<lparr>bs_error := -1\<rparr>)
      else let v = ucast (bs_data b ! (bs_bits b div 8) AND shr 0xFF (bs_bits b mod 8)) :: u64
           in if n \<le> 8 - int (bs_bits b mod 8) then Some (shr v (nat (8 - int (bs_bits b mod 8) - n)), b)
              else Some (bits_next_n_loop (bs_data b) (bs_size b) (bs_bits b div 8 + 1)
                           (nat (n - (8 - int (bs_bits b mod 8)))) v, b))"

definition bits_read :: "bits \<Rightarrow> (int \<times> bits) option" where
  "bits_read b =
     (case bits_next b of None \<Rightarrow> None
      | Some (bt, b') \<Rightarrow> Some (bt, if bs_error b' = 0 then b'\<lparr>bs_bits := bs_bits b' + 1\<rparr> else b'))"

definition bits_read_n :: "bits \<Rightarrow> int \<Rightarrow> (u64 \<times> bits) option" where
  "bits_read_n b n =
     (case bits_next_n b n of None \<Rightarrow> None
      | Some (v, b') \<Rightarrow> Some (v, if bs_error b' = 0 then b'\<lparr>bs_bits := bs_bits b' + nat n\<rparr> else b'))"

text \<open>
  The search for the first set bit, \<open>for (bit = 0; !bit && -1 != bit; ++leadingZeroBits)\<close>: it
  returns \<open>leadingZeroBits\<close>.  Nothing bounds this loop, so not returning is \<open>None\<close>, as is a
  failed assertion.
\<close>

partial_function (option) leading_zeros :: "bits \<Rightarrow> int \<Rightarrow> (int \<times> bits) option" where
  "leading_zeros b z =
     (case bits_read b of None \<Rightarrow> None
      | Some (bt, b') \<Rightarrow> if bt = 0 then leading_zeros b' (z + 1) else Some (z + 1, b'))"

definition bits_read_ue :: "bits \<Rightarrow> (int \<times> bits) option" where
  "bits_read_ue b =
     (case leading_zeros b (-1) of None \<Rightarrow> None
      | Some (z, b') \<Rightarrow>
          if z > 0 then
            (if \<not> z < 32 then None
             else case bits_read_n b' z of None \<Rightarrow> None
                  | Some (v, b'') \<Rightarrow> Some (2 ^ nat z - 1 + uint v, b''))
          else Some (2 ^ nat z - 1, b'))"

text \<open>C's \<open>%\<close> and \<open>/\<close> by 2 on the result, which truncate towards zero.\<close>

definition bits_read_se :: "bits \<Rightarrow> (int \<times> bits) option" where
  "bits_read_se b =
     (case bits_read_ue b of None \<Rightarrow> None
      | Some (v, b') \<Rightarrow> Some ((if v mod 2 = 0 then -1 else 1) * (sgn (v + 1) * (\<bar>v + 1\<bar> div 2)), b'))"

definition bits_read_te :: "bits \<Rightarrow> (int \<times> bits) option" where
  "bits_read_te b =
     (case bits_read_ue b of None \<Rightarrow> None
      | Some (v, b') \<Rightarrow>
          if v \<noteq> 1 then Some (v, b')
          else case bits_read b' of None \<Rightarrow> None
               | Some (bt, b'') \<Rightarrow> Some (if bt \<noteq> 0 then 0 else 1, b''))"

definition bits_write :: "bits \<Rightarrow> int \<Rightarrow> (int \<times> bits) option" where
  "bits_write b v =
     (if \<not> bs_size b > 0 then None
      else if bs_bits b \<ge> bs_size b * 8 then Some (-1, b\<lparr>bs_error := -1\<rparr>)
      else let k = bs_bits b div 8;
               d = (if v \<noteq> 0 then (bs_data b)[k := bs_data b ! k OR shr 0x80 (bs_bits b mod 8)] else bs_data b)
           in Some (0, b\<lparr>bs_data := d, bs_bits := bs_bits b + 1\<rparr>))"

text \<open>The loop over the following bytes, with its assertion \<open>bits->bits / 8 + i < bits->size\<close>.\<close>

function bits_write_n_loop :: "nat \<Rightarrow> bytes \<Rightarrow> nat \<Rightarrow> int \<Rightarrow> u64 \<Rightarrow> bytes option" where
  "bits_write_n_loop sz d j n v =
     (if n > 0 then
        if \<not> j < sz then None
        else bits_write_n_loop sz (d[j := ucast (shr v 56)]) (Suc j) (n - 8) (shl v 8)
      else Some d)"
  by pat_completeness auto
termination
  by (relation "measure (\<lambda>(sz, d, j, n, v). nat n)") auto

declare bits_write_n_loop.simps [simp del]

definition bits_write_n :: "bits \<Rightarrow> u64 \<Rightarrow> int \<Rightarrow> (int \<times> bits) option" where
  "bits_write_n b v n =
     (if \<not> (n > 0 \<and> n \<le> 64) then None
      else if \<not> bs_size b > 0 then None
      else if int (bs_bits b) + n > int (bs_size b) * 8 \<or> n > 64 \<or> n < 0 then Some (-1, b\<lparr>bs_error := -1\<rparr>)
      else let k = bs_bits b div 8; r = bs_bits b mod 8;
               v1 = shl v (nat (64 - n));
               d = (bs_data b)[k := bs_data b ! k OR ucast (shr v1 (56 + r))];
               v2 = shl v1 (8 - r)
           in case bits_write_n_loop (bs_size b) d (k + 1) (n - (8 - int r)) v2 of
                None \<Rightarrow> None
              | Some d' \<Rightarrow> Some (0, b\<lparr>bs_data := d', bs_bits := bs_bits b + nat n\<rparr>))"

section \<open>Reading\<close>

lemma ucast_shr_mask: "ucast (c AND shr 0xFF r) = (take_bit (8 - r) (ucast (c::u8)) :: u64)"
proof -
  have "(0xFF :: u8) = - 1" by simp
  then show ?thesis
    by (simp only:) (intro bit_word_eqI, auto simp: bit_simps less_diff_conv)
qed

lemma ucast_shr: "ucast (shr (c::u8) k) = (shr (ucast c) k :: u64)"
  by (intro bit_word_eqI) (auto simp: bit_simps dest: bit_imp_le_length)

text \<open>The loop reads what is left of the field from byte \<open>j\<close> on.\<close>

lemma bits_next_n_loop_value:
  assumes "n \<le> 8 * (length d - j)"
  shows "bits_next_n_loop d (length d) j n v = shl v n + bits_value (take n (bits_of (drop j d)))"
  using assms
proof (induction d "length d" j n v rule: bits_next_n_loop.induct)
  case (1 d j n v)
  show ?case
  proof (cases "n \<ge> 8 \<and> j < length d")
    case True
    then have d: "drop j d = d ! j # drop (Suc j) d" by (simp add: Cons_nth_drop_Suc)
    have "bits_value (byte_bits (d ! j)) = ucast (d ! j)"
      using bits_value_segment [of 0 8 "d ! j"]
      by (auto simp: bit_eq_iff bit_simps dest: bit_imp_le_length)
    moreover have "bits_next_n_loop d (length d) (Suc j) (n - 8) (shl v 8 + ucast (d ! j))
       = shl (shl v 8 + ucast (d ! j)) (n - 8) + bits_value (take (n - 8) (bits_of (drop (Suc j) d)))"
      using True 1(2) by (intro 1(1)) auto
    moreover have "shl (shl v 8) (n - 8) = shl v n"
      using True by (simp add: push_bit_push_bit)
    moreover have "length (take (n - 8) (bits_of (drop (Suc j) d))) = n - 8"
      using True 1(2) by simp
    ultimately show ?thesis
      using True
      by (subst bits_next_n_loop.simps) (simp add: d bits_value_append push_bit_add add.assoc)
  next
    case False
    show ?thesis
    proof (cases "n = 0")
      case True
      then show ?thesis by (subst bits_next_n_loop.simps) simp
    next
      case pos: False
      with False 1(2) have "j < length d" "n < 8" by (cases "j < length d", auto)+
      then have "take n (bits_of (drop j d)) = take n (drop 0 (byte_bits (d ! j)))"
        by (simp add: Cons_nth_drop_Suc [symmetric])
      moreover have "take_bit n (shr (ucast (d ! j)) (8 - n)) = (shr (ucast (d ! j)) (8 - n) :: u64)"
        using \<open>n < 8\<close>
        by (intro bit_word_eqI) (auto simp: bit_simps dest: bit_imp_le_length)
      ultimately show ?thesis
        using pos \<open>n < 8\<close> bits_value_segment [of 0 n "d ! j"]
        by (subst bits_next_n_loop.simps) (simp add: ucast_shr)
    qed
  qed
qed

text \<open>A well-formed reader: the size is the buffer's, the offset is within it, no error yet.\<close>

definition bits_wf :: "bits \<Rightarrow> bool" where
  "bits_wf b \<longleftrightarrow> bs_size b = length (bs_data b) \<and> bs_bits b \<le> 8 * bs_size b \<and> bs_error b = 0"

text \<open>The bits not yet read.\<close>

definition unread :: "bits \<Rightarrow> bool list" where
  "unread b = drop (bs_bits b) (bits_of (bs_data b))"

lemma length_unread: "bits_wf b \<Longrightarrow> length (unread b) = 8 * bs_size b - bs_bits b"
  by (simp add: unread_def bits_wf_def)

lemma unread_byte:
  assumes "bits_wf b" and "unread b \<noteq> []"
  shows "bs_bits b div 8 < bs_size b"
    and "unread b = drop (bs_bits b mod 8) (byte_bits (bs_data b ! (bs_bits b div 8)))
           @ bits_of (drop (bs_bits b div 8 + 1) (bs_data b))"
proof -
  let ?k = "bs_bits b div 8" and ?r = "bs_bits b mod 8"
  have "bs_bits b < 8 * bs_size b"
    using assms length_unread [of b] by (cases "unread b") auto
  then show *: "?k < bs_size b" by (simp add: less_mult_imp_div_less mult.commute)
  have "unread b = drop ?r (drop (8 * ?k) (bits_of (bs_data b)))"
    by (simp add: unread_def)
  also have "drop (8 * ?k) (bits_of (bs_data b))
      = byte_bits (bs_data b ! ?k) @ bits_of (drop (?k + 1) (bs_data b))"
    using * assms(1) by (simp add: drop_bits_of bits_wf_def flip: Cons_nth_drop_Suc)
  finally show "unread b = drop ?r (byte_bits (bs_data b ! ?k)) @ bits_of (drop (?k + 1) (bs_data b))"
    by simp
qed

lemma bits_next_n_value:
  assumes wf: "bits_wf b" and n: "0 < n" "n \<le> 64" and room: "n \<le> length (unread b)"
  shows "bits_next_n b (int n) = Some (bits_value (take n (unread b)), b)"
proof -
  let ?k = "bs_bits b div 8" and ?r = "bs_bits b mod 8"
  let ?c = "bs_data b ! ?k" and ?v = "ucast (bs_data b ! ?k AND shr 0xFF ?r) :: u64"
  have ne: "unread b \<noteq> []" using n room by auto
  note byte = unread_byte [OF wf ne]
  have sz: "bs_size b = length (bs_data b)" "0 < bs_size b" and r: "?r < 8"
    using byte(1) wf by (auto simp: bits_wf_def)
  have fits: "\<not> int (bs_bits b) + int n > int (bs_size b) * 8"
    using room length_unread [OF wf] wf unfolding bits_wf_def by linarith
  show ?thesis
  proof (cases "n \<le> 8 - ?r")
    case True
    then have "take n (unread b) = take n (drop ?r (byte_bits ?c))"
      using byte(2) by simp
    moreover have "shr ?v (8 - ?r - n) = take_bit n (shr (ucast ?c) (8 - ?r - n))"
      using True by (simp add: ucast_shr_mask drop_bit_take_bit)
    moreover have "nat (8 - int ?r - int n) = 8 - ?r - n" using True r by simp
    ultimately show ?thesis
      using True n sz r fits bits_value_segment [of ?r n ?c]
      by (auto simp: bits_next_n_def Let_def)
  next
    case False
    let ?m = "n - (8 - ?r)"
    have "nat (int n - (8 - int ?r)) = ?m" using False r by simp
    moreover have "?v = bits_value (drop ?r (byte_bits ?c))"
      using bits_value_segment [of ?r "8 - ?r" ?c] r by (simp add: ucast_shr_mask)
    moreover have "?m \<le> 8 * (length (bs_data b) - (?k + 1))"
    proof -
      have "length (unread b) = 8 - ?r + 8 * (length (bs_data b) - (?k + 1))"
        using byte(2) by simp
      with room False show ?thesis by linarith
    qed
    moreover from this have "length (take ?m (bits_of (drop (?k + 1) (bs_data b)))) = ?m"
      by simp
    moreover have "take n (unread b)
        = drop ?r (byte_bits ?c) @ take ?m (bits_of (drop (?k + 1) (bs_data b)))"
      using byte(2) False r by simp
    ultimately show ?thesis
      using False n sz r fits
      by (auto simp: bits_next_n_def Let_def bits_next_n_loop_value bits_value_append)
  qed
qed

text \<open>What a successful read leaves.\<close>

definition advance :: "nat \<Rightarrow> bits \<Rightarrow> bits" where
  "advance n b = b\<lparr>bs_bits := bs_bits b + n\<rparr>"

lemma advance_simps [simp]:
  "bs_data (advance n b) = bs_data b" "bs_size (advance n b) = bs_size b"
  "bs_bits (advance n b) = bs_bits b + n" "bs_error (advance n b) = bs_error b"
  "advance m (advance n b) = advance (n + m) b" "advance 0 b = b"
  by (simp_all add: advance_def)

lemma unread_advance [simp]: "unread (advance n b) = drop n (unread b)"
  by (simp add: unread_def add.commute)

lemma bits_wf_advance: "bits_wf b \<Longrightarrow> n \<le> length (unread b) \<Longrightarrow> bits_wf (advance n b)"
  by (auto simp: bits_wf_def unread_def)

lemma bits_read_n_value:
  assumes "bits_wf b" and "0 < n" "n \<le> 64" and "n \<le> length (unread b)"
  shows "bits_read_n b (int n) = Some (bits_value (take n (unread b)), advance n b)"
  using bits_next_n_value [OF assms] assms(1) by (simp add: bits_read_n_def bits_wf_def advance_def)

lemma bits_read_Cons:
  assumes wf: "bits_wf b" and "unread b = x # xs"
  shows "bits_read b = Some (of_bool x, advance 1 b)"
proof -
  let ?k = "bs_bits b div 8" and ?r = "bs_bits b mod 8"
  have lt: "bs_bits b < 8 * bs_size b" and r: "?r < 8"
    using length_unread [OF wf] assms(2) by auto
  have x: "x = bit (bs_data b ! ?k) (7 - ?r)"
    using assms lt nth_bits_of [of "bs_bits b" "bs_data b"]
    by (simp add: unread_def bits_wf_def nth_via_drop)
  have "shr (0x80 :: u8) ?r = push_bit (7 - ?r) 1"
    using r by (rule shr_0x80)
  then have "(bs_data b ! ?k AND shr 0x80 ?r \<noteq> 0) = x"
    using r x by (simp add: bit_iff_and_push_bit_not_eq_0)
  with lt wf show ?thesis
    by (auto simp: bits_read_def bits_next_def bits_wf_def advance_def)
qed

interpretation stream: bit_reader "\<lambda>b n. bits_read_n b (int n)" unread bits_wf
  by unfold_locales (auto simp: bits_read_n_value bits_wf_advance)

section \<open>Exp-Golomb codes\<close>

lemma leading_zeros_found:
  assumes "bits_wf b" and "unread b = replicate z False @ True # xs"
  shows "leading_zeros b c = Some (c + int z + 1, advance (z + 1) b)"
  using assms
proof (induction z arbitrary: b c)
  case 0
  then show ?case by (subst leading_zeros.simps) (simp add: bits_read_Cons)
next
  case (Suc z)
  have "bits_wf (advance 1 b)" using Suc.prems by (intro bits_wf_advance) simp_all
  then have "leading_zeros (advance 1 b) (c + 1) = Some (c + 1 + int z + 1, advance (z + 1) (advance 1 b))"
    using Suc.prems by (intro Suc.IH) simp_all
  moreover have "bits_read b = Some (0, advance 1 b)"
    using bits_read_Cons [of b False] Suc.prems by simp
  ultimately show ?case by (subst leading_zeros.simps) simp
qed

text \<open>With no set bit left the search never returns: \<open>bits_read\<close> reports the end of the data as
  another zero bit.\<close>

definition exhausted :: "bits \<Rightarrow> bool" where
  "exhausted b \<longleftrightarrow> 0 < bs_size b \<and> bs_size b = length (bs_data b) \<and> True \<notin> set (unread b)"

lemma exhausted_read:
  assumes "exhausted b"
  shows "\<exists>b'. bits_read b = Some (0, b') \<and> exhausted b'"
proof (cases "bs_bits b < 8 * bs_size b")
  case False
  then have "bits_read b = Some (0, b\<lparr>bs_error := -1\<rparr>)"
    using assms by (auto simp: bits_read_def bits_next_def exhausted_def)
  moreover have "exhausted (b\<lparr>bs_error := -1\<rparr>)"
    using assms by (auto simp: exhausted_def unread_def)
  ultimately show ?thesis by simp
next
  case True
  let ?b = "b\<lparr>bs_error := 0\<rparr>"
  have wf: "bits_wf ?b" using True assms by (simp add: bits_wf_def exhausted_def)
  have un: "unread ?b = unread b" by (simp add: unread_def)
  with True assms have "unread ?b \<noteq> []" by (auto simp: unread_def exhausted_def)
  then obtain xs where xs: "unread ?b = False # xs"
    using assms un by (cases "unread b") (auto simp: exhausted_def)
  from bits_read_Cons [OF wf xs] True assms
  have zero: "bs_data b ! (bs_bits b div 8) AND shr 0x80 (bs_bits b mod 8) = 0"
    by (auto simp: bits_read_def bits_next_def exhausted_def Let_def split: if_splits)
  let ?b' = "if bs_error b = 0 then b\<lparr>bs_bits := bs_bits b + 1\<rparr> else b"
  have "bits_read b = Some (0, ?b')"
    using True assms zero by (auto simp: bits_read_def bits_next_def exhausted_def)
  moreover have "exhausted ?b'"
    using assms set_drop_subset_set_drop [of "bs_bits b" "bs_bits b + 1" "bits_of (bs_data b)"]
    by (auto simp: exhausted_def unread_def)
  ultimately show ?thesis by blast
qed

lemma leading_zeros_diverges:
  assumes "exhausted b"
  shows "leading_zeros b c = None"
proof (rule ccontr)
  assume "leading_zeros b c \<noteq> None"
  then obtain r where ret: "leading_zeros b c = Some r" by blast
  have "\<not> exhausted b"
  proof (rule leading_zeros.raw_induct [where P = "\<lambda>b z r. \<not> exhausted b", OF _ ret])
    fix f b z r
    assume IH: "\<And>b z r. f b z = Some r \<Longrightarrow> \<not> exhausted b"
      and eq: "(case bits_read b of None \<Rightarrow> None
        | Some (bt, b') \<Rightarrow> if bt = 0 then f b' (z + 1) else Some (z + 1, b')) = Some r"
    show "\<not> exhausted b"
    proof
      assume "exhausted b"
      from exhausted_read [OF this] obtain b' where "bits_read b = Some (0, b')" "exhausted b'"
        by blast
      with eq IH [of b' "z + 1" r] show False by simp
    qed
  qed
  with assms show False by simp
qed

lemma bits_read_ue_code:
  assumes wf: "bits_wf b" and un: "unread b = replicate z False @ True # xs @ rest"
    and z: "length xs = z" "z < 32"
  shows "bits_read_ue b = Some (2 ^ z - 1 + uint (bits_value xs), advance (2 * z + 1) b)"
proof (cases "z = 0")
  case True
  then show ?thesis
    using leading_zeros_found [OF wf, of 0] un z by (simp add: bits_read_ue_def)
next
  case False
  let ?b = "advance (z + 1) b"
  have wf': "bits_wf ?b" using un by (intro bits_wf_advance [OF wf]) simp
  have un': "unread ?b = xs @ rest" using un by simp
  have "leading_zeros b (-1) = Some (int z, ?b)"
    using leading_zeros_found [OF wf un] by simp
  moreover have "bits_read_n ?b (int z) = Some (bits_value xs, advance z ?b)"
    using bits_read_n_value [OF wf', of z] False z un un' by simp
  ultimately show ?thesis
    using False z by (simp add: bits_read_ue_def mult_2)
qed

text \<open>The code word of \<open>v\<close>: as many zeros as \<open>v + 1\<close> has bits after its leading one, then
  \<open>v + 1\<close> itself.\<close>

definition ue_code :: "nat \<Rightarrow> nat \<Rightarrow> bool list" where
  "ue_code z v = replicate z False @ to_bits (Suc z) (of_nat (v + 1))"

lemma ue_code_split:
  assumes "2 ^ z \<le> v + 1" "v + 1 < 2 ^ Suc z" "z < 32"
  shows "ue_code z v = replicate z False @ True # to_bits z (of_nat (v + 1))"
    and "2 ^ z - 1 + uint (bits_value (to_bits z (of_nat (v + 1)))) = int v"
proof -
  let ?w = "of_nat (v + 1) :: u64"
  have bnd: "v + 1 < 2 ^ 64"
    using assms(2) power_increasing [of "Suc z" 64 "2::nat"] assms(3) by linarith
  have div: "(v + 1) div 2 ^ z = 1"
    using assms by (simp add: div_nat_eqI)
  then have md: "(v + 1) mod 2 ^ z = v + 1 - 2 ^ z"
    by (simp add: minus_div_mult_eq_mod [symmetric])
  have w: "unat ?w = v + 1"
    using bnd by (simp only: unsigned_of_nat of_nat_id take_bit_nat_eq_self_iff) simp
  then have "bit (unat ?w) z" by (simp only: bit_iff_odd div) simp
  then have "bit ?w z" by (simp only: bit_unsigned_iff)
  then show "ue_code z v = replicate z False @ True # to_bits z ?w"
    by (simp add: ue_code_def to_bits_Suc)
  have "uint (take_bit z ?w) = int ((v + 1) mod 2 ^ z)"
    by (simp only: uint_nat unsigned_take_bit_eq w) (simp only: take_bit_eq_mod)
  then show "2 ^ z - 1 + uint (bits_value (to_bits z ?w)) = int v"
    using assms(1) by (simp only: bits_value_to_bits md of_nat_diff) simp
qed

section \<open>Writing\<close>

text \<open>The bytes the loop writes hold the top bits of \<open>v\<close>.\<close>

lemma bits_write_n_loop_bits:
  assumes "sz = length d" and "n \<le> int (8 * (length d - j))" and "n \<le> 64"
  shows "\<exists>d'. bits_write_n_loop sz d j n v = Some d' \<and> length d' = length d
    \<and> (\<forall>l < length d. \<forall>t < 8. bit (d' ! l) (7 - t) =
          (if j \<le> l \<and> int (8 * (l - j)) < n then bit v (63 - (8 * (l - j) + t)) else bit (d ! l) (7 - t)))"
  using assms
proof (induction sz d j n v rule: bits_write_n_loop.induct)
  case (1 sz d j n v)
  show ?case
  proof (cases "n > 0")
    case False
    then show ?thesis by (subst bits_write_n_loop.simps) auto
  next
    case True
    with 1(3) have j: "j < length d" by (cases "j < length d") auto
    let ?d = "d[j := ucast (shr v 56)]"
    have pre: "sz = length ?d" "n - 8 \<le> int (8 * (length ?d - Suc j))" "n - 8 \<le> 64"
      using 1(2-4) True j by auto
    have "\<not> \<not> j < sz" using j 1(2) by simp
    from 1(1) [OF True this pre] obtain d' where
      d': "bits_write_n_loop sz ?d (Suc j) (n - 8) (shl v 8) = Some d'" "length d' = length ?d"
      and bits: "\<forall>l < length ?d. \<forall>t < 8. bit (d' ! l) (7 - t) =
          (if Suc j \<le> l \<and> int (8 * (l - Suc j)) < n - 8 then bit (shl v 8) (63 - (8 * (l - Suc j) + t))
           else bit (?d ! l) (7 - t))"
      by blast
    have "bit (d' ! l) (7 - t) =
          (if j \<le> l \<and> int (8 * (l - j)) < n then bit v (63 - (8 * (l - j) + t)) else bit (d ! l) (7 - t))"
      if l: "l < length d" and t: "t < 8" for l t
    proof (cases "Suc j \<le> l")
      case True
      then obtain q where q: "l = Suc (j + q)" by (auto simp: le_iff_add)
      have "bit (shl v 8) (63 - (8 * q + t)) = bit v (63 - (8 * (Suc q) + t))" if "int (8 * Suc q) < n"
      proof -
        have "8 * Suc q < 64" using that 1(4) by linarith
        then have "q < 7" by simp
        then show ?thesis using t by (auto simp: bit_simps intro!: arg_cong [where f = "bit v"])
      qed
      with bits l t q show ?thesis by (simp add: algebra_simps)
    next
      case False
      with bits l t have "bit (d' ! l) (7 - t) = bit (?d ! l) (7 - t)" by simp
      with False l t j \<open>n > 0\<close> show ?thesis
        by (cases "l = j") (auto simp: bit_simps nth_list_update)
    qed
    with d' True j 1(2) show ?thesis by (subst bits_write_n_loop.simps) simp
  qed
qed

text \<open>A writer appends while everything after its offset is still zero.\<close>

definition writable :: "bits \<Rightarrow> bool" where
  "writable b \<longleftrightarrow> bits_wf b \<and> True \<notin> set (unread b)"

definition written :: "bits \<Rightarrow> bool list" where
  "written b = take (bs_bits b) (bits_of (bs_data b))"

lemma writable_nth:
  assumes "writable b" and "bs_bits b \<le> i" and "i < 8 * bs_size b"
  shows "\<not> bits_of (bs_data b) ! i"
proof -
  have "bits_of (bs_data b) ! i = unread b ! (i - bs_bits b)" and "i - bs_bits b < length (unread b)"
    using assms by (auto simp: unread_def writable_def bits_wf_def)
  with assms(1) show ?thesis by (metis writable_def nth_mem)
qed

lemma bits_write_n_nth:
  assumes w: "writable b" and n: "0 < n" "n \<le> 64" and room: "bs_bits b + n \<le> 8 * bs_size b"
  shows "\<exists>d'. bits_write_n b v (int n) = Some (0, b\<lparr>bs_data := d', bs_bits := bs_bits b + n\<rparr>)
    \<and> length d' = length (bs_data b)
    \<and> (\<forall>i < 8 * bs_size b. bits_of d' ! i =
         (if i < bs_bits b then bits_of (bs_data b) ! i
          else i < bs_bits b + n \<and> bit v (n - 1 - (i - bs_bits b))))"
proof -
  define k r D where "k = bs_bits b div 8" and "r = bs_bits b mod 8" and "D = bs_data b"
  have off: "bs_bits b = 8 * k + r" and r: "r < 8" by (simp_all add: k_def r_def)
  let ?v1 = "shl v (64 - n)"
  let ?d = "D[k := D ! k OR ucast (shr ?v1 (56 + r))]" and ?v2 = "shl ?v1 (8 - r)"
  have sz: "bs_size b = length D" using w by (simp add: writable_def bits_wf_def D_def)
  have k: "k < length D" and fit: "n + r \<le> 8 * (length D - k)"
    using room n sz off by (simp_all add: diff_mult_distrib2)
  have fit': "int n - (8 - int r) \<le> int (8 * (length ?d - (k + 1)))" "int n - (8 - int r) \<le> 64"
    using fit k n r by (simp_all add: of_nat_diff)
  obtain d' where d': "bits_write_n_loop (length D) ?d (k + 1) (int n - (8 - int r)) ?v2 = Some d'"
      "length d' = length D"
    and bits: "\<And>l t. l < length D \<Longrightarrow> t < 8 \<Longrightarrow> bit (d' ! l) (7 - t) =
      (if k + 1 \<le> l \<and> int (8 * (l - (k + 1))) < int n - (8 - int r)
       then bit ?v2 (63 - (8 * (l - (k + 1)) + t)) else bit (?d ! l) (7 - t))"
    using bits_write_n_loop_bits [OF _ fit', of "length D" ?v2]
    unfolding length_list_update by blast
  have "bits_of d' ! i = (if i < bs_bits b then bits_of D ! i
          else i < bs_bits b + n \<and> bit v (n - 1 - (i - bs_bits b)))" if i: "i < 8 * bs_size b" for i
  proof -
    define l t where "l = i div 8" and "t = i mod 8"
    have it: "i = 8 * l + t" "t < 8" and l: "l < length D"
      using i sz by (simp_all add: l_def t_def less_mult_imp_div_less mult.commute)
    have old: "bits_of D ! i = bit (D ! l) (7 - t)" and new: "bits_of d' ! i = bit (d' ! l) (7 - t)"
      using i sz d'(2) by (simp_all add: nth_bits_of l_def t_def)
    consider "l < k" | "l = k" | "k < l" by linarith
    then show ?thesis
    proof cases
      case 1
      then have "i < bs_bits b" using it off r by linarith
      with 1 bits [OF l it(2)] old new show ?thesis by simp
    next
      case 2
      have "bit (?d ! l) (7 - t) = (bit (D ! l) (7 - t) \<or> (r \<le> t \<and> t < r + n \<and> bit v (n - 1 - (t - r))))"
        using 2 k n it(2) r by (auto simp: bit_simps add.commute)
      moreover have "\<not> bit (D ! l) (7 - t)" if "r \<le> t"
        using writable_nth [OF w, of i] old i it off 2 that by (simp add: D_def)
      ultimately show ?thesis
        using bits [OF l it(2)] old new 2 it off by auto
    next
      case 3
      then obtain q where q: "l = Suc (k + q)" by (auto simp: less_iff_Suc_add)
      have i_eq: "i - bs_bits b = 8 * q + t + (8 - r)" and ge: "\<not> i < bs_bits b"
        using it off q r by linarith+
      have "\<not> bit (D ! l) (7 - t)"
        using writable_nth [OF w, of i] old i ge by (simp add: D_def)
      moreover have "bit ?v2 (63 - (8 * q + t)) = (8 * q + t + (8 - r) < n \<and> bit v (n - 1 - (8 * q + t + (8 - r))))"
        if "int (8 * q) < int n - (8 - int r)"
        using that n r it(2) by (auto simp: bit_simps add.commute)
      ultimately show ?thesis
        using bits [OF l it(2)] new q i_eq ge k r by auto
    qed
  qed
  moreover have "\<not> int (bs_bits b) + int n > int (bs_size b) * 8" and "0 < bs_size b"
    using room n by linarith+
  moreover have "nat (64 - int n) = 64 - n" by simp
  ultimately show ?thesis
    using d' n sz by (auto simp: bits_write_n_def Let_def D_def k_def r_def)
qed

lemma bits_write_n_appends:
  assumes w: "writable b" and n: "0 < n" "n \<le> 64" and room: "n \<le> length (unread b)"
  shows "\<exists>b'. bits_write_n b v (int n) = Some (0, b') \<and> writable b'
    \<and> written b' = written b @ to_bits n v \<and> length (unread b') = length (unread b) - n
    \<and> bs_size b' = bs_size b"
proof -
  have wf: "bits_wf b" using w by (simp add: writable_def)
  have room': "bs_bits b + n \<le> 8 * bs_size b" using room length_unread [OF wf] n by linarith
  from bits_write_n_nth [OF w n room'] obtain d' where
    d': "bits_write_n b v (int n) = Some (0, b\<lparr>bs_data := d', bs_bits := bs_bits b + n\<rparr>)"
      "length d' = length (bs_data b)"
    and bits: "\<And>i. i < 8 * bs_size b \<Longrightarrow> bits_of d' ! i =
         (if i < bs_bits b then bits_of (bs_data b) ! i
          else i < bs_bits b + n \<and> bit v (n - 1 - (i - bs_bits b)))"
    by blast
  let ?b = "b\<lparr>bs_data := d', bs_bits := bs_bits b + n\<rparr>"
  have sz: "bs_size b = length (bs_data b)" using wf by (simp add: bits_wf_def)
  have "writable ?b"
    using wf d'(2) bits room' by (auto simp: writable_def bits_wf_def unread_def in_set_conv_nth)
  moreover have "written ?b = written b @ to_bits n v"
    using sz d'(2) bits room'
    by (intro nth_equalityI) (auto simp: written_def nth_append nth_to_bits)
  moreover have "length (unread ?b) = length (unread b) - n"
    using d'(2) by (simp add: unread_def)
  ultimately show ?thesis using d'(1) by auto
qed

text \<open>Opening the written buffer for reading.\<close>

definition reopen :: "bits \<Rightarrow> bits" where
  "reopen b = bits_init (bs_data b)"

definition put_field :: "bits \<Rightarrow> u64 \<Rightarrow> nat \<Rightarrow> bits option" where
  "put_field b v n = (case bits_write_n b v (int n) of None \<Rightarrow> None
      | Some (r, b') \<Rightarrow> if r = 0 then Some b' else None)"

interpretation stream: bit_channel "\<lambda>b n. bits_read_n b (int n)" unread bits_wf
  put_field written "\<lambda>b. length (unread b)" writable reopen
proof unfold_locales
  fix s v and n :: nat
  assume "writable s" "0 < n" "n \<le> 64" "n \<le> length (unread s)"
  from bits_write_n_appends [OF this, of v]
  show "\<exists>s'. put_field s v n = Some s' \<and> writable s' \<and> written s' = written s @ to_bits n v
      \<and> length (unread s') = length (unread s) - n"
    by (fastforce simp: put_field_def)
next
  fix w assume "writable w"
  then show "bits_wf (reopen w) \<and> (\<exists>pad. unread (reopen w) = written w @ pad)"
    by (auto simp: reopen_def bits_init_def bits_wf_def unread_def written_def
        intro: exI [of _ "drop (bs_bits w) (bits_of (bs_data w))"])
qed

section \<open>Properties\<close>

text \<open>C1: Writing any sequence of fields of 1 to 64 bits into a zeroed buffer that has room for
  them succeeds, and reading fields of the same widths back from the buffer returns every value
  (its low \<open>n\<close> bits), whatever the fields' alignment in the bytes.\<close>

theorem bits_fields_roundtrip:
  assumes "fields_ok fs" and "length (fields_bits fs) \<le> 8 * k"
  shows "\<exists>b r. write_all put_field (bits_init (replicate k 0)) fs = Some b
    \<and> read_all (\<lambda>b n. bits_read_n b (int n)) (bits_init (bs_data b)) (map snd fs)
        = Some (map (\<lambda>(v, n). take_bit n v) fs, r)"
proof -
  let ?b = "bits_init (replicate k 0)"
  have un: "unread ?b = replicate (8 * k) False"
    by (intro nth_equalityI) (simp_all add: unread_def bits_init_def nth_bits_of less_mult_imp_div_less mult.commute)
  then have "writable ?b" by (simp add: writable_def bits_wf_def bits_init_def)
  moreover have "written ?b = []" by (simp add: written_def bits_init_def)
  ultimately show ?thesis
    using stream.fields_roundtrip [of ?b fs] assms un by (simp add: reopen_def)
qed

theorem bits_fields_roundtrip_witness:
  "\<exists>b r. write_all put_field (bits_init (replicate 3 0)) [(5, 3), (0x1FFF, 12), (1, 1)] = Some b
    \<and> read_all (\<lambda>b n. bits_read_n b (int n)) (bits_init (bs_data b)) [3, 12, 1]
        = Some ([5, 0xFFF, 1], r)"
  using bits_fields_roundtrip [of "[(5, 3), (0x1FFF, 12), (1, 1)]" 3] by (simp add: take_bit_eq_mask mask_numeral)

text \<open>\<open>bits_read_n\<close> returns exactly the next \<open>n\<close> bits of the stream, first bit most
  significant, and advances the offset by \<open>n\<close>; past the end of the data it returns 0, sets the
  error flag and does not move.\<close>

theorem bits_read_n_correct:
  assumes "bits_wf b" and "0 < n" and "n \<le> 64" and "0 < bs_size b"
  shows "bits_read_n b (int n) =
    (if n \<le> length (unread b)
     then Some (bits_value (take n (unread b)), b\<lparr>bs_bits := bs_bits b + n\<rparr>)
     else Some (0, b\<lparr>bs_error := -1\<rparr>))"
proof (cases "n \<le> length (unread b)")
  case True
  with bits_read_n_value [OF assms(1-3)] show ?thesis by (simp add: advance_def)
next
  case False
  with length_unread [OF assms(1)] have "int (bs_bits b) + int n > int (bs_size b) * 8" by linarith
  with False assms show ?thesis by (simp add: bits_read_n_def bits_next_n_def)
qed

theorem bits_read_n_correct_witness:
  "bits_read_n \<lparr>bs_data = [0xA5, 0x3C, 0xFF], bs_size = 3, bs_bits = 5, bs_error = 0\<rparr> 9
     = Some (335, \<lparr>bs_data = [0xA5, 0x3C, 0xFF], bs_size = 3, bs_bits = 14, bs_error = 0\<rparr>)"
  using bits_read_n_correct [of "\<lparr>bs_data = [0xA5, 0x3C, 0xFF], bs_size = 3, bs_bits = 5, bs_error = 0\<rparr>" 9]
  by (simp add: bits_wf_def unread_def byte_bits_def bits_value_def upt_conv_Cons)

text \<open>C30: \<open>bits_read_ue\<close> decodes an Exp-Golomb code word: on the code of \<open>v\<close> with \<open>z\<close> leading
  zeros it returns \<open>v\<close> and consumes exactly the \<open>2 z + 1\<close> bits of the code, for every \<open>v\<close> whose
  result fits a C \<open>int\<close>.\<close>

theorem bits_read_ue_correct:
  assumes "bits_wf b" and "unread b = ue_code z v @ rest"
    and "2 ^ z \<le> v + 1" and "v + 1 < 2 ^ Suc z" and "z \<le> 30"
  shows "bits_read_ue b = Some (int v, b\<lparr>bs_bits := bs_bits b + (2 * z + 1)\<rparr>)"
proof -
  have z: "z < 32" using assms(5) by simp
  note code = ue_code_split [OF assms(3,4) z]
  have "unread b = replicate z False @ True # to_bits z (of_nat (v + 1)) @ rest"
    using assms(2) code(1) by simp
  from bits_read_ue_code [OF assms(1) this _ z] code(2) show ?thesis
    by (simp add: advance_def del: of_nat_add of_nat_Suc)
qed

theorem bits_read_ue_correct_witness:
  "bits_read_ue \<lparr>bs_data = [0x28, 0x80], bs_size = 2, bs_bits = 0, bs_error = 0\<rparr>
     = Some (4, \<lparr>bs_data = [0x28, 0x80], bs_size = 2, bs_bits = 5, bs_error = 0\<rparr>)"
  using bits_read_ue_correct [of "\<lparr>bs_data = [0x28, 0x80], bs_size = 2, bs_bits = 0, bs_error = 0\<rparr>" 2 4
      "[False, False, False, True, False, False, False, False, False, False, False]"]
  by (simp add: bits_wf_def unread_def byte_bits_def ue_code_def to_bits_def upt_conv_Cons numeral_2_eq_2)

text \<open>On a stream with no set bit left \<open>bits_read_ue\<close> never returns: the end of the data
  reads as one more zero bit, so the search for the leading one does not stop.\<close>

theorem bits_read_ue_diverges:
  assumes "0 < bs_size b" and "bs_size b = length (bs_data b)" and "True \<notin> set (unread b)"
  shows "bits_read_ue b = None"
  using leading_zeros_diverges [of b "-1"] assms by (simp add: bits_read_ue_def exhausted_def)

theorem bits_read_ue_diverges_witness:
  "bits_read_ue (bits_init [0, 0]) = None"
  using bits_read_ue_diverges [of "bits_init [0, 0]"]
  by (simp add: bits_init_def unread_def byte_bits_def)

end
