(* ===== verification/Hweight.thy ===== *)
theory Hweight
  imports Prelude
begin

text \<open>
  The population counts of \<open>src/bitmap/hweight.c\<close>.  The code adds the fields of a word in
  parallel; the proof reads a word as a list of digits of \<open>2 ^ m\<close> (\<open>digits m\<close>), on which each
  step of the code adds neighbouring digits, so the number of set bits is the sum of the digits
  at every step.
\<close>

section \<open>The code\<close>

definition hweight8 :: "u8 \<Rightarrow> u8" where
  "hweight8 w = (let w = w - (shr w 1 AND 0x55);
                     w = (w AND 0x33) + (shr w 2 AND 0x33)
                 in (w + shr w 4) AND 0x0F)"

definition hweight16 :: "u16 \<Rightarrow> u16" where
  "hweight16 w = (let w = w - (shr w 1 AND 0x5555);
                      w = (w AND 0x3333) + (shr w 2 AND 0x3333);
                      w = (w + shr w 4) AND 0x0F0F
                  in (w + shr w 8) AND 0x00FF)"

definition hweight32 :: "u32 \<Rightarrow> u32" where
  "hweight32 w = (let w = w - (shr w 1 AND 0x55555555);
                      w = (w AND 0x33333333) + (shr w 2 AND 0x33333333);
                      w = (w + shr w 4) AND 0x0F0F0F0F;
                      w = w + shr w 8
                  in (w + shr w 16) AND 0x000000FF)"

definition hweight64 :: "u64 \<Rightarrow> u64" where
  "hweight64 w = (let w = w - (shr w 1 AND 0x5555555555555555);
                      w = (w AND 0x3333333333333333) + (shr w 2 AND 0x3333333333333333);
                      w = (w + shr w 4) AND 0x0F0F0F0F0F0F0F0F;
                      w = w + shr w 8;
                      w = w + shr w 16
                  in (w + shr w 32) AND 0x00000000000000FF)"

text \<open>\<open>sizeof(unsigned long)\<close> is 8 on the modelled target.\<close>

definition hweight_long :: "u64 \<Rightarrow> u64" where
  "hweight_long w = hweight64 w"

text \<open>The specification: the number of set bits.\<close>

definition popcount :: "'a::len word \<Rightarrow> nat" where
  "popcount w = length (filter (bit w) [0..<LENGTH('a)])"

section \<open>Words as lists of digits\<close>

fun digits :: "nat \<Rightarrow> nat list \<Rightarrow> nat" where
  "digits m [] = 0"
| "digits m (d # ds) = d + 2 ^ m * digits m ds"

abbreviation small :: "nat \<Rightarrow> nat list \<Rightarrow> bool" where
  "small m ds \<equiv> \<forall>d \<in> set ds. d < 2 ^ m"

lemma and_less_nat:
  fixes x y :: nat
  assumes "x < 2 ^ m"
  shows "x AND y < 2 ^ m"
proof -
  have "take_bit m x = x" using assms by (simp add: take_bit_nat_eq_self)
  then have "take_bit m (x AND y) = x AND y"
    by (auto simp: bit_eq_iff bit_simps)
  then show ?thesis by (metis take_bit_nat_less_exp)
qed

lemma and_add_shift:
  fixes x y a b :: nat
  assumes "x < 2 ^ m" "y < 2 ^ m"
  shows "(x + 2 ^ m * a) AND (y + 2 ^ m * b) = (x AND y) + 2 ^ m * (a AND b)"
  by (rule bit_eqI) (simp add: bit_and_iff bit_add_shift assms and_less_nat)

lemma digits_less: "small m ds \<Longrightarrow> digits m ds < 2 ^ (m * length ds)"
proof (induction ds)
  case (Cons d ds)
  then have "Suc (digits m ds) \<le> 2 ^ (m * length ds)" by (simp add: Suc_leI)
  then have "2 ^ m * Suc (digits m ds) \<le> 2 ^ m * 2 ^ (m * length ds)" by (rule mult_le_mono2)
  moreover have "digits m (d # ds) < 2 ^ m * Suc (digits m ds)" using Cons.prems by simp
  ultimately have "digits m (d # ds) < 2 ^ m * 2 ^ (m * length ds)" by (rule order.strict_trans2 [rotated])
  then show ?case by (simp add: power_add)
qed simp

lemma digits_and:
  assumes "length xs = length ys" "small m xs" "small m ys"
  shows "digits m xs AND digits m ys = digits m (map2 (AND) xs ys)"
  using assms by (induction xs ys rule: list_induct2) (simp_all add: and_add_shift)

lemma digits_add:
  assumes "length xs = length ys"
  shows "digits m xs + digits m ys = digits m (map2 (+) xs ys)"
  using assms
proof (induction xs ys rule: list_induct2)
  case (Cons x xs y ys)
  then show ?case by (simp add: add_mult_distrib2 [symmetric] del: add_mult_distrib2) 
qed simp

lemma digits_drop: "x < 2 ^ m \<Longrightarrow> drop_bit m (digits m (x # xs)) = digits m xs"
  by (simp add: drop_bit_eq_div)

lemma digits_drop_more:
  "small m ds \<Longrightarrow> k \<le> length ds \<Longrightarrow> drop_bit (m * k) (digits m ds) = digits m (drop k ds)"
proof (induction ds arbitrary: k)
  case (Cons d ds)
  show ?case
  proof (cases k)
    case (Suc k')
    have "drop_bit (m * k) (digits m (d # ds)) = drop_bit (m * k') (drop_bit m (digits m (d # ds)))"
      by (simp add: Suc add.commute)
    then show ?thesis using Cons by (simp add: Suc digits_drop del: digits.simps)
  qed simp
qed simp

lemma digits_take: "x < 2 ^ m \<Longrightarrow> take_bit m (digits m (x # xs)) = x"
  by (simp add: take_bit_eq_mod)

lemma digits_zeros [simp]: "digits m (replicate k 0) = 0"
  by (induction k) simp_all

lemma digits_append_zeros [simp]: "digits m (ds @ replicate k 0) = digits m ds"
  by (induction ds) simp_all

section \<open>Adding neighbouring digits\<close>

fun pairs :: "nat \<Rightarrow> nat list \<Rightarrow> nat list" where
  "pairs c (a # b # ds) = (a + c * b) # pairs c ds"
| "pairs c ds = ds"

abbreviation pairsum :: "nat list \<Rightarrow> nat list" where
  "pairsum ds \<equiv> pairs 1 ds"

fun evens :: "nat \<Rightarrow> 'a list \<Rightarrow> nat list" where
  "evens M (a # b # ds) = M # 0 # evens M ds"
| "evens M [a] = [M]"
| "evens M [] = []"

lemma sum_pairsum [simp]: "sum_list (pairs (Suc 0) ds) = sum_list ds"
  by (induction "Suc 0" ds rule: pairs.induct) simp_all

lemma length_pairs [simp]: "even (length ds) \<Longrightarrow> length (pairs c ds) = length ds div 2"
  by (induction c ds rule: pairs.induct) simp_all

lemma pairsum_le: "\<forall>d \<in> set ds. d \<le> k \<Longrightarrow> \<forall>d \<in> set (pairsum ds). d \<le> 2 * k"
  by (induction "1::nat" ds rule: pairs.induct) (auto intro: order_trans add_mono)

lemma power_double: "(2::nat) ^ (m * 2) = 2 ^ m * 2 ^ m"
  by (simp add: power_mult power2_eq_square)

lemma digits_pairs: "even (length ds) \<Longrightarrow> digits (2 * m) (pairs (2 ^ m) ds) = digits m ds"
  by (induction "(2::nat) ^ m" ds rule: pairs.induct) (simp_all add: algebra_simps power_double)

lemma length_evens [simp]: "length (evens M ds) = length ds"
  by (induction M ds rule: evens.induct) simp_all

lemma small_evens: "M < 2 ^ m \<Longrightarrow> small m (evens M ds)"
  by (induction M ds rule: evens.induct) auto

text \<open>The steps of the code on digits: \<open>(w & M) + ((w >> m) & M)\<close>,
  \<open>w - ((w >> 1) & M)\<close> on bits, and \<open>(w + (w >> m)) & M\<close>, where \<open>M\<close> selects every other digit.\<close>

lemma and_mask_small: "(d::nat) < 2 ^ m \<Longrightarrow> d AND (2 ^ m - 1) = d"
  by (metis mask_eq_exp_minus_1 take_bit_eq_mask take_bit_nat_eq_self)

lemma map2_and_shift:
  "map2 (AND) (ds @ [0]) (0 # es) = (0::nat) # map2 (AND) (tl ds @ [0]) es" if "length es = length ds"
  using that by (cases ds) simp_all

lemma digits_evens:
  assumes "even (length ds)" "small m ds"
  shows "digits m (map2 (AND) ds (evens (2 ^ m - 1) ds))
           + c * digits m (map2 (AND) (tl ds @ [0]) (evens (2 ^ m - 1) ds))
       = digits (2 * m) (pairs c ds)"
  using assms
proof (induction c ds rule: pairs.induct)
  case (1 c a b ds)
  let ?E = "evens (2 ^ m - 1) ds"
  have ab: "a AND (2 ^ m - 1) = a" "b AND (2 ^ m - 1) = b"
    using "1.prems" by (simp_all only: and_mask_small list.set insert_iff ball_simps)
  have sh: "map2 (AND) (ds @ [0]) (0 # ?E) = 0 # map2 (AND) (tl ds @ [0]) ?E"
    by (rule map2_and_shift) simp
  have "digits m (map2 (AND) (a # b # ds) (evens (2 ^ m - 1) (a # b # ds)))
      = a + 2 ^ m * (2 ^ m * digits m (map2 (AND) ds ?E))"
    by (simp only: evens.simps list.map zip_Cons_Cons prod.case ab digits.simps) simp
  moreover have "digits m (map2 (AND) (tl (a # b # ds) @ [0]) (evens (2 ^ m - 1) (a # b # ds)))
      = b + 2 ^ m * (2 ^ m * digits m (map2 (AND) (tl ds @ [0]) ?E))"
    by (simp only: evens.simps list.map zip_Cons_Cons prod.case ab digits.simps
        list.sel append_Cons sh) simp
  moreover have "digits (2 * m) (pairs c ds)
      = digits m (map2 (AND) ds ?E) + c * digits m (map2 (AND) (tl ds @ [0]) ?E)"
    using 1 by simp
  ultimately show ?case by (simp add: algebra_simps power_double)
qed simp_all

lemma digits_tl:
  assumes "small m ds" "ds \<noteq> []"
  shows "drop_bit m (digits m ds) = digits m (tl ds @ [0])"
  using assms digits_append_zeros [of m "tl ds" 1] by (cases ds) (simp_all add: digits_drop del: digits.simps)

lemma small_tl: "small m ds \<Longrightarrow> small m (tl ds @ [0])"
  by (cases ds) auto

lemma digits_select:
  assumes "even (length ds)" "small m ds" "ds \<noteq> []" "A = digits m (evens (2 ^ m - 1) ds)"
  shows "(digits m ds AND A) + c * (drop_bit m (digits m ds) AND A) = digits (2 * m) (pairs c ds)"
proof -
  have "small m (evens (2 ^ m - 1) ds)" by (rule small_evens) simp
  then show ?thesis
    using assms small_tl digits_evens [OF assms(1,2), of c] by (simp add: digits_tl digits_and)
qed

lemma step_add:
  assumes "even (length ds)" "small m ds" "ds \<noteq> []" "A = digits m (evens (2 ^ m - 1) ds)"
  shows "(digits m ds AND A) + (drop_bit m (digits m ds) AND A) = digits (2 * m) (pairsum ds)"
  using digits_select [OF assms, of 1] by simp

lemma step_sub:
  assumes "even (length ds)" "small 1 ds" "ds \<noteq> []" "A = digits 1 (evens 1 ds)"
  shows "drop_bit 1 (digits 1 ds) AND A \<le> digits 1 ds"
    and "digits 1 ds - (drop_bit 1 (digits 1 ds) AND A) = digits 2 (pairsum ds)"
proof -
  let ?y = "drop_bit 1 (digits 1 ds) AND A"
  have A: "A = digits 1 (evens (2 ^ 1 - 1) ds)" using assms(4) by simp
  have "(digits 1 ds AND A) + ?y = digits 2 (pairsum ds)"
    using digits_select [OF assms(1-3) A, of 1] by simp
  moreover have "(digits 1 ds AND A) + 2 * ?y = digits 1 ds"
    using digits_select [OF assms(1-3) A, of 2] digits_pairs [OF assms(1), of 1] by simp
  ultimately show "?y \<le> digits 1 ds" "digits 1 ds - ?y = digits 2 (pairsum ds)" by linarith+
qed

lemma evens_nth: "i < length ds \<Longrightarrow> evens M ds ! i = 0 \<or> evens M ds ! i = M"
proof (induction M ds arbitrary: i rule: evens.induct)
  case (1 M a b ds)
  then show ?case by (cases i; cases "i - 1") auto
qed simp_all

lemma and_evens_add:
  assumes "length xs = length ds" "length ys = length ds"
    and "\<forall>d \<in> set xs. 2 * d < 2 ^ m" "\<forall>d \<in> set ys. 2 * d < 2 ^ m"
  shows "map2 (AND) (map2 (+) xs ys) (evens (2 ^ m - 1) ds)
       = map2 (+) (map2 (AND) xs (evens (2 ^ m - 1) ds)) (map2 (AND) ys (evens (2 ^ m - 1) ds))"
proof (rule nth_equalityI)
  fix i assume "i < length (map2 (AND) (map2 (+) xs ys) (evens (2 ^ m - 1) ds))"
  then have i: "i < length ds" using assms by simp
  then have b: "2 * xs ! i < 2 ^ m" "2 * ys ! i < 2 ^ m" using assms by (simp_all add: nth_mem)
  then have "xs ! i < 2 ^ m" "ys ! i < 2 ^ m" "xs ! i + ys ! i < 2 ^ m" by linarith+
  then have "(xs ! i + ys ! i) AND (2 ^ m - 1) = (xs ! i AND (2 ^ m - 1)) + (ys ! i AND (2 ^ m - 1))"
    by (simp only: and_mask_small)
  moreover have "evens (2 ^ m - 1) ds ! i = 0 \<or> evens (2 ^ m - 1) ds ! i = 2 ^ m - 1"
    using i by (rule evens_nth)
  ultimately show "map2 (AND) (map2 (+) xs ys) (evens (2 ^ m - 1) ds) ! i
      = map2 (+) (map2 (AND) xs (evens (2 ^ m - 1) ds)) (map2 (AND) ys (evens (2 ^ m - 1) ds)) ! i"
    using i assms(1,2) by (auto simp del: One_nat_def)
qed (simp add: assms)

lemma neighbour_sums:
  assumes "\<forall>d \<in> set ds. 2 * d < 2 ^ m" "ds \<noteq> []"
  shows "small m (map2 (+) ds (tl ds @ [0]))"
    and "digits m ds + drop_bit m (digits m ds) = digits m (map2 (+) ds (tl ds @ [0]))"
proof -
  let ?t = "tl ds @ [0]"
  have half: "\<forall>d \<in> set ?t. 2 * d < 2 ^ m" using assms by (cases ds) auto
  show "small m (map2 (+) ds ?t)"
  proof
    fix d assume "d \<in> set (map2 (+) ds ?t)"
    then obtain x y where "d = x + y" "x \<in> set ds" "y \<in> set ?t"
      by (auto simp del: set_append dest: set_zip_leftD set_zip_rightD)
    moreover from this have "2 * x < 2 ^ m" "2 * y < 2 ^ m" using assms(1) half by blast+
    ultimately show "d < 2 ^ m" by linarith
  qed
  have "small m ds" using assms(1) by fastforce
  then show "digits m ds + drop_bit m (digits m ds) = digits m (map2 (+) ds ?t)"
    using assms(2) by (simp add: digits_tl digits_add)
qed

lemma step_mask:
  assumes "even (length ds)" "\<forall>d \<in> set ds. 2 * d < 2 ^ m" "ds \<noteq> []"
    and "A = digits m (evens (2 ^ m - 1) ds)"
  shows "(digits m ds + drop_bit m (digits m ds)) AND A = digits (2 * m) (pairsum ds)"
proof -
  let ?E = "evens (2 ^ m - 1) ds" and ?t = "tl ds @ [0]"
  have sm: "small m ds" using assms(2) by fastforce
  have half: "\<forall>d \<in> set ?t. 2 * d < 2 ^ m" using assms(2) by (cases ds) auto
  have len: "length ?t = length ds" using assms(3) by simp
  have "(digits m ds + drop_bit m (digits m ds)) AND A = digits m (map2 (AND) (map2 (+) ds ?t) ?E)"
    using neighbour_sums [OF assms(2,3)] assms(3,4) small_evens [of "2 ^ m - 1" m ds]
    by (simp add: digits_and)
  also have "\<dots> = digits m (map2 (AND) ds ?E) + digits m (map2 (AND) ?t ?E)"
    using and_evens_add [OF refl len assms(2) half] len by (simp add: digits_add)
  also have "\<dots> = digits (2 * m) (pairsum ds)"
    using digits_evens [OF assms(1) sm, of 1] by simp
  finally show ?thesis .
qed

section \<open>The steps on words\<close>

definition wbits :: "'a::len word \<Rightarrow> nat list" where
  "wbits w = map (\<lambda>i. of_bool (bit w i)) [0..<LENGTH('a)]"

lemma digits_map_bits: "digits 1 (map of_bool bs) = horner_sum of_bool 2 bs"
  by (induction bs) simp_all

lemma unat_wbits: "unat (w :: 'a::len word) = digits 1 (wbits w)"
proof -
  have "digits 1 (wbits w) = horner_sum of_bool 2 (map (bit (unat w)) [0..<LENGTH('a)])"
    unfolding wbits_def
    by (subst digits_map_bits [symmetric]) (simp add: comp_def bit_unsigned_iff cong: map_cong)
  also have "\<dots> = take_bit LENGTH('a) (unat w)" by (rule horner_sum_bit_eq_take_bit)
  also have "\<dots> = unat w" by (simp add: take_bit_nat_eq_self)
  finally show ?thesis by simp
qed

lemma sum_wbits: "sum_list (wbits w) = popcount w"
proof -
  have "sum_list (map (\<lambda>i. of_bool (P i)) xs) = length (filter P xs)" for P :: "nat \<Rightarrow> bool" and xs
    by (induction xs) simp_all
  then show ?thesis by (simp add: popcount_def wbits_def)
qed

lemma wbits_le: "\<forall>d \<in> set (wbits w). d \<le> 1"
  by (auto simp: wbits_def)

lemma wbits_small: "small 1 (wbits w)"
  by (auto simp: wbits_def)

lemma length_wbits [simp]: "length (wbits (w :: 'a::len word)) = LENGTH('a)"
  by (simp add: wbits_def)

lemma evens_cong: "length xs = length ys \<Longrightarrow> evens M xs = evens M ys"
proof (induction M xs arbitrary: ys rule: evens.induct)
  case (1 M a b ds)
  then obtain c d es where "ys = c # d # es" "length ds = length es"
    using "1.prems" by (cases ys; cases "tl ys") auto
  with 1 show ?case by simp
qed (auto simp: Suc_length_conv)

text \<open>The first three steps, at every width: the result holds the sums of the bytes.\<close>

definition swar :: "'a::len word \<Rightarrow> 'a word \<Rightarrow> 'a word \<Rightarrow> 'a word \<Rightarrow> 'a word" where
  "swar m5 m3 mf w = (let w = w - (shr w 1 AND m5);
                          w = (w AND m3) + (shr w 2 AND m3)
                      in (w + shr w 4) AND mf)"

definition byte_sums :: "'a::len word \<Rightarrow> nat list" where
  "byte_sums w = pairsum (pairsum (pairsum (wbits w)))"

lemma swar_correct:
  fixes w :: "'a::len word"
  assumes len: "LENGTH('a) = 8 * k" "0 < k"
    and m5: "unat m5 = digits 1 (evens 1 (replicate (8 * k) (0::nat)))"
    and m3: "unat m3 = digits 2 (evens 3 (replicate (4 * k) (0::nat)))"
    and mf: "unat mf = digits 4 (evens 15 (replicate (2 * k) (0::nat)))"
  shows "unat (swar m5 m3 mf w) = digits 8 (byte_sums w)"
proof -
  let ?p1 = "pairsum (wbits w)" and ?p2 = "pairsum (pairsum (wbits w))"
  have l1: "length ?p1 = 4 * k" and l2: "length ?p2 = 2 * k" using len by simp_all
  have ne: "wbits w \<noteq> []" "?p1 \<noteq> []" "?p2 \<noteq> []"
    using len l1 l2 by (auto simp flip: length_0_conv)
  have le1: "\<forall>d \<in> set ?p1. d \<le> 2" and le2: "\<forall>d \<in> set ?p2. d \<le> 4"
    using pairsum_le [OF wbits_le [of w]] pairsum_le [of ?p1 2]  by simp_all
  have e5: "unat m5 = digits 1 (evens 1 (wbits w))"
    unfolding m5 by (rule arg_cong [where f = "digits 1"], rule evens_cong) (simp add: len)
  have e3: "unat m3 = digits 2 (evens (2 ^ 2 - 1) ?p1)"
    unfolding m3 using evens_cong [of "replicate (4 * k) (0::nat)" ?p1 3, OF l1 [symmetric, THEN trans [rotated]]] by simp
  have ef: "unat mf = digits 4 (evens (2 ^ 4 - 1) ?p2)"
    unfolding mf using evens_cong [of "replicate (2 * k) (0::nat)" ?p2 15, OF l2 [symmetric, THEN trans [rotated]]] by simp
  define a where "a = w - (shr w 1 AND m5)"
  define b where "b = (a AND m3) + (shr a 2 AND m3)"
  have ua: "unat a = digits 2 ?p1"
  proof -
    have "unat (shr w 1 AND m5) = drop_bit 1 (unat w) AND unat m5"
      by (simp only: unsigned_and_eq unat_drop_bit_eq)
    then show ?thesis
      unfolding a_def using step_sub [OF _ wbits_small ne(1) e5] len
      by (subst unat_sub) (auto simp: unat_wbits [of w] word_le_nat_alt)
  qed
  have "(unat a AND unat m3) + (drop_bit 2 (unat a) AND unat m3) = digits 4 ?p2"
    unfolding ua using le1 len by (subst step_add [OF _ _ ne(2) e3]) (auto simp: l1)
  moreover have "digits 4 ?p2 < 2 ^ LENGTH('a)"
  proof -
    have "small 4 ?p2" using le2 by fastforce
    then show ?thesis using digits_less [of ?p2 4] len by (simp add: l2)
  qed
  ultimately have ub: "unat b = digits 4 ?p2"
    unfolding b_def by (subst unat_add_lem [THEN iffD1])
      (simp_all add: unsigned_and_eq unat_drop_bit_eq)
  have "swar m5 m3 mf w = (b + shr b 4) AND mf"
    by (simp add: swar_def a_def b_def Let_def)
  moreover have h: "\<forall>d \<in> set ?p2. 2 * d < 2 ^ 4" using le2 by fastforce
  then have "unat (b + shr b 4) = unat b + drop_bit 4 (unat b)"
    using neighbour_sums [OF h ne(3)] digits_less [of "map2 (+) ?p2 (tl ?p2 @ [0])" 4] len l2 ne(3)
    by (subst unat_add_lem [THEN iffD1]) (simp_all add: unat_drop_bit_eq ub)
  ultimately show ?thesis
    using step_mask [OF _ h ne(3) ef] l2 by (simp add: unsigned_and_eq ub byte_sums_def)
qed

lemma byte_sums_small: "\<forall>d \<in> set (byte_sums w). d \<le> 8"
  unfolding byte_sums_def
  using pairsum_le [OF pairsum_le [OF pairsum_le [OF wbits_le [of w]]]] by simp

lemma sum_byte_sums: "sum_list (byte_sums w) = popcount w"
  by (simp add: byte_sums_def sum_wbits)

lemma length_byte_sums: "LENGTH('a) = 8 * k \<Longrightarrow> length (byte_sums (w :: 'a::len word)) = k"
  by (simp add: byte_sums_def)

lemma evens_masks:
  "unat (0x55 :: u8) = digits 1 (evens 1 (replicate 8 (0::nat)))"
  "unat (0x33 :: u8) = digits 2 (evens 3 (replicate 4 (0::nat)))"
  "unat (0x0F :: u8) = digits 4 (evens 15 (replicate 2 (0::nat)))"
  "unat (0x5555 :: u16) = digits 1 (evens 1 (replicate 16 (0::nat)))"
  "unat (0x3333 :: u16) = digits 2 (evens 3 (replicate 8 (0::nat)))"
  "unat (0x0F0F :: u16) = digits 4 (evens 15 (replicate 4 (0::nat)))"
  "unat (0x55555555 :: u32) = digits 1 (evens 1 (replicate 32 (0::nat)))"
  "unat (0x33333333 :: u32) = digits 2 (evens 3 (replicate 16 (0::nat)))"
  "unat (0x0F0F0F0F :: u32) = digits 4 (evens 15 (replicate 8 (0::nat)))"
  "unat (0x5555555555555555 :: u64) = digits 1 (evens 1 (replicate 64 (0::nat)))"
  "unat (0x3333333333333333 :: u64) = digits 2 (evens 3 (replicate 32 (0::nat)))"
  "unat (0x0F0F0F0F0F0F0F0F :: u64) = digits 4 (evens 15 (replicate 16 (0::nat)))"
  by (simp_all add: replicate_numeral_Cons)

lemma swar_widths:
  "unat (swar 0x55 0x33 0x0F (w8 :: u8)) = digits 8 (byte_sums w8)"
  "unat (swar 0x5555 0x3333 0x0F0F (w16 :: u16)) = digits 8 (byte_sums w16)"
  "unat (swar 0x55555555 0x33333333 0x0F0F0F0F (w32 :: u32)) = digits 8 (byte_sums w32)"
  "unat (swar 0x5555555555555555 0x3333333333333333 0x0F0F0F0F0F0F0F0F (w64 :: u64))
     = digits 8 (byte_sums w64)"
     apply (rule swar_correct [where k = 1]; simp add: replicate_numeral_Cons)
    apply (rule swar_correct [where k = 2]; simp add: replicate_numeral_Cons)
   apply (rule swar_correct [where k = 4]; simp add: replicate_numeral_Cons)
  apply (rule swar_correct [where k = 8]; simp add: replicate_numeral_Cons)
  done

lemma fold_step:
  fixes v :: "'a::len word"
  assumes "unat v = digits 8 ds" "small 8 ds" "k \<le> length ds" "8 * length ds = LENGTH('a)"
    and "es = map2 (+) ds (drop k ds @ replicate k 0)" "small 8 es"
  shows "unat (v + shr v (8 * k)) = digits 8 es"
proof -
  have "drop_bit (8 * k) (digits 8 ds) = digits 8 (drop k ds @ replicate k 0)"
    using digits_drop_more [OF assms(2,3)] by simp
  then have "unat v + unat (shr v (8 * k)) = digits 8 es"
    using assms(1,3,5) by (simp only: unat_drop_bit_eq) (simp add: digits_add del: digits_append_zeros)
  moreover have "digits 8 es < 2 ^ LENGTH('a)"
    using digits_less [OF assms(6)] assms(3-5) by simp
  ultimately show ?thesis by (subst unat_add_lem [THEN iffD1]) simp_all
qed

lemma unat_and_0xFF:
  assumes "unat (v :: 'a::len word) = digits 8 (d # ds)" "d < 256" "unat (m :: 'a word) = 255"
  shows "unat (v AND m) = d"
proof -
  have "unat v AND 255 = d"
    using digits_take [of d 8 ds] assms by (simp add: take_bit_eq_mask mask_eq_exp_minus_1)
  then show ?thesis by (simp add: unsigned_and_eq assms(3))
qed

theorem hweight8_popcount: "unat (hweight8 w) = popcount w"
proof -
  obtain a where bs: "byte_sums w = [a]"
    using length_byte_sums [of 1 w] by (auto simp: length_Suc_conv)
  have "hweight8 w = swar 0x55 0x33 0x0F w" by (simp add: hweight8_def swar_def)
  then show ?thesis using swar_widths(1) [of w] sum_byte_sums [of w] by (simp add: bs)
qed

theorem hweight16_popcount: "unat (hweight16 w) = popcount w"
proof -
  obtain a b where bs: "byte_sums w = [a, b]"
    using length_byte_sums [of 2 w] by (auto simp: numeral_eq_Suc length_Suc_conv)
  let ?v = "swar 0x5555 0x3333 0x0F0F w"
  have le: "a \<le> 8" "b \<le> 8" using byte_sums_small [of w] by (simp_all add: bs)
  have v: "unat ?v = digits 8 [a, b]" using swar_widths(2) [of w] by (simp only: bs)
  have "unat (?v + shr ?v (8 * 1)) = digits 8 [a + b, b]"
    by (rule fold_step [OF v]) (use le in auto)
  then have "unat ((?v + shr ?v 8) AND 0x00FF) = a + b"
    using unat_and_0xFF [of "?v + shr ?v 8" "a + b" "[b]" "0x00FF"] le by simp
  then show ?thesis
    using sum_byte_sums [of w] by (simp add: hweight16_def swar_def Let_def bs)
qed

theorem hweight32_popcount: "unat (hweight32 w) = popcount w"
proof -
  obtain a b c d where bs: "byte_sums w = [a, b, c, d]"
    using length_byte_sums [of 4 w] by (auto simp: numeral_eq_Suc length_Suc_conv)
  let ?v = "swar 0x55555555 0x33333333 0x0F0F0F0F w"
  let ?x = "?v + shr ?v 8"
  have le: "a \<le> 8" "b \<le> 8" "c \<le> 8" "d \<le> 8" using byte_sums_small [of w] by (simp_all add: bs)
  have v: "unat ?v = digits 8 [a, b, c, d]" using swar_widths(3) [of w] by (simp only: bs)
  have "unat (?v + shr ?v (8 * 1)) = digits 8 [a + b, b + c, c + d, d]"
    by (rule fold_step [OF v]) (use le in auto)
  then have x: "unat ?x = digits 8 [a + b, b + c, c + d, d]" by simp
  have "unat (?x + shr ?x (8 * 2)) = digits 8 [a + b + (c + d), b + c + d, c + d, d]"
    by (rule fold_step [OF x]) (use le in \<open>auto simp: replicate_numeral_Cons\<close>)
  then have "unat ((?x + shr ?x 16) AND 0x000000FF) = a + b + (c + d)"
    using unat_and_0xFF [of "?x + shr ?x 16" "a + b + (c + d)" "[b + c + d, c + d, d]" "0xFF"] le by simp
  then show ?thesis
    using sum_byte_sums [of w] by (simp add: hweight32_def swar_def Let_def bs)
qed

theorem hweight64_popcount: "unat (hweight64 w) = popcount w"
proof -
  obtain a b c d e f g h where bs: "byte_sums w = [a, b, c, d, e, f, g, h]"
    using length_byte_sums [of 8 w] by (auto simp: numeral_eq_Suc length_Suc_conv)
  let ?v = "swar 0x5555555555555555 0x3333333333333333 0x0F0F0F0F0F0F0F0F w"
  let ?x = "?v + shr ?v 8"
  let ?y = "?x + shr ?x 16"
  have le: "a \<le> 8" "b \<le> 8" "c \<le> 8" "d \<le> 8" "e \<le> 8" "f \<le> 8" "g \<le> 8" "h \<le> 8"
    using byte_sums_small [of w] by (simp_all add: bs)
  have v: "unat ?v = digits 8 [a, b, c, d, e, f, g, h]" using swar_widths(4) [of w] by (simp only: bs)
  let ?dx = "[a + b, b + c, c + d, d + e, e + f, f + g, g + h, h]"
  have "unat (?v + shr ?v (8 * 1)) = digits 8 ?dx"
    by (rule fold_step [OF v]) (use le in auto)
  then have x: "unat ?x = digits 8 ?dx" by simp
  let ?dy = "[a + b + (c + d), b + c + (d + e), c + d + (e + f), d + e + (f + g),
              e + f + (g + h), f + g + h, g + h, h]"
  have "unat (?x + shr ?x (8 * 2)) = digits 8 ?dy"
    by (rule fold_step [OF x]) (use le in \<open>auto simp: replicate_numeral_Cons\<close>)
  then have y: "unat ?y = digits 8 ?dy" by simp
  let ?t = "a + b + (c + d) + (e + f + (g + h))"
  let ?dz = "[b + c + (d + e) + (f + g + h), c + d + (e + f) + (g + h), d + e + (f + g) + h,
              e + f + (g + h), f + g + h, g + h, h]"
  have "unat (?y + shr ?y (8 * 4)) = digits 8 (?t # ?dz)"
    by (rule fold_step [OF y]) (use le in \<open>auto simp: replicate_numeral_Cons\<close>)
  then have "unat ((?y + shr ?y 32) AND 0xFF) = ?t"
    using unat_and_0xFF [of "?y + shr ?y 32" ?t ?dz "0xFF"] le by simp
  then show ?thesis
    using sum_byte_sums [of w] by (simp add: hweight64_def swar_def Let_def bs add.assoc)
qed

end
