(* ===== verification/Bitmap.thy ===== *)
theory Bitmap
  imports Bit_Stream Hweight
begin

text \<open>
  The bitmaps of \<open>src/bitmap/bitmap.c\<close>.  A bitmap is a byte list; bit number \<open>i\<close> is bit
  \<open>7 - i mod 8\<close> of byte \<open>i div 8\<close>, so the bitmap as a list of bits is \<open>bits_of\<close>, and every
  operation is specified on that list.  An access outside the buffer is \<open>None\<close>.
\<close>

section \<open>The code\<close>

definition BITS_TO_BYTES :: "nat \<Rightarrow> nat" where
  "BITS_TO_BYTES nbits = (nbits + 8 - 1) div 8"

definition BITS_MASK_BYTE :: "nat \<Rightarrow> u8" where
  "BITS_MASK_BYTE nbits = NOT (shr (NOT 0) nbits)"

definition bitmap_zero :: "bytes \<Rightarrow> nat \<Rightarrow> bytes option" where
  "bitmap_zero bitmap nbits = (let n = BITS_TO_BYTES nbits in
     if n \<le> length bitmap then Some (replicate n 0x00 @ drop n bitmap) else None)"

definition bitmap_fill :: "bytes \<Rightarrow> nat \<Rightarrow> bytes option" where
  "bitmap_fill bitmap nbits = (let n = BITS_TO_BYTES nbits in
     if n \<le> length bitmap then Some (replicate n 0xFF @ drop n bitmap) else None)"

definition bitmap_copy :: "bytes \<Rightarrow> bytes \<Rightarrow> nat \<Rightarrow> bytes option" where
  "bitmap_copy bitmap src nbits = (let n = BITS_TO_BYTES nbits in
     if n \<le> length bitmap \<and> n \<le> length src then Some (take n src @ drop n bitmap) else None)"

text \<open>The loops of \<open>bitmap_set\<close> and \<open>bitmap_clear\<close>: the bitmap, \<open>from\<close> and \<open>mask\<close> after it.\<close>

function bitmap_set_loop :: "bytes \<Rightarrow> nat \<Rightarrow> nat \<Rightarrow> u8 \<Rightarrow> (bytes \<times> nat \<times> u8) option" where
  "bitmap_set_loop bitmap from stop m =
     (if from < stop
      then do { v \<leftarrow> fetch bitmap from;
                bitmap' \<leftarrow> store bitmap from (v OR m);
                bitmap_set_loop bitmap' (from + 1) stop (NOT 0) }
      else Some (bitmap, from, m))"
  by auto
termination by (relation "measure (\<lambda>(_, from, stop, _). stop - from)") auto

definition bitmap_set :: "bytes \<Rightarrow> nat \<Rightarrow> nat \<Rightarrow> bytes option" where
  "bitmap_set bitmap start len = do {
     let e = start + len;
     (bitmap, from, m) \<leftarrow> bitmap_set_loop bitmap (start div 8) (e div 8) (shr (NOT 0) (start mod 8));
     if e mod 8 \<noteq> 0
     then do { v \<leftarrow> fetch bitmap from;
               store bitmap from (v OR (m AND BITS_MASK_BYTE (e mod 8))) }
     else Some bitmap }"

function bitmap_clear_loop :: "bytes \<Rightarrow> nat \<Rightarrow> nat \<Rightarrow> u8 \<Rightarrow> (bytes \<times> nat \<times> u8) option" where
  "bitmap_clear_loop bitmap from stop m =
     (if from < stop
      then do { v \<leftarrow> fetch bitmap from;
                bitmap' \<leftarrow> store bitmap from (v AND m);
                bitmap_clear_loop bitmap' (from + 1) stop 0 }
      else Some (bitmap, from, m))"
  by auto
termination by (relation "measure (\<lambda>(_, from, stop, _). stop - from)") auto

definition bitmap_clear :: "bytes \<Rightarrow> nat \<Rightarrow> nat \<Rightarrow> bytes option" where
  "bitmap_clear bitmap start len = do {
     let e = start + len;
     (bitmap, from, m) \<leftarrow> bitmap_clear_loop bitmap (start div 8) (e div 8) (BITS_MASK_BYTE (start mod 8));
     if e mod 8 \<noteq> 0
     then do { v \<leftarrow> fetch bitmap from;
               store bitmap from (v AND (m OR shr (NOT 0) (e mod 8))) }
     else Some bitmap }"

text \<open>The byte-wise loops of \<open>bitmap_or\<close>, \<open>bitmap_and\<close> and \<open>bitmap_xor\<close>.\<close>

function bitmap_op_loop ::
    "(u8 \<Rightarrow> u8 \<Rightarrow> u8) \<Rightarrow> bytes \<Rightarrow> bytes \<Rightarrow> bytes \<Rightarrow> nat \<Rightarrow> nat \<Rightarrow> bytes option" where
  "bitmap_op_loop f result src1 src2 i n =
     (if i < n
      then do { a \<leftarrow> fetch src1 i;
                b \<leftarrow> fetch src2 i;
                result' \<leftarrow> store result i (f a b);
                bitmap_op_loop f result' src1 src2 (i + 1) n }
      else Some result)"
  by auto
termination by (relation "measure (\<lambda>(_, _, _, _, i, n). n - i)") auto

definition bitmap_or :: "bytes \<Rightarrow> bytes \<Rightarrow> bytes \<Rightarrow> nat \<Rightarrow> bytes option" where
  "bitmap_or result src1 src2 nbits = bitmap_op_loop (OR) result src1 src2 0 (BITS_TO_BYTES nbits)"

definition bitmap_and :: "bytes \<Rightarrow> bytes \<Rightarrow> bytes \<Rightarrow> nat \<Rightarrow> bytes option" where
  "bitmap_and result src1 src2 nbits = bitmap_op_loop (AND) result src1 src2 0 (BITS_TO_BYTES nbits)"

definition bitmap_xor :: "bytes \<Rightarrow> bytes \<Rightarrow> bytes \<Rightarrow> nat \<Rightarrow> bytes option" where
  "bitmap_xor result src1 src2 nbits = bitmap_op_loop (XOR) result src1 src2 0 (BITS_TO_BYTES nbits)"

text \<open>A little-endian \<open>unsigned long\<close> load; the weight does not depend on the byte order.\<close>

fun load_ulong :: "bytes \<Rightarrow> u64" where
  "load_ulong [] = 0"
| "load_ulong (b # bs) = ucast b OR shl (load_ulong bs) 8"

fun weight_longs :: "bytes \<Rightarrow> nat \<Rightarrow> nat \<Rightarrow> (nat \<times> bytes) option" where
  "weight_longs p 0 w = Some (w, p)"
| "weight_longs p (Suc i) w =
     (if 8 \<le> length p then weight_longs (drop 8 p) i (w + unat (hweight_long (load_ulong (take 8 p))))
      else None)"

fun weight_bytes :: "bytes \<Rightarrow> nat \<Rightarrow> nat \<Rightarrow> (nat \<times> bytes) option" where
  "weight_bytes p8 0 w = Some (w, p8)"
| "weight_bytes p8 (Suc i) w =
     do { v \<leftarrow> fetch p8 0; weight_bytes (drop 1 p8) i (w + unat (hweight8 v)) }"

definition bitmap_weight :: "bytes \<Rightarrow> nat \<Rightarrow> nat option" where
  "bitmap_weight bitmap nbits = do {
     (w, p8) \<leftarrow> weight_longs bitmap (nbits div (8 * 8)) 0;
     (w, p8) \<leftarrow> weight_bytes p8 ((nbits mod (8 * 8)) div 8) w;
     let nbits = nbits mod 8;
     if nbits \<noteq> 0 then do { v \<leftarrow> fetch p8 0; Some (w + unat (hweight8 (v AND BITS_MASK_BYTE nbits))) }
     else Some w }"

definition clz8 :: "u8 \<Rightarrow> nat" where
  "clz8 v = (let num = 8;
                 (num, v) = (if 0xF0 AND v \<noteq> 0 then (num - 4, shr v 4) else (num, v));
                 (num, v) = (if 0xC AND v \<noteq> 0 then (num - 2, shr v 2) else (num, v));
                 (num, v) = (if 0x2 AND v \<noteq> 0 then (num - 1, shr v 1) else (num, v))
             in if 0x1 AND v \<noteq> 0 then num - 1 else num)"

definition ffz8 :: "u8 \<Rightarrow> nat" where
  "ffz8 v = clz8 (NOT v)"

text \<open>The search loop that \<open>bitmap_count_leading_zero\<close> runs with \<open>clz8\<close> and
  \<open>bitmap_find_first_zero\<close> with \<open>ffz8\<close>: \<open>c\<close> and \<open>i\<close> after it.\<close>

function search_loop :: "(u8 \<Rightarrow> nat) \<Rightarrow> bytes \<Rightarrow> nat \<Rightarrow> nat \<Rightarrow> nat \<Rightarrow> (nat \<times> nat) option" where
  "search_loop f bitmap n i c =
     (if i < n
      then do { v \<leftarrow> fetch bitmap i;
                if f v < 8 then Some (f v, i) else search_loop f bitmap n (i + 1) (f v) }
      else Some (c, i))"
  by auto
termination by (relation "measure (\<lambda>(_, _, n, i, _). n - i)") auto

definition bitmap_count_leading_zero :: "bytes \<Rightarrow> nat \<Rightarrow> nat option" where
  "bitmap_count_leading_zero bitmap nbits = do {
     (c, i) \<leftarrow> search_loop clz8 bitmap (BITS_TO_BYTES nbits) 0 0;
     let c = c + i * 8;
     Some (if c > nbits then nbits else c) }"

definition bitmap_find_first_zero :: "bytes \<Rightarrow> nat \<Rightarrow> nat option" where
  "bitmap_find_first_zero bitmap nbits = do {
     (c, i) \<leftarrow> search_loop ffz8 bitmap (BITS_TO_BYTES nbits) 0 0;
     let c = c + i * 8;
     Some (if c > nbits then nbits else c) }"

definition bitmap_count_next_zero :: "bytes \<Rightarrow> nat \<Rightarrow> nat \<Rightarrow> nat option" where
  "bitmap_count_next_zero bitmap nbits start = do {
     let i = start div 8;
     v \<leftarrow> fetch bitmap i;
     let c = clz8 (v AND shr (NOT 0) (start mod 8));
     c \<leftarrow> (if c = 8 \<and> i + 1 < BITS_TO_BYTES nbits
           then do { z \<leftarrow> bitmap_count_leading_zero (drop (i + 1) bitmap) (size_sub nbits ((i + 1) * 8));
                     Some (c + z) }
           else Some c);
     let c = c + i * 8;
     let c = (if c > nbits then nbits else c);
     Some (size_sub c start) }"

definition bitmap_find_next_zero :: "bytes \<Rightarrow> nat \<Rightarrow> nat \<Rightarrow> nat option" where
  "bitmap_find_next_zero bitmap nbits start = do {
     let i = start div 8;
     v \<leftarrow> fetch bitmap i;
     let c = ffz8 (v OR BITS_MASK_BYTE (start mod 8));
     c \<leftarrow> (if c = 8 \<and> i + 1 < BITS_TO_BYTES nbits
           then do { z \<leftarrow> bitmap_find_first_zero (drop (i + 1) bitmap) (size_sub nbits ((i + 1) * 8));
                     Some (c + z) }
           else Some c);
     let c = c + i * 8;
     let c = (if c > nbits then nbits else c);
     Some (size_sub c start) }"

definition bitmap_test_bit :: "bytes \<Rightarrow> nat \<Rightarrow> int option" where
  "bitmap_test_bit bitmap bits = do {
     v \<leftarrow> fetch bitmap (bits div 8);
     Some (uint v AND 2 ^ (8 - 1 - bits mod 8)) }"

declare bitmap_set_loop.simps [simp del] bitmap_clear_loop.simps [simp del]
  bitmap_op_loop.simps [simp del] search_loop.simps [simp del]

section \<open>Masks and single bits\<close>

lemma bit_shr_ones: "n < 8 \<Longrightarrow> bit (shr (NOT 0) k :: u8) n \<longleftrightarrow> n + k < 8"
  by (auto simp: bit_simps)

lemma bit_BITS_MASK_BYTE: "n < 8 \<Longrightarrow> bit (BITS_MASK_BYTE k) n \<longleftrightarrow> 8 \<le> n + k"
  by (auto simp: BITS_MASK_BYTE_def bit_simps)

text \<open>Two bitmaps of one length are equal as bit lists when they agree bit by bit; the bit
  number is split into its byte and its place in the byte.\<close>

lemma bits_of_nth8: "k < length b \<Longrightarrow> r < 8 \<Longrightarrow> bits_of b ! (8 * k + r) = bit (b ! k) (7 - r)"
  by (subst nth_bits_of) auto

lemma bits_of_eqI:
  assumes "length bs = 8 * length b"
    and "\<And>k r. k < length b \<Longrightarrow> r < 8 \<Longrightarrow> bit (b ! k) (7 - r) = bs ! (8 * k + r)"
  shows "bits_of b = bs"
proof (rule nth_equalityI)
  fix i assume "i < length (bits_of b)"
  then have i: "i div 8 < length b" by (simp add: div_less_iff_less_mult mult.commute)
  have "bits_of b ! (8 * (i div 8) + i mod 8) = bs ! (8 * (i div 8) + i mod 8)"
    using assms(2) [OF i, of "i mod 8"] bits_of_nth8 [OF i, of "i mod 8"] by simp
  then show "bits_of b ! i = bs ! i" by simp
qed (simp add: assms)

lemma bitmap_test_bit_spec:
  assumes "i < 8 * length b"
  shows "\<exists>v. bitmap_test_bit b i = Some v \<and> (v \<noteq> 0 \<longleftrightarrow> bits_of b ! i)"
proof -
  have i: "i div 8 < length b" using assms by (simp add: div_less_iff_less_mult mult.commute)
  have "uint c AND 2 ^ n \<noteq> 0 \<longleftrightarrow> bit c n" if "n < 8" for c :: u8 and n
    using that bit_iff_and_push_bit_not_eq_0 [of "uint c" n]
    by (simp add: push_bit_eq_mult bit_uint_iff)
  from this [of "7 - i mod 8" "b ! (i div 8)"] show ?thesis
    using i nth_bits_of [OF assms] by (simp add: bitmap_test_bit_def)
qed

section \<open>Setting and clearing ranges\<close>

lemma bitmap_set_loop_spec:
  assumes "stop \<le> length b"
  shows "\<exists>b'. bitmap_set_loop b from stop m = Some (b', max from stop, if from < stop then NOT 0 else m)
       \<and> length b' = length b
       \<and> (\<forall>j < length b. b' ! j = (if from \<le> j \<and> j < stop then b ! j OR (if j = from then m else NOT 0)
                                   else b ! j))"
  using assms
proof (induction b "from" stop m rule: bitmap_set_loop.induct)
  case (1 b "from" stop m)
  show ?case
  proof (cases "from < stop")
    case True
    then have len: "from < length b" using "1.prems" by simp
    have "\<exists>b'. bitmap_set_loop (b[from := b ! from OR m]) (from + 1) stop (NOT 0)
             = Some (b', max (from + 1) stop, NOT 0)
       \<and> length b' = length b
       \<and> (\<forall>j < length b. b' ! j = (if from + 1 \<le> j \<and> j < stop then b[from := b ! from OR m] ! j OR NOT 0
                                   else b[from := b ! from OR m] ! j))"
      using "1.IH" [of "b ! from" "b[from := b ! from OR m]"] True len "1.prems" by auto
    then obtain b' where "bitmap_set_loop (b[from := b ! from OR m]) (from + 1) stop (NOT 0)
             = Some (b', max (from + 1) stop, NOT 0)" "length b' = length b"
      and "\<forall>j < length b. b' ! j = (if from + 1 \<le> j \<and> j < stop then b[from := b ! from OR m] ! j OR NOT 0
                                   else b[from := b ! from OR m] ! j)" by blast
    then show ?thesis
      using True len by (subst bitmap_set_loop.simps) (auto simp: nth_list_update max_def)
  qed (auto simp: bitmap_set_loop.simps)
qed

lemma nth_range_update:
  assumes "i < length bs" "start + len \<le> length bs"
  shows "(take start bs @ replicate len v @ drop (start + len) bs) ! i
       = (if start \<le> i \<and> i < start + len then v else bs ! i)"
  using assms by (auto simp: nth_append)

lemma bitmap_set_bytes:
  assumes "start + len \<le> 8 * length b"
  shows "\<exists>b'. bitmap_set b start len = Some b' \<and> length b' = length b
       \<and> (\<forall>k < length b. \<forall>r < 8. bit (b' ! k) (7 - r)
            \<longleftrightarrow> bit (b ! k) (7 - r) \<or> start \<le> 8 * k + r \<and> 8 * k + r < start + len)"
proof -
  define ks rs ke re where d: "ks = start div 8" "rs = start mod 8"
    "ke = (start + len) div 8" "re = (start + len) mod 8"
  have off: "start = 8 * ks + rs" "start + len = 8 * ke + re" and lt: "rs < 8" "re < 8"
    unfolding d by simp_all
  have le: "ke \<le> length b" and tail: "re \<noteq> 0 \<Longrightarrow> ke < length b" using off(2) assms by linarith+
  have kse: "ks \<le> ke" unfolding d by (rule div_le_mono) simp
  obtain b1 where loop: "bitmap_set_loop b ks ke (shr (NOT 0) rs)
        = Some (b1, ke, if ks < ke then NOT 0 else shr (NOT 0) rs)"
    and len1: "length b1 = length b"
    and nth1: "\<And>j. j < length b \<Longrightarrow> b1 ! j = (if ks \<le> j \<and> j < ke
        then b ! j OR (if j = ks then shr (NOT 0) rs else NOT 0) else b ! j)"
    using bitmap_set_loop_spec [OF le, of ks "shr (NOT 0) rs"] kse by (auto simp: max_def)
  define b' where "b' = (if re \<noteq> 0 then b1[ke := b1 ! ke OR ((if ks < ke then NOT 0 else shr (NOT 0) rs)
      AND BITS_MASK_BYTE re)] else b1)"
  have "bitmap_set b start len = Some b'"
    unfolding bitmap_set_def b'_def Let_def d [symmetric] loop using tail len1 by simp
  moreover have "bit (b' ! k) (7 - r) \<longleftrightarrow> bit (b ! k) (7 - r) \<or> start \<le> 8 * k + r \<and> 8 * k + r < start + len"
    if k: "k < length b" and r: "r < 8" for k r
  proof -
    have "start \<le> 8 * k + r \<longleftrightarrow> ks < k \<or> ks = k \<and> rs \<le> r" using off(1) lt(1) r by linarith
    moreover have "8 * k + r < start + len \<longleftrightarrow> k < ke \<or> k = ke \<and> r < re" using off(2) lt(2) r by linarith
    moreover have "b' ! k = (if ks \<le> k \<and> k < ke
        then b ! k OR (if k = ks then shr (NOT 0) rs else NOT 0)
        else if k = ke \<and> re \<noteq> 0 then b ! k OR ((if ks < ke then NOT 0 else shr (NOT 0) rs) AND BITS_MASK_BYTE re)
        else b ! k)"
      using nth1 [OF k] k len1 by (auto simp: b'_def nth_list_update)
    ultimately show ?thesis
      using r kse by (auto simp: bit_or_iff bit_and_iff bit_shr_ones bit_BITS_MASK_BYTE bit_not_iff
          bit_mask_iff)
  qed
  moreover have "length b' = length b" by (simp add: b'_def len1)
  ultimately show ?thesis by blast
qed

lemma bitmap_set_spec:
  assumes "start + len \<le> 8 * length b"
  shows "\<exists>b'. bitmap_set b start len = Some b'
       \<and> bits_of b' = take start (bits_of b) @ replicate len True @ drop (start + len) (bits_of b)"
proof -
  obtain b' where b': "bitmap_set b start len = Some b'" "length b' = length b"
    and nth: "\<And>k r. k < length b \<Longrightarrow> r < 8 \<Longrightarrow> bit (b' ! k) (7 - r)
            \<longleftrightarrow> bit (b ! k) (7 - r) \<or> start \<le> 8 * k + r \<and> 8 * k + r < start + len"
    using bitmap_set_bytes [OF assms] by blast
  have "bits_of b' = take start (bits_of b) @ replicate len True @ drop (start + len) (bits_of b)"
  proof (rule bits_of_eqI)
    fix k r :: nat assume k: "k < length b'" and r: "r < 8"
    then have "8 * k + r < length (bits_of b)" using b'(2) by simp
    then show "bit (b' ! k) (7 - r)
        = (take start (bits_of b) @ replicate len True @ drop (start + len) (bits_of b)) ! (8 * k + r)"
      using assms k r b'(2) by (subst nth_range_update) (auto simp: nth bits_of_nth8)
  qed (use assms b'(2) in simp)
  with b'(1) show ?thesis by blast
qed

text \<open>Clearing is setting on the complement.\<close>

lemma BITS_MASK_BYTE_NOT: "NOT (BITS_MASK_BYTE k) = shr (NOT 0) k"
  by (simp add: BITS_MASK_BYTE_def)

lemma bitmap_clear_loop_NOT:
  "bitmap_clear_loop b from stop m
     = map_option (\<lambda>(b', f, m'). (map NOT b', f, NOT m')) (bitmap_set_loop (map NOT b) from stop (NOT m))"
proof (induction b "from" stop m rule: bitmap_clear_loop.induct)
  case (1 b "from" stop m)
  show ?case
  proof (cases "from < stop \<and> from < length b")
    case True
    then show ?thesis
      using "1.IH" [of "b ! from" "b[from := b ! from AND m]"]
      by (subst bitmap_clear_loop.simps, subst bitmap_set_loop.simps)
        (simp add: map_update)
  next
    case False
    then show ?thesis
      by (subst bitmap_clear_loop.simps, subst bitmap_set_loop.simps) (auto simp: fetch_def comp_def)
  qed
qed

lemma bitmap_clear_NOT:
  "bitmap_clear b start len = map_option (map NOT) (bitmap_set (map NOT b) start len)"
proof -
  have "store (map NOT b') f (NOT v AND (NOT m OR shr (NOT 0) k))
      = map_option (map NOT) (store b' f (v OR (m AND BITS_MASK_BYTE k)))" for b' :: bytes and f v m k
    by (simp add: store_def map_update BITS_MASK_BYTE_def)
  moreover have "fetch (map NOT b') f = map_option NOT (fetch b' f)" for b' :: bytes and f
    by (simp add: fetch_def)
  ultimately show ?thesis
    unfolding bitmap_clear_def bitmap_set_def Let_def
    by (auto simp: bitmap_clear_loop_NOT BITS_MASK_BYTE_NOT comp_def
        split: option.splits prod.splits Option.bind_splits)
qed

lemma bits_of_NOT: "bits_of (map NOT b) = map Not (bits_of b)"
  by (induction b) (auto simp: byte_bits_def bit_not_iff)

lemma bitmap_clear_spec:
  assumes "start + len \<le> 8 * length b"
  shows "\<exists>b'. bitmap_clear b start len = Some b'
       \<and> bits_of b' = take start (bits_of b) @ replicate len False @ drop (start + len) (bits_of b)"
proof -
  obtain c where "bitmap_set (map NOT b) start len = Some c"
    and "bits_of c = take start (bits_of (map NOT b)) @ replicate len True @ drop (start + len) (bits_of (map NOT b))"
    using bitmap_set_spec [of start len "map NOT b"] assms by auto
  then show ?thesis
    by (simp add: bitmap_clear_NOT bits_of_NOT take_map drop_map comp_def)
qed

section \<open>Whole-bitmap operations\<close>

lemma BITS_TO_BYTES_le: "BITS_TO_BYTES nbits \<le> k \<longleftrightarrow> nbits \<le> 8 * k"
  unfolding BITS_TO_BYTES_def
  using div_less_iff_less_mult [of 8 "nbits + 8 - 1" "Suc k"] by (simp add: less_Suc_eq_le) linarith

lemma nbits_le_BITS_TO_BYTES: "nbits \<le> 8 * BITS_TO_BYTES nbits"
  using BITS_TO_BYTES_le [of nbits "BITS_TO_BYTES nbits"] by simp

lemma bitmap_op_loop_spec:
  assumes "n \<le> length r" "n \<le> length a" "n \<le> length b" "i \<le> n"
  shows "bitmap_op_loop f r a b i n
       = Some (take i r @ map2 f (drop i (take n a)) (drop i (take n b)) @ drop n r)"
  using assms
proof (induction f r a b i n rule: bitmap_op_loop.induct)
  case (1 f r a b i n)
  show ?case
  proof (cases "i < n")
    case True
    then have "drop i (take n a) = a ! i # drop (i + 1) (take n a)"
      "drop i (take n b) = b ! i # drop (i + 1) (take n b)"
      using "1.prems" by (simp_all add: Cons_nth_drop_Suc [symmetric])
    moreover have "take (i + 1) (r[i := f (a ! i) (b ! i)]) = take i r @ [f (a ! i) (b ! i)]"
      using True "1.prems" by (simp add: take_Suc_conv_app_nth)
    ultimately show ?thesis
      using "1.IH" [of "a ! i" "b ! i" "r[i := f (a ! i) (b ! i)]"] True "1.prems"
      by (subst bitmap_op_loop.simps) simp
  qed (use "1.prems" in \<open>simp add: bitmap_op_loop.simps\<close>)
qed

lemma bits_of_append: "bits_of (a @ b) = bits_of a @ bits_of b"
  by (simp add: bits_of_def)

lemma take_bits_of: "take (8 * k) (bits_of d) = bits_of (take k d)"
proof (induction d arbitrary: k)
  case (Cons c d)
  then show ?case by (cases k) simp_all
qed simp

lemma take_bits_of_append:
  assumes "nbits \<le> 8 * length a"
  shows "take nbits (bits_of (a @ b)) = take nbits (bits_of a)"
  using assms by (simp add: bits_of_append)

lemma bits_of_map2:
  assumes "length a = length b" and "\<And>x y. byte_bits (f x y) = map2 g (byte_bits x) (byte_bits y)"
  shows "bits_of (map2 f a b) = map2 g (bits_of a) (bits_of b)"
  using assms(1) by (induction a b rule: list_induct2) (simp_all add: assms(2))

lemma bitmap_op_bits:
  assumes "nbits \<le> 8 * length r" "nbits \<le> 8 * length a" "nbits \<le> 8 * length b"
    and "\<And>x y. byte_bits (f x y) = map2 g (byte_bits x) (byte_bits y)"
  shows "\<exists>r'. bitmap_op_loop f r a b 0 (BITS_TO_BYTES nbits) = Some r' \<and> length r' = length r
       \<and> take nbits (bits_of r') = map2 g (take nbits (bits_of a)) (take nbits (bits_of b))
       \<and> drop (BITS_TO_BYTES nbits) r' = drop (BITS_TO_BYTES nbits) r"
proof -
  let ?n = "BITS_TO_BYTES nbits"
  have n: "?n \<le> length r" "?n \<le> length a" "?n \<le> length b"
    using assms(1-3) by (simp_all add: BITS_TO_BYTES_le)
  let ?m = "map2 f (take ?n a) (take ?n b)"
  have len: "length ?m = ?n" using n by simp
  have "take nbits (bits_of (?m @ drop ?n r)) = take nbits (bits_of ?m)"
    using nbits_le_BITS_TO_BYTES [of nbits] len by (intro take_bits_of_append) simp
  also have "\<dots> = take nbits (map2 g (bits_of (take ?n a)) (bits_of (take ?n b)))"
    using n assms(4) by (subst bits_of_map2) simp_all
  also have "\<dots> = map2 g (take nbits (bits_of a)) (take nbits (bits_of b))"
    using nbits_le_BITS_TO_BYTES [of nbits] by (simp add: take_map take_zip flip: take_bits_of)
  finally show ?thesis
    using n len by (simp add: bitmap_op_loop_spec)
qed

lemma byte_bits_ops:
  "byte_bits (x OR y) = map2 (\<or>) (byte_bits x) (byte_bits y)"
  "byte_bits (x AND y) = map2 (\<and>) (byte_bits x) (byte_bits y)"
  "byte_bits (x XOR y) = map2 (\<noteq>) (byte_bits x) (byte_bits y)"
  by (auto simp: byte_bits_def zip_map1 zip_map2 zip_same_conv_map comp_def bit_simps)

lemma bits_of_replicate:
  "bits_of (replicate n 0) = replicate (8 * n) False"
  "bits_of (replicate n 0xFF) = replicate (8 * n) True"
  by (induction n) (auto simp: byte_bits_def replicate_add upt_conv_Cons replicate_numeral_Cons)

section \<open>Weight\<close>

abbreviation ones :: "bool list \<Rightarrow> nat" where
  "ones bs \<equiv> length (filter (\<lambda>b. b) bs)"

lemma popcount_byte: "popcount (c :: u8) = ones (byte_bits c)"
proof -
  have "byte_bits c = rev (map (bit c) [0..<8])" by (simp add: byte_bits_def upt_conv_Cons nat_bits)
  then show ?thesis by (simp add: popcount_def filter_map comp_def rev_filter [symmetric])
qed

lemma filter_bits_byte_OR:
  assumes "8 + n \<le> 64"
  shows "length (filter (bit (ucast (b :: u8) OR shl v 8 :: u64)) [0..<8 + n])
       = popcount b + length (filter (bit v) [0..<n])"
proof -
  have "[0..<8 + n] = [0..<8] @ map (\<lambda>i. 8 + i) [0..<n]"
    using upt_add_eq_append [of 0 8 n] map_add_upt [of 8 n] by (simp add: add.commute)
  moreover have "filter (bit (ucast b OR shl v 8 :: u64)) [0..<8] = filter (bit b) [0..<8]"
    by (rule filter_cong) (auto simp: bit_simps)
  moreover have "filter (\<lambda>i. bit (ucast b OR shl v 8 :: u64) (8 + i)) [0..<n] = filter (bit v) [0..<n]"
    using assms by (intro filter_cong) (auto simp: bit_simps dest: bit_imp_le_length)
  ultimately show ?thesis by (simp add: popcount_def filter_map comp_def)
qed

lemma load_ulong_ones:
  "8 * length bs \<le> 64 \<Longrightarrow> length (filter (bit (load_ulong bs)) [0..<8 * length bs]) = ones (bits_of bs)"
proof (induction bs)
  case (Cons b bs)
  then show ?case
    using filter_bits_byte_OR [of "8 * length bs" b "load_ulong bs"] by (simp add: popcount_byte)
qed simp

lemma popcount_load_ulong: "length bs = 8 \<Longrightarrow> popcount (load_ulong bs) = ones (bits_of bs)"
  using load_ulong_ones [of bs] by (simp add: popcount_def)

lemma weight_longs_spec:
  "8 * k \<le> length p \<Longrightarrow> weight_longs p k w = Some (w + ones (bits_of (take (8 * k) p)), drop (8 * k) p)"
proof (induction p k w rule: weight_longs.induct)
  case (2 p i w)
  have "take (8 + 8 * i) p = take 8 p @ take (8 * i) (drop 8 p)" by (simp add: take_add)
  then show ?case
    using 2 by (simp add: hweight_long_def hweight64_popcount popcount_load_ulong bits_of_append
        add.commute)
qed simp

lemma weight_bytes_spec:
  "k \<le> length p \<Longrightarrow> weight_bytes p k w = Some (w + ones (bits_of (take k p)), drop k p)"
proof (induction p k w rule: weight_bytes.induct)
  case (2 p i w)
  then show ?case
    by (cases p) (simp_all add: hweight8_popcount popcount_byte)
qed simp

lemma byte_bits_mask: "r < 8 \<Longrightarrow> byte_bits (c AND BITS_MASK_BYTE r) = take r (byte_bits c) @ replicate (8 - r) False"
  by (rule nth_equalityI)
    (auto simp: nth_byte_bits nth_append bit_and_iff bit_BITS_MASK_BYTE)

lemma bitmap_weight_spec:
  assumes "nbits \<le> 8 * length b"
  shows "bitmap_weight b nbits = Some (ones (take nbits (bits_of b)))"
proof -
  define q k r where d: "q = nbits div 64" "k = nbits mod 64 div 8" "r = nbits mod 8"
  have r: "r = nbits mod 64 mod 8" by (simp add: d mod_mod_cancel)
  have off: "nbits = 8 * (8 * q + k) + r" unfolding r d(1,2) by simp
  have lt: "r < 8" by (simp add: d)
  have le: "8 * q + k \<le> length b" using assms off lt by presburger
  have tail: "8 * q + k < length b" if "r \<noteq> 0" using assms off lt that by presburger
  have "take nbits (bits_of b) = bits_of (take (8 * q + k) b) @ take r (bits_of (drop (8 * q + k) b))"
    by (simp only: off take_add take_bits_of drop_bits_of)
  moreover have "take (8 * q + k) b = take (8 * q) b @ take k (drop (8 * q) b)" by (simp add: take_add)
  moreover have "bitmap_weight b nbits = (if r \<noteq> 0
      then Some (ones (bits_of (take (8 * q) b)) + ones (bits_of (take k (drop (8 * q) b)))
                 + unat (hweight8 (b ! (8 * q + k) AND BITS_MASK_BYTE r)))
      else Some (ones (bits_of (take (8 * q) b)) + ones (bits_of (take k (drop (8 * q) b)))))"
    using le tail unfolding bitmap_weight_def
    by (simp add: weight_longs_spec weight_bytes_spec Let_def add.commute [of k] flip: d)
  moreover have "unat (hweight8 (b ! (8 * q + k) AND BITS_MASK_BYTE r))
      = ones (take r (bits_of (drop (8 * q + k) b)))" if "r \<noteq> 0"
    using tail [OF that] lt
    by (simp add: hweight8_popcount popcount_byte byte_bits_mask Cons_nth_drop_Suc [symmetric])
  ultimately show ?thesis by (simp add: bits_of_append)
qed

section \<open>Searching\<close>

text \<open>The contract of a byte scanner: the number of leading bits of a byte that satisfy \<open>p\<close>.
  The loop and the searches built on it then count the leading bits of a whole bitmap.\<close>

lemma length_takeWhile_take: "length (takeWhile p (take k xs)) = min k (length (takeWhile p xs))"
proof (induction xs arbitrary: k)
  case (Cons x xs)
  then show ?case by (cases k) simp_all
qed simp

locale byte_scanner =
  fixes scan :: "u8 \<Rightarrow> nat" and p :: "bool \<Rightarrow> bool"
  assumes scan: "scan v = length (takeWhile p (byte_bits v))"
begin

lemma scan_le: "scan v \<le> 8"
  using length_takeWhile_le [of p "byte_bits v"] by (simp add: scan)

lemma takeWhile_whole: "\<not> scan v < 8 \<Longrightarrow> takeWhile p (byte_bits v) = byte_bits v"
  using scan_le [of v] takeWhile_eq_take [of p "byte_bits v"] by (simp add: scan)

lemma takeWhile_stop: "scan v < 8 \<Longrightarrow> takeWhile p (byte_bits v @ xs) = takeWhile p (byte_bits v)"
  using takeWhile_eq_all_conv [of p "byte_bits v"] takeWhile_append1 [of _ "byte_bits v" p xs]
  by (cases "takeWhile p (byte_bits v) = byte_bits v") (auto simp: scan)

lemma takeWhile_go: "\<not> scan v < 8 \<Longrightarrow> takeWhile p (byte_bits v @ xs) = byte_bits v @ takeWhile p xs"
  using takeWhile_whole [of v] by (intro takeWhile_append2) (simp add: takeWhile_eq_all_conv)

lemma search_loop_spec:
  assumes "n \<le> length b"
  shows "\<exists>c' i'. search_loop scan b n i c = Some (c', i')
     \<and> (c' + i' * 8 = 8 * i + length (takeWhile p (bits_of (drop i (take n b))))
        \<or> c' + i' * 8 \<ge> 8 * n \<and> takeWhile p (bits_of (drop i (take n b))) = bits_of (drop i (take n b)))"
proof (induction "n - i" arbitrary: i c)
  case 0
  then show ?case by (subst search_loop.simps) auto
next
  case (Suc k)
  then have i: "i < n" "i < length b" "k = n - (i + 1)" using assms by simp_all
  then have d: "drop i (take n b) = b ! i # drop (i + 1) (take n b)"
    by (simp add: Cons_nth_drop_Suc [symmetric])
  show ?case
  proof (cases "scan (b ! i) < 8")
    case True
    then show ?thesis
      using i by (subst search_loop.simps) (simp add: d takeWhile_stop scan)
  next
    case False
    obtain c' i' where "search_loop scan b n (i + 1) (scan (b ! i)) = Some (c', i')"
      "c' + i' * 8 = 8 * (i + 1) + length (takeWhile p (bits_of (drop (i + 1) (take n b))))
        \<or> c' + i' * 8 \<ge> 8 * n \<and> takeWhile p (bits_of (drop (i + 1) (take n b)))
                                 = bits_of (drop (i + 1) (take n b))"
      using Suc.hyps(1) [OF i(3), of "scan (b ! i)"] by blast
    with False i show ?thesis
      by (subst search_loop.simps) (auto simp: d takeWhile_go)
  qed
qed

lemma search_spec:
  assumes "nbits \<le> 8 * length b"
  shows "\<exists>c i. search_loop scan b (BITS_TO_BYTES nbits) 0 0 = Some (c, i)
     \<and> (if c + i * 8 > nbits then nbits else c + i * 8) = length (takeWhile p (take nbits (bits_of b)))"
proof -
  let ?n = "BITS_TO_BYTES nbits" and ?B = "bits_of (take (BITS_TO_BYTES nbits) b)"
  have n: "?n \<le> length b" and m: "nbits \<le> 8 * ?n"
    using assms nbits_le_BITS_TO_BYTES by (simp_all add: BITS_TO_BYTES_le)
  have "take nbits (bits_of b) = take nbits ?B"
    using m by (simp flip: take_bits_of)
  then have goal: "length (takeWhile p (take nbits (bits_of b))) = min nbits (length (takeWhile p ?B))"
    by (simp add: length_takeWhile_take)
  obtain c i where "search_loop scan b ?n 0 0 = Some (c, i)"
    "c + i * 8 = length (takeWhile p ?B) \<or> c + i * 8 \<ge> 8 * ?n \<and> takeWhile p ?B = ?B"
    using search_loop_spec [OF n, of 0 0] by auto
  moreover have "length ?B = 8 * ?n" using n by simp
  ultimately show ?thesis using m by (elim disjE) (auto simp: goal simp del: takeWhile_eq_all_conv)
qed

end

text \<open>A scanner with a mask that makes the first \<open>r\<close> bits of a byte satisfy \<open>p\<close>.\<close>

locale masked_scanner = byte_scanner +
  fixes msk :: "nat \<Rightarrow> u8 \<Rightarrow> u8" and q :: bool
  assumes msk: "r < 8 \<Longrightarrow> byte_bits (msk r v) = replicate r q @ drop r (byte_bits v)"
    and q: "p q"
begin

lemma scan_msk: "r < 8 \<Longrightarrow> scan (msk r v) = r + length (takeWhile p (drop r (byte_bits v)))"
  using q takeWhile_append2 [of "replicate r q" p] by (simp add: scan msk)

lemma next_spec:
  assumes "start < nbits" "nbits \<le> 8 * length b"
    and i: "i = start div 8" and c: "c = scan (msk (start mod 8) (b ! i))"
    and t: "t = (if c = 8 \<and> i + 1 < BITS_TO_BYTES nbits
                 then c + length (takeWhile p (take (nbits - (i + 1) * 8) (bits_of (drop (i + 1) b))))
                 else c) + i * 8"
  shows "start \<le> min nbits t
       \<and> min nbits t - start = length (takeWhile p (drop start (take nbits (bits_of b))))"
proof -
  define r where "r = start mod 8"
  have off: "start = 8 * i + r" "r < 8" unfolding i r_def by simp_all
  have ib: "i < length b" using assms(1,2) off(1) by presburger
  let ?X = "drop r (byte_bits (b ! i))" and ?R = "bits_of (drop (i + 1) b)"
  have "drop start (bits_of b) = drop r (bits_of (drop i b))"
    by (simp only: off(1) add.commute [of "8 * i"] drop_drop [symmetric] drop_bits_of)
  also have "\<dots> = ?X @ ?R" using ib off(2) by (simp add: Cons_nth_drop_Suc [symmetric])
  finally have goal: "length (takeWhile p (drop start (take nbits (bits_of b))))
      = min (nbits - start) (length (takeWhile p (?X @ ?R)))"
    by (simp only: drop_take length_takeWhile_take)
  have cr: "c = r + length (takeWhile p ?X)" using scan_msk [OF off(2)] by (simp add: c r_def)
  have lX: "length ?X = 8 - r" by simp
  show ?thesis
  proof (cases "takeWhile p ?X = ?X")
    case True
    then have "takeWhile p (?X @ ?R) = ?X @ takeWhile p ?R"
      by (intro takeWhile_append2) (simp add: takeWhile_eq_all_conv)
    moreover have "c = 8" using True cr lX off(2) by (simp del: takeWhile_eq_all_conv)
    moreover have "i + 1 < BITS_TO_BYTES nbits \<longleftrightarrow> 8 * (i + 1) < nbits"
      using BITS_TO_BYTES_le [of nbits "i + 1"] by linarith
    ultimately show ?thesis
      unfolding goal t length_takeWhile_take using lX off assms(1) by (simp add: min_def) linarith
  next
    case False
    then have "takeWhile p (?X @ ?R) = takeWhile p ?X"
      using takeWhile_append1 [of _ ?X p ?R] takeWhile_eq_all_conv [of p ?X] by blast
    moreover have "length (takeWhile p ?X) < 8 - r"
      using False takeWhile_eq_take [of p ?X] lX length_takeWhile_le [of p ?X]
      by (metis le_neq_implies_less take_all order_refl)
    moreover from this have "c \<noteq> 8" using cr off(2) by linarith
    then have "t = c + i * 8" using t by simp
    ultimately show ?thesis
      unfolding goal using cr off assms(1) by (simp add: min_def)
  qed
qed

end

section \<open>The scanners of the code\<close>

lemma clz8_masks:
  "0xF0 AND v \<noteq> (0::u8) \<longleftrightarrow> bit v 4 \<or> bit v 5 \<or> bit v 6 \<or> bit v 7"
  "0xC AND v \<noteq> (0::u8) \<longleftrightarrow> bit v 2 \<or> bit v 3"
  "0x2 AND v \<noteq> (0::u8) \<longleftrightarrow> bit v 1"
  "0x1 AND v \<noteq> (0::u8) \<longleftrightarrow> bit v 0"
  by (simp_all add: bitwise_eqs bit_simps)

lemma clz8_byte_bits: "clz8 v = length (takeWhile Not (byte_bits v))"
  unfolding clz8_def clz8_masks
  by (simp add: byte_bits_def upt_conv_Cons bit_simps nat_bits Let_def)

lemma byte_bits_NOT: "byte_bits (NOT v) = map Not (byte_bits v)"
  using bits_of_NOT [of "[v]"] by simp

lemma ffz8_byte_bits: "ffz8 v = length (takeWhile (\<lambda>x. x) (byte_bits v))"
  by (simp add: ffz8_def clz8_byte_bits byte_bits_NOT takeWhile_map comp_def)

lemma byte_bits_clear_first:
  "r < 8 \<Longrightarrow> byte_bits (v AND shr (NOT 0) r) = replicate r False @ drop r (byte_bits v)"
  by (rule nth_equalityI) (auto simp: nth_byte_bits nth_append bit_and_iff bit_mask_iff)

lemma byte_bits_set_first:
  "r < 8 \<Longrightarrow> byte_bits (v OR BITS_MASK_BYTE r) = replicate r True @ drop r (byte_bits v)"
  by (rule nth_equalityI) (auto simp: nth_byte_bits nth_append bit_or_iff bit_BITS_MASK_BYTE)

interpretation zeros: masked_scanner clz8 Not "\<lambda>r v. v AND shr (NOT 0) r" False
  by unfold_locales (simp_all only: clz8_byte_bits byte_bits_clear_first not_False_eq_True)

interpretation set_bits: masked_scanner ffz8 "\<lambda>x. x" "\<lambda>r v. v OR BITS_MASK_BYTE r" True
  by unfold_locales (simp_all only: ffz8_byte_bits byte_bits_set_first)

lemma count_leading_zero_spec:
  "nbits \<le> 8 * length b \<Longrightarrow>
     bitmap_count_leading_zero b nbits = Some (length (takeWhile Not (take nbits (bits_of b))))"
  using zeros.search_spec [of nbits b] by (auto simp: bitmap_count_leading_zero_def)

lemma find_first_zero_spec:
  "nbits \<le> 8 * length b \<Longrightarrow>
     bitmap_find_first_zero b nbits = Some (length (takeWhile (\<lambda>x. x) (take nbits (bits_of b))))"
  using set_bits.search_spec [of nbits b] by (auto simp: bitmap_find_first_zero_def)

lemma next_in_range:
  assumes "start < nbits" "nbits \<le> 8 * length b"
  shows "start div 8 < length b" "nbits - (start div 8 + 1) * 8 \<le> 8 * length (drop (start div 8 + 1) b)"
  using assms by (simp_all add: div_less_iff_less_mult) 

lemma size_sub_BITS:
  "i + 1 < BITS_TO_BYTES nbits \<Longrightarrow> size_sub nbits ((i + 1) * 8) = nbits - (i + 1) * 8"
  using BITS_TO_BYTES_le [of nbits "i + 1"] by simp

lemma count_next_zero_spec:
  assumes "start < nbits" "nbits \<le> 8 * length b"
  shows "bitmap_count_next_zero b nbits start
       = Some (length (takeWhile Not (drop start (take nbits (bits_of b)))))"
proof -
  define i where "i = start div 8"
  define c where "c = clz8 (b ! i AND shr (NOT 0) (start mod 8))"
  define z where "z = length (takeWhile Not (take (nbits - (i + 1) * 8) (bits_of (drop (i + 1) b))))"
  define t where "t = (if c = 8 \<and> i + 1 < BITS_TO_BYTES nbits then c + z else c) + i * 8"
  have "bitmap_count_leading_zero (drop (i + 1) b) (nbits - (i + 1) * 8) = Some z"
    using count_leading_zero_spec [OF next_in_range(2) [OF assms]] by (simp only: i_def z_def)
  then have "bitmap_count_next_zero b nbits start = Some (size_sub (if t > nbits then nbits else t) start)"
    using next_in_range(1) [OF assms]
    unfolding bitmap_count_next_zero_def Let_def i_def [symmetric]
    by (simp only: fetch_Some bind.bind_lunit c_def [symmetric])
      (simp add: size_sub_BITS [simplified] t_def)
  moreover have "(if t > nbits then nbits else t) = min nbits t" by (simp add: min_def)
  ultimately show ?thesis
    using zeros.next_spec [OF assms i_def c_def t_def [unfolded z_def]] by (simp only: size_sub_le)
qed

lemma find_next_zero_spec:
  assumes "start < nbits" "nbits \<le> 8 * length b"
  shows "bitmap_find_next_zero b nbits start
       = Some (length (takeWhile (\<lambda>x. x) (drop start (take nbits (bits_of b)))))"
proof -
  define i where "i = start div 8"
  define c where "c = ffz8 (b ! i OR BITS_MASK_BYTE (start mod 8))"
  define z where "z = length (takeWhile (\<lambda>x. x) (take (nbits - (i + 1) * 8) (bits_of (drop (i + 1) b))))"
  define t where "t = (if c = 8 \<and> i + 1 < BITS_TO_BYTES nbits then c + z else c) + i * 8"
  have "bitmap_find_first_zero (drop (i + 1) b) (nbits - (i + 1) * 8) = Some z"
    using find_first_zero_spec [OF next_in_range(2) [OF assms]] by (simp only: i_def z_def)
  then have "bitmap_find_next_zero b nbits start = Some (size_sub (if t > nbits then nbits else t) start)"
    using next_in_range(1) [OF assms]
    unfolding bitmap_find_next_zero_def Let_def i_def [symmetric]
    by (simp only: fetch_Some bind.bind_lunit c_def [symmetric])
      (simp add: size_sub_BITS [simplified] t_def)
  moreover have "(if t > nbits then nbits else t) = min nbits t" by (simp add: min_def)
  ultimately show ?thesis
    using set_bits.next_spec [OF assms i_def c_def t_def [unfolded z_def]] by (simp only: size_sub_le)
qed

section \<open>Properties\<close>

text \<open>\<open>bitmap_set\<close> and \<open>bitmap_clear\<close> on a range that lies in the bitmap stay inside the
  buffer and change exactly the bits of the range: the bits before and after it are kept and
  those in it become 1 (0), whatever the alignment of its ends.\<close>

theorem bitmap_set_clear_range:
  assumes "start + len \<le> 8 * length b"
  shows "\<exists>s c. bitmap_set b start len = Some s \<and> bitmap_clear b start len = Some c
    \<and> bits_of s = take start (bits_of b) @ replicate len True @ drop (start + len) (bits_of b)
    \<and> bits_of c = take start (bits_of b) @ replicate len False @ drop (start + len) (bits_of b)"
  using bitmap_set_spec [OF assms] bitmap_clear_spec [OF assms] by blast

theorem bitmap_set_clear_range_witness:
  "(5::nat) + 9 \<le> 8 * length [0x0F, 0xF0 :: u8]
   \<and> (\<exists>s c. bitmap_set [0x0F, 0xF0] 5 9 = Some s \<and> bitmap_clear [0x0F, 0xF0] 5 9 = Some c
    \<and> bits_of s = take 5 (bits_of [0x0F, 0xF0]) @ replicate 9 True @ drop (5 + 9) (bits_of [0x0F, 0xF0])
    \<and> bits_of c = take 5 (bits_of [0x0F, 0xF0]) @ replicate 9 False @ drop (5 + 9) (bits_of [0x0F, 0xF0]))"
  using bitmap_set_clear_range [of 5 9 "[0x0F, 0xF0]"] by simp

text \<open>C31: the weight of the first \<open>nbits\<close> bits, counted by words, then bytes, then the masked
  last byte with the parallel population counts, is the number of set bits among them.\<close>

theorem bitmap_weight_correct:
  assumes "nbits \<le> 8 * length b"
  shows "bitmap_weight b nbits = Some (length (filter (\<lambda>x. x) (take nbits (bits_of b))))"
  by (rule bitmap_weight_spec [OF assms])

theorem bitmap_weight_correct_witness:
  "(75::nat) \<le> 8 * length (replicate 10 (0xA5::u8))
   \<and> bitmap_weight (replicate 10 0xA5) 75
       = Some (length (filter (\<lambda>x. x) (take 75 (bits_of (replicate 10 0xA5)))))"
  using bitmap_weight_correct [of 75 "replicate 10 0xA5"] by simp

text \<open>The four searches: the number of leading zero (set) bits of the first \<open>nbits\<close> bits, and
  from a start position inside them; every access lies in the bitmap.\<close>

theorem bitmap_searches:
  assumes "nbits \<le> 8 * length b"
  shows "bitmap_count_leading_zero b nbits = Some (length (takeWhile Not (take nbits (bits_of b))))
    \<and> bitmap_find_first_zero b nbits = Some (length (takeWhile (\<lambda>x. x) (take nbits (bits_of b))))
    \<and> (\<forall>start < nbits.
         bitmap_count_next_zero b nbits start
           = Some (length (takeWhile Not (drop start (take nbits (bits_of b)))))
       \<and> bitmap_find_next_zero b nbits start
           = Some (length (takeWhile (\<lambda>x. x) (drop start (take nbits (bits_of b))))))"
  using assms count_leading_zero_spec find_first_zero_spec count_next_zero_spec find_next_zero_spec
  by blast

theorem bitmap_searches_witness:
  "(13::nat) \<le> 8 * length [0x0F, 0xF0 :: u8] \<and> (5::nat) < 13
    \<and> bitmap_count_leading_zero [0x0F, 0xF0] 13 = Some (length (takeWhile Not (take 13 (bits_of [0x0F, 0xF0]))))
    \<and> bitmap_find_first_zero [0x0F, 0xF0] 13 = Some (length (takeWhile (\<lambda>x. x) (take 13 (bits_of [0x0F, 0xF0]))))
    \<and> bitmap_find_next_zero [0x0F, 0xF0] 13 5
        = Some (length (takeWhile (\<lambda>x. x) (drop 5 (take 13 (bits_of [0x0F, 0xF0])))))"
  using bitmap_searches [of 13 "[0x0F, 0xF0]"] by simp

text \<open>The bitwise operations on whole bitmaps act bit by bit on the first \<open>nbits\<close> bits, keep
  the bytes after them, and never leave the buffers.\<close>

theorem bitmap_operations:
  assumes "nbits \<le> 8 * length r" "nbits \<le> 8 * length a" "nbits \<le> 8 * length b"
  shows "\<exists>ro ra rx. bitmap_or r a b nbits = Some ro \<and> bitmap_and r a b nbits = Some ra
      \<and> bitmap_xor r a b nbits = Some rx
      \<and> take nbits (bits_of ro) = map2 (\<or>) (take nbits (bits_of a)) (take nbits (bits_of b))
      \<and> take nbits (bits_of ra) = map2 (\<and>) (take nbits (bits_of a)) (take nbits (bits_of b))
      \<and> take nbits (bits_of rx) = map2 (\<noteq>) (take nbits (bits_of a)) (take nbits (bits_of b))
      \<and> (\<forall>r' \<in> {ro, ra, rx}. length r' = length r
           \<and> drop (BITS_TO_BYTES nbits) r' = drop (BITS_TO_BYTES nbits) r)"
  unfolding bitmap_or_def bitmap_and_def bitmap_xor_def
  using bitmap_op_bits [OF assms byte_bits_ops(1)] bitmap_op_bits [OF assms byte_bits_ops(2)]
    bitmap_op_bits [OF assms byte_bits_ops(3)]
  by auto

theorem bitmap_operations_witness:
  "(12::nat) \<le> 8 * length [0, 0 :: u8]
    \<and> (\<exists>ro. bitmap_or [0, 0] [0x0F, 0x10] [0x03, 0x20] 12 = Some ro
        \<and> take 12 (bits_of ro) = map2 (\<or>) (take 12 (bits_of [0x0F, 0x10])) (take 12 (bits_of [0x03, 0x20])))"
  using bitmap_operations [of 12 "[0, 0]" "[0x0F, 0x10]" "[0x03, 0x20]"] by auto

end
