(* ===== verification/Ring.thy ===== *)
theory Ring
  imports Prelude
begin

text \<open>
  Ring buffers and the queues made of them: reading and writing a run of cells that wraps at the
  end of a buffer, in one piece (\<open>ring_read\<close>, \<open>ring_write\<close>) and as the two \<open>memcpy\<close> calls of the
  sources, and the contract of a bounded first-in first-out queue as a locale, in which the order
  of a whole sequence of operations is proved once.
\<close>

section \<open>Runs of cells\<close>

definition ring_read :: "'a list \<Rightarrow> nat \<Rightarrow> nat \<Rightarrow> 'a list" where
  "ring_read d p n = map (\<lambda>j. d ! ((p + j) mod length d)) [0..<n]"

definition ring_write :: "'a list \<Rightarrow> nat \<Rightarrow> 'a list \<Rightarrow> 'a list" where
  "ring_write d p xs =
     map (\<lambda>i. let j = (i + length d - p) mod length d in if j < length xs then xs ! j else d ! i)
       [0..<length d]"

lemma length_ring_read [simp]: "length (ring_read d p n) = n"
  by (simp add: ring_read_def)

lemma length_ring_write [simp]: "length (ring_write d p xs) = length d"
  by (simp add: ring_write_def)

lemma nth_ring_read: "j < n \<Longrightarrow> ring_read d p n ! j = d ! ((p + j) mod length d)"
  by (simp add: ring_read_def)

lemma ring_read_mod [simp]: "ring_read d (p mod length d) n = ring_read d p n"
  by (simp add: ring_read_def mod_add_left_eq)

text \<open>A position of the ring, counted from \<open>p\<close>.\<close>

lemma ring_pos:
  fixes p j L :: nat
  assumes "p < L" "j < L"
  shows "((p + j) mod L + L - p) mod L = j"
proof (cases "p + j < L")
  case False
  then have "(p + j) mod L = p + j - L" using assms by (simp add: mod_if)
  then show ?thesis using False assms by simp
qed (use assms in simp)

lemma ring_pos':
  fixes p i L :: nat
  assumes "p < L" "i < L"
  shows "(p + (i + L - p) mod L) mod L = i"
proof (cases "p \<le> i")
  case True
  then have "i + L - p = (i - p) + L" by simp
  then have "(i + L - p) mod L = i - p" using assms by (simp only: mod_add_self2) simp
  then show ?thesis using True assms by simp
next
  case False
  then have "(i + L - p) mod L = i + L - p" using assms by simp
  then show ?thesis using False assms by simp
qed

lemma nth_ring_write:
  assumes "p < length d" "j < length d"
  shows "ring_write d p xs ! ((p + j) mod length d)
       = (if j < length xs then xs ! j else d ! ((p + j) mod length d))"
proof -
  have "(p + j) mod length d < length d" using assms by (intro mod_less_divisor) linarith
  then show ?thesis using ring_pos [OF assms] by (simp add: ring_write_def Let_def)
qed

text \<open>Writing behind the run of cells in use extends it and keeps it.\<close>

lemma ring_read_write:
  assumes "p < length d" "c + length xs \<le> length d"
  shows "ring_read (ring_write d ((p + c) mod length d) xs) p (c + length xs) = ring_read d p c @ xs"
proof (rule nth_equalityI)
  fix j assume "j < length (ring_read (ring_write d ((p + c) mod length d) xs) p (c + length xs))"
  then have j: "j < c + length xs" "j < length d" using assms by simp_all
  let ?q = "(p + c) mod length d"
  define k where "k = (if j < c then length d - c + j else j - c)"
  have k: "k < length d" "k < length xs \<longleftrightarrow> c \<le> j"
    using j assms by (auto simp: k_def)
  have "(?q + k) mod length d = (p + c + k) mod length d" by (simp add: mod_add_left_eq)
  also have "\<dots> = (p + j) mod length d"
  proof (cases "j < c")
    case True
    then have "p + c + k = p + j + length d" using assms(2) by (simp add: k_def)
    then show ?thesis by (simp only: mod_add_self2)
  qed (simp add: k_def)
  finally have pos: "(?q + k) mod length d = (p + j) mod length d" .
  have "?q < length d" using assms(1) by (intro mod_less_divisor) linarith
  from nth_ring_write [OF this k(1), of xs]
  have "ring_write d ?q xs ! ((p + j) mod length d)
      = (if c \<le> j then xs ! k else d ! ((p + j) mod length d))"
    by (simp only: pos k(2))
  then show "ring_read (ring_write d ?q xs) p (c + length xs) ! j = (ring_read d p c @ xs) ! j"
    using j by (simp add: nth_ring_read nth_append k_def)
qed simp

lemma ring_read_drop: "drop k (ring_read d p c) = ring_read d (p + k) (c - k)"
  by (rule nth_equalityI) (simp_all add: nth_ring_read add.assoc)

lemma ring_read_take: "k \<le> c \<Longrightarrow> take k (ring_read d p c) = ring_read d p k"
  by (rule nth_equalityI) (simp_all add: nth_ring_read)

section \<open>Runs of cells as two copies\<close>

text \<open>\<open>memcpy (d + p, s + q, n)\<close>; a range outside either buffer is \<open>None\<close>.\<close>

definition mem_copy :: "'a list \<Rightarrow> nat \<Rightarrow> 'a list \<Rightarrow> nat \<Rightarrow> nat \<Rightarrow> 'a list option" where
  "mem_copy d p s q n =
     (if p + n \<le> length d \<and> q + n \<le> length s then Some (take p d @ take n (drop q s) @ drop (p + n) d)
      else None)"

lemma ring_read_two:
  assumes "p < length d" "n \<le> length d"
  shows "ring_read d p n = take n (drop p d) @ take (n - (length d - p)) d"
proof (rule nth_equalityI)
  fix j assume "j < length (ring_read d p n)"
  then have j: "j < n" by simp
  show "ring_read d p n ! j = (take n (drop p d) @ take (n - (length d - p)) d) ! j"
  proof (cases "p + j < length d")
    case False
    then have "(p + j) mod length d = p + j - length d" using j assms by (simp add: mod_if)
    moreover have "length (take n (drop p d)) = length d - p" "\<not> j < length d - p"
      "p + j - length d = j - (length d - p)"
      using False j assms by auto
    ultimately show ?thesis using j assms by (simp add: nth_ring_read nth_append del: length_take)
  qed (use j assms in \<open>auto simp: nth_ring_read nth_append\<close>)
qed (use assms in auto)

lemma ring_write_two:
  assumes "p < length d" "length xs \<le> length d" and l: "l = min (length xs) (length d - p)"
    and d1: "d1 = take p d @ take l xs @ drop (p + l) d"
  shows "take 0 d1 @ drop l xs @ drop (length xs - l) d1 = ring_write d p xs"
proof (rule nth_equalityI)
  have ll: "l \<le> length xs" "p + l \<le> length d" "length xs - l \<le> p" using assms(1-3) by linarith+
  then have len1: "length d1 = length d" using assms(1) by (simp add: d1)
  then show leq: "length (take 0 d1 @ drop l xs @ drop (length xs - l) d1) = length (ring_write d p xs)"
    using ll assms(1) by simp
  fix i assume "i < length (take 0 d1 @ drop l xs @ drop (length xs - l) d1)"
  then have i: "i < length d" using leq by simp
  define j where "j = (i + length d - p) mod length d"
  have j: "j < length d" using i unfolding j_def by (intro mod_less_divisor) linarith
  have "(p + j) mod length d = i" using ring_pos' [OF assms(1) i] by (simp add: j_def)
  then have w: "ring_write d p xs ! i = (if j < length xs then xs ! j else d ! i)"
    using nth_ring_write [OF assms(1) j, of xs] by simp
  have jv: "j = (if p \<le> i then i - p else i + length d - p)"
  proof (cases "p \<le> i")
    case True
    then have "i + length d - p = (i - p) + length d" by simp
    then show ?thesis using True i unfolding j_def by (simp only: mod_add_self2) simp
  qed (use assms(1) in \<open>simp add: j_def\<close>)
  have d1i: "d1 ! i = (if i < p then d ! i else if i < p + l then xs ! (i - p) else d ! i)"
    using i ll assms(1) by (auto simp: d1 nth_append)
  have "(take 0 d1 @ drop l xs @ drop (length xs - l) d1) ! i
      = (if i < length xs - l then xs ! (l + i) else d1 ! i)"
    using i len1 l by (auto simp: nth_append)
  also have "\<dots> = ring_write d p xs ! i"
    using i assms(1,2) unfolding w d1i jv l by (auto simp: min_def add.commute)
  finally show "(take 0 d1 @ drop l xs @ drop (length xs - l) d1) ! i = ring_write d p xs ! i" .
qed

text \<open>The two copies of a write that wraps, and of a read that wraps.\<close>

lemma mem_copy_ring_write:
  assumes "p < length d" "n \<le> length d" "n \<le> length s" and l: "l = min n (length d - p)"
  shows "do { d' \<leftarrow> mem_copy d p s 0 l; mem_copy d' 0 s l (n - l) } = Some (ring_write d p (take n s))"
proof -
  let ?d1 = "take p d @ take l (take n s) @ drop (p + l) d"
  have ll: "l \<le> n" "p + l \<le> length d" "l \<le> length s" "l + (n - l) \<le> length s" "n - l \<le> length d"
    using assms by linarith+
  have "mem_copy d p s 0 l = Some ?d1"
    using ll by (simp add: mem_copy_def min_absorb1)
  moreover have "mem_copy ?d1 0 s l (n - l) = Some (take 0 ?d1 @ drop l (take n s) @ drop (n - l) ?d1)"
    using ll by (simp add: mem_copy_def drop_take)
  moreover have "take 0 ?d1 @ drop l (take n s) @ drop (n - l) ?d1 = ring_write d p (take n s)"
    using ring_write_two [of p d "take n s" l ?d1] assms by simp
  ultimately show ?thesis by simp
qed

lemma mem_copy_ring_read:
  assumes "p < length d" "n \<le> length d" "n \<le> length b" and l: "l = min n (length d - p)"
  shows "do { b' \<leftarrow> mem_copy b 0 d p l; mem_copy b' l d 0 (n - l) }
       = Some (ring_read d p n @ drop n b)"
proof -
  have "mem_copy b 0 d p l = Some (take l (drop p d) @ drop l b)"
    using assms by (auto simp: mem_copy_def min_def)
  then show ?thesis
    using assms by (auto simp: mem_copy_def ring_read_two min_def)
qed

section \<open>Elements of a fixed size\<close>

text \<open>A byte sequence as elements of \<open>e\<close> bytes.\<close>

definition chunks :: "nat \<Rightarrow> 'a list \<Rightarrow> 'a list list" where
  "chunks e xs = map (\<lambda>i. take e (drop (i * e) xs)) [0..<length xs div e]"

lemma chunks_append:
  assumes "length x = e" "length xs = c * e" "0 < e"
  shows "chunks e (xs @ x) = chunks e xs @ [x]"
proof -
  have "take e (drop (i * e) (xs @ x)) = take e (drop (i * e) xs)" if "i < c" for i
  proof -
    have "Suc i * e \<le> c * e" using that by (intro mult_le_mono1) simp
    then show ?thesis using assms by simp
  qed
  then show ?thesis using assms by (simp add: chunks_def)
qed

lemma chunks_drop:
  assumes "length xs = c * e" "0 < e"
  shows "chunks e (drop e xs) = tl (chunks e xs)"
proof -
  have "(c * e - e) div e = c - 1"
    using assms(2) by (metis diff_mult_distrib mult_1 nonzero_mult_div_cancel_right less_numeral_extra(3))
  then show ?thesis using assms
    by (auto simp: chunks_def map_tl [symmetric] tl_upt map_Suc_upt [symmetric] comp_def algebra_simps
        simp del: map_Suc_upt intro!: nth_equalityI)
qed

section \<open>Bounded queues\<close>

text \<open>The contract of a bounded first-in first-out queue: \<open>contents\<close> is the abstract queue,
  \<open>cap\<close> its capacity, \<open>ok\<close> the elements it can hold.  A full queue refuses an element, an empty
  one has none to give, and neither changes the capacity or what can be held.\<close>

locale bounded_queue =
  fixes inv :: "'s \<Rightarrow> bool" and contents :: "'s \<Rightarrow> 'a list" and cap :: "'s \<Rightarrow> nat"
    and ok :: "'s \<Rightarrow> 'a \<Rightarrow> bool"
    and enq :: "'s \<Rightarrow> 'a \<Rightarrow> 's option" and deq :: "'s \<Rightarrow> ('a \<times> 's) option"
  assumes bounded: "inv s \<Longrightarrow> length (contents s) \<le> cap s"
    and enq_full: "inv s \<Longrightarrow> ok s x \<Longrightarrow> length (contents s) = cap s \<Longrightarrow> enq s x = None"
    and enq_room: "inv s \<Longrightarrow> ok s x \<Longrightarrow> length (contents s) < cap s \<Longrightarrow>
        \<exists>s'. enq s x = Some s' \<and> inv s' \<and> contents s' = contents s @ [x] \<and> cap s' = cap s \<and> ok s' = ok s"
    and deq_empty: "inv s \<Longrightarrow> contents s = [] \<Longrightarrow> deq s = None"
    and deq_some: "inv s \<Longrightarrow> contents s = x # xs \<Longrightarrow>
        \<exists>s'. deq s = Some (x, s') \<and> inv s' \<and> contents s' = xs \<and> cap s' = cap s \<and> ok s' = ok s"
begin

text \<open>One operation: \<open>Some x\<close> offers \<open>x\<close>, \<open>None\<close> takes an element; the result is the new state,
  the element accepted and the element delivered, each as a list of at most one.\<close>

definition step :: "'s \<Rightarrow> 'a option \<Rightarrow> 's \<times> 'a list \<times> 'a list" where
  "step s c = (case c of
      Some x \<Rightarrow> (case enq s x of None \<Rightarrow> (s, [], []) | Some s' \<Rightarrow> (s', [x], []))
    | None \<Rightarrow> (case deq s of None \<Rightarrow> (s, [], []) | Some (y, s') \<Rightarrow> (s', [], [y])))"

fun steps :: "'s \<Rightarrow> 'a option list \<Rightarrow> 's \<times> 'a list \<times> 'a list" where
  "steps s [] = (s, [], [])"
| "steps s (c # cs) = (let (s1, i1, o1) = step s c; (s2, i2, o2) = steps s1 cs in (s2, i1 @ i2, o1 @ o2))"

lemma step_order:
  assumes "inv s" "\<forall>x. c = Some x \<longrightarrow> ok s x" "step s c = (s', i, out)"
  shows "inv s' \<and> out @ contents s' = contents s @ i \<and> cap s' = cap s \<and> ok s' = ok s"
proof (cases c)
  case None
  then show ?thesis
    using assms deq_empty [of s] deq_some [of s "hd (contents s)" "tl (contents s)"]
    by (cases "contents s = []") (auto simp: step_def)
next
  case (Some x)
  then show ?thesis
    using assms enq_full [of s x] enq_room [of s x] bounded [of s]
    by (cases "length (contents s) = cap s") (auto simp: step_def)
qed

text \<open>Every sequence of operations delivers elements in the order in which they were accepted:
  what was in the queue and what was accepted is what was delivered and what is left.\<close>

lemma steps_order:
  "inv s \<Longrightarrow> \<forall>x. Some x \<in> set cs \<longrightarrow> ok s x \<Longrightarrow> steps s cs = (s', i, out) \<Longrightarrow>
     inv s' \<and> out @ contents s' = contents s @ i \<and> length (contents s') \<le> cap s"
proof (induction cs arbitrary: s i out)
  case Nil
  then show ?case using bounded by simp
next
  case (Cons c cs)
  obtain s1 i1 o1 where 1: "step s c = (s1, i1, o1)" by (metis prod_cases3)
  obtain i2 o2 where 2: "steps s1 cs = (s', i2, o2)" "i = i1 @ i2" "out = o1 @ o2"
    using Cons.prems(3) 1 by (auto split: prod.splits)
  from step_order [OF Cons.prems(1) _ 1] Cons.prems(2)
  have s1: "inv s1" "o1 @ contents s1 = contents s @ i1" "cap s1 = cap s" "ok s1 = ok s" by auto
  then have "inv s' \<and> o2 @ contents s' = contents s1 @ i2 \<and> length (contents s') \<le> cap s1"
    using Cons.IH [OF s1(1) _ 2(1)] Cons.prems(2) by simp
  with s1 2 show ?case by (metis append.assoc)
qed

end

end
