(* ===== verification/Fifo.thy ===== *)
theory Fifo
  imports Ring
begin

text \<open>
  The ring-buffer queue of \<open>src/fifo/fifo.c\<close>.  The indices are 32-bit words that wrap; the buffer
  holds a power of two of elements of \<open>esize\<close> bytes, so \<open>in - out\<close> is the number of elements even
  after either index has wrapped.  \<open>malloc\<close> is a parameter of \<open>fifo_alloc\<close>; copies outside a
  buffer, and any copy without one, are \<open>None\<close>.
\<close>

section \<open>The code\<close>

record fifo =
  f_in :: u32
  f_out :: u32
  f_mask :: u32
  f_esize :: u32
  f_data :: "bytes option"

definition EINVAL :: int where "EINVAL = 22"
definition ENOMEM :: int where "ENOMEM = 12"

definition is_power_of_2 :: "u32 \<Rightarrow> bool" where
  "is_power_of_2 x \<longleftrightarrow> x \<noteq> 0 \<and> x AND (x - 1) = 0"

text \<open>The loop of \<open>CLZ_32\<close> ends because each shift moves a zero bit up.\<close>

function CLZ_32_loop :: "u32 \<Rightarrow> nat \<Rightarrow> nat" where
  "CLZ_32_loop tmp ret = (if tmp AND 0x80000000 \<noteq> 0 then CLZ_32_loop (shl tmp 1) (ret + 1) else ret)"
  by auto
termination
proof (relation "measure (\<lambda>(tmp, _). card {n. bit tmp n})")
  fix tmp :: u32 and ret :: nat
  assume "tmp AND 0x80000000 \<noteq> 0"
  moreover have "(0x80000000 :: u32) = push_bit 31 1" by (simp add: push_bit_eq_mult)
  ultimately have 31: "bit tmp 31"
    by (metis bit_iff_and_push_bit_not_eq_0)
  have fin: "finite {n. bit tmp n}"
    by (rule finite_subset [of _ "{..<32}"]) (auto dest: bit_imp_le_length)
  have "{n. bit (shl tmp 1) n} \<subseteq> Suc ` ({n. bit tmp n} - {31})"
  proof
    fix x assume "x \<in> {n. bit (shl tmp 1) n}"
    then have "0 < x" "x < 32" "bit tmp (x - 1)" by (simp_all add: nat_bits)
    then show "x \<in> Suc ` ({n. bit tmp n} - {31})" by (intro image_eqI [of _ _ "x - 1"]) simp_all
  qed
  then have "card {n. bit (shl tmp 1) n} \<le> card ({n. bit tmp n} - {31})"
    using fin by (meson card_image_le card_mono finite_Diff finite_imageI le_trans)
  also have "\<dots> < card {n. bit tmp n}" using 31 fin by (intro psubset_card_mono) auto
  finally show "((shl tmp 1, ret + 1), (tmp, ret)) \<in> measure (\<lambda>(tmp, _). card {n. bit tmp n})" by simp
qed simp

definition CLZ_32 :: "u32 \<Rightarrow> nat" where
  "CLZ_32 n = CLZ_32_loop (NOT n) 0"

text \<open>\<open>1 << (32 - ret)\<close> is a shift of the \<open>int\<close> 1: undefined (\<open>None\<close>) for a distance of 31 and more.\<close>

definition rounddown_pow_of_two :: "u32 \<Rightarrow> u32 option" where
  "rounddown_pow_of_two n =
     (if n = 0 then Some 0
      else if n AND (n - 1) = 0 then Some n
      else let ret = CLZ_32 n in if 32 - ret < 31 then Some (shl 1 (32 - ret)) else None)"

definition fifo_unused :: "fifo \<Rightarrow> u32" where
  "fifo_unused fifo = (f_mask fifo + 1) - (f_in fifo - f_out fifo)"

definition fifo_alloc :: "(u32 \<Rightarrow> bytes option) \<Rightarrow> fifo \<Rightarrow> u32 \<Rightarrow> u32 \<Rightarrow> int \<times> fifo" where
  "fifo_alloc malloc fifo nelem esize =
     (if \<not> is_power_of_2 nelem then (- EINVAL, fifo\<lparr>f_data := None, f_mask := 0\<rparr>)
      else let fifo = fifo\<lparr>f_in := 0, f_out := 0, f_esize := esize\<rparr> in
        if nelem < 2 then (- EINVAL, fifo\<lparr>f_data := None, f_mask := 0\<rparr>)
        else case malloc (nelem * esize) of
            None \<Rightarrow> (- ENOMEM, fifo\<lparr>f_data := None, f_mask := 0\<rparr>)
          | Some d \<Rightarrow> (0, fifo\<lparr>f_data := Some d, f_mask := nelem - 1\<rparr>))"

definition fifo_free :: "fifo \<Rightarrow> fifo" where
  "fifo_free fifo = fifo\<lparr>f_in := 0, f_out := 0, f_esize := 0, f_data := None, f_mask := 0\<rparr>"

definition fifo_init :: "fifo \<Rightarrow> bytes option \<Rightarrow> u32 \<Rightarrow> u32 \<Rightarrow> int \<times> fifo" where
  "fifo_init fifo buf nelem esize =
     (if \<not> is_power_of_2 nelem then (- EINVAL, fifo\<lparr>f_mask := 0\<rparr>)
      else let fifo = fifo\<lparr>f_in := 0, f_out := 0, f_esize := esize, f_data := buf\<rparr> in
        if nelem < 2 then (- EINVAL, fifo\<lparr>f_mask := 0\<rparr>)
        else (0, fifo\<lparr>f_mask := nelem - 1\<rparr>))"

definition fifo_copy_in :: "fifo \<Rightarrow> bytes \<Rightarrow> u32 \<Rightarrow> u32 \<Rightarrow> fifo option" where
  "fifo_copy_in fifo src nelem off =
     (let size = f_mask fifo + 1; esize = f_esize fifo;
          off = off AND f_mask fifo;
          (off, size, nelem) = (if esize \<noteq> 1 then (off * esize, size * esize, nelem * esize)
                                else (off, size, nelem));
          l = min nelem (size - off)
      in do { d \<leftarrow> f_data fifo;
              d' \<leftarrow> do { d' \<leftarrow> mem_copy d (unat off) src 0 (unat l);
                         mem_copy d' 0 src (unat l) (unat (nelem - l)) };
              Some (fifo\<lparr>f_data := Some d'\<rparr>) })"

definition fifo_in :: "fifo \<Rightarrow> bytes \<Rightarrow> u32 \<Rightarrow> (u32 \<times> fifo) option" where
  "fifo_in fifo buf nelem =
     (let l = fifo_unused fifo;
          nelem = (if nelem > l then l else nelem)
      in do { fifo' \<leftarrow> fifo_copy_in fifo buf nelem (f_in fifo);
              Some (nelem, fifo'\<lparr>f_in := f_in fifo' + nelem\<rparr>) })"

definition fifo_copy_out :: "fifo \<Rightarrow> bytes \<Rightarrow> u32 \<Rightarrow> u32 \<Rightarrow> bytes option" where
  "fifo_copy_out fifo dst nelem off =
     (let size = f_mask fifo + 1; esize = f_esize fifo;
          off = off AND f_mask fifo;
          (off, size, nelem) = (if esize \<noteq> 1 then (off * esize, size * esize, nelem * esize)
                                else (off, size, nelem));
          l = min nelem (size - off)
      in do { d \<leftarrow> f_data fifo;
              do { dst' \<leftarrow> mem_copy dst 0 d (unat off) (unat l);
                   mem_copy dst' (unat l) d 0 (unat (nelem - l)) } })"

definition fifo_peek :: "fifo \<Rightarrow> bytes \<Rightarrow> u32 \<Rightarrow> (u32 \<times> bytes) option" where
  "fifo_peek fifo buf nelem =
     (let l = f_in fifo - f_out fifo;
          nelem = (if nelem > l then l else nelem)
      in do { buf' \<leftarrow> fifo_copy_out fifo buf nelem (f_out fifo); Some (nelem, buf') })"

definition fifo_out :: "fifo \<Rightarrow> bytes \<Rightarrow> u32 \<Rightarrow> (u32 \<times> bytes \<times> fifo) option" where
  "fifo_out fifo buf nelem =
     do { (nelem, buf') \<leftarrow> fifo_peek fifo buf nelem;
          Some (nelem, buf', fifo\<lparr>f_out := f_out fifo + nelem\<rparr>) }"

section \<open>Powers of two\<close>

lemma nat_and_pred_power:
  "0 < n \<Longrightarrow> n AND (n - 1) = 0 \<Longrightarrow> \<exists>k. (n::nat) = 2 ^ k"
proof (induction n rule: less_induct)
  case (less n)
  show ?case
  proof (cases "even n")
    case True
    then obtain m where m: "n = 2 * m" by blast
    with less.prems have "0 < m" by simp
    moreover have "(2 * m) AND (2 * m - 1) = 2 * (m AND (m - 1))"
    proof -
      have "(2 * m - 1) div 2 = m - 1" "odd (2 * m - 1)" using \<open>0 < m\<close> by simp_all
      then show ?thesis by (subst and_rec) simp
    qed
    ultimately obtain k where "m = 2 ^ k" using less m by (metis less_add_same_cancel1 mult_2 mult_eq_0_iff zero_neq_numeral)
    then show ?thesis using m by (metis power_Suc)
  next
    case False
    then obtain m where m: "n = 2 * m + 1" by (metis oddE)
    have "n AND (n - 1) = 2 * m" unfolding m by (subst and_rec) simp
    then show ?thesis using less.prems m by (metis add_0 mult_eq_0_iff power_0)
  qed
qed

lemma is_power_of_2_unat:
  assumes "is_power_of_2 x"
  obtains k where "k < 32" "unat x = 2 ^ k"
proof -
  have x: "x \<noteq> 0" "x AND (x - 1) = 0" using assms by (simp_all add: is_power_of_2_def)
  have "unat x AND (unat x - 1) = unat (x AND (x - 1))"
    by (simp add: unsigned_and_eq unat_minus_one [OF x(1)] del: unat_eq_0)
  then have "unat x AND (unat x - 1) = 0" "0 < unat x" using x by (simp_all add: unat_gt_0)
  then obtain k where k: "unat x = 2 ^ k" using nat_and_pred_power by blast
  moreover have "k < 32"
    using unsigned_less [of x, where 'a = nat] k by (simp add: power_strict_increasing_iff [of 2 k 32, simplified])
  ultimately show ?thesis using that by blast
qed

text \<open>What \<open>rounddown_pow_of_two\<close> computes: the least power of two that is not below \<open>n\<close>.\<close>

section \<open>Invariant and abstraction\<close>

definition fifo_size :: "fifo \<Rightarrow> nat" where
  "fifo_size f = unat (f_mask f + 1)"

definition fifo_count :: "fifo \<Rightarrow> nat" where
  "fifo_count f = unat (f_in f - f_out f)"

text \<open>A usable queue: a power of two of at least two elements, a buffer of that many elements,
  whose size in bytes is a 32-bit value, and no more elements than it holds.\<close>

definition fifo_inv :: "fifo \<Rightarrow> bool" where
  "fifo_inv f \<longleftrightarrow> is_power_of_2 (f_mask f + 1) \<and> 2 \<le> fifo_size f \<and> 0 < f_esize f
     \<and> (case f_data f of None \<Rightarrow> False | Some d \<Rightarrow> length d = fifo_size f * unat (f_esize f))
     \<and> fifo_size f * unat (f_esize f) < 2 ^ 32 \<and> fifo_count f \<le> fifo_size f"

definition fifo_pos :: "fifo \<Rightarrow> nat" where
  "fifo_pos f = unat (f_out f) mod fifo_size f * unat (f_esize f)"

text \<open>The bytes in the queue, oldest first.\<close>

definition fifo_bytes :: "fifo \<Rightarrow> bytes" where
  "fifo_bytes f = (case f_data f of None \<Rightarrow> []
     | Some d \<Rightarrow> ring_read d (fifo_pos f) (fifo_count f * unat (f_esize f)))"

lemma fifo_invE:
  assumes "fifo_inv f"
  obtains d k where "f_data f = Some d" "fifo_size f = 2 ^ k" "k < 32" "2 \<le> fifo_size f"
    "length d = fifo_size f * unat (f_esize f)" "fifo_size f * unat (f_esize f) < 2 ^ 32"
    "0 < unat (f_esize f)" "fifo_count f \<le> fifo_size f" "f_mask f = mask k"
proof -
  obtain k where k: "k < 32" "unat (f_mask f + 1) = 2 ^ k"
    using assms by (auto simp: fifo_inv_def elim: is_power_of_2_unat)
  have "f_mask f + 1 = of_nat (unat (f_mask f + 1))" by simp
  also have "\<dots> = 2 ^ k" by (simp only: k) simp
  finally have "f_mask f + 1 = 2 ^ k" .
  then have "f_mask f = mask k" by (simp add: mask_eq_exp_minus_1 eq_diff_eq)
  with k assms that show ?thesis
    by (auto simp: fifo_inv_def fifo_size_def unat_gt_0 split: option.splits)
qed

lemma unat_and_fifo_mask: "f_mask f = mask k \<Longrightarrow> unat (w AND f_mask f) = unat w mod 2 ^ k"
proof -
  assume "f_mask f = mask k"
  then have "unat (w AND f_mask f) = take_bit k (unat w)"
    by (simp flip: take_bit_eq_mask add: unsigned_take_bit_eq)
  then show ?thesis by (simp add: take_bit_eq_mod)
qed

text \<open>The write position is the read position plus the number of elements, also after an index
  has wrapped at \<open>2 ^ 32\<close>.\<close>

lemma fifo_in_pos:
  assumes "fifo_size f = 2 ^ k" "k < 32"
  shows "unat (f_in f) mod fifo_size f = (unat (f_out f) + fifo_count f) mod fifo_size f"
proof -
  have "unat (f_out f + (f_in f - f_out f)) = (unat (f_out f) + fifo_count f) mod 2 ^ LENGTH(32)"
    unfolding fifo_count_def by (rule unat_word_ariths(1))
  then have "unat (f_in f) = (unat (f_out f) + fifo_count f) mod 2 ^ 32" by simp
  moreover have "(2::nat) ^ k dvd 2 ^ 32" using assms(2) by (intro le_imp_power_dvd) simp
  ultimately show ?thesis by (simp add: assms(1) mod_mod_cancel)
qed

text \<open>The scaled arguments of the two copies.\<close>

lemma unat_mult_no_wrap: "unat (a::u32) * unat b < 2 ^ 32 \<Longrightarrow> unat (a * b) = unat a * unat b"
  by (simp add: unat_word_ariths)

lemma fifo_scaled:
  assumes "fifo_inv f" "unat n \<le> fifo_size f"
    and "(off, sz, m) = (if f_esize f \<noteq> 1 then ((w AND f_mask f) * f_esize f, (f_mask f + 1) * f_esize f, n * f_esize f)
                            else (w AND f_mask f, f_mask f + 1, n))"
  shows "unat off = unat w mod fifo_size f * unat (f_esize f)"
    and "unat sz = fifo_size f * unat (f_esize f)"
    and "unat m = unat n * unat (f_esize f)"
    and "unat off < unat sz" "unat m \<le> unat sz"
    and "unat (min m (sz - off)) = min (unat m) (unat sz - unat off)"
    and "unat (m - min m (sz - off)) = unat m - min (unat m) (unat sz - unat off)"
proof -
  from assms(1) obtain d k where k: "fifo_size f = 2 ^ k" "f_mask f = mask k" "2 \<le> fifo_size f"
    and fit: "fifo_size f * unat (f_esize f) < 2 ^ 32" and e: "0 < unat (f_esize f)"
    by (rule fifo_invE) blast
  have w: "unat (w AND f_mask f) = unat w mod fifo_size f"
    using unat_and_fifo_mask [OF k(2)] k(1) by simp
  have lt: "unat w mod fifo_size f < fifo_size f" using k(3) by (intro mod_less_divisor) simp
  have p: "unat w mod fifo_size f * unat (f_esize f) < fifo_size f * unat (f_esize f)"
    using lt e by simp
  have n: "unat n * unat (f_esize f) \<le> fifo_size f * unat (f_esize f)"
    using assms(2) by (rule mult_le_mono1)
  have szm: "unat (f_mask f + 1) = fifo_size f" by (simp add: fifo_size_def)
  have prods: "unat ((w AND f_mask f) * f_esize f) = unat w mod fifo_size f * unat (f_esize f)"
    "unat ((f_mask f + 1) * f_esize f) = fifo_size f * unat (f_esize f)"
    "unat (n * f_esize f) = unat n * unat (f_esize f)"
    using unat_mult_no_wrap [of "w AND f_mask f" "f_esize f"] unat_mult_no_wrap [of "f_mask f + 1" "f_esize f"]
      unat_mult_no_wrap [of n "f_esize f"] less_trans [OF p fit] fit order_le_less_trans [OF n fit]
    by (simp_all only: w szm)
  show 1: "unat off = unat w mod fifo_size f * unat (f_esize f)"
    and 2: "unat sz = fifo_size f * unat (f_esize f)"
    and 3: "unat m = unat n * unat (f_esize f)"
    using assms(3) prods w szm by (auto split: if_splits)
  show 4: "unat off < unat sz" and "unat m \<le> unat sz" using 1 2 3 p n by simp_all
  have "unat (sz - off) = unat sz - unat off" using 4 by (intro unat_sub) (simp add: word_le_nat_alt)
  then show 5: "unat (min m (sz - off)) = min (unat m) (unat sz - unat off)"
    by (simp add: min_def word_le_nat_alt)
  have "min m (sz - off) \<le> m" by simp
  then show "unat (m - min m (sz - off)) = unat m - min (unat m) (unat sz - unat off)"
    by (simp only: unat_sub 5)
qed

lemma fifo_copy_in_spec:
  assumes inv: "fifo_inv f" and d: "f_data f = Some d"
    and n: "unat n \<le> fifo_size f" "unat n * unat (f_esize f) \<le> length src"
  shows "fifo_copy_in f src n w = Some (f\<lparr>f_data := Some (ring_write d
           (unat w mod fifo_size f * unat (f_esize f)) (take (unat n * unat (f_esize f)) src))\<rparr>)"
proof -
  obtain off sz m where osm: "(off, sz, m) = (if f_esize f \<noteq> 1
      then ((w AND f_mask f) * f_esize f, (f_mask f + 1) * f_esize f, n * f_esize f)
      else (w AND f_mask f, f_mask f + 1, n))"
    by (metis prod_cases3)
  note sc = fifo_scaled [OF inv n(1) osm]
  have len: "length d = unat sz" using inv d sc(2) by (auto elim: fifo_invE)
  have "do { d' \<leftarrow> mem_copy d (unat off) src 0 (unat (min m (sz - off)));
             mem_copy d' 0 src (unat (min m (sz - off))) (unat (m - min m (sz - off))) }
      = Some (ring_write d (unat off) (take (unat m) src))"
    unfolding sc(6,7) by (rule mem_copy_ring_write) (use sc(3-5) len n(2) in simp_all)
  then show ?thesis
    unfolding fifo_copy_in_def Let_def osm [symmetric] prod.case
    by (simp only: d bind.bind_lunit sc(1,3))
qed

lemma fifo_copy_out_spec:
  assumes inv: "fifo_inv f" and d: "f_data f = Some d"
    and n: "unat n \<le> fifo_size f" "unat n * unat (f_esize f) \<le> length dst"
  shows "fifo_copy_out f dst n w = Some (ring_read d (unat w mod fifo_size f * unat (f_esize f))
           (unat n * unat (f_esize f)) @ drop (unat n * unat (f_esize f)) dst)"
proof -
  obtain off sz m where osm: "(off, sz, m) = (if f_esize f \<noteq> 1
      then ((w AND f_mask f) * f_esize f, (f_mask f + 1) * f_esize f, n * f_esize f)
      else (w AND f_mask f, f_mask f + 1, n))"
    by (metis prod_cases3)
  note sc = fifo_scaled [OF inv n(1) osm]
  have len: "length d = unat sz" using inv d sc(2) by (auto elim: fifo_invE)
  have "do { b' \<leftarrow> mem_copy dst 0 d (unat off) (unat (min m (sz - off)));
             mem_copy b' (unat (min m (sz - off))) d 0 (unat (m - min m (sz - off))) }
      = Some (ring_read d (unat off) (unat m) @ drop (unat m) dst)"
    unfolding sc(6,7) by (rule mem_copy_ring_read) (use sc(3-5) len n(2) in simp_all)
  then show ?thesis
    unfolding fifo_copy_out_def Let_def osm [symmetric] prod.case by (simp add: d sc(1,3))
qed

section \<open>Refinement to a byte queue\<close>

lemma fifo_unused_unat:
  assumes "fifo_inv f"
  shows "unat (fifo_unused f) = fifo_size f - fifo_count f"
proof -
  have "f_in f - f_out f \<le> f_mask f + 1"
    using assms by (simp add: fifo_inv_def fifo_count_def fifo_size_def word_le_nat_alt)
  then show ?thesis by (simp add: fifo_unused_def fifo_size_def fifo_count_def unat_sub)
qed

text \<open>Adding to an index, and the position it denotes.\<close>

lemma fifo_count_add:
  assumes "fifo_count f + unat n < 2 ^ 32"
  shows "unat (f_in f + n - f_out f) = fifo_count f + unat n"
proof -
  have "f_in f + n - f_out f = (f_in f - f_out f) + n" by simp
  then show ?thesis using assms by (simp only: fifo_count_def) (simp add: unat_word_ariths)
qed

lemma fifo_count_sub:
  assumes "unat n \<le> fifo_count f"
  shows "unat (f_in f - (f_out f + n)) = fifo_count f - unat n"
proof -
  have "f_in f - (f_out f + n) = (f_in f - f_out f) - n" by simp
  moreover have "n \<le> f_in f - f_out f" using assms by (simp add: fifo_count_def word_le_nat_alt)
  ultimately show ?thesis by (simp only: unat_sub fifo_count_def)
qed

lemma fifo_size_lt: "fifo_size f < 2 ^ 32"
  using unsigned_less [of "f_mask f + 1", where 'a = nat] by (simp add: fifo_size_def)

lemma fifo_in_spec:
  assumes inv: "fifo_inv f" and src: "unat n * unat (f_esize f) \<le> length src"
  shows "\<exists>m f'. fifo_in f src n = Some (m, f') \<and> unat m = min (unat n) (fifo_size f - fifo_count f)
    \<and> fifo_inv f' \<and> fifo_size f' = fifo_size f \<and> f_esize f' = f_esize f
    \<and> fifo_count f' = fifo_count f + unat m
    \<and> fifo_bytes f' = fifo_bytes f @ take (unat m * unat (f_esize f)) src"
proof -
  obtain d k where d: "f_data f = Some d" and sz: "fifo_size f = 2 ^ k" "k < 32" "2 \<le> fifo_size f"
    and len: "length d = fifo_size f * unat (f_esize f)" and cnt: "fifo_count f \<le> fifo_size f"
    and e: "0 < unat (f_esize f)"
    using inv by (rule fifo_invE) blast
  let ?e = "unat (f_esize f)" and ?s = "fifo_size f"
  define m where "m = (if n > fifo_unused f then fifo_unused f else n)"
  have m: "unat m = min (unat n) (?s - fifo_count f)"
    using fifo_unused_unat [OF inv] by (auto simp: m_def word_less_nat_alt min_def)
  then have ms: "unat m \<le> ?s" "fifo_count f + unat m \<le> ?s" "unat m \<le> unat n" using cnt by auto
  have msrc: "unat m * ?e \<le> length src"
    using mult_le_mono1 [OF ms(3), of ?e] src by linarith
  let ?p = "unat (f_in f) mod ?s * ?e" and ?xs = "take (unat m * ?e) src"
  define f' where "f' = f\<lparr>f_data := Some (ring_write d ?p ?xs), f_in := f_in f + m\<rparr>"
  have run: "fifo_in f src n = Some (m, f')"
    unfolding fifo_in_def Let_def m_def [symmetric] f'_def
    by (simp add: fifo_copy_in_spec [OF inv d ms(1) msrc])
  have c': "fifo_count f' = fifo_count f + unat m"
    using fifo_count_add [of f m] ms(2) fifo_size_lt [of f] by (simp add: f'_def fifo_count_def)
  have s': "fifo_size f' = ?s" "f_esize f' = f_esize f" "fifo_pos f' = fifo_pos f"
    "f_data f' = Some (ring_write d ?p ?xs)"
    by (simp_all add: f'_def fifo_size_def fifo_pos_def)
  have inv': "fifo_inv f'" using inv c' s' ms(2) len by (simp add: fifo_inv_def d) (simp add: f'_def)
  have "?p = (fifo_pos f + fifo_count f * ?e) mod length d"
    using fifo_in_pos [OF sz(1,2)] by (simp add: fifo_pos_def len mod_add_left_eq
        flip: mult_mod_left add_mult_distrib)
  moreover have "fifo_pos f < length d"
    using e sz(3) by (simp add: fifo_pos_def len)
  moreover have "fifo_count f * ?e + length ?xs \<le> length d"
    using msrc mult_le_mono1 [OF ms(2), of ?e] by (simp add: len algebra_simps)
  ultimately have "ring_read (ring_write d ?p ?xs) (fifo_pos f) (fifo_count f * ?e + length ?xs)
      = ring_read d (fifo_pos f) (fifo_count f * ?e) @ ?xs"
    using ring_read_write by (simp only:)
  moreover have "fifo_bytes f' = ring_read (ring_write d ?p ?xs) (fifo_pos f) (fifo_count f * ?e + length ?xs)"
    using msrc by (simp add: fifo_bytes_def c' s' add_mult_distrib)
  ultimately have "fifo_bytes f' = fifo_bytes f @ ?xs" by (simp add: fifo_bytes_def d)
  with run m inv' s' c' show ?thesis by blast
qed

lemma fifo_out_spec:
  assumes inv: "fifo_inv f" and buf: "unat n * unat (f_esize f) \<le> length buf"
  shows "\<exists>m f'. fifo_out f buf n = Some (m, take (unat m * unat (f_esize f)) (fifo_bytes f)
                                           @ drop (unat m * unat (f_esize f)) buf, f')
    \<and> fifo_peek f buf n = Some (m, take (unat m * unat (f_esize f)) (fifo_bytes f)
                                     @ drop (unat m * unat (f_esize f)) buf)
    \<and> unat m = min (unat n) (fifo_count f)
    \<and> fifo_inv f' \<and> fifo_size f' = fifo_size f \<and> f_esize f' = f_esize f
    \<and> fifo_count f' = fifo_count f - unat m
    \<and> fifo_bytes f' = drop (unat m * unat (f_esize f)) (fifo_bytes f)"
proof -
  obtain d k where d: "f_data f = Some d" and sz: "fifo_size f = 2 ^ k" "k < 32" "2 \<le> fifo_size f"
    and len: "length d = fifo_size f * unat (f_esize f)" and cnt: "fifo_count f \<le> fifo_size f"
    using inv by (rule fifo_invE) blast
  let ?e = "unat (f_esize f)" and ?s = "fifo_size f"
  define m where "m = (if n > f_in f - f_out f then f_in f - f_out f else n)"
  have m: "unat m = min (unat n) (fifo_count f)"
    by (auto simp: m_def word_less_nat_alt min_def fifo_count_def)
  then have ms: "unat m \<le> ?s" "unat m \<le> fifo_count f" "unat m \<le> unat n" using cnt by auto
  have mbuf: "unat m * ?e \<le> length buf"
    using mult_le_mono1 [OF ms(3), of ?e] buf by linarith
  define f' where "f' = f\<lparr>f_out := f_out f + m\<rparr>"
  have tk: "take (unat m * ?e) (fifo_bytes f) = ring_read d (fifo_pos f) (unat m * ?e)"
    using ms(2) by (simp add: fifo_bytes_def d ring_read_take)
  have pk: "fifo_peek f buf n = Some (m, take (unat m * ?e) (fifo_bytes f) @ drop (unat m * ?e) buf)"
    unfolding fifo_peek_def Let_def m_def [symmetric] tk
    by (simp add: fifo_copy_out_spec [OF inv d ms(1) mbuf] fifo_pos_def)
  have c': "fifo_count f' = fifo_count f - unat m"
    using fifo_count_sub [OF ms(2)] by (simp add: f'_def fifo_count_def)
  have s': "fifo_size f' = ?s" "f_esize f' = f_esize f" "f_data f' = Some d"
    by (simp_all add: f'_def fifo_size_def d)
  have inv': "fifo_inv f'" using inv c' s' ms(2) by (auto simp: fifo_inv_def d f'_def fifo_size_def)
  have "unat (f_out f') mod ?s = (unat (f_out f) + unat m) mod ?s"
  proof -
    have "unat (f_out f + m) = (unat (f_out f) + unat m) mod 2 ^ LENGTH(32)" by (rule unat_word_ariths(1))
    moreover have "(2::nat) ^ k dvd 2 ^ 32" using sz(2) by (intro le_imp_power_dvd) simp
    ultimately show ?thesis by (simp add: f'_def sz(1) mod_mod_cancel)
  qed
  then have "fifo_pos f' = (fifo_pos f + unat m * ?e) mod length d"
    by (simp add: fifo_pos_def s' len mod_add_left_eq flip: mult_mod_left add_mult_distrib)
  then have "fifo_bytes f' = drop (unat m * ?e) (fifo_bytes f)"
    by (simp add: fifo_bytes_def s' d c' ring_read_drop diff_mult_distrib)
  with pk m inv' s' c' show ?thesis
    unfolding fifo_out_def by (auto simp: f'_def)
qed

section \<open>The queue of elements\<close>

definition fifo_elems :: "fifo \<Rightarrow> bytes list" where
  "fifo_elems f = chunks (unat (f_esize f)) (fifo_bytes f)"

text \<open>The client's view: one element in, one element out.\<close>

definition fifo_enq :: "fifo \<Rightarrow> bytes \<Rightarrow> fifo option" where
  "fifo_enq f x = (case fifo_in f x 1 of Some (m, f') \<Rightarrow> if m = 1 then Some f' else None | None \<Rightarrow> None)"

definition fifo_deq :: "fifo \<Rightarrow> (bytes \<times> fifo) option" where
  "fifo_deq f = (case fifo_out f (replicate (unat (f_esize f)) 0) 1 of
      Some (m, x, f') \<Rightarrow> if m = 1 then Some (x, f') else None | None \<Rightarrow> None)"

lemma length_fifo_bytes: "fifo_inv f \<Longrightarrow> length (fifo_bytes f) = fifo_count f * unat (f_esize f)"
  by (auto simp: fifo_bytes_def fifo_inv_def split: option.splits)

lemma fifo_elems_simps:
  assumes "fifo_inv f"
  shows "length (fifo_elems f) = fifo_count f" "0 < unat (f_esize f)"
proof -
  show e: "0 < unat (f_esize f)" using assms by (auto elim: fifo_invE)
  show "length (fifo_elems f) = fifo_count f"
    using length_fifo_bytes [OF assms] e by (simp add: fifo_elems_def chunks_def)
qed

lemma unat_eq_1: "unat (m::u32) = Suc 0 \<longleftrightarrow> m = 1"
  by (metis One_nat_def unat_1 word_unat_eq_iff)

interpretation elems: bounded_queue fifo_inv fifo_elems fifo_size
  "\<lambda>f x. length x = unat (f_esize f)" fifo_enq fifo_deq
proof
  fix f :: fifo assume inv: "fifo_inv f"
  show "length (fifo_elems f) \<le> fifo_size f"
    using inv fifo_elems_simps(1) [OF inv] by (auto elim: fifo_invE)
next
  fix f :: fifo and x :: bytes
  assume inv: "fifo_inv f" and x: "length x = unat (f_esize f)"
    and full: "length (fifo_elems f) = fifo_size f"
  then show "fifo_enq f x = None"
    using fifo_in_spec [OF inv, of 1 x] fifo_elems_simps(1) [OF inv]
    by (auto simp: fifo_enq_def)
next
  fix f :: fifo and x :: bytes
  assume inv: "fifo_inv f" and x: "length x = unat (f_esize f)"
    and room: "length (fifo_elems f) < fifo_size f"
  note el = fifo_elems_simps [OF inv]
  obtain m f' where run: "fifo_in f x 1 = Some (m, f')" "unat m = 1" "fifo_inv f'"
    "fifo_size f' = fifo_size f" "f_esize f' = f_esize f" "fifo_bytes f' = fifo_bytes f @ x"
    using fifo_in_spec [OF inv, of 1 x] x room el(1) by auto
  have "fifo_elems f' = fifo_elems f @ [x]"
    using chunks_append [OF x length_fifo_bytes [OF inv] el(2)] run(5,6) by (simp add: fifo_elems_def)
  with run show "\<exists>s'. fifo_enq f x = Some s' \<and> fifo_inv s' \<and> fifo_elems s' = fifo_elems f @ [x]
      \<and> fifo_size s' = fifo_size f
      \<and> (\<lambda>x. length x = unat (f_esize s')) = (\<lambda>x. length x = unat (f_esize f))"
    by (auto simp: fifo_enq_def unat_eq_1)
next
  fix f :: fifo assume inv: "fifo_inv f" and "fifo_elems f = []"
  then show "fifo_deq f = None"
    using fifo_out_spec [OF inv, of 1 "replicate (unat (f_esize f)) 0"] fifo_elems_simps(1) [OF inv]
    by (auto simp: fifo_deq_def)
next
  fix f :: fifo and x :: bytes and xs
  assume inv: "fifo_inv f" and ne: "fifo_elems f = x # xs"
  note el = fifo_elems_simps [OF inv]
  have cnt: "fifo_count f \<noteq> 0" using el(1) ne by auto
  let ?e = "unat (f_esize f)"
  obtain m f' where run: "fifo_out f (replicate ?e 0) 1 = Some (m, take ?e (fifo_bytes f), f')"
    "unat m = 1" "fifo_inv f'" "fifo_size f' = fifo_size f" "f_esize f' = f_esize f"
    "fifo_bytes f' = drop ?e (fifo_bytes f)"
    using fifo_out_spec [OF inv, of 1 "replicate ?e 0"] cnt by (auto simp: min_def)
  have "take ?e (fifo_bytes f) = x"
    using ne el cnt length_fifo_bytes [OF inv] by (auto simp: fifo_elems_def chunks_def upt_conv_Cons)
  moreover have "fifo_elems f' = xs"
    using chunks_drop [OF length_fifo_bytes [OF inv] el(2)] ne run(5,6) by (simp add: fifo_elems_def)
  ultimately show "\<exists>s'. fifo_deq f = Some (x, s') \<and> fifo_inv s' \<and> fifo_elems s' = xs
      \<and> fifo_size s' = fifo_size f
      \<and> (\<lambda>x. length x = unat (f_esize s')) = (\<lambda>x. length x = unat (f_esize f))"
    using run by (auto simp: fifo_deq_def unat_eq_1)
qed

section \<open>Set-up\<close>

lemma fifo_init_spec:
  assumes "is_power_of_2 nelem" "nelem \<noteq> 1" "0 < esize" "length buf = unat nelem * unat esize"
    "unat nelem * unat esize < 2 ^ 32"
  shows "\<exists>f'. fifo_init f (Some buf) nelem esize = (0, f') \<and> fifo_inv f' \<and> fifo_elems f' = []
    \<and> fifo_size f' = unat nelem \<and> f_esize f' = esize"
proof -
  have nz: "nelem \<noteq> 0" using assms(1) by (simp add: is_power_of_2_def)
  then have "2 \<le> unat nelem" using assms(2) unat_eq_1 [of nelem] unat_gt_0 [of nelem] by linarith
  then have "\<not> nelem < 2" by (simp add: word_less_nat_alt)
  then show ?thesis
    using assms \<open>2 \<le> unat nelem\<close>
    by (simp add: fifo_init_def fifo_inv_def fifo_elems_def fifo_bytes_def fifo_size_def fifo_count_def
        chunks_def)
qed

text \<open>A \<open>malloc\<close> that returns a block of the requested size makes \<open>fifo_alloc\<close> agree with
  \<open>fifo_init\<close> on that block.\<close>

lemma fifo_alloc_init:
  "malloc (nelem * esize) = Some buf \<Longrightarrow> fst (fifo_init f (Some buf) nelem esize) = 0 \<Longrightarrow>
     fifo_alloc malloc f nelem esize = fifo_init f (Some buf) nelem esize"
  by (simp add: fifo_alloc_def fifo_init_def EINVAL_def Let_def split: if_splits)

section \<open>Rounding\<close>

lemma and_top_bit: "tmp AND 0x80000000 \<noteq> 0 \<longleftrightarrow> bit (tmp::u32) 31"
proof -
  have "(0x80000000 :: u32) = push_bit 31 1" by (simp add: push_bit_eq_mult)
  then show ?thesis by (metis bit_iff_and_push_bit_not_eq_0)
qed

lemma CLZ_32_loop_spec:
  assumes "bit n k" "k < 32" "\<forall>j. k < j \<longrightarrow> j < 32 \<longrightarrow> \<not> bit n j" "r + k \<le> 31"
  shows "CLZ_32_loop (shl (NOT n) r) r = 31 - k"
  using assms(4)
proof (induction "31 - k - r" arbitrary: r)
  case 0
  then have "r = 31 - k" by simp
  moreover have "\<not> bit (shl (NOT n) r) 31"
    using assms(1,2) \<open>r = 31 - k\<close> by (auto simp: bit_push_bit_iff bit_not_iff)
  ultimately show ?case by (subst CLZ_32_loop.simps) (simp add: and_top_bit del: CLZ_32_loop.simps)
next
  case (Suc j)
  then have r: "r + k < 31" by simp
  then have "k < 31 - r" "31 - r < 32" by simp_all
  then have "bit (shl (NOT n) r) 31"
    using assms(3) r by (simp add: bit_push_bit_iff bit_not_iff)
  moreover have "shl (shl (NOT n) r) 1 = shl (NOT n) (r + 1)" by (simp add: push_bit_push_bit)
  moreover have "CLZ_32_loop (shl (NOT n) (r + 1)) (r + 1) = 31 - k"
    using Suc.hyps r by (intro Suc.hyps(1)) simp_all
  ultimately show ?case
    by (subst CLZ_32_loop.simps) (simp only: and_top_bit if_True)
qed

lemma bit_iff_odd_unat: "bit (w :: 'a::len word) j \<longleftrightarrow> odd (unat w div 2 ^ j)"
proof -
  have "bit (unat w) j \<longleftrightarrow> bit w j" by (simp add: bit_unsigned_iff)
  then show ?thesis by (simp only: bit_iff_odd [of "unat w"])
qed

lemma CLZ_32_spec:
  assumes "2 ^ k \<le> unat n" "unat n < 2 ^ Suc k" "k < 32"
  shows "CLZ_32 n = 31 - k"
proof -
  have "unat n div 2 ^ k = 1" using assms(1,2) by (intro div_nat_eqI) simp_all
  then have "bit n k" by (simp add: bit_iff_odd_unat)
  moreover have "\<not> bit n j" if "k < j" for j
  proof -
    have "(2::nat) ^ Suc k \<le> 2 ^ j" using that by (intro power_increasing) simp_all
    then have "unat n div 2 ^ j = 0" using assms(2) by simp
    then show ?thesis by (simp only: bit_iff_odd_unat) simp
  qed
  ultimately show ?thesis
    using CLZ_32_loop_spec [of n k 0] assms(3) by (simp add: CLZ_32_def)
qed

lemma floor_log2:
  assumes "0 < (n::nat)"
  obtains k where "2 ^ k \<le> n" "n < 2 ^ Suc k"
  using assms
proof (induction n arbitrary: thesis rule: less_induct)
  case (less n)
  show ?case
  proof (cases "n = 1")
    case True
    then show ?thesis using less.prems(1) [of 0] by simp
  next
    case False
    then obtain k where "2 ^ k \<le> n div 2" "n div 2 < 2 ^ Suc k"
      using less.IH [of "n div 2"] less.prems(2) by auto
    then have "2 ^ Suc k \<le> n" "n < 2 ^ Suc (Suc k)" by simp_all
    then show ?thesis by (rule less.prems(1))
  qed
qed

section \<open>Properties\<close>

text \<open>C2: one call of \<open>fifo_in\<close>, \<open>fifo_peek\<close> or \<open>fifo_out\<close> on a usable queue, at any position of
  the wrapping 32-bit indices: the number of elements moved is the smaller of the request and of
  the room (the elements present), the bytes appended are the first of the source, the bytes
  delivered are the oldest ones, peeking changes nothing, every copy stays inside its buffer, and
  the queue stays usable.\<close>

theorem fifo_refines_byte_queue:
  assumes "fifo_inv f" "unat n * unat (f_esize f) \<le> length buf"
  shows "(\<exists>m f'. fifo_in f buf n = Some (m, f') \<and> unat m = min (unat n) (fifo_size f - fifo_count f)
      \<and> fifo_inv f' \<and> fifo_count f' = fifo_count f + unat m
      \<and> fifo_bytes f' = fifo_bytes f @ take (unat m * unat (f_esize f)) buf)
    \<and> (\<exists>m f' buf'. fifo_out f buf n = Some (m, buf', f') \<and> fifo_peek f buf n = Some (m, buf')
      \<and> unat m = min (unat n) (fifo_count f)
      \<and> buf' = take (unat m * unat (f_esize f)) (fifo_bytes f) @ drop (unat m * unat (f_esize f)) buf
      \<and> fifo_inv f' \<and> fifo_count f' = fifo_count f - unat m
      \<and> fifo_bytes f' = drop (unat m * unat (f_esize f)) (fifo_bytes f))"
  using fifo_in_spec [OF assms] fifo_out_spec [OF assms] by blast

definition fifo_example :: fifo where
  "fifo_example = \<lparr>f_in = 1, f_out = 0xFFFFFFFE, f_mask = 3, f_esize = 2,
     f_data = Some [5, 6, 7, 8, 1, 2, 3, 4]\<rparr>"

lemma fifo_example_inv: "fifo_inv fifo_example"
  by (simp add: fifo_example_def fifo_inv_def is_power_of_2_def fifo_size_def fifo_count_def)

theorem fifo_refines_byte_queue_witness:
  "fifo_inv fifo_example
   \<and> (\<exists>m f'. fifo_in fifo_example [9, 9, 8, 8] 2 = Some (m, f')
        \<and> unat m = min 2 (fifo_size fifo_example - fifo_count fifo_example)
        \<and> fifo_bytes f' = fifo_bytes fifo_example @ take (unat m * 2) [9, 9, 8, 8])"
  using fifo_refines_byte_queue [of fifo_example 2 "[9, 9, 8, 8]"] fifo_example_inv
  by (auto simp: fifo_example_def)

text \<open>C4: any sequence of single-element insertions and removals on a usable queue delivers the
  elements in the order in which they were accepted, loses none and never holds more than the
  capacity: the elements present at first followed by those accepted are the elements delivered
  followed by those left.\<close>

theorem fifo_order:
  assumes "fifo_inv f" "\<forall>x. Some x \<in> set cs \<longrightarrow> length x = unat (f_esize f)"
    and "elems.steps f cs = (f', accepted, delivered)"
  shows "fifo_inv f' \<and> delivered @ fifo_elems f' = fifo_elems f @ accepted
       \<and> length (fifo_elems f') \<le> fifo_size f"
  using elems.steps_order [OF assms] .

theorem fifo_order_witness:
  "\<exists>f' accepted delivered. elems.steps fifo_example [Some [9, 9], None, Some [8, 8]] = (f', accepted, delivered)
     \<and> fifo_inv f' \<and> delivered @ fifo_elems f' = fifo_elems fifo_example @ accepted
     \<and> length (fifo_elems f') \<le> fifo_size fifo_example"
proof -
  obtain f' a d where s: "elems.steps fifo_example [Some [9, 9], None, Some [8, 8]] = (f', a, d)"
    by (metis prod_cases3)
  have "\<forall>x. Some x \<in> set [Some [9, 9], None, Some [8, 8]] \<longrightarrow> length x = unat (f_esize fifo_example)"
    by (auto simp: fifo_example_def)
  from fifo_order [OF fifo_example_inv this s] s show ?thesis by blast
qed

text \<open>\<open>fifo_init\<close> on a buffer of the right size, and \<open>fifo_alloc\<close> when \<open>malloc\<close> returns such a
  buffer, give an empty usable queue; a count that is not a power of two is refused with
  \<open>-EINVAL\<close>, a failed \<open>malloc\<close> with \<open>-ENOMEM\<close>.\<close>

theorem fifo_setup:
  assumes "is_power_of_2 nelem" "nelem \<noteq> 1" "0 < esize" "unat nelem * unat esize < 2 ^ 32"
    "length buf = unat nelem * unat esize"
    and "malloc (nelem * esize) = Some buf" "failing (nelem * esize) = None"
    and "\<not> is_power_of_2 odd_n"
  shows "(\<exists>f'. fifo_init f (Some buf) nelem esize = (0, f') \<and> fifo_alloc malloc f nelem esize = (0, f')
             \<and> fifo_inv f' \<and> fifo_elems f' = [] \<and> fifo_size f' = unat nelem)
    \<and> fst (fifo_alloc failing f nelem esize) = - ENOMEM
    \<and> fst (fifo_alloc malloc f odd_n esize) = - EINVAL \<and> fst (fifo_init f (Some buf) odd_n esize) = - EINVAL"
proof -
  obtain f' where f': "fifo_init f (Some buf) nelem esize = (0, f')" "fifo_inv f'" "fifo_elems f' = []"
    "fifo_size f' = unat nelem"
    using fifo_init_spec [OF assms(1-3,5,4)] by blast
  then have "fifo_alloc malloc f nelem esize = (0, f')"
    using fifo_alloc_init [of malloc, OF assms(6)] by simp
  moreover have "\<not> nelem < 2" using f'(1) by (auto simp: fifo_init_def EINVAL_def split: if_splits)
  ultimately show ?thesis
    using f' assms(1,7,8) by (auto simp: fifo_alloc_def fifo_init_def)
qed

theorem fifo_setup_witness:
  "\<exists>f'. fifo_alloc (\<lambda>n. Some (replicate (unat n) 0)) fifo_example 4 2 = (0, f') \<and> fifo_inv f' \<and> fifo_elems f' = []"
proof -
  have p: "is_power_of_2 4" "\<not> is_power_of_2 6" by (simp_all add: is_power_of_2_def)
  from fifo_setup [OF p(1), of 2 "replicate 8 0" "\<lambda>n. Some (replicate (unat n) 0)" "\<lambda>_. None" 6 fifo_example] p(2)
  show ?thesis by auto
qed

text \<open>\<open>rounddown_pow_of_two\<close> rounds up: for every \<open>n\<close> below \<open>2 ^ 30\<close> that is not a power of two
  the result is the next power of two above \<open>n\<close>, and a power of two is returned unchanged.\<close>

theorem rounddown_pow_of_two_rounds_up:
  assumes "0 < unat n" "unat n < 2 ^ 30"
  shows "if is_power_of_2 n then rounddown_pow_of_two n = Some n
         else \<exists>k. rounddown_pow_of_two n = Some (2 ^ Suc k) \<and> 2 ^ k < unat n \<and> unat n < 2 ^ Suc k"
proof -
  have n0: "n \<noteq> 0" using assms(1) by auto
  obtain k where k: "2 ^ k \<le> unat n" "unat n < 2 ^ Suc k" using floor_log2 [OF assms(1)] by blast
  have k30: "k < 30"
  proof (rule ccontr)
    assume "\<not> k < 30"
    then have "(2::nat) ^ 30 \<le> 2 ^ k" by (intro power_increasing) simp_all
    then show False using k(1) assms(2) by linarith
  qed
  have clz: "CLZ_32 n = 31 - k" using CLZ_32_spec [OF k] k30 by simp
  show ?thesis
  proof (cases "is_power_of_2 n")
    case True
    then show ?thesis by (simp add: rounddown_pow_of_two_def is_power_of_2_def)
  next
    case False
    have "2 ^ k \<noteq> unat n"
    proof
      assume eq: "2 ^ k = unat n"
      then have "n = of_nat (2 ^ k)" by simp
      then have "n = 2 ^ k" by simp
      moreover have "(2::u32) ^ k AND (2 ^ k - 1) = 0"
        by (simp flip: mask_eq_exp_minus_1 take_bit_eq_mask add: take_bit_eq_0_iff)
      ultimately show False using False n0 by (simp add: is_power_of_2_def)
    qed
    moreover have "rounddown_pow_of_two n = Some (2 ^ Suc k)"
      using False n0 clz k30 by (simp add: rounddown_pow_of_two_def is_power_of_2_def push_bit_eq_mult Suc_diff_le)
    ultimately show ?thesis using False k by auto
  qed
qed

theorem rounddown_pow_of_two_rounds_up_witness:
  "0 < unat (1023 :: u32) \<and> unat (1023 :: u32) < 2 ^ 30 \<and> \<not> is_power_of_2 1023
   \<and> (\<exists>k. rounddown_pow_of_two 1023 = Some (2 ^ Suc k) \<and> 2 ^ k < unat (1023 :: u32))"
proof -
  have "\<not> is_power_of_2 1023" by (simp add: is_power_of_2_def)
  then show ?thesis using rounddown_pow_of_two_rounds_up [of 1023] by auto
qed

end
