(* ===== verification/Ringtab.thy ===== *)
theory Ringtab
  imports Ring
begin

text \<open>
  The ring table of \<open>src/ringtab/ringtab.c\<close>: a producer and a consumer share a table of
  \<open>n_items\<close> slots; the consumer may hold one slot in use, and used slots stay dirty until the
  producer has released them.  Fields are \<open>int16_t\<close>: a value assigned to one is wrapped by \<open>i16\<close>,
  and \<open>%\<close> is C's remainder, \<open>crem\<close>.  An item pointer is its offset in \<open>data\<close>, \<open>None\<close> is \<open>NULL\<close>.
\<close>

section \<open>The code\<close>

definition RINGTAB_ITEM_NONE :: int where "RINGTAB_ITEM_NONE = -1"

definition i16 :: "int \<Rightarrow> int" where
  "i16 x = (x + 2 ^ 15) mod 2 ^ 16 - 2 ^ 15"

definition crem :: "int \<Rightarrow> int \<Rightarrow> int" where
  "crem a b = sgn a * (\<bar>a\<bar> mod \<bar>b\<bar>)"

record ringtab_hdr =
  n_items :: int
  item_size :: int
  head :: int
  tail :: int
  dirty :: int
  in_use :: int
  full :: bool
  rdata :: bytes

definition ringtab_init :: "ringtab_hdr \<Rightarrow> int \<Rightarrow> int \<Rightarrow> ringtab_hdr" where
  "ringtab_init rtab n sz = rtab\<lparr>
     n_items := n, item_size := sz, head := 0, tail := 0,
     dirty := RINGTAB_ITEM_NONE, in_use := RINGTAB_ITEM_NONE, full := False,
     rdata := replicate (nat (sz * n)) 0 @ drop (nat (sz * n)) (rdata rtab)\<rparr>"

definition ringtab_items_used :: "ringtab_hdr \<Rightarrow> int" where
  "ringtab_items_used rtab =
     (if full rtab then n_items rtab
      else let diff = i16 (tail rtab - head rtab)
           in i16 (if diff \<ge> 0 then diff else n_items rtab + diff))"

definition ringtab_items_left :: "ringtab_hdr \<Rightarrow> int" where
  "ringtab_items_left rtab = i16 (n_items rtab - ringtab_items_used rtab)"

definition ringtab_put_item :: "ringtab_hdr \<Rightarrow> int option \<times> ringtab_hdr" where
  "ringtab_put_item rtab =
     (if ringtab_items_used rtab \<ge> n_items rtab then (None, rtab)
      else let item = tail rtab * item_size rtab;
               rtab = rtab\<lparr>tail := i16 (tail rtab + 1)\<rparr>;
               rtab = rtab\<lparr>tail := i16 (crem (tail rtab) (n_items rtab))\<rparr>;
               rtab = (if tail rtab = head rtab then rtab\<lparr>full := True\<rparr> else rtab)
           in (Some item, rtab))"

definition ringtab_use_item :: "ringtab_hdr \<Rightarrow> int option \<times> ringtab_hdr" where
  "ringtab_use_item rtab =
     (if ringtab_items_used rtab = 0 then (None, rtab)
      else let rtab = rtab\<lparr>in_use := head rtab\<rparr>
           in (Some (in_use rtab * item_size rtab), rtab))"

definition ringtab_peek_next :: "ringtab_hdr \<Rightarrow> int option" where
  "ringtab_peek_next rtab =
     (if ringtab_items_used rtab \<le> 1 then None
      else let peek_item = (if in_use rtab = RINGTAB_ITEM_NONE then head rtab
                            else i16 (crem (i16 (in_use rtab + 1)) (n_items rtab)))
           in Some (peek_item * item_size rtab))"

definition ringtab_peek_last :: "ringtab_hdr \<Rightarrow> int" where
  "ringtab_peek_last rtab =
     (let t = (if tail rtab = 0 then n_items rtab else tail rtab)
      in i16 (t - 1) * item_size rtab)"

definition ringtab_done_item :: "ringtab_hdr \<Rightarrow> ringtab_hdr" where
  "ringtab_done_item rtab =
     (let rtab = (if dirty rtab = RINGTAB_ITEM_NONE then rtab\<lparr>dirty := in_use rtab\<rparr> else rtab);
          rtab = rtab\<lparr>in_use := i16 (in_use rtab + 1)\<rparr>;
          rtab = rtab\<lparr>in_use := i16 (crem (in_use rtab) (n_items rtab))\<rparr>;
          rtab = rtab\<lparr>head := in_use rtab\<rparr>
      in if full rtab then rtab\<lparr>full := False\<rparr> else rtab)"

definition ringtab_get_dirty :: "ringtab_hdr \<Rightarrow> int option \<times> ringtab_hdr" where
  "ringtab_get_dirty rtab =
     (if dirty rtab = RINGTAB_ITEM_NONE then (None, rtab)
      else if dirty rtab = in_use rtab then (None, rtab)
      else let item = dirty rtab * item_size rtab;
               rtab = rtab\<lparr>dirty := i16 (dirty rtab + 1)\<rparr>;
               rtab = rtab\<lparr>dirty := i16 (crem (dirty rtab) (n_items rtab))\<rparr>;
               rtab = (if dirty rtab = head rtab then rtab\<lparr>dirty := RINGTAB_ITEM_NONE\<rparr> else rtab)
           in (Some item, rtab))"

definition ringtab_get_item :: "ringtab_hdr \<Rightarrow> int option \<times> ringtab_hdr" where
  "ringtab_get_item rtab =
     (case ringtab_use_item rtab of
        (None, rtab) \<Rightarrow> (None, rtab)
      | (Some item, rtab) \<Rightarrow>
          let rtab = rtab\<lparr>head := i16 (head rtab + 1)\<rparr>;
              rtab = rtab\<lparr>head := i16 (crem (head rtab) (n_items rtab))\<rparr>;
              rtab = (if full rtab then rtab\<lparr>full := False\<rparr> else rtab)
          in (Some item, rtab))"

text \<open>The loops of the clean-up operations may not end on a table that is not well formed:
  not returning is \<open>None\<close>.  The released items are listed in the order of the calls of
  \<open>release_fn\<close>.\<close>

partial_function (option) ringtab_cleanup :: "ringtab_hdr \<Rightarrow> (int list \<times> ringtab_hdr) option" where
  "ringtab_cleanup rtab =
     (case ringtab_get_dirty rtab of
        (None, rtab) \<Rightarrow> Some ([], rtab)
      | (Some item, rtab) \<Rightarrow> do { (released, rtab) \<leftarrow> ringtab_cleanup rtab; Some (item # released, rtab) })"

partial_function (option) drain_loop :: "ringtab_hdr \<Rightarrow> (int list \<times> ringtab_hdr) option" where
  "drain_loop rtab =
     (case ringtab_get_item rtab of
        (None, rtab) \<Rightarrow> Some ([], rtab)
      | (Some item, rtab) \<Rightarrow> do { (released, rtab) \<leftarrow> drain_loop rtab; Some (item # released, rtab) })"

definition ringtab_cleanup_all :: "ringtab_hdr \<Rightarrow> (int list \<times> ringtab_hdr) option" where
  "ringtab_cleanup_all rtab =
     do { (released1, rtab) \<leftarrow> ringtab_cleanup rtab;
          (released2, rtab) \<leftarrow> drain_loop rtab;
          Some (released1 @ released2, ringtab_init rtab (n_items rtab) (item_size rtab)) }"

definition ringtab_produce_item :: "ringtab_hdr \<Rightarrow> (int list \<times> int option \<times> ringtab_hdr) option" where
  "ringtab_produce_item rtab =
     do { (released, rtab) \<leftarrow> ringtab_cleanup rtab;
          let (item, rtab) = ringtab_put_item rtab;
          Some (released, item, rtab) }"

definition ringtab_consume_item :: "ringtab_hdr \<Rightarrow> int option \<times> ringtab_hdr" where
  "ringtab_consume_item rtab = ringtab_use_item (ringtab_done_item rtab)"

section \<open>Invariant\<close>

definition ringtab_inv :: "ringtab_hdr \<Rightarrow> bool" where
  "ringtab_inv r \<longleftrightarrow> 0 < n_items r \<and> n_items r < 2 ^ 15 \<and> 0 < item_size r \<and> item_size r < 2 ^ 15
     \<and> head r \<in> {0..<n_items r} \<and> tail r \<in> {0..<n_items r}
     \<and> dirty r \<in> {-1..<n_items r} \<and> in_use r \<in> {-1..<n_items r}
     \<and> (full r \<longrightarrow> head r = tail r)
     \<and> length (rdata r) = nat (n_items r) * nat (item_size r)"

lemma i16_id: "- (2 ^ 15) \<le> x \<Longrightarrow> x < 2 ^ 15 \<Longrightarrow> i16 x = x"
  by (simp add: i16_def)

lemma neg1_le_mod: "0 < n \<Longrightarrow> -1 \<le> (x::int) mod n"
  by (rule order_trans [of _ 0]) simp_all

lemma crem_nonneg: "0 \<le> a \<Longrightarrow> 0 < b \<Longrightarrow> crem a b = a mod b"
  by (cases "a = 0") (simp_all add: crem_def)

text \<open>Stepping a slot number with wrap-around.\<close>

lemma slot_next:
  assumes "0 \<le> s + 1" "s < n" "0 < n" "n < 2 ^ 15"
  shows "i16 (crem (i16 (s + 1)) n) = (s + 1) mod n"
proof -
  have "i16 (s + 1) = s + 1" using assms by (intro i16_id) auto
  moreover have "0 \<le> (s + 1) mod n" "(s + 1) mod n < n" using assms by simp_all
  then have "i16 ((s + 1) mod n) = (s + 1) mod n" using assms(4) by (intro i16_id) linarith+
  ultimately show ?thesis using assms by (simp add: crem_nonneg)
qed

definition used :: "ringtab_hdr \<Rightarrow> nat" where
  "used r = nat (if full r then n_items r else (tail r - head r) mod n_items r)"

lemma items_used:
  assumes "ringtab_inv r"
  shows "ringtab_items_used r = int (used r)"
proof -
  have b: "0 < n_items r" "n_items r < 2 ^ 15" "0 \<le> head r" "head r < n_items r" "0 \<le> tail r" "tail r < n_items r"
    using assms by (simp_all add: ringtab_inv_def)
  have d: "i16 (tail r - head r) = tail r - head r" using b by (intro i16_id) linarith+
  show ?thesis
  proof (cases "tail r \<ge> head r")
    case True
    then have "(tail r - head r) mod n_items r = tail r - head r" using b by simp
    then show ?thesis using True b d by (simp add: ringtab_items_used_def used_def Let_def)
  next
    case False
    then have "(tail r - head r + n_items r) mod n_items r = tail r - head r + n_items r"
      using b by (intro mod_pos_pos_trivial) linarith+
    then have m: "(tail r - head r) mod n_items r = n_items r + (tail r - head r)" by simp
    have "i16 (n_items r + (tail r - head r)) = n_items r + (tail r - head r)"
      using False b by (intro i16_id) linarith+
    then show ?thesis using False b d m by (simp add: ringtab_items_used_def used_def Let_def)
  qed
qed

lemma used_facts:
  assumes "ringtab_inv r"
  shows "int (used r) \<le> n_items r" "tail r = (head r + int (used r)) mod n_items r"
    "\<not> full r \<Longrightarrow> int (used r) < n_items r"
  using assms by (auto simp: ringtab_inv_def used_def less_imp_le mod_add_right_eq)

text \<open>An emptier or fuller table is determined by its head and tail.\<close>

lemma used_eqI:
  assumes "0 < n_items r" "\<not> full r" "tail r = (head r + int u) mod n_items r" "int u < n_items r"
  shows "used r = u"
proof -
  have "(tail r - head r) mod n_items r = int u mod n_items r"
    using assms(3) by (simp add: mod_diff_left_eq)
  then show ?thesis using assms by (simp add: used_def)
qed

section \<open>Operations on the invariant\<close>

lemma put_item_spec:
  assumes inv: "ringtab_inv r" and room: "int (used r) < n_items r"
  shows "\<exists>r'. ringtab_put_item r = (Some (tail r * item_size r), r') \<and> ringtab_inv r'
    \<and> used r' = Suc (used r) \<and> r' = r\<lparr>tail := tail r', full := full r'\<rparr>"
proof -
  have b: "0 < n_items r" "n_items r < 2 ^ 15" "0 \<le> head r" "head r < n_items r" "0 \<le> tail r" "tail r < n_items r"
    using inv by (simp_all add: ringtab_inv_def)
  define t where "t = (tail r + 1) mod n_items r"
  have tb: "0 \<le> t" "t < n_items r" using b by (simp_all add: t_def)
  have th: "t = (head r + int (Suc (used r))) mod n_items r"
    using used_facts(2) [OF inv] by (simp add: t_def mod_add_left_eq add.assoc) (simp add: add.commute)
  have fl: "\<not> full r" using room b(1) by (auto simp: used_def)
  define r' where "r' = (if t = head r then r\<lparr>tail := t, full := True\<rparr> else r\<lparr>tail := t\<rparr>)"
  have "ringtab_put_item r = (Some (tail r * item_size r), r')"
    using room b items_used [OF inv] slot_next [of "tail r" "n_items r"]
    by (simp add: ringtab_put_item_def Let_def r'_def t_def)
  moreover have "ringtab_inv r'" using inv tb fl by (auto simp: ringtab_inv_def r'_def)
  moreover have "used r' = Suc (used r)"
  proof (cases "t = head r")
    case True
    have "(head r + int (Suc (used r))) mod n_items r = head r mod n_items r"
      using th True b by simp
    then have "n_items r dvd (head r + int (Suc (used r))) - head r" by (simp only: mod_eq_dvd_iff)
    then have "n_items r dvd int (Suc (used r))" by simp
    then have "n_items r \<le> int (Suc (used r))" by (rule zdvd_imp_le) simp
    then show ?thesis using True room by (simp add: r'_def used_def [of "_\<lparr>full := True\<rparr>"])
  next
    case False
    have "int (Suc (used r)) < n_items r"
    proof (rule ccontr)
      assume "\<not> int (Suc (used r)) < n_items r"
      then have "int (Suc (used r)) = n_items r" using room by simp
      then have "t = head r" using th b by simp
      then show False using False by simp
    qed
    then show ?thesis using False fl th b by (intro used_eqI) (simp_all add: r'_def)
  qed
  moreover have "r' = r\<lparr>tail := tail r', full := full r'\<rparr>" by (simp add: r'_def)
  ultimately show ?thesis by blast
qed

lemma put_item_full: "ringtab_inv r \<Longrightarrow> int (used r) = n_items r \<Longrightarrow> ringtab_put_item r = (None, r)"
  by (simp add: ringtab_put_item_def items_used)

lemma advance_head:
  assumes inv: "ringtab_inv r" and ne: "0 < used r"
  shows "used (r\<lparr>head := (head r + 1) mod n_items r, full := False\<rparr>) = used r - 1"
    and "ringtab_inv (r\<lparr>head := (head r + 1) mod n_items r, full := False\<rparr>)"
proof -
  have b: "0 < n_items r" "0 \<le> head r" "head r < n_items r" using inv by (simp_all add: ringtab_inv_def)
  have "tail r = ((head r + 1) mod n_items r + int (used r - 1)) mod n_items r"
    using used_facts(2) [OF inv] ne by (simp add: mod_add_left_eq of_nat_diff)
  then show "used (r\<lparr>head := (head r + 1) mod n_items r, full := False\<rparr>) = used r - 1"
    using used_facts(1) [OF inv] ne b by (intro used_eqI) simp_all
  show "ringtab_inv (r\<lparr>head := (head r + 1) mod n_items r, full := False\<rparr>)"
    using inv b by (simp add: ringtab_inv_def)
qed

lemma get_item_spec:
  assumes inv: "ringtab_inv r" and ne: "0 < used r"
  shows "ringtab_get_item r = (Some (head r * item_size r),
      r\<lparr>in_use := head r, head := (head r + 1) mod n_items r, full := False\<rparr>)"
proof -
  have "i16 (crem (i16 (head r + 1)) (n_items r)) = (head r + 1) mod n_items r"
    using inv by (intro slot_next) (auto simp: ringtab_inv_def)
  then show ?thesis
    using ne by (cases "full r")
      (simp_all add: ringtab_get_item_def ringtab_use_item_def items_used [OF inv] Let_def)
qed

lemma get_item_empty: "ringtab_inv r \<Longrightarrow> used r = 0 \<Longrightarrow> ringtab_get_item r = (None, r)"
  by (simp add: ringtab_get_item_def ringtab_use_item_def items_used)

lemma use_item_spec:
  "ringtab_inv r \<Longrightarrow> 0 < used r \<Longrightarrow>
     ringtab_use_item r = (Some (head r * item_size r), r\<lparr>in_use := head r\<rparr>)"
  by (simp add: ringtab_use_item_def items_used Let_def)

lemma done_item_spec:
  assumes "ringtab_inv r"
  shows "ringtab_done_item r = r\<lparr>dirty := (if dirty r = RINGTAB_ITEM_NONE then in_use r else dirty r),
     in_use := (in_use r + 1) mod n_items r, head := (in_use r + 1) mod n_items r, full := False\<rparr>"
  using assms slot_next [of "in_use r" "n_items r"]
  by (simp add: ringtab_done_item_def ringtab_inv_def Let_def)

section \<open>The queue of items\<close>

definition ringtab_items :: "ringtab_hdr \<Rightarrow> bytes list" where
  "ringtab_items r = chunks (nat (item_size r))
     (ring_read (rdata r) (nat (head r) * nat (item_size r)) (used r * nat (item_size r)))"

text \<open>A producer asks for a slot and writes the item there; a consumer takes the slot at the head
  and reads it.\<close>

definition ringtab_enq :: "ringtab_hdr \<Rightarrow> bytes \<Rightarrow> ringtab_hdr option" where
  "ringtab_enq r x = (case ringtab_put_item r of
      (None, _) \<Rightarrow> None
    | (Some p, r') \<Rightarrow> do { d \<leftarrow> mem_copy (rdata r') (nat p) x 0 (nat (item_size r')); Some (r'\<lparr>rdata := d\<rparr>) })"

definition ringtab_deq :: "ringtab_hdr \<Rightarrow> (bytes \<times> ringtab_hdr) option" where
  "ringtab_deq r = (case ringtab_get_item r of
      (None, _) \<Rightarrow> None
    | (Some p, r') \<Rightarrow> Some (take (nat (item_size r')) (drop (nat p) (rdata r')), r'))"

lemma length_ringtab_items [simp]:
  "ringtab_inv r \<Longrightarrow> length (ringtab_items r) = used r"
  by (simp add: ringtab_items_def chunks_def ringtab_inv_def)

lemma nat_tail:
  assumes "ringtab_inv r"
  shows "nat (tail r) = (nat (head r) + used r) mod nat (n_items r)"
proof -
  have b: "0 < n_items r" "0 \<le> head r" using assms by (simp_all add: ringtab_inv_def)
  have "int ((nat (head r) + used r) mod nat (n_items r)) = (head r + int (used r)) mod n_items r"
    using b by (simp add: zmod_int)
  then show ?thesis using used_facts(2) [OF assms] by simp
qed

lemma ring_write_aligned:
  assumes "p + length x \<le> length d" "x \<noteq> []"
  shows "mem_copy d p x 0 (length x) = Some (ring_write d p x)"
proof -
  have "length x = min (length x) (length d - p)" "p < length d" using assms by (cases x; simp)+
  then show ?thesis
    using mem_copy_ring_write [of p d "length x" x "length x"] assms
    by (simp add: mem_copy_def split: if_splits)
qed

lemma ringtab_enq_spec:
  assumes inv: "ringtab_inv r" and x: "length x = nat (item_size r)" and room: "int (used r) < n_items r"
  shows "\<exists>r'. ringtab_enq r x = Some r' \<and> ringtab_inv r' \<and> ringtab_items r' = ringtab_items r @ [x]
    \<and> n_items r' = n_items r \<and> item_size r' = item_size r \<and> head r' = head r \<and> in_use r' = in_use r"
proof -
  obtain r1 where r1: "ringtab_put_item r = (Some (tail r * item_size r), r1)" "ringtab_inv r1"
    "used r1 = Suc (used r)" "r1 = r\<lparr>tail := tail r1, full := full r1\<rparr>"
    using put_item_spec [OF inv room] by blast
  have same: "rdata r1 = rdata r" "item_size r1 = item_size r" "n_items r1 = n_items r" "head r1 = head r" "in_use r1 = in_use r"
    by (subst r1(4), simp)+
  let ?n = "nat (n_items r)" and ?s = "nat (item_size r)" and ?h = "nat (head r)"
  have b: "0 < ?n" "0 < ?s" "?h < ?n" "nat (tail r) < ?n" "length (rdata r) = ?n * ?s"
    using inv by (auto simp: ringtab_inv_def)
  have p: "nat (tail r * item_size r) = nat (tail r) * ?s"
    using inv by (simp add: ringtab_inv_def nat_mult_distrib)
  have pos: "nat (tail r) * ?s = (?h * ?s + used r * ?s) mod length (rdata r)"
    by (simp only: nat_tail [OF inv] b(5) mult_mod_left add_mult_distrib)
  have "Suc (nat (tail r)) * ?s \<le> ?n * ?s" using b(4) by (intro mult_le_mono1 Suc_leI)
  then have cp: "mem_copy (rdata r) (nat (tail r) * ?s) x 0 ?s = Some (ring_write (rdata r) (nat (tail r) * ?s) x)"
    using ring_write_aligned [of "nat (tail r) * ?s" x "rdata r"] x b(2,5) by (cases x) auto
  define r' where "r' = r1\<lparr>rdata := ring_write (rdata r) (nat (tail r) * ?s) x\<rparr>"
  have run: "ringtab_enq r x = Some r'" using r1(1) same p cp by (simp add: ringtab_enq_def r'_def)
  have "used r' = used r1" by (simp add: r'_def used_def)
  then have "used r' = Suc (used r)" using r1(3) by simp
  moreover have "Suc (used r) * ?s \<le> ?n * ?s" using room by (intro mult_le_mono1) linarith
  then have "used r * ?s + length x \<le> length (rdata r)" using x b(5) by simp
  moreover have "?h * ?s < length (rdata r)" using b by simp
  ultimately have "ring_read (rdata r') (?h * ?s) (used r' * ?s)
      = ring_read (rdata r) (?h * ?s) (used r * ?s) @ x"
    using ring_read_write [of "?h * ?s" "rdata r" "used r * ?s" x] pos x
    by (simp add: r'_def add.commute)
  then have "ringtab_items r' = ringtab_items r @ [x]"
    using chunks_append [OF x, of "ring_read (rdata r) (?h * ?s) (used r * ?s)" "used r"] b(2) same
    by (simp add: ringtab_items_def r'_def)
  moreover have "ringtab_inv r'" using r1(2) same by (simp add: r'_def ringtab_inv_def)
  ultimately show ?thesis using run same by (auto simp: r'_def)
qed

lemma ringtab_deq_spec:
  assumes inv: "ringtab_inv r" and ne: "ringtab_items r = x # xs"
  shows "\<exists>r'. ringtab_deq r = Some (x, r') \<and> ringtab_inv r' \<and> ringtab_items r' = xs
    \<and> n_items r' = n_items r \<and> item_size r' = item_size r"
proof -
  have u: "0 < used r" using length_ringtab_items [OF inv] ne by (cases "used r") simp_all
  let ?n = "nat (n_items r)" and ?s = "nat (item_size r)" and ?h = "nat (head r)"
  have b: "0 < ?n" "0 < ?s" "?h < ?n" "length (rdata r) = ?n * ?s" "0 \<le> head r"
    using inv by (auto simp: ringtab_inv_def)
  define r' where "r' = r\<lparr>in_use := head r, head := (head r + 1) mod n_items r, full := False\<rparr>"
  have run: "ringtab_deq r = Some (take ?s (drop (?h * ?s) (rdata r)), r')"
    using get_item_spec [OF inv u] inv
    by (simp add: ringtab_deq_def r'_def ringtab_inv_def nat_mult_distrib)
  have u': "used r' = used r - 1" using advance_head(1) [OF inv u] by (simp add: r'_def used_def)
  have inv': "ringtab_inv r'" using advance_head(2) [OF inv u] inv by (auto simp: r'_def ringtab_inv_def)
  have lr: "length (ring_read (rdata r) (?h * ?s) (used r * ?s)) = used r * ?s" by simp
  have hs: "?h * ?s < length (rdata r)" using b by simp
  have "Suc ?h * ?s \<le> ?n * ?s" using b(3) by (intro mult_le_mono1 Suc_leI)
  then have sl: "?h * ?s + ?s \<le> length (rdata r)" by (simp add: b(4))
  have "take ?s (ring_read (rdata r) (?h * ?s) (used r * ?s)) = ring_read (rdata r) (?h * ?s) ?s"
    using u by (intro ring_read_take) simp
  also have "\<dots> = take ?s (drop (?h * ?s) (rdata r))"
    using ring_read_two [OF hs, of ?s] sl by simp
  finally have "take ?s (drop (?h * ?s) (rdata r)) = x"
    using ne u b(2) by (simp add: ringtab_items_def chunks_def upt_conv_Cons)
  moreover have "ringtab_items r' = xs"
  proof -
    have "nat (head r') = (?h + 1) mod ?n"
      using b by (simp add: r'_def nat_mod_distrib nat_add_distrib)
    then have "nat (head r') * ?s = (?h * ?s + ?s) mod length (rdata r)"
      by (simp only: b(4) mult_mod_left add_mult_distrib) simp
    then have "ring_read (rdata r) (nat (head r') * ?s) (used r' * ?s)
        = drop ?s (ring_read (rdata r) (?h * ?s) (used r * ?s))"
      by (simp add: ring_read_drop u' diff_mult_distrib)
    then show ?thesis
      using chunks_drop [OF lr b(2)] ne by (simp add: ringtab_items_def) (simp add: r'_def)
  qed
  ultimately show ?thesis using run inv' by (auto simp: r'_def)
qed

interpretation table: bounded_queue ringtab_inv ringtab_items "\<lambda>r. nat (n_items r)"
  "\<lambda>r x. length x = nat (item_size r)" ringtab_enq ringtab_deq
proof
  fix r :: ringtab_hdr assume inv: "ringtab_inv r"
  then show "length (ringtab_items r) \<le> nat (n_items r)" using used_facts(1) [OF inv] by simp
next
  fix r :: ringtab_hdr and x :: bytes
  assume "ringtab_inv r" "length x = nat (item_size r)" "length (ringtab_items r) = nat (n_items r)"
  then show "ringtab_enq r x = None"
    by (simp add: ringtab_enq_def put_item_full ringtab_inv_def)
next
  fix r :: ringtab_hdr and x :: bytes
  assume "ringtab_inv r" "length x = nat (item_size r)" "length (ringtab_items r) < nat (n_items r)"
  then show "\<exists>s'. ringtab_enq r x = Some s' \<and> ringtab_inv s' \<and> ringtab_items s' = ringtab_items r @ [x]
      \<and> nat (n_items s') = nat (n_items r)
      \<and> (\<lambda>x. length x = nat (item_size s')) = (\<lambda>x. length x = nat (item_size r))"
    using ringtab_enq_spec [of r x] zless_nat_eq_int_zless [of "used r" "n_items r"] by auto
next
  fix r :: ringtab_hdr assume inv: "ringtab_inv r" and e: "ringtab_items r = []"
  then have "used r = 0" using length_ringtab_items [OF inv] by simp
  then show "ringtab_deq r = None" using get_item_empty [OF inv] by (simp add: ringtab_deq_def)
next
  fix r :: ringtab_hdr and x xs assume "ringtab_inv r" "ringtab_items r = x # xs"
  then show "\<exists>s'. ringtab_deq r = Some (x, s') \<and> ringtab_inv s' \<and> ringtab_items s' = xs
      \<and> nat (n_items s') = nat (n_items r)
      \<and> (\<lambda>x. length x = nat (item_size s')) = (\<lambda>x. length x = nat (item_size r))"
    using ringtab_deq_spec [of r x xs] by auto
qed

section \<open>Releasing items\<close>

abbreviation slots :: "ringtab_hdr \<Rightarrow> int \<Rightarrow> nat \<Rightarrow> int list" where
  "slots r from c \<equiv> map (\<lambda>k. (from + int k) mod n_items r * item_size r) [0..<c]"

lemma slots_Suc:
  assumes "0 \<le> from" "from < n_items r"
  shows "slots r from (Suc c) = from * item_size r # slots r ((from + 1) mod n_items r) c"
proof -
  have "slots r ((from + 1) mod n_items r) c = map (\<lambda>k. (from + int (Suc k)) mod n_items r * item_size r) [0..<c]"
    by (rule map_cong [OF refl]) (simp only: mod_add_left_eq, simp add: add.assoc)
  moreover have "[0..<Suc c] = 0 # map Suc [0..<c]" by (simp add: upt_conv_Cons map_Suc_upt del: upt_Suc)
  then have "slots r from (Suc c)
      = from * item_size r # map (\<lambda>k. (from + int (Suc k)) mod n_items r * item_size r) [0..<c]"
    using assms by (simp only: list.map) (simp add: comp_def)
  ultimately show ?thesis by (simp only:)
qed

text \<open>A clean-up goes on from the first dirty slot until it comes to the slot in use or, once it has released a slot, to
  the head.\<close>

definition stops :: "ringtab_hdr \<Rightarrow> nat \<Rightarrow> bool" where
  "stops r c \<longleftrightarrow> (dirty r + int c) mod n_items r = in_use r \<or> 0 < c \<and> (dirty r + int c) mod n_items r = head r"

definition dirty_items :: "ringtab_hdr \<Rightarrow> nat" where
  "dirty_items r = (if dirty r = RINGTAB_ITEM_NONE then 0 else length (takeWhile (\<lambda>c. \<not> stops r c) [0..<Suc (nat (n_items r))]))"

lemma dirty_items_stops:
  assumes "ringtab_inv r" "dirty r \<noteq> RINGTAB_ITEM_NONE"
  shows "stops r (dirty_items r)" "j < dirty_items r \<Longrightarrow> \<not> stops r j"
proof -
  let ?xs = "[0..<Suc (nat (n_items r))]" and ?P = "\<lambda>c. \<not> stops r c"
  have b: "0 < n_items r" "0 \<le> head r" "head r < n_items r" using assms(1) by (simp_all add: ringtab_inv_def)
  define d where "d = (head r - dirty r) mod n_items r"
  define c where "c = nat (if d = 0 then n_items r else d)"
  have d: "0 \<le> d" "d < n_items r" using b(1) by (simp_all add: d_def)
  have c: "0 < c" "c < Suc (nat (n_items r))" "int c mod n_items r = d" using d b(1) by (auto simp: c_def)
  have "(dirty r + int c) mod n_items r = (dirty r + d) mod n_items r" by (metis c(3) d_def mod_add_right_eq mod_mod_trivial)
  also have "\<dots> = head r" using b by (simp add: d_def mod_add_right_eq)
  finally have "stops r c" using c(1) by (simp add: stops_def)
  then have "\<not> (\<forall>x \<in> set ?xs. ?P x)" using c(2) by (auto simp del: upt_Suc)
  then have "takeWhile ?P ?xs \<noteq> ?xs" by (simp only: takeWhile_eq_all_conv) simp
  then have lt: "length (takeWhile ?P ?xs) < length ?xs"
    using length_takeWhile_le [of ?P ?xs] takeWhile_eq_take [of ?P ?xs] by (metis le_neq_implies_less take_all_iff order_refl)
  have n: "dirty_items r = length (takeWhile ?P ?xs)" using assms(2) by (simp only: dirty_items_def if_False)
  show "stops r (dirty_items r)" using nth_length_takeWhile [OF lt] lt n by (simp del: upt_Suc)
  show "\<not> stops r j" if "j < dirty_items r" using takeWhile_nth [of j ?P ?xs] nth_mem [of j "takeWhile ?P ?xs"] that n lt
    by (auto dest!: set_takeWhileD simp del: upt_Suc)
qed

lemma get_dirty_spec:
  assumes "ringtab_inv r" "dirty r \<noteq> RINGTAB_ITEM_NONE" "\<not> stops r 0"
  defines "d \<equiv> (dirty r + 1) mod n_items r"
  shows "ringtab_get_dirty r = (Some (dirty r * item_size r), r\<lparr>dirty := (if d = head r then RINGTAB_ITEM_NONE else d)\<rparr>)"
    and "0 \<le> dirty r" "dirty r < n_items r" "0 \<le> d" "d < n_items r"
proof -
  have b: "0 < n_items r" "n_items r < 2 ^ 15" "-1 \<le> dirty r" "dirty r < n_items r"
    using assms(1) by (simp_all add: ringtab_inv_def)
  show dn: "0 \<le> dirty r" "dirty r < n_items r" using assms(2) b by (simp_all add: RINGTAB_ITEM_NONE_def)
  show "0 \<le> d" "d < n_items r" using b(1) by (simp_all add: d_def)
  have "dirty r \<noteq> in_use r" using assms(3) dn by (simp add: stops_def)
  then show "ringtab_get_dirty r = (Some (dirty r * item_size r), r\<lparr>dirty := (if d = head r then RINGTAB_ITEM_NONE else d)\<rparr>)"
    using assms(2) slot_next [of "dirty r" "n_items r"] b dn by (simp add: ringtab_get_dirty_def Let_def d_def)
qed

lemma cleanup_nothing: "dirty r = RINGTAB_ITEM_NONE \<or> dirty r = in_use r \<Longrightarrow> ringtab_cleanup r = Some ([], r)"
  by (subst ringtab_cleanup.simps) (auto simp: ringtab_get_dirty_def)

lemma cleanup_stops:
  assumes "ringtab_inv r" "dirty r \<noteq> RINGTAB_ITEM_NONE" "stops r c" "\<And>j. j < c \<Longrightarrow> \<not> stops r j"
  shows "ringtab_cleanup r = Some (slots r (dirty r) c,
    r\<lparr>dirty := (if 0 < c \<and> (dirty r + int c) mod n_items r = head r then RINGTAB_ITEM_NONE else in_use r)\<rparr>)"
  using assms
proof (induction c arbitrary: r)
  case (0 r)
  have "-1 \<le> dirty r" "dirty r < n_items r" using "0.prems"(1) by (simp_all add: ringtab_inv_def)
  then have "dirty r = in_use r" using "0.prems"(2,3) by (simp add: stops_def RINGTAB_ITEM_NONE_def)
  then show ?case using cleanup_nothing [of r] by simp
next
  case (Suc c r)
  let ?d = "(dirty r + 1) mod n_items r"
  have "\<not> stops r 0" using Suc.prems(4) by simp
  note g = get_dirty_spec [OF Suc.prems(1,2) this]
  have sl: "slots r (dirty r) (Suc c) = dirty r * item_size r # slots r ?d c" by (rule slots_Suc [OF g(2,3)])
  have sh: "(?d + int k) mod n_items r = (dirty r + int (Suc k)) mod n_items r" for k
    by (simp add: mod_add_left_eq add.assoc)
  show ?case
  proof (cases "?d = head r")
    case True
    then have "stops r 1" by (simp add: stops_def)
    then have "c = 0" using Suc.prems(4) [of 1] by auto
    then show ?thesis
      using g(1-3) True by (subst ringtab_cleanup.simps) (simp add: cleanup_nothing)
  next
    case False
    let ?r = "r\<lparr>dirty := ?d\<rparr>"
    have inv: "ringtab_inv ?r" using Suc.prems(1) g(4,5) by (simp add: ringtab_inv_def neg1_le_mod)
    have dn: "dirty ?r \<noteq> RINGTAB_ITEM_NONE" using g(4) by (simp add: RINGTAB_ITEM_NONE_def)
    have st: "stops ?r k \<longleftrightarrow> stops r (Suc k)" for k
      using False sh [of k] by (cases k) (auto simp: stops_def)
    have "ringtab_cleanup ?r = Some (slots ?r (dirty ?r) c,
        ?r\<lparr>dirty := (if 0 < c \<and> (dirty ?r + int c) mod n_items ?r = head ?r then RINGTAB_ITEM_NONE else in_use ?r)\<rparr>)"
      using Suc.prems(3,4) st by (intro Suc.IH [OF inv dn]) auto
    moreover have "(0 < c \<and> (?d + int c) mod n_items r = head r) = ((dirty r + int (Suc c)) mod n_items r = head r)"
      using sh [of c] False by (cases c) auto
    ultimately have "ringtab_cleanup ?r = Some (slots r ?d c,
        r\<lparr>dirty := (if (dirty r + int (Suc c)) mod n_items r = head r then RINGTAB_ITEM_NONE else in_use r)\<rparr>)"
      by simp
    then show ?thesis using g(1) sl False by (subst ringtab_cleanup.simps) (simp del: upt_Suc)
  qed
qed

lemma cleanup_spec:
  assumes "ringtab_inv r"
  shows "\<exists>d. ringtab_cleanup r = Some (slots r (dirty r) (dirty_items r), r\<lparr>dirty := d\<rparr>) \<and> ringtab_inv (r\<lparr>dirty := d\<rparr>)
    \<and> d = (if dirty r = RINGTAB_ITEM_NONE \<or> 0 < dirty_items r \<and> (dirty r + int (dirty_items r)) mod n_items r = head r
           then RINGTAB_ITEM_NONE else in_use r)"
proof (cases "dirty r = RINGTAB_ITEM_NONE")
  case True
  then show ?thesis using cleanup_nothing [of r] assms by (simp add: dirty_items_def ringtab_inv_def)
next
  case False
  then show ?thesis
    using cleanup_stops [OF assms False dirty_items_stops [OF assms False]] assms by (auto simp: ringtab_inv_def RINGTAB_ITEM_NONE_def)
qed

text \<open>Draining the table takes every item, oldest first, and ends.\<close>

lemma drain_spec:
  assumes "ringtab_inv r"
  shows "\<exists>r'. drain_loop r = Some (slots r (head r) (used r), r') \<and> n_items r' = n_items r
    \<and> item_size r' = item_size r \<and> length (rdata r') = length (rdata r)"
  using assms
proof (induction "used r" arbitrary: r)
  case 0
  then show ?case by (subst drain_loop.simps) (simp add: get_item_empty)
next
  case (Suc u r)
  let ?r = "r\<lparr>in_use := head r, head := (head r + 1) mod n_items r, full := False\<rparr>"
  have pos: "0 < used r" using Suc.hyps(2) by simp
  have u: "used ?r = u" using advance_head(1) [OF Suc.prems pos] Suc.hyps(2) by (simp add: used_def)
  have b: "0 \<le> head r" "head r < n_items r" using Suc.prems by (simp_all add: ringtab_inv_def)
  have "ringtab_inv ?r" using advance_head(2) [OF Suc.prems pos] Suc.prems by (auto simp: ringtab_inv_def)
  then obtain r' where r': "drain_loop ?r = Some (slots ?r (head ?r) u, r')" "n_items r' = n_items r"
      "item_size r' = item_size r" "length (rdata r') = length (rdata r)"
    using Suc.hyps(1) [of ?r] u by auto
  have "slots r (head r) (used r) = head r * item_size r # slots r ((head r + 1) mod n_items r) u"
    unfolding Suc.hyps(2) [symmetric] by (rule slots_Suc [OF b])
  then show ?case
    using r' get_item_spec [OF Suc.prems pos] by (subst drain_loop.simps) simp
qed

section \<open>Properties\<close>

text \<open>As a bounded queue: any sequence of writes and takes delivers the accepted items in order.\<close>

lemma ringtab_queue_order:
  assumes "ringtab_inv r" "\<forall>x. Some x \<in> set cs \<longrightarrow> length x = nat (item_size r)"
    and "table.steps r cs = (r', accepted, delivered)"
  shows "ringtab_inv r' \<and> delivered @ ringtab_items r' = ringtab_items r @ accepted
       \<and> length (ringtab_items r') \<le> nat (n_items r)"
  using table.steps_order [OF assms] .










definition ringtab_example :: ringtab_hdr where
  "ringtab_example = \<lparr>n_items = 3, item_size = 2, head = 2, tail = 1, dirty = -1, in_use = -1, full = False,
     rdata = [3, 4, 0, 0, 1, 2]\<rparr>"



text \<open>The slot is handed to the consumer as soon as the producer has asked for it, before it is written: between the two,
  \<open>ringtab_get_item\<close> on an empty table returns the slot that \<open>ringtab_put_item\<close> has just returned.\<close>

lemma ringtab_put_unwritten:
  assumes "ringtab_inv r" "used r = 0"
  shows "fst (ringtab_get_item (snd (ringtab_put_item r))) = fst (ringtab_put_item r)"
proof -
  have room: "int (used r) < n_items r" using assms by (simp add: ringtab_inv_def)
  obtain r' where r': "ringtab_put_item r = (Some (tail r * item_size r), r')" "ringtab_inv r'" "used r' = Suc (used r)"
      "r' = r\<lparr>tail := tail r', full := full r'\<rparr>"
    using put_item_spec [OF assms(1) room] by blast
  have "head r' = head r" "item_size r' = item_size r" by (subst r'(4), simp)+
  moreover have "tail r = head r" using used_facts(2) [OF assms(1)] assms by (simp add: ringtab_inv_def)
  ultimately show ?thesis using get_item_spec [OF r'(2)] r'(1,3) by simp
qed

text \<open>C34: on every well-formed table clean-up ends and releases exactly the slots from the first dirty one on, oldest first,
  up to the slot in use or, after the first release, the head, whichever comes first; so it releases nothing when there is
  no dirty slot and when the first dirty slot is the one in use.  \<open>ringtab_cleanup_all\<close> ends too, releases the same slots
  and then every queued item from the head on, also one that the consumer is using, and leaves an empty table of the same
  shape.\<close>

theorem ringtab_cleanup_releases:
  assumes "ringtab_inv r"
  shows "\<exists>d r'. ringtab_cleanup r = Some (slots r (dirty r) (dirty_items r), r\<lparr>dirty := d\<rparr>)
    \<and> d = (if dirty r = RINGTAB_ITEM_NONE \<or> 0 < dirty_items r \<and> (dirty r + int (dirty_items r)) mod n_items r = head r
           then RINGTAB_ITEM_NONE else in_use r)
    \<and> ringtab_cleanup_all r = Some (slots r (dirty r) (dirty_items r) @ slots r (head r) (used r), r')
    \<and> ringtab_inv r' \<and> ringtab_items r' = [] \<and> n_items r' = n_items r \<and> item_size r' = item_size r"
proof -
  obtain d where d: "ringtab_cleanup r = Some (slots r (dirty r) (dirty_items r), r\<lparr>dirty := d\<rparr>)" "ringtab_inv (r\<lparr>dirty := d\<rparr>)"
      "d = (if dirty r = RINGTAB_ITEM_NONE \<or> 0 < dirty_items r \<and> (dirty r + int (dirty_items r)) mod n_items r = head r
           then RINGTAB_ITEM_NONE else in_use r)"
    using cleanup_spec [OF assms] by blast
  obtain r2 where r2: "drain_loop (r\<lparr>dirty := d\<rparr>) = Some (slots r (head r) (used r), r2)" "n_items r2 = n_items r"
      "item_size r2 = item_size r" "length (rdata r2) = length (rdata r)"
    using drain_spec [OF d(2)] by (auto simp: used_def)
  let ?z = "ringtab_init r2 (n_items r) (item_size r)"
  have "ringtab_inv ?z"
    using assms r2(4) by (simp add: ringtab_inv_def ringtab_init_def RINGTAB_ITEM_NONE_def nat_mult_distrib mult.commute)
  moreover have "ringtab_items ?z = []"
    by (simp add: ringtab_items_def ringtab_init_def used_def chunks_def)
  moreover have "ringtab_cleanup_all r = Some (slots r (dirty r) (dirty_items r) @ slots r (head r) (used r), ?z)"
    using d(1) r2 by (simp add: ringtab_cleanup_all_def)
  ultimately show ?thesis
    using d(1,3) by (intro exI [of _ d] exI [of _ ?z] conjI) (simp_all only: ringtab_init_def, simp_all)
qed

theorem ringtab_cleanup_releases_witness:
  "\<exists>r'. ringtab_cleanup (ringtab_example\<lparr>in_use := 2, dirty := 1\<rparr>)
       = Some ([2], ringtab_example\<lparr>in_use := 2, dirty := RINGTAB_ITEM_NONE\<rparr>)
     \<and> ringtab_cleanup_all (ringtab_example\<lparr>in_use := 2, dirty := 1\<rparr>) = Some ([2, 4, 0], r')"
proof -
  let ?r = "ringtab_example\<lparr>in_use := 2, dirty := 1\<rparr>"
  have "ringtab_inv ?r" by (simp add: ringtab_example_def ringtab_inv_def)
  moreover have "dirty_items ?r = 1"
    by (simp add: dirty_items_def stops_def ringtab_example_def RINGTAB_ITEM_NONE_def numeral_eq_Suc)
  ultimately show ?thesis
    using ringtab_cleanup_releases [of ?r] by (auto simp: ringtab_example_def used_def numeral_eq_Suc)
qed

text \<open>\<open>ringtab_consume_item\<close> on a table whose items have all been consumed advances the head past
  the tail: the empty table then reports \<open>n_items - 1\<close> items and hands out a slot that holds none.\<close>

theorem ringtab_consume_empty:
  assumes "ringtab_inv r" "used r = 0" "in_use r = head r" "1 < n_items r"
  shows "\<exists>r' p. ringtab_consume_item r = (Some p, r') \<and> ringtab_items_used r' = n_items r - 1"
proof -
  let ?r = "ringtab_done_item r" and ?h = "(head r + 1) mod n_items r"
  have b: "0 < n_items r" "0 \<le> head r" "head r < n_items r" using assms(1) by (simp_all add: ringtab_inv_def)
  have d: "?r = r\<lparr>dirty := (if dirty r = RINGTAB_ITEM_NONE then head r else dirty r),
      in_use := ?h, head := ?h, full := False\<rparr>"
    using done_item_spec [OF assms(1)] assms(3) by simp
  have inv: "ringtab_inv ?r" unfolding d using assms(1) b by (auto simp: ringtab_inv_def neg1_le_mod)
  have "tail r = head r" using used_facts(2) [OF assms(1)] assms(2) b by simp
  moreover have "(?h + int (nat (n_items r - 1))) mod n_items r = head r"
    using b assms(4) by (simp add: mod_add_left_eq)
  ultimately have "used ?r = nat (n_items r - 1)"
    unfolding d using assms(4) b by (intro used_eqI) simp_all
  moreover from this have "ringtab_consume_item r = (Some (head ?r * item_size ?r), ?r\<lparr>in_use := head ?r\<rparr>)"
    using use_item_spec [OF inv] assms(4) by (simp add: ringtab_consume_item_def)
  moreover have "ringtab_inv (?r\<lparr>in_use := head ?r\<rparr>)" using inv by (auto simp: ringtab_inv_def)
  moreover have "used (?r\<lparr>in_use := head ?r\<rparr>) = used ?r" by (simp add: used_def)
  ultimately show ?thesis using items_used [of "?r\<lparr>in_use := head ?r\<rparr>"] assms(4) by simp
qed

theorem ringtab_consume_empty_witness:
  "ringtab_inv (ringtab_example\<lparr>head := 1, in_use := 1\<rparr>)
   \<and> (\<exists>r' p. ringtab_consume_item (ringtab_example\<lparr>head := 1, in_use := 1\<rparr>) = (Some p, r')
        \<and> ringtab_items_used r' = 3 - 1)"
  using ringtab_consume_empty [of "ringtab_example\<lparr>head := 1, in_use := 1\<rparr>"]
  by (simp add: ringtab_example_def ringtab_inv_def used_def)

abbreviation two_slots :: "int \<Rightarrow> int \<Rightarrow> int \<Rightarrow> int \<Rightarrow> bool \<Rightarrow> ringtab_hdr" where
  "two_slots h t d u f \<equiv> \<lparr>n_items = 2, item_size = 1, head = h, tail = t, dirty = d, in_use = u, full = f,
     rdata = [0, 0]\<rparr>"

text \<open>When the consumer has used all \<open>n_items\<close> items since the last clean-up, the first dirty slot
  coincides with \<open>in_use\<close>, and clean-up releases nothing: two items of a two-slot table are put,
  used and done, and the clean-up that follows leaves both unreleased.\<close>

theorem ringtab_dirty_wrap_leaks:
  "\<exists>r0 r1 r2 r3 r4 r5 r6. r0 = ringtab_init (two_slots 0 0 0 0 False) 2 1
     \<and> ringtab_put_item r0 = (Some 0, r1) \<and> ringtab_put_item r1 = (Some 1, r2)
     \<and> ringtab_use_item r2 = (Some 0, r3) \<and> ringtab_use_item (ringtab_done_item r3) = (Some 1, r4)
     \<and> ringtab_done_item r4 = r5 \<and> dirty r5 = 0 \<and> ringtab_items_used r5 = 0
     \<and> ringtab_cleanup r5 = Some ([], r6) \<and> r6 = r5"
proof -
  note defs = ringtab_put_item_def ringtab_use_item_def ringtab_done_item_def
    ringtab_items_used_def RINGTAB_ITEM_NONE_def i16_def crem_def Let_def
  have "ringtab_init (two_slots 0 0 0 0 False) 2 1 = two_slots 0 0 (-1) (-1) False"
    by (simp add: ringtab_init_def RINGTAB_ITEM_NONE_def replicate_numeral_Cons)
  moreover have "ringtab_put_item (two_slots 0 0 (-1) (-1) False) = (Some 0, two_slots 0 1 (-1) (-1) False)"
    by (simp add: defs)
  moreover have "ringtab_put_item (two_slots 0 1 (-1) (-1) False) = (Some 1, two_slots 0 0 (-1) (-1) True)"
    by (simp add: defs)
  moreover have "ringtab_use_item (two_slots 0 0 (-1) (-1) True) = (Some 0, two_slots 0 0 (-1) 0 True)"
    by (simp add: defs)
  moreover have "ringtab_done_item (two_slots 0 0 (-1) 0 True) = two_slots 1 0 0 1 False" by (simp add: defs)
  moreover have "ringtab_use_item (two_slots 1 0 0 1 False) = (Some 1, two_slots 1 0 0 1 False)"
    by (simp add: defs)
  moreover have "ringtab_done_item (two_slots 1 0 0 1 False) = two_slots 0 0 0 0 False" by (simp add: defs)
  moreover have "ringtab_items_used (two_slots 0 0 0 0 False) = 0" by (simp add: defs)
  moreover have "ringtab_cleanup (two_slots 0 0 0 0 False) = Some ([], two_slots 0 0 0 0 False)"
    by (rule cleanup_nothing) simp
  ultimately show ?thesis by auto
qed

end
