(* ===== verification/Heap_Order.thy ===== *)
theory Heap_Order
  imports Prelude "HOL-Library.Multiset"
begin

text \<open>
  Binary heaps in arrays, as an interface: the parent of cell \<open>i\<close> is \<open>(i - 1) div 2\<close>.  The locale
  \<open>percolation\<close> states what an implementation promises of its order and of its two repair loops,
  by their recursion equations; the repair lemmas are proved once and hold of every heap in the
  sources that interprets it.
\<close>

definition parent :: "nat \<Rightarrow> nat" where
  "parent i = (i - 1) div 2"

definition exch :: "'a list \<Rightarrow> nat \<Rightarrow> nat \<Rightarrow> 'a list" where
  "exch xs i j = xs[i := xs ! j, j := xs ! i]"

lemma nth_exch:
  assumes "a < length xs" and "b < length xs"
  shows "exch xs a b ! c = xs ! (if c = b then a else if c = a then b else c)"
  using assms by (auto simp: exch_def nth_list_update)

lemma length_exch [simp]: "length (exch ys a b) = length ys"
  unfolding exch_def by simp

lemma mset_exch_take:
  "i < m \<Longrightarrow> j < m \<Longrightarrow> m \<le> length xs \<Longrightarrow> mset (take m (exch xs i j)) = mset (take m xs)"
  using mset_swap [of j "take m xs" i] by (simp add: exch_def take_update_swap)

lemma parent_child: "0 < c \<Longrightarrow> parent c = n \<longleftrightarrow> c = 2 * n + 1 \<or> c = 2 * n + 2"
  by (cases c) (auto simp: parent_def)

lemma parent_less: "0 < c \<Longrightarrow> parent c < c"
  by (simp add: parent_def)

locale heap_order =
  fixes le :: "'a \<Rightarrow> 'a \<Rightarrow> bool"
  assumes total: "le a b \<or> le b a"
    and trans: "le a b \<Longrightarrow> le b c \<Longrightarrow> le a c"
begin

lemma le_refl [simp]: "le a a"
  using total by blast

text \<open>The first \<open>m\<close> cells form a heap.\<close>

definition heap_on :: "nat \<Rightarrow> 'a list \<Rightarrow> bool" where
  "heap_on m xs \<longleftrightarrow> (\<forall>i < m. 0 < i \<longrightarrow> le (xs ! parent i) (xs ! i))"

lemma heap_onD: "heap_on m xs \<Longrightarrow> i < m \<Longrightarrow> 0 < i \<Longrightarrow> le (xs ! parent i) (xs ! i)"
  by (simp add: heap_on_def)

lemma heap_root_min: "heap_on m xs \<Longrightarrow> i < m \<Longrightarrow> le (xs ! 0) (xs ! i)"
proof (induction i rule: less_induct)
  case (less i)
  show ?case
  proof (cases "i = 0")
    case False
    then have "parent i < i" by (simp add: parent_less)
    then have "le (xs ! 0) (xs ! parent i)" using less by simp
    moreover have "le (xs ! parent i) (xs ! i)" using False less.prems by (intro heap_onD) auto
    ultimately show ?thesis by (rule trans)
  qed simp
qed

lemma heap_on_mono: "heap_on m xs \<Longrightarrow> k \<le> m \<Longrightarrow> heap_on k xs"
  by (simp add: heap_on_def)

lemma heap_on_cong: "heap_on m xs \<Longrightarrow> (\<And>i. i < m \<Longrightarrow> ys ! i = xs ! i) \<Longrightarrow> heap_on m ys"
proof -
  assume h: "heap_on m xs" and eq: "\<And>i. i < m \<Longrightarrow> ys ! i = xs ! i"
  have "le (ys ! parent i) (ys ! i)" if "i < m" "0 < i" for i
    using heap_onD [OF h that] eq [of i] eq [of "parent i"] parent_less [OF that(2)] that by simp
  then show ?thesis by (simp add: heap_on_def)
qed

text \<open>A heap except around one cell: while an element moves up, and while one moves down.\<close>

definition up_inv :: "nat \<Rightarrow> 'a list \<Rightarrow> nat \<Rightarrow> bool" where
  "up_inv m xs n \<longleftrightarrow> (\<forall>i < m. 0 < i \<longrightarrow> i \<noteq> n \<longrightarrow> le (xs ! parent i) (xs ! i))
     \<and> (\<forall>i < m. 0 < i \<longrightarrow> parent i = n \<longrightarrow> 0 < n \<longrightarrow> le (xs ! parent n) (xs ! i))"

definition down_inv :: "nat \<Rightarrow> 'a list \<Rightarrow> nat \<Rightarrow> bool" where
  "down_inv m xs n \<longleftrightarrow> (\<forall>i < m. 0 < i \<longrightarrow> parent i \<noteq> n \<longrightarrow> le (xs ! parent i) (xs ! i))
     \<and> (\<forall>i < m. 0 < i \<longrightarrow> parent i = n \<longrightarrow> 0 < n \<longrightarrow> le (xs ! parent n) (xs ! i))"

lemma heap_on_imp_down_inv: "heap_on m xs \<Longrightarrow> down_inv m (xs[0 := x]) 0"
proof -
  assume h: "heap_on m xs"
  have "le (xs[0 := x] ! parent i) (xs[0 := x] ! i)" if "i < m" "0 < i" "parent i \<noteq> 0" for i
    using heap_onD [OF h that(1,2)] that by (simp add: nth_list_update)
  then show ?thesis by (simp add: down_inv_def)
qed

lemma heap_on_imp_up_inv:
  assumes "heap_on n xs" "\<And>i. i < n \<Longrightarrow> ys ! i = xs ! i"
  shows "up_inv (Suc n) ys n"
proof -
  have "heap_on n ys" using heap_on_cong [OF assms] .
  then show ?thesis
    unfolding up_inv_def by (auto simp: less_Suc_eq heap_onD dest: parent_less)
qed

lemma up_step:
  assumes "up_inv m xs n" "n < m" "m \<le> length xs" "0 < n" "le (xs ! n) (xs ! parent n)"
  shows "up_inv m (exch xs (parent n) n) (parent n)"
proof -
  let ?p = "parent n" and ?ys = "exch xs (parent n) n"
  have pn: "?p < n" using assms(4) by (rule parent_less)
  have nth: "?ys ! k = (if k = ?p then xs ! n else if k = n then xs ! ?p else xs ! k)" for k
    using pn assms(2,3) by (auto simp: nth_exch)
  have A: "le (xs ! parent i) (xs ! i)" if "i < m" "0 < i" "i \<noteq> n" for i
    using assms(1) that by (simp add: up_inv_def)
  have B: "le (xs ! ?p) (xs ! i)" if "i < m" "0 < i" "parent i = n" for i
    using assms(1,4) that by (simp add: up_inv_def)
  have "le (?ys ! parent i) (?ys ! i)" if i: "i < m" "0 < i" "i \<noteq> ?p" for i
  proof (cases "i = n")
    case True
    then show ?thesis using assms(5) pn by (simp add: nth)
  next
    case False
    consider "parent i = n" | "parent i = ?p" | "parent i \<noteq> n" "parent i \<noteq> ?p" by blast
    then show ?thesis
    proof cases
      case 1
      then show ?thesis using B i False pn by (simp add: nth)
    next
      case 2
      then show ?thesis using trans [OF assms(5)] A [OF i(1,2) False] i(3) False by (simp add: nth)
    next
      case 3
      then show ?thesis using A [OF i(1,2) False] i(3) False by (simp add: nth)
    qed
  qed
  moreover have "le (?ys ! parent ?p) (?ys ! i)" if i: "i < m" "0 < i" "parent i = ?p" "0 < ?p" for i
  proof -
    have pp: "parent ?p \<noteq> ?p" "parent ?p \<noteq> n" using i(4) pn parent_less [OF i(4)] by linarith+
    have g: "le (xs ! parent ?p) (xs ! ?p)" using A [of ?p] i(4) pn assms(2) by simp
    show ?thesis
    proof (cases "i = n")
      case True
      then show ?thesis using g pp pn by (simp add: nth)
    next
      case False
      moreover have "i \<noteq> ?p" using i(3) pp(1) by auto
      ultimately show ?thesis using trans [OF g] A [OF i(1,2) False] i(3) pp by (simp add: nth)
    qed
  qed
  ultimately show ?thesis by (simp add: up_inv_def)
qed

lemma up_stop:
  assumes "up_inv m xs n" "n = 0 \<or> le (xs ! parent n) (xs ! n)"
  shows "heap_on m xs"
proof -
  have "le (xs ! parent i) (xs ! i)" if "i < m" "0 < i" for i
    using assms that by (cases "i = n") (simp_all add: up_inv_def)
  then show ?thesis by (simp add: heap_on_def)
qed

lemma down_step:
  assumes "down_inv m xs n" "n < m" "m \<le> length xs" "c < m" "c = 2 * n + 1 \<or> c = 2 * n + 2"
    and "\<And>d. d \<in> {n, 2 * n + 1, 2 * n + 2} \<Longrightarrow> d < m \<Longrightarrow> le (xs ! c) (xs ! d)"
  shows "down_inv m (exch xs c n) c"
proof -
  let ?ys = "exch xs c n"
  have pc: "parent c = n" "0 < c" "n < c" using assms(5) by (auto simp: parent_def)
  have nth: "?ys ! k = (if k = c then xs ! n else if k = n then xs ! c else xs ! k)" for k
    using assms(2-4) by (auto simp: nth_exch)
  have A: "le (xs ! parent i) (xs ! i)" if "i < m" "0 < i" "parent i \<noteq> n" for i
    using assms(1) that by (simp add: down_inv_def)
  have B: "le (xs ! parent n) (xs ! i)" if "i < m" "0 < i" "parent i = n" "0 < n" for i
    using assms(1) that by (simp add: down_inv_def)
  have "le (?ys ! parent i) (?ys ! i)" if i: "i < m" "0 < i" "parent i \<noteq> c" for i
  proof (cases "parent i = n")
    case True
    then have "i = 2 * n + 1 \<or> i = 2 * n + 2" using parent_child [OF i(2), of n] by simp
    then have "i \<noteq> n" "le (xs ! c) (xs ! i)" "le (xs ! c) (xs ! n)"
      using assms(6) [of i] assms(6) [of n] assms(2) i(1) by auto
    then show ?thesis using True pc by (simp add: nth)
  next
    case False
    then have "i \<noteq> c" using pc(1) by blast
    show ?thesis
    proof (cases "i = n")
      case True
      then have "parent n \<noteq> n" "parent n \<noteq> c" "0 < n" using i(2) pc parent_less [of n] by auto
      then show ?thesis using True B [OF assms(4) pc(2,1)] \<open>i \<noteq> c\<close> by (simp add: nth)
    qed (use A [OF i(1,2) False] False i(3) \<open>i \<noteq> c\<close> in \<open>simp add: nth\<close>)
  qed
  moreover have "le (?ys ! parent c) (?ys ! i)" if i: "i < m" "0 < i" "parent i = c" for i
  proof -
    have "i \<noteq> c" "i \<noteq> n" using i(2,3) pc parent_less [of i] by auto
    moreover have "parent i \<noteq> n" using i(3) pc by simp
    ultimately show ?thesis using A [OF i(1,2)] i(3) pc by (simp add: nth)
  qed
  ultimately show ?thesis by (simp add: down_inv_def)
qed

lemma down_stop:
  assumes "down_inv m xs n" "\<And>d. d \<in> {2 * n + 1, 2 * n + 2} \<Longrightarrow> d < m \<Longrightarrow> le (xs ! n) (xs ! d)"
  shows "heap_on m xs"
proof -
  have "le (xs ! parent i) (xs ! i)" if "i < m" "0 < i" for i
  proof (cases "parent i = n")
    case True
    then show ?thesis using parent_child [OF that(2), of n] assms(2) that(1) by auto
  qed (use assms(1) that in \<open>simp add: down_inv_def\<close>)
  then show ?thesis by (simp add: heap_on_def)
qed

end

section \<open>The repair loops\<close>

text \<open>\<open>up xs n\<close> moves the element of cell \<open>n\<close> up, \<open>down xs m n\<close> moves it down among the first \<open>m\<close>
  cells, \<open>pick xs m n\<close> is the cell of the least of \<open>n\<close> and its children.\<close>

locale percolation = heap_order +
  fixes stop :: "'a \<Rightarrow> 'a \<Rightarrow> bool" and pick :: "'a list \<Rightarrow> nat \<Rightarrow> nat \<Rightarrow> nat"
    and up :: "'a list \<Rightarrow> nat \<Rightarrow> 'a list" and down :: "'a list \<Rightarrow> nat \<Rightarrow> nat \<Rightarrow> 'a list"
  assumes stop_le: "stop a b \<Longrightarrow> le a b"
    and not_stop: "\<not> stop a b \<Longrightarrow> le b a"
    and pick_child: "n < m \<Longrightarrow> pick xs m n = n \<or> pick xs m n < m \<and> pick xs m n \<in> {2 * n + 1, 2 * n + 2}"
    and pick_least: "n < m \<Longrightarrow> d \<in> {n, 2 * n + 1, 2 * n + 2} \<Longrightarrow> d < m \<Longrightarrow> le (xs ! pick xs m n) (xs ! d)"
    and up_eq: "up xs n = (if n = 0 \<or> stop (xs ! parent n) (xs ! n) then xs
                          else up (exch xs (parent n) n) (parent n))"
    and down_eq: "n < m \<Longrightarrow> down xs m n = (if pick xs m n = n then xs
                                        else down (exch xs (pick xs m n) n) m (pick xs m n))"
begin

lemma up_correct:
  "n < m \<Longrightarrow> m \<le> length xs \<Longrightarrow> up_inv m xs n \<Longrightarrow>
     heap_on m (up xs n) \<and> length (up xs n) = length xs \<and> mset (take m (up xs n)) = mset (take m xs)
     \<and> (\<forall>i. n < i \<longrightarrow> up xs n ! i = xs ! i)"
proof (induction n arbitrary: xs rule: less_induct)
  case (less n)
  show ?case
  proof (cases "n = 0 \<or> stop (xs ! parent n) (xs ! n)")
    case True
    then have "up xs n = xs" by (simp add: up_eq [of xs n])
    moreover have "heap_on m xs" using True less.prems(3) stop_le by (intro up_stop) blast+
    ultimately show ?thesis by simp
  next
    case False
    then have n: "0 < n" "parent n < n" by (auto simp: parent_less)
    let ?ys = "exch xs (parent n) n"
    have eq: "up xs n = up ?ys (parent n)" using False by (subst up_eq) (simp only: if_False)
    have "up_inv m ?ys (parent n)" using False less.prems n(1) not_stop by (intro up_step) simp_all
    then have IH: "heap_on m (up ?ys (parent n))" "length (up ?ys (parent n)) = length ?ys"
      "mset (take m (up ?ys (parent n))) = mset (take m ?ys)" "\<And>i. parent n < i \<Longrightarrow> up ?ys (parent n) ! i = ?ys ! i"
      using less.IH [OF n(2), of ?ys] less.prems n by auto
    moreover have "?ys ! i = xs ! i" if "n < i" for i
      using that n less.prems(1,2) by (subst nth_exch) auto
    moreover have "mset (take m ?ys) = mset (take m xs)" using n less.prems by (intro mset_exch_take) simp_all
    ultimately show ?thesis using eq n by simp
  qed
qed

lemma down_correct:
  "n < m \<Longrightarrow> m \<le> length xs \<Longrightarrow> down_inv m xs n \<Longrightarrow>
     heap_on m (down xs m n) \<and> length (down xs m n) = length xs
     \<and> mset (take m (down xs m n)) = mset (take m xs) \<and> (\<forall>i \<ge> m. down xs m n ! i = xs ! i)"
proof (induction "m - n" arbitrary: n xs rule: less_induct)
  case less
  let ?c = "pick xs m n"
  show ?case
  proof (cases "?c = n")
    case True
    then have "down xs m n = xs" using less.prems(1) by (simp add: down_eq)
    moreover have "heap_on m xs"
      using less.prems(3) pick_least [OF less.prems(1), of _ xs] True by (intro down_stop) auto
    ultimately show ?thesis by simp
  next
    case False
    then have c: "?c < m" "?c = 2 * n + 1 \<or> ?c = 2 * n + 2" "n < ?c"
      using pick_child [OF less.prems(1), of xs] by auto
    let ?ys = "exch xs ?c n"
    have eq: "down xs m n = down ?ys m ?c" using down_eq [OF less.prems(1), of xs] False by simp
    have "down_inv m ?ys ?c"
      by (rule down_step) (use less.prems c pick_least [OF less.prems(1), of _ xs] in auto)
    then have "heap_on m (down ?ys m ?c) \<and> length (down ?ys m ?c) = length ?ys
        \<and> mset (take m (down ?ys m ?c)) = mset (take m ?ys) \<and> (\<forall>i \<ge> m. down ?ys m ?c ! i = ?ys ! i)"
      using c less.prems by (intro less.hyps) auto
    moreover have "?ys ! i = xs ! i" if "m \<le> i" for i
      using that c less.prems(1,2) by (subst nth_exch) auto
    moreover have "mset (take m ?ys) = mset (take m xs)"
      using c less.prems by (intro mset_exch_take) simp_all
    ultimately show ?thesis using eq by simp
  qed
qed

text \<open>Adding an element behind a heap, and replacing the root of one by its last element.\<close>

lemma push_correct:
  assumes "heap_on n xs" "n < length xs"
  shows "heap_on (Suc n) (up xs n) \<and> length (up xs n) = length xs
    \<and> mset (take (Suc n) (up xs n)) = add_mset (xs ! n) (mset (take n xs))"
proof -
  have "mset (take (Suc n) xs) = add_mset (xs ! n) (mset (take n xs))"
    using assms(2) by (simp add: take_Suc_conv_app_nth)
  then show ?thesis
    using up_correct [of n "Suc n" xs] heap_on_imp_up_inv [OF assms(1), of xs] assms(2) by simp
qed

lemma pop_correct:
  assumes "heap_on (Suc n) xs" "0 < n" "n < length xs"
  defines "ys \<equiv> down (xs[0 := xs ! n]) n 0"
  shows "heap_on n ys \<and> length ys = length xs \<and> add_mset (xs ! 0) (mset (take n ys)) = mset (take (Suc n) xs)
    \<and> (\<forall>i \<ge> n. ys ! i = xs ! i)"
proof -
  have d: "down_inv n (xs[0 := xs ! n]) 0"
    using heap_on_mono [OF assms(1), of n] by (intro heap_on_imp_down_inv) simp
  have "mset (take n (xs[0 := xs ! n])) = add_mset (xs ! n) (mset (take n xs) - {#xs ! 0#})"
    using assms(2,3) mset_update [of 0 "take n xs" "xs ! n"] by (simp add: take_update_swap)
  moreover have "xs ! 0 \<in># mset (take n xs)" using assms(2,3) by (auto simp: in_set_conv_nth)
  ultimately have "add_mset (xs ! 0) (mset (take n (xs[0 := xs ! n]))) = mset (take (Suc n) xs)"
    using assms(3) by (simp add: take_Suc_conv_app_nth)
  then show ?thesis
    using down_correct [OF assms(2) _ d] assms(2,3) by (simp add: ys_def)
qed

end

end
