(* ===== verification/Heap.thy ===== *)
theory Heap
  imports Heap_Order
begin

text \<open>
  The priority queue of \<open>src/heap/heap.c\<close>: a binary heap of pointers ordered by a callback.  The
  array \<open>elts\<close> is modelled by its written cells, a prefix of the \<open>capacity\<close> cells allocated; cells
  behind \<open>size\<close> keep stale pointers, as in the code.  The callback with its parameter is the field
  \<open>less\<close>; \<open>calloc\<close> and \<open>realloc\<close> are parameters that say whether the allocation succeeds; a failed
  \<open>assert\<close> is \<open>None\<close>.
\<close>

section \<open>The code\<close>

record 'a heap =
  elts :: "'a list"
  hsize :: nat
  capacity :: nat
  less :: "'a \<Rightarrow> 'a \<Rightarrow> bool"

definition heap_create :: "bool \<Rightarrow> ('a \<Rightarrow> 'a \<Rightarrow> bool) \<Rightarrow> 'a heap option" where
  "heap_create calloc compare =
     (if calloc then Some \<lparr>elts = [], hsize = 0, capacity = 0, less = compare\<rparr> else None)"

definition heap_destroy :: "'a heap \<Rightarrow> unit option" where
  "heap_destroy heap = (if elts heap \<noteq> [] \<and> \<not> capacity heap > 0 then None else Some ())"

definition heap_reserve :: "(nat \<Rightarrow> bool) \<Rightarrow> 'a heap \<Rightarrow> nat \<Rightarrow> 'a heap" where
  "heap_reserve realloc heap n =
     (if capacity heap < n then if realloc n then heap\<lparr>capacity := n\<rparr> else heap else heap)"

definition heap_size :: "'a heap \<Rightarrow> nat" where
  "heap_size heap = hsize heap"

definition heap_empty :: "'a heap \<Rightarrow> bool" where
  "heap_empty heap = (hsize heap = 0)"

definition heap_top :: "'a heap \<Rightarrow> 'a option" where
  "heap_top heap = (if hsize heap < 1 then None else Some (elts heap ! 0))"

definition heap_get :: "'a heap \<Rightarrow> int \<Rightarrow> 'a option" where
  "heap_get heap index =
     (if index < 0 \<or> index \<ge> int (hsize heap) then None else Some (elts heap ! nat index))"

definition heap_swap :: "'a list \<Rightarrow> nat \<Rightarrow> nat \<Rightarrow> 'a list" where
  "heap_swap xs l r = (let elt = xs ! l; xs = xs[l := xs ! r] in xs[r := elt])"

fun percolate_up_loop :: "('a \<Rightarrow> 'a \<Rightarrow> bool) \<Rightarrow> 'a list \<Rightarrow> nat \<Rightarrow> 'a list" where
  "percolate_up_loop lt xs n =
     (if n > 0
      then let p = (n - 1) div 2
           in if lt (xs ! p) (xs ! n) then xs else percolate_up_loop lt (heap_swap xs p n) p
      else xs)"

definition heap_percolate_up :: "'a heap \<Rightarrow> 'a heap option" where
  "heap_percolate_up heap =
     (if hsize heap > 0
      then Some (heap\<lparr>elts := percolate_up_loop (less heap) (elts heap) (hsize heap - 1)\<rparr>) else None)"

text \<open>The inner loop over the two children, and the outer loop; \<open>m\<close> is \<open>size - 1\<close>.\<close>

function child_loop :: "('a \<Rightarrow> 'a \<Rightarrow> bool) \<Rightarrow> 'a list \<Rightarrow> nat \<Rightarrow> nat \<Rightarrow> nat \<Rightarrow> nat \<Rightarrow> nat" where
  "child_loop lt xs m n c least =
     (if c < m \<and> c < n * 2 + 3
      then child_loop lt xs m n (c + 1) (if lt (xs ! c) (xs ! least) then c else least)
      else least)"
  by auto
termination by (relation "measure (\<lambda>(_, _, _, n, c, _). n * 2 + 3 - c)") auto

lemma child_loop_unfold:
  "child_loop lt xs m n (n * 2 + 1) n =
     (let l = (if n * 2 + 1 < m \<and> lt (xs ! (n * 2 + 1)) (xs ! n) then n * 2 + 1 else n)
      in if n * 2 + 2 < m \<and> lt (xs ! (n * 2 + 2)) (xs ! l) then n * 2 + 2 else l)"
proof -
  have 3: "child_loop lt xs m n (n * 2 + 2 + 1) a = a" for a by (subst child_loop.simps) simp
  have 2: "child_loop lt xs m n (n * 2 + 2) a
      = (if n * 2 + 2 < m \<and> lt (xs ! (n * 2 + 2)) (xs ! a) then n * 2 + 2 else a)" for a
    by (subst child_loop.simps, subst 3) simp
  have s: "n * 2 + 1 + 1 = n * 2 + 2" by simp
  show ?thesis
    by (subst child_loop.simps, subst s, subst 2) (simp add: Let_def)
qed

declare child_loop.simps [simp del]

lemma child_loop_cases:
  "child_loop lt xs m n (n * 2 + 1) n = n
   \<or> child_loop lt xs m n (n * 2 + 1) n < m \<and> child_loop lt xs m n (n * 2 + 1) n \<in> {2 * n + 1, 2 * n + 2}"
  unfolding child_loop_unfold by (auto simp: Let_def)

function percolate_down_loop :: "('a \<Rightarrow> 'a \<Rightarrow> bool) \<Rightarrow> 'a list \<Rightarrow> nat \<Rightarrow> nat \<Rightarrow> 'a list" where
  "percolate_down_loop lt xs m n =
     (if n < m
      then let least = child_loop lt xs m n (n * 2 + 1) n
           in if n = least then xs else percolate_down_loop lt (heap_swap xs least n) m least
      else xs)"
  by auto
termination
proof (relation "measure (\<lambda>(_, _, m, n). m - n)")
  fix lt :: "'a \<Rightarrow> 'a \<Rightarrow> bool" and xs :: "'a list" and m n least :: nat
  assume "n < m" "least = child_loop lt xs m n (n * 2 + 1) n" "n \<noteq> least"
  then have "n < least" "least < m" using child_loop_cases [of lt xs m n] by auto
  then show "((lt, heap_swap xs least n, m, least), lt, xs, m, n) \<in> measure (\<lambda>(_, _, m, n). m - n)" by simp
qed simp

definition heap_percolate_down :: "'a heap \<Rightarrow> 'a heap option" where
  "heap_percolate_down heap =
     (if hsize heap > 0
      then let xs = (elts heap)[0 := elts heap ! (hsize heap - 1)]
           in Some (heap\<lparr>elts := percolate_down_loop (less heap) xs (hsize heap - 1) 0\<rparr>)
      else None)"

definition heap_push :: "(nat \<Rightarrow> bool) \<Rightarrow> 'a heap \<Rightarrow> 'a \<Rightarrow> (int \<times> 'a heap) option" where
  "heap_push realloc heap ptr =
     (let heap = (if hsize heap + 1 \<ge> capacity heap then heap_reserve realloc heap (hsize heap + 2014) else heap)
      in if hsize heap + 1 \<ge> capacity heap then Some (- 12, heap)
         else let heap = heap\<lparr>elts := (if hsize heap < length (elts heap) then (elts heap)[hsize heap := ptr]
                                       else elts heap @ [ptr]),
                              hsize := hsize heap + 1\<rparr>
              in do { heap \<leftarrow> heap_percolate_up heap; Some (0, heap) })"

definition heap_pop :: "'a heap \<Rightarrow> 'a heap option" where
  "heap_pop heap =
     (if hsize heap < 1 then Some heap
      else do { heap \<leftarrow> heap_percolate_down heap; Some (heap\<lparr>hsize := hsize heap - 1\<rparr>) })"

declare percolate_up_loop.simps [simp del] percolate_down_loop.simps [simp del]

section \<open>The order\<close>

lemma heap_swap_exch: "heap_swap xs l r = exch xs l r"
  by (simp add: heap_swap_def exch_def Let_def)

text \<open>What the code relies on of its callback: a strict weak order.\<close>

locale strict_weak_order =
  fixes lt :: "'a \<Rightarrow> 'a \<Rightarrow> bool"
  assumes asym: "lt a b \<Longrightarrow> \<not> lt b a"
    and negtrans: "\<not> lt b a \<Longrightarrow> \<not> lt c b \<Longrightarrow> \<not> lt c a"
begin

lemma child_loop_least:
  assumes "n < m" "d \<in> {n, 2 * n + 1, 2 * n + 2}" "d < m"
  shows "\<not> lt (xs ! d) (xs ! child_loop lt xs m n (n * 2 + 1) n)"
proof -
  define l where "l = (if n * 2 + 1 < m \<and> lt (xs ! (n * 2 + 1)) (xs ! n) then n * 2 + 1 else n)"
  define r where "r = (if n * 2 + 2 < m \<and> lt (xs ! (n * 2 + 2)) (xs ! l) then n * 2 + 2 else l)"
  have irrefl: "\<not> lt a a" for a using asym by blast
  have l: "\<not> lt (xs ! n) (xs ! l)" "n * 2 + 1 < m \<Longrightarrow> \<not> lt (xs ! (n * 2 + 1)) (xs ! l)"
    using asym irrefl by (auto simp: l_def)
  have up: "\<not> lt (xs ! x) (xs ! r)" if "\<not> lt (xs ! x) (xs ! l)" for x
    using that negtrans [of "xs ! l" "xs ! r" "xs ! x"] asym [of "xs ! r" "xs ! l"] by (auto simp: r_def)
  have "n * 2 + 2 < m \<Longrightarrow> \<not> lt (xs ! (n * 2 + 2)) (xs ! r)" using irrefl by (auto simp: r_def)
  moreover have "child_loop lt xs m n (n * 2 + 1) n = r" unfolding child_loop_unfold Let_def r_def l_def ..
  ultimately show ?thesis using up [OF l(1)] up [OF l(2)] assms by (auto simp: mult.commute)
qed

end

sublocale strict_weak_order \<subseteq> percolation "\<lambda>a b. \<not> lt b a" lt
  "\<lambda>xs m n. child_loop lt xs m n (n * 2 + 1) n" "percolate_up_loop lt" "percolate_down_loop lt"
proof
  fix a b c :: 'a
  show "\<not> lt b a \<or> \<not> lt a b" using asym by blast
  show "\<not> lt b a \<Longrightarrow> \<not> lt c b \<Longrightarrow> \<not> lt c a" by (rule negtrans)
  show "lt a b \<Longrightarrow> \<not> lt b a" by (rule asym)
  show "\<not> lt a b \<Longrightarrow> \<not> lt a b" .
next
  fix n m :: nat and xs :: "'a list"
  assume "n < m"
  show "child_loop lt xs m n (n * 2 + 1) n = n \<or> child_loop lt xs m n (n * 2 + 1) n < m
      \<and> child_loop lt xs m n (n * 2 + 1) n \<in> {2 * n + 1, 2 * n + 2}" by (rule child_loop_cases)
next
  fix n m d :: nat and xs :: "'a list"
  assume "n < m" "d \<in> {n, 2 * n + 1, 2 * n + 2}" "d < m"
  then show "\<not> lt (xs ! d) (xs ! child_loop lt xs m n (n * 2 + 1) n)"
    by (rule child_loop_least)
next
  fix n :: nat and xs :: "'a list"
  show "percolate_up_loop lt xs n = (if n = 0 \<or> lt (xs ! parent n) (xs ! n) then xs
      else percolate_up_loop lt (exch xs (parent n) n) (parent n))"
    by (subst percolate_up_loop.simps) (simp add: parent_def heap_swap_exch Let_def)
next
  fix n m :: nat and xs :: "'a list"
  assume "n < m"
  then show "percolate_down_loop lt xs m n = (if child_loop lt xs m n (n * 2 + 1) n = n then xs
      else percolate_down_loop lt (exch xs (child_loop lt xs m n (n * 2 + 1) n) n) m
             (child_loop lt xs m n (n * 2 + 1) n))"
    by (subst percolate_down_loop.simps) (simp add: heap_swap_exch Let_def)
qed

section \<open>Invariant and contents\<close>

definition heap_inv :: "'a heap \<Rightarrow> bool" where
  "heap_inv h \<longleftrightarrow> hsize h \<le> length (elts h) \<and> length (elts h) \<le> capacity h
     \<and> (\<forall>i < hsize h. 0 < i \<longrightarrow> \<not> less h (elts h ! i) (elts h ! ((i - 1) div 2)))"

definition contents :: "'a heap \<Rightarrow> 'a multiset" where
  "contents h = mset (take (hsize h) (elts h))"

context strict_weak_order
begin

lemma heap_inv_heap_on:
  "less h = lt \<Longrightarrow> heap_inv h \<longleftrightarrow> hsize h \<le> length (elts h) \<and> length (elts h) \<le> capacity h \<and> heap_on (hsize h) (elts h)"
  by (simp add: heap_inv_def heap_on_def parent_def)

lemma size_contents: "heap_inv h \<Longrightarrow> size (contents h) = hsize h"
  by (simp add: contents_def heap_inv_def)

lemma push_spec:
  assumes lt: "less h = lt" and inv: "heap_inv h"
  shows "\<exists>r h'. heap_push realloc h x = Some (r, h') \<and> heap_inv h' \<and> less h' = lt
    \<and> (if hsize h + 1 < capacity h \<or> realloc (hsize h + 2014)
       then r = 0 \<and> contents h' = add_mset x (contents h) else r = - 12 \<and> h' = h)"
proof -
  have i: "hsize h \<le> length (elts h)" "length (elts h) \<le> capacity h" "heap_on (hsize h) (elts h)"
    using inv lt by (simp_all add: heap_inv_heap_on)
  define g where "g = (if hsize h + 1 \<ge> capacity h then heap_reserve realloc h (hsize h + 2014) else h)"
  have g: "hsize g = hsize h" "elts g = elts h" "less g = lt" "capacity h \<le> capacity g"
    using lt by (auto simp: g_def heap_reserve_def)
  have room: "hsize h + 1 < capacity g \<longleftrightarrow> hsize h + 1 < capacity h \<or> realloc (hsize h + 2014)"
    by (auto simp: g_def heap_reserve_def)
  show ?thesis
  proof (cases "hsize h + 1 < capacity g")
    case False
    then have "heap_push realloc h x = Some (- 12, g)" unfolding heap_push_def Let_def g_def [symmetric] using g(1) by simp
    moreover have "g = h" using False room by (auto simp: g_def heap_reserve_def)
    ultimately show ?thesis using False room inv lt by auto
  next
    case True
    define ys where "ys = (if hsize h < length (elts h) then (elts h)[hsize h := x] else elts h @ [x])"
    have ys: "ys ! hsize h = x" "hsize h < length ys" "\<And>i. i < hsize h \<Longrightarrow> ys ! i = elts h ! i"
      "take (hsize h) ys = take (hsize h) (elts h)" "length ys \<le> max (length (elts h)) (Suc (hsize h))"
      using i(1) by (auto simp: ys_def nth_append)
    have hp: "heap_on (hsize h) ys" using i(3) ys(3) by (rule heap_on_cong)
    note up = push_correct [OF hp ys(2)]
    define h' where "h' = g\<lparr>elts := percolate_up_loop lt ys (hsize h), hsize := hsize h + 1\<rparr>"
    have "heap_push realloc h x = Some (0, h')"
      using True g unfolding heap_push_def Let_def g_def [symmetric] h'_def ys_def
      by (simp add: heap_percolate_up_def)
    moreover have "heap_inv h'"
      using up ys(2,5) i(2) True g(3,4) by (simp add: heap_inv_heap_on h'_def)
    moreover have "contents h' = add_mset x (contents h)"
      using up ys(1,4) by (simp add: contents_def h'_def)
    moreover have "less h' = lt" using g(3) by (simp add: h'_def)
    ultimately show ?thesis using True room by auto
  qed
qed

lemma pop_spec:
  assumes lt: "less h = lt" and inv: "heap_inv h" and ne: "0 < hsize h"
  shows "\<exists>x h'. heap_top h = Some x \<and> heap_pop h = Some h' \<and> heap_inv h' \<and> less h' = lt
    \<and> contents h = add_mset x (contents h') \<and> hsize h' = hsize h - 1 \<and> (\<forall>y \<in># contents h. \<not> lt y x)"
proof -
  have i: "hsize h \<le> length (elts h)" "length (elts h) \<le> capacity h" "heap_on (hsize h) (elts h)"
    using inv lt by (simp_all add: heap_inv_heap_on)
  obtain n where n: "hsize h = Suc n" using ne gr0_implies_Suc by blast
  let ?ys = "percolate_down_loop lt ((elts h)[0 := elts h ! n]) n 0"
  define h' where "h' = h\<lparr>elts := ?ys, hsize := n\<rparr>"
  have run: "heap_pop h = Some h'" using lt n by (simp add: heap_pop_def heap_percolate_down_def h'_def)
  have "heap_on n ?ys \<and> length ?ys = length (elts h) \<and> add_mset (elts h ! 0) (mset (take n ?ys)) = mset (take (Suc n) (elts h))"
  proof (cases "n = 0")
    case True
    then show ?thesis
      using i(1) n by (cases "elts h") (simp_all add: percolate_down_loop.simps heap_on_def)
  next
    case False
    then show ?thesis using pop_correct [of n "elts h"] i n by simp
  qed
  then have "heap_inv h'" "contents h = add_mset (elts h ! 0) (contents h')"
    using i n lt by (auto simp: heap_inv_heap_on h'_def contents_def)
  moreover have "\<not> lt y (elts h ! 0)" if y: "y \<in># contents h" for y
  proof -
    obtain k where "k < hsize h" "y = elts h ! k"
      using y i(1) by (auto simp: contents_def in_set_conv_nth)
    then show ?thesis using heap_root_min [OF i(3)] by blast
  qed
  moreover have "heap_top h = Some (elts h ! 0)" using ne by (simp add: heap_top_def)
  ultimately show ?thesis using run lt n by (auto simp: h'_def)
qed

end

text \<open>Taking the top element until the heap is empty.\<close>

fun heap_drain :: "nat \<Rightarrow> 'a heap \<Rightarrow> 'a list option" where
  "heap_drain 0 h = Some []"
| "heap_drain (Suc k) h = do { x \<leftarrow> heap_top h; h' \<leftarrow> heap_pop h; xs \<leftarrow> heap_drain k h'; Some (x # xs) }"

fun heap_push_all :: "(nat \<Rightarrow> bool) \<Rightarrow> 'a heap \<Rightarrow> 'a list \<Rightarrow> 'a heap option" where
  "heap_push_all realloc h [] = Some h"
| "heap_push_all realloc h (x # xs) =
     do { (r, h') \<leftarrow> heap_push realloc h x; if r = 0 then heap_push_all realloc h' xs else None }"

context strict_weak_order
begin

lemma drain_sorted:
  "less h = lt \<Longrightarrow> heap_inv h \<Longrightarrow>
     \<exists>xs. heap_drain (hsize h) h = Some xs \<and> mset xs = contents h \<and> sorted_wrt (\<lambda>a b. \<not> lt b a) xs"
proof (induction "hsize h" arbitrary: h)
  case 0
  from 0(1) [symmetric] show ?case by (simp add: contents_def)
next
  case (Suc k)
  obtain x h' where p: "heap_top h = Some x" "heap_pop h = Some h'" "heap_inv h'" "less h' = lt"
    "contents h = add_mset x (contents h')" "hsize h' = k" "\<forall>y \<in># contents h. \<not> lt y x"
    using pop_spec [OF Suc.prems] Suc.hyps(2) by auto
  obtain xs where xs: "heap_drain k h' = Some xs" "mset xs = contents h'" "sorted_wrt (\<lambda>a b. \<not> lt b a) xs"
    using Suc.hyps(1) [of h'] p by auto
  have "\<forall>y \<in> set xs. \<not> lt y x" using p(5,7) xs(2) by (metis set_mset_mset union_single_eq_member insert_iff set_mset_add_mset_insert)
  then show ?case unfolding Suc.hyps(2) [symmetric] using p xs by auto
qed

lemma push_all_spec:
  assumes "\<And>n. realloc n"
  shows "less h = lt \<Longrightarrow> heap_inv h \<Longrightarrow>
     \<exists>h'. heap_push_all realloc h xs = Some h' \<and> heap_inv h' \<and> less h' = lt \<and> contents h' = contents h + mset xs"
proof (induction xs arbitrary: h)
  case (Cons x xs)
  obtain h1 where h1: "heap_push realloc h x = Some (0, h1)" "heap_inv h1" "less h1 = lt"
    "contents h1 = add_mset x (contents h)"
    using push_spec [OF Cons.prems, of realloc x] assms by auto
  then show ?case using Cons.IH [of h1] by auto
qed simp

end

section \<open>Properties\<close>

text \<open>The comparison of \<open>src/heap/test/test.c\<close>, and any comparison of keys of a linear order, is a
  strict weak order.\<close>

interpretation by_key: strict_weak_order "\<lambda>a b. (key a :: 'k::linorder) < key b" for key
  by unfold_locales auto

text \<open>C7: with a callback that is a strict weak order and memory to grow, pushing any sequence of
  elements into a new heap and taking the top until it is empty returns exactly these elements
  (as a multiset) in ascending order: the top is least at every moment.\<close>

theorem heap_sorts:
  assumes "strict_weak_order lt" "heap_create True lt = Some h0"
  shows "\<exists>h ys. heap_push_all (\<lambda>_. True) h0 xs = Some h \<and> heap_drain (heap_size h) h = Some ys
    \<and> mset ys = mset xs \<and> sorted_wrt (\<lambda>a b. \<not> lt b a) ys"
proof -
  have h0: "less h0 = lt" "heap_inv h0" "contents h0 = {#}"
    using assms(2) by (auto simp: heap_create_def heap_inv_def contents_def)
  obtain h where h: "heap_push_all (\<lambda>_. True) h0 xs = Some h" "heap_inv h" "less h = lt" "contents h = mset xs"
    using strict_weak_order.push_all_spec [OF assms(1), of "\<lambda>_. True" h0 xs] h0 by auto
  show ?thesis
    using strict_weak_order.drain_sorted [OF assms(1) h(3,2)] h by (auto simp: heap_size_def)
qed

theorem heap_sorts_witness:
  "\<exists>h0 h ys. heap_create True ((<) :: int \<Rightarrow> _) = Some h0 \<and> heap_push_all (\<lambda>_. True) h0 [3, 1, 2] = Some h
    \<and> heap_drain (heap_size h) h = Some ys \<and> mset ys = mset [3, 1, 2]
    \<and> sorted_wrt (\<lambda>a b. \<not> b < a) ys"
proof -
  have "strict_weak_order ((<) :: int \<Rightarrow> _)" by unfold_locales auto
  from heap_sorts [OF this, of "\<lparr>elts = [], hsize = 0, capacity = 0, less = (<)\<rparr>" "[3, 1, 2]"]
  show ?thesis by (auto simp: heap_create_def)
qed

text \<open>Each operation on a well-formed heap: a push adds its element when there is room or the
  array can grow and otherwise returns \<open>-ENOMEM\<close> and changes nothing, the top is a least element, a
  pop removes that one element, an empty heap has no top and a pop leaves it alone; the heap stays
  well formed and no assertion fails.\<close>

theorem heap_operations:
  assumes "strict_weak_order (less h)" "heap_inv h"
  shows "(\<exists>r h'. heap_push realloc h x = Some (r, h') \<and> heap_inv h' \<and> less h' = less h
      \<and> (if hsize h + 1 < capacity h \<or> realloc (hsize h + 2014)
         then r = 0 \<and> contents h' = add_mset x (contents h) else r = - 12 \<and> h' = h))
    \<and> (if heap_empty h then heap_top h = None \<and> heap_pop h = Some h
       else \<exists>t h'. heap_top h = Some t \<and> heap_pop h = Some h' \<and> heap_inv h' \<and> less h' = less h
         \<and> contents h = add_mset t (contents h') \<and> (\<forall>y \<in># contents h. \<not> less h y t))"
  using strict_weak_order.push_spec [OF assms(1) refl assms(2), of realloc x]
    strict_weak_order.pop_spec [OF assms(1) refl assms(2)]
  by (auto simp: heap_empty_def heap_top_def heap_pop_def)

theorem heap_operations_witness:
  "\<exists>r h'. heap_push (\<lambda>_. False) \<lparr>elts = [1, 4, 2 :: int], hsize = 3, capacity = 8, less = (<)\<rparr> 0 = Some (r, h')
     \<and> heap_inv h' \<and> r = 0 \<and> contents h' = {#0, 1, 4, 2#}"
proof -
  let ?h = "\<lparr>elts = [1, 4, 2 :: int], hsize = 3, capacity = 8, less = (<)\<rparr>"
  have "strict_weak_order (less ?h)" by unfold_locales auto
  moreover have "i < 3 \<Longrightarrow> i = 0 \<or> i = 1 \<or> i = (2::nat)" for i by linarith
  then have "heap_inv ?h" unfolding heap_inv_def by (auto dest!: \<open>\<And>i. i < 3 \<Longrightarrow> i = 0 \<or> i = 1 \<or> i = (2::nat)\<close>)
  ultimately show ?thesis
    using heap_operations [of ?h "\<lambda>_. False" 0] by (auto simp: contents_def)
qed

end
