(* ===== verification/Heap_Timer.thy ===== *)
theory Heap_Timer
  imports Heap
begin

text \<open>
  The timer of \<open>src/heap_timer/heap_timer.c\<close>: pointers to events in a binary heap ordered by the
  clock at which they are due.  An event pointer is an address, 0 is \<open>NULL\<close>; the events live in a
  store \<open>evs\<close>, so that an event keeps its identity while it moves in the heap and while the client
  cancels it.  \<open>system_clock\<close> is the sequence of its readings, the address returned by \<open>calloc\<close> a
  parameter, and a failed \<open>assert\<close> or an access outside the array is \<open>None\<close>.  Callbacks are
  represented by the order of their calls; they do not change the timer.
\<close>

section \<open>The code\<close>

record timer_event =
  ev_clock :: u64
  ev_cb :: bool
  ev_data :: nat
  delay :: u32
  interval :: u32
  count :: u32
  enable :: bool

record heap_timer =
  nevts :: nat
  max_evts :: nat
  theap :: "nat list"
  evs :: "nat \<Rightarrow> timer_event"

abbreviation clocks :: "heap_timer \<Rightarrow> nat \<Rightarrow> u64" where
  "clocks ctx p \<equiv> ev_clock (evs ctx p)"

fun heap_insert :: "(nat \<Rightarrow> u64) \<Rightarrow> nat list \<Rightarrow> nat \<Rightarrow> nat list option" where
  "heap_insert clk heap idx =
     (if heap = [] \<or> heap ! 0 = 0 then None
      else if idx = 0 then Some heap
      else let p = (idx - 1) div 2
           in if clk (heap ! p) \<le> clk (heap ! idx) then Some heap
              else let tmp = heap ! p; heap = heap[p := heap ! idx]; heap = heap[idx := tmp]
                   in heap_insert clk heap p)"

function heap_delete :: "(nat \<Rightarrow> u64) \<Rightarrow> nat list \<Rightarrow> nat \<Rightarrow> nat \<Rightarrow> nat list option" where
  "heap_delete clk heap n idx =
     (if heap = [] \<or> heap ! 0 = 0 then None
      else if idx \<ge> n then Some heap
      else let lchild = idx * 2 + 1;
               rchild = idx * 2 + 2;
               i = idx;
               i = (if lchild < n \<and> clk (heap ! i) > clk (heap ! lchild) then lchild else i);
               i = (if rchild < n \<and> clk (heap ! i) > clk (heap ! rchild) then rchild else i)
           in if i \<noteq> idx
              then let tmp = heap ! i; heap = heap[i := heap ! idx]; heap = heap[idx := tmp]
                   in heap_delete clk heap n i
              else Some heap)"
  by auto
termination by (relation "measure (\<lambda>(_, _, n, idx). n - idx)") (auto split: if_splits)

declare heap_insert.simps [simp del] heap_delete.simps [simp del]

definition event_heap_push :: "heap_timer \<Rightarrow> nat \<Rightarrow> heap_timer option" where
  "event_heap_push ctx ev =
     (if ev = 0 then None
      else let idx = nevts ctx; ctx = ctx\<lparr>nevts := nevts ctx + 1\<rparr>
           in do { heap \<leftarrow> store (theap ctx) idx ev;
                   if idx < max_evts ctx
                   then do { heap \<leftarrow> heap_insert (clocks ctx) heap idx; Some (ctx\<lparr>theap := heap\<rparr>) }
                   else None })"

definition event_heap_pop :: "heap_timer \<Rightarrow> (nat \<times> heap_timer) option" where
  "event_heap_pop ctx =
     do { ev \<leftarrow> fetch (theap ctx) 0;
          let n = (if nevts ctx = 0 then 2 ^ 32 - 1 else nevts ctx - 1);
          v \<leftarrow> fetch (theap ctx) n;
          heap \<leftarrow> store (theap ctx) 0 v;
          if n < max_evts ctx
          then do { heap \<leftarrow> heap_delete (clocks ctx) heap n 0; Some (ev, ctx\<lparr>nevts := n, theap := heap\<rparr>) }
          else None }"

definition event_re_enqueue :: "heap_timer \<Rightarrow> nat \<Rightarrow> heap_timer option" where
  "event_re_enqueue ctx ev =
     (if ev = 0 then None
      else let e = evs ctx ev in
        if enable e \<and> interval e > 0
        then let e = e\<lparr>ev_clock := ev_clock e + ucast (interval e)\<rparr>;
                 e = (if count e > 0
                      then let e = e\<lparr>count := count e - 1\<rparr>
                           in if count e = 0 then e\<lparr>interval := 0\<rparr> else e
                      else e)
             in event_heap_push (ctx\<lparr>evs := (evs ctx)(ev := e)\<rparr>) ev
        else Some ctx)"

text \<open>\<open>calloc\<close> gives the address of the new event, \<open>now\<close> is the reading of \<open>system_clock\<close>.\<close>

definition timer_event_register ::
    "nat option \<Rightarrow> u64 \<Rightarrow> heap_timer \<Rightarrow> bool \<Rightarrow> nat \<Rightarrow> u32 \<Rightarrow> u32 \<Rightarrow> u32 \<Rightarrow> (nat option \<times> heap_timer) option" where
  "timer_event_register calloc now ctx cb data d i c =
     (if nevts ctx \<ge> max_evts ctx then Some (None, ctx)
      else case calloc of
          None \<Rightarrow> Some (None, ctx)
        | Some ev \<Rightarrow>
            let e = \<lparr>ev_clock = now + ucast d, ev_cb = cb, ev_data = data, delay = d, interval = i,
                     count = c, enable = True\<rparr>
            in do { ctx \<leftarrow> event_heap_push (ctx\<lparr>evs := (evs ctx)(ev := e)\<rparr>) ev; Some (Some ev, ctx) })"

definition timer_event_cancel :: "heap_timer \<Rightarrow> nat \<Rightarrow> heap_timer option" where
  "timer_event_cancel ctx ev =
     (if ev = 0 then None else Some (ctx\<lparr>evs := (evs ctx)(ev := (evs ctx ev)\<lparr>enable := False\<rparr>)\<rparr>))"

text \<open>The loop reads the clock once per round: \<open>now k\<close> is the reading of round \<open>k\<close>.  The result
  lists the callbacks called, each with the clock its event was due at.\<close>

partial_function (option) run_loop ::
    "(nat \<Rightarrow> u64) \<Rightarrow> nat \<Rightarrow> heap_timer \<Rightarrow> ((u64 \<times> nat) list \<times> heap_timer) option" where
  "run_loop now k ctx =
     (if nevts ctx > 0
      then do { top \<leftarrow> fetch (theap ctx) 0;
                if clocks ctx top \<le> now k
                then do { (ev, ctx) \<leftarrow> event_heap_pop ctx;
                          let fired = (if enable (evs ctx ev) \<and> ev_cb (evs ctx ev)
                                       then [(clocks ctx ev, ev)] else []);
                          ctx \<leftarrow> event_re_enqueue ctx ev;
                          (rest, ctx) \<leftarrow> run_loop now (k + 1) ctx;
                          Some (fired @ rest, ctx) }
                else Some ([], ctx) }
      else Some ([], ctx))"

definition heap_timer_run :: "(nat \<Rightarrow> u64) \<Rightarrow> heap_timer \<Rightarrow> ((u64 \<times> nat) list \<times> heap_timer) option" where
  "heap_timer_run now ctx = run_loop now 0 ctx"

definition heap_timer_create :: "bool \<Rightarrow> bool \<Rightarrow> nat \<Rightarrow> heap_timer option" where
  "heap_timer_create calloc_ctx calloc_heap n =
     (if calloc_ctx
      then if calloc_heap
           then Some \<lparr>nevts = 0, max_evts = n, theap = replicate n 0,
                      evs = (\<lambda>_. \<lparr>ev_clock = 0, ev_cb = False, ev_data = 0, delay = 0, interval = 0,
                                  count = 0, enable = False\<rparr>)\<rparr>
           else None
      else None)"

section \<open>The heap of pointers\<close>

interpretation due: percolation "\<lambda>a b. clk a \<le> clk b" "\<lambda>a b. clk a \<le> clk b"
  "\<lambda>xs m n. child_loop (\<lambda>a b. clk a < clk b) xs m n (n * 2 + 1) n"
  "percolate_up_loop (\<lambda>a b. clk a \<le> clk b)" "percolate_down_loop (\<lambda>a b. clk a < clk b)"
  for clk :: "nat \<Rightarrow> u64"
proof
  fix a b c :: nat and clk :: "nat \<Rightarrow> u64"
  show "clk a \<le> clk b \<or> clk b \<le> clk a" by auto
  show "clk a \<le> clk b \<Longrightarrow> clk b \<le> clk c \<Longrightarrow> clk a \<le> clk c" by simp
  show "clk a \<le> clk b \<Longrightarrow> clk a \<le> clk b" .
  show "\<not> clk a \<le> clk b \<Longrightarrow> clk b \<le> clk a" by simp
next
  fix n m :: nat and xs :: "nat list" and clk :: "nat \<Rightarrow> u64"
  show "child_loop (\<lambda>a b. clk a < clk b) xs m n (n * 2 + 1) n = n
      \<or> child_loop (\<lambda>a b. clk a < clk b) xs m n (n * 2 + 1) n < m
      \<and> child_loop (\<lambda>a b. clk a < clk b) xs m n (n * 2 + 1) n \<in> {2 * n + 1, 2 * n + 2}"
    by (rule child_loop_cases)
next
  fix n m d :: nat and xs :: "nat list" and clk :: "nat \<Rightarrow> u64"
  assume "n < m" "d \<in> {n, 2 * n + 1, 2 * n + 2}" "d < m"
  then show "clk (xs ! child_loop (\<lambda>a b. clk a < clk b) xs m n (n * 2 + 1) n) \<le> clk (xs ! d)"
    using by_key.child_loop_least [of n m d clk xs] by simp
next
  fix n :: nat and xs :: "nat list" and clk :: "nat \<Rightarrow> u64"
  show "percolate_up_loop (\<lambda>a b. clk a \<le> clk b) xs n
      = (if n = 0 \<or> clk (xs ! parent n) \<le> clk (xs ! n) then xs
         else percolate_up_loop (\<lambda>a b. clk a \<le> clk b) (exch xs (parent n) n) (parent n))"
    by (subst percolate_up_loop.simps) (simp add: parent_def heap_swap_exch Let_def)
next
  fix n m :: nat and xs :: "nat list" and clk :: "nat \<Rightarrow> u64"
  assume "n < m"
  then show "percolate_down_loop (\<lambda>a b. clk a < clk b) xs m n
      = (if child_loop (\<lambda>a b. clk a < clk b) xs m n (n * 2 + 1) n = n then xs
         else percolate_down_loop (\<lambda>a b. clk a < clk b)
             (exch xs (child_loop (\<lambda>a b. clk a < clk b) xs m n (n * 2 + 1) n) n) m
             (child_loop (\<lambda>a b. clk a < clk b) xs m n (n * 2 + 1) n))"
    by (rule by_key.down_eq)
qed

text \<open>The recursions of this file are these loops, as long as no cell in use is \<open>NULL\<close>.\<close>

lemma heap_insert_loop:
  "idx < length heap \<Longrightarrow> \<forall>i \<le> idx. heap ! i \<noteq> 0 \<Longrightarrow>
     heap_insert clk heap idx = Some (percolate_up_loop (\<lambda>a b. clk a \<le> clk b) heap idx)"
proof (induction idx arbitrary: heap rule: less_induct)
  case (less idx)
  show ?case
  proof (cases "idx = 0 \<or> clk (heap ! ((idx - 1) div 2)) \<le> clk (heap ! idx)")
    case True
    then show ?thesis
      using less.prems by (subst heap_insert.simps, subst percolate_up_loop.simps) auto
  next
    case False
    let ?p = "(idx - 1) div 2"
    have p: "?p < idx" using False by auto
    have "heap_insert clk (exch heap ?p idx) ?p
        = Some (percolate_up_loop (\<lambda>a b. clk a \<le> clk b) (exch heap ?p idx) ?p)"
      using p less.prems by (intro less.IH) (auto simp: nth_exch)
    then show ?thesis
      using False less.prems
      by (subst heap_insert.simps, subst percolate_up_loop.simps)
        (auto simp: Let_def heap_swap_exch exch_def)
  qed
qed

lemma heap_delete_loop:
  "n \<le> length heap \<Longrightarrow> heap \<noteq> [] \<Longrightarrow> heap ! 0 \<noteq> 0 \<Longrightarrow> \<forall>i < n. heap ! i \<noteq> 0 \<Longrightarrow>
     heap_delete clk heap n idx = Some (percolate_down_loop (\<lambda>a b. clk a < clk b) heap n idx)"
proof (induction "n - idx" arbitrary: heap idx rule: less_induct)
  case less
  let ?i = "child_loop (\<lambda>a b. clk a < clk b) heap n idx (idx * 2 + 1) idx"
  have unf: "heap_delete clk heap n idx = (if idx \<ge> n then Some heap
      else if ?i \<noteq> idx then heap_delete clk (exch heap ?i idx) n ?i else Some heap)"
    unfolding child_loop_unfold using less.prems
    by (subst heap_delete.simps) (simp add: Let_def exch_def)
  show ?case
  proof (cases "idx < n \<and> ?i \<noteq> idx")
    case True
    then have i: "?i < n" "idx < ?i" using child_loop_cases [of "\<lambda>a b. clk a < clk b" heap n idx] by auto
    have "heap_delete clk (exch heap ?i idx) n ?i
        = Some (percolate_down_loop (\<lambda>a b. clk a < clk b) (exch heap ?i idx) n ?i)"
    proof (rule less.hyps)
      show "n - ?i < n - idx" using i by simp
      show "exch heap ?i idx \<noteq> []" using less.prems by (metis length_0_conv length_exch)
      show "exch heap ?i idx ! 0 \<noteq> 0" "\<forall>j < n. exch heap ?i idx ! j \<noteq> 0"
        using i True less.prems by (auto simp: nth_exch)
    qed (use less.prems in simp)
    then show ?thesis
      using True unf by (subst percolate_down_loop.simps) (auto simp: heap_swap_exch Let_def)
  qed (use unf in \<open>auto simp: percolate_down_loop.simps Let_def\<close>)
qed

section \<open>Invariant\<close>

definition live :: "heap_timer \<Rightarrow> nat list" where
  "live ctx = take (nevts ctx) (theap ctx)"

definition timer_inv :: "heap_timer \<Rightarrow> bool" where
  "timer_inv ctx \<longleftrightarrow> nevts ctx \<le> max_evts ctx \<and> length (theap ctx) = max_evts ctx
     \<and> distinct (live ctx) \<and> 0 \<notin> set (live ctx)
     \<and> (\<forall>i < nevts ctx. 0 < i \<longrightarrow>
          clocks ctx (theap ctx ! ((i - 1) div 2)) \<le> clocks ctx (theap ctx ! i))"

lemma timer_inv_heap_on:
  "timer_inv ctx \<longleftrightarrow> nevts ctx \<le> max_evts ctx \<and> length (theap ctx) = max_evts ctx
     \<and> distinct (live ctx) \<and> 0 \<notin> set (live ctx) \<and> due.heap_on (clocks ctx) (nevts ctx) (theap ctx)"
  by (simp add: timer_inv_def due.heap_on_def parent_def)

lemma live_nonnull: "0 \<notin> set (live ctx) \<Longrightarrow> nevts ctx \<le> length (theap ctx) \<Longrightarrow> i < nevts ctx \<Longrightarrow> theap ctx ! i \<noteq> 0"
  by (metis live_def in_set_conv_nth length_take min_absorb2 nth_take)

lemma timer_push_spec:
  assumes inv: "timer_inv ctx" and ev: "ev \<noteq> 0" "ev \<notin> set (live ctx)" and room: "nevts ctx < max_evts ctx"
  shows "\<exists>ctx'. event_heap_push ctx ev = Some ctx' \<and> timer_inv ctx' \<and> evs ctx' = evs ctx
    \<and> max_evts ctx' = max_evts ctx \<and> mset (live ctx') = add_mset ev (mset (live ctx))"
proof -
  let ?n = "nevts ctx" and ?h = "(theap ctx)[nevts ctx := ev]"
  have i: "?n < length (theap ctx)" "length (theap ctx) = max_evts ctx" "distinct (live ctx)" "0 \<notin> set (live ctx)"
      "due.heap_on (clocks ctx) ?n (theap ctx)"
    using inv room by (simp_all add: timer_inv_heap_on)
  have nz: "\<forall>j \<le> ?n. ?h ! j \<noteq> 0"
    using live_nonnull [OF i(4)] i(1) ev(1) by (auto simp: nth_list_update le_less)
  define h' where "h' = percolate_up_loop (\<lambda>a b. clocks ctx a \<le> clocks ctx b) ?h ?n"
  have "due.heap_on (clocks ctx) ?n ?h" using i(5) by (rule due.heap_on_cong) simp
  then have h': "due.heap_on (clocks ctx) (Suc ?n) h'" "length h' = length (theap ctx)"
    "mset (take (Suc ?n) h') = add_mset ev (mset (take ?n (theap ctx)))"
    using due.push_correct [of "clocks ctx" ?n ?h] i(1) by (simp_all add: h'_def)
  define ctx' where "ctx' = ctx\<lparr>nevts := Suc ?n, theap := h'\<rparr>"
  have run: "event_heap_push ctx ev = Some ctx'"
    using ev(1) room i(1,2) heap_insert_loop [of ?n ?h "clocks ctx"] nz
    by (simp add: event_heap_push_def Let_def ctx'_def h'_def)
  have m: "mset (live ctx') = add_mset ev (mset (live ctx))"
    using h'(3) by (simp add: live_def ctx'_def)
  have sets: "set (live ctx') = insert ev (set (live ctx))" using m by (metis set_mset_mset set_mset_add_mset_insert)
  have "distinct (live ctx')"
    using m i(3) ev(2) by (metis distinct.simps(2) mset.simps(2) mset_eq_imp_distinct_iff)
  then have "timer_inv ctx'"
    using h'(1,2) i(2,4) ev(1) room sets by (simp add: timer_inv_heap_on) (simp add: ctx'_def)
  with run m show ?thesis by (auto simp: ctx'_def)
qed

lemma timer_pop_spec:
  assumes inv: "timer_inv ctx" and ne: "0 < nevts ctx"
  shows "\<exists>ev ctx'. fetch (theap ctx) 0 = Some ev \<and> event_heap_pop ctx = Some (ev, ctx') \<and> timer_inv ctx'
    \<and> evs ctx' = evs ctx \<and> max_evts ctx' = max_evts ctx \<and> nevts ctx' < max_evts ctx'
    \<and> mset (live ctx) = add_mset ev (mset (live ctx')) \<and> (\<forall>p \<in> set (live ctx). clocks ctx ev \<le> clocks ctx p)"
proof -
  obtain n where n: "nevts ctx = Suc n" using ne gr0_implies_Suc by blast
  let ?xs = "theap ctx" and ?ys = "(theap ctx)[0 := theap ctx ! n]"
  have i: "n < length ?xs" "length ?xs = max_evts ctx" "distinct (live ctx)" "0 \<notin> set (live ctx)"
      "due.heap_on (clocks ctx) (Suc n) ?xs"
    using inv n by (simp_all add: timer_inv_heap_on)
  have nz: "?xs ! j \<noteq> 0" if "j < Suc n" for j using live_nonnull [OF i(4)] i(1) n that by simp
  have "?xs \<noteq> []" using i(1) by auto
  then have del: "heap_delete (clocks ctx) ?ys n 0
      = Some (percolate_down_loop (\<lambda>a b. clocks ctx a < clocks ctx b) ?ys n 0)"
    using i(1) nz by (intro heap_delete_loop) (auto simp: nth_list_update)
  define h' where "h' = percolate_down_loop (\<lambda>a b. clocks ctx a < clocks ctx b) ?ys n 0"
  have h': "due.heap_on (clocks ctx) n h' \<and> length h' = length ?xs
      \<and> add_mset (?xs ! 0) (mset (take n h')) = mset (take (Suc n) ?xs)"
  proof (cases "n = 0")
    case True
    then show ?thesis
      using i(1) by (cases ?xs) (simp_all add: h'_def percolate_down_loop.simps due.heap_on_def)
  next
    case False
    then show ?thesis using due.pop_correct [of "clocks ctx" n ?xs] i(1,5) by (simp add: h'_def)
  qed
  define ctx' where "ctx' = ctx\<lparr>nevts := n, theap := h'\<rparr>"
  have run: "fetch ?xs 0 = Some (?xs ! 0)" "event_heap_pop ctx = Some (?xs ! 0, ctx')"
    using n i(1,2) del \<open>?xs \<noteq> []\<close> by (simp_all add: event_heap_pop_def ctx'_def h'_def)
  have m: "mset (live ctx) = add_mset (?xs ! 0) (mset (live ctx'))"
    using h' n by (simp add: live_def ctx'_def)
  then have sub: "set (live ctx') \<subseteq> set (live ctx)" by (metis set_mset_mset set_mset_add_mset_insert subset_insertI)
  have "distinct (live ctx')"
    using m i(3) by (metis distinct.simps(2) mset.simps(2) mset_eq_imp_distinct_iff)
  then have inv': "timer_inv ctx'"
    using h' i(1,2,4) sub by (auto simp: timer_inv_heap_on ctx'_def)
  have "clocks ctx (?xs ! 0) \<le> clocks ctx p" if p: "p \<in> set (live ctx)" for p
  proof -
    obtain k where "k < Suc n" "p = ?xs ! k"
      using p n i(1) by (auto simp: live_def in_set_conv_nth)
    then show ?thesis using due.heap_root_min [OF i(5)] by blast
  qed
  with run m inv' i(1,2) show ?thesis by (auto simp: ctx'_def)
qed

text \<open>Changing an event that is not queued keeps the invariant.\<close>

lemma timer_inv_update:
  assumes "timer_inv ctx" "ev \<notin> set (live ctx)"
  shows "timer_inv (ctx\<lparr>evs := (evs ctx)(ev := e)\<rparr>)"
proof -
  have ne: "theap ctx ! i \<noteq> ev" if "i < nevts ctx" for i
    using assms that by (auto simp: timer_inv_def live_def in_set_conv_nth)
  have "(i - 1) div 2 < nevts ctx" if "i < nevts ctx" for i using that by linarith
  with assms(1) ne show ?thesis by (simp add: timer_inv_def live_def)
qed

text \<open>What the code promises of one event: it is called at its clock and then at every interval, \<open>count\<close> times more when
  \<open>count\<close> is not 0.  \<open>due_at e i\<close> is the clock of call \<open>i\<close>, counted from 0; \<open>queued_after e n\<close> says whether the event is
  still queued after it was taken out \<open>n\<close> times, and \<open>event_after e n\<close> is what it then holds.\<close>

definition due_at :: "timer_event \<Rightarrow> nat \<Rightarrow> u64" where
  "due_at e i = ev_clock e + of_nat i * ucast (interval e)"

definition queued_after :: "timer_event \<Rightarrow> nat \<Rightarrow> bool" where
  "queued_after e n \<longleftrightarrow> n = 0 \<or> enable e \<and> interval e > 0 \<and> (count e = 0 \<or> n \<le> unat (count e))"

definition event_after :: "timer_event \<Rightarrow> nat \<Rightarrow> timer_event" where
  "event_after e n = (if n = 0 then e else e\<lparr>ev_clock := due_at e n,
     count := (if count e = 0 then 0 else count e - of_nat n),
     interval := (if count e \<noteq> 0 \<and> n = unat (count e) then 0 else interval e)\<rparr>)"

lemma unat_count_1: "count e \<noteq> 0 \<Longrightarrow> unat (count e - 1) = unat (count e) - 1" "unat (count e) = Suc 0 \<longleftrightarrow> count e = 1"
  "count e - 1 = 0 \<longleftrightarrow> count e = 1"
  by (simp_all add: unat_minus_one word_unat_eq_iff [of "count e" 1])

lemma queued_after_1: "queued_after e (Suc 0) \<longleftrightarrow> enable e \<and> interval e > 0"
  by (auto simp: queued_after_def Suc_le_eq unat_gt_0)

lemma event_after_fields [simp]: "enable (event_after e n) = enable e" "ev_cb (event_after e n) = ev_cb e"
  by (simp_all add: event_after_def)

lemma event_after_1:
  "ev_clock (event_after e (Suc 0)) = due_at e (Suc 0)" "count (event_after e (Suc 0)) = (if count e = 0 then 0 else count e - 1)"
  "interval (event_after e (Suc 0)) = (if count e = 1 then 0 else interval e)"
  using unat_count_1(2) [of e] by (auto simp: event_after_def)

lemma queued_after_Suc:
  assumes "queued_after e (Suc 0)"
  shows "queued_after (event_after e (Suc 0)) m \<longleftrightarrow> queued_after e (Suc m)"
proof (cases m)
  case (Suc k)
  have e: "enable e" "interval e > 0" using assms by (simp_all add: queued_after_1)
  consider "count e = 0" | "count e = 1" | "count e \<noteq> 0" "count e \<noteq> 1" by blast
  then show ?thesis
  proof cases
    case 3
    then have "0 < unat (count e)" "unat (count e) \<noteq> Suc 0" using unat_count_1(2) [of e] by (simp add: unat_gt_0, blast)
    then show ?thesis using 3 Suc e unat_count_1(1,3) [of e] by (auto simp: queued_after_def event_after_1)
  qed (use Suc e in \<open>auto simp: queued_after_def event_after_1\<close>)
qed (use assms in \<open>simp add: queued_after_def\<close>)

lemma queued_after_interval:
  "queued_after e (Suc 0) \<Longrightarrow> queued_after (event_after e (Suc 0)) (Suc m) \<Longrightarrow> interval (event_after e (Suc 0)) = interval e"
  by (auto simp: queued_after_def event_after_1 split: if_splits)

lemma due_at_Suc:
  assumes "queued_after e (Suc 0)" "m = 0 \<or> queued_after (event_after e (Suc 0)) (m - 1)"
  shows "map (due_at (event_after e (Suc 0))) [0..<m] = map (due_at e) [Suc 0..<Suc m]"
proof -
  have "due_at (event_after e (Suc 0)) i = due_at e (Suc i)" if "i < m" for i
  proof (cases i)
    case 0
    then show ?thesis by (simp add: due_at_def event_after_1)
  next
    case (Suc k)
    then have "m - 1 = Suc (m - 2)" using that by simp
    then have "interval (event_after e (Suc 0)) = interval e" using assms that queued_after_interval by auto
    then show ?thesis by (simp add: due_at_def event_after_1(1) algebra_simps)
  qed
  then have "map (due_at (event_after e (Suc 0))) [0..<m] = map (due_at e \<circ> Suc) [0..<m]" by (intro map_cong) simp_all
  then show ?thesis by (simp add: map_Suc_upt [symmetric] del: upt_Suc)
qed

lemma event_after_Suc:
  assumes "queued_after e (Suc 0)" "queued_after (event_after e (Suc 0)) m"
  shows "event_after (event_after e (Suc 0)) m = event_after e (Suc m)"
proof (cases m)
  case 0
  then show ?thesis by (simp add: event_after_def)
next
  case (Suc k)
  let ?e = "event_after e (Suc 0)"
  have I: "interval ?e = interval e" using assms queued_after_interval Suc by simp
  have "0 < interval ?e" using assms Suc by (simp add: queued_after_def)
  then have c1: "count e \<noteq> 1" by (auto simp: event_after_1 split: if_splits)
  then have c0: "count ?e = 0 \<longleftrightarrow> count e = 0" using unat_count_1(3) [of e] by (simp add: event_after_1)
  have u: "count e \<noteq> 0 \<Longrightarrow> unat (count ?e) = unat (count e) - 1" using unat_count_1(1) by (simp add: event_after_1)
  have p: "count e \<noteq> 0 \<Longrightarrow> 0 < unat (count e)" by (simp add: unat_gt_0)
  have d: "due_at ?e m = due_at e (Suc m)" by (simp add: due_at_def I event_after_1(1) algebra_simps)
  have c: "(if count ?e = 0 then 0 else count ?e - of_nat m) = (if count e = 0 then 0 else count e - of_nat (Suc m))"
    using c0 by (simp add: event_after_1(2))
  have i: "(count ?e \<noteq> 0 \<and> m = unat (count ?e)) = (count e \<noteq> 0 \<and> Suc m = unat (count e))" using c0 u p by auto
  have "event_after ?e m = ?e\<lparr>ev_clock := due_at ?e m, count := (if count ?e = 0 then 0 else count ?e - of_nat m),
     interval := (if count ?e \<noteq> 0 \<and> m = unat (count ?e) then 0 else interval ?e)\<rparr>"
    unfolding event_after_def [of ?e m] using Suc by simp
  also have "\<dots> = ?e\<lparr>ev_clock := due_at e (Suc m), count := (if count e = 0 then 0 else count e - of_nat (Suc m)),
     interval := (if count e \<noteq> 0 \<and> Suc m = unat (count e) then 0 else interval e)\<rparr>"
    by (simp only: d c i I)
  also have "\<dots> = event_after e (Suc m)" by (simp add: event_after_def)
  finally show ?thesis .
qed

lemma re_enqueue_spec:
  assumes inv: "timer_inv ctx" and ev: "ev \<noteq> 0" "ev \<notin> set (live ctx)" and room: "nevts ctx < max_evts ctx"
  shows "\<exists>ctx'. event_re_enqueue ctx ev = Some ctx' \<and> timer_inv ctx' \<and> max_evts ctx' = max_evts ctx
    \<and> (\<forall>p. p \<noteq> ev \<longrightarrow> evs ctx' p = evs ctx p) \<and> enable (evs ctx' ev) = enable (evs ctx ev)
    \<and> (if enable (evs ctx ev) \<and> interval (evs ctx ev) > 0
       then mset (live ctx') = add_mset ev (mset (live ctx))
         \<and> evs ctx' ev = event_after (evs ctx ev) (Suc 0)
       else ctx' = ctx)"
proof (cases "enable (evs ctx ev) \<and> interval (evs ctx ev) > 0")
  case True
  define e where "e = event_after (evs ctx ev) (Suc 0)"
  have e: "e = (let e = (evs ctx ev)\<lparr>ev_clock := clocks ctx ev + ucast (interval (evs ctx ev))\<rparr> in
      if count e > 0 then let e = e\<lparr>count := count e - 1\<rparr> in if count e = 0 then e\<lparr>interval := 0\<rparr> else e else e)"
    using unat_count_1(2,3) [of "evs ctx ev"]
    by (auto simp: e_def event_after_def due_at_def Let_def word_gt_0)
  let ?c = "ctx\<lparr>evs := (evs ctx)(ev := e)\<rparr>"
  have "timer_inv ?c" using timer_inv_update [OF inv ev(2)] .
  then obtain ctx' where "event_heap_push ?c ev = Some ctx'" "timer_inv ctx'" "evs ctx' = evs ?c"
      "max_evts ctx' = max_evts ctx" "mset (live ctx') = add_mset ev (mset (live ctx))"
    using timer_push_spec [of ?c ev] ev room by (auto simp: live_def)
  moreover from this have "event_re_enqueue ctx ev = Some ctx'"
    using True ev(1) by (simp add: event_re_enqueue_def e Let_def)
  ultimately show ?thesis using True by (auto simp: e_def)
qed (use inv ev in \<open>auto simp: event_re_enqueue_def\<close>)

section \<open>Running\<close>

definition backlog :: "u64 \<Rightarrow> heap_timer \<Rightarrow> nat" where
  "backlog t ctx = (\<Sum>p \<in># mset (live ctx). unat t + 1 - unat (clocks ctx p))"

text \<open>One round on a due event: it is the earliest of the queued events, its re-enqueued clock is
  later, and the backlog shrinks.\<close>

lemma round_spec:
  assumes inv: "timer_inv ctx" and ne: "0 < nevts ctx" and t: "unat t + 2 ^ 32 < 2 ^ 64"
    and due: "\<And>ev. fetch (theap ctx) 0 = Some ev \<Longrightarrow> clocks ctx ev \<le> t"
  obtains ev ctx1 ctx2 where "fetch (theap ctx) 0 = Some ev" "event_heap_pop ctx = Some (ev, ctx1)"
    "event_re_enqueue ctx1 ev = Some ctx2" "timer_inv ctx2" "evs ctx1 = evs ctx"
    "ev \<in> set (live ctx)" "set (live ctx2) \<subseteq> set (live ctx)" "set (live ctx) \<subseteq> insert ev (set (live ctx2))"
    "\<And>p. p \<noteq> ev \<Longrightarrow> evs ctx2 p = evs ctx p" "\<And>p. enable (evs ctx2 p) = enable (evs ctx p)"
    "\<And>p. p \<in> set (live ctx2) \<Longrightarrow> clocks ctx ev \<le> clocks ctx2 p" "backlog t ctx2 < backlog t ctx"
    "\<And>p. p \<in> set (live ctx) \<Longrightarrow> clocks ctx ev \<le> clocks ctx p"
    "ev \<in> set (live ctx2) \<longleftrightarrow> queued_after (evs ctx ev) (Suc 0)"
    "queued_after (evs ctx ev) (Suc 0) \<Longrightarrow> evs ctx2 ev = event_after (evs ctx ev) (Suc 0)"
proof -
  obtain ev ctx1 where p: "fetch (theap ctx) 0 = Some ev" "event_heap_pop ctx = Some (ev, ctx1)" "timer_inv ctx1"
    "evs ctx1 = evs ctx" "nevts ctx1 < max_evts ctx1" "mset (live ctx) = add_mset ev (mset (live ctx1))"
    "\<And>p. p \<in> set (live ctx) \<Longrightarrow> clocks ctx ev \<le> clocks ctx p"
    using timer_pop_spec [OF inv ne] by blast
  have set: "set (live ctx) = insert ev (set (live ctx1))"
    using p(6) by (metis set_mset_mset set_mset_add_mset_insert)
  have ev: "ev \<noteq> 0" "ev \<notin> set (live ctx1)"
    using inv set p(6) by (auto simp: timer_inv_def) (metis distinct.simps(2) mset.simps(2) mset_eq_imp_distinct_iff)
  let ?I = "interval (evs ctx ev)"
  obtain ctx2 where r: "event_re_enqueue ctx1 ev = Some ctx2" "timer_inv ctx2"
    "\<And>p. p \<noteq> ev \<Longrightarrow> evs ctx2 p = evs ctx p" "enable (evs ctx2 ev) = enable (evs ctx ev)"
    "if enable (evs ctx ev) \<and> ?I > 0
       then mset (live ctx2) = add_mset ev (mset (live ctx1)) \<and> evs ctx2 ev = event_after (evs ctx ev) (Suc 0)
       else ctx2 = ctx1"
    using re_enqueue_spec [OF p(3) ev p(5)] p(4) by auto
  have le: "clocks ctx ev \<le> t" using due p(1) by blast
  have others: "(\<Sum>p \<in># mset (live ctx1). unat t + 1 - unat (clocks ctx2 p))
      = (\<Sum>p \<in># mset (live ctx1). unat t + 1 - unat (clocks ctx p))"
    using ev(2) r(3) by (intro arg_cong [where f = sum_mset] image_mset_cong) (metis set_mset_mset)
  have old: "backlog t ctx = (unat t + 1 - unat (clocks ctx ev))
      + (\<Sum>p \<in># mset (live ctx1). unat t + 1 - unat (clocks ctx p))"
    by (simp add: backlog_def p(6))
  have pos: "unat (clocks ctx ev) \<le> unat t" using le by (simp add: word_le_nat_alt)
  show thesis
  proof (cases "enable (evs ctx ev) \<and> ?I > 0")
    case True
    have I: "0 < unat ?I" "unat ?I < 2 ^ 32"
      using True unsigned_less [of ?I, where 'a = nat] by (auto simp: unat_gt_0)
    have new: "unat (clocks ctx2 ev) = unat (clocks ctx ev) + unat ?I"
      using True r(5) t pos I(2)
      by (simp add: event_after_def due_at_def unat_word_ariths unsigned_ucast_eq take_bit_nat_eq_self)
    have m2: "mset (live ctx2) = add_mset ev (mset (live ctx1))" using True r(5) by simp
    then have s2: "set (live ctx2) = insert ev (set (live ctx1))" by (metis set_mset_mset set_mset_add_mset_insert)
    have "backlog t ctx2 < backlog t ctx"
      unfolding old using others new I(1) pos by (simp add: backlog_def m2)
    moreover have "clocks ctx ev \<le> clocks ctx2 p" if "p \<in> set (live ctx2)" for p
      using that p(7) [of p] r(3) [of p] s2 set new by (cases "p = ev") (auto simp: word_le_nat_alt)
    moreover have "enable (evs ctx2 p) = enable (evs ctx p)" for p using r(3,4) by (cases "p = ev") auto
    moreover have "queued_after (evs ctx ev) (Suc 0)" "evs ctx2 ev = event_after (evs ctx ev) (Suc 0)"
      using True r(5) by (simp_all add: queued_after_1)
    ultimately show thesis using that [OF p(1,2) r(1,2) p(4)] r(3) s2 set p(7) by auto
  next
    case False
    then have "ctx2 = ctx1" using r(5) by simp
    moreover have "backlog t ctx1 < backlog t ctx"
      unfolding old using pos p(4) by (simp add: backlog_def)
    moreover have "\<not> queued_after (evs ctx ev) (Suc 0)" using False by (simp add: queued_after_1)
    ultimately show thesis using that [OF p(1,2) r(1,2) p(4)] set p(4,7) ev(2) by auto
  qed
qed

text \<open>The clocks at which the callback of an event was called, and what a run makes of one queued event.\<close>

definition firings :: "(u64 \<times> nat) list \<Rightarrow> nat \<Rightarrow> u64 list" where
  "firings fired p = map fst (filter (\<lambda>(c, q). q = p) fired)"

definition served :: "heap_timer \<Rightarrow> heap_timer \<Rightarrow> (u64 \<times> nat) list \<Rightarrow> nat \<Rightarrow> nat \<Rightarrow> bool" where
  "served ctx ctx' fired p n \<longleftrightarrow> (let e = evs ctx p in
     (n = 0 \<or> queued_after e (n - 1))
     \<and> firings fired p = (if enable e \<and> ev_cb e then map (due_at e) [0..<n] else [])
     \<and> (p \<in> set (live ctx') \<longleftrightarrow> queued_after e n)
     \<and> (queued_after e n \<longrightarrow> evs ctx' p = event_after e n))"

lemma firings_append [simp]: "firings (xs @ ys) p = firings xs p @ firings ys p"
  by (simp add: firings_def)

lemma firings_none: "p \<notin> snd ` set fired \<Longrightarrow> firings fired p = []"
  by (force simp: firings_def filter_empty_conv)

text \<open>One more round in front of a run.\<close>

lemma served_other:
  assumes "served ctx2 ctx' rest p n" "evs ctx2 p = evs ctx p" "p \<notin> snd ` set first"
  shows "served ctx ctx' (first @ rest) p n"
  using assms by (simp add: served_def Let_def firings_none)

lemma served_last:
  assumes "\<not> queued_after (evs ctx ev) (Suc 0)" "ev \<notin> set (live ctx')" "ev \<notin> snd ` set rest"
    "first = (if enable (evs ctx ev) \<and> ev_cb (evs ctx ev) then [(clocks ctx ev, ev)] else [])"
  shows "served ctx ctx' (first @ rest) ev (Suc 0)"
  using assms(1-3) by (simp add: served_def Let_def firings_none) (simp add: assms(4) firings_def due_at_def queued_after_def)

lemma served_again:
  assumes "queued_after (evs ctx ev) (Suc 0)" "evs ctx2 ev = event_after (evs ctx ev) (Suc 0)" "served ctx2 ctx' rest ev m"
    "first = (if enable (evs ctx ev) \<and> ev_cb (evs ctx ev) then [(clocks ctx ev, ev)] else [])"
  shows "served ctx ctx' (first @ rest) ev (Suc m)"
proof -
  let ?e = "evs ctx ev" and ?f = "event_after (evs ctx ev) (Suc 0)"
  have s: "m = 0 \<or> queued_after ?f (m - 1)" "firings rest ev = (if enable ?e \<and> ev_cb ?e then map (due_at ?f) [0..<m] else [])"
      "ev \<in> set (live ctx') \<longleftrightarrow> queued_after ?f m" "queued_after ?f m \<longrightarrow> evs ctx' ev = event_after ?f m"
    using assms(2,3) by (simp_all add: served_def Let_def)
  have q: "queued_after ?e m"
  proof (cases m)
    case (Suc k)
    then show ?thesis using s(1) queued_after_Suc [OF assms(1), of k] by simp
  qed (simp add: queued_after_def)
  have "[0..<Suc m] = 0 # [Suc 0..<Suc m]" by (simp add: upt_conv_Cons)
  then have "map (due_at ?e) [0..<Suc m] = clocks ctx ev # map (due_at ?f) [0..<m]"
    using due_at_Suc [OF assms(1) s(1)] by (simp add: due_at_def del: upt_Suc)
  then have "firings (first @ rest) ev = (if enable ?e \<and> ev_cb ?e then map (due_at ?e) [0..<Suc m] else [])"
    using s(2) by (simp add: assms(4) firings_def del: upt_Suc)
  then show ?thesis
    using q s(3,4) queued_after_Suc [OF assms(1), of m] event_after_Suc [OF assms(1), of m] unfolding served_def Let_def by simp
qed

lemma run_loop_spec:
  assumes "\<forall>k. now k \<le> T" "unat T + 2 ^ 32 < 2 ^ 64"
  shows "timer_inv ctx \<Longrightarrow> \<exists>fired ctx' K. run_loop now k ctx = Some (fired, ctx') \<and> k \<le> K \<and> timer_inv ctx'
    \<and> set (live ctx') \<subseteq> set (live ctx)
    \<and> (\<forall>p \<in> set (live ctx'). now K < clocks ctx' p)
    \<and> sorted (map fst fired)
    \<and> (\<forall>(c, p) \<in> set fired. p \<in> set (live ctx) \<and> (\<exists>i. k \<le> i \<and> i \<le> K \<and> c \<le> now i))
    \<and> (\<forall>b. (\<forall>p \<in> set (live ctx). b \<le> clocks ctx p) \<longrightarrow> (\<forall>(c, p) \<in> set fired. b \<le> c))
    \<and> (\<forall>p \<in> set (live ctx). \<exists>n. served ctx ctx' fired p n)"
proof (induction "backlog T ctx" arbitrary: ctx k rule: less_induct)
  case less
  note inv = less.prems
  show ?case
  proof (cases "0 < nevts ctx \<and> clocks ctx (theap ctx ! 0) \<le> now k")
    case False
    have all: "now k < clocks ctx p" if p: "p \<in> set (live ctx)" for p
    proof -
      have n: "0 < nevts ctx" using p by (cases "nevts ctx") (auto simp: live_def)
      then have top: "fetch (theap ctx) 0 = Some (theap ctx ! 0)" using inv by (simp add: timer_inv_def)
      have "clocks ctx (theap ctx ! 0) \<le> clocks ctx p" using timer_pop_spec [OF inv n] p top by auto
      then show ?thesis using False n by auto
    qed
    have "run_loop now k ctx = Some ([], ctx)"
      using False inv by (subst run_loop.simps) (auto simp: timer_inv_def fetch_def)
    moreover have "served ctx ctx [] p 0" if "p \<in> set (live ctx)" for p
      using that by (simp add: served_def firings_def queued_after_def event_after_def)
    ultimately show ?thesis using inv all by (intro exI [of _ "[]"] exI [of _ ctx] exI [of _ k]) auto
  next
    case True
    then have n: "0 < nevts ctx" by simp
    have now: "clocks ctx ev \<le> now k" if "fetch (theap ctx) 0 = Some ev" for ev
      using True that by (simp add: fetch_eq_Some)
    then have due: "clocks ctx ev \<le> T" if "fetch (theap ctx) 0 = Some ev" for ev
      using that assms(1) order_trans by blast
    obtain ev ctx1 ctx2 where r: "fetch (theap ctx) 0 = Some ev" "event_heap_pop ctx = Some (ev, ctx1)"
      "event_re_enqueue ctx1 ev = Some ctx2" "timer_inv ctx2" "evs ctx1 = evs ctx"
      "ev \<in> set (live ctx)" "set (live ctx2) \<subseteq> set (live ctx)" "set (live ctx) \<subseteq> insert ev (set (live ctx2))"
      "\<And>p. p \<noteq> ev \<Longrightarrow> evs ctx2 p = evs ctx p" "\<And>p. enable (evs ctx2 p) = enable (evs ctx p)"
      "\<And>p. p \<in> set (live ctx2) \<Longrightarrow> clocks ctx ev \<le> clocks ctx2 p" "backlog T ctx2 < backlog T ctx"
      "\<And>p. p \<in> set (live ctx) \<Longrightarrow> clocks ctx ev \<le> clocks ctx p"
      "ev \<in> set (live ctx2) \<longleftrightarrow> queued_after (evs ctx ev) (Suc 0)"
      "queued_after (evs ctx ev) (Suc 0) \<Longrightarrow> evs ctx2 ev = event_after (evs ctx ev) (Suc 0)"
      using round_spec [OF inv n assms(2) due] by blast
    from less.hyps [OF r(12,4), of "k + 1"]
    obtain rest ctx' K where IH: "run_loop now (k + 1) ctx2 = Some (rest, ctx')" "k + 1 \<le> K" "timer_inv ctx'"
      "set (live ctx') \<subseteq> set (live ctx2)" "\<forall>p \<in> set (live ctx'). now K < clocks ctx' p" "sorted (map fst rest)"
      "\<forall>(c, p) \<in> set rest. p \<in> set (live ctx2) \<and> (\<exists>i. k + 1 \<le> i \<and> i \<le> K \<and> c \<le> now i)"
      "\<And>b. (\<forall>p \<in> set (live ctx2). b \<le> clocks ctx2 p) \<Longrightarrow> (\<forall>(c, p) \<in> set rest. b \<le> c)"
      "\<forall>p \<in> set (live ctx2). \<exists>n. served ctx2 ctx' rest p n"
      by auto
    define first where "first = (if enable (evs ctx ev) \<and> ev_cb (evs ctx ev) then [(clocks ctx ev, ev)] else [])"
    have run: "run_loop now k ctx = Some (first @ rest, ctx')"
      using n r(1-3,5) now [OF r(1)] IH(1) by (subst run_loop.simps) (simp add: Let_def first_def)
    have ge: "\<forall>(c, p) \<in> set rest. clocks ctx ev \<le> c" using IH(8) r(11) by blast
    then have "sorted (map fst (first @ rest))" using IH(6) by (auto simp: first_def)
    moreover have "\<forall>(c, p) \<in> set (first @ rest). p \<in> set (live ctx) \<and> (\<exists>i. k \<le> i \<and> i \<le> K \<and> c \<le> now i)"
    proof -
      have "\<forall>(c, p) \<in> set first. p \<in> set (live ctx) \<and> (\<exists>i. k \<le> i \<and> i \<le> K \<and> c \<le> now i)"
        using r(6) now [OF r(1)] IH(2) by (auto simp: first_def intro: exI [of _ k])
      moreover have "\<forall>(c, p) \<in> set rest. p \<in> set (live ctx) \<and> (\<exists>i. k \<le> i \<and> i \<le> K \<and> c \<le> now i)"
        using IH(7) r(7) by (fastforce dest: Suc_leD)
      ultimately show ?thesis by auto
    qed
    moreover have "\<forall>(c, p) \<in> set (first @ rest). b \<le> c" if "\<forall>p \<in> set (live ctx). b \<le> clocks ctx p" for b
      using that ge r(6) by (force simp: first_def)
    moreover have "\<exists>n. served ctx ctx' (first @ rest) p n" if "p \<in> set (live ctx)" for p
    proof (cases "p = ev")
      case False
      then have "p \<in> set (live ctx2)" "evs ctx2 p = evs ctx p" using that r(8,9) by auto
      moreover have "p \<notin> snd ` set first" using False by (auto simp: first_def)
      ultimately show ?thesis using IH(9) served_other by blast
    next
      case True
      show ?thesis
      proof (cases "queued_after (evs ctx ev) (Suc 0)")
        case True
        then show ?thesis using \<open>p = ev\<close> IH(9) r(14,15) served_again [OF True r(15) _ first_def] by blast
      next
        case False
        then have "ev \<notin> set (live ctx')" "ev \<notin> snd ` set rest" using r(14) IH(4,7) by auto
        then show ?thesis using \<open>p = ev\<close> served_last [OF False _ _ first_def] by blast
      qed
    qed
    moreover have "k \<le> K" using IH(2) by simp
    ultimately show ?thesis using run IH(3-5) r(7) by (intro exI [of _ "first @ rest"] exI [of _ ctx'] exI [of _ K]) blast
  qed
qed

section \<open>Properties\<close>

text \<open>C12: \<open>heap_timer_run\<close> reads the clock in every round.  As long as its readings stay at or below some \<open>T\<close>, from which
  no due clock can wrap, a run ends on every well-formed timer, whatever the intervals and repeat counts; callbacks do not
  change the timer.  Afterwards no queued event is due at the last reading, \<open>now K\<close>.  The callbacks were called in the
  order of the clocks their events were due at, none before a reading had reached that clock.  Each event that was
  queued was taken out some number \<open>n\<close> of times.  If it is not cancelled and has a callback, this was called exactly \<open>n\<close>
  times, for its clock and then one interval after the other; it is queued again exactly when it is not cancelled,
  has an interval and its repeat count allows, and then with its clock \<open>n\<close> intervals later and its repeat count, if
  any, reduced by \<open>n\<close>.\<close>

theorem heap_timer_run_correct:
  assumes "timer_inv ctx" "\<forall>k. now k \<le> T" "unat T + 2 ^ 32 < 2 ^ 64"
  shows "\<exists>fired ctx' K. heap_timer_run now ctx = Some (fired, ctx') \<and> timer_inv ctx'
    \<and> set (live ctx') \<subseteq> set (live ctx) \<and> (\<forall>p \<in> set (live ctx'). now K < clocks ctx' p)
    \<and> sorted (map fst fired)
    \<and> (\<forall>(c, p) \<in> set fired. p \<in> set (live ctx) \<and> (\<exists>i \<le> K. c \<le> now i))
    \<and> (\<forall>p \<in> set (live ctx). \<exists>n.
         (n = 0 \<or> queued_after (evs ctx p) (n - 1))
         \<and> firings fired p = (if enable (evs ctx p) \<and> ev_cb (evs ctx p) then map (due_at (evs ctx p)) [0..<n] else [])
         \<and> (p \<in> set (live ctx') \<longleftrightarrow> queued_after (evs ctx p) n)
         \<and> (queued_after (evs ctx p) n \<longrightarrow> evs ctx' p = event_after (evs ctx p) n))"
proof -
  obtain fired ctx' K where r: "run_loop now 0 ctx = Some (fired, ctx')" "timer_inv ctx'" "set (live ctx') \<subseteq> set (live ctx)"
      "\<forall>p \<in> set (live ctx'). now K < clocks ctx' p" "sorted (map fst fired)"
      "\<forall>(c, p) \<in> set fired. p \<in> set (live ctx) \<and> (\<exists>i. 0 \<le> i \<and> i \<le> K \<and> c \<le> now i)"
      "\<forall>p \<in> set (live ctx). \<exists>n. served ctx ctx' fired p n"
    using run_loop_spec [OF assms(2,3,1), of 0] by blast
  from r(6) have "\<forall>(c, p) \<in> set fired. p \<in> set (live ctx) \<and> (\<exists>i \<le> K. c \<le> now i)" by auto
  with r(1-5) r(7) [unfolded served_def Let_def] show ?thesis
    unfolding heap_timer_run_def by (intro exI [of _ fired] exI [of _ ctx'] exI [of _ K] conjI)
qed

definition timer_example :: heap_timer where
  "timer_example = \<lparr>nevts = 2, max_evts = 3, theap = [7, 5, 0],
     evs = (\<lambda>p. \<lparr>ev_clock = (if p = 7 then 10 else 20), ev_cb = True, ev_data = p, delay = 0, interval = 15,
                 count = 1, enable = p \<noteq> 5\<rparr>)\<rparr>"

lemma timer_example_inv: "timer_inv timer_example"
  by (auto simp: timer_example_def timer_inv_def live_def less_2_cases_iff)

text \<open>An event due at 10 that repeats once, 15 later: with readings 30 and 40 it is called for 10 and for 25.\<close>

theorem heap_timer_run_correct_witness:
  "\<exists>fired ctx'. heap_timer_run (\<lambda>k. if k = 0 then 30 else 40) timer_example = Some (fired, ctx') \<and> timer_inv ctx'
     \<and> firings fired 7 = [10, 25] \<and> firings fired 5 = []"
proof -
  let ?now = "\<lambda>k :: nat. if k = 0 then 30 else 40 :: u64"
  have T: "\<forall>k. ?now k \<le> 40" "unat (40 :: u64) + 2 ^ 32 < 2 ^ 64" by simp_all
  have live: "7 \<in> set (live timer_example)" "5 \<in> set (live timer_example)" by (simp_all add: timer_example_def live_def)
  obtain fired ctx' K where f: "heap_timer_run ?now timer_example = Some (fired, ctx')" "timer_inv ctx'"
      "\<forall>p \<in> set (live ctx'). ?now K < clocks ctx' p"
      "\<forall>p \<in> set (live timer_example). \<exists>n.
         (n = 0 \<or> queued_after (evs timer_example p) (n - 1))
         \<and> firings fired p = (if enable (evs timer_example p) \<and> ev_cb (evs timer_example p)
              then map (due_at (evs timer_example p)) [0..<n] else [])
         \<and> (p \<in> set (live ctx') \<longleftrightarrow> queued_after (evs timer_example p) n)
         \<and> (queued_after (evs timer_example p) n \<longrightarrow> evs ctx' p = event_after (evs timer_example p) n)"
    using heap_timer_run_correct [OF timer_example_inv T] by blast
  let ?e = "evs timer_example 7"
  have q: "queued_after ?e n \<longleftrightarrow> n \<le> 1" for n by (auto simp: queued_after_def timer_example_def)
  have e: "enable ?e" "ev_cb ?e" "\<not> enable (evs timer_example 5)" by (simp_all add: timer_example_def)
  from bspec [OF f(4) live(1)] obtain n where n: "n = 0 \<or> queued_after ?e (n - 1)"
      "firings fired 7 = (if enable ?e \<and> ev_cb ?e then map (due_at ?e) [0..<n] else [])"
      "7 \<in> set (live ctx') \<longleftrightarrow> queued_after ?e n" "queued_after ?e n \<longrightarrow> evs ctx' 7 = event_after ?e n"
    by (elim exE conjE)
  have "n = 2"
  proof (rule ccontr)
    assume "n \<noteq> 2"
    then have "n \<le> 1" using n(1) [unfolded q] by linarith
    then have "queued_after ?e n" using q by blast
    then have "7 \<in> set (live ctx')" "evs ctx' 7 = event_after ?e n" using n(3,4) by blast+
    then have "?now K < ev_clock (event_after ?e n)" using bspec [OF f(3), of 7] by (simp only: simp_thms)
    moreover have "ev_clock (event_after ?e n) \<le> 25"
      using \<open>n \<le> 1\<close> by (cases n) (auto simp: event_after_def due_at_def timer_example_def)
    ultimately have "?now K < 25" by (rule less_le_trans)
    then show False by (simp split: if_splits)
  qed
  then have "firings fired 7 = [10, 25]" using n(2) e(1,2) by (simp add: due_at_def timer_example_def upt_rec)
  moreover have "firings fired 5 = []" using bspec [OF f(4) live(2)] e(3) by (elim exE conjE) simp
  ultimately show ?thesis using f(1,2) by blast
qed

text \<open>Registering an event on a timer with room, at a fresh address, queues it for the clock
  \<open>now + delay\<close>, enabled, and keeps the timer well formed; a full timer and a failed allocation
  return \<open>NULL\<close> and change nothing.\<close>

theorem timer_event_register_correct:
  assumes "timer_inv ctx" "ev \<noteq> 0" "ev \<notin> set (live ctx)"
  shows "if nevts ctx < max_evts ctx
    then timer_event_register None now ctx cb data d i c = Some (None, ctx)
      \<and> (\<exists>ctx'. timer_event_register (Some ev) now ctx cb data d i c = Some (Some ev, ctx') \<and> timer_inv ctx'
          \<and> mset (live ctx') = add_mset ev (mset (live ctx)) \<and> clocks ctx' ev = now + ucast d
          \<and> enable (evs ctx' ev) \<and> (\<forall>p. p \<noteq> ev \<longrightarrow> evs ctx' p = evs ctx p))
    else timer_event_register (Some ev) now ctx cb data d i c = Some (None, ctx)"
proof (cases "nevts ctx < max_evts ctx")
  case True
  define e where "e = \<lparr>ev_clock = now + ucast d, ev_cb = cb, ev_data = data, delay = d, interval = i,
                     count = c, enable = True\<rparr>"
  let ?c = "ctx\<lparr>evs := (evs ctx)(ev := e)\<rparr>"
  obtain ctx' where "event_heap_push ?c ev = Some ctx'" "timer_inv ctx'" "evs ctx' = evs ?c"
      "mset (live ctx') = add_mset ev (mset (live ctx))"
    using timer_push_spec [OF timer_inv_update [OF assms(1,3)], of ev e] assms(2,3) True by (auto simp: live_def)
  moreover from this have "timer_event_register (Some ev) now ctx cb data d i c = Some (Some ev, ctx')"
    using True by (simp add: timer_event_register_def e_def)
  ultimately show ?thesis using True by (auto simp: e_def timer_event_register_def)
qed (simp add: timer_event_register_def)

theorem timer_event_register_correct_witness:
  "\<exists>ctx'. timer_event_register (Some 9) 100 timer_example True 0 5 0 1 = Some (Some 9, ctx') \<and> timer_inv ctx'
     \<and> clocks ctx' 9 = 105"
proof -
  have "9 \<notin> set (live timer_example)" "nevts timer_example < max_evts timer_example"
    by (simp_all add: timer_example_def live_def)
  then show ?thesis
    using timer_event_register_correct [OF timer_example_inv, of 9 100 True 0 5 0 1] by auto
qed

text \<open>A cancelled event is never called: after \<open>timer_event_cancel\<close> a run at any clock calls no
  callback of that event, and the timer stays well formed.\<close>

theorem timer_event_cancel_correct:
  assumes "timer_inv ctx" "ev \<noteq> 0" "unat t + 2 ^ 32 < 2 ^ 64"
  shows "\<exists>ctx1 fired ctx2. timer_event_cancel ctx ev = Some ctx1 \<and> timer_inv ctx1
    \<and> heap_timer_run (\<lambda>_. t) ctx1 = Some (fired, ctx2) \<and> timer_inv ctx2 \<and> ev \<notin> snd ` set fired"
proof -
  let ?c = "ctx\<lparr>evs := (evs ctx)(ev := (evs ctx ev)\<lparr>enable := False\<rparr>)\<rparr>"
  have c: "clocks ?c p = clocks ctx p" for p by simp
  have inv: "timer_inv ?c"
    unfolding timer_inv_def c using assms(1) by (simp add: timer_inv_def live_def)
  obtain fired ctx2 where f: "run_loop (\<lambda>_. t) 0 ?c = Some (fired, ctx2)" "timer_inv ctx2"
      "\<forall>(c, p) \<in> set fired. p \<in> set (live ?c)" "\<forall>p \<in> set (live ?c). \<exists>n. served ?c ctx2 fired p n"
    using run_loop_spec [OF _ assms(3) inv, of "\<lambda>_. t" 0] by fastforce
  have "ev \<notin> snd ` set fired"
  proof
    assume ev: "ev \<in> snd ` set fired"
    then have "ev \<in> set (live ?c)" using f(3) by auto
    then obtain n where "served ?c ctx2 fired ev n" using f(4) by blast
    then have "firings fired ev = []" by (simp add: served_def Let_def)
    then show False using ev by (force simp: firings_def filter_empty_conv)
  qed
  moreover note f(1,2)
  ultimately show ?thesis using inv assms(2) by (auto simp: timer_event_cancel_def heap_timer_run_def)
qed

theorem timer_event_cancel_correct_witness:
  "\<exists>ctx1 fired ctx2. timer_event_cancel timer_example 7 = Some ctx1
    \<and> heap_timer_run (\<lambda>_. 30) ctx1 = Some (fired, ctx2) \<and> 7 \<notin> snd ` set fired"
  using timer_event_cancel_correct [OF timer_example_inv, of 7 30] by auto

end
