(* ===== verification/Crc.thy ===== *)
theory Crc
  imports Prelude
begin

text \<open>
  The checksums of \<open>src/crc/crc.c\<close>: the table-driven \<open>CRC32\<close>, which works on whole 32-bit words
  where the message is aligned, and the bitwise \<open>CRC32MPEG2\<close>.  The reference is the shift register
  itself, one bit at a time.  The message is a byte list at an address, reading past its end is
  \<open>None\<close>; words are little-endian, as on the supported x86 targets (\<open>le2me_32\<close> is the identity).
\<close>

section \<open>The code\<close>

definition rhash_crc32_table :: "u32 list" where
  "rhash_crc32_table = [
    0x00000000, 0x77073096, 0xEE0E612C, 0x990951BA, 0x076DC419, 0x706AF48F, 0xE963A535, 0x9E6495A3,
    0x0EDB8832, 0x79DCB8A4, 0xE0D5E91E, 0x97D2D988, 0x09B64C2B, 0x7EB17CBD, 0xE7B82D07, 0x90BF1D91,
    0x1DB71064, 0x6AB020F2, 0xF3B97148, 0x84BE41DE, 0x1ADAD47D, 0x6DDDE4EB, 0xF4D4B551, 0x83D385C7,
    0x136C9856, 0x646BA8C0, 0xFD62F97A, 0x8A65C9EC, 0x14015C4F, 0x63066CD9, 0xFA0F3D63, 0x8D080DF5,
    0x3B6E20C8, 0x4C69105E, 0xD56041E4, 0xA2677172, 0x3C03E4D1, 0x4B04D447, 0xD20D85FD, 0xA50AB56B,
    0x35B5A8FA, 0x42B2986C, 0xDBBBC9D6, 0xACBCF940, 0x32D86CE3, 0x45DF5C75, 0xDCD60DCF, 0xABD13D59,
    0x26D930AC, 0x51DE003A, 0xC8D75180, 0xBFD06116, 0x21B4F4B5, 0x56B3C423, 0xCFBA9599, 0xB8BDA50F,
    0x2802B89E, 0x5F058808, 0xC60CD9B2, 0xB10BE924, 0x2F6F7C87, 0x58684C11, 0xC1611DAB, 0xB6662D3D,
    0x76DC4190, 0x01DB7106, 0x98D220BC, 0xEFD5102A, 0x71B18589, 0x06B6B51F, 0x9FBFE4A5, 0xE8B8D433,
    0x7807C9A2, 0x0F00F934, 0x9609A88E, 0xE10E9818, 0x7F6A0DBB, 0x086D3D2D, 0x91646C97, 0xE6635C01,
    0x6B6B51F4, 0x1C6C6162, 0x856530D8, 0xF262004E, 0x6C0695ED, 0x1B01A57B, 0x8208F4C1, 0xF50FC457,
    0x65B0D9C6, 0x12B7E950, 0x8BBEB8EA, 0xFCB9887C, 0x62DD1DDF, 0x15DA2D49, 0x8CD37CF3, 0xFBD44C65,
    0x4DB26158, 0x3AB551CE, 0xA3BC0074, 0xD4BB30E2, 0x4ADFA541, 0x3DD895D7, 0xA4D1C46D, 0xD3D6F4FB,
    0x4369E96A, 0x346ED9FC, 0xAD678846, 0xDA60B8D0, 0x44042D73, 0x33031DE5, 0xAA0A4C5F, 0xDD0D7CC9,
    0x5005713C, 0x270241AA, 0xBE0B1010, 0xC90C2086, 0x5768B525, 0x206F85B3, 0xB966D409, 0xCE61E49F,
    0x5EDEF90E, 0x29D9C998, 0xB0D09822, 0xC7D7A8B4, 0x59B33D17, 0x2EB40D81, 0xB7BD5C3B, 0xC0BA6CAD,
    0xEDB88320, 0x9ABFB3B6, 0x03B6E20C, 0x74B1D29A, 0xEAD54739, 0x9DD277AF, 0x04DB2615, 0x73DC1683,
    0xE3630B12, 0x94643B84, 0x0D6D6A3E, 0x7A6A5AA8, 0xE40ECF0B, 0x9309FF9D, 0x0A00AE27, 0x7D079EB1,
    0xF00F9344, 0x8708A3D2, 0x1E01F268, 0x6906C2FE, 0xF762575D, 0x806567CB, 0x196C3671, 0x6E6B06E7,
    0xFED41B76, 0x89D32BE0, 0x10DA7A5A, 0x67DD4ACC, 0xF9B9DF6F, 0x8EBEEFF9, 0x17B7BE43, 0x60B08ED5,
    0xD6D6A3E8, 0xA1D1937E, 0x38D8C2C4, 0x4FDFF252, 0xD1BB67F1, 0xA6BC5767, 0x3FB506DD, 0x48B2364B,
    0xD80D2BDA, 0xAF0A1B4C, 0x36034AF6, 0x41047A60, 0xDF60EFC3, 0xA867DF55, 0x316E8EEF, 0x4669BE79,
    0xCB61B38C, 0xBC66831A, 0x256FD2A0, 0x5268E236, 0xCC0C7795, 0xBB0B4703, 0x220216B9, 0x5505262F,
    0xC5BA3BBE, 0xB2BD0B28, 0x2BB45A92, 0x5CB36A04, 0xC2D7FFA7, 0xB5D0CF31, 0x2CD99E8B, 0x5BDEAE1D,
    0x9B64C2B0, 0xEC63F226, 0x756AA39C, 0x026D930A, 0x9C0906A9, 0xEB0E363F, 0x72076785, 0x05005713,
    0x95BF4A82, 0xE2B87A14, 0x7BB12BAE, 0x0CB61B38, 0x92D28E9B, 0xE5D5BE0D, 0x7CDCEFB7, 0x0BDBDF21,
    0x86D3D2D4, 0xF1D4E242, 0x68DDB3F8, 0x1FDA836E, 0x81BE16CD, 0xF6B9265B, 0x6FB077E1, 0x18B74777,
    0x88085AE6, 0xFF0F6A70, 0x66063BCA, 0x11010B5C, 0x8F659EFF, 0xF862AE69, 0x616BFFD3, 0x166CCF45,
    0xA00AE278, 0xD70DD2EE, 0x4E048354, 0x3903B3C2, 0xA7672661, 0xD06016F7, 0x4969474D, 0x3E6E77DB,
    0xAED16A4A, 0xD9D65ADC, 0x40DF0B66, 0x37D83BF0, 0xA9BCAE53, 0xDEBB9EC5, 0x47B2CF7F, 0x30B5FFE9,
    0xBDBDF21C, 0xCABAC28A, 0x53B39330, 0x24B4A3A6, 0xBAD03605, 0xCDD70693, 0x54DE5729, 0x23D967BF,
    0xB3667A2E, 0xC4614AB8, 0x5D681B02, 0x2A6F2B94, 0xB40BBE37, 0xC30C8EA1, 0x5A05DF1B, 0x2D02EF8D]"

text \<open>One step of the table: \<open>crc = rhash_crc32_table[crc & 0xFF] ^ (crc >> 8)\<close>.\<close>

definition crc_step :: "u32 \<Rightarrow> u32" where
  "crc_step crc = rhash_crc32_table ! unat (crc AND 0xFF) XOR shr crc 8"

definition crc_byte :: "u32 \<Rightarrow> u8 \<Rightarrow> u32" where
  "crc_byte crc b = rhash_crc32_table ! unat ((crc XOR ucast b) AND 0xFF) XOR shr crc 8"

definition load_le32 :: "bytes \<Rightarrow> u32" where
  "load_le32 b = ucast (b ! 0) OR shl (ucast (b ! 1)) 8 OR shl (ucast (b ! 2)) 16 OR shl (ucast (b ! 3)) 24"

definition crc_word :: "u32 \<Rightarrow> bytes \<Rightarrow> u32" where
  "crc_word crc w = crc_step (crc_step (crc_step (crc_step (crc XOR load_le32 w))))"

fun crc_head :: "nat \<Rightarrow> u32 \<Rightarrow> bytes \<Rightarrow> int \<Rightarrow> (u32 \<times> bytes \<times> int) option" where
  "crc_head addr crc msg sz =
     (if addr mod 4 \<noteq> 0 \<and> sz > 0
      then case msg of [] \<Rightarrow> None
           | b # msg \<Rightarrow> crc_head (addr + 1) (crc_byte crc b) msg (sz - 1)
      else Some (crc, msg, sz))"

fun crc_blocks :: "u32 \<Rightarrow> bytes \<Rightarrow> nat \<Rightarrow> (u32 \<times> bytes) option" where
  "crc_blocks crc msg 0 = Some (crc, msg)"
| "crc_blocks crc msg (Suc k) =
     (if 16 \<le> length msg
      then let crc = crc_word crc (take 4 msg);
               crc = crc_word crc (take 4 (drop 4 msg));
               crc = crc_word crc (take 4 (drop 8 msg));
               crc = crc_word crc (take 4 (drop 12 msg))
           in crc_blocks crc (drop 16 msg) k
      else None)"

fun crc_tail :: "u32 \<Rightarrow> bytes \<Rightarrow> nat \<Rightarrow> u32 option" where
  "crc_tail crc msg 0 = Some crc"
| "crc_tail crc msg (Suc k) = (case msg of [] \<Rightarrow> None | b # msg \<Rightarrow> crc_tail (crc_byte crc b) msg k)"

definition CRC32 :: "nat \<Rightarrow> u32 \<Rightarrow> bytes \<Rightarrow> int \<Rightarrow> u32 option" where
  "CRC32 addr crcinit msg sz = do {
     (crc, msg, sz) \<leftarrow> crc_head addr (crcinit XOR 0xFFFFFFFF) msg sz;
     (crc, msg) \<leftarrow> crc_blocks crc msg (nat (sz AND NOT 15) div 16);
     crc \<leftarrow> crc_tail crc msg (nat (sz AND 15));
     Some (crc XOR 0xFFFFFFFF) }"

definition mpeg2_bit :: "u8 \<Rightarrow> u32 \<Rightarrow> nat \<Rightarrow> u32" where
  "mpeg2_bit d uVal j =
     (let b = shr ((shl (ucast d) j) AND 0x80) 7 :: u32;
          utemp = shr (uVal AND 0x80000000) 31 XOR b;
          uVal = (if utemp = 1 then uVal XOR 0x02608EDB else uVal)
      in shl uVal 1 OR utemp)"

text \<open>The index is an \<open>unsigned char\<close>, so it wraps at 256.\<close>

partial_function (option) mpeg2_loop :: "bytes \<Rightarrow> int \<Rightarrow> u8 \<Rightarrow> u32 \<Rightarrow> u32 option" where
  "mpeg2_loop data len i uVal =
     (if uint i < len
      then do { d \<leftarrow> fetch data (unat i); mpeg2_loop data len (i + 1) (foldl (mpeg2_bit d) uVal [0..<8]) }
      else Some uVal)"

definition CRC32MPEG2 :: "bytes \<Rightarrow> int \<Rightarrow> u32 option" where
  "CRC32MPEG2 data len = mpeg2_loop data len 0 0xFFFFFFFF"

section \<open>The reference\<close>

definition crc_bit :: "u32 \<Rightarrow> u32" where
  "crc_bit c = (if bit c 0 then shr c 1 XOR 0xEDB88320 else shr c 1)"

fun crc_bits :: "nat \<Rightarrow> u32 \<Rightarrow> u32" where
  "crc_bits 0 c = c"
| "crc_bits (Suc n) c = crc_bits n (crc_bit c)"

text \<open>A byte enters the low end of the register and is shifted out bit by bit.\<close>

definition crc_ref :: "u32 \<Rightarrow> bytes \<Rightarrow> u32" where
  "crc_ref crc msg = foldl (\<lambda>crc b. crc_bits 8 (crc XOR ucast b)) crc msg"

section \<open>The table\<close>

lemma crc_bit_xor: "crc_bit (a XOR b) = crc_bit a XOR crc_bit b"
  by (auto simp: crc_bit_def bit_xor_iff drop_bit_xor xor.assoc xor.left_commute xor.commute)

lemma crc_bits_xor: "crc_bits n (a XOR b) = crc_bits n a XOR crc_bits n b"
  by (induction n arbitrary: a b) (simp_all add: crc_bit_xor)

lemma crc_bits_0 [simp]: "crc_bits n 0 = 0"
  by (induction n) (simp_all add: crc_bit_def)

lemma crc_bits_8:
  "crc_bits 8 c = crc_bit (crc_bit (crc_bit (crc_bit (crc_bit (crc_bit (crc_bit (crc_bit c)))))))"
  by (simp add: numeral_eq_Suc)

text \<open>The table doubles: the entries with bit \<open>k\<close> set are those without it, plus entry \<open>2 ^ k\<close>.\<close>

definition dbl :: "u32 list \<Rightarrow> u32 list" where
  "dbl ts = foldl (\<lambda>l t. l @ map (\<lambda>x. x XOR t) l) [0] ts"

lemma table_dbl:
  "rhash_crc32_table = dbl [0x77073096, 0xEE0E612C, 0x076DC419, 0x0EDB8832, 0x1DB71064, 0x3B6E20C8,
     0x76DC4190, 0xEDB88320]"
  by (simp add: rhash_crc32_table_def dbl_def)

lemma crc_bits_powers:
  "crc_bits 8 1 = 0x77073096" "crc_bits 8 2 = 0xEE0E612C" "crc_bits 8 4 = 0x076DC419"
  "crc_bits 8 8 = 0x0EDB8832" "crc_bits 8 16 = 0x1DB71064" "crc_bits 8 32 = 0x3B6E20C8"
  "crc_bits 8 64 = 0x76DC4190" "crc_bits 8 128 = 0xEDB88320"
  by (simp_all add: crc_bits_8 crc_bit_def bit_0)

lemma of_nat_add_power:
  assumes "n < 2 ^ k" "k < 32"
  shows "(of_nat (2 ^ k + n) :: u32) = of_nat n XOR 2 ^ k"
proof (rule bit_word_eqI)
  fix i assume i: "i < LENGTH(32)"
  have "bit (n + 2 ^ k * 1) i \<longleftrightarrow> (if i < k then bit n i else bit (1::nat) (i - k))"
    using bit_add_shift [OF assms(1), of 1 i] .
  moreover have "\<not> bit n i" if "k \<le> i"
  proof -
    have "n < 2 ^ i" using that assms(1) by (meson less_le_trans one_le_numeral power_increasing)
    then show ?thesis by (simp add: bit_iff_odd)
  qed
  moreover have "bit (of_nat (2 ^ k + n) :: u32) i \<longleftrightarrow> bit (n + 2 ^ k * 1) i"
    using i by (simp only: bit_of_nat_iff) (simp add: add.commute)
  moreover have "bit (of_nat n XOR 2 ^ k :: u32) i \<longleftrightarrow> (bit n i \<noteq> (i = k))"
    using i assms(2) by (auto simp: bit_xor_iff bit_exp_iff bit_of_nat_iff)
  ultimately show "bit (of_nat (2 ^ k + n) :: u32) i = bit (of_nat n XOR 2 ^ k :: u32) i"
    by (cases "i < k"; cases "i = k") (simp_all add: bit_1_iff bit_Suc_0_iff)
qed

lemma dbl_nth: "k \<le> 8 \<Longrightarrow> dbl (map (\<lambda>j. crc_bits 8 (2 ^ j)) [0..<k]) = map (\<lambda>n. crc_bits 8 (of_nat n)) [0..<2 ^ k]"
proof (induction k)
  case 0
  then show ?case by (simp add: dbl_def)
next
  case (Suc k)
  let ?f = "\<lambda>n. crc_bits 8 (of_nat n)"
  have "dbl (map (\<lambda>j. crc_bits 8 (2 ^ j)) [0..<Suc k])
      = map ?f [0..<2 ^ k] @ map (\<lambda>n. ?f n XOR crc_bits 8 (2 ^ k)) [0..<2 ^ k]"
    using Suc by (simp add: dbl_def comp_def)
  also have "map (\<lambda>n. ?f n XOR crc_bits 8 (2 ^ k)) [0..<2 ^ k] = map (\<lambda>n. ?f (2 ^ k + n)) [0..<2 ^ k]"
    using Suc.prems by (intro map_cong) (auto simp: of_nat_add_power crc_bits_xor simp del: of_nat_add)
  also have "map ?f [0..<2 ^ k] @ map (\<lambda>n. ?f (2 ^ k + n)) [0..<2 ^ k] = map ?f [0..<2 ^ k + 2 ^ k]"
    by (rule nth_equalityI) (auto simp: nth_append)
  finally show ?case by (simp add: mult_2)
qed

lemma table_nth:
  assumes "n < 256"
  shows "rhash_crc32_table ! n = crc_bits 8 (of_nat n)"
proof -
  have "rhash_crc32_table = map (\<lambda>n. crc_bits 8 (of_nat n)) [0..<2 ^ 8]"
    unfolding table_dbl by (subst dbl_nth [symmetric]) (simp_all add: upt_conv_Cons crc_bits_powers)
  from arg_cong [OF this, of "\<lambda>l. l ! n"] show ?thesis using assms by simp
qed

section \<open>The table-driven steps are shifts of the register\<close>

lemma crc_bits_zeros: "(\<And>i. i < n \<Longrightarrow> \<not> bit y i) \<Longrightarrow> crc_bits n y = shr y n"
proof (induction n arbitrary: y)
  case (Suc n)
  have "crc_bit y = shr y 1" using Suc.prems [of 0] by (simp add: crc_bit_def)
  moreover have "crc_bits n (shr y 1) = shr (shr y 1) n"
    using Suc.prems by (intro Suc.IH) (simp add: bit_drop_bit_eq)
  ultimately show ?case by (simp add: drop_bit_drop_bit)
qed simp

lemma crc_bits_table: "rhash_crc32_table ! unat (c AND 0xFF) XOR shr c 8 = crc_bits 8 c"
proof -
  have m: "(0xFF :: u32) = mask 8" by (simp add: mask_eq_exp_minus_1)
  have lt: "unat (c AND 0xFF) < 256" using unat_and_numeral_mask_less [OF m, of c] by simp
  have split: "c = (c AND 0xFF) XOR (c AND NOT 0xFF)"
    by (rule bit_word_eqI) (auto simp: bit_simps)
  have "crc_bits 8 (c AND NOT 0xFF) = shr (c AND NOT 0xFF) 8"
    unfolding m by (rule crc_bits_zeros) (simp add: bit_simps)
  also have "\<dots> = shr c 8" unfolding m by (rule bit_word_eqI) (auto simp: bit_simps dest: bit_imp_le_length)
  finally have "crc_bits 8 c = crc_bits 8 (c AND 0xFF) XOR shr c 8"
    by (subst split) (simp only: crc_bits_xor)
  then show ?thesis using table_nth [OF lt] by simp
qed

lemma crc_step_bits: "crc_step c = crc_bits 8 c"
  unfolding crc_step_def by (rule crc_bits_table)

lemma crc_byte_bits: "crc_byte crc b = crc_bits 8 (crc XOR ucast b)"
proof -
  have "shr (crc XOR ucast b) 8 = shr crc 8"
    by (rule bit_word_eqI) (auto simp: bit_simps dest: bit_imp_le_length)
  then show ?thesis using crc_bits_table [of "crc XOR ucast b"] by (simp add: crc_byte_def)
qed

text \<open>Bits that have not reached the low end yet are only shifted.\<close>

lemma crc_bits_shift: "shr (shl x 8) 8 = x \<Longrightarrow> crc_bits 8 (c XOR shl x 8) = crc_bits 8 c XOR x"
  using crc_bits_zeros [of 8 "shl x 8"] by (simp add: crc_bits_xor bit_push_bit_iff)

lemma load_le32_nested:
  "load_le32 [a, b, c, d] = ucast a XOR shl (ucast b XOR shl (ucast c XOR shl (ucast d) 8) 8) 8"
proof (rule bit_word_eqI)
  fix n assume "n < LENGTH(32)"
  then show "bit (load_le32 [a, b, c, d]) n
      = bit (ucast a XOR shl (ucast b XOR shl (ucast c XOR shl (ucast d) 8) 8) 8 :: u32) n"
    unfolding load_le32_def
    by (auto simp: bit_simps numeral_2_eq_2 numeral_3_eq_3 dest: bit_imp_le_length)
qed

lemma crc_word_ref: "crc_word crc [a, b, c, d] = crc_ref crc [a, b, c, d]"
proof -
  have s: "shr (shl (ucast d :: u32) 8) 8 = ucast d"
    "shr (shl (ucast c XOR shl (ucast d) 8 :: u32) 8) 8 = ucast c XOR shl (ucast d) 8"
    "shr (shl (ucast b XOR shl (ucast c XOR shl (ucast d) 8) 8 :: u32) 8) 8
       = ucast b XOR shl (ucast c XOR shl (ucast d) 8) 8"
    by (rule bit_word_eqI, auto simp: bit_simps dest: bit_imp_le_length)+
  show ?thesis
    unfolding crc_word_def crc_step_bits load_le32_nested crc_ref_def
    by (simp only: xor.assoc [symmetric] crc_bits_shift [OF s(1)] crc_bits_shift [OF s(2)]
        crc_bits_shift [OF s(3)] foldl.simps)
qed

lemma list4: "length w = 4 \<Longrightarrow> w = [w ! 0, w ! 1, w ! 2, w ! 3]"
  by (auto simp: numeral_eq_Suc length_Suc_conv)

lemma crc_ref_append: "crc_ref crc (a @ b) = crc_ref (crc_ref crc a) b"
  by (simp add: crc_ref_def)

lemma crc_word_take:
  assumes "k + 4 \<le> length msg"
  shows "crc_word crc (take 4 (drop k msg)) = crc_ref crc (take 4 (drop k msg))"
proof -
  have "length (take 4 (drop k msg)) = 4" using assms by simp
  from list4 [OF this] obtain a b c d where "take 4 (drop k msg) = [a, b, c, d]" by blast
  then show ?thesis by (simp only: crc_word_ref)
qed

lemma crc_blocks_ref:
  "16 * k \<le> length msg \<Longrightarrow> crc_blocks crc msg k = Some (crc_ref crc (take (16 * k) msg), drop (16 * k) msg)"
proof (induction crc msg k rule: crc_blocks.induct)
  case (2 crc msg k)
  let ?w = "\<lambda>i. take 4 (drop i msg)"
  have t: "take 16 msg = ?w 0 @ ?w 4 @ ?w 8 @ ?w 12"
    using take_add [of 4 4 msg] take_add [of 8 4 msg] take_add [of 12 4 msg] by simp
  have len: "16 \<le> length msg" "16 * k \<le> length (drop 16 msg)" using "2.prems" by auto
  have "crc_word (crc_word (crc_word (crc_word crc (?w 0)) (?w 4)) (?w 8)) (?w 12) = crc_ref crc (take 16 msg)"
    using len(1) by (simp add: t crc_ref_append crc_word_take [of 0, simplified] crc_word_take)
  moreover have "take (16 * Suc k) msg = take 16 msg @ take (16 * k) (drop 16 msg)" by (simp add: take_add)
  moreover have "drop (16 * Suc k) msg = drop (16 * k) (drop 16 msg)" by (simp add: add.commute)
  ultimately show ?case using 2 len by (simp add: Let_def crc_ref_append)
qed (simp add: crc_ref_def)

lemma crc_tail_ref: "k \<le> length msg \<Longrightarrow> crc_tail crc msg k = Some (crc_ref crc (take k msg))"
  by (induction crc msg k rule: crc_tail.induct)
    (auto simp: crc_ref_def crc_byte_bits split: list.splits)

declare crc_head.simps [simp del]

lemma crc_head_ref:
  "\<exists>k \<le> length msg. crc_head addr crc msg (int (length msg))
     = Some (crc_ref crc (take k msg), drop k msg, int (length msg - k))"
proof (induction msg arbitrary: addr crc)
  case Nil
  then show ?case by (subst crc_head.simps) (simp add: crc_ref_def)
next
  case (Cons b msg)
  show ?case
  proof (cases "addr mod 4 \<noteq> 0")
    case True
    obtain k where k: "k \<le> length msg" "crc_head (addr + 1) (crc_byte crc b) msg (int (length msg))
       = Some (crc_ref (crc_byte crc b) (take k msg), drop k msg, int (length msg - k))"
      using Cons by blast
    then have "crc_head addr crc (b # msg) (int (length (b # msg)))
        = Some (crc_ref crc (take (Suc k) (b # msg)), drop (Suc k) (b # msg), int (length (b # msg) - Suc k))"
      using True by (subst crc_head.simps) (simp add: crc_ref_def crc_byte_bits)
    then show ?thesis using k(1) by (metis Suc_le_mono length_Cons)
  next
    case False
    then have "crc_head addr crc (b # msg) (int (length (b # msg)))
        = Some (crc_ref crc (take 0 (b # msg)), drop 0 (b # msg), int (length (b # msg) - 0))"
      by (subst crc_head.simps) (simp add: crc_ref_def)
    then show ?thesis by blast
  qed
qed

lemma and_15: "nat (int n AND 15) = n mod 16"
  and and_not_15: "nat (int n AND NOT 15) div 16 = n div 16"
proof -
  have m: "(15 :: int) = mask 4" by (simp add: mask_eq_exp_minus_1)
  show "nat (int n AND 15) = n mod 16"
    unfolding m take_bit_eq_mask [symmetric] by (simp add: take_bit_eq_mod nat_mod_distrib)
  have "int n AND NOT 15 = push_bit 4 (drop_bit 4 (int n))"
    unfolding m by (rule bit_eqI) (auto simp: bit_simps)
  then show "nat (int n AND NOT 15) div 16 = n div 16"
    by (simp add: push_bit_eq_mult drop_bit_eq_div nat_mult_distrib nat_div_distrib)
qed

lemma CRC32_ref:
  "CRC32 addr crcinit msg (int (length msg)) = Some (crc_ref (crcinit XOR 0xFFFFFFFF) msg XOR 0xFFFFFFFF)"
proof -
  let ?c = "crcinit XOR 0xFFFFFFFF"
  obtain k where k: "k \<le> length msg" "crc_head addr ?c msg (int (length msg))
     = Some (crc_ref ?c (take k msg), drop k msg, int (length msg - k))"
    using crc_head_ref by blast
  let ?m = "drop k msg" and ?n = "length msg - k"
  have b: "crc_blocks (crc_ref ?c (take k msg)) ?m (?n div 16)
      = Some (crc_ref (crc_ref ?c (take k msg)) (take (16 * (?n div 16)) ?m), drop (16 * (?n div 16)) ?m)"
    by (rule crc_blocks_ref) simp
  have t: "crc_tail c (drop (16 * (?n div 16)) ?m) (?n mod 16) = Some (crc_ref c (drop (16 * (?n div 16)) ?m))" for c
  proof -
    have "length (drop (16 * (?n div 16)) ?m) = ?n mod 16"
      by (simp only: length_drop minus_mult_div_eq_mod)
    then show ?thesis using crc_tail_ref [of "?n mod 16" "drop (16 * (?n div 16)) ?m" c]
      by (simp only: take_all order_refl)
  qed
  have "crc_ref (crc_ref (crc_ref ?c (take k msg)) (take (16 * (?n div 16)) ?m)) (drop (16 * (?n div 16)) ?m)
      = crc_ref ?c msg"
    by (simp only: crc_ref_append [symmetric] append_take_drop_id append.assoc)
  then show ?thesis
    unfolding CRC32_def using k b t by (simp only: bind.bind_lunit prod.case and_15 and_not_15)
qed

section \<open>The bitwise checksum\<close>

text \<open>The reference of \<open>CRC32MPEG2\<close>: the register is shifted out at its high end, with the
  generator \<open>0x04C11DB7\<close>.\<close>

definition mpeg2_ref_bit :: "u32 \<Rightarrow> bool \<Rightarrow> u32" where
  "mpeg2_ref_bit crc b = (if bit crc 31 \<noteq> b then shl crc 1 XOR 0x04C11DB7 else shl crc 1)"

definition mpeg2_ref :: "u32 \<Rightarrow> bytes \<Rightarrow> u32" where
  "mpeg2_ref crc data = foldl (\<lambda>crc d. foldl mpeg2_ref_bit crc (map (\<lambda>j. bit d (7 - j)) [0..<8])) crc data"

lemma or_1_even: "\<not> bit y 0 \<Longrightarrow> y OR 1 = y XOR (1 :: u32)"
  by (rule bit_word_eqI) (auto simp: bit_simps intro: gr0I)

lemma mpeg2_bit_ref:
  assumes "j < 8"
  shows "mpeg2_bit d crc j = mpeg2_ref_bit crc (bit d (7 - j))"
proof -
  have m: "(0x80 :: u32) = push_bit 7 1" "(0x80000000 :: u32) = push_bit 31 1"
    by (simp_all add: push_bit_eq_mult)
  have b: "shr ((shl (ucast d) j) AND 0x80) 7 = (of_bool (bit d (7 - j)) :: u32)"
    unfolding m by (rule bit_word_eqI) (use assms in \<open>auto simp: bit_simps\<close>)
  have t: "shr (crc AND 0x80000000) 31 = (of_bool (bit crc 31) :: u32)"
    unfolding m by (rule bit_word_eqI) (auto simp: bit_simps)
  have odd: "shl (crc XOR 0x02608EDB) 1 OR 1 = shl crc 1 XOR (0x04C11DB7 :: u32)"
  proof -
    have "\<not> bit (shl (crc XOR 0x02608EDB) 1) 0" by (simp only: bit_push_bit_iff) simp
    then have "shl (crc XOR 0x02608EDB) 1 OR 1 = shl (crc XOR 0x02608EDB) 1 XOR 1" by (rule or_1_even)
    also have "\<dots> = shl crc 1 XOR (shl 0x02608EDB 1 XOR 1)" by (simp only: push_bit_xor xor.assoc)
    also have "shl 0x02608EDB 1 XOR 1 = (0x04C11DB7 :: u32)" by simp
    finally show ?thesis .
  qed
  show ?thesis
    unfolding mpeg2_bit_def Let_def b t mpeg2_ref_bit_def
    by (cases "bit crc 31"; cases "bit d (7 - j)")
      (simp_all only: of_bool_eq xor.right_neutral xor.left_neutral xor_self_eq odd if_True if_False
        simp_thms or.right_neutral zero_neq_one)
qed

lemma mpeg2_byte_ref:
  "foldl (mpeg2_bit d) crc [0..<8] = foldl mpeg2_ref_bit crc (map (\<lambda>j. bit d (7 - j)) [0..<8])"
proof -
  have "foldl (mpeg2_bit d) crc js = foldl mpeg2_ref_bit crc (map (\<lambda>j. bit d (7 - j)) js)"
    if "\<forall>j \<in> set js. j < 8" for js
    using that by (induction js arbitrary: crc) (simp_all add: mpeg2_bit_ref)
  then show ?thesis by simp
qed

lemma uint_less_iff: "uint (i :: u8) < int n \<longleftrightarrow> unat i < n"
proof -
  have "uint i = int (unat i)" by simp
  then show ?thesis by linarith
qed

lemma mpeg2_loop_ref:
  assumes "len \<le> 255"
  shows "length data = len \<Longrightarrow> unat i \<le> len \<Longrightarrow>
    mpeg2_loop data (int len) i crc = Some (mpeg2_ref crc (drop (unat i) data))"
proof (induction "len - unat i" arbitrary: i crc)
  case 0
  then have "\<not> uint i < int len" by (simp add: uint_less_iff)
  with 0 show ?case by (subst mpeg2_loop.simps) (simp add: mpeg2_ref_def)
next
  case (Suc k)
  then have lt: "unat i < length data" by simp
  have next_i: "unat (i + 1) = unat i + 1" using lt Suc.prems assms by (simp add: unat_word_ariths)
  have "drop (unat i) data = data ! unat i # drop (unat i + 1) data"
    using lt by (simp add: Cons_nth_drop_Suc)
  moreover have "mpeg2_loop data (int len) (i + 1) c = Some (mpeg2_ref c (drop (unat (i + 1)) data))" for c
    using Suc lt next_i by (intro Suc.hyps(1)) simp_all
  moreover have "uint i < int len" using lt Suc.prems by (simp add: uint_less_iff)
  ultimately show ?case
    using lt by (subst mpeg2_loop.simps) (simp add: mpeg2_ref_def mpeg2_byte_ref next_i)
qed

lemma mpeg2_loop_diverges:
  assumes "256 \<le> len"
  shows "mpeg2_loop data len i crc = None"
proof (rule ccontr)
  assume "mpeg2_loop data len i crc \<noteq> None"
  then obtain r where ret: "mpeg2_loop data len i crc = Some r" by blast
  have "\<not> 256 \<le> len"
  proof (rule mpeg2_loop.raw_induct [where P = "\<lambda>data len i crc r. \<not> 256 \<le> len", OF _ ret])
    fix f :: "bytes \<Rightarrow> int \<Rightarrow> u8 \<Rightarrow> u32 \<Rightarrow> u32 option" and data len i crc r
    assume IH: "\<And>data len i crc r. f data len i crc = Some r \<Longrightarrow> \<not> 256 \<le> len"
      and eq: "(if uint i < len
          then do { d \<leftarrow> fetch data (unat i); f data len (i + 1) (foldl (mpeg2_bit d) crc [0..<8]) }
          else Some crc) = Some r"
    show "\<not> 256 \<le> len"
    proof
      assume len: "256 \<le> len"
      have "uint i < len" using len uint_bounded [of i] by simp
      then show False using eq IH len by (auto split: Option.bind_splits)
    qed
  qed
  with assms show False by simp
qed

section \<open>Properties\<close>

text \<open>C13: for every message, at every alignment of its address, the table-driven \<open>CRC32\<close> returns the
  value of the bitwise shift register (generator \<open>0xEDB88320\<close>, complemented in and out), and reads
  only the message.\<close>

theorem CRC32_correct:
  "CRC32 addr crcinit msg (int (length msg)) = Some (crc_ref (crcinit XOR 0xFFFFFFFF) msg XOR 0xFFFFFFFF)"
  by (rule CRC32_ref)

text \<open>A checksum can be computed in pieces: continuing with the result of one piece on the next
  gives the checksum of the whole, whatever the lengths and the alignments.\<close>

theorem CRC32_streaming:
  "do { c \<leftarrow> CRC32 addr1 crcinit a (int (length a)); CRC32 addr2 c b (int (length b)) }
   = CRC32 addr3 crcinit (a @ b) (int (length (a @ b)))"
  by (simp only: CRC32_ref bind.bind_lunit crc_ref_append xor.assoc word_bw_same xor_self_eq xor.right_neutral)

text \<open>\<open>CRC32MPEG2\<close> returns the MPEG-2 checksum (generator \<open>0x04C11DB7\<close>, high bit first, initial
  value all ones) of every message shorter than 256 bytes, and does not return for a longer one:
  its index is an \<open>unsigned char\<close>.\<close>

theorem CRC32MPEG2_correct:
  "CRC32MPEG2 data (int (length data))
   = (if length data < 256 then Some (mpeg2_ref 0xFFFFFFFF data) else None)"
  using mpeg2_loop_ref [of "length data" data 0 "0xFFFFFFFF"]
  by (simp add: CRC32MPEG2_def mpeg2_loop_diverges)

end
