(* ===== verification/Merkle_Damgard.thy ===== *)
theory Merkle_Damgard
  imports Prelude
begin

text \<open>
  What the SHA modules under \<open>src/sha\<close> share.  The error codes and the context structure of
  \<open>sha.h\<close> (the three structures differ only in the word type and in the sizes of their arrays, so
  they are one record over the word type), the loops that every module repeats word for word
  (zero filling of a block, the tables of \<open>FinalBits\<close>), and the abstract construction the standard
  describes: a message is padded to whole blocks, and the blocks are folded with a compression
  function.  The locale \<open>block_hash\<close> states what the construction needs of one module; its lemmas
  show that feeding a message in any pieces and finishing computes the digest of the padded
  message.
\<close>

section \<open>Data of \<open>sha.h\<close>\<close>

datatype sha_error = shaSuccess | shaNull | shaInputTooLong | shaStateError | shaBadParam

record 'w shaContext =
  Intermediate_Hash :: "'w list"
  Length_High :: 'w
  Length_Low :: 'w
  Message_Block_Index :: nat
  Message_Block :: bytes
  Computed :: bool
  Corrupted :: sha_error

type_synonym SHA1Context = "u32 shaContext"
type_synonym SHA256Context = "u32 shaContext"
type_synonym SHA512Context = "u64 shaContext"

text \<open>A pointer argument that may be \<open>NULL\<close> is an option; a function that takes a context by
  pointer returns it updated.  The outer option of a result is \<open>None\<close> when an array is accessed out
  of its bounds.\<close>

section \<open>Loops shared by the modules\<close>

text \<open>\<open>while (index < limit) Message_Block[index++] = 0\<close>.\<close>

function fill_zeros :: "'w shaContext \<Rightarrow> nat \<Rightarrow> 'w shaContext option" where
  "fill_zeros ctx limit =
     (if Message_Block_Index ctx < limit
      then do {
        block \<leftarrow> store (Message_Block ctx) (Message_Block_Index ctx) 0;
        fill_zeros (ctx\<lparr>Message_Block := block, Message_Block_Index := Message_Block_Index ctx + 1\<rparr>) limit
      }
      else Some ctx)"
  by auto
termination by (relation "measure (\<lambda>(ctx, limit). limit - Message_Block_Index ctx)") auto

declare fill_zeros.simps [simp del]

definition masks :: "u8 list" where
  "masks = [0x00, 0x80, 0xC0, 0xE0, 0xF0, 0xF8, 0xFC, 0xFE]"

definition markbit :: "u8 list" where
  "markbit = [0x80, 0x40, 0x20, 0x10, 0x08, 0x04, 0x02, 0x01]"

section \<open>The construction\<close>

text \<open>Folding the whole blocks of a message.\<close>

function hash_blocks :: "('h \<Rightarrow> 'b list \<Rightarrow> 'h) \<Rightarrow> nat \<Rightarrow> 'h \<Rightarrow> 'b list \<Rightarrow> 'h" where
  "hash_blocks f n h xs =
     (if n = 0 \<or> length xs < n then h else hash_blocks f n (f h (take n xs)) (drop n xs))"
  by auto
termination by (relation "measure (\<lambda>(f, n, h, xs). length xs)") auto

declare hash_blocks.simps [simp del]

lemma hash_blocks_short [simp]: "length xs < n \<Longrightarrow> hash_blocks f n h xs = h"
  by (simp add: hash_blocks.simps)

lemma hash_blocks_append:
  assumes "0 < n" "length xs mod n = 0"
  shows "hash_blocks f n h (xs @ ys) = hash_blocks f n (hash_blocks f n h xs) ys"
  using assms
proof (induction "length xs" arbitrary: h xs rule: less_induct)
  case less
  show ?case
  proof (cases "xs = []")
    case False
    then have "n \<le> length xs" using less.prems by (metis length_0_conv mod_less not_le)
    moreover have "length (drop n xs) mod n = 0" using less.prems calculation by (simp add: le_mod_geq)
    ultimately show ?thesis
      using less.hyps [of "drop n xs" "f h (take n xs)"] less.prems False
      by (subst (1 2) hash_blocks.simps) simp
  qed (simp add: less.prems)
qed

lemma hash_blocks_one: "0 < n \<Longrightarrow> length b = n \<Longrightarrow> hash_blocks f n h b = f h b"
  by (subst hash_blocks.simps) simp

lemma hash_blocks_snoc:
  assumes "0 < n" "length xs mod n = 0" "length b = n"
  shows "hash_blocks f n h (xs @ b) = f (hash_blocks f n h xs) b"
  using assms by (simp add: hash_blocks_append hash_blocks_one)

lemma hash_blocks_block:
  assumes "0 < n" "length xs mod n = 0" "length b = n"
  shows "hash_blocks f n h (xs @ b @ ys) = hash_blocks f n (f (hash_blocks f n h xs) b) ys"
  using assms by (simp add: hash_blocks_append hash_blocks_one)

text \<open>A message and its whole blocks: the tail of fewer than \<open>n\<close> bytes is not hashed.\<close>

lemma hash_blocks_tail:
  assumes "0 < n" "length xs mod n = 0" "length ys < n"
  shows "hash_blocks f n h (xs @ ys) = hash_blocks f n h xs"
  using assms by (simp add: hash_blocks_append)

text \<open>Big-endian numbers: \<open>k\<close> bytes of a number, the bytes of a word, the bytes of an array of
  words.\<close>

definition be_field :: "nat \<Rightarrow> nat \<Rightarrow> bytes" where
  "be_field k n = map (\<lambda>i. of_nat (n div 2 ^ (8 * (k - 1 - i)))) [0..<k]"

definition word_be :: "'w::len word \<Rightarrow> bytes" where
  "word_be w = be_field (LENGTH('w) div 8) (unat w)"

definition words_be :: "'w::len word list \<Rightarrow> bytes" where
  "words_be ws = concat (map word_be ws)"

lemma length_be_field [simp]: "length (be_field k n) = k"
  by (simp add: be_field_def)

lemma length_word_be [simp]: "length (word_be (w :: 'w::len word)) = LENGTH('w) div 8"
  by (simp add: word_be_def)

lemma of_nat_u8_high: "(of_nat (a * 2 ^ (8 + m) + b) :: u8) = of_nat b"
proof -
  have "(of_nat (2 ^ (8 + m)) :: u8) = of_nat (2 ^ 8) * of_nat (2 ^ m)" by (simp add: power_add)
  also have "(of_nat (2 ^ 8) :: u8) = 0" by simp
  finally show ?thesis by (simp only: of_nat_add of_nat_mult mult_zero_left mult_zero_right add_0)
qed

lemma nth_be_field: "i < k \<Longrightarrow> be_field k n ! i = of_nat (n div 2 ^ (8 * (k - 1 - i)))"
  by (simp add: be_field_def)

lemma be_field_append:
  assumes "b < 2 ^ (8 * k)"
  shows "be_field (j + k) (a * 2 ^ (8 * k) + b) = be_field j a @ be_field k b"
proof (rule nth_equalityI)
  fix i assume i: "i < length (be_field (j + k) (a * 2 ^ (8 * k) + b))"
  show "be_field (j + k) (a * 2 ^ (8 * k) + b) ! i = (be_field j a @ be_field k b) ! i"
  proof (cases "i < j")
    case True
    then have "8 * (j + k - 1 - i) = 8 * k + 8 * (j - 1 - i)" by simp
    then have "(a * 2 ^ (8 * k) + b) div 2 ^ (8 * (j + k - 1 - i)) = a div 2 ^ (8 * (j - 1 - i))"
      using assms by (simp only: power_add div_mult2_eq) simp
    then show ?thesis using True by (simp add: nth_be_field nth_append)
  next
    case False
    define m where "m = j + k - 1 - i"
    have m: "m < k" "k - 1 - (i - j) = m" using False i by (auto simp: m_def)
    then obtain d where d: "k = m + Suc d" using less_imp_Suc_add by auto
    have "2 ^ (8 * k) = (2::nat) ^ (8 * m) * 2 ^ (8 + 8 * d)"
      unfolding d by (simp flip: power_add)
    then have "(a * 2 ^ (8 * k) + b) div 2 ^ (8 * m) = a * 2 ^ (8 + 8 * d) + b div 2 ^ (8 * m)"
      using div_mult_self3 [of "(2::nat) ^ (8 * m)" "a * 2 ^ (8 + 8 * d)" b] by (simp add: ac_simps)
    then have "(of_nat ((a * 2 ^ (8 * k) + b) div 2 ^ (8 * m)) :: u8) = of_nat (b div 2 ^ (8 * m))"
      by (simp only: of_nat_u8_high)
    then show ?thesis using False i m(2) by (simp add: nth_be_field nth_append m_def del: of_nat_add)
  qed
qed simp

lemma word_be_pair:
  fixes hi lo :: "'w::len word"
  assumes "8 dvd LENGTH('w)"
  shows "word_be hi @ word_be lo
         = be_field (2 * (LENGTH('w) div 8)) (unat hi * 2 ^ LENGTH('w) + unat lo)"
  using be_field_append [of "unat lo" "LENGTH('w) div 8" "LENGTH('w) div 8" "unat hi"]
    assms unsigned_less [of lo] by (simp add: word_be_def mult_2)

lemma nth_word_be:
  fixes w :: "'w::len word"
  assumes "i < LENGTH('w) div 8"
  shows "word_be w ! i = ucast (shr w (8 * (LENGTH('w) div 8 - 1 - i)))"
proof -
  have "(ucast (shr w m) :: u8) = of_nat (unat w div 2 ^ m)" for m
    by (simp add: unat_drop_bit_eq flip: drop_bit_eq_div of_nat_unat [of "shr w m"])
  then show ?thesis using assms by (simp add: word_be_def nth_be_field)
qed

text \<open>The padded message of the standard: the last byte of the message with its mark bit, the
  least number of zeros, the length in bits in the last \<open>lb\<close> bytes.\<close>

definition padded :: "nat \<Rightarrow> nat \<Rightarrow> u8 \<Rightarrow> nat \<Rightarrow> bytes \<Rightarrow> bytes" where
  "padded bs lb pad_byte bits msg =
     msg @ pad_byte # replicate ((bs - (length msg + 1 + lb) mod bs) mod bs) 0 @ be_field lb bits"

lemma padded_whole_blocks:
  assumes "0 < bs"
  shows "length (padded bs lb p bits msg) mod bs = 0"
proof -
  define a where "a = length msg + 1 + lb"
  have "length (padded bs lb p bits msg) = a + (bs - a mod bs) mod bs"
    by (simp add: padded_def a_def)
  also have "\<dots> mod bs = (a mod bs + (bs - a mod bs)) mod bs" by (simp add: mod_simps)
  also have "\<dots> = 0" using assms by simp
  finally show ?thesis .
qed

text \<open>The message length kept as two words.\<close>

definition length_bits :: "'w::len word shaContext \<Rightarrow> nat" where
  "length_bits c = unat (Length_High c) * 2 ^ LENGTH('w) + unat (Length_Low c)"

lemma word_carry:
  fixes x y :: "'w::len word"
  shows "x + y < x \<longleftrightarrow> 2 ^ LENGTH('w) \<le> unat x + unat y"
    and "unat (x + y) = (if x + y < x then unat x + unat y - 2 ^ LENGTH('w) else unat x + unat y)"
proof -
  define m :: nat where "m = 2 ^ LENGTH('w)"
  have b: "unat x < m" "unat y < m" unfolding m_def by (rule unsigned_less)+
  have u: "unat (x + y) = (if unat x + unat y < m then unat x + unat y else unat x + unat y - m)"
    unfolding m_def by (rule unat_plus_if')
  have c: "x + y < x \<longleftrightarrow> m \<le> unat x + unat y"
    unfolding word_less_nat_alt u using b by auto
  then show "x + y < x \<longleftrightarrow> 2 ^ LENGTH('w) \<le> unat x + unat y" by (simp only: m_def)
  show "unat (x + y) = (if x + y < x then unat x + unat y - 2 ^ LENGTH('w) else unat x + unat y)"
    unfolding c u m_def [symmetric] by auto
qed

section \<open>Filling a block\<close>

lemma fill_zeros_done: "limit \<le> Message_Block_Index c \<Longrightarrow> fill_zeros c limit = Some c"
  by (simp add: fill_zeros.simps)

lemma fill_zeros_Some:
  assumes "Message_Block_Index c \<le> limit" "limit \<le> length (Message_Block c)"
  shows "fill_zeros c limit = Some (c\<lparr>Message_Block :=
           take (Message_Block_Index c) (Message_Block c) @ replicate (limit - Message_Block_Index c) 0
           @ drop limit (Message_Block c), Message_Block_Index := limit\<rparr>)"
  using assms
proof (induction c limit rule: fill_zeros.induct)
  case (1 c limit)
  show ?case
  proof (cases "Message_Block_Index c < limit")
    case True
    define i where "i = Message_Block_Index c"
    have i: "i < limit" "limit - i = Suc (limit - Suc i)" "i < length (Message_Block c)"
      using True 1(3) by (auto simp: i_def)
    have "take (Suc i) ((Message_Block c)[i := 0]) = take i (Message_Block c) @ [0]"
      using i by (simp add: take_Suc_conv_app_nth)
    moreover have "drop limit ((Message_Block c)[i := 0]) = drop limit (Message_Block c)"
      using i by simp
    ultimately show ?thesis
      using True 1 i by (subst fill_zeros.simps) (auto simp: i_def [symmetric])
  next
    case False
    then have "Message_Block_Index c = limit" using 1(2) by simp
    then show ?thesis by (simp add: fill_zeros_done)
  qed
qed

lemma fill_zeros_length:
  "fill_zeros c limit = Some c' \<Longrightarrow> length (Message_Block c') = length (Message_Block c)"
proof (induction c limit rule: fill_zeros.induct)
  case (1 c limit)
  from 1(2) show ?case
    by (subst (asm) fill_zeros.simps) (auto split: if_splits Option.bind_splits dest: 1(1) simp: store_eq_Some)
qed

section \<open>The contract of a module\<close>

text \<open>The functions of one module as the standard's construction sees them: \<open>process\<close> folds the
  block of the context, \<open>add_length\<close> counts the bits, \<open>input_loop\<close> takes the bytes of one call,
  \<open>pad_message\<close> and \<open>finalize\<close> close the message.\<close>

locale block_hash =
  fixes bs lb :: nat
    and compress :: "'w::len word list \<Rightarrow> bytes \<Rightarrow> 'w word list"
    and process :: "'w word shaContext \<Rightarrow> 'w word shaContext"
    and add_length :: "'w word shaContext \<Rightarrow> 'w word \<Rightarrow> 'w word shaContext"
    and input_loop :: "'w word shaContext \<Rightarrow> bytes \<Rightarrow> nat \<Rightarrow> nat \<Rightarrow> 'w word shaContext option"
    and pad_message :: "'w word shaContext \<Rightarrow> u8 \<Rightarrow> 'w word shaContext option"
    and finalize :: "'w word shaContext \<Rightarrow> u8 \<Rightarrow> 'w word shaContext option"
  assumes word_bytes: "8 dvd LENGTH('w)"
    and field_bytes: "lb = 2 * (LENGTH('w) div 8)"
    and field_fits: "lb < bs"
    and process: "length (Message_Block c) = bs \<Longrightarrow> process c =
      c\<lparr>Intermediate_Hash := compress (Intermediate_Hash c) (Message_Block c), Message_Block_Index := 0\<rparr>"
    and add_length: "add_length c k =
      (let low = Length_Low c + k; high = (if low < Length_Low c then Length_High c + 1 else Length_High c)
       in c\<lparr>Length_Low := low, Length_High := high,
            Corrupted := if low < Length_Low c \<and> high = 0 then shaInputTooLong else Corrupted c\<rparr>)"
    and input_loop_0: "input_loop c m i 0 = Some c"
    and input_loop_Suc: "input_loop c m i (Suc n) = do {
        b \<leftarrow> fetch m i;
        block \<leftarrow> store (Message_Block c) (Message_Block_Index c) b;
        let c = add_length
          (c\<lparr>Message_Block := block, Message_Block_Index := Message_Block_Index c + 1\<rparr>) 8;
        input_loop (if Corrupted c = shaSuccess \<and> Message_Block_Index c = bs then process c else c)
          m (i + 1) n }"
    and pad_message: "length (Message_Block c) = bs \<Longrightarrow> pad_message c p = do {
        block \<leftarrow> store (Message_Block c) (Message_Block_Index c) p;
        let c1 = c\<lparr>Message_Block := block, Message_Block_Index := Message_Block_Index c + 1\<rparr>;
        c \<leftarrow> (if bs - lb \<le> Message_Block_Index c
              then do { c \<leftarrow> fill_zeros c1 bs; Some (process c) } else Some c1);
        c \<leftarrow> fill_zeros c (bs - lb);
        Some (process (c\<lparr>Message_Block := take (bs - lb) (Message_Block c)
          @ word_be (Length_High c) @ word_be (Length_Low c)\<rparr>)) }"
    and finalize: "finalize c p = do {
        c \<leftarrow> pad_message c p;
        Some (c\<lparr>Message_Block := replicate bs 0, Length_High := 0, Length_Low := 0, Computed := True\<rparr>) }"
begin

text \<open>The context after the bytes \<open>msg\<close>, started from the hash value \<open>h\<close>, the length apart.\<close>

definition holds :: "'w word list \<Rightarrow> 'w word shaContext \<Rightarrow> bytes \<Rightarrow> bool" where
  "holds h c msg \<longleftrightarrow> length (Message_Block c) = bs \<and>
     (\<exists>front tail. msg = front @ tail \<and> length front mod bs = 0 \<and> length tail < bs \<and>
       Message_Block_Index c = length tail \<and> take (length tail) (Message_Block c) = tail \<and>
       Intermediate_Hash c = hash_blocks compress bs h front)"

definition absorbed :: "'w word list \<Rightarrow> 'w word shaContext \<Rightarrow> bytes \<Rightarrow> bool" where
  "absorbed h c msg \<longleftrightarrow>
     holds h c msg \<and> length_bits c = 8 * length msg \<and> Corrupted c = shaSuccess \<and> \<not> Computed c"

lemma bs_pos: "0 < bs"
  using field_fits by simp

lemma add_length_fits:
  assumes "length_bits c + unat n < 2 ^ (2 * LENGTH('w))"
  obtains hi lo where "add_length c n = c\<lparr>Length_High := hi, Length_Low := lo\<rparr>"
    and "unat hi * 2 ^ LENGTH('w) + unat lo = length_bits c + unat n"
proof -
  define m :: nat where "m = 2 ^ LENGTH('w)"
  define hi where "hi = (if Length_Low c + n < Length_Low c then Length_High c + 1 else Length_High c)"
  have mm: "2 ^ (2 * LENGTH('w)) = m * m" by (simp add: m_def mult_2 power_add)
  have low: "Length_Low c + n < Length_Low c \<longleftrightarrow> m \<le> unat (Length_Low c) + unat n"
      "unat (Length_Low c + n) = (if Length_Low c + n < Length_Low c
         then unat (Length_Low c) + unat n - m else unat (Length_Low c) + unat n)"
    unfolding m_def by (rule word_carry)+
  show thesis
  proof (cases "Length_Low c + n < Length_Low c")
    case True
    have "unat (Length_High c) * m + m \<le> length_bits c + unat n"
      using True low unfolding length_bits_def m_def by simp
    also have "\<dots> < m * m" using assms mm by simp
    finally have "(unat (Length_High c) + 1) * m < m * m" by simp
    then have hb: "unat (Length_High c) + 1 < m" by (simp only: mult_less_cancel2)
    have u: "unat hi = unat (Length_High c) + 1"
      using True hb unat_plus_if' [of "Length_High c" 1] unfolding hi_def m_def by simp
    then have "hi \<noteq> 0" by auto
    then have "add_length c n = c\<lparr>Length_High := hi, Length_Low := Length_Low c + n\<rparr>"
      unfolding add_length Let_def hi_def [symmetric] by simp
    moreover have "unat hi * m + unat (Length_Low c + n) = length_bits c + unat n"
      using u low True unfolding length_bits_def m_def by simp
    ultimately show thesis using that unfolding m_def by blast
  next
    case False
    then have "add_length c n = c\<lparr>Length_High := Length_High c, Length_Low := Length_Low c + n\<rparr>"
      unfolding add_length Let_def by simp
    moreover have "unat (Length_High c) * m + unat (Length_Low c + n) = length_bits c + unat n"
      using low False unfolding length_bits_def m_def by simp
    ultimately show thesis using that unfolding m_def by blast
  qed
qed

lemma unat_8: "unat (8 :: 'w word) = 8"
proof -
  have "8 \<le> LENGTH('w)" using word_bytes by (intro dvd_imp_le) simp_all
  then have "(2::nat) ^ 8 \<le> 2 ^ LENGTH('w)" by (rule power_increasing) simp
  then have "(8::nat) < 2 ^ LENGTH('w)" by simp
  then show ?thesis by (simp add: unsigned_numeral take_bit_eq_mod)
qed

lemma take_bit_8: "take_bit LENGTH('w) (8 :: nat) = 8"
  using unat_8 by (simp add: unsigned_numeral)

text \<open>Once the count of bits no longer fits, the context is marked.\<close>

lemma add_length_too_long:
  assumes "2 ^ (2 * LENGTH('w)) \<le> length_bits c + unat n"
  shows "Corrupted (add_length c n) = shaInputTooLong"
proof -
  define m :: nat where "m = 2 ^ LENGTH('w)"
  have mm: "2 ^ (2 * LENGTH('w)) = m * m" by (simp add: m_def mult_2 power_add)
  have b: "unat (Length_High c) < m" "unat (Length_Low c) < m" "unat n < m"
    unfolding m_def by (rule unsigned_less)+
  then have "Suc (unat (Length_High c)) \<le> m" by simp
  then have "Suc (unat (Length_High c)) * m \<le> m * m" by (rule mult_le_mono1)
  then have h: "unat (Length_High c) * m + m \<le> m * m" by simp
  have t: "m * m \<le> unat (Length_High c) * m + unat (Length_Low c) + unat n"
    using assms unfolding mm length_bits_def m_def by simp
  have carry: "Length_Low c + n < Length_Low c"
    using h t unfolding word_carry(1) m_def [symmetric] by linarith
  have "m * m < (unat (Length_High c) + 2) * m" using t b by simp
  then have "m \<le> unat (Length_High c) + 1" by (simp only: mult_less_cancel2) linarith
  then have "unat (Length_High c) + 1 = m" using b by simp
  then have "unat (Length_High c + 1) = 0"
    using unat_plus_if' [of "Length_High c" 1] unfolding m_def by simp
  then have "Length_High c + 1 = 0" by (simp only: unat_eq_zero)
  then show ?thesis using carry by (simp add: add_length Let_def)
qed

lemma holds_Nil:
  "length (Message_Block c) = bs \<Longrightarrow> Message_Block_Index c = 0 \<Longrightarrow> Intermediate_Hash c = h \<Longrightarrow> holds h c []"
  using bs_pos by (simp add: holds_def)

text \<open>One byte, with the block hashed when it is full.\<close>

lemma holds_byte:
  assumes "holds h c msg" and c': "c' = c\<lparr>Message_Block := (Message_Block c)[Message_Block_Index c := b],
      Message_Block_Index := Message_Block_Index c + 1, Length_High := hi, Length_Low := lo\<rparr>"
  shows "holds h (if Message_Block_Index c' = bs then process c' else c') (msg @ [b])"
proof -
  obtain front tail where s: "msg = front @ tail" "length front mod bs = 0" "length tail < bs"
    and m: "Message_Block_Index c = length tail" "take (length tail) (Message_Block c) = tail"
    and i: "Intermediate_Hash c = hash_blocks compress bs h front" and len: "length (Message_Block c) = bs"
    using assms(1) by (auto simp: holds_def)
  have tb: "take (Suc (length tail)) ((Message_Block c)[length tail := b]) = tail @ [b]"
    using s m len by (simp add: take_Suc_conv_app_nth)
  show ?thesis
  proof (cases "Suc (length tail) = bs")
    case True
    then have block: "(Message_Block c)[length tail := b] = tail @ [b]" using tb len by simp
    have whole: "length (front @ tail @ [b]) mod bs = 0" using s(2) True by (simp add: mod_add_eq)
    have "hash_blocks compress bs h (front @ tail @ [b])
        = compress (hash_blocks compress bs h front) (tail @ [b])"
      using True by (intro hash_blocks_snoc bs_pos s) simp
    moreover have "process c' = c'\<lparr>Intermediate_Hash := compress (Intermediate_Hash c) (tail @ [b]),
        Message_Block_Index := 0\<rparr>"
      using process [of c'] True len block m unfolding c' by simp
    ultimately have "holds h (process c') (front @ tail @ [b])"
      unfolding holds_def using whole i True bs_pos len m
      by (intro conjI exI [of _ "front @ tail @ [b]"] exI [of _ "[]"]) (simp_all add: c')
    then show ?thesis using True m s(1) by (simp add: c')
  next
    case False
    then have "holds h c' (msg @ [b])"
      unfolding holds_def using tb s i m len
      by (intro conjI exI [of _ front] exI [of _ "tail @ [b]"]) (simp_all add: c')
    then show ?thesis using False m by (simp add: c')
  qed
qed

lemma holds_index: "holds h c msg \<Longrightarrow> Message_Block_Index c < length (Message_Block c)"
  by (auto simp: holds_def)

lemma input_loop_absorbed:
  assumes "absorbed h c msg" "i + n \<le> length m" "8 * (length msg + n) < 2 ^ (2 * LENGTH('w))"
  shows "\<exists>c'. input_loop c m i n = Some c' \<and> absorbed h c' (msg @ take n (drop i m))"
  using assms
proof (induction n arbitrary: c msg i)
  case 0
  then show ?case by (simp add: input_loop_0)
next
  case (Suc n)
  have i: "i < length m" using Suc.prems by simp
  have hold: "holds h c msg" and bits: "length_bits c = 8 * length msg"
    and ok: "Corrupted c = shaSuccess" "\<not> Computed c"
    using Suc.prems(1) by (auto simp: absorbed_def)
  define c1 where "c1 = c\<lparr>Message_Block := (Message_Block c)[Message_Block_Index c := m ! i],
      Message_Block_Index := Message_Block_Index c + 1\<rparr>"
  have "length_bits c1 + unat (8 :: 'w word) < 2 ^ (2 * LENGTH('w))"
    using Suc.prems(3) bits by (simp add: c1_def length_bits_def take_bit_8)
  then obtain hi lo where c2: "add_length c1 8 = c1\<lparr>Length_High := hi, Length_Low := lo\<rparr>"
    and len: "unat hi * 2 ^ LENGTH('w) + unat lo = length_bits c1 + unat (8 :: 'w word)"
    by (rule add_length_fits)
  define d where "d = c1\<lparr>Length_High := hi, Length_Low := lo\<rparr>"
  define c3 where "c3 = (if Message_Block_Index d = bs then process d else d)"
  have ok': "Corrupted d = shaSuccess" "\<not> Computed d" "length (Message_Block d) = bs"
    using ok hold by (auto simp: d_def c1_def holds_def)
  have "holds h c3 (msg @ [m ! i])"
    unfolding c3_def by (rule holds_byte [OF hold, where hi = hi and lo = lo]) (simp add: d_def c1_def)
  moreover have "length_bits d = 8 * length (msg @ [m ! i])"
    using len bits by (simp add: d_def c1_def length_bits_def take_bit_8)
  then have "length_bits c3 = 8 * length (msg @ [m ! i])" "Corrupted c3 = shaSuccess" "\<not> Computed c3"
    using ok' process [of d] by (auto simp: c3_def length_bits_def)
  ultimately have "absorbed h c3 (msg @ [m ! i])" by (simp add: absorbed_def)
  then obtain c' where c': "input_loop c3 m (i + 1) n = Some c'"
    "absorbed h c' ((msg @ [m ! i]) @ take n (drop (i + 1) m))"
    using Suc.IH [of c3 "msg @ [m ! i]" "i + 1"] Suc.prems(2,3) by auto
  have "input_loop c m i (Suc n) = input_loop c3 m (i + 1) n"
    using i holds_index [OF hold] ok'(1) c2 unfolding d_def [symmetric]
    by (simp add: input_loop_Suc c3_def Let_def c1_def)
  moreover have "take (Suc n) (drop i m) = m ! i # take n (drop (i + 1) m)"
    using i by (metis Cons_nth_drop_Suc Suc_eq_plus1 take_Suc_Cons)
  ultimately show ?case using c' by simp
qed

text \<open>Closing the message: one block, or two when the length no longer fits into the first.\<close>

lemma process_block:
  assumes "length (Message_Block c) = bs" "length front mod bs = 0"
    "Intermediate_Hash c = hash_blocks compress bs h front"
  shows "process c = c\<lparr>Intermediate_Hash := hash_blocks compress bs h (front @ Message_Block c),
    Message_Block_Index := 0\<rparr>"
  using assms by (simp add: process hash_blocks_snoc bs_pos)

lemma zeros_one_block:
  assumes "a mod bs = 0" "t + 1 + lb \<le> bs"
  shows "(bs - (a + t + 1 + lb) mod bs) mod bs = bs - lb - (t + 1)"
proof -
  obtain q where q: "a = bs * q" using assms(1) by (auto simp: mod_eq_0_iff_dvd)
  have e: "(a + t + 1 + lb) mod bs = (t + 1 + lb) mod bs"
    unfolding q add.assoc by (rule mod_mult_self4)
  show ?thesis
  proof (cases "t + 1 + lb = bs")
    case False
    then have "(t + 1 + lb) mod bs = t + 1 + lb" using assms(2) by (intro mod_less) linarith
    then show ?thesis using e False assms(2) bs_pos by simp
  next
    case True
    then show ?thesis using e by simp
  qed
qed

lemma zeros_two_blocks:
  assumes "a mod bs = 0" "bs < t + 1 + lb" "t < bs"
  shows "(bs - (a + t + 1 + lb) mod bs) mod bs = (bs - (t + 1)) + (bs - lb)"
proof -
  obtain q where q: "a = bs * q" using assms(1) by (auto simp: mod_eq_0_iff_dvd)
  have e: "(a + t + 1 + lb) mod bs = (t + 1 + lb) mod bs"
    unfolding q add.assoc by (rule mod_mult_self4)
  have "t + 1 + lb = (t + 1 + lb - bs) + bs" using assms by simp
  then have "(t + 1 + lb) mod bs = (t + 1 + lb - bs) mod bs" by (metis mod_add_self2)
  also have "\<dots> = t + 1 + lb - bs" using assms field_fits by (intro mod_less) linarith
  finally show ?thesis using e assms field_fits by simp
qed

lemma pad_message_holds:
  assumes "holds h c msg"
  shows "\<exists>c'. pad_message c p = Some c' \<and> length (Message_Block c') = bs \<and>
    Intermediate_Hash c' = hash_blocks compress bs h (padded bs lb p (length_bits c) msg) \<and>
    Message_Block_Index c' = 0 \<and> Corrupted c' = Corrupted c \<and> Computed c' = Computed c"
proof -
  obtain front tail where s: "msg = front @ tail" "length front mod bs = 0" "length tail < bs"
    and m: "Message_Block_Index c = length tail" "take (length tail) (Message_Block c) = tail"
    and i: "Intermediate_Hash c = hash_blocks compress bs h front" and len: "length (Message_Block c) = bs"
    using assms by (auto simp: holds_def)
  define c1 where "c1 = c\<lparr>Message_Block := (Message_Block c)[length tail := p],
    Message_Block_Index := length tail + 1\<rparr>"
  have c1: "Intermediate_Hash c1 = hash_blocks compress bs h front" "length (Message_Block c1) = bs"
    "Message_Block_Index c1 = length tail + 1" by (simp_all add: c1_def i len)
  have tb: "take (Suc (length tail)) (Message_Block c1) = tail @ [p]"
    using s m len by (simp add: c1_def take_Suc_conv_app_nth)
  have field: "word_be (Length_High c) @ word_be (Length_Low c) = be_field lb (length_bits c)"
    unfolding length_bits_def field_bytes by (rule word_be_pair [OF word_bytes])
  show ?thesis
  proof (cases "bs - lb \<le> length tail")
    case False
    let ?block = "tail @ p # replicate (bs - lb - (length tail + 1)) 0 @ be_field lb (length_bits c)"
    have t: "length tail + 1 + lb \<le> bs" using False by simp
    have tk: "bs - (lb + length tail) = Suc (bs - Suc (lb + length tail))" using t by simp
    have "fill_zeros c1 (bs - lb) = Some (c1\<lparr>Message_Block := (tail @ [p])
        @ replicate (bs - lb - (length tail + 1)) 0 @ drop (bs - lb) (Message_Block c1),
        Message_Block_Index := bs - lb\<rparr>)"
      using fill_zeros_Some [of c1 "bs - lb"] c1 t tb by simp
    then have "pad_message c p = Some (process (c1\<lparr>Message_Block_Index := bs - lb, Message_Block := ?block\<rparr>))"
      using pad_message [OF len, of p] False s(3) m len t tk field by (simp add: c1_def)
    moreover have "length ?block = bs" using t by simp
    moreover have "padded bs lb p (length_bits c) msg = front @ ?block"
      using zeros_one_block [OF s(2) t] by (simp add: padded_def s(1) add.assoc)
    ultimately show ?thesis
      using process_block [of "c1\<lparr>Message_Block_Index := bs - lb, Message_Block := ?block\<rparr>" front h] s(2) c1(1)
      by (simp add: c1_def)
  next
    case True
    let ?b1 = "tail @ p # replicate (bs - (length tail + 1)) 0"
    let ?b2 = "replicate (bs - lb) 0 @ be_field lb (length_bits c)"
    have t: "bs < length tail + 1 + lb" using True by simp
    define c2 where "c2 = c1\<lparr>Message_Block := ?b1, Message_Block_Index := 0,
      Intermediate_Hash := hash_blocks compress bs h (front @ ?b1)\<rparr>"
    have b1: "length ?b1 = bs" using s(3) by simp
    then have w: "length (front @ ?b1) mod bs = 0"
      using s(2) by (metis length_append mod_add_self2)
    have "fill_zeros c1 bs = Some (c1\<lparr>Message_Block := ?b1, Message_Block_Index := bs\<rparr>)"
      using fill_zeros_Some [of c1 bs] c1 s(3) tb by simp
    moreover have "process (c1\<lparr>Message_Block := ?b1, Message_Block_Index := bs\<rparr>) = c2"
      using process_block [of "c1\<lparr>Message_Block := ?b1, Message_Block_Index := bs\<rparr>" front h] s(2) c1(1) b1
      by (simp add: c2_def)
    moreover have "fill_zeros c2 (bs - lb) = Some (c2\<lparr>Message_Block := replicate (bs - lb) 0 @ drop (bs - lb) ?b1,
        Message_Block_Index := bs - lb\<rparr>)"
      using fill_zeros_Some [of c2 "bs - lb"] b1 by (simp add: c2_def)
    ultimately have "pad_message c p
        = Some (process (c2\<lparr>Message_Block_Index := bs - lb, Message_Block := ?b2\<rparr>))"
      using pad_message [OF len, of p] True s(3) m len field by (simp add: c1_def c2_def)
    moreover have "length ?b2 = bs" using field_fits by simp
    moreover have "padded bs lb p (length_bits c) msg = (front @ ?b1) @ ?b2"
      using zeros_two_blocks [OF s(2) t s(3)] by (simp add: padded_def s(1) add.assoc replicate_add)
    ultimately show ?thesis
      using process_block [of "c2\<lparr>Message_Block_Index := bs - lb, Message_Block := ?b2\<rparr>" "front @ ?b1" h] w
      by (simp add: c2_def c1_def)
  qed
qed

end

section \<open>The interface of a module\<close>

text \<open>The digest of a message: \<open>n\<close> bytes of the hash value of the padded message.\<close>

definition block_digest ::
  "('w::len word list \<Rightarrow> bytes \<Rightarrow> 'w word list) \<Rightarrow> nat \<Rightarrow> nat \<Rightarrow> 'w word list \<Rightarrow> nat \<Rightarrow> u8 \<Rightarrow> nat \<Rightarrow> bytes \<Rightarrow> bytes"
where
  "block_digest compress bs lb h n p bits msg =
     take n (words_be (hash_blocks compress bs h (padded bs lb p bits msg)))"

lemma length_words_be: "length (words_be ws) = length ws * (LENGTH('w) div 8)"
  for ws :: "'w::len word list"
  by (induction ws) (simp_all add: words_be_def)

lemma nth_words_be:
  fixes ws :: "'w::len word list"
  assumes "i < length ws * (LENGTH('w) div 8)"
  shows "words_be ws ! i
    = ucast (shr (ws ! (i div (LENGTH('w) div 8))) (8 * (LENGTH('w) div 8 - 1 - i mod (LENGTH('w) div 8))))"
  using assms
proof (induction ws arbitrary: i)
  case (Cons w ws)
  define k where "k = LENGTH('w) div 8"
  have i: "i < k + length ws * k" using Cons.prems by (simp add: k_def)
  then have k: "0 < k" by (cases k) auto
  show ?case
  proof (cases "i < k")
    case True
    then show ?thesis
      using nth_word_be [of i w] by (simp add: words_be_def nth_append k_def)
  next
    case False
    then have e: "i = (i - k) + k" by simp
    then have "i div k = Suc ((i - k) div k)" "i mod k = (i - k) mod k"
      using k by (metis div_add_self2 neq0_conv Suc_eq_plus1, metis mod_add_self2)
    moreover have "words_be (w # ws) ! i = words_be ws ! (i - k)"
      using False by (simp add: words_be_def nth_append k_def)
    ultimately show ?thesis
      using Cons.IH [of "i - k"] i False unfolding k_def [symmetric] by simp
  qed
qed simp

lemma length_hash_blocks:
  assumes "\<And>h b. length (f h b) = length (h :: 'x list)"
  shows "length (hash_blocks f n h xs) = length h"
  using assms by (induction f n h xs rule: hash_blocks.induct) (subst hash_blocks.simps, simp)

locale hash_module = block_hash bs lb compress process add_length input_loop pad_message finalize
  for bs lb :: nat
    and compress :: "'w::len word list \<Rightarrow> bytes \<Rightarrow> 'w word list"
    and process add_length input_loop pad_message finalize +
  fixes h0 :: "'w word list" and hs :: nat
    and reset :: "'w word shaContext option \<Rightarrow> sha_error \<times> 'w word shaContext option"
    and input :: "'w word shaContext option \<Rightarrow> bytes option \<Rightarrow> nat \<Rightarrow> (sha_error \<times> 'w word shaContext option) option"
    and final_bits :: "'w word shaContext option \<Rightarrow> u8 \<Rightarrow> nat \<Rightarrow> (sha_error \<times> 'w word shaContext option) option"
    and result :: "'w word shaContext option \<Rightarrow> bytes option
      \<Rightarrow> (sha_error \<times> 'w word shaContext option \<times> bytes option) option"
    and result_loop :: "'w word list \<Rightarrow> bytes \<Rightarrow> nat \<Rightarrow> nat \<Rightarrow> bytes option"
  assumes length_compress: "length (compress h block) = length h"
    and hash_size: "hs \<le> length h0 * (LENGTH('w) div 8)"
    and reset: "length (Intermediate_Hash c) = length h0 \<Longrightarrow> reset (Some c) =
      (shaSuccess, Some (c\<lparr>Length_High := 0, Length_Low := 0, Message_Block_Index := 0,
         Intermediate_Hash := h0, Computed := False, Corrupted := shaSuccess\<rparr>))"
    and input: "input (Some c) msg n =
      (if n = 0 then Some (shaSuccess, Some c)
       else case msg of None \<Rightarrow> Some (shaNull, Some c)
       | Some m \<Rightarrow>
           if Computed c then Some (shaStateError, Some (c\<lparr>Corrupted := shaStateError\<rparr>))
           else if Corrupted c \<noteq> shaSuccess then Some (Corrupted c, Some c)
           else do { c \<leftarrow> input_loop c m 0 n; Some (Corrupted c, Some c) })"
    and final_bits: "final_bits (Some c) b n =
      (if n = 0 then Some (shaSuccess, Some c)
       else if Corrupted c \<noteq> shaSuccess then Some (Corrupted c, Some c)
       else if Computed c then Some (shaStateError, Some (c\<lparr>Corrupted := shaStateError\<rparr>))
       else if 8 \<le> n then Some (shaBadParam, Some (c\<lparr>Corrupted := shaBadParam\<rparr>))
       else do {
         c \<leftarrow> finalize (add_length c (of_nat n)) ((b AND masks ! n) OR markbit ! n);
         Some (Corrupted c, Some c) })"
    and result: "result (Some c) (Some d) =
      (if Corrupted c \<noteq> shaSuccess then Some (Corrupted c, Some c, Some d)
       else do {
         c \<leftarrow> (if Computed c then Some c else finalize c 0x80);
         d \<leftarrow> result_loop (Intermediate_Hash c) d 0 hs;
         Some (shaSuccess, Some c, Some d) })"
    and result_loop_0: "result_loop ws d i 0 = Some d"
    and result_loop_Suc: "result_loop ws d i (Suc n) = do {
         d \<leftarrow> store d i (ucast (shr (ws ! (i div (LENGTH('w) div 8)))
                (8 * (LENGTH('w) div 8 - 1 - i mod (LENGTH('w) div 8)))));
         result_loop ws d (i + 1) n }"
begin

text \<open>The sizes of the arrays of a context.\<close>

definition sized :: "'w word shaContext \<Rightarrow> bool" where
  "sized c \<longleftrightarrow> length (Message_Block c) = bs \<and> length (Intermediate_Hash c) = length h0"

text \<open>The digest of a message of whole bytes, and of one with \<open>n\<close> more bits.\<close>

definition digest :: "bytes \<Rightarrow> bytes" where
  "digest msg = block_digest compress bs lb h0 hs 0x80 (8 * length msg) msg"

definition digest_bits :: "bytes \<Rightarrow> u8 \<Rightarrow> nat \<Rightarrow> bytes" where
  "digest_bits msg b n =
     block_digest compress bs lb h0 hs ((b AND masks ! n) OR markbit ! n) (8 * length msg + n) msg"

text \<open>A context whose hash value yields the digest \<open>d\<close>, to be read any number of times.\<close>

definition finished :: "'w word shaContext \<Rightarrow> bytes \<Rightarrow> bool" where
  "finished c d \<longleftrightarrow> Computed c \<and> Corrupted c = shaSuccess \<and> sized c \<and>
     d = take hs (words_be (Intermediate_Hash c))"

lemma length_blocks: "length (hash_blocks compress n h msg) = length h"
  by (rule length_hash_blocks) (rule length_compress)

lemma length_block_digest: "length (block_digest compress bs lb h0 hs p bits msg) = hs"
  using hash_size by (simp add: block_digest_def length_words_be length_blocks)

lemma length_digest [simp]: "length (digest msg) = hs"
  by (simp add: digest_def length_block_digest)

lemma absorbed_sized: "absorbed h0 c msg \<Longrightarrow> sized c"
  by (auto simp: absorbed_def holds_def sized_def length_blocks)

lemma result_loop_Some:
  assumes "i + n \<le> length d" "i + n \<le> length (words_be ws)"
  shows "result_loop ws d i n = Some (take i d @ take n (drop i (words_be ws)) @ drop (i + n) d)"
  using assms
proof (induction n arbitrary: d i)
  case (Suc n)
  let ?d = "d[i := words_be ws ! i]"
  have i: "i < length d" "i < length (words_be ws)" using Suc.prems by simp_all
  have "result_loop ws d i (Suc n) = result_loop ws ?d (Suc i) n"
    using i nth_words_be [of i ws] by (simp add: result_loop_Suc length_words_be)
  moreover have "take (Suc i) ?d = take i d @ [words_be ws ! i]" using i by (simp add: take_Suc_conv_app_nth)
  moreover have "take (Suc n) (drop i (words_be ws)) = words_be ws ! i # take n (drop (Suc i) (words_be ws))"
    using i by (simp add: Cons_nth_drop_Suc [symmetric])
  ultimately show ?case using Suc.IH [of "Suc i" ?d] Suc.prems by simp
qed (simp add: result_loop_0)

lemma reset_absorbed:
  assumes "sized c"
  shows "\<exists>c'. reset (Some c) = (shaSuccess, Some c') \<and> absorbed h0 c' []"
  using assms by (simp add: reset sized_def absorbed_def holds_Nil length_bits_def)

lemma input_absorbed:
  assumes "absorbed h0 c msg" "n \<le> length m" "8 * (length msg + n) < 2 ^ (2 * LENGTH('w))"
  shows "\<exists>c'. input (Some c) (Some m) n = Some (shaSuccess, Some c') \<and> absorbed h0 c' (msg @ take n m)"
  using assms input_loop_absorbed [of h0 c msg 0 n m]
  by (cases "n = 0") (auto simp: input absorbed_def)

lemma finalize_finished:
  assumes "holds h0 c msg" "Corrupted c = shaSuccess"
  shows "\<exists>c'. finalize c p = Some c' \<and> finished c' (block_digest compress bs lb h0 hs p (length_bits c) msg)"
  using pad_message_holds [OF assms(1), of p] assms(2)
  by (auto simp: finalize finished_def sized_def block_digest_def length_blocks)

lemma final_bits_finished:
  assumes "absorbed h0 c msg" "0 < n" "n < 8" "8 * length msg + n < 2 ^ (2 * LENGTH('w))"
  shows "\<exists>c'. final_bits (Some c) b n = Some (shaSuccess, Some c') \<and> finished c' (digest_bits msg b n)"
proof -
  have "n < 2 ^ 8" using assms(3) by simp
  also have "(2::nat) ^ 8 \<le> 2 ^ LENGTH('w)"
    using dvd_imp_le [OF word_bytes] by (intro power_increasing) simp_all
  finally have n: "unat (of_nat n :: 'w word) = n" by (simp add: unat_of_nat)
  then have "length_bits c + unat (of_nat n :: 'w word) < 2 ^ (2 * LENGTH('w))"
    using assms(1,4) by (simp add: absorbed_def)
  then obtain hi lo where a: "add_length c (of_nat n) = c\<lparr>Length_High := hi, Length_Low := lo\<rparr>"
    and len: "unat hi * 2 ^ LENGTH('w) + unat lo = length_bits c + unat (of_nat n :: 'w word)"
    by (rule add_length_fits)
  have "holds h0 (add_length c (of_nat n)) msg" "Corrupted (add_length c (of_nat n)) = shaSuccess"
    "length_bits (add_length c (of_nat n)) = 8 * length msg + n"
    using assms(1) len n by (auto simp: a absorbed_def holds_def length_bits_def)
  then show ?thesis
    using finalize_finished [of "add_length c (of_nat n)" msg "(b AND masks ! n) OR markbit ! n"] assms
    by (auto simp: final_bits absorbed_def finished_def digest_bits_def)
qed

lemma result_finished:
  assumes "finished c d" "hs \<le> length buf"
  shows "result (Some c) (Some buf) = Some (shaSuccess, Some c, Some (d @ drop hs buf))"
  using assms result_loop_Some [of 0 hs buf "Intermediate_Hash c"] hash_size
  by (simp add: result finished_def sized_def length_words_be)

lemma result_absorbed:
  assumes "absorbed h0 c msg" "hs \<le> length buf"
  shows "\<exists>c'. result (Some c) (Some buf) = Some (shaSuccess, Some c', Some (digest msg @ drop hs buf))
    \<and> finished c' (digest msg)"
proof -
  obtain c' where c': "finalize c 0x80 = Some c'" "finished c' (digest msg)"
    using finalize_finished [of c msg "0x80"] assms(1) by (auto simp: absorbed_def digest_def)
  have "result (Some c) (Some buf) = result (Some c') (Some buf)"
    using c' assms(1) by (simp add: result absorbed_def finished_def)
  then show ?thesis using c'(2) result_finished [OF c'(2) assms(2)] by simp
qed

text \<open>After the digest is taken, more input is refused and the context stays marked.\<close>

lemma input_finished:
  assumes "finished c d" "0 < n"
  shows "input (Some c) (Some m) n = Some (shaStateError, Some (c\<lparr>Corrupted := shaStateError\<rparr>))"
  using assms by (simp add: input finished_def)

text \<open>The byte that makes the message too long is stored and marks the context; its full block is
  not hashed, so that the next byte of the same call is stored past the end of the block.\<close>

lemma input_overrun:
  assumes "absorbed h0 c msg" "8 * (length msg + 1) = 2 ^ (2 * LENGTH('w))" "(length msg + 1) mod bs = 0"
  shows "\<exists>c'. input (Some c) (Some [a]) 1 = Some (shaInputTooLong, Some c')"
    and "input (Some c) (Some [a, b]) 2 = None"
proof -
  obtain front tail where t: "msg = front @ tail" "length front mod bs = 0" "length tail < bs"
    and i: "Message_Block_Index c = length tail" and len: "length (Message_Block c) = bs"
    and ok: "Corrupted c = shaSuccess" "\<not> Computed c" and bits: "length_bits c = 8 * length msg"
    using assms(1) by (auto simp: absorbed_def holds_def)
  have "(length tail + 1) mod bs = 0"
    using assms(3) t(1,2) by (metis length_append add.assoc mod_add_left_eq add_0)
  then have i': "Suc (length tail) = bs" using t(3) by (cases "Suc (length tail) = bs") simp_all
  define c1 where "c1 = c\<lparr>Message_Block := (Message_Block c)[length tail := a], Message_Block_Index := Suc (length tail)\<rparr>"
  define c2 where "c2 = add_length c1 8"
  have "length_bits c1 + unat (8 :: 'w word) = 2 ^ (2 * LENGTH('w))"
    using assms(2) bits by (simp add: c1_def length_bits_def take_bit_8)
  then have long: "Corrupted c2 = shaInputTooLong"
    unfolding c2_def by (intro add_length_too_long) simp
  have c2: "Message_Block_Index c2 = bs" "length (Message_Block c2) = bs"
    unfolding c2_def add_length Let_def by (simp_all add: c1_def i' len)
  have step: "input_loop c m 0 (Suc n) = input_loop c2 m 1 n" if "0 < length m" "m ! 0 = a" for m n
    using that i i' len long unfolding c2_def c1_def by (simp add: input_loop_Suc Let_def)
  show "\<exists>c'. input (Some c) (Some [a]) 1 = Some (shaInputTooLong, Some c')"
    using step [of "[a]" 0] ok long by (simp add: input input_loop_0)
  have "input_loop c2 [a, b] 1 (Suc 0) = None"
    using c2 by (simp add: input_loop_Suc store_def)
  then show "input (Some c) (Some [a, b]) 2 = None"
    using step [of "[a, b]" "Suc 0"] ok by (simp add: input numeral_2_eq_2)
qed

end

end
