(* ===== verification/Sha_Functions.thy ===== *)
theory Sha_Functions
  imports Merkle_Damgard
begin

text \<open>
  The logical functions that the SHA modules define as macros, and the vocabulary of the standard
  (FIPS 180) against which the modules are proved: rotation of words, big-endian words of a block,
  and the two facts on loops that turn an array filled from left to right and a loop over rounds
  into the recursive definitions of the standard.
\<close>

section \<open>Macros\<close>

definition SHA_Ch :: "'w::len word \<Rightarrow> 'w word \<Rightarrow> 'w word \<Rightarrow> 'w word" where
  "SHA_Ch x y z = (x AND y) XOR (NOT x AND z)"

definition SHA_Maj :: "'w::len word \<Rightarrow> 'w word \<Rightarrow> 'w word \<Rightarrow> 'w word" where
  "SHA_Maj x y z = (x AND y) XOR (x AND z) XOR (y AND z)"

definition SHA_Parity :: "'w::len word \<Rightarrow> 'w word \<Rightarrow> 'w word \<Rightarrow> 'w word" where
  "SHA_Parity x y z = x XOR y XOR z"

text \<open>The same functions under \<open>USE_MODIFIED_MACROS\<close>.\<close>

definition SHA_Ch_modified :: "'w::len word \<Rightarrow> 'w word \<Rightarrow> 'w word \<Rightarrow> 'w word" where
  "SHA_Ch_modified x y z = (x AND (y XOR z)) XOR z"

definition SHA_Maj_modified :: "'w::len word \<Rightarrow> 'w word \<Rightarrow> 'w word \<Rightarrow> 'w word" where
  "SHA_Maj_modified x y z = (x AND (y OR z)) OR (y AND z)"

lemma SHA_modified_macros:
  "SHA_Ch_modified x y z = SHA_Ch x y z" "SHA_Maj_modified x y z = SHA_Maj x y z"
  by (auto intro!: bit_word_eqI
      simp: SHA_Ch_def SHA_Ch_modified_def SHA_Maj_def SHA_Maj_modified_def bit_simps)

section \<open>Vocabulary of the standard\<close>

lemma word_rotr_shifts:
  fixes w :: "'w::len word"
  assumes "0 < n" "n < LENGTH('w)"
  shows "word_rotr n w = shr w n OR shl w (LENGTH('w) - n)"
proof (rule bit_word_eqI)
  fix i assume i: "i < LENGTH('w)"
  have "(i + n) mod LENGTH('w) = (if i + n < LENGTH('w) then i + n else i - (LENGTH('w) - n))"
    using i assms by (auto simp: mod_if)
  then show "bit (word_rotr n w) i = bit (shr w n OR shl w (LENGTH('w) - n)) i"
    using i assms by (auto simp: bit_word_rotr_iff bit_simps add.commute dest: bit_imp_le_length)
qed

lemma word_rotl_shifts:
  fixes w :: "'w::len word"
  assumes "0 < n" "n < LENGTH('w)"
  shows "word_rotl n w = shl w n OR shr w (LENGTH('w) - n)"
proof -
  have "word_rotl n w = word_rotr (LENGTH('w) - n) w"
    using assms by (simp add: word_rotl_eq_word_rotr)
  then show ?thesis using word_rotr_shifts [of "LENGTH('w) - n" w] assms by (simp add: or.commute)
qed

type_synonym 'w working = "'w \<times> 'w \<times> 'w \<times> 'w \<times> 'w \<times> 'w \<times> 'w \<times> 'w"

definition fips_Sigma :: "nat \<Rightarrow> nat \<Rightarrow> nat \<Rightarrow> 'w::len word \<Rightarrow> 'w word" where
  "fips_Sigma i j k w = word_rotr i w XOR word_rotr j w XOR word_rotr k w"

definition fips_sigma :: "nat \<Rightarrow> nat \<Rightarrow> nat \<Rightarrow> 'w::len word \<Rightarrow> 'w word" where
  "fips_sigma i j k w = word_rotr i w XOR word_rotr j w XOR shr w k"

text \<open>The word whose bytes are given, most significant first.\<close>

definition be_word :: "bytes \<Rightarrow> 'w::len word" where
  "be_word bs = foldl (\<lambda>w b. shl w 8 OR ucast b) 0 bs"

definition block_word :: "nat \<Rightarrow> bytes \<Rightarrow> nat \<Rightarrow> 'w::len word" where
  "block_word k block t = be_word (take k (drop (k * t) block))"

lemma be_word_4:
  "be_word [a, b, c, d] = shl (ucast a) 24 OR shl (ucast b) 16 OR shl (ucast c) 8 OR ucast d"
  by (simp add: be_word_def push_bit_or or.assoc)

lemma be_word_8:
  "be_word [a, b, c, d, e, f, g, h] = shl (ucast a) 56 OR shl (ucast b) 48 OR shl (ucast c) 40
     OR shl (ucast d) 32 OR shl (ucast e) 24 OR shl (ucast f) 16 OR shl (ucast g) 8 OR ucast h"
  by (simp add: be_word_def push_bit_or or.assoc)

lemma take_drop_nths: "j + k \<le> length xs \<Longrightarrow> take k (drop j xs) = map (\<lambda>i. xs ! (j + i)) [0..<k]"
  by (rule nth_equalityI) auto

lemma block_word_4:
  assumes "4 * t + 4 \<le> length block"
  shows "block_word 4 block t = shl (ucast (block ! (4 * t))) 24 OR shl (ucast (block ! (4 * t + 1))) 16
    OR shl (ucast (block ! (4 * t + 2))) 8 OR ucast (block ! (4 * t + 3))"
proof -
  have "[0..<4] = [0, 1, 2, 3]" by (simp add: upt_rec)
  then show ?thesis unfolding block_word_def take_drop_nths [OF assms] by (simp only: list.map be_word_4 add_0_right)
qed

lemma block_word_8:
  assumes "8 * t + 8 \<le> length block"
  shows "block_word 8 block t = shl (ucast (block ! (8 * t))) 56 OR shl (ucast (block ! (8 * t + 1))) 48
    OR shl (ucast (block ! (8 * t + 2))) 40 OR shl (ucast (block ! (8 * t + 3))) 32
    OR shl (ucast (block ! (8 * t + 4))) 24 OR shl (ucast (block ! (8 * t + 5))) 16
    OR shl (ucast (block ! (8 * t + 6))) 8 OR ucast (block ! (8 * t + 7))"
proof -
  have "[0..<8] = [0, 1, 2, 3, 4, 5, 6, 7]" by (simp add: upt_rec)
  then show ?thesis unfolding block_word_def take_drop_nths [OF assms] by (simp only: list.map be_word_8 add_0_right)
qed

text \<open>Adding a list of words to the words of a hash value.\<close>

definition add_words :: "'w::len word list \<Rightarrow> 'w word list \<Rightarrow> 'w word list" where
  "add_words xs ys = map (\<lambda>i. if i < length ys then xs ! i + ys ! i else xs ! i) [0..<length xs]"

lemma length_add_words [simp]: "length (add_words xs ys) = length xs"
  by (simp add: add_words_def)

lemma add_words_5:
  "add_words h [a, b, c, d, e] = h[0 := h ! 0 + a, 1 := h ! 1 + b, 2 := h ! 2 + c, 3 := h ! 3 + d, 4 := h ! 4 + e]"
  by (rule nth_equalityI) (auto simp: add_words_def nth_list_update nth_Cons' less_Suc_eq eval_nat_numeral)

lemma add_words_8:
  "add_words h' [a, b, c, d, e, f, g, h] = h'[0 := h' ! 0 + a, 1 := h' ! 1 + b, 2 := h' ! 2 + c,
     3 := h' ! 3 + d, 4 := h' ! 4 + e, 5 := h' ! 5 + f, 6 := h' ! 6 + g, 7 := h' ! 7 + h]"
  by (rule nth_equalityI) (auto simp: add_words_def nth_list_update nth_Cons' less_Suc_eq eval_nat_numeral)

text \<open>The length field: the bytes of two words, stored over the end of a block.\<close>

lemma word_be_32: "word_be (w :: u32) = [ucast (shr w 24), ucast (shr w 16), ucast (shr w 8), ucast w]"
proof -
  have "word_be w = map ((!) (word_be w)) [0..<4]" using map_nth [of "word_be w"] by simp
  also have "[0..<4] = [0, 1, 2, 3]" by (simp add: upt_rec)
  finally show ?thesis by (simp add: nth_word_be)
qed

lemma word_be_64:
  "word_be (w :: u64) = [ucast (shr w 56), ucast (shr w 48), ucast (shr w 40), ucast (shr w 32),
     ucast (shr w 24), ucast (shr w 16), ucast (shr w 8), ucast w]"
proof -
  have "word_be w = map ((!) (word_be w)) [0..<8]" using map_nth [of "word_be w"] by simp
  also have "[0..<8] = [0, 1, 2, 3, 4, 5, 6, 7]" by (simp add: upt_rec)
  finally show ?thesis by (simp add: nth_word_be)
qed

lemma list_8_cases:
  assumes "length xs = 8"
  obtains a b c d e f g h where "xs = [a, b, c, d, e, f, g, h]"
  using assms by (auto simp: length_Suc_conv eval_nat_numeral)

lemma list_updates_8:
  "length xs = 8 \<Longrightarrow> xs[0 := a, 1 := b, 2 := c, 3 := d, 4 := e, 5 := f, 6 := g, 7 := h] = [a, b, c, d, e, f, g, h]"
  by (erule list_8_cases) simp

lemma front_update: "length ys = n \<Longrightarrow> n \<le> i \<Longrightarrow> (ys @ zs)[i := v] = ys @ zs[i - n := v]"
  by (simp add: list_update_append)

lemma tail_updates_8:
  assumes "length xs = 64"
  shows "xs[56 := a, 57 := b, 58 := c, 59 := d, 60 := e, 61 := f, 62 := g, 63 := h]
         = take 56 xs @ [a, b, c, d, e, f, g, h]"
proof -
  define ys where "ys = take 56 xs"
  have ys: "length ys = 56" "xs = ys @ drop 56 xs" "length (drop 56 xs) = 8" using assms by (simp_all add: ys_def)
  obtain p q r s t u v w where "drop 56 xs = [p, q, r, s, t, u, v, w]" using ys(3) by (rule list_8_cases)
  then have "xs = ys @ [p, q, r, s, t, u, v, w]" using ys(2) by simp
  then show ?thesis unfolding ys_def [symmetric] by (simp add: front_update [OF ys(1)])
qed

lemma tail_updates_16:
  assumes "length xs = 128"
  shows "xs[112 := a, 113 := b, 114 := c, 115 := d, 116 := e, 117 := f, 118 := g, 119 := h,
      120 := a', 121 := b', 122 := c', 123 := d', 124 := e', 125 := f', 126 := g', 127 := h']
         = take 112 xs @ [a, b, c, d, e, f, g, h, a', b', c', d', e', f', g', h']"
proof -
  define ys where "ys = take 112 xs"
  have ys: "length ys = 112" "xs = ys @ take 8 (drop 112 xs) @ drop 120 xs" "length (take 8 (drop 112 xs)) = 8"
    "length (drop 120 xs) = 8"
    using assms append_take_drop_id [of 8 "drop 112 xs"] by (simp_all add: ys_def)
  obtain p q r s t u v w where p: "take 8 (drop 112 xs) = [p, q, r, s, t, u, v, w]" using ys(3) by (rule list_8_cases)
  obtain p' q' r' s' t' u' v' w' where p': "drop 120 xs = [p', q', r', s', t', u', v', w']" using ys(4) by (rule list_8_cases)
  have "xs = ys @ [p, q, r, s, t, u, v, w, p', q', r', s', t', u', v', w']" using ys(2) p p' by simp
  then show ?thesis unfolding ys_def [symmetric] by (simp add: front_update [OF ys(1)])
qed

section \<open>Loops\<close>

text \<open>An array filled from left to right, each cell from the cells before it.\<close>

lemma fold_schedule:
  assumes "\<And>t. k \<le> t \<Longrightarrow> f t (map W [0..<t]) = W t" "k \<le> n"
  shows "fold (\<lambda>t xs. xs @ [f t xs]) [k..<n] (map W [0..<k]) = map W [0..<n]"
  using assms(2)
proof (induction n)
  case (Suc n)
  then show ?case using assms(1) [of n] by (cases "k = Suc n") simp_all
qed simp

text \<open>A loop over rounds, as recursion on the number of rounds.\<close>

primrec rounds :: "(nat \<Rightarrow> 's \<Rightarrow> 's) \<Rightarrow> 's \<Rightarrow> nat \<Rightarrow> 's" where
  "rounds f s 0 = s" |
  "rounds f s (Suc t) = f t (rounds f s t)"

lemma fold_rounds: "fold f [0..<n] s = rounds f s n"
  by (induction n) simp_all

lemma fold_cong_upt:
  "(\<And>t s. t < n \<Longrightarrow> f t s = g t s) \<Longrightarrow> fold f [m..<n] s = fold g [m..<n] s"
  by (rule fold_cong) auto

text \<open>The constants of the standard: the first \<open>w\<close> bits of the fractional part of the \<open>k\<close>-th
  root of a number.  The root \<open>r\<close> of \<open>p * 2 ^ (k * w)\<close>, rounded down, has them as its last \<open>w\<close>
  bits.\<close>

definition root_fraction :: "nat \<Rightarrow> nat \<Rightarrow> nat \<Rightarrow> nat \<Rightarrow> bool" where
  "root_fraction k w p c \<longleftrightarrow> c < 2 ^ w \<and>
     (\<exists>i. (i * 2 ^ w + c) ^ k \<le> p * 2 ^ (k * w) \<and> p * 2 ^ (k * w) < (i * 2 ^ w + c + 1) ^ k)"

text \<open>With the integer parts of the roots at hand, the check is a computation.\<close>

lemma root_fractions:
  assumes "length ints = length ps" "length cs = length ps"
    and "list_all (\<lambda>(p, i, c). c < 2 ^ w \<and> (i * 2 ^ w + c) ^ k \<le> p * 2 ^ (k * w) \<and>
           p * 2 ^ (k * w) < (i * 2 ^ w + c + 1) ^ k) (zip ps (zip ints cs))"
  shows "list_all2 (root_fraction k w) ps cs"
  unfolding list_all2_conv_all_nth root_fraction_def
proof (intro conjI allI impI)
  fix n assume n: "n < length ps"
  then have "zip ps (zip ints cs) ! n = (ps ! n, ints ! n, cs ! n)" using assms(1,2) by simp
  then have *: "cs ! n < 2 ^ w \<and> (ints ! n * 2 ^ w + cs ! n) ^ k \<le> ps ! n * 2 ^ (k * w) \<and>
      ps ! n * 2 ^ (k * w) < (ints ! n * 2 ^ w + cs ! n + 1) ^ k"
    using assms n by (fastforce simp: list_all_length)
  then show "cs ! n < 2 ^ w" by blast
  show "\<exists>i. (i * 2 ^ w + cs ! n) ^ k \<le> ps ! n * 2 ^ (k * w) \<and> ps ! n * 2 ^ (k * w) < (i * 2 ^ w + cs ! n + 1) ^ k"
    using * by blast
qed (use assms in simp)

definition primes_80 :: "nat list" where
  "primes_80 =
    [2, 3, 5, 7, 11, 13, 17, 19, 23, 29, 31, 37, 41, 43, 47, 53, 59, 61, 67, 71, 73, 79, 83, 89, 97,
     101, 103, 107, 109, 113, 127, 131, 137, 139, 149, 151, 157, 163, 167, 173, 179, 181, 191, 193,
     197, 199, 211, 223, 227, 229, 233, 239, 241, 251, 257, 263, 269, 271, 277, 281, 283, 293, 307,
     311, 313, 317, 331, 337, 347, 349, 353, 359, 367, 373, 379, 383, 389, 397, 401, 409]"

end
