(* ===== verification/Sha1.thy ===== *)
theory Sha1
  imports Sha_Functions
begin

text \<open>
  SHA-1, \<open>src/sha/sha1.c\<close>: every function of the file, the block function with its four loops
  proved equal to the compression function of FIPS 180 (section 6.1), and the module as an
  instance of the locales of \<open>Merkle_Damgard\<close>.
\<close>

section \<open>Macros and tables\<close>

definition SHA1_ROTL :: "nat \<Rightarrow> u32 \<Rightarrow> u32" where
  "SHA1_ROTL bits w = shl w bits OR shr w (32 - bits)"

definition SHA1_K :: "u32 list" where
  "SHA1_K = [0x5A827999, 0x6ED9EBA1, 0x8F1BBCDC, 0xCA62C1D6]"

section \<open>The functions of the file\<close>

text \<open>The comparison \<open>(Length_Low += length) < addTemp\<close> comes first, so \<open>Length_High\<close> is
  incremented only on a carry.\<close>

definition SHA1AddLength :: "SHA1Context \<Rightarrow> u32 \<Rightarrow> SHA1Context" where
  "SHA1AddLength context len =
     (let addTemp = Length_Low context;
          context = context\<lparr>Length_Low := Length_Low context + len\<rparr>
      in if Length_Low context < addTemp
         then (let context = context\<lparr>Length_High := Length_High context + 1\<rparr>
               in if Length_High context = 0 then context\<lparr>Corrupted := shaInputTooLong\<rparr> else context)
         else context)"

definition SHA1Reset :: "SHA1Context option \<Rightarrow> sha_error \<times> SHA1Context option" where
  "SHA1Reset context =
     (case context of None \<Rightarrow> (shaNull, None)
      | Some c \<Rightarrow> (shaSuccess, Some (c\<lparr>Length_High := 0, Length_Low := 0, Message_Block_Index := 0,
          Intermediate_Hash := (Intermediate_Hash c)[0 := 0x67452301, 1 := 0xEFCDAB89, 2 := 0x98BADCFE,
            3 := 0x10325476, 4 := 0xC3D2E1F0],
          Computed := False, Corrupted := shaSuccess\<rparr>)))"

text \<open>The message schedule \<open>W\<close>, and the turns of the four loops over the working variables.\<close>

definition SHA1_W :: "bytes \<Rightarrow> u32 list" where
  "SHA1_W block = fold
     (\<lambda>t W. W @ [SHA1_ROTL 1 (W ! (t - 3) XOR W ! (t - 8) XOR W ! (t - 14) XOR W ! (t - 16))])
     [16..<80]
     (map (\<lambda>t. shl (ucast (block ! (t * 4))) 24 OR shl (ucast (block ! (t * 4 + 1))) 16
         OR shl (ucast (block ! (t * 4 + 2))) 8 OR ucast (block ! (t * 4 + 3))) [0..<16])"

type_synonym working1 = "u32 \<times> u32 \<times> u32 \<times> u32 \<times> u32"

definition SHA1_round :: "(u32 \<Rightarrow> u32 \<Rightarrow> u32 \<Rightarrow> u32) \<Rightarrow> u32 \<Rightarrow> u32 list \<Rightarrow> nat \<Rightarrow> working1 \<Rightarrow> working1" where
  "SHA1_round f K W t = (\<lambda>(A, B, C, D, E).
     let temp = SHA1_ROTL 5 A + f B C D + E + W ! t + K;
         E = D; D = C; C = SHA1_ROTL 30 B; B = A; A = temp
     in (A, B, C, D, E))"

definition SHA1ProcessMessageBlock :: "SHA1Context \<Rightarrow> SHA1Context" where
  "SHA1ProcessMessageBlock context =
     (let W = SHA1_W (Message_Block context);
          I = Intermediate_Hash context;
          s = (I ! 0, I ! 1, I ! 2, I ! 3, I ! 4);
          s = fold (SHA1_round SHA_Ch (SHA1_K ! 0) W) [0..<20] s;
          s = fold (SHA1_round SHA_Parity (SHA1_K ! 1) W) [20..<40] s;
          s = fold (SHA1_round SHA_Maj (SHA1_K ! 2) W) [40..<60] s;
          s = fold (SHA1_round SHA_Parity (SHA1_K ! 3) W) [60..<80] s;
          (A, B, C, D, E) = s
      in context\<lparr>Intermediate_Hash := I[0 := I ! 0 + A, 1 := I ! 1 + B, 2 := I ! 2 + C, 3 := I ! 3 + D,
             4 := I ! 4 + E],
           Message_Block_Index := 0\<rparr>)"

definition SHA1PadMessage :: "SHA1Context \<Rightarrow> u8 \<Rightarrow> SHA1Context option" where
  "SHA1PadMessage context Pad_Byte = do {
     context \<leftarrow> (if 64 - 8 \<le> Message_Block_Index context
       then do {
         block \<leftarrow> store (Message_Block context) (Message_Block_Index context) Pad_Byte;
         context \<leftarrow> fill_zeros (context\<lparr>Message_Block := block,
           Message_Block_Index := Message_Block_Index context + 1\<rparr>) 64;
         Some (SHA1ProcessMessageBlock context) }
       else do {
         block \<leftarrow> store (Message_Block context) (Message_Block_Index context) Pad_Byte;
         Some (context\<lparr>Message_Block := block,
           Message_Block_Index := Message_Block_Index context + 1\<rparr>) });
     context \<leftarrow> fill_zeros context (64 - 8);
     let block = (Message_Block context)
       [56 := ucast (shr (Length_High context) 24), 57 := ucast (shr (Length_High context) 16),
        58 := ucast (shr (Length_High context) 8), 59 := ucast (Length_High context),
        60 := ucast (shr (Length_Low context) 24), 61 := ucast (shr (Length_Low context) 16),
        62 := ucast (shr (Length_Low context) 8), 63 := ucast (Length_Low context)];
     Some (SHA1ProcessMessageBlock (context\<lparr>Message_Block := block\<rparr>)) }"

definition SHA1Finalize :: "SHA1Context \<Rightarrow> u8 \<Rightarrow> SHA1Context option" where
  "SHA1Finalize context Pad_Byte = do {
     context \<leftarrow> SHA1PadMessage context Pad_Byte;
     Some (context\<lparr>Message_Block := replicate 64 0, Length_High := 0, Length_Low := 0, Computed := True\<rparr>) }"

text \<open>\<open>while (length--)\<close> of \<open>SHA1Input\<close>; \<open>i\<close> is how far \<open>message_array\<close> was advanced.\<close>

primrec SHA1Input_loop :: "SHA1Context \<Rightarrow> bytes \<Rightarrow> nat \<Rightarrow> nat \<Rightarrow> SHA1Context option" where
  "SHA1Input_loop context message_array i 0 = Some context" |
  "SHA1Input_loop context message_array i (Suc len) = do {
     b \<leftarrow> fetch message_array i;
     block \<leftarrow> store (Message_Block context) (Message_Block_Index context) b;
     let context = SHA1AddLength
       (context\<lparr>Message_Block := block, Message_Block_Index := Message_Block_Index context + 1\<rparr>) 8;
     SHA1Input_loop
       (if Corrupted context = shaSuccess \<and> Message_Block_Index context = 64
        then SHA1ProcessMessageBlock context else context)
       message_array (i + 1) len }"

definition SHA1Input ::
  "SHA1Context option \<Rightarrow> bytes option \<Rightarrow> nat \<Rightarrow> (sha_error \<times> SHA1Context option) option" where
  "SHA1Input context message_array len =
     (case context of None \<Rightarrow> Some (shaNull, None)
      | Some c \<Rightarrow>
          if len = 0 then Some (shaSuccess, Some c)
          else case message_array of None \<Rightarrow> Some (shaNull, Some c)
          | Some m \<Rightarrow>
              if Computed c then Some (shaStateError, Some (c\<lparr>Corrupted := shaStateError\<rparr>))
              else if Corrupted c \<noteq> shaSuccess then Some (Corrupted c, Some c)
              else do { c \<leftarrow> SHA1Input_loop c m 0 len; Some (Corrupted c, Some c) })"

definition SHA1FinalBits ::
  "SHA1Context option \<Rightarrow> u8 \<Rightarrow> nat \<Rightarrow> (sha_error \<times> SHA1Context option) option" where
  "SHA1FinalBits context message_bits len =
     (case context of None \<Rightarrow> Some (shaNull, None)
      | Some c \<Rightarrow>
          if len = 0 then Some (shaSuccess, Some c)
          else if Corrupted c \<noteq> shaSuccess then Some (Corrupted c, Some c)
          else if Computed c then Some (shaStateError, Some (c\<lparr>Corrupted := shaStateError\<rparr>))
          else if 8 \<le> len then Some (shaBadParam, Some (c\<lparr>Corrupted := shaBadParam\<rparr>))
          else do {
            c \<leftarrow> SHA1Finalize (SHA1AddLength c (of_nat len))
                  ((message_bits AND masks ! len) OR markbit ! len);
            Some (Corrupted c, Some c) })"

primrec SHA1Result_loop :: "u32 list \<Rightarrow> bytes \<Rightarrow> nat \<Rightarrow> nat \<Rightarrow> bytes option" where
  "SHA1Result_loop I Message_Digest i 0 = Some Message_Digest" |
  "SHA1Result_loop I Message_Digest i (Suc n) = do {
     Message_Digest \<leftarrow> store Message_Digest i (ucast (shr (I ! (i div 4)) (8 * (3 - i mod 4))));
     SHA1Result_loop I Message_Digest (i + 1) n }"

definition SHA1Result ::
  "SHA1Context option \<Rightarrow> bytes option \<Rightarrow> (sha_error \<times> SHA1Context option \<times> bytes option) option" where
  "SHA1Result context Message_Digest =
     (case context of None \<Rightarrow> Some (shaNull, None, Message_Digest)
      | Some c \<Rightarrow>
          case Message_Digest of None \<Rightarrow> Some (shaNull, Some c, None)
          | Some d \<Rightarrow>
              if Corrupted c \<noteq> shaSuccess then Some (Corrupted c, Some c, Some d)
              else do {
                c \<leftarrow> (if \<not> Computed c then SHA1Finalize c 0x80 else Some c);
                d \<leftarrow> SHA1Result_loop (Intermediate_Hash c) d 0 20;
                Some (shaSuccess, Some c, Some d) })"

section \<open>The compression function of the standard\<close>

definition fips1_H0 :: "u32 list" where
  "fips1_H0 = [0x67452301, 0xEFCDAB89, 0x98BADCFE, 0x10325476, 0xC3D2E1F0]"

fun fips1_W :: "bytes \<Rightarrow> nat \<Rightarrow> u32" where
  "fips1_W M t =
     (if t < 16 then block_word 4 M t
      else word_rotl 1 (fips1_W M (t - 3) XOR fips1_W M (t - 8) XOR fips1_W M (t - 14) XOR fips1_W M (t - 16)))"

declare fips1_W.simps [simp del]

definition fips1_f :: "nat \<Rightarrow> u32 \<Rightarrow> u32 \<Rightarrow> u32 \<Rightarrow> u32" where
  "fips1_f t x y z =
     (if t < 20 then (x AND y) XOR (NOT x AND z)
      else if t < 40 then x XOR y XOR z
      else if t < 60 then (x AND y) XOR (x AND z) XOR (y AND z)
      else x XOR y XOR z)"

definition fips1_K :: "nat \<Rightarrow> u32" where
  "fips1_K t = (if t < 20 then 0x5a827999 else if t < 40 then 0x6ed9eba1
     else if t < 60 then 0x8f1bbcdc else 0xca62c1d6)"

definition fips1_round :: "bytes \<Rightarrow> nat \<Rightarrow> working1 \<Rightarrow> working1" where
  "fips1_round M t = (\<lambda>(a, b, c, d, e).
     (word_rotl 5 a + fips1_f t b c d + e + fips1_K t + fips1_W M t, a, word_rotl 30 b, c, d))"

definition fips1_compress :: "u32 list \<Rightarrow> bytes \<Rightarrow> u32 list" where
  "fips1_compress I M =
     (case rounds (fips1_round M) (I ! 0, I ! 1, I ! 2, I ! 3, I ! 4) 80
      of (a, b, c, d, e) \<Rightarrow> add_words I [a, b, c, d, e])"

section \<open>The block function is the compression function\<close>

lemma SHA1_ROTL_rotl: "0 < n \<Longrightarrow> n < 32 \<Longrightarrow> SHA1_ROTL n w = word_rotl n w"
  using word_rotl_shifts [of n w] by (simp add: SHA1_ROTL_def)

lemma SHA1_W_fips:
  assumes "length block = 64"
  shows "SHA1_W block = map (fips1_W block) [0..<80]"
proof -
  have "map (\<lambda>t. shl (ucast (block ! (t * 4))) 24 OR shl (ucast (block ! (t * 4 + 1))) 16
         OR shl (ucast (block ! (t * 4 + 2))) 8 OR (ucast (block ! (t * 4 + 3)) :: u32)) [0..<16]
      = map (fips1_W block) [0..<16]"
    unfolding mult.commute [of _ 4] using assms
    by (intro map_cong refl) (subst fips1_W.simps, subst block_word_4, auto)
  then show ?thesis
    unfolding SHA1_W_def
    by (simp only:) (rule fold_schedule, subst fips1_W.simps [of block], simp_all add: SHA1_ROTL_rotl)
qed

text \<open>The four loops are the eighty rounds, each with the function and the constant of its
  quarter.\<close>

lemma SHA1_round_fips:
  assumes "length block = 64"
  shows "t < 20 \<Longrightarrow> SHA1_round SHA_Ch (SHA1_K ! 0) (SHA1_W block) t s = fips1_round block t s"
    and "20 \<le> t \<Longrightarrow> t < 40 \<Longrightarrow> SHA1_round SHA_Parity (SHA1_K ! 1) (SHA1_W block) t s = fips1_round block t s"
    and "40 \<le> t \<Longrightarrow> t < 60 \<Longrightarrow> SHA1_round SHA_Maj (SHA1_K ! 2) (SHA1_W block) t s = fips1_round block t s"
    and "60 \<le> t \<Longrightarrow> t < 80 \<Longrightarrow> SHA1_round SHA_Parity (SHA1_K ! 3) (SHA1_W block) t s = fips1_round block t s"
  using assms
  by (cases s; simp add: SHA1_round_def fips1_round_def SHA1_W_fips SHA1_ROTL_rotl SHA1_K_def fips1_K_def
      fips1_f_def SHA_Ch_def SHA_Maj_def SHA_Parity_def Let_def)+

lemma fold_upt_split: "i \<le> j \<Longrightarrow> j \<le> k \<Longrightarrow> fold f [j..<k] (fold f [i..<j] s) = fold f [i..<k] s"
  by (metis comp_apply fold_append upt_add_eq_append le_add_diff_inverse)

lemma fold_cong_upt':
  "(\<And>t s. m \<le> t \<Longrightarrow> t < n \<Longrightarrow> f t s = g t s) \<Longrightarrow> fold f [m..<n] s = fold g [m..<n] s"
  by (rule fold_cong) auto

lemma SHA1ProcessMessageBlock_fips:
  assumes "length (Message_Block c) = 64"
  shows "SHA1ProcessMessageBlock c =
    c\<lparr>Intermediate_Hash := fips1_compress (Intermediate_Hash c) (Message_Block c), Message_Block_Index := 0\<rparr>"
proof -
  let ?W = "SHA1_W (Message_Block c)" and ?f = "fips1_round (Message_Block c)"
  have "fold (SHA1_round SHA_Ch (SHA1_K ! 0) ?W) [0..<20] s = fold ?f [0..<20] s"
    "fold (SHA1_round SHA_Parity (SHA1_K ! 1) ?W) [20..<40] s = fold ?f [20..<40] s"
    "fold (SHA1_round SHA_Maj (SHA1_K ! 2) ?W) [40..<60] s = fold ?f [40..<60] s"
    "fold (SHA1_round SHA_Parity (SHA1_K ! 3) ?W) [60..<80] s = fold ?f [60..<80] s" for s
    by (rule fold_cong_upt'; simp only: SHA1_round_fips [OF assms])+
  moreover have "fold ?f [60..<80] (fold ?f [40..<60] (fold ?f [20..<40] (fold ?f [0..<20] s))) = rounds ?f s 80" for s
    unfolding fold_rounds [symmetric] by (subst fold_upt_split, simp, simp)+ (rule refl)
  ultimately show ?thesis
    unfolding SHA1ProcessMessageBlock_def fips1_compress_def Let_def add_words_5
    by (simp split: prod.split)
qed

section \<open>The module as an instance of the construction\<close>

lemma SHA1AddLength_eq:
  "SHA1AddLength c k =
    (let low = Length_Low c + k; high = (if low < Length_Low c then Length_High c + 1 else Length_High c)
     in c\<lparr>Length_Low := low, Length_High := high,
          Corrupted := if low < Length_Low c \<and> high = 0 then shaInputTooLong else Corrupted c\<rparr>)"
  by (simp add: SHA1AddLength_def Let_def)

lemma SHA1PadMessage_eq:
  assumes "length (Message_Block c) = 64"
  shows "SHA1PadMessage c p = do {
      block \<leftarrow> store (Message_Block c) (Message_Block_Index c) p;
      let c1 = c\<lparr>Message_Block := block, Message_Block_Index := Message_Block_Index c + 1\<rparr>;
      c \<leftarrow> (if 64 - 8 \<le> Message_Block_Index c
            then do { c \<leftarrow> fill_zeros c1 64; Some (SHA1ProcessMessageBlock c) } else Some c1);
      c \<leftarrow> fill_zeros c (64 - 8);
      Some (SHA1ProcessMessageBlock (c\<lparr>Message_Block := take (64 - 8) (Message_Block c)
        @ word_be (Length_High c) @ word_be (Length_Low c)\<rparr>)) }"
proof -
  have finish: "do { c' \<leftarrow> fill_zeros c2 56;
      let block = (Message_Block c')
       [56 := ucast (shr (Length_High c') 24), 57 := ucast (shr (Length_High c') 16),
        58 := ucast (shr (Length_High c') 8), 59 := ucast (Length_High c'),
        60 := ucast (shr (Length_Low c') 24), 61 := ucast (shr (Length_Low c') 16),
        62 := ucast (shr (Length_Low c') 8), 63 := ucast (Length_Low c')];
      Some (SHA1ProcessMessageBlock (c'\<lparr>Message_Block := block\<rparr>)) }
    = do { c' \<leftarrow> fill_zeros c2 56;
      Some (SHA1ProcessMessageBlock (c'\<lparr>Message_Block := take 56 (Message_Block c')
        @ word_be (Length_High c') @ word_be (Length_Low c')\<rparr>)) }"
    if "length (Message_Block c2) = 64" for c2 :: SHA1Context
    using that by (cases "fill_zeros c2 56") (auto dest!: fill_zeros_length simp: tail_updates_8 word_be_32)
  have block: "length (Message_Block (SHA1ProcessMessageBlock c')) = 64"
    if "fill_zeros c2 64 = Some c'" "length (Message_Block c2) = 64" for c2 c' :: SHA1Context
    using fill_zeros_length [OF that(1)] that(2) by (simp add: SHA1ProcessMessageBlock_fips)
  show ?thesis
  proof (cases "Message_Block_Index c < 64")
    case True
    let ?c1 = "c\<lparr>Message_Block := (Message_Block c)[Message_Block_Index c := p],
      Message_Block_Index := Suc (Message_Block_Index c)\<rparr>"
    show ?thesis
      using True assms block [of ?c1] unfolding SHA1PadMessage_def
      by (cases "fill_zeros ?c1 64") (simp_all add: finish [unfolded Let_def] Let_def)
  qed (simp add: SHA1PadMessage_def store_def assms)
qed

lemma SHA1Reset_Some:
  assumes "length (Intermediate_Hash c) = 5"
  shows "SHA1Reset (Some c) = (shaSuccess, Some (c\<lparr>Length_High := 0, Length_Low := 0,
    Message_Block_Index := 0, Intermediate_Hash := fips1_H0, Computed := False, Corrupted := shaSuccess\<rparr>))"
proof -
  obtain k0 k1 k2 k3 k4 where "Intermediate_Hash c = [k0, k1, k2, k3, k4]"
    using assms by (auto simp: length_Suc_conv eval_nat_numeral)
  then show ?thesis by (simp add: SHA1Reset_def fips1_H0_def)
qed

interpretation sha1: hash_module 64 8 fips1_compress SHA1ProcessMessageBlock
  SHA1AddLength SHA1Input_loop SHA1PadMessage SHA1Finalize
  fips1_H0 20 SHA1Reset SHA1Input SHA1FinalBits SHA1Result SHA1Result_loop
proof (unfold_locales, goal_cases)
  case (4 c)
  then show ?case by (rule SHA1ProcessMessageBlock_fips)
next
  case (5 c k)
  then show ?case by (rule SHA1AddLength_eq)
next
  case (8 c p)
  then show ?case using SHA1PadMessage_eq [of c p] by simp
next
  case (10 h block)
  then show ?case by (simp add: fips1_compress_def split: prod.split)
next
  case (12 c)
  then show ?case by (intro SHA1Reset_Some) (simp add: fips1_H0_def)
qed (simp_all add: SHA1Finalize_def SHA1Input_def SHA1FinalBits_def SHA1Result_def
    fips1_H0_def Let_def split: option.split)

end
