(* ===== verification/Sha256.thy ===== *)
theory Sha256
  imports Sha_Functions
begin

text \<open>
  SHA-224 and SHA-256, \<open>src/sha/sha224-256.c\<close>: every function of the file, the block function
  proved equal to the compression function of FIPS 180 (section 6.2), and the module as an
  instance of the locales of \<open>Merkle_Damgard\<close>.
\<close>

section \<open>Macros and tables\<close>

definition SHA256_SHR :: "nat \<Rightarrow> u32 \<Rightarrow> u32" where
  "SHA256_SHR bits w = shr w bits"

definition SHA256_ROTL :: "nat \<Rightarrow> u32 \<Rightarrow> u32" where
  "SHA256_ROTL bits w = shl w bits OR shr w (32 - bits)"

definition SHA256_ROTR :: "nat \<Rightarrow> u32 \<Rightarrow> u32" where
  "SHA256_ROTR bits w = shr w bits OR shl w (32 - bits)"

definition SHA256_SIGMA0 :: "u32 \<Rightarrow> u32" where
  "SHA256_SIGMA0 w = SHA256_ROTR 2 w XOR SHA256_ROTR 13 w XOR SHA256_ROTR 22 w"

definition SHA256_SIGMA1 :: "u32 \<Rightarrow> u32" where
  "SHA256_SIGMA1 w = SHA256_ROTR 6 w XOR SHA256_ROTR 11 w XOR SHA256_ROTR 25 w"

definition SHA256_sigma0 :: "u32 \<Rightarrow> u32" where
  "SHA256_sigma0 w = SHA256_ROTR 7 w XOR SHA256_ROTR 18 w XOR SHA256_SHR 3 w"

definition SHA256_sigma1 :: "u32 \<Rightarrow> u32" where
  "SHA256_sigma1 w = SHA256_ROTR 17 w XOR SHA256_ROTR 19 w XOR SHA256_SHR 10 w"

definition SHA224_H0 :: "u32 list" where
  "SHA224_H0 = [0xC1059ED8, 0x367CD507, 0x3070DD17, 0xF70E5939,
    0xFFC00B31, 0x68581511, 0x64F98FA7, 0xBEFA4FA4]"

definition SHA256_H0 :: "u32 list" where
  "SHA256_H0 = [0x6A09E667, 0xBB67AE85, 0x3C6EF372, 0xA54FF53A,
    0x510E527F, 0x9B05688C, 0x1F83D9AB, 0x5BE0CD19]"

definition SHA256_K :: "u32 list" where
  "SHA256_K =
  [0x428A2F98, 0x71374491, 0xB5C0FBCF, 0xE9B5DBA5, 0x3956C25B, 0x59F111F1, 0x923F82A4, 0xAB1C5ED5,
   0xD807AA98, 0x12835B01, 0x243185BE, 0x550C7DC3, 0x72BE5D74, 0x80DEB1FE, 0x9BDC06A7, 0xC19BF174,
   0xE49B69C1, 0xEFBE4786, 0x0FC19DC6, 0x240CA1CC, 0x2DE92C6F, 0x4A7484AA, 0x5CB0A9DC, 0x76F988DA,
   0x983E5152, 0xA831C66D, 0xB00327C8, 0xBF597FC7, 0xC6E00BF3, 0xD5A79147, 0x06CA6351, 0x14292967,
   0x27B70A85, 0x2E1B2138, 0x4D2C6DFC, 0x53380D13, 0x650A7354, 0x766A0ABB, 0x81C2C92E, 0x92722C85,
   0xA2BFE8A1, 0xA81A664B, 0xC24B8B70, 0xC76C51A3, 0xD192E819, 0xD6990624, 0xF40E3585, 0x106AA070,
   0x19A4C116, 0x1E376C08, 0x2748774C, 0x34B0BCB5, 0x391C0CB3, 0x4ED8AA4A, 0x5B9CCA4F, 0x682E6FF3,
   0x748F82EE, 0x78A5636F, 0x84C87814, 0x8CC70208, 0x90BEFFFA, 0xA4506CEB, 0xBEF9A3F7, 0xC67178F2]"

section \<open>The functions of the file\<close>

text \<open>The comparison \<open>(Length_Low += length) < addTemp\<close> comes first, so \<open>Length_High\<close> is
  incremented only on a carry.\<close>

definition SHA224_256AddLength :: "SHA256Context \<Rightarrow> u32 \<Rightarrow> SHA256Context" where
  "SHA224_256AddLength context len =
     (let addTemp = Length_Low context;
          context = context\<lparr>Length_Low := Length_Low context + len\<rparr>
      in if Length_Low context < addTemp
         then (let context = context\<lparr>Length_High := Length_High context + 1\<rparr>
               in if Length_High context = 0 then context\<lparr>Corrupted := shaInputTooLong\<rparr> else context)
         else context)"

definition SHA224_256Reset :: "SHA256Context option \<Rightarrow> u32 list \<Rightarrow> sha_error \<times> SHA256Context option" where
  "SHA224_256Reset context H0 =
     (case context of None \<Rightarrow> (shaNull, None)
      | Some c \<Rightarrow> (shaSuccess, Some (c\<lparr>Length_High := 0, Length_Low := 0, Message_Block_Index := 0,
          Intermediate_Hash := (Intermediate_Hash c)[0 := H0 ! 0, 1 := H0 ! 1, 2 := H0 ! 2, 3 := H0 ! 3,
            4 := H0 ! 4, 5 := H0 ! 5, 6 := H0 ! 6, 7 := H0 ! 7],
          Computed := False, Corrupted := shaSuccess\<rparr>)))"

text \<open>The message schedule \<open>W\<close>: sixteen words read from the block, then the loop that extends
  them; and one turn of the loop over the working variables \<open>A\<close> to \<open>H\<close>.\<close>

definition SHA256_W :: "bytes \<Rightarrow> u32 list" where
  "SHA256_W block = fold
     (\<lambda>t W. W @ [SHA256_sigma1 (W ! (t - 2)) + W ! (t - 7) + SHA256_sigma0 (W ! (t - 15)) + W ! (t - 16)])
     [16..<64]
     (map (\<lambda>t. let t4 = 4 * t in
         shl (ucast (block ! t4)) 24 OR shl (ucast (block ! (t4 + 1))) 16
         OR shl (ucast (block ! (t4 + 2))) 8 OR ucast (block ! (t4 + 3))) [0..<16])"

definition SHA256_round :: "u32 list \<Rightarrow> nat \<Rightarrow> u32 working \<Rightarrow> u32 working" where
  "SHA256_round W t = (\<lambda>(A, B, C, D, E, F, G, H).
     let temp1 = H + SHA256_SIGMA1 E + SHA_Ch E F G + SHA256_K ! t + W ! t;
         temp2 = SHA256_SIGMA0 A + SHA_Maj A B C;
         H = G; G = F; F = E; E = D + temp1; D = C; C = B; B = A; A = temp1 + temp2
     in (A, B, C, D, E, F, G, H))"

definition SHA224_256ProcessMessageBlock :: "SHA256Context \<Rightarrow> SHA256Context" where
  "SHA224_256ProcessMessageBlock context =
     (let W = SHA256_W (Message_Block context);
          I = Intermediate_Hash context;
          (A, B, C, D, E, F, G, H) = fold (SHA256_round W) [0..<64]
            (I ! 0, I ! 1, I ! 2, I ! 3, I ! 4, I ! 5, I ! 6, I ! 7)
      in context\<lparr>Intermediate_Hash := I[0 := I ! 0 + A, 1 := I ! 1 + B, 2 := I ! 2 + C, 3 := I ! 3 + D,
             4 := I ! 4 + E, 5 := I ! 5 + F, 6 := I ! 6 + G, 7 := I ! 7 + H],
           Message_Block_Index := 0\<rparr>)"

definition SHA224_256PadMessage :: "SHA256Context \<Rightarrow> u8 \<Rightarrow> SHA256Context option" where
  "SHA224_256PadMessage context Pad_Byte = do {
     context \<leftarrow> (if 64 - 8 \<le> Message_Block_Index context
       then do {
         block \<leftarrow> store (Message_Block context) (Message_Block_Index context) Pad_Byte;
         context \<leftarrow> fill_zeros (context\<lparr>Message_Block := block,
           Message_Block_Index := Message_Block_Index context + 1\<rparr>) 64;
         Some (SHA224_256ProcessMessageBlock context) }
       else do {
         block \<leftarrow> store (Message_Block context) (Message_Block_Index context) Pad_Byte;
         Some (context\<lparr>Message_Block := block,
           Message_Block_Index := Message_Block_Index context + 1\<rparr>) });
     context \<leftarrow> fill_zeros context (64 - 8);
     let block = (Message_Block context)
       [56 := ucast (shr (Length_High context) 24), 57 := ucast (shr (Length_High context) 16),
        58 := ucast (shr (Length_High context) 8), 59 := ucast (Length_High context),
        60 := ucast (shr (Length_Low context) 24), 61 := ucast (shr (Length_Low context) 16),
        62 := ucast (shr (Length_Low context) 8), 63 := ucast (Length_Low context)];
     Some (SHA224_256ProcessMessageBlock (context\<lparr>Message_Block := block\<rparr>)) }"

definition SHA224_256Finalize :: "SHA256Context \<Rightarrow> u8 \<Rightarrow> SHA256Context option" where
  "SHA224_256Finalize context Pad_Byte = do {
     context \<leftarrow> SHA224_256PadMessage context Pad_Byte;
     Some (context\<lparr>Message_Block := replicate 64 0, Length_High := 0, Length_Low := 0, Computed := True\<rparr>) }"

text \<open>\<open>while (length--)\<close> of \<open>SHA256Input\<close>; \<open>i\<close> is how far \<open>message_array\<close> was advanced.\<close>

primrec SHA256Input_loop :: "SHA256Context \<Rightarrow> bytes \<Rightarrow> nat \<Rightarrow> nat \<Rightarrow> SHA256Context option" where
  "SHA256Input_loop context message_array i 0 = Some context" |
  "SHA256Input_loop context message_array i (Suc len) = do {
     b \<leftarrow> fetch message_array i;
     block \<leftarrow> store (Message_Block context) (Message_Block_Index context) b;
     let context = SHA224_256AddLength
       (context\<lparr>Message_Block := block, Message_Block_Index := Message_Block_Index context + 1\<rparr>) 8;
     SHA256Input_loop
       (if Corrupted context = shaSuccess \<and> Message_Block_Index context = 64
        then SHA224_256ProcessMessageBlock context else context)
       message_array (i + 1) len }"

definition SHA256Input ::
  "SHA256Context option \<Rightarrow> bytes option \<Rightarrow> nat \<Rightarrow> (sha_error \<times> SHA256Context option) option" where
  "SHA256Input context message_array len =
     (case context of None \<Rightarrow> Some (shaNull, None)
      | Some c \<Rightarrow>
          if len = 0 then Some (shaSuccess, Some c)
          else case message_array of None \<Rightarrow> Some (shaNull, Some c)
          | Some m \<Rightarrow>
              if Computed c then Some (shaStateError, Some (c\<lparr>Corrupted := shaStateError\<rparr>))
              else if Corrupted c \<noteq> shaSuccess then Some (Corrupted c, Some c)
              else do { c \<leftarrow> SHA256Input_loop c m 0 len; Some (Corrupted c, Some c) })"

definition SHA256FinalBits ::
  "SHA256Context option \<Rightarrow> u8 \<Rightarrow> nat \<Rightarrow> (sha_error \<times> SHA256Context option) option" where
  "SHA256FinalBits context message_bits len =
     (case context of None \<Rightarrow> Some (shaNull, None)
      | Some c \<Rightarrow>
          if len = 0 then Some (shaSuccess, Some c)
          else if Corrupted c \<noteq> shaSuccess then Some (Corrupted c, Some c)
          else if Computed c then Some (shaStateError, Some (c\<lparr>Corrupted := shaStateError\<rparr>))
          else if 8 \<le> len then Some (shaBadParam, Some (c\<lparr>Corrupted := shaBadParam\<rparr>))
          else do {
            c \<leftarrow> SHA224_256Finalize (SHA224_256AddLength c (of_nat len))
                  ((message_bits AND masks ! len) OR markbit ! len);
            Some (Corrupted c, Some c) })"

primrec SHA224_256ResultN_loop :: "u32 list \<Rightarrow> bytes \<Rightarrow> nat \<Rightarrow> nat \<Rightarrow> bytes option" where
  "SHA224_256ResultN_loop I Message_Digest i 0 = Some Message_Digest" |
  "SHA224_256ResultN_loop I Message_Digest i (Suc n) = do {
     Message_Digest \<leftarrow> store Message_Digest i (ucast (shr (I ! (i div 4)) (8 * (3 - i mod 4))));
     SHA224_256ResultN_loop I Message_Digest (i + 1) n }"

definition SHA224_256ResultN :: "nat \<Rightarrow> SHA256Context option \<Rightarrow> bytes option
    \<Rightarrow> (sha_error \<times> SHA256Context option \<times> bytes option) option" where
  "SHA224_256ResultN HashSize context Message_Digest =
     (case context of None \<Rightarrow> Some (shaNull, None, Message_Digest)
      | Some c \<Rightarrow>
          case Message_Digest of None \<Rightarrow> Some (shaNull, Some c, None)
          | Some d \<Rightarrow>
              if Corrupted c \<noteq> shaSuccess then Some (Corrupted c, Some c, Some d)
              else do {
                c \<leftarrow> (if \<not> Computed c then SHA224_256Finalize c 0x80 else Some c);
                d \<leftarrow> SHA224_256ResultN_loop (Intermediate_Hash c) d 0 HashSize;
                Some (shaSuccess, Some c, Some d) })"

definition SHA224Reset :: "SHA256Context option \<Rightarrow> sha_error \<times> SHA256Context option" where
  "SHA224Reset context = SHA224_256Reset context SHA224_H0"

definition SHA224Input ::
  "SHA256Context option \<Rightarrow> bytes option \<Rightarrow> nat \<Rightarrow> (sha_error \<times> SHA256Context option) option" where
  "SHA224Input context message_array len = SHA256Input context message_array len"

definition SHA224FinalBits ::
  "SHA256Context option \<Rightarrow> u8 \<Rightarrow> nat \<Rightarrow> (sha_error \<times> SHA256Context option) option" where
  "SHA224FinalBits context message_bits len = SHA256FinalBits context message_bits len"

definition SHA224Result ::
  "SHA256Context option \<Rightarrow> bytes option \<Rightarrow> (sha_error \<times> SHA256Context option \<times> bytes option) option" where
  "SHA224Result context Message_Digest = SHA224_256ResultN 28 context Message_Digest"

definition SHA256Reset :: "SHA256Context option \<Rightarrow> sha_error \<times> SHA256Context option" where
  "SHA256Reset context = SHA224_256Reset context SHA256_H0"

definition SHA256Result ::
  "SHA256Context option \<Rightarrow> bytes option \<Rightarrow> (sha_error \<times> SHA256Context option \<times> bytes option) option" where
  "SHA256Result context Message_Digest = SHA224_256ResultN 32 context Message_Digest"

section \<open>The compression function of the standard\<close>

fun fips256_W :: "bytes \<Rightarrow> nat \<Rightarrow> u32" where
  "fips256_W M t =
     (if t < 16 then block_word 4 M t
      else fips_sigma 17 19 10 (fips256_W M (t - 2)) + fips256_W M (t - 7)
         + fips_sigma 7 18 3 (fips256_W M (t - 15)) + fips256_W M (t - 16))"

declare fips256_W.simps [simp del]

definition fips256_round :: "bytes \<Rightarrow> nat \<Rightarrow> u32 working \<Rightarrow> u32 working" where
  "fips256_round M t = (\<lambda>(a, b, c, d, e, f, g, h).
     let T1 = h + fips_Sigma 6 11 25 e + ((e AND f) XOR (NOT e AND g)) + SHA256_K ! t + fips256_W M t;
         T2 = fips_Sigma 2 13 22 a + ((a AND b) XOR (a AND c) XOR (b AND c))
     in (T1 + T2, a, b, c, d + T1, e, f, g))"

definition fips256_compress :: "u32 list \<Rightarrow> bytes \<Rightarrow> u32 list" where
  "fips256_compress I M =
     (case rounds (fips256_round M) (I ! 0, I ! 1, I ! 2, I ! 3, I ! 4, I ! 5, I ! 6, I ! 7) 64
      of (a, b, c, d, e, f, g, h) \<Rightarrow> add_words I [a, b, c, d, e, f, g, h])"

text \<open>The constants of the tables are those the standard defines.\<close>

lemma SHA256_K_cube_roots: "list_all2 (root_fraction 3 32) (take 64 primes_80) (map unat SHA256_K)"
  by (rule root_fractions [where ints = "[1, 1, 1, 1, 2, 2, 2, 2, 2, 3, 3, 3, 3, 3, 3, 3, 3, 3, 4, 4, 4, 4, 4, 4, 4, 4, 4, 4, 4, 4, 5, 5, 5, 5, 5, 5, 5, 5, 5, 5, 5, 5, 5, 5, 5, 5, 5, 6, 6, 6, 6, 6, 6, 6, 6, 6, 6, 6, 6, 6, 6, 6, 6, 6]"])
    (simp_all add: SHA256_K_def primes_80_def)

lemma SHA256_H0_square_roots: "list_all2 (root_fraction 2 32) (take 8 primes_80) (map unat SHA256_H0)"
  by (rule root_fractions [where ints = "[1, 1, 2, 2, 3, 3, 4, 4]"]) (simp_all add: SHA256_H0_def primes_80_def)

section \<open>The block function is the compression function\<close>

lemma SHA256_ROTR_rotr: "0 < n \<Longrightarrow> n < 32 \<Longrightarrow> SHA256_ROTR n w = word_rotr n w"
  using word_rotr_shifts [of n w] by (simp add: SHA256_ROTR_def)

lemma SHA256_SIGMA_fips:
  "SHA256_SIGMA0 w = fips_Sigma 2 13 22 w" "SHA256_SIGMA1 w = fips_Sigma 6 11 25 w"
  "SHA256_sigma0 w = fips_sigma 7 18 3 w" "SHA256_sigma1 w = fips_sigma 17 19 10 w"
  by (simp_all add: SHA256_SIGMA0_def SHA256_SIGMA1_def SHA256_sigma0_def SHA256_sigma1_def
      SHA256_ROTR_rotr SHA256_SHR_def fips_Sigma_def fips_sigma_def)

lemma SHA256_W_fips:
  assumes "length block = 64"
  shows "SHA256_W block = map (fips256_W block) [0..<64]"
proof -
  have "map (\<lambda>t. let t4 = 4 * t in
         shl (ucast (block ! t4)) 24 OR shl (ucast (block ! (t4 + 1))) 16
         OR shl (ucast (block ! (t4 + 2))) 8 OR (ucast (block ! (t4 + 3)) :: u32)) [0..<16]
      = map (fips256_W block) [0..<16]"
    unfolding Let_def using assms
    by (intro map_cong refl) (subst fips256_W.simps, subst block_word_4, auto)
  then show ?thesis
    unfolding SHA256_W_def
    by (simp only:) (rule fold_schedule, subst fips256_W.simps [of block], simp_all add: SHA256_SIGMA_fips)
qed

lemma SHA256_round_fips:
  assumes "length block = 64" "t < 64"
  shows "SHA256_round (SHA256_W block) t s = fips256_round block t s"
  using assms
  by (cases s) (simp add: SHA256_round_def fips256_round_def SHA256_W_fips SHA256_SIGMA_fips
      SHA_Ch_def SHA_Maj_def Let_def)

lemma SHA224_256ProcessMessageBlock_fips:
  assumes "length (Message_Block c) = 64"
  shows "SHA224_256ProcessMessageBlock c =
    c\<lparr>Intermediate_Hash := fips256_compress (Intermediate_Hash c) (Message_Block c), Message_Block_Index := 0\<rparr>"
proof -
  have "fold (SHA256_round (SHA256_W (Message_Block c))) [0..<64] s = rounds (fips256_round (Message_Block c)) s 64" for s
    unfolding fold_rounds [symmetric] by (rule fold_cong_upt) (rule SHA256_round_fips [OF assms])
  then show ?thesis
    unfolding SHA224_256ProcessMessageBlock_def fips256_compress_def Let_def add_words_8
    by (simp split: prod.split)
qed

section \<open>The module as an instance of the construction\<close>

lemma SHA224_256AddLength_eq:
  "SHA224_256AddLength c k =
    (let low = Length_Low c + k; high = (if low < Length_Low c then Length_High c + 1 else Length_High c)
     in c\<lparr>Length_Low := low, Length_High := high,
          Corrupted := if low < Length_Low c \<and> high = 0 then shaInputTooLong else Corrupted c\<rparr>)"
  by (simp add: SHA224_256AddLength_def Let_def)

lemma SHA224_256PadMessage_eq:
  assumes "length (Message_Block c) = 64"
  shows "SHA224_256PadMessage c p = do {
      block \<leftarrow> store (Message_Block c) (Message_Block_Index c) p;
      let c1 = c\<lparr>Message_Block := block, Message_Block_Index := Message_Block_Index c + 1\<rparr>;
      c \<leftarrow> (if 64 - 8 \<le> Message_Block_Index c
            then do { c \<leftarrow> fill_zeros c1 64; Some (SHA224_256ProcessMessageBlock c) } else Some c1);
      c \<leftarrow> fill_zeros c (64 - 8);
      Some (SHA224_256ProcessMessageBlock (c\<lparr>Message_Block := take (64 - 8) (Message_Block c)
        @ word_be (Length_High c) @ word_be (Length_Low c)\<rparr>)) }"
proof -
  have finish: "do { c' \<leftarrow> fill_zeros c2 56;
      let block = (Message_Block c')
       [56 := ucast (shr (Length_High c') 24), 57 := ucast (shr (Length_High c') 16),
        58 := ucast (shr (Length_High c') 8), 59 := ucast (Length_High c'),
        60 := ucast (shr (Length_Low c') 24), 61 := ucast (shr (Length_Low c') 16),
        62 := ucast (shr (Length_Low c') 8), 63 := ucast (Length_Low c')];
      Some (SHA224_256ProcessMessageBlock (c'\<lparr>Message_Block := block\<rparr>)) }
    = do { c' \<leftarrow> fill_zeros c2 56;
      Some (SHA224_256ProcessMessageBlock (c'\<lparr>Message_Block := take 56 (Message_Block c')
        @ word_be (Length_High c') @ word_be (Length_Low c')\<rparr>)) }"
    if "length (Message_Block c2) = 64" for c2 :: SHA256Context
    using that by (cases "fill_zeros c2 56") (auto dest!: fill_zeros_length simp: tail_updates_8 word_be_32)
  have block: "length (Message_Block (SHA224_256ProcessMessageBlock c')) = 64"
    if "fill_zeros c2 64 = Some c'" "length (Message_Block c2) = 64" for c2 c' :: SHA256Context
    using fill_zeros_length [OF that(1)] that(2) by (simp add: SHA224_256ProcessMessageBlock_fips)
  show ?thesis
  proof (cases "Message_Block_Index c < 64")
    case True
    let ?c1 = "c\<lparr>Message_Block := (Message_Block c)[Message_Block_Index c := p],
      Message_Block_Index := Suc (Message_Block_Index c)\<rparr>"
    show ?thesis
      using True assms block [of ?c1] unfolding SHA224_256PadMessage_def
      by (cases "fill_zeros ?c1 64") (simp_all add: finish [unfolded Let_def] Let_def)
  qed (simp add: SHA224_256PadMessage_def store_def assms)
qed

lemma SHA224_256Reset_Some:
  assumes "length (Intermediate_Hash c) = 8" "length H0 = 8"
  shows "SHA224_256Reset (Some c) H0 = (shaSuccess, Some (c\<lparr>Length_High := 0, Length_Low := 0,
    Message_Block_Index := 0, Intermediate_Hash := H0, Computed := False, Corrupted := shaSuccess\<rparr>))"
proof -
  obtain k0 k1 k2 k3 k4 k5 k6 k7 where "H0 = [k0, k1, k2, k3, k4, k5, k6, k7]"
    using assms(2) by (rule list_8_cases)
  then show ?thesis using assms(1) by (simp add: SHA224_256Reset_def list_updates_8 [simplified])
qed

interpretation sha256: hash_module 64 8 fips256_compress SHA224_256ProcessMessageBlock
  SHA224_256AddLength SHA256Input_loop SHA224_256PadMessage SHA224_256Finalize
  SHA256_H0 32 SHA256Reset SHA256Input SHA256FinalBits SHA256Result SHA224_256ResultN_loop
proof (unfold_locales, goal_cases)
  case (4 c)
  then show ?case by (rule SHA224_256ProcessMessageBlock_fips)
next
  case (5 c k)
  then show ?case by (rule SHA224_256AddLength_eq)
next
  case (8 c p)
  then show ?case using SHA224_256PadMessage_eq [of c p] by simp
next
  case (10 h block)
  then show ?case by (simp add: fips256_compress_def split: prod.split)
next
  case (12 c)
  then show ?case unfolding SHA256Reset_def by (intro SHA224_256Reset_Some) (simp_all add: SHA256_H0_def)
qed (simp_all add: SHA224_256Finalize_def SHA256Input_def SHA256FinalBits_def SHA256Result_def
    SHA224_256ResultN_def SHA256_H0_def Let_def split: option.split)

interpretation sha224: hash_module 64 8 fips256_compress SHA224_256ProcessMessageBlock
  SHA224_256AddLength SHA256Input_loop SHA224_256PadMessage SHA224_256Finalize
  SHA224_H0 28 SHA224Reset SHA224Input SHA224FinalBits SHA224Result SHA224_256ResultN_loop
proof (unfold_locales, goal_cases)
  case 1
  then show ?case by (rule sha256.length_compress)
next
  case (3 c)
  then show ?case unfolding SHA224Reset_def by (intro SHA224_256Reset_Some) (simp_all add: SHA224_H0_def)
qed (simp_all add: SHA224Input_def SHA224FinalBits_def SHA224Result_def sha256.input sha256.final_bits
    SHA224_256ResultN_def SHA224_H0_def Let_def split: option.split)

end
