(* ===== verification/Sha512.thy ===== *)
theory Sha512
  imports Sha_Functions
begin

text \<open>
  SHA-384 and SHA-512, \<open>src/sha/sha384-512.c\<close>, in the default build (without
  \<open>USE_32BIT_ONLY\<close>): every function of the file, the block function proved equal to the
  compression function of FIPS 180 (section 6.4), and the module as an
  instance of the locales of \<open>Merkle_Damgard\<close>.
\<close>

section \<open>Macros and tables\<close>

definition SHA512_SHR :: "nat \<Rightarrow> u64 \<Rightarrow> u64" where
  "SHA512_SHR bits w = shr w bits"

definition SHA512_ROTR :: "nat \<Rightarrow> u64 \<Rightarrow> u64" where
  "SHA512_ROTR bits w = shr w bits OR shl w (64 - bits)"

definition SHA512_SIGMA0 :: "u64 \<Rightarrow> u64" where
  "SHA512_SIGMA0 w = SHA512_ROTR 28 w XOR SHA512_ROTR 34 w XOR SHA512_ROTR 39 w"

definition SHA512_SIGMA1 :: "u64 \<Rightarrow> u64" where
  "SHA512_SIGMA1 w = SHA512_ROTR 14 w XOR SHA512_ROTR 18 w XOR SHA512_ROTR 41 w"

definition SHA512_sigma0 :: "u64 \<Rightarrow> u64" where
  "SHA512_sigma0 w = SHA512_ROTR 1 w XOR SHA512_ROTR 8 w XOR SHA512_SHR 7 w"

definition SHA512_sigma1 :: "u64 \<Rightarrow> u64" where
  "SHA512_sigma1 w = SHA512_ROTR 19 w XOR SHA512_ROTR 61 w XOR SHA512_SHR 6 w"

definition SHA384_H0 :: "u64 list" where
  "SHA384_H0 = [0xCBBB9D5DC1059ED8, 0x629A292A367CD507, 0x9159015A3070DD17, 0x152FECD8F70E5939,
    0x67332667FFC00B31, 0x8EB44A8768581511, 0xDB0C2E0D64F98FA7, 0x47B5481DBEFA4FA4]"

definition SHA512_H0 :: "u64 list" where
  "SHA512_H0 = [0x6A09E667F3BCC908, 0xBB67AE8584CAA73B, 0x3C6EF372FE94F82B, 0xA54FF53A5F1D36F1,
    0x510E527FADE682D1, 0x9B05688C2B3E6C1F, 0x1F83D9ABFB41BD6B, 0x5BE0CD19137E2179]"

definition SHA512_K :: "u64 list" where
  "SHA512_K =
  [0x428A2F98D728AE22, 0x7137449123EF65CD, 0xB5C0FBCFEC4D3B2F, 0xE9B5DBA58189DBBC, 0x3956C25BF348B538,
   0x59F111F1B605D019, 0x923F82A4AF194F9B, 0xAB1C5ED5DA6D8118, 0xD807AA98A3030242, 0x12835B0145706FBE,
   0x243185BE4EE4B28C, 0x550C7DC3D5FFB4E2, 0x72BE5D74F27B896F, 0x80DEB1FE3B1696B1, 0x9BDC06A725C71235,
   0xC19BF174CF692694, 0xE49B69C19EF14AD2, 0xEFBE4786384F25E3, 0x0FC19DC68B8CD5B5, 0x240CA1CC77AC9C65,
   0x2DE92C6F592B0275, 0x4A7484AA6EA6E483, 0x5CB0A9DCBD41FBD4, 0x76F988DA831153B5, 0x983E5152EE66DFAB,
   0xA831C66D2DB43210, 0xB00327C898FB213F, 0xBF597FC7BEEF0EE4, 0xC6E00BF33DA88FC2, 0xD5A79147930AA725,
   0x06CA6351E003826F, 0x142929670A0E6E70, 0x27B70A8546D22FFC, 0x2E1B21385C26C926, 0x4D2C6DFC5AC42AED,
   0x53380D139D95B3DF, 0x650A73548BAF63DE, 0x766A0ABB3C77B2A8, 0x81C2C92E47EDAEE6, 0x92722C851482353B,
   0xA2BFE8A14CF10364, 0xA81A664BBC423001, 0xC24B8B70D0F89791, 0xC76C51A30654BE30, 0xD192E819D6EF5218,
   0xD69906245565A910, 0xF40E35855771202A, 0x106AA07032BBD1B8, 0x19A4C116B8D2D0C8, 0x1E376C085141AB53,
   0x2748774CDF8EEB99, 0x34B0BCB5E19B48A8, 0x391C0CB3C5C95A63, 0x4ED8AA4AE3418ACB, 0x5B9CCA4F7763E373,
   0x682E6FF3D6B2B8A3, 0x748F82EE5DEFB2FC, 0x78A5636F43172F60, 0x84C87814A1F0AB72, 0x8CC702081A6439EC,
   0x90BEFFFA23631E28, 0xA4506CEBDE82BDE9, 0xBEF9A3F7B2C67915, 0xC67178F2E372532B, 0xCA273ECEEA26619C,
   0xD186B8C721C0C207, 0xEADA7DD6CDE0EB1E, 0xF57D4F7FEE6ED178, 0x06F067AA72176FBA, 0x0A637DC5A2C898A6,
   0x113F9804BEF90DAE, 0x1B710B35131C471B, 0x28DB77F523047D84, 0x32CAAB7B40C72493, 0x3C9EBE0A15C9BEBC,
   0x431D67C49C100D4C, 0x4CC5D4BECB3E42B6, 0x597F299CFC657E2A, 0x5FCB6FAB3AD6FAEC, 0x6C44198C4A475817]"

section \<open>The functions of the file\<close>

text \<open>The comparison \<open>(Length_Low += length) < addTemp\<close> comes first, so \<open>Length_High\<close> is
  incremented only on a carry.\<close>

definition SHA384_512AddLength :: "SHA512Context \<Rightarrow> u64 \<Rightarrow> SHA512Context" where
  "SHA384_512AddLength context len =
     (let addTemp = Length_Low context;
          context = context\<lparr>Length_Low := Length_Low context + len\<rparr>
      in if Length_Low context < addTemp
         then (let context = context\<lparr>Length_High := Length_High context + 1\<rparr>
               in if Length_High context = 0 then context\<lparr>Corrupted := shaInputTooLong\<rparr> else context)
         else context)"

definition SHA384_512Reset :: "SHA512Context option \<Rightarrow> u64 list \<Rightarrow> sha_error \<times> SHA512Context option" where
  "SHA384_512Reset context H0 =
     (case context of None \<Rightarrow> (shaNull, None)
      | Some c \<Rightarrow> (shaSuccess, Some (c\<lparr>Length_High := 0, Length_Low := 0, Message_Block_Index := 0,
          Intermediate_Hash := fold (\<lambda>i I. I[i := H0 ! i]) [0..<8] (Intermediate_Hash c),
          Computed := False, Corrupted := shaSuccess\<rparr>)))"

text \<open>The message schedule \<open>W\<close>: sixteen words read from the block, then the loop that extends
  them; and one turn of the loop over the working variables \<open>A\<close> to \<open>H\<close>.\<close>

definition SHA512_W :: "bytes \<Rightarrow> u64 list" where
  "SHA512_W block = fold
     (\<lambda>t W. W @ [SHA512_sigma1 (W ! (t - 2)) + W ! (t - 7) + SHA512_sigma0 (W ! (t - 15)) + W ! (t - 16)])
     [16..<80]
     (map (\<lambda>t. let t8 = 8 * t in
         shl (ucast (block ! t8)) 56 OR shl (ucast (block ! (t8 + 1))) 48
         OR shl (ucast (block ! (t8 + 2))) 40 OR shl (ucast (block ! (t8 + 3))) 32
         OR shl (ucast (block ! (t8 + 4))) 24 OR shl (ucast (block ! (t8 + 5))) 16
         OR shl (ucast (block ! (t8 + 6))) 8 OR ucast (block ! (t8 + 7))) [0..<16])"

definition SHA512_round :: "u64 list \<Rightarrow> nat \<Rightarrow> u64 working \<Rightarrow> u64 working" where
  "SHA512_round W t = (\<lambda>(A, B, C, D, E, F, G, H).
     let temp1 = H + SHA512_SIGMA1 E + SHA_Ch E F G + SHA512_K ! t + W ! t;
         temp2 = SHA512_SIGMA0 A + SHA_Maj A B C;
         H = G; G = F; F = E; E = D + temp1; D = C; C = B; B = A; A = temp1 + temp2
     in (A, B, C, D, E, F, G, H))"

definition SHA384_512ProcessMessageBlock :: "SHA512Context \<Rightarrow> SHA512Context" where
  "SHA384_512ProcessMessageBlock context =
     (let W = SHA512_W (Message_Block context);
          I = Intermediate_Hash context;
          (A, B, C, D, E, F, G, H) = fold (SHA512_round W) [0..<80]
            (I ! 0, I ! 1, I ! 2, I ! 3, I ! 4, I ! 5, I ! 6, I ! 7)
      in context\<lparr>Intermediate_Hash := I[0 := I ! 0 + A, 1 := I ! 1 + B, 2 := I ! 2 + C, 3 := I ! 3 + D,
             4 := I ! 4 + E, 5 := I ! 5 + F, 6 := I ! 6 + G, 7 := I ! 7 + H],
           Message_Block_Index := 0\<rparr>)"

definition SHA384_512PadMessage :: "SHA512Context \<Rightarrow> u8 \<Rightarrow> SHA512Context option" where
  "SHA384_512PadMessage context Pad_Byte = do {
     context \<leftarrow> (if 128 - 16 \<le> Message_Block_Index context
       then do {
         block \<leftarrow> store (Message_Block context) (Message_Block_Index context) Pad_Byte;
         context \<leftarrow> fill_zeros (context\<lparr>Message_Block := block,
           Message_Block_Index := Message_Block_Index context + 1\<rparr>) 128;
         Some (SHA384_512ProcessMessageBlock context) }
       else do {
         block \<leftarrow> store (Message_Block context) (Message_Block_Index context) Pad_Byte;
         Some (context\<lparr>Message_Block := block,
           Message_Block_Index := Message_Block_Index context + 1\<rparr>) });
     context \<leftarrow> fill_zeros context (128 - 16);
     let block = (Message_Block context)
       [112 := ucast (shr (Length_High context) 56), 113 := ucast (shr (Length_High context) 48),
        114 := ucast (shr (Length_High context) 40), 115 := ucast (shr (Length_High context) 32),
        116 := ucast (shr (Length_High context) 24), 117 := ucast (shr (Length_High context) 16),
        118 := ucast (shr (Length_High context) 8), 119 := ucast (Length_High context),
        120 := ucast (shr (Length_Low context) 56), 121 := ucast (shr (Length_Low context) 48),
        122 := ucast (shr (Length_Low context) 40), 123 := ucast (shr (Length_Low context) 32),
        124 := ucast (shr (Length_Low context) 24), 125 := ucast (shr (Length_Low context) 16),
        126 := ucast (shr (Length_Low context) 8), 127 := ucast (Length_Low context)];
     Some (SHA384_512ProcessMessageBlock (context\<lparr>Message_Block := block\<rparr>)) }"

definition SHA384_512Finalize :: "SHA512Context \<Rightarrow> u8 \<Rightarrow> SHA512Context option" where
  "SHA384_512Finalize context Pad_Byte = do {
     context \<leftarrow> SHA384_512PadMessage context Pad_Byte;
     Some (context\<lparr>Message_Block := replicate 128 0, Length_High := 0, Length_Low := 0, Computed := True\<rparr>) }"

text \<open>\<open>while (length--)\<close> of \<open>SHA512Input\<close>; \<open>i\<close> is how far \<open>message_array\<close> was advanced.\<close>

primrec SHA512Input_loop :: "SHA512Context \<Rightarrow> bytes \<Rightarrow> nat \<Rightarrow> nat \<Rightarrow> SHA512Context option" where
  "SHA512Input_loop context message_array i 0 = Some context" |
  "SHA512Input_loop context message_array i (Suc len) = do {
     b \<leftarrow> fetch message_array i;
     block \<leftarrow> store (Message_Block context) (Message_Block_Index context) b;
     let context = SHA384_512AddLength
       (context\<lparr>Message_Block := block, Message_Block_Index := Message_Block_Index context + 1\<rparr>) 8;
     SHA512Input_loop
       (if Corrupted context = shaSuccess \<and> Message_Block_Index context = 128
        then SHA384_512ProcessMessageBlock context else context)
       message_array (i + 1) len }"

definition SHA512Input ::
  "SHA512Context option \<Rightarrow> bytes option \<Rightarrow> nat \<Rightarrow> (sha_error \<times> SHA512Context option) option" where
  "SHA512Input context message_array len =
     (case context of None \<Rightarrow> Some (shaNull, None)
      | Some c \<Rightarrow>
          if len = 0 then Some (shaSuccess, Some c)
          else case message_array of None \<Rightarrow> Some (shaNull, Some c)
          | Some m \<Rightarrow>
              if Computed c then Some (shaStateError, Some (c\<lparr>Corrupted := shaStateError\<rparr>))
              else if Corrupted c \<noteq> shaSuccess then Some (Corrupted c, Some c)
              else do { c \<leftarrow> SHA512Input_loop c m 0 len; Some (Corrupted c, Some c) })"

definition SHA512FinalBits ::
  "SHA512Context option \<Rightarrow> u8 \<Rightarrow> nat \<Rightarrow> (sha_error \<times> SHA512Context option) option" where
  "SHA512FinalBits context message_bits len =
     (case context of None \<Rightarrow> Some (shaNull, None)
      | Some c \<Rightarrow>
          if len = 0 then Some (shaSuccess, Some c)
          else if Corrupted c \<noteq> shaSuccess then Some (Corrupted c, Some c)
          else if Computed c then Some (shaStateError, Some (c\<lparr>Corrupted := shaStateError\<rparr>))
          else if 8 \<le> len then Some (shaBadParam, Some (c\<lparr>Corrupted := shaBadParam\<rparr>))
          else do {
            c \<leftarrow> SHA384_512Finalize (SHA384_512AddLength c (of_nat len))
                  ((message_bits AND masks ! len) OR markbit ! len);
            Some (Corrupted c, Some c) })"

primrec SHA384_512ResultN_loop :: "u64 list \<Rightarrow> bytes \<Rightarrow> nat \<Rightarrow> nat \<Rightarrow> bytes option" where
  "SHA384_512ResultN_loop I Message_Digest i 0 = Some Message_Digest" |
  "SHA384_512ResultN_loop I Message_Digest i (Suc n) = do {
     Message_Digest \<leftarrow> store Message_Digest i (ucast (shr (I ! (i div 8)) (8 * (7 - i mod 8))));
     SHA384_512ResultN_loop I Message_Digest (i + 1) n }"

definition SHA384_512ResultN :: "nat \<Rightarrow> SHA512Context option \<Rightarrow> bytes option
    \<Rightarrow> (sha_error \<times> SHA512Context option \<times> bytes option) option" where
  "SHA384_512ResultN HashSize context Message_Digest =
     (case context of None \<Rightarrow> Some (shaNull, None, Message_Digest)
      | Some c \<Rightarrow>
          case Message_Digest of None \<Rightarrow> Some (shaNull, Some c, None)
          | Some d \<Rightarrow>
              if Corrupted c \<noteq> shaSuccess then Some (Corrupted c, Some c, Some d)
              else do {
                c \<leftarrow> (if \<not> Computed c then SHA384_512Finalize c 0x80 else Some c);
                d \<leftarrow> SHA384_512ResultN_loop (Intermediate_Hash c) d 0 HashSize;
                Some (shaSuccess, Some c, Some d) })"

definition SHA384Reset :: "SHA512Context option \<Rightarrow> sha_error \<times> SHA512Context option" where
  "SHA384Reset context = SHA384_512Reset context SHA384_H0"

definition SHA384Input ::
  "SHA512Context option \<Rightarrow> bytes option \<Rightarrow> nat \<Rightarrow> (sha_error \<times> SHA512Context option) option" where
  "SHA384Input context message_array len = SHA512Input context message_array len"

definition SHA384FinalBits ::
  "SHA512Context option \<Rightarrow> u8 \<Rightarrow> nat \<Rightarrow> (sha_error \<times> SHA512Context option) option" where
  "SHA384FinalBits context message_bits len = SHA512FinalBits context message_bits len"

definition SHA384Result ::
  "SHA512Context option \<Rightarrow> bytes option \<Rightarrow> (sha_error \<times> SHA512Context option \<times> bytes option) option" where
  "SHA384Result context Message_Digest = SHA384_512ResultN 48 context Message_Digest"

definition SHA512Reset :: "SHA512Context option \<Rightarrow> sha_error \<times> SHA512Context option" where
  "SHA512Reset context = SHA384_512Reset context SHA512_H0"

definition SHA512Result ::
  "SHA512Context option \<Rightarrow> bytes option \<Rightarrow> (sha_error \<times> SHA512Context option \<times> bytes option) option" where
  "SHA512Result context Message_Digest = SHA384_512ResultN 64 context Message_Digest"

section \<open>The compression function of the standard\<close>

fun fips512_W :: "bytes \<Rightarrow> nat \<Rightarrow> u64" where
  "fips512_W M t =
     (if t < 16 then block_word 8 M t
      else fips_sigma 19 61 6 (fips512_W M (t - 2)) + fips512_W M (t - 7)
         + fips_sigma 1 8 7 (fips512_W M (t - 15)) + fips512_W M (t - 16))"

declare fips512_W.simps [simp del]

definition fips512_round :: "bytes \<Rightarrow> nat \<Rightarrow> u64 working \<Rightarrow> u64 working" where
  "fips512_round M t = (\<lambda>(a, b, c, d, e, f, g, h).
     let T1 = h + fips_Sigma 14 18 41 e + ((e AND f) XOR (NOT e AND g)) + SHA512_K ! t + fips512_W M t;
         T2 = fips_Sigma 28 34 39 a + ((a AND b) XOR (a AND c) XOR (b AND c))
     in (T1 + T2, a, b, c, d + T1, e, f, g))"

definition fips512_compress :: "u64 list \<Rightarrow> bytes \<Rightarrow> u64 list" where
  "fips512_compress I M =
     (case rounds (fips512_round M) (I ! 0, I ! 1, I ! 2, I ! 3, I ! 4, I ! 5, I ! 6, I ! 7) 80
      of (a, b, c, d, e, f, g, h) \<Rightarrow> add_words I [a, b, c, d, e, f, g, h])"

text \<open>The constants of the tables are those the standard defines.\<close>

text \<open>The table is checked in four quarters.\<close>

lemma SHA512_K_cube_roots_1:
  "list_all2 (root_fraction 3 64) (take 20 (drop 0 primes_80)) (map unat (take 20 (drop 0 SHA512_K)))"
  by (rule root_fractions [where ints = "[1, 1, 1, 1, 2, 2, 2, 2, 2, 3, 3, 3, 3, 3, 3, 3, 3, 3, 4, 4]"])
    (simp_all add: SHA512_K_def primes_80_def)

lemma SHA512_K_cube_roots_2:
  "list_all2 (root_fraction 3 64) (take 20 (drop 20 primes_80)) (map unat (take 20 (drop 20 SHA512_K)))"
  by (rule root_fractions [where ints = "[4, 4, 4, 4, 4, 4, 4, 4, 4, 4, 5, 5, 5, 5, 5, 5, 5, 5, 5, 5]"])
    (simp_all add: SHA512_K_def primes_80_def)

lemma SHA512_K_cube_roots_3:
  "list_all2 (root_fraction 3 64) (take 20 (drop 40 primes_80)) (map unat (take 20 (drop 40 SHA512_K)))"
  by (rule root_fractions [where ints = "[5, 5, 5, 5, 5, 5, 5, 6, 6, 6, 6, 6, 6, 6, 6, 6, 6, 6, 6, 6]"])
    (simp_all add: SHA512_K_def primes_80_def)

lemma SHA512_K_cube_roots_4:
  "list_all2 (root_fraction 3 64) (take 20 (drop 60 primes_80)) (map unat (take 20 (drop 60 SHA512_K)))"
  by (rule root_fractions [where ints = "[6, 6, 6, 6, 6, 6, 6, 6, 7, 7, 7, 7, 7, 7, 7, 7, 7, 7, 7, 7]"])
    (simp_all add: SHA512_K_def primes_80_def)

lemma SHA512_H0_square_roots: "list_all2 (root_fraction 2 64) (take 8 primes_80) (map unat SHA512_H0)"
  by (rule root_fractions [where ints = "[1, 1, 2, 2, 3, 3, 4, 4]"]) (simp_all add: SHA512_H0_def primes_80_def)

lemma SHA384_H0_square_roots: "list_all2 (root_fraction 2 64) (take 8 (drop 8 primes_80)) (map unat SHA384_H0)"
  by (rule root_fractions [where ints = "[4, 5, 5, 6, 6, 6, 6, 7]"]) (simp_all add: SHA384_H0_def primes_80_def)

section \<open>The block function is the compression function\<close>

lemma SHA512_ROTR_rotr: "0 < n \<Longrightarrow> n < 64 \<Longrightarrow> SHA512_ROTR n w = word_rotr n w"
  using word_rotr_shifts [of n w] by (simp add: SHA512_ROTR_def)

lemma SHA512_SIGMA_fips:
  "SHA512_SIGMA0 w = fips_Sigma 28 34 39 w" "SHA512_SIGMA1 w = fips_Sigma 14 18 41 w"
  "SHA512_sigma0 w = fips_sigma 1 8 7 w" "SHA512_sigma1 w = fips_sigma 19 61 6 w"
  by (simp_all add: SHA512_SIGMA0_def SHA512_SIGMA1_def SHA512_sigma0_def SHA512_sigma1_def
      SHA512_ROTR_rotr SHA512_SHR_def fips_Sigma_def fips_sigma_def)

lemma SHA512_W_fips:
  assumes "length block = 128"
  shows "SHA512_W block = map (fips512_W block) [0..<80]"
proof -
  have "map (\<lambda>t. let t8 = 8 * t in
         shl (ucast (block ! t8)) 56 OR shl (ucast (block ! (t8 + 1))) 48
         OR shl (ucast (block ! (t8 + 2))) 40 OR shl (ucast (block ! (t8 + 3))) 32
         OR shl (ucast (block ! (t8 + 4))) 24 OR shl (ucast (block ! (t8 + 5))) 16
         OR shl (ucast (block ! (t8 + 6))) 8 OR (ucast (block ! (t8 + 7)) :: u64)) [0..<16]
      = map (fips512_W block) [0..<16]"
    unfolding Let_def using assms
    by (intro map_cong refl) (subst fips512_W.simps, subst block_word_8, auto)
  then show ?thesis
    unfolding SHA512_W_def
    by (simp only:) (rule fold_schedule, subst fips512_W.simps [of block], simp_all add: SHA512_SIGMA_fips)
qed

lemma SHA512_round_fips:
  assumes "length block = 128" "t < 80"
  shows "SHA512_round (SHA512_W block) t s = fips512_round block t s"
  using assms
  by (cases s) (simp add: SHA512_round_def fips512_round_def SHA512_W_fips SHA512_SIGMA_fips
      SHA_Ch_def SHA_Maj_def Let_def)

lemma SHA384_512ProcessMessageBlock_fips:
  assumes "length (Message_Block c) = 128"
  shows "SHA384_512ProcessMessageBlock c =
    c\<lparr>Intermediate_Hash := fips512_compress (Intermediate_Hash c) (Message_Block c), Message_Block_Index := 0\<rparr>"
proof -
  have "fold (SHA512_round (SHA512_W (Message_Block c))) [0..<80] s = rounds (fips512_round (Message_Block c)) s 80" for s
    unfolding fold_rounds [symmetric] by (rule fold_cong_upt) (rule SHA512_round_fips [OF assms])
  then show ?thesis
    unfolding SHA384_512ProcessMessageBlock_def fips512_compress_def Let_def add_words_8
    by (simp split: prod.split)
qed

section \<open>The module as an instance of the construction\<close>

lemma SHA384_512AddLength_eq:
  "SHA384_512AddLength c k =
    (let low = Length_Low c + k; high = (if low < Length_Low c then Length_High c + 1 else Length_High c)
     in c\<lparr>Length_Low := low, Length_High := high,
          Corrupted := if low < Length_Low c \<and> high = 0 then shaInputTooLong else Corrupted c\<rparr>)"
  by (simp add: SHA384_512AddLength_def Let_def)

lemma SHA384_512PadMessage_eq:
  assumes "length (Message_Block c) = 128"
  shows "SHA384_512PadMessage c p = do {
      block \<leftarrow> store (Message_Block c) (Message_Block_Index c) p;
      let c1 = c\<lparr>Message_Block := block, Message_Block_Index := Message_Block_Index c + 1\<rparr>;
      c \<leftarrow> (if 128 - 16 \<le> Message_Block_Index c
            then do { c \<leftarrow> fill_zeros c1 128; Some (SHA384_512ProcessMessageBlock c) } else Some c1);
      c \<leftarrow> fill_zeros c (128 - 16);
      Some (SHA384_512ProcessMessageBlock (c\<lparr>Message_Block := take (128 - 16) (Message_Block c)
        @ word_be (Length_High c) @ word_be (Length_Low c)\<rparr>)) }"
proof -
  have finish: "do { c' \<leftarrow> fill_zeros c2 112;
      let block = (Message_Block c')
       [112 := ucast (shr (Length_High c') 56), 113 := ucast (shr (Length_High c') 48),
        114 := ucast (shr (Length_High c') 40), 115 := ucast (shr (Length_High c') 32),
        116 := ucast (shr (Length_High c') 24), 117 := ucast (shr (Length_High c') 16),
        118 := ucast (shr (Length_High c') 8), 119 := ucast (Length_High c'),
        120 := ucast (shr (Length_Low c') 56), 121 := ucast (shr (Length_Low c') 48),
        122 := ucast (shr (Length_Low c') 40), 123 := ucast (shr (Length_Low c') 32),
        124 := ucast (shr (Length_Low c') 24), 125 := ucast (shr (Length_Low c') 16),
        126 := ucast (shr (Length_Low c') 8), 127 := ucast (Length_Low c')];
      Some (SHA384_512ProcessMessageBlock (c'\<lparr>Message_Block := block\<rparr>)) }
    = do { c' \<leftarrow> fill_zeros c2 112;
      Some (SHA384_512ProcessMessageBlock (c'\<lparr>Message_Block := take 112 (Message_Block c')
        @ word_be (Length_High c') @ word_be (Length_Low c')\<rparr>)) }"
    if "length (Message_Block c2) = 128" for c2 :: SHA512Context
    using that by (cases "fill_zeros c2 112") (auto dest!: fill_zeros_length simp: tail_updates_16 word_be_64)
  have block: "length (Message_Block (SHA384_512ProcessMessageBlock c')) = 128"
    if "fill_zeros c2 128 = Some c'" "length (Message_Block c2) = 128" for c2 c' :: SHA512Context
    using fill_zeros_length [OF that(1)] that(2) by (simp add: SHA384_512ProcessMessageBlock_fips)
  show ?thesis
  proof (cases "Message_Block_Index c < 128")
    case True
    let ?c1 = "c\<lparr>Message_Block := (Message_Block c)[Message_Block_Index c := p],
      Message_Block_Index := Suc (Message_Block_Index c)\<rparr>"
    show ?thesis
      using True assms block [of ?c1] unfolding SHA384_512PadMessage_def
      by (cases "fill_zeros ?c1 128") (simp_all add: finish [unfolded Let_def] Let_def)
  qed (simp add: SHA384_512PadMessage_def store_def assms)
qed

lemma SHA384_512Reset_Some:
  assumes "length (Intermediate_Hash c) = 8" "length H0 = 8"
  shows "SHA384_512Reset (Some c) H0 = (shaSuccess, Some (c\<lparr>Length_High := 0, Length_Low := 0,
    Message_Block_Index := 0, Intermediate_Hash := H0, Computed := False, Corrupted := shaSuccess\<rparr>))"
proof -
  obtain k0 k1 k2 k3 k4 k5 k6 k7 where "H0 = [k0, k1, k2, k3, k4, k5, k6, k7]"
    using assms(2) by (rule list_8_cases)
  moreover have "[0..<8] = [0, 1, 2, 3, 4, 5, 6, 7]" by (simp add: upt_rec)
  ultimately show ?thesis using assms(1) by (simp add: SHA384_512Reset_def list_updates_8 [simplified])
qed

interpretation sha512: hash_module 128 16 fips512_compress SHA384_512ProcessMessageBlock
  SHA384_512AddLength SHA512Input_loop SHA384_512PadMessage SHA384_512Finalize
  SHA512_H0 64 SHA512Reset SHA512Input SHA512FinalBits SHA512Result SHA384_512ResultN_loop
proof (unfold_locales, goal_cases)
  case (4 c)
  then show ?case by (rule SHA384_512ProcessMessageBlock_fips)
next
  case (5 c k)
  then show ?case by (rule SHA384_512AddLength_eq)
next
  case (8 c p)
  then show ?case using SHA384_512PadMessage_eq [of c p] by simp
next
  case (10 h block)
  then show ?case by (simp add: fips512_compress_def split: prod.split)
next
  case (12 c)
  then show ?case unfolding SHA512Reset_def by (intro SHA384_512Reset_Some) (simp_all add: SHA512_H0_def)
qed (simp_all add: SHA384_512Finalize_def SHA512Input_def SHA512FinalBits_def SHA512Result_def
    SHA384_512ResultN_def SHA512_H0_def Let_def split: option.split)

interpretation sha384: hash_module 128 16 fips512_compress SHA384_512ProcessMessageBlock
  SHA384_512AddLength SHA512Input_loop SHA384_512PadMessage SHA384_512Finalize
  SHA384_H0 48 SHA384Reset SHA384Input SHA384FinalBits SHA384Result SHA384_512ResultN_loop
proof (unfold_locales, goal_cases)
  case 1
  then show ?case by (rule sha512.length_compress)
next
  case (3 c)
  then show ?case unfolding SHA384Reset_def by (intro SHA384_512Reset_Some) (simp_all add: SHA384_H0_def)
qed (simp_all add: SHA384Input_def SHA384FinalBits_def SHA384Result_def sha512.input sha512.final_bits
    SHA384_512ResultN_def SHA384_H0_def Let_def split: option.split)

end
