(* ===== verification/Usha.thy ===== *)
theory Usha
  imports Sha1 Sha256 Sha512
begin

text \<open>
  The unified interface \<open>src/sha/sha.c\<close>: a context tagged with the algorithm, and the functions
  that dispatch on the tag.  The members of the union \<open>ctx\<close> are separate fields here: a member
  is only read under its own tag after \<open>USHAReset\<close> with that tag, and the results below hold
  whatever the member contained before the reset.  The standard's digest of a message is
  \<open>sha_digest\<close>; the properties relate the functions to it for all five algorithms at once.
\<close>

section \<open>Data and functions of \<open>sha.c\<close>\<close>

text \<open>\<open>OtherSha\<close> stands for the values of the tag outside the enumeration, which the \<open>default\<close>
  branches handle.\<close>

datatype SHAversion = SHA1 | SHA224 | SHA256 | SHA384 | SHA512 | OtherSha

record USHAContext =
  whichSha :: SHAversion
  sha1Context :: SHA1Context
  sha256Context :: SHA256Context
  sha512Context :: SHA512Context

definition USHAReset :: "USHAContext option \<Rightarrow> SHAversion \<Rightarrow> sha_error \<times> USHAContext option" where
  "USHAReset context which =
     (case context of None \<Rightarrow> (shaNull, None)
      | Some u \<Rightarrow>
          let u = u\<lparr>whichSha := which\<rparr> in
          case which of
            SHA1 \<Rightarrow> apsnd (map_option (\<lambda>c. u\<lparr>sha1Context := c\<rparr>)) (SHA1Reset (Some (sha1Context u)))
          | SHA224 \<Rightarrow> apsnd (map_option (\<lambda>c. u\<lparr>sha256Context := c\<rparr>)) (SHA224Reset (Some (sha256Context u)))
          | SHA256 \<Rightarrow> apsnd (map_option (\<lambda>c. u\<lparr>sha256Context := c\<rparr>)) (SHA256Reset (Some (sha256Context u)))
          | SHA384 \<Rightarrow> apsnd (map_option (\<lambda>c. u\<lparr>sha512Context := c\<rparr>)) (SHA384Reset (Some (sha512Context u)))
          | SHA512 \<Rightarrow> apsnd (map_option (\<lambda>c. u\<lparr>sha512Context := c\<rparr>)) (SHA512Reset (Some (sha512Context u)))
          | OtherSha \<Rightarrow> (shaBadParam, Some u))"

definition USHAInput ::
  "USHAContext option \<Rightarrow> bytes option \<Rightarrow> nat \<Rightarrow> (sha_error \<times> USHAContext option) option" where
  "USHAInput context bytes bytecount =
     (case context of None \<Rightarrow> Some (shaNull, None)
      | Some u \<Rightarrow>
          case whichSha u of
            SHA1 \<Rightarrow> map_option (apsnd (map_option (\<lambda>c. u\<lparr>sha1Context := c\<rparr>)))
              (SHA1Input (Some (sha1Context u)) bytes bytecount)
          | SHA224 \<Rightarrow> map_option (apsnd (map_option (\<lambda>c. u\<lparr>sha256Context := c\<rparr>)))
              (SHA224Input (Some (sha256Context u)) bytes bytecount)
          | SHA256 \<Rightarrow> map_option (apsnd (map_option (\<lambda>c. u\<lparr>sha256Context := c\<rparr>)))
              (SHA256Input (Some (sha256Context u)) bytes bytecount)
          | SHA384 \<Rightarrow> map_option (apsnd (map_option (\<lambda>c. u\<lparr>sha512Context := c\<rparr>)))
              (SHA384Input (Some (sha512Context u)) bytes bytecount)
          | SHA512 \<Rightarrow> map_option (apsnd (map_option (\<lambda>c. u\<lparr>sha512Context := c\<rparr>)))
              (SHA512Input (Some (sha512Context u)) bytes bytecount)
          | OtherSha \<Rightarrow> Some (shaBadParam, Some u))"

definition USHAFinalBits ::
  "USHAContext option \<Rightarrow> u8 \<Rightarrow> nat \<Rightarrow> (sha_error \<times> USHAContext option) option" where
  "USHAFinalBits context bits bit_count =
     (case context of None \<Rightarrow> Some (shaNull, None)
      | Some u \<Rightarrow>
          case whichSha u of
            SHA1 \<Rightarrow> map_option (apsnd (map_option (\<lambda>c. u\<lparr>sha1Context := c\<rparr>)))
              (SHA1FinalBits (Some (sha1Context u)) bits bit_count)
          | SHA224 \<Rightarrow> map_option (apsnd (map_option (\<lambda>c. u\<lparr>sha256Context := c\<rparr>)))
              (SHA224FinalBits (Some (sha256Context u)) bits bit_count)
          | SHA256 \<Rightarrow> map_option (apsnd (map_option (\<lambda>c. u\<lparr>sha256Context := c\<rparr>)))
              (SHA256FinalBits (Some (sha256Context u)) bits bit_count)
          | SHA384 \<Rightarrow> map_option (apsnd (map_option (\<lambda>c. u\<lparr>sha512Context := c\<rparr>)))
              (SHA384FinalBits (Some (sha512Context u)) bits bit_count)
          | SHA512 \<Rightarrow> map_option (apsnd (map_option (\<lambda>c. u\<lparr>sha512Context := c\<rparr>)))
              (SHA512FinalBits (Some (sha512Context u)) bits bit_count)
          | OtherSha \<Rightarrow> Some (shaBadParam, Some u))"

definition USHAResult ::
  "USHAContext option \<Rightarrow> bytes option \<Rightarrow> (sha_error \<times> USHAContext option \<times> bytes option) option" where
  "USHAResult context Message_Digest =
     (case context of None \<Rightarrow> Some (shaNull, None, Message_Digest)
      | Some u \<Rightarrow>
          case whichSha u of
            SHA1 \<Rightarrow> map_option (apsnd (apfst (map_option (\<lambda>c. u\<lparr>sha1Context := c\<rparr>))))
              (SHA1Result (Some (sha1Context u)) Message_Digest)
          | SHA224 \<Rightarrow> map_option (apsnd (apfst (map_option (\<lambda>c. u\<lparr>sha256Context := c\<rparr>))))
              (SHA224Result (Some (sha256Context u)) Message_Digest)
          | SHA256 \<Rightarrow> map_option (apsnd (apfst (map_option (\<lambda>c. u\<lparr>sha256Context := c\<rparr>))))
              (SHA256Result (Some (sha256Context u)) Message_Digest)
          | SHA384 \<Rightarrow> map_option (apsnd (apfst (map_option (\<lambda>c. u\<lparr>sha512Context := c\<rparr>))))
              (SHA384Result (Some (sha512Context u)) Message_Digest)
          | SHA512 \<Rightarrow> map_option (apsnd (apfst (map_option (\<lambda>c. u\<lparr>sha512Context := c\<rparr>))))
              (SHA512Result (Some (sha512Context u)) Message_Digest)
          | OtherSha \<Rightarrow> Some (shaBadParam, Some u, Message_Digest))"

definition USHABlockSize :: "SHAversion \<Rightarrow> nat" where
  "USHABlockSize which =
     (case which of SHA1 \<Rightarrow> 64 | SHA224 \<Rightarrow> 64 | SHA256 \<Rightarrow> 64 | SHA384 \<Rightarrow> 128 | _ \<Rightarrow> 128)"

definition USHAHashSize :: "SHAversion \<Rightarrow> nat" where
  "USHAHashSize which =
     (case which of SHA1 \<Rightarrow> 20 | SHA224 \<Rightarrow> 28 | SHA256 \<Rightarrow> 32 | SHA384 \<Rightarrow> 48 | _ \<Rightarrow> 64)"

definition USHAHashSizeBits :: "SHAversion \<Rightarrow> nat" where
  "USHAHashSizeBits which =
     (case which of SHA1 \<Rightarrow> 160 | SHA224 \<Rightarrow> 224 | SHA256 \<Rightarrow> 256 | SHA384 \<Rightarrow> 384 | _ \<Rightarrow> 512)"

definition USHAHashName :: "SHAversion \<Rightarrow> string" where
  "USHAHashName which =
     (case which of SHA1 \<Rightarrow> ''SHA1'' | SHA224 \<Rightarrow> ''SHA224'' | SHA256 \<Rightarrow> ''SHA256'' | SHA384 \<Rightarrow> ''SHA384''
      | _ \<Rightarrow> ''SHA512'')"

section \<open>The digests of the standard\<close>

definition sha_padded_digest :: "SHAversion \<Rightarrow> u8 \<Rightarrow> nat \<Rightarrow> bytes \<Rightarrow> bytes" where
  "sha_padded_digest which p bits msg =
     (case which of
        SHA1 \<Rightarrow> block_digest fips1_compress 64 8 fips1_H0 20 p bits msg
      | SHA224 \<Rightarrow> block_digest fips256_compress 64 8 SHA224_H0 28 p bits msg
      | SHA256 \<Rightarrow> block_digest fips256_compress 64 8 SHA256_H0 32 p bits msg
      | SHA384 \<Rightarrow> block_digest fips512_compress 128 16 SHA384_H0 48 p bits msg
      | SHA512 \<Rightarrow> block_digest fips512_compress 128 16 SHA512_H0 64 p bits msg
      | OtherSha \<Rightarrow> [])"

definition sha_digest :: "SHAversion \<Rightarrow> bytes \<Rightarrow> bytes" where
  "sha_digest which msg = sha_padded_digest which 0x80 (8 * length msg) msg"

text \<open>The message bits \<open>msg\<close> followed by the \<open>n\<close> upper bits of \<open>b\<close>, \<open>0 < n < 8\<close>.\<close>

definition sha_digest_bits :: "SHAversion \<Rightarrow> bytes \<Rightarrow> u8 \<Rightarrow> nat \<Rightarrow> bytes" where
  "sha_digest_bits which msg b n =
     sha_padded_digest which ((b AND masks ! n) OR markbit ! n) (8 * length msg + n) msg"

text \<open>The longest message of the standard has fewer bits than this.\<close>

definition sha_limit :: "SHAversion \<Rightarrow> nat" where
  "sha_limit which = (case which of SHA384 \<Rightarrow> 2 ^ 128 | SHA512 \<Rightarrow> 2 ^ 128 | _ \<Rightarrow> 2 ^ 64)"

section \<open>Contexts\<close>

definition usha_sized :: "USHAContext \<Rightarrow> bool" where
  "usha_sized u \<longleftrightarrow>
     length (Message_Block (sha1Context u)) = 64 \<and> length (Intermediate_Hash (sha1Context u)) = 5 \<and>
     length (Message_Block (sha256Context u)) = 64 \<and> length (Intermediate_Hash (sha256Context u)) = 8 \<and>
     length (Message_Block (sha512Context u)) = 128 \<and> length (Intermediate_Hash (sha512Context u)) = 8"

definition usha_absorbed :: "SHAversion \<Rightarrow> USHAContext \<Rightarrow> bytes \<Rightarrow> bool" where
  "usha_absorbed which u msg \<longleftrightarrow> whichSha u = which \<and> usha_sized u \<and>
     (case which of
        SHA1 \<Rightarrow> sha1.absorbed fips1_H0 (sha1Context u) msg
      | SHA224 \<Rightarrow> sha256.absorbed SHA224_H0 (sha256Context u) msg
      | SHA256 \<Rightarrow> sha256.absorbed SHA256_H0 (sha256Context u) msg
      | SHA384 \<Rightarrow> sha512.absorbed SHA384_H0 (sha512Context u) msg
      | SHA512 \<Rightarrow> sha512.absorbed SHA512_H0 (sha512Context u) msg
      | OtherSha \<Rightarrow> False)"

definition usha_finished :: "SHAversion \<Rightarrow> USHAContext \<Rightarrow> bytes \<Rightarrow> bool" where
  "usha_finished which u d \<longleftrightarrow> whichSha u = which \<and> usha_sized u \<and>
     (case which of
        SHA1 \<Rightarrow> sha1.finished (sha1Context u) d
      | SHA224 \<Rightarrow> sha224.finished (sha256Context u) d
      | SHA256 \<Rightarrow> sha256.finished (sha256Context u) d
      | SHA384 \<Rightarrow> sha384.finished (sha512Context u) d
      | SHA512 \<Rightarrow> sha512.finished (sha512Context u) d
      | OtherSha \<Rightarrow> False)"

text \<open>The sizes of each member, as the modules state them.\<close>

lemma length_H0 [simp]:
  "length fips1_H0 = 5" "length SHA224_H0 = 8" "length SHA256_H0 = 8" "length SHA384_H0 = 8" "length SHA512_H0 = 8"
  by (simp_all add: fips1_H0_def SHA224_H0_def SHA256_H0_def SHA384_H0_def SHA512_H0_def)

lemma usha_sized_iff:
  "usha_sized u \<longleftrightarrow> sha1.sized (sha1Context u) \<and> sha256.sized (sha256Context u) \<and> sha512.sized (sha512Context u)"
  by (auto simp: usha_sized_def sha1.sized_def sha256.sized_def sha512.sized_def)

lemma sized_224 [simp]: "sha224.sized c = sha256.sized c"
  by (simp add: sha224.sized_def sha256.sized_def)

lemma sized_384 [simp]: "sha384.sized c = sha512.sized c"
  by (simp add: sha384.sized_def sha512.sized_def)

lemmas absorbed_sizes =
  sha1.absorbed_sized sha224.absorbed_sized [unfolded sized_224] sha256.absorbed_sized
  sha384.absorbed_sized [unfolded sized_384] sha512.absorbed_sized

lemma finished_sizes:
  "sha1.finished c1 d \<Longrightarrow> sha1.sized c1" "sha224.finished c2 d \<Longrightarrow> sha256.sized c2" "sha256.finished c2 d \<Longrightarrow> sha256.sized c2"
  "sha384.finished c3 d \<Longrightarrow> sha512.sized c3" "sha512.finished c3 d \<Longrightarrow> sha512.sized c3"
  by (simp_all add: sha1.finished_def sha224.finished_def sha256.finished_def sha384.finished_def sha512.finished_def)

lemmas digest_eqs =
  sha1.digest_def sha224.digest_def sha256.digest_def sha384.digest_def sha512.digest_def
  sha1.digest_bits_def sha224.digest_bits_def sha256.digest_bits_def sha384.digest_bits_def
  sha512.digest_bits_def sha_digest_def sha_digest_bits_def sha_padded_digest_def

lemma length_sha_digest: "which \<noteq> OtherSha \<Longrightarrow> length (sha_digest which msg) = USHAHashSize which"
  using sha1.length_digest [of msg] sha224.length_digest [of msg] sha256.length_digest [of msg]
    sha384.length_digest [of msg] sha512.length_digest [of msg]
  by (cases which) (simp_all add: digest_eqs USHAHashSize_def)

lemma usha_reset:
  assumes "which \<noteq> OtherSha" "usha_sized u"
  shows "\<exists>u'. USHAReset (Some u) which = (shaSuccess, Some u') \<and> usha_absorbed which u' []"
  using assms sha1.reset_absorbed [of "sha1Context u"] sha224.reset_absorbed [of "sha256Context u"]
    sha256.reset_absorbed [of "sha256Context u"] sha384.reset_absorbed [of "sha512Context u"]
    sha512.reset_absorbed [of "sha512Context u"]
  by (cases which) (auto simp: USHAReset_def usha_absorbed_def usha_sized_iff dest: absorbed_sizes)

lemma usha_input:
  assumes "usha_absorbed which u msg" "n \<le> length m" "8 * (length msg + n) < sha_limit which"
  shows "\<exists>u'. USHAInput (Some u) (Some m) n = Some (shaSuccess, Some u') \<and> usha_absorbed which u' (msg @ take n m)"
  using assms sha1.input_absorbed [of "sha1Context u" msg n m] sha224.input_absorbed [of "sha256Context u" msg n m]
    sha256.input_absorbed [of "sha256Context u" msg n m] sha384.input_absorbed [of "sha512Context u" msg n m]
    sha512.input_absorbed [of "sha512Context u" msg n m]
  by (cases which)
    (auto simp: USHAInput_def usha_absorbed_def usha_sized_iff sha_limit_def dest: absorbed_sizes)

lemma usha_final_bits:
  assumes "usha_absorbed which u msg" "0 < n" "n < 8" "8 * length msg + n < sha_limit which"
  shows "\<exists>u'. USHAFinalBits (Some u) b n = Some (shaSuccess, Some u') \<and>
    usha_finished which u' (sha_digest_bits which msg b n)"
  using assms sha1.final_bits_finished [of "sha1Context u" msg n b]
    sha224.final_bits_finished [of "sha256Context u" msg n b]
    sha256.final_bits_finished [of "sha256Context u" msg n b]
    sha384.final_bits_finished [of "sha512Context u" msg n b]
    sha512.final_bits_finished [of "sha512Context u" msg n b]
  by (cases which)
    (auto simp: USHAFinalBits_def usha_absorbed_def usha_finished_def usha_sized_iff sha_limit_def digest_eqs
      dest: finished_sizes)

lemma usha_result:
  assumes "usha_absorbed which u msg" "USHAHashSize which \<le> length buf"
  shows "\<exists>u'. USHAResult (Some u) (Some buf)
      = Some (shaSuccess, Some u', Some (sha_digest which msg @ drop (USHAHashSize which) buf)) \<and>
    usha_finished which u' (sha_digest which msg)"
  using assms sha1.result_absorbed [of "sha1Context u" msg buf]
    sha224.result_absorbed [of "sha256Context u" msg buf]
    sha256.result_absorbed [of "sha256Context u" msg buf]
    sha384.result_absorbed [of "sha512Context u" msg buf]
    sha512.result_absorbed [of "sha512Context u" msg buf]
  by (cases which)
    (auto simp: USHAResult_def usha_absorbed_def usha_finished_def usha_sized_iff USHAHashSize_def digest_eqs
      dest: finished_sizes)

lemma usha_result_finished:
  assumes "usha_finished which u d" "USHAHashSize which \<le> length buf"
  shows "USHAResult (Some u) (Some buf) = Some (shaSuccess, Some u, Some (d @ drop (USHAHashSize which) buf))"
  using assms sha1.result_finished [of "sha1Context u" d buf]
    sha224.result_finished [of "sha256Context u" d buf]
    sha256.result_finished [of "sha256Context u" d buf]
    sha384.result_finished [of "sha512Context u" d buf]
    sha512.result_finished [of "sha512Context u" d buf]
  by (cases which)
    (auto simp: USHAResult_def usha_finished_def usha_sized_iff USHAHashSize_def)

lemma usha_input_finished:
  assumes "usha_finished which u d" "0 < n"
  shows "\<exists>u'. USHAInput (Some u) (Some m) n = Some (shaStateError, Some u')"
  using assms sha1.input_finished [of "sha1Context u" d n m] sha224.input_finished [of "sha256Context u" d n m]
    sha256.input_finished [of "sha256Context u" d n m] sha384.input_finished [of "sha512Context u" d n m]
    sha512.input_finished [of "sha512Context u" d n m]
  by (cases which) (auto simp: USHAInput_def usha_finished_def)

lemma usha_finished_sized: "usha_finished which u d \<Longrightarrow> usha_sized u"
  by (simp add: usha_finished_def)

lemma usha_absorbed_other: "usha_absorbed which u msg \<Longrightarrow> which \<noteq> OtherSha"
  by (auto simp: usha_absorbed_def)

section \<open>Properties\<close>

text \<open>A client that feeds a message in pieces, as long as the calls succeed.\<close>

primrec usha_feed :: "USHAContext option \<Rightarrow> bytes list \<Rightarrow> (sha_error \<times> USHAContext option) option" where
  "usha_feed u [] = Some (shaSuccess, u)" |
  "usha_feed u (m # ms) = do {
     (e, u) \<leftarrow> USHAInput u (Some m) (length m);
     if e = shaSuccess then usha_feed u ms else Some (e, u) }"

lemma usha_feed_absorbed:
  assumes "usha_absorbed which u msg" "8 * (length msg + length (concat ms)) < sha_limit which"
  shows "\<exists>u'. usha_feed (Some u) ms = Some (shaSuccess, Some u') \<and> usha_absorbed which u' (msg @ concat ms)"
  using assms
proof (induction ms arbitrary: u msg)
  case (Cons m ms)
  then have "8 * (length msg + length m) < sha_limit which" by simp
  then obtain u1 where "USHAInput (Some u) (Some m) (length m) = Some (shaSuccess, Some u1)"
      "usha_absorbed which u1 (msg @ m)"
    using usha_input [OF Cons.prems(1), of "length m" m] by auto
  moreover obtain u2 where "usha_feed (Some u1) ms = Some (shaSuccess, Some u2)"
      "usha_absorbed which u2 ((msg @ m) @ concat ms)"
    using Cons.IH [OF calculation(2)] Cons.prems(2) by (auto simp: add.assoc)
  ultimately show ?case by simp
qed simp

text \<open>A context before any call.\<close>

definition blank :: "nat \<Rightarrow> nat \<Rightarrow> 'w::len word shaContext" where
  "blank words block = \<lparr>Intermediate_Hash = replicate words 0, Length_High = 0, Length_Low = 0,
     Message_Block_Index = 0, Message_Block = replicate block 0, Computed = False, Corrupted = shaSuccess\<rparr>"

definition blank_usha :: USHAContext where
  "blank_usha = \<lparr>whichSha = SHA1, sha1Context = blank 5 64, sha256Context = blank 8 64, sha512Context = blank 8 128\<rparr>"

lemma usha_sized_blank: "usha_sized blank_usha"
  by (simp add: usha_sized_def blank_usha_def blank_def)

text \<open>C3: For each of the five algorithms, resetting a context (whatever it held), feeding a message
  in any number of pieces of any lengths and taking the result writes the digest that FIPS 180
  defines for the whole message into the caller's buffer and touches nothing behind it.\<close>

theorem USHA_correct:
  assumes "which \<noteq> OtherSha" "usha_sized u" "8 * length (concat pieces) < sha_limit which"
    and "USHAHashSize which \<le> length buf"
  shows "\<exists>u1 u2 u3. USHAReset (Some u) which = (shaSuccess, Some u1) \<and>
    usha_feed (Some u1) pieces = Some (shaSuccess, Some u2) \<and>
    USHAResult (Some u2) (Some buf) = Some (shaSuccess, Some u3,
      Some (sha_digest which (concat pieces) @ drop (USHAHashSize which) buf))"
proof -
  obtain u1 where u1: "USHAReset (Some u) which = (shaSuccess, Some u1)" "usha_absorbed which u1 []"
    using usha_reset [OF assms(1,2)] by blast
  obtain u2 where "usha_feed (Some u1) pieces = Some (shaSuccess, Some u2)" "usha_absorbed which u2 (concat pieces)"
    using usha_feed_absorbed [OF u1(2), of pieces] assms(3) by auto
  then show ?thesis using u1(1) usha_result [of which u2 "concat pieces" buf] assms(4) by blast
qed

theorem USHA_correct_witness:
  "\<exists>u1 u2 u3. USHAReset (Some blank_usha) SHA384 = (shaSuccess, Some u1) \<and>
    usha_feed (Some u1) [[0x61], [], [0x62, 0x63]] = Some (shaSuccess, Some u2) \<and>
    USHAResult (Some u2) (Some (replicate 64 0)) = Some (shaSuccess, Some u3,
      Some (sha_digest SHA384 [0x61, 0x62, 0x63] @ replicate 16 0))"
  using USHA_correct [of SHA384 blank_usha "[[0x61], [], [0x62, 0x63]]" "replicate 64 0"] usha_sized_blank
  by (simp add: sha_limit_def USHAHashSize_def)

text \<open>A message that ends in one to seven more bits: \<open>USHAFinalBits\<close> closes it, and the result
  is the digest of the message with those bits, of which only the upper ones of the byte count;
  after that, and after any result, more input is refused with \<open>shaStateError\<close> and the digest can
  be read again.\<close>

theorem USHAFinalBits_correct:
  assumes "usha_absorbed which u msg" "0 < n" "n < 8" "8 * length msg + n < sha_limit which"
    and "USHAHashSize which \<le> length buf" "0 < k"
  shows "\<exists>u'. USHAFinalBits (Some u) b n = Some (shaSuccess, Some u') \<and>
    USHAResult (Some u') (Some buf)
      = Some (shaSuccess, Some u', Some (sha_digest_bits which msg b n @ drop (USHAHashSize which) buf)) \<and>
    (\<exists>u''. USHAInput (Some u') (Some m) k = Some (shaStateError, Some u''))"
  using usha_final_bits [OF assms(1-4)] usha_result_finished [OF _ assms(5)] usha_input_finished [OF _ assms(6)]
  by metis

theorem USHAFinalBits_correct_witness:
  "\<exists>u u'. USHAReset (Some blank_usha) SHA1 = (shaSuccess, Some u) \<and>
    USHAFinalBits (Some u) 0x98 5 = Some (shaSuccess, Some u') \<and>
    USHAResult (Some u') (Some (replicate 20 0)) = Some (shaSuccess, Some u', Some (sha_digest_bits SHA1 [] 0x98 5)) \<and>
    (\<exists>u''. USHAInput (Some u') (Some [1]) 1 = Some (shaStateError, Some u''))"
proof -
  obtain u where "USHAReset (Some blank_usha) SHA1 = (shaSuccess, Some u)" "usha_absorbed SHA1 u []"
    using usha_reset [of SHA1 blank_usha] usha_sized_blank by auto
  then show ?thesis
    using USHAFinalBits_correct [of SHA1 u "[]" 5 "replicate 20 0" 1 "0x98" "[1]"]
    by (auto simp: sha_limit_def USHAHashSize_def)
qed

text \<open>C39: At the limit of the message length (shown for SHA-256, whose limit is \<open>2 ^ 64\<close> bits): one
  byte more is answered with \<open>shaInputTooLong\<close> as documented, but two bytes in one call write past
  the end of \<open>Message_Block\<close>, since the loop goes on after the context is marked.\<close>

theorem SHA256Input_overrun:
  assumes "usha_absorbed SHA256 u msg" "8 * (length msg + 1) = 2 ^ 64"
  shows "(\<exists>u'. USHAInput (Some u) (Some [a]) 1 = Some (shaInputTooLong, Some u')) \<and>
    USHAInput (Some u) (Some [a, b]) 2 = None"
proof -
  have "length msg + 1 = 64 * 2 ^ 55" using assms(2) by simp
  then have m: "(length msg + 1) mod 64 = 0" by (simp only: mod_mult_self1_is_0)
  have "8 * (length msg + 1) = 2 ^ (2 * LENGTH(32))" using assms(2) by simp
  then show ?thesis
    using sha256.input_overrun(1) [OF _ _ m, of "sha256Context u" a]
      sha256.input_overrun(2) [OF _ _ m, of "sha256Context u" a b] assms(1)
    by (auto simp: usha_absorbed_def USHAInput_def)
qed

theorem SHA256Input_overrun_witness:
  "\<exists>u. usha_absorbed SHA256 u (replicate (2 ^ 61 - 1) 0) \<and> USHAInput (Some u) (Some [1, 2]) 2 = None"
proof -
  let ?m = "replicate (2 ^ 61 - 1) 0 :: bytes"
  obtain u where u: "usha_absorbed SHA256 u []"
    using usha_reset [of SHA256 blank_usha] usha_sized_blank by auto
  then obtain u' where "usha_absorbed SHA256 u' ?m"
    using usha_input [OF u, of "length ?m" ?m] by (auto simp: sha_limit_def)
  then show ?thesis using SHA256Input_overrun [of u' ?m 1 2] by auto
qed

end
