(* ===== verification/Hmac.thy ===== *)
theory Hmac
  imports Usha
begin

text \<open>
  Keyed hashing, \<open>src/sha/hmac.c\<close>: every function of the file over the unified interface of
  \<open>Usha\<close>, and the proof that they compute the MAC of RFC 2104 for each of the five algorithms.

  The expressions \<open>a || b || c\<close> of the code yield 1 when a call failed, which is the code of
  \<open>shaNull\<close> whatever the error was (\<open>failed\<close>).  Local variables that the code does not initialise are
  arguments of the model (\<open>hmac_frame\<close>): the results do not depend on them.  Dereferencing \<open>NULL\<close> or
  leaving an array is \<open>None\<close>.
\<close>

section \<open>Data\<close>

record HMACContext =
  h_whichSha :: SHAversion
  h_hashSize :: nat
  h_blockSize :: nat
  shaContext :: USHAContext
  k_opad :: bytes
  h_Computed :: bool
  h_Corrupted :: sha_error

text \<open>The uninitialised locals of \<open>hmacReset\<close>: \<open>tcontext\<close>, \<open>tempkey\<close> and \<open>k_ipad\<close>.\<close>

record hmac_frame =
  f_tcontext :: USHAContext
  f_tempkey :: bytes
  f_k_ipad :: bytes

definition failed :: sha_error where
  "failed = shaNull"

text \<open>An \<open>int\<close> passed for an \<open>unsigned int\<close>.\<close>

definition to_unsigned :: "int \<Rightarrow> nat" where
  "to_unsigned n = nat (n mod 2 ^ 32)"

section \<open>The functions of the file\<close>

text \<open>The two loops that fill the pads.\<close>

primrec hmac_key_loop :: "bytes option \<Rightarrow> nat \<Rightarrow> bytes \<Rightarrow> bytes \<Rightarrow> nat \<Rightarrow> (bytes \<times> bytes) option" where
  "hmac_key_loop key i ipad opad 0 = Some (ipad, opad)" |
  "hmac_key_loop key i ipad opad (Suc n) = do {
     k \<leftarrow> key;
     b \<leftarrow> fetch k i;
     ipad \<leftarrow> store ipad i (b XOR 0x36);
     opad \<leftarrow> store opad i (b XOR 0x5c);
     hmac_key_loop key (i + 1) ipad opad n }"

primrec hmac_fill_loop :: "nat \<Rightarrow> bytes \<Rightarrow> bytes \<Rightarrow> nat \<Rightarrow> (bytes \<times> bytes) option" where
  "hmac_fill_loop i ipad opad 0 = Some (ipad, opad)" |
  "hmac_fill_loop i ipad opad (Suc n) = do {
     ipad \<leftarrow> store ipad i 0x36;
     opad \<leftarrow> store opad i 0x5c;
     hmac_fill_loop (i + 1) ipad opad n }"

text \<open>The replacement of a key longer than a block by its digest; the error, if any, and the key
  to use.\<close>

definition hmac_long_key ::
  "hmac_frame \<Rightarrow> SHAversion \<Rightarrow> bytes option \<Rightarrow> int \<Rightarrow> (sha_error \<times> bytes option) option" where
  "hmac_long_key fr which key key_len =
     (let (e, t) = USHAReset (Some (f_tcontext fr)) which in
      if e \<noteq> shaSuccess then Some (failed, None)
      else do {
        (e, t) \<leftarrow> USHAInput t key (to_unsigned key_len);
        if e \<noteq> shaSuccess then Some (failed, None)
        else do {
          (e, t, tempkey) \<leftarrow> USHAResult t (Some (f_tempkey fr));
          if e \<noteq> shaSuccess then Some (failed, None) else Some (shaSuccess, tempkey) } })"

definition hmacReset :: "hmac_frame \<Rightarrow> HMACContext option \<Rightarrow> SHAversion \<Rightarrow> bytes option \<Rightarrow> int
    \<Rightarrow> (sha_error \<times> HMACContext option) option" where
  "hmacReset fr context which key key_len =
     (case context of None \<Rightarrow> Some (shaNull, None)
      | Some h \<Rightarrow>
          let blocksize = USHABlockSize which;
              hashsize = USHAHashSize which;
              h = h\<lparr>h_Computed := False, h_Corrupted := shaSuccess, h_blockSize := blocksize,
                    h_hashSize := hashsize, h_whichSha := which\<rparr>
          in do {
            (err, key, key_len) \<leftarrow>
              (if key_len > int blocksize
               then do {
                 (err, tempkey) \<leftarrow> hmac_long_key fr which key key_len;
                 Some (err, tempkey, int hashsize) }
               else Some (shaSuccess, key, key_len));
            if err \<noteq> shaSuccess then Some (err, Some h)
            else do {
              (ipad, opad) \<leftarrow> hmac_key_loop key 0 (f_k_ipad fr) (k_opad h) (nat key_len);
              (ipad, opad) \<leftarrow> hmac_fill_loop (nat key_len) ipad opad (blocksize - nat key_len);
              let h = h\<lparr>k_opad := opad\<rparr>;
              let (e, u) = USHAReset (Some (shaContext h)) which;
              u \<leftarrow> u;
              (e, u) \<leftarrow> (if e \<noteq> shaSuccess then Some (e, Some u) else USHAInput (Some u) (Some ipad) blocksize);
              u \<leftarrow> u;
              let ret = (if e \<noteq> shaSuccess then failed else shaSuccess);
              Some (ret, Some (h\<lparr>shaContext := u, h_Corrupted := ret\<rparr>)) } })"

definition hmacInput ::
  "HMACContext option \<Rightarrow> bytes option \<Rightarrow> int \<Rightarrow> (sha_error \<times> HMACContext option) option" where
  "hmacInput context txt text_len =
     (case context of None \<Rightarrow> Some (shaNull, None)
      | Some h \<Rightarrow>
          if h_Corrupted h \<noteq> shaSuccess then Some (h_Corrupted h, Some h)
          else if h_Computed h then Some (shaStateError, Some (h\<lparr>h_Corrupted := shaStateError\<rparr>))
          else do {
            (e, u) \<leftarrow> USHAInput (Some (shaContext h)) txt (to_unsigned text_len);
            u \<leftarrow> u;
            Some (e, Some (h\<lparr>shaContext := u, h_Corrupted := e\<rparr>)) })"

definition hmacFinalBits ::
  "HMACContext option \<Rightarrow> u8 \<Rightarrow> nat \<Rightarrow> (sha_error \<times> HMACContext option) option" where
  "hmacFinalBits context bits bit_count =
     (case context of None \<Rightarrow> Some (shaNull, None)
      | Some h \<Rightarrow>
          if h_Corrupted h \<noteq> shaSuccess then Some (h_Corrupted h, Some h)
          else if h_Computed h then Some (shaStateError, Some (h\<lparr>h_Corrupted := shaStateError\<rparr>))
          else do {
            (e, u) \<leftarrow> USHAFinalBits (Some (shaContext h)) bits bit_count;
            u \<leftarrow> u;
            Some (e, Some (h\<lparr>shaContext := u, h_Corrupted := e\<rparr>)) })"

text \<open>The five calls of \<open>hmacResult\<close>, each made only when the ones before it succeeded.\<close>

definition hmac_outer ::
  "HMACContext \<Rightarrow> bytes option \<Rightarrow> (sha_error \<times> USHAContext \<times> bytes option) option" where
  "hmac_outer h digest = do {
     (e, u, digest) \<leftarrow> USHAResult (Some (shaContext h)) digest;
     u \<leftarrow> u;
     if e \<noteq> shaSuccess then Some (failed, u, digest)
     else do {
       let (e, u) = USHAReset (Some u) (h_whichSha h);
       u \<leftarrow> u;
       if e \<noteq> shaSuccess then Some (failed, u, digest)
       else do {
         (e, u) \<leftarrow> USHAInput (Some u) (Some (k_opad h)) (h_blockSize h);
         u \<leftarrow> u;
         if e \<noteq> shaSuccess then Some (failed, u, digest)
         else do {
           (e, u) \<leftarrow> USHAInput (Some u) digest (h_hashSize h);
           u \<leftarrow> u;
           if e \<noteq> shaSuccess then Some (failed, u, digest)
           else do {
             (e, u, digest) \<leftarrow> USHAResult (Some u) digest;
             u \<leftarrow> u;
             Some (if e \<noteq> shaSuccess then failed else shaSuccess, u, digest) } } } } }"

definition hmacResult ::
  "HMACContext option \<Rightarrow> bytes option \<Rightarrow> (sha_error \<times> HMACContext option \<times> bytes option) option" where
  "hmacResult context digest =
     (case context of None \<Rightarrow> Some (shaNull, None, digest)
      | Some h \<Rightarrow>
          if h_Corrupted h \<noteq> shaSuccess then Some (h_Corrupted h, Some h, digest)
          else if h_Computed h then Some (shaStateError, Some (h\<lparr>h_Corrupted := shaStateError\<rparr>), digest)
          else do {
            (ret, u, digest) \<leftarrow> hmac_outer h digest;
            Some (ret, Some (h\<lparr>shaContext := u, h_Computed := True, h_Corrupted := ret\<rparr>), digest) })"

definition hmac :: "hmac_frame \<Rightarrow> HMACContext \<Rightarrow> SHAversion \<Rightarrow> bytes option \<Rightarrow> int \<Rightarrow> bytes option \<Rightarrow> int
    \<Rightarrow> bytes option \<Rightarrow> (sha_error \<times> bytes option) option" where
  "hmac fr context which message_array len key key_len digest = do {
     (e, h) \<leftarrow> hmacReset fr (Some context) which key key_len;
     if e \<noteq> shaSuccess then Some (failed, digest)
     else do {
       (e, h) \<leftarrow> hmacInput h message_array len;
       if e \<noteq> shaSuccess then Some (failed, digest)
       else do {
         (e, h, digest) \<leftarrow> hmacResult h digest;
         Some (if e \<noteq> shaSuccess then failed else shaSuccess, digest) } } }"

section \<open>RFC 2104\<close>

definition hmac_key :: "SHAversion \<Rightarrow> bytes \<Rightarrow> bytes" where
  "hmac_key which key =
     (let k = (if USHABlockSize which < length key then sha_digest which key else key)
      in k @ replicate (USHABlockSize which - length k) 0)"

definition hmac_inner :: "SHAversion \<Rightarrow> bytes \<Rightarrow> bytes" where
  "hmac_inner which key = map (\<lambda>b. b XOR 0x36) (hmac_key which key)"

definition hmac_mac :: "SHAversion \<Rightarrow> bytes \<Rightarrow> bytes \<Rightarrow> bytes" where
  "hmac_mac which key txt =
     sha_digest which (map (\<lambda>b. b XOR 0x5c) (hmac_key which key) @ sha_digest which (hmac_inner which key @ txt))"

section \<open>The loops\<close>

lemma hmac_key_loop_Some:
  assumes "i + n \<le> length k" "i + n \<le> length ipad" "i + n \<le> length opad"
  shows "hmac_key_loop (Some k) i ipad opad n
    = Some (take i ipad @ map (\<lambda>b. b XOR 0x36) (take n (drop i k)) @ drop (i + n) ipad,
            take i opad @ map (\<lambda>b. b XOR 0x5c) (take n (drop i k)) @ drop (i + n) opad)"
  using assms
proof (induction n arbitrary: i ipad opad)
  case (Suc n)
  have i: "i < length k" "i < length ipad" "i < length opad" using Suc.prems by simp_all
  have "take (Suc n) (drop i k) = k ! i # take n (drop (Suc i) k)"
    using i by (simp add: Cons_nth_drop_Suc [symmetric])
  moreover have "take (Suc i) (xs[i := v]) = take i xs @ [v]" if "i < length xs" for xs :: bytes and v
    using that by (simp add: take_Suc_conv_app_nth)
  ultimately show ?case using Suc i by simp
qed simp

lemma hmac_fill_loop_Some:
  assumes "i + n \<le> length ipad" "i + n \<le> length opad"
  shows "hmac_fill_loop i ipad opad n
    = Some (take i ipad @ replicate n 0x36 @ drop (i + n) ipad, take i opad @ replicate n 0x5c @ drop (i + n) opad)"
  using assms
proof (induction n arbitrary: i ipad opad)
  case (Suc n)
  have i: "i < length ipad" "i < length opad" using Suc.prems by simp_all
  have "take (Suc i) (xs[i := v]) = take i xs @ [v]" if "i < length xs" for xs :: bytes and v
    using that by (simp add: take_Suc_conv_app_nth)
  then show ?case using Suc i by simp
qed simp

section \<open>Contexts\<close>

definition frame_sized :: "hmac_frame \<Rightarrow> bool" where
  "frame_sized fr \<longleftrightarrow> usha_sized (f_tcontext fr) \<and> length (f_tempkey fr) = 64 \<and> length (f_k_ipad fr) = 128"

definition hmac_sized :: "HMACContext \<Rightarrow> bool" where
  "hmac_sized h \<longleftrightarrow> usha_sized (shaContext h) \<and> length (k_opad h) = 128"

definition hmac_absorbed :: "SHAversion \<Rightarrow> bytes \<Rightarrow> HMACContext \<Rightarrow> bytes \<Rightarrow> bool" where
  "hmac_absorbed which key h txt \<longleftrightarrow>
     h_whichSha h = which \<and> h_blockSize h = USHABlockSize which \<and> h_hashSize h = USHAHashSize which \<and>
     \<not> h_Computed h \<and> h_Corrupted h = shaSuccess \<and> length (k_opad h) = 128 \<and>
     take (USHABlockSize which) (k_opad h) = map (\<lambda>b. b XOR 0x5c) (hmac_key which key) \<and>
     usha_absorbed which (shaContext h) (hmac_inner which key @ txt)"

lemma sizes:
  "USHAHashSize which \<le> USHABlockSize which" "USHABlockSize which \<le> 128" "USHAHashSize which \<le> 64"
  by (cases which; simp add: USHAHashSize_def USHABlockSize_def)+

lemma length_hmac_key: "which \<noteq> OtherSha \<Longrightarrow> length (hmac_key which key) = USHABlockSize which"
  using sizes(1) [of which] by (simp add: hmac_key_def Let_def length_sha_digest)

lemma sha_limit_ge: "2 ^ 64 \<le> sha_limit which"
  by (cases which) (simp_all add: sha_limit_def)

text \<open>Messages whose length is an \<open>int\<close>, with a block before them, are within the limit.\<close>

lemma int_length_fits: "n < 2 ^ 32 \<Longrightarrow> 8 * (n + 128) < sha_limit which"
  using sha_limit_ge [of which] by simp

lemma to_unsigned_of_nat: "n < 2 ^ 31 \<Longrightarrow> to_unsigned (int n) = n"
  by (simp add: to_unsigned_def)

lemma hmac_long_key_Some:
  assumes "which \<noteq> OtherSha" "frame_sized fr" "m < 2 ^ 31" "m \<le> length kb" "key = take m kb"
  shows "hmac_long_key fr which (Some kb) (int m)
    = Some (shaSuccess, Some (sha_digest which key @ drop (USHAHashSize which) (f_tempkey fr)))"
proof -
  obtain t where t: "USHAReset (Some (f_tcontext fr)) which = (shaSuccess, Some t)" "usha_absorbed which t []"
    using usha_reset assms(1,2) by (auto simp: frame_sized_def)
  have "8 * (length ([] :: bytes) + m) < sha_limit which"
    using int_length_fits [of m which] assms(3) by simp
  then obtain t' where t': "USHAInput (Some t) (Some kb) m = Some (shaSuccess, Some t')"
      "usha_absorbed which t' key"
    using usha_input [OF t(2), of m kb] assms(4,5) by auto
  show ?thesis
    using t(1) t'(1) usha_result [OF t'(2), of "f_tempkey fr"] sizes(3) [of which] assms(2,3)
    by (auto simp: hmac_long_key_def frame_sized_def to_unsigned_of_nat)
qed

text \<open>What the pads become: the key with both constants, padded to the block.\<close>

lemma hmac_pads:
  assumes "n \<le> length k" "n \<le> B" "B \<le> length ipad" "B \<le> length opad"
  shows "do { (ipad, opad) \<leftarrow> hmac_key_loop (Some k) 0 ipad opad n;
              hmac_fill_loop n ipad opad (B - n) }
    = Some (map (\<lambda>b. b XOR 0x36) (take n k @ replicate (B - n) 0) @ drop B ipad,
            map (\<lambda>b. b XOR 0x5c) (take n k @ replicate (B - n) 0) @ drop B opad)"
  using assms by (simp add: hmac_key_loop_Some hmac_fill_loop_Some min_absorb1)

lemma hmacReset_absorbed:
  assumes which: "which \<noteq> OtherSha" and fr: "frame_sized fr" and h: "hmac_sized h" 
    and key: "m < 2 ^ 31" "m \<le> length kb" "key = take m kb"
  shows "\<exists>h'. hmacReset fr (Some h) which (Some kb) (int m) = Some (shaSuccess, Some h') \<and>
    hmac_absorbed which key h' []"
proof -
  define B where "B = USHABlockSize which"
  define long where "long \<longleftrightarrow> B < m"
  define k where "k = (if long then sha_digest which key @ drop (USHAHashSize which) (f_tempkey fr) else kb)"
  define n where "n = (if long then USHAHashSize which else m)"
  have B: "B \<le> 128" "USHAHashSize which \<le> B" by (simp_all add: B_def sizes)
  have n: "n \<le> length k" "n \<le> B"
    using B fr which key by (auto simp: n_def k_def long_def length_sha_digest frame_sized_def)
  have K: "hmac_key which key = take n k @ replicate (B - n) 0"
    using which key by (simp add: min_absorb2 hmac_key_def k_def n_def long_def B_def Let_def length_sha_digest)
  define ipad where "ipad = hmac_inner which key @ drop B (f_k_ipad fr)"
  define h1 where "h1 = h\<lparr>h_Computed := False, h_Corrupted := shaSuccess, h_blockSize := B,
    h_hashSize := USHAHashSize which, h_whichSha := which,
    k_opad := map (\<lambda>b. b XOR 0x5c) (hmac_key which key) @ drop B (k_opad h)\<rparr>"
  have pads: "do { (ipad, opad) \<leftarrow> hmac_key_loop (Some k) 0 (f_k_ipad fr) (k_opad h) n;
      hmac_fill_loop n ipad opad (B - n) } = Some (ipad, k_opad h1)"
    using hmac_pads [OF n, of "f_k_ipad fr" "k_opad h"] B fr h
    by (simp add: K ipad_def h1_def hmac_inner_def frame_sized_def hmac_sized_def)
  then obtain ip op where loops: "hmac_key_loop (Some k) 0 (f_k_ipad fr) (k_opad h) n = Some (ip, op)"
      "hmac_fill_loop n ip op (B - n) = Some (ipad, k_opad h1)"
    by (auto split: Option.bind_splits)
  have sel: "(if int m > int B
        then do { (err, tempkey) \<leftarrow> hmac_long_key fr which (Some kb) (int m);
                  Some (err, tempkey, int (USHAHashSize which)) }
        else Some (shaSuccess, Some kb, int m)) = Some (shaSuccess, Some k, int n)"
    using hmac_long_key_Some [OF which fr key] by (simp add: k_def n_def long_def)
  obtain u where u: "USHAReset (Some (shaContext h)) which = (shaSuccess, Some u)" "usha_absorbed which u []"
    using usha_reset [OF which] h by (auto simp: hmac_sized_def)
  have len: "length (hmac_inner which key) = B" using which by (simp add: hmac_inner_def length_hmac_key B_def)
  have "8 * (length ([] :: bytes) + B) < sha_limit which" using B(1) sha_limit_ge [of which] by simp
  then obtain u' where u': "USHAInput (Some u) (Some ipad) B = Some (shaSuccess, Some u')"
      "usha_absorbed which u' (hmac_inner which key)"
    using usha_input [OF u(2), of B ipad] len by (auto simp: ipad_def)
  have "hmacReset fr (Some h) which (Some kb) (int m) = Some (shaSuccess, Some (h1\<lparr>shaContext := u'\<rparr>))"
    unfolding hmacReset_def option.case Let_def B_def [symmetric] sel
    using loops u(1) u'(1) by (simp add: h1_def)
  moreover have "hmac_absorbed which key (h1\<lparr>shaContext := u'\<rparr>) []"
    using u'(2) which h B by (simp add: hmac_absorbed_def h1_def B_def length_hmac_key hmac_sized_def)
  ultimately show ?thesis by blast
qed

lemma length_hmac_inner: "which \<noteq> OtherSha \<Longrightarrow> length (hmac_inner which key) = USHABlockSize which"
  by (simp add: hmac_inner_def length_hmac_key)

lemma hmac_absorbed_other: "hmac_absorbed which key h txt \<Longrightarrow> which \<noteq> OtherSha"
  by (auto simp: hmac_absorbed_def dest: usha_absorbed_other)

lemma hmacInput_absorbed:
  assumes "hmac_absorbed which key h txt" "n < 2 ^ 31" "n \<le> length m"
    and "8 * (length txt + n + 128) < sha_limit which"
  shows "\<exists>h'. hmacInput (Some h) (Some m) (int n) = Some (shaSuccess, Some h') \<and>
    hmac_absorbed which key h' (txt @ take n m)"
proof -
  have u: "usha_absorbed which (shaContext h) (hmac_inner which key @ txt)"
    using assms(1) by (simp add: hmac_absorbed_def)
  have "8 * (length (hmac_inner which key @ txt) + n) < sha_limit which"
    using assms sizes(2) [of which] by (simp add: length_hmac_inner hmac_absorbed_other [OF assms(1)])
  then obtain u' where "USHAInput (Some (shaContext h)) (Some m) n = Some (shaSuccess, Some u')"
      "usha_absorbed which u' ((hmac_inner which key @ txt) @ take n m)"
    using usha_input [OF u assms(3)] by auto
  then show ?thesis
    using assms(1-3) by (auto simp: hmacInput_def hmac_absorbed_def to_unsigned_of_nat)
qed

lemma hmac_outer_absorbed:
  assumes h: "hmac_absorbed which key h txt" and buf: "USHAHashSize which \<le> length buf"
  shows "\<exists>u. hmac_outer h (Some buf)
      = Some (shaSuccess, u, Some (hmac_mac which key txt @ drop (USHAHashSize which) buf)) \<and> usha_sized u"
proof -
  let ?B = "USHABlockSize which" and ?n = "USHAHashSize which"
  define inner where "inner = sha_digest which (hmac_inner which key @ txt)"
  define K where "K = map (\<lambda>b. b XOR 0x5c) (hmac_key which key)"
  have which: "which \<noteq> OtherSha" using h by (rule hmac_absorbed_other)
  have f: "h_whichSha h = which" "h_blockSize h = ?B" "h_hashSize h = ?n"
      "take ?B (k_opad h) = K" "?B \<le> length (k_opad h)"
    using h sizes(2) [of which] by (auto simp: hmac_absorbed_def K_def)
  have in_len: "length inner = ?n" using which by (simp add: inner_def length_sha_digest)
  have K_len: "length K = ?B" using which by (simp add: K_def length_hmac_key)
  obtain u1 where u1: "USHAResult (Some (shaContext h)) (Some buf) = Some (shaSuccess, Some u1, Some (inner @ drop ?n buf))"
      "usha_finished which u1 inner"
    using usha_result [of which "shaContext h" _ buf] h buf by (auto simp: hmac_absorbed_def inner_def)
  obtain u2 where u2: "USHAReset (Some u1) which = (shaSuccess, Some u2)" "usha_absorbed which u2 []"
    using usha_reset [OF which usha_finished_sized [OF u1(2)]] by blast
  have lim: "8 * (?B + ?n) < sha_limit which" using sizes [of which] sha_limit_ge [of which] by simp
  then obtain u3 where u3: "USHAInput (Some u2) (Some (k_opad h)) ?B = Some (shaSuccess, Some u3)"
      "usha_absorbed which u3 K"
    using usha_input [OF u2(2) f(5)] f(4) by auto
  obtain u4 where u4: "USHAInput (Some u3) (Some (inner @ drop ?n buf)) ?n = Some (shaSuccess, Some u4)"
      "usha_absorbed which u4 (K @ inner)"
    using usha_input [OF u3(2), of ?n "inner @ drop ?n buf"] lim K_len in_len by auto
  obtain u5 where "USHAResult (Some u4) (Some (inner @ drop ?n buf))
        = Some (shaSuccess, Some u5, Some (sha_digest which (K @ inner) @ drop ?n buf))" "usha_finished which u5 (sha_digest which (K @ inner))"
    using usha_result [OF u4(2), of "inner @ drop ?n buf"] in_len buf by auto
  then show ?thesis
    using u1(1) u2(1) u3(1) u4(1) f usha_finished_sized
    by (auto simp: hmac_outer_def hmac_mac_def K_def inner_def)
qed

lemma hmacResult_absorbed:
  assumes "hmac_absorbed which key h txt" "USHAHashSize which \<le> length buf"
  shows "\<exists>h'. hmacResult (Some h) (Some buf)
      = Some (shaSuccess, Some h', Some (hmac_mac which key txt @ drop (USHAHashSize which) buf)) \<and>
    h_Computed h' \<and> h_Corrupted h' = shaSuccess \<and> hmac_sized h'"
  using hmac_outer_absorbed [OF assms] assms(1)
  by (auto simp: hmacResult_def hmac_absorbed_def hmac_sized_def)

lemma length_hmac_mac: "which \<noteq> OtherSha \<Longrightarrow> length (hmac_mac which key txt) = USHAHashSize which"
  by (simp add: hmac_mac_def length_sha_digest)

section \<open>Properties\<close>

definition blank_hmac :: HMACContext where
  "blank_hmac = \<lparr>h_whichSha = SHA1, h_hashSize = 0, h_blockSize = 0, shaContext = blank_usha,
     k_opad = replicate 128 0, h_Computed = False, h_Corrupted = shaSuccess\<rparr>"

definition blank_frame :: hmac_frame where
  "blank_frame = \<lparr>f_tcontext = blank_usha, f_tempkey = replicate 64 0, f_k_ipad = replicate 128 0\<rparr>"

lemma blank_sized: "hmac_sized blank_hmac" "frame_sized blank_frame"
  by (simp_all add: hmac_sized_def frame_sized_def blank_hmac_def blank_frame_def usha_sized_blank)

text \<open>C16: For each of the five algorithms, \<open>hmac\<close> computes the MAC of RFC 2104 (keys longer than a
  block are hashed first), for every key and text whose lengths an \<open>int\<close> holds, whatever the
  uninitialised locals contain, and writes it to the front of the caller's buffer.\<close>

theorem hmac_correct:
  assumes "which \<noteq> OtherSha" "frame_sized fr" "hmac_sized h"
    and "length key < 2 ^ 31" "length txt < 2 ^ 31" "USHAHashSize which \<le> length buf"
  shows "hmac fr h which (Some txt) (int (length txt)) (Some key) (int (length key)) (Some buf)
    = Some (shaSuccess, Some (hmac_mac which key txt @ drop (USHAHashSize which) buf))"
proof -
  obtain h1 where h1: "hmacReset fr (Some h) which (Some key) (int (length key)) = Some (shaSuccess, Some h1)"
      "hmac_absorbed which key h1 []"
    using hmacReset_absorbed [OF assms(1-4), of key] by auto
  have "8 * (length ([] :: bytes) + length txt + 128) < sha_limit which"
    using int_length_fits [of "length txt" which] assms(5) by simp
  then obtain h2 where h2: "hmacInput (Some h1) (Some txt) (int (length txt)) = Some (shaSuccess, Some h2)"
      "hmac_absorbed which key h2 txt"
    using hmacInput_absorbed [OF h1(2) assms(5) le_refl] by auto
  show ?thesis
    using h1(1) h2(1) hmacResult_absorbed [OF h2(2) assms(6)] by (auto simp: hmac_def)
qed

theorem hmac_correct_witness:
  "hmac blank_frame blank_hmac SHA256 (Some [0x48, 0x69]) 2 (Some (replicate 20 0x0b)) 20 (Some (replicate 32 0))
    = Some (shaSuccess, Some (hmac_mac SHA256 (replicate 20 0x0b) [0x48, 0x69]))"
  using hmac_correct [of SHA256 blank_frame blank_hmac "replicate 20 0x0b" "[0x48, 0x69]" "replicate 32 0"] blank_sized
  by (simp add: USHAHashSize_def)

text \<open>The error that \<open>hmac\<close> reports is always the code of \<open>shaNull\<close>, whichever of the three calls
  failed and for whatever reason: an unknown algorithm, which \<open>USHAReset\<close> answers with
  \<open>shaBadParam\<close>, comes back as \<open>shaNull\<close>.\<close>

theorem hmac_error_code:
  assumes "hmac fr h which txt len key key_len buf = Some (e, buf')"
  shows "e = shaSuccess \<or> e = shaNull"
  using assms by (auto simp: hmac_def failed_def split: Option.bind_splits if_splits)

theorem hmac_error_code_witness:
  "hmac blank_frame blank_hmac OtherSha None 0 (Some [1]) 1 None = Some (shaNull, None)"
proof -
  obtain e b where r: "hmac blank_frame blank_hmac OtherSha None 0 (Some [1]) 1 None = Some (e, b)" "b = None" "e \<noteq> shaSuccess"
    using hmac_fill_loop_Some [of 1 127 "(replicate 128 0)[0 := 0x37]" "(replicate 128 0)[0 := 0x5d]"]
    by (simp add: hmac_def hmacReset_def USHABlockSize_def USHAReset_def blank_frame_def blank_hmac_def
        USHAInput_def failed_def)
  then show ?thesis using hmac_error_code [OF r(1)] by auto
qed

end
