(* ===== verification/Hkdf.thy ===== *)
theory Hkdf
  imports Hmac Ring
begin

text \<open>
  Key derivation, \<open>src/sha/hkdf.c\<close>: extraction and expansion over \<open>Hmac\<close>, in one call and in the
  modular interface, with the proof that they compute the functions of RFC 5869.  The stack
  memory that each turn of the expansion loop finds uninitialised is the argument \<open>mem\<close>.
\<close>

section \<open>Data\<close>

record HKDFContext =
  k_whichSha :: SHAversion
  hmacContext :: HMACContext
  k_hashSize :: nat
  k_prk :: bytes
  k_Computed :: bool
  k_Corrupted :: sha_error

type_synonym stack_memory = "nat \<Rightarrow> hmac_frame \<times> HMACContext"

section \<open>The functions of the file\<close>

definition hkdfExtract :: "hmac_frame \<Rightarrow> HMACContext \<Rightarrow> SHAversion \<Rightarrow> bytes option \<Rightarrow> int \<Rightarrow> bytes option
    \<Rightarrow> int \<Rightarrow> bytes option \<Rightarrow> (sha_error \<times> bytes option) option" where
  "hkdfExtract fr h which salt salt_len ikm ikm_len prk =
     (case salt of
        None \<Rightarrow> hmac fr h which ikm ikm_len (Some (replicate (USHAHashSize which) 0)) (int (USHAHashSize which)) prk
      | Some s \<Rightarrow>
          if salt_len < 0 then Some (shaBadParam, prk)
          else hmac fr h which ikm ikm_len (Some s) salt_len prk)"

text \<open>The five calls of one turn of the expansion loop.\<close>

definition hkdf_turn :: "hmac_frame \<Rightarrow> HMACContext \<Rightarrow> SHAversion \<Rightarrow> bytes option \<Rightarrow> int \<Rightarrow> bytes \<Rightarrow> int \<Rightarrow> bytes
    \<Rightarrow> nat \<Rightarrow> u8 \<Rightarrow> (sha_error \<times> bytes) option" where
  "hkdf_turn fr h which prk prk_len info info_len T Tlen c = do {
     (e, h) \<leftarrow> hmacReset fr (Some h) which prk prk_len;
     if e \<noteq> shaSuccess then Some (failed, T)
     else do {
       (e, h) \<leftarrow> hmacInput h (Some T) (int Tlen);
       if e \<noteq> shaSuccess then Some (failed, T)
       else do {
         (e, h) \<leftarrow> hmacInput h (Some info) info_len;
         if e \<noteq> shaSuccess then Some (failed, T)
         else do {
           (e, h) \<leftarrow> hmacInput h (Some [c]) 1;
           if e \<noteq> shaSuccess then Some (failed, T)
           else do {
             (e, h, T) \<leftarrow> hmacResult h (Some T);
             T \<leftarrow> T;
             Some (if e \<noteq> shaSuccess then failed else shaSuccess, T) } } } } }"

text \<open>The loop with \<open>n\<close> turns left, the next one being turn \<open>i\<close> of \<open>N\<close>; \<open>pos\<close> is the variable
  \<open>where\<close> of the code.\<close>

primrec hkdf_loop :: "stack_memory \<Rightarrow> SHAversion \<Rightarrow> bytes option \<Rightarrow> int \<Rightarrow> bytes \<Rightarrow> int \<Rightarrow> nat \<Rightarrow> nat
    \<Rightarrow> nat \<Rightarrow> nat \<Rightarrow> bytes \<Rightarrow> nat \<Rightarrow> nat \<Rightarrow> bytes \<Rightarrow> (sha_error \<times> bytes) option" where
  "hkdf_loop mem which prk prk_len info info_len okm_len N 0 i T Tlen pos okm = Some (shaSuccess, okm)" |
  "hkdf_loop mem which prk prk_len info info_len okm_len N (Suc n) i T Tlen pos okm = do {
     let hash_len = USHAHashSize which;
     (ret, T) \<leftarrow> hkdf_turn (fst (mem i)) (snd (mem i)) which prk prk_len info info_len T Tlen (of_nat i);
     if ret \<noteq> shaSuccess then Some (ret, okm)
     else do {
       okm \<leftarrow> mem_copy okm pos T 0 (if i \<noteq> N then hash_len else okm_len - pos);
       hkdf_loop mem which prk prk_len info info_len okm_len N n (i + 1) T hash_len (pos + hash_len) okm } }"

definition hkdfExpand :: "stack_memory \<Rightarrow> bytes \<Rightarrow> SHAversion \<Rightarrow> bytes option \<Rightarrow> int \<Rightarrow> bytes option \<Rightarrow> int
    \<Rightarrow> bytes option \<Rightarrow> int \<Rightarrow> (sha_error \<times> bytes option) option" where
  "hkdfExpand mem T which prk prk_len info info_len okm okm_len =
     (if info \<noteq> None \<and> info_len < 0 then Some (shaBadParam, okm)
      else if okm_len \<le> 0 then Some (shaBadParam, okm)
      else case okm of None \<Rightarrow> Some (shaBadParam, None)
      | Some out \<Rightarrow>
          let (info, info_len) = (case info of None \<Rightarrow> ([], 0) | Some s \<Rightarrow> (s, info_len));
              hash_len = USHAHashSize which in
          if prk_len < int hash_len then Some (shaBadParam, okm)
          else
            let N = nat okm_len div hash_len + (if nat okm_len mod hash_len \<noteq> 0 then 1 else 0) in
            if 255 < N then Some (shaBadParam, okm)
            else map_option (apsnd Some)
              (hkdf_loop mem which prk prk_len info info_len (nat okm_len) N N 1 T 0 0 out))"

text \<open>In \<open>hkdf\<close> the first frame serves the extraction; \<open>prk\<close> is its uninitialised local.\<close>

definition hkdf :: "stack_memory \<Rightarrow> bytes \<Rightarrow> bytes \<Rightarrow> SHAversion \<Rightarrow> bytes option \<Rightarrow> int \<Rightarrow> bytes option \<Rightarrow> int
    \<Rightarrow> bytes option \<Rightarrow> int \<Rightarrow> bytes option \<Rightarrow> int \<Rightarrow> (sha_error \<times> bytes option) option" where
  "hkdf mem T prk which salt salt_len ikm ikm_len info info_len okm okm_len = do {
     (e, prk) \<leftarrow> hkdfExtract (fst (mem 0)) (snd (mem 0)) which salt salt_len ikm ikm_len (Some prk);
     if e \<noteq> shaSuccess then Some (failed, okm)
     else do {
       (e, okm) \<leftarrow> hkdfExpand mem T which prk (int (USHAHashSize which)) info info_len okm okm_len;
       Some (if e \<noteq> shaSuccess then failed else shaSuccess, okm) } }"

text \<open>The modular interface.\<close>

definition hkdfReset :: "hmac_frame \<Rightarrow> HKDFContext option \<Rightarrow> SHAversion \<Rightarrow> bytes option \<Rightarrow> int
    \<Rightarrow> (sha_error \<times> HKDFContext option) option" where
  "hkdfReset fr context which salt salt_len =
     (case context of None \<Rightarrow> Some (shaNull, None)
      | Some k \<Rightarrow>
          let k = k\<lparr>k_whichSha := which, k_hashSize := USHAHashSize which\<rparr>;
              (salt, salt_len) = (case salt of
                  None \<Rightarrow> (Some (replicate (USHAHashSize which) 0), int (USHAHashSize which))
                | Some s \<Rightarrow> (Some s, salt_len))
          in do {
            (e, h) \<leftarrow> hmacReset fr (Some (hmacContext k)) which salt salt_len;
            h \<leftarrow> h;
            Some (e, Some (k\<lparr>hmacContext := h\<rparr>)) })"

definition hkdfInput ::
  "HKDFContext option \<Rightarrow> bytes option \<Rightarrow> int \<Rightarrow> (sha_error \<times> HKDFContext option) option" where
  "hkdfInput context ikm ikm_len =
     (case context of None \<Rightarrow> Some (shaNull, None)
      | Some k \<Rightarrow>
          if k_Corrupted k \<noteq> shaSuccess then Some (k_Corrupted k, Some k)
          else if k_Computed k then Some (shaStateError, Some (k\<lparr>k_Corrupted := shaStateError\<rparr>))
          else do {
            (e, h) \<leftarrow> hmacInput (Some (hmacContext k)) ikm ikm_len;
            h \<leftarrow> h;
            Some (e, Some (k\<lparr>hmacContext := h\<rparr>)) })"

definition hkdfFinalBits ::
  "HKDFContext option \<Rightarrow> u8 \<Rightarrow> nat \<Rightarrow> (sha_error \<times> HKDFContext option) option" where
  "hkdfFinalBits context ikm_bits ikm_bit_count =
     (case context of None \<Rightarrow> Some (shaNull, None)
      | Some k \<Rightarrow>
          if k_Corrupted k \<noteq> shaSuccess then Some (k_Corrupted k, Some k)
          else if k_Computed k then Some (shaStateError, Some (k\<lparr>k_Corrupted := shaStateError\<rparr>))
          else do {
            (e, h) \<leftarrow> hmacFinalBits (Some (hmacContext k)) ikm_bits ikm_bit_count;
            h \<leftarrow> h;
            Some (e, Some (k\<lparr>hmacContext := h\<rparr>)) })"

text \<open>A \<open>NULL\<close> argument \<open>prk\<close> is replaced by the local \<open>prkbuf\<close>; the caller's pointer stays
  \<open>NULL\<close>.\<close>

definition hkdfResult :: "stack_memory \<Rightarrow> bytes \<Rightarrow> bytes \<Rightarrow> HKDFContext option \<Rightarrow> bytes option \<Rightarrow> bytes option
    \<Rightarrow> int \<Rightarrow> bytes option \<Rightarrow> int
    \<Rightarrow> (sha_error \<times> HKDFContext option \<times> bytes option \<times> bytes option) option" where
  "hkdfResult mem T prkbuf context prk info info_len okm okm_len =
     (case context of None \<Rightarrow> Some (shaNull, None, prk, okm)
      | Some k \<Rightarrow>
          if k_Corrupted k \<noteq> shaSuccess then Some (k_Corrupted k, Some k, prk, okm)
          else if k_Computed k then Some (shaStateError, Some (k\<lparr>k_Corrupted := shaStateError\<rparr>), prk, okm)
          else if okm = None then Some (shaBadParam, Some (k\<lparr>k_Corrupted := shaBadParam\<rparr>), prk, okm)
          else do {
            (e, h, out) \<leftarrow> hmacResult (Some (hmacContext k)) (Some (case prk of None \<Rightarrow> prkbuf | Some p \<Rightarrow> p));
            h \<leftarrow> h;
            let k = k\<lparr>hmacContext := h\<rparr>;
            (ret, okm) \<leftarrow>
              (if e \<noteq> shaSuccess then Some (failed, okm)
               else do {
                 (e, okm) \<leftarrow> hkdfExpand mem T (k_whichSha k) out (int (k_hashSize k)) info info_len okm okm_len;
                 Some (if e \<noteq> shaSuccess then failed else shaSuccess, okm) });
            Some (ret, Some (k\<lparr>k_Computed := True, k_Corrupted := ret\<rparr>), if prk = None then None else out, okm) })"

section \<open>RFC 5869\<close>

primrec rfc_T :: "SHAversion \<Rightarrow> bytes \<Rightarrow> bytes \<Rightarrow> nat \<Rightarrow> bytes" where
  "rfc_T which prk info 0 = []" |
  "rfc_T which prk info (Suc i) = hmac_mac which prk (rfc_T which prk info i @ info @ [of_nat (Suc i)])"

definition rfc_expand :: "SHAversion \<Rightarrow> bytes \<Rightarrow> bytes \<Rightarrow> nat \<Rightarrow> bytes" where
  "rfc_expand which prk info len =
     take len (concat (map (rfc_T which prk info)
       [1..<Suc ((len + (USHAHashSize which - 1)) div USHAHashSize which)]))"

definition rfc_extract :: "SHAversion \<Rightarrow> bytes option \<Rightarrow> bytes \<Rightarrow> bytes" where
  "rfc_extract which salt ikm =
     hmac_mac which (case salt of None \<Rightarrow> replicate (USHAHashSize which) 0 | Some s \<Rightarrow> s) ikm"

section \<open>Expansion\<close>

lemma hash_size_pos: "0 < USHAHashSize which"
  by (cases which) (simp_all add: USHAHashSize_def)

lemma hkdf_turn_Some:
  assumes which: "which \<noteq> OtherSha" and fr: "frame_sized fr" "hmac_sized h"
    and prk: "m < 2 ^ 31" "m \<le> length pb" "key = take m pb"
    and T: "length T = 64" "Tlen \<le> 64" and info: "il < 2 ^ 31" "il \<le> length info"
  shows "hkdf_turn fr h which (Some pb) (int m) info (int il) T Tlen c
    = Some (shaSuccess, hmac_mac which key (take Tlen T @ take il info @ [c]) @ drop (USHAHashSize which) T)"
proof -
  have lim: "8 * (Tlen + il + 1 + 128) < sha_limit which" using T(2) info(1) sha_limit_ge [of which] by simp
  obtain h1 where h1: "hmacReset fr (Some h) which (Some pb) (int m) = Some (shaSuccess, Some h1)"
      "hmac_absorbed which key h1 []"
    using hmacReset_absorbed [OF which fr prk] by blast
  obtain h2 where h2: "hmacInput (Some h1) (Some T) (int Tlen) = Some (shaSuccess, Some h2)"
      "hmac_absorbed which key h2 (take Tlen T)"
    using hmacInput_absorbed [OF h1(2), of Tlen T] T lim by auto
  obtain h3 where h3: "hmacInput (Some h2) (Some info) (int il) = Some (shaSuccess, Some h3)"
      "hmac_absorbed which key h3 (take Tlen T @ take il info)"
    using hmacInput_absorbed [OF h2(2), of il info] T info lim by auto
  obtain h4 where h4: "hmacInput (Some h3) (Some [c]) 1 = Some (shaSuccess, Some h4)"
      "hmac_absorbed which key h4 (take Tlen T @ take il info @ [c])"
    using hmacInput_absorbed [OF h3(2), of 1 "[c]"] T info lim by auto
  show ?thesis
    using h1(1) h2(1) h3(1) h4(1) hmacResult_absorbed [OF h4(2), of T] T(1) sizes(3) [of which]
    by (auto simp: hkdf_turn_def)
qed

lemma length_rfc_T: "which \<noteq> OtherSha \<Longrightarrow> 0 < i \<Longrightarrow> length (rfc_T which prk info i) = USHAHashSize which"
  by (cases i) (simp_all add: length_hmac_mac)

lemma hkdf_loop_Some:
  assumes which: "which \<noteq> OtherSha" and mem: "\<And>i. frame_sized (fst (mem i))" "\<And>i. hmac_sized (snd (mem i))"
    and prk: "m < 2 ^ 31" "m \<le> length pb" "key = take m pb" and info: "il < 2 ^ 31" "il \<le> length info"
    and hs: "hs = USHAHashSize which" and i: "i + n = N" "0 < i" and T: "length T = 64" "Tlen \<le> 64"
    and Ti: "take Tlen T = rfc_T which key (take il info) (i - 1)" and pos: "pos = hs * (i - 1)"
    and len: "hs * (N - 1) < L" "L \<le> hs * N" "L \<le> length okm"
  shows "hkdf_loop mem which (Some pb) (int m) info (int il) L N (Suc n) i T Tlen pos okm
    = Some (shaSuccess, take pos okm
        @ take (L - pos) (concat (map (rfc_T which key (take il info)) [i..<Suc N])) @ drop L okm)"
  using i T Ti pos len
proof (induction n arbitrary: i T Tlen pos okm)
  case 0
  let ?t = "rfc_T which key (take il info) N"
  have N: "i = N" "0 < N" using 0 by simp_all
  then obtain k where k: "N = Suc k" using gr0_implies_Suc by blast
  have t: "length ?t = hs" using which N(2) by (simp add: length_rfc_T hs)
  have turn: "hkdf_turn (fst (mem N)) (snd (mem N)) which (Some pb) (int m) info (int il) T Tlen (of_nat N)
      = Some (shaSuccess, ?t @ drop hs T)"
    using hkdf_turn_Some [OF which mem prk, where c = "of_nat N" and T = T] 0 info
    by (simp add: N(1) k hs)
  have "L - pos \<le> hs" "pos \<le> L" using 0 N(1) by (auto simp: k)
  then have "mem_copy okm pos (?t @ drop hs T) 0 (L - pos) = Some (take pos okm @ take (L - pos) ?t @ drop L okm)"
    using t 0 by (simp add: mem_copy_def)
  then show ?case using turn N by simp
next
  case (Suc n)
  let ?t = "rfc_T which key (take il info) i" and ?rest = "concat (map (rfc_T which key (take il info)) [Suc i..<Suc N])"
  obtain k where k: "i = Suc k" using Suc.prems(2) gr0_implies_Suc by blast
  have t: "length ?t = hs" using which Suc.prems(2) by (simp add: length_rfc_T hs)
  have turn: "hkdf_turn (fst (mem i)) (snd (mem i)) which (Some pb) (int m) info (int il) T Tlen (of_nat i)
      = Some (shaSuccess, ?t @ drop hs T)"
    using hkdf_turn_Some [OF which mem prk, where c = "of_nat i" and T = T] Suc.prems info
    by (simp add: k hs)
  have "hs * i \<le> hs * (N - 1)" using Suc.prems(1) by (intro mult_le_mono2) simp
  then have stop: "pos + hs < L" "pos + hs = hs * i" using Suc.prems by (auto simp: k)
  define okm' where "okm' = take pos okm @ ?t @ drop (pos + hs) okm"
  have copy: "mem_copy okm pos (?t @ drop hs T) 0 hs = Some okm'"
    using t stop Suc.prems(9) by (simp add: mem_copy_def okm'_def)
  have okm': "length okm' = length okm" "take (pos + hs) okm' = take pos okm @ ?t" "drop L okm' = drop L okm"
    using t stop Suc.prems(9) by (simp_all add: okm'_def)
  have "hkdf_loop mem which (Some pb) (int m) info (int il) L N (Suc n) (i + 1) (?t @ drop hs T) hs (pos + hs) okm'
      = Some (shaSuccess, take (pos + hs) okm' @ take (L - (pos + hs)) ?rest @ drop L okm')"
    using Suc.IH [of "i + 1" "?t @ drop hs T" hs "pos + hs" okm'] t stop okm'(1) Suc.prems sizes(3) [of which]
    by (simp add: hs)
  moreover have "take (L - pos) (?t @ ?rest) = ?t @ take (L - (pos + hs)) ?rest"
    using t stop by simp
  moreover have "concat (map (rfc_T which key (take il info)) [i..<Suc N]) = ?t @ ?rest"
    using Suc.prems(1) by (subst upt_conv_Cons) simp_all
  moreover have "hkdf_loop mem which (Some pb) (int m) info (int il) L N (Suc (Suc n)) i T Tlen pos okm
      = hkdf_loop mem which (Some pb) (int m) info (int il) L N (Suc n) (i + 1) (?t @ drop hs T) hs (pos + hs) okm'"
    using turn copy Suc.prems(1) unfolding hs by (subst hkdf_loop.simps) (simp add: Let_def del: hkdf_loop.simps)
  ultimately show ?case
    using okm' by (simp only: append_assoc)
qed

text \<open>The number of turns is the length rounded up to whole blocks.\<close>

lemma turns:
  fixes L hs :: nat
  assumes "0 < hs" "0 < L"
  defines "N \<equiv> L div hs + (if L mod hs \<noteq> 0 then 1 else 0)"
  shows "N = (L + (hs - 1)) div hs" "hs * (N - 1) < L" "L \<le> hs * N" "0 < N"
proof -
  have L: "L = hs * (L div hs) + L mod hs" "L mod hs < hs" using assms(1) by simp_all
  show N0: "0 < N" using assms(1,2) L(1) by (cases "L mod hs = 0") (auto simp: N_def)
  show "hs * (N - 1) < L"
  proof (cases "L mod hs = 0")
    case True
    then have "hs * (N - 1) < hs * N" using N0 assms(1) by simp
    also have "hs * N = L" using True L(1) by (simp add: N_def)
    finally show ?thesis .
  next
    case False
    then have "hs * (L div hs) < L" using L(1) by linarith
    then show ?thesis using False by (simp add: N_def)
  qed
  show "L \<le> hs * N"
  proof (cases "L mod hs = 0")
    case True
    then show ?thesis using L(1) by (simp add: N_def)
  next
    case False
    have "L \<le> hs * (L div hs) + hs" using L by linarith
    then show ?thesis using False by (simp add: N_def algebra_simps)
  qed
  have "(L + (hs - 1)) div hs = L div hs + (L mod hs + (hs - 1)) div hs"
    using div_mult_self3 [of hs "L div hs" "L mod hs + (hs - 1)"] assms(1) L(1)
    by (metis add.assoc mult.commute neq0_conv add.commute)
  moreover have "(L mod hs + (hs - 1)) div hs = (if L mod hs \<noteq> 0 then 1 else 0)"
  proof (cases "L mod hs = 0")
    case False
    then have "L mod hs + (hs - 1) = (L mod hs - 1) + hs" using assms(1) by simp
    then have "(L mod hs + (hs - 1)) div hs = (L mod hs - 1) div hs + 1" using assms(1) by (simp only: div_add_self2)
    moreover have "(L mod hs - 1) div hs = 0" using L(2) by simp
    ultimately show ?thesis using False by simp
  qed (use assms(1) in simp)
  ultimately show "N = (L + (hs - 1)) div hs" by (simp add: N_def)
qed

definition optional :: "bytes option \<Rightarrow> bytes" where
  "optional info = (case info of None \<Rightarrow> [] | Some s \<Rightarrow> s)"

lemma hkdfExpand_Some:
  assumes which: "which \<noteq> OtherSha" and mem: "\<And>i. frame_sized (fst (mem i))" "\<And>i. hmac_sized (snd (mem i))"
    and prk: "m < 2 ^ 31" "m \<le> length pb" "key = take m pb" "USHAHashSize which \<le> m" and T: "length T = 64"
    and info: "length (optional info) < 2 ^ 31" "info \<noteq> None \<longrightarrow> il = int (length (optional info))"
    and L: "0 < L" "L \<le> 255 * USHAHashSize which" "L \<le> length okm"
  shows "hkdfExpand mem T which (Some pb) (int m) info il (Some okm) (int L)
    = Some (shaSuccess, Some (rfc_expand which key (optional info) L @ drop L okm))"
proof -
  define hs N where "hs = USHAHashSize which" and "N = L div hs + (if L mod hs \<noteq> 0 then 1 else 0)"
  have hs: "0 < hs" by (simp add: hs_def hash_size_pos)
  note N = turns [OF hs L(1), folded N_def]
  have "hs * (N - 1) < hs * 255" using N(2) L(2) unfolding hs_def by linarith
  then have N255: "\<not> 255 < N" using hs by simp
  obtain n where n: "N = Suc n" using N(4) gr0_implies_Suc by blast
  have inf: "(case info of None \<Rightarrow> ([], 0) | Some s \<Rightarrow> (s, il)) = (optional info, int (length (optional info)))"
    using info(2) by (auto simp: optional_def split: option.split)
  have "hkdf_loop mem which (Some pb) (int m) (optional info) (int (length (optional info))) L N (Suc n) 1 T 0 0 okm
    = Some (shaSuccess, take 0 okm @ take (L - 0) (concat (map (rfc_T which key (take (length (optional info)) (optional info)))
        [1..<Suc N])) @ drop L okm)"
    by (rule hkdf_loop_Some [OF which mem prk(1-3) info(1) le_refl hs_def])
      (use n N L(3) T in simp_all)
  then have "hkdf_loop mem which (Some pb) (int m) (optional info) (int (length (optional info))) L N N 1 T 0 0 okm
    = Some (shaSuccess, rfc_expand which key (optional info) L @ drop L okm)"
    unfolding rfc_expand_def hs_def [symmetric] N(1) [symmetric] n by simp
  moreover have "\<not> (info \<noteq> None \<and> il < 0)" using info(2) by auto
  ultimately show ?thesis
    using L(1) N255 prk(4) by (simp add: hkdfExpand_def inf N_def hs_def Let_def)
qed

section \<open>Properties\<close>

definition blank_memory :: stack_memory where
  "blank_memory i = (blank_frame, blank_hmac)"

lemma blank_memory_sized: "frame_sized (fst (blank_memory i))" "hmac_sized (snd (blank_memory i))"
  by (simp_all add: blank_memory_def blank_sized)

text \<open>C18: \<open>hkdf\<close> computes the key derivation of RFC 5869 for each of the five algorithms: with or without
  salt and info, for every output length from 1 to 255 digests, whatever the uninitialised
  locals contain; exactly the requested bytes of the output buffer are written.\<close>

theorem hkdf_correct:
  assumes "which \<noteq> OtherSha" "\<And>i. frame_sized (fst (mem i))" "\<And>i. hmac_sized (snd (mem i))"
    and "length T = 64" "length prk = 64"
    and "length (optional salt) < 2 ^ 31" "salt \<noteq> None \<longrightarrow> sl = int (length (optional salt))"
    and "length ikm < 2 ^ 31"
    and "length (optional info) < 2 ^ 31" "info \<noteq> None \<longrightarrow> il = int (length (optional info))"
    and "0 < L" "L \<le> 255 * USHAHashSize which" "L \<le> length okm"
  shows "hkdf mem T prk which salt sl (Some ikm) (int (length ikm)) info il (Some okm) (int L)
    = Some (shaSuccess, Some (rfc_expand which (rfc_extract which salt ikm) (optional info) L @ drop L okm))"
proof -
  let ?n = "USHAHashSize which" and ?p = "rfc_extract which salt ikm"
  have n: "?n \<le> length prk" "?n < 2 ^ 31" using sizes(3) [of which] assms(5) by simp_all
  have "hkdfExtract (fst (mem 0)) (snd (mem 0)) which salt sl (Some ikm) (int (length ikm)) (Some prk)
      = Some (shaSuccess, Some (?p @ drop ?n prk))"
    using hmac_correct [OF assms(1-3) _ assms(8) n(1), where key = "replicate ?n 0"]
      hmac_correct [OF assms(1-3) assms(6,8) n(1)] n(2) assms(7)
    by (cases salt) (auto simp: hkdfExtract_def rfc_extract_def optional_def)
  moreover have "length ?p = ?n" using assms(1) by (simp add: rfc_extract_def length_hmac_mac)
  then have "hkdfExpand mem T which (Some (?p @ drop ?n prk)) (int ?n) info il (Some okm) (int L)
      = Some (shaSuccess, Some (rfc_expand which ?p (optional info) L @ drop L okm))"
    using hkdfExpand_Some [OF assms(1-3) n(2) _ _ order_refl assms(4,9-13), of "?p @ drop ?n prk" ?p] by simp
  ultimately show ?thesis by (simp add: hkdf_def)
qed

theorem hkdf_correct_witness:
  "hkdf blank_memory (replicate 64 0) (replicate 64 0) SHA256 None 0 (Some [1, 2, 3]) 3 (Some [9]) 1
     (Some (replicate 42 0)) 42
    = Some (shaSuccess, Some (rfc_expand SHA256 (rfc_extract SHA256 None [1, 2, 3]) [9] 42))"
  using hkdf_correct [of SHA256 blank_memory "replicate 64 0" "replicate 64 0" None 0 "[1, 2, 3]" "Some [9]" 1
      42 "replicate 42 0"] blank_memory_sized
  by (simp add: optional_def USHAHashSize_def)

text \<open>The modular interface computes the same key after \<open>hkdfReset\<close> and \<open>hkdfInput\<close> on a context
  whose \<open>Computed\<close> and \<open>Corrupted\<close> fields are clear.\<close>

theorem hkdf_modular:
  assumes "which \<noteq> OtherSha" "\<And>i. frame_sized (fst (mem i))" "\<And>i. hmac_sized (snd (mem i))"
    and "hmac_sized (hmacContext k)" "\<not> k_Computed k" "k_Corrupted k = shaSuccess" "length T = 64" "length prk = 64"
    and "length salt < 2 ^ 31" "length ikm < 2 ^ 31"
    and "length (optional info) < 2 ^ 31" "info \<noteq> None \<longrightarrow> il = int (length (optional info))"
    and "0 < L" "L \<le> 255 * USHAHashSize which" "L \<le> length okm"
  shows "\<exists>k1 k2 k3. hkdfReset (fst (mem 0)) (Some k) which (Some salt) (int (length salt)) = Some (shaSuccess, Some k1) \<and>
    hkdfInput (Some k1) (Some ikm) (int (length ikm)) = Some (shaSuccess, Some k2) \<and>
    hkdfResult mem T prkbuf (Some k2) (Some prk) info il (Some okm) (int L)
      = Some (shaSuccess, Some k3, Some (rfc_extract which (Some salt) ikm @ drop (USHAHashSize which) prk),
          Some (rfc_expand which (rfc_extract which (Some salt) ikm) (optional info) L @ drop L okm)) \<and> k_Computed k3"
proof -
  let ?n = "USHAHashSize which" and ?p = "rfc_extract which (Some salt) ikm"
  have n: "?n \<le> length prk" "?n < 2 ^ 31" using sizes(3) [of which] assms(8) by simp_all
  obtain h1 where h1: "hmacReset (fst (mem 0)) (Some (hmacContext k)) which (Some salt) (int (length salt))
      = Some (shaSuccess, Some h1)" "hmac_absorbed which salt h1 []"
    using hmacReset_absorbed [OF assms(1) assms(2) assms(4) assms(9), of salt] by auto
  have "8 * (length ([] :: bytes) + length ikm + 128) < sha_limit which"
    using int_length_fits [of "length ikm" which] assms(10) by simp
  then obtain h2 where h2: "hmacInput (Some h1) (Some ikm) (int (length ikm)) = Some (shaSuccess, Some h2)"
      "hmac_absorbed which salt h2 ikm"
    using hmacInput_absorbed [OF h1(2) assms(10) le_refl] by auto
  obtain h3 where h3: "hmacResult (Some h2) (Some prk) = Some (shaSuccess, Some h3, Some (?p @ drop ?n prk))"
    using hmacResult_absorbed [OF h2(2) n(1)] by (auto simp: rfc_extract_def)
  have "length ?p = ?n" using assms(1) by (simp add: rfc_extract_def length_hmac_mac)
  then have "hkdfExpand mem T which (Some (?p @ drop ?n prk)) (int ?n) info il (Some okm) (int L)
      = Some (shaSuccess, Some (rfc_expand which ?p (optional info) L @ drop L okm))"
    using hkdfExpand_Some [OF assms(1-3) n(2) _ _ order_refl assms(7,11-15), of "?p @ drop ?n prk" ?p] by simp
  then show ?thesis
    using h1(1) h2(1) h3 assms(5,6) by (simp add: hkdfReset_def hkdfInput_def hkdfResult_def)
qed

definition blank_hkdf :: HKDFContext where
  "blank_hkdf = \<lparr>k_whichSha = SHA1, hmacContext = blank_hmac, k_hashSize = 0, k_prk = replicate 64 0,
     k_Computed = False, k_Corrupted = shaSuccess\<rparr>"

theorem hkdf_modular_witness:
  "\<exists>k1 k2 k3. hkdfReset blank_frame (Some blank_hkdf) SHA1 (Some [7]) 1 = Some (shaSuccess, Some k1) \<and>
    hkdfInput (Some k1) (Some [1, 2]) 2 = Some (shaSuccess, Some k2) \<and>
    hkdfResult blank_memory (replicate 64 0) [] (Some k2) (Some (replicate 64 0)) None 0 (Some (replicate 50 0)) 50
      = Some (shaSuccess, Some k3, Some (rfc_extract SHA1 (Some [7]) [1, 2] @ replicate 44 0),
          Some (rfc_expand SHA1 (rfc_extract SHA1 (Some [7]) [1, 2]) [] 50)) \<and> k_Computed k3"
proof -
  have o: "optional None = []" by (simp add: optional_def)
  have d: "drop (USHAHashSize SHA1) (replicate 64 0) = replicate 44 0" "drop 50 (replicate 50 0) = ([] :: bytes)"
    "int (length [7 :: u8]) = 1" "int (length [1, 2 :: u8]) = 2" "fst (blank_memory 0) = blank_frame" "int 50 = 50"
    by (simp_all add: USHAHashSize_def blank_memory_def)
  have p: "hmac_sized (hmacContext blank_hkdf)" "\<not> k_Computed blank_hkdf" "k_Corrupted blank_hkdf = shaSuccess"
    "50 \<le> 255 * USHAHashSize SHA1"
    by (simp_all add: blank_hkdf_def blank_sized USHAHashSize_def)
  show ?thesis
    using hkdf_modular [where which = SHA1 and mem = blank_memory and k = blank_hkdf and T = "replicate 64 0"
        and prk = "replicate 64 0" and salt = "[7]" and ikm = "[1, 2]" and info = None and il = 0 and L = 50
        and okm = "replicate 50 0" and prkbuf = "[]", OF _ blank_memory_sized p(1-3) _ _ _ _ _ _ _ p(4)]
    unfolding o d append_Nil2 by simp
qed

text \<open>\<open>hkdfReset\<close> does not clear \<open>Computed\<close> and \<open>Corrupted\<close>: a context that has delivered a key is
  refused its next input with \<open>shaStateError\<close> although it was reset and the reset reported
  success.\<close>

theorem hkdfReset_keeps_Computed:
  assumes "which \<noteq> OtherSha" "frame_sized fr" "hmac_sized (hmacContext k)" "length salt < 2 ^ 31"
    and "k_Computed k" "k_Corrupted k = shaSuccess"
  shows "\<exists>k' k''. hkdfReset fr (Some k) which (Some salt) (int (length salt)) = Some (shaSuccess, Some k') \<and>
    hkdfInput (Some k') ikm n = Some (shaStateError, Some k'')"
proof -
  obtain h where "hmacReset fr (Some (hmacContext k)) which (Some salt) (int (length salt)) = Some (shaSuccess, Some h)"
    using hmacReset_absorbed [OF assms(1-4) le_refl refl] by blast
  then show ?thesis using assms(5,6) by (simp add: hkdfReset_def hkdfInput_def)
qed

theorem hkdfReset_keeps_Computed_witness:
  "\<exists>k' k''. hkdfReset blank_frame (Some (blank_hkdf\<lparr>k_Computed := True\<rparr>)) SHA256 (Some [1]) 1
      = Some (shaSuccess, Some k') \<and>
    hkdfInput (Some k') (Some [5]) 1 = Some (shaStateError, Some k'')"
proof -
  have p: "hmac_sized (hmacContext (blank_hkdf\<lparr>k_Computed := True\<rparr>))" "k_Corrupted (blank_hkdf\<lparr>k_Computed := True\<rparr>) = shaSuccess"
    by (simp_all add: blank_sized blank_hkdf_def)
  have "int (length [1 :: u8]) = 1" by simp
  then show ?thesis
    using hkdfReset_keeps_Computed [where which = SHA256 and salt = "[1]" and ikm = "Some [5]" and n = 1,
        OF _ blank_sized(2) p(1) _ _ p(2)] by simp
qed

end
