(* ===== verification/Md5.thy ===== *)
theory Md5
  imports Sha_Functions Ring
begin

text \<open>
  MD5, \<open>src/md5/md5.c\<close>: the context, the transformation of a block, the update that takes input
  of any length through the buffer, and the finalisation.  The transformation is proved equal
  to the sixty-four steps of RFC 1321 and the whole to the digest of the padded message, however
  the message is cut into updates.
\<close>

section \<open>Data and macros\<close>

record md5_ctx =
  md5_state :: "u32 list"
  md5_count :: "u32 list"
  md5_buffer :: bytes

definition PADDING :: bytes where
  "PADDING = 0x80 # replicate 63 0"

definition MD5_F :: "u32 \<Rightarrow> u32 \<Rightarrow> u32 \<Rightarrow> u32" where
  "MD5_F x y z = (x AND y) OR (NOT x AND z)"

definition MD5_G :: "u32 \<Rightarrow> u32 \<Rightarrow> u32 \<Rightarrow> u32" where
  "MD5_G x y z = (x AND z) OR (y AND NOT z)"

definition MD5_H :: "u32 \<Rightarrow> u32 \<Rightarrow> u32 \<Rightarrow> u32" where
  "MD5_H x y z = x XOR y XOR z"

definition MD5_I :: "u32 \<Rightarrow> u32 \<Rightarrow> u32 \<Rightarrow> u32" where
  "MD5_I x y z = y XOR (x OR NOT z)"

definition ROTATE_LEFT :: "u32 \<Rightarrow> nat \<Rightarrow> u32" where
  "ROTATE_LEFT x n = shl x n OR shr x (32 - n)"

text \<open>The macros \<open>FF\<close>, \<open>GG\<close>, \<open>HH\<close> and \<open>II\<close> differ only in the function; the value of the macro's
  first argument afterwards.\<close>

definition transform_step :: "(u32 \<Rightarrow> u32 \<Rightarrow> u32 \<Rightarrow> u32) \<Rightarrow> u32 \<Rightarrow> u32 \<Rightarrow> u32 \<Rightarrow> u32 \<Rightarrow> u32 \<Rightarrow> nat \<Rightarrow> u32 \<Rightarrow> u32" where
  "transform_step f a b c d x s ac =
     (let a = a + (f b c d + x + ac); a = ROTATE_LEFT a s; a = a + b in a)"

text \<open>The lines of \<open>md5_transform\<close> come in groups of four, with the arguments \<open>a, b, c, d\<close>,
  then \<open>d, a, b, c\<close>, then \<open>c, d, a, b\<close>, then \<open>b, c, d, a\<close>.\<close>

type_synonym quad = "u32 \<times> u32 \<times> u32 \<times> u32"

definition four_steps :: "(u32 \<Rightarrow> u32 \<Rightarrow> u32 \<Rightarrow> u32) \<Rightarrow> quad \<Rightarrow> u32 list \<Rightarrow> nat \<times> nat \<times> nat \<times> nat
    \<Rightarrow> nat \<times> nat \<times> nat \<times> nat \<Rightarrow> quad \<Rightarrow> quad" where
  "four_steps f = (\<lambda>(a, b, c, d) x (k1, k2, k3, k4) (s1, s2, s3, s4) (ac1, ac2, ac3, ac4).
     let a = transform_step f a b c d (x ! k1) s1 ac1;
         d = transform_step f d a b c (x ! k2) s2 ac2;
         c = transform_step f c d a b (x ! k3) s3 ac3;
         b = transform_step f b c d a (x ! k4) s4 ac4
     in (a, b, c, d))"

abbreviation (input) S11 :: nat where "S11 \<equiv> 7"

abbreviation (input) S12 :: nat where "S12 \<equiv> 12"

abbreviation (input) S13 :: nat where "S13 \<equiv> 17"

abbreviation (input) S14 :: nat where "S14 \<equiv> 22"

abbreviation (input) S21 :: nat where "S21 \<equiv> 5"

abbreviation (input) S22 :: nat where "S22 \<equiv> 9"

abbreviation (input) S23 :: nat where "S23 \<equiv> 14"

abbreviation (input) S24 :: nat where "S24 \<equiv> 20"

abbreviation (input) S31 :: nat where "S31 \<equiv> 4"

abbreviation (input) S32 :: nat where "S32 \<equiv> 11"

abbreviation (input) S33 :: nat where "S33 \<equiv> 16"

abbreviation (input) S34 :: nat where "S34 \<equiv> 23"

abbreviation (input) S41 :: nat where "S41 \<equiv> 6"

abbreviation (input) S42 :: nat where "S42 \<equiv> 10"

abbreviation (input) S43 :: nat where "S43 \<equiv> 15"

abbreviation (input) S44 :: nat where "S44 \<equiv> 21"

section \<open>The functions of the file\<close>

definition md5_init :: "md5_ctx \<Rightarrow> md5_ctx" where
  "md5_init context = context\<lparr>md5_count := (md5_count context)[0 := 0, 1 := 0],
     md5_state := (md5_state context)[0 := 0x67452301, 1 := 0xefcdab89, 2 := 0x98badcfe, 3 := 0x10325476]\<rparr>"

text \<open>\<open>n\<close> words from and to bytes, from position \<open>j\<close> on.\<close>

definition md5_decode :: "bytes \<Rightarrow> nat \<Rightarrow> nat \<Rightarrow> u32 list" where
  "md5_decode input off len = map (\<lambda>i. let j = off + 4 * i in
     ucast (input ! j) OR shl (ucast (input ! (j + 1))) 8 OR shl (ucast (input ! (j + 2))) 16
     OR shl (ucast (input ! (j + 3))) 24) [0..<len div 4]"

definition md5_encode :: "u32 list \<Rightarrow> nat \<Rightarrow> bytes" where
  "md5_encode input len = concat (map (\<lambda>i.
     [ucast (input ! i AND 0xff), ucast (shr (input ! i) 8 AND 0xff),
      ucast (shr (input ! i) 16 AND 0xff), ucast (shr (input ! i) 24 AND 0xff)]) [0..<len div 4])"

text \<open>The block is the 64 bytes of \<open>block\<close> from \<open>off\<close> on; reading outside is \<open>None\<close>.\<close>

definition md5_transform :: "u32 list \<Rightarrow> bytes \<Rightarrow> nat \<Rightarrow> u32 list option" where
  "md5_transform st block off =
    (if length block < off + 64 then None else Some (
     let x = md5_decode block off 64;
     s = (st ! 0, st ! 1, st ! 2, st ! 3);
     s = four_steps MD5_F s x (0, 1, 2, 3) (S11, S12, S13, S14) (0xd76aa478, 0xe8c7b756, 0x242070db, 0xc1bdceee);
     s = four_steps MD5_F s x (4, 5, 6, 7) (S11, S12, S13, S14) (0xf57c0faf, 0x4787c62a, 0xa8304613, 0xfd469501);
     s = four_steps MD5_F s x (8, 9, 10, 11) (S11, S12, S13, S14) (0x698098d8, 0x8b44f7af, 0xffff5bb1, 0x895cd7be);
     s = four_steps MD5_F s x (12, 13, 14, 15) (S11, S12, S13, S14) (0x6b901122, 0xfd987193, 0xa679438e, 0x49b40821);
     s = four_steps MD5_G s x (1, 6, 11, 0) (S21, S22, S23, S24) (0xf61e2562, 0xc040b340, 0x265e5a51, 0xe9b6c7aa);
     s = four_steps MD5_G s x (5, 10, 15, 4) (S21, S22, S23, S24) (0xd62f105d, 0x2441453, 0xd8a1e681, 0xe7d3fbc8);
     s = four_steps MD5_G s x (9, 14, 3, 8) (S21, S22, S23, S24) (0x21e1cde6, 0xc33707d6, 0xf4d50d87, 0x455a14ed);
     s = four_steps MD5_G s x (13, 2, 7, 12) (S21, S22, S23, S24) (0xa9e3e905, 0xfcefa3f8, 0x676f02d9, 0x8d2a4c8a);
     s = four_steps MD5_H s x (5, 8, 11, 14) (S31, S32, S33, S34) (0xfffa3942, 0x8771f681, 0x6d9d6122, 0xfde5380c);
     s = four_steps MD5_H s x (1, 4, 7, 10) (S31, S32, S33, S34) (0xa4beea44, 0x4bdecfa9, 0xf6bb4b60, 0xbebfbc70);
     s = four_steps MD5_H s x (13, 0, 3, 6) (S31, S32, S33, S34) (0x289b7ec6, 0xeaa127fa, 0xd4ef3085, 0x4881d05);
     s = four_steps MD5_H s x (9, 12, 15, 2) (S31, S32, S33, S34) (0xd9d4d039, 0xe6db99e5, 0x1fa27cf8, 0xc4ac5665);
     s = four_steps MD5_I s x (0, 7, 14, 5) (S41, S42, S43, S44) (0xf4292244, 0x432aff97, 0xab9423a7, 0xfc93a039);
     s = four_steps MD5_I s x (12, 3, 10, 1) (S41, S42, S43, S44) (0x655b59c3, 0x8f0ccc92, 0xffeff47d, 0x85845dd1);
     s = four_steps MD5_I s x (8, 15, 6, 13) (S41, S42, S43, S44) (0x6fa87e4f, 0xfe2ce6e0, 0xa3014314, 0x4e0811a1);
     s = four_steps MD5_I s x (4, 11, 2, 9) (S41, S42, S43, S44) (0xf7537e82, 0xbd3af235, 0x2ad7d2bb, 0xeb86d391);
     (a, b, c, d) = s
     in st[0 := st ! 0 + a, 1 := st ! 1 + b, 2 := st ! 2 + c, 3 := st ! 3 + d]))"

text \<open>The loop \<open>for (i = partLen; i + 63 < inputLen; i += 64)\<close>, whose \<open>unsigned int\<close> sums wrap; the
  states and the value of \<open>i\<close> at the end.\<close>

partial_function (option) md5_update_loop :: "u32 list \<Rightarrow> bytes \<Rightarrow> nat \<Rightarrow> nat \<Rightarrow> (u32 list \<times> nat) option" where
  "md5_update_loop st input inputLen i =
     (if (i + 63) mod 2 ^ 32 < inputLen
      then do {
        st \<leftarrow> md5_transform st input i;
        md5_update_loop st input inputLen ((i + 64) mod 2 ^ 32) }
      else Some (st, i))"

declare md5_update_loop.simps [code]

definition md5_update :: "md5_ctx \<Rightarrow> bytes \<Rightarrow> u32 \<Rightarrow> md5_ctx option" where
  "md5_update context input len =
     (let inputLen = unat len;
          index = unat (shr (md5_count context ! 0) 3 AND 0x3F);
          count0 = md5_count context ! 0 + shl len 3;
          count1 = (if count0 < shl len 3 then md5_count context ! 1 + 1 else md5_count context ! 1);
          count1 = count1 + shr len 29;
          context = context\<lparr>md5_count := (md5_count context)[0 := count0, 1 := count1]\<rparr>;
          partLen = 64 - index
      in do {
        (context, index, i) \<leftarrow>
          (if partLen \<le> inputLen
           then do {
             buffer \<leftarrow> mem_copy (md5_buffer context) index input 0 partLen;
             st \<leftarrow> md5_transform (md5_state context) buffer 0;
             (st, i) \<leftarrow> md5_update_loop st input inputLen partLen;
             Some (context\<lparr>md5_buffer := buffer, md5_state := st\<rparr>, 0, i) }
           else Some (context, index, 0));
        buffer \<leftarrow> mem_copy (md5_buffer context) index input i (inputLen - i);
        Some (context\<lparr>md5_buffer := buffer\<rparr>) })"

text \<open>The context that is left and the sixteen bytes of the digest.\<close>

definition md5_final :: "md5_ctx \<Rightarrow> (md5_ctx \<times> bytes) option" where
  "md5_final context =
     (let bits = md5_encode (md5_count context) 8;
          index = unat (shr (md5_count context ! 0) 3 AND 0x3f);
          padLen = (if index < 56 then 56 - index else 120 - index)
      in do {
        context \<leftarrow> md5_update context PADDING (of_nat padLen);
        context \<leftarrow> md5_update context bits 8;
        Some (\<lparr>md5_state = replicate 4 0, md5_count = replicate 2 0, md5_buffer = replicate 64 0\<rparr>,
              md5_encode (md5_state context) 16) })"

section \<open>RFC 1321\<close>

definition rfc_K :: "u32 list" where
  "rfc_K =
  [0xd76aa478, 0xe8c7b756, 0x242070db, 0xc1bdceee, 0xf57c0faf, 0x4787c62a, 0xa8304613, 0xfd469501,
   0x698098d8, 0x8b44f7af, 0xffff5bb1, 0x895cd7be, 0x6b901122, 0xfd987193, 0xa679438e, 0x49b40821,
   0xf61e2562, 0xc040b340, 0x265e5a51, 0xe9b6c7aa, 0xd62f105d, 0x2441453, 0xd8a1e681, 0xe7d3fbc8,
   0x21e1cde6, 0xc33707d6, 0xf4d50d87, 0x455a14ed, 0xa9e3e905, 0xfcefa3f8, 0x676f02d9, 0x8d2a4c8a,
   0xfffa3942, 0x8771f681, 0x6d9d6122, 0xfde5380c, 0xa4beea44, 0x4bdecfa9, 0xf6bb4b60, 0xbebfbc70,
   0x289b7ec6, 0xeaa127fa, 0xd4ef3085, 0x4881d05, 0xd9d4d039, 0xe6db99e5, 0x1fa27cf8, 0xc4ac5665,
   0xf4292244, 0x432aff97, 0xab9423a7, 0xfc93a039, 0x655b59c3, 0x8f0ccc92, 0xffeff47d, 0x85845dd1,
   0x6fa87e4f, 0xfe2ce6e0, 0xa3014314, 0x4e0811a1, 0xf7537e82, 0xbd3af235, 0x2ad7d2bb, 0xeb86d391]"

definition rfc_shift :: "nat \<Rightarrow> nat" where
  "rfc_shift i = [[7, 12, 17, 22], [5, 9, 14, 20], [4, 11, 16, 23], [6, 10, 15, 21]] ! (i div 16) ! (i mod 4)"

definition rfc_index :: "nat \<Rightarrow> nat" where
  "rfc_index i = [i, 5 * i + 1, 3 * i + 5, 7 * i] ! (i div 16) mod 16"

definition rfc_function :: "nat \<Rightarrow> u32 \<Rightarrow> u32 \<Rightarrow> u32 \<Rightarrow> u32" where
  "rfc_function i x y z =
     [(x AND y) OR (NOT x AND z), (x AND z) OR (y AND NOT z), x XOR y XOR z, y XOR (x OR NOT z)] ! (i div 16)"

text \<open>One step: \<open>a\<close> becomes \<open>b + ((a + f b c d + X[k] + T[i]) <<< s)\<close>, and the roles of the four words
  move on.\<close>

definition rfc_step :: "u32 list \<Rightarrow> nat \<Rightarrow> quad \<Rightarrow> quad" where
  "rfc_step X i = (\<lambda>(a, b, c, d).
     (d, b + word_rotl (rfc_shift i) (a + rfc_function i b c d + X ! rfc_index i + rfc_K ! i), b, c))"

definition le_words :: "bytes \<Rightarrow> u32 list" where
  "le_words block = map (\<lambda>i. be_word (rev (take 4 (drop (4 * i) block)))) [0..<16]"

definition rfc_compress :: "u32 list \<Rightarrow> bytes \<Rightarrow> u32 list" where
  "rfc_compress st block =
     (case rounds (rfc_step (le_words block)) (st ! 0, st ! 1, st ! 2, st ! 3) 64
      of (a, b, c, d) \<Rightarrow> add_words st [a, b, c, d])"

definition rfc_H0 :: "u32 list" where
  "rfc_H0 = [0x67452301, 0xefcdab89, 0x98badcfe, 0x10325476]"

text \<open>The padded message; only the low 64 bits of the length are used.\<close>

definition rfc_padded :: "bytes \<Rightarrow> bytes" where
  "rfc_padded msg = msg @ 0x80 # replicate ((64 - (length msg + 1 + 8) mod 64) mod 64) 0
     @ rev (be_field 8 (8 * length msg mod 2 ^ 64))"

definition md5_digest :: "bytes \<Rightarrow> bytes" where
  "md5_digest msg = concat (map (\<lambda>w. rev (word_be w)) (hash_blocks rfc_compress 64 rfc_H0 (rfc_padded msg)))"

section \<open>The transformation is the compression function\<close>

lemma ROTATE_LEFT_rotl: "0 < n \<Longrightarrow> n < 32 \<Longrightarrow> ROTATE_LEFT x n = word_rotl n x"
  using word_rotl_shifts [of n x] by (simp add: ROTATE_LEFT_def)

lemma transform_step_rfc:
  assumes "0 < s" "s < 32"
  shows "transform_step f a b c d x s ac = b + word_rotl s (a + f b c d + x + ac)"
  using assms by (simp add: transform_step_def ROTATE_LEFT_rotl Let_def ac_simps)

lemma four_steps_rfc:
  assumes "\<forall>j < 4. f = rfc_function (i + j)" "\<forall>j < 4. 0 < rfc_shift (i + j) \<and> rfc_shift (i + j) < 32"
    and "k = (rfc_index i, rfc_index (i + 1), rfc_index (i + 2), rfc_index (i + 3))"
    and "sh = (rfc_shift i, rfc_shift (i + 1), rfc_shift (i + 2), rfc_shift (i + 3))"
    and "ac = (rfc_K ! i, rfc_K ! (i + 1), rfc_K ! (i + 2), rfc_K ! (i + 3))"
  shows "four_steps f (rounds (rfc_step X) s i) X k sh ac = rounds (rfc_step X) s (i + 4)"
proof -
  have "i + 4 = Suc (Suc (Suc (Suc i)))" by simp
  moreover have f: "rfc_function i = f" "rfc_function (Suc i) = f" "rfc_function (Suc (Suc i)) = f"
      "rfc_function (Suc (Suc (Suc i))) = f"
    using assms(1) [rule_format, of 0] assms(1) [rule_format, of 1] assms(1) [rule_format, of 2]
      assms(1) [rule_format, of 3] by (simp_all add: eval_nat_numeral)
  moreover have sh: "0 < rfc_shift i" "rfc_shift i < 32" "0 < rfc_shift (Suc i)" "rfc_shift (Suc i) < 32"
      "0 < rfc_shift (Suc (Suc i))" "rfc_shift (Suc (Suc i)) < 32"
      "0 < rfc_shift (Suc (Suc (Suc i)))" "rfc_shift (Suc (Suc (Suc i))) < 32"
    using assms(2) [rule_format, of 0] assms(2) [rule_format, of 1] assms(2) [rule_format, of 2]
      assms(2) [rule_format, of 3] by (simp_all add: eval_nat_numeral)
  ultimately show ?thesis
    unfolding assms(3-5)
    by (cases "rounds (rfc_step X) s i")
      (simp add: four_steps_def rfc_step_def transform_step_rfc eval_nat_numeral Let_def)
qed

lemma transform_groups:
  shows "four_steps MD5_F (rounds (rfc_step X) s 0) X (0, 1, 2, 3) (S11, S12, S13, S14) (0xd76aa478, 0xe8c7b756, 0x242070db, 0xc1bdceee) = rounds (rfc_step X) s 4"
    and "four_steps MD5_F (rounds (rfc_step X) s 4) X (4, 5, 6, 7) (S11, S12, S13, S14) (0xf57c0faf, 0x4787c62a, 0xa8304613, 0xfd469501) = rounds (rfc_step X) s 8"
    and "four_steps MD5_F (rounds (rfc_step X) s 8) X (8, 9, 10, 11) (S11, S12, S13, S14) (0x698098d8, 0x8b44f7af, 0xffff5bb1, 0x895cd7be) = rounds (rfc_step X) s 12"
    and "four_steps MD5_F (rounds (rfc_step X) s 12) X (12, 13, 14, 15) (S11, S12, S13, S14) (0x6b901122, 0xfd987193, 0xa679438e, 0x49b40821) = rounds (rfc_step X) s 16"
    and "four_steps MD5_G (rounds (rfc_step X) s 16) X (1, 6, 11, 0) (S21, S22, S23, S24) (0xf61e2562, 0xc040b340, 0x265e5a51, 0xe9b6c7aa) = rounds (rfc_step X) s 20"
    and "four_steps MD5_G (rounds (rfc_step X) s 20) X (5, 10, 15, 4) (S21, S22, S23, S24) (0xd62f105d, 0x2441453, 0xd8a1e681, 0xe7d3fbc8) = rounds (rfc_step X) s 24"
    and "four_steps MD5_G (rounds (rfc_step X) s 24) X (9, 14, 3, 8) (S21, S22, S23, S24) (0x21e1cde6, 0xc33707d6, 0xf4d50d87, 0x455a14ed) = rounds (rfc_step X) s 28"
    and "four_steps MD5_G (rounds (rfc_step X) s 28) X (13, 2, 7, 12) (S21, S22, S23, S24) (0xa9e3e905, 0xfcefa3f8, 0x676f02d9, 0x8d2a4c8a) = rounds (rfc_step X) s 32"
    and "four_steps MD5_H (rounds (rfc_step X) s 32) X (5, 8, 11, 14) (S31, S32, S33, S34) (0xfffa3942, 0x8771f681, 0x6d9d6122, 0xfde5380c) = rounds (rfc_step X) s 36"
    and "four_steps MD5_H (rounds (rfc_step X) s 36) X (1, 4, 7, 10) (S31, S32, S33, S34) (0xa4beea44, 0x4bdecfa9, 0xf6bb4b60, 0xbebfbc70) = rounds (rfc_step X) s 40"
    and "four_steps MD5_H (rounds (rfc_step X) s 40) X (13, 0, 3, 6) (S31, S32, S33, S34) (0x289b7ec6, 0xeaa127fa, 0xd4ef3085, 0x4881d05) = rounds (rfc_step X) s 44"
    and "four_steps MD5_H (rounds (rfc_step X) s 44) X (9, 12, 15, 2) (S31, S32, S33, S34) (0xd9d4d039, 0xe6db99e5, 0x1fa27cf8, 0xc4ac5665) = rounds (rfc_step X) s 48"
    and "four_steps MD5_I (rounds (rfc_step X) s 48) X (0, 7, 14, 5) (S41, S42, S43, S44) (0xf4292244, 0x432aff97, 0xab9423a7, 0xfc93a039) = rounds (rfc_step X) s 52"
    and "four_steps MD5_I (rounds (rfc_step X) s 52) X (12, 3, 10, 1) (S41, S42, S43, S44) (0x655b59c3, 0x8f0ccc92, 0xffeff47d, 0x85845dd1) = rounds (rfc_step X) s 56"
    and "four_steps MD5_I (rounds (rfc_step X) s 56) X (8, 15, 6, 13) (S41, S42, S43, S44) (0x6fa87e4f, 0xfe2ce6e0, 0xa3014314, 0x4e0811a1) = rounds (rfc_step X) s 60"
    and "four_steps MD5_I (rounds (rfc_step X) s 60) X (4, 11, 2, 9) (S41, S42, S43, S44) (0xf7537e82, 0xbd3af235, 0x2ad7d2bb, 0xeb86d391) = rounds (rfc_step X) s 64"
  by (rule four_steps_rfc [THEN trans];
      simp add: all_less_4 fun_eq_iff rfc_function_def MD5_F_def MD5_G_def MD5_H_def MD5_I_def rfc_shift_def
        rfc_index_def rfc_K_def)+

lemma md5_decode_le_words:
  assumes "off + 64 \<le> length block"
  shows "md5_decode block off 64 = le_words (take 64 (drop off block))"
proof -
  have "(let j = off + 4 * i in ucast (block ! j) OR shl (ucast (block ! (j + 1))) 8
      OR shl (ucast (block ! (j + 2))) 16 OR shl (ucast (block ! (j + 3))) 24)
    = (be_word (rev (take 4 (drop (4 * i) (take 64 (drop off block))))) :: u32)" if "i < 16" for i
  proof -
    have "take 4 (drop (4 * i) (take 64 (drop off block)))
        = map (\<lambda>k. take 64 (drop off block) ! (4 * i + k)) [0..<4]"
      using that assms by (intro take_drop_nths) simp
    also have "[0..<4] = [0, 1, 2, 3]" by (simp add: upt_rec)
    finally have "rev (take 4 (drop (4 * i) (take 64 (drop off block))))
        = [block ! (off + 4 * i + 3), block ! (off + 4 * i + 2), block ! (off + 4 * i + 1), block ! (off + 4 * i)]"
      using that assms by (simp add: add.assoc)
    then show ?thesis unfolding Let_def by (simp only: be_word_4 or.assoc or.commute or.left_commute)
  qed
  then show ?thesis unfolding md5_decode_def le_words_def by (intro map_cong) auto
qed

lemma add_words_4:
  "add_words h [a, b, c, d] = h[0 := h ! 0 + a, 1 := h ! 1 + b, 2 := h ! 2 + c, 3 := h ! 3 + d]"
  by (rule nth_equalityI) (auto simp: add_words_def nth_list_update nth_Cons' less_Suc_eq eval_nat_numeral)

lemma md5_transform_rfc:
  assumes "off + 64 \<le> length block"
  shows "md5_transform st block off = Some (rfc_compress st (take 64 (drop off block)))"
proof -
  define X where "X = md5_decode block off 64"
  have r0: "s = rounds (rfc_step X) s 0" for s by simp
  show ?thesis
    unfolding md5_transform_def rfc_compress_def md5_decode_le_words [OF assms, symmetric] X_def [symmetric] Let_def
    using assms by (subst r0, simp only: transform_groups) (simp add: add_words_4 split: prod.split)
qed

section \<open>Updates\<close>

lemma md5_update_loop_Some:
  assumes "inputLen \<le> length input" "inputLen + 63 < 2 ^ 32" "i \<le> inputLen"
  shows "\<exists>j. md5_update_loop st input inputLen i
      = Some (hash_blocks rfc_compress 64 st (take (j - i) (drop i input)), j)
    \<and> i \<le> j \<and> j \<le> inputLen \<and> inputLen - j < 64 \<and> (j - i) mod 64 = 0"
  using assms(3)
proof (induction "inputLen - i" arbitrary: i st rule: less_induct)
  case less
  have wrap: "(i + 63) mod 2 ^ 32 = i + 63" using assms(2) less.prems by simp
  show ?case
  proof (cases "i + 63 < inputLen")
    case True
    let ?b = "take 64 (drop i input)"
    have "inputLen - (i + 64) < inputLen - i" "i + 64 \<le> inputLen" using True by simp_all
    from less.hyps [OF this, of "rfc_compress st ?b"]
    obtain j where j: "md5_update_loop (rfc_compress st ?b) input inputLen (i + 64)
        = Some (hash_blocks rfc_compress 64 (rfc_compress st ?b) (take (j - (i + 64)) (drop (i + 64) input)), j)"
      "i + 64 \<le> j" "j \<le> inputLen" "inputLen - j < 64" "(j - (i + 64)) mod 64 = 0"
      by (elim exE conjE) (rule that)
    have step: "md5_update_loop st input inputLen i = md5_update_loop (rfc_compress st ?b) input inputLen (i + 64)"
    proof -
      have "(i + 64) mod 2 ^ 32 = i + 64" using True assms(2) by simp
      moreover have "md5_transform st input i = Some (rfc_compress st ?b)"
        using True assms(1) by (intro md5_transform_rfc) simp
      ultimately show ?thesis
        using True by (subst md5_update_loop.simps) (simp only: wrap if_True Option.bind.bind_lunit)
    qed
    have d: "j - i = (j - (i + 64)) + 64" using j(2) by simp
    then have "take (j - i) (drop i input) = ?b @ take (j - (i + 64)) (drop (i + 64) input)"
      using take_add [of 64 "j - (i + 64)" "drop i input"] by (simp only: add.commute [of _ 64] drop_drop)
    moreover have "length ?b = 64" using True assms(1) by simp
    then have "hash_blocks rfc_compress 64 st (?b @ ys) = hash_blocks rfc_compress 64 (rfc_compress st ?b) ys" for ys
      using hash_blocks_append [of 64 ?b rfc_compress st ys] by (simp add: hash_blocks_one)
    ultimately have "md5_update_loop st input inputLen i
        = Some (hash_blocks rfc_compress 64 st (take (j - i) (drop i input)), j)"
      using step j(1) by (simp only:)
    moreover have "(j - i) mod 64 = 0" using j(5) unfolding d by (simp only: mod_add_self2)
    moreover have "i \<le> j" using j(2) by simp
    ultimately show ?thesis using j(3,4) by (intro exI [of _ j]) blast
  next
    case False
    then have "md5_update_loop st input inputLen i = Some (st, i)"
      using wrap by (subst md5_update_loop.simps) simp
    then show ?thesis using False less.prems by (intro exI [of _ i]) simp
  qed
qed

text \<open>The context after the bytes \<open>msg\<close>.\<close>

definition md5_bits :: "md5_ctx \<Rightarrow> nat" where
  "md5_bits c = unat (md5_count c ! 1) * 2 ^ 32 + unat (md5_count c ! 0)"

definition md5_holds :: "md5_ctx \<Rightarrow> bytes \<Rightarrow> bool" where
  "md5_holds c msg \<longleftrightarrow> length (md5_buffer c) = 64 \<and> length (md5_count c) = 2 \<and>
     md5_bits c = 8 * length msg mod 2 ^ 64 \<and>
     (\<exists>front tail. msg = front @ tail \<and> length front mod 64 = 0 \<and> length tail < 64 \<and>
       take (length tail) (md5_buffer c) = tail \<and> md5_state c = hash_blocks rfc_compress 64 rfc_H0 front)"

lemma md5_holdsI:
  assumes "msg = front @ tail" "length front mod 64 = 0" "length tail < 64"
    and "take (length tail) (md5_buffer c) = tail" "md5_state c = hash_blocks rfc_compress 64 rfc_H0 front"
    and "length (md5_buffer c) = 64" "length (md5_count c) = 2" "md5_bits c = 8 * length msg mod 2 ^ 64"
  shows "md5_holds c msg"
  unfolding md5_holds_def
  by (intro conjI assms(6-8), rule exI [of _ front], rule exI [of _ tail], intro conjI assms(1-5))

lemma unat_and_3F: "unat (w AND 0x3F) = unat w mod 64" for w :: u32
proof -
  have "w AND 0x3F = take_bit 6 w" by (simp add: take_bit_eq_mask mask_eq_exp_minus_1)
  then have "unat (w AND 0x3F) = take_bit 6 (unat w)" by (simp only: unsigned_take_bit_eq)
  then have "unat (w AND 0x3F) = unat w mod 2 ^ 6" by (simp only: take_bit_eq_mod)
  then show ?thesis by simp
qed

text \<open>The index into the buffer is the length of the rest of the message.\<close>

lemma md5_index:
  assumes "md5_bits c = 8 * n mod 2 ^ 64"
  shows "unat (shr (md5_count c ! 0) 3 AND 0x3F) = n mod 64"
proof -
  have "unat (md5_count c ! 0) = md5_bits c mod 2 ^ 32"
    using unsigned_less [of "md5_count c ! 0", where ?'a = nat] by (simp add: md5_bits_def)
  also have "\<dots> = 8 * n mod 2 ^ 32" unfolding assms by (simp add: mod_mod_cancel)
  also have "\<dots> = 8 * (n mod 2 ^ 29)" using mult_mod_right [of 8 n "2 ^ 29"] by simp
  finally have "unat (md5_count c ! 0) div 2 ^ 3 = n mod 2 ^ 29" by simp
  then show ?thesis unfolding unat_and_3F unat_shr by (simp add: mod_mod_cancel)
qed

lemma md5_count_update:
  fixes c0 c1 len :: u32
  defines "d0 \<equiv> c0 + shl len 3"
  defines "d1 \<equiv> (if d0 < shl len 3 then c1 + 1 else c1) + shr len 29"
  shows "unat d1 * 2 ^ 32 + unat d0 = (unat c1 * 2 ^ 32 + unat c0 + 8 * unat len) mod 2 ^ 64"
proof -
  define M :: nat where "M = 2 ^ 32"
  define lo hi where "lo = 8 * unat len mod M" and "hi = 8 * unat len div M"
  have lo: "unat (shl len 3) = lo"
    unfolding unat_shl lo_def M_def by (simp add: mult.commute)
  have hi: "unat (shr len 29) = hi"
  proof -
    have "hi = 8 * unat len div (8 * 2 ^ 29)" by (simp add: hi_def M_def)
    also have "\<dots> = unat len div 2 ^ 29" by (rule div_mult_mult1) simp
    finally show ?thesis unfolding unat_shr ..
  qed
  define k where "k = (if d0 < shl len 3 then 1 else 0 :: nat)"
  have d0: "unat d0 + k * M = unat c0 + lo"
  proof -
    define x where "x = shl len 3"
    have e: "d0 = x + c0" by (simp only: d0_def x_def add.commute)
    have M: "(2::nat) ^ LENGTH(32) = M" by (simp add: M_def)
    show ?thesis
      using word_carry [of x c0, unfolded M] lo unfolding k_def x_def [symmetric] e
      by (cases "x + c0 < x") simp_all
  qed
  have "d1 = c1 + of_nat k + shr len 29" by (simp add: d1_def k_def)
  then have d1: "unat d1 = (unat c1 + k + hi) mod M"
    by (simp add: unat_word_ariths hi M_def k_def mod_simps unat_of_nat)
  have b: "unat d0 < M" unfolding M_def using unsigned_less [of d0, where ?'a = nat] by simp
  have "unat c1 * M + unat c0 + 8 * unat len = (unat c1 + k + hi) * M + unat d0"
  proof -
    have "8 * unat len = hi * M + lo" by (simp add: lo_def hi_def)
    then show ?thesis using d0 by (simp add: add_mult_distrib)
  qed
  also have "\<dots> mod (M * M) = (unat c1 + k + hi) mod M * M + unat d0"
    using b by (simp add: mod_mult2_eq mult.commute)
  finally show ?thesis using d1 by (simp add: M_def)
qed

lemma md5_update_holds:
  assumes h: "md5_holds c msg" and n: "unat len \<le> length input" "unat len + 63 < 2 ^ 32"
  shows "\<exists>c'. md5_update c input len = Some c' \<and> md5_holds c' (msg @ take (unat len) input)"
proof -
  define n where "n = unat len"
  obtain front tail where msg: "msg = front @ tail" "length front mod 64 = 0" "length tail < 64"
    and tail: "take (length tail) (md5_buffer c) = tail"
    and st: "md5_state c = hash_blocks rfc_compress 64 rfc_H0 front"
    and len: "length (md5_buffer c) = 64" "length (md5_count c) = 2" and bits: "md5_bits c = 8 * length msg mod 2 ^ 64"
    using h by (auto simp: md5_holds_def)
  have "length msg mod 64 = length tail" using msg by (simp add: mod_add_left_eq [symmetric])
  then have index: "unat (shr (md5_count c ! 0) 3 AND 0x3F) = length tail"
    using md5_index [OF bits] by simp
  define d0 d1 where "d0 = md5_count c ! 0 + shl len 3"
    and "d1 = (if d0 < shl len 3 then md5_count c ! 1 + 1 else md5_count c ! 1) + shr len 29"
  define c1 where "c1 = c\<lparr>md5_count := (md5_count c)[0 := d0, 1 := d1]\<rparr>"
  have bits1: "md5_bits c1 = 8 * length (msg @ take n input) mod 2 ^ 64"
  proof -
    have "md5_bits c1 = (md5_bits c + 8 * n) mod 2 ^ 64"
      using md5_count_update [where ?c1.0 = "md5_count c ! 1" and ?c0.0 = "md5_count c ! 0" and len = len] len(2)
      unfolding md5_bits_def c1_def d0_def d1_def n_def by simp
    also have "\<dots> = (8 * length msg + 8 * n) mod 2 ^ 64" unfolding bits by (rule mod_add_left_eq)
    also have "8 * length msg + 8 * n = 8 * length (msg @ take n input)" using n(1) by (simp add: n_def)
    finally show ?thesis .
  qed
  have upd: "md5_update c input len = do {
        (context, index, i) \<leftarrow>
          (if 64 - length tail \<le> n
           then do {
             buffer \<leftarrow> mem_copy (md5_buffer c1) (length tail) input 0 (64 - length tail);
             st \<leftarrow> md5_transform (md5_state c1) buffer 0;
             (st, i) \<leftarrow> md5_update_loop st input n (64 - length tail);
             Some (c1\<lparr>md5_buffer := buffer, md5_state := st\<rparr>, 0, i) }
           else Some (c1, length tail, 0));
        buffer \<leftarrow> mem_copy (md5_buffer context) index input i (n - i);
        Some (context\<lparr>md5_buffer := buffer\<rparr>) }"
    unfolding md5_update_def Let_def index n_def c1_def d0_def d1_def by (rule refl)
  show ?thesis
  proof (cases "64 - length tail \<le> n")
    case False
    let ?buf = "tail @ take n input @ drop (length tail + n) (md5_buffer c)"
    have "mem_copy (md5_buffer c1) (length tail) input 0 n = Some ?buf"
      using False n(1) len tail by (simp add: mem_copy_def c1_def n_def)
    then have "md5_update c input len = Some (c1\<lparr>md5_buffer := ?buf\<rparr>)"
      using False unfolding upd by simp
    moreover have "md5_holds (c1\<lparr>md5_buffer := ?buf\<rparr>) (msg @ take n input)"
    proof (rule md5_holdsI [of _ front "tail @ take n input"])
      show "md5_bits (c1\<lparr>md5_buffer := ?buf\<rparr>) = 8 * length (msg @ take n input) mod 2 ^ 64"
        using bits1 by (simp add: md5_bits_def)
    qed (use False n(1) msg st len in \<open>simp_all add: c1_def n_def\<close>)
    ultimately show ?thesis by (simp add: n_def)
  next
    case True
    define k where "k = 64 - length tail"
    let ?first = "tail @ take k input"
    have k: "k \<le> n" "k \<le> length input" "length tail + k = 64" using True n(1) msg(3) by (auto simp: k_def n_def)
    have first: "length ?first = 64" using k by simp
    have buf: "mem_copy (md5_buffer c1) (length tail) input 0 k = Some ?first"
      using k len tail by (simp add: mem_copy_def c1_def)
    have tr: "md5_transform (md5_state c1) ?first 0 = Some (rfc_compress (md5_state c) ?first)"
    proof -
      have "take 64 (drop 0 ?first) = ?first" using first by (simp only: drop_0 take_all le_refl)
      moreover have "md5_state c1 = md5_state c" by (simp add: c1_def)
      ultimately show ?thesis using md5_transform_rfc [of 0 ?first "md5_state c1"] first by (simp only: add_0 le_refl)
    qed
    obtain j where j: "md5_update_loop (rfc_compress (md5_state c) ?first) input n k
        = Some (hash_blocks rfc_compress 64 (rfc_compress (md5_state c) ?first) (take (j - k) (drop k input)), j)"
      "k \<le> j" "j \<le> n" "n - j < 64" "(j - k) mod 64 = 0"
      using md5_update_loop_Some [OF n [folded n_def] k(1), of "rfc_compress (md5_state c) ?first"]
      by (elim exE conjE) (rule that)
    let ?front = "front @ ?first @ take (j - k) (drop k input)" and ?tail = "take (n - j) (drop j input)"
    let ?buf = "?tail @ drop (n - j) ?first"
    have hash: "hash_blocks rfc_compress 64 (rfc_compress (md5_state c) ?first) (take (j - k) (drop k input))
        = hash_blocks rfc_compress 64 rfc_H0 ?front"
      unfolding st by (rule hash_blocks_block [OF _ msg(2) first, symmetric]) simp
    have "mem_copy ?first 0 input j (n - j) = Some ?buf"
      using j n(1) first by (simp add: mem_copy_def n_def)
    then have "md5_update c input len = Some (c1\<lparr>md5_buffer := ?buf,
        md5_state := hash_blocks rfc_compress 64 rfc_H0 ?front\<rparr>)"
      using True buf tr j(1) hash unfolding upd k_def [symmetric] by simp
    moreover have "md5_holds (c1\<lparr>md5_buffer := ?buf, md5_state := hash_blocks rfc_compress 64 rfc_H0 ?front\<rparr>)
        (msg @ take n input)"
    proof (rule md5_holdsI [of _ ?front ?tail])
      have "take n input = take j input @ take (n - j) (drop j input)"
        using take_add [of j "n - j" input] j(3) by simp
      also have "take j input = take k input @ take (j - k) (drop k input)"
        using take_add [of k "j - k" input] j(2) by simp
      finally show "msg @ take n input = ?front @ ?tail" using msg(1) by (simp only: append_assoc)
      have "length ?front = length front + 64 + (j - k)" using first j n(1) by (simp add: n_def)
      moreover have "64 dvd length front + 64 + (j - k)"
        using msg(2) j(5) unfolding mod_eq_0_iff_dvd by (intro dvd_add) simp_all
      ultimately show "length ?front mod 64 = 0" by (simp only: mod_eq_0_iff_dvd)
      show "md5_bits (c1\<lparr>md5_buffer := ?buf, md5_state := hash_blocks rfc_compress 64 rfc_H0 ?front\<rparr>)
          = 8 * length (msg @ take n input) mod 2 ^ 64"
        using bits1 by (simp add: md5_bits_def)
      have "length ?tail = n - j" using n(1) j(3) by (simp add: n_def)
      then show "length ?tail < 64"
        "take (length ?tail) (md5_buffer (c1\<lparr>md5_buffer := ?buf, md5_state := hash_blocks rfc_compress 64 rfc_H0 ?front\<rparr>)) = ?tail"
        "length (md5_buffer (c1\<lparr>md5_buffer := ?buf, md5_state := hash_blocks rfc_compress 64 rfc_H0 ?front\<rparr>)) = 64"
        using j(4) first by (simp_all del: length_take length_append add: length_append)
    qed (use len in \<open>simp_all add: c1_def\<close>)
    ultimately show ?thesis by (simp add: n_def)
  qed
qed

section \<open>Finalisation\<close>

lemma md5_encode_rev: "length ws = n \<Longrightarrow> md5_encode ws (4 * n) = concat (map (\<lambda>w. rev (word_be w)) ws)"
proof -
  assume n: "length ws = n"
  have "[ucast (w AND 0xff), ucast (shr w 8 AND 0xff), ucast (shr w 16 AND 0xff), ucast (shr w 24 AND 0xff)]
      = rev (word_be w)" for w :: u32
    unfolding word_be_32 by (auto intro!: bit_word_eqI simp: bit_simps bitwise_eqs)
  then have "md5_encode ws (4 * n) = concat (map (\<lambda>i. rev (word_be (ws ! i))) [0..<n])"
    by (simp add: md5_encode_def)
  also have "map (\<lambda>i. rev (word_be (ws ! i))) [0..<n] = map (\<lambda>w. rev (word_be w)) ws"
    using n by (intro nth_equalityI) simp_all
  finally show ?thesis .
qed

lemma pad_length:
  "(if n mod 64 < 56 then 56 - n mod 64 else 120 - n mod 64) = Suc ((64 - (n + 1 + 8) mod 64) mod 64)" (is "?p = _")
proof -
  define r where "r = n mod 64"
  have r: "r < 64" by (simp add: r_def)
  have "(n + 1 + 8) mod 64 = (r + 9) mod 64" by (simp add: r_def mod_simps add.commute)
  also have "\<dots> = (if r < 55 then r + 9 else r + 9 - 64)" using r by (auto simp: mod_if)
  finally show ?thesis using r by (auto simp: r_def [symmetric])
qed

lemma rfc_padded_whole: "length (rfc_padded msg) mod 64 = 0"
  using padded_whole_blocks [of 64 8 "0x80" 0 msg] by (simp add: rfc_padded_def padded_def)

lemma md5_holds_whole:
  assumes "md5_holds c msg" "length msg mod 64 = 0"
  shows "md5_state c = hash_blocks rfc_compress 64 rfc_H0 msg"
proof -
  obtain front tail where t: "msg = front @ tail" "length front mod 64 = 0" "length tail < 64"
    "md5_state c = hash_blocks rfc_compress 64 rfc_H0 front"
    using assms(1) by (auto simp: md5_holds_def)
  then show ?thesis by (simp add: hash_blocks_tail)
qed

lemma length_rfc_compress: "length (rfc_compress st block) = length st"
  by (simp add: rfc_compress_def split: prod.split)

lemma length_rfc_blocks: "length (hash_blocks rfc_compress n rfc_H0 msg) = 4"
  using length_hash_blocks [of rfc_compress n rfc_H0 msg] by (simp add: length_rfc_compress rfc_H0_def)

lemma md5_count_bytes:
  assumes "length (md5_count c) = 2"
  shows "md5_encode (md5_count c) 8 = rev (be_field 8 (md5_bits c))"
proof -
  obtain c0 c1 where c: "md5_count c = [c0, c1]" using assms by (auto simp: length_Suc_conv eval_nat_numeral)
  have "md5_encode (md5_count c) (4 * 2) = rev (word_be c1 @ word_be c0)"
    using md5_encode_rev [OF assms] by (simp add: c)
  then show ?thesis using word_be_pair [of c1 c0] by (simp add: md5_bits_def c)
qed

lemma md5_final_holds:
  assumes "md5_holds c msg"
  shows "\<exists>c'. md5_final c = Some (c', md5_digest msg)"
proof -
  define z where "z = (64 - (length msg + 1 + 8) mod 64) mod 64"
  have z: "z < 64" by (simp add: z_def)
  have bits: "md5_bits c = 8 * length msg mod 2 ^ 64" and len: "length (md5_count c) = 2"
    using assms by (auto simp: md5_holds_def)
  have pad: "(if unat (shr (md5_count c ! 0) 3 AND 0x3f) < 56 then 56 - unat (shr (md5_count c ! 0) 3 AND 0x3f)
      else 120 - unat (shr (md5_count c ! 0) 3 AND 0x3f)) = Suc z"
    unfolding md5_index [OF bits] z_def by (rule pad_length)
  have u: "unat (of_nat (Suc z) :: u32) = Suc z"
    using z unat_of_nat [of "Suc z", where ?'a = 32] by (simp del: of_nat_Suc)
  have take: "take (Suc z) PADDING = 0x80 # replicate z 0" using z by (simp add: PADDING_def)
  obtain c1 where c1: "md5_update c PADDING (of_nat (Suc z)) = Some c1" "md5_holds c1 (msg @ 0x80 # replicate z 0)"
    using md5_update_holds [OF assms, of "of_nat (Suc z)" PADDING] z unfolding u take
    by (auto simp: PADDING_def)
  obtain c2 where c2: "md5_update c1 (md5_encode (md5_count c) 8) 8 = Some c2" "md5_holds c2 (rfc_padded msg)"
    using md5_update_holds [OF c1(2), of 8 "md5_encode (md5_count c) 8"] md5_count_bytes [OF len]
    by (auto simp: rfc_padded_def z_def bits)
  have "md5_encode (md5_state c2) 16 = md5_digest msg"
    using md5_encode_rev [of "md5_state c2" 4] length_rfc_blocks
    by (simp add: md5_holds_whole [OF c2(2) rfc_padded_whole] md5_digest_def)
  then show ?thesis
    using c1(1) c2(1) unfolding md5_final_def Let_def pad by simp
qed

text \<open>The bound on the length of one update is needed: the sum \<open>i + 63\<close> of the loop wraps for the
  largest inputs, and the loop reads past them.\<close>

lemma md5_update_loop_wraps:
  assumes "length input = 2 ^ 32 - 1"
  shows "md5_update_loop st input (2 ^ 32 - 1) (2 ^ 32 - 63) = None"
  using assms by (subst md5_update_loop.simps) (simp add: md5_transform_def)

section \<open>Properties\<close>

text \<open>A client that makes one update for each piece of a message.\<close>

primrec md5_feed :: "md5_ctx \<Rightarrow> bytes list \<Rightarrow> md5_ctx option" where
  "md5_feed c [] = Some c" |
  "md5_feed c (m # ms) = do { c \<leftarrow> md5_update c m (of_nat (length m)); md5_feed c ms }"

lemma md5_feed_holds:
  assumes "md5_holds c msg" "\<forall>m \<in> set ms. length m + 63 < 2 ^ 32"
  shows "\<exists>c'. md5_feed c ms = Some c' \<and> md5_holds c' (msg @ concat ms)"
  using assms
proof (induction ms arbitrary: c msg)
  case (Cons m ms)
  have u: "unat (of_nat (length m) :: u32) = length m"
    using Cons.prems(2) by (simp add: unat_of_nat)
  obtain c1 where "md5_update c m (of_nat (length m)) = Some c1" "md5_holds c1 (msg @ m)"
    using md5_update_holds [OF Cons.prems(1), of "of_nat (length m)" m] Cons.prems(2) unfolding u by auto
  then show ?case using Cons.IH [of c1 "msg @ m"] Cons.prems(2) by auto
qed simp

text \<open>C15: Initialising any context, updating it with the pieces of a message (each of fewer than
  \<open>2 ^ 32 - 63\<close> bytes, in any number) and finalising it yields the MD5 digest of RFC 1321 of the whole
  message; every step returns.\<close>

theorem md5_correct:
  assumes "length (md5_state c) = 4" "length (md5_count c) = 2" "length (md5_buffer c) = 64"
    and "\<forall>m \<in> set pieces. length m + 63 < 2 ^ 32"
  shows "\<exists>c1 c2. md5_feed (md5_init c) pieces = Some c1 \<and> md5_final c1 = Some (c2, md5_digest (concat pieces))"
proof -
  obtain a0 a1 a2 a3 c0 c1 where "md5_state c = [a0, a1, a2, a3]" "md5_count c = [c0, c1]"
    using assms(1,2) by (auto simp: length_Suc_conv eval_nat_numeral)
  then have "md5_holds (md5_init c) []"
    using assms(3) by (intro md5_holdsI [of _ "[]" "[]"]) (simp_all add: md5_init_def rfc_H0_def md5_bits_def)
  then obtain c1 where "md5_feed (md5_init c) pieces = Some c1" "md5_holds c1 (concat pieces)"
    using md5_feed_holds [of "md5_init c" "[]" pieces] assms(4) by auto
  then show ?thesis using md5_final_holds [of c1 "concat pieces"] by blast
qed

theorem md5_correct_witness:
  "\<exists>c1 c2. md5_feed (md5_init \<lparr>md5_state = [1, 2, 3, 4], md5_count = [5, 6], md5_buffer = replicate 64 7\<rparr>)
      [[0x61], replicate 200 0x62, []] = Some c1 \<and>
    md5_final c1 = Some (c2, md5_digest (0x61 # replicate 200 0x62))"
  using md5_correct [of "\<lparr>md5_state = [1, 2, 3, 4], md5_count = [5, 6], md5_buffer = replicate 64 7\<rparr>"
      "[[0x61], replicate 200 0x62, []]"] by simp

end
