(* ===== verification/Gf256.thy ===== *)
theory Gf256
  imports Prelude
begin

text \<open>
  The field with 256 elements that AES computes in, as FIPS 197 defines it on bytes: \<open>xt\<close> is the
  multiplication by the polynomial \<open>x\<close> modulo \<open>x ^ 8 + x ^ 4 + x ^ 3 + x + 1\<close>, \<open>gmul\<close> the
  multiplication.  The generator \<open>3\<close> runs through all non-zero elements, which is why the logarithm
  tables of \<open>src/aes/aes.c\<close> multiply.
\<close>

section \<open>Multiplication\<close>

lemma funpow_numeral: "(f ^^ numeral n) x = f ((f ^^ pred_numeral n) x)"
  by (simp add: numeral_eq_Suc)

definition xt :: "u8 \<Rightarrow> u8" where
  "xt x = shl x 1 XOR (if bit x 7 then 0x1B else 0)"

definition gterm :: "u8 \<Rightarrow> u8 \<Rightarrow> nat \<Rightarrow> u8" where
  "gterm a b k = (if bit a k then (xt ^^ k) b else 0)"

definition gmul :: "u8 \<Rightarrow> u8 \<Rightarrow> u8" where
  "gmul a b = gterm a b 0 XOR gterm a b 1 XOR gterm a b 2 XOR gterm a b 3
    XOR gterm a b 4 XOR gterm a b 5 XOR gterm a b 6 XOR gterm a b 7"

lemma bit_xt [simp]:
  "bit (xt x) 0 = bit x 7"
  "bit (xt x) (Suc 0) = (bit x 0 \<noteq> bit x 7)"
  "bit (xt x) 2 = bit x 1"
  "bit (xt x) 3 = (bit x 2 \<noteq> bit x 7)"
  "bit (xt x) 4 = (bit x 3 \<noteq> bit x 7)"
  "bit (xt x) 5 = bit x 4"
  "bit (xt x) 6 = bit x 5"
  "bit (xt x) 7 = bit x 6"
  by (simp_all add: xt_def bit_simps bit_mult_2_right numeral_eq_Suc)

lemma xt_0 [simp]: "xt 0 = 0"
  by (simp add: xt_def)

lemma xt_xor [simp]: "xt (x XOR y) = xt x XOR xt y"
  by (simp add: u8_eq_iff all_less_8 bit_xor_iff) blast

lemma xt_pow_xor [simp]: "(xt ^^ k) (x XOR y) = (xt ^^ k) x XOR (xt ^^ k) y"
  by (induction k) simp_all

lemma xt_pow_0 [simp]: "(xt ^^ k) 0 = 0"
  by (induction k) simp_all

text \<open>The reduction: \<open>x ^ 8\<close> is \<open>x ^ 4 + x ^ 3 + x + 1\<close>.\<close>

lemma xt_8: "xt (xt (xt (xt (xt (xt (xt (xt b))))))) = b XOR xt b XOR xt (xt (xt b)) XOR xt (xt (xt (xt b)))"
  by (simp add: u8_eq_iff all_less_8 bit_xor_iff) argo

lemma gterm_xor_right [simp]: "gterm a (x XOR y) k = gterm a x k XOR gterm a y k"
  by (simp add: gterm_def)

lemma gmul_xor_right: "gmul a (x XOR y) = gmul a x XOR gmul a y"
  by (simp add: gmul_def ac_simps)

lemma gterm_xor_left: "gterm (a XOR b) x k = gterm a x k XOR gterm b x k"
  by (auto simp: gterm_def bit_xor_iff)

lemma gmul_xor_left: "gmul (a XOR b) x = gmul a x XOR gmul b x"
  by (simp add: gmul_def gterm_xor_left ac_simps)

lemma gmul_0 [simp]: "gmul 0 x = 0" "gmul a 0 = 0"
  by (simp_all add: gmul_def gterm_def)

lemma gmul_1 [simp]: "gmul 1 x = x"
  by (simp add: gmul_def gterm_def bit_1_iff)

text \<open>Shifting \<open>a\<close> moves every term up by one; the top term is reduced.\<close>

lemma gterm_xt:
  "gterm (xt a) x 0 = (if bit a 7 then x else 0)"
  "gterm (xt a) x 1 = xt (gterm a x 0) XOR (if bit a 7 then xt x else 0)"
  "gterm (xt a) x 2 = xt (gterm a x 1)"
  "gterm (xt a) x 3 = xt (gterm a x 2) XOR (if bit a 7 then xt (xt (xt x)) else 0)"
  "gterm (xt a) x 4 = xt (gterm a x 3) XOR (if bit a 7 then xt (xt (xt (xt x))) else 0)"
  "gterm (xt a) x 5 = xt (gterm a x 4)"
  "gterm (xt a) x 6 = xt (gterm a x 5)"
  "gterm (xt a) x 7 = xt (gterm a x 6)"
  by (auto simp: gterm_def funpow_numeral)

lemma xt_gterm_7:
  "xt (gterm a x 7) = (if bit a 7 then x XOR xt x XOR xt (xt (xt x)) XOR xt (xt (xt (xt x))) else 0)"
  by (simp add: gterm_def xt_8 [symmetric] funpow_numeral)

lemma gmul_xt_left: "gmul (xt a) x = xt (gmul a x)"
  unfolding gmul_def gterm_xt xt_xor xt_gterm_7
  by (cases "bit a 7") (simp_all only: if_True if_False xor.right_neutral xor.left_neutral ac_simps)

section \<open>The generator\<close>

definition gstep :: "u8 \<Rightarrow> u8" where
  "gstep x = x XOR xt x"

definition gpow :: "nat \<Rightarrow> u8" where
  "gpow i = (gstep ^^ i) 1"

lemma gmul_gstep_left: "gmul (gstep a) x = gstep (gmul a x)"
  by (simp add: gstep_def gmul_xor_left gmul_xt_left)

lemma gmul_gpow_left: "gmul (gpow i) x = (gstep ^^ i) x"
  by (induction i) (simp_all add: gpow_def gmul_gstep_left)

lemma gpow_0 [simp]: "gpow 0 = 1"
  by (simp add: gpow_def)

lemma gpow_Suc: "gpow (Suc i) = gstep (gpow i)"
  by (simp add: gpow_def)

lemma gmul_gpow: "gmul (gpow i) (gpow j) = gpow (i + j)"
  by (simp add: gmul_gpow_left) (simp add: gpow_def funpow_add)

text \<open>The powers of the generator do not return to \<open>1\<close> before the 255th.\<close>

primrec avoids :: "nat \<Rightarrow> u8 \<Rightarrow> bool" where
  "avoids 0 x \<longleftrightarrow> gstep x = 1" |
  "avoids (Suc n) x \<longleftrightarrow> gstep x \<noteq> 1 \<and> avoids n (gstep x)"

lemma avoids_numeral [simp]: "avoids (numeral n) x \<longleftrightarrow> gstep x \<noteq> 1 \<and> avoids (pred_numeral n) (gstep x)"
  by (simp add: numeral_eq_Suc)

lemma avoids_254: "avoids 254 1"
  by (simp add: gstep_def xt_def)

lemma avoidsD:
  assumes "avoids n (gpow j)"
  shows "gpow (j + Suc n) = 1" and "0 < k \<Longrightarrow> k \<le> n \<Longrightarrow> gpow (j + k) \<noteq> 1"
proof -
  have "gpow (j + Suc n) = 1 \<and> (\<forall>k. 0 < k \<longrightarrow> k \<le> n \<longrightarrow> gpow (j + k) \<noteq> 1)"
    using assms
  proof (induction n arbitrary: j)
    case (Suc n)
    then have "avoids n (gpow (Suc j))" and first: "gpow (Suc j) \<noteq> 1"
      by (simp_all add: gpow_Suc)
    then have IH: "gpow (Suc j + Suc n) = 1" "\<And>k. 0 < k \<Longrightarrow> k \<le> n \<Longrightarrow> gpow (Suc j + k) \<noteq> 1"
      using Suc.IH by blast+
    have "gpow (j + k) \<noteq> 1" if "0 < k" "k \<le> Suc n" for k
      using first IH(2) [of "k - 1"] that by (cases "k = 1") auto
    then show ?case using IH(1) by simp
  qed (simp add: gpow_Suc)
  then show "gpow (j + Suc n) = 1" and "0 < k \<Longrightarrow> k \<le> n \<Longrightarrow> gpow (j + k) \<noteq> 1" by blast+
qed

lemma avoids_gpow_0: "avoids 254 (gpow 0)"
  unfolding gpow_0 by (rule avoids_254)

lemma gpow_255 [simp]: "gpow 255 = 1"
  using avoidsD(1) [OF avoids_gpow_0] by simp

lemma gpow_neq_1: "0 < k \<Longrightarrow> k < 255 \<Longrightarrow> gpow k \<noteq> 1"
  using avoidsD(2) [OF avoids_gpow_0, of k] by simp

lemma gpow_add_255 [simp]: "gpow (i + 255) = gpow i"
  using gmul_gpow [of 255 i] by (simp add: add.commute)

lemma gpow_add_mult [simp]: "gpow (i + 255 * k) = gpow i"
proof (induction k)
  case (Suc k)
  have "gpow (i + 255 * Suc k) = gpow (i + 255 * k + 255)" by (simp add: ac_simps)
  with Suc show ?case by (simp only: gpow_add_255)
qed simp

lemma gpow_mod: "gpow (i mod 255) = gpow i"
  using gpow_add_mult [of "i mod 255" "i div 255"] by simp

lemma funpow_cycle_inj: "(\<And>z. (f ^^ Suc n) z = z) \<Longrightarrow> f x = f y \<Longrightarrow> x = y"
  by (metis funpow_Suc_right comp_apply)

lemma gstep_inj: "gstep x = gstep y \<Longrightarrow> x = y"
proof (rule funpow_cycle_inj)
  show "(gstep ^^ Suc 254) z = z" for z
    using gmul_gpow_left [of "Suc 254" z] by (simp del: funpow.simps)
qed

lemma gpow_add_cancel: "gpow (i + k) = gpow i \<Longrightarrow> gpow k = 1"
proof (induction i)
  case (Suc i)
  then have "gstep (gpow (i + k)) = gstep (gpow i)" by (simp add: gpow_Suc)
  then show ?case by (rule Suc.IH [OF gstep_inj])
qed simp

lemma gpow_inj:
  assumes "gpow i = gpow j" "0 < i" "i \<le> 255" "0 < j" "j \<le> 255"
  shows "i = j"
proof -
  have "\<not> a < b" if "gpow a = gpow b" "0 < a" "b \<le> 255" for a b
    using gpow_add_cancel [of a "b - a"] gpow_neq_1 [of "b - a"] that by (cases "a < b") auto
  from this [of i j] this [of j i] assms show ?thesis by (metis linorder_neqE_nat)
qed

lemma gpow_nonzero: "gpow i \<noteq> 0"
proof
  assume "gpow i = 0"
  then have "gpow (i + k) = 0" for k using gmul_gpow [of i k] by simp
  from this [of "255 * i - i"] have "gpow (255 * i) = 0" by simp
  then show False using gpow_mod [of "255 * i"] by simp
qed

text \<open>Every non-zero element is a power of the generator.\<close>

lemma gpow_surj:
  assumes "x \<noteq> 0" obtains i where "0 < i" "i \<le> 255" "x = gpow i"
proof -
  let ?I = "{1..255::nat}"
  have "inj_on gpow ?I" by (rule inj_onI) (use gpow_inj in auto)
  then have "card (gpow ` ?I) = 255" by (simp add: card_image)
  moreover have "gpow ` ?I \<subseteq> UNIV - {0}" using gpow_nonzero by auto
  moreover have "card (UNIV - {0 :: u8}) = 255" by (simp add: card_Diff_subset card_word)
  ultimately have "gpow ` ?I = UNIV - {0}" by (intro card_subset_eq) auto
  with assms obtain i where "i \<in> ?I" "x = gpow i" by blast
  with that [of i] show ?thesis by simp
qed

lemma gmul_commute: "gmul a b = gmul b a"
proof (cases "a = 0 \<or> b = 0")
  case False
  then obtain i j where "a = gpow i" "b = gpow j" using gpow_surj by metis
  then show ?thesis by (simp add: gmul_gpow add.commute)
qed auto

lemma gmul_assoc: "gmul (gmul a b) c = gmul a (gmul b c)"
proof (cases "a = 0 \<or> b = 0 \<or> c = 0")
  case False
  then obtain i j k where "a = gpow i" "b = gpow j" "c = gpow k" using gpow_surj by metis
  then show ?thesis by (simp add: gmul_gpow add.assoc)
qed auto

section \<open>Inverses and the S-box\<close>

definition ginv :: "u8 \<Rightarrow> u8" where
  "ginv x = (gmul x ^^ 254) 1"

lemma gmul_gpow_funpow: "(gmul (gpow i) ^^ n) 1 = gpow (i * n)"
  by (induction n) (simp_all add: gmul_gpow)

lemma ginv_gpow: "ginv (gpow i) = gpow (i * 254)"
  unfolding ginv_def by (rule gmul_gpow_funpow)

lemma gmul_ginv: "x \<noteq> 0 \<Longrightarrow> gmul x (ginv x) = 1"
proof -
  assume "x \<noteq> 0"
  then obtain i where x: "x = gpow i" by (rule gpow_surj)
  have "gmul x (ginv x) = gpow (0 + 255 * i)"
    unfolding x ginv_gpow gmul_gpow by (rule arg_cong [where f = gpow]) simp
  then show ?thesis by (simp only: gpow_add_mult gpow_0)
qed

lemma ginv_unique: "gmul x y = 1 \<Longrightarrow> ginv x = y"
proof -
  assume 1: "gmul x y = 1"
  then have "x \<noteq> 0" by auto
  have "ginv x = gmul (gmul x y) (ginv x)" using 1 by simp
  also have "\<dots> = gmul (gmul x (ginv x)) y" by (simp add: gmul_assoc gmul_commute [of y])
  also have "\<dots> = y" using gmul_ginv [OF \<open>x \<noteq> 0\<close>] by simp
  finally show ?thesis .
qed

lemma ginv_0: "ginv 0 = 0"
proof -
  have "(gmul 0 ^^ Suc n) 1 = 0" for n by simp
  from this [of 253] show ?thesis unfolding ginv_def by (simp only: Suc_numeral semiring_norm)
qed

lemma ginv_inj: "ginv x = ginv y \<Longrightarrow> x = y"
proof (cases "x = 0 \<or> y = 0")
  case True
  then show "ginv x = ginv y \<Longrightarrow> ?thesis"
    by (metis gmul_ginv ginv_0 gmul_0(2) zero_neq_one)
next
  case False
  assume "ginv x = ginv y"
  then have "gmul (ginv x) x = 1" "gmul (ginv x) y = 1"
    using gmul_ginv [of x] gmul_ginv [of y] False by (simp_all add: gmul_commute)
  then show ?thesis using ginv_unique by metis
qed

text \<open>The affine transformation of FIPS 197, and its inverse.\<close>

definition affine :: "u8 \<Rightarrow> u8" where
  "affine b = b XOR word_rotl 1 b XOR word_rotl 2 b XOR word_rotl 3 b XOR word_rotl 4 b XOR 0x63"

definition affine_inv :: "u8 \<Rightarrow> u8" where
  "affine_inv b = word_rotl 1 b XOR word_rotl 3 b XOR word_rotl 6 b XOR 0x05"

definition sbox :: "u8 \<Rightarrow> u8" where
  "sbox x = affine (ginv x)"

lemma affine_inv_affine: "affine_inv (affine b) = b"
  unfolding affine_inv_def affine_def
  by (simp add: u8_eq_iff all_less_8 bit_xor_iff bit_word_rotl_iff nat_bits) argo

lemma sbox_inj: "sbox x = sbox y \<Longrightarrow> x = y"
  unfolding sbox_def by (metis affine_inv_affine ginv_inj)

lemma sbox_0: "sbox 0 = 0x63"
  by (simp add: sbox_def ginv_0 affine_def)

end
