(* ===== verification/Aes_Tables.thy ===== *)
theory Aes_Tables
  imports Gf256
begin

text \<open>
  The lookup tables of \<open>src/aes/aes.c\<close> and \<open>aes_gen_tables\<close>, which fills them.  The tables are the
  static arrays of the file, held in the record \<open>aes_tables\<close>; the arrays \<open>pow\<close> and \<open>log\<close> are on the
  stack of \<open>aes_gen_tables\<close>, so that their first contents are arguments.  An \<open>unsigned long\<close> has 64
  bits; the \<open>int\<close> variables of the function stay below \<open>512\<close> and are integers here.

  The lemmas show what the tables hold: the S-box of FIPS 197 and its inverse, and the products of
  its values with the coefficients of MixColumns.
\<close>

section \<open>The tables\<close>

record aes_tables =
  FSb :: bytes
  FT0 :: "u64 list"
  FT1 :: "u64 list"
  FT2 :: "u64 list"
  FT3 :: "u64 list"
  RSb :: bytes
  RT0 :: "u64 list"
  RT1 :: "u64 list"
  RT2 :: "u64 list"
  RT3 :: "u64 list"
  RCON :: "u64 list"
  aes_init_done :: int

text \<open>Static storage starts with zeros.\<close>

definition aes_static :: aes_tables where
  "aes_static = \<lparr>FSb = replicate 256 0,
     FT0 = replicate 256 0, FT1 = replicate 256 0, FT2 = replicate 256 0, FT3 = replicate 256 0,
     RSb = replicate 256 0,
     RT0 = replicate 256 0, RT1 = replicate 256 0, RT2 = replicate 256 0, RT3 = replicate 256 0,
     RCON = replicate 10 0, aes_init_done = 0\<rparr>"

section \<open>Generation\<close>

definition ROTL8 :: "u64 \<Rightarrow> u64" where
  "ROTL8 x = (shl x 8 AND 0xFFFFFFFF) OR shr x 24"

definition XTIME :: "int \<Rightarrow> int" where
  "XTIME x = push_bit 1 x XOR (if x AND 0x80 \<noteq> 0 then 0x1B else 0x00)"

definition MUL :: "int list \<Rightarrow> int list \<Rightarrow> int \<Rightarrow> int \<Rightarrow> int" where
  "MUL pow log x y = (if x \<noteq> 0 \<and> y \<noteq> 0 then pow ! nat ((log ! nat x + log ! nat y) mod 255) else 0)"

text \<open>The loops run over \<open>i\<close>; their last argument is the number of turns left.\<close>

primrec pow_log_loop :: "nat \<Rightarrow> int \<Rightarrow> int list \<Rightarrow> int list \<Rightarrow> nat \<Rightarrow> int list \<times> int list" where
  "pow_log_loop i x pow log 0 = (pow, log)" |
  "pow_log_loop i x pow log (Suc n) =
     pow_log_loop (i + 1) ((x XOR XTIME x) AND 0xFF) (pow[i := x]) (log[nat x := int i]) n"

primrec rcon_loop :: "nat \<Rightarrow> int \<Rightarrow> u64 list \<Rightarrow> nat \<Rightarrow> u64 list" where
  "rcon_loop i x rcon 0 = rcon" |
  "rcon_loop i x rcon (Suc n) = rcon_loop (i + 1) (XTIME x AND 0xFF) (rcon[i := word_of_int x]) n"

definition rotl1 :: "int \<Rightarrow> int" where
  "rotl1 y = (push_bit 1 y OR drop_bit 7 y) AND 0xFF"

definition sbox_value :: "int \<Rightarrow> int" where
  "sbox_value x =
     (let y = x;
          y = rotl1 y; x = x XOR y;
          y = rotl1 y; x = x XOR y;
          y = rotl1 y; x = x XOR y;
          y = rotl1 y
      in x XOR y XOR 0x63)"

primrec sbox_loop :: "int list \<Rightarrow> int list \<Rightarrow> nat \<Rightarrow> bytes \<Rightarrow> bytes \<Rightarrow> nat \<Rightarrow> bytes \<times> bytes" where
  "sbox_loop pow log i fsb rsb 0 = (fsb, rsb)" |
  "sbox_loop pow log i fsb rsb (Suc n) =
     (let x = sbox_value (pow ! nat (255 - log ! i))
      in sbox_loop pow log (i + 1) (fsb[i := word_of_int x]) (rsb[nat x := word_of_int (int i)]) n)"

definition tables_step :: "int list \<Rightarrow> int list \<Rightarrow> nat \<Rightarrow> aes_tables \<Rightarrow> aes_tables" where
  "tables_step pow log i t =
     (let x = uint (FSb t ! i);
          y = XTIME x AND 0xFF;
          z = (y XOR x) AND 0xFF;
          f0 = word_of_int y XOR shl (word_of_int x) 8 XOR shl (word_of_int x) 16 XOR shl (word_of_int z) 24;
          f1 = ROTL8 f0; f2 = ROTL8 f1; f3 = ROTL8 f2;
          x = uint (RSb t ! i);
          r0 = word_of_int (MUL pow log 0x0E x) XOR shl (word_of_int (MUL pow log 0x09 x)) 8
               XOR shl (word_of_int (MUL pow log 0x0D x)) 16 XOR shl (word_of_int (MUL pow log 0x0B x)) 24;
          r1 = ROTL8 r0; r2 = ROTL8 r1; r3 = ROTL8 r2
      in t\<lparr>FT0 := (FT0 t)[i := f0], FT1 := (FT1 t)[i := f1], FT2 := (FT2 t)[i := f2], FT3 := (FT3 t)[i := f3],
           RT0 := (RT0 t)[i := r0], RT1 := (RT1 t)[i := r1], RT2 := (RT2 t)[i := r2], RT3 := (RT3 t)[i := r3]\<rparr>)"

primrec tables_loop :: "int list \<Rightarrow> int list \<Rightarrow> nat \<Rightarrow> aes_tables \<Rightarrow> nat \<Rightarrow> aes_tables" where
  "tables_loop pow log i t 0 = t" |
  "tables_loop pow log i t (Suc n) = tables_loop pow log (i + 1) (tables_step pow log i t) n"

definition aes_gen_tables :: "int list \<Rightarrow> int list \<Rightarrow> aes_tables \<Rightarrow> aes_tables" where
  "aes_gen_tables pow log t =
     (let (pow, log) = pow_log_loop 0 1 pow log 256;
          t = t\<lparr>RCON := rcon_loop 0 1 (RCON t) 10\<rparr>;
          fsb = (FSb t)[0x00 := 0x63];
          rsb = (RSb t)[0x63 := 0x00];
          (fsb, rsb) = sbox_loop pow log 1 fsb rsb 255
      in tables_loop pow log 0 (t\<lparr>FSb := fsb, RSb := rsb\<rparr>) 256)"

section \<open>The integers of the code and the bytes of the field\<close>

lemma and_0xFF: "x AND 0xFF = take_bit 8 (x :: int)"
  by (simp add: take_bit_eq_mask mask_eq_exp_minus_1)

lemma uint_and_0x80: "uint (a :: u8) AND 0x80 \<noteq> 0 \<longleftrightarrow> bit a 7"
  using and_exp_eq_0_iff_not_bit [of "uint a" 7] by (simp add: bit_uint_iff)

lemma take_bit_8_uint [simp]: "take_bit 8 (uint (a :: u8)) = uint a"
  using uint_lt2p [of a] by (simp add: take_bit_int_eq_self_iff)

lemma uint_xt: "XTIME (uint a) AND 0xFF = uint (xt a)"
proof -
  have "uint (xt a) = take_bit 8 (push_bit 1 (uint a)) XOR (if bit a 7 then 0x1B else 0)"
    unfolding xt_def unsigned_xor_eq unsigned_push_bit_eq by simp
  then show ?thesis unfolding XTIME_def uint_and_0x80 and_0xFF by simp
qed

lemma uint_gstep: "(uint a XOR XTIME (uint a)) AND 0xFF = uint (gstep a)"
  unfolding gstep_def unsigned_xor_eq uint_xt [symmetric] by (simp add: and_0xFF)

lemma uint_rotl1: "rotl1 (uint a) = uint (word_rotl 1 (a :: u8))"
proof -
  have "word_rotl 1 a = shl a 1 OR shr a 7"
    by (simp add: u8_eq_iff all_less_8 bit_simps bit_mult_2_right) (auto dest: bit_imp_le_length)
  then have "uint (word_rotl 1 a) = take_bit 8 (push_bit 1 (uint a)) OR drop_bit 7 (uint a)"
    unfolding unsigned_or_eq [symmetric] by (simp only: unsigned_or_eq unsigned_push_bit_eq unsigned_drop_bit_eq) simp
  moreover have "take_bit 8 (drop_bit 7 (uint a)) = drop_bit 7 (uint a)"
    by (rule bit_eqI) (auto simp: bit_simps dest: bit_imp_le_length)
  ultimately show ?thesis unfolding rotl1_def and_0xFF by simp
qed

section \<open>The logarithms\<close>

definition pow_log_upto :: "nat \<Rightarrow> int list \<Rightarrow> int list \<Rightarrow> bool" where
  "pow_log_upto i pow log \<longleftrightarrow> length pow = 256 \<and> length log = 256 \<and>
     (\<forall>j < i. pow ! j = uint (gpow j) \<and>
        (\<exists>m. j \<le> m \<and> m < i \<and> gpow m = gpow j \<and> log ! unat (gpow j) = int m))"

lemma nat_uint_u8 [simp]: "nat (uint (a :: u8)) = unat a"
  by simp

lemma unat_u8_less [simp]: "unat (a :: u8) < 256"
  using unsigned_less [of a, where 'a = nat] by simp

lemma pow_log_upto_step:
  assumes "pow_log_upto i pow log" "i < 256"
  shows "pow_log_upto (i + 1) (pow[i := uint (gpow i)]) (log[nat (uint (gpow i)) := int i])"
proof -
  have "\<exists>m. j \<le> m \<and> m < i + 1 \<and> gpow m = gpow j \<and> log[unat (gpow i) := int i] ! unat (gpow j) = int m"
    if "j < i + 1" for j
  proof (cases "gpow j = gpow i")
    case True
    with assms that show ?thesis by (intro exI [of _ i]) (auto simp: pow_log_upto_def)
  next
    case False
    then have "j < i" using that by (cases "j = i") auto
    moreover have "unat (gpow j) \<noteq> unat (gpow i)" using False by (auto dest: unsigned_word_eqI)
    ultimately show ?thesis using assms by (fastforce simp: pow_log_upto_def)
  qed
  then show ?thesis using assms by (auto simp: pow_log_upto_def nth_list_update less_Suc_eq)
qed

lemma pow_log_loop_upto:
  "pow_log_upto i pow log \<Longrightarrow> i + n \<le> 256 \<Longrightarrow> pow_log_loop i (uint (gpow i)) pow log n = (p, l)
   \<Longrightarrow> pow_log_upto (i + n) p l"
proof (induction n arbitrary: i pow log)
  case (Suc n)
  then show ?case
    using pow_log_upto_step [of i pow log] Suc.IH [of "i + 1"] by (simp add: uint_gstep gpow_Suc)
qed simp

text \<open>Filled from any contents, \<open>pow\<close> has the powers of the generator and \<open>log\<close> the logarithms; the
  entry of \<open>log\<close> at \<open>0\<close> is never written.\<close>

lemma pow_log_loop_correct:
  assumes "length pow0 = 256" "length log0 = 256"
  obtains p l where "pow_log_loop 0 1 pow0 log0 256 = (p, l)"
    and "\<And>i. i < 256 \<Longrightarrow> p ! i = uint (gpow i)"
    and "\<And>x. x \<noteq> 0 \<Longrightarrow> \<exists>m. 0 < m \<and> m < 256 \<and> gpow m = x \<and> l ! unat x = int m"
proof -
  obtain p l where pl: "pow_log_loop 0 1 pow0 log0 256 = (p, l)" by fastforce
  then have up: "pow_log_upto 256 p l"
    using pow_log_loop_upto [of 0 pow0 log0 256 p l] assms by (simp add: pow_log_upto_def)
  have "\<exists>m. 0 < m \<and> m < 256 \<and> gpow m = x \<and> l ! unat x = int m" if x: "x \<noteq> 0" for x
  proof -
    obtain j where "0 < j" "j \<le> 255" "x = gpow j" using x by (rule gpow_surj)
    moreover have "j < 256" using \<open>j \<le> 255\<close> by simp
    with up have "\<exists>m. j \<le> m \<and> m < 256 \<and> gpow m = gpow j \<and> l ! unat (gpow j) = int m"
      unfolding pow_log_upto_def by blast
    ultimately show ?thesis by (metis less_le_trans)
  qed
  with up pl that show ?thesis by (simp add: pow_log_upto_def)
qed

section \<open>The S-boxes\<close>

lemma word_rotl_u8 [simp]:
  "word_rotl 1 (word_rotl 1 b) = word_rotl 2 (b :: u8)"
  "word_rotl 1 (word_rotl 2 b) = word_rotl 3 (b :: u8)"
  "word_rotl 1 (word_rotl 3 b) = word_rotl 4 (b :: u8)"
  by (simp_all add: u8_eq_iff all_less_8 bit_word_rotl_iff nat_bits)

lemma sbox_value_uint: "sbox_value (uint b) = uint (affine b)"
proof -
  have "uint (affine b) = uint b XOR uint (word_rotl 1 b) XOR uint (word_rotl 2 b)
    XOR uint (word_rotl 3 b) XOR uint (word_rotl 4 b) XOR 0x63"
    unfolding affine_def unsigned_xor_eq by simp
  then show ?thesis
    unfolding sbox_value_def Let_def uint_rotl1 word_rotl_u8 by (simp add: xor.assoc)
qed

definition sbox_upto :: "nat \<Rightarrow> bytes \<Rightarrow> bytes \<Rightarrow> bool" where
  "sbox_upto i fsb rsb \<longleftrightarrow> length fsb = 256 \<and> length rsb = 256 \<and>
     (\<forall>x. unat x < i \<longrightarrow> fsb ! unat x = sbox x \<and> rsb ! unat (sbox x) = x)"

lemma sbox_upto_step:
  assumes "sbox_upto i fsb rsb" "i < 256"
  shows "sbox_upto (i + 1) (fsb[i := sbox (of_nat i)]) (rsb[unat (sbox (of_nat i)) := of_nat i])"
proof -
  have "unat (sbox x) \<noteq> unat (sbox y)" if "x \<noteq> y" for x y
    using that by (auto dest: unsigned_word_eqI sbox_inj)
  moreover have "x = of_nat i" if "unat x = i" for x :: u8
    using that by auto
  ultimately show ?thesis using assms
    by (auto simp: sbox_upto_def nth_list_update less_Suc_eq)
qed

lemma sbox_loop_upto:
  assumes p: "\<And>i. i < 256 \<Longrightarrow> p ! i = uint (gpow i)"
    and l: "\<And>x. x \<noteq> 0 \<Longrightarrow> \<exists>m. 0 < m \<and> m < 256 \<and> gpow m = x \<and> l ! unat x = int m"
  shows "sbox_upto i fsb rsb \<Longrightarrow> 0 < i \<Longrightarrow> i + n \<le> 256 \<Longrightarrow> sbox_loop p l i fsb rsb n = (f, r)
    \<Longrightarrow> sbox_upto (i + n) f r"
proof (induction n arbitrary: i fsb rsb)
  case (Suc n)
  have i: "unat (of_nat i :: u8) = i" using Suc.prems by (simp add: unat_of_nat take_bit_nat_eq_self)
  then have "(of_nat i :: u8) \<noteq> 0" using Suc.prems by auto
  from l [OF this] obtain m where m: "0 < m" "m < 256" "gpow m = of_nat i" "l ! i = int m"
    unfolding i by blast
  then have "ginv (of_nat i) = gpow (255 - m)"
    using gmul_gpow [of m "255 - m"] by (intro ginv_unique) simp
  moreover have "p ! nat (255 - l ! i) = uint (gpow (255 - m))"
    using p [of "255 - m"] m by (simp add: nat_diff_distrib)
  ultimately have "sbox_value (p ! nat (255 - l ! i)) = uint (sbox (of_nat i))"
    by (simp only: sbox_value_uint sbox_def)
  then show ?case
    using Suc.IH [of "i + 1"] Suc.prems sbox_upto_step [of i fsb rsb] by simp
qed simp

section \<open>The round tables\<close>

text \<open>Four bytes as a little-endian word: a column of the state.\<close>

definition le4 :: "u8 \<Rightarrow> u8 \<Rightarrow> u8 \<Rightarrow> u8 \<Rightarrow> u64" where
  "le4 a b c d = ucast a XOR shl (ucast b) 8 XOR shl (ucast c) 16 XOR shl (ucast d) 24"

lemma bit_le4: "bit (le4 a b c d) n \<longleftrightarrow>
  (if n < 8 then bit a n else if n < 16 then bit b (n - 8)
   else if n < 24 then bit c (n - 16) else n < 32 \<and> bit d (n - 24))"
  unfolding le4_def by (auto simp: bit_simps dest: bit_imp_le_length)

lemma ROTL8_le4: "ROTL8 (le4 a b c d) = le4 d a b c"
proof -
  have m: "(0xFFFFFFFF :: u64) = mask 32" by (simp add: mask_eq_exp_minus_1)
  show ?thesis
    unfolding ROTL8_def m by (rule bit_word_eqI) (auto simp: bit_le4 bit_simps dest: bit_imp_le_length)
qed

lemma le4_xor: "le4 a b c d XOR le4 a' b' c' d' = le4 (a XOR a') (b XOR b') (c XOR c') (d XOR d')"
  by (rule bit_word_eqI) (auto simp: bit_le4 bit_xor_iff)

lemma le4_bytes [simp]:
  "le4 a b c d AND 0xFF = ucast a"
  "shr (le4 a b c d) 8 AND 0xFF = ucast b"
  "shr (le4 a b c d) 16 AND 0xFF = ucast c"
  "shr (le4 a b c d) 24 AND 0xFF = ucast d"
proof -
  have m: "(0xFF :: u64) = mask 8" by (simp add: mask_eq_exp_minus_1)
  show "le4 a b c d AND 0xFF = ucast a" "shr (le4 a b c d) 8 AND 0xFF = ucast b"
    "shr (le4 a b c d) 16 AND 0xFF = ucast c" "shr (le4 a b c d) 24 AND 0xFF = ucast d"
    unfolding m by (rule bit_word_eqI, auto simp: bit_le4 bit_simps dest: bit_imp_le_length)+
qed

lemma MUL_gmul:
  assumes p: "\<And>i. i < 256 \<Longrightarrow> p ! i = uint (gpow i)"
    and l: "\<And>x. x \<noteq> 0 \<Longrightarrow> \<exists>m. 0 < m \<and> m < 256 \<and> gpow m = x \<and> l ! unat x = int m"
  shows "MUL p l (uint a) (uint b) = uint (gmul a b)"
proof (cases "a = 0 \<or> b = 0")
  case False
  obtain i where i: "gpow i = a" "l ! unat a = int i" using l [of a] False by blast
  obtain j where j: "gpow j = b" "l ! unat b = int j" using l [of b] False by blast
  have "p ! nat ((l ! nat (uint a) + l ! nat (uint b)) mod 255) = p ! ((i + j) mod 255)"
    using i(2) j(2) by (simp add: nat_mod_distrib nat_add_distrib)
  also have "\<dots> = uint (gmul a b)"
    using p [of "(i + j) mod 255"] i j by (simp add: gpow_mod flip: gmul_gpow)
  finally show ?thesis using False by (simp add: MUL_def uint_0_iff)
qed (auto simp: MUL_def)

text \<open>What the tables hold: column \<open>k\<close> of the matrix of MixColumns times the S-box value in \<open>FTk\<close>,
  and the same for the inverse in \<open>RTk\<close>.\<close>

definition round_tables :: "aes_tables \<Rightarrow> nat \<Rightarrow> bool" where
  "round_tables t i \<longleftrightarrow>
     (let s = FSb t ! i; s2 = gmul 2 s; s3 = gmul 3 s; r = RSb t ! i;
          r9 = gmul 9 r; rb = gmul 11 r; rd = gmul 13 r; re = gmul 14 r
      in FT0 t ! i = le4 s2 s s s3 \<and> FT1 t ! i = le4 s3 s2 s s
       \<and> FT2 t ! i = le4 s s3 s2 s \<and> FT3 t ! i = le4 s s s3 s2
       \<and> RT0 t ! i = le4 re r9 rd rb \<and> RT1 t ! i = le4 rb re r9 rd
       \<and> RT2 t ! i = le4 rd rb re r9 \<and> RT3 t ! i = le4 r9 rd rb re)"

definition table_lengths :: "aes_tables \<Rightarrow> bool" where
  "table_lengths t \<longleftrightarrow> length (FSb t) = 256 \<and> length (RSb t) = 256
     \<and> length (FT0 t) = 256 \<and> length (FT1 t) = 256 \<and> length (FT2 t) = 256 \<and> length (FT3 t) = 256
     \<and> length (RT0 t) = 256 \<and> length (RT1 t) = 256 \<and> length (RT2 t) = 256 \<and> length (RT3 t) = 256
     \<and> length (RCON t) = 10"

definition aes_tables_ok :: "aes_tables \<Rightarrow> bool" where
  "aes_tables_ok t \<longleftrightarrow> table_lengths t
     \<and> (\<forall>x. FSb t ! unat x = sbox x \<and> RSb t ! unat (sbox x) = x)
     \<and> (\<forall>i < 256. round_tables t i)
     \<and> (\<forall>i < 10. RCON t ! i = ucast ((xt ^^ i) 1))"

lemma gmul_2_3: "gmul 2 x = xt x" "gmul 3 x = gstep x"
  by (simp_all add: gmul_def gterm_def gstep_def xor.commute)

lemma tables_step_correct:
  assumes p: "\<And>i. i < 256 \<Longrightarrow> p ! i = uint (gpow i)"
    and l: "\<And>x. x \<noteq> 0 \<Longrightarrow> \<exists>m. 0 < m \<and> m < 256 \<and> gpow m = x \<and> l ! unat x = int m"
    and "table_lengths t" "i < 256"
  shows "table_lengths (tables_step p l i t)" "round_tables (tables_step p l i t) i"
    and "j \<noteq> i \<Longrightarrow> round_tables (tables_step p l i t) j = round_tables t j"
proof -
  have m: "MUL p l 0x0E (uint r) = uint (gmul 14 r)" "MUL p l 0x09 (uint r) = uint (gmul 9 r)"
    "MUL p l 0x0D (uint r) = uint (gmul 13 r)" "MUL p l 0x0B (uint r) = uint (gmul 11 r)" for r
    using MUL_gmul [OF p l, of 14 r] MUL_gmul [OF p l, of 9 r] MUL_gmul [OF p l, of 13 r]
      MUL_gmul [OF p l, of 11 r] by simp_all
  have z: "(uint (xt a) XOR uint a) AND 0xFF = uint (gstep a)" for a
    unfolding and_0xFF by (simp add: gstep_def xor.commute flip: unsigned_xor_eq)
  show "table_lengths (tables_step p l i t)"
    using assms(3) by (simp add: tables_step_def table_lengths_def Let_def)
  show "round_tables (tables_step p l i t) i"
    using assms(3,4)
    by (simp add: tables_step_def table_lengths_def Let_def round_tables_def m uint_xt z ROTL8_le4 gmul_2_3
        flip: le4_def)
  show "j \<noteq> i \<Longrightarrow> round_tables (tables_step p l i t) j = round_tables t j"
    by (simp add: tables_step_def round_tables_def Let_def)
qed

lemma tables_loop_correct:
  assumes p: "\<And>i. i < 256 \<Longrightarrow> p ! i = uint (gpow i)"
    and l: "\<And>x. x \<noteq> 0 \<Longrightarrow> \<exists>m. 0 < m \<and> m < 256 \<and> gpow m = x \<and> l ! unat x = int m"
  shows "table_lengths t \<Longrightarrow> (\<forall>j < i. round_tables t j) \<Longrightarrow> i + n \<le> 256
    \<Longrightarrow> table_lengths (tables_loop p l i t n) \<and> (\<forall>j < i + n. round_tables (tables_loop p l i t n) j)"
proof (induction n arbitrary: i t)
  case (Suc n)
  note step = tables_step_correct [OF p l Suc.prems(1), of i]
  have "\<forall>j < i + 1. round_tables (tables_step p l i t) j"
    using step(2,3) Suc.prems(2,3) by (auto simp: less_Suc_eq)
  then show ?case using Suc.IH [of "tables_step p l i t" "i + 1"] step(1) Suc.prems(3) by simp
qed simp

lemma tables_loop_keeps [simp]:
  "FSb (tables_loop p l i t n) = FSb t" "RSb (tables_loop p l i t n) = RSb t"
  "RCON (tables_loop p l i t n) = RCON t" "aes_init_done (tables_loop p l i t n) = aes_init_done t"
  by (induction n arbitrary: i t) (simp_all add: tables_step_def Let_def)

lemma rcon_loop_correct:
  "length rcon = 10 \<Longrightarrow> (\<forall>j < i. rcon ! j = ucast ((xt ^^ j) 1)) \<Longrightarrow> i + n \<le> 10
   \<Longrightarrow> length (rcon_loop i (uint ((xt ^^ i) 1)) rcon n) = 10
     \<and> (\<forall>j < i + n. rcon_loop i (uint ((xt ^^ i) 1)) rcon n ! j = ucast ((xt ^^ j) 1))"
proof (induction n arbitrary: i rcon)
  case (Suc n)
  then show ?case
    using Suc.IH [of "rcon[i := word_of_int (uint ((xt ^^ i) 1))]" "i + 1"]
    by (simp add: uint_xt nth_list_update less_Suc_eq)
qed simp

text \<open>From any contents of the static arrays and of the stack, \<open>aes_gen_tables\<close> makes the tables.\<close>

lemma aes_gen_tables_ok:
  assumes "length pow = 256" "length log = 256" "table_lengths t"
  shows "aes_tables_ok (aes_gen_tables pow log t)"
    and "aes_init_done (aes_gen_tables pow log t) = aes_init_done t"
proof -
  obtain p l where pl: "pow_log_loop 0 1 pow log 256 = (p, l)"
    and p: "\<And>i. i < 256 \<Longrightarrow> p ! i = uint (gpow i)"
    and l: "\<And>x. x \<noteq> 0 \<Longrightarrow> \<exists>m. 0 < m \<and> m < 256 \<and> gpow m = x \<and> l ! unat x = int m"
    using pow_log_loop_correct assms(1,2) by metis
  let ?f0 = "(FSb t)[0 := 0x63]" and ?r0 = "(RSb t)[0x63 := 0]"
  obtain f r where fr: "sbox_loop p l 1 ?f0 ?r0 255 = (f, r)" by fastforce
  have "sbox_upto 1 ?f0 ?r0"
    using assms(3) by (auto simp: sbox_upto_def table_lengths_def unat_eq_zero sbox_0)
  from sbox_loop_upto [OF p l this _ _ fr] have s: "sbox_upto 256 f r" by simp
  define t' where "t' = t\<lparr>RCON := rcon_loop 0 1 (RCON t) 10, FSb := f, RSb := r\<rparr>"
  have gen: "aes_gen_tables pow log t = tables_loop p l 0 t' 256"
    unfolding aes_gen_tables_def pl using fr by (simp add: t'_def)
  have rcon: "length (rcon_loop 0 1 (RCON t) 10) = 10"
    "\<forall>j < 10. rcon_loop 0 1 (RCON t) 10 ! j = ucast ((xt ^^ j) 1)"
    using rcon_loop_correct [of "RCON t" 0 10] assms(3) by (simp_all add: table_lengths_def)
  then have "table_lengths t'" using assms(3) s by (simp add: t'_def table_lengths_def sbox_upto_def)
  from tables_loop_correct [OF p l this, of 0 256]
  show "aes_tables_ok (aes_gen_tables pow log t)"
    using s rcon unfolding gen aes_tables_ok_def by (simp add: t'_def sbox_upto_def)
  show "aes_init_done (aes_gen_tables pow log t) = aes_init_done t"
    unfolding gen by (simp add: t'_def)
qed

end
