(* ===== verification/Fips197.thy ===== *)
theory Fips197
  imports Gf256
begin

text \<open>
  The Advanced Encryption Standard as FIPS 197 defines it, on bytes: the reference that the
  table-driven code of \<open>src/aes/aes.c\<close> is compared with.  A column of the state is a tuple of four
  bytes, the state a tuple of four columns.
\<close>

type_synonym column = "u8 \<times> u8 \<times> u8 \<times> u8"
type_synonym aes_state = "column \<times> column \<times> column \<times> column"

section \<open>The transformations of the state\<close>

fun xor_col :: "column \<Rightarrow> column \<Rightarrow> column" where
  "xor_col (a, b, c, d) (a', b', c', d') = (a XOR a', b XOR b', c XOR c', d XOR d')"

fun map_col :: "(u8 \<Rightarrow> u8) \<Rightarrow> column \<Rightarrow> column" where
  "map_col f (a, b, c, d) = (f a, f b, f c, f d)"

fun map_state :: "(column \<Rightarrow> column) \<Rightarrow> aes_state \<Rightarrow> aes_state" where
  "map_state f (p, q, r, s) = (f p, f q, f r, f s)"

abbreviation SubBytes :: "aes_state \<Rightarrow> aes_state" where
  "SubBytes \<equiv> map_state (map_col sbox)"

fun ShiftRows :: "aes_state \<Rightarrow> aes_state" where
  "ShiftRows ((a0, a1, a2, a3), (b0, b1, b2, b3), (c0, c1, c2, c3), (d0, d1, d2, d3)) =
     ((a0, b1, c2, d3), (b0, c1, d2, a3), (c0, d1, a2, b3), (d0, a1, b2, c3))"

fun InvShiftRows :: "aes_state \<Rightarrow> aes_state" where
  "InvShiftRows ((a0, a1, a2, a3), (b0, b1, b2, b3), (c0, c1, c2, c3), (d0, d1, d2, d3)) =
     ((a0, d1, c2, b3), (b0, a1, d2, c3), (c0, b1, a2, d3), (d0, c1, b2, a3))"

text \<open>MixColumns multiplies a column by the polynomial \<open>k3 x ^ 3 + k2 x ^ 2 + k1 x + k0\<close> modulo
  \<open>x ^ 4 + 1\<close>.\<close>

fun mul_col :: "u8 \<Rightarrow> u8 \<Rightarrow> u8 \<Rightarrow> u8 \<Rightarrow> column \<Rightarrow> column" where
  "mul_col k0 k1 k2 k3 (a, b, c, d) =
     (gmul k0 a XOR gmul k3 b XOR gmul k2 c XOR gmul k1 d,
      gmul k1 a XOR gmul k0 b XOR gmul k3 c XOR gmul k2 d,
      gmul k2 a XOR gmul k1 b XOR gmul k0 c XOR gmul k3 d,
      gmul k3 a XOR gmul k2 b XOR gmul k1 c XOR gmul k0 d)"

abbreviation mix :: "column \<Rightarrow> column" where
  "mix \<equiv> mul_col 2 1 1 3"

abbreviation inv_mix :: "column \<Rightarrow> column" where
  "inv_mix \<equiv> mul_col 14 9 13 11"

abbreviation MixColumns :: "aes_state \<Rightarrow> aes_state" where
  "MixColumns \<equiv> map_state mix"

abbreviation InvMixColumns :: "aes_state \<Rightarrow> aes_state" where
  "InvMixColumns \<equiv> map_state inv_mix"

definition inv_sbox :: "u8 \<Rightarrow> u8" where
  "inv_sbox y = ginv (affine_inv y)"

abbreviation InvSubBytes :: "aes_state \<Rightarrow> aes_state" where
  "InvSubBytes \<equiv> map_state (map_col inv_sbox)"

fun AddRoundKey :: "(nat \<Rightarrow> column) \<Rightarrow> nat \<Rightarrow> aes_state \<Rightarrow> aes_state" where
  "AddRoundKey w i (p, q, r, s) =
     (xor_col p (w (4 * i)), xor_col q (w (4 * i + 1)), xor_col r (w (4 * i + 2)), xor_col s (w (4 * i + 3)))"

section \<open>Cipher and inverse cipher\<close>

primrec rounds :: "(nat \<Rightarrow> column) \<Rightarrow> aes_state \<Rightarrow> nat \<Rightarrow> aes_state" where
  "rounds w s 0 = AddRoundKey w 0 s" |
  "rounds w s (Suc i) = AddRoundKey w (Suc i) (MixColumns (ShiftRows (SubBytes (rounds w s i))))"

definition Cipher :: "(nat \<Rightarrow> column) \<Rightarrow> nat \<Rightarrow> aes_state \<Rightarrow> aes_state" where
  "Cipher w Nr s = AddRoundKey w Nr (ShiftRows (SubBytes (rounds w s (Nr - 1))))"

text \<open>The equivalent inverse cipher: \<open>dw\<close> has the round keys in the order of decryption, those of the
  middle rounds passed through \<open>InvMixColumns\<close>.\<close>

primrec inv_rounds :: "(nat \<Rightarrow> column) \<Rightarrow> aes_state \<Rightarrow> nat \<Rightarrow> aes_state" where
  "inv_rounds dw s 0 = AddRoundKey dw 0 s" |
  "inv_rounds dw s (Suc i) = AddRoundKey dw (Suc i) (InvMixColumns (InvSubBytes (InvShiftRows (inv_rounds dw s i))))"

definition EqInvCipher :: "(nat \<Rightarrow> column) \<Rightarrow> nat \<Rightarrow> aes_state \<Rightarrow> aes_state" where
  "EqInvCipher dw Nr s = AddRoundKey dw Nr (InvSubBytes (InvShiftRows (inv_rounds dw s (Nr - 1))))"

definition dec_keys :: "(nat \<Rightarrow> column) \<Rightarrow> nat \<Rightarrow> nat \<Rightarrow> column" where
  "dec_keys w Nr j = (let k = w (4 * (Nr - j div 4) + j mod 4)
     in if j div 4 = 0 \<or> j div 4 = Nr then k else inv_mix k)"

section \<open>Key expansion\<close>

fun RotWord :: "column \<Rightarrow> column" where
  "RotWord (a, b, c, d) = (b, c, d, a)"

abbreviation SubWord :: "column \<Rightarrow> column" where
  "SubWord \<equiv> map_col sbox"

definition Rcon :: "nat \<Rightarrow> column" where
  "Rcon i = ((xt ^^ (i - 1)) 1, 0, 0, 0)"

function KeyExpansion :: "nat \<Rightarrow> bytes \<Rightarrow> nat \<Rightarrow> column" where
  "KeyExpansion Nk key i =
     (if i < Nk \<or> Nk = 0 then (key ! (4 * i), key ! (4 * i + 1), key ! (4 * i + 2), key ! (4 * i + 3))
      else let temp = KeyExpansion Nk key (i - 1)
        in xor_col (KeyExpansion Nk key (i - Nk))
          (if i mod Nk = 0 then xor_col (SubWord (RotWord temp)) (Rcon (i div Nk))
           else if 6 < Nk \<and> i mod Nk = 4 then SubWord temp
           else temp))"
  by pat_completeness auto
termination by (relation "measure (\<lambda>(Nk, key, i). i)") auto

declare KeyExpansion.simps [simp del]

section \<open>The inverse cipher undoes the cipher\<close>

lemma ginv_ginv [simp]: "ginv (ginv x) = x"
proof (cases "x = 0")
  case False
  then show ?thesis using gmul_ginv [of x] by (intro ginv_unique) (simp add: gmul_commute)
qed (simp add: ginv_0)

lemma inv_sbox_sbox [simp]: "inv_sbox (sbox x) = x"
  by (simp add: inv_sbox_def sbox_def affine_inv_affine)

lemma sbox_inv_sbox [simp]: "sbox (inv_sbox y) = y"
proof -
  have "inj sbox" by (rule injI) (rule sbox_inj)
  then have "surj sbox" by (intro finite_UNIV_inj_surj) simp_all
  then obtain x where "y = sbox x" by (rule surjE)
  then show ?thesis by simp
qed

lemma xor_col_assoc: "xor_col (xor_col p q) r = xor_col p (xor_col q r)"
  by (cases p; cases q; cases r) (simp add: xor.assoc)

lemma xor_col_self [simp]: "xor_col (xor_col p q) q = p"
  by (cases p; cases q) (simp add: xor.assoc)

lemma mul_col_xor: "mul_col k0 k1 k2 k3 (xor_col p q) = xor_col (mul_col k0 k1 k2 k3 p) (mul_col k0 k1 k2 k3 q)"
  by (cases p; cases q) (simp add: gmul_xor_right ac_simps)

lemma gmul_small:
  "gmul 9 x = xt (xt (xt x)) XOR x"
  "gmul 11 x = xt (xt (xt x)) XOR xt x XOR x"
  "gmul 13 x = xt (xt (xt x)) XOR xt (xt x) XOR x"
  "gmul 14 x = xt (xt (xt x)) XOR xt (xt x) XOR xt x"
  "gmul 2 x = xt x" "gmul 3 x = xt x XOR x"
  by (simp_all add: gmul_def gterm_def funpow_numeral ac_simps)

lemma inv_mix_mix [simp]: "inv_mix (mix c) = c"
  by (cases c) (simp add: gmul_small ac_simps)

lemma map_state_map_state [simp]: "map_state f (map_state g s) = map_state (\<lambda>c. f (g c)) s"
  by (cases s) auto

lemma map_state_id [simp]: "map_state (\<lambda>c. c) s = s"
  by (cases s) auto

lemma map_col_inverse [simp]: "map_col inv_sbox (map_col sbox c) = c"
  by (cases c) simp

lemma InvShiftRows_ShiftRows [simp]: "InvShiftRows (ShiftRows s) = s"
  by (cases s rule: ShiftRows.cases) simp

lemma AddRoundKey_self [simp]: "AddRoundKey w i (AddRoundKey w i s) = s"
  by (cases s) simp

lemma dec_keys_block:
  assumes "j < 4"
  shows "dec_keys w Nr (4 * i + j) = (if i = 0 \<or> i = Nr then w (4 * (Nr - i) + j) else inv_mix (w (4 * (Nr - i) + j)))"
  using assms by (simp add: dec_keys_def)

lemmas dec_keys_blocks =
  dec_keys_block [of 0, simplified] dec_keys_block [of 1, simplified]
  dec_keys_block [of 2, simplified] dec_keys_block [of 3, simplified]

lemma AddRoundKey_dec_keys:
  "AddRoundKey (dec_keys w Nr) 0 s = AddRoundKey w Nr s"
  "AddRoundKey (dec_keys w Nr) Nr s = AddRoundKey w 0 s"
  "0 < i \<Longrightarrow> i < Nr \<Longrightarrow>
     AddRoundKey (dec_keys w Nr) i (InvMixColumns s) = InvMixColumns (AddRoundKey w (Nr - i) s)"
  using dec_keys_blocks [of w Nr 0] dec_keys_blocks [of w Nr Nr]
  by (cases s; simp add: mul_col_xor dec_keys_blocks)+

lemma inv_rounds_rounds:
  assumes "0 < Nr"
  shows "j < Nr \<Longrightarrow> inv_rounds (dec_keys w Nr) (Cipher w Nr s) j = ShiftRows (SubBytes (rounds w s (Nr - 1 - j)))"
proof (induction j)
  case 0
  then show ?case by (simp add: AddRoundKey_dec_keys Cipher_def)
next
  case (Suc j)
  then have i: "Nr - 1 - j = Suc (Nr - 1 - Suc j)" and key: "Nr - Suc j = Suc (Nr - 1 - Suc j)" by simp_all
  with Suc have "inv_rounds (dec_keys w Nr) (Cipher w Nr s) (Suc j) =
    AddRoundKey (dec_keys w Nr) (Suc j) (InvMixColumns (rounds w s (Suc (Nr - 1 - Suc j))))" by simp
  also have "\<dots> = InvMixColumns (AddRoundKey w (Nr - Suc j) (rounds w s (Suc (Nr - 1 - Suc j))))"
    using Suc.prems by (intro AddRoundKey_dec_keys) simp_all
  also have "\<dots> = ShiftRows (SubBytes (rounds w s (Nr - 1 - Suc j)))"
    unfolding key rounds.simps AddRoundKey_self by simp
  finally show ?case .
qed

theorem EqInvCipher_Cipher:
  assumes "0 < Nr"
  shows "EqInvCipher (dec_keys w Nr) Nr (Cipher w Nr s) = s"
  unfolding EqInvCipher_def
  using inv_rounds_rounds [of Nr "Nr - 1" w s] assms by (simp add: AddRoundKey_dec_keys)

end
