(* ===== verification/Aes.thy ===== *)
theory Aes
  imports Aes_Tables Fips197
begin

text \<open>
  The key schedules and the block cipher of \<open>src/aes/aes.c\<close>.  \<open>aes_context\<close> is the structure of
  \<open>aes.h\<close>; its pointer \<open>rk\<close> always points into its own array \<open>buf\<close> and is the index there, \<open>None\<close>
  before a key is set.  Reading or writing outside a buffer of the caller gives \<open>None\<close>; the accesses
  to \<open>buf\<close> stay below its length \<open>68\<close>.

  The code is shown equal to the byte-wise definition of FIPS 197, and decryption to undo encryption.
\<close>

section \<open>The code\<close>

record aes_context =
  nr :: int
  rk :: "nat option"
  buf :: "u64 list"

definition GET_ULONG_LE :: "bytes \<Rightarrow> nat \<Rightarrow> u64 option" where
  "GET_ULONG_LE b i = do {
     b0 \<leftarrow> fetch b i; b1 \<leftarrow> fetch b (i + 1); b2 \<leftarrow> fetch b (i + 2); b3 \<leftarrow> fetch b (i + 3);
     Some (ucast b0 OR shl (ucast b1) 8 OR shl (ucast b2) 16 OR shl (ucast b3) 24) }"

definition PUT_ULONG_LE :: "u64 \<Rightarrow> bytes \<Rightarrow> nat \<Rightarrow> bytes option" where
  "PUT_ULONG_LE n b i = do {
     b \<leftarrow> store b i (ucast n);
     b \<leftarrow> store b (i + 1) (ucast (shr n 8));
     b \<leftarrow> store b (i + 2) (ucast (shr n 16));
     store b (i + 3) (ucast (shr n 24)) }"

definition at8 :: "'a list \<Rightarrow> u64 \<Rightarrow> 'a" where
  "at8 T x = T ! unat (x AND 0xFF)"

subsection \<open>Key schedule for encryption\<close>

definition aes_rounds :: "int \<Rightarrow> int option" where
  "aes_rounds keysize =
     (if keysize = 128 then Some 10 else if keysize = 192 then Some 12
      else if keysize = 256 then Some 14 else None)"

primrec load_key_loop :: "bytes \<Rightarrow> nat \<Rightarrow> u64 list \<Rightarrow> nat \<Rightarrow> u64 list option" where
  "load_key_loop key i RK 0 = Some RK" |
  "load_key_loop key i RK (Suc n) = do {
     x \<leftarrow> GET_ULONG_LE key (4 * i);
     load_key_loop key (i + 1) (RK[i := x]) n }"

definition sub_rot :: "aes_tables \<Rightarrow> u64 \<Rightarrow> u64" where
  "sub_rot t x = ucast (at8 (FSb t) (shr x 8)) XOR shl (ucast (at8 (FSb t) (shr x 16))) 8
     XOR shl (ucast (at8 (FSb t) (shr x 24))) 16 XOR shl (ucast (at8 (FSb t) x)) 24"

definition sub_word :: "aes_tables \<Rightarrow> u64 \<Rightarrow> u64" where
  "sub_word t x = ucast (at8 (FSb t) x) XOR shl (ucast (at8 (FSb t) (shr x 8))) 8
     XOR shl (ucast (at8 (FSb t) (shr x 16))) 16 XOR shl (ucast (at8 (FSb t) (shr x 24))) 24"

text \<open>One turn of the loops; \<open>r\<close> is how far \<open>RK\<close> was advanced.\<close>

definition key_turn_128 :: "aes_tables \<Rightarrow> nat \<Rightarrow> nat \<Rightarrow> u64 list \<Rightarrow> u64 list" where
  "key_turn_128 t i r RK =
     (let RK = RK[r + 4 := RK ! r XOR (RCON t ! i XOR sub_rot t (RK ! (r + 3)))];
          RK = RK[r + 5 := RK ! (r + 1) XOR RK ! (r + 4)];
          RK = RK[r + 6 := RK ! (r + 2) XOR RK ! (r + 5)]
      in RK[r + 7 := RK ! (r + 3) XOR RK ! (r + 6)])"

definition key_turn_192 :: "aes_tables \<Rightarrow> nat \<Rightarrow> nat \<Rightarrow> u64 list \<Rightarrow> u64 list" where
  "key_turn_192 t i r RK =
     (let RK = RK[r + 6 := RK ! r XOR (RCON t ! i XOR sub_rot t (RK ! (r + 5)))];
          RK = RK[r + 7 := RK ! (r + 1) XOR RK ! (r + 6)];
          RK = RK[r + 8 := RK ! (r + 2) XOR RK ! (r + 7)];
          RK = RK[r + 9 := RK ! (r + 3) XOR RK ! (r + 8)];
          RK = RK[r + 10 := RK ! (r + 4) XOR RK ! (r + 9)]
      in RK[r + 11 := RK ! (r + 5) XOR RK ! (r + 10)])"

definition key_turn_256 :: "aes_tables \<Rightarrow> nat \<Rightarrow> nat \<Rightarrow> u64 list \<Rightarrow> u64 list" where
  "key_turn_256 t i r RK =
     (let RK = RK[r + 8 := RK ! r XOR (RCON t ! i XOR sub_rot t (RK ! (r + 7)))];
          RK = RK[r + 9 := RK ! (r + 1) XOR RK ! (r + 8)];
          RK = RK[r + 10 := RK ! (r + 2) XOR RK ! (r + 9)];
          RK = RK[r + 11 := RK ! (r + 3) XOR RK ! (r + 10)];
          RK = RK[r + 12 := RK ! (r + 4) XOR sub_word t (RK ! (r + 11))];
          RK = RK[r + 13 := RK ! (r + 5) XOR RK ! (r + 12)];
          RK = RK[r + 14 := RK ! (r + 6) XOR RK ! (r + 13)]
      in RK[r + 15 := RK ! (r + 7) XOR RK ! (r + 14)])"

primrec key_loop :: "(nat \<Rightarrow> nat \<Rightarrow> u64 list \<Rightarrow> u64 list) \<Rightarrow> nat \<Rightarrow> nat \<Rightarrow> nat \<Rightarrow> u64 list \<Rightarrow> nat \<Rightarrow> u64 list" where
  "key_loop turn step i r RK 0 = RK" |
  "key_loop turn step i r RK (Suc n) = key_loop turn step (i + 1) (r + step) (turn i r RK) n"

definition aes_setkey_enc ::
    "int list \<times> int list \<Rightarrow> aes_tables \<Rightarrow> aes_context \<Rightarrow> bytes \<Rightarrow> int \<Rightarrow> (aes_tables \<times> aes_context) option" where
  "aes_setkey_enc frame t ctx key keysize =
     (let t = (if aes_init_done t = 0
               then (aes_gen_tables (fst frame) (snd frame) t)\<lparr>aes_init_done := 1\<rparr> else t)
      in case aes_rounds keysize of
           None \<Rightarrow> Some (t, ctx)
         | Some n \<Rightarrow> do {
             let ctx = ctx\<lparr>nr := n, rk := Some 0\<rparr>;
             RK \<leftarrow> load_key_loop key 0 (buf ctx) (nat (drop_bit 5 keysize));
             let RK = (if n = 10 then key_loop (key_turn_128 t) 4 0 0 RK 10
                       else if n = 12 then key_loop (key_turn_192 t) 6 0 0 RK 8
                       else if n = 14 then key_loop (key_turn_256 t) 8 0 0 RK 7
                       else RK);
             Some (t, ctx\<lparr>buf := RK\<rparr>) })"

subsection \<open>Key schedule for decryption\<close>

definition inv_key_word :: "aes_tables \<Rightarrow> u64 \<Rightarrow> u64" where
  "inv_key_word t x = RT0 t ! unat (at8 (FSb t) x) XOR RT1 t ! unat (at8 (FSb t) (shr x 8))
     XOR RT2 t ! unat (at8 (FSb t) (shr x 16)) XOR RT3 t ! unat (at8 (FSb t) (shr x 24))"

text \<open>\<open>*RK++ = f(*SK++)\<close>, four times.\<close>

definition copy4 :: "(u64 \<Rightarrow> u64) \<Rightarrow> u64 list \<Rightarrow> nat \<Rightarrow> u64 list \<Rightarrow> nat \<Rightarrow> u64 list" where
  "copy4 f SK s RK r =
     RK[r := f (SK ! s), r + 1 := f (SK ! (s + 1)), r + 2 := f (SK ! (s + 2)), r + 3 := f (SK ! (s + 3))]"

primrec dec_key_loop :: "aes_tables \<Rightarrow> u64 list \<Rightarrow> nat \<Rightarrow> u64 list \<Rightarrow> nat \<Rightarrow> nat \<Rightarrow> u64 list \<times> nat \<times> nat" where
  "dec_key_loop t SK s RK r 0 = (RK, s, r)" |
  "dec_key_loop t SK s RK r (Suc i) =
     (let RK = copy4 (inv_key_word t) SK s RK r; s = s + 4; r = r + 4
      in dec_key_loop t SK (s - 8) RK r i)"

text \<open>\<open>cty\<close> is the local context, with whatever the stack held.\<close>

definition aes_setkey_dec ::
    "int list \<times> int list \<Rightarrow> aes_context \<Rightarrow> aes_tables \<Rightarrow> aes_context \<Rightarrow> bytes \<Rightarrow> int \<Rightarrow> (aes_tables \<times> aes_context) option" where
  "aes_setkey_dec frame cty t ctx key keysize =
     (case aes_rounds keysize of
        None \<Rightarrow> Some (t, ctx)
      | Some n \<Rightarrow> do {
          let ctx = ctx\<lparr>nr := n, rk := Some 0\<rparr>;
          (t, cty) \<leftarrow> aes_setkey_enc frame t cty key keysize;
          off \<leftarrow> rk cty;
          let SK = buf cty;
          let s = off + nat (nr cty) * 4;
          let RK = copy4 (\<lambda>x. x) SK s (buf ctx) 0;
          let (RK, s, r) = dec_key_loop t SK (s + 4 - 8) RK 4 (nat (nr ctx - 1));
          Some (t, ctx\<lparr>buf := copy4 (\<lambda>x. x) SK s RK r\<rparr>) })"

subsection \<open>One block\<close>

type_synonym words4 = "u64 \<times> u64 \<times> u64 \<times> u64"

fun AES_FROUND :: "aes_tables \<Rightarrow> u64 list \<Rightarrow> nat \<Rightarrow> words4 \<Rightarrow> words4" where
  "AES_FROUND t RK k (Y0, Y1, Y2, Y3) =
     (RK ! k XOR at8 (FT0 t) Y0 XOR at8 (FT1 t) (shr Y1 8) XOR at8 (FT2 t) (shr Y2 16) XOR at8 (FT3 t) (shr Y3 24),
      RK ! (k + 1) XOR at8 (FT0 t) Y1 XOR at8 (FT1 t) (shr Y2 8) XOR at8 (FT2 t) (shr Y3 16) XOR at8 (FT3 t) (shr Y0 24),
      RK ! (k + 2) XOR at8 (FT0 t) Y2 XOR at8 (FT1 t) (shr Y3 8) XOR at8 (FT2 t) (shr Y0 16) XOR at8 (FT3 t) (shr Y1 24),
      RK ! (k + 3) XOR at8 (FT0 t) Y3 XOR at8 (FT1 t) (shr Y0 8) XOR at8 (FT2 t) (shr Y1 16) XOR at8 (FT3 t) (shr Y2 24))"

fun AES_RROUND :: "aes_tables \<Rightarrow> u64 list \<Rightarrow> nat \<Rightarrow> words4 \<Rightarrow> words4" where
  "AES_RROUND t RK k (Y0, Y1, Y2, Y3) =
     (RK ! k XOR at8 (RT0 t) Y0 XOR at8 (RT1 t) (shr Y3 8) XOR at8 (RT2 t) (shr Y2 16) XOR at8 (RT3 t) (shr Y1 24),
      RK ! (k + 1) XOR at8 (RT0 t) Y1 XOR at8 (RT1 t) (shr Y0 8) XOR at8 (RT2 t) (shr Y3 16) XOR at8 (RT3 t) (shr Y2 24),
      RK ! (k + 2) XOR at8 (RT0 t) Y2 XOR at8 (RT1 t) (shr Y1 8) XOR at8 (RT2 t) (shr Y0 16) XOR at8 (RT3 t) (shr Y3 24),
      RK ! (k + 3) XOR at8 (RT0 t) Y3 XOR at8 (RT1 t) (shr Y2 8) XOR at8 (RT2 t) (shr Y1 16) XOR at8 (RT3 t) (shr Y0 24))"

text \<open>The last round: bytes of an S-box, put together.\<close>

definition box4 :: "bytes \<Rightarrow> u64 \<Rightarrow> u64 \<Rightarrow> u64 \<Rightarrow> u64 \<Rightarrow> u64" where
  "box4 B Y0 Y1 Y2 Y3 = ucast (at8 B Y0) XOR shl (ucast (at8 B (shr Y1 8))) 8
     XOR shl (ucast (at8 B (shr Y2 16))) 16 XOR shl (ucast (at8 B (shr Y3 24))) 24"

fun last_fround :: "aes_tables \<Rightarrow> u64 list \<Rightarrow> nat \<Rightarrow> words4 \<Rightarrow> words4" where
  "last_fround t RK k (Y0, Y1, Y2, Y3) =
     (RK ! k XOR box4 (FSb t) Y0 Y1 Y2 Y3, RK ! (k + 1) XOR box4 (FSb t) Y1 Y2 Y3 Y0,
      RK ! (k + 2) XOR box4 (FSb t) Y2 Y3 Y0 Y1, RK ! (k + 3) XOR box4 (FSb t) Y3 Y0 Y1 Y2)"

fun last_rround :: "aes_tables \<Rightarrow> u64 list \<Rightarrow> nat \<Rightarrow> words4 \<Rightarrow> words4" where
  "last_rround t RK k (Y0, Y1, Y2, Y3) =
     (RK ! k XOR box4 (RSb t) Y0 Y3 Y2 Y1, RK ! (k + 1) XOR box4 (RSb t) Y1 Y0 Y3 Y2,
      RK ! (k + 2) XOR box4 (RSb t) Y2 Y1 Y0 Y3, RK ! (k + 3) XOR box4 (RSb t) Y3 Y2 Y1 Y0)"

text \<open>\<open>for (i = (ctx->nr >> 1) - 1; i > 0; i--)\<close>: two rounds in every turn.\<close>

primrec round_loop :: "(nat \<Rightarrow> words4 \<Rightarrow> words4) \<Rightarrow> nat \<Rightarrow> words4 \<Rightarrow> nat \<Rightarrow> words4 \<times> nat" where
  "round_loop f k X 0 = (X, k)" |
  "round_loop f k X (Suc i) = (let Y = f k X; X = f (k + 4) Y in round_loop f (k + 8) X i)"

abbreviation (input) AES_ENCRYPT :: int where "AES_ENCRYPT \<equiv> 1"
abbreviation (input) AES_DECRYPT :: int where "AES_DECRYPT \<equiv> 0"

definition crypt_words :: "aes_tables \<Rightarrow> u64 list \<Rightarrow> nat \<Rightarrow> int \<Rightarrow> int \<Rightarrow> words4 \<Rightarrow> words4" where
  "crypt_words t RK k Nr mode X =
     (if mode = AES_DECRYPT
      then let (X, k) = round_loop (AES_RROUND t RK) k X (nat (drop_bit 1 Nr - 1));
               Y = AES_RROUND t RK k X
           in last_rround t RK (k + 4) Y
      else let (X, k) = round_loop (AES_FROUND t RK) k X (nat (drop_bit 1 Nr - 1));
               Y = AES_FROUND t RK k X
           in last_fround t RK (k + 4) Y)"

text \<open>\<open>input\<close> and \<open>output\<close> are positions in the buffers \<open>inb\<close> and \<open>outb\<close>; the input is read before
  the output is written, so that they may be the same.\<close>

definition aes_crypt_ecb ::
    "aes_tables \<Rightarrow> aes_context \<Rightarrow> int \<Rightarrow> bytes \<Rightarrow> nat \<Rightarrow> bytes \<Rightarrow> nat \<Rightarrow> bytes option" where
  "aes_crypt_ecb t ctx mode inb input outb output = do {
     r \<leftarrow> rk ctx;
     let RK = buf ctx;
     X0 \<leftarrow> GET_ULONG_LE inb input;
     let X0 = X0 XOR RK ! r;
     X1 \<leftarrow> GET_ULONG_LE inb (input + 4);
     let X1 = X1 XOR RK ! (r + 1);
     X2 \<leftarrow> GET_ULONG_LE inb (input + 8);
     let X2 = X2 XOR RK ! (r + 2);
     X3 \<leftarrow> GET_ULONG_LE inb (input + 12);
     let X3 = X3 XOR RK ! (r + 3);
     let (X0, X1, X2, X3) = crypt_words t RK (r + 4) (nr ctx) mode (X0, X1, X2, X3);
     outb \<leftarrow> PUT_ULONG_LE X0 outb output;
     outb \<leftarrow> PUT_ULONG_LE X1 outb (output + 4);
     outb \<leftarrow> PUT_ULONG_LE X2 outb (output + 8);
     PUT_ULONG_LE X3 outb (output + 12) }"

section \<open>Words and columns\<close>

fun lew :: "column \<Rightarrow> u64" where
  "lew (a, b, c, d) = le4 a b c d"

fun lews :: "aes_state \<Rightarrow> words4" where
  "lews (p, q, r, s) = (lew p, lew q, lew r, lew s)"

lemma lew_xor_col: "lew (xor_col p q) = lew p XOR lew q"
  by (cases p; cases q) (simp add: le4_xor)

lemma unat_ucast_u8 [simp]: "unat (ucast (x :: u8) :: u64) = unat x"
  by (simp add: unsigned_ucast_eq take_bit_nat_eq_self_iff less_trans [OF unat_u8_less])

lemma at8_le4 [simp]:
  "at8 T (le4 a b c d) = T ! unat a"
  "at8 T (shr (le4 a b c d) 8) = T ! unat b"
  "at8 T (shr (le4 a b c d) 16) = T ! unat c"
  "at8 T (shr (le4 a b c d) 24) = T ! unat d"
  unfolding at8_def le4_bytes by simp_all

text \<open>The words \<open>4 * i\<close> to \<open>4 * i + 3\<close> of \<open>RK\<close> are the round key \<open>i\<close> of \<open>w\<close>.\<close>

definition round_key :: "u64 list \<Rightarrow> (nat \<Rightarrow> column) \<Rightarrow> nat \<Rightarrow> bool" where
  "round_key RK w i \<longleftrightarrow> RK ! (4 * i) = lew (w (4 * i)) \<and> RK ! (4 * i + 1) = lew (w (4 * i + 1))
     \<and> RK ! (4 * i + 2) = lew (w (4 * i + 2)) \<and> RK ! (4 * i + 3) = lew (w (4 * i + 3))"

lemma AddRoundKey_lews:
  assumes "round_key RK w i"
  shows "lews (AddRoundKey w i (p, q, r, s)) =
    (RK ! (4 * i) XOR lew p, RK ! (4 * i + 1) XOR lew q, RK ! (4 * i + 2) XOR lew r, RK ! (4 * i + 3) XOR lew s)"
  using assms by (simp add: round_key_def lew_xor_col xor.commute)

text \<open>What the tables hold, at a byte.\<close>

lemma tables_at:
  assumes "aes_tables_ok t"
  shows "FSb t ! unat x = sbox x" "RSb t ! unat x = inv_sbox x"
    and "FT0 t ! unat x = lew (mul_col 2 1 1 3 (sbox x, 0, 0, 0))"
    and "FT1 t ! unat x = lew (mul_col 2 1 1 3 (0, sbox x, 0, 0))"
    and "FT2 t ! unat x = lew (mul_col 2 1 1 3 (0, 0, sbox x, 0))"
    and "FT3 t ! unat x = lew (mul_col 2 1 1 3 (0, 0, 0, sbox x))"
    and "RT0 t ! unat x = lew (mul_col 14 9 13 11 (inv_sbox x, 0, 0, 0))"
    and "RT1 t ! unat x = lew (mul_col 14 9 13 11 (0, inv_sbox x, 0, 0))"
    and "RT2 t ! unat x = lew (mul_col 14 9 13 11 (0, 0, inv_sbox x, 0))"
    and "RT3 t ! unat x = lew (mul_col 14 9 13 11 (0, 0, 0, inv_sbox x))"
proof -
  show f: "FSb t ! unat x = sbox x" for x using assms by (simp add: aes_tables_ok_def)
  have "RSb t ! unat (sbox (inv_sbox x)) = inv_sbox x"
    using assms unfolding aes_tables_ok_def by blast
  then show r: "RSb t ! unat x = inv_sbox x" by simp
  have "round_tables t (unat x)" using assms by (simp add: aes_tables_ok_def)
  then show
    "FT0 t ! unat x = lew (mul_col 2 1 1 3 (sbox x, 0, 0, 0))"
    "FT1 t ! unat x = lew (mul_col 2 1 1 3 (0, sbox x, 0, 0))"
    "FT2 t ! unat x = lew (mul_col 2 1 1 3 (0, 0, sbox x, 0))"
    "FT3 t ! unat x = lew (mul_col 2 1 1 3 (0, 0, 0, sbox x))"
    "RT0 t ! unat x = lew (mul_col 14 9 13 11 (inv_sbox x, 0, 0, 0))"
    "RT1 t ! unat x = lew (mul_col 14 9 13 11 (0, inv_sbox x, 0, 0))"
    "RT2 t ! unat x = lew (mul_col 14 9 13 11 (0, 0, inv_sbox x, 0))"
    "RT3 t ! unat x = lew (mul_col 14 9 13 11 (0, 0, 0, inv_sbox x))"
    by (simp_all add: round_tables_def Let_def f r)
qed

lemma mul_col_split:
  "mul_col k0 k1 k2 k3 (a, b, c, d) =
     xor_col (mul_col k0 k1 k2 k3 (a, 0, 0, 0)) (xor_col (mul_col k0 k1 k2 k3 (0, b, 0, 0))
       (xor_col (mul_col k0 k1 k2 k3 (0, 0, c, 0)) (mul_col k0 k1 k2 k3 (0, 0, 0, d))))"
  by simp

lemma AES_FROUND_correct:
  assumes "aes_tables_ok t" "round_key RK w i"
  shows "AES_FROUND t RK (4 * i) (lews s) = lews (AddRoundKey w i (MixColumns (ShiftRows (SubBytes s))))"
proof (cases s rule: ShiftRows.cases)
  case (1 a0 a1 a2 a3 b0 b1 b2 b3 c0 c1 c2 c3 d0 d1 d2 d3)
  show ?thesis
    unfolding 1 map_state.simps map_col.simps ShiftRows.simps AddRoundKey_lews [OF assms(2)]
      mul_col_split [of _ _ _ _ "sbox _" "sbox _"] lew_xor_col
    by (simp only: lews.simps lew.simps AES_FROUND.simps at8_le4 tables_at [OF assms(1)] xor.assoc)
qed

lemma AES_RROUND_correct:
  assumes "aes_tables_ok t" "round_key RK w i"
  shows "AES_RROUND t RK (4 * i) (lews s) = lews (AddRoundKey w i (InvMixColumns (InvSubBytes (InvShiftRows s))))"
proof (cases s rule: ShiftRows.cases)
  case (1 a0 a1 a2 a3 b0 b1 b2 b3 c0 c1 c2 c3 d0 d1 d2 d3)
  show ?thesis
    unfolding 1 map_state.simps map_col.simps InvShiftRows.simps AddRoundKey_lews [OF assms(2)]
      mul_col_split [of _ _ _ _ "inv_sbox _" "inv_sbox _"] lew_xor_col
    by (simp only: lews.simps lew.simps AES_RROUND.simps at8_le4 tables_at [OF assms(1)] xor.assoc)
qed

lemma box4_le4:
  "box4 B (le4 a0 a1 a2 a3) (le4 b0 b1 b2 b3) (le4 c0 c1 c2 c3) (le4 d0 d1 d2 d3) =
     le4 (B ! unat a0) (B ! unat b1) (B ! unat c2) (B ! unat d3)"
  unfolding box4_def at8_le4 by (simp add: le4_def)

lemma last_fround_correct:
  assumes "aes_tables_ok t" "round_key RK w i"
  shows "last_fround t RK (4 * i) (lews s) = lews (AddRoundKey w i (ShiftRows (SubBytes s)))"
  by (cases s rule: ShiftRows.cases)
    (simp only: map_state.simps map_col.simps ShiftRows.simps AddRoundKey_lews [OF assms(2)] lews.simps
      lew.simps last_fround.simps box4_le4 tables_at [OF assms(1)])

lemma last_rround_correct:
  assumes "aes_tables_ok t" "round_key RK w i"
  shows "last_rround t RK (4 * i) (lews s) = lews (AddRoundKey w i (InvSubBytes (InvShiftRows s)))"
  by (cases s rule: ShiftRows.cases)
    (simp only: map_state.simps map_col.simps InvShiftRows.simps AddRoundKey_lews [OF assms(2)] lews.simps
      lew.simps last_rround.simps box4_le4 tables_at [OF assms(1)])

lemma round_loop_correct:
  assumes "\<And>i. i < m \<Longrightarrow> f (4 * Suc i) (lews (R i)) = lews (R (Suc i))" "j + 2 * n \<le> m"
  shows "round_loop f (4 * Suc j) (lews (R j)) n = (lews (R (j + 2 * n)), 4 * Suc (j + 2 * n))"
  using assms(2)
proof (induction n arbitrary: j)
  case (Suc n)
  have "f (4 * Suc j) (lews (R j)) = lews (R (Suc j))" "f (4 * Suc (Suc j)) (lews (R (Suc j))) = lews (R (Suc (Suc j)))"
    using Suc.prems by (intro assms(1); simp)+
  then show ?case using Suc.IH [of "Suc (Suc j)"] Suc.prems by (simp add: Let_def)
qed simp

section \<open>Blocks of bytes\<close>

definition col_at :: "bytes \<Rightarrow> nat \<Rightarrow> column" where
  "col_at b i = (b ! i, b ! (i + 1), b ! (i + 2), b ! (i + 3))"

definition state_at :: "bytes \<Rightarrow> nat \<Rightarrow> aes_state" where
  "state_at b i = (col_at b i, col_at b (i + 4), col_at b (i + 8), col_at b (i + 12))"

fun state_bytes :: "aes_state \<Rightarrow> bytes" where
  "state_bytes ((a0, a1, a2, a3), (b0, b1, b2, b3), (c0, c1, c2, c3), (d0, d1, d2, d3)) =
     [a0, a1, a2, a3, b0, b1, b2, b3, c0, c1, c2, c3, d0, d1, d2, d3]"

text \<open>\<open>bs\<close> written over \<open>b\<close> from position \<open>i\<close> on.\<close>

definition overwrite :: "bytes \<Rightarrow> nat \<Rightarrow> bytes \<Rightarrow> bytes" where
  "overwrite b i bs = take i b @ bs @ drop (i + length bs) b"

lemma length_state_bytes [simp]: "length (state_bytes s) = 16"
  by (cases s rule: state_bytes.cases) simp

lemma length_overwrite [simp]: "i + length bs \<le> length b \<Longrightarrow> length (overwrite b i bs) = length b"
  by (simp add: overwrite_def)

lemma overwrite_append:
  assumes "k = i + length bs" "k + length cs \<le> length b"
  shows "overwrite (overwrite b i bs) k cs = overwrite b i (bs @ cs)"
  using assms by (cases bs) (auto simp: overwrite_def min_def ac_simps)

lemma list_update_overwrite: "i < length b \<Longrightarrow> b[i := x] = overwrite b i [x]"
  by (simp add: overwrite_def upd_conv_take_nth_drop)

lemma overwrite_update:
  assumes "k = i + length bs" "k < length b"
  shows "(overwrite b i bs)[k := x] = overwrite b i (bs @ [x])"
  using assms list_update_overwrite [of k "overwrite b i bs" x] by (simp add: overwrite_append)

lemma GET_ULONG_LE_lew:
  assumes "i + 3 < length b"
  shows "GET_ULONG_LE b i = Some (lew (col_at b i))"
proof -
  have "ucast x OR shl (ucast y) 8 OR shl (ucast z) 16 OR shl (ucast w) 24 = le4 x y z w" for x y z w :: u8
    by (rule bit_word_eqI) (auto simp: bit_le4 bit_simps dest: bit_imp_le_length)
  then show ?thesis using assms by (simp add: GET_ULONG_LE_def col_at_def)
qed

lemma ucast_le4:
  "ucast (le4 a b c d) = a" "ucast (shr (le4 a b c d) 8) = b"
  "ucast (shr (le4 a b c d) 16) = c" "ucast (shr (le4 a b c d) 24) = d"
  by (rule bit_word_eqI, auto simp: bit_le4 bit_simps dest: bit_imp_le_length)+

lemma PUT_ULONG_LE_le4:
  assumes "i + 3 < length o'"
  shows "PUT_ULONG_LE (le4 a b c d) o' i = Some (overwrite o' i [a, b, c, d])"
proof -
  have "PUT_ULONG_LE (le4 a b c d) o' i = Some (o'[i := a, i + 1 := b, i + 2 := c, i + 3 := d])"
    using assms by (simp add: PUT_ULONG_LE_def ucast_le4)
  also have "o'[i := a, i + 1 := b, i + 2 := c, i + 3 := d] = overwrite o' i [a, b, c, d]"
    using assms by (simp add: list_update_overwrite [of i] overwrite_update)
  finally show ?thesis .
qed

lemma PUT_state:
  assumes "o' + 15 < length outb" "lews s = (X0, X1, X2, X3)"
  shows "do { outb \<leftarrow> PUT_ULONG_LE X0 outb o'; outb \<leftarrow> PUT_ULONG_LE X1 outb (o' + 4);
      outb \<leftarrow> PUT_ULONG_LE X2 outb (o' + 8); PUT_ULONG_LE X3 outb (o' + 12) }
    = Some (overwrite outb o' (state_bytes s))"
  using assms(2)
  by (cases s rule: state_bytes.cases)
    (use assms(1) in \<open>auto simp: PUT_ULONG_LE_le4 overwrite_append\<close>)

lemma state_bytes_state_at:
  "i + 16 \<le> length b \<Longrightarrow> state_bytes (state_at b i) = take 16 (drop i b)"
  by (intro nth_equalityI) (auto simp: state_at_def col_at_def nth_Cons' less_Suc_eq numeral_eq_Suc)

lemma state_at_overwrite:
  "i + 16 \<le> length b \<Longrightarrow> state_at (overwrite b i (state_bytes s)) i = s"
  by (cases s rule: state_bytes.cases)
    (simp add: state_at_def col_at_def overwrite_def nth_append)

section \<open>The block cipher\<close>

lemma GET_state:
  assumes "i + 16 \<le> length b"
  shows "GET_ULONG_LE b i = Some (lew (col_at b i))" "GET_ULONG_LE b (i + 4) = Some (lew (col_at b (i + 4)))"
    "GET_ULONG_LE b (i + 8) = Some (lew (col_at b (i + 8)))" "GET_ULONG_LE b (i + 12) = Some (lew (col_at b (i + 12)))"
  by (rule GET_ULONG_LE_lew; use assms in simp)+

lemma first_round_key:
  assumes "round_key RK w 0"
  shows "(lew (col_at b i) XOR RK ! 0, lew (col_at b (i + 4)) XOR RK ! 1, lew (col_at b (i + 8)) XOR RK ! 2,
      lew (col_at b (i + 12)) XOR RK ! 3) = lews (AddRoundKey w 0 (state_at b i))"
  using assms by (simp add: round_key_def state_at_def lew_xor_col nat_bits)

lemma nat_half: "nat (drop_bit 1 (int (2 * n)) - 1) = n - 1"
  by (simp add: drop_bit_eq_div)

text \<open>A context holds the round keys \<open>w\<close> for \<open>Nr\<close> rounds.\<close>

definition has_keys :: "aes_context \<Rightarrow> (nat \<Rightarrow> column) \<Rightarrow> nat \<Rightarrow> bool" where
  "has_keys ctx w Nr \<longleftrightarrow> rk ctx = Some 0 \<and> nr ctx = int Nr \<and> even Nr \<and> 0 < Nr
     \<and> (\<forall>i \<le> Nr. round_key (buf ctx) w i)"

lemma crypt_rounds:
  assumes "\<And>i. i < 2 * n - 1 \<Longrightarrow> f (4 * Suc i) (lews (R i)) = lews (R (Suc i))" "0 < n"
    and "g (4 * (2 * n)) (lews (R (2 * n - 1))) = lews s"
  shows "(let (X, k) = round_loop f 4 (lews (R 0)) (n - 1); Y = f k X in g (k + 4) Y) = lews s"
proof -
  have "round_loop f 4 (lews (R 0)) (n - 1) = (lews (R (2 * (n - 1))), 4 * Suc (2 * (n - 1)))"
    using round_loop_correct [of "2 * n - 1" f R 0 "n - 1"] assms(1,2) by simp
  moreover have "Suc (2 * (n - 1)) = 2 * n - 1" using \<open>0 < n\<close> by simp
  then have "f (4 * Suc (2 * (n - 1))) (lews (R (2 * (n - 1)))) = lews (R (2 * n - 1))"
    using assms(1) [of "2 * (n - 1)"] \<open>0 < n\<close> by simp
  moreover have "4 * Suc (2 * (n - 1)) + 4 = 4 * (2 * n)" using \<open>0 < n\<close> by simp
  ultimately show ?thesis using assms(3) by simp
qed

lemma crypt_words_correct:
  assumes ok: "aes_tables_ok t" and "\<And>i. i \<le> 2 * n \<Longrightarrow> round_key RK w i" "0 < n"
  shows "mode \<noteq> AES_DECRYPT \<Longrightarrow>
      crypt_words t RK 4 (int (2 * n)) mode (lews (AddRoundKey w 0 s)) = lews (Cipher w (2 * n) s)"
    and "mode = AES_DECRYPT \<Longrightarrow>
      crypt_words t RK 4 (int (2 * n)) mode (lews (AddRoundKey w 0 s)) = lews (EqInvCipher w (2 * n) s)"
proof -
  have f: "AES_FROUND t RK (4 * Suc i) (lews (rounds w s i)) = lews (rounds w s (Suc i))"
    and r: "AES_RROUND t RK (4 * Suc i) (lews (inv_rounds w s i)) = lews (inv_rounds w s (Suc i))"
    if "i < 2 * n - 1" for i
    unfolding rounds.simps inv_rounds.simps using that
    by (intro AES_FROUND_correct [OF ok assms(2)] AES_RROUND_correct [OF ok assms(2)]; simp)+
  have "last_fround t RK (4 * (2 * n)) (lews (rounds w s (2 * n - 1))) = lews (Cipher w (2 * n) s)"
    "last_rround t RK (4 * (2 * n)) (lews (inv_rounds w s (2 * n - 1))) = lews (EqInvCipher w (2 * n) s)"
    unfolding Cipher_def EqInvCipher_def
    by (rule last_fround_correct [OF ok assms(2)] last_rround_correct [OF ok assms(2)], simp)+
  note rounds = crypt_rounds [of n "AES_FROUND t RK" "rounds w s" "last_fround t RK", OF f \<open>0 < n\<close> this(1)]
    crypt_rounds [of n "AES_RROUND t RK" "inv_rounds w s" "last_rround t RK", OF r \<open>0 < n\<close> this(2)]
  show "mode \<noteq> AES_DECRYPT \<Longrightarrow>
      crypt_words t RK 4 (int (2 * n)) mode (lews (AddRoundKey w 0 s)) = lews (Cipher w (2 * n) s)"
    and "mode = AES_DECRYPT \<Longrightarrow>
      crypt_words t RK 4 (int (2 * n)) mode (lews (AddRoundKey w 0 s)) = lews (EqInvCipher w (2 * n) s)"
    using rounds unfolding crypt_words_def nat_half rounds.simps inv_rounds.simps by simp_all
qed

lemma aes_crypt_ecb_words:
  assumes "rk ctx = Some 0" "round_key (buf ctx) w 0" "ip + 16 \<le> length inb" "op + 16 \<le> length outb"
    and "crypt_words t (buf ctx) 4 (nr ctx) mode (lews (AddRoundKey w 0 (state_at inb ip))) = lews s"
  shows "aes_crypt_ecb t ctx mode inb ip outb op = Some (overwrite outb op (state_bytes s))"
proof -
  obtain X0 X1 X2 X3 where X: "lews s = (X0, X1, X2, X3)" by (cases "lews s") auto
  show ?thesis
    using assms(1,5) PUT_state [OF _ X, of op outb] assms(4)
    by (simp add: aes_crypt_ecb_def GET_state [OF assms(3)] X Let_def nat_bits flip: first_round_key [OF assms(2)])
qed

theorem aes_crypt_ecb_has_keys:
  assumes ok: "aes_tables_ok t" and keys: "has_keys ctx w Nr"
    and len: "ip + 16 \<le> length inb" "op + 16 \<le> length outb"
  shows "aes_crypt_ecb t ctx mode inb ip outb op =
    Some (overwrite outb op (state_bytes ((if mode = AES_DECRYPT then EqInvCipher else Cipher) w Nr (state_at inb ip))))"
proof -
  obtain n where n: "Nr = 2 * n" "0 < n" using keys by (auto simp: has_keys_def elim: evenE)
  have k: "\<And>i. i \<le> 2 * n \<Longrightarrow> round_key (buf ctx) w i" and r: "rk ctx = Some 0" "nr ctx = int (2 * n)"
    using keys n by (simp_all add: has_keys_def)
  show ?thesis
    by (rule aes_crypt_ecb_words [OF r(1) k len]) (use crypt_words_correct [OF ok k n(2)] in \<open>simp_all add: r n(1)\<close>)
qed

section \<open>The key schedules\<close>

definition schedule :: "u64 list \<Rightarrow> (nat \<Rightarrow> column) \<Rightarrow> nat \<Rightarrow> bool" where
  "schedule RK w m \<longleftrightarrow> length RK = 68 \<and> (\<forall>j < m. RK ! j = lew (w j))"

lemma scheduleD: "schedule RK w m \<Longrightarrow> j < m \<Longrightarrow> RK ! j = lew (w j)"
  by (simp add: schedule_def)

lemma schedule_update: "schedule RK w m \<Longrightarrow> m < 68 \<Longrightarrow> v = lew (w m) \<Longrightarrow> schedule (RK[m := v]) w (Suc m)"
  by (auto simp: schedule_def nth_list_update less_Suc_eq)

lemma schedule_round_key: "schedule RK w m \<Longrightarrow> 4 * i + 4 \<le> m \<Longrightarrow> round_key RK w i"
  by (simp add: schedule_def round_key_def)

lemma load_key_loop_correct:
  assumes "4 * Nk \<le> length key" "Nk \<le> 68"
  shows "schedule RK (KeyExpansion Nk key) i \<Longrightarrow> i + n = Nk \<Longrightarrow>
    \<exists>RK'. load_key_loop key i RK n = Some RK' \<and> schedule RK' (KeyExpansion Nk key) Nk"
proof (induction n arbitrary: i RK)
  case (Suc n)
  then have "KeyExpansion Nk key i = col_at key (4 * i)"
    by (subst KeyExpansion.simps) (simp add: col_at_def)
  moreover have "GET_ULONG_LE key (4 * i) = Some (lew (col_at key (4 * i)))"
    using Suc.prems assms by (intro GET_ULONG_LE_lew) simp
  ultimately show ?case
    using Suc.IH [OF schedule_update [OF Suc.prems(1)]] Suc.prems assms by simp
qed simp

lemma sub_words:
  assumes "aes_tables_ok t"
  shows "sub_rot t (lew c) = lew (SubWord (RotWord c))" "sub_word t (lew c) = lew (SubWord c)"
proof -
  obtain a0 a1 a2 a3 where c: "c = (a0, a1, a2, a3)" by (cases c) auto
  show "sub_rot t (lew c) = lew (SubWord (RotWord c))" "sub_word t (lew c) = lew (SubWord c)"
    unfolding c lew.simps RotWord.simps map_col.simps sub_rot_def sub_word_def at8_le4 tables_at(1) [OF assms]
    by (simp_all add: le4_def)
qed

lemma RCON_at:
  assumes "aes_tables_ok t" "i < 10"
  shows "RCON t ! i = lew (Rcon (Suc i))"
  using assms by (simp add: aes_tables_ok_def Rcon_def le4_def)

text \<open>The three cases of the recursion of KeyExpansion: one more word of the schedule.\<close>

lemma schedule_first:
  assumes ok: "aes_tables_ok t" and "schedule RK (KeyExpansion Nk key) k"
    and "k = m" "i < 10" "0 < Nk" "m = Nk * Suc i" "a = m - Nk" "b = m - 1" "m < 68"
  shows "schedule (RK[m := RK ! a XOR (RCON t ! i XOR sub_rot t (RK ! b))]) (KeyExpansion Nk key) (Suc m)"
proof (rule schedule_update)
  show "schedule RK (KeyExpansion Nk key) m" using assms by simp
  then have "RK ! a = lew (KeyExpansion Nk key a)" "RK ! b = lew (KeyExpansion Nk key b)"
    using assms by (auto intro: scheduleD)
  moreover have "\<not> m < Nk" "m mod Nk = 0" "m div Nk = Suc i" using assms by simp_all
  then have "KeyExpansion Nk key m = xor_col (KeyExpansion Nk key a) (xor_col (SubWord (RotWord (KeyExpansion Nk key b))) (Rcon (Suc i)))"
    using assms by (subst KeyExpansion.simps) (simp add: Let_def)
  ultimately show "RK ! a XOR (RCON t ! i XOR sub_rot t (RK ! b)) = lew (KeyExpansion Nk key m)"
    using assms(4) by (simp add: lew_xor_col sub_words [OF ok] RCON_at [OF ok] xor.commute)
qed fact

lemma schedule_middle:
  assumes "schedule RK (KeyExpansion Nk key) k"
    and "k = m" "0 < Nk" "Nk \<le> m" "m mod Nk \<noteq> 0" "Nk \<le> 6 \<or> m mod Nk \<noteq> 4" "a = m - Nk" "b = m - 1" "m < 68"
  shows "schedule (RK[m := RK ! a XOR RK ! b]) (KeyExpansion Nk key) (Suc m)"
proof (rule schedule_update)
  show "schedule RK (KeyExpansion Nk key) m" using assms by simp
  then have "RK ! a = lew (KeyExpansion Nk key a)" "RK ! b = lew (KeyExpansion Nk key b)"
    using assms by (auto intro: scheduleD)
  moreover have "KeyExpansion Nk key m = xor_col (KeyExpansion Nk key a) (KeyExpansion Nk key b)"
    using assms by (subst KeyExpansion.simps) (auto simp: Let_def)
  ultimately show "RK ! a XOR RK ! b = lew (KeyExpansion Nk key m)" by (simp add: lew_xor_col)
qed fact

lemma schedule_fourth:
  assumes ok: "aes_tables_ok t" and "schedule RK (KeyExpansion Nk key) k"
    and "k = m" "Nk \<le> m" "6 < Nk" "m mod Nk = 4" "a = m - Nk" "b = m - 1" "m < 68"
  shows "schedule (RK[m := RK ! a XOR sub_word t (RK ! b)]) (KeyExpansion Nk key) (Suc m)"
proof (rule schedule_update)
  show "schedule RK (KeyExpansion Nk key) m" using assms by simp
  then have "RK ! a = lew (KeyExpansion Nk key a)" "RK ! b = lew (KeyExpansion Nk key b)"
    using assms by (auto intro: scheduleD)
  moreover have "KeyExpansion Nk key m = xor_col (KeyExpansion Nk key a) (SubWord (KeyExpansion Nk key b))"
    using assms by (subst KeyExpansion.simps) (auto simp: Let_def)
  ultimately show "RK ! a XOR sub_word t (RK ! b) = lew (KeyExpansion Nk key m)"
    by (simp add: lew_xor_col sub_words [OF ok])
qed fact

lemma schedule_Let:
  "schedule v w m \<Longrightarrow> (\<And>RK. schedule RK w m \<Longrightarrow> schedule (f RK) w m') \<Longrightarrow> schedule (let RK = v in f RK) w m'"
  by simp

lemma schedule_end: "schedule RK w m \<Longrightarrow> m' = m \<Longrightarrow> schedule RK w m'"
  by simp

lemma mod_offset:
  assumes "j < Nk" shows "(Nk * i + (Nk + j)) mod Nk = (j :: nat)"
proof -
  have "Nk * i + (Nk + j) = j + Nk * Suc i" by simp
  then show ?thesis using assms by (simp only: mod_mult_self2 mod_less)
qed

lemma key_turn_128_correct:
  assumes ok: "aes_tables_ok t" and i: "i < 10" "r = 4 * i" and s: "schedule RK (KeyExpansion 4 key) (r + 4)"
  shows "schedule (key_turn_128 t i r RK) (KeyExpansion 4 key) (r + 4 + 4)"
proof -
  note m = mod_offset [of 1 4 i, simplified] mod_offset [of 2 4 i, simplified] mod_offset [of 3 4 i, simplified]
   
  show ?thesis
    unfolding key_turn_128_def
    apply (rule schedule_Let, rule schedule_first [OF ok s]; (use i in simp; fail)?)
    apply (rule schedule_Let, erule schedule_middle; (use i in \<open>simp add: m\<close>; fail)?)+
    apply (rule schedule_end, erule schedule_middle; (use i in \<open>simp add: m\<close>; fail)?)
    done
qed

lemma key_turn_192_correct:
  assumes ok: "aes_tables_ok t" and i: "i < 8" "r = 6 * i" and s: "schedule RK (KeyExpansion 6 key) (r + 6)"
  shows "schedule (key_turn_192 t i r RK) (KeyExpansion 6 key) (r + 6 + 6)"
proof -
  note m = mod_offset [of 1 6 i, simplified] mod_offset [of 2 6 i, simplified] mod_offset [of 3 6 i, simplified]
    mod_offset [of 4 6 i, simplified] mod_offset [of 5 6 i, simplified]
  show ?thesis
    unfolding key_turn_192_def
    apply (rule schedule_Let, rule schedule_first [OF ok s]; (use i in simp; fail)?)
    apply (rule schedule_Let, erule schedule_middle; (use i in \<open>simp add: m\<close>; fail)?)+
    apply (rule schedule_end, erule schedule_middle; (use i in \<open>simp add: m\<close>; fail)?)
    done
qed

lemma key_turn_256_correct:
  assumes ok: "aes_tables_ok t" and i: "i < 7" "r = 8 * i" and s: "schedule RK (KeyExpansion 8 key) (r + 8)"
  shows "schedule (key_turn_256 t i r RK) (KeyExpansion 8 key) (r + 8 + 8)"
proof -
  note m = mod_offset [of 1 8 i, simplified] mod_offset [of 2 8 i, simplified] mod_offset [of 3 8 i, simplified]
    mod_offset [of 4 8 i, simplified] mod_offset [of 5 8 i, simplified] mod_offset [of 6 8 i, simplified]
    mod_offset [of 7 8 i, simplified]
  show ?thesis
    unfolding key_turn_256_def
    apply (rule schedule_Let, rule schedule_first [OF ok s]; (use i in simp; fail)?)
    apply (rule schedule_Let, erule schedule_middle; (use i in \<open>simp add: m\<close>; fail)?)+
    apply (rule schedule_Let, erule schedule_fourth [OF ok]; (use i in \<open>simp add: m\<close>; fail)?)
    apply (rule schedule_Let, erule schedule_middle; (use i in \<open>simp add: m\<close>; fail)?)+
    apply (rule schedule_end, erule schedule_middle; (use i in \<open>simp add: m\<close>; fail)?)
    done
qed

lemma key_loop_correct:
  assumes "\<And>i RK. i < N \<Longrightarrow> schedule RK w (Nk * i + Nk) \<Longrightarrow> schedule (turn i (Nk * i) RK) w (Nk * i + Nk + Nk)"
  shows "schedule RK w (Nk * i + Nk) \<Longrightarrow> i + n \<le> N \<Longrightarrow>
    schedule (key_loop turn Nk i (Nk * i) RK n) w (Nk * (i + n) + Nk)"
proof (induction n arbitrary: i RK)
  case (Suc n)
  have "schedule (turn i (Nk * i) RK) w (Nk * (i + 1) + Nk)"
    using assms [OF _ Suc.prems(1)] Suc.prems(2) by (simp add: algebra_simps)
  then show ?case using Suc.IH [of "turn i (Nk * i) RK" "i + 1"] Suc.prems(2) by (simp add: algebra_simps)
qed simp

text \<open>Key sizes and the parameters of FIPS 197.\<close>

definition aes_Nk :: "int \<Rightarrow> nat" where
  "aes_Nk keysize = nat (keysize div 32)"

definition aes_Nr :: "int \<Rightarrow> nat" where
  "aes_Nr keysize = aes_Nk keysize + 6"

definition valid_keysize :: "int \<Rightarrow> bool" where
  "valid_keysize keysize \<longleftrightarrow> keysize = 128 \<or> keysize = 192 \<or> keysize = 256"

text \<open>The invariant of the static variables.\<close>

definition aes_static_ok :: "aes_tables \<Rightarrow> bool" where
  "aes_static_ok t \<longleftrightarrow> table_lengths t \<and> (aes_init_done t \<noteq> 0 \<longrightarrow> aes_tables_ok t)"

definition frame_ok :: "int list \<times> int list \<Rightarrow> bool" where
  "frame_ok frame \<longleftrightarrow> length (fst frame) = 256 \<and> length (snd frame) = 256"

lemma aes_tables_ok_done [simp]: "aes_tables_ok (t\<lparr>aes_init_done := b\<rparr>) = aes_tables_ok t"
  by (simp add: aes_tables_ok_def table_lengths_def round_tables_def)

lemma init_tables_ok:
  assumes "aes_static_ok t" "frame_ok frame"
  shows "aes_tables_ok (if aes_init_done t = 0
      then (aes_gen_tables (fst frame) (snd frame) t)\<lparr>aes_init_done := 1\<rparr> else t)"
  using assms aes_gen_tables_ok(1) by (simp add: aes_static_ok_def frame_ok_def)

lemma key_loops:
  assumes ok: "aes_tables_ok t" and v: "valid_keysize keysize" "aes_rounds keysize = Some n"
    and s: "schedule RK (KeyExpansion (aes_Nk keysize) key) (aes_Nk keysize)"
  shows "schedule (if n = 10 then key_loop (key_turn_128 t) 4 0 0 RK 10
      else if n = 12 then key_loop (key_turn_192 t) 6 0 0 RK 8
      else if n = 14 then key_loop (key_turn_256 t) 8 0 0 RK 7 else RK)
    (KeyExpansion (aes_Nk keysize) key) (4 * aes_Nr keysize + 4)"
proof -
  have weaken: "schedule RK w m \<Longrightarrow> m' \<le> m \<Longrightarrow> schedule RK w m'" for RK w m m'
    by (simp add: schedule_def)
  from v(1) consider "keysize = 128" | "keysize = 192" | "keysize = 256"
    by (auto simp: valid_keysize_def)
  then show ?thesis
  proof cases
    case 1
    then show ?thesis
      using key_loop_correct [of 10 "KeyExpansion 4 key" 4 "key_turn_128 t" RK 0 10, OF key_turn_128_correct [OF ok]]
        s v(2) by (simp add: aes_Nk_def aes_Nr_def aes_rounds_def)
  next
    case 2
    then show ?thesis
      using key_loop_correct [of 8 "KeyExpansion 6 key" 6 "key_turn_192 t" RK 0 8, OF key_turn_192_correct [OF ok]]
        s v(2) by (auto simp: aes_Nk_def aes_Nr_def aes_rounds_def intro: weaken)
  next
    case 3
    then show ?thesis
      using key_loop_correct [of 7 "KeyExpansion 8 key" 8 "key_turn_256 t" RK 0 7, OF key_turn_256_correct [OF ok]]
        s v(2) by (auto simp: aes_Nk_def aes_Nr_def aes_rounds_def intro: weaken)
  qed
qed

text \<open>The arguments the key functions are called with.\<close>

definition setkey_args :: "int list \<times> int list \<Rightarrow> aes_context \<Rightarrow> bytes \<Rightarrow> int \<Rightarrow> bool" where
  "setkey_args frame ctx key keysize \<longleftrightarrow> frame_ok frame \<and> length (buf ctx) = 68
     \<and> valid_keysize keysize \<and> keysize \<le> 8 * int (length key)"

lemma aes_rounds_valid: "valid_keysize keysize \<Longrightarrow> aes_rounds keysize = Some (int (aes_Nr keysize))"
  by (auto simp: valid_keysize_def aes_rounds_def aes_Nr_def aes_Nk_def)

lemma aes_Nr_even: "valid_keysize keysize \<Longrightarrow> even (aes_Nr keysize) \<and> 0 < aes_Nr keysize \<and> aes_Nr keysize \<le> 14"
  by (auto simp: valid_keysize_def aes_Nr_def aes_Nk_def)

lemma aes_setkey_enc_correct:
  assumes t: "aes_static_ok t" and a: "setkey_args frame ctx key keysize"
  obtains t' ctx' where "aes_setkey_enc frame t ctx key keysize = Some (t', ctx')"
    and "aes_tables_ok t'" "aes_static_ok t'" "rk ctx' = Some 0" "nr ctx' = int (aes_Nr keysize)"
    and "schedule (buf ctx') (KeyExpansion (aes_Nk keysize) key) (4 * aes_Nr keysize + 4)"
proof -
  let ?t = "if aes_init_done t = 0
      then (aes_gen_tables (fst frame) (snd frame) t)\<lparr>aes_init_done := 1\<rparr> else t"
  let ?w = "KeyExpansion (aes_Nk keysize) key"
  have v: "valid_keysize keysize" using a by (simp add: setkey_args_def)
  have ok: "aes_tables_ok ?t" using init_tables_ok t a by (simp add: setkey_args_def)
  have Nk: "4 * aes_Nk keysize \<le> length key" "aes_Nk keysize \<le> 68" "nat (drop_bit 5 keysize) = aes_Nk keysize"
    using a v by (auto simp: setkey_args_def valid_keysize_def aes_Nk_def drop_bit_eq_div)
  obtain RK where RK: "load_key_loop key 0 (buf ctx) (aes_Nk keysize) = Some RK" "schedule RK ?w (aes_Nk keysize)"
    using load_key_loop_correct [OF Nk(1,2), of "buf ctx" 0] a by (auto simp: schedule_def setkey_args_def)
  define RK' where "RK' = (if int (aes_Nr keysize) = 10 then key_loop (key_turn_128 ?t) 4 0 0 RK 10
    else if int (aes_Nr keysize) = 12 then key_loop (key_turn_192 ?t) 6 0 0 RK 8
    else if int (aes_Nr keysize) = 14 then key_loop (key_turn_256 ?t) 8 0 0 RK 7 else RK)"
  have s: "schedule RK' ?w (4 * aes_Nr keysize + 4)"
    unfolding RK'_def by (rule key_loops [OF ok v aes_rounds_valid [OF v] RK(2)])
  have "aes_static_ok ?t" using ok by (simp add: aes_static_ok_def aes_tables_ok_def)
  moreover define c where "c = ctx\<lparr>nr := int (aes_Nr keysize), rk := Some 0, buf := RK'\<rparr>"
  have "aes_setkey_enc frame t ctx key keysize = Some (?t, c)"
    unfolding aes_setkey_enc_def Let_def aes_rounds_valid [OF v] RK'_def c_def by (simp add: Nk(3) RK(1))
  moreover have "rk c = Some 0" "nr c = int (aes_Nr keysize)" "schedule (buf c) ?w (4 * aes_Nr keysize + 4)"
    using s by (simp_all add: c_def)
  ultimately show thesis using ok by (intro that)
qed

lemma inv_key_word_lew:
  assumes "aes_tables_ok t"
  shows "inv_key_word t (lew c) = lew (inv_mix c)"
proof -
  obtain a0 a1 a2 a3 where c: "c = (a0, a1, a2, a3)" by (cases c) auto
  show ?thesis
    unfolding c lew.simps inv_key_word_def at8_le4 tables_at [OF assms] inv_sbox_sbox
      mul_col_split [of _ _ _ _ a0 a1] lew_xor_col xor.assoc by (rule refl)
qed

lemma schedule_copy4:
  assumes "schedule RK w r" "r + 4 \<le> 68" "\<And>j. j < 4 \<Longrightarrow> f (SK ! (s + j)) = lew (w (r + j))"
  shows "schedule (copy4 f SK s RK r) w (r + 4)"
proof -
  note f = assms(3) [of 0] assms(3) [of 1] assms(3) [of 2] assms(3) [of 3]
  have "schedule (RK[r := f (SK ! s)]) w (Suc r)"
    by (rule schedule_update [OF assms(1)]) (use f assms(2) in simp_all)
  note schedule_update [OF this, of "f (SK ! (s + 1))"]
  then have "schedule (RK[r := f (SK ! s), Suc r := f (SK ! (s + 1))]) w (Suc (Suc r))"
    using f assms(2) by simp
  note schedule_update [OF this, of "f (SK ! (s + 2))"]
  then have "schedule (RK[r := f (SK ! s), Suc r := f (SK ! (s + 1)), Suc (Suc r) := f (SK ! (s + 2))]) w (Suc (Suc (Suc r)))"
    using f assms(2) by simp
  note schedule_update [OF this, of "f (SK ! (s + 3))"]
  then have "schedule (RK[r := f (SK ! s), Suc r := f (SK ! (s + 1)), Suc (Suc r) := f (SK ! (s + 2)),
      Suc (Suc (Suc r)) := f (SK ! (s + 3))]) w (Suc (Suc (Suc (Suc r))))"
    using f assms(2) by (simp add: numeral_3_eq_3)
  then show ?thesis by (simp add: copy4_def numeral_3_eq_3 numeral_2_eq_2 numeral_Bit0)
qed

lemma dec_key_loop_correct:
  assumes ok: "aes_tables_ok t" and SK: "\<And>j. j < 4 * Nr + 4 \<Longrightarrow> SK ! j = lew (w j)" and "Nr \<le> 16"
  shows "schedule RK (dec_keys w Nr) (4 * (Nr - i)) \<Longrightarrow> i < Nr \<Longrightarrow>
    \<exists>RK'. dec_key_loop t SK (4 * i) RK (4 * (Nr - i)) i = (RK', 0, 4 * Nr) \<and> schedule RK' (dec_keys w Nr) (4 * Nr)"
proof (induction i arbitrary: RK)
  case (Suc i)
  let ?r = "4 * (Nr - Suc i)"
  have "inv_key_word t (SK ! (4 * Suc i + j)) = lew (dec_keys w Nr (?r + j))" if "j < 4" for j
  proof -
    have "Nr - Suc i \<noteq> Nr" "Nr - Suc i \<noteq> 0" using Suc.prems(2) by simp_all
    then show ?thesis
      using SK [of "4 * Suc i + j"] dec_keys_block [OF that, of w Nr "Nr - Suc i"] Suc.prems(2) that
      by (simp add: inv_key_word_lew [OF ok])
  qed
  then have "schedule (copy4 (inv_key_word t) SK (4 * Suc i) RK ?r) (dec_keys w Nr) (?r + 4)"
    using Suc.prems \<open>Nr \<le> 16\<close> by (intro schedule_copy4) simp_all
  moreover have "?r + 4 = 4 * (Nr - i)" "4 * Suc i + 4 - 8 = 4 * i" using Suc.prems by simp_all
  ultimately show ?case
    using Suc.IH Suc.prems(2) unfolding dec_key_loop.simps Let_def by simp
qed simp

lemma aes_setkey_dec_correct:
  assumes t: "aes_static_ok t" and a: "setkey_args frame cty key keysize" and "length (buf ctx) = 68"
  obtains t' ctx' where "aes_setkey_dec frame cty t ctx key keysize = Some (t', ctx')"
    and "aes_tables_ok t'" "aes_static_ok t'"
    and "has_keys ctx' (dec_keys (KeyExpansion (aes_Nk keysize) key) (aes_Nr keysize)) (aes_Nr keysize)"
proof -
  let ?w = "KeyExpansion (aes_Nk keysize) key" and ?Nr = "aes_Nr keysize"
  let ?d = "dec_keys ?w ?Nr"
  have v: "valid_keysize keysize" using a by (simp add: setkey_args_def)
  obtain t' c where c: "aes_setkey_enc frame t cty key keysize = Some (t', c)"
    "aes_tables_ok t'" "aes_static_ok t'" "rk c = Some 0" "nr c = int ?Nr" "schedule (buf c) ?w (4 * ?Nr + 4)"
    by (rule aes_setkey_enc_correct [OF t a])
  have SK: "\<And>j. j < 4 * ?Nr + 4 \<Longrightarrow> buf c ! j = lew (?w j)" by (rule scheduleD [OF c(6)])
  note Nr = aes_Nr_even [OF v]
  have d: "?d j = ?w (4 * ?Nr + j)" "?d (4 * ?Nr + j) = ?w j" if "j < 4" for j
    using dec_keys_block [OF that, of ?w ?Nr 0] dec_keys_block [OF that, of ?w ?Nr ?Nr] by simp_all
  have "schedule (copy4 (\<lambda>x. x) (buf c) (4 * ?Nr) (buf ctx) 0) ?d (0 + 4)"
    by (rule schedule_copy4) (use assms(3) in \<open>simp_all add: schedule_def SK d\<close>)
  moreover have "4 = 4 * (?Nr - (?Nr - 1))" "4 * ?Nr + 4 - 8 = 4 * (?Nr - 1)" using Nr by simp_all
  ultimately obtain RK where loop: "dec_key_loop t' (buf c) (4 * ?Nr + 4 - 8)
      (copy4 (\<lambda>x. x) (buf c) (4 * ?Nr) (buf ctx) 0) 4 (?Nr - 1) = (RK, 0, 4 * ?Nr)" and RK: "schedule RK ?d (4 * ?Nr)"
    using dec_key_loop_correct [OF c(2), where SK = "buf c" and w = ?w and Nr = ?Nr, OF SK, where RK = "copy4 (\<lambda>x. x) (buf c) (4 * ?Nr) (buf ctx) 0" and i = "?Nr - 1"] Nr by auto
  have last: "schedule (copy4 (\<lambda>x. x) (buf c) 0 RK (4 * ?Nr)) ?d (4 * ?Nr + 4)"
    by (rule schedule_copy4 [OF RK]) (use Nr in \<open>simp_all add: SK d\<close>)
  have "aes_setkey_dec frame cty t ctx key keysize =
    Some (t', ctx\<lparr>nr := int ?Nr, rk := Some 0, buf := copy4 (\<lambda>x. x) (buf c) 0 RK (4 * ?Nr)\<rparr>)"
    using loop nat_int [of "?Nr - 1"] Nr by (simp add: aes_setkey_dec_def of_nat_diff aes_rounds_valid [OF v] c Let_def mult.commute [of _ 4] nat_diff_distrib)
  moreover have "has_keys (ctx\<lparr>nr := int ?Nr, rk := Some 0, buf := copy4 (\<lambda>x. x) (buf c) 0 RK (4 * ?Nr)\<rparr>) ?d ?Nr"
    using schedule_round_key [OF last] Nr by (simp add: has_keys_def)
  ultimately show thesis using that c(2,3) by blast
qed

section \<open>Correctness of the block cipher\<close>

definition aes_enc_block :: "bytes \<Rightarrow> int \<Rightarrow> bytes \<Rightarrow> bytes" where
  "aes_enc_block key keysize b =
     state_bytes (Cipher (KeyExpansion (aes_Nk keysize) key) (aes_Nr keysize) (state_at b 0))"

definition aes_dec_block :: "bytes \<Rightarrow> int \<Rightarrow> bytes \<Rightarrow> bytes" where
  "aes_dec_block key keysize b =
     state_bytes (EqInvCipher (dec_keys (KeyExpansion (aes_Nk keysize) key) (aes_Nr keysize)) (aes_Nr keysize) (state_at b 0))"

lemma state_at_take: "ip + 16 \<le> length b \<Longrightarrow> state_at (take 16 (drop ip b)) 0 = state_at b ip"
  by (simp add: state_at_def col_at_def add.commute)

lemma state_at_state_bytes [simp]: "state_at (state_bytes s) 0 = s"
  by (cases s rule: state_bytes.cases) (simp add: state_at_def col_at_def)

lemma length_aes_blocks [simp]:
  "length (aes_enc_block key keysize b) = 16" "length (aes_dec_block key keysize b) = 16"
  by (simp_all add: aes_enc_block_def aes_dec_block_def)

lemma aes_dec_enc_block:
  assumes "length b = 16"
  shows "aes_dec_block key keysize (aes_enc_block key keysize b) = b"
  using assms state_bytes_state_at [of 0 b] EqInvCipher_Cipher [of "aes_Nr keysize"]
  by (simp add: aes_enc_block_def aes_dec_block_def aes_Nr_def)

text \<open>A context is set up for encryption, or decryption, with a key.\<close>

definition enc_ready :: "aes_tables \<Rightarrow> aes_context \<Rightarrow> bytes \<Rightarrow> int \<Rightarrow> bool" where
  "enc_ready t ctx key keysize \<longleftrightarrow> aes_tables_ok t \<and> aes_static_ok t
     \<and> has_keys ctx (KeyExpansion (aes_Nk keysize) key) (aes_Nr keysize)"

definition dec_ready :: "aes_tables \<Rightarrow> aes_context \<Rightarrow> bytes \<Rightarrow> int \<Rightarrow> bool" where
  "dec_ready t ctx key keysize \<longleftrightarrow> aes_tables_ok t \<and> aes_static_ok t
     \<and> has_keys ctx (dec_keys (KeyExpansion (aes_Nk keysize) key) (aes_Nr keysize)) (aes_Nr keysize)"

lemma aes_setkey_enc_ready:
  assumes "aes_static_ok t" "setkey_args frame ctx key keysize"
  obtains t' ctx' where "aes_setkey_enc frame t ctx key keysize = Some (t', ctx')" "enc_ready t' ctx' key keysize"
proof -
  have v: "valid_keysize keysize" using assms by (simp add: setkey_args_def)
  obtain t' ctx' where c: "aes_setkey_enc frame t ctx key keysize = Some (t', ctx')"
    "aes_tables_ok t'" "aes_static_ok t'" "rk ctx' = Some 0" "nr ctx' = int (aes_Nr keysize)"
    "schedule (buf ctx') (KeyExpansion (aes_Nk keysize) key) (4 * aes_Nr keysize + 4)"
    by (rule aes_setkey_enc_correct [OF assms])
  have "enc_ready t' ctx' key keysize"
    using c aes_Nr_even [OF v] schedule_round_key [OF c(6)] by (simp add: enc_ready_def has_keys_def)
  with c(1) show thesis by (rule that)
qed

lemma aes_setkey_dec_ready:
  assumes "aes_static_ok t" "setkey_args frame cty key keysize" "length (buf ctx) = 68"
  obtains t' ctx' where "aes_setkey_dec frame cty t ctx key keysize = Some (t', ctx')" "dec_ready t' ctx' key keysize"
  using aes_setkey_dec_correct [OF assms] that by (auto simp: dec_ready_def)

lemma aes_crypt_ecb_enc:
  assumes "enc_ready t ctx key keysize" "mode \<noteq> AES_DECRYPT" "ip + 16 \<le> length inb" "op + 16 \<le> length outb"
  shows "aes_crypt_ecb t ctx mode inb ip outb op = Some (overwrite outb op (aes_enc_block key keysize (take 16 (drop ip inb))))"
  using aes_crypt_ecb_has_keys [of t ctx "KeyExpansion (aes_Nk keysize) key" "aes_Nr keysize" ip inb op outb mode] assms
  by (simp add: enc_ready_def aes_enc_block_def state_at_take)

lemma aes_crypt_ecb_dec:
  assumes "dec_ready t ctx key keysize" "ip + 16 \<le> length inb" "op + 16 \<le> length outb"
  shows "aes_crypt_ecb t ctx AES_DECRYPT inb ip outb op = Some (overwrite outb op (aes_dec_block key keysize (take 16 (drop ip inb))))"
  using aes_crypt_ecb_has_keys [of t ctx "dec_keys (KeyExpansion (aes_Nk keysize) key) (aes_Nr keysize)"
      "aes_Nr keysize" ip inb op outb AES_DECRYPT] assms
  by (simp add: dec_ready_def aes_dec_block_def state_at_take)

text \<open>The context keeps its keys when the tables of another call are used.\<close>

lemma enc_ready_tables: "enc_ready t ctx key keysize \<Longrightarrow> dec_ready t' ctx' key' keysize' \<Longrightarrow> enc_ready t' ctx key keysize"
  by (simp add: enc_ready_def dec_ready_def)

lemma take_drop_overwrite [simp]:
  "op + length bs \<le> length outb \<Longrightarrow> take (length bs) (drop op (overwrite outb op bs)) = bs"
  by (simp add: overwrite_def)

text \<open>C5: for a supported key size, \<open>aes_setkey_enc\<close> followed by \<open>aes_crypt_ecb\<close> in encryption mode writes
  the block that the byte-wise cipher of FIPS 197 computes with its key expansion; the tables are those
  that \<open>aes_gen_tables\<close> computes at the first call, whatever its stack held, or those of an earlier call.\<close>

theorem aes_encrypts_fips197:
  assumes "aes_static_ok t" "setkey_args frame ctx key keysize"
    and "ip + 16 \<le> length inb" "op + 16 \<le> length outb"
  shows "do { (t, ctx) \<leftarrow> aes_setkey_enc frame t ctx key keysize;
        aes_crypt_ecb t ctx AES_ENCRYPT inb ip outb op } =
    Some (overwrite outb op (state_bytes
      (Cipher (KeyExpansion (aes_Nk keysize) key) (aes_Nr keysize) (state_at inb ip))))"
proof -
  obtain t' ctx' where "aes_setkey_enc frame t ctx key keysize = Some (t', ctx')" "enc_ready t' ctx' key keysize"
    by (rule aes_setkey_enc_ready [OF assms(1,2)])
  then show ?thesis
    using assms(3,4) by (simp add: aes_crypt_ecb_enc aes_enc_block_def state_at_take)
qed

text \<open>C6: decryption undoes encryption: with a context set up by \<open>aes_setkey_enc\<close> and one set up by
  \<open>aes_setkey_dec\<close> from the same key, decrypting an encrypted block writes the original block.\<close>

theorem aes_ecb_roundtrip:
  assumes "aes_static_ok t" "setkey_args frame ctx key keysize"
    and "setkey_args frame' cty key keysize" "length (buf ctx') = 68"
    and "ip + 16 \<le> length inb" "op + 16 \<le> length outb" "op' + 16 \<le> length outb'"
  shows "do { (t, ctx) \<leftarrow> aes_setkey_enc frame t ctx key keysize;
        (t, ctx') \<leftarrow> aes_setkey_dec frame' cty t ctx' key keysize;
        outb \<leftarrow> aes_crypt_ecb t ctx AES_ENCRYPT inb ip outb op;
        aes_crypt_ecb t ctx' AES_DECRYPT outb op outb' op' } =
    Some (overwrite outb' op' (take 16 (drop ip inb)))"
proof -
  obtain t1 c1 where 1: "aes_setkey_enc frame t ctx key keysize = Some (t1, c1)" "enc_ready t1 c1 key keysize"
    by (rule aes_setkey_enc_ready [OF assms(1,2)])
  then have "aes_static_ok t1" by (simp add: enc_ready_def)
  from aes_setkey_dec_ready [OF this assms(3,4)] obtain t2 c2
    where 2: "aes_setkey_dec frame' cty t1 ctx' key keysize = Some (t2, c2)" "dec_ready t2 c2 key keysize" by blast
  note e = aes_crypt_ecb_enc [OF enc_ready_tables [OF 1(2) 2(2)]]
  have "take 16 (drop op (overwrite outb op (aes_enc_block key keysize (take 16 (drop ip inb))))) =
      aes_enc_block key keysize (take 16 (drop ip inb))"
    using take_drop_overwrite [of op "aes_enc_block key keysize (take 16 (drop ip inb))" outb] assms(6) by simp
  then show ?thesis
    using 1(1) 2(1) assms(5-7) by (simp add: e aes_crypt_ecb_dec [OF 2(2)] aes_dec_enc_block)
qed

lemma aes_static_static_ok: "aes_static_ok aes_static"
  by (simp add: aes_static_def aes_static_ok_def table_lengths_def)

text \<open>A key size other than 128, 192 and 256 is ignored: both key functions return without touching
  the context, so that one which never got a key has none.\<close>

theorem aes_setkey_bad_size:
  assumes "\<not> valid_keysize keysize"
  shows "map_option snd (aes_setkey_enc frame t ctx key keysize) = Some ctx
    \<and> aes_setkey_dec frame cty t ctx key keysize = Some (t, ctx)"
  using assms by (simp_all add: aes_setkey_enc_def aes_setkey_dec_def aes_rounds_def valid_keysize_def Let_def)

text \<open>A context and a stack as they may be found, and a key of 256 bits.\<close>

definition stale_frame :: "int list \<times> int list" where
  "stale_frame = (replicate 256 7, replicate 256 (- 1))"

definition stale_context :: aes_context where
  "stale_context = \<lparr>nr = 3, rk = None, buf = replicate 68 0xAA\<rparr>"

lemma stale_args: "setkey_args stale_frame stale_context (replicate 32 0x5A) 256" "length (buf stale_context) = 68"
  by (simp_all add: stale_frame_def stale_context_def setkey_args_def frame_ok_def valid_keysize_def)

theorem aes_encrypts_fips197_witness:
  "do { (t, ctx) \<leftarrow> aes_setkey_enc stale_frame aes_static stale_context (replicate 32 0x5A) 256;
      aes_crypt_ecb t ctx AES_ENCRYPT (replicate 16 9) 0 (replicate 16 0) 0 } =
    Some (overwrite (replicate 16 0) 0 (state_bytes
      (Cipher (KeyExpansion 8 (replicate 32 0x5A)) 14 (state_at (replicate 16 9) 0))))"
  using aes_encrypts_fips197 [OF aes_static_static_ok stale_args(1), of 0 "replicate 16 9" 0 "replicate 16 0"]
  by (simp add: aes_Nk_def aes_Nr_def)

theorem aes_ecb_roundtrip_witness:
  "do { (t, ctx) \<leftarrow> aes_setkey_enc stale_frame aes_static stale_context (replicate 32 0x5A) 256;
      (t, ctx') \<leftarrow> aes_setkey_dec stale_frame stale_context t stale_context (replicate 32 0x5A) 256;
      outb \<leftarrow> aes_crypt_ecb t ctx AES_ENCRYPT (replicate 16 9) 0 (replicate 16 0) 0;
      aes_crypt_ecb t ctx' AES_DECRYPT outb 0 (replicate 16 0) 0 } = Some (replicate 16 9)"
  using aes_ecb_roundtrip [OF aes_static_static_ok stale_args(1,1,2), of 0 "replicate 16 9" 0 "replicate 16 0"
      0 "replicate 16 0"]
  by (simp add: overwrite_def)

theorem aes_setkey_bad_size_witness:
  "aes_setkey_dec stale_frame stale_context aes_static stale_context [] 64 = Some (aes_static, stale_context)"
  using aes_setkey_bad_size [of 64 stale_frame aes_static stale_context "[]" stale_context] by (simp add: valid_keysize_def)

end
