(* ===== verification/Aes_Modes.thy ===== *)
theory Aes_Modes
  imports Aes
begin

text \<open>
  The modes of operation of \<open>src/aes/aes.c\<close>: \<open>aes_crypt_cbc\<close> and \<open>aes_crypt_cfb128\<close>.  The input and
  output pointers advance together and start at the beginning of their buffers, so that one position
  serves both; the vector \<open>iv\<close> is updated for the next call.

  The locale \<open>block_cipher\<close> is what the modes rely on; the block functions of AES with any key
  interpret it.
\<close>

section \<open>The code\<close>

definition slice16 :: "bytes \<Rightarrow> nat \<Rightarrow> bytes option" where
  "slice16 b i = (if i + 16 \<le> length b then Some (take 16 (drop i b)) else None)"

text \<open>\<open>output[i] = src[i] ^ iv[i]\<close> for the turns \<open>i\<close> to \<open>15\<close>, \<open>src\<close> being the input (encryption) or the
  output itself (decryption).\<close>

primrec cbc_xor_in :: "bytes \<Rightarrow> bytes \<Rightarrow> bytes \<Rightarrow> nat \<Rightarrow> nat \<Rightarrow> nat \<Rightarrow> bytes option" where
  "cbc_xor_in inb iv outb p i 0 = Some outb" |
  "cbc_xor_in inb iv outb p i (Suc n) = do {
     x \<leftarrow> fetch inb (p + i);
     v \<leftarrow> fetch iv i;
     outb \<leftarrow> store outb (p + i) (x XOR v);
     cbc_xor_in inb iv outb p (i + 1) n }"

primrec cbc_xor_out :: "bytes \<Rightarrow> bytes \<Rightarrow> nat \<Rightarrow> nat \<Rightarrow> nat \<Rightarrow> bytes option" where
  "cbc_xor_out iv outb p i 0 = Some outb" |
  "cbc_xor_out iv outb p i (Suc n) = do {
     x \<leftarrow> fetch outb (p + i);
     v \<leftarrow> fetch iv i;
     outb \<leftarrow> store outb (p + i) (x XOR v);
     cbc_xor_out iv outb p (i + 1) n }"

function cbc_dec_loop :: "aes_tables \<Rightarrow> aes_context \<Rightarrow> int \<Rightarrow> bytes \<Rightarrow> bytes \<Rightarrow> bytes \<Rightarrow> nat \<Rightarrow> (bytes \<times> bytes) option" where
  "cbc_dec_loop t ctx len iv inb outb p =
     (if len > 0
      then do {
        temp \<leftarrow> slice16 inb p;
        outb \<leftarrow> aes_crypt_ecb t ctx AES_DECRYPT inb p outb p;
        outb \<leftarrow> cbc_xor_out iv outb p 0 16;
        cbc_dec_loop t ctx (len - 16) temp inb outb (p + 16) }
      else Some (iv, outb))"
  by auto
termination by (relation "measure (\<lambda>(_, _, len, _). nat len)") auto

function cbc_enc_loop :: "aes_tables \<Rightarrow> aes_context \<Rightarrow> int \<Rightarrow> int \<Rightarrow> bytes \<Rightarrow> bytes \<Rightarrow> bytes \<Rightarrow> nat \<Rightarrow> (bytes \<times> bytes) option" where
  "cbc_enc_loop t ctx mode len iv inb outb p =
     (if len > 0
      then do {
        outb \<leftarrow> cbc_xor_in inb iv outb p 0 16;
        outb \<leftarrow> aes_crypt_ecb t ctx mode outb p outb p;
        iv \<leftarrow> slice16 outb p;
        cbc_enc_loop t ctx mode (len - 16) iv inb outb (p + 16) }
      else Some (iv, outb))"
  by auto
termination by (relation "measure (\<lambda>(_, _, _, len, _). nat len)") auto

declare cbc_dec_loop.simps [simp del] cbc_enc_loop.simps [simp del]

definition aes_crypt_cbc :: "aes_tables \<Rightarrow> aes_context \<Rightarrow> int \<Rightarrow> int \<Rightarrow> bytes \<Rightarrow> bytes \<Rightarrow> bytes \<Rightarrow> (bytes \<times> bytes) option" where
  "aes_crypt_cbc t ctx mode len iv inb outb =
     (if mode = AES_DECRYPT then cbc_dec_loop t ctx len iv inb outb 0
      else cbc_enc_loop t ctx mode len iv inb outb 0)"

text \<open>CFB works byte by byte; \<open>n\<close> is the position in \<open>iv\<close>.  \<open>while (length--)\<close> runs \<open>length\<close> times; with a
  negative length it would leave every buffer.\<close>

primrec cfb_dec_loop :: "aes_tables \<Rightarrow> aes_context \<Rightarrow> nat \<Rightarrow> bytes \<Rightarrow> bytes \<Rightarrow> bytes \<Rightarrow> nat \<Rightarrow> nat \<Rightarrow> (nat \<times> bytes \<times> bytes) option" where
  "cfb_dec_loop t ctx n iv inb outb p 0 = Some (n, iv, outb)" |
  "cfb_dec_loop t ctx n iv inb outb p (Suc len) = do {
     iv \<leftarrow> (if n = 0 then aes_crypt_ecb t ctx AES_ENCRYPT iv 0 iv 0 else Some iv);
     c \<leftarrow> fetch inb p;
     v \<leftarrow> fetch iv n;
     outb \<leftarrow> store outb p (c XOR v);
     iv \<leftarrow> store iv n c;
     cfb_dec_loop t ctx ((n + 1) mod 16) iv inb outb (p + 1) len }"

primrec cfb_enc_loop :: "aes_tables \<Rightarrow> aes_context \<Rightarrow> nat \<Rightarrow> bytes \<Rightarrow> bytes \<Rightarrow> bytes \<Rightarrow> nat \<Rightarrow> nat \<Rightarrow> (nat \<times> bytes \<times> bytes) option" where
  "cfb_enc_loop t ctx n iv inb outb p 0 = Some (n, iv, outb)" |
  "cfb_enc_loop t ctx n iv inb outb p (Suc len) = do {
     iv \<leftarrow> (if n = 0 then aes_crypt_ecb t ctx AES_ENCRYPT iv 0 iv 0 else Some iv);
     v \<leftarrow> fetch iv n;
     c \<leftarrow> fetch inb p;
     outb \<leftarrow> store outb p (v XOR c);
     iv \<leftarrow> store iv n (v XOR c);
     cfb_enc_loop t ctx ((n + 1) mod 16) iv inb outb (p + 1) len }"

definition aes_crypt_cfb128 ::
    "aes_tables \<Rightarrow> aes_context \<Rightarrow> int \<Rightarrow> int \<Rightarrow> nat \<Rightarrow> bytes \<Rightarrow> bytes \<Rightarrow> bytes \<Rightarrow> (nat \<times> bytes \<times> bytes) option" where
  "aes_crypt_cfb128 t ctx mode len iv_off iv inb outb =
     (if len < 0 then None
      else if mode = AES_DECRYPT then cfb_dec_loop t ctx iv_off iv inb outb 0 (nat len)
      else cfb_enc_loop t ctx iv_off iv inb outb 0 (nat len))"

section \<open>The modes over a block cipher\<close>

definition xor_bytes :: "bytes \<Rightarrow> bytes \<Rightarrow> bytes" where
  "xor_bytes a b = map2 (XOR) a b"

text \<open>The last block, or \<open>iv\<close> when there is none, chains the calls.\<close>

definition next_iv :: "bytes \<Rightarrow> bytes \<Rightarrow> bytes" where
  "next_iv iv c = (if c = [] then iv else drop (length c - 16) c)"

locale block_cipher =
  fixes enc dec :: "bytes \<Rightarrow> bytes"
  assumes length_enc: "length b = 16 \<Longrightarrow> length (enc b) = 16"
    and length_dec: "length b = 16 \<Longrightarrow> length (dec b) = 16"
    and dec_enc: "length b = 16 \<Longrightarrow> dec (enc b) = b"

primrec cbc_enc :: "(bytes \<Rightarrow> bytes) \<Rightarrow> bytes \<Rightarrow> bytes \<Rightarrow> nat \<Rightarrow> bytes" where
  "cbc_enc f iv m 0 = []" |
  "cbc_enc f iv m (Suc n) = (let c = f (xor_bytes (take 16 m) iv) in c @ cbc_enc f c (drop 16 m) n)"

primrec cbc_dec :: "(bytes \<Rightarrow> bytes) \<Rightarrow> bytes \<Rightarrow> bytes \<Rightarrow> nat \<Rightarrow> bytes" where
  "cbc_dec g iv c 0 = []" |
  "cbc_dec g iv c (Suc n) = xor_bytes (g (take 16 c)) iv @ cbc_dec g (take 16 c) (drop 16 c) n"

lemma length_xor_bytes [simp]: "length (xor_bytes a b) = min (length a) (length b)"
  by (simp add: xor_bytes_def)

lemma xor_bytes_twice: "length a = length b \<Longrightarrow> xor_bytes (xor_bytes a b) b = a"
  by (induction a b rule: list_induct2) (simp_all add: xor_bytes_def xor.assoc)

context block_cipher
begin

lemma length_cbc_enc: "length iv = 16 \<Longrightarrow> 16 * n \<le> length m \<Longrightarrow> length (cbc_enc enc iv m n) = 16 * n"
  by (induction n arbitrary: iv m) (simp_all add: Let_def length_enc)

lemma cbc_dec_enc:
  "length iv = 16 \<Longrightarrow> 16 * n \<le> length m \<Longrightarrow> cbc_dec dec iv (cbc_enc enc iv m n) n = take (16 * n) m"
proof (induction n arbitrary: iv m)
  case (Suc n)
  let ?c = "enc (xor_bytes (take 16 m) iv)"
  have c: "length ?c = 16" "dec ?c = xor_bytes (take 16 m) iv"
    using Suc.prems by (simp_all add: length_enc dec_enc)
  then have "cbc_dec dec iv (cbc_enc enc iv m (Suc n)) (Suc n) = take 16 m @ take (16 * n) (drop 16 m)"
    using Suc.IH [of ?c "drop 16 m"] Suc.prems by (simp add: Let_def xor_bytes_twice)
  then show ?case by (simp add: take_add)
qed simp

end

interpretation aes: block_cipher "aes_enc_block key keysize" "aes_dec_block key keysize" for key keysize
  by unfold_locales (simp_all add: aes_dec_enc_block)

section \<open>CBC\<close>

lemma xor_bytes_Cons_drop:
  assumes "k < length a" "i < length b"
  shows "xor_bytes (take (Suc n) (drop k a)) (drop i b) = (a ! k XOR b ! i) # xor_bytes (take n (drop (Suc k) a)) (drop (Suc i) b)"
  using assms by (simp add: xor_bytes_def flip: Cons_nth_drop_Suc)

lemma overwrite_Cons:
  assumes "k < length b" "Suc k + length bs \<le> length b"
  shows "overwrite (b[k := x]) (Suc k) bs = overwrite b k (x # bs)"
  using assms overwrite_append [of "Suc k" k "[x]" bs b] by (simp add: list_update_overwrite)

lemma cbc_xor_in_correct:
  assumes "length iv = 16" "p + 16 \<le> length inb"
  shows "p + 16 \<le> length outb \<Longrightarrow> i + n = 16 \<Longrightarrow>
    cbc_xor_in inb iv outb p i n = Some (overwrite outb (p + i) (xor_bytes (take n (drop (p + i) inb)) (drop i iv)))"
proof (induction n arbitrary: i outb)
  case (Suc n)
  then show ?case
    using assms Suc.IH [of "outb[p + i := inb ! (p + i) XOR iv ! i]" "i + 1"]
      overwrite_Cons [of "p + i" outb "xor_bytes (take n (drop (Suc (p + i)) inb)) (drop (Suc i) iv)"]
    by (simp add: xor_bytes_Cons_drop)
qed (simp add: overwrite_def xor_bytes_def)

lemma cbc_xor_out_correct:
  assumes "length iv = 16"
  shows "p + 16 \<le> length outb \<Longrightarrow> i + n = 16 \<Longrightarrow>
    cbc_xor_out iv outb p i n = Some (overwrite outb (p + i) (xor_bytes (take n (drop (p + i) outb)) (drop i iv)))"
proof (induction n arbitrary: i outb)
  case (Suc n)
  then show ?case
    using assms Suc.IH [of "outb[p + i := outb ! (p + i) XOR iv ! i]" "i + 1"]
      overwrite_Cons [of "p + i" outb "xor_bytes (take n (drop (Suc (p + i)) outb)) (drop (Suc i) iv)"]
    by (simp add: xor_bytes_Cons_drop)
qed (simp add: overwrite_def xor_bytes_def)

lemma next_iv_append:
  "length c = 16 \<Longrightarrow> rest = [] \<or> 16 \<le> length rest \<Longrightarrow> next_iv iv (c @ rest) = next_iv c rest"
  by (auto simp: next_iv_def)

lemma overwrite_overwrite:
  "length bs = length cs \<Longrightarrow> p + length bs \<le> length b \<Longrightarrow> overwrite (overwrite b p bs) p cs = overwrite b p cs"
  by (simp add: overwrite_def)

lemma take_drop_overwrite16 [simp]:
  "length bs = 16 \<Longrightarrow> p + 16 \<le> length b \<Longrightarrow> take 16 (drop p (overwrite b p bs)) = bs"
  using take_drop_overwrite [of p bs b] by simp

lemma cbc_enc_loop_correct:
  assumes "enc_ready t ctx key keysize" "mode \<noteq> AES_DECRYPT"
  shows "length iv = 16 \<Longrightarrow> p + 16 * n \<le> length inb \<Longrightarrow> p + 16 * n \<le> length outb \<Longrightarrow>
    cbc_enc_loop t ctx mode (int (16 * n)) iv inb outb p =
      (let c = cbc_enc (aes_enc_block key keysize) iv (drop p inb) n in Some (next_iv iv c, overwrite outb p c))"
proof (induction n arbitrary: iv outb p)
  case 0
  then show ?case by (subst cbc_enc_loop.simps) (simp add: next_iv_def overwrite_def)
next
  case (Suc n)
  let ?E = "aes_enc_block key keysize"
  let ?x = "xor_bytes (take 16 (drop p inb)) iv"
  let ?c = "?E ?x"
  let ?r = "cbc_enc ?E ?c (drop (p + 16) inb) n"
  have len: "p + 16 \<le> length inb" "p + 16 \<le> length outb" using Suc.prems by simp_all
  have r: "length ?r = 16 * n" using Suc.prems by (intro aes.length_cbc_enc) simp_all
  have "cbc_xor_in inb iv outb p 0 16 = Some (overwrite outb p ?x)"
    using cbc_xor_in_correct [of iv p inb outb 0 16] Suc.prems(1) len by simp
  moreover have "aes_crypt_ecb t ctx mode (overwrite outb p ?x) p (overwrite outb p ?x) p = Some (overwrite outb p ?c)"
    using aes_crypt_ecb_enc [OF assms, of p "overwrite outb p ?x" p "overwrite outb p ?x"] Suc.prems(1) len
    by (simp add: overwrite_overwrite)
  moreover have "slice16 (overwrite outb p ?c) p = Some ?c" using len by (simp add: slice16_def)
  moreover have "cbc_enc_loop t ctx mode (int (16 * n)) ?c inb (overwrite outb p ?c) (p + 16) =
      Some (next_iv ?c ?r, overwrite (overwrite outb p ?c) (p + 16) ?r)"
    using Suc.IH [of ?c "p + 16" "overwrite outb p ?c"] Suc.prems len by (simp add: Let_def)
  moreover have "overwrite (overwrite outb p ?c) (p + 16) ?r = overwrite outb p (?c @ ?r)"
    using Suc.prems r by (intro overwrite_append) simp_all
  moreover have "next_iv iv (?c @ ?r) = next_iv ?c ?r" using r next_iv_append [of ?c ?r iv] by (cases n) simp_all
  ultimately show ?case
    by (subst cbc_enc_loop.simps) (simp add: Let_def add.commute)
qed

lemma length_cbc_dec: "length iv = 16 \<Longrightarrow> 16 * n \<le> length c \<Longrightarrow> length (cbc_dec (aes_dec_block key keysize) iv c n) = 16 * n"
  by (induction n arbitrary: iv c) simp_all

lemma cbc_dec_loop_correct:
  assumes "dec_ready t ctx key keysize"
  shows "length iv = 16 \<Longrightarrow> p + 16 * n \<le> length inb \<Longrightarrow> p + 16 * n \<le> length outb \<Longrightarrow>
    cbc_dec_loop t ctx (int (16 * n)) iv inb outb p =
      Some (next_iv iv (take (16 * n) (drop p inb)),
        overwrite outb p (cbc_dec (aes_dec_block key keysize) iv (drop p inb) n))"
proof (induction n arbitrary: iv outb p)
  case 0
  then show ?case by (subst cbc_dec_loop.simps) (simp add: next_iv_def overwrite_def)
next
  case (Suc n)
  let ?D = "aes_dec_block key keysize"
  let ?c = "take 16 (drop p inb)"
  let ?m = "xor_bytes (?D ?c) iv"
  let ?r = "cbc_dec ?D ?c (drop (p + 16) inb) n"
  have len: "p + 16 \<le> length inb" "p + 16 \<le> length outb" "length ?c = 16" using Suc.prems by simp_all
  have r: "length ?r = 16 * n" using Suc.prems len by (intro length_cbc_dec) simp_all
  have "slice16 inb p = Some ?c" using len by (simp add: slice16_def)
  moreover have "aes_crypt_ecb t ctx AES_DECRYPT inb p outb p = Some (overwrite outb p (?D ?c))"
    using aes_crypt_ecb_dec [OF assms, of p inb p outb] len by simp
  moreover have "cbc_xor_out iv (overwrite outb p (?D ?c)) p 0 16 = Some (overwrite outb p ?m)"
    using cbc_xor_out_correct [of iv p "overwrite outb p (?D ?c)" 0 16] Suc.prems(1) len
    by (simp add: overwrite_overwrite)
  moreover have "cbc_dec_loop t ctx (int (16 * n)) ?c inb (overwrite outb p ?m) (p + 16) =
      Some (next_iv ?c (take (16 * n) (drop (p + 16) inb)), overwrite (overwrite outb p ?m) (p + 16) ?r)"
    using Suc.IH [of ?c "p + 16" "overwrite outb p ?m"] Suc.prems len by simp
  moreover have "overwrite (overwrite outb p ?m) (p + 16) ?r = overwrite outb p (?m @ ?r)"
    using Suc.prems r len by (intro overwrite_append) simp_all
  moreover have "take (16 * Suc n) (drop p inb) = ?c @ take (16 * n) (drop (p + 16) inb)"
    by (simp add: take_add add.commute)
  moreover have "next_iv iv (?c @ take (16 * n) (drop (p + 16) inb)) = next_iv ?c (take (16 * n) (drop (p + 16) inb))"
    using len Suc.prems by (intro next_iv_append) (cases n, auto)
  ultimately show ?case
    by (subst cbc_dec_loop.simps) (simp add: add.commute)
qed

text \<open>C23: CBC decryption undoes CBC encryption: for whole blocks, with contexts set up from the same key
  and the same vector, the decrypted buffer starts with the original message, and both calls leave the
  same vector, the last block of the ciphertext, for the next call.\<close>

theorem aes_cbc_roundtrip:
  assumes "aes_static_ok t" "setkey_args frame ctx key keysize"
    and "setkey_args frame' cty key keysize" "length (buf ctx') = 68" "length iv = 16"
    and "16 * n \<le> length inb" "16 * n \<le> length outb" "16 * n \<le> length outb'"
  shows "do { (t, ctx) \<leftarrow> aes_setkey_enc frame t ctx key keysize;
        (t, ctx') \<leftarrow> aes_setkey_dec frame' cty t ctx' key keysize;
        (iv1, outb) \<leftarrow> aes_crypt_cbc t ctx AES_ENCRYPT (int (16 * n)) iv inb outb;
        (iv2, outb') \<leftarrow> aes_crypt_cbc t ctx' AES_DECRYPT (int (16 * n)) iv outb outb';
        Some (iv1 = next_iv iv (take (16 * n) outb) \<and> iv2 = iv1, outb') } =
    Some (True, overwrite outb' 0 (take (16 * n) inb))"
proof -
  obtain t1 c1 where 1: "aes_setkey_enc frame t ctx key keysize = Some (t1, c1)" "enc_ready t1 c1 key keysize"
    by (rule aes_setkey_enc_ready [OF assms(1,2)])
  then have "aes_static_ok t1" by (simp add: enc_ready_def)
  from aes_setkey_dec_ready [OF this assms(3,4)] obtain t2 c2
    where 2: "aes_setkey_dec frame' cty t1 ctx' key keysize = Some (t2, c2)" "dec_ready t2 c2 key keysize" by blast
  define c where "c = cbc_enc (aes_enc_block key keysize) iv inb n"
  have len: "length c = 16 * n" unfolding c_def using assms(5,6) by (rule aes.length_cbc_enc)
  then have take: "take (16 * n) (overwrite outb 0 c) = c" by (simp add: overwrite_def)
  have "aes_crypt_cbc t2 c1 AES_ENCRYPT (int (16 * n)) iv inb outb = Some (next_iv iv c, overwrite outb 0 c)"
    using cbc_enc_loop_correct [OF enc_ready_tables [OF 1(2) 2(2)], of AES_ENCRYPT iv 0 n inb outb] assms
    by (simp add: aes_crypt_cbc_def c_def Let_def)
  moreover have "cbc_dec (aes_dec_block key keysize) iv (overwrite outb 0 c) n = take (16 * n) inb"
  proof -
    have "cbc_dec g iv (c @ d) n = cbc_dec g iv c n" if "length c = 16 * n" for g d iv c
      using that by (induction n arbitrary: iv c) simp_all
    then show ?thesis
      using len aes.cbc_dec_enc [OF assms(5,6), of key keysize] by (simp add: overwrite_def c_def)
  qed
  then have "aes_crypt_cbc t2 c2 AES_DECRYPT (int (16 * n)) iv (overwrite outb 0 c) outb' =
      Some (next_iv iv c, overwrite outb' 0 (take (16 * n) inb))"
    using cbc_dec_loop_correct [OF 2(2) assms(5), of 0 n "overwrite outb 0 c" outb'] assms len
    by (simp add: aes_crypt_cbc_def take)
  ultimately show ?thesis using 1(1) 2(1) take by simp
qed

section \<open>CFB\<close>

fun cfb_enc :: "(bytes \<Rightarrow> bytes) \<Rightarrow> nat \<Rightarrow> bytes \<Rightarrow> bytes \<Rightarrow> nat \<times> bytes \<times> bytes" where
  "cfb_enc f n iv [] = (n, iv, [])" |
  "cfb_enc f n iv (x # m) =
     (let iv = (if n = 0 then f iv else iv); c = iv ! n XOR x;
          (n', iv', cs) = cfb_enc f ((n + 1) mod 16) (iv[n := c]) m
      in (n', iv', c # cs))"

fun cfb_dec :: "(bytes \<Rightarrow> bytes) \<Rightarrow> nat \<Rightarrow> bytes \<Rightarrow> bytes \<Rightarrow> nat \<times> bytes \<times> bytes" where
  "cfb_dec f n iv [] = (n, iv, [])" |
  "cfb_dec f n iv (c # m) =
     (let iv = (if n = 0 then f iv else iv); x = c XOR iv ! n;
          (n', iv', cs) = cfb_dec f ((n + 1) mod 16) (iv[n := c]) m
      in (n', iv', x # cs))"

lemma cfb_dec_enc: "cfb_enc f n iv m = (n', iv', c) \<Longrightarrow> cfb_dec f n iv c = (n', iv', m)"
proof (induction m arbitrary: n iv n' iv' c)
  case (Cons x m)
  have cancel: "(a XOR x) XOR a = x" for a by (simp add: ac_simps)
  from Cons show ?case by (auto simp: Let_def cancel split: prod.splits)
qed simp

lemma length_cfb_enc: "cfb_enc f n iv m = (n', iv', c) \<Longrightarrow> length c = length m"
  by (induction m arbitrary: n iv n' iv' c) (auto simp: Let_def split: prod.splits)

lemma length_cfb_dec: "cfb_dec f n iv m = (n', iv', c) \<Longrightarrow> length c = length m"
  by (induction m arbitrary: n iv n' iv' c) (auto simp: Let_def split: prod.splits)

lemma cfb_ecb:
  assumes "enc_ready t ctx key keysize" "length iv = 16"
  shows "aes_crypt_ecb t ctx AES_ENCRYPT iv 0 iv 0 = Some (aes_enc_block key keysize iv)"
  using aes_crypt_ecb_enc [OF assms(1), of AES_ENCRYPT 0 iv 0 iv] assms(2) by (simp add: overwrite_def)

lemma cfb_enc_loop_correct:
  assumes r: "enc_ready t ctx key keysize"
  shows "n < 16 \<Longrightarrow> length iv = 16 \<Longrightarrow> p + len \<le> length inb \<Longrightarrow> p + len \<le> length outb \<Longrightarrow>
    cfb_enc (aes_enc_block key keysize) n iv (take len (drop p inb)) = (n', iv', c) \<Longrightarrow>
    cfb_enc_loop t ctx n iv inb outb p len = Some (n', iv', overwrite outb p c)"
proof (induction len arbitrary: n iv outb p c)
  case (Suc len)
  let ?E = "aes_enc_block key keysize"
  let ?iv = "if n = 0 then ?E iv else iv"
  let ?x = "?iv ! n XOR inb ! p"
  have iv: "(if n = 0 then aes_crypt_ecb t ctx AES_ENCRYPT iv 0 iv 0 else Some iv) = Some ?iv"
    using cfb_ecb [OF r] Suc.prems by simp
  have "take (Suc len) (drop p inb) = inb ! p # take len (drop (p + 1) inb)"
    using Suc.prems by (simp flip: Cons_nth_drop_Suc)
  with Suc.prems(5) obtain cs where cs: "c = ?x # cs"
    "cfb_enc ?E ((n + 1) mod 16) (?iv[n := ?x]) (take len (drop (p + 1) inb)) = (n', iv', cs)"
    by (simp add: Let_def split: prod.splits)
  have "length cs = len" using length_cfb_enc [OF cs(2)] Suc.prems by simp
  moreover have "cfb_enc_loop t ctx ((n + 1) mod 16) (?iv[n := ?x]) inb (outb[p := ?x]) (p + 1) len =
      Some (n', iv', overwrite (outb[p := ?x]) (p + 1) cs)"
    using Suc.prems by (intro Suc.IH cs) simp_all
  moreover have "fetch ?iv n = Some (?iv ! n)" "fetch inb p = Some (inb ! p)"
    "store outb p ?x = Some (outb[p := ?x])" "store ?iv n ?x = Some (?iv[n := ?x])"
    using Suc.prems by simp_all
  ultimately show ?case
    using Suc.prems overwrite_Cons [of p outb cs ?x] unfolding cfb_enc_loop.simps iv cs(1) by simp
qed (simp add: overwrite_def)

lemma cfb_dec_loop_correct:
  assumes r: "enc_ready t ctx key keysize"
  shows "n < 16 \<Longrightarrow> length iv = 16 \<Longrightarrow> p + len \<le> length inb \<Longrightarrow> p + len \<le> length outb \<Longrightarrow>
    cfb_dec (aes_enc_block key keysize) n iv (take len (drop p inb)) = (n', iv', c) \<Longrightarrow>
    cfb_dec_loop t ctx n iv inb outb p len = Some (n', iv', overwrite outb p c)"
proof (induction len arbitrary: n iv outb p c)
  case (Suc len)
  let ?E = "aes_enc_block key keysize"
  let ?iv = "if n = 0 then ?E iv else iv"
  let ?x = "inb ! p XOR ?iv ! n"
  have iv: "(if n = 0 then aes_crypt_ecb t ctx AES_ENCRYPT iv 0 iv 0 else Some iv) = Some ?iv"
    using cfb_ecb [OF r] Suc.prems by simp
  have "take (Suc len) (drop p inb) = inb ! p # take len (drop (p + 1) inb)"
    using Suc.prems by (simp flip: Cons_nth_drop_Suc)
  with Suc.prems(5) obtain cs where cs: "c = ?x # cs"
    "cfb_dec ?E ((n + 1) mod 16) (?iv[n := inb ! p]) (take len (drop (p + 1) inb)) = (n', iv', cs)"
    by (simp add: Let_def split: prod.splits)
  have "length cs = len" using length_cfb_dec [OF cs(2)] Suc.prems by simp
  moreover have "cfb_dec_loop t ctx ((n + 1) mod 16) (?iv[n := inb ! p]) inb (outb[p := ?x]) (p + 1) len =
      Some (n', iv', overwrite (outb[p := ?x]) (p + 1) cs)"
    using Suc.prems by (intro Suc.IH cs) simp_all
  moreover have "fetch ?iv n = Some (?iv ! n)" "fetch inb p = Some (inb ! p)"
    "store outb p ?x = Some (outb[p := ?x])" "store ?iv n (inb ! p) = Some (?iv[n := inb ! p])"
    using Suc.prems by simp_all
  ultimately show ?case
    using Suc.prems overwrite_Cons [of p outb cs ?x] unfolding cfb_dec_loop.simps iv cs(1) by simp
qed (simp add: overwrite_def)

text \<open>C24: CFB decryption undoes CFB encryption for every length and every position in the vector, with one
  context set up by \<open>aes_setkey_enc\<close> for both directions; the two calls leave the same position and
  vector, so that a stream can be continued on both sides.\<close>

theorem aes_cfb_roundtrip:
  assumes "aes_static_ok t" "setkey_args frame ctx key keysize" "iv_off < 16" "length iv = 16"
    and "k \<le> length inb" "k \<le> length outb" "k \<le> length outb'"
  shows "do { (t, ctx) \<leftarrow> aes_setkey_enc frame t ctx key keysize;
        (n1, iv1, outb) \<leftarrow> aes_crypt_cfb128 t ctx AES_ENCRYPT (int k) iv_off iv inb outb;
        (n2, iv2, outb') \<leftarrow> aes_crypt_cfb128 t ctx AES_DECRYPT (int k) iv_off iv outb outb';
        Some (n1 = n2 \<and> iv1 = iv2, outb') } =
    Some (True, overwrite outb' 0 (take k inb))"
proof -
  obtain t1 c1 where 1: "aes_setkey_enc frame t ctx key keysize = Some (t1, c1)" "enc_ready t1 c1 key keysize"
    by (rule aes_setkey_enc_ready [OF assms(1,2)])
  obtain n' iv' c where c: "cfb_enc (aes_enc_block key keysize) iv_off iv (take k inb) = (n', iv', c)"
    by (cases "cfb_enc (aes_enc_block key keysize) iv_off iv (take k inb)")
  have "take k (overwrite outb 0 c) = c" "length c = k"
    using length_cfb_enc [OF c] assms by (simp_all add: overwrite_def)
  then have "cfb_dec (aes_enc_block key keysize) iv_off iv (take k (overwrite outb 0 c)) = (n', iv', take k inb)"
    using cfb_dec_enc [OF c] by simp
  then have "aes_crypt_cfb128 t1 c1 AES_DECRYPT (int k) iv_off iv (overwrite outb 0 c) outb' =
      Some (n', iv', overwrite outb' 0 (take k inb))"
    using cfb_dec_loop_correct [OF 1(2) assms(3,4), of 0 k "overwrite outb 0 c" outb' n' iv' "take k inb"]
      assms \<open>length c = k\<close> by (simp add: aes_crypt_cfb128_def)
  moreover have "aes_crypt_cfb128 t1 c1 AES_ENCRYPT (int k) iv_off iv inb outb = Some (n', iv', overwrite outb 0 c)"
    using cfb_enc_loop_correct [OF 1(2) assms(3,4), of 0 k inb outb n' iv' c] assms c
    by (simp add: aes_crypt_cfb128_def)
  ultimately show ?thesis using 1(1) by simp
qed

section \<open>Concrete calls\<close>

theorem aes_cbc_roundtrip_witness:
  "do { (t, ctx) \<leftarrow> aes_setkey_enc stale_frame aes_static stale_context (replicate 32 0x5A) 256;
      (t, ctx') \<leftarrow> aes_setkey_dec stale_frame stale_context t stale_context (replicate 32 0x5A) 256;
      (iv1, outb) \<leftarrow> aes_crypt_cbc t ctx AES_ENCRYPT 32 (replicate 16 1) (replicate 32 9) (replicate 32 0);
      (iv2, outb') \<leftarrow> aes_crypt_cbc t ctx' AES_DECRYPT 32 (replicate 16 1) outb (replicate 32 0);
      Some (iv1 = next_iv (replicate 16 1) (take 32 outb) \<and> iv2 = iv1, outb') } = Some (True, replicate 32 9)"
  using aes_cbc_roundtrip [OF aes_static_static_ok stale_args(1,1,2), of "replicate 16 1" 2 "replicate 32 9"
      "replicate 32 0" "replicate 32 0"]
  by (simp add: overwrite_def)

theorem aes_cfb_roundtrip_witness:
  "do { (t, ctx) \<leftarrow> aes_setkey_enc stale_frame aes_static stale_context (replicate 32 0x5A) 256;
      (n1, iv1, outb) \<leftarrow> aes_crypt_cfb128 t ctx AES_ENCRYPT 21 5 (replicate 16 1) (replicate 21 9) (replicate 21 0);
      (n2, iv2, outb') \<leftarrow> aes_crypt_cfb128 t ctx AES_DECRYPT 21 5 (replicate 16 1) outb (replicate 21 0);
      Some (n1 = n2 \<and> iv1 = iv2, outb') } = Some (True, replicate 21 9)"
  using aes_cfb_roundtrip [OF aes_static_static_ok stale_args(1), of 5 "replicate 16 1" 21 "replicate 21 9"
      "replicate 21 0" "replicate 21 0"]
  by (simp add: overwrite_def)

end
