(* ===== verification/Channel.thy ===== *)
theory Channel
  imports Ring
begin

text \<open>
  The blocking channel of \<open>src/channel/channel.c\<close>, used by any number of threads.  The structure is the
  record \<open>channel\<close>: a ring of \<open>capacity\<close> elements of \<open>elesize\<close> bytes, a mutex and two counting
  semaphores (\<open>src/include/sema.h\<close>, \<open>src/include/locker.h\<close>; a semaphore is its value, the mutex its
  owner).  Every call runs in small steps between which other threads may run; \<open>chan_step\<close> is the
  relation of one step of one thread.  The program counter of a thread says which statement it executes
  next.  The lists \<open>pushed\<close> and \<open>popped\<close> of a configuration record what was put in and taken out; no
  step depends on them.
\<close>

section \<open>The structure and the statements\<close>

record channel =
  elesize :: nat
  capacity :: nat
  chan_count :: int
  chan_offset :: nat
  ptr :: bytes
  locker :: "nat option"
  reader :: nat
  writer :: nat

text \<open>\<open>malloc\<close> returns memory with the contents \<open>mem\<close>, or \<open>NULL\<close>.\<close>

definition channel_create :: "bytes option \<Rightarrow> int \<Rightarrow> int \<Rightarrow> channel option option" where
  "channel_create mem cap elementsize =
     (if \<not> (cap > 0 \<and> elementsize > 0) then None
      else case mem of
        None \<Rightarrow> Some None
      | Some m \<Rightarrow> Some (Some \<lparr>elesize = nat elementsize, capacity = nat cap, chan_count = 0, chan_offset = 0,
          ptr = take (nat (cap * elementsize)) m, locker = None, reader = 0, writer = nat cap\<rparr>))"

text \<open>\<open>channel_destroy\<close> gets the address of the caller's pointer and clears it.\<close>

definition channel_destroy :: "channel option option \<Rightarrow> channel option option" where
  "channel_destroy pc = (case pc of None \<Rightarrow> None | Some None \<Rightarrow> Some None | Some (Some c) \<Rightarrow> Some None)"

definition channel_count :: "channel \<Rightarrow> int" where
  "channel_count c = chan_count c"

text \<open>\<open>channel_push\<close>: the assertion and the copy.\<close>

definition push_copy :: "channel \<Rightarrow> bytes \<Rightarrow> channel option" where
  "push_copy c e =
     (if \<not> chan_count c < int (capacity c) then None
      else do {
        d \<leftarrow> mem_copy (ptr c) (nat ((int (chan_offset c) + chan_count c) mod int (capacity c)) * elesize c) e 0 (elesize c);
        Some (c\<lparr>ptr := d\<rparr>) })"

text \<open>\<open>channel_pop\<close>: the copy into \<open>e\<close>, and the assertion after the update.\<close>

definition pop_copy :: "channel \<Rightarrow> bytes \<Rightarrow> bytes option" where
  "pop_copy c e = mem_copy e 0 (ptr c) (chan_offset c * elesize c) (elesize c)"

definition pop_advance :: "channel \<Rightarrow> channel option" where
  "pop_advance c =
     (let c = c\<lparr>chan_offset := (chan_offset c + 1) mod capacity c\<rparr>
      in if chan_count c \<ge> 0 then Some c else None)"

definition clear_fields :: "channel \<Rightarrow> channel" where
  "clear_fields c = c\<lparr>chan_count := 0, chan_offset := 0\<rparr>"

section \<open>Threads\<close>

text \<open>The statement a thread executes next; \<open>e\<close> is the element of the call, \<open>buf\<close> the caller's buffer.\<close>

datatype pc =
    Idle
  | PushLock (elt: bytes) | PushCopy (elt: bytes) | PushIncr (elt: bytes) | PushUnlock | PushPost
  | PopLock (elt: bytes) | PopCopy (elt: bytes) | PopDecr (elt: bytes) | PopAdvance (elt: bytes)
  | PopUnlock | PopPost
  | ClearLock | ClearFields | ClearUnlock

record chan_state =
  chan :: channel
  pcs :: "pc list"
  pushed :: "bytes list"
  popped :: "bytes list"
  aborted :: bool

abbreviation at_pc :: "chan_state \<Rightarrow> nat \<Rightarrow> pc \<Rightarrow> bool" where
  "at_pc s t p \<equiv> t < length (pcs s) \<and> pcs s ! t = p"

definition goto :: "nat \<Rightarrow> pc \<Rightarrow> chan_state \<Rightarrow> chan_state" where
  "goto t p s = s\<lparr>pcs := (pcs s)[t := p]\<rparr>"

definition on_chan :: "channel \<Rightarrow> chan_state \<Rightarrow> chan_state" where
  "on_chan c s = s\<lparr>chan := c\<rparr>"

text \<open>\<open>channel_push\<close> and \<open>channel_push_timeout\<close> differ in the wait only: the timed one may give up, which
  is no step at all.  With \<open>clr\<close>, threads also call \<open>channel_clear\<close>.\<close>

inductive chan_step :: "bool \<Rightarrow> chan_state \<Rightarrow> chan_state \<Rightarrow> bool" for clr where
  push_wait: "at_pc s t Idle \<Longrightarrow> length e = elesize (chan s) \<Longrightarrow> writer (chan s) > 0 \<Longrightarrow>
    chan_step clr s (goto t (PushLock e) (on_chan ((chan s)\<lparr>writer := writer (chan s) - 1\<rparr>) s))"
| push_lock: "at_pc s t (PushLock e) \<Longrightarrow> locker (chan s) = None \<Longrightarrow>
    chan_step clr s (goto t (PushCopy e) (on_chan ((chan s)\<lparr>locker := Some t\<rparr>) s))"
| push_copy: "at_pc s t (PushCopy e) \<Longrightarrow> push_copy (chan s) e = Some c \<Longrightarrow>
    chan_step clr s (goto t (PushIncr e) (on_chan c s))"
| push_abort: "at_pc s t (PushCopy e) \<Longrightarrow> push_copy (chan s) e = None \<Longrightarrow> chan_step clr s (s\<lparr>aborted := True\<rparr>)"
| push_incr: "at_pc s t (PushIncr e) \<Longrightarrow>
    chan_step clr s (goto t PushUnlock (on_chan ((chan s)\<lparr>chan_count := chan_count (chan s) + 1\<rparr>) s)
      \<lparr>pushed := pushed s @ [e]\<rparr>)"
| push_unlock: "at_pc s t PushUnlock \<Longrightarrow>
    chan_step clr s (goto t PushPost (on_chan ((chan s)\<lparr>locker := None\<rparr>) s))"
| push_post: "at_pc s t PushPost \<Longrightarrow>
    chan_step clr s (goto t Idle (on_chan ((chan s)\<lparr>reader := reader (chan s) + 1\<rparr>) s))"
| pop_wait: "at_pc s t Idle \<Longrightarrow> length e = elesize (chan s) \<Longrightarrow> reader (chan s) > 0 \<Longrightarrow>
    chan_step clr s (goto t (PopLock e) (on_chan ((chan s)\<lparr>reader := reader (chan s) - 1\<rparr>) s))"
| pop_lock: "at_pc s t (PopLock e) \<Longrightarrow> locker (chan s) = None \<Longrightarrow>
    chan_step clr s (goto t (PopCopy e) (on_chan ((chan s)\<lparr>locker := Some t\<rparr>) s))"
| pop_copy: "at_pc s t (PopCopy e) \<Longrightarrow> pop_copy (chan s) e = Some e' \<Longrightarrow>
    chan_step clr s (goto t (PopDecr e') s)"
| pop_copy_abort: "at_pc s t (PopCopy e) \<Longrightarrow> pop_copy (chan s) e = None \<Longrightarrow> chan_step clr s (s\<lparr>aborted := True\<rparr>)"
| pop_decr: "at_pc s t (PopDecr e) \<Longrightarrow>
    chan_step clr s (goto t (PopAdvance e) (on_chan ((chan s)\<lparr>chan_count := chan_count (chan s) - 1\<rparr>) s)
      \<lparr>popped := popped s @ [e]\<rparr>)"
| pop_advance: "at_pc s t (PopAdvance e) \<Longrightarrow> pop_advance (chan s) = Some c \<Longrightarrow>
    chan_step clr s (goto t PopUnlock (on_chan c s))"
| pop_abort: "at_pc s t (PopAdvance e) \<Longrightarrow> pop_advance (chan s) = None \<Longrightarrow> chan_step clr s (s\<lparr>aborted := True\<rparr>)"
| pop_unlock: "at_pc s t PopUnlock \<Longrightarrow>
    chan_step clr s (goto t PopPost (on_chan ((chan s)\<lparr>locker := None\<rparr>) s))"
| pop_post: "at_pc s t PopPost \<Longrightarrow>
    chan_step clr s (goto t Idle (on_chan ((chan s)\<lparr>writer := writer (chan s) + 1\<rparr>) s))"
| clear_call: "clr \<Longrightarrow> at_pc s t Idle \<Longrightarrow> chan_step clr s (goto t ClearLock s)"
| clear_lock: "at_pc s t ClearLock \<Longrightarrow> locker (chan s) = None \<Longrightarrow>
    chan_step clr s (goto t ClearFields (on_chan ((chan s)\<lparr>locker := Some t\<rparr>) s))"
| clear_fields: "at_pc s t ClearFields \<Longrightarrow> chan_step clr s (goto t ClearUnlock (on_chan (clear_fields (chan s)) s))"
| clear_unlock: "at_pc s t ClearUnlock \<Longrightarrow>
    chan_step clr s (goto t Idle (on_chan ((chan s)\<lparr>locker := None\<rparr>) s))"

text \<open>\<open>n\<close> threads and a fresh channel.\<close>

definition chan_start :: "channel \<Rightarrow> nat \<Rightarrow> chan_state" where
  "chan_start c n = \<lparr>chan = c, pcs = replicate n Idle, pushed = [], popped = [], aborted = False\<rparr>"

abbreviation chan_reachable :: "bool \<Rightarrow> channel \<Rightarrow> nat \<Rightarrow> chan_state \<Rightarrow> bool" where
  "chan_reachable clr c n s \<equiv> (chan_step clr)\<^sup>*\<^sup>* (chan_start c n) s"

section \<open>Invariants of the threads\<close>

text \<open>Which threads hold a token of a semaphore: a pusher between its wait and its increment, a pusher
  between its increment and its post, and the same for the poppers.\<close>

definition entering :: "pc \<Rightarrow> bool" where
  "entering p \<longleftrightarrow> (\<exists>e. p = PushLock e \<or> p = PushCopy e \<or> p = PushIncr e)"

definition entered :: "pc \<Rightarrow> bool" where
  "entered p \<longleftrightarrow> p = PushUnlock \<or> p = PushPost"

definition leaving :: "pc \<Rightarrow> bool" where
  "leaving p \<longleftrightarrow> (\<exists>e. p = PopLock e \<or> p = PopCopy e \<or> p = PopDecr e)"

definition left :: "pc \<Rightarrow> bool" where
  "left p \<longleftrightarrow> (\<exists>e. p = PopAdvance e) \<or> p = PopUnlock \<or> p = PopPost"

definition locks :: "pc \<Rightarrow> bool" where
  "locks p \<longleftrightarrow> (\<exists>e. p = PushCopy e \<or> p = PushIncr e \<or> p = PopCopy e \<or> p = PopDecr e \<or> p = PopAdvance e)
     \<or> p = PushUnlock \<or> p = PopUnlock \<or> p = ClearFields \<or> p = ClearUnlock"

definition clears :: "pc \<Rightarrow> bool" where
  "clears p \<longleftrightarrow> p = ClearLock \<or> p = ClearFields \<or> p = ClearUnlock"

lemmas pc_defs = entering_def entered_def leaving_def left_def locks_def clears_def

definition cnt :: "(pc \<Rightarrow> bool) \<Rightarrow> pc list \<Rightarrow> nat" where
  "cnt P ps = length (filter P ps)"

lemma cnt_update:
  assumes "t < length ps"
  shows "cnt P (ps[t := p]) + (if P (ps ! t) then 1 else 0) = cnt P ps + (if P p then 1 else 0)"
proof -
  have "cnt P ps = cnt P (take t ps @ ps ! t # drop (Suc t) ps)"
    using id_take_nth_drop [OF assms] by (rule arg_cong)
  also have "\<dots> = cnt P (take t ps) + (if P (ps ! t) then 1 else 0) + cnt P (drop (Suc t) ps)"
    by (simp add: cnt_def del: append_take_drop_id)
  finally have "cnt P ps = cnt P (take t ps) + (if P (ps ! t) then 1 else 0) + cnt P (drop (Suc t) ps)" .
  moreover have "cnt P (ps[t := p]) = cnt P (take t ps) + (if P p then 1 else 0) + cnt P (drop (Suc t) ps)"
    using assms by (simp add: cnt_def upd_conv_take_nth_drop)
  ultimately show ?thesis by simp
qed

lemma cnt_pos: "t < length ps \<Longrightarrow> P (ps ! t) \<Longrightarrow> 0 < cnt P ps"
  by (auto simp: cnt_def filter_empty_conv)

text \<open>Every free place has one writer token, every element one reader token.\<close>

definition tokens :: "chan_state \<Rightarrow> bool" where
  "tokens s \<longleftrightarrow>
     int (reader (chan s) + cnt entered (pcs s) + cnt leaving (pcs s)) = chan_count (chan s)
   \<and> int (writer (chan s) + cnt entering (pcs s) + cnt left (pcs s)) = int (capacity (chan s)) - chan_count (chan s)"

definition no_clear :: "chan_state \<Rightarrow> bool" where
  "no_clear s \<longleftrightarrow> (\<forall>t < length (pcs s). \<not> clears (pcs s ! t))"

definition mutex :: "chan_state \<Rightarrow> bool" where
  "mutex s \<longleftrightarrow> (\<forall>t. locker (chan s) = Some t \<longleftrightarrow> t < length (pcs s) \<and> locks (pcs s ! t))"

lemmas step_simps = goto_def on_chan_def push_copy_def pop_copy_def pop_advance_def clear_fields_def

lemma no_clear_step: "chan_step False s s' \<Longrightarrow> no_clear s \<Longrightarrow> no_clear s'"
  by (erule chan_step.cases) (auto simp: no_clear_def step_simps pc_defs nth_list_update)

definition reads :: "pc \<Rightarrow> int" where
  "reads p = (if entered p \<or> leaving p then 1 else 0)"

definition writes :: "pc \<Rightarrow> int" where
  "writes p = (if entering p \<or> left p then 1 else 0)"

text \<open>A step of one thread keeps the balance when what it takes from a semaphore, adds to the count and
  carries with it sum up.\<close>

lemma tokens_goto:
  assumes "tokens s" "t < length (pcs s)" "capacity c = capacity (chan s)"
    and "int (reader c) + reads p - chan_count c = int (reader (chan s)) + reads (pcs s ! t) - chan_count (chan s)"
    and "int (writer c) + writes p + chan_count c = int (writer (chan s)) + writes (pcs s ! t) + chan_count (chan s)"
  shows "tokens (goto t p (on_chan c s))"
proof -
  have disjoint: "\<not> (entered p \<and> leaving p)" "\<not> (entering p \<and> left p)" for p by (auto simp: pc_defs)
  have "int (cnt entered ((pcs s)[t := p]) + cnt leaving ((pcs s)[t := p])) =
      int (cnt entered (pcs s) + cnt leaving (pcs s)) + reads p - reads (pcs s ! t)"
    using cnt_update [OF assms(2), of entered p] cnt_update [OF assms(2), of leaving p]
      disjoint(1) [of p] disjoint(1) [of "pcs s ! t"] by (auto simp: reads_def split: if_splits)
  moreover have "int (cnt entering ((pcs s)[t := p]) + cnt left ((pcs s)[t := p])) =
      int (cnt entering (pcs s) + cnt left (pcs s)) + writes p - writes (pcs s ! t)"
    using cnt_update [OF assms(2), of entering p] cnt_update [OF assms(2), of left p]
      disjoint(2) [of p] disjoint(2) [of "pcs s ! t"] by (auto simp: writes_def split: if_splits)
  ultimately show ?thesis using assms(1,3-5) by (simp add: tokens_def goto_def on_chan_def)
qed

lemma tokens_ghost [simp]:
  "tokens (s\<lparr>pushed := q\<rparr>) = tokens s" "tokens (s\<lparr>popped := q\<rparr>) = tokens s" "tokens (s\<lparr>aborted := b\<rparr>) = tokens s"
  by (simp_all add: tokens_def)

lemma on_chan_chan [simp]: "on_chan (chan s) s = s"
  by (simp add: on_chan_def)

lemma tokens_step:
  assumes "chan_step False s s'" "tokens s" "no_clear s"
  shows "tokens s'"
  using assms(1)
proof cases
  case (pop_copy t e e')
  then show ?thesis
    using tokens_goto [OF assms(2), of t "chan s" "PopDecr e'"] by (simp add: reads_def writes_def pc_defs)
next
  case (push_copy t e c)
  then show ?thesis
    by (auto intro!: tokens_goto [OF assms(2)] simp: push_copy_def reads_def writes_def pc_defs
        split: if_splits Option.bind_splits)
next
  case (pop_advance t e c)
  then show ?thesis
    by (auto intro!: tokens_goto [OF assms(2)] simp: pop_advance_def Let_def reads_def writes_def pc_defs split: if_splits)
next
  case (clear_call t)
  then show ?thesis by simp
qed (use assms(2,3) in \<open>auto intro!: tokens_goto simp: reads_def writes_def pc_defs no_clear_def\<close>)

lemma mutex_goto:
  assumes "mutex s" "t < length (pcs s)"
  shows mutex_keep: "locks p = locks (pcs s ! t) \<Longrightarrow> locker c = locker (chan s) \<Longrightarrow> mutex (goto t p (on_chan c s))"
    and mutex_lock: "locks p \<Longrightarrow> locker (chan s) = None \<Longrightarrow> locker c = Some t \<Longrightarrow> mutex (goto t p (on_chan c s))"
    and mutex_unlock: "\<not> locks p \<Longrightarrow> locks (pcs s ! t) \<Longrightarrow> locker c = None \<Longrightarrow> mutex (goto t p (on_chan c s))"
proof -
  have m: "locker (chan s) = Some u \<longleftrightarrow> u < length (pcs s) \<and> locks (pcs s ! u)" for u
    using assms(1) by (simp add: mutex_def)
  have nth: "u < length (pcs s) \<and> locks ((pcs s)[t := p] ! u) \<longleftrightarrow>
      u < length (pcs s) \<and> (if u = t then locks p else locks (pcs s ! u))" for u
    using assms(2) by (simp add: nth_list_update)
  have goal: "mutex (goto t p (on_chan c s)) \<longleftrightarrow>
      (\<forall>u. locker c = Some u \<longleftrightarrow> u < length (pcs s) \<and> (if u = t then locks p else locks (pcs s ! u)))"
    by (simp add: mutex_def goto_def on_chan_def nth del: if_split)
  show "locks p = locks (pcs s ! t) \<Longrightarrow> locker c = locker (chan s) \<Longrightarrow> mutex (goto t p (on_chan c s))"
    unfolding goal using m by metis
  show "locks p \<Longrightarrow> locker (chan s) = None \<Longrightarrow> locker c = Some t \<Longrightarrow> mutex (goto t p (on_chan c s))"
    unfolding goal using m assms(2) by (metis option.inject option.distinct(1))
  show "\<not> locks p \<Longrightarrow> locks (pcs s ! t) \<Longrightarrow> locker c = None \<Longrightarrow> mutex (goto t p (on_chan c s))"
    unfolding goal using m assms(2) by (metis option.inject option.distinct(1))
qed

lemma mutex_ghost [simp]:
  "mutex (s\<lparr>pushed := q\<rparr>) = mutex s" "mutex (s\<lparr>popped := q\<rparr>) = mutex s" "mutex (s\<lparr>aborted := b\<rparr>) = mutex s"
  by (simp_all add: mutex_def)

lemma mutex_step:
  assumes "chan_step clr s s'" "mutex s"
  shows "mutex s'"
  using assms(1)
proof cases
  case (push_copy t e c)
  then show ?thesis
    by (auto intro!: mutex_keep [OF assms(2)] simp: push_copy_def pc_defs split: if_splits Option.bind_splits)
next
  case (pop_copy t e e')
  then show ?thesis
    using mutex_keep [OF assms(2), of t "PopDecr e'" "chan s"] by (simp add: pc_defs)
next
  case (pop_advance t e c)
  then show ?thesis
    by (auto intro!: mutex_keep [OF assms(2)] simp: pop_advance_def Let_def pc_defs split: if_splits)
next
  case (clear_call t)
  then show ?thesis
    using mutex_keep [OF assms(2), of t ClearLock "chan s"] by (simp add: pc_defs)
next
  case (push_unlock t)
  then show ?thesis by (auto intro!: mutex_unlock [OF assms(2)] simp: pc_defs)
next
  case (pop_unlock t)
  then show ?thesis by (auto intro!: mutex_unlock [OF assms(2)] simp: pc_defs)
next
  case (clear_unlock t)
  then show ?thesis by (auto intro!: mutex_unlock [OF assms(2)] simp: pc_defs)
next
  case (push_lock t e)
  then show ?thesis by (auto intro!: mutex_lock [OF assms(2)] simp: pc_defs)
next
  case (pop_lock t e)
  then show ?thesis by (auto intro!: mutex_lock [OF assms(2)] simp: pc_defs)
next
  case (clear_lock t)
  then show ?thesis by (auto intro!: mutex_lock [OF assms(2)] simp: pc_defs)
qed (use assms(2) in \<open>auto intro!: mutex_keep simp: pc_defs clear_fields_def\<close>)

section \<open>The contents\<close>

definition slots :: "channel \<Rightarrow> bytes list" where
  "slots c = map (\<lambda>i. take (elesize c) (drop (i * elesize c) (ptr c))) [0..<capacity c]"

text \<open>The queue \<open>q\<close> lies in the ring; between two statements of the thread that has the lock, one more
  element does.\<close>

fun ring_ok :: "bytes list \<Rightarrow> nat \<Rightarrow> pc \<Rightarrow> bytes list \<Rightarrow> bool" where
  "ring_ok d off (PushIncr e) q \<longleftrightarrow> ring_read d off (Suc (length q)) = q @ [e]"
| "ring_ok d off (PopDecr e) q \<longleftrightarrow> ring_read d off (length q) = q \<and> (\<exists>r. q = e # r)"
| "ring_ok d off (PopAdvance e) q \<longleftrightarrow> ring_read d off (Suc (length q)) = e # q"
| "ring_ok d off _ q \<longleftrightarrow> ring_read d off (length q) = q"

definition holder :: "chan_state \<Rightarrow> pc" where
  "holder s = (case locker (chan s) of None \<Rightarrow> Idle | Some t \<Rightarrow> pcs s ! t)"

definition order :: "chan_state \<Rightarrow> bool" where
  "order s \<longleftrightarrow> (\<exists>q. pushed s = popped s @ q \<and> int (length q) = chan_count (chan s)
     \<and> ring_ok (slots (chan s)) (chan_offset (chan s)) (holder s) q)"

definition elt_ok :: "nat \<Rightarrow> pc \<Rightarrow> bool" where
  "elt_ok n p \<longleftrightarrow> (\<forall>e. p = PushLock e \<or> p = PushCopy e \<or> p = PopLock e \<or> p = PopCopy e \<longrightarrow> length e = n)"

definition shape :: "chan_state \<Rightarrow> bool" where
  "shape s \<longleftrightarrow> \<not> aborted s \<and> 0 < capacity (chan s) \<and> 0 < elesize (chan s)
     \<and> length (ptr (chan s)) = capacity (chan s) * elesize (chan s) \<and> chan_offset (chan s) < capacity (chan s)
     \<and> (\<forall>t < length (pcs s). elt_ok (elesize (chan s)) (pcs s ! t))"

lemma length_slots [simp]: "length (slots c) = capacity c"
  by (simp add: slots_def)

lemma holder_goto:
  assumes "mutex s" "t < length (pcs s)"
  shows holder_self: "locks (pcs s ! t) \<Longrightarrow> holder s = pcs s ! t"
    and holder_moves: "locks (pcs s ! t) \<Longrightarrow> locker c = locker (chan s) \<Longrightarrow> holder (goto t p (on_chan c s)) = p"
    and holder_stays: "\<not> locks (pcs s ! t) \<Longrightarrow> locker c = locker (chan s) \<Longrightarrow> holder (goto t p (on_chan c s)) = holder s"
    and holder_new: "locker c = Some t \<Longrightarrow> holder (goto t p (on_chan c s)) = p"
    and holder_none: "locker c = None \<Longrightarrow> holder (goto t p (on_chan c s)) = Idle"
proof -
  have m: "locker (chan s) = Some u \<longleftrightarrow> u < length (pcs s) \<and> locks (pcs s ! u)" for u
    using assms(1) by (simp add: mutex_def)
  show "locks (pcs s ! t) \<Longrightarrow> holder s = pcs s ! t"
    using m [of t] assms(2) by (simp add: holder_def)
  show "locks (pcs s ! t) \<Longrightarrow> locker c = locker (chan s) \<Longrightarrow> holder (goto t p (on_chan c s)) = p"
    using m [of t] assms(2) by (simp add: holder_def goto_def on_chan_def)
  show "\<not> locks (pcs s ! t) \<Longrightarrow> locker c = locker (chan s) \<Longrightarrow> holder (goto t p (on_chan c s)) = holder s"
    using m [of t] by (auto simp: holder_def goto_def on_chan_def nth_list_update split: option.splits)
  show "locker c = Some t \<Longrightarrow> holder (goto t p (on_chan c s)) = p"
    using assms(2) by (simp add: holder_def goto_def on_chan_def)
  show "locker c = None \<Longrightarrow> holder (goto t p (on_chan c s)) = Idle"
    by (simp add: holder_def goto_def on_chan_def)
qed

lemma holder_ghost [simp]: "holder (s\<lparr>pushed := q\<rparr>) = holder s" "holder (s\<lparr>popped := q\<rparr>) = holder s"
  by (cases "locker (chan s)"; simp add: holder_def)+

lemma goto_simps [simp]:
  "chan (goto t p s) = chan s" "pushed (goto t p s) = pushed s" "popped (goto t p s) = popped s"
  "aborted (goto t p s) = aborted s" "pcs (goto t p s) = (pcs s)[t := p]"
  "chan (on_chan c s) = c" "pushed (on_chan c s) = pushed s" "popped (on_chan c s) = popped s"
  "aborted (on_chan c s) = aborted s" "pcs (on_chan c s) = pcs s"
  by (simp_all add: goto_def on_chan_def)

lemma slots_update [simp]:
  "slots (c\<lparr>chan_count := k\<rparr>) = slots c" "slots (c\<lparr>chan_offset := i\<rparr>) = slots c" "slots (c\<lparr>locker := l\<rparr>) = slots c"
  "slots (c\<lparr>reader := r\<rparr>) = slots c" "slots (c\<lparr>writer := r\<rparr>) = slots c"
  by (simp_all add: slots_def)

text \<open>One element written into the ring.\<close>

lemma mult_le_index: "i < k \<Longrightarrow> i * e + e \<le> k * (e :: nat)"
  using mult_le_mono1 [of "Suc i" k e] by (simp add: add.commute)

lemma take_drop_take: "a + n \<le> b \<Longrightarrow> take n (drop a (take b xs)) = take n (drop a xs)"
  by (simp add: drop_take min_def)

lemma slots_write:
  assumes "i < capacity c" "length e = elesize c" "length (ptr c) = capacity c * elesize c"
    and "mem_copy (ptr c) (i * elesize c) e 0 (elesize c) = Some d"
  shows "slots (c\<lparr>ptr := d\<rparr>) = (slots c)[i := e]"
proof (rule nth_equalityI)
  let ?n = "elesize c"
  have d: "d = take (i * ?n) (ptr c) @ e @ drop (i * ?n + ?n) (ptr c)"
    using assms(2,4) by (simp add: mem_copy_def split: if_splits)
  fix j assume "j < length (slots (c\<lparr>ptr := d\<rparr>))"
  then have j: "j < capacity c" by simp
  have len: "i * ?n + ?n \<le> length (ptr c)" "j * ?n + ?n \<le> length (ptr c)"
    using mult_le_index [OF assms(1)] mult_le_index [OF j] assms(3) by simp_all
  consider "j = i" | "j < i" | "i < j" by linarith
  then have "take ?n (drop (j * ?n) d) = (if j = i then e else take ?n (drop (j * ?n) (ptr c)))"
  proof cases
    case 1
    then show ?thesis using len assms(2) by (simp add: d)
  next
    case 2
    then show ?thesis using mult_le_index [OF 2, of ?n] len by (simp add: d take_drop_take)
  next
    case 3
    then have "drop (j * ?n) d = drop (j * ?n) (ptr c)"
      using mult_le_index [OF 3, of ?n] len assms(2) by (simp add: d)
    then show ?thesis using 3 by simp
  qed
  then show "slots (c\<lparr>ptr := d\<rparr>) ! j = (slots c)[i := e] ! j"
    using j assms(1) by (simp add: slots_def nth_list_update)
qed simp

lemma ring_read_update:
  assumes "n < length d"
  shows "ring_read (d[(p + n) mod length d := x]) p (Suc n) = ring_read d p n @ [x]"
proof (rule nth_equalityI)
  fix j assume "j < length (ring_read (d[(p + n) mod length d := x]) p (Suc n))"
  then have j: "j < Suc n" by simp
  have lt: "(p + n) mod length d < length d" by (rule mod_less_divisor) (use assms in linarith)
  have "(p + j) mod length d \<noteq> (p + n) mod length d" if "j < n"
  proof
    assume "(p + j) mod length d = (p + n) mod length d"
    then have eq: "(p mod length d + j) mod length d = (p mod length d + n) mod length d"
      by (simp only: mod_add_left_eq)
    have p: "p mod length d < length d" by (rule mod_less_divisor) (use assms in linarith)
    have "j < length d" using that assms by linarith
    from ring_pos [OF p this, unfolded eq] ring_pos [OF p assms] have "j = n" by (rule trans [OF sym])
    with that show False by simp
  qed
  then show "ring_read (d[(p + n) mod length d := x]) p (Suc n) ! j = (ring_read d p n @ [x]) ! j"
    using j by (auto simp: nth_ring_read nth_append less_Suc_eq nth_list_update lt)
qed simp

section \<open>The steps keep the order\<close>

lemma ring_ok_plain: "\<not> (\<exists>e. p = PushIncr e \<or> p = PopDecr e \<or> p = PopAdvance e) \<Longrightarrow>
  ring_ok d off p q \<longleftrightarrow> ring_read d off (length q) = q"
  by (cases p) auto

text \<open>A step that leaves the ring alone.\<close>

lemma order_same:
  assumes "order s" "pushed s' = pushed s" "popped s' = popped s" "chan_count (chan s') = chan_count (chan s)"
    and "slots (chan s') = slots (chan s)" "chan_offset (chan s') = chan_offset (chan s)"
    and "\<And>d off q. ring_ok d off (holder s) q \<Longrightarrow> ring_ok d off (holder s') q"
  shows "order s'"
  using assms unfolding order_def by metis

lemma shape_step:
  assumes "chan_step False s s'" "shape s" "\<not> aborted s'"
  shows "shape s'"
  using assms(1)
proof cases
  case (push_copy t e c)
  then have "length (ptr c) = length (ptr (chan s))" "capacity c = capacity (chan s)" "elesize c = elesize (chan s)"
    "chan_offset c = chan_offset (chan s)"
    by (auto simp: push_copy_def mem_copy_def split: if_splits Option.bind_splits)
  with push_copy assms(2) show ?thesis by (simp add: shape_def elt_ok_def nth_list_update)
next
  case (pop_advance t e c)
  then have "c = (chan s)\<lparr>chan_offset := (chan_offset (chan s) + 1) mod capacity (chan s)\<rparr>"
    by (simp add: pop_advance_def Let_def split: if_splits)
  with pop_advance assms(2) show ?thesis by (simp add: shape_def elt_ok_def nth_list_update)
next
  case (push_lock t e)
  then have "length e = elesize (chan s)" using assms(2) by (auto simp: shape_def elt_ok_def)
  with push_lock assms(2) show ?thesis by (simp add: shape_def elt_ok_def nth_list_update)
next
  case (pop_lock t e)
  then have "length e = elesize (chan s)" using assms(2) by (auto simp: shape_def elt_ok_def)
  with pop_lock assms(2) show ?thesis by (simp add: shape_def elt_ok_def nth_list_update)
qed (use assms(2,3) in \<open>simp_all add: shape_def elt_ok_def nth_list_update clear_fields_def\<close>)

lemma order_push_copy:
  assumes inv: "order s" "mutex s" "tokens s" "shape s"
    and t: "at_pc s t (PushCopy e)" "push_copy (chan s) e = Some c"
  shows "order (goto t (PushIncr e) (on_chan c s))"
proof -
  let ?c = "chan s"
  have h: "holder s = PushCopy e" using holder_self [OF inv(2)] t by (auto simp: pc_defs)
  obtain q where q: "pushed s = popped s @ q" "int (length q) = chan_count ?c"
    "ring_read (slots ?c) (chan_offset ?c) (length q) = q"
    using inv(1) unfolding order_def h by auto
  let ?i = "(chan_offset ?c + length q) mod capacity ?c"
  have i: "nat ((int (chan_offset ?c) + chan_count ?c) mod int (capacity ?c)) = ?i"
    unfolding q(2) [symmetric] by (simp add: nat_mod_as_int flip: of_nat_add)
  obtain d where d: "mem_copy (ptr ?c) (?i * elesize ?c) e 0 (elesize ?c) = Some d" "c = ?c\<lparr>ptr := d\<rparr>"
    and lt: "chan_count ?c < int (capacity ?c)"
    using t(2) unfolding push_copy_def i by (auto split: if_splits Option.bind_splits)
  have len: "length e = elesize ?c" using inv(4) t(1) by (auto simp: shape_def elt_ok_def)
  have "slots c = (slots ?c)[?i := e]"
    unfolding d(2) using inv(4) d(1) len by (intro slots_write) (simp_all add: shape_def)
  moreover have "ring_read ((slots ?c)[?i := e]) (chan_offset ?c) (Suc (length q)) = q @ [e]"
    using ring_read_update [of "length q" "slots ?c" "chan_offset ?c" e] q lt by simp
  moreover have "holder (goto t (PushIncr e) (on_chan c s)) = PushIncr e"
    using t d(2) by (intro holder_moves [OF inv(2)]) (auto simp: pc_defs)
  ultimately show ?thesis using q d(2) unfolding order_def by (intro exI [of _ q]) simp
qed

lemma order_pop_copy:
  assumes inv: "order s" "mutex s" "tokens s" "shape s"
    and t: "at_pc s t (PopCopy e)" "pop_copy (chan s) e = Some e'"
  shows "order (goto t (PopDecr e') s)"
proof -
  let ?c = "chan s"
  have h: "holder s = PopCopy e" using holder_self [OF inv(2)] t by (auto simp: pc_defs)
  obtain q where q: "pushed s = popped s @ q" "int (length q) = chan_count ?c"
    "ring_read (slots ?c) (chan_offset ?c) (length q) = q"
    using inv(1) unfolding order_def h by auto
  have "0 < cnt leaving (pcs s)" using t(1) by (auto intro!: cnt_pos [of t] simp: pc_defs)
  then have "0 < chan_count ?c" using inv(3) by (simp add: tokens_def)
  then obtain x r where xr: "q = x # r" using q(2) by (cases q) auto
  have off: "chan_offset ?c < capacity ?c" and len: "length e = elesize ?c"
    using inv(4) t(1) by (auto simp: shape_def elt_ok_def)
  have "x = ring_read (slots ?c) (chan_offset ?c) (length q) ! 0" using q(3) xr by simp
  also have "\<dots> = take (elesize ?c) (drop (chan_offset ?c * elesize ?c) (ptr ?c))"
    using off xr by (simp add: nth_ring_read slots_def)
  also have "\<dots> = e'" using t(2) len by (auto simp: pop_copy_def mem_copy_def split: if_splits)
  finally have "x = e'" .
  moreover have "holder (goto t (PopDecr e') (on_chan ?c s)) = PopDecr e'"
    using t by (intro holder_moves [OF inv(2)]) (auto simp: pc_defs)
  ultimately show ?thesis using q xr unfolding order_def by (intro exI [of _ q]) simp
qed

lemma order_step:
  assumes step: "chan_step False s s'" and inv: "order s" "mutex s" "tokens s" "shape s" "no_clear s"
    and ok: "\<not> aborted s'"
  shows "order s'"
  using step
proof cases
  case (push_wait t e)
  then show ?thesis
    using holder_stays [OF inv(2)] by (intro order_same [OF inv(1)]) (simp_all add: pc_defs)
next
  case (pop_wait t e)
  then show ?thesis
    using holder_stays [OF inv(2)] by (intro order_same [OF inv(1)]) (simp_all add: pc_defs)
next
  case (push_post t)
  then show ?thesis
    using holder_stays [OF inv(2)] by (intro order_same [OF inv(1)]) (simp_all add: pc_defs)
next
  case (pop_post t)
  then show ?thesis
    using holder_stays [OF inv(2)] by (intro order_same [OF inv(1)]) (simp_all add: pc_defs)
next
  case (push_lock t e)
  then have "holder s = Idle" "holder s' = PushCopy e"
    by (simp add: holder_def, use push_lock in \<open>simp add: holder_new [OF inv(2)]\<close>)
  with push_lock show ?thesis by (intro order_same [OF inv(1)]) simp_all
next
  case (pop_lock t e)
  then have "holder s = Idle" "holder s' = PopCopy e"
    by (simp add: holder_def, use pop_lock in \<open>simp add: holder_new [OF inv(2)]\<close>)
  with pop_lock show ?thesis by (intro order_same [OF inv(1)]) simp_all
next
  case (push_unlock t)
  then have "holder s = PushUnlock" "holder s' = Idle"
    using holder_self [OF inv(2), of t] holder_none [OF inv(2)] by (simp_all add: pc_defs)
  with push_unlock show ?thesis by (intro order_same [OF inv(1)]) simp_all
next
  case (pop_unlock t)
  then have "holder s = PopUnlock" "holder s' = Idle"
    using holder_self [OF inv(2), of t] holder_none [OF inv(2)] by (simp_all add: pc_defs)
  with pop_unlock show ?thesis by (intro order_same [OF inv(1)]) simp_all
next
  case (push_copy t e c)
  then show ?thesis using order_push_copy [OF inv(1-4)] by simp
next
  case (pop_copy t e e')
  then show ?thesis using order_pop_copy [OF inv(1-4)] by simp
next
  case (push_incr t e)
  then have h: "holder s = PushIncr e" using holder_self [OF inv(2), of t] by (simp add: pc_defs)
  obtain q where q: "pushed s = popped s @ q" "int (length q) = chan_count (chan s)"
    "ring_read (slots (chan s)) (chan_offset (chan s)) (Suc (length q)) = q @ [e]"
    using inv(1) unfolding order_def h by auto
  have "holder s' = PushUnlock" using push_incr holder_moves [OF inv(2)] by (simp add: pc_defs)
  with push_incr q show ?thesis unfolding order_def by (intro exI [of _ "q @ [e]"]) simp
next
  case (pop_decr t e)
  then have h: "holder s = PopDecr e" using holder_self [OF inv(2), of t] by (simp add: pc_defs)
  obtain r where q: "pushed s = popped s @ e # r" "int (Suc (length r)) = chan_count (chan s)"
    "ring_read (slots (chan s)) (chan_offset (chan s)) (Suc (length r)) = e # r"
    using inv(1) unfolding order_def h by auto
  have "holder s' = PopAdvance e" using pop_decr holder_moves [OF inv(2)] by (simp add: pc_defs)
  with pop_decr q show ?thesis unfolding order_def by (intro exI [of _ r]) simp
next
  case (pop_advance t e c)
  then have h: "holder s = PopAdvance e" using holder_self [OF inv(2), of t] by (simp add: pc_defs)
  obtain q where q: "pushed s = popped s @ q" "int (length q) = chan_count (chan s)"
    "ring_read (slots (chan s)) (chan_offset (chan s)) (Suc (length q)) = e # q"
    using inv(1) unfolding order_def h by auto
  have c: "c = (chan s)\<lparr>chan_offset := (chan_offset (chan s) + 1) mod capacity (chan s)\<rparr>"
    using pop_advance by (simp add: pop_advance_def Let_def split: if_splits)
  have "ring_read (slots c) (chan_offset c) (length q) = drop 1 (e # q)"
    unfolding q(3) [symmetric] ring_read_drop c using ring_read_mod [of "slots (chan s)"] by simp
  moreover have "holder s' = PopUnlock" using pop_advance c holder_moves [OF inv(2)] by (simp add: pc_defs)
  ultimately show ?thesis using pop_advance q c unfolding order_def by (intro exI [of _ q]) simp
qed (use ok inv(5) in \<open>auto simp: no_clear_def pc_defs\<close>)

text \<open>No step aborts.\<close>

lemma step_not_aborted:
  assumes step: "chan_step False s s'" and inv: "order s" "mutex s" "tokens s" "shape s"
  shows "\<not> aborted s'"
  using step
proof cases
  case (push_abort t e)
  have "0 < cnt entering (pcs s)" using push_abort by (auto intro!: cnt_pos [of t] simp: pc_defs)
  then have lt: "chan_count (chan s) < int (capacity (chan s))" "0 \<le> chan_count (chan s)"
    using inv(3) by (simp_all add: tokens_def)
  have "length e = elesize (chan s)" using inv(4) push_abort by (auto simp: shape_def elt_ok_def)
  moreover have "nat ((int (chan_offset (chan s)) + chan_count (chan s)) mod int (capacity (chan s))) < capacity (chan s)"
    using inv(4) by (simp add: shape_def nat_less_iff)
  from mult_le_index [OF this, of "elesize (chan s)"] have "mem_copy (ptr (chan s))
      (nat ((int (chan_offset (chan s)) + chan_count (chan s)) mod int (capacity (chan s))) * elesize (chan s)) e 0
      (elesize (chan s)) \<noteq> None"
    using calculation inv(4) by (simp add: mem_copy_def shape_def)
  ultimately show ?thesis using push_abort lt by (auto simp: push_copy_def)
next
  case (pop_copy_abort t e)
  have "length e = elesize (chan s)" using inv(4) pop_copy_abort by (auto simp: shape_def elt_ok_def)
  moreover have "chan_offset (chan s) < capacity (chan s)" using inv(4) by (simp add: shape_def)
  from mult_le_index [OF this, of "elesize (chan s)"] have
    "chan_offset (chan s) * elesize (chan s) + elesize (chan s) \<le> length (ptr (chan s))"
    using inv(4) by (simp add: shape_def)
  ultimately show ?thesis using pop_copy_abort by (simp add: pop_copy_def mem_copy_def)
next
  case (pop_abort t e)
  then show ?thesis using inv(3) by (simp add: pop_advance_def Let_def tokens_def split: if_splits)
qed (use inv(4) in \<open>simp_all add: shape_def\<close>)

definition chan_inv :: "chan_state \<Rightarrow> bool" where
  "chan_inv s \<longleftrightarrow> order s \<and> mutex s \<and> tokens s \<and> shape s \<and> no_clear s"

lemma chan_inv_step: "chan_step False s s' \<Longrightarrow> chan_inv s \<Longrightarrow> chan_inv s'"
  unfolding chan_inv_def
  using step_not_aborted order_step mutex_step tokens_step shape_step no_clear_step by metis

section \<open>Every reachable state\<close>

lemma chan_inv_start:
  assumes "channel_create (Some mem) cap n = Some (Some c)" "nat (cap * n) \<le> length mem"
  shows "chan_inv (chan_start c k)"
proof -
  have pos: "0 < cap" "0 < n" using assms(1) by (auto simp: channel_create_def split: if_splits)
  have c: "c = \<lparr>elesize = nat n, capacity = nat cap, chan_count = 0, chan_offset = 0,
      ptr = take (nat (cap * n)) mem, locker = None, reader = 0, writer = nat cap\<rparr>"
    using assms(1) pos by (simp add: channel_create_def)
  have "cnt P (replicate k Idle) = 0" if "\<not> P Idle" for P using that by (simp add: cnt_def filter_replicate)
  then show ?thesis
    using pos assms(2)
    by (simp add: chan_inv_def chan_start_def order_def mutex_def tokens_def shape_def no_clear_def pc_defs
        holder_def ring_read_def elt_ok_def c nat_mult_distrib)
qed

lemma chan_inv_reachable:
  assumes "channel_create (Some mem) cap n = Some (Some c)" "nat (cap * n) \<le> length mem" "chan_reachable False c k s"
  shows "chan_inv s"
  using assms(3) by (induction rule: rtranclp_induct) (auto intro: chan_inv_start [OF assms(1,2)] chan_inv_step)

text \<open>C9: whatever the interleaving of any number of threads that push and pop, with or without a timeout,
  no assertion of the channel fails and no copy leaves its buffer; the elements come out in the order in
  which they went in, each one once; and there are never more of them inside than the capacity.\<close>

theorem channel_fifo:
  assumes "channel_create (Some mem) cap n = Some (Some c)" "nat (cap * n) \<le> length mem" "chan_reachable False c k s"
  shows "\<not> aborted s \<and> (\<exists>q. pushed s = popped s @ q \<and> int (length q) = channel_count (chan s) \<and> int (length q) \<le> cap)"
proof -
  have inv: "chan_inv s" by (rule chan_inv_reachable [OF assms])
  have "capacity (chan s) = nat cap"
    using assms(3)
  proof (induction rule: rtranclp_induct)
    case base
    then show ?case using assms(1) by (auto simp: chan_start_def channel_create_def split: if_splits)
  next
    case (step s s')
    from step(2) have "capacity (chan s') = capacity (chan s)"
      by cases (auto simp: push_copy_def pop_advance_def clear_fields_def Let_def split: if_splits Option.bind_splits)
    with step show ?case by simp
  qed
  moreover have "0 < cap" using assms(1) by (auto simp: channel_create_def split: if_splits)
  moreover have "chan_count (chan s) \<le> int (capacity (chan s))" using inv by (simp add: chan_inv_def tokens_def)
  ultimately show ?thesis
    using inv by (auto simp: chan_inv_def shape_def order_def channel_count_def)
qed

text \<open>A thread in the middle of a call is never stuck for good.\<close>

lemma chan_holder_steps:
  assumes "chan_inv s" "t < length (pcs s)" "locks (pcs s ! t)"
  shows "\<exists>s'. chan_step False s s' \<and> pcs s' ! t \<noteq> pcs s ! t"
proof -
  have na: "\<And>s'. chan_step False s s' \<Longrightarrow> \<not> aborted s'"
    using step_not_aborted assms(1) by (auto simp: chan_inv_def)
  have push: "\<exists>c. push_copy (chan s) e = Some c" if "pcs s ! t = PushCopy e" for e
    using na [OF push_abort [of t s e]] assms(2) that by (cases "push_copy (chan s) e") auto
  have pop: "\<exists>e'. pop_copy (chan s) e = Some e'" if "pcs s ! t = PopCopy e" for e
    using na [OF pop_copy_abort [of t s e]] assms(2) that by (cases "pop_copy (chan s) e") auto
  have adv: "\<exists>c. pop_advance (chan s) = Some c" if "pcs s ! t = PopAdvance e" for e
    using na [OF pop_abort [of t s e]] assms(2) that by (cases "pop_advance (chan s)") auto
  show ?thesis
  proof (cases "pcs s ! t")
    case (PushCopy e)
    with push obtain c where "push_copy (chan s) e = Some c" by blast
    with PushCopy show ?thesis using chan_step.push_copy [of t s e c False] assms(2) by force
  next
    case (PushIncr e)
    then show ?thesis using chan_step.push_incr [of t s e False] assms(2) by force
  next
    case PushUnlock
    then show ?thesis using chan_step.push_unlock [of t s False] assms(2) by force
  next
    case (PopCopy e)
    with pop obtain e' where "pop_copy (chan s) e = Some e'" by blast
    with PopCopy show ?thesis using chan_step.pop_copy [of t s e e' False] assms(2) by force
  next
    case (PopDecr e)
    then show ?thesis using chan_step.pop_decr [of t s e False] assms(2) by force
  next
    case (PopAdvance e)
    with adv obtain c where "pop_advance (chan s) = Some c" by blast
    with PopAdvance show ?thesis using chan_step.pop_advance [of t s e c False] assms(2) by force
  next
    case PopUnlock
    then show ?thesis using chan_step.pop_unlock [of t s False] assms(2) by force
  qed (use assms in \<open>auto simp: chan_inv_def no_clear_def pc_defs\<close>)
qed

lemma chan_busy_steps:
  assumes "chan_inv s" "t < length (pcs s)" "pcs s ! t \<noteq> Idle"
  shows "\<exists>s' u. chan_step False s s' \<and> u < length (pcs s) \<and> pcs s ! u \<noteq> Idle \<and> pcs s' ! u \<noteq> pcs s ! u"
proof (cases "locker (chan s)")
  case (Some u)
  then have "u < length (pcs s)" "locks (pcs s ! u)" using assms(1) by (auto simp: chan_inv_def mutex_def)
  moreover have "pcs s ! u \<noteq> Idle" using calculation(2) by (auto simp: pc_defs)
  ultimately show ?thesis using chan_holder_steps [OF assms(1), of u] by blast
next
  case None
  then have "\<not> locks (pcs s ! t)" "\<not> clears (pcs s ! t)"
    using assms(1,2) by (auto simp: chan_inv_def mutex_def no_clear_def)
  then consider e where "pcs s ! t = PushLock e" | e where "pcs s ! t = PopLock e"
    | "pcs s ! t = PushPost" | "pcs s ! t = PopPost"
    using assms(3) by (cases "pcs s ! t") (auto simp: pc_defs)
  then show ?thesis
  proof cases
    case (1 e)
    then show ?thesis using chan_step.push_lock [of t s e False] None assms by force
  next
    case (2 e)
    then show ?thesis using chan_step.pop_lock [of t s e False] None assms by force
  next
    case 3
    then show ?thesis using chan_step.push_post [of t s False] assms by force
  next
    case 4
    then show ?thesis using chan_step.pop_post [of t s False] assms by force
  qed
qed

text \<open>C14: the threads cannot block each other for good: in every reachable state in which some thread is past
  its wait, such a thread can take a step; and when none is, the two semaphores are the number of elements
  and of free places, so that a push waits only on a full channel and a pop only on an empty one.\<close>

theorem channel_progress:
  assumes "channel_create (Some mem) cap n = Some (Some c)" "nat (cap * n) \<le> length mem" "chan_reachable False c k s"
  shows "(\<exists>s' u. chan_step False s s' \<and> u < length (pcs s) \<and> pcs s ! u \<noteq> Idle \<and> pcs s' ! u \<noteq> pcs s ! u)
    \<or> (\<forall>t < length (pcs s). pcs s ! t = Idle) \<and> int (reader (chan s)) = channel_count (chan s)
        \<and> int (writer (chan s)) = int (capacity (chan s)) - channel_count (chan s)"
proof (cases "\<forall>t < length (pcs s). pcs s ! t = Idle")
  case True
  then have "cnt P (pcs s) = 0" if "\<not> P Idle" for P
    using that by (auto simp: cnt_def filter_empty_conv in_set_conv_nth)
  then have "cnt entered (pcs s) = 0" "cnt leaving (pcs s) = 0" "cnt entering (pcs s) = 0" "cnt left (pcs s) = 0"
    by (simp_all add: pc_defs)
  then show ?thesis
    using True chan_inv_reachable [OF assms] by (simp add: chan_inv_def tokens_def channel_count_def)
next
  case False
  then show ?thesis using chan_busy_steps [OF chan_inv_reachable [OF assms]] by blast
qed

section \<open>Clearing\<close>

text \<open>A channel for one element of one byte and one thread.\<close>

definition one_chan :: "int \<Rightarrow> u8 \<Rightarrow> nat option \<Rightarrow> nat \<Rightarrow> nat \<Rightarrow> channel" where
  "one_chan k x l r w = \<lparr>elesize = 1, capacity = 1, chan_count = k, chan_offset = 0, ptr = [x], locker = l, reader = r, writer = w\<rparr>"

definition one_state :: "channel \<Rightarrow> pc \<Rightarrow> bytes list \<Rightarrow> bytes list \<Rightarrow> bool \<Rightarrow> chan_state" where
  "one_state c p a b f = \<lparr>chan = c, pcs = [p], pushed = a, popped = b, aborted = f\<rparr>"

lemmas one_defs = one_chan_def one_state_def goto_def on_chan_def push_copy_def pop_copy_def pop_advance_def
  clear_fields_def mem_copy_def

lemma one_push:
  "(chan_step True)\<^sup>*\<^sup>* (one_state (one_chan 0 0 None 0 1) Idle [] [] False)
    (one_state (one_chan 1 7 None 1 0) Idle [[7]] [] False)" (is "(chan_step True)\<^sup>*\<^sup>* ?state_a ?state_g")
proof -
  let ?state_b = "one_state (one_chan 0 0 None 0 0) (PushLock [7]) [] [] False"
  let ?state_c = "one_state (one_chan 0 0 (Some 0) 0 0) (PushCopy [7]) [] [] False"
  let ?state_d = "one_state (one_chan 0 7 (Some 0) 0 0) (PushIncr [7]) [] [] False"
  let ?state_e = "one_state (one_chan 1 7 (Some 0) 0 0) PushUnlock [[7]] [] False"
  let ?state_f = "one_state (one_chan 1 7 None 0 0) PushPost [[7]] [] False"
  have "chan_step True ?state_a ?state_b" using chan_step.push_wait [of 0 ?state_a "[7]" True] by (simp add: one_defs)
  moreover have "chan_step True ?state_b ?state_c" using chan_step.push_lock [of 0 ?state_b "[7]" True] by (simp add: one_defs)
  moreover have "chan_step True ?state_c ?state_d" using chan_step.push_copy [of 0 ?state_c "[7]" _ True] by (simp add: one_defs)
  moreover have "chan_step True ?state_d ?state_e" using chan_step.push_incr [of 0 ?state_d "[7]" True] by (simp add: one_defs)
  moreover have "chan_step True ?state_e ?state_f" using chan_step.push_unlock [of 0 ?state_e True] by (simp add: one_defs)
  moreover have "chan_step True ?state_f ?state_g" using chan_step.push_post [of 0 ?state_f True] by (simp add: one_defs)
  ultimately show ?thesis by (meson converse_rtranclp_into_rtranclp rtranclp.rtrancl_refl)
qed

lemma one_clear_pop:
  "(chan_step True)\<^sup>*\<^sup>* (one_state (one_chan 1 7 None 1 0) Idle [[7]] [] False)
    (one_state (one_chan (- 1) 7 (Some 0) 0 0) (PopAdvance [7]) [[7]] [[7]] True)" (is "(chan_step True)\<^sup>*\<^sup>* ?state_a ?state_j")
proof -
  let ?state_b = "one_state (one_chan 1 7 None 1 0) ClearLock [[7]] [] False"
  let ?state_c = "one_state (one_chan 1 7 (Some 0) 1 0) ClearFields [[7]] [] False"
  let ?state_d = "one_state (one_chan 0 7 (Some 0) 1 0) ClearUnlock [[7]] [] False"
  let ?state_e = "one_state (one_chan 0 7 None 1 0) Idle [[7]] [] False"
  let ?state_f = "one_state (one_chan 0 7 None 0 0) (PopLock [0]) [[7]] [] False"
  let ?state_g = "one_state (one_chan 0 7 (Some 0) 0 0) (PopCopy [0]) [[7]] [] False"
  let ?state_h = "one_state (one_chan 0 7 (Some 0) 0 0) (PopDecr [7]) [[7]] [] False"
  let ?state_i = "one_state (one_chan (- 1) 7 (Some 0) 0 0) (PopAdvance [7]) [[7]] [[7]] False"
  have "chan_step True ?state_a ?state_b" using chan_step.clear_call [of True 0 ?state_a] by (simp add: one_defs)
  moreover have "chan_step True ?state_b ?state_c" using chan_step.clear_lock [of 0 ?state_b True] by (simp add: one_defs)
  moreover have "chan_step True ?state_c ?state_d" using chan_step.clear_fields [of 0 ?state_c True] by (simp add: one_defs)
  moreover have "chan_step True ?state_d ?state_e" using chan_step.clear_unlock [of 0 ?state_d True] by (simp add: one_defs)
  moreover have "chan_step True ?state_e ?state_f" using chan_step.pop_wait [of 0 ?state_e "[0]" True] by (simp add: one_defs)
  moreover have "chan_step True ?state_f ?state_g" using chan_step.pop_lock [of 0 ?state_f "[0]" True] by (simp add: one_defs)
  moreover have "chan_step True ?state_g ?state_h" using chan_step.pop_copy [of 0 ?state_g "[0]" "[7]" True] by (simp add: one_defs)
  moreover have "chan_step True ?state_h ?state_i" using chan_step.pop_decr [of 0 ?state_h "[7]" True] by (simp add: one_defs)
  moreover have "chan_step True ?state_i ?state_j" using chan_step.pop_abort [of 0 ?state_i "[7]" True] by (simp add: one_defs)
  ultimately show ?thesis by (meson converse_rtranclp_into_rtranclp rtranclp.rtrancl_refl)
qed

text \<open>\<open>channel_clear\<close> resets the count but not the semaphores: on a channel with room for one element, one
  thread that pushes, clears and pops is let through to an empty channel, takes the cleared element out
  again and fails the assertion \<open>c->count >= 0\<close>.\<close>

theorem channel_clear_aborts:
  "\<exists>c s. channel_create (Some [0]) 1 1 = Some (Some c) \<and> chan_reachable True c 1 s
    \<and> aborted s \<and> channel_count (chan s) = - 1"
proof -
  let ?s = "one_state (one_chan (- 1) 7 (Some 0) 0 0) (PopAdvance [7]) [[7]] [[7]] True"
  have "chan_start (one_chan 0 0 None 0 1) 1 = one_state (one_chan 0 0 None 0 1) Idle [] [] False"
    by (simp add: chan_start_def one_state_def)
  then have "chan_reachable True (one_chan 0 0 None 0 1) 1 ?s"
    using rtranclp_trans [OF one_push one_clear_pop] by simp
  moreover have "channel_create (Some [0]) 1 1 = Some (Some (one_chan 0 0 None 0 1))"
    by (simp add: channel_create_def one_chan_def)
  ultimately show ?thesis by (intro exI [of _ "one_chan 0 0 None 0 1"] exI [of _ ?s]) (simp add: channel_count_def one_defs)
qed

section \<open>Concrete runs\<close>

definition two_chan :: channel where
  "two_chan = \<lparr>elesize = 1, capacity = 2, chan_count = 0, chan_offset = 0, ptr = [0, 0], locker = None, reader = 0, writer = 2\<rparr>"

lemma two_chan_create: "channel_create (Some [0, 0, 0]) 2 1 = Some (Some two_chan)"
  by (simp add: channel_create_def two_chan_def numeral_2_eq_2)

theorem channel_fifo_witness:
  "\<not> aborted (goto 1 (PushLock [7]) (on_chan (two_chan\<lparr>writer := 1\<rparr>) (chan_start two_chan 3)))"
proof -
  have "chan_reachable False two_chan 3 (goto 1 (PushLock [7]) (on_chan (two_chan\<lparr>writer := 1\<rparr>) (chan_start two_chan 3)))"
    using chan_step.push_wait [of 1 "chan_start two_chan 3" "[7]" False]
    by (intro r_into_rtranclp) (simp add: chan_start_def two_chan_def)
  from channel_fifo [OF two_chan_create _ this] show ?thesis by simp
qed

theorem channel_progress_witness:
  "reader (chan (chan_start two_chan 3)) = 0 \<and> writer (chan (chan_start two_chan 3)) = 2 \<and>
    (\<exists>s'. chan_step False (chan_start two_chan 3) s') "
proof -
  have "chan_reachable False two_chan 3 (chan_start two_chan 3)" by simp
  from channel_progress [OF two_chan_create _ this]
  have "reader (chan (chan_start two_chan 3)) = 0 \<and> writer (chan (chan_start two_chan 3)) = 2"
    by (auto simp: chan_start_def channel_count_def two_chan_def nth_replicate)
  moreover have "\<exists>s'. chan_step False (chan_start two_chan 3) s'"
    using chan_step.push_wait [of 1 "chan_start two_chan 3" "[7]" False] by (auto simp: chan_start_def two_chan_def)
  ultimately show ?thesis by blast
qed

end
