(* ===== verification/Bst_No_Parent.thy ===== *)
theory Bst_No_Parent
  imports Prelude "HOL-Library.Tree" "HOL-Library.Multiset"
begin

text \<open>
  The binary search tree of \<open>src/bst_no_parent/bst.c\<close>.  A subtree is reached through one pointer only,
  so that the pointer structure is the tree; a function that gets the address of a pointer returns the
  tree that the pointer refers to afterwards.  Equal keys go to the left.

  Insertion and deletion are shown to keep the search order and to insert into and remove from the sorted
  list of the keys.
\<close>

section \<open>The code\<close>

text \<open>\<open>ok\<close> says whether \<open>malloc\<close> finds memory; the second component is whether the returned pointer is
  not \<open>NULL\<close>.\<close>

fun bst_insert :: "bool \<Rightarrow> int tree \<Rightarrow> int \<Rightarrow> int tree \<times> bool" where
  "bst_insert ok Leaf data = (if \<not> ok then (Leaf, False) else (Node Leaf data Leaf, True))" |
  "bst_insert ok (Node l x r) data =
     (if data > x then (Node l x (fst (bst_insert ok r data)), False)
      else (Node (fst (bst_insert ok l data)) x r, False))"

fun bst_create :: "bool list \<Rightarrow> int tree \<Rightarrow> int list \<Rightarrow> int tree" where
  "bst_create oks t [] = t" |
  "bst_create [] t (a # as) = bst_create [] (fst (bst_insert False t a)) as" |
  "bst_create (ok # oks) t (a # as) = bst_create oks (fst (bst_insert ok t a)) as"

text \<open>The keys the three traversals print, in this order.\<close>

fun bst_pre_iterate :: "int tree \<Rightarrow> int list" where
  "bst_pre_iterate Leaf = []" |
  "bst_pre_iterate (Node l x r) = x # bst_pre_iterate l @ bst_pre_iterate r"

fun bst_in_iterate :: "int tree \<Rightarrow> int list" where
  "bst_in_iterate Leaf = []" |
  "bst_in_iterate (Node l x r) = bst_in_iterate l @ x # bst_in_iterate r"

fun bst_post_iterate :: "int tree \<Rightarrow> int list" where
  "bst_post_iterate Leaf = []" |
  "bst_post_iterate (Node l x r) = bst_post_iterate l @ bst_post_iterate r @ [x]"

text \<open>The loops of \<open>bst_min\<close> and \<open>bst_max\<close>: \<open>p\<close> is the last node seen.\<close>

fun bst_min_loop :: "int tree \<Rightarrow> int tree \<Rightarrow> int tree" where
  "bst_min_loop p Leaf = p" |
  "bst_min_loop p (Node l x r) = bst_min_loop (Node l x r) l"

definition bst_min :: "int tree \<Rightarrow> int tree" where
  "bst_min t = bst_min_loop Leaf t"

fun bst_max_loop :: "int tree \<Rightarrow> int tree \<Rightarrow> int tree" where
  "bst_max_loop p Leaf = p" |
  "bst_max_loop p (Node l x r) = bst_max_loop (Node l x r) r"

definition bst_max :: "int tree \<Rightarrow> int tree" where
  "bst_max t = bst_max_loop Leaf t"

text \<open>\<open>bst_search\<close> has no \<open>return\<close> in front of its recursive calls: below the root it ends without a
  value, which is \<open>None\<close>.\<close>

fun bst_search :: "int tree \<Rightarrow> int \<Rightarrow> int tree option" where
  "bst_search Leaf key = Some Leaf" |
  "bst_search (Node l x r) key =
     (if key = x then Some (Node l x r)
      else if key > x then (case bst_search r key of _ \<Rightarrow> None)
      else (case bst_search l key of _ \<Rightarrow> None))"

fun bst_delete :: "int tree \<Rightarrow> int \<Rightarrow> int tree \<times> int" where
  "bst_delete Leaf key = (Leaf, -1)" |
  "bst_delete (Node l x r) key =
     (if key > x then (case bst_delete r key of (r', e) \<Rightarrow> (Node l x r', e))
      else if key < x then (case bst_delete l key of (l', e) \<Rightarrow> (Node l' x r, e))
      else if l = Leaf \<and> r = Leaf then (Leaf, 0)
      else if l \<noteq> Leaf \<and> r \<noteq> Leaf
      then (let m = value (bst_max_loop Leaf l) in case bst_delete l m of (l', e) \<Rightarrow> (Node l' m r, e))
      else (if l \<noteq> Leaf then l else r, 0))"

section \<open>The search order\<close>

fun search_tree :: "int tree \<Rightarrow> bool" where
  "search_tree Leaf = True" |
  "search_tree (Node l x r) \<longleftrightarrow> search_tree l \<and> search_tree r \<and> (\<forall>y \<in> set_tree l. y \<le> x) \<and> (\<forall>y \<in> set_tree r. x < y)"

abbreviation keys :: "int tree \<Rightarrow> int multiset" where
  "keys t \<equiv> mset (bst_in_iterate t)"

lemma set_in_iterate [simp]: "set (bst_in_iterate t) = set_tree t"
  by (induction t) auto

lemma search_tree_sorted: "search_tree t \<Longrightarrow> sorted (bst_in_iterate t)"
  by (induction t) (auto simp: sorted_append less_imp_le intro: order_trans [OF _ less_imp_le])

lemma set_tree_keys: "set_tree t = set_mset (keys t)"
  by simp

lemma keys_insert [simp]: "keys (fst (bst_insert True t x)) = keys t + {#x#}"
  by (induction True t x rule: bst_insert.induct) auto

lemma set_insert [simp]: "set_tree (fst (bst_insert True t x)) = insert x (set_tree t)"
  unfolding set_tree_keys keys_insert by auto

lemma search_tree_insert: "search_tree t \<Longrightarrow> search_tree (fst (bst_insert True t x))"
  by (induction True t x rule: bst_insert.induct) auto

lemma insert_no_memory [simp]: "fst (bst_insert False t x) = t"
  by (induction False t x rule: bst_insert.induct) auto

text \<open>The last node of the loop has the greatest key of the right spine.\<close>

lemma bst_max_loop_spine:
  "l \<noteq> Leaf \<Longrightarrow> bst_max_loop p l \<noteq> Leaf \<and> value (bst_max_loop p l) = last (bst_in_iterate l)"
proof (induction l arbitrary: p)
  case (Node l x r)
  then show ?case by (cases r) auto
qed simp

lemma bst_min_loop_spine:
  "l \<noteq> Leaf \<Longrightarrow> bst_min_loop p l \<noteq> Leaf \<and> value (bst_min_loop p l) = hd (bst_in_iterate l)"
proof (induction l arbitrary: p)
  case (Node l x r)
  then show ?case by (cases l) (auto simp: hd_append)
qed simp

lemma in_iterate_Nil [simp]: "bst_in_iterate t = [] \<longleftrightarrow> t = Leaf"
  by (cases t) auto

lemma sorted_last: "sorted xs \<Longrightarrow> y \<in> set xs \<Longrightarrow> y \<le> last xs"
  by (induction xs rule: rev_induct) (auto simp: sorted_append)

lemma bst_max_loop_greatest:
  assumes "search_tree l" "l \<noteq> Leaf"
  shows "value (bst_max_loop Leaf l) \<in> set_tree l" "y \<in> set_tree l \<Longrightarrow> y \<le> value (bst_max_loop Leaf l)"
  using assms bst_max_loop_spine [of l Leaf] sorted_last [OF search_tree_sorted] last_in_set [of "bst_in_iterate l"]
  by auto

text \<open>What deletion does, in one statement for the induction.\<close>

definition deleted :: "int tree \<Rightarrow> int \<Rightarrow> int tree \<times> int \<Rightarrow> bool" where
  "deleted t key p \<longleftrightarrow> search_tree (fst p) \<and> keys (fst p) = keys t - {#key#}
     \<and> snd p = (if key \<in> set_tree t then 0 else -1)"

lemma deletedD: "deleted t key (t', e) \<Longrightarrow> y \<in> set_tree t' \<Longrightarrow> y \<in> set_tree t"
  unfolding deleted_def set_tree_keys by (auto dest: in_diffD)

lemma diff_right: "k \<notin># L \<Longrightarrow> L + R - {#k#} = L + (R - {#k#})"
  by (rule multiset_eqI) (auto simp: not_in_iff)

lemma bst_delete_deleted: "search_tree t \<Longrightarrow> deleted t key (bst_delete t key)"
proof (induction t arbitrary: key)
  case Leaf
  then show ?case by (simp add: deleted_def)
next
  case (Node l x r)
  then have l: "\<And>k. deleted l k (bst_delete l k)" and r: "\<And>k. deleted r k (bst_delete r k)"
    and tree: "search_tree l" "search_tree r" "\<forall>y \<in> set_tree l. y \<le> x" "\<forall>y \<in> set_tree r. x < y" by auto
  obtain l' e where l': "bst_delete l key = (l', e)" by fastforce
  obtain r' f where r': "bst_delete r key = (r', f)" by fastforce
  note dl = l [of key, unfolded l'] and dr = r [of key, unfolded r']
  consider "key > x" | "key < x" | "key = x" "l = Leaf \<or> r = Leaf" | "key = x" "l \<noteq> Leaf" "r \<noteq> Leaf" by fastforce
  then show ?case
  proof cases
    case 1
    then have "key \<notin> set_tree l" using tree by auto
    with 1 show ?thesis using dr tree deletedD [OF dr] r' by (auto simp: deleted_def diff_right)
  next
    case 2
    then have "key \<notin> set_tree r" using tree by auto
    with 2 show ?thesis using dl tree deletedD [OF dl] l' diff_right [of key "keys r" "keys l"]
      by (auto simp: deleted_def add.commute)
  next
    case 3
    then show ?thesis using tree by (auto simp: deleted_def)
  next
    case 4
    define m where "m = value (bst_max_loop Leaf l)"
    obtain l2 e2 where l2: "bst_delete l m = (l2, e2)" by fastforce
    note d2 = l [of m, unfolded l2]
    have m: "m \<in> set_tree l" "\<And>y. y \<in> set_tree l \<Longrightarrow> y \<le> m"
      unfolding m_def using bst_max_loop_greatest [OF tree(1) 4(2)] by auto
    then have "m \<in># keys l" by simp
    then have "keys l2 + {#m#} = keys l" using d2 by (simp add: deleted_def)
    moreover have "bst_delete (Node l x r) key = (Node l2 m r, e2)"
      using 4 l2 by (simp add: m_def)
    moreover have "\<forall>y \<in> set_tree r. m < y" using m(1) tree(3,4) by (meson le_less_trans)
    ultimately show ?thesis
      using 4 d2 m tree deletedD [OF d2] by (auto simp: deleted_def)
  qed
qed

lemma search_tree_keys_eq: "search_tree t \<Longrightarrow> sorted xs \<Longrightarrow> keys t = mset xs \<Longrightarrow> bst_in_iterate t = xs"
  using search_tree_sorted by (metis properties_for_sort sorted_sort_id)

text \<open>C33: in a search tree, insertion puts the key at its place in the sorted sequence of the keys and
  deletion removes one occurrence of it, reporting \<open>-1\<close> exactly when there is none; both keep the search
  order.  Without memory an insertion changes nothing.  The pointer that an insertion returns is not \<open>NULL\<close> only when
  memory was found and the tree was empty: below the root a successful insertion returns \<open>NULL\<close> as well.\<close>

theorem bst_operations:
  assumes "search_tree t"
  shows "search_tree (fst (bst_insert ok t x)) \<and> search_tree (fst (bst_delete t x))
    \<and> bst_in_iterate (fst (bst_insert ok t x)) = (if ok then insort x (bst_in_iterate t) else bst_in_iterate t)
    \<and> snd (bst_insert ok t x) = (ok \<and> t = Leaf)
    \<and> bst_delete t x = (fst (bst_delete t x), if x \<in> set (bst_in_iterate t) then 0 else -1)
    \<and> bst_in_iterate (fst (bst_delete t x)) = remove1 x (bst_in_iterate t)"
proof -
  note s = search_tree_sorted [OF assms] and d = bst_delete_deleted [OF assms, of x]
  have insert_result: "snd (bst_insert ok t x) = (ok \<and> t = Leaf)" by (cases t) simp_all
  have "bst_in_iterate (fst (bst_insert True t x)) = insort x (bst_in_iterate t)"
    using s by (intro search_tree_keys_eq search_tree_insert [OF assms]) (simp_all add: sorted_insort)
  moreover have "bst_in_iterate (fst (bst_delete t x)) = remove1 x (bst_in_iterate t)"
    using s d by (intro search_tree_keys_eq) (simp_all add: deleted_def sorted_remove1)
  ultimately show ?thesis
    using search_tree_insert [OF assms] d assms insert_result by (cases ok) (auto simp: deleted_def prod_eq_iff)
qed

text \<open>From the empty tree, \<open>bst_create\<close> sorts: the traversal in order prints the keys of the array
  sorted, and \<open>bst_min\<close> and \<open>bst_max\<close> return nodes with the first and the last of them.\<close>

theorem bst_create_sorts:
  assumes "as \<noteq> []"
  shows "let t = bst_create (replicate (length as) True) Leaf as
    in bst_in_iterate t = sort as \<and> value (bst_min t) = hd (sort as) \<and> value (bst_max t) = last (sort as)"
proof -
  have gen: "search_tree (bst_create (replicate (length as) True) t as)
      \<and> keys (bst_create (replicate (length as) True) t as) = keys t + mset as" if "search_tree t" for t
    using that by (induction as arbitrary: t) (simp_all add: search_tree_insert)
  let ?t = "bst_create (replicate (length as) True) Leaf as"
  have t: "bst_in_iterate ?t = sort as" using gen [of Leaf] by (intro search_tree_keys_eq) simp_all
  then have "?t \<noteq> Leaf" using assms by (metis in_iterate_Nil length_sort length_0_conv)
  then show ?thesis
    using bst_min_loop_spine [of ?t Leaf] bst_max_loop_spine [of ?t Leaf] t
    by (simp add: Let_def bst_min_def bst_max_def)
qed

text \<open>\<open>bst_search\<close> finds the key at the root only: for every other key of a non-empty tree it reaches
  the end of the function without a value, whether the tree has the key or not.\<close>

theorem bst_search_no_value:
  "bst_search (Node l x r) key = (if key = x then Some (Node l x r) else None)"
  by (simp split: option.splits)

theorem bst_operations_witness:
  "bst_in_iterate (fst (bst_delete (Node (Node Leaf 1 Leaf) 3 (Node Leaf 5 Leaf)) 3)) = [1, 5]
    \<and> \<not> snd (bst_insert True (Node (Node Leaf 1 Leaf) 3 (Node Leaf 5 Leaf)) 3)"
  using bst_operations [of "Node (Node Leaf 1 Leaf) 3 (Node Leaf 5 Leaf)" True 3] by simp

theorem bst_create_sorts_witness:
  "bst_in_iterate (bst_create [True, True, True] Leaf [3, 1, 2]) = [1, 2, 3]"
  using bst_create_sorts [of "[3, 1, 2]"] by (simp add: Let_def numeral_3_eq_3)

end
