(* ===== verification/Bsearch.thy ===== *)
theory Bsearch
  imports Prelude
begin

text \<open>
  The binary search of \<open>src/bsearch/bsearch.c\<close>.  Pointers are addresses; the callback \<open>cmp\<close> of the code
  compares the key with the element at an address, so that the key is part of it here.
\<close>

function bsearch :: "(nat \<Rightarrow> int) \<Rightarrow> nat \<Rightarrow> nat \<Rightarrow> nat \<Rightarrow> nat option" where
  "bsearch cmp base num sz =
     (if num > 0
      then let pivot = base + drop_bit 1 num * sz; result = cmp pivot
        in if result = 0 then Some pivot
           else if result > 0 then bsearch cmp (pivot + sz) (drop_bit 1 (num - 1)) sz
           else bsearch cmp base (drop_bit 1 num) sz
      else None)"
  by auto
termination by (relation "measure (\<lambda>(cmp, base, num, sz). num)") (auto simp: drop_bit_eq_div)

declare bsearch.simps [simp del]

text \<open>The array is sorted as far as the key is concerned: the elements below the key come before those
  equal to it, and these before the greater ones.\<close>

definition sorted_for :: "(nat \<Rightarrow> int) \<Rightarrow> nat \<Rightarrow> nat \<Rightarrow> nat \<Rightarrow> bool" where
  "sorted_for cmp base num sz \<longleftrightarrow>
     (\<forall>i j. i \<le> j \<longrightarrow> j < num \<longrightarrow> sgn (cmp (base + j * sz)) \<le> sgn (cmp (base + i * sz)))"

lemma halves: "num > 0 \<Longrightarrow> drop_bit 1 num < num" "num > 0 \<Longrightarrow> drop_bit 1 num + 1 + drop_bit 1 (num - 1) = num" for num :: nat
  unfolding drop_bit_eq_div by (cases num; simp; presburger)+

lemma bsearch_sound: "bsearch cmp base num sz = Some a \<Longrightarrow> \<exists>i < num. a = base + i * sz \<and> cmp a = 0"
proof (induction cmp base num sz rule: bsearch.induct)
  case (1 cmp base num sz)
  let ?h = "drop_bit 1 num" and ?u = "drop_bit 1 (num - 1)"
  let ?p = "base + ?h * sz"
  show ?case
  proof (cases "num > 0")
    case True
    then have h: "?h < num" "?h + 1 + ?u = num" by (rule halves)+
    consider "cmp ?p = 0" | "cmp ?p > 0" | "cmp ?p < 0" by linarith
    then show ?thesis
    proof cases
      case 1
      then have "a = ?p" using "1.prems" True by (subst (asm) bsearch.simps) (simp add: Let_def)
      with 1 h show ?thesis by blast
    next
      case 2
      then have "bsearch cmp (?p + sz) ?u sz = Some a"
        using "1.prems" True by (subst (asm) bsearch.simps) (simp add: Let_def)
      from "1.IH"(1) [OF True refl refl _ 2 this] 2 obtain i where i: "i < ?u" "a = ?p + sz + i * sz" "cmp a = 0"
        by auto
      then show ?thesis using h by (intro exI [of _ "?h + 1 + i"]) (simp add: algebra_simps)
    next
      case 3
      then have "bsearch cmp base ?h sz = Some a"
        using "1.prems" True by (subst (asm) bsearch.simps) (simp add: Let_def)
      from "1.IH"(2) [OF True refl refl _ _ this] 3 obtain i where "i < ?h" "a = base + i * sz" "cmp a = 0" by auto
      then show ?thesis using h(1) less_trans by blast
    qed
  qed (use "1.prems" in \<open>simp add: bsearch.simps\<close>)
qed

lemma bsearch_complete:
  "bsearch cmp base num sz = None \<Longrightarrow> sorted_for cmp base num sz \<Longrightarrow> i < num \<Longrightarrow> cmp (base + i * sz) \<noteq> 0"
proof (induction cmp base num sz arbitrary: i rule: bsearch.induct)
  case (1 cmp base num sz)
  let ?h = "drop_bit 1 num" and ?u = "drop_bit 1 (num - 1)"
  let ?p = "base + ?h * sz"
  have True: "num > 0" using "1.prems" by simp
  then have h: "?h < num" "?h + 1 + ?u = num" by (rule halves)+
  have sorted: "sgn (cmp (base + k * sz)) \<le> sgn (cmp (base + j * sz))" if "j \<le> k" "k < num" for j k
    using "1.prems"(2) that by (simp add: sorted_for_def)
  consider "cmp ?p > 0" | "cmp ?p < 0"
    using "1.prems"(1) True by (subst (asm) bsearch.simps) (auto simp: Let_def split: if_splits)
  then show ?case
  proof cases
    case 1
    have none: "bsearch cmp (?p + sz) ?u sz = None"
      using "1.prems"(1) True 1 by (subst (asm) bsearch.simps) (simp add: Let_def)
    have addr: "?p + sz + j * sz = base + (?h + 1 + j) * sz" for j by (simp add: algebra_simps)
    have "sorted_for cmp (?p + sz) ?u sz"
      unfolding sorted_for_def addr by (intro allI impI sorted) (use h in linarith)+
    note IH = "1.IH"(1) [OF True refl refl _ 1 none this]
    show ?thesis
    proof (cases "i \<le> ?h")
      case True
      then show ?thesis using sorted [OF True h(1)] 1 by (auto simp: sgn_if split: if_splits)
    next
      case False
      then have i: "i = ?h + 1 + (i - ?h - 1)" "i - ?h - 1 < ?u" using "1.prems"(3) h by auto
      have "base + i * sz = ?p + sz + (i - ?h - 1) * sz" by (subst i(1)) (simp add: algebra_simps)
      then show ?thesis using IH [OF _ i(2)] 1 by (simp only:) simp
    qed
  next
    case 2
    have none: "bsearch cmp base ?h sz = None"
      using "1.prems"(1) True 2 by (subst (asm) bsearch.simps) (simp add: Let_def)
    have "sorted_for cmp base ?h sz" using sorted h(1) by (auto simp: sorted_for_def)
    note IH = "1.IH"(2) [OF True refl refl _ _ none this]
    show ?thesis
    proof (cases "i < ?h")
      case True
      then show ?thesis using IH 2 by simp
    next
      case False
      then show ?thesis using sorted [of ?h i] "1.prems"(3) 2 by (auto simp: sgn_if split: if_splits)
    qed
  qed
qed

text \<open>On a sorted array, \<open>bsearch\<close> returns the address of an element equal to the key when there is one
  and \<open>NULL\<close> when there is none.\<close>

theorem bsearch_correct:
  assumes "sorted_for cmp base num sz"
  shows "case bsearch cmp base num sz of
      Some a \<Rightarrow> \<exists>i < num. a = base + i * sz \<and> cmp a = 0
    | None \<Rightarrow> \<forall>i < num. cmp (base + i * sz) \<noteq> 0"
  using assms bsearch_sound [of cmp base num sz] bsearch_complete [of cmp base num sz]
  by (auto split: option.splits)

theorem bsearch_correct_witness:
  "\<exists>i < 4. bsearch (\<lambda>a. 7 - int a) 1 4 2 = Some (1 + i * 2)"
proof -
  have "sorted_for (\<lambda>a. 7 - int a) 1 4 2" by (auto simp: sorted_for_def sgn_if)
  from bsearch_correct [OF this] have "bsearch (\<lambda>a. 7 - int a) 1 4 2 \<noteq> None"
    by (auto split: option.splits dest: spec [of _ 3])
  with bsearch_correct [OF \<open>sorted_for (\<lambda>a. 7 - int a) 1 4 2\<close>] show ?thesis by (auto split: option.splits)
qed

end
