(* ===== verification/Argv.thy ===== *)
theory Argv
  imports Prelude
begin

text \<open>
  \<open>src/argv/argv_split.c\<close>: splitting a command line at white space.  A C string is the list of its bytes
  without the terminating zero; \<open>strdup\<close> gives the buffer of the string with the zero, into which the
  returned pointers point.
\<close>

section \<open>The code\<close>

text \<open>\<open>isspace\<close> of the C locale.\<close>

definition isspace :: "u8 \<Rightarrow> bool" where
  "isspace c \<longleftrightarrow> c = 0x20 \<or> c = 0x09 \<or> c = 0x0A \<or> c = 0x0B \<or> c = 0x0C \<or> c = 0x0D"

function count_loop :: "bytes \<Rightarrow> nat \<Rightarrow> bool \<Rightarrow> nat \<Rightarrow> nat option" where
  "count_loop str p was_space count =
     (case fetch str p of
        None \<Rightarrow> None
      | Some c \<Rightarrow>
          if c = 0 then Some count
          else if isspace c then count_loop str (p + 1) True count
          else if was_space then count_loop str (p + 1) False (count + 1)
          else count_loop str (p + 1) was_space count)"
  by auto
termination by (relation "measure (\<lambda>(str, p, _). length str - p)") (auto simp: fetch_def split: if_splits)

definition count_argc :: "bytes \<Rightarrow> nat option" where
  "count_argc str = count_loop str 0 True 0"

function split_loop :: "bytes \<Rightarrow> nat \<Rightarrow> bool \<Rightarrow> nat list \<Rightarrow> (bytes \<times> nat list) option" where
  "split_loop str p was_space argv =
     (case fetch str p of
        None \<Rightarrow> None
      | Some c \<Rightarrow>
          if c = 0 then Some (str, argv)
          else if isspace c then split_loop (str[p := 0]) (p + 1) True argv
          else if was_space then split_loop str (p + 1) False (argv @ [p])
          else split_loop str (p + 1) was_space argv)"
  by auto
termination by (relation "measure (\<lambda>(str, p, _). length str - p)") (auto simp: fetch_def split: if_splits)

declare count_loop.simps [simp del] split_loop.simps [simp del]

text \<open>\<open>dup_ok\<close> and \<open>malloc_ok\<close> say whether there is memory; the array of pointers has \<open>argc + 2\<close> places, the
  first for the buffer and the last for \<open>NULL\<close>, and writing past it gives \<open>None\<close>.\<close>

definition argv_split :: "bool \<Rightarrow> bool \<Rightarrow> bytes \<Rightarrow> (nat \<times> bytes \<times> nat list) option option" where
  "argv_split dup_ok malloc_ok str =
     (if \<not> dup_ok then Some None
      else let argv_str = str @ [0] in
        case count_argc argv_str of
          None \<Rightarrow> None
        | Some argc \<Rightarrow>
            if \<not> malloc_ok then Some None
            else case split_loop argv_str 0 True [] of
                None \<Rightarrow> None
              | Some (argv_str, argv) \<Rightarrow>
                  if length argv + 2 > argc + 2 then None else Some (Some (argc, argv_str, argv)))"

section \<open>Words\<close>

function words :: "bytes \<Rightarrow> bytes list" where
  "words [] = []" |
  "words (c # cs) = (if isspace c then words cs
     else (c # takeWhile (\<lambda>c. \<not> isspace c) cs) # words (dropWhile (\<lambda>c. \<not> isspace c) cs))"
  by pat_completeness auto
termination by (relation "measure length") (auto simp: less_Suc_eq_le length_dropWhile_le)

definition cstring :: "bytes \<Rightarrow> nat \<Rightarrow> bytes" where
  "cstring b p = takeWhile (\<lambda>c. c \<noteq> 0) (drop p b)"

text \<open>What is still to be split, in the middle of a word or not.\<close>

definition rest_words :: "bool \<Rightarrow> bytes \<Rightarrow> bytes list" where
  "rest_words ws cs = (if ws then words cs else words (dropWhile (\<lambda>c. \<not> isspace c) cs))"

lemma rest_words_simps [simp]:
  "rest_words ws [] = []"
  "isspace c \<Longrightarrow> rest_words ws (c # cs) = rest_words True cs"
  "\<not> isspace c \<Longrightarrow> rest_words True (c # cs) = (c # takeWhile (\<lambda>c. \<not> isspace c) cs) # rest_words False cs"
  "\<not> isspace c \<Longrightarrow> rest_words False (c # cs) = rest_words False cs"
  by (simp_all add: rest_words_def)

lemma count_loop_words:
  "0 \<notin> set cs \<Longrightarrow> count_loop (pre @ cs @ [0]) (length pre) ws n = Some (n + length (rest_words ws cs))"
proof (induction cs arbitrary: pre ws n)
  case (Cons c cs)
  then have "count_loop ((pre @ [c]) @ cs @ [0]) (length (pre @ [c])) b m = Some (m + length (rest_words b cs))" for b m
    by (intro Cons.IH) simp
  with Cons.prems show ?case
    by (subst count_loop.simps) (cases ws; simp add: nth_append)
qed (subst count_loop.simps, simp)

definition blank :: "u8 \<Rightarrow> u8" where
  "blank c = (if isspace c then 0 else c)"

lemma takeWhile_blank:
  "0 \<notin> set cs \<Longrightarrow> takeWhile (\<lambda>c. c \<noteq> 0) (map blank cs @ 0 # zs) = takeWhile (\<lambda>c. \<not> isspace c) cs"
  by (induction cs) (auto simp: blank_def)

lemma split_loop_words:
  "0 \<notin> set cs \<Longrightarrow> \<exists>new. split_loop (pre @ cs @ [0]) (length pre) ws argv = Some (pre @ map blank cs @ [0], argv @ new)
    \<and> map (cstring (pre @ map blank cs @ [0])) new = rest_words ws cs"
proof (induction cs arbitrary: pre ws argv)
  case (Cons c cs)
  let ?d = "blank c"
  have IH: "\<exists>new. split_loop ((pre @ [?d]) @ cs @ [0]) (length (pre @ [?d])) b a = Some ((pre @ [?d]) @ map blank cs @ [0], a @ new)
      \<and> map (cstring ((pre @ [?d]) @ map blank cs @ [0])) new = rest_words b cs" for b a
    using Cons.prems by (intro Cons.IH) simp
  have c: "c \<noteq> 0" "fetch (pre @ (c # cs) @ [0]) (length pre) = Some c" using Cons.prems by (auto simp: fetch_def)
  show ?case
  proof (cases "isspace c")
    case True
    then show ?thesis using IH [of True argv] c
      by (subst split_loop.simps) (simp add: blank_def)
  next
    case False
    have word: "cstring (pre @ c # map blank cs @ [0]) (length pre) = c # takeWhile (\<lambda>c. \<not> isspace c) cs"
      using Cons.prems takeWhile_blank [of cs "[]"] by (auto simp: cstring_def)
    show ?thesis
    proof (cases ws)
      case True
      obtain new where "split_loop ((pre @ [?d]) @ cs @ [0]) (length (pre @ [?d])) False (argv @ [length pre]) =
          Some ((pre @ [?d]) @ map blank cs @ [0], (argv @ [length pre]) @ new)"
        "map (cstring ((pre @ [?d]) @ map blank cs @ [0])) new = rest_words False cs"
        using IH by blast
      with False True c word show ?thesis
        by (subst split_loop.simps) (intro exI [of _ "length pre # new"], simp add: blank_def)
    next
      case ws: False
      with False show ?thesis using IH [of False argv] c by (subst split_loop.simps) (simp add: blank_def)
    qed
  qed
qed (subst split_loop.simps, simp)

text \<open>With memory, \<open>argv_split\<close> returns the words of the command line: as many pointers as it counted,
  which fit the array, and the string at each of them is the word at this place.\<close>

theorem argv_split_words:
  assumes "0 \<notin> set str"
  shows "\<exists>buf argv. argv_split True True str = Some (Some (length (words str), buf, argv))
    \<and> map (cstring buf) argv = words str"
proof -
  have n: "count_argc (str @ [0]) = Some (length (words str))"
    using count_loop_words [OF assms, of "[]" True 0] by (simp add: count_argc_def rest_words_def)
  obtain new where new: "split_loop (str @ [0]) 0 True [] = Some (map blank str @ [0], new)"
    "map (cstring (map blank str @ [0])) new = words str"
    using split_loop_words [OF assms, of "[]" True "[]"] by (auto simp: rest_words_def)
  have "length new = length (words str)" using arg_cong [OF new(2), of length] by simp
  with n new show ?thesis by (simp add: argv_split_def Let_def)
qed

theorem argv_split_words_witness:
  "\<exists>buf argv. argv_split True True [0x61, 0x20, 0x62, 0x63] = Some (Some (2, buf, argv))
    \<and> map (cstring buf) argv = [[0x61], [0x62, 0x63]]"
  using argv_split_words [of "[0x61, 0x20, 0x62, 0x63]"] unfolding numeral_2_eq_2 by (simp add: isspace_def)

end
