(* ===== verification/Codec_Record.thy ===== *)
theory Codec_Record
  imports Ring
begin

text \<open>
  The contract of the headers and configuration records of \<open>src/media/codec\<close>: a record is saved as a
  sequence of bytes and loaded from the beginning of a buffer, the loader reporting how many bytes it
  used.  The laws give what a container format relies on: no two records are saved alike, none is a
  prefix of another, and a sequence of records can be read back one by one.
\<close>

locale record_codec =
  fixes valid :: "'a \<Rightarrow> bool" and saved :: "'a \<Rightarrow> bytes" and loads :: "bytes \<Rightarrow> ('a \<times> nat) option"
  assumes loads_saved: "valid x \<Longrightarrow> loads (saved x @ rest) = Some (x, length (saved x))"
    and saved_nonempty: "valid x \<Longrightarrow> saved x \<noteq> []"
begin

lemma saved_prefix_free:
  assumes "valid x" "valid y" "saved x @ r = saved y @ s"
  shows "x = y \<and> r = s"
  using loads_saved [OF assms(1), of r] loads_saved [OF assms(2), of s] assms(3) by auto

text \<open>Reading records until the buffer is used up; \<open>n\<close> bounds their number.\<close>

primrec load_all :: "nat \<Rightarrow> bytes \<Rightarrow> 'a list option" where
  "load_all 0 b = (if b = [] then Some [] else None)" |
  "load_all (Suc n) b =
     (if b = [] then Some []
      else case loads b of
          None \<Rightarrow> None
        | Some (x, k) \<Rightarrow> map_option (Cons x) (load_all n (drop k b)))"

lemma load_all_saved:
  "\<forall>x \<in> set xs. valid x \<Longrightarrow> length xs \<le> n \<Longrightarrow> load_all n (concat (map saved xs)) = Some xs"
proof (induction xs arbitrary: n)
  case Nil
  then show ?case by (cases n) simp_all
next
  case (Cons x xs)
  then obtain m where n: "n = Suc m" "length xs \<le> m" by (cases n) auto
  then show ?case
    using Cons.IH [of m] Cons.prems loads_saved [of x "concat (map saved xs)"] saved_nonempty [of x] by simp
qed

end

text \<open>A C loader returns the number of bytes it used (zero or less for an error) and the structure it
  filled; a C saver the number of bytes it wrote and the buffer.  \<open>None\<close> is a failed assertion or an
  access outside the buffer.\<close>

definition loads_of :: "(bytes \<Rightarrow> (int \<times> 'a) option) \<Rightarrow> bytes \<Rightarrow> ('a \<times> nat) option" where
  "loads_of load b = (case load b of None \<Rightarrow> None | Some (r, x) \<Rightarrow> if r > 0 then Some (x, nat r) else None)"

definition saved_of :: "('a \<Rightarrow> bytes \<Rightarrow> (int \<times> bytes) option) \<Rightarrow> nat \<Rightarrow> 'a \<Rightarrow> bytes" where
  "saved_of save room x = (case save x (replicate room 0) of None \<Rightarrow> [] | Some (r, b) \<Rightarrow> take (nat r) b)"

text \<open>The bytes of \<open>uint16_t\<close> and \<open>uint32_t\<close> values, high byte first and low byte first.\<close>

definition be16 :: "u8 \<Rightarrow> u8 \<Rightarrow> u16" where
  "be16 a b = shl (ucast a) 8 OR ucast b"

lemma be16_bytes: "be16 (ucast (shr w 8)) (ucast w) = (w :: u16)"
  unfolding be16_def by (rule bit_word_eqI) (auto simp: bit_simps)

definition le32 :: "u8 \<Rightarrow> u8 \<Rightarrow> u8 \<Rightarrow> u8 \<Rightarrow> u32" where
  "le32 a b c d = shl (ucast d) 24 OR shl (ucast c) 16 OR shl (ucast b) 8 OR ucast a"

lemma le32_bytes: "le32 (ucast w) (ucast (shr w 8)) (ucast (shr w 16)) (ucast (shr w 24)) = (w :: u32)"
  unfolding le32_def
proof (rule bit_word_eqI)
  fix n assume "n < LENGTH(32)"
  then consider "n < 8" | "8 \<le> n" "n - 8 < 8" "\<not> 16 \<le> n" "\<not> 24 \<le> n" "n < 32"
    | "16 \<le> n" "n - 16 < 8" "\<not> n - 8 < 8" "\<not> 24 \<le> n" "n < 32" | "24 \<le> n" "n - 24 < 8" "\<not> n - 16 < 8" "\<not> n - 8 < 8" "n < 32"
    by force
  then show "bit (shl (ucast (ucast (shr w 24) :: u8)) 24 OR shl (ucast (ucast (shr w 16) :: u8)) 16
      OR shl (ucast (ucast (shr w 8) :: u8)) 8 OR ucast (ucast w :: u8) :: u32) n = bit w n"
    by cases (simp_all add: bit_simps)
qed

lemma length_4_cases: "4 \<le> length xs \<Longrightarrow> \<exists>a b c d rest. xs = a # b # c # d # rest"
  by (auto simp: Suc_le_length_iff numeral_eq_Suc)

text \<open>Bit fields of one, two and four bits: equality bit by bit, and the bits outside.\<close>

lemma field1_eq_iff [bitwise_eqs]: "(a :: 1 word) = b \<longleftrightarrow> (\<forall>n < Suc 0. bit a n = bit b n)"
  by (auto intro: bit_word_eqI)

lemma field2_eq_iff [bitwise_eqs]: "(a :: 2 word) = b \<longleftrightarrow> (\<forall>n < 2. bit a n = bit b n)"
  by (auto intro: bit_word_eqI)

lemma field4_eq_iff [bitwise_eqs]: "(a :: 4 word) = b \<longleftrightarrow> (\<forall>n < 4. bit a n = bit b n)"
  by (auto intro: bit_word_eqI)

lemma field3_eq_iff [bitwise_eqs]: "(a :: 3 word) = b \<longleftrightarrow> (\<forall>n < 3. bit a n = bit b n)"
  by (auto intro: bit_word_eqI)

lemma field5_eq_iff [bitwise_eqs]: "(a :: 5 word) = b \<longleftrightarrow> (\<forall>n < 5. bit a n = bit b n)"
  by (auto intro: bit_word_eqI)

lemma field7_eq_iff [bitwise_eqs]: "(a :: 7 word) = b \<longleftrightarrow> (\<forall>n < 7. bit a n = bit b n)"
  by (auto intro: bit_word_eqI)

lemma not_bit_field_odd [bitwise_eqs]:
  "3 \<le> m \<Longrightarrow> \<not> bit (a :: 3 word) m" "5 \<le> m \<Longrightarrow> \<not> bit (b :: 5 word) m" "7 \<le> m \<Longrightarrow> \<not> bit (c :: 7 word) m"
  using bit_imp_le_length [of a m] bit_imp_le_length [of b m] bit_imp_le_length [of c m] by auto

lemma not_bit_field [bitwise_eqs]:
  "\<not> bit (a :: 1 word) (Suc n)" "\<not> bit (a :: 1 word) (numeral k)"
  "2 \<le> m \<Longrightarrow> \<not> bit (b :: 2 word) m" "4 \<le> m \<Longrightarrow> \<not> bit (c :: 4 word) m"
  using bit_imp_le_length [of a "Suc n"] bit_imp_le_length [of a "numeral k"] bit_imp_le_length [of b m]
    bit_imp_le_length [of c m] by auto

text \<open>A bound of a power of two leaves the high bits clear.\<close>

lemma high_bits_clear:
  fixes x :: "'a::len word"
  assumes "unat x < 2 ^ k" "k \<le> n"
  shows "\<not> bit x n"
proof -
  have "take_bit k (unat x) = unat x" using assms(1) by (rule take_bit_nat_eq_self)
  then have "take_bit k x = x" by (metis unsigned_take_bit_eq unsigned_word_eqI)
  then show ?thesis using assms(2) by (metis bit_take_bit_iff leD)
qed

end
