(* ===== verification/Mp3_Header.thy ===== *)
theory Mp3_Header
  imports Codec_Record
begin

text \<open>
  The MPEG audio frame header of \<open>src/media/codec/mp3-header/mp3-header.c\<close>.  The bit fields of the
  structure are words of their widths.  A buffer is the list of its bytes, its length the argument
  \<open>bytes\<close>; reading past it gives \<open>None\<close>, as does a failed assertion.
\<close>

section \<open>The code\<close>

record mp3_header_t =
  version :: "2 word"
  layer :: "2 word"
  protection :: "1 word"
  bitrate_index :: "4 word"
  sampling_frequency :: "2 word"
  priviate :: "1 word"
  mode :: "2 word"
  mode_extension :: "2 word"
  copyright :: "1 word"
  original :: "1 word"
  emphasis :: "2 word"

definition s_bitrate_mpeg1 :: "int list list" where
  "s_bitrate_mpeg1 = [
     [0, 32000, 64000, 96000, 128000, 160000, 192000, 224000, 256000, 288000, 320000, 352000, 384000, 416000, 448000, -1],
     [0, 32000, 48000, 56000, 64000, 80000, 96000, 112000, 128000, 160000, 192000, 224000, 256000, 320000, 384000, -1],
     [0, 32000, 40000, 48000, 56000, 64000, 80000, 96000, 112000, 128000, 160000, 192000, 224000, 256000, 320000, -1]]"

definition s_bitrate_mpeg2 :: "int list list" where
  "s_bitrate_mpeg2 = [
     [0, 32000, 48000, 56000, 64000, 80000, 96000, 112000, 128000, 144000, 160000, 176000, 192000, 224000, 256000, -1],
     [0, 8000, 16000, 24000, 32000, 40000, 48000, 56000, 64000, 80000, 96000, 112000, 128000, 144000, 160000, -1],
     [0, 8000, 16000, 24000, 32000, 40000, 48000, 56000, 64000, 80000, 96000, 112000, 128000, 144000, 160000, -1]]"

definition s_frequency_mpeg1 :: "int list" where "s_frequency_mpeg1 = [44100, 48000, 32000, -1]"
definition s_frequency_mpeg2 :: "int list" where "s_frequency_mpeg2 = [22050, 24000, 16000, -1]"
definition s_frequency_mpeg25 :: "int list" where "s_frequency_mpeg25 = [11025, 12000, 8000, -1]"

text \<open>Where the frame starts, behind an ID3 tag if there is one; \<open>None\<close> is the early return of \<open>0\<close>.\<close>

definition mp3_skip_tag :: "bytes \<Rightarrow> nat option" where
  "mp3_skip_tag data =
     (if take 3 data = [asc CHR ''T'', asc CHR ''A'', asc CHR ''G'']
      then if length data < 128 + 4 then None else Some 128
      else if take 3 data = [asc CHR ''I'', asc CHR ''D'', asc CHR ''3'']
      then if data ! 3 \<noteq> 3 \<or> length data < 10 then None
        else let n = shl (ucast (data ! 6) AND 0x7F) 21 OR shl (ucast (data ! 7) AND 0x7F) 14
                     OR shl (ucast (data ! 8) AND 0x7F) 7 OR (ucast (data ! 9) AND 0x7F) :: u32
          in if int (length data) < sint n + 10 then None else Some (unat n + 10)
      else Some 0)"

definition mp3_header_load :: "mp3_header_t \<Rightarrow> bytes \<Rightarrow> (int \<times> mp3_header_t) option" where
  "mp3_header_load mp3 data =
     (if length data < 4 then Some (0, mp3)
      else case mp3_skip_tag data of
          None \<Rightarrow> Some (0, mp3)
        | Some q \<Rightarrow> do {
            p0 \<leftarrow> fetch data q; p1 \<leftarrow> fetch data (q + 1);
            if p0 \<noteq> 0xFF \<or> p1 AND 0xE0 \<noteq> 0xE0 then None
            else do {
              p2 \<leftarrow> fetch data (q + 2); p3 \<leftarrow> fetch data (q + 3);
              Some (int q + 4, mp3\<lparr>
                version := ucast (shr p1 3 AND 0x03),
                layer := ucast (shr p1 1 AND 0x03),
                protection := ucast (p1 AND 0x01),
                bitrate_index := ucast (shr p2 4 AND 0x0F),
                sampling_frequency := ucast (shr p2 2 AND 0x03),
                priviate := ucast (p2 AND 0x01),
                mode := ucast (shr p3 6 AND 0x03),
                mode_extension := ucast (shr p3 4 AND 0x03),
                copyright := ucast (shr p3 3 AND 0x01),
                original := ucast (shr p3 2 AND 0x01),
                emphasis := ucast (p3 AND 0x03)\<rparr>) } })"

definition mp3_header_save :: "mp3_header_t \<Rightarrow> bytes \<Rightarrow> (int \<times> bytes) option" where
  "mp3_header_save mp3 data =
     Some (if length data < 4 then (0, data)
      else (4, data
        [0 := 0xFF,
         1 := 0xE0 OR shl (ucast (version mp3)) 3 OR shl (ucast (layer mp3)) 1 OR ucast (protection mp3),
         2 := shl (ucast (bitrate_index mp3)) 4 OR shl (ucast (sampling_frequency mp3)) 2 OR 0x00 OR ucast (priviate mp3),
         3 := shl (ucast (mode mp3)) 6 OR shl (ucast (mode_extension mp3)) 4 OR shl (ucast (copyright mp3)) 3
              OR shl (ucast (original mp3)) 2 OR ucast (emphasis mp3)]))"

definition mp3_get_channel :: "mp3_header_t \<Rightarrow> int" where
  "mp3_get_channel mp3 = (if mode mp3 = 0x03 then 1 else 2)"

text \<open>The row of the bit rates; \<open>None\<close> where an assertion fails.\<close>

definition mp3_bitrates :: "mp3_header_t \<Rightarrow> int list option" where
  "mp3_bitrates mp3 =
     (if unat (layer mp3) < 1 \<or> unat (layer mp3) > 3 then None
      else if version mp3 = 3 then Some (s_bitrate_mpeg1 ! (3 - unat (layer mp3)))
      else if version mp3 = 2 \<or> version mp3 = 0 then Some (s_bitrate_mpeg2 ! (3 - unat (layer mp3)))
      else None)"

definition mp3_get_bitrate :: "mp3_header_t \<Rightarrow> int option" where
  "mp3_get_bitrate mp3 = map_option (\<lambda>row. row ! unat (bitrate_index mp3)) (mp3_bitrates mp3)"

text \<open>\<open>mp3_find_bitrate\<close> and \<open>mp3_find_frequency\<close>: the first index of a value, or \<open>-1\<close>.\<close>

fun mp3_find :: "int list \<Rightarrow> int \<Rightarrow> nat \<Rightarrow> int" where
  "mp3_find [] x i = -1" |
  "mp3_find (y # ys) x i = (if x = y then int i else mp3_find ys x (i + 1))"

definition mp3_set_bitrate :: "mp3_header_t \<Rightarrow> int \<Rightarrow> (int \<times> mp3_header_t) option" where
  "mp3_set_bitrate mp3 bitrate = do {
     row \<leftarrow> mp3_bitrates mp3;
     let r = mp3_find row bitrate 0;
     Some (if r = -1 then (-1, mp3) else (0, mp3\<lparr>bitrate_index := word_of_int r\<rparr>)) }"

definition mp3_frequencies :: "mp3_header_t \<Rightarrow> int list option" where
  "mp3_frequencies mp3 =
     (if version mp3 = 3 then Some s_frequency_mpeg1 else if version mp3 = 2 then Some s_frequency_mpeg2
      else if version mp3 = 0 then Some s_frequency_mpeg25 else None)"

definition mp3_get_frequency :: "mp3_header_t \<Rightarrow> int option" where
  "mp3_get_frequency mp3 = map_option (\<lambda>row. row ! unat (sampling_frequency mp3)) (mp3_frequencies mp3)"

definition mp3_set_frequency :: "mp3_header_t \<Rightarrow> int \<Rightarrow> (int \<times> mp3_header_t) option" where
  "mp3_set_frequency mp3 frequency = do {
     row \<leftarrow> mp3_frequencies mp3;
     let r = mp3_find row frequency 0;
     Some (if r = -1 then (-1, mp3) else (0, mp3\<lparr>sampling_frequency := word_of_int r\<rparr>)) }"

section \<open>Round trips\<close>

text \<open>The three bytes behind the first, and the fields in them.\<close>

definition byte1 :: "mp3_header_t \<Rightarrow> u8" where
  "byte1 h = 0xE0 OR shl (ucast (version h)) 3 OR shl (ucast (layer h)) 1 OR ucast (protection h)"

definition byte2 :: "mp3_header_t \<Rightarrow> u8" where
  "byte2 h = shl (ucast (bitrate_index h)) 4 OR shl (ucast (sampling_frequency h)) 2 OR 0x00 OR ucast (priviate h)"

definition byte3 :: "mp3_header_t \<Rightarrow> u8" where
  "byte3 h = shl (ucast (mode h)) 6 OR shl (ucast (mode_extension h)) 4 OR shl (ucast (copyright h)) 3
     OR shl (ucast (original h)) 2 OR ucast (emphasis h)"

lemma byte1_fields:
  "ucast (shr (byte1 h) 3 AND 0x03) = version h" "ucast (shr (byte1 h) 1 AND 0x03) = layer h"
  "ucast (byte1 h AND 0x01) = protection h" "byte1 h AND 0xE0 = 0xE0"
  by (simp_all add: byte1_def bitwise_eqs nat_bits bit_simps)

lemma byte2_fields:
  "ucast (shr (byte2 h) 4 AND 0x0F) = bitrate_index h" "ucast (shr (byte2 h) 2 AND 0x03) = sampling_frequency h"
  "ucast (byte2 h AND 0x01) = priviate h"
  by (simp_all add: byte2_def bitwise_eqs nat_bits bit_simps)

lemma byte3_fields:
  "ucast (shr (byte3 h) 6 AND 0x03) = mode h" "ucast (shr (byte3 h) 4 AND 0x03) = mode_extension h"
  "ucast (shr (byte3 h) 3 AND 0x01) = copyright h" "ucast (shr (byte3 h) 2 AND 0x01) = original h"
  "ucast (byte3 h AND 0x03) = emphasis h"
  by (simp_all add: byte3_def bitwise_eqs nat_bits bit_simps)

text \<open>The four bytes of a header.\<close>

definition mp3_bytes :: "mp3_header_t \<Rightarrow> bytes" where
  "mp3_bytes = saved_of mp3_header_save 4"

lemma mp3_bytes_eq: "mp3_bytes h = [0xFF, byte1 h, byte2 h, byte3 h]"
  by (simp add: mp3_bytes_def saved_of_def mp3_header_save_def byte1_def byte2_def byte3_def replicate_numeral_Cons)

lemma mp3_save: "4 \<le> length data \<Longrightarrow> mp3_header_save mp3 data = Some (4, mp3_bytes mp3 @ drop 4 data)"
  by (drule length_4_cases) (auto simp: mp3_bytes_eq mp3_header_save_def byte1_def byte2_def byte3_def eval_nat_numeral)

lemma mp3_load: "mp3_header_load old (mp3_bytes mp3 @ rest) = Some (4, mp3)"
  using byte1_fields [of mp3] byte2_fields [of mp3] byte3_fields [of mp3]
  by (simp add: mp3_bytes_eq mp3_header_load_def mp3_skip_tag_def fetch_def)

definition mp3_blank :: mp3_header_t where
  "mp3_blank = \<lparr>version = 0, layer = 0, protection = 0, bitrate_index = 0, sampling_frequency = 0, priviate = 0,
     mode = 0, mode_extension = 0, copyright = 0, original = 0, emphasis = 0\<rparr>"

interpretation mp3_codec: record_codec "\<lambda>_. True" mp3_bytes "loads_of (mp3_header_load mp3_blank)"
proof
  fix x rest
  have "length (mp3_bytes x) = 4" by (simp add: mp3_bytes_eq)
  then show "loads_of (mp3_header_load mp3_blank) (mp3_bytes x @ rest) = Some (x, length (mp3_bytes x))" "mp3_bytes x \<noteq> []"
    by (auto simp: loads_of_def mp3_load)
qed

section \<open>Rates\<close>

lemma mp3_find_range: "mp3_find row x i = r \<Longrightarrow> r \<noteq> -1 \<Longrightarrow> \<exists>j < length row. r = int (i + j) \<and> row ! j = x"
proof (induction row x i rule: mp3_find.induct)
  case (2 y ys x i)
  show ?case
  proof (cases "x = y")
    case True
    then show ?thesis using 2(2) by (intro exI [of _ 0]) simp
  next
    case False
    then obtain j where "j < length ys" "r = int (i + 1 + j)" "ys ! j = x" using 2 by auto
    then show ?thesis by (intro exI [of _ "Suc j"]) simp
  qed
qed simp

lemma mp3_find_absent: "mp3_find row x i = -1 \<longleftrightarrow> x \<notin> set row"
  by (induction row x i rule: mp3_find.induct) auto

lemma mp3_find_nth: "distinct row \<Longrightarrow> j < length row \<Longrightarrow> mp3_find row (row ! j) i = int (i + j)"
  by (induction row arbitrary: i j) (auto simp: nth_Cons split: nat.splits)

lemma mp3_bitrates_rows: "mp3_bitrates h = Some row \<Longrightarrow> length row = 16 \<and> distinct row"
proof -
  have "unat (layer h) < 4" using unsigned_less [of "layer h", where 'a = nat] by simp
  then have "unat (layer h) \<in> {0, 1, 2, 3}" by auto
  then show "mp3_bitrates h = Some row \<Longrightarrow> ?thesis"
    by (auto simp: mp3_bitrates_def s_bitrate_mpeg1_def s_bitrate_mpeg2_def split: if_splits)
qed

lemma mp3_frequencies_rows: "mp3_frequencies h = Some row \<Longrightarrow> length row = 4 \<and> distinct row"
  by (auto simp: mp3_frequencies_def s_frequency_mpeg1_def s_frequency_mpeg2_def s_frequency_mpeg25_def
      split: if_splits)

text \<open>Selecting a table does not look at the index that is set.\<close>

lemma mp3_rows_update [simp]:
  "mp3_bitrates (h\<lparr>bitrate_index := i\<rparr>) = mp3_bitrates h"
  "mp3_frequencies (h\<lparr>sampling_frequency := j\<rparr>) = mp3_frequencies h"
  by (simp_all add: mp3_bitrates_def mp3_frequencies_def)

text \<open>An index found in a row of \<open>2 ^ n\<close> entries fits into a field of \<open>n\<close> bits.\<close>

lemma found_index:
  assumes "mp3_find row x 0 = r" "r \<noteq> -1" "length row = 2 ^ LENGTH('a::len)"
  shows "row ! unat (word_of_int r :: 'a word) = x"
proof -
  obtain j where j: "j < length row" "r = int j" "row ! j = x" using mp3_find_range [OF assms(1,2)] by auto
  then have "unat (word_of_int r :: 'a word) = j" using assms(3) by (simp add: unsigned_of_nat take_bit_nat_eq_self)
  with j show ?thesis by simp
qed

lemma mp3_set_get_bitrate:
  assumes "mp3_set_bitrate h b = Some (r, h')"
  shows "r = 0 \<and> mp3_get_bitrate h' = Some b \<and> h'\<lparr>bitrate_index := bitrate_index h\<rparr> = h
    \<or> r = -1 \<and> h' = h \<and> (\<forall>i. mp3_get_bitrate (h\<lparr>bitrate_index := i\<rparr>) \<noteq> Some b)"
proof -
  obtain row where row: "mp3_bitrates h = Some row" using assms by (auto simp: mp3_set_bitrate_def bind_eq_Some_conv)
  then have len: "length row = 2 ^ LENGTH(4)" using mp3_bitrates_rows by auto
  show ?thesis
  proof (cases "mp3_find row b 0 = -1")
    case True
    have "row ! unat (i :: 4 word) \<in> set row" for i using unsigned_less [of i, where 'a = nat] len by simp
    then show ?thesis using True assms row by (auto simp: mp3_set_bitrate_def mp3_find_absent mp3_get_bitrate_def)
  next
    case False
    then show ?thesis using assms row found_index [OF refl False len] by (auto simp: mp3_set_bitrate_def mp3_get_bitrate_def)
  qed
qed

lemma mp3_set_get_frequency:
  assumes "mp3_set_frequency h f = Some (r, h')"
  shows "r = 0 \<and> mp3_get_frequency h' = Some f \<and> h'\<lparr>sampling_frequency := sampling_frequency h\<rparr> = h
    \<or> r = -1 \<and> h' = h \<and> (\<forall>i. mp3_get_frequency (h\<lparr>sampling_frequency := i\<rparr>) \<noteq> Some f)"
proof -
  obtain row where row: "mp3_frequencies h = Some row" using assms by (auto simp: mp3_set_frequency_def bind_eq_Some_conv)
  then have len: "length row = 2 ^ LENGTH(2)" using mp3_frequencies_rows by auto
  show ?thesis
  proof (cases "mp3_find row f 0 = -1")
    case True
    have "row ! unat (i :: 2 word) \<in> set row" for i using unsigned_less [of i, where 'a = nat] len by simp
    then show ?thesis using True assms row by (auto simp: mp3_set_frequency_def mp3_find_absent mp3_get_frequency_def)
  next
    case False
    then show ?thesis using assms row found_index [OF refl False len] by (auto simp: mp3_set_frequency_def mp3_get_frequency_def)
  qed
qed

section \<open>Properties\<close>

text \<open>C38: \<open>mp3_header_save\<close> writes a frame header of four bytes into a buffer with room and leaves the rest,
  and \<open>mp3_header_load\<close> reads every field of it back, whatever was in the structure; frame headers stored
  one after the other are told apart.  \<open>mp3_set_bitrate\<close> and \<open>mp3_set_frequency\<close>
  either make the getter return the requested rate and change nothing else, or return \<open>-1\<close> when no index
  stands for it.\<close>

theorem mp3_header_roundtrip:
  fixes data :: bytes
  assumes "4 \<le> length data"
  shows "(\<exists>d. mp3_header_save h data = Some (4, d) \<and> drop 4 d = drop 4 data \<and> length d = length data
           \<and> mp3_header_load old d = Some (4, h))
     \<and> (mp3_bytes h @ rest = mp3_bytes h2 @ rest2 \<longrightarrow> h = h2 \<and> rest = rest2)
     \<and> (mp3_set_bitrate h b = Some (r, h') \<longrightarrow>
           r = 0 \<and> mp3_get_bitrate h' = Some b \<and> h'\<lparr>bitrate_index := bitrate_index h\<rparr> = h
           \<or> r = -1 \<and> h' = h \<and> (\<forall>i. mp3_get_bitrate (h\<lparr>bitrate_index := i\<rparr>) \<noteq> Some b))
     \<and> (mp3_set_frequency h f = Some (r, h') \<longrightarrow>
           r = 0 \<and> mp3_get_frequency h' = Some f \<and> h'\<lparr>sampling_frequency := sampling_frequency h\<rparr> = h
           \<or> r = -1 \<and> h' = h \<and> (\<forall>i. mp3_get_frequency (h\<lparr>sampling_frequency := i\<rparr>) \<noteq> Some f))"
proof (intro conjI impI)
  show "\<exists>d. mp3_header_save h data = Some (4, d) \<and> drop 4 d = drop 4 data \<and> length d = length data
      \<and> mp3_header_load old d = Some (4, h)"
    using assms by (simp add: mp3_save mp3_load) (simp add: mp3_bytes_eq)
  show "h = h2" "rest = rest2" if "mp3_bytes h @ rest = mp3_bytes h2 @ rest2"
    using mp3_codec.saved_prefix_free [OF _ _ that] by simp_all
qed (fact mp3_set_get_bitrate mp3_set_get_frequency)+

definition mp3_example :: mp3_header_t where
  "mp3_example = \<lparr>version = 3, layer = 1, protection = 1, bitrate_index = 9, sampling_frequency = 0, priviate = 0,
     mode = 1, mode_extension = 2, copyright = 0, original = 1, emphasis = 0\<rparr>"

theorem mp3_header_roundtrip_witness:
  "mp3_header_save mp3_example [0, 0, 0, 0, 7] = Some (4, [0xFF, 0xFB, 0x90, 0x64, 7])
   \<and> mp3_header_load mp3_blank [0xFF, 0xFB, 0x90, 0x64, 7] = Some (4, mp3_example)
   \<and> mp3_set_bitrate mp3_example 64000 = Some (0, mp3_example\<lparr>bitrate_index := 5\<rparr>)
   \<and> mp3_get_bitrate (mp3_example\<lparr>bitrate_index := 5\<rparr>) = Some 64000"
proof -
  have "mp3_header_save mp3_example [0, 0, 0, 0, 7] = Some (4, [0xFF, 0xFB, 0x90, 0x64, 7])"
    "mp3_set_bitrate mp3_example 64000 = Some (0, mp3_example\<lparr>bitrate_index := 5\<rparr>)"
    by (simp_all add: mp3_header_save_def mp3_example_def mp3_set_bitrate_def mp3_bitrates_def s_bitrate_mpeg1_def)
  then show ?thesis
    using mp3_header_roundtrip [of "[0, 0, 0, 0, 7]" mp3_example mp3_blank "[]" mp3_example "[]" 64000 0 "mp3_example\<lparr>bitrate_index := 5\<rparr>"]
    by simp
qed

end
