(* ===== verification/Webm_Vpx.thy ===== *)
theory Webm_Vpx
  imports Codec_Record
begin

text \<open>
  The VP8/VP9 configuration record of \<open>src/media/codec/webm-vpx/webm-vpx.c\<close>.  A buffer is the list of its
  bytes, its length the argument \<open>bytes\<close>; \<open>None\<close> is a failed assertion or an access outside an array.
  \<open>codec_intialization_data\<close> has one byte in the structure.
\<close>

section \<open>The code\<close>

record webm_vpx_t =
  profile :: u8
  level :: u8
  bit_depth :: u8
  chroma_subsampling :: u8
  video_full_range_flag :: u8
  colour_primaries :: u8
  transfer_characteristics :: u8
  matrix_coefficients :: u8
  codec_intialization_data_size :: u16
  codec_intialization_data :: bytes

definition webm_vpx_codec_configuration_record_load :: "webm_vpx_t \<Rightarrow> bytes \<Rightarrow> (int \<times> webm_vpx_t) option" where
  "webm_vpx_codec_configuration_record_load vpx data =
     (if length data < 8 then Some (-1, vpx)
      else
        let vpx = vpx\<lparr>profile := data ! 0, level := data ! 1,
          bit_depth := shr (data ! 2) 4 AND 0x0F,
          chroma_subsampling := shr (data ! 2) 1 AND 0x07,
          video_full_range_flag := data ! 2 AND 0x01,
          colour_primaries := data ! 3,
          transfer_characteristics := data ! 4,
          matrix_coefficients := data ! 5,
          codec_intialization_data_size := be16 (data ! 6) (data ! 7)\<rparr>
        in if codec_intialization_data_size vpx = 0 then Some (8, vpx) else None)"

definition webm_vpx_codec_configuration_record_save :: "webm_vpx_t \<Rightarrow> bytes \<Rightarrow> (int \<times> bytes) option" where
  "webm_vpx_codec_configuration_record_save vpx data =
     (let n = unat (codec_intialization_data_size vpx) in
      if length data < 8 + n then Some (0, data)
      else do {
        let data = data
          [0 := profile vpx,
           1 := level vpx,
           2 := shl (bit_depth vpx) 4 OR shl (chroma_subsampling vpx AND 0x07) 1 OR (video_full_range_flag vpx AND 0x01),
           3 := colour_primaries vpx,
           4 := transfer_characteristics vpx,
           5 := matrix_coefficients vpx,
           6 := ucast (shr (codec_intialization_data_size vpx) 8),
           7 := ucast (codec_intialization_data_size vpx)];
        data \<leftarrow> (if n > 0 then mem_copy data 8 (codec_intialization_data vpx) 0 n else Some data);
        Some (8 + int n, data) })"

text \<open>\<open>memset(vpx, 0, sizeof(*vpx))\<close>.\<close>

definition vpx_zero :: webm_vpx_t where
  "vpx_zero = \<lparr>profile = 0, level = 0, bit_depth = 0, chroma_subsampling = 0, video_full_range_flag = 0,
     colour_primaries = 0, transfer_characteristics = 0, matrix_coefficients = 0,
     codec_intialization_data_size = 0, codec_intialization_data = [0]\<rparr>"

text \<open>The return value, the structure, \<open>*width\<close> and \<open>*height\<close>.\<close>

definition webm_vpx_codec_configuration_record_from_vp8 ::
    "webm_vpx_t \<Rightarrow> int \<Rightarrow> int \<Rightarrow> bytes \<Rightarrow> int \<times> webm_vpx_t \<times> int \<times> int" where
  "webm_vpx_codec_configuration_record_from_vp8 vpx width height p =
     (if length p < 10 then (-1, vpx, width, height)
      else
        let tag = ucast (p ! 0) OR shl (ucast (p ! 1)) 8 OR shl (ucast (p ! 2)) 16 :: u32
        in if tag AND 0x01 \<noteq> 0 \<or> p ! 3 \<noteq> 0x9d \<or> p ! 4 \<noteq> 0x01 \<or> p ! 5 \<noteq> 0x2a then (-1, vpx, width, height)
           else (0, vpx_zero\<lparr>profile := ucast (shr tag 1 AND 0x03), level := 31, bit_depth := 8\<rparr>,
                 uint (be16 (p ! 7 AND 0x3F) (p ! 6)), uint (be16 (p ! 9 AND 0x3F) (p ! 8))))"

definition webm_vpx_codec_configuration_record_from_vp9 :: "webm_vpx_t \<Rightarrow> bytes \<Rightarrow> int \<times> webm_vpx_t" where
  "webm_vpx_codec_configuration_record_from_vp9 vpx keyframe =
     (0, vpx_zero\<lparr>profile := 0, level := 31, bit_depth := 8\<rparr>)"

section \<open>Round trip\<close>

text \<open>The records that can be written: the third byte has four, three and one bit for its fields, and there
  is no initialization data.\<close>

definition vpx_valid :: "webm_vpx_t \<Rightarrow> bool" where
  "vpx_valid x \<longleftrightarrow> bit_depth x < 16 \<and> chroma_subsampling x < 8 \<and> video_full_range_flag x < 2
     \<and> codec_intialization_data_size x = 0 \<and> codec_intialization_data x = [0]"

definition vpx_bytes :: "webm_vpx_t \<Rightarrow> bytes" where
  "vpx_bytes = saved_of webm_vpx_codec_configuration_record_save 8"

text \<open>The third byte.\<close>

definition vpx_byte2 :: "webm_vpx_t \<Rightarrow> u8" where
  "vpx_byte2 x = shl (bit_depth x) 4 OR shl (chroma_subsampling x AND 0x07) 1 OR (video_full_range_flag x AND 0x01)"

lemma vpx_byte2_fields:
  assumes "vpx_valid x"
  shows "shr (vpx_byte2 x) 4 AND 0x0F = bit_depth x" "shr (vpx_byte2 x) 1 AND 0x07 = chroma_subsampling x"
    "vpx_byte2 x AND 0x01 = video_full_range_flag x"
proof -
  have "unat (bit_depth x) < 2 ^ 4" "unat (chroma_subsampling x) < 2 ^ 3" "unat (video_full_range_flag x) < 2 ^ 1"
    using assms by (simp_all add: vpx_valid_def word_less_nat_alt)
  note high_bits_clear [OF this(1)] high_bits_clear [OF this(2)] high_bits_clear [OF this(3)]
  then show "shr (vpx_byte2 x) 4 AND 0x0F = bit_depth x" "shr (vpx_byte2 x) 1 AND 0x07 = chroma_subsampling x"
    "vpx_byte2 x AND 0x01 = video_full_range_flag x"
    by (simp_all add: vpx_byte2_def bitwise_eqs nat_bits bit_simps)
qed

lemma vpx_bytes_eq:
  assumes "codec_intialization_data_size x = 0"
  shows "vpx_bytes x = [profile x, level x, vpx_byte2 x, colour_primaries x, transfer_characteristics x,
    matrix_coefficients x, 0, 0]"
  using assms by (simp add: vpx_bytes_def saved_of_def webm_vpx_codec_configuration_record_save_def Let_def vpx_byte2_def
      replicate_numeral_Cons)

lemma vpx_load: "vpx_valid x \<Longrightarrow> codec_intialization_data old = [0] \<Longrightarrow>
  webm_vpx_codec_configuration_record_load old (vpx_bytes x @ rest) = Some (8, x)"
  using vpx_byte2_fields [of x]
  by (simp add: vpx_valid_def vpx_bytes_eq webm_vpx_codec_configuration_record_load_def Let_def be16_def)

lemma vpx_zero_data: "codec_intialization_data vpx_zero = [0]"
  by (simp add: vpx_zero_def)

interpretation vpx_codec: record_codec vpx_valid vpx_bytes "loads_of (webm_vpx_codec_configuration_record_load vpx_zero)"
proof
  fix x rest
  assume x: "vpx_valid x"
  then have "length (vpx_bytes x) = 8" by (simp add: vpx_valid_def vpx_bytes_eq)
  with x show "loads_of (webm_vpx_codec_configuration_record_load vpx_zero) (vpx_bytes x @ rest) = Some (x, length (vpx_bytes x))"
    "vpx_bytes x \<noteq> []"
    using vpx_load [OF x, of vpx_zero rest] by (auto simp: loads_of_def vpx_zero_data)
qed

lemma vpx_save:
  assumes "8 \<le> length data" "codec_intialization_data_size x = 0"
  shows "webm_vpx_codec_configuration_record_save x data = Some (8, vpx_bytes x @ drop 8 data)"
proof -
  obtain a b c d e f g h rest where "data = a # b # c # d # e # f # g # h # rest"
    using length_4_cases [of data] length_4_cases [of "drop 4 data"] assms by auto
  then show ?thesis
    using assms(2) by (simp add: vpx_bytes_eq webm_vpx_codec_configuration_record_save_def Let_def vpx_byte2_def)
qed

section \<open>Properties\<close>

text \<open>A VP8/VP9 configuration record whose fields have the widths of the format and that has no
  initialization data is written as eight bytes, the rest of the buffer is kept, and loading gives the record
  back; records stored one after the other are told apart.  A buffer that is too short is refused by both
  functions, without a change.  With initialization data, which the structure has one byte for, a size
  above one makes the saver read past the structure, and a size of one gives a record on which the loader's
  assertion fails.\<close>

theorem webm_vpx_record_roundtrip:
  fixes data :: bytes
  assumes x: "vpx_valid x" and y: "vpx_valid y" and old: "codec_intialization_data old = [0]"
  shows "(8 \<le> length data \<longrightarrow> (\<exists>d. webm_vpx_codec_configuration_record_save x data = Some (8, d) \<and> drop 8 d = drop 8 data \<and> webm_vpx_codec_configuration_record_load old d = Some (8, x)))
    \<and> (length data < 8 \<longrightarrow> webm_vpx_codec_configuration_record_save x data = Some (0, data) \<and> webm_vpx_codec_configuration_record_load old data = Some (-1, old))
    \<and> (vpx_bytes x @ r = vpx_bytes y @ s \<longrightarrow> x = y \<and> r = s)
    \<and> (2 \<le> n \<longrightarrow> 8 + unat n \<le> length data \<longrightarrow> webm_vpx_codec_configuration_record_save (x\<lparr>codec_intialization_data_size := n\<rparr>) data = None)
    \<and> (9 \<le> length data \<longrightarrow> (\<exists>d. webm_vpx_codec_configuration_record_save (x\<lparr>codec_intialization_data_size := 1\<rparr>) data = Some (9, d) \<and> webm_vpx_codec_configuration_record_load old d = None))"
proof (intro conjI impI)
  have len: "length (vpx_bytes x) = 8" using x by (simp add: vpx_valid_def vpx_bytes_eq)
  show "\<exists>d. webm_vpx_codec_configuration_record_save x data = Some (8, d) \<and> drop 8 d = drop 8 data \<and> webm_vpx_codec_configuration_record_load old d = Some (8, x)" if "8 \<le> length data"
    using vpx_save [OF that] vpx_load [OF x old] x len by (simp add: vpx_valid_def)
  show "webm_vpx_codec_configuration_record_save x data = Some (0, data)" "webm_vpx_codec_configuration_record_load old data = Some (-1, old)" if "length data < 8"
    using that x by (simp_all add: webm_vpx_codec_configuration_record_save_def Let_def
        webm_vpx_codec_configuration_record_load_def)
  show "x = y" "r = s" if "vpx_bytes x @ r = vpx_bytes y @ s"
    using vpx_codec.saved_prefix_free [OF x y that] by simp_all
  show "webm_vpx_codec_configuration_record_save (x\<lparr>codec_intialization_data_size := n\<rparr>) data = None" if "2 \<le> n" "8 + unat n \<le> length data"
    using that x by (simp add: webm_vpx_codec_configuration_record_save_def Let_def mem_copy_def vpx_valid_def
        word_le_nat_alt)
  show "\<exists>d. webm_vpx_codec_configuration_record_save (x\<lparr>codec_intialization_data_size := 1\<rparr>) data = Some (9, d) \<and> webm_vpx_codec_configuration_record_load old d = None" if l: "9 \<le> length data"
  proof -
    obtain a b c d e f g h r8 where "data = a # b # c # d # e # f # g # h # r8"
      using length_4_cases [of data] length_4_cases [of "drop 4 data"] l by auto
    moreover from this obtain i rest where "r8 = i # rest" using l by (cases r8) auto
    ultimately have "data = a # b # c # d # e # f # g # h # i # rest" by simp
    then show ?thesis
      using x by (simp add: webm_vpx_codec_configuration_record_save_def Let_def mem_copy_def vpx_valid_def
          webm_vpx_codec_configuration_record_load_def be16_def)
  qed
qed

theorem webm_vpx_record_roundtrip_witness:
  "webm_vpx_codec_configuration_record_load vpx_zero [1, 31, 0x85, 2, 3, 4, 0, 0, 9]
     = Some (8, vpx_zero\<lparr>profile := 1, level := 31, bit_depth := 8, chroma_subsampling := 2, video_full_range_flag := 1,
         colour_primaries := 2, transfer_characteristics := 3, matrix_coefficients := 4\<rparr>)"
proof -
  let ?x = "vpx_zero\<lparr>profile := 1, level := 31, bit_depth := 8, chroma_subsampling := 2, video_full_range_flag := 1,
         colour_primaries := 2, transfer_characteristics := 3, matrix_coefficients := 4\<rparr>"
  let ?data = "[0, 0, 0, 0, 0, 0, 0, 0, 9] :: bytes"
  have "vpx_valid ?x" by (simp add: vpx_valid_def vpx_zero_def)
  from webm_vpx_record_roundtrip [OF this this vpx_zero_data, of ?data]
  have "\<exists>d. webm_vpx_codec_configuration_record_save ?x ?data = Some (8, d)
      \<and> webm_vpx_codec_configuration_record_load vpx_zero d = Some (8, ?x)" by auto
  moreover have "webm_vpx_codec_configuration_record_save ?x ?data = Some (8, [1, 31, 0x85, 2, 3, 4, 0, 0, 9])"
    by (simp add: webm_vpx_codec_configuration_record_save_def vpx_zero_def)
  ultimately show ?thesis by auto
qed

end
