(* ===== verification/Opus_Head.thy ===== *)
theory Opus_Head
  imports Codec_Record
begin

text \<open>
  The Opus identification header and the splitting of Opus packets into frames,
  \<open>src/media/codec/opus-head/opus-head.c\<close>.  A buffer is the list of its bytes and a pointer into it a position;
  an access outside the buffer or outside an array of the code, a division by zero and a failed assertion are
  \<open>None\<close>.  A function that returns a pointer has the result \<open>Some None\<close> for \<open>NULL\<close>.
\<close>

section \<open>The code: the header\<close>

text \<open>\<open>output_gain\<close> is the \<open>int16_t\<close> of the source, shifted arithmetically.\<close>

record opus_head_t =
  version :: u8
  channels :: u8
  pre_skip :: u16
  input_sample_rate :: u32
  output_gain :: "16 word"
  channel_mapping_family :: u8
  stream_count :: u8
  coupled_count :: u8
  channel_mapping :: bytes

definition opus_coupled_stream_cnt :: bytes where
  "opus_coupled_stream_cnt = [1, 0, 1, 1, 2, 2, 2, 3, 3]"

definition opus_stream_cnt :: bytes where
  "opus_stream_cnt = [1, 1, 1, 2, 2, 3, 4, 4, 5]"

definition opus_channel_map :: "bytes list" where
  "opus_channel_map = [
     [0, 0, 0, 0, 0, 0, 0, 0],
     [0, 1, 0, 0, 0, 0, 0, 0],
     [0, 2, 1, 0, 0, 0, 0, 0],
     [0, 1, 2, 3, 0, 0, 0, 0],
     [0, 4, 1, 2, 3, 0, 0, 0],
     [0, 4, 1, 2, 3, 5, 0, 0],
     [0, 4, 1, 2, 3, 5, 6, 0],
     [0, 6, 1, 2, 3, 4, 5, 7]]"

definition OpusHead :: bytes where
  "OpusHead = map asc ''OpusHead''"

definition opus_head_save :: "opus_head_t \<Rightarrow> bytes \<Rightarrow> (int \<times> bytes) option" where
  "opus_head_save opus data =
     (if length data < 19 then Some (-1, data)
      else do {
        data \<leftarrow> mem_copy data 0 OpusHead 0 8;
        let data = data
          [8 := version opus, 9 := channels opus,
           11 := ucast (shr (pre_skip opus) 8), 10 := ucast (pre_skip opus),
           15 := ucast (shr (input_sample_rate opus) 24), 14 := ucast (shr (input_sample_rate opus) 16),
           13 := ucast (shr (input_sample_rate opus) 8), 12 := ucast (input_sample_rate opus),
           17 := ucast (signed_drop_bit 8 (output_gain opus)), 16 := ucast (output_gain opus),
           18 := channel_mapping_family opus];
        if channel_mapping_family opus \<noteq> 0 \<and> length data \<ge> 29 then do {
          data \<leftarrow> mem_copy (data[19 := stream_count opus, 20 := coupled_count opus]) 21 (channel_mapping opus) 0 8;
          Some (29, data) }
        else Some (19, data) })"

definition opus_head_channels :: "opus_head_t \<Rightarrow> nat" where
  "opus_head_channels opus = (if channels opus = 0 then 2 else unat (channels opus))"

definition opus_head_load :: "opus_head_t \<Rightarrow> bytes \<Rightarrow> (int \<times> opus_head_t) option" where
  "opus_head_load opus data =
     (if length data < 19 \<or> take 8 data \<noteq> OpusHead then Some (-1, opus)
      else
        let opus = \<lparr>version = data ! 8, channels = data ! 9, pre_skip = be16 (data ! 11) (data ! 10),
          input_sample_rate = le32 (data ! 12) (data ! 13) (data ! 14) (data ! 15),
          output_gain = be16 (data ! 17) (data ! 16), channel_mapping_family = data ! 18,
          stream_count = 0, coupled_count = 0, channel_mapping = replicate 8 0\<rparr>
        in if channel_mapping_family opus \<noteq> 0 \<and> length data \<ge> 29 then do {
             mapping \<leftarrow> mem_copy (channel_mapping opus) 0 data 21 8;
             Some (29, opus\<lparr>stream_count := data ! 19, coupled_count := data ! 20, channel_mapping := mapping\<rparr>) }
           else do {
             streams \<leftarrow> fetch opus_stream_cnt (unat (channels opus));
             coupled \<leftarrow> fetch opus_coupled_stream_cnt (unat (channels opus));
             row \<leftarrow> fetch opus_channel_map (opus_head_channels opus - 1);
             mapping \<leftarrow> mem_copy (channel_mapping opus) 0 row 0 8;
             Some (19, opus\<lparr>stream_count := streams, coupled_count := coupled, channel_mapping := mapping\<rparr>) })"

section \<open>The code: packets\<close>

text \<open>The size and the pointer behind it.\<close>

definition opus_parse_size :: "bytes \<Rightarrow> nat \<Rightarrow> int \<Rightarrow> (int \<times> nat) option option" where
  "opus_parse_size data p len =
     (if len < 1 then Some None
      else do {
        d0 \<leftarrow> fetch data p;
        if d0 < 252 then Some (Some (uint d0, p + 1))
        else if len < 2 then Some None
        else do { d1 \<leftarrow> fetch data (p + 1); Some (Some (4 * uint d1 + uint d0, p + 2)) } })"

function opus_parse_padding :: "bytes \<Rightarrow> nat \<Rightarrow> int \<Rightarrow> nat option option" where
  "opus_parse_padding data p len =
     (if len \<le> 0 then Some None
      else case fetch data p of
          None \<Rightarrow> None
        | Some n \<Rightarrow>
            (let len = len - 1 - (if n = 255 then 254 else uint n)
             in if n = 255 then opus_parse_padding data (p + 1) len else Some (Some (p + 1))))"
  by auto
termination by (relation "measure (\<lambda>(_, _, len). nat len)") auto

text \<open>The loop over the bytes of \<open>au_size\<close>: \<open>i\<close> and \<open>au_size\<close> after it.\<close>

function au_size_loop :: "bytes \<Rightarrow> nat \<Rightarrow> nat \<Rightarrow> nat \<Rightarrow> int \<Rightarrow> (nat \<times> int) option" where
  "au_size_loop data p len i au_size =
     (if i < len
      then case fetch data (p + i - 1) of
          None \<Rightarrow> None
        | Some b \<Rightarrow>
            if b = 0xff
            then case fetch data (p + i) of
                None \<Rightarrow> None
              | Some v \<Rightarrow> au_size_loop data p len (i + 1) (au_size + uint v)
            else Some (i, au_size)
      else Some (i, au_size))"
  by auto
termination by (relation "measure (\<lambda>(_, _, len, i, _). len - i)") auto

text \<open>The index behind the trim fields and the control extension, whose presence \<open>prefix\<close> tells; \<open>Some None\<close>
  is the return of \<open>NULL\<close>.\<close>

definition ts_header_fields :: "bytes \<Rightarrow> nat \<Rightarrow> nat \<Rightarrow> u16 \<Rightarrow> nat \<Rightarrow> nat option option" where
  "ts_header_fields data p len prefix i =
     (let start_trim = (if shr prefix 4 AND 0x01 \<noteq> 0 then 2 else 0);
          end_trim = (if shr prefix 3 AND 0x01 \<noteq> 0 then 2 else 0);
          control_extension = (if shr prefix 2 AND 0x01 \<noteq> 0 then 1 else 0)
      in if i + start_trim + end_trim + control_extension > len then Some None
         else
           let i = i + start_trim + end_trim
           in if control_extension = 1
              then do {
                d \<leftarrow> fetch data (p + i);
                Some (if i + 1 + unat d > len then None else Some (i + 1 + unat d)) }
              else Some (Some i))"

text \<open>The payload and the pointer to it.\<close>

definition opus_ts_header :: "bytes \<Rightarrow> nat \<Rightarrow> nat \<Rightarrow> (int \<times> nat) option option" where
  "opus_ts_header data p len =
     (if len < 3 then Some None
      else do {
        d0 \<leftarrow> fetch data p;
        d1 \<leftarrow> fetch data (p + 1);
        let prefix = be16 d0 d1;
        if prefix AND 0xFFE0 = 0x7FE0 then do {
          d2 \<leftarrow> fetch data (p + 2);
          (i, au_size) \<leftarrow> au_size_loop data p len 3 (uint d2);
          skip \<leftarrow> ts_header_fields data p len prefix i;
          Some (case skip of
              None \<Rightarrow> None
            | Some i \<Rightarrow> if int i + au_size > int len then None else Some (au_size, p + i)) }
        else Some (Some (int len, p)) })"

text \<open>The callback is a function of the table-of-contents byte, the position and the size of the frame; the
  second component of a result is the sequence of its calls.\<close>

type_synonym opus_frame = "u8 \<times> nat \<times> int"

text \<open>\<open>for (i = 0; i < count; i++) { r = onframe(toc, p, n[i]); if (0 != r) return r; p += n[i]; } return 0;\<close>\<close>

fun frames_loop :: "(u8 \<Rightarrow> nat \<Rightarrow> int \<Rightarrow> int) \<Rightarrow> u8 \<Rightarrow> nat \<Rightarrow> int list \<Rightarrow> int \<times> opus_frame list" where
  "frames_loop onframe toc p [] = (0, [])" |
  "frames_loop onframe toc p (n # ns) =
     (let r = onframe toc p n
      in if r \<noteq> 0 then (r, [(toc, p, n)])
         else let (r, calls) = frames_loop onframe toc (p + nat n) ns in (r, (toc, p, n) # calls))"

text \<open>The sizes of the frames but the last, in the array \<open>n\<close> of 48 elements; \<open>Some None\<close> is the return of \<open>-1\<close>.\<close>

fun vbr_sizes :: "bytes \<Rightarrow> nat \<Rightarrow> nat \<Rightarrow> nat \<Rightarrow> nat \<Rightarrow> (int list \<times> nat) option option" where
  "vbr_sizes data p stop i 0 = Some (Some ([], p))" |
  "vbr_sizes data p stop i (Suc k) = do {
     s \<leftarrow> opus_parse_size data p (int stop - int p);
     case s of
       None \<Rightarrow> Some None
     | Some (n, p) \<Rightarrow>
         if i \<ge> 48 then None
         else if n < 0 \<or> int p + n > int stop then Some None
         else do {
           rest \<leftarrow> vbr_sizes data p stop (i + 1) k;
           Some (map_option (\<lambda>(ns, q). (n # ns, q)) rest) } }"

text \<open>\<open>if (*p++ & 0x40) p = opus_parse_padding(p, len)\<close>, with \<open>p\<close> already moved on.\<close>

definition opus_skip_padding :: "bytes \<Rightarrow> nat \<Rightarrow> int \<Rightarrow> u8 \<Rightarrow> nat option option" where
  "opus_skip_padding data p len b = (if b AND 0x40 \<noteq> 0 then opus_parse_padding data p len else Some (Some p))"

text \<open>The case of several frames: \<open>p\<close> points behind the first byte, \<open>len\<close> bytes before \<open>stop\<close>.\<close>

definition opus_multiple_frames ::
    "bytes \<Rightarrow> nat \<Rightarrow> int \<Rightarrow> nat \<Rightarrow> u8 \<Rightarrow> (u8 \<Rightarrow> nat \<Rightarrow> int \<Rightarrow> int) \<Rightarrow> (int \<times> opus_frame list) option" where
  "opus_multiple_frames data p len stop toc onframe =
     (if len < 1 then Some (-1, [])
      else do {
        let len = len - 1;
        b \<leftarrow> fetch data p;
        let count = unat (b AND 0x3F);
        let vbr = b AND 0x80;
        let p = p + 1;
        s \<leftarrow> opus_skip_padding data p len b;
        case s of
          None \<Rightarrow> Some (-1, [])
        | Some p \<Rightarrow>
            let toc = toc AND 0xFC
            in if vbr \<noteq> 0 then do {
              s \<leftarrow> vbr_sizes data p stop 0 (count - 1);
              case s of
                None \<Rightarrow> Some (-1, [])
              | Some (ns, p) \<Rightarrow>
                  if int stop - int p > 1275 then Some (-1, [])
                  else if length ns \<ge> 48 then None
                  else Some (frames_loop onframe toc p (take count (ns @ [int stop - int p]))) }
            else if count = 0 then None
            else
              let n0 = (int stop - int p) div int count
              in if int p + n0 * int count \<noteq> int stop then Some (-1, [])
                 else Some (frames_loop onframe toc p (replicate count n0)) })"

definition opus_parse_frames ::
    "bytes \<Rightarrow> nat \<Rightarrow> int \<Rightarrow> (u8 \<Rightarrow> nat \<Rightarrow> int \<Rightarrow> int) \<Rightarrow> (int \<times> opus_frame list) option" where
  "opus_parse_frames data p len onframe =
     (if len < 1 then Some (-1, [])
      else do {
        let stop = p + nat len;
        toc \<leftarrow> fetch data p;
        let p = p + 1; let len = len - 1;
        let toc' = toc AND 0xFC;
        if toc AND 0x03 = 0 then Some (onframe toc p (len - 1), [(toc, p, len - 1)])
        else if toc AND 0x03 = 1 then
          if len mod 2 = 1 then Some (-1, [])
          else
            let r = onframe toc' p (len div 2)
            in Some (if r \<noteq> 0 then (r, [(toc', p, len div 2)])
                 else (onframe toc' p (len div 2), [(toc', p, len div 2), (toc', p, len div 2)]))
        else if toc AND 0x03 = 2 then do {
          s \<leftarrow> opus_parse_size data p len;
          case s of
            None \<Rightarrow> Some (-1, [])
          | Some (n, p) \<Rightarrow>
              if n < 0 \<or> int p + n > int stop then Some (-1, [])
              else
                let r = onframe toc' p n
                in Some (if r \<noteq> 0 then (r, [(toc', p, n)])
                     else let q = p + nat n
                       in (onframe toc' q (int stop - int q), [(toc', p, n), (toc', q, int stop - int q)])) }
        else opus_multiple_frames data p len stop toc onframe })"

text \<open>What \<open>opus_ts_header\<close> returns lies in the packet and is not empty, so that the loop over the access units
  ends.\<close>

lemma au_size_loop_range:
  "au_size_loop data p len i a = Some (j, b) \<Longrightarrow> i \<le> len \<Longrightarrow> i \<le> j \<and> j \<le> len \<and> a \<le> b"
proof (induction data p len i a rule: au_size_loop.induct)
  case (1 data p len i a)
  show ?case
  proof (cases "i < len \<and> fetch data (p + i - 1) = Some 0xff")
    case True
    then obtain v where "fetch data (p + i) = Some v" using 1(2) by (auto split: option.splits)
    moreover from this True have "au_size_loop data p len (i + 1) (a + uint v) = Some (j, b)" using 1(2) by simp
    ultimately have "i + 1 \<le> j \<and> j \<le> len \<and> a + uint v \<le> b" using 1(1) True by auto
    moreover have "0 \<le> uint v" by simp
    ultimately show ?thesis by linarith
  next
    case False
    then show ?thesis using 1(2,3) by (auto split: option.splits if_splits)
  qed
qed

declare au_size_loop.simps [simp del] opus_parse_padding.simps [simp del]

lemma ts_header_fields_range:
  "ts_header_fields data p len prefix i = Some (Some j) \<Longrightarrow> i \<le> j"
  by (auto simp: ts_header_fields_def Let_def bind_eq_Some_conv split: if_splits)

lemma opus_ts_header_range:
  assumes "opus_ts_header data p len = Some (Some (payload, q))"
  shows "p \<le> q \<and> 0 \<le> payload \<and> int q + payload \<le> int p + int len \<and> p < q + nat payload"
proof (cases "payload = int len \<and> q = p")
  case True
  moreover have "3 \<le> len" using assms by (auto simp: opus_ts_header_def split: if_splits)
  ultimately show ?thesis by simp
next
  case False
  then obtain d2 i pre j where h: "3 \<le> len" "au_size_loop data p len 3 (uint (d2 :: u8)) = Some (i, payload)"
      "ts_header_fields data p len pre i = Some (Some j)" "int j + payload \<le> int len" "q = p + j"
    using assms by (auto simp: opus_ts_header_def Let_def bind_eq_Some_conv split: if_splits option.splits)
  note r = au_size_loop_range [OF h(2) h(1)]
  then have "0 \<le> payload" using order_trans [OF uint_nonnegative [of d2], of payload] by blast
  with r have "3 \<le> i" "0 \<le> payload" "i \<le> j" using ts_header_fields_range [OF h(3)] by auto
  then show ?thesis using h(4,5) by auto
qed

function opus_packet_getframes :: "bytes \<Rightarrow> nat \<Rightarrow> (u8 \<Rightarrow> nat \<Rightarrow> int \<Rightarrow> int) \<Rightarrow> (int \<times> opus_frame list) option" where
  "opus_packet_getframes data p onframe =
     (if p < length data
      then case opus_ts_header data p (length data - p) of
          None \<Rightarrow> None
        | Some None \<Rightarrow> Some (-1, [])
        | Some (Some (payload, q)) \<Rightarrow>
            if int q + payload > int (length data) then None
            else case opus_parse_frames data q payload onframe of
                None \<Rightarrow> None
              | Some (r, calls) \<Rightarrow>
                  if r < 0 then Some (r, calls)
                  else map_option (\<lambda>(r, more). (r, calls @ more)) (opus_packet_getframes data (q + nat payload) onframe)
      else Some (0, []))"
  by auto
termination
proof (relation "measure (\<lambda>(data, p, _). length data - p)", simp, goal_cases)
  case (1 data p onframe y a payload q b r calls)
  then show ?case using opus_ts_header_range [of data p "length data - p" payload q] by auto
qed

declare opus_packet_getframes.simps [simp del]

section \<open>The header: round trip\<close>

text \<open>Without a mapping family the stream counts and the mapping are those of the tables.\<close>

definition opus_defaults :: "opus_head_t \<Rightarrow> bool" where
  "opus_defaults x \<longleftrightarrow> channels x \<le> 8 \<and> stream_count x = opus_stream_cnt ! unat (channels x)
     \<and> coupled_count x = opus_coupled_stream_cnt ! unat (channels x)
     \<and> channel_mapping x = opus_channel_map ! (opus_head_channels x - 1)"

definition opus_valid :: "opus_head_t \<Rightarrow> bool" where
  "opus_valid x \<longleftrightarrow> length (channel_mapping x) = 8 \<and> (channel_mapping_family x = 0 \<longrightarrow> opus_defaults x)"

definition opus_fixed_part :: "opus_head_t \<Rightarrow> bytes" where
  "opus_fixed_part x = OpusHead @ [version x, channels x, ucast (pre_skip x), ucast (shr (pre_skip x) 8),
     ucast (input_sample_rate x), ucast (shr (input_sample_rate x) 8), ucast (shr (input_sample_rate x) 16),
     ucast (shr (input_sample_rate x) 24), ucast (output_gain x), ucast (signed_drop_bit 8 (output_gain x)),
     channel_mapping_family x]"

lemma OpusHead_eq: "OpusHead = [79, 112, 117, 115, 72, 101, 97, 100]"
  by (simp add: OpusHead_def)

lemma gain_bytes: "be16 (ucast (signed_drop_bit 8 w)) (ucast w) = (w :: 16 word)"
proof -
  have "(ucast (signed_drop_bit 8 w) :: u8) = ucast (shr w 8)"
    by (rule bit_word_eqI) (auto simp: bit_simps)
  then show ?thesis by (simp add: be16_bytes)
qed

lemma length_fixed_part [simp]: "length (opus_fixed_part x) = 19"
  by (simp add: opus_fixed_part_def OpusHead_eq)

text \<open>The record in its bytes.\<close>

definition opus_record :: "opus_head_t \<Rightarrow> bytes" where
  "opus_record x = opus_fixed_part x
     @ (if channel_mapping_family x = 0 then [] else stream_count x # coupled_count x # channel_mapping x)"

lemma list_19:
  assumes "length d = 19"
  obtains a0 a1 a2 a3 a4 a5 a6 a7 a8 a9 a10 a11 a12 a13 a14 a15 a16 a17 a18
    where "d = [a0,a1,a2,a3,a4,a5,a6,a7,a8,a9,a10,a11,a12,a13,a14,a15,a16,a17,a18]"
proof -
  have "d = map ((!) d) [0..<19]" using assms by (metis map_nth)
  then show ?thesis using that by (simp add: upt_rec)
qed

lemma opus_save:
  assumes "opus_valid x" "length (opus_record x) \<le> length data"
  shows "opus_head_save x data = Some (int (length (opus_record x)), opus_record x @ drop (length (opus_record x)) data)"
proof -
  have "length (take 19 data) = 19" using assms(2) by (simp add: opus_record_def)
  then obtain d rest where d: "data = d @ rest" "length d = 19" by (metis append_take_drop_id)
  obtain a0 a1 a2 a3 a4 a5 a6 a7 a8 a9 a10 a11 a12 a13 a14 a15 a16 a17 a18
    where l: "d = [a0,a1,a2,a3,a4,a5,a6,a7,a8,a9,a10,a11,a12,a13,a14,a15,a16,a17,a18]" by (rule list_19 [OF d(2)])
  show ?thesis
  proof (cases "channel_mapping_family x = 0")
    case True
    then show ?thesis using d(1) l
      by (simp add: opus_head_save_def opus_record_def opus_fixed_part_def OpusHead_eq mem_copy_def)
  next
    case False
    then have "10 \<le> length rest" using d assms by (simp add: opus_record_def opus_valid_def)
    then obtain r0 r1 r2 where "rest = r0 # r1 # r2" "8 \<le> length r2" by (auto simp: Suc_le_length_iff numeral_eq_Suc)
    then show ?thesis using False d(1) l assms(1)
      by (simp add: opus_head_save_def opus_record_def opus_fixed_part_def OpusHead_eq mem_copy_def opus_valid_def)
  qed
qed

lemma opus_channel_map_rows: "length opus_channel_map = 8" "row \<in> set opus_channel_map \<Longrightarrow> length row = 8"
  by (auto simp: opus_channel_map_def)

lemma opus_cnt_lengths: "length opus_stream_cnt = 9" "length opus_coupled_stream_cnt = 9"
  by (simp_all add: opus_stream_cnt_def opus_coupled_stream_cnt_def)

lemma opus_load:
  assumes "opus_valid x"
  shows "opus_head_load old (opus_record x @ rest) = Some (int (length (opus_record x)), x)"
proof (cases "channel_mapping_family x = 0")
  case True
  then have def: "opus_defaults x" using assms by (simp add: opus_valid_def)
  then have ch: "unat (channels x) \<le> 8" by (simp add: opus_defaults_def word_le_nat_alt)
  have row: "opus_head_channels x - 1 < 8" using ch by (auto simp: opus_head_channels_def)
  then have "take 8 (opus_channel_map ! (opus_head_channels x - 1)) = opus_channel_map ! (opus_head_channels x - 1)"
    "length (opus_channel_map ! (opus_head_channels x - 1)) = 8"
    using opus_channel_map_rows nth_mem [of "opus_head_channels x - 1" opus_channel_map] by auto
  moreover have "unat (channels x) - Suc 0 < 8" using ch by linarith
  ultimately show ?thesis using True def ch row
    by (simp add: opus_head_load_def opus_record_def opus_fixed_part_def OpusHead_eq mem_copy_def be16_bytes le32_bytes
        gain_bytes fetch_def opus_defaults_def opus_head_channels_def Let_def
        opus_channel_map_rows opus_cnt_lengths)
next
  case False
  then show ?thesis using assms
    by (simp add: opus_head_load_def opus_record_def opus_fixed_part_def OpusHead_eq mem_copy_def opus_valid_def
        be16_bytes le32_bytes gain_bytes)
qed

definition opus_zero :: opus_head_t where
  "opus_zero = \<lparr>version = 0, channels = 0, pre_skip = 0, input_sample_rate = 0, output_gain = 0,
     channel_mapping_family = 0, stream_count = 0, coupled_count = 0, channel_mapping = replicate 8 0\<rparr>"

interpretation opus_codec: record_codec opus_valid opus_record "loads_of (opus_head_load opus_zero)"
  by unfold_locales (auto simp: loads_of_def opus_load, auto simp: opus_record_def opus_fixed_part_def)

section \<open>Packets\<close>

lemma opus_parse_size_range:
  assumes "int p + len \<le> int (length data)"
  shows "\<exists>s. opus_parse_size data p len = Some s \<and> (\<forall>n q. s = Some (n, q) \<longrightarrow> 0 \<le> n \<and> p < q \<and> int q \<le> int p + len)"
  using assms by (auto simp: opus_parse_size_def)

lemma opus_parse_padding_range:
  "int p + len \<le> int (length data) \<Longrightarrow>
   \<exists>s. opus_parse_padding data p len = Some s \<and> (\<forall>q. s = Some q \<longrightarrow> p \<le> q \<and> int q \<le> int p + len)"
proof (induction data p len rule: opus_parse_padding.induct)
  case (1 data p len)
  show ?case
  proof (cases "len \<le> 0")
    case True
    then show ?thesis by (simp add: opus_parse_padding.simps [of data p len])
  next
    case False
    then have p: "p < length data" using 1(2) by simp
    show ?thesis
    proof (cases "data ! p = 255")
      case True
      let ?len = "len - 1 - (if data ! p = 255 then 254 else uint (data ! p))"
      have "int (p + 1) + ?len \<le> int (length data)" using 1(2) True by simp
      then obtain s where s: "opus_parse_padding data (p + 1) ?len = Some s"
          "\<forall>q. s = Some q \<longrightarrow> p + 1 \<le> q \<and> int q \<le> int (p + 1) + ?len"
        using 1(1) [OF False _ refl True] p by auto
      then have "\<forall>q. s = Some q \<longrightarrow> p \<le> q \<and> int q \<le> int p + len" using True by auto
      then show ?thesis using s(1) p False True by (simp add: opus_parse_padding.simps [of data p len] Let_def)
    next
      case 2: False
      then show ?thesis using p False by (simp add: opus_parse_padding.simps [of data p len] Let_def)
    qed
  qed
qed

lemma vbr_sizes_range:
  "p \<le> stop \<Longrightarrow> stop \<le> length data \<Longrightarrow> i + k \<le> 48 \<Longrightarrow>
   \<exists>s. vbr_sizes data p stop i k = Some s \<and>
     (\<forall>ns q. s = Some (ns, q) \<longrightarrow> length ns = k \<and> p \<le> q \<and> q \<le> stop \<and> (\<forall>n \<in> set ns. 0 \<le> n))"
proof (induction k arbitrary: p i)
  case (Suc k)
  obtain s where s: "opus_parse_size data p (int stop - int p) = Some s"
      "\<forall>n q. s = Some (n, q) \<longrightarrow> 0 \<le> n \<and> p < q \<and> int q \<le> int stop"
    using opus_parse_size_range [of p "int stop - int p" data] Suc.prems by auto
  show ?case
  proof (cases s)
    case None
    then show ?thesis using s(1) by simp
  next
    case (Some nq)
    then obtain n q where nq: "s = Some (n, q)" "0 \<le> n" "p < q" "q \<le> stop" using s(2) by (cases nq) auto
    then obtain t where "vbr_sizes data q stop (i + 1) k = Some t"
        "\<forall>ns q'. t = Some (ns, q') \<longrightarrow> length ns = k \<and> q \<le> q' \<and> q' \<le> stop \<and> (\<forall>n \<in> set ns. 0 \<le> n)"
      using Suc.IH [of q "i + 1"] Suc.prems by auto
    then show ?thesis using s(1) nq Suc.prems by (cases t) auto
  qed
qed simp

text \<open>Frames one behind the other, from one position to another.\<close>

fun frames_tile :: "nat \<Rightarrow> nat \<Rightarrow> opus_frame list \<Rightarrow> bool" where
  "frames_tile p stop [] \<longleftrightarrow> p = stop" |
  "frames_tile p stop ((toc, q, n) # fs) \<longleftrightarrow> q = p \<and> 0 \<le> n \<and> frames_tile (p + nat n) stop fs"

lemma frames_loop_tile:
  "\<forall>n \<in> set ns. 0 \<le> n \<Longrightarrow>
   \<exists>fs. frames_loop (\<lambda>_ _ _. 0) toc p ns = (0, fs) \<and> length fs = length ns
     \<and> frames_tile p (p + nat (sum_list ns)) fs \<and> map (\<lambda>(_, _, n). n) fs = ns"
proof (induction ns arbitrary: p)
  case (Cons n ns)
  then obtain fs where "frames_loop (\<lambda>_ _ _. 0) toc (p + nat n) ns = (0, fs)" "length fs = length ns"
      "frames_tile (p + nat n) (p + nat n + nat (sum_list ns)) fs" "map (\<lambda>(_, _, n). n) fs = ns"
    using Cons.IH [of "p + nat n"] by auto
  moreover have "0 \<le> sum_list ns" using Cons.prems by (intro sum_list_nonneg) auto
  ultimately show ?case using Cons.prems by (simp add: nat_add_distrib add.assoc)
qed simp

text \<open>The cases of the code by the low bits of the first byte, and the frame count byte.\<close>

definition opus_code :: "bytes \<Rightarrow> nat \<Rightarrow> u8" where
  "opus_code data p = data ! p AND 0x03"

definition opus_count :: "bytes \<Rightarrow> nat \<Rightarrow> nat" where
  "opus_count data p = unat (data ! (p + 1) AND 0x3F)"

lemma opus_code_cases: "opus_code data p = 0 \<or> opus_code data p = 1 \<or> opus_code data p = 2 \<or> opus_code data p = 3"
proof -
  have "unat (opus_code data p) < 2 ^ 2"
    unfolding opus_code_def by (rule unat_and_numeral_mask_less) (simp add: mask_eq_decr_exp)
  then have "unat (opus_code data p) \<in> {0, 1, 2, 3}" by auto
  then show ?thesis by (auto simp: word_unat_eq_iff)
qed

text \<open>What the four cases do, on a packet of \<open>len\<close> bytes at \<open>p\<close> inside the buffer.\<close>

lemma opus_frames_code0:
  "0 < len \<Longrightarrow> p < length data \<Longrightarrow> opus_code data p = 0 \<Longrightarrow>
   opus_parse_frames data p len onframe = Some (onframe (data ! p) (p + 1) (len - 2), [(data ! p, p + 1, len - 2)])"
  by (simp add: opus_parse_frames_def opus_code_def)

lemma opus_frames_code1:
  "0 < len \<Longrightarrow> p < length data \<Longrightarrow> opus_code data p = 1 \<Longrightarrow> odd len \<Longrightarrow>
   opus_parse_frames data p len (\<lambda>_ _ _. 0) =
     Some (0, [(data ! p AND 0xFC, p + 1, (len - 1) div 2), (data ! p AND 0xFC, p + 1, (len - 1) div 2)])"
  by (simp add: opus_parse_frames_def opus_code_def Let_def)

lemma opus_frames_code2:
  assumes "0 < len" "int p + len \<le> int (length data)" "opus_code data p = 2"
  shows "\<exists>r fs. opus_parse_frames data p len (\<lambda>_ _ _. 0) = Some (r, fs)
    \<and> (r = -1 \<and> fs = [] \<or> r = 0 \<and> length fs = 2 \<and> (\<exists>q > p. frames_tile q (p + nat len) fs))"
proof -
  obtain s where s: "opus_parse_size data (p + 1) (len - 1) = Some s"
      "\<forall>n q. s = Some (n, q) \<longrightarrow> 0 \<le> n \<and> p + 1 < q \<and> int q \<le> int p + len"
    using opus_parse_size_range [of "p + 1" "len - 1" data] assms by auto
  have p: "p < length data" using assms(1,2) by simp
  show ?thesis
  proof (cases s)
    case None
    then show ?thesis using s(1) p assms by (simp add: opus_parse_frames_def opus_code_def Let_def)
  next
    case (Some nq)
    then obtain n q where nq: "s = Some (n, q)" "0 \<le> n" "p + 1 < q" "int q \<le> int p + len"
      using s(2) by (cases nq) auto
    then show ?thesis using s(1) p assms by (simp add: opus_parse_frames_def opus_code_def Let_def) auto
  qed
qed

text \<open>Case 3: the pointer behind the count and the padding.\<close>

lemma opus_code3_start:
  assumes "0 < len" "int p + len \<le> int (length data)"
  shows "\<exists>s. opus_skip_padding data (p + 1) (len - 1) (data ! p) = Some s
    \<and> (\<forall>q. s = Some q \<longrightarrow> p < q \<and> int q \<le> int p + len)"
  using opus_parse_padding_range [of "p + 1" "len - 1" data] assms by (auto simp: opus_skip_padding_def)

lemma opus_multiple_cbr:
  assumes "0 < len" "int p + len = int stop" "stop \<le> length data"
    and "data ! p AND 0x80 = 0" "0 < unat (data ! p AND 0x3F)"
  shows "\<exists>r fs. opus_multiple_frames data p len stop toc (\<lambda>_ _ _. 0) = Some (r, fs)
    \<and> (r = -1 \<and> fs = [] \<or> r = 0 \<and> length fs = unat (data ! p AND 0x3F) \<and> (\<exists>q > p. frames_tile q stop fs))"
proof -
  let ?count = "unat (data ! p AND 0x3F)"
  obtain s where s: "opus_skip_padding data (p + 1) (len - 1) (data ! p) = Some s"
      "\<forall>q. s = Some q \<longrightarrow> p < q \<and> int q \<le> int stop"
    using opus_code3_start [of len p data] assms(1-3) by auto
  have p: "p < length data" using assms(1-3) by simp
  show ?thesis
  proof (cases s)
    case None
    then show ?thesis using s(1) p assms by (simp add: opus_multiple_frames_def Let_def)
  next
    case (Some q)
    let ?n = "(int stop - int q) div int ?count"
    have q: "p < q" "q \<le> stop" using s(2) Some by auto
    have eq: "opus_multiple_frames data p len stop toc (\<lambda>_ _ _. 0) =
        (if int q + ?n * int ?count \<noteq> int stop then Some (-1, [])
         else Some (frames_loop (\<lambda>_ _ _. 0) (toc AND 0xFC) q (replicate ?count ?n)))"
      using s(1) Some p assms by (simp add: opus_multiple_frames_def Let_def)
    have "0 \<le> ?n" using q assms(5) by (subst pos_imp_zdiv_nonneg_iff) linarith+
    then obtain fs where fs: "frames_loop (\<lambda>_ _ _. 0) (toc AND 0xFC) q (replicate ?count ?n) = (0, fs)" "length fs = ?count"
        "frames_tile q (q + nat (int ?count * ?n)) fs"
      using frames_loop_tile [of "replicate ?count ?n" "toc AND 0xFC" q] by (auto simp: sum_list_replicate)
    show ?thesis
    proof (cases "int q + ?n * int ?count = int stop")
      case True
      then have "int ?count * ?n = int (stop - q)" using q(2) by (simp only: mult.commute [of "int ?count"])
      then have "q + nat (int ?count * ?n) = stop" using q(2) by (simp only: nat_int)
      then show ?thesis using eq fs True q by auto
    next
      case False
      then show ?thesis using eq by simp
    qed
  qed
qed

lemma opus_multiple_vbr:
  assumes "0 < len" "int p + len = int stop" "stop \<le> length data"
    and "data ! p AND 0x80 \<noteq> 0" "unat (data ! p AND 0x3F) \<le> 48"
  shows "\<exists>r fs. opus_multiple_frames data p len stop toc (\<lambda>_ _ _. 0) = Some (r, fs)
    \<and> (r = -1 \<and> fs = [] \<or> r = 0 \<and> length fs = unat (data ! p AND 0x3F)
       \<and> (0 < length fs \<longrightarrow> (\<exists>ns q. p < q \<and> q \<le> stop \<and> map (\<lambda>(_, _, n). n) fs = ns @ [int stop - int q]
            \<and> (\<forall>n \<in> set ns. 0 \<le> n) \<and> frames_tile q (stop + nat (sum_list ns)) fs)))"
proof -
  let ?count = "unat (data ! p AND 0x3F)"
  obtain s where s: "opus_skip_padding data (p + 1) (len - 1) (data ! p) = Some s"
      "\<forall>q. s = Some q \<longrightarrow> p < q \<and> int q \<le> int stop"
    using opus_code3_start [of len p data] assms(1-3) by auto
  have p: "p < length data" using assms(1-3) by simp
  show ?thesis
  proof (cases s)
    case None
    then show ?thesis using s(1) p assms by (simp add: opus_multiple_frames_def Let_def)
  next
    case (Some q0)
    have q0: "p < q0" "q0 \<le> stop" using s(2) Some by auto
    obtain t where t: "vbr_sizes data q0 stop 0 (?count - 1) = Some t"
        "\<forall>ns q. t = Some (ns, q) \<longrightarrow> length ns = ?count - 1 \<and> q0 \<le> q \<and> q \<le> stop \<and> (\<forall>n \<in> set ns. 0 \<le> n)"
      using vbr_sizes_range [OF q0(2) assms(3), of 0 "?count - 1"] le_trans [OF diff_le_self assms(5)] by auto
    show ?thesis
    proof (cases t)
      case None
      then show ?thesis using s(1) Some t(1) p assms by (simp add: opus_multiple_frames_def Let_def)
    next
      case (Some nsq)
      then obtain ns q where nq: "t = Some (ns, q)" "length ns = ?count - 1" "q0 \<le> q" "q \<le> stop" "\<forall>n \<in> set ns. 0 \<le> n"
        using t(2) by (cases nsq) auto
      have small: "\<not> 48 \<le> ?count - Suc 0" using assms(5) by linarith
      let ?ns = "take ?count (ns @ [int stop - int q])"
      have eq: "opus_multiple_frames data p len stop toc (\<lambda>_ _ _. 0) =
          (if int stop - int q > 1275 then Some (-1, []) else Some (frames_loop (\<lambda>_ _ _. 0) (toc AND 0xFC) q ?ns))"
        using s(1) \<open>s = Some q0\<close> t(1) nq p assms small by (simp add: opus_multiple_frames_def Let_def)
      have nn: "\<forall>n \<in> set ?ns. 0 \<le> n" using nq by (auto dest: in_set_takeD)
      obtain fs where fs: "frames_loop (\<lambda>_ _ _. 0) (toc AND 0xFC) q ?ns = (0, fs)" "length fs = length ?ns"
          "frames_tile q (q + nat (sum_list ?ns)) fs" "map (\<lambda>(_, _, n). n) fs = ?ns"
        using frames_loop_tile [OF nn] by blast
      have len: "length ?ns = ?count" using nq(2) by auto
      have tile: "p < q \<and> q \<le> stop \<and> map (\<lambda>(_, _, n). n) fs = ns @ [int stop - int q] \<and> (\<forall>n \<in> set ns. 0 \<le> n)
          \<and> frames_tile q (stop + nat (sum_list ns)) fs" if "0 < length fs"
      proof -
        have "?ns = ns @ [int stop - int q]" "q + nat (sum_list (ns @ [int stop - int q])) = stop + nat (sum_list ns)"
          using that fs(2) len nq sum_list_nonneg [of ns] by auto
        then show ?thesis using fs(3,4) nq(3-5) q0 by simp
      qed
      show ?thesis
      proof (cases "int stop - int q > 1275")
        case False
        then have "opus_multiple_frames data p len stop toc (\<lambda>_ _ _. 0) = Some (0, fs)" using eq fs(1) by simp
        moreover have "length fs = ?count" using fs(2) len by simp
        ultimately show ?thesis using tile by blast
      qed (simp add: eq)
    qed
  qed
qed

lemma opus_frames_code3:
  assumes "0 < len" "p < length data" "opus_code data p = 3"
  shows "opus_parse_frames data p len onframe =
    opus_multiple_frames data (p + 1) (len - 1) (p + nat len) (data ! p) onframe"
  using assms by (simp add: opus_parse_frames_def opus_code_def Let_def)

lemma opus_short: "length data < 19 \<Longrightarrow> opus_head_save x data = Some (-1, data) \<and> opus_head_load old data = Some (-1, old)"
  by (simp add: opus_head_save_def opus_head_load_def)

text \<open>Splitting a packet into access units reads inside the packet only, and ends.\<close>

lemma au_size_loop_defined: "p + len \<le> length data \<Longrightarrow> 0 < i \<Longrightarrow> \<exists>r. au_size_loop data p len i a = Some r"
proof (induction data p len i a rule: au_size_loop.induct)
  case (1 data p len i a)
  then have "p + i - 1 < length data \<and> p + i < length data" if "i < len" using that by auto
  then show ?case using 1 by (auto simp: au_size_loop.simps [of data p len i a])
qed

lemma ts_header_fields_defined: "p + len \<le> length data \<Longrightarrow> \<exists>r. ts_header_fields data p len prefix i = Some r"
  by (auto simp: ts_header_fields_def Let_def)

lemma opus_ts_header_defined:
  assumes "p + len \<le> length data"
  shows "\<exists>r. opus_ts_header data p len = Some r"
proof (cases "len < 3")
  case False
  then have "p < length data" "p + 1 < length data" "p + 2 < length data" using assms by auto
  moreover obtain i au where "au_size_loop data p len 3 (uint (data ! (p + 2))) = Some (i, au)"
    using au_size_loop_defined [OF assms, of 3 "uint (data ! (p + 2))"] by auto
  moreover obtain s where "ts_header_fields data p len (be16 (data ! p) (data ! (p + 1))) i = Some s"
    using ts_header_fields_defined [OF assms] by blast
  ultimately show ?thesis using False by (simp add: opus_ts_header_def Let_def)
qed (simp add: opus_ts_header_def)

lemma opus_packet_getframes_defined:
  assumes "\<And>q n. int q + n \<le> int (length data) \<Longrightarrow> opus_parse_frames data q n onframe \<noteq> None"
  shows "opus_packet_getframes data p onframe \<noteq> None"
proof (induction "length data - p" arbitrary: p rule: less_induct)
  case less
  show ?case
  proof (cases "p < length data")
    case True
    then obtain r where r: "opus_ts_header data p (length data - p) = Some r"
      using opus_ts_header_defined [of p "length data - p" data] by auto
    show ?thesis
    proof (cases r)
      case (Some x)
      then obtain payload q where x: "r = Some (payload, q)" by (cases x) auto
      note range = opus_ts_header_range [OF r [unfolded x]]
      then have "int q + payload \<le> int (length data)" "p < q + nat payload" using True by auto
      then show ?thesis
        using assms [of q payload] less [of "q + nat payload"] True r x by (auto simp: opus_packet_getframes.simps [of data p])
    qed (use True r in \<open>simp add: opus_packet_getframes.simps [of data p]\<close>)
  qed (simp add: opus_packet_getframes.simps [of data p])
qed

section \<open>Properties\<close>

text \<open>An Opus identification header whose stream counts and mapping are those of the tables, or that names a
  mapping family, is written by \<open>opus_head_save\<close> at the front of a buffer with room for it and read back by
  \<open>opus_head_load\<close> field by field, also the signed gain; two headers are never written alike, and neither is
  a prefix of the other.  A buffer below 19 bytes is refused by both.\<close>

theorem opus_head_roundtrip:
  fixes data :: bytes
  assumes x: "opus_valid x" and y: "opus_valid y"
  shows "(length (opus_record x) \<le> length data \<longrightarrow>
       (\<exists>d. opus_head_save x data = Some (int (length (opus_record x)), d)
          \<and> drop (length (opus_record x)) d = drop (length (opus_record x)) data
          \<and> opus_head_load old d = Some (int (length (opus_record x)), x)))
    \<and> (length data < 19 \<longrightarrow> opus_head_save x data = Some (-1, data) \<and> opus_head_load old data = Some (-1, old))
    \<and> (opus_record x @ r = opus_record y @ s \<longrightarrow> x = y \<and> r = s)"
  using opus_save [OF x, of data] opus_load [OF x, of old] opus_codec.saved_prefix_free [OF x y, of r s]
    opus_short [of data x old]
  by auto

definition opus_example :: opus_head_t where
  "opus_example = \<lparr>version = 1, channels = 2, pre_skip = 0x138, input_sample_rate = 48000, output_gain = -3,
     channel_mapping_family = 1, stream_count = 1, coupled_count = 1, channel_mapping = [0, 1, 0, 0, 0, 0, 0, 0]\<rparr>"

theorem opus_head_roundtrip_witness:
  "\<exists>d. opus_head_save opus_example (replicate 30 7) = Some (29, d) \<and> opus_head_load opus_zero d = Some (29, opus_example)"
proof -
  have v: "opus_valid opus_example" by (simp add: opus_valid_def opus_example_def)
  have l: "length (opus_record opus_example) = 29" by (simp add: opus_record_def opus_example_def)
  have "length (opus_record opus_example) \<le> length (replicate 30 (7 :: u8))" by (simp add: l)
  from opus_head_roundtrip [OF v v, of "replicate 30 7" opus_zero "[]" "[]", THEN conjunct1, THEN mp, OF this]
  show ?thesis unfolding l by auto
qed

text \<open>A packet of two frames of different sizes, or of several frames of one size, is either refused with no
  frame reported, or the reported frames follow each other without gap or overlap up to the end of the
  packet, as many as the count says; and parsing reads nothing outside the packet.\<close>

theorem opus_frames_tile_packet:
  assumes "0 < len" "int p + len \<le> int (length data)"
    and "opus_code data p = 2
       \<or> opus_code data p = 3 \<and> 1 < len \<and> data ! (p + 1) AND 0x80 = 0 \<and> 0 < opus_count data p"
  shows "\<exists>r fs. opus_parse_frames data p len (\<lambda>_ _ _. 0) = Some (r, fs)
    \<and> (r = -1 \<and> fs = []
       \<or> r = 0 \<and> length fs = (if opus_code data p = 2 then 2 else opus_count data p)
           \<and> (\<exists>q > p. frames_tile q (p + nat len) fs))"
proof (cases "opus_code data p = 2")
  case True
  then show ?thesis using opus_frames_code2 [OF assms(1,2)] by simp
next
  case False
  then have c: "opus_code data p = 3" "1 < len" "data ! (p + 1) AND 0x80 = 0" "0 < unat (data ! (p + 1) AND 0x3F)"
    using assms(3) by (auto simp: opus_count_def)
  have "p < length data" using assms(1,2) by simp
  note eq = opus_frames_code3 [OF assms(1) this c(1), of "\<lambda>_ _ _. 0"]
  have "0 < len - 1" "int (p + 1) + (len - 1) = int (p + nat len)" "p + nat len \<le> length data" using assms(1,2) c(2) by auto
  from opus_multiple_cbr [OF this c(3,4), of "data ! p"] show ?thesis
    unfolding eq opus_count_def using False by (auto dest: Suc_lessD)
qed

theorem opus_frames_tile_packet_witness:
  "opus_parse_frames [0x0B, 0x02, 1, 2, 3, 4] 0 6 (\<lambda>_ _ _. 0) = Some (0, [(0x08, 2, 2), (0x08, 4, 2)])
   \<and> frames_tile 2 6 [(0x08, 2, 2), (0x08, 4, 2)]"
proof -
  let ?data = "[0x0B, 0x02, 1, 2, 3, 4] :: bytes"
  have "\<exists>r fs. opus_parse_frames ?data 0 6 (\<lambda>_ _ _. 0) = Some (r, fs) \<and> (r = -1 \<and> fs = []
       \<or> r = 0 \<and> length fs = (if opus_code ?data 0 = 2 then 2 else opus_count ?data 0) \<and> (\<exists>q > 0. frames_tile q (0 + nat 6) fs))"
    by (rule opus_frames_tile_packet) (simp_all add: opus_code_def opus_count_def)
  moreover have "opus_parse_frames ?data 0 6 (\<lambda>_ _ _. 0) = Some (0, [(0x08, 2, 2), (0x08, 4, 2)])"
    by (simp add: opus_parse_frames_def opus_multiple_frames_def opus_skip_padding_def replicate_numeral_Cons)
  ultimately show ?thesis by simp
qed

text \<open>Where the frames that \<open>opus_parse_frames\<close> reports are wrong.  A packet of one frame is reported without
  its last byte, and with a size of \<open>-1\<close> when there is no byte at all; of two frames of one size the first is
  reported twice; the last frame of a packet with explicit sizes has all bytes behind the sizes as its size,
  so that it ends behind the packet, by as many bytes as the other frames have; a count of zero divides by
  zero.\<close>

theorem opus_frames_defects:
  assumes "0 < len" "int p + len \<le> int (length data)"
  shows "(opus_code data p = 0 \<longrightarrow>
       opus_parse_frames data p len onframe = Some (onframe (data ! p) (p + 1) (len - 2), [(data ! p, p + 1, len - 2)]))
    \<and> (opus_code data p = 1 \<longrightarrow> odd len \<longrightarrow> opus_parse_frames data p len (\<lambda>_ _ _. 0) =
       Some (0, [(data ! p AND 0xFC, p + 1, (len - 1) div 2), (data ! p AND 0xFC, p + 1, (len - 1) div 2)]))
    \<and> (opus_code data p = 3 \<longrightarrow> 1 < len \<longrightarrow> data ! (p + 1) AND 0x80 \<noteq> 0 \<longrightarrow> 0 < opus_count data p \<longrightarrow> opus_count data p \<le> 48 \<longrightarrow>
       (\<exists>r fs. opus_parse_frames data p len (\<lambda>_ _ _. 0) = Some (r, fs) \<and> (r = -1 \<and> fs = [] \<or>
          (\<exists>ns q. r = 0 \<and> p < q \<and> q \<le> p + nat len \<and> map (\<lambda>(_, _, n). n) fs = ns @ [int (p + nat len) - int q]
             \<and> frames_tile q (p + nat len + nat (sum_list ns)) fs))))
    \<and> (opus_code data p = 3 \<longrightarrow> 1 < len \<longrightarrow> data ! (p + 1) = 0 \<longrightarrow> opus_parse_frames data p len onframe = None)"
proof (intro conjI impI)
  have p: "p < length data" using assms by simp
  show "opus_parse_frames data p len onframe = Some (onframe (data ! p) (p + 1) (len - 2), [(data ! p, p + 1, len - 2)])"
    if "opus_code data p = 0" by (rule opus_frames_code0 [OF assms(1) p that])
  show "opus_parse_frames data p len (\<lambda>_ _ _. 0) =
       Some (0, [(data ! p AND 0xFC, p + 1, (len - 1) div 2), (data ! p AND 0xFC, p + 1, (len - 1) div 2)])"
    if "opus_code data p = 1" "odd len" by (rule opus_frames_code1 [OF assms(1) p that])
  have arith: "0 < len - 1" "int (p + 1) + (len - 1) = int (p + nat len)" "p + nat len \<le> length data" if "1 < len"
    using assms that by auto
  show "\<exists>r fs. opus_parse_frames data p len (\<lambda>_ _ _. 0) = Some (r, fs) \<and> (r = -1 \<and> fs = [] \<or>
          (\<exists>ns q. r = 0 \<and> p < q \<and> q \<le> p + nat len \<and> map (\<lambda>(_, _, n). n) fs = ns @ [int (p + nat len) - int q]
             \<and> frames_tile q (p + nat len + nat (sum_list ns)) fs))"
    if "opus_code data p = 3" "1 < len" "data ! (p + 1) AND 0x80 \<noteq> 0" "0 < opus_count data p" "opus_count data p \<le> 48"
    using opus_multiple_vbr [OF arith [OF that(2)] that(3) that(5) [unfolded opus_count_def], of "data ! p"]
      opus_frames_code3 [OF assms(1) p that(1), of "\<lambda>_ _ _. 0"] that(4)
    unfolding opus_count_def by (metis Suc_eq_plus1 Suc_lessD)
  show "opus_parse_frames data p len onframe = None" if "opus_code data p = 3" "1 < len" "data ! (p + 1) = 0"
    using opus_frames_code3 [OF assms(1) p that(1), of onframe] that assms
    by (simp add: opus_multiple_frames_def opus_skip_padding_def)
qed

theorem opus_frames_defects_witness:
  "opus_parse_frames [0x08, 1, 2] 0 3 (\<lambda>_ _ _. 0) = Some (0, [(0x08, 1, 1)])
   \<and> opus_parse_frames [0x09, 1, 2] 0 3 (\<lambda>_ _ _. 0) = Some (0, [(0x08, 1, 1), (0x08, 1, 1)])
   \<and> opus_parse_frames [0x0B, 0] 0 2 (\<lambda>_ _ _. 0) = None
   \<and> opus_parse_frames [0x0B, 0x82, 1, 5, 6] 0 5 (\<lambda>_ _ _. 0) = Some (0, [(0x08, 3, 1), (0x08, 4, 2)])"
proof -
  have "opus_parse_frames [0x08, 1, 2] 0 3 (\<lambda>_ _ _. 0) = Some (0, [(0x08, 1, 1)])"
    using opus_frames_defects [of 3 0 "[0x08, 1, 2]" "\<lambda>_ _ _. 0"] by (simp add: opus_code_def)
  moreover have "opus_parse_frames [0x09, 1, 2] 0 3 (\<lambda>_ _ _. 0) = Some (0, [(0x08, 1, 1), (0x08, 1, 1)])"
    using opus_frames_defects [of 3 0 "[0x09, 1, 2]" "\<lambda>_ _ _. 0"] by (simp add: opus_code_def)
  moreover have "opus_parse_frames [0x0B, 0] 0 2 (\<lambda>_ _ _. 0) = None"
    using opus_frames_defects [of 2 0 "[0x0B, 0]" "\<lambda>_ _ _. 0"] by (simp add: opus_code_def)
  moreover have "opus_parse_frames [0x0B, 0x82, 1, 5, 6] 0 5 (\<lambda>_ _ _. 0) = Some (0, [(0x08, 3, 1), (0x08, 4, 2)])"
    by (simp add: opus_parse_frames_def opus_multiple_frames_def opus_skip_padding_def opus_parse_size_def)
  ultimately show ?thesis by simp
qed

end
