(* ===== verification/Aom_Av1.thy ===== *)
theory Aom_Av1
  imports Codec_Record
begin

text \<open>
  The AV1 configuration record of \<open>src/media/codec/aom-av1/aom-av1.c\<close>.  The bit fields of the structure are
  words of their widths; \<open>data\<close> is its array of 2048 bytes.  A buffer is the list of its bytes; an access
  outside an array is \<open>None\<close>.
\<close>

section \<open>The code\<close>

record aom_av1_t =
  marker :: "1 word"
  version :: "7 word"
  seq_profile :: "3 word"
  seq_level_idx_0 :: "5 word"
  seq_tier_0 :: "1 word"
  high_bitdepth :: "1 word"
  twelve_bit :: "1 word"
  monochrome :: "1 word"
  chroma_subsampling_x :: "1 word"
  chroma_subsampling_y :: "1 word"
  chroma_sample_position :: "2 word"
  reserved :: "3 word"
  initial_presentation_delay_present :: "1 word"
  initial_presentation_delay_minus_one :: "4 word"
  av1_bytes :: u16
  av1_data :: bytes

definition aom_av1_codec_configuration_record_load :: "aom_av1_t \<Rightarrow> bytes \<Rightarrow> (int \<times> aom_av1_t) option" where
  "aom_av1_codec_configuration_record_load av1 data =
     (if length data < 4 then Some (-1, av1)
      else
        let av1 = av1\<lparr>
          marker := ucast (shr (data ! 0) 7), version := ucast (data ! 0 AND 0x7F),
          seq_profile := ucast (shr (data ! 1) 5), seq_level_idx_0 := ucast (data ! 1 AND 0x1F),
          seq_tier_0 := ucast (shr (data ! 2) 7), high_bitdepth := ucast (shr (data ! 2) 6 AND 0x01),
          twelve_bit := ucast (shr (data ! 2) 5 AND 0x01), monochrome := ucast (shr (data ! 2) 4 AND 0x01),
          chroma_subsampling_x := ucast (shr (data ! 2) 3 AND 0x01),
          chroma_subsampling_y := ucast (shr (data ! 2) 2 AND 0x01),
          chroma_sample_position := ucast (data ! 2 AND 0x03),
          reserved := ucast (shr (data ! 3) 5),
          initial_presentation_delay_present := ucast (shr (data ! 3) 4 AND 0x01),
          initial_presentation_delay_minus_one := ucast (data ! 3 AND 0x0F)\<rparr>
        in if length data - 4 > 2 * 1024 then Some (-1, av1)
           else do {
             let av1 = av1\<lparr>av1_bytes := of_nat (length data - 4)\<rparr>;
             d \<leftarrow> mem_copy (av1_data av1) 0 data 4 (unat (av1_bytes av1));
             Some (int (length data), av1\<lparr>av1_data := d\<rparr>) })"

definition aom_av1_codec_configuration_record_save :: "aom_av1_t \<Rightarrow> bytes \<Rightarrow> (int \<times> bytes) option" where
  "aom_av1_codec_configuration_record_save av1 data =
     (if length data < unat (av1_bytes av1) + 4 then Some (0, data)
      else do {
        let data = data
          [0 := shl (ucast (marker av1)) 7 OR ucast (version av1),
           1 := shl (ucast (seq_profile av1)) 5 OR ucast (seq_level_idx_0 av1),
           2 := shl (ucast (seq_tier_0 av1)) 7 OR shl (ucast (high_bitdepth av1)) 6 OR shl (ucast (twelve_bit av1)) 5
                OR shl (ucast (monochrome av1)) 4 OR shl (ucast (chroma_subsampling_x av1)) 3
                OR shl (ucast (chroma_subsampling_y av1)) 2 OR ucast (chroma_sample_position av1),
           3 := shl (ucast (initial_presentation_delay_present av1)) 4 OR ucast (initial_presentation_delay_minus_one av1)];
        data \<leftarrow> mem_copy data 4 (av1_data av1) 0 (unat (av1_bytes av1));
        Some (int (unat (av1_bytes av1)) + 4, data) })"

text \<open>\<open>%u\<close> and \<open>%02u\<close> of numbers below 10 and below 100, and \<open>snprintf\<close> of a text into a buffer: the length of
  the text, and as much of it as fits, with a terminating zero if there is any room.\<close>

definition dec1 :: "nat \<Rightarrow> u8" where
  "dec1 n = asc CHR ''0'' + of_nat (n mod 10)"

definition dec2 :: "nat \<Rightarrow> bytes" where
  "dec2 n = [dec1 (n div 10), dec1 n]"

definition snprintf :: "bytes \<Rightarrow> bytes \<Rightarrow> int \<times> bytes" where
  "snprintf text buf =
     (int (length text),
      if buf = [] then [] else take (length buf - 1) text @ 0 # drop (min (length text) (length buf - 1) + 1) buf)"

definition aom_av1_codecs :: "aom_av1_t \<Rightarrow> bytes \<Rightarrow> int \<times> bytes" where
  "aom_av1_codecs av1 codecs =
     (let bitdepth =
            (if seq_profile av1 = 2 \<and> high_bitdepth av1 \<noteq> 0 then if twelve_bit av1 \<noteq> 0 then 12 else 10
             else if high_bitdepth av1 \<noteq> 0 then 10 else 8)
      in snprintf (map asc ''av01.'' @ [dec1 (unat (seq_profile av1)), asc CHR ''.''] @ dec2 (unat (seq_level_idx_0 av1))
           @ [if seq_tier_0 av1 \<noteq> 0 then asc CHR ''H'' else asc CHR ''M'', asc CHR ''.''] @ dec2 bitdepth) codecs)"

section \<open>Round trip\<close>

definition av1_byte2 :: "aom_av1_t \<Rightarrow> u8" where
  "av1_byte2 x = shl (ucast (seq_tier_0 x)) 7 OR shl (ucast (high_bitdepth x)) 6 OR shl (ucast (twelve_bit x)) 5
     OR shl (ucast (monochrome x)) 4 OR shl (ucast (chroma_subsampling_x x)) 3
     OR shl (ucast (chroma_subsampling_y x)) 2 OR ucast (chroma_sample_position x)"

definition av1_head :: "aom_av1_t \<Rightarrow> bytes" where
  "av1_head x = [shl (ucast (marker x)) 7 OR ucast (version x), shl (ucast (seq_profile x)) 5 OR ucast (seq_level_idx_0 x),
     av1_byte2 x, shl (ucast (initial_presentation_delay_present x)) 4 OR ucast (initial_presentation_delay_minus_one x)]"

lemma av1_byte2_fields:
  "ucast (shr (av1_byte2 x) 7) = seq_tier_0 x" "ucast (shr (av1_byte2 x) 6 AND 0x01) = high_bitdepth x"
  "ucast (shr (av1_byte2 x) 5 AND 0x01) = twelve_bit x" "ucast (shr (av1_byte2 x) 4 AND 0x01) = monochrome x"
  "ucast (shr (av1_byte2 x) 3 AND 0x01) = chroma_subsampling_x x" "ucast (shr (av1_byte2 x) 2 AND 0x01) = chroma_subsampling_y x"
  "ucast (av1_byte2 x AND 0x03) = chroma_sample_position x"
  by (simp_all add: av1_byte2_def bitwise_eqs nat_bits bit_simps)

lemma av1_byte_fields:
  fixes m i :: "1 word" and v :: "7 word" and s :: "3 word" and l :: "5 word" and d :: "4 word"
  shows "ucast (shr (shl (ucast m) 7 OR ucast v :: u8) 7) = m" "ucast ((shl (ucast m) 7 OR ucast v :: u8) AND 0x7F) = v"
    "ucast (shr (shl (ucast s) 5 OR ucast l :: u8) 5) = s" "ucast ((shl (ucast s) 5 OR ucast l :: u8) AND 0x1F) = l"
    "ucast (shr (shl (ucast i) 4 OR ucast d :: u8) 5) = (0 :: 3 word)"
    "ucast (shr (shl (ucast i) 4 OR ucast d :: u8) 4 AND 0x01) = i" "ucast ((shl (ucast i) 4 OR ucast d :: u8) AND 0x0F) = d"
  by (simp_all add: bitwise_eqs nat_bits bit_simps)

text \<open>The whole record.\<close>

definition av1_record :: "aom_av1_t \<Rightarrow> bytes" where
  "av1_record x = av1_head x @ take (unat (av1_bytes x)) (av1_data x)"

lemma length_av1_record:
  "unat (av1_bytes x) \<le> length (av1_data x) \<Longrightarrow> length (av1_record x) = unat (av1_bytes x) + 4"
  by (simp add: av1_record_def av1_head_def)

lemma drop_4: "drop (n + 4) (a # b # c # d # xs) = drop n xs" "drop (4 + n) (a # b # c # d # xs) = drop n xs"
  by (simp_all add: eval_nat_numeral)

lemma av1_save:
  assumes "unat (av1_bytes x) \<le> length (av1_data x)" "unat (av1_bytes x) + 4 \<le> length data"
  shows "aom_av1_codec_configuration_record_save x data
    = Some (int (unat (av1_bytes x)) + 4, av1_record x @ drop (unat (av1_bytes x) + 4) data)"
proof -
  obtain a b c d rest where l: "data = a # b # c # d # rest" using length_4_cases [of data] assms(2) by auto
  then have head: "data[0 := b0, 1 := b1, 2 := b2, 3 := b3] = b0 # b1 # b2 # b3 # rest" for b0 b1 b2 b3 by simp
  have room: "unat (av1_bytes x) \<le> length rest" using assms(2) l by simp
  show ?thesis
    unfolding aom_av1_codec_configuration_record_save_def head
    using assms room l by (simp add: mem_copy_def av1_record_def av1_head_def av1_byte2_def drop_4)
qed

lemma av1_load:
  assumes "unat (av1_bytes x) \<le> 2048" "length (av1_data x) = 2048" "length (av1_data old) = 2048" "reserved x = 0"
  shows "aom_av1_codec_configuration_record_load old (av1_record x)
    = Some (int (unat (av1_bytes x)) + 4,
        x\<lparr>av1_data := take (unat (av1_bytes x)) (av1_data x) @ drop (unat (av1_bytes x)) (av1_data old)\<rparr>)"
  unfolding aom_av1_codec_configuration_record_load_def
  using length_av1_record [of x] assms av1_byte_fields av1_byte2_fields
  by (simp add: av1_record_def av1_head_def mem_copy_def Let_def)

section \<open>Properties\<close>

text \<open>An AV1 configuration record with clear reserved bits is written with its data behind four bytes of bit
  fields, the rest of the buffer is kept, and loading the written bytes gives every field and the data
  back, keeping the rest of the data array.  A saver without room and a loader without four bytes change
  nothing; a record with more data than the array holds is refused by the loader, the data left as it was.\<close>

theorem av1_record_roundtrip:
  fixes data :: bytes
  assumes x: "unat (av1_bytes x) \<le> 2048" "length (av1_data x) = 2048" "reserved x = 0"
    and old: "length (av1_data old) = 2048"
  defines "n \<equiv> unat (av1_bytes x)"
  shows "(n + 4 \<le> length data \<longrightarrow> (\<exists>d. aom_av1_codec_configuration_record_save x data = Some (int n + 4, d)
         \<and> length d = length data \<and> drop (n + 4) d = drop (n + 4) data
         \<and> aom_av1_codec_configuration_record_load old (take (n + 4) d)
             = Some (int n + 4, x\<lparr>av1_data := take n (av1_data x) @ drop n (av1_data old)\<rparr>)))
    \<and> (length data < n + 4 \<longrightarrow> aom_av1_codec_configuration_record_save x data = Some (0, data))
    \<and> (length data < 4 \<longrightarrow> aom_av1_codec_configuration_record_load old data = Some (-1, old))
    \<and> (2052 < length data \<longrightarrow> (\<exists>y. aom_av1_codec_configuration_record_load old data = Some (-1, y)
         \<and> av1_data y = av1_data old \<and> av1_bytes y = av1_bytes old))"
proof (intro conjI impI)
  show "\<exists>d. aom_av1_codec_configuration_record_save x data = Some (int n + 4, d)
         \<and> length d = length data \<and> drop (n + 4) d = drop (n + 4) data
         \<and> aom_av1_codec_configuration_record_load old (take (n + 4) d)
             = Some (int n + 4, x\<lparr>av1_data := take n (av1_data x) @ drop n (av1_data old)\<rparr>)"
    if "n + 4 \<le> length data"
    using av1_save [of x data] av1_load [OF x(1,2) old x(3)] length_av1_record [of x] that x by (simp add: n_def)
qed (auto simp: n_def aom_av1_codec_configuration_record_save_def aom_av1_codec_configuration_record_load_def Let_def)

definition av1_example :: aom_av1_t where
  "av1_example = \<lparr>marker = 1, version = 1, seq_profile = 2, seq_level_idx_0 = 9, seq_tier_0 = 1, high_bitdepth = 1,
     twelve_bit = 0, monochrome = 0, chroma_subsampling_x = 1, chroma_subsampling_y = 1, chroma_sample_position = 2,
     reserved = 0, initial_presentation_delay_present = 1, initial_presentation_delay_minus_one = 7,
     av1_bytes = 3, av1_data = replicate 2048 5\<rparr>"

theorem av1_record_roundtrip_witness:
  "\<exists>d. aom_av1_codec_configuration_record_save av1_example (replicate 9 0) = Some (7, d)
     \<and> aom_av1_codec_configuration_record_load av1_example (take 7 d) = Some (7, av1_example)"
proof -
  have *: "unat (av1_bytes av1_example) \<le> 2048" "length (av1_data av1_example) = 2048" "reserved av1_example = 0"
    and n: "unat (av1_bytes av1_example) = 3"
    by (simp_all add: av1_example_def)
  have "3 + 4 \<le> length (replicate 9 (0 :: u8))" by simp
  from av1_record_roundtrip [OF *(1-3) *(2), of "replicate 9 0", unfolded n, THEN conjunct1, THEN mp, OF this]
  show ?thesis by (auto simp: append_take_drop_id)
qed

end
