(* ===== verification/Time_Wheel.thy ===== *)
theory Time_Wheel
  imports Prelude
begin

text \<open>
  The timing wheel of \<open>src/time_wheel/twtimer.c\<close>.  Timers are structures of the caller, linked into the
  buckets of five arrays through \<open>next\<close> and \<open>pprev\<close>; the state has their memory by address, the buckets, and
  the local variable \<open>bucket\<close> of \<open>twtimer_process\<close>, which \<open>pprev\<close> may point to while a timer's callback runs.
  The spin lock makes each function one step; it is released around a callback, which is therefore any
  function on the state.  A failed assertion is \<open>None\<close>.
\<close>

section \<open>The code\<close>

text \<open>What a \<open>struct twtimer **\<close> points to: the first pointer of bucket \<open>i\<close> of the array \<open>tv\<close>\<^emph>\<open>k\<close>, the \<open>next\<close>
  field of a timer, or \<open>bucket.first\<close>.\<close>

datatype link = First "nat \<times> nat" | NextOf nat | Local

record twtimer =
  expire :: u64
  "next" :: "nat option"
  pprev :: "link option"
  ontimeout :: bool

record time_wheel =
  tw_count :: u64
  clock :: u64
  tv :: "nat \<times> nat \<Rightarrow> nat option"
  timers :: "nat \<Rightarrow> twtimer"
  bucket :: "nat option"

text \<open>Assignments to the fields of a timer, and through a pointer to a pointer.\<close>

definition set_next :: "nat \<Rightarrow> nat option \<Rightarrow> time_wheel \<Rightarrow> time_wheel" where
  "set_next t v s = s\<lparr>timers := (timers s)(t := (timers s t)\<lparr>next := v\<rparr>)\<rparr>"

definition set_pprev :: "nat \<Rightarrow> link option \<Rightarrow> time_wheel \<Rightarrow> time_wheel" where
  "set_pprev t v s = s\<lparr>timers := (timers s)(t := (timers s t)\<lparr>pprev := v\<rparr>)\<rparr>"

fun set_link :: "link \<Rightarrow> nat option \<Rightarrow> time_wheel \<Rightarrow> time_wheel" where
  "set_link (First b) v s = s\<lparr>tv := (tv s)(b := v)\<rparr>" |
  "set_link (NextOf t) v s = set_next t v s" |
  "set_link Local v s = s\<lparr>bucket := v\<rparr>"

text \<open>\<open>TIME_RESOLUTION\<close> is \<open>0\<close>.\<close>

definition TVR_INDEX :: "u64 \<Rightarrow> nat" where
  "TVR_INDEX c = unat (c AND 255)"

definition TVN_INDEX :: "u64 \<Rightarrow> nat \<Rightarrow> nat" where
  "TVN_INDEX c n = unat (shr c (8 + n * 6) AND 63)"

text \<open>\<open>ok\<close> says whether \<open>calloc\<close> finds memory; \<open>mem\<close> is the memory of the timers.\<close>

definition time_wheel_create :: "bool \<Rightarrow> u64 \<Rightarrow> (nat \<Rightarrow> twtimer) \<Rightarrow> time_wheel option" where
  "time_wheel_create ok c mem =
     (if ok then Some \<lparr>tw_count = 0, clock = c, tv = (\<lambda>_. None), timers = mem, bucket = None\<rparr> else None)"

definition time_wheel_destroy :: "time_wheel \<Rightarrow> unit option" where
  "time_wheel_destroy s = (if tw_count s = 0 then Some () else None)"

text \<open>The bucket that a timer belongs to, \<open>None\<close> when the time is too long.\<close>

definition twtimer_bucket :: "u64 \<Rightarrow> u64 \<Rightarrow> (nat \<times> nat) option" where
  "twtimer_bucket c e =
     (let diff = e - c
      in if e < c then Some (1, TVR_INDEX c)
         else if diff < 2 ^ 8 then Some (1, TVR_INDEX e)
         else if diff < 2 ^ (8 + 6) then Some (2, TVN_INDEX e 0)
         else if diff < 2 ^ (8 + 2 * 6) then Some (3, TVN_INDEX e 1)
         else if diff < 2 ^ (8 + 3 * 6) then Some (4, TVN_INDEX e 2)
         else if diff < 2 ^ (8 + 4 * 6) then Some (5, TVN_INDEX e 3)
         else None)"

text \<open>The insertion at the front of a bucket.\<close>

definition list_insert :: "nat \<times> nat \<Rightarrow> nat \<Rightarrow> time_wheel \<Rightarrow> time_wheel" where
  "list_insert b t s =
     (let s = set_pprev t (Some (First b)) s;
          s = set_next t (tv s b) s;
          s = (case next (timers s t) of None \<Rightarrow> s | Some n \<Rightarrow> set_pprev n (Some (NextOf t)) s);
          s = set_link (First b) (Some t) s
      in s\<lparr>tw_count := tw_count s + 1\<rparr>)"

definition twtimer_add :: "time_wheel \<Rightarrow> nat \<Rightarrow> (int \<times> time_wheel) option" where
  "twtimer_add s t =
     (if \<not> ontimeout (timers s t) then None
      else if pprev (timers s t) \<noteq> None then None
      else case twtimer_bucket (clock s) (expire (timers s t)) of
          None \<Rightarrow> None
        | Some b \<Rightarrow> Some (0, list_insert b t s))"

definition twtimer_start :: "time_wheel \<Rightarrow> nat \<Rightarrow> (int \<times> time_wheel) option" where
  "twtimer_start s t = (if \<not> ontimeout (timers s t) then None else twtimer_add s t)"

definition twtimer_stop :: "time_wheel \<Rightarrow> nat \<Rightarrow> int \<times> time_wheel" where
  "twtimer_stop s t =
     (let pp = pprev (timers s t);
          s = (case pp of None \<Rightarrow> s
               | Some l \<Rightarrow> set_link l (next (timers s t)) (s\<lparr>tw_count := tw_count s - 1\<rparr>));
          s = (case next (timers s t) of None \<Rightarrow> s | Some n \<Rightarrow> set_pprev n (pprev (timers s t)) s);
          s = set_pprev t None s;
          s = set_next t None s
      in (if pp \<noteq> None then 0 else -1, s))"

text \<open>The loop of \<open>twtimer_cascade\<close> over the timers of a bucket.\<close>

partial_function (option) cascade_loop :: "nat option \<Rightarrow> time_wheel \<Rightarrow> time_wheel option" where
  "cascade_loop timer s =
     (case timer of
        None \<Rightarrow> Some s
      | Some t \<Rightarrow>
          let s = s\<lparr>tw_count := tw_count s - 1\<rparr>;
              n = next (timers s t);
              s = set_next t None s;
              s = set_pprev t None s
          in Option.bind (twtimer_add s t) (\<lambda>(_, s). cascade_loop n s))"

definition twtimer_cascade :: "time_wheel \<Rightarrow> nat \<Rightarrow> nat \<Rightarrow> (nat \<times> time_wheel) option" where
  "twtimer_cascade s k index = do {
     let n = tv s (k, index);
     let s = set_link (First (k, index)) None s;
     s \<leftarrow> cascade_loop n s;
     Some (index, s) }"

text \<open>Taking the first timer out of \<open>bucket\<close>.\<close>

definition bucket_pop :: "nat \<Rightarrow> time_wheel \<Rightarrow> time_wheel" where
  "bucket_pop t s =
     (let s = (case next (timers s t) of None \<Rightarrow> s | Some n \<Rightarrow> set_pprev n (Some Local) s);
          s = s\<lparr>bucket := next (timers s t)\<rparr>;
          s = set_next t None s;
          s = set_pprev t None s
      in s\<lparr>tw_count := tw_count s - 1\<rparr>)"

text \<open>The loop that fires the timers of \<open>bucket\<close>: \<open>cb\<close> is what the callback of a timer does.  The second result
  is the sequence of calls: the timer, the time it was set to, and the clock of the tick.\<close>

partial_function (option) trigger_loop ::
    "(nat \<Rightarrow> time_wheel \<Rightarrow> time_wheel option) \<Rightarrow> time_wheel \<Rightarrow> (time_wheel \<times> (nat \<times> u64 \<times> u64) list) option" where
  "trigger_loop cb s =
     (case bucket s of
        None \<Rightarrow> Some (s, [])
      | Some t \<Rightarrow>
          let s = bucket_pop t s
          in if ontimeout (timers s t)
             then Option.bind (cb t s) (\<lambda>s'. Option.bind (trigger_loop cb s') (\<lambda>(s'', fired). Some (s'', (t, expire (timers s t), clock s - 1) # fired)))
             else trigger_loop cb s)"

text \<open>One turn of the loop of \<open>twtimer_process\<close>.\<close>

definition cascade_all :: "time_wheel \<Rightarrow> time_wheel option" where
  "cascade_all s =
     (if TVR_INDEX (clock s) = 0 then do {
        (r, s) \<leftarrow> twtimer_cascade s 2 (TVN_INDEX (clock s) 0);
        if r = 0 then do {
          (r, s) \<leftarrow> twtimer_cascade s 3 (TVN_INDEX (clock s) 1);
          if r = 0 then do {
            (r, s) \<leftarrow> twtimer_cascade s 4 (TVN_INDEX (clock s) 2);
            if r = 0 then map_option snd (twtimer_cascade s 5 (TVN_INDEX (clock s) 3))
            else Some s }
          else Some s }
        else Some s }
      else Some s)"

definition process_tick ::
    "(nat \<Rightarrow> time_wheel \<Rightarrow> time_wheel option) \<Rightarrow> time_wheel \<Rightarrow> (time_wheel \<times> (nat \<times> u64 \<times> u64) list) option" where
  "process_tick cb s = do {
     let index = TVR_INDEX (clock s);
     s \<leftarrow> cascade_all s;
     let s = s\<lparr>bucket := tv s (1, index)\<rparr>;
     let s = set_link (First (1, index)) None s;
     let s = s\<lparr>clock := clock s + 1\<rparr>;
     trigger_loop cb s }"

partial_function (option) process_loop ::
    "(nat \<Rightarrow> time_wheel \<Rightarrow> time_wheel option) \<Rightarrow> time_wheel \<Rightarrow> u64 \<Rightarrow> (time_wheel \<times> (nat \<times> u64 \<times> u64) list) option" where
  "process_loop cb s c =
     (if clock s < c
      then Option.bind (process_tick cb s) (\<lambda>(s, fired).
        Option.bind (process_loop cb s c) (\<lambda>(s, more). Some (s, fired @ more)))
      else Some (s, []))"

definition twtimer_process ::
    "(nat \<Rightarrow> time_wheel \<Rightarrow> time_wheel option) \<Rightarrow> time_wheel \<Rightarrow> u64 \<Rightarrow> (int \<times> time_wheel \<times> (nat \<times> u64 \<times> u64) list) option" where
  "twtimer_process cb s c = do {
     (s, fired) \<leftarrow> process_loop cb s c;
     Some (sint (ucast (clock s - c) :: u32), s, fired) }"

section \<open>Linked timers\<close>

text \<open>The timers of a list, from the pointer \<open>h\<close> at the place \<open>l\<close>.\<close>

fun chain :: "(nat \<Rightarrow> twtimer) \<Rightarrow> nat option \<Rightarrow> link \<Rightarrow> nat list \<Rightarrow> bool" where
  "chain m h l [] \<longleftrightarrow> h = None" |
  "chain m h l (x # xs) \<longleftrightarrow> h = Some x \<and> pprev (m x) = Some l \<and> chain m (next (m x)) (NextOf x) xs"

lemma chain_cong: "(\<And>x. x \<in> set xs \<Longrightarrow> next (m' x) = next (m x) \<and> pprev (m' x) = pprev (m x)) \<Longrightarrow> chain m' h l xs = chain m h l xs"
  by (induction xs arbitrary: h l) auto

text \<open>Setting the back pointer of the first timer of a list.\<close>

definition relink :: "nat option \<Rightarrow> link option \<Rightarrow> (nat \<Rightarrow> twtimer) \<Rightarrow> nat \<Rightarrow> twtimer" where
  "relink h l m = (case h of None \<Rightarrow> m | Some n \<Rightarrow> m(n := (m n)\<lparr>pprev := l\<rparr>))"

lemma relink_fields [simp]:
  "next (relink h l m x) = next (m x)" "expire (relink h l m x) = expire (m x)"
  "ontimeout (relink h l m x) = ontimeout (m x)"
  "pprev (relink h l m x) = (if h = Some x then l else pprev (m x))"
  by (auto simp: relink_def split: option.splits)

lemma chain_head: "chain m h l xs \<Longrightarrow> h = (case xs of [] \<Rightarrow> None | x # _ \<Rightarrow> Some x)"
  by (cases xs) auto

lemma chain_relink:
  assumes "chain m h l xs" "distinct xs"
    and "\<And>x. x \<in> set xs \<Longrightarrow> next (m' x) = next (m x) \<and> pprev (m' x) = (if h = Some x then Some l' else pprev (m x))"
  shows "chain m' h l' xs"
proof (cases xs)
  case (Cons y ys)
  then have "chain m' (next (m y)) (NextOf y) ys"
    using assms by (subst chain_cong [of ys m' m]) auto
  then show ?thesis using Cons assms by simp
qed (use assms in simp)

lemma chain_split:
  "chain m h l (xs @ t # ys) \<Longrightarrow>
   pprev (m t) = Some (if xs = [] then l else NextOf (last xs)) \<and> chain m (next (m t)) (NextOf t) ys"
proof (induction xs arbitrary: h l)
  case (Cons x xs)
  from Cons.IH [of "next (m x)" "NextOf x"] Cons.prems show ?case by simp
qed simp

text \<open>Unlinking a timer from the middle of a list.\<close>

lemma chain_unlink:
  assumes "chain m h l (xs @ t # ys)" "distinct (xs @ t # ys)"
    and "\<And>x. x \<in> set (xs @ ys) \<Longrightarrow> next (m' x) = (if xs \<noteq> [] \<and> x = last xs then next (m t) else next (m x))"
    and "\<And>x. x \<in> set (xs @ ys) \<Longrightarrow> pprev (m' x) = (if next (m t) = Some x then pprev (m t) else pprev (m x))"
  shows "chain m' (if xs = [] then next (m t) else h) l (xs @ ys)"
  using assms
proof (induction xs arbitrary: h l)
  case Nil
  then have c: "chain m (next (m t)) (NextOf t) ys" "pprev (m t) = Some l" "distinct ys" by simp_all
  have "chain m' (next (m t)) l ys"
  proof (rule chain_relink [OF c(1,3)])
    show "next (m' x) = next (m x) \<and> pprev (m' x) = (if next (m t) = Some x then Some l else pprev (m x))" if "x \<in> set ys" for x
      using Nil(3,4) [of x] that c(2) by simp
  qed
  then show ?case by simp
next
  case (Cons x xs)
  have "x \<notin> set ys" "x \<notin> set xs" using Cons.prems(2) by auto
  have tail: "chain m (next (m t)) (NextOf t) ys" using chain_split [OF Cons.prems(1)] by (rule conjunct2)
  have nx: "next (m t) \<noteq> Some x" using chain_head [OF tail] \<open>x \<notin> set ys\<close> by (auto split: list.splits)
  have "chain m' (if xs = [] then next (m t) else next (m x)) (NextOf x) (xs @ ys)"
  proof (rule Cons.IH)
    show "chain m (next (m x)) (NextOf x) (xs @ t # ys)" "distinct (xs @ t # ys)" using Cons.prems(1,2) by simp_all
    fix y assume y: "y \<in> set (xs @ ys)"
    then have "y \<noteq> x" using \<open>x \<notin> set ys\<close> \<open>x \<notin> set xs\<close> by auto
    with y show "next (m' y) = (if xs \<noteq> [] \<and> y = last xs then next (m t) else next (m y))"
      using Cons.prems(3) [of y] by (cases "xs = []") simp_all
    show "pprev (m' y) = (if next (m t) = Some y then pprev (m t) else pprev (m y))" using Cons.prems(4) [of y] y by simp
  qed
  moreover have "next (m' x) = (if xs = [] then next (m t) else next (m x))"
    using Cons.prems(3) [of x] \<open>x \<notin> set xs\<close> last_in_set [of xs] by (cases "xs = []") auto
  moreover have "pprev (m' x) = Some l" using Cons.prems(1) Cons.prems(4) [of x] nx by simp
  ultimately show ?case using Cons.prems(1) by simp
qed

text \<open>The timers of every list: \<open>L l\<close> are those linked from the pointer at \<open>l\<close>, and \<open>D\<close> those of a bucket that has
  been taken out of the wheel and is being gone through.\<close>

fun head :: "time_wheel \<Rightarrow> link \<Rightarrow> nat option" where
  "head s (First b) = tv s b" |
  "head s (NextOf t) = None" |
  "head s Local = bucket s"

definition members :: "(link \<Rightarrow> nat list) \<Rightarrow> nat list \<Rightarrow> nat set" where
  "members L D = set D \<union> (\<Union>l. set (L l))"

fun detached :: "(nat \<Rightarrow> twtimer) \<Rightarrow> nat list \<Rightarrow> bool" where
  "detached m [] \<longleftrightarrow> True" |
  "detached m (x # xs) \<longleftrightarrow> chain m (next (m x)) (NextOf x) xs"

definition linked :: "time_wheel \<Rightarrow> (link \<Rightarrow> nat list) \<Rightarrow> nat list \<Rightarrow> bool" where
  "linked s L D \<longleftrightarrow>
     (\<forall>l. chain (timers s) (head s l) l (L l)) \<and> (\<forall>l. distinct (L l))
     \<and> (\<forall>l l'. l \<noteq> l' \<longrightarrow> set (L l) \<inter> set (L l') = {})
     \<and> distinct D \<and> (\<forall>l. set D \<inter> set (L l) = {}) \<and> detached (timers s) D
     \<and> (\<forall>t. pprev (timers s t) \<noteq> None \<longleftrightarrow> t \<in> members L D)
     \<and> (\<forall>t. pprev (timers s t) = None \<longrightarrow> next (timers s t) = None)
     \<and> finite (members L D) \<and> tw_count s = of_nat (card (members L D))"

lemma linkedD:
  assumes "linked s L D"
  shows "chain (timers s) (head s l) l (L l)" "distinct (L l)" "l \<noteq> l' \<Longrightarrow> set (L l) \<inter> set (L l') = {}"
    "distinct D" "set D \<inter> set (L l) = {}" "detached (timers s) D"
    "pprev (timers s t) \<noteq> None \<longleftrightarrow> t \<in> members L D" "pprev (timers s t) = None \<Longrightarrow> next (timers s t) = None"
    "finite (members L D)" "tw_count s = of_nat (card (members L D))"
  using assms unfolding linked_def by auto

lemma linkedI:
  assumes "\<And>l. chain (timers s) (head s l) l (L l)" "\<And>l. distinct (L l)" "\<And>l l'. l \<noteq> l' \<Longrightarrow> set (L l) \<inter> set (L l') = {}"
    "distinct D" "\<And>l. set D \<inter> set (L l) = {}" "detached (timers s) D"
    "\<And>t. pprev (timers s t) \<noteq> None \<longleftrightarrow> t \<in> members L D" "\<And>t. pprev (timers s t) = None \<Longrightarrow> next (timers s t) = None"
    "finite (members L D)" "tw_count s = of_nat (card (members L D))"
  shows "linked s L D"
  unfolding linked_def using assms by blast

lemma in_members: "x \<in> set (L l) \<Longrightarrow> x \<in> members L D" "x \<in> set D \<Longrightarrow> x \<in> members L D"
  by (auto simp: members_def)

text \<open>The first timer of a list belongs to the list.\<close>

lemma head_in: "linked s L D \<Longrightarrow> head s l = Some x \<Longrightarrow> x \<in> set (L l)"
  using linkedD(1) [of s L D l] by (cases "L l") auto

lemma chain_other:
  assumes "chain m h l xs" "\<And>x. x \<in> set xs \<Longrightarrow> next (m' x) = next (m x) \<and> pprev (m' x) = pprev (m x)"
  shows "chain m' h l xs"
  using chain_cong [of xs m' m h l] assms by blast

lemma detached_other:
  assumes "detached m D" "\<And>x. x \<in> set D \<Longrightarrow> next (m' x) = next (m x) \<and> pprev (m' x) = pprev (m x)"
  shows "detached m' D"
  using assms chain_cong [of "tl D" m' m] by (cases D) auto

lemma list_insert_timers:
  "timers (list_insert b t s) = relink (tv s b) (Some (NextOf t))
     ((timers s)(t := (timers s t)\<lparr>pprev := Some (First b), next := tv s b\<rparr>))"
  by (auto simp: list_insert_def Let_def set_pprev_def set_next_def relink_def split: option.splits)

lemma list_insert_tv: "tv (list_insert b t s) = (tv s)(b := Some t)" "bucket (list_insert b t s) = bucket s"
  by (simp_all add: list_insert_def Let_def set_pprev_def set_next_def split: option.splits)

lemma list_insert_fields:
  "head (list_insert b t s) l = (if l = First b then Some t else head s l)" "clock (list_insert b t s) = clock s"
  "tw_count (list_insert b t s) = tw_count s + 1"
  by (cases l; simp add: list_insert_def Let_def set_pprev_def set_next_def split: option.splits)+

lemma linked_insert:
  assumes "linked s L D" "pprev (timers s t) = None"
  shows "linked (list_insert b t s) (L(First b := t # L (First b))) D"
proof (rule linkedI)
  let ?L = "L(First b := t # L (First b))" and ?s = "list_insert b t s"
  note inv = linkedD [OF assms(1)]
  have fresh: "t \<notin> members L D" using inv(7) [of t] assms(2) by simp
  then have t: "t \<notin> set D" "\<And>l. t \<notin> set (L l)" by (auto simp: members_def)
  have mem: "members ?L D = insert t (members L D)" by (auto simp: members_def split: if_splits)
  have hd: "tv s b \<noteq> Some t" using head_in [OF assms(1), of "First b"] t by auto
  have fields: "next (timers ?s x) = (if x = t then tv s b else next (timers s x))"
    "pprev (timers ?s x) = (if tv s b = Some x then Some (NextOf t) else if x = t then Some (First b) else pprev (timers s x))" for x
    by (auto simp: list_insert_timers)
  have first_in: "x \<in> set (L (First b))" if "tv s b = Some x" for x using head_in [OF assms(1), of "First b"] that by simp
  show "chain (timers ?s) (head ?s l) l (?L l)" for l
  proof (cases "l = First b")
    case True
    have "chain (timers ?s) (tv s b) (NextOf t) (L (First b))"
    proof (rule chain_relink)
      show "chain (timers s) (tv s b) (First b) (L (First b))" using inv(1) [of "First b"] by simp
      show "distinct (L (First b))" by (rule inv(2))
      fix x assume "x \<in> set (L (First b))"
      then have "x \<noteq> t" using t(2) by auto
      then show "next (timers ?s x) = next (timers s x) \<and>
          pprev (timers ?s x) = (if tv s b = Some x then Some (NextOf t) else pprev (timers s x))"
        by (simp add: fields)
    qed
    then show ?thesis using True hd by (simp add: list_insert_tv fields)
  next
    case False
    have "chain (timers ?s) (head s l) l (L l)"
    proof (rule chain_other [OF inv(1)])
      fix x assume "x \<in> set (L l)"
      then have "x \<noteq> t" "tv s b \<noteq> Some x" using t(2) inv(3) [OF False] first_in [of x] by auto
      then show "next (timers ?s x) = next (timers s x) \<and> pprev (timers ?s x) = pprev (timers s x)" by (simp add: fields)
    qed
    then show ?thesis using False by (simp add: list_insert_fields)
  qed
  show "detached (timers ?s) D"
  proof (rule detached_other [OF inv(6)])
    fix x assume "x \<in> set D"
    then have "x \<noteq> t" "tv s b \<noteq> Some x" using t(1) inv(5) [of "First b"] first_in [of x] by auto
    then show "next (timers ?s x) = next (timers s x) \<and> pprev (timers ?s x) = pprev (timers s x)" by (simp add: fields)
  qed
  show "pprev (timers ?s x) \<noteq> None \<longleftrightarrow> x \<in> members ?L D" for x
    using inv(7) [of x] first_in in_members(1) [of x L "First b" D] unfolding mem by (auto simp: fields)
  show "tw_count ?s = of_nat (card (members ?L D))" unfolding mem list_insert_fields inv(10) using inv(9) fresh by simp
  show "finite (members ?L D)" unfolding mem using inv(9) by simp
  show "next (timers ?s x) = None" if "pprev (timers ?s x) = None" for x using that inv(8) [of x] by (auto simp: fields split: if_splits)
  show "set (?L l) \<inter> set (?L l') = {}" if "l \<noteq> l'" for l l' using inv(3) [OF that] t(2) that by auto
  show "distinct (?L l)" "set D \<inter> set (?L l) = {}" for l using inv(2) [of l] inv(5) [of l] t by auto
qed (rule linkedD(4) [OF assms(1)])

text \<open>Stopping a timer takes it out of its list; a timer that is not started stays as it is.\<close>

lemma set_link_timers: "timers (set_link l v s) = (case l of NextOf u \<Rightarrow> (timers s)(u := (timers s u)\<lparr>next := v\<rparr>) | _ \<Rightarrow> timers s)"
  by (cases l) (simp_all add: set_next_def)

lemma set_link_fields:
  "clock (set_link l v s) = clock s" "tw_count (set_link l v s) = tw_count s"
  "head (set_link l v s) l' = (if l' = l \<and> (\<forall>u. l \<noteq> NextOf u) then v else head s l')"
  by (cases l; cases l'; simp add: set_next_def)+

lemma stop_not_started:
  assumes "linked s L D" "pprev (timers s t) = None"
  shows "twtimer_stop s t = (-1, s)"
proof -
  have "next (timers s t) = None" by (rule linkedD(8) [OF assms])
  moreover from this assms(2) have "(timers s)(t := (timers s t)\<lparr>pprev := None, next := None\<rparr>) = timers s" by auto
  ultimately show ?thesis using assms(2) by (simp add: twtimer_stop_def Let_def set_pprev_def set_next_def)
qed

lemma stop_started:
  fixes s t defines "m \<equiv> timers s"
  assumes "pprev (m t) = Some l" "next (m t) \<noteq> Some t" "l \<noteq> NextOf t"
  shows "fst (twtimer_stop s t) = 0" "clock (snd (twtimer_stop s t)) = clock s"
    "tw_count (snd (twtimer_stop s t)) = tw_count s - 1"
    "head (snd (twtimer_stop s t)) l' = (if l' = l \<and> (\<forall>u. l \<noteq> NextOf u) then next (m t) else head s l')"
    "next (timers (snd (twtimer_stop s t)) x) = (if x = t then None else if l = NextOf x then next (m t) else next (m x))"
    "pprev (timers (snd (twtimer_stop s t)) x) = (if x = t then None else if next (m t) = Some x then Some l else pprev (m x))"
    "expire (timers (snd (twtimer_stop s t)) x) = expire (m x)"
    "ontimeout (timers (snd (twtimer_stop s t)) x) = ontimeout (m x)"
  using assms(2-4) unfolding m_def
  by (cases l; cases l'; auto simp: twtimer_stop_def Let_def set_pprev_def set_next_def split: option.splits)+

lemma members_remove:
  assumes "linked s L D" "t \<in> set (L l)"
  shows "members (L(l := remove1 t (L l))) D = members L D - {t}"
proof (rule set_eqI)
  fix x
  have "t \<notin> set D" "\<And>l'. l' \<noteq> l \<Longrightarrow> t \<notin> set (L l')"
    using linkedD(3) [OF assms(1)] linkedD(5) [OF assms(1), of l] assms(2) by auto
  then show "x \<in> members (L(l := remove1 t (L l))) D \<longleftrightarrow> x \<in> members L D - {t}"
    using linkedD(2) [OF assms(1), of l] by (cases "x = t") (auto simp: members_def set_remove1_eq, metis)
qed

lemma linked_stop:
  assumes "linked s L []" "t \<in> set (L l)"
  shows "linked (snd (twtimer_stop s t)) (L(l := remove1 t (L l))) []" "fst (twtimer_stop s t) = 0"
proof -
  note inv = linkedD [OF assms(1)]
  obtain xs ys where L: "L l = xs @ t # ys" using assms(2) by (meson split_list)
  have d: "t \<notin> set xs" "t \<notin> set ys" "distinct (xs @ ys)" "distinct (xs @ t # ys)" using inv(2) [of l] L by auto
  have L': "remove1 t (L l) = xs @ ys" using L d(1) by (simp add: remove1_append)
  have ch: "chain (timers s) (head s l) l (xs @ t # ys)" using inv(1) [of l] L by simp
  let ?p = "if xs = [] then l else NextOf (last xs)"
  have p: "pprev (timers s t) = Some ?p" and tail: "chain (timers s) (next (timers s t)) (NextOf t) ys"
    using chain_split [OF ch] by blast+
  have nx: "next (timers s t) = Some x \<Longrightarrow> x \<in> set ys" for x using chain_head [OF tail] by (auto split: list.splits)
  have lh: "l \<noteq> NextOf u" for u using ch by (cases l; cases xs) auto
  have nt: "next (timers s t) \<noteq> Some t" using nx d(2) by blast
  have pt: "?p \<noteq> NextOf t" using lh d(1) last_in_set [of xs] by auto
  note stop = stop_started [OF p nt pt]
  show "fst (twtimer_stop s t) = 0" by (rule stop(1))
  let ?s = "snd (twtimer_stop s t)" and ?L = "L(l := remove1 t (L l))"
  have px: "?p = NextOf x \<longleftrightarrow> xs \<noteq> [] \<and> x = last xs" for x using lh by auto
  have same: "next (timers ?s x) = next (timers s x) \<and> pprev (timers ?s x) = pprev (timers s x)" if "x \<notin> set (L l)" for x
  proof -
    have "x \<noteq> t" "next (timers s t) \<noteq> Some x" "?p \<noteq> NextOf x" using that L nx [of x] px last_in_set [of xs] by auto
    then show ?thesis by (simp add: stop(5,6))
  qed
  have mem: "members ?L [] = members L [] - {t}" by (rule members_remove [OF assms])
  show "linked ?s ?L []"
  proof (rule linkedI)
    show "chain (timers ?s) (head ?s l') l' (?L l')" for l'
    proof (cases "l' = l")
      case True
      have "chain (timers ?s) (if xs = [] then next (timers s t) else head s l) l (xs @ ys)"
      proof (rule chain_unlink [OF ch d(4)])
        fix x assume "x \<in> set (xs @ ys)"
        then have "x \<noteq> t" using d by auto
        then show "next (timers ?s x) = (if xs \<noteq> [] \<and> x = last xs then next (timers s t) else next (timers s x))"
          "pprev (timers ?s x) = (if next (timers s t) = Some x then pprev (timers s t) else pprev (timers s x))"
          by (simp_all only: stop(5,6) px p if_False)
      qed
      then show ?thesis using True L' lh by (cases "xs = []") (simp_all add: stop(4))
    next
      case False
      have "head ?s l' = head s l'" using False by (auto simp: stop(4))
      moreover have "chain (timers ?s) (head s l') l' (L l')"
        using inv(3) [OF False] by (intro chain_other [OF inv(1)] same) auto
      ultimately show ?thesis using False by simp
    qed
    show "distinct (?L l')" for l' using inv(2) by simp
    show "set (?L l1) \<inter> set (?L l2) = {}" if "l1 \<noteq> l2" for l1 l2
      using inv(3) [OF that] set_remove1_subset [of t "L l"] by (auto simp: that)
    show "pprev (timers ?s x) \<noteq> None \<longleftrightarrow> x \<in> members ?L []" for x
      using inv(7) [of x] nx [of x] in_members(1) [of x L l "[]"] L unfolding mem by (auto simp: stop(6))
    show "next (timers ?s x) = None" if "pprev (timers ?s x) = None" for x
    proof (cases "x = t")
      case False
      then have "pprev (timers s x) = None" using that by (auto simp: stop(6) split: if_splits)
      then have "x \<notin> set (L l)" using inv(7) [of x] in_members(1) [of x L l "[]"] by auto
      then show ?thesis using same inv(8) [OF \<open>pprev (timers s x) = None\<close>] by simp
    qed (simp add: stop(5))
    show "tw_count ?s = of_nat (card (members ?L []))"
      using in_members(1) [of t L l "[]"] assms(2) inv(9) card_gt_0_iff [of "members L []"] unfolding mem stop(3) inv(10)
      by (auto simp: card_Diff_singleton of_nat_diff Suc_le_eq)
    show "finite (members ?L [])" unfolding mem using inv(9) by simp
  qed simp_all
qed

text \<open>Taking the whole list of a bucket out of the wheel, and going through it.\<close>

lemma linked_detach:
  assumes "linked s L []" "\<And>u. l \<noteq> NextOf u"
  shows "linked (set_link l None s) (L(l := [])) (L l)"
proof (rule linkedI)
  note inv = linkedD [OF assms(1)]
  let ?s = "set_link l None s" and ?L = "L(l := [])"
  have mem: "members ?L (L l) = members L []" by (auto simp: members_def split: if_splits)
  have tm: "timers ?s = timers s" using assms(2) by (cases l) auto
  show "chain (timers ?s) (head ?s l') l' (?L l')" for l' using inv(1) [of l'] assms(2) by (simp add: tm set_link_fields)
  show "set (?L l1) \<inter> set (?L l2) = {}" if "l1 \<noteq> l2" for l1 l2 using inv(3) [OF that] by simp
  show "set (L l) \<inter> set (?L l') = {}" for l' using inv(3) [of l' l] by auto
  show "detached (timers ?s) (L l)" using inv(1) [of l] by (cases "L l") (auto simp: tm)
  show "pprev (timers ?s t) \<noteq> None \<longleftrightarrow> t \<in> members ?L (L l)" for t using inv(7) [of t] by (simp add: mem tm)
  show "next (timers ?s t) = None" if "pprev (timers ?s t) = None" for t using inv(8) [of t] that by (simp add: tm)
  show "finite (members ?L (L l))" "tw_count ?s = of_nat (card (members ?L (L l)))"
    using inv(9,10) by (simp_all add: mem set_link_fields)
  show "distinct (?L l')" "distinct (L l)" for l' using inv(2) by simp_all
qed

definition drop_timer :: "nat \<Rightarrow> time_wheel \<Rightarrow> time_wheel" where
  "drop_timer t s = (let s = s\<lparr>tw_count := tw_count s - 1\<rparr>; s = set_next t None s in set_pprev t None s)"

lemma drop_timer_fields:
  "head (drop_timer t s) l = head s l" "clock (drop_timer t s) = clock s" "tw_count (drop_timer t s) = tw_count s - 1"
  "next (timers (drop_timer t s) x) = (if x = t then None else next (timers s x))"
  "pprev (timers (drop_timer t s) x) = (if x = t then None else pprev (timers s x))"
  "expire (timers (drop_timer t s) x) = expire (timers s x)" "ontimeout (timers (drop_timer t s) x) = ontimeout (timers s x)"
  by (cases l; simp add: drop_timer_def Let_def set_next_def set_pprev_def)+

lemma members_drop:
  assumes "linked s L (t # D)"
  shows "members L D = members L (t # D) - {t}" "t \<notin> members L D"
  using linkedD(4,5) [OF assms] by (auto simp: members_def)

lemma linked_drop:
  assumes "linked s L (t # D)"
  shows "linked (drop_timer t s) L D"
proof (rule linkedI)
  note inv = linkedD [OF assms]
  let ?s = "drop_timer t s"
  have t: "t \<notin> set (L l)" "t \<notin> set D" for l using inv(4) inv(5) [of l] by auto
  have ch: "chain (timers s) (next (timers s t)) (NextOf t) D" using inv(6) by simp
  show "chain (timers ?s) (head ?s l) l (L l)" for l
    using t by (auto intro!: chain_other [OF inv(1)] simp: drop_timer_fields)
  have "detached (timers s) D" using ch by (cases D) auto
  then show "detached (timers ?s) D" using t by (auto elim!: detached_other simp: drop_timer_fields)
  show "pprev (timers ?s x) \<noteq> None \<longleftrightarrow> x \<in> members L D" for x
    using inv(7) [of x] unfolding members_drop(1) [OF assms] by (auto simp: drop_timer_fields)
  show "next (timers ?s x) = None" if "pprev (timers ?s x) = None" for x
    using that inv(8) [of x] by (auto simp: drop_timer_fields split: if_splits)
  show "finite (members L D)" unfolding members_drop(1) [OF assms] using inv(9) by simp
  have "0 < card (members L (t # D))" using inv(9) in_members(2) [of t "t # D" L] by (auto simp: card_gt_0_iff)
  then show "tw_count ?s = of_nat (card (members L D))"
    unfolding members_drop(1) [OF assms] drop_timer_fields inv(10)
    using in_members(2) [of t "t # D" L] by (simp add: card_Diff_singleton of_nat_diff Suc_le_eq)
qed (use linkedD [OF assms] in auto)

end
