(* ===== verification/Time_Wheel_Cascade.thy ===== *)
theory Time_Wheel_Cascade
  imports Time_Wheel
begin

text \<open>
  Where the timers of the wheel are, by their times: the bucket that \<open>twtimer_add\<close> chooses is one that the
  clock reaches before the timer is due, and cascading moves the timers of the buckets that the clock has
  reached into buckets further down, so that none is overtaken.
\<close>

section \<open>Buckets and times\<close>

text \<open>The ticks that one bucket of the arrays \<open>tv2\<close> to \<open>tv5\<close> covers.\<close>

definition span :: "nat \<Rightarrow> nat" where
  "span k = 2 ^ (8 + (k - 2) * 6)"

lemma span_pos [simp]: "0 < span k"
  by (simp add: span_def)

lemma TVR_INDEX_eq: "TVR_INDEX c = unat c mod 256"
proof -
  have "TVR_INDEX c = unat (take_bit 8 c)" by (simp add: TVR_INDEX_def take_bit_eq_mask mask_eq_decr_exp)
  then show ?thesis by (simp only: unsigned_take_bit_eq) (simp add: take_bit_eq_mod)
qed

lemma TVN_INDEX_eq: "TVN_INDEX c n = unat c div 2 ^ (8 + n * 6) mod 64"
proof -
  have "TVN_INDEX c n = unat (take_bit 6 (shr c (8 + n * 6)))" by (simp add: TVN_INDEX_def take_bit_eq_mask mask_eq_decr_exp)
  then show ?thesis by (simp only: unsigned_take_bit_eq unat_shr) (simp add: take_bit_eq_mod)
qed

text \<open>Where a timer may be at clock \<open>c\<close>: in a bucket of \<open>tv1\<close>, in that of its time or, when it was started
  too late, in the current one; or in a bucket further up that is not due before the clock, and that the
  clock reaches before the timer is due.\<close>

definition placed :: "nat \<Rightarrow> nat \<Rightarrow> nat \<times> nat \<Rightarrow> bool" where
  "placed c e = (\<lambda>(k, i).
     k = 1 \<and> (c \<le> e \<and> e < c + 256 \<and> i = e mod 256 \<or> e < c \<and> i = c mod 256)
     \<or> 2 \<le> k \<and> k \<le> 5 \<and> i = e div span k mod 64 \<and> c \<le> span k * (e div span k) \<and> e < c + 2 ^ 32)"

text \<open>The bucket is not the one the clock has just reached.\<close>

definition ahead :: "nat \<Rightarrow> nat \<Rightarrow> nat \<Rightarrow> bool" where
  "ahead c e k \<longleftrightarrow> (2 \<le> k \<longrightarrow> c < span k * (e div span k))"

lemma span_ahead: "span k \<le> e - c \<Longrightarrow> c < span k * (e div span k)"
proof -
  assume "span k \<le> e - c"
  moreover have "span k * (e div span k) + e mod span k = e" "e mod span k < span k" by simp_all
  ultimately show ?thesis by linarith
qed

lemma twtimer_bucket_nat:
  assumes "c \<le> e"
  shows "twtimer_bucket c e =
    (let d = unat e - unat c
     in if d < 2 ^ 8 then Some (1, unat e mod 256)
        else if d < 2 ^ 14 then Some (2, unat e div span 2 mod 64)
        else if d < 2 ^ 20 then Some (3, unat e div span 3 mod 64)
        else if d < 2 ^ 26 then Some (4, unat e div span 4 mod 64)
        else if d < 2 ^ 32 then Some (5, unat e div span 5 mod 64) else None)"
proof -
  have "unat (e - c) = unat e - unat c" using assms by (simp add: unat_sub)
  then have d: "e - c < numeral w \<longleftrightarrow> unat e - unat c < unat (numeral w :: u64)" for w
    by (simp only: word_less_nat_alt)
  show ?thesis
    using assms unfolding twtimer_bucket_def Let_def by (simp add: d TVR_INDEX_eq TVN_INDEX_eq span_def)
qed

lemma twtimer_bucket_placed:
  assumes "twtimer_bucket c e = Some b"
  shows "placed (unat c) (unat e) b \<and> ahead (unat c) (unat e) (fst b)"
proof (cases "e < c")
  case True
  then show ?thesis using assms by (auto simp: twtimer_bucket_def Let_def placed_def ahead_def TVR_INDEX_eq word_less_nat_alt)
next
  case False
  then have le: "c \<le> e" "unat c \<le> unat e" by (simp, simp add: word_less_nat_alt)
  have up: "placed (unat c) (unat e) (k, unat e div span k mod 64) \<and> ahead (unat c) (unat e) k"
    if "span k \<le> unat e - unat c" "unat e - unat c < 2 ^ 32" "2 \<le> k" "k \<le> 5" for k
    using span_ahead [OF that(1)] that le by (auto simp: placed_def ahead_def)
  have spans: "span 2 = 2 ^ 8" "span 3 = 2 ^ 14" "span 4 = 2 ^ 20" "span 5 = 2 ^ 26" by (simp_all add: span_def)
  let ?d = "unat e - unat c"
  have eq: "twtimer_bucket c e =
    (if ?d < 2 ^ 8 then Some (1, unat e mod 256)
     else if ?d < 2 ^ 14 then Some (2, unat e div span 2 mod 64)
     else if ?d < 2 ^ 20 then Some (3, unat e div span 3 mod 64)
     else if ?d < 2 ^ 26 then Some (4, unat e div span 4 mod 64)
     else if ?d < 2 ^ 32 then Some (5, unat e div span 5 mod 64) else None)"
    using twtimer_bucket_nat [OF le(1)] by (simp only: Let_def)
  consider (1) "?d < 2 ^ 8" | (2) "span 2 \<le> ?d" "?d < 2 ^ 14" | (3) "span 3 \<le> ?d" "?d < 2 ^ 20"
    | (4) "span 4 \<le> ?d" "?d < 2 ^ 26" | (5) "span 5 \<le> ?d" "?d < 2 ^ 32" | (6) "2 ^ 32 \<le> ?d"
    unfolding spans by linarith
  then show ?thesis
  proof cases
    case 1
    then have "b = (1, unat e mod 256)" using eq assms by simp
    then show ?thesis using 1 le by (auto simp: placed_def ahead_def)
  next
    case 2
    then have "b = (2, unat e div span 2 mod 64)" using eq assms by (simp add: spans)
    then show ?thesis using up [OF 2(1)] 2(2) by simp
  next
    case 3
    then have "b = (3, unat e div span 3 mod 64)" using eq assms by (simp add: spans)
    then show ?thesis using up [OF 3(1)] 3(2) by simp
  next
    case 4
    then have "b = (4, unat e div span 4 mod 64)" using eq assms by (simp add: spans)
    then show ?thesis using up [OF 4(1)] 4(2) by simp
  next
    case 5
    then have "b = (5, unat e div span 5 mod 64)" using eq assms by (simp add: spans)
    then show ?thesis using up [OF 5(1)] 5(2) by simp
  next
    case 6
    then show ?thesis using eq assms by simp
  qed
qed

lemma twtimer_bucket_Some:
  assumes "unat e < unat c + 2 ^ 32"
  shows "\<exists>b. twtimer_bucket c e = Some b"
proof (cases "e < c")
  case False
  then have "c \<le> e" by simp
  then have "unat (e - c) < 2 ^ 32" using assms unat_sub [of c e] by (simp add: word_le_nat_alt)
  then show ?thesis by (auto simp: twtimer_bucket_def Let_def word_less_nat_alt)
qed (simp add: twtimer_bucket_def Let_def)

section \<open>Cascading\<close>

definition same_timers :: "time_wheel \<Rightarrow> time_wheel \<Rightarrow> bool" where
  "same_timers s s' \<longleftrightarrow> clock s' = clock s \<and>
     (\<forall>t. expire (timers s' t) = expire (timers s t) \<and> ontimeout (timers s' t) = ontimeout (timers s t))"

lemma same_timersD: "same_timers s s' \<Longrightarrow> clock s' = clock s" "same_timers s s' \<Longrightarrow> expire (timers s' t) = expire (timers s t)"
    "same_timers s s' \<Longrightarrow> ontimeout (timers s' t) = ontimeout (timers s t)"
  by (simp_all add: same_timers_def)

lemma same_timers_trans: "same_timers s s' \<Longrightarrow> same_timers s' s'' \<Longrightarrow> same_timers s s''"
  by (simp add: same_timers_def)

lemma same_timers_refl [simp]: "same_timers s s"
  by (simp add: same_timers_def)

lemma same_timers_ops: "same_timers s (drop_timer t s)" "same_timers s (list_insert b t s)" "same_timers s (set_link l v s)"
  by (auto simp: same_timers_def drop_timer_fields list_insert_fields list_insert_timers set_link_fields set_link_timers split: link.splits)

lemma cascade_loop_step:
  "cascade_loop (Some t) s = Option.bind (twtimer_add (drop_timer t s) t) (\<lambda>(_, s'). cascade_loop (next (timers s t)) s')"
  by (subst cascade_loop.simps) (simp add: drop_timer_def Let_def set_next_def set_pprev_def)

lemma detached_next: "linked s L (t # D) \<Longrightarrow> next (timers s t) = (case D of [] \<Rightarrow> None | x # _ \<Rightarrow> Some x)"
  using linkedD(6) [of s L "t # D"] chain_head by fastforce

lemma cascade_loop_correct:
  assumes "linked s L D" "\<And>t. t \<in> set D \<Longrightarrow> ontimeout (timers s t) \<and> unat (expire (timers s t)) < unat (clock s) + 2 ^ 32"
  shows "\<exists>s' L'. cascade_loop (case D of [] \<Rightarrow> None | x # _ \<Rightarrow> Some x) s = Some s' \<and> linked s' L' [] \<and> same_timers s s' \<and> L' Local = L Local
    \<and> (\<forall>b t. t \<in> set (L' (First b)) \<longleftrightarrow>
         t \<in> set (L (First b)) \<or> t \<in> set D \<and> twtimer_bucket (clock s) (expire (timers s t)) = Some b)"
  using assms
proof (induction D arbitrary: s L)
  case Nil
  then show ?case by (intro exI [of _ s] exI [of _ L]) (simp add: cascade_loop.simps [of None])
next
  case (Cons t D)
  let ?s1 = "drop_timer t s"
  have t: "ontimeout (timers ?s1 t)" "pprev (timers ?s1 t) = None" "unat (expire (timers s t)) < unat (clock s) + 2 ^ 32"
    using Cons.prems(2) [of t] by (simp_all add: drop_timer_fields)
  obtain b where b: "twtimer_bucket (clock s) (expire (timers s t)) = Some b" using twtimer_bucket_Some [OF t(3)] by auto
  let ?s2 = "list_insert b t ?s1" and ?L2 = "L(First b := t # L (First b))"
  have add: "twtimer_add ?s1 t = Some (0, ?s2)" using t b by (simp add: twtimer_add_def drop_timer_fields)
  have lk: "linked ?s2 ?L2 D" by (rule linked_insert [OF linked_drop [OF Cons.prems(1)] t(2)])
  have same: "same_timers s ?s2" using same_timers_ops same_timers_trans by blast
  obtain s' L' where IH: "cascade_loop (case D of [] \<Rightarrow> None | x # _ \<Rightarrow> Some x) ?s2 = Some s'" "linked s' L' []"
      "same_timers ?s2 s'" "L' Local = ?L2 Local"
      "\<forall>b' x. x \<in> set (L' (First b')) \<longleftrightarrow>
         x \<in> set (?L2 (First b')) \<or> x \<in> set D \<and> twtimer_bucket (clock ?s2) (expire (timers ?s2 x)) = Some b'"
    using Cons.IH [OF lk] Cons.prems(2) same_timersD [OF same] by auto
  have "cascade_loop (Some t) s = Some s'" using IH(1) by (simp add: cascade_loop_step add detached_next [OF Cons.prems(1)])
  moreover have "same_timers s s'" using same IH(3) same_timers_trans by blast
  ultimately show ?case using IH(2,4,5) b same_timersD [OF same]
    by (intro exI [of _ s'] exI [of _ L']) auto
qed

lemma twtimer_cascade_correct:
  assumes "linked s L []" "\<And>t. t \<in> set (L (First (k, i))) \<Longrightarrow> ontimeout (timers s t) \<and> unat (expire (timers s t)) < unat (clock s) + 2 ^ 32"
  shows "\<exists>s' L'. twtimer_cascade s k i = Some (i, s') \<and> linked s' L' [] \<and> same_timers s s' \<and> L' Local = L Local
    \<and> (\<forall>b t. t \<in> set (L' (First b)) \<longleftrightarrow>
         b \<noteq> (k, i) \<and> t \<in> set (L (First b)) \<or> t \<in> set (L (First (k, i))) \<and> twtimer_bucket (clock s) (expire (timers s t)) = Some b)"
proof -
  let ?s = "set_link (First (k, i)) None s" and ?D = "L (First (k, i))"
  have lk: "linked ?s (L(First (k, i) := [])) ?D" by (rule linked_detach [OF assms(1)]) simp
  have hd: "tv s (k, i) = (case ?D of [] \<Rightarrow> None | x # _ \<Rightarrow> Some x)"
    using chain_head [OF linkedD(1) [OF assms(1), of "First (k, i)"]] by simp
  obtain s' L' where c: "cascade_loop (tv s (k, i)) ?s = Some s'" "linked s' L' []" "same_timers ?s s'" "L' Local = L Local"
      "\<forall>b t. t \<in> set (L' (First b)) \<longleftrightarrow>
         t \<in> set ((L(First (k, i) := [])) (First b)) \<or> t \<in> set ?D \<and> twtimer_bucket (clock ?s) (expire (timers ?s t)) = Some b"
    using cascade_loop_correct [OF lk] assms(2) unfolding hd by auto
  have "same_timers s s'" using c(3) same_timers_ops same_timers_trans by blast
  then show ?thesis using c by (intro exI [of _ s'] exI [of _ L']) (auto simp: twtimer_cascade_def)
qed

text \<open>The timers of the wheel, each where it belongs at the current clock.\<close>

definition waiting :: "(link \<Rightarrow> nat list) \<Rightarrow> nat set" where
  "waiting L = (\<Union>b. set (L (First b)))"

definition timed :: "time_wheel \<Rightarrow> (link \<Rightarrow> nat list) \<Rightarrow> bool" where
  "timed s L \<longleftrightarrow> (\<forall>b. \<forall>t \<in> set (L (First b)).
     ontimeout (timers s t) \<and> placed (unat (clock s)) (unat (expire (timers s t))) b)"

definition ahead_to :: "nat \<Rightarrow> time_wheel \<Rightarrow> (link \<Rightarrow> nat list) \<Rightarrow> bool" where
  "ahead_to j s L \<longleftrightarrow> (\<forall>k \<le> j. \<forall>i. \<forall>t \<in> set (L (First (k, i))). ahead (unat (clock s)) (unat (expire (timers s t))) k)"

lemma not_ahead:
  assumes "placed c e (k, i)" "\<not> ahead c e k"
  shows "i = c div span k mod 64" "span k dvd c"
proof -
  have "c = span k * (e div span k)" "i = e div span k mod 64" using assms by (auto simp: placed_def ahead_def)
  then have "c div span k = e div span k" by (metis nonzero_mult_div_cancel_left span_pos less_irrefl)
  then show "i = c div span k mod 64" using \<open>i = _\<close> by simp
  show "span k dvd c" using \<open>c = _\<close> by (metis dvd_triv_left)
qed

lemma placed_soon: "placed c e b \<Longrightarrow> e < c + 2 ^ 32"
  by (auto simp: placed_def)

lemma cascade_level:
  assumes "linked s L []" "timed s L" "ahead_to (k - 1) s L" "2 \<le> k"
  shows "\<exists>s' L'. twtimer_cascade s k (TVN_INDEX (clock s) (k - 2)) = Some (TVN_INDEX (clock s) (k - 2), s')
    \<and> linked s' L' [] \<and> same_timers s s' \<and> L' Local = L Local \<and> timed s' L' \<and> ahead_to k s' L' \<and> waiting L' = waiting L"
proof -
  let ?i = "TVN_INDEX (clock s) (k - 2)"
  have soon: "ontimeout (timers s t) \<and> unat (expire (timers s t)) < unat (clock s) + 2 ^ 32" if "t \<in> set (L (First b))" for t b
    using assms(2) that placed_soon unfolding timed_def by blast
  obtain s' L' where c: "twtimer_cascade s k ?i = Some (?i, s')" "linked s' L' []" "same_timers s s'" "L' Local = L Local"
      "\<forall>b t. t \<in> set (L' (First b)) \<longleftrightarrow>
         b \<noteq> (k, ?i) \<and> t \<in> set (L (First b)) \<or> t \<in> set (L (First (k, ?i))) \<and> twtimer_bucket (clock s) (expire (timers s t)) = Some b"
    using twtimer_cascade_correct [OF assms(1), of k ?i] soon [where b = "(k, ?i)"] by blast
  note same = same_timersD [OF c(3)]
  have "timed s' L'" unfolding timed_def same
  proof (intro allI ballI)
    fix b t assume "t \<in> set (L' (First b))"
    then consider "t \<in> set (L (First b))"
      | "t \<in> set (L (First (k, ?i)))" "twtimer_bucket (clock s) (expire (timers s t)) = Some b" using c(5) by blast
    then show "ontimeout (timers s t) \<and> placed (unat (clock s)) (unat (expire (timers s t))) b"
    proof cases
      case 1
      then show ?thesis using assms(2) unfolding timed_def by blast
    next
      case 2
      then show ?thesis using soon twtimer_bucket_placed by simp
    qed
  qed
  moreover have "ahead_to k s' L'" unfolding ahead_to_def same
  proof (intro allI impI ballI)
    fix k' i t assume k': "k' \<le> k" and t: "t \<in> set (L' (First (k', i)))"
    show "ahead (unat (clock s)) (unat (expire (timers s t))) k'"
    proof (rule ccontr)
      assume no: "\<not> ?thesis"
      then have "twtimer_bucket (clock s) (expire (timers s t)) \<noteq> Some (k', i)" using twtimer_bucket_placed by fastforce
      then have old: "(k', i) \<noteq> (k, ?i)" "t \<in> set (L (First (k', i)))" using c(5) t by auto
      have "k' = k" using no old(2) k' assms(3) unfolding ahead_to_def by (cases "k' = k") auto
      moreover have "placed (unat (clock s)) (unat (expire (timers s t))) (k', i)" using assms(2) old(2) unfolding timed_def by blast
      ultimately have "i = ?i" using not_ahead(1) no by (simp add: TVN_INDEX_eq span_def)
      then show False using old(1) \<open>k' = k\<close> by simp
    qed
  qed
  moreover have "waiting L' = waiting L"
  proof (rule set_eqI)
    fix t
    show "t \<in> waiting L' \<longleftrightarrow> t \<in> waiting L"
    proof
      assume "t \<in> waiting L"
      then obtain b where b: "t \<in> set (L (First b))" by (auto simp: waiting_def)
      obtain b' where "twtimer_bucket (clock s) (expire (timers s t)) = Some b'"
        using twtimer_bucket_Some soon [OF b] by blast
      then have "\<exists>b''. t \<in> set (L' (First b''))" using c(5) b by (cases "b = (k, ?i)") blast+
      then show "t \<in> waiting L'" by (auto simp: waiting_def)
    qed (use c(5) in \<open>auto simp: waiting_def\<close>)
  qed
  ultimately show ?thesis using c by blast
qed

text \<open>Where the clock is not at the start of a bucket, no bucket of that size or above is due.\<close>

lemma ahead_to_higher:
  assumes "timed s L" "ahead_to j s L" "\<And>k. j < k \<Longrightarrow> \<not> span k dvd unat (clock s)"
  shows "ahead_to n s L"
  unfolding ahead_to_def
proof (intro allI impI ballI)
  fix k i t assume t: "t \<in> set (L (First (k, i)))"
  then have "placed (unat (clock s)) (unat (expire (timers s t))) (k, i)" using assms(1) unfolding timed_def by blast
  then show "ahead (unat (clock s)) (unat (expire (timers s t))) k"
    using assms(2,3) t not_ahead(2) unfolding ahead_to_def by (metis not_le)
qed

lemma span_dvd: "2 \<le> j \<Longrightarrow> j < k \<Longrightarrow> span j * 64 dvd span k"
proof -
  assume "2 \<le> j" "j < k"
  then have "(k - 2) * 6 = (j - 2) * 6 + 6 + (k - j - 1) * 6" by (simp add: algebra_simps)
  then have "span k = span j * 64 * 2 ^ ((k - j - 1) * 6)" by (simp add: span_def power_add)
  then show ?thesis by simp
qed

lemma index_not_zero:
  assumes "2 \<le> j" "TVN_INDEX c (j - 2) \<noteq> 0" "j < k"
  shows "\<not> span k dvd unat c"
proof
  assume "span k dvd unat c"
  then have "span j * 64 dvd unat c" using span_dvd [OF assms(1,3)] dvd_trans by blast
  then obtain q where "unat c = span j * (64 * q)" unfolding dvd_def mult.assoc by blast
  then have "unat c div span j = 64 * q" by (metis nonzero_mult_div_cancel_left span_pos less_irrefl)
  then show False using assms(2) by (simp add: TVN_INDEX_eq span_def)
qed

lemma TVR_not_zero: "TVR_INDEX c \<noteq> 0 \<Longrightarrow> \<not> span k dvd unat c"
proof
  assume "span k dvd unat c"
  moreover have "256 dvd span k" unfolding span_def power_add by simp
  ultimately have "256 dvd unat c" using dvd_trans by blast
  then show "TVR_INDEX c \<noteq> 0 \<Longrightarrow> False" by (simp add: TVR_INDEX_eq mod_eq_0_iff_dvd)
qed

lemma cascade_all_correct:
  assumes "linked s L []" "timed s L"
  shows "\<exists>s' L'. cascade_all s = Some s' \<and> linked s' L' [] \<and> same_timers s s' \<and> L' Local = L Local
    \<and> timed s' L' \<and> ahead_to 5 s' L' \<and> waiting L' = waiting L"
proof (cases "TVR_INDEX (clock s) = 0")
  case False
  have "ahead_to 0 s L" by (simp add: ahead_to_def ahead_def)
  then have "ahead_to 5 s L" using ahead_to_higher [OF assms(2)] TVR_not_zero [OF False] by blast
  then show ?thesis using False assms by (auto simp: cascade_all_def)
next
  case True
  have "ahead_to 1 s L" by (simp add: ahead_to_def ahead_def)
  then obtain s2 L2 where c2: "twtimer_cascade s 2 (TVN_INDEX (clock s) 0) = Some (TVN_INDEX (clock s) 0, s2)"
      "linked s2 L2 []" "same_timers s s2" "L2 Local = L Local" "timed s2 L2" "ahead_to 2 s2 L2" "waiting L2 = waiting L"
    using cascade_level [OF assms, of 2] by auto
  obtain s3 L3 where c3: "twtimer_cascade s2 3 (TVN_INDEX (clock s2) 1) = Some (TVN_INDEX (clock s2) 1, s3)"
      "linked s3 L3 []" "same_timers s2 s3" "L3 Local = L2 Local" "timed s3 L3" "ahead_to 3 s3 L3" "waiting L3 = waiting L2"
    using cascade_level [OF c2(2,5), of 3] c2(6) by auto
  obtain s4 L4 where c4: "twtimer_cascade s3 4 (TVN_INDEX (clock s3) 2) = Some (TVN_INDEX (clock s3) 2, s4)"
      "linked s4 L4 []" "same_timers s3 s4" "L4 Local = L3 Local" "timed s4 L4" "ahead_to 4 s4 L4" "waiting L4 = waiting L3"
    using cascade_level [OF c3(2,5), of 4] c3(6) by auto
  obtain s5 L5 where c5: "twtimer_cascade s4 5 (TVN_INDEX (clock s4) 3) = Some (TVN_INDEX (clock s4) 3, s5)"
      "linked s5 L5 []" "same_timers s4 s5" "L5 Local = L4 Local" "timed s5 L5" "ahead_to 5 s5 L5" "waiting L5 = waiting L4"
    using cascade_level [OF c4(2,5), of 5] c4(6) by auto
  note clk = same_timersD(1) [OF c2(3)] same_timersD(1) [OF c3(3)] same_timersD(1) [OF c4(3)]
  have same: "same_timers s s2" "same_timers s s3" "same_timers s s4" "same_timers s s5"
    using c2(3) c3(3) c4(3) c5(3) same_timers_trans by blast+
  show ?thesis
  proof (cases "TVN_INDEX (clock s) 0 = 0")
    case False
    then have "ahead_to 5 s2 L2" using ahead_to_higher [OF c2(5,6)] index_not_zero [of 2 "clock s"] clk by auto
    then show ?thesis using c2 True False by (auto simp: cascade_all_def)
  next
    case 0: True
    show ?thesis
    proof (cases "TVN_INDEX (clock s) 1 = 0")
      case False
      then have "ahead_to 5 s3 L3" using ahead_to_higher [OF c3(5,6)] index_not_zero [of 3 "clock s"] clk by auto
      then show ?thesis using c2 c3 True 0 False same clk by (auto simp: cascade_all_def)
    next
      case 1: True
      show ?thesis
      proof (cases "TVN_INDEX (clock s) 2 = 0")
        case False
        then have "ahead_to 5 s4 L4" using ahead_to_higher [OF c4(5,6)] index_not_zero [of 4 "clock s"] clk by auto
        then show ?thesis using c2 c3 c4 True 0 1 False same clk by (auto simp: cascade_all_def)
      next
        case 2: True
        then show ?thesis using c2 c3 c4 c5 True 0 1 same clk by (auto simp: cascade_all_def)
      qed
    qed
  qed
qed

end
