(* ===== verification/Time_Wheel_Run.thy ===== *)
theory Time_Wheel_Run
  imports Time_Wheel_Cascade
begin

text \<open>
  Running the wheel: the firing of the timers of a tick while their callbacks start and stop others, the loop
  over the ticks, and the wheel as the set of started timers.
\<close>

section \<open>Firing\<close>

lemma bucket_pop_fields:
  assumes "next (timers s t) \<noteq> Some t"
  shows "tv (bucket_pop t s) = tv s" "bucket (bucket_pop t s) = next (timers s t)" "clock (bucket_pop t s) = clock s"
    "tw_count (bucket_pop t s) = tw_count s - 1"
    "next (timers (bucket_pop t s) x) = (if x = t then None else next (timers s x))"
    "pprev (timers (bucket_pop t s) x) =
       (if x = t then None else if next (timers s t) = Some x then Some Local else pprev (timers s x))"
    "expire (timers (bucket_pop t s) x) = expire (timers s x)" "ontimeout (timers (bucket_pop t s) x) = ontimeout (timers s x)"
  using assms by (auto simp: bucket_pop_def Let_def set_pprev_def set_next_def split: option.splits)

text \<open>The timers being fired are the list \<open>D\<close>, taken out of the wheel and linked from \<open>bucket\<close>; only the back
  pointer of the first is not set.\<close>

definition firing :: "time_wheel \<Rightarrow> (link \<Rightarrow> nat list) \<Rightarrow> nat list \<Rightarrow> bool" where
  "firing s L D \<longleftrightarrow> linked (set_link Local None s) L D \<and> L Local = [] \<and> bucket s = (case D of [] \<Rightarrow> None | x # _ \<Rightarrow> Some x)"

lemma firing_Local: "linked s L [] \<Longrightarrow> firing s (L(Local := [])) (L Local)"
  using linked_detach [of s L Local] chain_head [OF linkedD(1) [of s L "[]" Local]] by (simp add: firing_def)

lemma union_update:
  assumes "L l0 = []"
  shows "(\<Union>l. set ((L(l0 := xs)) l)) = set xs \<union> (\<Union>l. set (L l))"
proof (intro equalityI subsetI)
  fix x assume "x \<in> set xs \<union> (\<Union>l. set (L l))"
  then consider "x \<in> set xs" | l where "x \<in> set (L l)" "l \<noteq> l0" using assms by fastforce
  then show "x \<in> (\<Union>l. set ((L(l0 := xs)) l))"
  proof cases
    case 1
    then show ?thesis by (intro UN_I [of l0]) auto
  next
    case (2 l)
    then show ?thesis by (intro UN_I [of l]) auto
  qed
qed (auto split: if_splits)

lemma linked_pop:
  assumes "firing s L (t # ts)"
  shows "linked (bucket_pop t s) (L(Local := ts)) []" "next (timers s t) \<noteq> Some t"
proof -
  let ?base = "set_link Local None s"
  have lk: "linked ?base L (t # ts)" and loc: "L Local = []" using assms by (auto simp: firing_def)
  note inv = linkedD [OF lk]
  have tm: "timers ?base = timers s" by simp
  have t: "t \<notin> set (L l)" "t \<notin> set ts" for l using inv(4) inv(5) [of l] by auto
  have ch: "chain (timers s) (next (timers s t)) (NextOf t) ts" using inv(6) by simp
  have nx: "next (timers s t) = Some x \<Longrightarrow> x \<in> set ts" for x using chain_head [OF ch] by (auto split: list.splits)
  show nt: "next (timers s t) \<noteq> Some t" using nx t(2) by blast
  note pop = bucket_pop_fields [OF nt]
  let ?s = "bucket_pop t s" and ?L = "L(Local := ts)"
  have mem: "members ?L [] = members L (t # ts) - {t}" using t unfolding members_def union_update [of L Local ts, OF loc] by auto
  show "linked ?s ?L []"
  proof (rule linkedI)
    show "chain (timers ?s) (head ?s l) l (?L l)" for l
    proof (cases "l = Local")
      case True
      have "chain (timers ?s) (next (timers s t)) Local ts"
      proof (rule chain_relink [OF ch])
        show "distinct ts" using inv(4) by simp
        fix x assume "x \<in> set ts"
        then have "x \<noteq> t" using t(2) by auto
        then show "next (timers ?s x) = next (timers s x) \<and>
            pprev (timers ?s x) = (if next (timers s t) = Some x then Some Local else pprev (timers s x))" by (simp add: pop)
      qed
      then show ?thesis using True by (simp add: pop)
    next
      case False
      have c0: "chain (timers ?s) (head ?base l) l (L l)"
      proof (rule chain_other [OF inv(1)])
        fix x assume "x \<in> set (L l)"
        then have "x \<noteq> t" "next (timers s t) \<noteq> Some x" using t(1) nx [of x] inv(5) [of l] by auto
        then show "next (timers ?s x) = next (timers ?base x) \<and> pprev (timers ?s x) = pprev (timers ?base x)" by (simp add: pop)
      qed
      have "head ?s l = head ?base l" using False by (cases l) (simp_all add: pop)
      then show ?thesis using False c0 by (simp only: fun_upd_apply if_False)
    qed
    show "distinct (?L l)" for l using inv(2) inv(4) by simp
    show "set (?L l) \<inter> set (?L l') = {}" if "l \<noteq> l'" for l l' using inv(3) [OF that] inv(5) [of l] inv(5) [of l'] that by auto
    show "pprev (timers ?s x) \<noteq> None \<longleftrightarrow> x \<in> members ?L []" for x
      using inv(7) [of x] nx [of x] in_members(2) [of x "t # ts" L] unfolding mem by (auto simp: pop)
    show "next (timers ?s x) = None" if "pprev (timers ?s x) = None" for x
      using that inv(8) [of x] by (auto simp: pop split: if_splits)
    show "finite (members ?L [])" unfolding mem using inv(9) by simp
    have "0 < card (members L (t # ts))" using inv(9) in_members(2) [of t "t # ts" L] by (auto simp: card_gt_0_iff)
    then show "tw_count ?s = of_nat (card (members ?L []))"
      using inv(10) in_members(2) [of t "t # ts" L] unfolding mem pop(4)
      by (simp add: card_Diff_singleton of_nat_diff Suc_le_eq)
  qed simp_all
qed

text \<open>Starting and stopping timers keeps the wheel in order.\<close>

definition in_order :: "time_wheel \<Rightarrow> (link \<Rightarrow> nat list) \<Rightarrow> bool" where
  "in_order s L \<longleftrightarrow> linked s L [] \<and> timed s L"

lemma timed_mono:
  assumes "timed s L" "same_timers s s'" "\<And>b. set (L' (First b)) \<subseteq> set (L (First b))"
  shows "timed s' L'"
  using assms(1,3) same_timersD [OF assms(2)] unfolding timed_def by (metis subsetD)

lemma add_in_order:
  assumes "in_order s L" "twtimer_add s t = Some (r, s')"
  obtains b where "r = 0" "twtimer_bucket (clock s) (expire (timers s t)) = Some b" "s' = list_insert b t s"
    "in_order s' (L(First b := t # L (First b)))" "pprev (timers s t) = None" "same_timers s s'"
proof -
  obtain b where b: "twtimer_bucket (clock s) (expire (timers s t)) = Some b" "r = 0" "s' = list_insert b t s"
      "pprev (timers s t) = None" "ontimeout (timers s t)"
    using assms(2) by (auto simp: twtimer_add_def split: if_splits option.splits)
  have same: "same_timers s s'" using same_timers_ops(2) b(3) by simp
  have "timed s' (L(First b := t # L (First b)))"
    unfolding timed_def same_timersD [OF same]
  proof (intro allI ballI)
    fix b' x assume "x \<in> set ((L(First b := t # L (First b))) (First b'))"
    then consider "x = t" "b' = b" | "x \<in> set (L (First b'))" by (auto split: if_splits)
    then show "ontimeout (timers s x) \<and> placed (unat (clock s)) (unat (expire (timers s x))) b'"
    proof cases
      case 1
      then show ?thesis using b twtimer_bucket_placed by blast
    next
      case 2
      then show ?thesis using assms(1) unfolding in_order_def timed_def by blast
    qed
  qed
  then show ?thesis using that b same linked_insert [of s L "[]" t b] assms(1) by (simp add: in_order_def)
qed

lemma stop_same_timers: "linked s L [] \<Longrightarrow> same_timers s (snd (twtimer_stop s t))"
proof (cases "pprev (timers s t)")
  case (Some l)
  assume lk: "linked s L []"
  then obtain l' xs ys where L: "L l' = xs @ t # ys"
    using linkedD(7) [OF lk, of t] Some by (auto simp: members_def) (meson split_list)
  have ch: "chain (timers s) (head s l') l' (xs @ t # ys)" "distinct (xs @ t # ys)" using linkedD(1,2) [OF lk, of l'] L by simp_all
  have p: "l = (if xs = [] then l' else NextOf (last xs))" using chain_split [OF ch(1)] Some by simp
  have "next (timers s t) \<noteq> Some t" using chain_head [OF conjunct2 [OF chain_split [OF ch(1)]]] ch(2) by (auto split: list.splits)
  moreover have "l \<noteq> NextOf t" using p ch last_in_set [of xs] by (cases l'; cases "xs = []") auto
  ultimately show ?thesis using stop_started [OF Some] by (simp add: same_timers_def)
qed (simp add: stop_not_started)

lemma stop_in_order:
  assumes "in_order s L"
  obtains L' where "in_order (snd (twtimer_stop s t)) L'" "\<And>l. set (L' l) = set (L l) - {t}" "length (L' Local) \<le> length (L Local)"
    "fst (twtimer_stop s t) = (if pprev (timers s t) = None then -1 else 0)" "same_timers s (snd (twtimer_stop s t))"
proof (cases "pprev (timers s t)")
  case None
  have lk: "linked s L []" using assms by (simp add: in_order_def)
  have "t \<notin> set (L l)" for l using linkedD(7) [OF lk, of t] None in_members(1) [of t L l "[]"] by auto
  then show ?thesis using that [of L] assms stop_not_started [OF lk None] None by simp
next
  case (Some p)
  have lk: "linked s L []" using assms by (simp add: in_order_def)
  then obtain l where l: "t \<in> set (L l)" using linkedD(7) [OF lk, of t] Some by (auto simp: members_def)
  let ?L = "L(l := remove1 t (L l))"
  have sets: "set (?L l') = set (L l') - {t}" for l'
  proof (cases "l' = l")
    case True
    then show ?thesis using linkedD(2) [OF lk, of l] by (simp add: set_remove1_eq)
  next
    case False
    then have "t \<notin> set (L l')" using linkedD(3) [OF lk False] l by blast
    then show ?thesis using False by simp
  qed
  have same: "same_timers s (snd (twtimer_stop s t))" by (rule stop_same_timers [OF lk])
  have "timed s L" using assms by (simp add: in_order_def)
  then have "timed (snd (twtimer_stop s t)) ?L" using timed_mono [OF _ same] sets by blast
  then have "in_order (snd (twtimer_stop s t)) ?L" using linked_stop(1) [OF lk l] by (simp add: in_order_def)
  moreover have "length (?L Local) \<le> length (L Local)" by (simp add: length_remove1)
  ultimately show ?thesis using that [of ?L] sets linked_stop(2) [OF lk l] Some same by simp
qed

text \<open>What a callback may do to the wheel: set and start timers, and stop them.\<close>

datatype action = Start nat u64 | Stop nat

definition set_timer :: "nat \<Rightarrow> u64 \<Rightarrow> time_wheel \<Rightarrow> time_wheel" where
  "set_timer t e s = s\<lparr>timers := (timers s)(t := (timers s t)\<lparr>expire := e, ontimeout := True\<rparr>)\<rparr>"

fun perform :: "action \<Rightarrow> time_wheel \<Rightarrow> time_wheel option" where
  "perform (Start t e) s = map_option snd (twtimer_start (set_timer t e s) t)" |
  "perform (Stop t) s = Some (snd (twtimer_stop s t))"

fun performs :: "action list \<Rightarrow> time_wheel \<Rightarrow> time_wheel option" where
  "performs [] s = Some s" |
  "performs (a # as) s = Option.bind (perform a s) (performs as)"

lemma set_timer_fields:
  "head (set_timer t e s) l = head s l" "clock (set_timer t e s) = clock s" "tw_count (set_timer t e s) = tw_count s"
  "next (timers (set_timer t e s) x) = next (timers s x)" "pprev (timers (set_timer t e s) x) = pprev (timers s x)"
  "expire (timers (set_timer t e s) x) = (if x = t then e else expire (timers s x))"
  "ontimeout (timers (set_timer t e s) x) = (if x = t then True else ontimeout (timers s x))"
  by (cases l; simp add: set_timer_def)+

lemma set_timer_in_order:
  assumes "in_order s L" "pprev (timers s t) = None"
  shows "in_order (set_timer t e s) L"
proof -
  have lk: "linked s L []" and tm: "timed s L" using assms(1) by (auto simp: in_order_def)
  note inv = linkedD [OF lk]
  have "linked (set_timer t e s) L []"
  proof (rule linkedI)
    show "chain (timers (set_timer t e s)) (head (set_timer t e s) l) l (L l)" for l
      unfolding set_timer_fields by (rule chain_other [OF inv(1)]) (simp add: set_timer_fields)
    show "next (timers (set_timer t e s) x) = None" if "pprev (timers (set_timer t e s) x) = None" for x
      using inv(8) [of x] that by (simp add: set_timer_fields)
  qed (use inv in \<open>simp_all add: set_timer_fields\<close>)
  moreover have "t \<notin> set (L l)" for l using inv(7) [of t] assms(2) in_members(1) [of t L l "[]"] by auto
  then have "timed (set_timer t e s) L" using tm unfolding timed_def set_timer_fields by metis
  ultimately show ?thesis by (simp add: in_order_def)
qed

text \<open>The callback keeps the order and the timers that are still to be fired in this tick.\<close>

definition keeps :: "time_wheel \<Rightarrow> (link \<Rightarrow> nat list) \<Rightarrow> time_wheel \<Rightarrow> (link \<Rightarrow> nat list) \<Rightarrow> bool" where
  "keeps s L s' L' \<longleftrightarrow> in_order s' L' \<and> clock s' = clock s \<and> length (L' Local) \<le> length (L Local)
     \<and> set (L' Local) \<subseteq> set (L Local)
     \<and> (\<forall>t \<in> set (L' Local). expire (timers s' t) = expire (timers s t) \<and> ontimeout (timers s' t) = ontimeout (timers s t))"

lemma keeps_trans: "keeps s L s' L' \<Longrightarrow> keeps s' L' s'' L'' \<Longrightarrow> keeps s L s'' L''"
  unfolding keeps_def by (metis le_trans subset_trans subsetD)

lemma perform_keeps:
  assumes "in_order s L" "perform a s = Some s'"
  shows "\<exists>L'. keeps s L s' L'"
proof (cases a)
  case (Start t e)
  let ?s = "set_timer t e s"
  have add: "twtimer_add ?s t = Some (0, s')" and none: "pprev (timers s t) = None"
    using assms(2) Start by (auto simp: twtimer_start_def twtimer_add_def set_timer_fields split: if_splits option.splits)
  obtain b where b: "in_order s' (L(First b := t # L (First b)))" "same_timers ?s s'"
    using add_in_order [OF set_timer_in_order [OF assms(1) none] add] by blast
  have "t \<notin> set (L Local)"
    using assms(1) none linkedD(7) [of s L "[]" t] in_members(1) [of t L Local "[]"] by (auto simp: in_order_def)
  then have "\<forall>x \<in> set (L Local). expire (timers s' x) = expire (timers s x) \<and> ontimeout (timers s' x) = ontimeout (timers s x)"
    unfolding same_timersD [OF b(2)] by (auto simp: set_timer_fields)
  then have "keeps s L s' (L(First b := t # L (First b)))"
    using b same_timersD(1) [OF b(2)] by (simp add: keeps_def set_timer_fields)
  then show ?thesis by blast
next
  case (Stop t)
  obtain L' where "in_order (snd (twtimer_stop s t)) L'" "\<And>l. set (L' l) = set (L l) - {t}"
      "length (L' Local) \<le> length (L Local)" "same_timers s (snd (twtimer_stop s t))"
    using stop_in_order [OF assms(1), of t] by metis
  then have "keeps s L s' L'" using assms(2) Stop same_timersD by (auto simp: keeps_def)
  then show ?thesis by blast
qed

lemma performs_keeps:
  assumes "in_order s L" "performs as s = Some s'"
  shows "\<exists>L'. keeps s L s' L'"
  using assms
proof (induction as arbitrary: s L)
  case Nil
  then show ?case by (auto simp: keeps_def)
next
  case (Cons a as)
  then obtain s1 where s1: "perform a s = Some s1" "performs as s1 = Some s'" by (auto simp: bind_eq_Some_conv)
  obtain L1 where L1: "keeps s L s1 L1" using perform_keeps [OF Cons.prems(1) s1(1)] by blast
  then obtain L' where "keeps s1 L1 s' L'" using Cons.IH [of s1 L1] s1(2) by (auto simp: keeps_def)
  then show ?case using keeps_trans [OF L1] by blast
qed

section \<open>One tick\<close>

text \<open>Callbacks that decide on their actions from the timer and the state, and that break no assertion.\<close>

definition callback :: "(nat \<Rightarrow> time_wheel \<Rightarrow> action list) \<Rightarrow> nat \<Rightarrow> time_wheel \<Rightarrow> time_wheel option" where
  "callback script t s = performs (script t s) s"

definition admissible :: "(nat \<Rightarrow> time_wheel \<Rightarrow> action list) \<Rightarrow> bool" where
  "admissible script \<longleftrightarrow> (\<forall>t s L. in_order s L \<longrightarrow> callback script t s \<noteq> None)"

lemma trigger_loop_step:
  assumes "bucket s = Some t" "ontimeout (timers (bucket_pop t s) t)"
  shows "trigger_loop cb s = Option.bind (cb t (bucket_pop t s)) (\<lambda>s'. Option.bind (trigger_loop cb s')
    (\<lambda>(s'', fired). Some (s'', (t, expire (timers (bucket_pop t s) t), clock (bucket_pop t s) - 1) # fired)))"
  by (subst trigger_loop.simps) (simp add: assms Let_def)

lemma trigger_loop_done: "bucket s = None \<Longrightarrow> trigger_loop cb s = Some (s, [])"
  by (subst trigger_loop.simps) simp

lemma firing_nil: "firing s L [] \<Longrightarrow> bucket s = None \<and> linked s L []"
proof -
  assume f: "firing s L []"
  then have "bucket s = None" by (simp add: firing_def)
  then have "set_link Local None s = s" by simp
  with f have "linked s L []" unfolding firing_def by metis
  then show ?thesis using \<open>bucket s = None\<close> by simp
qed

lemma pop_timed:
  assumes "firing s L (t # D)" "timed s L"
  shows "in_order (bucket_pop t s) (L(Local := D))" "same_timers s (bucket_pop t s)"
proof -
  note pop = bucket_pop_fields [OF linked_pop(2) [OF assms(1)]]
  show same: "same_timers s (bucket_pop t s)" by (simp add: same_timers_def pop)
  have "timed (bucket_pop t s) (L(Local := D))" using timed_mono [OF assms(2) same, of "L(Local := D)"] by simp
  then show "in_order (bucket_pop t s) (L(Local := D))" using linked_pop(1) [OF assms(1)] by (simp add: in_order_def)
qed

lemma less_le_pred: "(a :: u64) < b \<Longrightarrow> a \<le> b - 1"
proof -
  assume *: "a < b"
  then have "b \<noteq> 0" by auto
  then show ?thesis using unat_minus_one [of b] * by (simp add: word_le_nat_alt word_less_nat_alt)
qed

lemma trigger_loop_safe:
  assumes "admissible script" "firing s L D" "timed s L" "0 < clock s"
    and "\<And>t. t \<in> set D \<Longrightarrow> ontimeout (timers s t) \<and> expire (timers s t) < clock s"
  shows "\<exists>s' L' fired. trigger_loop (callback script) s = Some (s', fired) \<and> in_order s' L' \<and> L' Local = []
    \<and> clock s' = clock s \<and> (\<forall>(t, e, c) \<in> set fired. c = clock s - 1 \<and> e \<le> c)"
  using assms(2-)
proof (induction "length D" arbitrary: s L D rule: less_induct)
  case less
  show ?case
  proof (cases D)
    case Nil
    then have "bucket s = None" "linked s L []" "L Local = []" using firing_nil less.prems(1) by (auto simp: firing_def)
    then show ?thesis using less.prems(2) by (auto simp: trigger_loop_done in_order_def)
  next
    case (Cons t ts)
    let ?p = "bucket_pop t s"
    have f: "firing s L (t # ts)" and b: "bucket s = Some t" using less.prems(1) Cons by (auto simp: firing_def)
    note ord = pop_timed(1) [OF f less.prems(2)] and same = same_timersD [OF pop_timed(2) [OF f less.prems(2)]]
    have t: "ontimeout (timers s t)" "expire (timers s t) < clock s" using less.prems(4) [of t] Cons by auto
    obtain s1 where s1: "callback script t ?p = Some s1" using assms(1) ord unfolding admissible_def by blast
    then obtain L1 where L1: "keeps ?p (L(Local := ts)) s1 L1" using performs_keeps [OF ord] by (auto simp: callback_def)
    have k: "in_order s1 L1" "clock s1 = clock s" "length (L1 Local) < length D" "set (L1 Local) \<subseteq> set D"
        "\<forall>x \<in> set (L1 Local). expire (timers s1 x) = expire (timers s x) \<and> ontimeout (timers s1 x) = ontimeout (timers s x)"
      using L1 Cons unfolding keeps_def same by auto
    have "firing s1 (L1(Local := [])) (L1 Local)" "timed s1 (L1(Local := []))"
      using firing_Local k(1) by (auto simp: in_order_def timed_def)
    moreover have "ontimeout (timers s1 x) \<and> expire (timers s1 x) < clock s1" if "x \<in> set (L1 Local)" for x
      using less.prems(4) [of x] k(2,4,5) that by auto
    moreover have "0 < clock s1" using less.prems(3) k(2) by simp
    ultimately obtain s' L' fired where
      IH: "trigger_loop (callback script) s1 = Some (s', fired)" "in_order s' L'" "L' Local = []" "clock s' = clock s"
        "\<forall>(t, e, c) \<in> set fired. c = clock s - 1 \<and> e \<le> c"
      using less.hyps [OF k(3), of s1 "L1(Local := [])"] unfolding k(2) by blast
    have "expire (timers s t) \<le> clock s - 1" using t(2) by (rule less_le_pred)
    then show ?thesis
      using IH trigger_loop_step [OF b, of "callback script"] s1 t by (auto simp: same)
  qed
qed

lemma plain_callback: "callback (\<lambda>_ _. []) t s = Some s"
  by (simp add: callback_def)

text \<open>A callback that leaves the wheel alone: the timers are fired one by one, in the order of the list.\<close>

lemma trigger_loop_plain:
  assumes "firing s L D" "timed s L" "\<And>t. t \<in> set D \<Longrightarrow> ontimeout (timers s t)"
  shows "\<exists>s'. trigger_loop (callback (\<lambda>_ _. [])) s = Some (s', map (\<lambda>t. (t, expire (timers s t), clock s - 1)) D)
    \<and> in_order s' L \<and> same_timers s s'"
  using assms
proof (induction D arbitrary: s)
  case Nil
  then show ?case using firing_nil [of s L] by (auto simp: trigger_loop_done in_order_def)
next
  case (Cons t ts)
  let ?p = "bucket_pop t s"
  have b: "bucket s = Some t" "L Local = []" using Cons.prems(1) by (auto simp: firing_def)
  note ord = pop_timed(1) [OF Cons.prems(1,2)] and sm = pop_timed(2) [OF Cons.prems(1,2)]
  note same = same_timersD [OF sm]
  have "L(Local := ts, Local := []) = L" using b(2) by (auto simp: fun_eq_iff)
  then have "firing ?p L ts" "timed ?p L"
    using firing_Local [of ?p "L(Local := ts)"] ord by (auto simp: in_order_def timed_def)
  from Cons.IH [OF this] obtain s' where
    "trigger_loop (callback (\<lambda>_ _. [])) ?p = Some (s', map (\<lambda>t. (t, expire (timers s t), clock s - 1)) ts)"
    "in_order s' L" "same_timers ?p s'"
    using Cons.prems(3) unfolding same by auto
  then show ?case
    using trigger_loop_step [OF b(1), of "callback (\<lambda>_ _. [])"] Cons.prems(3) [of t] same_timers_trans [OF sm]
      plain_callback [of t ?p] by (auto simp: same)
qed

text \<open>The clock moves on: what is not in the current bucket stays placed, and what is in it is due.\<close>

lemma placed_next:
  assumes "placed c e (k, i)" "ahead c e k" "(k, i) \<noteq> (1, c mod 256)"
  shows "placed (c + 1) e (k, i) \<and> c < e"
proof (cases "k = 1")
  case True
  then have "c \<le> e" "e < c + 256" "i = e mod 256" "i \<noteq> c mod 256" using assms(1,3) by (auto simp: placed_def)
  moreover from this have "e \<noteq> c" by auto
  ultimately show ?thesis using True by (auto simp: placed_def)
next
  case False
  then have k: "2 \<le> k" "k \<le> 5" "i = e div span k mod 64" "c < span k * (e div span k)" "e < c + 2 ^ 32"
    using assms(1,2) by (auto simp: placed_def ahead_def)
  have "span k * (e div span k) \<le> e" by (rule times_div_less_eq_dividend)
  then have "c < e" using k(4) by linarith
  then show ?thesis using k by (simp add: placed_def)
qed

lemma mod_256_unique: "c \<le> e \<Longrightarrow> e < c + 256 \<Longrightarrow> e mod 256 = c mod 256 \<Longrightarrow> e = (c :: nat)"
proof -
  assume *: "c \<le> e" "e < c + 256" "e mod 256 = c mod 256"
  then have "256 dvd e - c" by (metis mod_eq_dvd_iff_nat)
  moreover have "e - c < 256" using * by linarith
  ultimately have "e - c = 0" using nat_dvd_not_less by blast
  then show ?thesis using * by simp
qed

lemma placed_due: "placed c e (1, c mod 256) \<Longrightarrow> e \<le> c"
  using mod_256_unique [of c e] by (fastforce simp: placed_def)

text \<open>The state when the timers of a tick are about to be fired.\<close>

definition tick_start :: "time_wheel \<Rightarrow> time_wheel" where
  "tick_start s = (let index = TVR_INDEX (clock s); s = s\<lparr>bucket := tv s (1, index)\<rparr>; s = set_link (First (1, index)) None s
     in s\<lparr>clock := clock s + 1\<rparr>)"

lemma process_tick_eq:
  "cascade_all s = Some s' \<Longrightarrow> clock s' = clock s \<Longrightarrow> process_tick cb s = trigger_loop cb (tick_start s')"
  by (simp add: process_tick_def tick_start_def Let_def)

lemma linked_clock: "linked (s\<lparr>clock := c\<rparr>) L D = linked s L D"
proof -
  have "head (s\<lparr>clock := c\<rparr>) l = head s l" for l by (cases l) auto
  then show ?thesis by (simp add: linked_def)
qed

lemma tick_start_firing:
  assumes "linked s L []" "L Local = []" "timed s L" "ahead_to 5 s L" "clock s < c"
  defines "b \<equiv> (1, TVR_INDEX (clock s))"
  shows "firing (tick_start s) (L(First b := [])) (L (First b))" "timed (tick_start s) (L(First b := []))"
    "clock (tick_start s) = clock s + 1" "unat (clock s + 1) = unat (clock s) + 1" "timers (tick_start s) = timers s"
    "\<And>t. t \<in> set (L (First b)) \<Longrightarrow> ontimeout (timers s t) \<and> expire (timers s t) \<le> clock s"
    "\<And>t b'. b' \<noteq> b \<Longrightarrow> t \<in> set (L (First b')) \<Longrightarrow> clock s < expire (timers s t)"
proof -
  have hd: "tv s b = (case L (First b) of [] \<Rightarrow> None | x # _ \<Rightarrow> Some x)"
    using chain_head [OF linkedD(1) [OF assms(1), of "First b"]] by simp
  have "bucket s = None" using linkedD(1) [OF assms(1), of Local] assms(2) by simp
  then have "set_link Local None (tick_start s) = (set_link (First b) None s)\<lparr>clock := clock s + 1\<rparr>"
    by (simp add: tick_start_def Let_def b_def)
  then show "firing (tick_start s) (L(First b := [])) (L (First b))"
    using linked_detach [OF assms(1), of "First b"] hd assms(2)
    by (simp add: firing_def linked_clock) (simp add: tick_start_def Let_def b_def)
  show clk: "clock (tick_start s) = clock s + 1" and tm: "timers (tick_start s) = timers s"
    by (simp_all add: tick_start_def Let_def)
  have "unat (clock s) < unat c" using assms(5) by (simp add: word_less_nat_alt)
  moreover have "unat c < 2 ^ 64" using unsigned_less [of c, where 'a = nat] by simp
  ultimately show un: "unat (clock s + 1) = unat (clock s) + 1" by (simp add: unat_word_ariths)
  have pl: "ontimeout (timers s t) \<and> placed (unat (clock s)) (unat (expire (timers s t))) b'" if "t \<in> set (L (First b'))" for t b'
    using assms(3) that unfolding timed_def by blast
  have nxt: "placed (unat (clock s) + 1) (unat (expire (timers s t))) b' \<and> unat (clock s) < unat (expire (timers s t))"
    if "t \<in> set (L (First b'))" "b' \<noteq> b" for t b'
  proof -
    obtain k i where ki: "b' = (k, i)" by (cases b')
    have "k \<le> 5" using pl [OF that(1)] ki by (auto simp: placed_def)
    then have "ahead (unat (clock s)) (unat (expire (timers s t))) k" using assms(4) that(1) ki unfolding ahead_to_def by blast
    then show ?thesis using placed_next [of "unat (clock s)" "unat (expire (timers s t))" k i] pl [OF that(1)] that(2) ki
      by (simp add: b_def TVR_INDEX_eq)
  qed
  show "timed (tick_start s) (L(First b := []))"
    unfolding timed_def clk tm un
  proof (intro allI ballI)
    fix b' t assume t: "t \<in> set ((L(First b := [])) (First b'))"
    then have "b' \<noteq> b" by (auto split: if_splits)
    then show "ontimeout (timers s t) \<and> placed (unat (clock s) + 1) (unat (expire (timers s t))) b'"
      using t nxt [of t b'] pl [of t b'] by simp
  qed
  show "ontimeout (timers s t) \<and> expire (timers s t) \<le> clock s" if "t \<in> set (L (First b))" for t
    using pl [OF that] placed_due by (simp add: b_def TVR_INDEX_eq word_le_nat_alt)
  show "clock s < expire (timers s t)" if "b' \<noteq> b" "t \<in> set (L (First b'))" for t b'
    using nxt [OF that(2,1)] by (simp add: word_less_nat_alt)
qed

text \<open>One turn of the loop, with callbacks that use the wheel and with callbacks that do not.\<close>

lemma process_tick_safe:
  assumes "admissible script" "in_order s L" "L Local = []" "clock s < c"
  shows "\<exists>s' L' fired. process_tick (callback script) s = Some (s', fired) \<and> in_order s' L' \<and> L' Local = []
    \<and> clock s' = clock s + 1 \<and> (\<forall>(t, e, k) \<in> set fired. k = clock s \<and> e \<le> k)"
proof -
  have lk: "linked s L []" "timed s L" using assms(2) by (auto simp: in_order_def)
  obtain s1 L1 where c: "cascade_all s = Some s1" "linked s1 L1 []" "same_timers s s1" "L1 Local = L Local" "timed s1 L1" "ahead_to 5 s1 L1"
    using cascade_all_correct [OF lk] by blast
  note clk = same_timersD(1) [OF c(3)]
  have loc: "L1 Local = []" "clock s1 < c" using c(4) assms(3,4) clk by simp_all
  note st = tick_start_firing [OF c(2) loc(1) c(5,6) loc(2)]
  have pos: "0 < clock s1 + 1" using st(4) by (simp add: word_less_nat_alt)
  have succ: "x < y + 1" if "x \<le> y" "unat (y + 1) = unat y + 1" for x y :: u64
    using that by (simp add: word_le_nat_alt word_less_nat_alt)
  have due: "ontimeout (timers (tick_start s1) t) \<and> expire (timers (tick_start s1) t) < clock (tick_start s1)"
    if "t \<in> set (L1 (First (1, TVR_INDEX (clock s1))))" for t
    unfolding st(3,5) using st(6) [OF that] succ [OF _ st(4)] by blast
  from trigger_loop_safe [OF assms(1) st(1,2) _ due] pos st(3) clk process_tick_eq [OF c(1) clk, of "callback script"]
  show ?thesis by auto
qed

lemma process_tick_plain:
  assumes "in_order s L" "L Local = []" "clock s < c"
  shows "\<exists>s' L' D. process_tick (callback (\<lambda>_ _. [])) s = Some (s', map (\<lambda>t. (t, expire (timers s t), clock s)) D)
    \<and> in_order s' L' \<and> L' Local = [] \<and> clock s' = clock s + 1 \<and> distinct D
    \<and> set D = {t \<in> waiting L. expire (timers s t) \<le> clock s} \<and> waiting L' = {t \<in> waiting L. clock s < expire (timers s t)}
    \<and> (\<forall>t. expire (timers s' t) = expire (timers s t))"
proof -
  have lk: "linked s L []" "timed s L" using assms(1) by (auto simp: in_order_def)
  obtain s1 L1 where c: "cascade_all s = Some s1" "linked s1 L1 []" "same_timers s s1" "L1 Local = L Local" "timed s1 L1"
      "ahead_to 5 s1 L1" "waiting L1 = waiting L"
    using cascade_all_correct [OF lk] by blast
  note clk = same_timersD(1) [OF c(3)] and exp = same_timersD(2) [OF c(3)]
  have loc: "L1 Local = []" "clock s1 < c" using c(4) assms(2,3) clk by simp_all
  let ?b = "(1, TVR_INDEX (clock s1))"
  let ?D = "L1 (First ?b)" and ?L = "L1(First ?b := [])"
  note st = tick_start_firing [OF c(2) loc(1) c(5,6) loc(2)]
  obtain s' where s': "trigger_loop (callback (\<lambda>_ _. [])) (tick_start s1) =
        Some (s', map (\<lambda>t. (t, expire (timers (tick_start s1) t), clock (tick_start s1) - 1)) ?D)"
      "in_order s' ?L" "same_timers (tick_start s1) s'"
    using trigger_loop_plain [OF st(1,2)] st(5,6) by auto
  have D: "t \<in> set ?D \<longleftrightarrow> t \<in> waiting L1 \<and> expire (timers s t) \<le> clock s" for t
  proof
    assume "t \<in> waiting L1 \<and> expire (timers s t) \<le> clock s"
    then obtain b' where b': "t \<in> set (L1 (First b'))" "\<not> clock s < expire (timers s t)" by (auto simp: waiting_def)
    then have "b' = ?b" using st(7) [of b' t] unfolding exp clk by blast
    then show "t \<in> set ?D" using b'(1) by simp
  next
    assume "t \<in> set ?D"
    then show "t \<in> waiting L1 \<and> expire (timers s t) \<le> clock s" using st(6) [of t] unfolding exp clk waiting_def by blast
  qed
  have W: "t \<in> waiting ?L \<longleftrightarrow> t \<in> waiting L1 \<and> clock s < expire (timers s t)" for t
  proof
    assume "t \<in> waiting ?L"
    then obtain b' where b': "t \<in> set (?L (First b'))" by (auto simp: waiting_def)
    then have "b' \<noteq> ?b" by (auto split: if_splits)
    then have "t \<in> set (L1 (First b'))" using b' by simp
    then show "t \<in> waiting L1 \<and> clock s < expire (timers s t)"
      using st(7) [OF \<open>b' \<noteq> ?b\<close>] unfolding exp clk waiting_def by blast
  next
    assume "t \<in> waiting L1 \<and> clock s < expire (timers s t)"
    then obtain b' where b': "t \<in> set (L1 (First b'))" "\<not> expire (timers s t) \<le> clock s" by (auto simp: waiting_def)
    then have "b' \<noteq> ?b" using st(6) [of t] unfolding exp clk by blast
    then have "t \<in> set (?L (First b'))" using b'(1) by simp
    then show "t \<in> waiting ?L" unfolding waiting_def by blast
  qed
  have "process_tick (callback (\<lambda>_ _. [])) s = Some (s', map (\<lambda>t. (t, expire (timers s t), clock s)) ?D)"
    using process_tick_eq [OF c(1) clk, of "callback (\<lambda>_ _. [])"] s'(1) st(3,5) clk exp by simp
  moreover have "expire (timers s' t) = expire (timers s t)" "clock s' = clock s + 1" for t
    using same_timersD [OF s'(3)] st(3,5) clk exp by simp_all
  ultimately show ?thesis
    using s'(2) loc(1) linkedD(2) [OF c(2), of "First ?b"] D W c(7)
    by (intro exI [of _ s'] exI [of _ ?L] exI [of _ ?D]) auto
qed

section \<open>The wheel as a set of timers\<close>

text \<open>What a user of the wheel sees: the timers that are started, between two calls.\<close>

definition pending :: "time_wheel \<Rightarrow> nat set" where
  "pending s = {t. pprev (timers s t) \<noteq> None}"

definition wheel :: "time_wheel \<Rightarrow> bool" where
  "wheel s \<longleftrightarrow> (\<exists>L. in_order s L \<and> L Local = [])"

lemma pending_waiting:
  assumes "in_order s L" "L Local = []"
  shows "pending s = waiting L" "finite (pending s)" "tw_count s = of_nat (card (pending s))"
proof -
  have lk: "linked s L []" using assms(1) by (simp add: in_order_def)
  have "L (NextOf u) = []" for u using linkedD(1) [OF lk, of "NextOf u"] by (cases "L (NextOf u)") auto
  then have "x \<in> set (L l) \<Longrightarrow> \<exists>b. l = First b" for x l using assms(2) by (cases l) auto
  then have "members L [] = waiting L" unfolding members_def waiting_def by auto (metis)
  then have eq: "pending s = members L []" "members L [] = waiting L" using linkedD(7) [OF lk] by (auto simp: pending_def)
  then show "pending s = waiting L" by simp
  show "finite (pending s)" "tw_count s = of_nat (card (pending s))" using linkedD(9,10) [OF lk] eq(1) by simp_all
qed

lemma process_loop_step:
  assumes "clock s < c" "process_tick cb s = Some (s1, f1)" "process_loop cb s1 c = Some (s2, f2)"
  shows "process_loop cb s c = Some (s2, f1 @ f2)"
  by (subst process_loop.simps) (simp add: assms)

lemma process_loop_done: "\<not> clock s < c \<Longrightarrow> process_loop cb s c = Some (s, [])"
  by (subst process_loop.simps) simp

lemma tick_less: "clock s < (c :: u64) \<Longrightarrow> unat (clock s + 1) = unat (clock s) + 1"
  using unsigned_less [of c, where 'a = nat] by (simp add: word_less_nat_alt unat_word_ariths)

lemma process_loop_safe:
  assumes "admissible script" "wheel s"
  shows "\<exists>s' fired. process_loop (callback script) s c = Some (s', fired) \<and> wheel s' \<and> clock s' = max (clock s) c
    \<and> (\<forall>(t, e, k) \<in> set fired. e \<le> k \<and> clock s \<le> k \<and> k < c)"
  using assms(2)
proof (induction "unat c - unat (clock s)" arbitrary: s rule: less_induct)
  case less
  show ?case
  proof (cases "clock s < c")
    case False
    then show ?thesis using less.prems by (auto simp: process_loop_done max_def)
  next
    case True
    obtain L where L: "in_order s L" "L Local = []" using less.prems by (auto simp: wheel_def)
    obtain s1 L1 f1 where t: "process_tick (callback script) s = Some (s1, f1)" "in_order s1 L1" "L1 Local = []"
        "clock s1 = clock s + 1" "\<forall>(t, e, k) \<in> set f1. k = clock s \<and> e \<le> k"
      using process_tick_safe [OF assms(1) L True] by blast
    note un = tick_less [OF True]
    have le: "clock s \<le> clock s1" "clock s1 \<le> c" using un True by (simp_all add: t(4) word_le_nat_alt word_less_nat_alt)
    have "unat c - unat (clock s1) < unat c - unat (clock s)" using True un by (simp add: t(4) word_less_nat_alt)
    moreover have "wheel s1" using t by (auto simp: wheel_def)
    ultimately obtain s2 f2 where IH: "process_loop (callback script) s1 c = Some (s2, f2)" "wheel s2" "clock s2 = max (clock s1) c"
        "\<forall>(t, e, k) \<in> set f2. e \<le> k \<and> clock s1 \<le> k \<and> k < c"
      using less.hyps [of s1] by blast
    have "e \<le> k \<and> clock s \<le> k \<and> k < c" if "(t, e, k) \<in> set (f1 @ f2)" for t e k
      using that t(5) IH(4) le True by fastforce
    moreover have "max (clock s1) c = max (clock s) c" using le True by (auto simp: max_def)
    ultimately show ?thesis using process_loop_step [OF True t(1) IH(1)] IH(2,3) by auto
  qed
qed

text \<open>The calls that are due when the clock goes from \<open>c0\<close> to \<open>c\<close>.\<close>

definition due :: "time_wheel \<Rightarrow> u64 \<Rightarrow> (nat \<times> u64 \<times> u64) set" where
  "due s c = {(t, e, k). t \<in> pending s \<and> e = expire (timers s t) \<and> e < c \<and> k = max e (clock s)}"

lemma process_loop_plain:
  assumes "wheel s" "clock s < c"
  shows "\<exists>s' fired. process_loop (callback (\<lambda>_ _. [])) s c = Some (s', fired) \<and> wheel s' \<and> clock s' = c
    \<and> (\<forall>t. expire (timers s' t) = expire (timers s t))
    \<and> pending s' = {t \<in> pending s. c \<le> expire (timers s t)}
    \<and> set fired = due s c \<and> distinct (map fst fired) \<and> sorted (map (\<lambda>(t, e, k). k) fired)"
  using assms
proof (induction "unat c - unat (clock s)" arbitrary: s rule: less_induct)
  case less
  obtain L where L: "in_order s L" "L Local = []" using less.prems(1) by (auto simp: wheel_def)
  obtain s1 L1 D where t: "process_tick (callback (\<lambda>_ _. [])) s = Some (s1, map (\<lambda>t. (t, expire (timers s t), clock s)) D)"
      "in_order s1 L1" "L1 Local = []" "clock s1 = clock s + 1" "distinct D"
      "set D = {t \<in> waiting L. expire (timers s t) \<le> clock s}" "waiting L1 = {t \<in> waiting L. clock s < expire (timers s t)}"
      "\<forall>t. expire (timers s1 t) = expire (timers s t)"
    using process_tick_plain [OF L less.prems(2)] by blast
  let ?f1 = "map (\<lambda>t. (t, expire (timers s t), clock s)) D"
  note pend = pending_waiting(1) [OF L] and pend1 = pending_waiting(1) [OF t(2,3)]
  have un: "unat (clock s1) = unat (clock s) + 1" using tick_less [OF less.prems(2)] t(4) by simp
  have succ: "clock s < x \<longleftrightarrow> clock s1 \<le> x" for x using un by (auto simp: word_less_nat_alt word_le_nat_alt)
  have wh: "wheel s1" using t(2,3) by (auto simp: wheel_def)
  have f1: "sorted (map (\<lambda>(t, e, k). k) ?f1)" "distinct (map fst ?f1)" "map fst ?f1 = D"
    using t(5) by (simp_all add: comp_def sorted_iff_nth_mono)
  show ?case
  proof (cases "clock s1 < c")
    case False
    then have eq: "clock s1 = c" using succ [of c] less.prems(2) by auto
    have "process_loop (callback (\<lambda>_ _. [])) s c = Some (s1, ?f1)"
      using process_loop_step [OF less.prems(2) t(1) process_loop_done [OF False]] by simp
    moreover have "set ?f1 = due s c"
      unfolding due_def pend using t(6) succ eq by (auto simp: not_le [symmetric] max_def)
    moreover have "pending s1 = {t \<in> pending s. c \<le> expire (timers s t)}" unfolding pend pend1 t(7) succ eq ..
    ultimately show ?thesis using f1 wh eq t(8) by auto
  next
    case True
    have "unat c - unat (clock s1) < unat c - unat (clock s)" using True un by (simp add: word_less_nat_alt)
    from less.hyps [OF this wh True] obtain s2 f2 where IH: "process_loop (callback (\<lambda>_ _. [])) s1 c = Some (s2, f2)" "wheel s2" "clock s2 = c"
        "\<forall>t. expire (timers s2 t) = expire (timers s1 t)" "pending s2 = {t \<in> pending s1. c \<le> expire (timers s1 t)}"
        "set f2 = due s1 c" "distinct (map fst f2)" "sorted (map (\<lambda>(t, e, k). k) f2)"
      by blast
    have mx: "max e (clock s1) = e \<and> max e (clock s) = e" if "clock s < e" for e
      using that succ [of e] by (auto simp: max_def)
    have f2: "t \<in> pending s \<and> clock s < expire (timers s t) \<and> k = expire (timers s t)" if "(t, e, k) \<in> set f2" for t e k
      using that unfolding IH(6) due_def pend1 t(7) pend using t(8) mx by auto
    have "set ?f1 \<union> set f2 = due s c"
    proof (rule set_eqI, clarify)
      fix t e k
      have "(t, e, k) \<in> due s1 c \<longleftrightarrow> (t, e, k) \<in> due s c \<and> clock s < e"
        unfolding due_def pend1 t(7) pend using t(8) mx [of e] by auto
      moreover have "(t, e, k) \<in> set ?f1 \<longleftrightarrow> (t, e, k) \<in> due s c \<and> e \<le> clock s"
        unfolding due_def pend using t(6) less.prems(2) by (auto simp: max_def)
      ultimately show "(t, e, k) \<in> set ?f1 \<union> set f2 \<longleftrightarrow> (t, e, k) \<in> due s c" unfolding Un_iff IH(6) by auto
    qed
    moreover have "sorted (map (\<lambda>(t, e, k). k) (?f1 @ f2))"
      unfolding map_append sorted_append using f1(1) IH(8) f2 by fastforce
    moreover have "distinct (map fst (?f1 @ f2))"
      unfolding map_append distinct_append f1(3) using t(5,6) IH(7) f2 by fastforce
    moreover have "pending s2 = {t \<in> pending s. c \<le> expire (timers s t)}"
      unfolding IH(5) pend1 t(7) pend using t(8) less.prems(2) by auto
    ultimately show ?thesis
      using process_loop_step [OF less.prems(2) t(1) IH(1)] IH(2-4) t(8)
      by (intro exI [of _ s2] exI [of _ "?f1 @ f2"]) auto
  qed
qed

lemma create_wheel:
  assumes "\<And>t. pprev (mem t) = None \<and> next (mem t) = None"
  shows "\<exists>s. time_wheel_create True c mem = Some s \<and> wheel s \<and> pending s = {} \<and> clock s = c"
proof -
  let ?s = "\<lparr>tw_count = 0, clock = c, tv = (\<lambda>_. None), timers = mem, bucket = None\<rparr>"
  have "head ?s l = None" for l by (cases l) simp_all
  then have "in_order ?s (\<lambda>_. [])" using assms by (simp add: in_order_def linked_def timed_def members_def)
  then show ?thesis using assms by (auto simp: time_wheel_create_def wheel_def pending_def)
qed

lemma start_wheel:
  assumes "wheel s" "ontimeout (timers s t)" "t \<notin> pending s" "unat (expire (timers s t)) < unat (clock s) + 2 ^ 32"
  shows "\<exists>s'. twtimer_start s t = Some (0, s') \<and> wheel s' \<and> pending s' = insert t (pending s) \<and> same_timers s s'"
proof -
  obtain L where L: "in_order s L" "L Local = []" using assms(1) by (auto simp: wheel_def)
  obtain b where "twtimer_bucket (clock s) (expire (timers s t)) = Some b" using twtimer_bucket_Some [OF assms(4)] by blast
  then have add: "twtimer_add s t = Some (0, list_insert b t s)"
    using assms(2,3) by (simp add: twtimer_add_def pending_def)
  obtain b' where b': "in_order (list_insert b t s) (L(First b' := t # L (First b')))" "same_timers s (list_insert b t s)"
    using add_in_order [OF L(1) add] by metis
  have loc: "(L(First b' := t # L (First b'))) Local = []" using L(2) by simp
  have "pending (list_insert b t s) = waiting (L(First b' := t # L (First b')))" by (rule pending_waiting(1) [OF b'(1) loc])
  also have "\<dots> = insert t (pending s)" unfolding pending_waiting(1) [OF L] waiting_def by (auto split: if_splits)
  finally show ?thesis using add b' loc assms(2) by (auto simp: twtimer_start_def wheel_def)
qed

lemma stop_wheel:
  assumes "wheel s"
  shows "fst (twtimer_stop s t) = (if t \<in> pending s then 0 else -1)" "wheel (snd (twtimer_stop s t))"
    "pending (snd (twtimer_stop s t)) = pending s - {t}" "same_timers s (snd (twtimer_stop s t))"
proof -
  obtain L where L: "in_order s L" "L Local = []" using assms(1) by (auto simp: wheel_def)
  obtain L' where L': "in_order (snd (twtimer_stop s t)) L'" "\<And>l. set (L' l) = set (L l) - {t}" "length (L' Local) \<le> length (L Local)"
    "fst (twtimer_stop s t) = (if pprev (timers s t) = None then -1 else 0)" "same_timers s (snd (twtimer_stop s t))"
    using stop_in_order [OF L(1), of t] by metis
  have loc: "L' Local = []" using L'(3) L(2) by simp
  show "fst (twtimer_stop s t) = (if t \<in> pending s then 0 else -1)" using L'(4) by (simp add: pending_def)
  show "wheel (snd (twtimer_stop s t))" using L'(1) loc by (auto simp: wheel_def)
  show "pending (snd (twtimer_stop s t)) = pending s - {t}"
    unfolding pending_waiting(1) [OF L'(1) loc] pending_waiting(1) [OF L] waiting_def L'(2) by auto
  show "same_timers s (snd (twtimer_stop s t))" by (rule L'(5))
qed

section \<open>Properties\<close>

text \<open>A wheel at clock \<open>0\<close> with timer \<open>7\<close> started for time \<open>300\<close>.\<close>

definition wheel_example :: time_wheel where
  "wheel_example = (let m = (\<lambda>_. \<lparr>expire = 300, next = None, pprev = None, ontimeout = True\<rparr>)
     in snd (the (twtimer_start (the (time_wheel_create True 0 m)) 7)))"

lemma wheel_example: "wheel wheel_example" "pending wheel_example = {7}" "clock wheel_example = 0"
    "expire (timers wheel_example t) = 300"
proof -
  let ?m = "\<lambda>_ :: nat. \<lparr>expire = 300, next = None, pprev = None, ontimeout = True\<rparr>"
  obtain w where w: "time_wheel_create True 0 ?m = Some w" "wheel w" "pending w = {}" "clock w = 0"
    using create_wheel [of ?m 0] by auto
  have tm: "timers w = ?m" using w(1) by (auto simp: time_wheel_create_def)
  then obtain s' where s': "twtimer_start w 7 = Some (0, s')" "wheel s'" "pending s' = {7}" "same_timers w s'"
    using start_wheel [of w 7] w by auto
  have "wheel_example = s'" using w(1) s'(1) by (simp add: wheel_example_def)
  then show "wheel wheel_example" "pending wheel_example = {7}" "clock wheel_example = 0"
    "expire (timers wheel_example t) = 300"
    using s'(2-4) w(4) tm by (simp_all add: same_timers_def)
qed

text \<open>C22: with callbacks that leave the wheel alone, when the clock goes forward to \<open>c\<close>, \<open>twtimer_process\<close> returns and
  calls the callbacks of exactly the started timers that are set to a time before \<open>c\<close>: each once, in the order of the
  ticks, and at the tick it is set to, or at the first tick when it was set to a time in the past.  The other timers
  stay started.\<close>

theorem twtimer_process_exact:
  assumes "wheel s" "clock s < c"
  shows "\<exists>r s' fired. twtimer_process (callback (\<lambda>_ _. [])) s c = Some (r, s', fired) \<and> wheel s' \<and> clock s' = c
    \<and> pending s' = {t \<in> pending s. c \<le> expire (timers s t)}
    \<and> set fired = {(t, e, k). t \<in> pending s \<and> e = expire (timers s t) \<and> e < c \<and> k = max e (clock s)}
    \<and> distinct (map fst fired) \<and> sorted (map (\<lambda>(t, e, k). k) fired)"
  using process_loop_plain [OF assms] unfolding due_def by (auto simp: twtimer_process_def)

theorem twtimer_process_exact_witness:
  "\<exists>r s' fired. twtimer_process (callback (\<lambda>_ _. [])) wheel_example 301 = Some (r, s', fired)
     \<and> pending s' = {} \<and> set fired = {(7, 300, 300)}"
proof -
  have "clock wheel_example < 301" by (simp add: wheel_example)
  from twtimer_process_exact [OF wheel_example(1) this] obtain r s' fired where
    f: "twtimer_process (callback (\<lambda>_ _. [])) wheel_example 301 = Some (r, s', fired)"
      "pending s' = {t \<in> pending wheel_example. 301 \<le> expire (timers wheel_example t)}"
      "set fired = {(t, e, k). t \<in> pending wheel_example \<and> e = expire (timers wheel_example t) \<and> e < 301
         \<and> k = max e (clock wheel_example)}"
    by blast
  then show ?thesis by (auto simp: wheel_example)
qed

text \<open>The value that is returned is 0 whenever the clock has gone forward, and no time to sleep.\<close>

lemma twtimer_process_returns_0:
  assumes "wheel s" "clock s < c"
  shows "map_option fst (twtimer_process (callback (\<lambda>_ _. [])) s c) = Some 0"
  using process_loop_plain [OF assms] by (auto simp: twtimer_process_def)

text \<open>C29: whatever timers the callbacks start and stop, as long as they break no assertion, \<open>twtimer_process\<close>
  returns with the clock moved to \<open>c\<close> (it never goes back), no callback is called before the time its timer is
  set to, the ticks are those between the old and the new clock, and the wheel is again well formed.\<close>

theorem twtimer_process_callbacks:
  assumes "admissible script" "wheel s"
  shows "\<exists>r s' fired. twtimer_process (callback script) s c = Some (r, s', fired) \<and> wheel s' \<and> clock s' = max (clock s) c
    \<and> (\<forall>(t, e, k) \<in> set fired. e \<le> k \<and> clock s \<le> k \<and> k < c)"
  using process_loop_safe [OF assms, of c] by (auto simp: twtimer_process_def)

text \<open>A timer that starts itself again ten ticks later.\<close>

definition periodic :: "nat \<Rightarrow> time_wheel \<Rightarrow> action list" where
  "periodic t s = (if pprev (timers s t) = None then [Start t (clock s + 10)] else [])"

lemma periodic_admissible: "admissible periodic"
  unfolding admissible_def
proof (intro allI impI)
  fix t and s :: time_wheel and L :: "link \<Rightarrow> nat list"
  have "unat (clock s + 10) \<le> unat (clock s) + 10" by (simp add: unat_word_ariths)
  then obtain b where "twtimer_bucket (clock s) (clock s + 10) = Some b"
    using twtimer_bucket_Some [of "clock s + 10" "clock s"] by auto
  then show "callback periodic t s \<noteq> None"
    by (simp add: callback_def periodic_def twtimer_start_def twtimer_add_def set_timer_fields)
qed

theorem twtimer_process_callbacks_witness:
  "\<exists>r s' fired. twtimer_process (callback periodic) wheel_example 1000 = Some (r, s', fired) \<and> wheel s' \<and> clock s' = 1000
     \<and> (\<forall>(t, e, k) \<in> set fired. e \<le> k \<and> k < 1000)"
proof -
  from twtimer_process_callbacks [OF periodic_admissible wheel_example(1), of 1000] obtain r s' fired where
    "twtimer_process (callback periodic) wheel_example 1000 = Some (r, s', fired)" "wheel s'" "clock s' = max (clock wheel_example) 1000"
    "\<forall>(t, e, k) \<in> set fired. e \<le> k \<and> clock wheel_example \<le> k \<and> k < 1000" by blast
  then show ?thesis by (auto simp: wheel_example)
qed

text \<open>C35: a new wheel has no timer started.  Starting a timer with a callback and a time at most \<open>2 ^ 32\<close> ticks
  ahead adds it to the started ones; a timer that is started already, has no callback, or is set further
  ahead breaks an assertion.  Stopping takes a started timer out and returns \<open>0\<close>, and returns \<open>-1\<close> for a
  timer that is not started.  The number of started timers is the field \<open>count\<close>.\<close>

theorem twtimer_start_stop:
  assumes "wheel s"
  shows "((\<forall>u. pprev (mem u) = None \<and> next (mem u) = None) \<longrightarrow>
       (\<exists>w. time_wheel_create True c mem = Some w \<and> wheel w \<and> pending w = {} \<and> clock w = c))
    \<and> (if ontimeout (timers s t) \<and> t \<notin> pending s \<and> unat (expire (timers s t)) < unat (clock s) + 2 ^ 32
       then \<exists>s'. twtimer_start s t = Some (0, s') \<and> wheel s' \<and> pending s' = insert t (pending s) \<and> same_timers s s'
       else twtimer_start s t = None)
    \<and> (\<exists>s'. twtimer_stop s t = (if t \<in> pending s then 0 else -1, s') \<and> wheel s' \<and> pending s' = pending s - {t} \<and> same_timers s s')
    \<and> finite (pending s) \<and> tw_count s = of_nat (card (pending s))"
proof (intro conjI)
  show "(\<forall>u. pprev (mem u) = None \<and> next (mem u) = None) \<longrightarrow>
       (\<exists>w. time_wheel_create True c mem = Some w \<and> wheel w \<and> pending w = {} \<and> clock w = c)"
    using create_wheel [of mem c] by blast
  have far: "twtimer_bucket c e = None" if "\<not> unat e < unat c + 2 ^ 32" for c e :: u64
  proof -
    have "c \<le> e" "2 ^ 32 \<le> unat e - unat c" using that by (auto simp: word_le_nat_alt)
    then show ?thesis by (simp add: twtimer_bucket_nat Let_def)
  qed
  show "if ontimeout (timers s t) \<and> t \<notin> pending s \<and> unat (expire (timers s t)) < unat (clock s) + 2 ^ 32
       then \<exists>s'. twtimer_start s t = Some (0, s') \<and> wheel s' \<and> pending s' = insert t (pending s) \<and> same_timers s s'
       else twtimer_start s t = None"
    using start_wheel [OF assms] far by (auto simp: twtimer_start_def twtimer_add_def pending_def)
  show "\<exists>s'. twtimer_stop s t = (if t \<in> pending s then 0 else -1, s') \<and> wheel s' \<and> pending s' = pending s - {t} \<and> same_timers s s'"
    using stop_wheel [OF assms, of t] by (cases "twtimer_stop s t") auto
  obtain L where "in_order s L" "L Local = []" using assms by (auto simp: wheel_def)
  then show "finite (pending s)" "tw_count s = of_nat (card (pending s))" using pending_waiting by auto
qed

theorem twtimer_start_stop_witness:
  "fst (twtimer_stop wheel_example 7) = 0 \<and> fst (twtimer_stop wheel_example 8) = -1
   \<and> twtimer_start wheel_example 7 = None \<and> tw_count wheel_example = 1"
proof -
  have "twtimer_start wheel_example 7 = None" "fst (twtimer_stop wheel_example 7) = 0" "tw_count wheel_example = 1"
    using twtimer_start_stop [OF wheel_example(1), of "\<lambda>_. \<lparr>expire = 0, next = None, pprev = None, ontimeout = True\<rparr>" 0 7]
    by (auto simp: wheel_example)
  moreover have "fst (twtimer_stop wheel_example 8) = -1"
    using twtimer_start_stop [OF wheel_example(1), of "\<lambda>_. \<lparr>expire = 0, next = None, pprev = None, ontimeout = True\<rparr>" 0 8]
    by (auto simp: wheel_example)
  ultimately show ?thesis by simp
qed

end
