(* ===== verification/Rb_Shape.thy ===== *)
theory Rb_Shape
  imports Prelude "HOL-Library.Tree"
begin

text \<open>
  Binary trees of linked nodes with parent pointers and colours, as both red-black trees of the sources have
  them.  A node is known by its address, a word, \<open>0\<close> being \<open>NULL\<close>; a store gives the links and the colour of
  the node at an address.  The algorithms move up and down a tree, so a place in a tree is described by the
  subtree there and the frames on the way up to the root.
\<close>

section \<open>Trees in a store\<close>

type_synonym rbt = "(u64 \<times> bool) tree"

record node_view =
  lft :: u64
  rgt :: u64
  par :: u64
  blk :: bool

fun ptr :: "rbt \<Rightarrow> u64" where
  "ptr Leaf = 0" |
  "ptr (Node l (a, c) r) = a"

fun addrs :: "rbt \<Rightarrow> u64 list" where
  "addrs Leaf = []" |
  "addrs (Node l (a, c) r) = addrs l @ a # addrs r"

text \<open>The subtree \<open>t\<close> is in the store, and its root has the parent pointer \<open>p\<close>.\<close>

fun shape :: "(u64 \<Rightarrow> node_view) \<Rightarrow> u64 \<Rightarrow> rbt \<Rightarrow> bool" where
  "shape v p Leaf \<longleftrightarrow> True" |
  "shape v p (Node l (a, c) r) \<longleftrightarrow>
     a \<noteq> 0 \<and> par (v a) = p \<and> blk (v a) = c \<and> lft (v a) = ptr l \<and> rgt (v a) = ptr r \<and> shape v a l \<and> shape v a r"

lemma shape_cong: "(\<And>a. a \<in> set (addrs t) \<Longrightarrow> v' a = v a) \<Longrightarrow> shape v' p t = shape v p t"
  by (induction t arbitrary: p rule: addrs.induct) auto

lemma shape_other: "shape v p t \<Longrightarrow> (\<And>a. a \<in> set (addrs t) \<Longrightarrow> v' a = v a) \<Longrightarrow> shape v' p t"
  using shape_cong by blast

lemma shape_not_0: "shape v p t \<Longrightarrow> a \<in> set (addrs t) \<Longrightarrow> a \<noteq> 0"
  by (induction t arbitrary: p rule: addrs.induct) auto

lemma ptr_0: "shape v p t \<Longrightarrow> ptr t = 0 \<longleftrightarrow> t = Leaf"
  by (cases t rule: addrs.cases) auto

lemma ptr_in: "t \<noteq> Leaf \<Longrightarrow> ptr t \<in> set (addrs t)"
  by (cases t rule: addrs.cases) auto

text \<open>Giving the root of a subtree another parent.\<close>

definition reparent :: "u64 \<Rightarrow> u64 \<Rightarrow> (u64 \<Rightarrow> node_view) \<Rightarrow> u64 \<Rightarrow> node_view" where
  "reparent q p v = (if q = 0 then v else v(q := (v q)\<lparr>par := p\<rparr>))"

lemma shape_reparent:
  assumes "shape v p t" "distinct (addrs t)" "\<And>a. a \<in> set (addrs t) \<Longrightarrow> v' a = reparent (ptr t) p' v a"
  shows "shape v' p' t"
proof (cases t rule: addrs.cases)
  case (2 l a c r)
  have "shape v' a l" "shape v' a r"
    using assms 2 by (auto simp: reparent_def elim!: shape_other)
  then show ?thesis using assms 2 by (auto simp: reparent_def)
qed simp

section \<open>Places in a tree\<close>

datatype frame = FL u64 bool rbt | FR rbt u64 bool

fun fill :: "frame \<Rightarrow> rbt \<Rightarrow> rbt" where
  "fill (FL a c r) t = Node t (a, c) r" |
  "fill (FR l a c) t = Node l (a, c) t"

fun plug :: "frame list \<Rightarrow> rbt \<Rightarrow> rbt" where
  "plug [] t = t" |
  "plug (f # fs) t = plug fs (fill f t)"

fun up :: "frame list \<Rightarrow> u64" where
  "up [] = 0" |
  "up (FL a c r # fs) = a" |
  "up (FR l a c # fs) = a"

fun caddrs :: "frame list \<Rightarrow> u64 set" where
  "caddrs [] = {}" |
  "caddrs (FL a c r # fs) = insert a (set (addrs r) \<union> caddrs fs)" |
  "caddrs (FR l a c # fs) = insert a (set (addrs l) \<union> caddrs fs)"

text \<open>The frames are in the store around a subtree at \<open>q\<close>.\<close>

fun cshape :: "(u64 \<Rightarrow> node_view) \<Rightarrow> u64 \<Rightarrow> frame list \<Rightarrow> bool" where
  "cshape v q [] \<longleftrightarrow> True" |
  "cshape v q (FL a c r # fs) \<longleftrightarrow>
     a \<noteq> 0 \<and> par (v a) = up fs \<and> blk (v a) = c \<and> lft (v a) = q \<and> rgt (v a) = ptr r \<and> shape v a r \<and> cshape v a fs" |
  "cshape v q (FR l a c # fs) \<longleftrightarrow>
     a \<noteq> 0 \<and> par (v a) = up fs \<and> blk (v a) = c \<and> rgt (v a) = q \<and> lft (v a) = ptr l \<and> shape v a l \<and> cshape v a fs"

lemma shape_plug: "shape v 0 (plug fs t) \<longleftrightarrow> shape v (up fs) t \<and> cshape v (ptr t) fs"
  by (induction fs arbitrary: t rule: caddrs.induct) auto

lemma ptr_fill [simp]: "ptr (fill f t) = up [f]"
  by (cases f) auto

lemma ptr_plug: "fs \<noteq> [] \<Longrightarrow> ptr (plug fs t) = ptr (plug fs t')"
proof (induction fs arbitrary: t t')
  case (Cons f fs)
  show ?case
  proof (cases "fs = []")
    case False
    then show ?thesis using Cons.IH [of "fill f t" "fill f t'"] by simp
  qed simp
qed simp

lemma set_addrs_plug: "set (addrs (plug fs t)) = caddrs fs \<union> set (addrs t)"
  by (induction fs arbitrary: t rule: caddrs.induct) auto

fun before :: "frame list \<Rightarrow> u64 list" where
  "before [] = []" |
  "before (FL a c r # fs) = before fs" |
  "before (FR l a c # fs) = before fs @ addrs l @ [a]"

fun behind :: "frame list \<Rightarrow> u64 list" where
  "behind [] = []" |
  "behind (FL a c r # fs) = a # addrs r @ behind fs" |
  "behind (FR l a c # fs) = behind fs"

lemma addrs_plug: "addrs (plug fs t) = before fs @ addrs t @ behind fs"
  by (induction fs arbitrary: t rule: caddrs.induct) auto

lemma caddrs_eq: "caddrs fs = set (before fs) \<union> set (behind fs)"
  by (induction fs rule: caddrs.induct) auto

lemma distinct_plug: "distinct (addrs (plug fs t)) \<longleftrightarrow>
    distinct (before fs @ behind fs) \<and> distinct (addrs t) \<and> caddrs fs \<inter> set (addrs t) = {}"
  unfolding addrs_plug caddrs_eq by auto

lemma cshape_other:
  "cshape v q fs \<Longrightarrow> (\<And>a. a \<in> caddrs fs \<Longrightarrow> v' a = v a) \<Longrightarrow> cshape v' q fs"
  by (induction fs arbitrary: q rule: caddrs.induct) (auto elim!: shape_other)

lemma up_in: "fs \<noteq> [] \<Longrightarrow> up fs \<in> caddrs fs"
  by (cases fs rule: caddrs.cases) auto

text \<open>Hanging another subtree into the hole.\<close>

definition rehang :: "u64 \<Rightarrow> frame list \<Rightarrow> (u64 \<Rightarrow> node_view) \<Rightarrow> u64 \<Rightarrow> node_view" where
  "rehang q' fs v = (case fs of [] \<Rightarrow> v
     | FL a c r # _ \<Rightarrow> v(a := (v a)\<lparr>lft := q'\<rparr>) | FR l a c # _ \<Rightarrow> v(a := (v a)\<lparr>rgt := q'\<rparr>))"

lemma cshape_rehang:
  assumes "cshape v q fs" "distinct (before fs @ behind fs)" "\<And>a. a \<in> caddrs fs \<Longrightarrow> v' a = rehang q' fs v a"
  shows "cshape v' q' fs"
proof (cases fs rule: caddrs.cases)
  case (2 a c r gs)
  have "shape v' a r" using assms 2 by (auto simp: rehang_def elim!: shape_other)
  moreover have "cshape v' a gs" using assms 2 by (auto simp: rehang_def caddrs_eq elim!: cshape_other)
  ultimately show ?thesis using assms(1) assms(3) [of a] 2 by (auto simp: rehang_def)
next
  case (3 l a c gs)
  have "shape v' a l" using assms 3 by (auto simp: rehang_def elim!: shape_other)
  moreover have "cshape v' a gs" using assms 3 by (auto simp: rehang_def caddrs_eq elim!: cshape_other)
  ultimately show ?thesis using assms(1) assms(3) [of a] 3 by (auto simp: rehang_def)
qed simp

section \<open>Whole trees\<close>

definition tree_in :: "(u64 \<Rightarrow> node_view) \<Rightarrow> u64 \<Rightarrow> rbt \<Rightarrow> bool" where
  "tree_in v root t \<longleftrightarrow> root = ptr t \<and> shape v 0 t \<and> distinct (addrs t)"

definition new_root :: "u64 \<Rightarrow> frame list \<Rightarrow> u64 \<Rightarrow> u64" where
  "new_root q fs root = (if fs = [] then q else root)"

text \<open>Replacing the subtree at a place.\<close>

lemma tree_in_replace:
  assumes "tree_in v root (plug fs t)" "shape v' (up fs) t'" "distinct (addrs t')" "set (addrs t') \<inter> caddrs fs = {}"
    and "\<And>x. x \<in> caddrs fs \<Longrightarrow> v' x = rehang (ptr t') fs v x"
  shows "tree_in v' (new_root (ptr t') fs root) (plug fs t')"
proof -
  have old: "cshape v (ptr t) fs" "distinct (before fs @ behind fs)" "root = ptr (plug fs t)"
    using assms(1) by (auto simp: tree_in_def shape_plug distinct_plug)
  have "cshape v' (ptr t') fs" using cshape_rehang [OF old(1,2)] assms(5) by blast
  moreover have "new_root (ptr t') fs root = ptr (plug fs t')"
    using ptr_plug [of fs t t'] old(3) by (simp add: new_root_def)
  ultimately show ?thesis using assms(2-4) old(2) by (auto simp: tree_in_def shape_plug distinct_plug)
qed

lemma rehang_same: "cshape v q fs \<Longrightarrow> rehang q fs v = v"
  by (cases fs rule: caddrs.cases) (auto simp: rehang_def)

text \<open>Painting a node.\<close>

lemma tree_in_paint:
  assumes "tree_in v root (plug fs (Node l (a, c) r))" "v' = v(a := (v a)\<lparr>blk := c'\<rparr>)"
  shows "tree_in v' root (plug fs (Node l (a, c') r))"
proof -
  have old: "shape v (up fs) (Node l (a, c) r)" "cshape v a fs" "distinct (addrs (Node l (a, c) r))"
      "caddrs fs \<inter> set (addrs (Node l (a, c) r)) = {}" "root = ptr (plug fs (Node l (a, c) r))"
    using assms(1) by (auto simp: tree_in_def shape_plug distinct_plug)
  have "shape v' a l" "shape v' a r" using old(1,3) by (auto simp: assms(2) elim!: shape_other)
  then have "shape v' (up fs) (Node l (a, c') r)" using old(1) by (auto simp: assms(2))
  moreover have "v' x = rehang a fs v x" if "x \<in> caddrs fs" for x
    using rehang_same [OF old(2)] old(4) that by (auto simp: assms(2))
  ultimately have "tree_in v' (new_root a fs root) (plug fs (Node l (a, c') r))"
    using tree_in_replace [OF assms(1), of v' "Node l (a, c') r"] old(3,4) by auto
  moreover have "new_root a fs root = root" using old(5) by (cases "fs = []") (auto simp: new_root_def)
  ultimately show ?thesis by simp
qed

text \<open>Rotations.\<close>

lemma tree_in_rotate_left:
  assumes "tree_in v root (plug fs (Node l (a, c) (Node m (b, d) r)))"
    and "\<And>x. x \<in> caddrs fs \<Longrightarrow> v' x = rehang b fs v x"
    and "v' a = (v a)\<lparr>rgt := ptr m, par := b\<rparr>" "v' b = (v b)\<lparr>lft := a, par := up fs\<rparr>"
    and "\<And>x. x \<in> set (addrs m) \<Longrightarrow> v' x = reparent (ptr m) a v x"
    and "\<And>x. x \<in> set (addrs l) \<union> set (addrs r) \<Longrightarrow> v' x = v x"
  shows "tree_in v' (new_root b fs root) (plug fs (Node (Node l (a, c) m) (b, d) r))"
proof -
  have old: "shape v (up fs) (Node l (a, c) (Node m (b, d) r))" "distinct (addrs (Node l (a, c) (Node m (b, d) r)))"
      "caddrs fs \<inter> set (addrs (Node l (a, c) (Node m (b, d) r))) = {}"
    using assms(1) by (auto simp: tree_in_def shape_plug distinct_plug)
  have sub: "shape v a l" "shape v b m" "shape v b r" "distinct (addrs m)" using old(1,2) by simp_all
  have "shape v' a m" by (rule shape_reparent [OF sub(2,4) assms(5)])
  moreover have "shape v' a l" "shape v' b r" using shape_other sub(1,3) assms(6) by blast+
  ultimately have "shape v' (up fs) (Node (Node l (a, c) m) (b, d) r)" using old(1) by (simp add: assms(3,4))
  then show ?thesis
    using tree_in_replace [OF assms(1), of v' "Node (Node l (a, c) m) (b, d) r"] old(2,3) assms(2)
    by (simp add: Int_commute)
qed

lemma tree_in_rotate_right:
  assumes "tree_in v root (plug fs (Node (Node l (b, d) m) (a, c) r))"
    and "\<And>x. x \<in> caddrs fs \<Longrightarrow> v' x = rehang b fs v x"
    and "v' a = (v a)\<lparr>lft := ptr m, par := b\<rparr>" "v' b = (v b)\<lparr>rgt := a, par := up fs\<rparr>"
    and "\<And>x. x \<in> set (addrs m) \<Longrightarrow> v' x = reparent (ptr m) a v x"
    and "\<And>x. x \<in> set (addrs l) \<union> set (addrs r) \<Longrightarrow> v' x = v x"
  shows "tree_in v' (new_root b fs root) (plug fs (Node l (b, d) (Node m (a, c) r)))"
proof -
  have old: "shape v (up fs) (Node (Node l (b, d) m) (a, c) r)" "distinct (addrs (Node (Node l (b, d) m) (a, c) r))"
      "caddrs fs \<inter> set (addrs (Node (Node l (b, d) m) (a, c) r)) = {}"
    using assms(1) by (auto simp: tree_in_def shape_plug distinct_plug)
  have sub: "shape v b l" "shape v b m" "shape v a r" "distinct (addrs m)" using old(1,2) by simp_all
  have "shape v' a m" by (rule shape_reparent [OF sub(2,4) assms(5)])
  moreover have "shape v' b l" "shape v' a r" using shape_other sub(1,3) assms(6) by blast+
  ultimately have "shape v' (up fs) (Node l (b, d) (Node m (a, c) r))" using old(1) by (simp add: assms(3,4))
  then show ?thesis
    using tree_in_replace [OF assms(1), of v' "Node l (b, d) (Node m (a, c) r)"] old(2,3) assms(2)
    by (simp add: Int_commute)
qed

end
