(* ===== verification/Rb_Balance.thy ===== *)
theory Rb_Balance
  imports Rb_Shape
begin

text \<open>
  The colours and the black heights of red-black trees, for a tree and for the frames around a place in it.
  A colour is \<open>True\<close> for black.
\<close>

fun color :: "rbt \<Rightarrow> bool" where
  "color Leaf = True" |
  "color (Node l (a, c) r) = c"

fun paint :: "bool \<Rightarrow> rbt \<Rightarrow> rbt" where
  "paint c Leaf = Leaf" |
  "paint c (Node l (a, _) r) = Node l (a, c) r"

fun bheight :: "rbt \<Rightarrow> nat" where
  "bheight Leaf = 0" |
  "bheight (Node l (a, c) r) = bheight l + (if c then 1 else 0)"

fun no_red_red :: "rbt \<Rightarrow> bool" where
  "no_red_red Leaf \<longleftrightarrow> True" |
  "no_red_red (Node l (a, c) r) \<longleftrightarrow> (c \<or> color l \<and> color r) \<and> no_red_red l \<and> no_red_red r"

fun even_black :: "rbt \<Rightarrow> bool" where
  "even_black Leaf \<longleftrightarrow> True" |
  "even_black (Node l (a, c) r) \<longleftrightarrow> bheight l = bheight r \<and> even_black l \<and> even_black r"

definition red_black :: "rbt \<Rightarrow> bool" where
  "red_black t \<longleftrightarrow> color t \<and> no_red_red t \<and> even_black t"

fun sib :: "frame \<Rightarrow> rbt" where
  "sib (FL a c r) = r" |
  "sib (FR l a c) = l"

fun fcol :: "frame \<Rightarrow> bool" where
  "fcol (FL a c r) = c" |
  "fcol (FR l a c) = c"

definition top_black :: "frame list \<Rightarrow> bool" where
  "top_black fs \<longleftrightarrow> fs \<noteq> [] \<and> fcol (hd fs)"

text \<open>Frames that a subtree of black height \<open>h\<close> fits into; a red node in them has a black parent.\<close>

fun fits :: "frame list \<Rightarrow> nat \<Rightarrow> bool" where
  "fits [] h \<longleftrightarrow> True" |
  "fits (f # fs) h \<longleftrightarrow> no_red_red (sib f) \<and> even_black (sib f) \<and> bheight (sib f) = h
     \<and> (fcol f \<or> color (sib f) \<and> top_black fs) \<and> fits fs (h + (if fcol f then 1 else 0))"

lemma plug_no_red_red:
  "no_red_red (plug fs t) \<and> even_black (plug fs t) \<and> color (plug fs t) \<Longrightarrow>
   no_red_red t \<and> even_black t \<and> fits fs (bheight t) \<and> (color t \<or> top_black fs)"
proof (induction fs arbitrary: t)
  case (Cons f fs)
  have IH: "no_red_red (fill f t) \<and> even_black (fill f t) \<and> fits fs (bheight (fill f t)) \<and> (color (fill f t) \<or> top_black fs)"
    using Cons.prems by (intro Cons.IH) simp
  show ?case
  proof (cases f)
    case (FL a c r)
    then show ?thesis using IH by (cases c) (auto simp: top_black_def)
  next
    case (FR l a c)
    then show ?thesis using IH by (cases c) (auto simp: top_black_def)
  qed
qed simp

lemma plug_red_black:
  "no_red_red t \<Longrightarrow> even_black t \<Longrightarrow> fits fs (bheight t) \<Longrightarrow> color t \<or> top_black fs \<Longrightarrow> red_black (plug fs t)"
proof (induction fs arbitrary: t)
  case (Cons f fs)
  have "no_red_red (fill f t)" "even_black (fill f t)" "fits fs (bheight (fill f t))" "color (fill f t) \<or> top_black fs"
    using Cons.prems by (cases f; auto simp: top_black_def)+
  from Cons.IH [OF this] show ?case by simp
qed (simp add: red_black_def top_black_def)

lemma red_black_plug: "red_black (plug fs t) \<longleftrightarrow> no_red_red t \<and> even_black t \<and> fits fs (bheight t) \<and> (color t \<or> top_black fs)"
  using plug_red_black [of t fs] plug_no_red_red [of fs t] unfolding red_black_def by blast

lemma paint_simps [simp]:
  "no_red_red t \<Longrightarrow> no_red_red (paint True t)" "even_black (paint c t) = even_black t" "color (paint True t)"
  "addrs (paint c t) = addrs t" "ptr (paint c t) = ptr t"
  by (cases t rule: color.cases; auto)+

lemma addrs_fill_cong: "addrs t' = addrs t \<Longrightarrow> addrs (fill f t') = addrs (fill f t)"
  by (cases f) auto

lemma addrs_plug_cong: "addrs t' = addrs t \<Longrightarrow> addrs (plug fs t') = addrs (plug fs t)"
  by (simp add: addrs_plug)

text \<open>The height of a red-black tree is at most twice the logarithm of its size.\<close>

lemma size_addrs: "length (addrs t) = size t"
  by (induction t rule: addrs.induct) auto

lemma height_bheight: "no_red_red t \<Longrightarrow> even_black t \<Longrightarrow> height t \<le> 2 * bheight t + (if color t then 0 else 1)"
  by (induction t rule: addrs.induct) (auto split: if_splits)

lemma bheight_size: "even_black t \<Longrightarrow> 2 ^ bheight t \<le> size t + 1"
  by (induction t rule: addrs.induct) auto

lemma red_black_height:
  assumes "red_black t"
  shows "2 ^ height t \<le> (length (addrs t) + 1)\<^sup>2"
proof -
  have "2 ^ height t \<le> (2 :: nat) ^ (2 * bheight t)"
    using height_bheight [of t] assms by (auto simp: red_black_def)
  also have "\<dots> = (2 ^ bheight t)\<^sup>2" by (simp only: power_even_eq)
  also have "\<dots> \<le> (length (addrs t) + 1)\<^sup>2"
    using power_mono [OF bheight_size [of t], of 2] assms by (simp add: red_black_def size_addrs)
  finally show ?thesis .
qed

end
