(* ===== verification/Rbtree.thy ===== *)
theory Rbtree
  imports Rb_Balance
begin

text \<open>
  The red-black tree of \<open>src/rbtree/rbtree.c\<close>.  The nodes are structures of the caller, known by their addresses;
  the parent pointer and the colour share the word \<open>rb_parent_color\<close>.  The state has the memory of the nodes and
  the pointer \<open>root->rb_node\<close>.  Following a null pointer is \<open>None\<close>.
\<close>

section \<open>The code\<close>

record rb_node =
  rb_parent_color :: u64
  rb_right :: u64
  rb_left :: u64

record rb_root =
  nodes :: "u64 \<Rightarrow> rb_node"
  root_node :: u64

definition rb_parent :: "rb_node \<Rightarrow> u64" where
  "rb_parent r = rb_parent_color r AND NOT 3"

definition rb_color :: "rb_node \<Rightarrow> u64" where
  "rb_color r = rb_parent_color r AND 1"

definition rb_is_red :: "rb_node \<Rightarrow> bool" where
  "rb_is_red r \<longleftrightarrow> rb_color r = 0"

definition rb_is_black :: "rb_node \<Rightarrow> bool" where
  "rb_is_black r \<longleftrightarrow> rb_color r \<noteq> 0"

text \<open>Reading and writing the node at an address.\<close>

definition node_at :: "rb_root \<Rightarrow> u64 \<Rightarrow> rb_node option" where
  "node_at s p = (if p = 0 then None else Some (nodes s p))"

definition put :: "u64 \<Rightarrow> (rb_node \<Rightarrow> rb_node) \<Rightarrow> rb_root \<Rightarrow> rb_root option" where
  "put p f s = (if p = 0 then None else Some (s\<lparr>nodes := (nodes s)(p := f (nodes s p))\<rparr>))"

definition set_left :: "u64 \<Rightarrow> u64 \<Rightarrow> rb_root \<Rightarrow> rb_root option" where
  "set_left p v = put p (\<lambda>n. n\<lparr>rb_left := v\<rparr>)"

definition set_right :: "u64 \<Rightarrow> u64 \<Rightarrow> rb_root \<Rightarrow> rb_root option" where
  "set_right p v = put p (\<lambda>n. n\<lparr>rb_right := v\<rparr>)"

definition rb_set_red :: "u64 \<Rightarrow> rb_root \<Rightarrow> rb_root option" where
  "rb_set_red r = put r (\<lambda>n. n\<lparr>rb_parent_color := rb_parent_color n AND NOT 1\<rparr>)"

definition rb_set_black :: "u64 \<Rightarrow> rb_root \<Rightarrow> rb_root option" where
  "rb_set_black r = put r (\<lambda>n. n\<lparr>rb_parent_color := rb_parent_color n OR 1\<rparr>)"

definition rb_set_parent :: "u64 \<Rightarrow> u64 \<Rightarrow> rb_root \<Rightarrow> rb_root option" where
  "rb_set_parent rb p = put rb (\<lambda>n. n\<lparr>rb_parent_color := (rb_parent_color n AND 3) OR p\<rparr>)"

definition rb_set_color :: "u64 \<Rightarrow> u64 \<Rightarrow> rb_root \<Rightarrow> rb_root option" where
  "rb_set_color rb c = put rb (\<lambda>n. n\<lparr>rb_parent_color := (rb_parent_color n AND NOT 1) OR c\<rparr>)"

text \<open>\<open>if (child) rb_set_parent(child, p)\<close>.\<close>

definition parent_if :: "u64 \<Rightarrow> u64 \<Rightarrow> rb_root \<Rightarrow> rb_root option" where
  "parent_if child p s = (if child \<noteq> 0 then rb_set_parent child p s else Some s)"

text \<open>Replacing the child \<open>node\<close> of \<open>parent\<close>, or the root when there is no parent; the code looks at the left
  or at the right link first.\<close>

definition replace_left_first :: "u64 \<Rightarrow> u64 \<Rightarrow> u64 \<Rightarrow> rb_root \<Rightarrow> rb_root option" where
  "replace_left_first parent node new s =
     (if parent \<noteq> 0 then do {
        p \<leftarrow> node_at s parent;
        if rb_left p = node then set_left parent new s else set_right parent new s }
      else Some (s\<lparr>root_node := new\<rparr>))"

definition replace_right_first :: "u64 \<Rightarrow> u64 \<Rightarrow> u64 \<Rightarrow> rb_root \<Rightarrow> rb_root option" where
  "replace_right_first parent node new s =
     (if parent \<noteq> 0 then do {
        p \<leftarrow> node_at s parent;
        if rb_right p = node then set_right parent new s else set_left parent new s }
      else Some (s\<lparr>root_node := new\<rparr>))"

definition rb_rotate_left :: "u64 \<Rightarrow> rb_root \<Rightarrow> rb_root option" where
  "rb_rotate_left node s = do {
     n \<leftarrow> node_at s node;
     let right = rb_right n;
     let parent = rb_parent n;
     r \<leftarrow> node_at s right;
     s \<leftarrow> set_right node (rb_left r) s;
     s \<leftarrow> parent_if (rb_left r) node s;
     s \<leftarrow> set_left right node s;
     s \<leftarrow> rb_set_parent right parent s;
     s \<leftarrow> replace_left_first parent node right s;
     rb_set_parent node right s }"

definition rb_rotate_right :: "u64 \<Rightarrow> rb_root \<Rightarrow> rb_root option" where
  "rb_rotate_right node s = do {
     n \<leftarrow> node_at s node;
     let left = rb_left n;
     let parent = rb_parent n;
     l \<leftarrow> node_at s left;
     s \<leftarrow> set_left node (rb_right l) s;
     s \<leftarrow> parent_if (rb_right l) node s;
     s \<leftarrow> set_right left node s;
     s \<leftarrow> rb_set_parent left parent s;
     s \<leftarrow> replace_right_first parent node left s;
     rb_set_parent node left s }"

text \<open>Whether a pointer is not null and its node red, and whether it is null or its node black.\<close>

definition red_at :: "rb_root \<Rightarrow> u64 \<Rightarrow> bool" where
  "red_at s p \<longleftrightarrow> p \<noteq> 0 \<and> rb_is_red (nodes s p)"

definition black_at :: "rb_root \<Rightarrow> u64 \<Rightarrow> bool" where
  "black_at s p \<longleftrightarrow> p = 0 \<or> rb_is_black (nodes s p)"

partial_function (option) insert_loop :: "u64 \<Rightarrow> rb_root \<Rightarrow> rb_root option" where
  "insert_loop node s = Option.bind (node_at s node) (\<lambda>n.
     let parent = rb_parent n in
     if \<not> red_at s parent then Some s
     else
       let gparent = rb_parent (nodes s parent) in
       Option.bind (node_at s gparent) (\<lambda>g.
         if parent = rb_left g
         then
           if red_at s (rb_right g)
           then Option.bind (rb_set_black (rb_right g) s) (\<lambda>s. Option.bind (rb_set_black parent s) (\<lambda>s.
                Option.bind (rb_set_red gparent s) (insert_loop gparent)))
           else
             Option.bind (if rb_right (nodes s parent) = node
               then Option.bind (rb_rotate_left parent s) (\<lambda>s. Some (parent, node, s)) else Some (node, parent, s))
             (\<lambda>(node, parent, s). Option.bind (rb_set_black parent s) (\<lambda>s. Option.bind (rb_set_red gparent s) (\<lambda>s.
                Option.bind (rb_rotate_right gparent s) (insert_loop node))))
         else
           if red_at s (rb_left g)
           then Option.bind (rb_set_black (rb_left g) s) (\<lambda>s. Option.bind (rb_set_black parent s) (\<lambda>s.
                Option.bind (rb_set_red gparent s) (insert_loop gparent)))
           else
             Option.bind (if rb_left (nodes s parent) = node
               then Option.bind (rb_rotate_right parent s) (\<lambda>s. Some (parent, node, s)) else Some (node, parent, s))
             (\<lambda>(node, parent, s). Option.bind (rb_set_black parent s) (\<lambda>s. Option.bind (rb_set_red gparent s) (\<lambda>s.
                Option.bind (rb_rotate_left gparent s) (insert_loop node))))))"

definition rb_insert_color :: "u64 \<Rightarrow> rb_root \<Rightarrow> rb_root option" where
  "rb_insert_color node s = do {
     s \<leftarrow> insert_loop node s;
     rb_set_black (root_node s) s }"

text \<open>What a \<open>struct rb_node **\<close> points to.\<close>

datatype rb_link = RootLink | LeftOf u64 | RightOf u64

fun set_link_to :: "rb_link \<Rightarrow> u64 \<Rightarrow> rb_root \<Rightarrow> rb_root option" where
  "set_link_to RootLink v s = Some (s\<lparr>root_node := v\<rparr>)" |
  "set_link_to (LeftOf p) v s = set_left p v s" |
  "set_link_to (RightOf p) v s = set_right p v s"

definition rb_link_node :: "u64 \<Rightarrow> u64 \<Rightarrow> rb_link \<Rightarrow> rb_root \<Rightarrow> rb_root option" where
  "rb_link_node node parent rb_link s = do {
     s \<leftarrow> put node (\<lambda>n. n\<lparr>rb_parent_color := parent, rb_right := 0, rb_left := 0\<rparr>) s;
     set_link_to rb_link node s }"

section \<open>Removal\<close>

text \<open>The parts of a round of \<open>__rb_erase_color\<close> when the node is the left child of its parent, and when it is
  the right one: a red sibling is rotated above the parent; a red inner nephew is rotated above the sibling; a red
  outer nephew lets the last rotation end the loop.\<close>

definition sibling_left :: "u64 \<Rightarrow> rb_root \<Rightarrow> rb_root option" where
  "sibling_left parent s = do {
     p \<leftarrow> node_at s parent;
     other \<leftarrow> node_at s (rb_right p);
     if rb_is_red other
     then do {
       s \<leftarrow> rb_set_black (rb_right p) s;
       s \<leftarrow> rb_set_red parent s;
       rb_rotate_left parent s }
     else Some s }"

definition inner_left :: "u64 \<Rightarrow> rb_root \<Rightarrow> rb_root option" where
  "inner_left other s = do {
     o1 \<leftarrow> node_at s other;
     if black_at s (rb_right o1)
     then do {
       s \<leftarrow> (if rb_left o1 \<noteq> 0 then rb_set_black (rb_left o1) s else Some s);
       s \<leftarrow> rb_set_red other s;
       rb_rotate_right other s }
     else Some s }"

definition outer_left :: "u64 \<Rightarrow> rb_root \<Rightarrow> rb_root option" where
  "outer_left parent s = do {
     p \<leftarrow> node_at s parent;
     let other = rb_right p;
     s \<leftarrow> rb_set_color other (rb_color p) s;
     s \<leftarrow> rb_set_black parent s;
     o1 \<leftarrow> node_at s other;
     s \<leftarrow> (if rb_right o1 \<noteq> 0 then rb_set_black (rb_right o1) s else Some s);
     rb_rotate_left parent s }"

definition sibling_right :: "u64 \<Rightarrow> rb_root \<Rightarrow> rb_root option" where
  "sibling_right parent s = do {
     p \<leftarrow> node_at s parent;
     other \<leftarrow> node_at s (rb_left p);
     if rb_is_red other
     then do {
       s \<leftarrow> rb_set_black (rb_left p) s;
       s \<leftarrow> rb_set_red parent s;
       rb_rotate_right parent s }
     else Some s }"

definition inner_right :: "u64 \<Rightarrow> rb_root \<Rightarrow> rb_root option" where
  "inner_right other s = do {
     o1 \<leftarrow> node_at s other;
     if black_at s (rb_left o1)
     then do {
       s \<leftarrow> (if rb_right o1 \<noteq> 0 then rb_set_black (rb_right o1) s else Some s);
       s \<leftarrow> rb_set_red other s;
       rb_rotate_left other s }
     else Some s }"

definition outer_right :: "u64 \<Rightarrow> rb_root \<Rightarrow> rb_root option" where
  "outer_right parent s = do {
     p \<leftarrow> node_at s parent;
     let other = rb_left p;
     s \<leftarrow> rb_set_color other (rb_color p) s;
     s \<leftarrow> rb_set_black parent s;
     o1 \<leftarrow> node_at s other;
     s \<leftarrow> (if rb_left o1 \<noteq> 0 then rb_set_black (rb_left o1) s else Some s);
     rb_rotate_right parent s }"

partial_function (option) erase_loop :: "u64 \<Rightarrow> u64 \<Rightarrow> rb_root \<Rightarrow> (u64 \<times> rb_root) option" where
  "erase_loop node parent s =
     (if black_at s node \<and> node \<noteq> root_node s
      then Option.bind (node_at s parent) (\<lambda>p.
       if rb_left p = node
       then Option.bind (sibling_left parent s) (\<lambda>s.
         Option.bind (node_at s parent) (\<lambda>p.
         Option.bind (node_at s (rb_right p)) (\<lambda>other.
           if black_at s (rb_left other) \<and> black_at s (rb_right other)
           then Option.bind (rb_set_red (rb_right p) s) (\<lambda>s. Option.bind (node_at s parent) (\<lambda>p.
                erase_loop parent (rb_parent p) s))
           else Option.bind (inner_left (rb_right p) s) (\<lambda>s. Option.bind (outer_left parent s) (\<lambda>s.
                Some (root_node s, s))))))
       else Option.bind (sibling_right parent s) (\<lambda>s.
         Option.bind (node_at s parent) (\<lambda>p.
         Option.bind (node_at s (rb_left p)) (\<lambda>other.
           if black_at s (rb_left other) \<and> black_at s (rb_right other)
           then Option.bind (rb_set_red (rb_left p) s) (\<lambda>s. Option.bind (node_at s parent) (\<lambda>p.
                erase_loop parent (rb_parent p) s))
           else Option.bind (inner_right (rb_left p) s) (\<lambda>s. Option.bind (outer_right parent s) (\<lambda>s.
                Some (root_node s, s)))))))
      else Some (node, s))"

definition rb_erase_color :: "u64 \<Rightarrow> u64 \<Rightarrow> rb_root \<Rightarrow> rb_root option" where
  "rb_erase_color node parent s = do {
     (node, s) \<leftarrow> erase_loop node parent s;
     if node \<noteq> 0 then rb_set_black node s else Some s }"

text \<open>\<open>while (n->rb_left) n = n->rb_left\<close>, and the same to the right.\<close>

partial_function (option) leftmost :: "u64 \<Rightarrow> rb_root \<Rightarrow> u64 option" where
  "leftmost node s = Option.bind (node_at s node) (\<lambda>n. if rb_left n \<noteq> 0 then leftmost (rb_left n) s else Some node)"

partial_function (option) rightmost :: "u64 \<Rightarrow> rb_root \<Rightarrow> u64 option" where
  "rightmost node s = Option.bind (node_at s node) (\<lambda>n. if rb_right n \<noteq> 0 then rightmost (rb_right n) s else Some node)"

text \<open>The two ways \<open>rb_erase\<close> takes a node out: a node with at most one child is replaced by it, another by its
  successor.\<close>

definition erase_one_child :: "u64 \<Rightarrow> u64 \<Rightarrow> rb_root \<Rightarrow> rb_root option" where
  "erase_one_child child node s = do {
     n \<leftarrow> node_at s node;
     let parent = rb_parent n;
     let color = rb_color n;
     s \<leftarrow> parent_if child parent s;
     s \<leftarrow> replace_left_first parent node child s;
     if color = 1 then rb_erase_color child parent s else Some s }"

definition take_out :: "u64 \<Rightarrow> u64 \<Rightarrow> rb_root \<Rightarrow> (u64 \<times> rb_root) option" where
  "take_out node old s = do {
     n \<leftarrow> node_at s node;
     let child = rb_right n;
     let parent = rb_parent n;
     s \<leftarrow> parent_if child parent s;
     if parent = old
     then do { s \<leftarrow> set_right parent child s; Some (node, s) }
     else do { s \<leftarrow> set_left parent child s; Some (parent, s) } }"

definition put_in_place :: "u64 \<Rightarrow> u64 \<Rightarrow> rb_root \<Rightarrow> rb_root option" where
  "put_in_place node old s = do {
     o1 \<leftarrow> node_at s old;
     s \<leftarrow> put node (\<lambda>n. n\<lparr>rb_parent_color := rb_parent_color o1, rb_right := rb_right o1, rb_left := rb_left o1\<rparr>) s;
     o1 \<leftarrow> node_at s old;
     s \<leftarrow> replace_left_first (rb_parent o1) old node s;
     o1 \<leftarrow> node_at s old;
     s \<leftarrow> rb_set_parent (rb_left o1) node s;
     o1 \<leftarrow> node_at s old;
     parent_if (rb_right o1) node s }"

definition erase_two_children :: "u64 \<Rightarrow> rb_root \<Rightarrow> rb_root option" where
  "erase_two_children old s = do {
     o1 \<leftarrow> node_at s old;
     node \<leftarrow> leftmost (rb_right o1) s;
     n \<leftarrow> node_at s node;
     let child = rb_right n;
     let color = rb_color n;
     (parent, s) \<leftarrow> take_out node old s;
     s \<leftarrow> put_in_place node old s;
     if color = 1 then rb_erase_color child parent s else Some s }"

definition rb_erase :: "u64 \<Rightarrow> rb_root \<Rightarrow> rb_root option" where
  "rb_erase node s = do {
     n \<leftarrow> node_at s node;
     if rb_left n = 0 then erase_one_child (rb_right n) node s
     else if rb_right n = 0 then erase_one_child (rb_left n) node s
     else erase_two_children node s }"

section \<open>Walking and replacing\<close>

definition rb_first :: "rb_root \<Rightarrow> u64 option" where
  "rb_first s = (if root_node s = 0 then Some 0 else leftmost (root_node s) s)"

definition rb_last :: "rb_root \<Rightarrow> u64 option" where
  "rb_last s = (if root_node s = 0 then Some 0 else rightmost (root_node s) s)"

partial_function (option) climb_next :: "u64 \<Rightarrow> rb_root \<Rightarrow> u64 option" where
  "climb_next node s = Option.bind (node_at s node) (\<lambda>n.
     let parent = rb_parent n in
     if parent \<noteq> 0 \<and> node = rb_right (nodes s parent) then climb_next parent s else Some parent)"

partial_function (option) climb_prev :: "u64 \<Rightarrow> rb_root \<Rightarrow> u64 option" where
  "climb_prev node s = Option.bind (node_at s node) (\<lambda>n.
     let parent = rb_parent n in
     if parent \<noteq> 0 \<and> node = rb_left (nodes s parent) then climb_prev parent s else Some parent)"

definition rb_next :: "u64 \<Rightarrow> rb_root \<Rightarrow> u64 option" where
  "rb_next node s = do {
     n \<leftarrow> node_at s node;
     if rb_right n \<noteq> 0 then leftmost (rb_right n) s else climb_next node s }"

definition rb_prev :: "u64 \<Rightarrow> rb_root \<Rightarrow> u64 option" where
  "rb_prev node s = do {
     n \<leftarrow> node_at s node;
     if rb_left n \<noteq> 0 then rightmost (rb_left n) s else climb_prev node s }"

definition rb_replace_node :: "u64 \<Rightarrow> u64 \<Rightarrow> rb_root \<Rightarrow> rb_root option" where
  "rb_replace_node victim new s = do {
     n \<leftarrow> node_at s victim;
     s \<leftarrow> replace_left_first (rb_parent n) victim new s;
     n \<leftarrow> node_at s victim;
     s \<leftarrow> parent_if (rb_left n) new s;
     n \<leftarrow> node_at s victim;
     s \<leftarrow> parent_if (rb_right n) new s;
     n \<leftarrow> node_at s victim;
     put new (\<lambda>_. n) s }"

text \<open>\<open>RB_EMPTY_ROOT\<close>, \<open>RB_EMPTY_NODE\<close> and \<open>RB_CLEAR_NODE\<close>.\<close>

definition RB_EMPTY_ROOT :: "rb_root \<Rightarrow> bool" where
  "RB_EMPTY_ROOT s \<longleftrightarrow> root_node s = 0"

definition RB_EMPTY_NODE :: "u64 \<Rightarrow> rb_root \<Rightarrow> bool option" where
  "RB_EMPTY_NODE node s = do { n \<leftarrow> node_at s node; Some (rb_parent n \<noteq> node) }"

definition RB_CLEAR_NODE :: "u64 \<Rightarrow> rb_root \<Rightarrow> rb_root option" where
  "RB_CLEAR_NODE node s = rb_set_parent node node s"

section \<open>Nodes in memory\<close>

definition view_of :: "rb_node \<Rightarrow> node_view" where
  "view_of n = \<lparr>lft = rb_left n, rgt = rb_right n, par = rb_parent n, blk = rb_is_black n\<rparr>"

definition aligned :: "u64 \<Rightarrow> bool" where
  "aligned p \<longleftrightarrow> p AND 3 = 0"

lemma low_bits: "(x :: u64) AND 3 = 0 \<longleftrightarrow> \<not> bit x 0 \<and> \<not> bit x 1"
proof
  assume "x AND 3 = 0"
  then have "\<not> bit (x AND 3) 0" "\<not> bit (x AND 3) 1" by simp_all
  then show "\<not> bit x 0 \<and> \<not> bit x 1" by (simp add: bit_simps)
next
  assume "\<not> bit x 0 \<and> \<not> bit x 1"
  then show "x AND 3 = 0" by (intro bit_word_eqI) (auto simp: bit_simps numeral_eq_Suc less_Suc_eq bit_Suc)
qed

end
