(* ===== verification/Rbtree_Rep.thy ===== *)
theory Rbtree_Rep
  imports Rbtree
begin

text \<open>
  The trees of \<open>src/rbtree/rbtree.c\<close> in memory: every macro and both rotations, as steps from one tree to another.
  The addresses of the nodes are multiples of four, so that the parent pointer and the colour do not disturb each
  other in \<open>rb_parent_color\<close>.
\<close>

definition vw :: "rb_root \<Rightarrow> u64 \<Rightarrow> node_view" where
  "vw s a = view_of (nodes s a)"

definition rep :: "rb_root \<Rightarrow> rbt \<Rightarrow> bool" where
  "rep s t \<longleftrightarrow> tree_in (vw s) (root_node s) t \<and> (\<forall>a \<in> set (addrs t). aligned a)"

lemma vw_fields:
  "lft (vw s a) = rb_left (nodes s a)" "rgt (vw s a) = rb_right (nodes s a)"
  "par (vw s a) = rb_parent (nodes s a)" "blk (vw s a) = rb_is_black (nodes s a)"
  by (simp_all add: vw_def view_of_def)

lemma rb_is_red_black: "rb_is_red n \<longleftrightarrow> \<not> rb_is_black n"
  by (simp add: rb_is_red_def rb_is_black_def)

lemma and_1_eq: "(x :: u64) AND 1 = 0 \<longleftrightarrow> \<not> bit x 0"
  by (simp add: and_one_eq bit_0 even_iff_mod_2_eq_zero)

lemma bit_3: "bit (3 :: u64) n \<longleftrightarrow> n = 0 \<or> n = 1"
proof -
  have "(3 :: u64) = mask 2" by (simp add: mask_eq_exp_minus_1)
  then have "bit (3 :: u64) n = bit (mask 2 :: u64) n" by (rule arg_cong)
  then show ?thesis by (auto simp only: bit_mask_iff) auto
qed

lemma aligned_bits: "aligned p \<longleftrightarrow> \<not> bit p 0 \<and> \<not> bit p 1"
  by (simp add: aligned_def low_bits)

lemma bit_not_3: "bit (NOT 3 :: u64) n \<longleftrightarrow> n < 64 \<and> n \<noteq> 0 \<and> n \<noteq> 1"
  using bit_3 [of n] by (simp only: bit_not_iff) simp

lemma word64_eqI: "(\<And>n. n < 64 \<Longrightarrow> bit x n = bit y n) \<Longrightarrow> x = (y :: u64)"
  by (rule bit_word_eqI) simp

lemma pack_parent: "aligned p \<Longrightarrow> ((x AND 3) OR p) AND NOT 3 = (p :: u64)"
  unfolding aligned_bits by (rule word64_eqI, unfold bit_and_iff bit_or_iff bit_not_3 bit_3) metis

lemma pack_parent_color: "aligned p \<Longrightarrow> ((x AND 3) OR p) AND 1 = 0 \<longleftrightarrow> (x :: u64) AND 1 = 0"
  by (simp add: and_1_eq bit_simps bit_3 aligned_bits)

lemma bit_not_1: "bit (NOT 1 :: u64) n \<longleftrightarrow> n < 64 \<and> n \<noteq> 0"
  by (simp only: bit_not_iff bit_1_iff) simp

lemma pack_red: "(x AND NOT 1) AND NOT 3 = x AND NOT (3 :: u64)" "(x AND NOT 1) AND 1 = (0 :: u64)"
proof -
  show "(x AND NOT 1) AND NOT 3 = x AND NOT (3 :: u64)"
    by (rule word64_eqI, unfold bit_and_iff bit_not_3 bit_not_1) blast
  show "(x AND NOT 1) AND 1 = (0 :: u64)"
    unfolding and_1_eq bit_and_iff bit_not_1 by blast
qed

lemma pack_black: "(x OR 1) AND NOT 3 = x AND NOT (3 :: u64)" "(x OR 1) AND 1 \<noteq> (0 :: u64)"
proof -
  show "(x OR 1) AND NOT 3 = x AND NOT (3 :: u64)"
    by (rule word64_eqI, unfold bit_and_iff bit_or_iff bit_not_3 bit_1_iff) blast
  show "(x OR 1) AND 1 \<noteq> (0 :: u64)" by (simp add: and_1_eq bit_simps)
qed

lemmas packs = pack_parent [simplified] pack_parent_color pack_red [simplified] pack_black [simplified]

text \<open>The writes, on the views.\<close>

lemma vw_put: "put p f s = Some s' \<Longrightarrow> vw s' = (vw s)(p := view_of (f (nodes s p))) \<and> root_node s' = root_node s"
  by (auto simp: put_def vw_def fun_eq_iff split: if_splits)

lemma put_ok: "p \<noteq> 0 \<Longrightarrow> \<exists>s'. put p f s = Some s' \<and> vw s' = (vw s)(p := view_of (f (nodes s p))) \<and> root_node s' = root_node s"
  by (auto simp: put_def vw_def fun_eq_iff)

lemma set_left_ok:
  "p \<noteq> 0 \<Longrightarrow> \<exists>s'. set_left p q s = Some s' \<and> vw s' = (vw s)(p := (vw s p)\<lparr>lft := q\<rparr>) \<and> root_node s' = root_node s"
  using put_ok [of p "\<lambda>n. n\<lparr>rb_left := q\<rparr>" s]
  by (simp add: set_left_def vw_def view_of_def rb_parent_def rb_is_black_def rb_color_def)

lemma set_right_ok:
  "p \<noteq> 0 \<Longrightarrow> \<exists>s'. set_right p q s = Some s' \<and> vw s' = (vw s)(p := (vw s p)\<lparr>rgt := q\<rparr>) \<and> root_node s' = root_node s"
  using put_ok [of p "\<lambda>n. n\<lparr>rb_right := q\<rparr>" s]
  by (simp add: set_right_def vw_def view_of_def rb_parent_def rb_is_black_def rb_color_def)

lemma set_parent_ok:
  "p \<noteq> 0 \<Longrightarrow> aligned q \<Longrightarrow>
   \<exists>s'. rb_set_parent p q s = Some s' \<and> vw s' = (vw s)(p := (vw s p)\<lparr>par := q\<rparr>) \<and> root_node s' = root_node s"
  using put_ok [of p "\<lambda>n. n\<lparr>rb_parent_color := (rb_parent_color n AND 3) OR q\<rparr>" s]
  by (simp add: rb_set_parent_def vw_def view_of_def rb_parent_def rb_is_black_def rb_color_def packs)

lemma set_red_ok:
  "p \<noteq> 0 \<Longrightarrow> \<exists>s'. rb_set_red p s = Some s' \<and> vw s' = (vw s)(p := (vw s p)\<lparr>blk := False\<rparr>) \<and> root_node s' = root_node s"
  using put_ok [of p "\<lambda>n. n\<lparr>rb_parent_color := rb_parent_color n AND NOT 1\<rparr>" s]
  by (simp add: rb_set_red_def vw_def view_of_def rb_parent_def rb_is_black_def rb_color_def packs)

lemma set_black_ok:
  "p \<noteq> 0 \<Longrightarrow> \<exists>s'. rb_set_black p s = Some s' \<and> vw s' = (vw s)(p := (vw s p)\<lparr>blk := True\<rparr>) \<and> root_node s' = root_node s"
  using put_ok [of p "\<lambda>n. n\<lparr>rb_parent_color := rb_parent_color n OR 1\<rparr>" s]
  by (simp add: rb_set_black_def vw_def view_of_def rb_parent_def rb_is_black_def rb_color_def packs)

lemma rb_color_cases: "rb_color n = (if rb_is_black n then 1 else 0)"
  by (simp add: rb_color_def rb_is_black_def and_one_eq mod_2_eq_odd)

lemma set_color_0: "rb_set_color p 0 s = rb_set_red p s"
  by (simp add: rb_set_color_def rb_set_red_def)

lemma set_color_1: "rb_set_color p 1 s = rb_set_black p s"
proof -
  have "(x AND NOT 1) OR 1 = x OR (1 :: u64)" for x
    by (rule word64_eqI, unfold bit_and_iff bit_or_iff bit_not_1 bit_1_iff) (metis possible_bit_0)
  then show ?thesis by (simp only: rb_set_color_def rb_set_black_def)
qed

lemma set_color_ok:
  "p \<noteq> 0 \<Longrightarrow> \<exists>s'. rb_set_color p (rb_color n) s = Some s' \<and> vw s' = (vw s)(p := (vw s p)\<lparr>blk := rb_is_black n\<rparr>)
    \<and> root_node s' = root_node s"
  using set_red_ok [of p s] set_black_ok [of p s]
  by (cases "rb_is_black n") (simp_all add: rb_color_cases set_color_0 set_color_1)

lemma aligned_0 [simp]: "aligned 0"
  by (simp add: aligned_def)

lemma parent_if_ok:
  assumes "aligned p"
  shows "\<exists>s'. parent_if q p s = Some s' \<and> vw s' = reparent q p (vw s) \<and> root_node s' = root_node s"
  using set_parent_ok [of q p s] assms by (auto simp: parent_if_def reparent_def)

section \<open>Steps on trees\<close>

lemma rep_plug: "rep s (plug fs t) \<Longrightarrow> shape (vw s) (up fs) t \<and> cshape (vw s) (ptr t) fs"
  by (simp add: rep_def tree_in_def shape_plug)

lemma rep_distinct: "rep s t \<Longrightarrow> distinct (addrs t)"
  by (simp add: rep_def tree_in_def)

lemma rep_root: "rep s t \<Longrightarrow> root_node s = ptr t"
  by (simp add: rep_def tree_in_def)

lemma rep_aligned: "rep s t \<Longrightarrow> a \<in> set (addrs t) \<Longrightarrow> aligned a"
  by (simp add: rep_def)

lemma rep_aligned_up: "rep s (plug fs t) \<Longrightarrow> aligned (up fs)"
  using up_in [of fs] by (cases "fs = []") (auto simp: rep_def set_addrs_plug)

text \<open>The node at a place, and the node above it.\<close>

lemma rep_node:
  assumes "rep s (plug fs (Node l (a, c) r))"
  shows "a \<noteq> 0" "rb_left (nodes s a) = ptr l" "rb_right (nodes s a) = ptr r" "rb_parent (nodes s a) = up fs"
    "rb_is_black (nodes s a) = c"
  using rep_plug [OF assms] by (simp_all add: vw_fields)

lemma rep_above_left:
  assumes "rep s (plug (FL p c r # fs) t)"
  shows "p \<noteq> 0" "rb_left (nodes s p) = ptr t" "rb_right (nodes s p) = ptr r" "rb_parent (nodes s p) = up fs"
    "rb_is_black (nodes s p) = c"
  using rep_plug [OF assms] by (simp_all add: vw_fields)

lemma rep_above_right:
  assumes "rep s (plug (FR l p c # fs) t)"
  shows "p \<noteq> 0" "rb_left (nodes s p) = ptr l" "rb_right (nodes s p) = ptr t" "rb_parent (nodes s p) = up fs"
    "rb_is_black (nodes s p) = c"
  using rep_plug [OF assms] by (simp_all add: vw_fields)

lemma rep_paint:
  assumes "rep s (plug fs (Node l (a, c) r))" "vw s' = (vw s)(a := (vw s a)\<lparr>blk := d\<rparr>)" "root_node s' = root_node s"
  shows "rep s' (plug fs (Node l (a, d) r))"
  using assms tree_in_paint [of "vw s" "root_node s" fs l a c r "vw s'" d]
  by (simp add: rep_def set_addrs_plug)

lemma rep_set_red:
  "rep s (plug fs (Node l (a, c) r)) \<Longrightarrow> \<exists>s'. rb_set_red a s = Some s' \<and> rep s' (plug fs (Node l (a, False) r))"
  using set_red_ok [of a s] rep_node(1) [of s fs l a c r] rep_paint [of s fs l a c r] by blast

lemma rep_set_black:
  "rep s (plug fs (Node l (a, c) r)) \<Longrightarrow> \<exists>s'. rb_set_black a s = Some s' \<and> rep s' (plug fs (Node l (a, True) r))"
  using set_black_ok [of a s] rep_node(1) [of s fs l a c r] rep_paint [of s fs l a c r] by blast

lemma rep_set_color:
  "rep s (plug fs (Node l (a, c) r)) \<Longrightarrow>
   \<exists>s'. rb_set_color a (rb_color n) s = Some s' \<and> rep s' (plug fs (Node l (a, rb_is_black n) r))"
  using set_color_ok [of a n s] rep_node(1) [of s fs l a c r] rep_paint [of s fs l a c r] by blast

text \<open>Replacing a child: the node above has the old child on one side only.\<close>

definition child_of :: "u64 \<Rightarrow> frame list \<Rightarrow> (u64 \<Rightarrow> node_view) \<Rightarrow> bool" where
  "child_of q fs v \<longleftrightarrow> (case fs of [] \<Rightarrow> True
     | FL a c r # _ \<Rightarrow> a \<noteq> 0 \<and> lft (v a) = q \<and> rgt (v a) \<noteq> q
     | FR l a c # _ \<Rightarrow> a \<noteq> 0 \<and> rgt (v a) = q \<and> lft (v a) \<noteq> q)"

lemma rep_child_of:
  assumes "rep s (plug fs t)" "t \<noteq> Leaf"
  shows "child_of (ptr t) fs (vw s)"
proof (cases fs rule: caddrs.cases)
  case (2 a c r gs)
  have "ptr r \<noteq> ptr t"
    using ptr_in [of r] ptr_in [of t] assms(2) rep_distinct [OF assms(1)] ptr_0 [of "vw s" "up fs" t] rep_plug [OF assms(1)]
    unfolding addrs_plug 2 by (cases "r = Leaf") auto
  then show ?thesis using rep_plug [OF assms(1)] 2 by (simp add: child_of_def)
next
  case (3 l a c gs)
  have "ptr l \<noteq> ptr t"
    using ptr_in [of l] ptr_in [of t] assms(2) rep_distinct [OF assms(1)] ptr_0 [of "vw s" "up fs" t] rep_plug [OF assms(1)]
    unfolding addrs_plug 3 by (cases "l = Leaf") auto
  then show ?thesis using rep_plug [OF assms(1)] 3 by (simp add: child_of_def)
qed (simp add: child_of_def)

lemma replace_left_first_ok:
  assumes "child_of q fs (vw s)"
  shows "\<exists>s'. replace_left_first (up fs) q q' s = Some s' \<and> vw s' = rehang q' fs (vw s) \<and> root_node s' = new_root q' fs (root_node s)"
proof (cases fs rule: caddrs.cases)
  case 1
  then show ?thesis by (simp add: replace_left_first_def rehang_def new_root_def vw_def fun_eq_iff)
next
  case (2 a c r gs)
  then show ?thesis using assms set_left_ok [of a q' s]
    by (simp add: replace_left_first_def rehang_def new_root_def child_of_def node_at_def vw_fields)
next
  case (3 l a c gs)
  then show ?thesis using assms set_right_ok [of a q' s]
    by (simp add: replace_left_first_def rehang_def new_root_def child_of_def node_at_def vw_fields)
qed

lemma replace_right_first_ok:
  assumes "child_of q fs (vw s)"
  shows "\<exists>s'. replace_right_first (up fs) q q' s = Some s' \<and> vw s' = rehang q' fs (vw s) \<and> root_node s' = new_root q' fs (root_node s)"
proof (cases fs rule: caddrs.cases)
  case 1
  then show ?thesis by (simp add: replace_right_first_def rehang_def new_root_def vw_def fun_eq_iff)
next
  case (2 a c r gs)
  then show ?thesis using assms set_left_ok [of a q' s]
    by (simp add: replace_right_first_def rehang_def new_root_def child_of_def node_at_def vw_fields)
next
  case (3 l a c gs)
  then show ?thesis using assms set_right_ok [of a q' s]
    by (simp add: replace_right_first_def rehang_def new_root_def child_of_def node_at_def vw_fields)
qed

lemma rehang_other: "x \<noteq> up fs \<Longrightarrow> rehang q fs v x = v x"
  by (cases fs rule: caddrs.cases) (auto simp: rehang_def)

lemma rehang_cong: "fs = [] \<or> v (up fs) = w (up fs) \<Longrightarrow> v x = w x \<Longrightarrow> rehang q fs v x = rehang q fs w x"
  by (cases fs rule: caddrs.cases) (auto simp: rehang_def)

lemma child_of_cong: "fs = [] \<or> v (up fs) = w (up fs) \<Longrightarrow> child_of q fs v = child_of q fs w"
  by (cases fs rule: caddrs.cases) (auto simp: child_of_def)

lemma reparent_other: "x \<noteq> q \<Longrightarrow> reparent q p v x = v x"
  by (simp add: reparent_def)

text \<open>The rotations.\<close>

lemma rotated_left:
  assumes T: "tree_in v root (plug fs (Node l (a, c) (Node m (b, d) r)))"
    and v1: "v1 = reparent (ptr m) a (v(a := (v a)\<lparr>rgt := ptr m\<rparr>))"
    and v2: "v2 = v1(b := (v1 b)\<lparr>lft := a, par := up fs\<rparr>)" and v3: "v3 = rehang b fs v2"
  shows "fs = [] \<or> v2 (up fs) = v (up fs)"
    and "tree_in (v3(a := (v3 a)\<lparr>par := b\<rparr>)) (new_root b fs root) (plug fs (Node (Node l (a, c) m) (b, d) r))"
proof -
  have dist: "a \<noteq> b" "a \<notin> caddrs fs" "b \<notin> caddrs fs" "set (addrs m) \<inter> caddrs fs = {}"
      "a \<notin> set (addrs m)" "b \<notin> set (addrs m)"
      "a \<notin> set (addrs l) \<union> set (addrs r)" "b \<notin> set (addrs l) \<union> set (addrs r)"
      "set (addrs m) \<inter> (set (addrs l) \<union> set (addrs r)) = {}"
      "caddrs fs \<inter> (set (addrs l) \<union> set (addrs r)) = {}"
    using T unfolding tree_in_def distinct_plug by auto
  have pm: "m = Leaf \<and> ptr m = 0 \<or> ptr m \<in> set (addrs m)" using ptr_in [of m] by (cases "m = Leaf") auto
  have same: "v2 x = v x" if "x \<in> caddrs fs" for x
    using that dist(2-4) pm by (auto simp: v1 v2 reparent_def)
  then show up2: "fs = [] \<or> v2 (up fs) = v (up fs)" using up_in by blast
  have off: "v3 x = v2 x" if "x \<notin> caddrs fs" for x
    using that up_in [of fs] rehang_other [of x fs b] by (cases "fs = []") (auto simp: v3 rehang_def)
  show "tree_in (v3(a := (v3 a)\<lparr>par := b\<rparr>)) (new_root b fs root) (plug fs (Node (Node l (a, c) m) (b, d) r))"
  proof (rule tree_in_rotate_left [OF T])
    show "(v3(a := (v3 a)\<lparr>par := b\<rparr>)) x = rehang b fs v x" if "x \<in> caddrs fs" for x
      using that dist(2) rehang_cong [of fs v2 v x b] up2 same [of x] by (auto simp: v3)
    show "(v3(a := (v3 a)\<lparr>par := b\<rparr>)) a = (v a)\<lparr>rgt := ptr m, par := b\<rparr>"
      using dist(1,2,5) pm off [of a] by (auto simp: v1 v2 reparent_def)
    show "(v3(a := (v3 a)\<lparr>par := b\<rparr>)) b = (v b)\<lparr>lft := a, par := up fs\<rparr>"
      using dist(1,3,6) pm off [of b] by (auto simp: v1 v2 reparent_def)
    show "(v3(a := (v3 a)\<lparr>par := b\<rparr>)) x = reparent (ptr m) a v x" if "x \<in> set (addrs m)" for x
    proof -
      have "x \<notin> caddrs fs" "x \<noteq> a" "x \<noteq> b" using that dist(4-6) by auto
      then show ?thesis using off [of x] by (simp add: v1 v2 reparent_def)
    qed
    show "(v3(a := (v3 a)\<lparr>par := b\<rparr>)) x = v x" if "x \<in> set (addrs l) \<union> set (addrs r)" for x
    proof -
      have "x \<notin> caddrs fs" "x \<noteq> a" "x \<noteq> b" "ptr m = 0 \<or> x \<noteq> ptr m" using that dist(7-10) pm by auto
      then show ?thesis using off [of x] by (auto simp: v1 v2 reparent_def)
    qed
  qed
qed

lemma rep_rotate_left:
  assumes T: "rep s (plug fs (Node l (a, c) (Node m (b, d) r)))"
  shows "\<exists>s'. rb_rotate_left a s = Some s' \<and> rep s' (plug fs (Node (Node l (a, c) m) (b, d) r))"
proof -
  note a = rep_node [OF T]
  have "rep s (plug (FR l a c # fs) (Node m (b, d) r))" using T by simp
  note b = rep_node [OF this]
  have al: "aligned a" "aligned b" using T by (simp_all add: rep_def set_addrs_plug)
  have tree: "tree_in (vw s) (root_node s) (plug fs (Node l (a, c) (Node m (b, d) r)))" using T by (simp add: rep_def)
  obtain s1 where s1: "set_right a (ptr m) s = Some s1" "vw s1 = (vw s)(a := (vw s a)\<lparr>rgt := ptr m\<rparr>)"
      "root_node s1 = root_node s"
    using set_right_ok [OF a(1)] by blast
  obtain s2 where s2: "parent_if (ptr m) a s1 = Some s2" "vw s2 = reparent (ptr m) a (vw s1)" "root_node s2 = root_node s1"
    using parent_if_ok [OF al(1)] by blast
  obtain s3 where s3: "set_left b a s2 = Some s3" "vw s3 = (vw s2)(b := (vw s2 b)\<lparr>lft := a\<rparr>)" "root_node s3 = root_node s2"
    using set_left_ok [OF b(1)] by blast
  obtain s4 where s4: "rb_set_parent b (up fs) s3 = Some s4" "vw s4 = (vw s3)(b := (vw s3 b)\<lparr>par := up fs\<rparr>)"
      "root_node s4 = root_node s3"
    using set_parent_ok [OF b(1) rep_aligned_up [OF T]] by blast
  have v4: "vw s4 = (vw s2)(b := (vw s2 b)\<lparr>lft := a, par := up fs\<rparr>)" by (simp add: s3 s4)
  note tree' = rotated_left [OF tree s2(2) [unfolded s1(2)] v4 refl]
  have "child_of a fs (vw s4)" using rep_child_of [OF T] child_of_cong [of fs "vw s4" "vw s" a] tree'(1) by simp
  from replace_left_first_ok [OF this, of b]
  obtain s5 where s5: "replace_left_first (up fs) a b s4 = Some s5" "vw s5 = rehang b fs (vw s4)"
      "root_node s5 = new_root b fs (root_node s4)" by blast
  obtain s6 where s6: "rb_set_parent a b s5 = Some s6" "vw s6 = (vw s5)(a := (vw s5 a)\<lparr>par := b\<rparr>)"
      "root_node s6 = root_node s5"
    using set_parent_ok [OF a(1) al(2)] by blast
  have "rep s6 (plug fs (Node (Node l (a, c) m) (b, d) r))"
    using tree'(2) T by (simp add: rep_def set_addrs_plug s1(3) s2(3) s3(3) s4(3) s5(2,3) s6(2,3))
  moreover have "rb_rotate_left a s = Some s6"
    using a b s1(1) s2(1) s3(1) s4(1) s5(1) s6(1) by (simp add: rb_rotate_left_def node_at_def)
  ultimately show ?thesis by blast
qed

lemma rotated_right:
  assumes T: "tree_in v root (plug fs (Node (Node l (b, d) m) (a, c) r))"
    and v1: "v1 = reparent (ptr m) a (v(a := (v a)\<lparr>lft := ptr m\<rparr>))"
    and v2: "v2 = v1(b := (v1 b)\<lparr>rgt := a, par := up fs\<rparr>)" and v3: "v3 = rehang b fs v2"
  shows "fs = [] \<or> v2 (up fs) = v (up fs)"
    and "tree_in (v3(a := (v3 a)\<lparr>par := b\<rparr>)) (new_root b fs root) (plug fs (Node l (b, d) (Node m (a, c) r)))"
proof -
  have dist: "a \<noteq> b" "a \<notin> caddrs fs" "b \<notin> caddrs fs" "set (addrs m) \<inter> caddrs fs = {}"
      "a \<notin> set (addrs m)" "b \<notin> set (addrs m)"
      "a \<notin> set (addrs l) \<union> set (addrs r)" "b \<notin> set (addrs l) \<union> set (addrs r)"
      "set (addrs m) \<inter> (set (addrs l) \<union> set (addrs r)) = {}"
      "caddrs fs \<inter> (set (addrs l) \<union> set (addrs r)) = {}"
    using T unfolding tree_in_def distinct_plug by auto
  have pm: "m = Leaf \<and> ptr m = 0 \<or> ptr m \<in> set (addrs m)" using ptr_in [of m] by (cases "m = Leaf") auto
  have same: "v2 x = v x" if "x \<in> caddrs fs" for x
    using that dist(2-4) pm by (auto simp: v1 v2 reparent_def)
  then show up2: "fs = [] \<or> v2 (up fs) = v (up fs)" using up_in by blast
  have off: "v3 x = v2 x" if "x \<notin> caddrs fs" for x
    using that up_in [of fs] rehang_other [of x fs b] by (cases "fs = []") (auto simp: v3 rehang_def)
  show "tree_in (v3(a := (v3 a)\<lparr>par := b\<rparr>)) (new_root b fs root) (plug fs (Node l (b, d) (Node m (a, c) r)))"
  proof (rule tree_in_rotate_right [OF T])
    show "(v3(a := (v3 a)\<lparr>par := b\<rparr>)) x = rehang b fs v x" if "x \<in> caddrs fs" for x
      using that dist(2) rehang_cong [of fs v2 v x b] up2 same [of x] by (auto simp: v3)
    show "(v3(a := (v3 a)\<lparr>par := b\<rparr>)) a = (v a)\<lparr>lft := ptr m, par := b\<rparr>"
      using dist(1,2,5) pm off [of a] by (auto simp: v1 v2 reparent_def)
    show "(v3(a := (v3 a)\<lparr>par := b\<rparr>)) b = (v b)\<lparr>rgt := a, par := up fs\<rparr>"
      using dist(1,3,6) pm off [of b] by (auto simp: v1 v2 reparent_def)
    show "(v3(a := (v3 a)\<lparr>par := b\<rparr>)) x = reparent (ptr m) a v x" if "x \<in> set (addrs m)" for x
    proof -
      have "x \<notin> caddrs fs" "x \<noteq> a" "x \<noteq> b" using that dist(4-6) by auto
      then show ?thesis using off [of x] by (simp add: v1 v2 reparent_def)
    qed
    show "(v3(a := (v3 a)\<lparr>par := b\<rparr>)) x = v x" if "x \<in> set (addrs l) \<union> set (addrs r)" for x
    proof -
      have "x \<notin> caddrs fs" "x \<noteq> a" "x \<noteq> b" "ptr m = 0 \<or> x \<noteq> ptr m" using that dist(7-10) pm by auto
      then show ?thesis using off [of x] by (auto simp: v1 v2 reparent_def)
    qed
  qed
qed

lemma rep_rotate_right:
  assumes T: "rep s (plug fs (Node (Node l (b, d) m) (a, c) r))"
  shows "\<exists>s'. rb_rotate_right a s = Some s' \<and> rep s' (plug fs (Node l (b, d) (Node m (a, c) r)))"
proof -
  note a = rep_node [OF T]
  have "rep s (plug (FL a c r # fs) (Node l (b, d) m))" using T by simp
  note b = rep_node [OF this]
  have al: "aligned a" "aligned b" using T by (simp_all add: rep_def set_addrs_plug)
  have tree: "tree_in (vw s) (root_node s) (plug fs (Node (Node l (b, d) m) (a, c) r))" using T by (simp add: rep_def)
  obtain s1 where s1: "set_left a (ptr m) s = Some s1" "vw s1 = (vw s)(a := (vw s a)\<lparr>lft := ptr m\<rparr>)"
      "root_node s1 = root_node s"
    using set_left_ok [OF a(1)] by blast
  obtain s2 where s2: "parent_if (ptr m) a s1 = Some s2" "vw s2 = reparent (ptr m) a (vw s1)" "root_node s2 = root_node s1"
    using parent_if_ok [OF al(1)] by blast
  obtain s3 where s3: "set_right b a s2 = Some s3" "vw s3 = (vw s2)(b := (vw s2 b)\<lparr>rgt := a\<rparr>)" "root_node s3 = root_node s2"
    using set_right_ok [OF b(1)] by blast
  obtain s4 where s4: "rb_set_parent b (up fs) s3 = Some s4" "vw s4 = (vw s3)(b := (vw s3 b)\<lparr>par := up fs\<rparr>)"
      "root_node s4 = root_node s3"
    using set_parent_ok [OF b(1) rep_aligned_up [OF T]] by blast
  have v4: "vw s4 = (vw s2)(b := (vw s2 b)\<lparr>rgt := a, par := up fs\<rparr>)" by (simp add: s3 s4)
  note tree' = rotated_right [OF tree s2(2) [unfolded s1(2)] v4 refl]
  have "child_of a fs (vw s4)" using rep_child_of [OF T] child_of_cong [of fs "vw s4" "vw s" a] tree'(1) by simp
  from replace_right_first_ok [OF this, of b]
  obtain s5 where s5: "replace_right_first (up fs) a b s4 = Some s5" "vw s5 = rehang b fs (vw s4)"
      "root_node s5 = new_root b fs (root_node s4)" by blast
  obtain s6 where s6: "rb_set_parent a b s5 = Some s6" "vw s6 = (vw s5)(a := (vw s5 a)\<lparr>par := b\<rparr>)"
      "root_node s6 = root_node s5"
    using set_parent_ok [OF a(1) al(2)] by blast
  have "rep s6 (plug fs (Node l (b, d) (Node m (a, c) r)))"
    using tree'(2) T by (simp add: rep_def set_addrs_plug s1(3) s2(3) s3(3) s4(3) s5(2,3) s6(2,3))
  moreover have "rb_rotate_right a s = Some s6"
    using a b s1(1) s2(1) s3(1) s4(1) s5(1) s6(1) by (simp add: rb_rotate_right_def node_at_def)
  ultimately show ?thesis by blast
qed

end
