(* ===== verification/Rbtree_Insert.thy ===== *)
theory Rbtree_Insert
  imports Rbtree_Rep
begin

text \<open>
  Insertion into the red-black tree of \<open>src/rbtree/rbtree.c\<close>: \<open>rb_link_node\<close> hangs a red leaf into the tree and
  \<open>rb_insert_color\<close> restores the colours.
\<close>

section \<open>Painting the neighbours of a place\<close>

fun fpaint :: "bool \<Rightarrow> frame \<Rightarrow> frame" where
  "fpaint d (FL a c r) = FL a d r" |
  "fpaint d (FR l a c) = FR l a d"

fun fsib :: "rbt \<Rightarrow> frame \<Rightarrow> frame" where
  "fsib u (FL a c r) = FL a c u" |
  "fsib u (FR l a c) = FR u a c"

lemma rep_black_ptr:
  "rep s (plug fs t) \<Longrightarrow> t \<noteq> Leaf \<Longrightarrow> \<exists>s'. rb_set_black (ptr t) s = Some s' \<and> rep s' (plug fs (paint True t))"
  using rep_set_black by (cases t rule: color.cases) auto

lemma rep_black_up:
  "rep s (plug (f # fs) t) \<Longrightarrow> \<exists>s'. rb_set_black (up [f]) s = Some s' \<and> rep s' (plug (fpaint True f # fs) t)"
  using rep_set_black [of s fs] by (cases f) auto

lemma rep_red_up:
  "rep s (plug (f # fs) t) \<Longrightarrow> \<exists>s'. rb_set_red (up [f]) s = Some s' \<and> rep s' (plug (fpaint False f # fs) t)"
  using rep_set_red [of s fs] by (cases f) auto

lemma rep_black_sib:
  assumes "rep s (plug (f # fs) t)" "sib f \<noteq> Leaf"
  shows "\<exists>s'. rb_set_black (ptr (sib f)) s = Some s' \<and> rep s' (plug (fsib (paint True (sib f)) f # fs) t)"
proof (cases f)
  case (FL a c r)
  then show ?thesis using rep_black_ptr [of s "FR t a c # fs" r] assms by simp
next
  case (FR l a c)
  then show ?thesis using rep_black_ptr [of s "FL a c t # fs" l] assms by simp
qed

lemma red_at_ptr: "rep s (plug fs t) \<Longrightarrow> red_at s (ptr t) \<longleftrightarrow> \<not> color t"
  using rep_node [of s fs] by (cases t rule: color.cases) (auto simp: red_at_def rb_is_red_black)

lemma red_at_up: "rep s (plug (f # fs) t) \<Longrightarrow> red_at s (up [f]) \<longleftrightarrow> \<not> fcol f"
  using rep_node [of s fs] by (cases f) (auto simp: red_at_def rb_is_red_black)

lemma red_at_sib:
  assumes "rep s (plug (f # fs) t)"
  shows "red_at s (ptr (sib f)) \<longleftrightarrow> \<not> color (sib f)"
proof (cases f)
  case (FL a c r)
  then show ?thesis using red_at_ptr [of s "FR t a c # fs" r] assms by simp
next
  case (FR l a c)
  then show ?thesis using red_at_ptr [of s "FL a c t # fs" l] assms by simp
qed

lemma red_not_leaf: "\<not> color t \<Longrightarrow> t \<noteq> Leaf"
  by auto

section \<open>One round of the loop\<close>

lemma insert_stop:
  assumes "rep s (plug fs (Node l (a, c) r))" "fs = [] \<or> fcol (hd fs)"
  shows "insert_loop a s = Some s"
proof -
  have "\<not> red_at s (up fs)"
  proof (cases fs)
    case (Cons f gs)
    then have "up fs = up [f]" by (cases f) auto
    then show ?thesis using Cons red_at_up [of s f gs "Node l (a, c) r"] assms by simp
  qed (simp add: red_at_def)
  then show ?thesis using rep_node [OF assms(1)] by (subst insert_loop.simps) (simp add: node_at_def)
qed

text \<open>The node has a red parent: what the loop reads.\<close>

lemma insert_reads:
  assumes "rep s (plug (f # g # gs) (Node l (a, c) r))" "\<not> fcol f"
  shows "a \<noteq> 0" "rb_parent (nodes s a) = up [f]" "red_at s (up [f])" "rb_parent (nodes s (up [f])) = up [g]"
    "up [g] \<noteq> 0"
  using rep_node [OF assms(1)] assms red_at_up [of s f "g # gs" "Node l (a, c) r"] rep_node [of s "g # gs"]
    rep_node [of s gs]
  by (cases f; cases g; simp)+

lemma insert_reads_left:
  assumes "rep s (plug (f # FL q d u # gs) (Node l (a, c) r))"
  shows "rb_left (nodes s q) = up [f]" "rb_right (nodes s q) = ptr u"
  using assms rep_node [of s gs "fill f (Node l (a, c) r)" q d u] by simp_all

lemma insert_reads_right:
  assumes "rep s (plug (f # FR u q d # gs) (Node l (a, c) r))"
  shows "rb_left (nodes s q) = ptr u" "up [f] \<noteq> ptr u"
proof -
  have "fill f (Node l (a, c) r) \<noteq> Leaf" by (cases f) simp_all
  then show "rb_left (nodes s q) = ptr u" "up [f] \<noteq> ptr u"
    using assms rep_node [of s gs u q d "fill f (Node l (a, c) r)"]
      rep_child_of [of s "FR u q d # gs" "fill f (Node l (a, c) r)"]
    by (simp_all add: child_of_def vw_fields)
qed

lemma insert_red_uncle:
  assumes T: "rep s (plug (f # g # gs) (Node l (a, c) r))" and red: "\<not> fcol f" "\<not> color (sib g)"
  shows "\<exists>s'. insert_loop a s = insert_loop (up [g]) s' \<and>
    rep s' (plug (fpaint True f # fpaint False (fsib (paint True (sib g)) g) # gs) (Node l (a, c) r))"
proof -
  note rd = insert_reads [OF T red(1)]
  let ?p = "fill f (Node l (a, c) r)" and ?h = "fsib (paint True (sib g)) g"
  have P: "rep s (plug (g # gs) ?p)" "?p \<noteq> Leaf" using T by (cases f; simp)+
  have uncle: "red_at s (ptr (sib g))" using red_at_sib [OF P(1)] red(2) by simp
  obtain s1 where s1: "rb_set_black (ptr (sib g)) s = Some s1" "rep s1 (plug (?h # gs) ?p)"
    using rep_black_sib [OF P(1) red_not_leaf [OF red(2)]] by blast
  have "rep s1 (plug (f # ?h # gs) (Node l (a, c) r))" using s1(2) by simp
  from rep_black_up [OF this]
  obtain s2 where s2: "rb_set_black (up [f]) s1 = Some s2" "rep s2 (plug (?h # gs) (fill (fpaint True f) (Node l (a, c) r)))"
    by auto
  have same: "up [?h] = up [g]" by (cases g) simp_all
  obtain s3 where s3: "rb_set_red (up [g]) s2 = Some s3"
      "rep s3 (plug (fpaint False ?h # gs) (fill (fpaint True f) (Node l (a, c) r)))"
    using rep_red_up [OF s2(2)] unfolding same by blast
  have "insert_loop a s = insert_loop (up [g]) s3"
  proof (cases g)
    case (FL q d u)
    then show ?thesis using rd uncle s1(1) s2(1) s3(1) insert_reads_left [OF T [unfolded FL]]
      by (subst insert_loop.simps) (simp add: node_at_def)
  next
    case (FR u q d)
    then show ?thesis using rd uncle s1(1) s2(1) s3(1) insert_reads_right [OF T [unfolded FR]]
      by (subst insert_loop.simps) (simp add: node_at_def)
  qed
  then show ?thesis using s3(2) by auto
qed

lemma rep_fix_right:
  assumes "rep s (plug gs (Node (Node x (p, c) y) (q, d) u))"
  shows "\<exists>s1 s2 s3. rb_set_black p s = Some s1 \<and> rb_set_red q s1 = Some s2 \<and> rb_rotate_right q s2 = Some s3 \<and>
    rep s3 (plug gs (Node x (p, True) (Node y (q, False) u)))"
proof -
  have "rep s (plug (FL q d u # gs) (Node x (p, c) y))" using assms by simp
  from rep_set_black [OF this] obtain s1 where s1: "rb_set_black p s = Some s1" "rep s1 (plug gs (Node (Node x (p, True) y) (q, d) u))"
    by auto
  from rep_set_red [OF s1(2)] obtain s2 where s2: "rb_set_red q s1 = Some s2" "rep s2 (plug gs (Node (Node x (p, True) y) (q, False) u))" by blast
  from rep_rotate_right [OF s2(2)] s1(1) s2(1) show ?thesis by blast
qed

lemma rep_fix_left:
  assumes "rep s (plug gs (Node u (q, d) (Node y (p, c) x)))"
  shows "\<exists>s1 s2 s3. rb_set_black p s = Some s1 \<and> rb_set_red q s1 = Some s2 \<and> rb_rotate_left q s2 = Some s3 \<and>
    rep s3 (plug gs (Node (Node u (q, False) y) (p, True) x))"
proof -
  have "rep s (plug (FR u q d # gs) (Node y (p, c) x))" using assms by simp
  from rep_set_black [OF this] obtain s1 where s1: "rb_set_black p s = Some s1" "rep s1 (plug gs (Node u (q, d) (Node y (p, True) x)))"
    by auto
  from rep_set_red [OF s1(2)] obtain s2 where s2: "rb_set_red q s1 = Some s2" "rep s2 (plug gs (Node u (q, False) (Node y (p, True) x)))" by blast
  from rep_rotate_left [OF s2(2)] s1(1) s2(1) show ?thesis by blast
qed

lemma insert_outer_left:
  assumes T: "rep s (plug (FL p False b # FL q True u # gs) (Node l (a, False) r))" and u: "color u"
  shows "\<exists>s'. insert_loop a s = Some s' \<and> rep s' (plug gs (Node (Node l (a, False) r) (p, True) (Node b (q, False) u)))"
proof -
  note rd = insert_reads [OF T, simplified]
  have "rep s (plug gs (Node (Node (Node l (a, False) r) (p, False) b) (q, True) u))" using T by simp
  then obtain s1 s2 s3 where s: "rb_set_black p s = Some s1" "rb_set_red q s1 = Some s2" "rb_rotate_right q s2 = Some s3"
      "rep s3 (plug gs (Node (Node l (a, False) r) (p, True) (Node b (q, False) u)))"
    using rep_fix_right by blast
  have "rb_right (nodes s p) \<noteq> a"
    using rep_child_of [OF T] by (simp add: child_of_def vw_fields)
  moreover have "\<not> red_at s (ptr u)" using red_at_sib [of s "FL q True u" gs] T u by simp
  moreover have "insert_loop a s3 = Some s3"
    using insert_stop [of s3 "FL p True (Node b (q, False) u) # gs" l a False r] s(4) by simp
  ultimately have "insert_loop a s = Some s3"
    using rd s(1-3) insert_reads_left [OF T] by (subst insert_loop.simps) (simp add: node_at_def)
  then show ?thesis using s(4) by blast
qed

lemma insert_outer_right:
  assumes T: "rep s (plug (FR b p False # FR u q True # gs) (Node l (a, False) r))" and u: "color u"
  shows "\<exists>s'. insert_loop a s = Some s' \<and> rep s' (plug gs (Node (Node u (q, False) b) (p, True) (Node l (a, False) r)))"
proof -
  note rd = insert_reads [OF T, simplified]
  have "rep s (plug gs (Node u (q, True) (Node b (p, False) (Node l (a, False) r))))" using T by simp
  then obtain s1 s2 s3 where s: "rb_set_black p s = Some s1" "rb_set_red q s1 = Some s2" "rb_rotate_left q s2 = Some s3"
      "rep s3 (plug gs (Node (Node u (q, False) b) (p, True) (Node l (a, False) r)))"
    using rep_fix_left by blast
  have "rb_left (nodes s p) \<noteq> a"
    using rep_child_of [OF T] by (simp add: child_of_def vw_fields)
  moreover have "\<not> red_at s (ptr u)" using red_at_sib [of s "FR u q True" gs] T u by simp
  moreover have "insert_loop a s3 = Some s3"
    using insert_stop [of s3 "FR (Node u (q, False) b) p True # gs" l a False r] s(4) by simp
  ultimately have "insert_loop a s = Some s3"
    using rd s(1-3) insert_reads_right [OF T] by (subst insert_loop.simps) (simp add: node_at_def)
  then show ?thesis using s(4) by blast
qed

lemma insert_inner_left:
  assumes T: "rep s (plug (FR b p False # FL q True u # gs) (Node l (a, False) r))" and u: "color u"
  shows "\<exists>s'. insert_loop a s = Some s' \<and> rep s' (plug gs (Node (Node b (p, False) l) (a, True) (Node r (q, False) u)))"
proof -
  note rd = insert_reads [OF T, simplified]
  have "rep s (plug (FL q True u # gs) (Node b (p, False) (Node l (a, False) r)))" using T by simp
  from rep_rotate_left [OF this]
  obtain s0 where s0: "rb_rotate_left p s = Some s0" "rep s0 (plug gs (Node (Node (Node b (p, False) l) (a, False) r) (q, True) u))" by auto
  from rep_fix_right [OF s0(2)]
  obtain s1 s2 s3 where s: "rb_set_black a s0 = Some s1" "rb_set_red q s1 = Some s2" "rb_rotate_right q s2 = Some s3"
      "rep s3 (plug gs (Node (Node b (p, False) l) (a, True) (Node r (q, False) u)))" by blast
  have "rb_right (nodes s p) = a"
    using rep_child_of [OF T] by (simp add: child_of_def vw_fields)
  moreover have "\<not> red_at s (ptr u)" using red_at_sib [of s "FL q True u" gs] T u by simp
  moreover have "insert_loop p s3 = Some s3"
    using insert_stop [of s3 "FL a True (Node r (q, False) u) # gs" b p False l] s(4) by simp
  ultimately have "insert_loop a s = Some s3"
    using rd s0(1) s(1-3) insert_reads_left [OF T] by (subst insert_loop.simps) (simp add: node_at_def)
  then show ?thesis using s(4) by blast
qed

lemma insert_inner_right:
  assumes T: "rep s (plug (FL p False b # FR u q True # gs) (Node l (a, False) r))" and u: "color u"
  shows "\<exists>s'. insert_loop a s = Some s' \<and> rep s' (plug gs (Node (Node u (q, False) l) (a, True) (Node r (p, False) b)))"
proof -
  note rd = insert_reads [OF T, simplified]
  have "rep s (plug (FR u q True # gs) (Node (Node l (a, False) r) (p, False) b))" using T by simp
  from rep_rotate_right [OF this]
  obtain s0 where s0: "rb_rotate_right p s = Some s0" "rep s0 (plug gs (Node u (q, True) (Node l (a, False) (Node r (p, False) b))))" by auto
  from rep_fix_left [OF s0(2)]
  obtain s1 s2 s3 where s: "rb_set_black a s0 = Some s1" "rb_set_red q s1 = Some s2" "rb_rotate_left q s2 = Some s3"
      "rep s3 (plug gs (Node (Node u (q, False) l) (a, True) (Node r (p, False) b)))" by blast
  have "rb_left (nodes s p) = a"
    using rep_child_of [OF T] by (simp add: child_of_def vw_fields)
  moreover have "\<not> red_at s (ptr u)" using red_at_sib [of s "FR u q True" gs] T u by simp
  moreover have "insert_loop p s3 = Some s3"
    using insert_stop [of s3 "FR (Node u (q, False) l) a True # gs" r p False b] s(4) by simp
  ultimately have "insert_loop a s = Some s3"
    using rd s0(1) s(1-3) insert_reads_right [OF T] by (subst insert_loop.simps) (simp add: node_at_def)
  then show ?thesis using s(4) by blast
qed

section \<open>The whole loop\<close>

lemma insert_black_uncle:
  assumes T: "rep s (plug (f # g # gs) t)" "t = Node l (a, False) r"
    and cols: "\<not> fcol f" "color (sib g)" "no_red_red t" "even_black t" "fits (f # g # gs) (bheight t)"
  shows "\<exists>s' t'. insert_loop a s = Some s' \<and> rep s' (plug gs t') \<and> addrs t' = addrs (fill g (fill f t)) \<and> red_black t'
    \<and> bheight t' = bheight (fill g (fill f t))"
proof (cases f)
  case f: (FL p c b)
  show ?thesis
  proof (cases g)
    case (FL q d u)
    then show ?thesis using insert_outer_left [of s p b q u gs l a r] T cols f by (fastforce simp: red_black_def top_black_def)
  next
    case (FR u q d)
    then show ?thesis using insert_inner_right [of s p b u q gs l a r] T cols f by (fastforce simp: red_black_def top_black_def)
  qed
next
  case f: (FR b p c)
  show ?thesis
  proof (cases g)
    case (FL q d u)
    then show ?thesis using insert_inner_left [of s b p q u gs l a r] T cols f by (fastforce simp: red_black_def top_black_def)
  next
    case (FR u q d)
    then show ?thesis using insert_outer_right [of s b p u q gs l a r] T cols f by (fastforce simp: red_black_def top_black_def)
  qed
qed

text \<open>After the red uncle the place is two levels up, and the node there is red.\<close>

lemma recolored:
  assumes "\<not> fcol f" "\<not> color (sib g)" "no_red_red t" "even_black t" "fits (f # g # gs) (bheight t)"
  shows "\<exists>l r. fill (fpaint False (fsib (paint True (sib g)) g)) (fill (fpaint True f) t) = Node l (up [g], False) r
      \<and> no_red_red (Node l (up [g], False) r) \<and> even_black (Node l (up [g], False) r)
      \<and> fits gs (bheight (Node l (up [g], False) r)) \<and> addrs (Node l (up [g], False) r) = addrs (fill g (fill f t))"
proof -
  obtain x u c y where u: "sib g = Node x (u, c) y" using assms(2) by (cases "sib g" rule: color.cases) auto
  then show ?thesis using assms by (cases f; cases g) (auto simp: top_black_def)
qed

lemma insert_loop_correct:
  assumes "rep s (plug fs (Node l (a, False) r))" "no_red_red (Node l (a, False) r)" "even_black (Node l (a, False) r)"
    "fits fs (bheight (Node l (a, False) r))"
  shows "\<exists>s' T. insert_loop a s = Some s' \<and> rep s' T \<and> addrs T = addrs (plug fs (Node l (a, False) r))
    \<and> no_red_red T \<and> even_black T"
  using assms
proof (induction "length fs" arbitrary: fs s l a r rule: less_induct)
  case less
  let ?t = "Node l (a, False) r"
  note T = less.prems(1) and nrr = less.prems(2) and eb = less.prems(3) and ft = less.prems(4)
  show ?case
  proof (cases "fs = [] \<or> fcol (hd fs)")
    case True
    then have "no_red_red (plug fs ?t) \<and> even_black (plug fs ?t)"
      using nrr eb ft plug_red_black [OF nrr eb ft] by (cases fs) (auto simp: top_black_def red_black_def)
    then show ?thesis using insert_stop [OF T True] T by blast
  next
    case False
    then obtain f g gs where fs: "fs = f # g # gs" and f: "\<not> fcol f"
      using ft by (cases fs; cases "tl fs") (auto simp: top_black_def)
    note T' = T [unfolded fs] and ft' = ft [unfolded fs]
    show ?thesis
    proof (cases "color (sib g)")
      case True
      from insert_black_uncle [OF T' refl f True nrr eb ft'] obtain s' t' where
        t': "insert_loop a s = Some s'" "rep s' (plug gs t')" "addrs t' = addrs (fill g (fill f ?t))" "red_black t'"
          "bheight t' = bheight (fill g (fill f ?t))" by blast
      have "fits gs (bheight t')" using ft' t'(5) f by (cases f; cases g) auto
      then have "red_black (plug gs t')" using t'(4) unfolding red_black_plug by (simp add: red_black_def)
      then show ?thesis using t'(1-3) addrs_plug_cong [OF t'(3), of gs] by (auto simp: fs red_black_def)
    next
      case False
      obtain s1 where s1: "insert_loop a s = insert_loop (up [g]) s1"
          "rep s1 (plug (fpaint True f # fpaint False (fsib (paint True (sib g)) g) # gs) ?t)"
        using insert_red_uncle [OF T' f False] by blast
      from recolored [OF f False nrr eb ft'] obtain l2 r2 where
        t2: "fill (fpaint False (fsib (paint True (sib g)) g)) (fill (fpaint True f) ?t) = Node l2 (up [g], False) r2"
          "no_red_red (Node l2 (up [g], False) r2)" "even_black (Node l2 (up [g], False) r2)"
          "fits gs (bheight (Node l2 (up [g], False) r2))" "addrs (Node l2 (up [g], False) r2) = addrs (fill g (fill f ?t))"
        by blast
      have "rep s1 (plug gs (Node l2 (up [g], False) r2))" using s1(2) t2(1) by simp
      moreover have "length gs < length fs" by (simp add: fs)
      ultimately obtain s2 T2 where
        "insert_loop (up [g]) s1 = Some s2" "rep s2 T2" "addrs T2 = addrs (plug gs (Node l2 (up [g], False) r2))"
        "no_red_red T2" "even_black T2" using less.hyps [of gs s1 l2 "up [g]" r2] t2(2-4) by blast
      then show ?thesis using addrs_plug_cong [OF t2(5), of gs] by (intro exI [of _ s2] exI [of _ T2]) (simp add: fs s1(1))
    qed
  qed
qed

section \<open>Inserting a node\<close>

lemma rb_insert_color_correct:
  assumes "rep s (plug fs (Node Leaf (a, False) Leaf))" "fits fs 0"
  shows "\<exists>s' T. rb_insert_color a s = Some s' \<and> rep s' T \<and> red_black T
    \<and> addrs T = addrs (plug fs (Node Leaf (a, False) Leaf))"
proof -
  obtain s1 T where T: "insert_loop a s = Some s1" "rep s1 T" "addrs T = addrs (plug fs (Node Leaf (a, False) Leaf))"
      "no_red_red T" "even_black T"
    using insert_loop_correct [OF assms(1)] assms(2) by auto
  have "T \<noteq> Leaf" using T(3) by (auto simp: addrs_plug)
  then obtain s2 where "rb_set_black (ptr T) s1 = Some s2" "rep s2 (paint True T)"
    using rep_black_ptr [of s1 "[]" T] T(2) by auto
  then show ?thesis using T rep_root [OF T(2)] by (auto simp: rb_insert_color_def red_black_def)
qed

text \<open>The link that a descent from the root arrives at.\<close>

fun link_of :: "frame list \<Rightarrow> rb_link" where
  "link_of [] = RootLink" |
  "link_of (FL p c r # fs) = LeftOf p" |
  "link_of (FR l p c # fs) = RightOf p"

lemma set_link_ok:
  assumes "fs = [] \<or> up fs \<noteq> 0"
  shows "\<exists>s'. set_link_to (link_of fs) q s = Some s' \<and> vw s' = rehang q fs (vw s) \<and> root_node s' = new_root q fs (root_node s)"
  using assms set_left_ok [of "up fs" q s] set_right_ok [of "up fs" q s]
  by (cases fs rule: caddrs.cases) (auto simp: rehang_def new_root_def vw_def fun_eq_iff)

lemma rb_link_node_correct:
  assumes "rep s (plug fs Leaf)" "a \<noteq> 0" "aligned a" "a \<notin> set (addrs (plug fs Leaf))"
  shows "\<exists>s'. rb_link_node a (up fs) (link_of fs) s = Some s' \<and> rep s' (plug fs (Node Leaf (a, False) Leaf))"
proof -
  let ?new = "\<lparr>lft = 0, rgt = 0, par = up fs, blk = False\<rparr>"
  obtain s1 where s1: "put a (\<lambda>n. n\<lparr>rb_parent_color := up fs, rb_right := 0, rb_left := 0\<rparr>) s = Some s1"
      "vw s1 = (vw s)(a := view_of ((nodes s a)\<lparr>rb_parent_color := up fs, rb_right := 0, rb_left := 0\<rparr>))"
      "root_node s1 = root_node s"
    using put_ok [OF assms(2)] by blast
  have "view_of ((nodes s a)\<lparr>rb_parent_color := up fs, rb_right := 0, rb_left := 0\<rparr>) = ?new"
    using rep_aligned_up [OF assms(1)] pack_parent [of "up fs" 0] pack_parent_color [of "up fs" 0]
    by (simp add: view_of_def rb_parent_def rb_is_black_def rb_color_def)
  then have v1: "vw s1 = (vw s)(a := ?new)" using s1(2) by simp
  have "fs = [] \<or> up fs \<noteq> 0" using rep_plug [OF assms(1)] by (cases fs rule: caddrs.cases) auto
  from set_link_ok [OF this, of a s1] obtain s2 where
    s2: "set_link_to (link_of fs) a s1 = Some s2" "vw s2 = rehang a fs (vw s1)" "root_node s2 = new_root a fs (root_node s)"
    using s1(3) by auto
  have out: "a \<notin> caddrs fs" using assms(4) by (simp add: set_addrs_plug)
  then have up: "fs = [] \<or> a \<noteq> up fs" using up_in by blast
  have "tree_in (vw s2) (new_root (ptr (Node Leaf (a, False) Leaf)) fs (root_node s)) (plug fs (Node Leaf (a, False) Leaf))"
  proof (rule tree_in_replace [of "vw s" "root_node s" fs Leaf])
    show "tree_in (vw s) (root_node s) (plug fs Leaf)" using assms(1) by (simp add: rep_def)
    have "vw s2 a = ?new" using up rehang_other [of a fs a "vw s1"] by (cases "fs = []") (auto simp: s2(2) v1 rehang_def)
    then show "shape (vw s2) (up fs) (Node Leaf (a, False) Leaf)" using assms(2) by simp
    show "vw s2 x = rehang (ptr (Node Leaf (a, False) Leaf)) fs (vw s) x" if "x \<in> caddrs fs" for x
    proof -
      have "vw s1 x = vw s x" "fs = [] \<or> vw s1 (up fs) = vw s (up fs)" using that up out by (auto simp: v1)
      then show ?thesis using rehang_cong [of fs "vw s1" "vw s" x a] by (simp add: s2(2))
    qed
  qed (use out in auto)
  then have "rep s2 (plug fs (Node Leaf (a, False) Leaf))" using assms(1,3) s2(3) by (simp add: rep_def set_addrs_plug)
  then show ?thesis using s1(1) s2(1) by (simp add: rb_link_node_def)
qed

end
