(* ===== verification/Node_Order.thy ===== *)
theory Node_Order
  imports Prelude
begin

text \<open>
  The contract of an ordered collection of linked nodes: a state holds a sequence of nodes, the first node and the
  node after a node can be asked for, and a node can be taken out.  Clients walk over the nodes and take out all nodes
  that a search finds; these loops are verified here against the contract, once for every provider.
\<close>

fun first_or_null :: "u64 list \<Rightarrow> u64" where
  "first_or_null [] = 0" |
  "first_or_null (a # _) = a"

lemma first_or_null_append: "first_or_null (xs @ ys) = (if xs = [] then first_or_null ys else first_or_null xs)"
  by (cases xs) auto

text \<open>\<open>while (p) { ... p = next(p) }\<close>, with the nodes it visits.\<close>

partial_function (option) visit :: "(u64 \<Rightarrow> 's \<Rightarrow> u64 option) \<Rightarrow> u64 \<Rightarrow> 's \<Rightarrow> u64 list option" where
  "visit nxt p s = (if p = 0 then Some []
     else Option.bind (nxt p s) (\<lambda>q. Option.bind (visit nxt q s) (\<lambda>ps. Some (p # ps))))"

text \<open>\<open>while (1) { p = find(); if (!p) break; erase(p); }\<close>.\<close>

partial_function (option) erase_found :: "('s \<Rightarrow> u64 option) \<Rightarrow> (u64 \<Rightarrow> 's \<Rightarrow> 's option) \<Rightarrow> 's \<Rightarrow> 's option" where
  "erase_found look erase s = Option.bind (look s) (\<lambda>p. if p = 0 then Some s
     else Option.bind (erase p s) (erase_found look erase))"

locale node_order =
  fixes holds :: "'s \<Rightarrow> u64 list \<Rightarrow> bool"
    and erase :: "u64 \<Rightarrow> 's \<Rightarrow> 's option"
    and first :: "'s \<Rightarrow> u64 option"
    and nxt :: "u64 \<Rightarrow> 's \<Rightarrow> u64 option"
  assumes not_null: "holds s xs \<Longrightarrow> 0 \<notin> set xs"
    and first_node: "holds s xs \<Longrightarrow> first s = Some (first_or_null xs)"
    and next_node: "holds s (xs @ a # ys) \<Longrightarrow> nxt a s = Some (first_or_null ys)"
    and erase_node: "holds s (xs @ a # ys) \<Longrightarrow> \<exists>s'. erase a s = Some s' \<and> holds s' (xs @ ys)"
begin

lemma visit_from: "holds s (xs @ ys) \<Longrightarrow> visit nxt (first_or_null ys) s = Some ys"
proof (induction ys arbitrary: xs)
  case Nil
  then show ?case by (subst visit.simps) simp
next
  case (Cons a ys)
  have "visit nxt (first_or_null ys) s = Some ys" using Cons.IH [of "xs @ [a]"] Cons.prems by simp
  then show ?case using next_node [OF Cons.prems] not_null [OF Cons.prems] by (subst visit.simps) simp
qed

lemma visit_all: "holds s xs \<Longrightarrow> Option.bind (first s) (\<lambda>p. visit nxt p s) = Some xs"
  using first_node visit_from [of s "[]" xs] by simp

end

text \<open>A search that finds a node of a certain kind, when there is one.\<close>

locale searched_order = node_order +
  fixes look :: "'s \<Rightarrow> u64 option" and wanted :: "u64 \<Rightarrow> bool"
  assumes found: "holds s xs \<Longrightarrow> \<exists>a \<in> set xs. wanted a \<Longrightarrow> \<exists>a \<in> set xs. wanted a \<and> look s = Some a"
    and not_found: "holds s xs \<Longrightarrow> \<forall>a \<in> set xs. \<not> wanted a \<Longrightarrow> look s = Some 0"
begin

lemma erase_found_all:
  "holds s xs \<Longrightarrow> \<exists>s'. erase_found look erase s = Some s' \<and> holds s' (filter (\<lambda>a. \<not> wanted a) xs)"
proof (induction "length xs" arbitrary: s xs rule: less_induct)
  case less
  show ?case
  proof (cases "\<exists>a \<in> set xs. wanted a")
    case False
    then have "filter (\<lambda>a. \<not> wanted a) xs = xs" by (simp add: filter_id_conv)
    then show ?thesis using not_found [OF less.prems] False less.prems by (subst erase_found.simps) simp
  next
    case True
    then obtain a where a: "a \<in> set xs" "wanted a" "look s = Some a" using found [OF less.prems] by blast
    obtain ys zs where xs: "xs = ys @ a # zs" using split_list [OF a(1)] by blast
    obtain s1 where s1: "erase a s = Some s1" "holds s1 (ys @ zs)" using erase_node less.prems xs by blast
    have "\<exists>s'. erase_found look erase s1 = Some s' \<and> holds s' (filter (\<lambda>a. \<not> wanted a) (ys @ zs))"
      using less.hyps [OF _ s1(2)] xs by simp
    moreover have "a \<noteq> 0" using not_null [OF less.prems] a(1) by metis
    ultimately show ?thesis using a(2,3) s1(1) xs by (subst erase_found.simps) simp
  qed
qed

end

end
