(* ===== verification/Rbtree_Walk.thy ===== *)
theory Rbtree_Walk
  imports Rbtree_Rep Node_Order
begin

text \<open>
  Walking the red-black tree of \<open>src/rbtree/rbtree.c\<close>: \<open>rb_first\<close>, \<open>rb_last\<close>, \<open>rb_next\<close> and \<open>rb_prev\<close> follow the
  order of the tree.
\<close>

lemma addrs_Nil [simp]: "addrs t = [] \<longleftrightarrow> t = Leaf"
  by (cases t rule: addrs.cases) auto

lemma rep_ptr_0: "rep s (plug fs t) \<Longrightarrow> ptr t = 0 \<longleftrightarrow> t = Leaf"
  using rep_plug ptr_0 by blast

section \<open>Down to the first and the last node\<close>

lemma leftmost_correct: "rep s (plug fs t) \<Longrightarrow> t \<noteq> Leaf \<Longrightarrow> leftmost (ptr t) s = Some (first_or_null (addrs t))"
proof (induction t arbitrary: fs rule: addrs.induct)
  case (2 l a c r)
  have l: "rep s (plug (FL a c r # fs) l)" using "2.prems" by simp
  show ?case
    using rep_node [OF "2.prems"(1)] rep_ptr_0 [OF l] "2.IH"(1) [OF l]
    by (subst leftmost.simps) (auto simp: node_at_def first_or_null_append)
qed simp

lemma rightmost_correct: "rep s (plug fs t) \<Longrightarrow> t \<noteq> Leaf \<Longrightarrow> rightmost (ptr t) s = Some (first_or_null (rev (addrs t)))"
proof (induction t arbitrary: fs rule: addrs.induct)
  case (2 l a c r)
  have r: "rep s (plug (FR l a c # fs) r)" using "2.prems" by simp
  show ?case
    using rep_node [OF "2.prems"(1)] rep_ptr_0 [OF r] "2.IH"(2) [OF r]
    by (subst rightmost.simps) (auto simp: node_at_def first_or_null_append)
qed simp

section \<open>Up to the next and the previous node\<close>

lemma climb_next_correct: "rep s (plug fs t) \<Longrightarrow> t \<noteq> Leaf \<Longrightarrow> climb_next (ptr t) s = Some (first_or_null (behind fs))"
proof (induction fs arbitrary: t rule: behind.induct)
  case 1
  then obtain l a c r where "t = Node l (a, c) r" by (cases t rule: addrs.cases) auto
  then show ?case using rep_node [of s "[]" l a c r] "1.prems"
    by (subst climb_next.simps) (simp add: node_at_def)
next
  case (2 p d u fs)
  then obtain l a c r where t: "t = Node l (a, c) r" by (cases t rule: addrs.cases) auto
  show ?case using rep_node [OF "2.prems"(1) [unfolded t]] rep_child_of [OF "2.prems"]
    by (subst climb_next.simps) (auto simp: node_at_def t child_of_def vw_fields)
next
  case (3 u p d fs)
  then obtain l a c r where t: "t = Node l (a, c) r" by (cases t rule: addrs.cases) auto
  have "rep s (plug fs (Node u (p, d) t))" using "3.prems" by simp
  then have "climb_next p s = Some (first_or_null (behind fs))" using "3.IH" [of "Node u (p, d) t"] by simp
  then show ?case using rep_node [OF "3.prems"(1) [unfolded t]] rep_child_of [OF "3.prems"]
    by (subst climb_next.simps) (auto simp: node_at_def t child_of_def vw_fields)
qed

lemma climb_prev_correct: "rep s (plug fs t) \<Longrightarrow> t \<noteq> Leaf \<Longrightarrow> climb_prev (ptr t) s = Some (first_or_null (rev (before fs)))"
proof (induction fs arbitrary: t rule: behind.induct)
  case 1
  then obtain l a c r where "t = Node l (a, c) r" by (cases t rule: addrs.cases) auto
  then show ?case using rep_node [of s "[]" l a c r] "1.prems"
    by (subst climb_prev.simps) (simp add: node_at_def)
next
  case (2 p d u fs)
  then obtain l a c r where t: "t = Node l (a, c) r" by (cases t rule: addrs.cases) auto
  have "rep s (plug fs (Node t (p, d) u))" using "2.prems" by simp
  then have "climb_prev p s = Some (first_or_null (rev (before fs)))" using "2.IH" [of "Node t (p, d) u"] by simp
  then show ?case using rep_node [OF "2.prems"(1) [unfolded t]] rep_child_of [OF "2.prems"]
    by (subst climb_prev.simps) (auto simp: node_at_def t child_of_def vw_fields)
next
  case (3 u p d fs)
  then obtain l a c r where t: "t = Node l (a, c) r" by (cases t rule: addrs.cases) auto
  show ?case using rep_node [OF "3.prems"(1) [unfolded t]] rep_child_of [OF "3.prems"]
    by (subst climb_prev.simps) (auto simp: node_at_def t child_of_def vw_fields)
qed

section \<open>The four operations\<close>

lemma place_of: "a \<in> set (addrs t) \<Longrightarrow> \<exists>fs l c r. plug gs t = plug fs (Node l (a, c) r)"
proof (induction t arbitrary: gs rule: addrs.induct)
  case (2 l b d r)
  consider "a = b" | "a \<in> set (addrs l)" | "a \<in> set (addrs r)" using "2.prems" by auto
  then show ?case
  proof cases
    case 1
    then show ?thesis by blast
  next
    case 2
    then show ?thesis using "2.IH"(1) [of "FL b d r # gs"] by simp
  next
    case 3
    then show ?thesis using "2.IH"(2) [of "FR l b d # gs"] by simp
  qed
qed simp

lemma split_at_place:
  assumes "distinct (addrs T)" "addrs T = xs @ a # ys"
  shows "\<exists>fs l c r. T = plug fs (Node l (a, c) r) \<and> xs = before fs @ addrs l \<and> ys = addrs r @ behind fs"
proof -
  obtain fs l c r where T: "T = plug fs (Node l (a, c) r)" using place_of [of a T "[]"] assms(2) by auto
  then have "xs @ a # ys = (before fs @ addrs l) @ a # (addrs r @ behind fs)" using assms(2) by (simp add: addrs_plug)
  moreover have "a \<notin> set xs" "a \<notin> set ys" using assms by auto
  ultimately have "xs = before fs @ addrs l \<and> ys = addrs r @ behind fs" using append_Cons_eq_iff by metis
  then show ?thesis using T by blast
qed

lemma rb_next_place:
  assumes "rep s (plug fs (Node l (a, c) r))"
  shows "rb_next a s = Some (first_or_null (addrs r @ behind fs))"
proof -
  have r: "rep s (plug (FR l a c # fs) r)" using assms by simp
  show ?thesis
    using rep_node [OF assms] rep_ptr_0 [OF r] leftmost_correct [OF r] climb_next_correct [OF assms]
    by (auto simp: rb_next_def node_at_def first_or_null_append)
qed

lemma rb_prev_place:
  assumes "rep s (plug fs (Node l (a, c) r))"
  shows "rb_prev a s = Some (first_or_null (rev (before fs @ addrs l)))"
proof -
  have l: "rep s (plug (FL a c r # fs) l)" using assms by simp
  show ?thesis
    using rep_node [OF assms] rep_ptr_0 [OF l] rightmost_correct [OF l] climb_prev_correct [OF assms]
    by (auto simp: rb_prev_def node_at_def first_or_null_append)
qed

lemma rb_ends:
  assumes "rep s T"
  shows "rb_first s = Some (first_or_null (addrs T))" "rb_last s = Some (first_or_null (rev (addrs T)))"
  using rep_root [OF assms] rep_ptr_0 [of s "[]" T] leftmost_correct [of s "[]" T] rightmost_correct [of s "[]" T] assms
  by (auto simp: rb_first_def rb_last_def)

lemma rb_walk_helper:
  assumes "rep s T" "addrs T = xs @ a # ys"
  shows "rb_next a s = Some (first_or_null ys)" "rb_prev a s = Some (first_or_null (rev xs))"
proof -
  obtain fs l c r where p: "T = plug fs (Node l (a, c) r)" "xs = before fs @ addrs l" "ys = addrs r @ behind fs"
    using split_at_place [OF rep_distinct [OF assms(1)] assms(2)] by blast
  note place = assms(1) [unfolded p(1)]
  show "rb_next a s = Some (first_or_null ys)" using rb_next_place [OF place] by (simp add: p(3))
  show "rb_prev a s = Some (first_or_null (rev xs))" using rb_prev_place [OF place] by (simp add: p(2))
qed

end
