(* ===== verification/Rbtree_Erase.thy ===== *)
theory Rbtree_Erase
  imports Rbtree_Insert Rbtree_Walk
begin

text \<open>
  Removal from the red-black tree of \<open>src/rbtree/rbtree.c\<close>: \<open>rb_erase\<close> takes a node out of the tree and
  \<open>__rb_erase_color\<close> repairs a place whose subtree is one black node short.
\<close>

section \<open>One round of the loop\<close>

lemma black_at_red: "black_at s p \<longleftrightarrow> \<not> red_at s p"
  by (auto simp: black_at_def red_at_def rb_is_red_black)

lemma black_at_ptr: "rep s (plug fs t) \<Longrightarrow> black_at s (ptr t) \<longleftrightarrow> color t"
  by (simp add: black_at_red red_at_ptr)

lemma ptr_plug_in: "fs \<noteq> [] \<Longrightarrow> ptr (plug fs t) \<in> caddrs fs"
proof (induction fs arbitrary: t rule: caddrs.induct)
  case (2 a c r fs)
  then show ?case by (cases "fs = []") auto
next
  case (3 l a c fs)
  then show ?case by (cases "fs = []") auto
qed simp

lemma at_root:
  assumes "rep s (plug fs t)"
  shows "ptr t = root_node s \<longleftrightarrow> fs = []"
proof (cases "fs = []")
  case False
  have "ptr (plug fs t) \<in> caddrs fs" using ptr_plug_in [OF False] .
  moreover have "ptr (plug fs t) \<noteq> 0"
    using assms shape_not_0 [of "vw s" 0 "plug fs t"] ptr_plug_in [OF False] by (auto simp: rep_def tree_in_def set_addrs_plug)
  moreover have "ptr t = 0 \<or> ptr t \<in> set (addrs t)" using ptr_in [of t] by (cases "t = Leaf") auto
  moreover have "caddrs fs \<inter> set (addrs t) = {}" using rep_distinct [OF assms] by (simp add: distinct_plug)
  ultimately show ?thesis using False rep_root [OF assms] by auto
qed (simp add: rep_root [OF assms])

lemma erase_stop:
  assumes "rep s (plug fs t)" "\<not> color t \<or> fs = []"
  shows "erase_loop (ptr t) p s = Some (ptr t, s)"
  using assms(2) black_at_ptr [OF assms(1)] at_root [OF assms(1)] by (subst erase_loop.simps) auto

lemma rep_sibling_left_red:
  assumes "rep s (plug (FL p True (Node x (q, False) y) # gs) t)"
  shows "\<exists>s'. sibling_left p s = Some s' \<and> rep s' (plug (FL p False x # FL q True y # gs) t)"
proof -
  note rd = rep_above_left [OF assms]
  have q: "rep s (plug (FR t p True # gs) (Node x (q, False) y))" using assms by simp
  note rq = rep_node [OF q]
  from rep_set_black [OF q] obtain s1 where s1: "rb_set_black q s = Some s1"
    "rep s1 (plug gs (Node t (p, True) (Node x (q, True) y)))" by auto
  from rep_set_red [OF s1(2)] obtain s2 where s2: "rb_set_red p s1 = Some s2"
    "rep s2 (plug gs (Node t (p, False) (Node x (q, True) y)))" by blast
  from rep_rotate_left [OF s2(2)] show ?thesis
    using rd rq s1(1) s2(1) by (auto simp: sibling_left_def node_at_def rb_is_red_black)
qed

lemma rep_sibling_left_black:
  assumes "rep s (plug (FL p c u # gs) t)" "color u" "u \<noteq> Leaf"
  shows "sibling_left p s = Some s"
proof -
  obtain x q y where u: "u = Node x (q, True) y" using assms(2,3) by (cases u rule: color.cases) auto
  have "rep s (plug (FR t p c # gs) u)" using assms(1) by simp
  from rep_node [OF this [unfolded u]] rep_above_left [OF assms(1)] show ?thesis
    by (simp add: sibling_left_def node_at_def rb_is_red_black u)
qed

lemma rep_inner_left_red:
  assumes "rep s (plug fs (Node (Node x1 (w, False) x2) (q, True) y))" "color y"
  shows "\<exists>s'. inner_left q s = Some s' \<and> rep s' (plug fs (Node x1 (w, True) (Node x2 (q, False) y)))"
proof -
  note rd = rep_node [OF assms(1)]
  have y: "rep s (plug (FR (Node x1 (w, False) x2) q True # fs) y)" using assms(1) by simp
  have w: "rep s (plug (FL q True y # fs) (Node x1 (w, False) x2))" using assms(1) by simp
  from rep_set_black [OF w] obtain s1 where s1: "rb_set_black w s = Some s1"
    "rep s1 (plug fs (Node (Node x1 (w, True) x2) (q, True) y))" by auto
  from rep_set_red [OF s1(2)] obtain s2 where s2: "rb_set_red q s1 = Some s2"
    "rep s2 (plug fs (Node (Node x1 (w, True) x2) (q, False) y))" by blast
  from rep_rotate_right [OF s2(2)] show ?thesis
    using rd rep_node(1) [OF w] black_at_ptr [OF y] assms(2) s1(1) s2(1) by (auto simp: inner_left_def node_at_def)
qed

lemma rep_inner_left_black:
  assumes "rep s (plug fs (Node x (q, d) y))" "\<not> color y"
  shows "inner_left q s = Some s"
proof -
  have "rep s (plug (FR x q d # fs) y)" using assms(1) by simp
  then show ?thesis using rep_node [OF assms(1)] black_at_ptr [of s "FR x q d # fs" y] assms(2)
    by (simp add: inner_left_def node_at_def)
qed

lemma rep_outer_left:
  assumes "rep s (plug gs (Node t (p, c) (Node x (q, d) y)))" "y \<noteq> Leaf"
  shows "\<exists>s'. outer_left p s = Some s' \<and> rep s' (plug gs (Node (Node t (p, True) x) (q, c) (paint True y)))"
proof -
  note rd = rep_node [OF assms(1)]
  have "rep s (plug (FR t p c # gs) (Node x (q, d) y))" using assms(1) by simp
  from rep_set_color [OF this, of "nodes s p"] obtain s1 where s1: "rb_set_color q (rb_color (nodes s p)) s = Some s1"
    "rep s1 (plug gs (Node t (p, c) (Node x (q, c) y)))" using rd by auto
  from rep_set_black [OF s1(2)] obtain s2 where s2: "rb_set_black p s1 = Some s2"
    "rep s2 (plug gs (Node t (p, True) (Node x (q, c) y)))" by blast
  have "rep s2 (plug (FR t p True # gs) (Node x (q, c) y))" using s2(2) by simp
  note rq = rep_node [OF this]
  have y: "rep s2 (plug (FR x q c # FR t p True # gs) y)" using s2(2) by simp
  from rep_black_ptr [OF y assms(2)] obtain s3 where s3: "rb_set_black (ptr y) s2 = Some s3"
    "rep s3 (plug gs (Node t (p, True) (Node x (q, c) (paint True y))))" by auto
  have "ptr y \<noteq> 0" using rep_plug [OF y] assms(2) ptr_0 by blast
  then show ?thesis
    using rep_rotate_left [OF s3(2)] rd rq s1(1) s2(1) s3(1) by (auto simp: outer_left_def node_at_def)
qed

lemma finish_left:
  assumes T: "rep s (plug gs t0)" "t0 = Node t (p, c) (Node x (q, True) y)"
    and red: "\<not> (color x \<and> color y)" and t: "color t" "no_red_red t" "even_black t"
    and u: "no_red_red (Node x (q, True) y)" "even_black (Node x (q, True) y)" "bheight (Node x (q, True) y) = Suc (bheight t)"
  shows "\<exists>s1 s2 t'. inner_left q s = Some s1 \<and> outer_left p s1 = Some s2 \<and> rep s2 (plug gs t') \<and> addrs t' = addrs t0
    \<and> no_red_red t' \<and> even_black t' \<and> color t' = c \<and> bheight t' = Suc (bheight t) + (if c then 1 else 0)"
proof (cases "color y")
  case True
  then obtain x1 w x2 where x: "x = Node x1 (w, False) x2" using red by (cases x rule: color.cases) auto
  have "rep s (plug (FR t p c # gs) (Node x (q, True) y))" using T by simp
  from rep_inner_left_red [OF this [unfolded x] True] obtain s1 where s1: "inner_left q s = Some s1"
    "rep s1 (plug gs (Node t (p, c) (Node x1 (w, True) (Node x2 (q, False) y))))" by auto
  from rep_outer_left [OF s1(2)] obtain s2 where "outer_left p s1 = Some s2"
    "rep s2 (plug gs (Node (Node t (p, True) x1) (w, c) (Node x2 (q, True) y)))" by auto
  then show ?thesis using s1(1) T(2) t u
    by (intro exI [of _ s1] exI [of _ s2] exI [of _ "Node (Node t (p, True) x1) (w, c) (Node x2 (q, True) y)"])
      (auto simp: x)
next
  case False
  then have y: "y \<noteq> Leaf" by auto
  have x: "rep s (plug (FR t p c # gs) (Node x (q, True) y))" using T by simp
  from rep_outer_left [OF T(1) [unfolded T(2)] y] obtain s2 where "outer_left p s = Some s2"
    "rep s2 (plug gs (Node (Node t (p, True) x) (q, c) (paint True y)))" by blast
  moreover have "bheight (paint True y) = Suc (bheight y)" using False by (cases y rule: color.cases) auto
  ultimately show ?thesis using rep_inner_left_black [OF x False] T(2) t u
    by (intro exI [of _ s] exI [of _ s2] exI [of _ "Node (Node t (p, True) x) (q, c) (paint True y)"]) auto
qed

lemma rep_sibling_right_red:
  assumes "rep s (plug (FR (Node y (q, False) x) p True # gs) t)"
  shows "\<exists>s'. sibling_right p s = Some s' \<and> rep s' (plug (FR x p False # FR y q True # gs) t)"
proof -
  note rd = rep_above_right [OF assms]
  have q: "rep s (plug (FL p True t # gs) (Node y (q, False) x))" using assms by simp
  note rq = rep_node [OF q]
  from rep_set_black [OF q] obtain s1 where s1: "rb_set_black q s = Some s1"
    "rep s1 (plug gs (Node (Node y (q, True) x) (p, True) t))" by auto
  from rep_set_red [OF s1(2)] obtain s2 where s2: "rb_set_red p s1 = Some s2"
    "rep s2 (plug gs (Node (Node y (q, True) x) (p, False) t))" by blast
  from rep_rotate_right [OF s2(2)] show ?thesis
    using rd rq s1(1) s2(1) by (auto simp: sibling_right_def node_at_def rb_is_red_black)
qed

lemma rep_sibling_right_black:
  assumes "rep s (plug (FR u p c # gs) t)" "color u" "u \<noteq> Leaf"
  shows "sibling_right p s = Some s"
proof -
  obtain x q y where u: "u = Node y (q, True) x" using assms(2,3) by (cases u rule: color.cases) auto
  have "rep s (plug (FL p c t # gs) u)" using assms(1) by simp
  from rep_node [OF this [unfolded u]] rep_above_right [OF assms(1)] show ?thesis
    by (simp add: sibling_right_def node_at_def rb_is_red_black u)
qed

lemma rep_inner_right_red:
  assumes "rep s (plug fs (Node y (q, True) (Node x2 (w, False) x1)))" "color y"
  shows "\<exists>s'. inner_right q s = Some s' \<and> rep s' (plug fs (Node (Node y (q, False) x2) (w, True) x1))"
proof -
  note rd = rep_node [OF assms(1)]
  have y: "rep s (plug (FL q True (Node x2 (w, False) x1) # fs) y)" using assms(1) by simp
  have w: "rep s (plug (FR y q True # fs) (Node x2 (w, False) x1))" using assms(1) by simp
  from rep_set_black [OF w] obtain s1 where s1: "rb_set_black w s = Some s1"
    "rep s1 (plug fs (Node y (q, True) (Node x2 (w, True) x1)))" by auto
  from rep_set_red [OF s1(2)] obtain s2 where s2: "rb_set_red q s1 = Some s2"
    "rep s2 (plug fs (Node y (q, False) (Node x2 (w, True) x1)))" by blast
  from rep_rotate_left [OF s2(2)] show ?thesis
    using rd rep_node(1) [OF w] black_at_ptr [OF y] assms(2) s1(1) s2(1) by (auto simp: inner_right_def node_at_def)
qed

lemma rep_inner_right_black:
  assumes "rep s (plug fs (Node y (q, d) x))" "\<not> color y"
  shows "inner_right q s = Some s"
proof -
  have "rep s (plug (FL q d x # fs) y)" using assms(1) by simp
  then show ?thesis using rep_node [OF assms(1)] black_at_ptr [of s "FL q d x # fs" y] assms(2)
    by (simp add: inner_right_def node_at_def)
qed

lemma rep_outer_right:
  assumes "rep s (plug gs (Node (Node y (q, d) x) (p, c) t))" "y \<noteq> Leaf"
  shows "\<exists>s'. outer_right p s = Some s' \<and> rep s' (plug gs (Node (paint True y) (q, c) (Node x (p, True) t)))"
proof -
  note rd = rep_node [OF assms(1)]
  have "rep s (plug (FL p c t # gs) (Node y (q, d) x))" using assms(1) by simp
  from rep_set_color [OF this, of "nodes s p"] obtain s1 where s1: "rb_set_color q (rb_color (nodes s p)) s = Some s1"
    "rep s1 (plug gs (Node (Node y (q, c) x) (p, c) t))" using rd by auto
  from rep_set_black [OF s1(2)] obtain s2 where s2: "rb_set_black p s1 = Some s2"
    "rep s2 (plug gs (Node (Node y (q, c) x) (p, True) t))" by blast
  have "rep s2 (plug (FL p True t # gs) (Node y (q, c) x))" using s2(2) by simp
  note rq = rep_node [OF this]
  have y: "rep s2 (plug (FL q c x # FL p True t # gs) y)" using s2(2) by simp
  from rep_black_ptr [OF y assms(2)] obtain s3 where s3: "rb_set_black (ptr y) s2 = Some s3"
    "rep s3 (plug gs (Node (Node (paint True y) (q, c) x) (p, True) t))" by auto
  have "ptr y \<noteq> 0" using rep_plug [OF y] assms(2) ptr_0 by blast
  then show ?thesis
    using rep_rotate_right [OF s3(2)] rd rq s1(1) s2(1) s3(1) by (auto simp: outer_right_def node_at_def)
qed

lemma finish_right:
  assumes T: "rep s (plug gs t0)" "t0 = Node (Node y (q, True) x) (p, c) t"
    and red: "\<not> (color x \<and> color y)" and t: "color t" "no_red_red t" "even_black t"
    and u: "no_red_red (Node y (q, True) x)" "even_black (Node y (q, True) x)" "bheight (Node y (q, True) x) = Suc (bheight t)"
  shows "\<exists>s1 s2 t'. inner_right q s = Some s1 \<and> outer_right p s1 = Some s2 \<and> rep s2 (plug gs t') \<and> addrs t' = addrs t0
    \<and> no_red_red t' \<and> even_black t' \<and> color t' = c \<and> bheight t' = Suc (bheight t) + (if c then 1 else 0)"
proof (cases "color y")
  case True
  then obtain x1 w x2 where x: "x = Node x2 (w, False) x1" using red by (cases x rule: color.cases) auto
  have "rep s (plug (FL p c t # gs) (Node y (q, True) x))" using T by simp
  from rep_inner_right_red [OF this [unfolded x] True] obtain s1 where s1: "inner_right q s = Some s1"
    "rep s1 (plug gs (Node (Node (Node y (q, False) x2) (w, True) x1) (p, c) t))" by auto
  from rep_outer_right [OF s1(2)] obtain s2 where "outer_right p s1 = Some s2"
    "rep s2 (plug gs (Node (Node y (q, True) x2) (w, c) (Node x1 (p, True) t)))" by auto
  then show ?thesis using s1(1) T(2) t u
    by (intro exI [of _ s1] exI [of _ s2] exI [of _ "Node (Node y (q, True) x2) (w, c) (Node x1 (p, True) t)"])
      (auto simp: x)
next
  case False
  then have y: "y \<noteq> Leaf" by auto
  have x: "rep s (plug (FL p c t # gs) (Node y (q, True) x))" using T by simp
  from rep_outer_right [OF T(1) [unfolded T(2)] y] obtain s2 where "outer_right p s = Some s2"
    "rep s2 (plug gs (Node (paint True y) (q, c) (Node x (p, True) t)))" by blast
  moreover have "bheight (paint True y) = Suc (bheight y)" using False by (cases y rule: color.cases) auto
  ultimately show ?thesis using rep_inner_right_black [OF x False] T(2) t u
    by (intro exI [of _ s] exI [of _ s2] exI [of _ "Node (paint True y) (q, c) (Node x (p, True) t)"]) auto
qed

section \<open>The whole loop\<close>

text \<open>The subtree at a place is one black node short; its root may be red below a red node, and is then painted
  black.\<close>

definition short :: "rb_root \<Rightarrow> frame list \<Rightarrow> rbt \<Rightarrow> bool" where
  "short s fs t \<longleftrightarrow> rep s (plug fs t) \<and> no_red_red (paint True t) \<and> even_black t \<and> fits fs (Suc (bheight t))"

lemma paint_black [simp]: "color t \<Longrightarrow> paint True t = t"
  by (cases t rule: color.cases) auto

lemma short_stop:
  assumes "short s fs t" "\<not> color t \<or> fs = []"
  shows "red_black (plug fs (paint True t))"
proof (cases "color t")
  case False
  then have "bheight (paint True t) = Suc (bheight t)" by (cases t rule: color.cases) auto
  then show ?thesis using assms by (simp add: red_black_plug short_def)
next
  case True
  then show ?thesis using assms by (simp add: short_def red_black_def)
qed

lemma short_sibling_left:
  assumes "short s (FL p c u # gs) t" "color t"
  shows "\<exists>s1 d x q y hs. sibling_left p s = Some s1 \<and> short s1 (FL p d (Node x (q, True) y) # hs) t
    \<and> addrs (plug (FL p d (Node x (q, True) y) # hs) t) = addrs (plug (FL p c u # gs) t) \<and> (\<not> d \<or> hs = gs)"
proof -
  have T: "rep s (plug (FL p c u # gs) t)" "fits (FL p c u # gs) (Suc (bheight t))"
    using assms(1) by (simp_all add: short_def)
  have u: "u \<noteq> Leaf" using T(2) by auto
  show ?thesis
  proof (cases "color u")
    case True
    obtain x q y where eq: "u = Node x (q, True) y" using True u by (cases u rule: color.cases) auto
    show ?thesis unfolding eq using rep_sibling_left_black [OF T(1) True u] assms(1) eq by blast
  next
    case False
    then obtain x q y where eq: "u = Node x (q, False) y" by (cases u rule: color.cases) auto
    have c: "c = True" using T(2) False by simp
    obtain s1 where s1: "sibling_left p s = Some s1" "rep s1 (plug (FL p False x # FL q True y # gs) t)"
      using rep_sibling_left_red [OF T(1) [unfolded c eq]] by blast
    have x: "color x" "bheight x = Suc (bheight t)" using T(2) by (auto simp: eq)
    then obtain z w v where z: "x = Node z (w, True) v" by (cases x rule: color.cases) auto
    have "short s1 (FL p False x # FL q True y # gs) t"
      using s1(2) assms(1) x c by (auto simp: short_def eq top_black_def)
    moreover have "addrs (plug (FL p False x # FL q True y # gs) t) = addrs (plug (FL p c u # gs) t)"
      by (simp add: addrs_plug eq)
    ultimately show ?thesis using s1(1) unfolding z by blast
  qed
qed

lemma erase_enter_left:
  assumes T: "rep s (plug (FL p c u # gs) t)" "color t" "u \<noteq> Leaf" and s1: "sibling_left p s = Some s1"
  shows "erase_loop (ptr t) p s = Option.bind (node_at s1 p) (\<lambda>m.
         Option.bind (node_at s1 (rb_right m)) (\<lambda>other.
           if black_at s1 (rb_left other) \<and> black_at s1 (rb_right other)
           then Option.bind (rb_set_red (rb_right m) s1) (\<lambda>s. Option.bind (node_at s p) (\<lambda>m. erase_loop p (rb_parent m) s))
           else Option.bind (inner_left (rb_right m) s1) (\<lambda>s. Option.bind (outer_left p s) (\<lambda>s. Some (root_node s, s)))))"
proof -

  show ?thesis
    using rep_above_left [OF T(1)] black_at_ptr [OF T(1)] at_root [OF T(1)] T(2) s1
    by (subst erase_loop.simps) (simp add: node_at_def)
qed

lemma erase_up_left:
  assumes T: "rep s (plug (FL p c u # gs) t)" "color t" "u \<noteq> Leaf" and s1: "sibling_left p s = Some s1"
    and S: "rep s1 (plug (FL p d (Node x (q, True) y) # hs) t)" "color x \<and> color y"
  shows "\<exists>s2. erase_loop (ptr t) p s = erase_loop p (up hs) s2 \<and> rep s2 (plug hs (Node t (p, d) (Node x (q, False) y)))"
proof -
  have q: "rep s1 (plug (FR t p d # hs) (Node x (q, True) y))" using S(1) by simp
  from rep_set_red [OF q] obtain s2 where s2: "rb_set_red q s1 = Some s2"
    "rep s2 (plug hs (Node t (p, d) (Node x (q, False) y)))" by auto
  have "rep s1 (plug (FL q True y # FR t p d # hs) x)" "rep s1 (plug (FR x q True # FR t p d # hs) y)"
    using S(1) by simp_all
  note xy = this [THEN black_at_ptr]
  show ?thesis
    using erase_enter_left [OF T s1] rep_above_left [OF S(1)] rep_node [OF q] rep_node [OF s2(2)] xy S(2) s2
    by (auto simp: node_at_def)
qed

lemma erase_end_left:
  assumes T: "rep s (plug (FL p c u # gs) t)" "color t" "u \<noteq> Leaf" and s1: "sibling_left p s = Some s1"
    and S: "rep s1 (plug (FL p d (Node x (q, True) y) # hs) t)" "\<not> (color x \<and> color y)"
    and s2: "inner_left q s1 = Some s2" "outer_left p s2 = Some s3"
  shows "erase_loop (ptr t) p s = Some (root_node s3, s3)"
proof -
  have q: "rep s1 (plug (FR t p d # hs) (Node x (q, True) y))" using S(1) by simp
  have "rep s1 (plug (FL q True y # FR t p d # hs) x)" "rep s1 (plug (FR x q True # FR t p d # hs) y)"
    using S(1) by simp_all
  note xy = this [THEN black_at_ptr]
  show ?thesis
    using erase_enter_left [OF T s1] rep_above_left [OF S(1)] rep_node [OF q] xy S(2) s2 by (auto simp: node_at_def)
qed

lemma short_sibling_right:
  assumes "short s (FR u p c # gs) t" "color t"
  shows "\<exists>s1 d x q y hs. sibling_right p s = Some s1 \<and> short s1 (FR (Node y (q, True) x) p d # hs) t
    \<and> addrs (plug (FR (Node y (q, True) x) p d # hs) t) = addrs (plug (FR u p c # gs) t) \<and> (\<not> d \<or> hs = gs)"
proof -
  have T: "rep s (plug (FR u p c # gs) t)" "fits (FR u p c # gs) (Suc (bheight t))"
    using assms(1) by (simp_all add: short_def)
  have u: "u \<noteq> Leaf" using T(2) by auto
  show ?thesis
  proof (cases "color u")
    case True
    obtain x q y where eq: "u = Node y (q, True) x" using True u by (cases u rule: color.cases) auto
    show ?thesis unfolding eq using rep_sibling_right_black [OF T(1) True u] assms(1) eq by blast
  next
    case False
    then obtain x q y where eq: "u = Node y (q, False) x" by (cases u rule: color.cases) auto
    have c: "c = True" using T(2) False by simp
    obtain s1 where s1: "sibling_right p s = Some s1" "rep s1 (plug (FR x p False # FR y q True # gs) t)"
      using rep_sibling_right_red [OF T(1) [unfolded c eq]] by blast
    have x: "color x" "bheight x = Suc (bheight t)" using T(2) by (auto simp: eq)
    then obtain z w v where z: "x = Node v (w, True) z" by (cases x rule: color.cases) auto
    have "short s1 (FR x p False # FR y q True # gs) t"
      using s1(2) assms(1) x c by (auto simp: short_def eq top_black_def)
    moreover have "addrs (plug (FR x p False # FR y q True # gs) t) = addrs (plug (FR u p c # gs) t)"
      by (simp add: addrs_plug eq)
    ultimately show ?thesis using s1(1) unfolding z by blast
  qed
qed

lemma erase_enter_right:
  assumes T: "rep s (plug (FR u p c # gs) t)" "color t" "u \<noteq> Leaf" and s1: "sibling_right p s = Some s1"
  shows "erase_loop (ptr t) p s = Option.bind (node_at s1 p) (\<lambda>m.
         Option.bind (node_at s1 (rb_left m)) (\<lambda>other.
           if black_at s1 (rb_left other) \<and> black_at s1 (rb_right other)
           then Option.bind (rb_set_red (rb_left m) s1) (\<lambda>s. Option.bind (node_at s p) (\<lambda>m. erase_loop p (rb_parent m) s))
           else Option.bind (inner_right (rb_left m) s1) (\<lambda>s. Option.bind (outer_right p s) (\<lambda>s. Some (root_node s, s)))))"
proof -
  have "ptr u \<noteq> ptr t" using rep_child_of [of s "FL p c t # gs" u] rep_above_right [OF T(1)] T(1,3) by (simp add: child_of_def vw_fields)

  then show ?thesis
    using rep_above_right [OF T(1)] black_at_ptr [OF T(1)] at_root [OF T(1)] T(2) s1
    by (subst erase_loop.simps) (simp add: node_at_def)
qed

lemma erase_up_right:
  assumes T: "rep s (plug (FR u p c # gs) t)" "color t" "u \<noteq> Leaf" and s1: "sibling_right p s = Some s1"
    and S: "rep s1 (plug (FR (Node y (q, True) x) p d # hs) t)" "color x \<and> color y"
  shows "\<exists>s2. erase_loop (ptr t) p s = erase_loop p (up hs) s2 \<and> rep s2 (plug hs (Node (Node y (q, False) x) (p, d) t))"
proof -
  have q: "rep s1 (plug (FL p d t # hs) (Node y (q, True) x))" using S(1) by simp
  from rep_set_red [OF q] obtain s2 where s2: "rb_set_red q s1 = Some s2"
    "rep s2 (plug hs (Node (Node y (q, False) x) (p, d) t))" by auto
  have "rep s1 (plug (FR y q True # FL p d t # hs) x)" "rep s1 (plug (FL q True x # FL p d t # hs) y)"
    using S(1) by simp_all
  note xy = this [THEN black_at_ptr]
  show ?thesis
    using erase_enter_right [OF T s1] rep_above_right [OF S(1)] rep_node [OF q] rep_node [OF s2(2)] xy S(2) s2
    by (auto simp: node_at_def)
qed

lemma erase_end_right:
  assumes T: "rep s (plug (FR u p c # gs) t)" "color t" "u \<noteq> Leaf" and s1: "sibling_right p s = Some s1"
    and S: "rep s1 (plug (FR (Node y (q, True) x) p d # hs) t)" "\<not> (color x \<and> color y)"
    and s2: "inner_right q s1 = Some s2" "outer_right p s2 = Some s3"
  shows "erase_loop (ptr t) p s = Some (root_node s3, s3)"
proof -
  have q: "rep s1 (plug (FL p d t # hs) (Node y (q, True) x))" using S(1) by simp
  have "rep s1 (plug (FR y q True # FL p d t # hs) x)" "rep s1 (plug (FL q True x # FL p d t # hs) y)"
    using S(1) by simp_all
  note xy = this [THEN black_at_ptr]
  show ?thesis
    using erase_enter_right [OF T s1] rep_above_right [OF S(1)] rep_node [OF q] xy S(2) s2 by (auto simp: node_at_def)
qed

text \<open>A round moves the place up, or ends the loop.\<close>

definition moved :: "rb_root \<Rightarrow> frame list \<Rightarrow> rbt \<Rightarrow> frame list \<Rightarrow> bool" where
  "moved s fs t gs \<longleftrightarrow> (\<exists>s' v hs. erase_loop (ptr t) (up fs) s = erase_loop (ptr v) (up hs) s' \<and> short s' hs v
     \<and> addrs (plug hs v) = addrs (plug fs t) \<and> (\<not> color v \<or> hs = gs))"

definition ended :: "rb_root \<Rightarrow> frame list \<Rightarrow> rbt \<Rightarrow> bool" where
  "ended s fs t \<longleftrightarrow> (\<exists>s' T. erase_loop (ptr t) (up fs) s = Some (ptr T, s') \<and> rep s' T
     \<and> red_black T \<and> addrs T = addrs (plug fs t))"

lemma erase_round_left:
  assumes sh: "short s (FL p c u # gs) t" and t: "color t"
  shows "moved s (FL p c u # gs) t gs \<or> ended s (FL p c u # gs) t"
proof -
  have T: "rep s (plug (FL p c u # gs) t)" "u \<noteq> Leaf" using sh by (auto simp: short_def)
  obtain s1 d x q y hs where s1: "sibling_left p s = Some s1" and S: "short s1 (FL p d (Node x (q, True) y) # hs) t"
    and ad: "addrs (plug (FL p d (Node x (q, True) y) # hs) t) = addrs (plug (FL p c u # gs) t)" and hs: "\<not> d \<or> hs = gs"
    using short_sibling_left [OF sh t] by blast
  have R: "rep s1 (plug (FL p d (Node x (q, True) y) # hs) t)" using S by (simp add: short_def)
  have b: "no_red_red t" "even_black t" "no_red_red (Node x (q, True) y)" "even_black (Node x (q, True) y)" "bheight (Node x (q, True) y) = Suc (bheight t)"
      "fits hs (Suc (bheight t) + (if d then 1 else 0))" "d \<or> top_black hs"
    using S t by (simp_all add: short_def)
  show ?thesis
  proof (cases "color x \<and> color y")
    case True
    from erase_up_left [OF T(1) t T(2) s1 R True] obtain s2 where s2: "erase_loop (ptr t) p s = erase_loop p (up hs) s2"
      "rep s2 (plug hs (Node t (p, d) (Node x (q, False) y)))" by blast
    have "short s2 hs (Node t (p, d) (Node x (q, False) y))" using s2(2) b True t by (auto simp: short_def)
    moreover have "addrs (plug hs (Node t (p, d) (Node x (q, False) y))) = addrs (plug (FL p c u # gs) t)" using ad by (simp add: addrs_plug)
    ultimately have "moved s (FL p c u # gs) t gs"
      unfolding moved_def using s2(1) hs by (intro exI [of _ s2] exI [of _ "Node t (p, d) (Node x (q, False) y)"] exI [of _ hs]) simp
    then show ?thesis ..
  next
    case False
    have "rep s1 (plug hs (Node t (p, d) (Node x (q, True) y)))" using R by simp
    from finish_left [OF this refl False t b(1-5)] obtain s2 s3 t' where s2: "inner_left q s1 = Some s2" "outer_left p s2 = Some s3"
      and t': "rep s3 (plug hs t')" "addrs t' = addrs (Node t (p, d) (Node x (q, True) y))" "no_red_red t'" "even_black t'" "color t' = d"
        "bheight t' = Suc (bheight t) + (if d then 1 else 0)" by blast
    have "red_black (plug hs t')" unfolding red_black_plug using t'(3-6) b(6,7) by simp
    moreover have "addrs (plug hs t') = addrs (plug (FL p c u # gs) t)" using ad t'(2) by (simp add: addrs_plug)
    ultimately have "ended s (FL p c u # gs) t"
      unfolding ended_def using erase_end_left [OF T(1) t T(2) s1 R False s2] t'(1) rep_root [OF t'(1)]
      by (intro exI [of _ s3] exI [of _ "plug hs t'"]) simp
    then show ?thesis ..
  qed
qed

lemma erase_round_right:
  assumes sh: "short s (FR u p c # gs) t" and t: "color t"
  shows "moved s (FR u p c # gs) t gs \<or> ended s (FR u p c # gs) t"
proof -
  have T: "rep s (plug (FR u p c # gs) t)" "u \<noteq> Leaf" using sh by (auto simp: short_def)
  obtain s1 d x q y hs where s1: "sibling_right p s = Some s1" and S: "short s1 (FR (Node y (q, True) x) p d # hs) t"
    and ad: "addrs (plug (FR (Node y (q, True) x) p d # hs) t) = addrs (plug (FR u p c # gs) t)" and hs: "\<not> d \<or> hs = gs"
    using short_sibling_right [OF sh t] by blast
  have R: "rep s1 (plug (FR (Node y (q, True) x) p d # hs) t)" using S by (simp add: short_def)
  have b: "no_red_red t" "even_black t" "no_red_red (Node y (q, True) x)" "even_black (Node y (q, True) x)" "bheight (Node y (q, True) x) = Suc (bheight t)"
      "fits hs (Suc (bheight t) + (if d then 1 else 0))" "d \<or> top_black hs"
    using S t by (simp_all add: short_def)
  show ?thesis
  proof (cases "color x \<and> color y")
    case True
    from erase_up_right [OF T(1) t T(2) s1 R True] obtain s2 where s2: "erase_loop (ptr t) p s = erase_loop p (up hs) s2"
      "rep s2 (plug hs (Node (Node y (q, False) x) (p, d) t))" by blast
    have "short s2 hs (Node (Node y (q, False) x) (p, d) t)" using s2(2) b True t by (auto simp: short_def)
    moreover have "addrs (plug hs (Node (Node y (q, False) x) (p, d) t)) = addrs (plug (FR u p c # gs) t)" using ad by (simp add: addrs_plug)
    ultimately have "moved s (FR u p c # gs) t gs"
      unfolding moved_def using s2(1) hs by (intro exI [of _ s2] exI [of _ "Node (Node y (q, False) x) (p, d) t"] exI [of _ hs]) simp
    then show ?thesis ..
  next
    case False
    have "rep s1 (plug hs (Node (Node y (q, True) x) (p, d) t))" using R by simp
    from finish_right [OF this refl False t b(1-5)] obtain s2 s3 t' where s2: "inner_right q s1 = Some s2" "outer_right p s2 = Some s3"
      and t': "rep s3 (plug hs t')" "addrs t' = addrs (Node (Node y (q, True) x) (p, d) t)" "no_red_red t'" "even_black t'" "color t' = d"
        "bheight t' = Suc (bheight t) + (if d then 1 else 0)" by blast
    have "red_black (plug hs t')" unfolding red_black_plug using t'(3-6) b(6,7) by simp
    moreover have "addrs (plug hs t') = addrs (plug (FR u p c # gs) t)" using ad t'(2) by (simp add: addrs_plug)
    ultimately have "ended s (FR u p c # gs) t"
      unfolding ended_def using erase_end_right [OF T(1) t T(2) s1 R False s2] t'(1) rep_root [OF t'(1)]
      by (intro exI [of _ s3] exI [of _ "plug hs t'"]) simp
    then show ?thesis ..
  qed
qed

lemma erase_loop_correct:
  "short s fs t \<Longrightarrow> \<exists>s' gs u. erase_loop (ptr t) (up fs) s = Some (ptr u, s') \<and> rep s' (plug gs u)
     \<and> red_black (plug gs (paint True u)) \<and> addrs (plug gs u) = addrs (plug fs t)"
proof (induction "length fs" arbitrary: s fs t rule: less_induct)
  case less
  have stop: ?case if "\<not> color t \<or> fs = []"
    using erase_stop [of s fs t "up fs"] short_stop [OF less.prems that] less.prems that unfolding short_def by blast
  show ?case
  proof (cases fs)
    case (Cons f gs)
    show ?thesis
    proof (cases "color t")
      case True
      have "moved s fs t gs \<or> ended s fs t"
        using erase_round_left [of s _ _ _ gs t] erase_round_right [of s _ _ _ gs t] less.prems True Cons
        by (cases f) simp_all
      then consider s1 v hs where "erase_loop (ptr t) (up fs) s = erase_loop (ptr v) (up hs) s1" "short s1 hs v"
          "addrs (plug hs v) = addrs (plug fs t)" "\<not> color v \<or> hs = gs"
        | s1 T where "erase_loop (ptr t) (up fs) s = Some (ptr T, s1)" "rep s1 T" "red_black T" "addrs T = addrs (plug fs t)"
        unfolding moved_def ended_def by blast
      then show ?thesis
      proof cases
        case (1 s1 v hs)
        have "\<exists>s' ks u. erase_loop (ptr v) (up hs) s1 = Some (ptr u, s') \<and> rep s' (plug ks u)
            \<and> red_black (plug ks (paint True u)) \<and> addrs (plug ks u) = addrs (plug hs v)"
        proof (cases "color v")
          case True
          then show ?thesis using 1(4) Cons less.hyps [OF _ 1(2)] by simp
        next
          case False
          then show ?thesis using erase_stop [of s1 hs v "up hs"] short_stop [OF 1(2)] 1(2) unfolding short_def by blast
        qed
        then show ?thesis using 1(1,3) by simp
      next
        case (2 s1 T)
        have "paint True T = T" using 2(3) by (simp add: red_black_def)
        then show ?thesis using 2 by (intro exI [of _ s1] exI [of _ "[]"] exI [of _ T]) simp
      qed
    qed (use stop in simp)
  qed (use stop in simp)
qed

lemma rb_erase_color_correct:
  assumes "short s fs t"
  shows "\<exists>s' T. rb_erase_color (ptr t) (up fs) s = Some s' \<and> rep s' T \<and> red_black T \<and> addrs T = addrs (plug fs t)"
proof -
  obtain s1 gs u where u: "erase_loop (ptr t) (up fs) s = Some (ptr u, s1)" "rep s1 (plug gs u)"
      "red_black (plug gs (paint True u))" "addrs (plug gs u) = addrs (plug fs t)"
    using erase_loop_correct [OF assms] by blast
  show ?thesis
  proof (cases "u = Leaf")
    case True
    then show ?thesis using u by (auto simp: rb_erase_color_def)
  next
    case False
    then obtain s2 where "rb_set_black (ptr u) s1 = Some s2" "rep s2 (plug gs (paint True u))"
      using rep_black_ptr [OF u(2)] by blast
    moreover have "ptr u \<noteq> 0" using False rep_plug [OF u(2)] ptr_0 by blast
    moreover have "addrs (plug gs (paint True u)) = addrs (plug fs t)" using u(4) by (simp add: addrs_plug)
    ultimately show ?thesis using u(1,3) by (auto simp: rb_erase_color_def)
  qed
qed

section \<open>Taking a node out\<close>

text \<open>A child in the place of its parent.\<close>

lemma spliced:
  assumes T: "tree_in v root (plug fs (Node l (a, c) r))" and ch: "ch = l \<or> ch = r"
    and w: "w = rehang (ptr ch) fs (reparent (ptr ch) (up fs) v)"
  shows "tree_in w (new_root (ptr ch) fs root) (plug fs ch)" "child_of a fs v \<Longrightarrow> child_of a fs (reparent (ptr ch) (up fs) v)"
proof -
  have sub: "shape v a ch" "distinct (addrs ch)" and out: "set (addrs ch) \<inter> caddrs fs = {}"
    using T ch by (auto simp: tree_in_def shape_plug distinct_plug)
  have same: "reparent (ptr ch) (up fs) v x = v x" if "x \<in> caddrs fs" for x
    using that out ptr_in [of ch] by (cases "ch = Leaf") (auto simp: reparent_def)
  have up: "fs = [] \<or> reparent (ptr ch) (up fs) v (up fs) = v (up fs)" using up_in same by blast
  then show "child_of a fs v \<Longrightarrow> child_of a fs (reparent (ptr ch) (up fs) v)"
    using child_of_cong [of fs "reparent (ptr ch) (up fs) v" v a] by simp
  have "w x = reparent (ptr ch) (up fs) v x" if "x \<in> set (addrs ch)" for x
    using that out up_in [of fs] rehang_other [of x fs] unfolding w by (cases "fs = []") (auto simp: rehang_def)
  then have "shape w (up fs) ch" by (rule shape_reparent [OF sub])
  moreover have "w x = rehang (ptr ch) fs v x" if "x \<in> caddrs fs" for x
    using rehang_cong [of fs "reparent (ptr ch) (up fs) v" v x] up same [OF that] by (simp add: w)
  ultimately show "tree_in w (new_root (ptr ch) fs root) (plug fs ch)" using tree_in_replace [OF T] sub(2) out by blast
qed

lemma rep_spliced:
  assumes "rep s (plug fs (Node l (a, c) r))" "ch = l \<or> ch = r"
    "vw s' = rehang (ptr ch) fs (reparent (ptr ch) (up fs) (vw s))" "root_node s' = new_root (ptr ch) fs (root_node s)"
  shows "rep s' (plug fs ch)"
  using spliced(1) [of "vw s" "root_node s" fs l a c r ch "vw s'"] assms by (auto simp: rep_def set_addrs_plug)

lemma is_black_color: "rb_color n = 1 \<longleftrightarrow> rb_is_black n"
  by (simp add: rb_color_cases)

text \<open>After the node is out, the colours are repaired when it was black.\<close>

lemma repaired:
  assumes "rep s (plug fs ch)" "red_black (plug gs (Node l (a, c) r))" "ch = l \<or> ch = r" "\<And>h. fits fs h = fits gs h"
    "top_black fs = top_black gs"
  shows "\<exists>s' T. (if c then rb_erase_color (ptr ch) (up fs) s else Some s) = Some s' \<and> rep s' T \<and> red_black T
    \<and> addrs T = addrs (plug fs ch)"
proof -
  have b: "no_red_red ch" "even_black ch" "color ch \<or> c" "fits gs (bheight ch + (if c then 1 else 0))" "c \<or> top_black gs"
    using assms(2,3) unfolding red_black_plug by auto
  show ?thesis
  proof (cases c)
    case True
    then have "short s fs ch" using assms(1) b(1,2,4) assms(4) [of "Suc (bheight ch)"] by (simp add: short_def paint_simps(1))
    then show ?thesis using rb_erase_color_correct True by simp
  next
    case False
    then have "red_black (plug fs ch)"
      unfolding red_black_plug using b assms(4) [of "bheight ch"] by simp
    then show ?thesis using assms(1) False by auto
  qed
qed

lemma erase_one_child_correct:
  assumes T: "rep s (plug fs (Node l (a, c) r))" "red_black (plug fs (Node l (a, c) r))" and ch: "ch = l \<or> ch = r"
  shows "\<exists>s' T. erase_one_child (ptr ch) a s = Some s' \<and> rep s' T \<and> red_black T \<and> addrs T = before fs @ addrs ch @ behind fs"
proof -
  note rd = rep_node [OF T(1)]
  obtain s1 where s1: "parent_if (ptr ch) (up fs) s = Some s1" "vw s1 = reparent (ptr ch) (up fs) (vw s)"
      "root_node s1 = root_node s"
    using parent_if_ok [OF rep_aligned_up [OF T(1)]] by blast
  have "child_of a fs (vw s1)"
    using spliced(2) [of "vw s" "root_node s" fs l a c r ch] T(1) ch rep_child_of [OF T(1)] by (simp add: rep_def s1(2))
  from replace_left_first_ok [OF this, of "ptr ch"] obtain s2 where s2: "replace_left_first (up fs) a (ptr ch) s1 = Some s2"
      "vw s2 = rehang (ptr ch) fs (vw s1)" "root_node s2 = new_root (ptr ch) fs (root_node s1)" by blast
  have "rep s2 (plug fs ch)" using rep_spliced [OF T(1) ch] s2(2,3) s1(2,3) by simp
  from repaired [OF this T(2) ch] show ?thesis
    using rd s1(1) s2(1) by (simp add: erase_one_child_def node_at_def is_black_color addrs_plug)
qed

section \<open>Putting one node in the place of another\<close>

lemma swapped:
  assumes T: "tree_in v root (plug fs (Node l (a, c) r))" and b: "b \<noteq> 0" "b \<notin> set (addrs (plug fs (Node l (a, c) r)))"
    and w: "w b = v a" "\<And>x. x \<in> set (addrs l) \<Longrightarrow> w x = reparent (ptr l) b v x"
      "\<And>x. x \<in> set (addrs r) \<Longrightarrow> w x = reparent (ptr r) b v x" "\<And>x. x \<in> caddrs fs \<Longrightarrow> w x = rehang b fs v x"
  shows "tree_in w (new_root b fs root) (plug fs (Node l (b, c) r))"
proof -
  have old: "shape v (up fs) (Node l (a, c) r)" "distinct (addrs (Node l (a, c) r))" "caddrs fs \<inter> set (addrs (Node l (a, c) r)) = {}"
    using T by (auto simp: tree_in_def shape_plug distinct_plug)
  have "shape w b l" "shape w b r"
    using shape_reparent [of v a l w b] shape_reparent [of v a r w b] old(1,2) w(2,3) by auto
  then have "shape w (up fs) (Node l (b, c) r)" using old(1) w(1) b(1) by simp
  then show ?thesis using tree_in_replace [OF T, of w "Node l (b, c) r"] old(2,3) b(2) w(4) by (auto simp: set_addrs_plug)
qed

lemma rep_swapped:
  assumes "rep s (plug fs (Node l (a, c) r))" "b \<noteq> 0" "aligned b" "b \<notin> set (addrs (plug fs (Node l (a, c) r)))"
    and "vw s' b = vw s a" "\<And>x. x \<in> set (addrs l) \<Longrightarrow> vw s' x = reparent (ptr l) b (vw s) x"
      "\<And>x. x \<in> set (addrs r) \<Longrightarrow> vw s' x = reparent (ptr r) b (vw s) x"
      "\<And>x. x \<in> caddrs fs \<Longrightarrow> vw s' x = rehang b fs (vw s) x"
    and "root_node s' = new_root b fs (root_node s)"
  shows "rep s' (plug fs (Node l (b, c) r))"
proof -
  have "tree_in (vw s) (root_node s) (plug fs (Node l (a, c) r))" using assms(1) by (simp add: rep_def)
  from swapped [OF this assms(2,4-8)] assms(1,3,9) show ?thesis by (simp add: rep_def set_addrs_plug)
qed

text \<open>The addresses that the replacement touches, and the others.\<close>

lemma swap_apart:
  assumes "rep s (plug fs (Node l (a, c) r))" "b \<notin> set (addrs (plug fs (Node l (a, c) r)))"
  shows "a \<noteq> b" "fs = [] \<or> up fs \<noteq> b" "fs = [] \<or> up fs \<noteq> a" "fs = [] \<or> up fs \<noteq> ptr l \<and> up fs \<noteq> ptr r"
    "ptr l \<noteq> a" "ptr r \<noteq> a" "b \<noteq> 0 \<Longrightarrow> ptr l \<noteq> b" "b \<noteq> 0 \<Longrightarrow> ptr r \<noteq> b"
    "\<And>x. x \<in> set (addrs l) \<Longrightarrow> x \<noteq> b \<and> x \<noteq> up fs \<and> x \<noteq> ptr r \<and> x \<noteq> a \<and> x \<noteq> 0"
    "\<And>x. x \<in> set (addrs r) \<Longrightarrow> x \<noteq> b \<and> x \<noteq> up fs \<and> x \<noteq> ptr l \<and> x \<noteq> a \<and> x \<noteq> 0"
    "\<And>x. x \<in> caddrs fs \<Longrightarrow> x \<noteq> b \<and> x \<noteq> ptr l \<and> x \<noteq> ptr r \<and> x \<noteq> a"
proof -
  let ?T = "plug fs (Node l (a, c) r)"
  have sh: "shape (vw s) 0 ?T" and d: "distinct (addrs ?T)" using assms(1) by (simp_all add: rep_def tree_in_def)
  have nz: "x \<noteq> 0" if "x \<in> set (addrs ?T)" for x using shape_not_0 [OF sh that] .
  have pl: "ptr l = 0 \<or> ptr l \<in> set (addrs l)" using ptr_in [of l] by (cases "l = Leaf") auto
  have pr: "ptr r = 0 \<or> ptr r \<in> set (addrs r)" using ptr_in [of r] by (cases "r = Leaf") auto
  have pu: "up fs = 0 \<or> up fs \<in> caddrs fs" "fs = [] \<or> up fs \<in> caddrs fs" using up_in [of fs] by (cases "fs = []"; auto)+
  have ps: "a \<notin> set (addrs l)" "a \<notin> set (addrs r)" "a \<notin> caddrs fs" "set (addrs l) \<inter> set (addrs r) = {}"
      "caddrs fs \<inter> set (addrs l) = {}" "caddrs fs \<inter> set (addrs r) = {}"
    using d unfolding distinct_plug by auto
  have z: "0 \<notin> set (addrs l)" "0 \<notin> set (addrs r)" "0 \<notin> caddrs fs" "a \<noteq> 0"
    using nz [of 0] nz [of a] by (auto simp: set_addrs_plug)
  have b: "b \<noteq> a" "b \<notin> set (addrs l)" "b \<notin> set (addrs r)" "b \<notin> caddrs fs" using assms(2) by (auto simp: set_addrs_plug)
  show "a \<noteq> b" using b(1) by blast
  show "fs = [] \<or> up fs \<noteq> b" "fs = [] \<or> up fs \<noteq> a" using pu(2) b(4) ps(3) by auto
  show "fs = [] \<or> up fs \<noteq> ptr l \<and> up fs \<noteq> ptr r" using pu(2) pl pr ps(5,6) z(3) by (metis IntI empty_iff)
  show "ptr l \<noteq> a" "ptr r \<noteq> a" using pl pr ps(1,2) z(4) by auto
  show "b \<noteq> 0 \<Longrightarrow> ptr l \<noteq> b" "b \<noteq> 0 \<Longrightarrow> ptr r \<noteq> b" using pl pr b(2,3) by auto
  show "x \<noteq> b \<and> x \<noteq> up fs \<and> x \<noteq> ptr r \<and> x \<noteq> a \<and> x \<noteq> 0" if "x \<in> set (addrs l)" for x
    using that b(2) pu(1) pr ps(1,4,5) z(1) by (metis IntI empty_iff)
  show "x \<noteq> b \<and> x \<noteq> up fs \<and> x \<noteq> ptr l \<and> x \<noteq> a \<and> x \<noteq> 0" if "x \<in> set (addrs r)" for x
    using that b(3) pu(1) pl ps(2,4,6) z(2) by (metis IntI empty_iff)
  show "x \<noteq> b \<and> x \<noteq> ptr l \<and> x \<noteq> ptr r \<and> x \<noteq> a" if "x \<in> caddrs fs" for x
    using that b(4) pl pr ps(3,5,6) z(3) by (metis IntI empty_iff)
qed

lemma put_in_place_correct:
  assumes T: "rep s (plug fs (Node l (a, c) r))" and l: "l \<noteq> Leaf"
    and b: "b \<noteq> 0" "aligned b" "b \<notin> set (addrs (plug fs (Node l (a, c) r)))"
  shows "\<exists>s'. put_in_place b a s = Some s' \<and> rep s' (plug fs (Node l (b, c) r))"
proof -
  note rd = rep_node [OF T] and ap = swap_apart [OF T b(3)]
  let ?f = "\<lambda>n. n\<lparr>rb_parent_color := rb_parent_color (nodes s a), rb_right := rb_right (nodes s a), rb_left := rb_left (nodes s a)\<rparr>"
  have f: "view_of (?f n) = vw s a" for n
    by (simp add: vw_def view_of_def rb_parent_def rb_is_black_def rb_color_def)
  have pl: "ptr l \<noteq> 0" using l rep_plug [OF T] ptr_0 by auto
  obtain s1 where s1: "put b ?f s = Some s1" "vw s1 = (vw s)(b := vw s a)" "root_node s1 = root_node s"
    using put_ok [OF b(1), of ?f s] f by auto
  have a1: "vw s1 a = vw s a" and u1: "fs = [] \<or> vw s1 (up fs) = vw s (up fs)" using ap(1,2) by (auto simp: s1(2))
  have "child_of a fs (vw s1)" using rep_child_of [OF T] child_of_cong [of fs "vw s1" "vw s" a] u1 by simp
  from replace_left_first_ok [OF this, of b] obtain s2 where s2: "replace_left_first (up fs) a b s1 = Some s2"
      "vw s2 = rehang b fs (vw s1)" "root_node s2 = new_root b fs (root_node s1)" by blast
  have off: "rehang b fs v x = v x" if "fs = [] \<or> x \<noteq> up fs" for x v
    using that rehang_other [of x fs b v] by (cases "fs = []") (auto simp: rehang_def)
  have a2: "vw s2 a = vw s a" using off [of a] ap(3) a1 by (auto simp: s2(2))
  obtain s3 where s3: "rb_set_parent (ptr l) b s2 = Some s3" "vw s3 = (vw s2)(ptr l := (vw s2 (ptr l))\<lparr>par := b\<rparr>)"
      "root_node s3 = root_node s2"
    using set_parent_ok [OF pl b(2)] by blast
  have a3: "vw s3 a = vw s a" using ap(5) a2 by (simp add: s3(2))
  obtain s4 where s4: "parent_if (ptr r) b s3 = Some s4" "vw s4 = reparent (ptr r) b (vw s3)" "root_node s4 = root_node s3"
    using parent_if_ok [OF b(2)] by blast
  have "rep s4 (plug fs (Node l (b, c) r))"
  proof (rule rep_swapped [OF T b])
    show "vw s4 b = vw s a"
      using off [of b] ap(2,7,8) b(1) by (auto simp: s4(2) s3(2) s2(2) s1(2) reparent_other)
    show "vw s4 x = reparent (ptr l) b (vw s) x" if "x \<in> set (addrs l)" for x
      using ap(9) [OF that] off [of x] pl by (auto simp: s4(2) s3(2) s2(2) s1(2) reparent_def)
    show "vw s4 x = reparent (ptr r) b (vw s) x" if "x \<in> set (addrs r)" for x
      using ap(10) [OF that] off [of x] by (auto simp: s4(2) s3(2) s2(2) s1(2) reparent_def)
    show "vw s4 x = rehang b fs (vw s) x" if "x \<in> caddrs fs" for x
      using ap(11) [OF that] rehang_cong [of fs "vw s1" "vw s" x b] u1 by (simp add: s4(2) s3(2) s2(2) s1(2) reparent_other)
    show "root_node s4 = new_root b fs (root_node s)" by (simp add: s4(3) s3(3) s2(3) s1(3))
  qed
  moreover have "put_in_place b a s = Some s4"
    using rd s1(1) s2(1) s3(1) s4(1) a1 a2 a3 by (simp add: put_in_place_def node_at_def vw_def view_of_def)
  ultimately show ?thesis by blast
qed

lemma rb_replace_node_place:
  assumes T: "rep s (plug fs (Node l (a, c) r))"
    and b: "b \<noteq> 0" "aligned b" "b \<notin> set (addrs (plug fs (Node l (a, c) r)))"
  shows "\<exists>s'. rb_replace_node a b s = Some s' \<and> rep s' (plug fs (Node l (b, c) r))"
proof -
  note rd = rep_node [OF T] and ap = swap_apart [OF T b(3)]
  from replace_left_first_ok [of a fs s b] rep_child_of [OF T] obtain s1 where s1: "replace_left_first (up fs) a b s = Some s1"
      "vw s1 = rehang b fs (vw s)" "root_node s1 = new_root b fs (root_node s)" by auto
  have off: "rehang b fs v x = v x" if "fs = [] \<or> x \<noteq> up fs" for x v
    using that rehang_other [of x fs b v] by (cases "fs = []") (auto simp: rehang_def)
  have a1: "vw s1 a = vw s a" using off [of a] ap(3) by (auto simp: s1(2))
  obtain s2 where s2: "parent_if (ptr l) b s1 = Some s2" "vw s2 = reparent (ptr l) b (vw s1)" "root_node s2 = root_node s1"
    using parent_if_ok [OF b(2)] by blast
  have a2: "vw s2 a = vw s a" using ap(5) a1 by (simp add: s2(2) reparent_other)
  obtain s3 where s3: "parent_if (ptr r) b s2 = Some s3" "vw s3 = reparent (ptr r) b (vw s2)" "root_node s3 = root_node s2"
    using parent_if_ok [OF b(2)] by blast
  have a3: "vw s3 a = vw s a" using ap(6) a2 by (simp add: s3(2) reparent_other)
  obtain s4 where s4: "put b (\<lambda>_. nodes s3 a) s3 = Some s4" "vw s4 = (vw s3)(b := vw s3 a)" "root_node s4 = root_node s3"
    using put_ok [OF b(1), of "\<lambda>_. nodes s3 a" s3] by (auto simp: vw_def)
  have "rep s4 (plug fs (Node l (b, c) r))"
  proof (rule rep_swapped [OF T b])
    show "vw s4 b = vw s a" using a3 by (simp add: s4(2))
    show "vw s4 x = reparent (ptr l) b (vw s) x" if "x \<in> set (addrs l)" for x
      using ap(9) [OF that] off [of x] by (auto simp: s4(2) s3(2) s2(2) s1(2) reparent_def)
    show "vw s4 x = reparent (ptr r) b (vw s) x" if "x \<in> set (addrs r)" for x
      using ap(10) [OF that] off [of x] by (auto simp: s4(2) s3(2) s2(2) s1(2) reparent_def)
    show "vw s4 x = rehang b fs (vw s) x" if "x \<in> caddrs fs" for x
      using ap(11) [OF that] by (simp add: s4(2) s3(2) s2(2) s1(2) reparent_other)
    show "root_node s4 = new_root b fs (root_node s)" by (simp add: s4(3) s3(3) s2(3) s1(3))
  qed
  moreover have "rb_replace_node a b s = Some s4"
    using rd s1(1) s2(1) s3(1) s4(1) a1 a2 a3 by (simp add: rb_replace_node_def node_at_def vw_def view_of_def)
  ultimately show ?thesis by blast
qed

section \<open>A node with two children\<close>

lemma first_place: "t \<noteq> Leaf \<Longrightarrow> \<exists>ds b d ch. t = plug ds (Node Leaf (b, d) ch) \<and> before ds = []"
proof (induction t rule: addrs.induct)
  case (2 l a c r)
  show ?case
  proof (cases "l = Leaf")
    case True
    then show ?thesis by (intro exI [of _ "[]"] exI [of _ a] exI [of _ c] exI [of _ r]) simp
  next
    case False
    then obtain ds b d ch where l: "l = plug ds (Node Leaf (b, d) ch)" "before ds = []" using "2.IH"(1) by blast
    have "plug (ds @ [f]) t = fill f (plug ds t)" for f t by (induction ds arbitrary: t) auto
    moreover have "before (ds @ [FL a c r]) = before ds" by (induction ds rule: before.induct) auto
    ultimately show ?thesis using l by (intro exI [of _ "ds @ [FL a c r]"] exI [of _ b] exI [of _ d] exI [of _ ch]) simp
  qed
qed simp

lemma plug_append: "plug (ds @ fs) t = plug fs (plug ds t)"
  by (induction ds arbitrary: t) auto

lemma before_append: "before (ds @ fs) = before fs @ before ds"
  by (induction ds rule: before.induct) auto

lemma behind_append: "behind (ds @ fs) = behind ds @ behind fs"
  by (induction ds rule: behind.induct) auto

text \<open>The address in a frame does not matter for the colours.\<close>

lemma fits_readdress: "fits (ds @ FR l a c # fs) h = fits (ds @ FR l b c # fs) h"
proof (induction ds arbitrary: h)
  case (Cons f ds)
  have "top_black (ds @ FR l a c # fs) = top_black (ds @ FR l b c # fs)" by (cases ds) (auto simp: top_black_def)
  then show ?case using Cons.IH by simp
qed simp

lemma top_black_readdress: "top_black (ds @ FR l a c # fs) = top_black (ds @ FR l b c # fs)"
  by (cases ds) (auto simp: top_black_def)

lemma take_out_correct:
  assumes T: "rep s (plug (ds @ FR l a c # fs) (Node Leaf (b, d) ch))" and ds: "before ds = []"
  shows "\<exists>s'. take_out b a s = Some (if ds = [] then b else up ds, s') \<and> rep s' (plug (ds @ FR l a c # fs) ch)"
proof -
  let ?es = "ds @ FR l a c # fs"
  note rd = rep_node [OF T]
  obtain s1 where s1: "parent_if (ptr ch) (up ?es) s = Some s1" "vw s1 = reparent (ptr ch) (up ?es) (vw s)"
      "root_node s1 = root_node s"
    using parent_if_ok [OF rep_aligned_up [OF T]] by blast
  have nz: "up ?es \<noteq> 0" using rep_plug [OF T] by (cases ?es rule: caddrs.cases) auto
  have link: "\<exists>s2. (if up ?es = a then do { s \<leftarrow> set_right (up ?es) (ptr ch) s1; Some (b, s) }
      else do { s \<leftarrow> set_left (up ?es) (ptr ch) s1; Some (up ?es, s) }) = Some (if ds = [] then b else up ds, s2)
      \<and> vw s2 = rehang (ptr ch) ?es (vw s1) \<and> root_node s2 = root_node s1"
  proof (cases ds rule: before.cases)
    case 1
    then show ?thesis using set_right_ok [of a "ptr ch" s1] nz by (auto simp: rehang_def)
  next
    case (2 p e r gs)
    have "p \<noteq> a" using rep_distinct [OF T] unfolding addrs_plug 2 by (auto simp: behind_append before_append)
    then show ?thesis using set_left_ok [of p "ptr ch" s1] nz by (auto simp: rehang_def 2)
  next
    case (3 l p e gs)
    then show ?thesis using ds by simp
  qed
  then obtain s2 where s2: "vw s2 = rehang (ptr ch) ?es (vw s1)" "root_node s2 = root_node s1"
      "take_out b a s = Some (if ds = [] then b else up ds, s2)"
    using rd s1(1) by (auto simp: take_out_def node_at_def)
  have "rep s2 (plug ?es ch)"
    by (rule rep_spliced [OF T]) (simp_all add: s2 s1 new_root_def)
  then show ?thesis using s2(3) by blast
qed

lemma erase_two_children_correct:
  assumes T: "rep s (plug fs (Node l (a, c) r))" "red_black (plug fs (Node l (a, c) r))" and lr: "l \<noteq> Leaf" "r \<noteq> Leaf"
  shows "\<exists>s' T. erase_two_children a s = Some s' \<and> rep s' T \<and> red_black T \<and> addrs T = before fs @ addrs l @ addrs r @ behind fs"
proof -
  obtain ds b d ch where r: "r = plug ds (Node Leaf (b, d) ch)" and ds: "before ds = []" using first_place [OF lr(2)] by blast
  let ?es = "ds @ FR l a c # fs" and ?gs = "ds @ FR l b c # fs"
  have eq: "plug fs (Node l (a, c) r) = plug ?es (Node Leaf (b, d) ch)" by (simp add: plug_append r)
  note B = T(1) [unfolded eq] and rd = rep_node [OF T(1)]
  note rb = rep_node [OF B]
  have "rep s (plug (FR l a c # fs) r)" using T(1) by simp
  from leftmost_correct [OF this lr(2)] have lm: "leftmost (ptr r) s = Some b" by (simp add: r addrs_plug ds)
  obtain s1 where s1: "take_out b a s = Some (if ds = [] then b else up ds, s1)" "rep s1 (plug ?es ch)"
    using take_out_correct [OF B ds] by blast
  have "rep s1 (plug fs (Node l (a, c) (plug ds ch)))" using s1(2) by (simp add: plug_append)
  moreover have "b \<notin> set (addrs (plug fs (Node l (a, c) (plug ds ch))))"
    using rep_distinct [OF B] by (auto simp: plug_append addrs_plug)
  moreover have "aligned b" using rep_aligned [OF B] by (simp add: set_addrs_plug)
  ultimately obtain s2 where s2: "put_in_place b a s1 = Some s2" "rep s2 (plug fs (Node l (b, c) (plug ds ch)))"
    using put_in_place_correct lr(1) rb(1) by blast
  have R: "rep s2 (plug ?gs ch)" using s2(2) by (simp add: plug_append)
  have up: "(if ds = [] then b else up ds) = up ?gs" by (cases ds rule: up.cases) auto
  have ad: "addrs (plug ?gs ch) = before fs @ addrs l @ addrs r @ behind fs"
    by (simp add: addrs_plug r ds before_append behind_append)
  have "red_black (plug ?es (Node Leaf (b, d) ch))" using T(2) by (simp add: eq)
  from repaired [OF R this _ fits_readdress top_black_readdress] obtain s3 T3 where
    "(if d then rb_erase_color (ptr ch) (up ?gs) s2 else Some s2) = Some s3" "rep s3 T3" "red_black T3"
    "addrs T3 = before fs @ addrs l @ addrs r @ behind fs" using ad by auto
  then show ?thesis
    using rd rb lm s1(1) s2(1) up by (auto simp: erase_two_children_def node_at_def is_black_color)
qed

lemma rb_erase_place:
  assumes T: "rep s (plug fs (Node l (a, c) r))" "red_black (plug fs (Node l (a, c) r))"
  shows "\<exists>s' T. rb_erase a s = Some s' \<and> rep s' T \<and> red_black T \<and> addrs T = before fs @ addrs l @ addrs r @ behind fs"
proof -
  have "rep s (plug (FL a c r # fs) l)" "rep s (plug (FR l a c # fs) r)" using T(1) by simp_all
  note z = this [THEN rep_ptr_0] and rd = rep_node [OF T(1)]
  consider "l = Leaf" | "l \<noteq> Leaf" "r = Leaf" | "l \<noteq> Leaf" "r \<noteq> Leaf" by blast
  then show ?thesis
  proof cases
    case 1
    then show ?thesis using erase_one_child_correct [OF T, of r] rd by (simp add: rb_erase_def node_at_def)
  next
    case 2
    then show ?thesis using erase_one_child_correct [OF T, of l] rd z by (simp add: rb_erase_def node_at_def)
  next
    case 3
    then show ?thesis using erase_two_children_correct [OF T 3] rd z by (simp add: rb_erase_def node_at_def)
  qed
qed

section \<open>The contract of the ordered collection\<close>

definition rb_holds :: "rb_root \<Rightarrow> u64 list \<Rightarrow> bool" where
  "rb_holds s xs \<longleftrightarrow> (\<exists>T. rep s T \<and> red_black T \<and> addrs T = xs)"

lemma rb_holds_erase:
  assumes "rb_holds s (xs @ a # ys)"
  shows "\<exists>s'. rb_erase a s = Some s' \<and> rb_holds s' (xs @ ys)"
proof -
  obtain T where T: "rep s T" "red_black T" "addrs T = xs @ a # ys" using assms by (auto simp: rb_holds_def)
  obtain fs l c r where p: "T = plug fs (Node l (a, c) r)" "xs = before fs @ addrs l" "ys = addrs r @ behind fs"
    using split_at_place [OF rep_distinct [OF T(1)] T(3)] by blast
  show ?thesis using rb_erase_place [of s fs l a c r] T(1,2) p by (auto simp: rb_holds_def)
qed

lemma rb_holds_not_null: "rb_holds s xs \<Longrightarrow> 0 \<notin> set xs"
  using shape_not_0 by (auto simp: rb_holds_def rep_def tree_in_def)

lemma rb_holds_replace:
  assumes "rb_holds s (xs @ a # ys)" "b \<noteq> 0" "aligned b" "b \<notin> set (xs @ a # ys)"
  shows "\<exists>s'. rb_replace_node a b s = Some s' \<and> rb_holds s' (xs @ b # ys)"
proof -
  obtain T where T: "rep s T" "red_black T" "addrs T = xs @ a # ys" using assms by (auto simp: rb_holds_def)
  obtain fs l c r where p: "T = plug fs (Node l (a, c) r)" "xs = before fs @ addrs l" "ys = addrs r @ behind fs"
    using split_at_place [OF rep_distinct [OF T(1)] T(3)] by blast
  have "b \<notin> set (addrs (plug fs (Node l (a, c) r)))" using assms(4) T(3) by (simp add: p(1))
  from rb_replace_node_place [OF T(1) [unfolded p(1)] assms(2,3) this] obtain s' where
    s': "rb_replace_node a b s = Some s'" "rep s' (plug fs (Node l (b, c) r))" by blast
  moreover have "red_black (plug fs (Node l (b, c) r))" using T(2) unfolding p(1) red_black_plug by auto
  moreover have "addrs (plug fs (Node l (b, c) r)) = xs @ b # ys" by (simp add: addrs_plug p(2,3))
  ultimately show ?thesis by (auto simp: rb_holds_def)
qed

lemma rb_holds_distinct: "rb_holds s xs \<Longrightarrow> distinct xs"
  using rep_distinct by (auto simp: rb_holds_def)

interpretation rbt: node_order rb_holds rb_erase rb_first rb_next
proof unfold_locales
  show "rb_first s = Some (first_or_null xs)" if "rb_holds s xs" for s xs
    using that rb_ends(1) by (auto simp: rb_holds_def)
  show "rb_next a s = Some (first_or_null ys)" if "rb_holds s (xs @ a # ys)" for s xs a ys
    using that rb_walk_helper(1) by (auto simp: rb_holds_def)
qed (use rb_holds_not_null rb_holds_erase in blast)+

end
