(* ===== verification/Rbtree_Dict.thy ===== *)
theory Rbtree_Dict
  imports Rbtree_Erase
begin

text \<open>
  The dictionary of \<open>src/rbtree/test/test.c\<close>, the client of the red-black tree: nodes with a \<open>uint32_t\<close> key, kept
  in the order of their keys.  The keys of the nodes are a function of their addresses; no operation writes them.
\<close>

section \<open>The code\<close>

definition dict_key_cmp :: "u32 \<Rightarrow> u32 \<Rightarrow> int" where
  "dict_key_cmp first second = (if first < second then - 1 else if first > second then 1 else 0)"

partial_function (option) dict_search_loop :: "(u64 \<Rightarrow> u32) \<Rightarrow> u32 \<Rightarrow> u64 \<Rightarrow> rb_root \<Rightarrow> u64 option" where
  "dict_search_loop key k node s = (if node = 0 then Some 0
     else let result = dict_key_cmp k (key node) in
       if result = 0 then Some node
       else dict_search_loop key k (if result < 0 then rb_left (nodes s node) else rb_right (nodes s node)) s)"

definition dict_search :: "(u64 \<Rightarrow> u32) \<Rightarrow> u32 \<Rightarrow> rb_root \<Rightarrow> u64 option" where
  "dict_search key k s = dict_search_loop key k (root_node s) s"

fun deref :: "rb_link \<Rightarrow> rb_root \<Rightarrow> u64" where
  "deref RootLink s = root_node s" |
  "deref (LeftOf p) s = rb_left (nodes s p)" |
  "deref (RightOf p) s = rb_right (nodes s p)"

partial_function (option) descend :: "(u64 \<Rightarrow> u32) \<Rightarrow> u32 \<Rightarrow> rb_link \<Rightarrow> u64 \<Rightarrow> rb_root \<Rightarrow> (rb_link \<times> u64) option" where
  "descend key k link parent s = (if deref link s = 0 then Some (link, parent)
     else let parent = deref link s in
       descend key k (if dict_key_cmp k (key parent) < 0 then LeftOf parent else RightOf parent) parent s)"

definition dict_insert :: "(u64 \<Rightarrow> u32) \<Rightarrow> u64 \<Rightarrow> rb_root \<Rightarrow> rb_root option" where
  "dict_insert key data s = do {
     (link, parent) \<leftarrow> descend key (key data) RootLink 0 s;
     s \<leftarrow> rb_link_node data parent link s;
     rb_insert_color data s }"

definition dict_erase :: "(u64 \<Rightarrow> u32) \<Rightarrow> u32 \<Rightarrow> rb_root \<Rightarrow> rb_root option" where
  "dict_erase key k = erase_found (dict_search key k) rb_erase"

definition dict_iter :: "rb_root \<Rightarrow> u64 list option" where
  "dict_iter s = do { p \<leftarrow> rb_first s; visit rb_next p s }"

section \<open>Searching and descending\<close>

definition dict_holds :: "(u64 \<Rightarrow> u32) \<Rightarrow> rb_root \<Rightarrow> u64 list \<Rightarrow> bool" where
  "dict_holds key s xs \<longleftrightarrow> rb_holds s xs \<and> sorted (map key xs)"

definition finds :: "(u64 \<Rightarrow> u32) \<Rightarrow> u32 \<Rightarrow> u64 list \<Rightarrow> u64 \<Rightarrow> bool" where
  "finds key k xs p \<longleftrightarrow> p \<in> set xs \<and> key p = k \<or> p = 0 \<and> (\<forall>a \<in> set xs. key a \<noteq> k)"

lemma dict_search_loop_found:
  "rep s (plug fs t) \<Longrightarrow> sorted (map key (addrs t)) \<Longrightarrow>
   \<exists>p. dict_search_loop key k (ptr t) s = Some p \<and> finds key k (addrs t) p"
proof (induction t arbitrary: fs rule: addrs.induct)
  case 1
  then show ?case by (subst dict_search_loop.simps) (simp add: finds_def)
next
  case (2 l a c r)
  have l: "rep s (plug (FL a c r # fs) l)" and r: "rep s (plug (FR l a c # fs) r)" using "2.prems"(1) by simp_all
  note rd = rep_node [OF "2.prems"(1)]
  have srt: "sorted (map key (addrs l))" "sorted (map key (addrs r))" "\<forall>x \<in> set (addrs l). key x \<le> key a"
      "\<forall>x \<in> set (addrs r). key a \<le> key x"
    using "2.prems"(2) by (auto simp: sorted_append)
  consider "k = key a" | "k < key a" | "key a < k" by (rule linorder_cases)
  then show ?case
  proof cases
    case 1
    then show ?thesis using rd by (subst dict_search_loop.simps) (simp add: dict_key_cmp_def finds_def)
  next
    case 2
    then have "dict_search_loop key k a s = dict_search_loop key k (ptr l) s"
      using rd by (subst dict_search_loop.simps) (simp add: dict_key_cmp_def)
    moreover have "finds key k (addrs l) p \<Longrightarrow> finds key k (addrs (Node l (a, c) r)) p" for p
      using 2 srt(4) by (auto simp: finds_def)
    ultimately show ?thesis using "2.IH"(1) [OF l srt(1)] by auto
  next
    case 3
    then have "dict_search_loop key k a s = dict_search_loop key k (ptr r) s"
      using rd by (subst dict_search_loop.simps) (auto simp: dict_key_cmp_def)
    moreover have "finds key k (addrs r) p \<Longrightarrow> finds key k (addrs (Node l (a, c) r)) p" for p
      using 3 srt(3) by (auto simp: finds_def)
    ultimately show ?thesis using "2.IH"(2) [OF r srt(2)] by auto
  qed
qed

lemma dict_search_spec:
  assumes "dict_holds key s xs"
  shows "\<exists>p. dict_search key k s = Some p \<and> finds key k xs p"
proof -
  obtain T where T: "rep s T" "addrs T = xs" "sorted (map key (addrs T))"
    using assms by (auto simp: dict_holds_def rb_holds_def)
  show ?thesis using dict_search_loop_found [of s "[]" T key k] T rep_root [OF T(1)] by (auto simp: dict_search_def)
qed

lemma deref_link: "rep s (plug fs t) \<Longrightarrow> deref (link_of fs) s = ptr t"
  using rep_plug [of s fs t] rep_root [of s t] by (cases fs rule: caddrs.cases) (auto simp: vw_fields)

lemma descend_place:
  "rep s (plug fs t) \<Longrightarrow> sorted (map key (addrs t)) \<Longrightarrow>
   \<exists>gs. descend key k (link_of fs) (up fs) s = Some (link_of gs, up gs) \<and> plug gs Leaf = plug fs t
     \<and> before gs = before fs @ filter (\<lambda>x. key x \<le> k) (addrs t) \<and> behind gs = filter (\<lambda>x. k < key x) (addrs t) @ behind fs"
proof (induction t arbitrary: fs rule: addrs.induct)
  case 1
  then show ?case using deref_link [OF "1.prems"(1)] by (intro exI [of _ fs]) (subst descend.simps, simp)
next
  case (2 l a c r)
  have l: "rep s (plug (FL a c r # fs) l)" and r: "rep s (plug (FR l a c # fs) r)" using "2.prems"(1) by simp_all
  note rd = rep_node [OF "2.prems"(1)] and dl = deref_link [OF "2.prems"(1)]
  have srt: "sorted (map key (addrs l))" "sorted (map key (addrs r))" "\<forall>x \<in> set (addrs l). key x \<le> key a"
      "\<forall>x \<in> set (addrs r). key a \<le> key x"
    using "2.prems"(2) by (auto simp: sorted_append)
  show ?case
  proof (cases "k < key a")
    case True
    then have "descend key k (link_of fs) (up fs) s = descend key k (LeftOf a) a s"
      using rd(1) dl by (subst descend.simps) (simp add: dict_key_cmp_def)
    moreover have "filter (\<lambda>x. k < key x) (addrs r) = addrs r" "filter (\<lambda>x. key x \<le> k) (addrs r) = []"
      using True srt(4) by (auto simp: filter_id_conv filter_empty_conv)
    ultimately show ?thesis using "2.IH"(1) [OF l srt(1)] True by auto
  next
    case False
    then have "descend key k (link_of fs) (up fs) s = descend key k (RightOf a) a s"
      using rd(1) dl by (subst descend.simps) (simp add: dict_key_cmp_def)
    moreover have "filter (\<lambda>x. key x \<le> k) (addrs l) = addrs l" "filter (\<lambda>x. k < key x) (addrs l) = []"
      using False srt(3) by (auto simp: filter_id_conv filter_empty_conv)
    ultimately show ?thesis using "2.IH"(2) [OF r srt(2)] False by auto
  qed
qed

section \<open>Inserting\<close>

definition after_keys :: "(u64 \<Rightarrow> u32) \<Rightarrow> u64 \<Rightarrow> u64 list \<Rightarrow> u64 list" where
  "after_keys key a xs = filter (\<lambda>x. key x \<le> key a) xs @ a # filter (\<lambda>x. key a < key x) xs"

lemma sorted_after_keys: "sorted (map key xs) \<Longrightarrow> sorted (map key (after_keys key a xs))"
  by (auto simp: after_keys_def sorted_append sorted_filter)

lemma rb_insert_place:
  assumes "rep s (plug fs Leaf)" "red_black (plug fs Leaf)" "a \<noteq> 0" "aligned a" "a \<notin> set (addrs (plug fs Leaf))"
  shows "\<exists>s1 s2. rb_link_node a (up fs) (link_of fs) s = Some s1 \<and> rb_insert_color a s1 = Some s2
    \<and> rb_holds s2 (before fs @ a # behind fs)"
proof -
  obtain s1 where s1: "rb_link_node a (up fs) (link_of fs) s = Some s1" "rep s1 (plug fs (Node Leaf (a, False) Leaf))"
    using rb_link_node_correct [OF assms(1,3-5)] by blast
  have "fits fs 0" using assms(2) unfolding red_black_plug by simp
  from rb_insert_color_correct [OF s1(2) this] show ?thesis using s1(1) by (auto simp: rb_holds_def addrs_plug)
qed

lemma dict_insert_spec:
  assumes "dict_holds key s xs" "a \<noteq> 0" "aligned a" "a \<notin> set xs"
  shows "\<exists>s'. dict_insert key a s = Some s' \<and> dict_holds key s' (after_keys key a xs)"
proof -
  obtain T where T: "rep s T" "red_black T" "addrs T = xs" "sorted (map key (addrs T))"
    using assms(1) by (auto simp: dict_holds_def rb_holds_def)
  obtain gs where gs: "descend key (key a) RootLink 0 s = Some (link_of gs, up gs)" "plug gs Leaf = T"
      "before gs = filter (\<lambda>x. key x \<le> key a) xs" "behind gs = filter (\<lambda>x. key a < key x) xs"
    using descend_place [of s "[]" T key "key a"] T by auto
  from rb_insert_place [of s gs a] obtain s1 s2 where
    "rb_link_node a (up gs) (link_of gs) s = Some s1" "rb_insert_color a s1 = Some s2" "rb_holds s2 (after_keys key a xs)"
    using T assms(2-4) gs(2-4) by (auto simp: after_keys_def)
  then show ?thesis using gs(1) sorted_after_keys T(3,4) by (auto simp: dict_insert_def dict_holds_def)
qed

section \<open>The dictionary as an ordered collection\<close>

lemma sorted_remove: "sorted (map key (xs @ a # ys)) \<Longrightarrow> sorted (map key (xs @ ys))" for key :: "u64 \<Rightarrow> u32"
  by (auto simp: sorted_append)

interpretation dict: searched_order "dict_holds key" rb_erase rb_first rb_next "dict_search key k" "\<lambda>a. key a = k"
  for key k
proof unfold_locales
  show "0 \<notin> set xs" if "dict_holds key s xs" for s xs
    using that rbt.not_null unfolding dict_holds_def by blast
  show "rb_first s = Some (first_or_null xs)" if "dict_holds key s xs" for s xs
    using that rbt.first_node unfolding dict_holds_def by blast
  show "rb_next a s = Some (first_or_null ys)" if "dict_holds key s (xs @ a # ys)" for s xs a ys
    using that rbt.next_node unfolding dict_holds_def by blast
  show "\<exists>s'. rb_erase a s = Some s' \<and> dict_holds key s' (xs @ ys)" if "dict_holds key s (xs @ a # ys)" for s xs a ys
    using that rbt.erase_node [of s xs a ys] sorted_remove [of key xs a ys] unfolding dict_holds_def by blast
  show "\<exists>a \<in> set xs. key a = k \<and> dict_search key k s = Some a" if "dict_holds key s xs" "\<exists>a \<in> set xs. key a = k" for s xs
    using that(2) dict_search_spec [OF that(1), of k] by (auto simp: finds_def)
  show "dict_search key k s = Some 0" if "dict_holds key s xs" "\<forall>a \<in> set xs. key a \<noteq> k" for s xs
    using that(2) dict_search_spec [OF that(1), of k] by (auto simp: finds_def)
qed

section \<open>Sequences of operations\<close>

datatype dict_op = DictInsert u64 | DictErase u32

fun dict_run :: "(u64 \<Rightarrow> u32) \<Rightarrow> dict_op list \<Rightarrow> rb_root \<Rightarrow> rb_root option" where
  "dict_run key [] s = Some s" |
  "dict_run key (DictInsert a # ops) s = do { s \<leftarrow> dict_insert key a s; dict_run key ops s }" |
  "dict_run key (DictErase k # ops) s = do { s \<leftarrow> dict_erase key k s; dict_run key ops s }"

text \<open>The same on the sequence of the nodes, and that every inserted node is a new one.\<close>

fun seq_run :: "(u64 \<Rightarrow> u32) \<Rightarrow> dict_op list \<Rightarrow> u64 list \<Rightarrow> u64 list" where
  "seq_run key [] xs = xs" |
  "seq_run key (DictInsert a # ops) xs = seq_run key ops (after_keys key a xs)" |
  "seq_run key (DictErase k # ops) xs = seq_run key ops (filter (\<lambda>a. key a \<noteq> k) xs)"

fun new_nodes :: "(u64 \<Rightarrow> u32) \<Rightarrow> dict_op list \<Rightarrow> u64 list \<Rightarrow> bool" where
  "new_nodes key [] xs \<longleftrightarrow> True" |
  "new_nodes key (DictInsert a # ops) xs \<longleftrightarrow> a \<noteq> 0 \<and> aligned a \<and> a \<notin> set xs \<and> new_nodes key ops (after_keys key a xs)" |
  "new_nodes key (DictErase k # ops) xs \<longleftrightarrow> new_nodes key ops (filter (\<lambda>a. key a \<noteq> k) xs)"

lemma dict_erase_spec:
  "dict_holds key s xs \<Longrightarrow> \<exists>s'. dict_erase key k s = Some s' \<and> dict_holds key s' (filter (\<lambda>a. key a \<noteq> k) xs)"
  using dict.erase_found_all [of key s xs k] by (simp add: dict_erase_def)

lemma dict_iter_spec: "dict_holds key s xs \<Longrightarrow> dict_iter s = Some xs"
  using dict.visit_all [of key s xs] by (simp add: dict_iter_def)

lemma dict_run_holds:
  "dict_holds key s xs \<Longrightarrow> new_nodes key ops xs \<Longrightarrow>
   \<exists>s'. dict_run key ops s = Some s' \<and> dict_holds key s' (seq_run key ops xs)"
proof (induction ops arbitrary: s xs rule: list.induct)
  case (Cons oper ops)
  show ?case
  proof (cases oper)
    case (DictInsert a)
    obtain s1 where s1: "dict_insert key a s = Some s1" "dict_holds key s1 (after_keys key a xs)"
      using dict_insert_spec [OF Cons.prems(1), of a] Cons.prems(2) DictInsert by auto
    then show ?thesis using Cons.IH [OF s1(2)] Cons.prems(2) DictInsert by auto
  next
    case (DictErase k)
    obtain s1 where s1: "dict_erase key k s = Some s1" "dict_holds key s1 (filter (\<lambda>a. key a \<noteq> k) xs)"
      using dict_erase_spec [OF Cons.prems(1)] by blast
    then show ?thesis using Cons.IH [OF s1(2)] Cons.prems(2) DictErase by auto
  qed
qed simp

lemma dict_holds_empty: "RB_EMPTY_ROOT s \<Longrightarrow> dict_holds key s []"
  by (auto simp: RB_EMPTY_ROOT_def dict_holds_def rb_holds_def rep_def tree_in_def red_black_def intro!: exI [of _ Leaf])

section \<open>The properties\<close>

text \<open>C8: A new node that a caller hangs with \<open>rb_link_node\<close> into any free link of a red-black tree and then passes to
  \<open>rb_insert_color\<close> becomes part of a red-black tree with the same nodes in the same order and the new one between
  its neighbours; the loop ends, no null pointer is followed, the root is black, no red node has a red child, all
  paths have the same number of black nodes, and so the height is at most twice the logarithm of the number of nodes.\<close>

theorem rb_insert_correct:
  assumes "rep s (plug fs Leaf)" "red_black (plug fs Leaf)" "a \<noteq> 0" "aligned a" "a \<notin> set (addrs (plug fs Leaf))"
  shows "\<exists>s1 s2 T. rb_link_node a (up fs) (link_of fs) s = Some s1 \<and> rb_insert_color a s1 = Some s2 \<and> rep s2 T
    \<and> red_black T \<and> addrs T = before fs @ a # behind fs \<and> 2 ^ height T \<le> (length (addrs T) + 1)\<^sup>2"
  using rb_insert_place [OF assms] red_black_height unfolding rb_holds_def by blast

text \<open>A tree of three nodes, the root black.\<close>

definition three_nodes :: rb_root where
  "three_nodes = \<lparr>nodes = (\<lambda>_. \<lparr>rb_parent_color = 8, rb_right = 0, rb_left = 0\<rparr>)
     (8 := \<lparr>rb_parent_color = 1, rb_right = 12, rb_left = 4\<rparr>), root_node = 8\<rparr>"

definition three_tree :: rbt where
  "three_tree = Node (Node Leaf (4, False) Leaf) (8, True) (Node Leaf (12, False) Leaf)"

lemma three_rep: "rep three_nodes three_tree" "red_black three_tree"
  by (simp_all add: rep_def tree_in_def three_tree_def three_nodes_def vw_def view_of_def rb_parent_def rb_is_black_def
      rb_color_def red_black_def aligned_def)

definition three_place :: "frame list" where
  "three_place = [FR Leaf 4 False, FL 8 True (Node Leaf (12, False) Leaf)]"

lemma three_place_plug: "plug three_place Leaf = three_tree"
  by (simp add: three_place_def three_tree_def)

theorem rb_insert_correct_witness:
  "\<exists>s1 s2 T. rb_link_node 16 4 (RightOf 4) three_nodes = Some s1 \<and> rb_insert_color 16 s1 = Some s2 \<and> rep s2 T
    \<and> red_black T \<and> addrs T = [4, 16, 8, 12]"
proof -
  have fresh: "(16 :: u64) \<noteq> 0" "aligned 16" "16 \<notin> set (addrs (plug three_place Leaf))"
    by (simp_all add: aligned_def three_place_def)
  have place: "up three_place = 4" "link_of three_place = RightOf 4" "before three_place = [4]" "behind three_place = [8, 12]"
    by (simp_all add: three_place_def)
  from rb_insert_correct [of three_nodes three_place 16, OF _ _ fresh] three_rep show ?thesis
    unfolding three_place_plug place by auto
qed

text \<open>C10: Removing a node from a red-black tree with \<open>rb_erase\<close> leaves a red-black tree with the other nodes in the
  same order, whatever the place and the children of the node; the loop of \<open>__rb_erase_color\<close> ends and no null
  pointer is followed.\<close>

theorem rb_erase_correct:
  assumes "rep s T" "red_black T" "a \<in> set (addrs T)"
  shows "\<exists>s' T'. rb_erase a s = Some s' \<and> rep s' T' \<and> red_black T' \<and> addrs T' = remove1 a (addrs T)"
proof -
  obtain xs ys where xs: "addrs T = xs @ a # ys" using split_list [OF assms(3)] by blast
  have "a \<notin> set xs" using rep_distinct [OF assms(1)] xs by simp
  then have "remove1 a (addrs T) = xs @ ys" by (simp add: xs remove1_append)
  moreover have "rb_holds s (xs @ a # ys)" using assms(1,2) xs unfolding rb_holds_def by blast
  ultimately show ?thesis using rbt.erase_node [of s xs a ys] by (auto simp: rb_holds_def)
qed

theorem rb_erase_correct_witness:
  "\<exists>s' T'. rb_erase 8 three_nodes = Some s' \<and> rep s' T' \<and> red_black T' \<and> addrs T' = [4, 12]"
  using rb_erase_correct [OF three_rep, of 8] by (simp add: three_tree_def)

text \<open>C26: In a red-black tree \<open>rb_first\<close> and \<open>rb_last\<close> return the ends of the order, or a null pointer when the tree
  is empty; \<open>rb_next\<close> and \<open>rb_prev\<close> return the neighbours of a node, or a null pointer at the ends; a loop from
  \<open>rb_first\<close> by \<open>rb_next\<close> visits every node once, in order, and ends.\<close>

theorem rb_walk_correct:
  assumes "rb_holds s zs"
  shows "rb_first s = Some (first_or_null zs) \<and> rb_last s = Some (first_or_null (rev zs))
    \<and> (\<forall>xs a ys. zs = xs @ a # ys \<longrightarrow> rb_next a s = Some (first_or_null ys) \<and> rb_prev a s = Some (first_or_null (rev xs)))
    \<and> Option.bind (rb_first s) (\<lambda>p. visit rb_next p s) = Some zs"
proof -
  obtain T where T: "rep s T" "addrs T = zs" using assms by (auto simp: rb_holds_def)
  show ?thesis
    using rb_ends [OF T(1)] rb_walk_helper [OF T(1)] rbt.visit_all [OF assms] T(2) by (intro conjI allI impI) auto
qed

theorem rb_walk_correct_witness:
  "rb_first three_nodes = Some 4 \<and> rb_last three_nodes = Some 12 \<and> rb_next 4 three_nodes = Some 8 \<and> rb_prev 4 three_nodes = Some 0
    \<and> Option.bind (rb_first three_nodes) (\<lambda>p. visit rb_next p three_nodes) = Some [4, 8, 12]"
proof -
  have "rb_holds three_nodes [4, 8, 12]"
    unfolding rb_holds_def using three_rep by (intro exI [of _ three_tree]) (simp add: three_tree_def)
  note walk = rb_walk_correct [OF this]
  from walk have "rb_next 4 three_nodes = Some 8 \<and> rb_prev 4 three_nodes = Some 0"
    by (metis append_Nil first_or_null.simps rev.simps(1))
  moreover have "rb_first three_nodes = Some 4" "rb_last three_nodes = Some 12" using walk by simp_all
  moreover have "Option.bind (rb_first three_nodes) (\<lambda>p. visit rb_next p three_nodes) = Some [4, 8, 12]" using walk by blast
  ultimately show ?thesis by blast
qed

text \<open>\<open>rb_replace_node\<close> puts a new node in the place of another: the tree stays a red-black tree, with the new
  node in the order where the old one was.\<close>

theorem rb_replace_node_correct:
  assumes "rb_holds s (xs @ victim # ys)" "new \<noteq> 0" "aligned new" "new \<notin> set (xs @ victim # ys)"
  shows "\<exists>s'. rb_replace_node victim new s = Some s' \<and> rb_holds s' (xs @ new # ys)"
  by (rule rb_holds_replace [OF assms])

theorem rb_replace_node_correct_witness:
  "\<exists>s'. rb_replace_node 8 32 three_nodes = Some s' \<and> rb_holds s' [4, 32, 12]"
proof -
  have "rb_holds three_nodes ([4] @ 8 # [12])"
    unfolding rb_holds_def using three_rep by (intro exI [of _ three_tree]) (simp add: three_tree_def)
  from rb_replace_node_correct [OF this, of 32] show ?thesis by (simp add: aligned_def)
qed

text \<open>C17: From an empty root, any sequence of \<open>dict_insert\<close> of new nodes and \<open>dict_erase\<close> of keys behaves as on the
  ordered sequence of the nodes: a node is inserted behind the nodes with a key that is not greater, all nodes with a
  key are erased; afterwards \<open>dict_iter\<close> visits that sequence and \<open>dict_search\<close> finds a node with a key exactly when
  there is one.\<close>

theorem dict_refines:
  assumes "RB_EMPTY_ROOT s" "new_nodes key ops []"
  shows "\<exists>s'. dict_run key ops s = Some s' \<and> sorted (map key (seq_run key ops [])) \<and> dict_iter s' = Some (seq_run key ops [])
    \<and> (\<forall>k. \<exists>p. dict_search key k s' = Some p \<and> finds key k (seq_run key ops []) p)"
proof -
  obtain s' where s': "dict_run key ops s = Some s'" "dict_holds key s' (seq_run key ops [])"
    using dict_run_holds [OF dict_holds_empty [OF assms(1)] assms(2)] by blast
  then show ?thesis
    using dict_iter_spec [OF s'(2)] dict_search_spec [OF s'(2)] by (auto simp: dict_holds_def)
qed

definition some_keys :: "u64 \<Rightarrow> u32" where
  "some_keys a = (if a = 8 then 3 else 5)"

definition some_ops :: "dict_op list" where
  "some_ops = [DictInsert 4, DictInsert 8, DictInsert 12, DictInsert 16, DictErase 3]"

definition no_nodes :: rb_root where
  "no_nodes = \<lparr>nodes = (\<lambda>_. \<lparr>rb_parent_color = 0, rb_right = 0, rb_left = 0\<rparr>), root_node = 0\<rparr>"

theorem dict_refines_witness:
  "\<exists>s'. dict_run some_keys some_ops no_nodes = Some s' \<and> dict_iter s' = Some [4, 12, 16] \<and> dict_search some_keys 3 s' = Some 0"
proof -
  have s: "RB_EMPTY_ROOT no_nodes" by (simp add: RB_EMPTY_ROOT_def no_nodes_def)
  have ops: "new_nodes some_keys some_ops []" "seq_run some_keys some_ops [] = [4, 12, 16]"
    by (simp_all add: some_ops_def some_keys_def after_keys_def aligned_def)
  obtain s' p where "dict_run some_keys some_ops no_nodes = Some s'" "dict_iter s' = Some [4, 12, 16]"
      "dict_search some_keys 3 s' = Some p" "finds some_keys 3 [4, 12, 16] p"
    using dict_refines [OF s ops(1)] unfolding ops(2) by blast
  moreover from this(4) have "p = 0" by (auto simp: finds_def some_keys_def)
  ultimately show ?thesis by blast
qed

text \<open>\<open>RB_CLEAR_NODE\<close> marks a node as outside any tree by making it its own parent; \<open>RB_EMPTY_NODE\<close> tests the
  opposite and is false for it.\<close>

lemma RB_EMPTY_NODE_after_clear:
  assumes "node \<noteq> 0" "aligned node"
  shows "\<exists>s'. RB_CLEAR_NODE node s = Some s' \<and> RB_EMPTY_NODE node s' = Some False"
proof -
  obtain s' where "rb_set_parent node node s = Some s'" "vw s' = (vw s)(node := (vw s node)\<lparr>par := node\<rparr>)"
    using set_parent_ok [OF assms] by blast
  then show ?thesis using assms(1) vw_fields(3) [of s' node] by (auto simp: RB_CLEAR_NODE_def RB_EMPTY_NODE_def node_at_def)
qed

end
