(* ===== verification/Flv_Header.thy ===== *)
theory Flv_Header
  imports Codec_Record
begin

text \<open>
  The headers of the FLV container, \<open>src/media/format/flv/flv-header.c\<close>: the file header, the tag header, the
  headers of audio and video tags and the size behind a tag.  A buffer is the list of its bytes, its length the
  argument \<open>len\<close>; \<open>None\<close> is a failed assertion.  A reader returns the return value and the structure, a writer
  the return value and the buffer.
\<close>

section \<open>The code\<close>

record flv_header_t =
  FLV :: bytes
  flv_version :: u8
  flv_audio :: u8
  flv_video :: u8
  flv_offset :: u32

record flv_tag_header_t =
  tag_filter :: u8
  tag_type :: u8
  tag_size :: u32
  tag_timestamp :: u32
  tag_streamId :: u32

record flv_audio_tag_header_t =
  a_codecid :: u8
  a_rate :: u8
  a_bits :: u8
  a_channels :: u8
  a_avpacket :: u8

record flv_video_tag_header_t =
  v_codecid :: u8
  v_keyframe :: u8
  v_avpacket :: u8
  v_cts :: u32

definition FLV_TYPE :: "u8 \<Rightarrow> bool" where
  "FLV_TYPE t \<longleftrightarrow> t = 8 \<or> t = 9 \<or> t = 18"

text \<open>\<open>FLV_AUDIO_AAC\<close> and \<open>FLV_AUDIO_OPUS\<close>; \<open>FLV_VIDEO_H264\<close>, \<open>FLV_VIDEO_H265\<close> and \<open>FLV_VIDEO_AV1\<close>: the codecs whose
  tags have a packet type.\<close>

definition audio_packets :: "u8 \<Rightarrow> bool" where
  "audio_packets c \<longleftrightarrow> c = shl 10 4 \<or> c = shl 13 4"

definition video_packets :: "u8 \<Rightarrow> bool" where
  "video_packets c \<longleftrightarrow> c = 7 \<or> c = 12 \<or> c = 14"

definition be24 :: "u8 \<Rightarrow> u8 \<Rightarrow> u8 \<Rightarrow> u32" where
  "be24 a b c = shl (ucast a) 16 OR shl (ucast b) 8 OR ucast c"

definition be_read_uint32 :: "bytes \<Rightarrow> u32" where
  "be_read_uint32 p = shl (ucast (p ! 0)) 24 OR shl (ucast (p ! 1)) 16 OR shl (ucast (p ! 2)) 8 OR ucast (p ! 3)"

definition be_write_uint32 :: "bytes \<Rightarrow> nat \<Rightarrow> u32 \<Rightarrow> bytes" where
  "be_write_uint32 p i val = p[i := ucast (shr val 24 AND 0xFF), i + 1 := ucast (shr val 16 AND 0xFF),
     i + 2 := ucast (shr val 8 AND 0xFF), i + 3 := ucast (val AND 0xFF)]"

definition flv_header_read :: "flv_header_t \<Rightarrow> bytes \<Rightarrow> (int \<times> flv_header_t) option" where
  "flv_header_read flv buf =
     (if length buf < 9 \<or> buf ! 0 \<noteq> asc CHR ''F'' \<or> buf ! 1 \<noteq> asc CHR ''L'' \<or> buf ! 2 \<noteq> asc CHR ''V'' then None
      else if \<not> (buf ! 4 AND 0xF8 = 0 \<and> buf ! 4 AND 0x20 = 0) then None
      else Some (9, \<lparr>FLV = [buf ! 0, buf ! 1, buf ! 2], flv_version = buf ! 3,
        flv_audio = shr (buf ! 4) 2 AND 0x01, flv_video = buf ! 4 AND 0x01, flv_offset = be_read_uint32 (drop 5 buf)\<rparr>))"

definition flv_tag_header_read :: "flv_tag_header_t \<Rightarrow> bytes \<Rightarrow> (int \<times> flv_tag_header_t) option" where
  "flv_tag_header_read tag buf =
     (if length buf < 11 then None
      else if \<not> FLV_TYPE (buf ! 0 AND 0x1F) then None
      else Some (11, \<lparr>tag_filter = shr (buf ! 0) 5 AND 0x01, tag_type = buf ! 0 AND 0x1F,
        tag_size = be24 (buf ! 1) (buf ! 2) (buf ! 3),
        tag_timestamp = be24 (buf ! 4) (buf ! 5) (buf ! 6) OR shl (ucast (buf ! 7)) 24,
        tag_streamId = be24 (buf ! 8) (buf ! 9) (buf ! 10)\<rparr>))"

definition flv_audio_tag_header_read :: "flv_audio_tag_header_t \<Rightarrow> bytes \<Rightarrow> (int \<times> flv_audio_tag_header_t) option" where
  "flv_audio_tag_header_read audio buf =
     (if \<not> length buf > 0 then None
      else
        let audio = audio\<lparr>a_codecid := buf ! 0 AND 0xF0, a_rate := shr (buf ! 0 AND 0x0C) 2,
          a_bits := shr (buf ! 0 AND 0x02) 1, a_channels := buf ! 0 AND 0x01\<rparr>
        in if audio_packets (a_codecid audio)
           then if length buf < 2 then None
                else if buf ! 1 = 0 \<or> buf ! 1 = 1 then Some (2, audio\<lparr>a_avpacket := buf ! 1\<rparr>) else None
           else Some (1, audio))"

definition flv_video_tag_header_read :: "flv_video_tag_header_t \<Rightarrow> bytes \<Rightarrow> (int \<times> flv_video_tag_header_t) option" where
  "flv_video_tag_header_read video buf =
     (if \<not> length buf > 0 then None
      else
        let video = video\<lparr>v_keyframe := shr (buf ! 0 AND 0xF0) 4, v_codecid := buf ! 0 AND 0x0F\<rparr>
        in if video_packets (v_codecid video)
           then if length buf < 5 then Some (-1, video)
                else
                  let cts = be24 (buf ! 2) (buf ! 3) (buf ! 4);
                      video = video\<lparr>v_avpacket := buf ! 1, v_cts := (cts + 0xFF800000) XOR 0xFF800000\<rparr>
                  in if buf ! 1 = 0 \<or> buf ! 1 = 1 \<or> buf ! 1 = 2 then Some (5, video) else None
           else Some (1, video))"

definition flv_data_tag_header_read :: "bytes \<Rightarrow> int" where
  "flv_data_tag_header_read buf = int (length buf)"

definition flv_header_write :: "bool \<Rightarrow> bool \<Rightarrow> bytes \<Rightarrow> (int \<times> bytes) option" where
  "flv_header_write audio video buf =
     (if length buf < 9 then None
      else
        let buf = buf[0 := asc CHR ''F'', 1 := asc CHR ''L'', 2 := asc CHR ''V'', 3 := 0x01,
          4 := shl (if audio then 1 else 0) 2 OR (if video then 1 else 0)]
        in Some (9, be_write_uint32 buf 5 9))"

definition flv_tag_header_write :: "flv_tag_header_t \<Rightarrow> bytes \<Rightarrow> (int \<times> bytes) option" where
  "flv_tag_header_write tag buf =
     (if length buf < 11 then None
      else if \<not> FLV_TYPE (tag_type tag) then None
      else Some (11, buf
        [0 := (tag_type tag AND 0x1F) OR shl (tag_filter tag AND 0x01) 5,
         1 := ucast (shr (tag_size tag) 16 AND 0xFF),
         2 := ucast (shr (tag_size tag) 8 AND 0xFF),
         3 := ucast (tag_size tag AND 0xFF),
         4 := ucast (shr (tag_timestamp tag) 16 AND 0xFF),
         5 := ucast (shr (tag_timestamp tag) 8 AND 0xFF),
         6 := ucast (shr (tag_timestamp tag) 0 AND 0xFF),
         7 := ucast (shr (tag_timestamp tag) 24 AND 0xFF),
         8 := ucast (shr (tag_streamId tag) 16 AND 0xFF),
         9 := ucast (shr (tag_streamId tag) 8 AND 0xFF),
         10 := ucast (tag_streamId tag AND 0xFF)]))"

definition flv_audio_tag_header_write :: "flv_audio_tag_header_t \<Rightarrow> bytes \<Rightarrow> (int \<times> bytes) option" where
  "flv_audio_tag_header_write audio buf =
     (if length buf < 1 + (if audio_packets (a_codecid audio) then 1 else 0) then Some (-1, buf)
      else if audio_packets (a_codecid audio)
      then if a_avpacket audio = 0 \<or> a_avpacket audio = 1
           then Some (2, buf[0 := a_codecid audio OR shl 3 2 OR shl 1 1 OR 1, 1 := a_avpacket audio]) else None
      else Some (1, buf[0 := a_codecid audio OR shl (a_rate audio AND 0x03) 2 OR shl (a_bits audio AND 0x01) 1
        OR (a_channels audio AND 0x01)]))"

definition flv_video_tag_header_write :: "flv_video_tag_header_t \<Rightarrow> bytes \<Rightarrow> (int \<times> bytes) option" where
  "flv_video_tag_header_write video buf =
     (if length buf < 1 then Some (-1, buf)
      else
        let buf = buf[0 := shl (v_keyframe video) 4 OR (v_codecid video AND 0x0F)]
        in if video_packets (v_codecid video)
           then if \<not> (v_avpacket video = 0 \<or> v_avpacket video = 1 \<or> v_avpacket video = 2) then None
                else if length buf < 5 then Some (-1, buf)
                else Some (5, buf[1 := v_avpacket video, 2 := ucast (shr (v_cts video) 16 AND 0xFF),
                  3 := ucast (shr (v_cts video) 8 AND 0xFF), 4 := ucast (v_cts video AND 0xFF)])
           else Some (1, buf))"

definition flv_data_tag_header_write :: "bytes \<Rightarrow> int \<times> bytes" where
  "flv_data_tag_header_write buf = (0, buf)"

definition flv_tag_size_read :: "bytes \<Rightarrow> u32 \<Rightarrow> int \<times> u32" where
  "flv_tag_size_read buf sz = (if length buf < 4 then (-1, sz) else (4, be_read_uint32 buf))"

definition flv_tag_size_write :: "bytes \<Rightarrow> u32 \<Rightarrow> int \<times> bytes" where
  "flv_tag_size_write buf sz = (if length buf < 4 then (-1, buf) else (4, be_write_uint32 buf 0 sz))"

section \<open>What the writers write\<close>

lemma ucast_low_byte: "ucast (w AND 0xFF :: u32) = (ucast w :: u8)"
proof -
  have "(0xFF :: u32) = mask 8" by (simp add: mask_eq_exp_minus_1)
  then have "w AND 0xFF = take_bit 8 w" by (simp only: take_bit_eq_mask)
  then show ?thesis by (simp only:) (rule bit_word_eqI, simp add: bit_simps)
qed

text \<open>The bytes of a value, most significant byte first.\<close>

definition bytes24 :: "u32 \<Rightarrow> bytes" where
  "bytes24 w = [ucast (shr w 16), ucast (shr w 8), ucast w]"

definition bytes32 :: "u32 \<Rightarrow> bytes" where
  "bytes32 w = ucast (shr w 24) # bytes24 w"

lemma be24_bytes: "be24 (ucast (shr w 16)) (ucast (shr w 8)) (ucast w) = take_bit 24 w"
  unfolding be24_def
proof (rule bit_word_eqI)
  fix n assume "n < LENGTH(32)"
  then consider "n < 8" | "8 \<le> n" "n - 8 < 8" "\<not> 16 \<le> n" "n < 24" "n < 32"
    | "16 \<le> n" "n - 16 < 8" "\<not> n - 8 < 8" "n < 24" "n < 32" | "24 \<le> n" "\<not> n - 16 < 8" "\<not> n - 8 < 8" "n < 32"
    by force
  then show "bit (shl (ucast (ucast (shr w 16) :: u8)) 16 OR shl (ucast (ucast (shr w 8) :: u8)) 8
      OR ucast (ucast w :: u8) :: u32) n = bit (take_bit 24 w) n"
    by cases (simp_all add: bit_simps)
qed

lemma be32_bytes: "take_bit 24 w OR shl (ucast (ucast (shr w 24) :: u8)) 24 = (w :: u32)"
proof (rule bit_word_eqI)
  fix n assume "n < LENGTH(32)"
  then consider "n < 24" | "24 \<le> n" "n - 24 < 8" "n < 32" by force
  then show "bit (take_bit 24 w OR shl (ucast (ucast (shr w 24) :: u8)) 24) n = bit w n"
    by cases (simp_all add: bit_simps)
qed

lemma be_read_bytes32: "be_read_uint32 (bytes32 w @ rest) = w"
  using be32_bytes [of w] be24_bytes [of w]
  by (simp add: be_read_uint32_def bytes32_def bytes24_def be24_def or.commute or.left_commute or.assoc)

lemma take_bit_small:
  assumes "unat (w :: u32) < 2 ^ 24"
  shows "take_bit 24 w = w"
proof (rule bit_word_eqI)
  fix n
  have "\<not> bit w n" if "24 \<le> n" using high_bits_clear [OF assms that] .
  then show "bit (take_bit 24 w) n = bit w n" by (cases "24 \<le> n") (auto simp: bit_simps)
qed

lemma unat_less_2: "unat (x :: u8) < 2 \<Longrightarrow> x = 0 \<or> x = 1"
proof -
  assume "unat x < 2"
  then have "unat x = unat (0 :: u8) \<or> unat x = unat (1 :: u8)" by auto
  then show ?thesis by (metis word_unat_eq_iff)
qed

text \<open>The tag header.\<close>

definition tag_valid :: "flv_tag_header_t \<Rightarrow> bool" where
  "tag_valid t \<longleftrightarrow> FLV_TYPE (tag_type t) \<and> unat (tag_filter t) < 2 \<and> unat (tag_size t) < 2 ^ 24 \<and> unat (tag_streamId t) < 2 ^ 24"

definition tag_byte :: "flv_tag_header_t \<Rightarrow> u8" where
  "tag_byte t = (tag_type t AND 0x1F) OR shl (tag_filter t AND 0x01) 5"

definition tag_bytes :: "flv_tag_header_t \<Rightarrow> bytes" where
  "tag_bytes t = tag_byte t # bytes24 (tag_size t) @ bytes24 (tag_timestamp t)
     @ ucast (shr (tag_timestamp t) 24) # bytes24 (tag_streamId t)"

lemma tag_write:
  "length buf = 11 \<Longrightarrow> FLV_TYPE (tag_type t) \<Longrightarrow> flv_tag_header_write t buf = Some (11, tag_bytes t)"
  by (auto simp: flv_tag_header_write_def tag_bytes_def tag_byte_def bytes24_def ucast_low_byte numeral_eq_Suc length_Suc_conv)

lemma tag_read:
  assumes "tag_valid t"
  shows "flv_tag_header_read old (tag_bytes t @ rest) = Some (11, t)"
proof -
  have "tag_byte t AND 0x1F = tag_type t" "shr (tag_byte t) 5 AND 0x01 = tag_filter t"
    using assms unat_less_2 [of "tag_filter t"] by (auto simp: tag_valid_def tag_byte_def FLV_TYPE_def)
  then show ?thesis
    using assms by (simp add: flv_tag_header_read_def tag_bytes_def bytes24_def be32_bytes be24_bytes take_bit_small tag_valid_def)
qed

lemma length_tag_bytes [simp]: "length (tag_bytes t) = 11"
  by (simp add: tag_bytes_def bytes24_def)

interpretation tag_codec: record_codec tag_valid tag_bytes "loads_of (flv_tag_header_read old)" for old
proof
  fix t rest
  assume "tag_valid t"
  then show "loads_of (flv_tag_header_read old) (tag_bytes t @ rest) = Some (t, length (tag_bytes t))"
    using tag_read [of t old rest] by (simp add: loads_of_def)
  show "tag_bytes t \<noteq> []" by (simp add: tag_bytes_def)
qed

text \<open>The headers of audio tags.  The codecs with packets have fixed rate, size and channels.\<close>

definition audio_valid :: "flv_audio_tag_header_t \<Rightarrow> bool" where
  "audio_valid a \<longleftrightarrow> a_codecid a AND 0x0F = 0 \<and>
     (if audio_packets (a_codecid a)
      then a_rate a = 3 \<and> a_bits a = 1 \<and> a_channels a = 1 \<and> unat (a_avpacket a) < 2
      else unat (a_rate a) < 4 \<and> unat (a_bits a) < 2 \<and> unat (a_channels a) < 2 \<and> a_avpacket a = 0)"

definition audio_bytes :: "flv_audio_tag_header_t \<Rightarrow> bytes" where
  "audio_bytes a = (if audio_packets (a_codecid a) then [a_codecid a OR 15, a_avpacket a]
     else [a_codecid a OR shl (a_rate a AND 0x03) 2 OR shl (a_bits a AND 0x01) 1 OR (a_channels a AND 0x01)])"

lemma audio_write:
  assumes "audio_valid a" "2 \<le> length buf"
  shows "flv_audio_tag_header_write a buf = Some (int (length (audio_bytes a)), audio_bytes a @ drop (length (audio_bytes a)) buf)"
proof -
  obtain x y rest where "buf = x # y # rest" using assms(2) by (auto simp: Suc_le_length_iff numeral_eq_Suc)
  moreover have "a_codecid a OR shl 3 2 OR shl 1 1 OR 1 = a_codecid a OR 15" by (simp add: or.assoc)
  ultimately show ?thesis
    using assms(1) unat_less_2 [of "a_avpacket a"] by (auto simp: flv_audio_tag_header_write_def audio_bytes_def audio_valid_def)
qed

lemma audio_byte:
  assumes "c AND 0x0F = 0" "unat r < 4" "unat b < 2" "unat n < 2" "x = c OR shl (r AND 0x03) 2 OR shl (b AND 0x01) 1 OR (n AND 0x01)"
  shows "x AND 0xF0 = c" "shr (x AND 0x0C) 2 = r" "shr (x AND 0x02) 1 = b" "x AND 0x01 = (n :: u8)"
proof -
  have c: "\<not> bit c 0" "\<not> bit c 1" "\<not> bit c 2" "\<not> bit c 3"
    using assms(1) by (simp_all add: bitwise_eqs nat_bits bit_simps)
  have "\<not> bit r k" if "2 \<le> k" for k using high_bits_clear [of r 2 k] assms(2) that by simp
  moreover have "\<not> bit b k" if "1 \<le> k" for k using high_bits_clear [of b 1 k] assms(3) that by simp
  moreover have "\<not> bit n k" if "1 \<le> k" for k using high_bits_clear [of n 1 k] assms(4) that by simp
  ultimately show "x AND 0xF0 = c" "shr (x AND 0x0C) 2 = r" "shr (x AND 0x02) 1 = b" "x AND 0x01 = n"
    using c by (simp_all add: assms(5) bitwise_eqs nat_bits bit_simps)
qed

lemma audio_read:
  assumes "audio_valid a" "a_avpacket old = 0"
  shows "flv_audio_tag_header_read old (audio_bytes a @ rest) = Some (int (length (audio_bytes a)), a)"
proof (cases "audio_packets (a_codecid a)")
  case True
  have "a_codecid a OR 15 = a_codecid a OR shl (3 AND 0x03) 2 OR shl (1 AND 0x01) 1 OR (1 AND 0x01)" by (simp add: or.assoc)
  from audio_byte [OF _ _ _ _ this] True assms show ?thesis
    using unat_less_2 [of "a_avpacket a"] by (auto simp: flv_audio_tag_header_read_def audio_bytes_def audio_valid_def)
next
  case False
  note f = audio_byte [OF _ _ _ _ refl, of "a_codecid a" "a_rate a" "a_bits a" "a_channels a"]
  define x where "x = a_codecid a OR shl (a_rate a AND 0x03) 2 OR shl (a_bits a AND 0x01) 1 OR (a_channels a AND 0x01)"
  have "x AND 0xF0 = a_codecid a" "shr (x AND 0x0C) 2 = a_rate a" "shr (x AND 0x02) 1 = a_bits a" "x AND 0x01 = a_channels a"
    using f assms(1) False by (simp_all only: x_def audio_valid_def if_False)
  moreover have "audio_bytes a = [x]" using False by (simp add: audio_bytes_def x_def)
  ultimately show ?thesis using False assms by (simp add: flv_audio_tag_header_read_def audio_valid_def)
qed

text \<open>The headers of video tags.  The composition time is a signed number of 24 bits.\<close>

lemma sign_bits_disjoint:
  assumes "unat (y :: u32) < 2 ^ 23"
  shows "y AND 0xFF800000 = 0"
proof (rule bit_word_eqI)
  fix n
  have "(0xFF800000 :: u32) = push_bit 23 0x1FF" by simp
  then have "\<not> bit (0xFF800000 :: u32) n" if "n < 23" using that by (simp only: bit_push_bit_iff) simp
  moreover have "\<not> bit y n" if "23 \<le> n" using high_bits_clear [OF assms that] .
  ultimately show "bit (y AND 0xFF800000) n = bit (0 :: u32) n" by (cases "n < 23") (simp_all add: bit_simps)
qed

lemma sign_extend_small:
  assumes "unat (y :: u32) < 2 ^ 23"
  shows "(y + 0xFF800000) XOR 0xFF800000 = y"
  using disjunctive_add_eq_xor [OF sign_bits_disjoint [OF assms]] by (simp add: xor.assoc)

lemma take_bit_negative:
  assumes "unat (y :: u32) < 2 ^ 23"
  shows "take_bit 24 (y + 0xFF800000) + 0xFF800000 = y"
proof -
  have "take_bit 24 (y + 0xFF800000) = y + 0x800000"
  proof (rule word_unat_eq_iff [THEN iffD2])
    have "unat (y + 0xFF800000) = unat y + 0xFF800000" using assms by (simp add: unat_word_ariths)
    moreover have "(unat y + 0xFF800000) mod 2 ^ 24 = unat y + 0x800000"
      using assms mod_mult_self1 [of "unat y + 0x800000" 255 "2 ^ 24"] by (simp add: add.commute)
    ultimately show "unat (take_bit 24 (y + 0xFF800000)) = unat (y + 0x800000)"
      using assms by (simp add: unsigned_take_bit_eq unat_word_ariths take_bit_nat_def)
  qed
  then show ?thesis by simp
qed

lemma uint_mod_sint: "uint (w :: u32) = sint w mod 2 ^ 32"
proof -
  have "LENGTH(32) = 32" by simp
  then show ?thesis using uint_sint [of w] by (simp only: take_bit_eq_mod)
qed

lemma sign_extend_24:
  assumes "- (2 ^ 23) \<le> sint (w :: u32)" "sint w < 2 ^ 23"
  shows "(take_bit 24 w + 0xFF800000) XOR 0xFF800000 = w"
proof (cases "0 \<le> sint w")
  case True
  have "sint w mod 2 ^ 32 = sint w" using True assms(2) by (intro mod_pos_pos_trivial) simp_all
  then have "uint w = sint w" using uint_mod_sint [of w] by (simp only:)
  then have "uint w < 2 ^ 23" using assms(2) by (simp only:)
  then have "int (unat w) < int (2 ^ 23)" by simp
  then have "unat w < 2 ^ 23" by (simp only: of_nat_less_iff)
  then show ?thesis using sign_extend_small take_bit_small [of w] by simp
next
  case False
  have "(sint w + 2 ^ 32) mod 2 ^ 32 = sint w + 2 ^ 32" using False assms(1) by (intro mod_pos_pos_trivial) simp_all
  then have "uint w = sint w + 2 ^ 32" using uint_mod_sint [of w] by (simp only: mod_add_self2)
  then have ge: "2 ^ 32 - 2 ^ 23 \<le> uint w" using assms(1) by linarith
  define y where "y = w - 0xFF800000"
  have lt: "uint w < 2 ^ 32" using uint_bounded [of w] by simp
  then have "uint y = uint w - 0xFF800000" using ge by (simp add: y_def uint_word_ariths)
  then have "int (unat y) < int (2 ^ 23)" using lt by simp
  then have y: "unat y < 2 ^ 23" by (simp only: of_nat_less_iff)
  have "w = y + 0xFF800000" by (simp add: y_def)
  then show ?thesis
    using take_bit_negative [OF y] disjunctive_add_eq_xor [OF sign_bits_disjoint [OF y]] by simp
qed

definition video_valid :: "flv_video_tag_header_t \<Rightarrow> bool" where
  "video_valid v \<longleftrightarrow> unat (v_keyframe v) < 2 ^ 4 \<and> unat (v_codecid v) < 2 ^ 4 \<and>
     (if video_packets (v_codecid v)
      then unat (v_avpacket v) < 3 \<and> - (2 ^ 23) \<le> sint (v_cts v) \<and> sint (v_cts v) < 2 ^ 23
      else v_avpacket v = 0 \<and> v_cts v = 0)"

definition video_byte :: "flv_video_tag_header_t \<Rightarrow> u8" where
  "video_byte v = shl (v_keyframe v) 4 OR (v_codecid v AND 0x0F)"

definition video_bytes :: "flv_video_tag_header_t \<Rightarrow> bytes" where
  "video_bytes v = video_byte v # (if video_packets (v_codecid v) then v_avpacket v # bytes24 (v_cts v) else [])"

lemma unat_less_3: "unat (x :: u8) < 3 \<Longrightarrow> x = 0 \<or> x = 1 \<or> x = 2"
proof -
  assume "unat x < 3"
  then have "unat x = unat (0 :: u8) \<or> unat x = unat (1 :: u8) \<or> unat x = unat (2 :: u8)" by auto
  then show ?thesis by (metis word_unat_eq_iff)
qed

lemma video_byte_fields:
  assumes "unat (v_keyframe v) < 2 ^ 4" "unat (v_codecid v) < 2 ^ 4"
  shows "shr (video_byte v AND 0xF0) 4 = v_keyframe v" "video_byte v AND 0x0F = v_codecid v"
  using high_bits_clear [OF assms(1)] high_bits_clear [OF assms(2)]
  by (simp_all add: video_byte_def bitwise_eqs nat_bits bit_simps)

lemma length_5_cases: "5 \<le> length xs \<Longrightarrow> \<exists>a b c d e rest. xs = a # b # c # d # e # rest"
  by (auto simp: Suc_le_length_iff numeral_eq_Suc)

lemma video_write:
  assumes "video_valid v" "5 \<le> length buf"
  shows "flv_video_tag_header_write v buf = Some (int (length (video_bytes v)), video_bytes v @ drop (length (video_bytes v)) buf)"
proof -
  obtain a b c d e rest where "buf = a # b # c # d # e # rest" using length_5_cases [OF assms(2)] by blast
  then show ?thesis
    using assms(1) unat_less_3 [of "v_avpacket v"]
    by (auto simp: flv_video_tag_header_write_def video_bytes_def video_byte_def video_valid_def bytes24_def ucast_low_byte)
qed

lemma video_read:
  assumes "video_valid v" "v_avpacket old = 0" "v_cts old = 0"
  shows "flv_video_tag_header_read old (video_bytes v @ rest) = Some (int (length (video_bytes v)), v)"
proof (cases "video_packets (v_codecid v)")
  case True
  have "(take_bit 24 (v_cts v) + 0xFF800000) XOR 0xFF800000 = v_cts v"
    using assms(1) True by (intro sign_extend_24) (simp_all add: video_valid_def)
  then show ?thesis
    using assms(1) True video_byte_fields [of v] unat_less_3 [of "v_avpacket v"]
    by (auto simp: flv_video_tag_header_read_def video_bytes_def video_valid_def bytes24_def be24_bytes)
next
  case False
  then show ?thesis
    using assms video_byte_fields [of v] by (simp add: flv_video_tag_header_read_def video_bytes_def video_valid_def)
qed

text \<open>The file header and the size behind a tag.\<close>

definition file_bytes :: "bool \<Rightarrow> bool \<Rightarrow> bytes" where
  "file_bytes audio video = [0x46, 0x4C, 0x56, 1, (if audio then 4 else 0) OR (if video then 1 else 0), 0, 0, 0, 9]"

lemma header_write: "length buf = 9 \<Longrightarrow> flv_header_write audio video buf = Some (9, file_bytes audio video)"
proof -
  assume "length buf = 9"
  then have "\<exists>a b c d e f g h i. buf = [a, b, c, d, e, f, g, h, i]" by (auto simp: numeral_eq_Suc length_Suc_conv)
  then show ?thesis by (auto simp: flv_header_write_def file_bytes_def be_write_uint32_def)
qed

lemma header_read:
  "flv_header_read old (file_bytes audio video @ rest) = Some (9, \<lparr>FLV = [0x46, 0x4C, 0x56], flv_version = 1,
     flv_audio = (if audio then 1 else 0), flv_video = (if video then 1 else 0), flv_offset = 9\<rparr>)"
  by (simp add: flv_header_read_def file_bytes_def be_read_uint32_def)

lemma size_write: "length buf = 4 \<Longrightarrow> flv_tag_size_write buf sz = (4, bytes32 sz)"
  by (auto simp: flv_tag_size_write_def be_write_uint32_def bytes32_def bytes24_def ucast_low_byte numeral_eq_Suc length_Suc_conv)

lemma size_read: "flv_tag_size_read (bytes32 w) old = (4, w)"
  using be_read_bytes32 [of w "[]"] by (simp add: flv_tag_size_read_def bytes32_def bytes24_def)

end
