(* ===== verification/Flv_File.thy ===== *)
theory Flv_File
  imports Flv_Header
begin

text \<open>
  Reading and writing FLV files, \<open>flv-reader.c\<close>, \<open>flv-writer.c\<close> and \<open>flv-parser.c\<close> of \<open>src/media/format/flv\<close>.  The
  input and output functions that a caller passes in are arguments: a read returns a negative code or the bytes it
  got, a write gets the list of the vectors.  Files are the two functions of the sources over \<open>fread\<close> and \<open>fwrite\<close>,
  on the list of the bytes still to read and of the bytes written.
\<close>

section \<open>The reader\<close>

type_synonym 'p flv_read = "'p \<Rightarrow> nat \<Rightarrow> (int + bytes) \<times> 'p"
type_synonym 'p flv_write = "'p \<Rightarrow> bytes list \<Rightarrow> int \<times> 'p"

definition file_read :: "bytes flv_read" where
  "file_read p n = (Inr (take n p), drop n p)"

text \<open>Structures on the stack that are filled before they are used.\<close>

definition header0 :: flv_header_t where
  "header0 = \<lparr>FLV = [0, 0, 0], flv_version = 0, flv_audio = 0, flv_video = 0, flv_offset = 0\<rparr>"

definition tag0 :: flv_tag_header_t where
  "tag0 = \<lparr>tag_filter = 0, tag_type = 0, tag_size = 0, tag_timestamp = 0, tag_streamId = 0\<rparr>"

function skip_loop :: "'p flv_read \<Rightarrow> int \<Rightarrow> 'p \<Rightarrow> 'p" where
  "skip_loop rd n p =
     (if n > 0 \<and> n < 4096 then skip_loop rd (n - 9) (snd (rd p (if n \<ge> 9 then 9 else nat n))) else p)"
  by auto
termination by (relation "measure (\<lambda>(rd, n, p). nat n)") auto

declare skip_loop.simps [simp del]

definition flv_read_header :: "'p flv_read \<Rightarrow> 'p \<Rightarrow> (int \<times> 'p) option" where
  "flv_read_header rd p =
     (case rd p 9 of
        (Inl _, p) \<Rightarrow> Some (-1, p)
      | (Inr data, p) \<Rightarrow>
          if length data \<noteq> 9 then Some (-1, p)
          else do {
            (r, h) \<leftarrow> flv_header_read header0 data;
            if r \<noteq> 9 then Some (-1, p)
            else if \<not> (flv_offset h \<ge> 9 \<and> flv_offset h < 9 + 4096) then None
            else
              case rd (skip_loop rd (sint (flv_offset h - 9)) p) 4 of
                (Inl _, p) \<Rightarrow> Some (-1, p)
              | (Inr data, p) \<Rightarrow>
                  if length data \<noteq> 4 then Some (-1, p)
                  else if snd (flv_tag_size_read data 0) = 0 then Some (0, p) else None })"

text \<open>Whether memory was found; the result says whether the reader exists.\<close>

definition flv_reader_create2 :: "bool \<Rightarrow> 'p flv_read \<Rightarrow> 'p \<Rightarrow> (bool \<times> 'p) option" where
  "flv_reader_create2 mem rd p =
     (if \<not> mem then Some (False, p)
      else do { (r, p) \<leftarrow> flv_read_header rd p; Some (r = 0, p) })"

text \<open>\<open>flv_reader_create\<close> opens a file first, whose content is there when \<open>fopen\<close> succeeds.\<close>

definition flv_reader_create :: "bool \<Rightarrow> bytes option \<Rightarrow> (bool \<times> bytes) option" where
  "flv_reader_create mem file =
     (case file of None \<Rightarrow> Some (False, []) | Some p \<Rightarrow> flv_reader_create2 mem file_read p)"

record flv_tag =
  ft_type :: u8
  ft_timestamp :: u32
  ft_data :: bytes

definition flv_reader_read :: "'p flv_read \<Rightarrow> nat \<Rightarrow> 'p \<Rightarrow> (int \<times> flv_tag option \<times> 'p) option" where
  "flv_reader_read rd bytes p =
     (case rd p 11 of
        (Inl r, p) \<Rightarrow> Some (if r < 0 then r else 0, None, p)
      | (Inr header, p) \<Rightarrow>
          if length header \<noteq> 11 then Some (0, None, p)
          else do {
            (r, tag) \<leftarrow> flv_tag_header_read tag0 header;
            if r \<noteq> 11 then Some (-1, None, p)
            else if bytes < unat (tag_size tag) then Some (-1, None, p)
            else
              case rd p (unat (tag_size tag)) of
                (Inl r, p) \<Rightarrow> Some (if r < 0 then r else 0, None, p)
              | (Inr data, p) \<Rightarrow>
                  if length data \<noteq> unat (tag_size tag) then Some (0, None, p)
                  else case rd p 4 of
                      (Inl r, p) \<Rightarrow> Some (if r < 0 then r else 0, None, p)
                    | (Inr header, p) \<Rightarrow>
                        if length header \<noteq> 4 then Some (0, None, p)
                        else if tag_streamId tag \<noteq> 0 then None
                        else if snd (flv_tag_size_read header 0) \<noteq> tag_size tag + 11 then None
                        else Some (1, Some \<lparr>ft_type = tag_type tag, ft_timestamp = tag_timestamp tag, ft_data = data\<rparr>, p) })"

section \<open>The writer\<close>

text \<open>\<open>file_write\<close> over a file that can take \<open>cap\<close> bytes; then \<open>ferror\<close> is not zero.\<close>

fun file_write :: "nat \<Rightarrow> bytes flv_write" where
  "file_write cap p [] = (0, p)" |
  "file_write cap p (v # vec) =
     (if length p + length v \<le> cap then file_write cap (p @ v) vec else (1, p @ take (cap - length p) v))"

definition flv_write_header :: "'p flv_write \<Rightarrow> bool \<Rightarrow> bool \<Rightarrow> 'p \<Rightarrow> (int \<times> 'p) option" where
  "flv_write_header wr audio video p = do {
     let header = replicate 13 0;
     (_, h) \<leftarrow> flv_header_write audio video (take 9 header);
     let (_, z) = flv_tag_size_write (drop 9 header) 0;
     Some (wr p [h @ z]) }"

definition flv_writer_input :: "'p flv_write \<Rightarrow> u8 \<Rightarrow> bytes \<Rightarrow> u32 \<Rightarrow> 'p \<Rightarrow> (int \<times> 'p) option" where
  "flv_writer_input wr ty data timestamp p = do {
     let buf = replicate 15 0;
     let tag = tag0\<lparr>tag_size := of_nat (length data), tag_type := ty, tag_timestamp := timestamp\<rparr>;
     (_, h) \<leftarrow> flv_tag_header_write tag (take 11 buf);
     let (_, z) = flv_tag_size_write (drop 11 buf) (of_nat (length data) + 11);
     Some (wr p [h, data, z]) }"

definition flv_write_eos :: "'p flv_write \<Rightarrow> 'p \<Rightarrow> (int \<times> 'p) option" where
  "flv_write_eos wr p = do {
     let video = \<lparr>v_codecid = 7, v_keyframe = 1, v_avpacket = 2, v_cts = 0\<rparr>;
     (n, header) \<leftarrow> flv_video_tag_header_write video (replicate 16 0);
     if n > 0 then flv_writer_input wr 9 (take (nat n) header) 0 p else Some (-1, p) }"

definition flv_writer_destroy :: "'p flv_write \<Rightarrow> 'p \<Rightarrow> 'p option" where
  "flv_writer_destroy wr p = do { (_, p) \<leftarrow> flv_write_eos wr p; Some p }"

definition flv_writer_create2 :: "bool \<Rightarrow> bool \<Rightarrow> bool \<Rightarrow> 'p flv_write \<Rightarrow> 'p \<Rightarrow> (bool \<times> 'p) option" where
  "flv_writer_create2 mem audio video wr p =
     (if \<not> mem then Some (False, p)
      else do {
        (r, p) \<leftarrow> flv_write_header wr audio video p;
        if r \<noteq> 0 then do { p \<leftarrow> flv_writer_destroy wr p; Some (False, p) } else Some (True, p) })"

definition flv_writer_create :: "bool \<Rightarrow> bool \<Rightarrow> nat \<Rightarrow> (bool \<times> bytes) option" where
  "flv_writer_create opened mem cap =
     (if \<not> opened then Some (False, []) else flv_writer_create2 mem True True (file_write cap) [])"

section \<open>The parser\<close>

text \<open>The codec, the data, the presentation and the decoding time and the flags that the handler gets; the result
  of a function is that call or an error code.  The structure that the tag header is read into is not initialised.\<close>

type_synonym flv_call = "int \<times> bytes \<times> u32 \<times> u32 \<times> int"

definition flv_parser_audio :: "flv_audio_tag_header_t \<Rightarrow> bytes \<Rightarrow> u32 \<Rightarrow> (int + flv_call) option" where
  "flv_parser_audio audio data timestamp = do {
     (n, audio) \<leftarrow> flv_audio_tag_header_read audio data;
     if n < 0 then Some (Inl n)
     else if a_avpacket audio = 0
     then Some (Inr (if a_codecid audio = shl 10 4 then 0x100 else 0x101, drop (nat n) data, timestamp, timestamp, 0))
     else Some (Inr (uint (a_codecid audio), drop (nat n) data, timestamp, timestamp, 0)) }"

definition FLV_VIDEO_CODEC_NAME :: "u8 \<Rightarrow> int" where
  "FLV_VIDEO_CODEC_NAME c = (if c = 7 then 0x200 else if c = 12 then 0x201 else 0x202)"

definition flv_parser_video :: "flv_video_tag_header_t \<Rightarrow> bytes \<Rightarrow> u32 \<Rightarrow> (int + flv_call) option" where
  "flv_parser_video video data timestamp = do {
     (n, video) \<leftarrow> flv_video_tag_header_read video data;
     if n < 0 then Some (Inl n)
     else if video_packets (v_codecid video)
     then if v_avpacket video = 0
          then Some (Inr (FLV_VIDEO_CODEC_NAME (v_codecid video), drop (nat n) data, timestamp, timestamp, 0))
          else if v_avpacket video = 1
          then Some (Inr (uint (v_codecid video), drop (nat n) data, timestamp + v_cts video, timestamp,
            if v_keyframe video = 1 then 1 else 0))
          else if v_avpacket video = 2 then Some (Inl 0)
          else None
     else Some (Inr (uint (v_codecid video), drop (nat n) data, timestamp, timestamp, if v_keyframe video = 1 then 1 else 0)) }"

definition flv_parser_script :: "bytes \<Rightarrow> u32 \<Rightarrow> (int + flv_call) option" where
  "flv_parser_script data timestamp =
     (let n = flv_data_tag_header_read data
      in if n < 0 then Some (Inl n) else Some (Inr (0, drop (nat n) data, timestamp, timestamp, 0)))"

definition flv_parser_input ::
    "flv_audio_tag_header_t \<Rightarrow> flv_video_tag_header_t \<Rightarrow> int \<Rightarrow> bytes \<Rightarrow> u32 \<Rightarrow> (int + flv_call) option" where
  "flv_parser_input audio video ty data timestamp =
     (if length data < 1 then Some (Inl (-22))
      else if ty = 8 then flv_parser_audio audio data timestamp
      else if ty = 9 then flv_parser_video video data timestamp
      else if ty = 18 then flv_parser_script data timestamp
      else None)"

section \<open>A tag in a file\<close>

definition tag_of :: "flv_tag \<Rightarrow> flv_tag_header_t" where
  "tag_of t = \<lparr>tag_filter = 0, tag_type = ft_type t, tag_size = of_nat (length (ft_data t)), tag_timestamp = ft_timestamp t,
     tag_streamId = 0\<rparr>"

definition tail_of :: "flv_tag \<Rightarrow> bytes" where
  "tail_of t = bytes32 (of_nat (length (ft_data t)) + 11)"

definition whole_tag :: "flv_tag \<Rightarrow> bytes" where
  "whole_tag t = tag_bytes (tag_of t) @ ft_data t @ tail_of t"

definition tag_ok :: "flv_tag \<Rightarrow> bool" where
  "tag_ok t \<longleftrightarrow> FLV_TYPE (ft_type t) \<and> length (ft_data t) < 2 ^ 24"

lemma unat_tag_size: "tag_ok t \<Longrightarrow> unat (tag_size (tag_of t)) = length (ft_data t)"
  by (simp add: tag_ok_def tag_of_def unat_of_nat)

lemma writer_input:
  assumes "FLV_TYPE (ft_type t)"
  shows "flv_writer_input wr (ft_type t) (ft_data t) (ft_timestamp t) p = Some (wr p [tag_bytes (tag_of t), ft_data t, tail_of t])"
proof -
  have tag: "tag0\<lparr>tag_size := of_nat (length (ft_data t)), tag_type := ft_type t, tag_timestamp := ft_timestamp t\<rparr> = tag_of t"
    by (simp add: tag0_def tag_of_def)
  have "flv_tag_header_write (tag_of t) (take 11 (replicate 15 0)) = Some (11, tag_bytes (tag_of t))"
    using assms by (intro tag_write) (simp_all add: tag_of_def)
  moreover have "flv_tag_size_write (drop 11 (replicate 15 0)) (of_nat (length (ft_data t)) + 11) = (4, tail_of t)"
    unfolding tail_of_def by (rule size_write) simp
  ultimately show ?thesis by (simp only: flv_writer_input_def Let_def tag) simp
qed

lemma file_write_fits:
  "length p + length (concat vec) \<le> cap \<Longrightarrow> file_write cap p vec = (0, p @ concat vec)"
  by (induction cap p vec rule: file_write.induct) auto

lemma length_whole_tag: "length (whole_tag t) = 15 + length (ft_data t)"
  by (simp add: whole_tag_def tail_of_def bytes32_def bytes24_def)

lemma writer_input_file:
  assumes "FLV_TYPE (ft_type t)" "length p + length (whole_tag t) \<le> cap"
  shows "flv_writer_input (file_write cap) (ft_type t) (ft_data t) (ft_timestamp t) p = Some (0, p @ whole_tag t)"
proof -
  have "concat [tag_bytes (tag_of t), ft_data t, tail_of t] = whole_tag t" by (simp add: whole_tag_def)
  then show ?thesis
    using writer_input [OF assms(1), of "file_write cap" p] file_write_fits [of p "[tag_bytes (tag_of t), ft_data t, tail_of t]" cap]
      assms(2) by (simp only:)
qed

lemma reader_read_tag:
  assumes "tag_ok t" "length (ft_data t) \<le> bytes"
  shows "flv_reader_read file_read bytes (whole_tag t @ rest) = Some (1, Some t, rest)"
proof -
  have "tag_valid (tag_of t)" using assms(1) unat_tag_size [OF assms(1)] by (simp add: tag_valid_def tag_ok_def tag_of_def)
  then have "flv_tag_header_read tag0 (tag_bytes (tag_of t)) = Some (11, tag_of t)"
    using tag_read [of "tag_of t" tag0 "[]"] by simp
  moreover have "snd (flv_tag_size_read (tail_of t) 0) = tag_size (tag_of t) + 11"
    by (simp add: tail_of_def tag_of_def size_read)
  moreover have "length (tail_of t) = 4" by (simp add: tail_of_def bytes32_def bytes24_def)
  ultimately show ?thesis
    using assms unat_tag_size [OF assms(1)]
    by (simp add: flv_reader_read_def file_read_def whole_tag_def tag_ok_def) (simp add: tag_of_def)
qed

lemma reader_read_end: "flv_reader_read file_read bytes [] = Some (0, None, [])"
  by (simp add: flv_reader_read_def file_read_def)

section \<open>A whole file\<close>

text \<open>A program that writes tags and one that reads them until the reader does not return 1.\<close>

fun write_tags :: "'p flv_write \<Rightarrow> flv_tag list \<Rightarrow> 'p \<Rightarrow> 'p option" where
  "write_tags wr [] p = Some p" |
  "write_tags wr (t # ts) p = do {
     (r, p) \<leftarrow> flv_writer_input wr (ft_type t) (ft_data t) (ft_timestamp t) p;
     if r = 0 then write_tags wr ts p else None }"

definition write_file :: "nat \<Rightarrow> bool \<Rightarrow> bool \<Rightarrow> flv_tag list \<Rightarrow> bytes option" where
  "write_file cap audio video tags = do {
     (ok, p) \<leftarrow> flv_writer_create2 True audio video (file_write cap) [];
     if ok then do { p \<leftarrow> write_tags (file_write cap) tags p; flv_writer_destroy (file_write cap) p } else None }"

partial_function (option) read_tags :: "nat \<Rightarrow> bytes \<Rightarrow> (flv_tag list \<times> int) option" where
  "read_tags bytes p = Option.bind (flv_reader_read file_read bytes p) (\<lambda>(r, t, p).
     if r = 1 then Option.bind (read_tags bytes p) (\<lambda>(ts, r). Some (the t # ts, r)) else Some ([], r))"

definition read_file :: "nat \<Rightarrow> bytes \<Rightarrow> (flv_tag list \<times> int) option" where
  "read_file bytes p = do {
     (ok, p) \<leftarrow> flv_reader_create2 True file_read p;
     if ok then read_tags bytes p else None }"

definition file_start :: "bool \<Rightarrow> bool \<Rightarrow> bytes" where
  "file_start audio video = file_bytes audio video @ [0, 0, 0, 0]"

definition eos_tag :: flv_tag where
  "eos_tag = \<lparr>ft_type = 9, ft_timestamp = 0, ft_data = [0x17, 2, 0, 0, 0]\<rparr>"

lemma writer_create:
  assumes "13 \<le> cap"
  shows "flv_writer_create2 True audio video (file_write cap) [] = Some (True, file_start audio video)"
proof -
  have "flv_header_write audio video (take 9 (replicate 13 0)) = Some (9, file_bytes audio video)" by (rule header_write) simp
  moreover have "flv_tag_size_write (drop 9 (replicate 13 0)) 0 = (4, [0, 0, 0, 0])"
    using size_write [of "drop 9 (replicate 13 0)" 0] by (simp add: bytes32_def bytes24_def)
  moreover have "length (file_bytes audio video) = 9" by (simp add: file_bytes_def)
  ultimately have "flv_write_header (file_write cap) audio video [] = Some (0, file_start audio video)"
    using assms file_write_fits [of "[]" "[file_bytes audio video @ [0, 0, 0, 0]]" cap]
    by (simp add: flv_write_header_def Let_def file_start_def)
  then show ?thesis by (simp add: flv_writer_create2_def)
qed

lemma write_tags_file:
  "\<forall>t \<in> set ts. FLV_TYPE (ft_type t) \<Longrightarrow> length p + length (concat (map whole_tag ts)) \<le> cap \<Longrightarrow>
   write_tags (file_write cap) ts p = Some (p @ concat (map whole_tag ts))"
proof (induction ts arbitrary: p)
  case (Cons t ts)
  have "flv_writer_input (file_write cap) (ft_type t) (ft_data t) (ft_timestamp t) p = Some (0, p @ whole_tag t)"
    using Cons.prems by (intro writer_input_file) simp_all
  moreover have "write_tags (file_write cap) ts (p @ whole_tag t) = Some ((p @ whole_tag t) @ concat (map whole_tag ts))"
    using Cons.prems by (intro Cons.IH) simp_all
  ultimately show ?case by simp
qed simp

lemma writer_destroy:
  assumes "length p + length (whole_tag eos_tag) \<le> cap"
  shows "flv_writer_destroy (file_write cap) p = Some (p @ whole_tag eos_tag)"
proof -
  have "flv_video_tag_header_write \<lparr>v_codecid = 7, v_keyframe = 1, v_avpacket = 2, v_cts = 0\<rparr> (replicate 16 0)
      = Some (5, [0x17, 2, 0, 0, 0] @ replicate 11 0)"
    by (simp add: flv_video_tag_header_write_def video_packets_def replicate_numeral_Cons)
  moreover have "flv_writer_input (file_write cap) 9 [0x17, 2, 0, 0, 0] 0 p = Some (0, p @ whole_tag eos_tag)"
    using writer_input_file [of eos_tag p cap] assms by (simp add: eos_tag_def FLV_TYPE_def)
  ultimately show ?thesis by (simp add: flv_writer_destroy_def flv_write_eos_def Let_def)
qed

lemma reader_create: "flv_reader_create2 True file_read (file_start audio video @ rest) = Some (True, rest)"
proof -
  have len: "length (file_bytes audio video) = 9" by (simp add: file_bytes_def)
  have "flv_tag_size_read [0, 0, 0, 0] 0 = (4, 0)" by (simp add: flv_tag_size_read_def be_read_uint32_def)
  moreover have "skip_loop rd 0 p = p" for rd :: "bytes flv_read" and p by (simp add: skip_loop.simps)
  ultimately show ?thesis
    using header_read [of header0 audio video "[]"] len
    by (simp add: flv_reader_create2_def flv_read_header_def file_read_def file_start_def)
qed

lemma read_tags_file:
  "\<forall>t \<in> set ts. tag_ok t \<and> length (ft_data t) \<le> bytes \<Longrightarrow> read_tags bytes (concat (map whole_tag ts)) = Some (ts, 0)"
proof (induction ts)
  case Nil
  then show ?case by (subst read_tags.simps) (simp add: reader_read_end)
next
  case (Cons t ts)
  then show ?case
    using reader_read_tag [of t bytes "concat (map whole_tag ts)"] by (subst read_tags.simps) simp
qed

section \<open>The properties\<close>

text \<open>C19: A file that the writer makes of any sequence of audio, video and script tags below \<open>2 ^ 24\<close> bytes is read back by
  the reader as the same tags with the same types, time stamps and data, in order, followed by the end-of-sequence tag
  that closing the writer adds, and then the end of the file; no assertion fails.\<close>

theorem flv_file_roundtrip:
  assumes "\<forall>t \<in> set tags. tag_ok t \<and> length (ft_data t) \<le> bytes" "5 \<le> bytes"
    and "33 + (\<Sum>t \<leftarrow> tags. 15 + length (ft_data t)) \<le> cap"
  shows "\<exists>F. write_file cap audio video tags = Some F \<and> read_file bytes F = Some (tags @ [eos_tag], 0)"
proof -
  let ?body = "concat (map whole_tag tags)"
  have len: "length ?body = (\<Sum>t \<leftarrow> tags. 15 + length (ft_data t))" "length (whole_tag eos_tag) = 20"
      "length (file_start audio video) = 13"
    by (simp_all add: length_concat length_whole_tag comp_def eos_tag_def file_start_def file_bytes_def)
  have "write_tags (file_write cap) tags (file_start audio video) = Some (file_start audio video @ ?body)"
    using assms(1,3) len by (intro write_tags_file) (auto simp: tag_ok_def)
  moreover have "flv_writer_destroy (file_write cap) (file_start audio video @ ?body)
      = Some (file_start audio video @ concat (map whole_tag (tags @ [eos_tag])))"
    using assms(3) len writer_destroy [of "file_start audio video @ ?body" cap] by simp
  ultimately have w: "write_file cap audio video tags = Some (file_start audio video @ concat (map whole_tag (tags @ [eos_tag])))"
    using assms(3) writer_create [of cap audio video] by (simp add: write_file_def)
  have "tag_ok eos_tag \<and> length (ft_data eos_tag) \<le> bytes" using assms(2) by (simp add: eos_tag_def tag_ok_def FLV_TYPE_def)
  then have "read_tags bytes (concat (map whole_tag (tags @ [eos_tag]))) = Some (tags @ [eos_tag], 0)"
    using assms(1) by (intro read_tags_file) auto
  then have "read_file bytes (file_start audio video @ concat (map whole_tag (tags @ [eos_tag]))) = Some (tags @ [eos_tag], 0)"
    using reader_create [of audio video] by (simp add: read_file_def)
  with w show ?thesis by blast
qed

theorem flv_file_roundtrip_witness:
  "\<exists>F. write_file 100 True False [\<lparr>ft_type = 8, ft_timestamp = 0x89ABCDEF, ft_data = [0xAF, 1, 2, 3]\<rparr>] = Some F
    \<and> read_file 64 F = Some ([\<lparr>ft_type = 8, ft_timestamp = 0x89ABCDEF, ft_data = [0xAF, 1, 2, 3]\<rparr>, eos_tag], 0)"
proof -
  let ?tags = "[\<lparr>ft_type = 8, ft_timestamp = 0x89ABCDEF, ft_data = [0xAF, 1, 2, 3]\<rparr>]"
  have "\<forall>t \<in> set ?tags. tag_ok t \<and> length (ft_data t) \<le> 64" "(5 :: nat) \<le> 64"
    "33 + (\<Sum>t \<leftarrow> ?tags. 15 + length (ft_data t)) \<le> 100"
    by (simp_all add: tag_ok_def FLV_TYPE_def)
  from flv_file_roundtrip [OF this, of True False] show ?thesis by simp
qed

text \<open>C32: The parser undoes the tag headers.  The data behind an AAC or Opus header is delivered unchanged, a configuration
  record under a codec of its own, and so is the data behind every video header: the configuration records and pictures of
  H.264, H.265 and AV1, the pictures with the presentation time shifted by the signed composition time and with the key
  frame flag, an end of sequence delivering nothing, and the frames of the other video codecs with the key frame flag.
  For these tags it does not matter what the uninitialised structures hold.  Tags of the other audio codecs are not
  covered: there the uninitialised structure matters.\<close>

theorem flv_parser_delivers:
  assumes "audio_valid a" "audio_packets (a_codecid a)" "video_valid v"
  shows "flv_parser_input au vi 8 (audio_bytes a @ data) ts = Some (Inr
      (if a_avpacket a = 0 then if a_codecid a = 0xA0 then 0x100 else 0x101 else uint (a_codecid a), data, ts, ts, 0))
    \<and> flv_parser_input au vi 9 (video_bytes v @ data) ts =
      Some (if \<not> video_packets (v_codecid v) then Inr (uint (v_codecid v), data, ts, ts, if v_keyframe v = 1 then 1 else 0)
        else if v_avpacket v = 0 then Inr (FLV_VIDEO_CODEC_NAME (v_codecid v), data, ts, ts, 0)
        else if v_avpacket v = 1 then Inr (uint (v_codecid v), data, ts + v_cts v, ts, if v_keyframe v = 1 then 1 else 0)
        else Inl 0)"
proof -
  have au: "flv_audio_tag_header_read au b = flv_audio_tag_header_read (au\<lparr>a_avpacket := 0\<rparr>) b" if "audio_packets (b ! 0 AND 0xF0)" for b
    using that by (simp add: flv_audio_tag_header_read_def Let_def)
  have vi: "flv_video_tag_header_read vi b = flv_video_tag_header_read (vi\<lparr>v_avpacket := 0, v_cts := 0\<rparr>) b"
    if "video_packets (b ! 0 AND 0x0F)" "5 \<le> length b" for b
    using that by (simp add: flv_video_tag_header_read_def Let_def)
  have "(a_codecid a OR 15) AND 0xF0 = a_codecid a" using assms(2) by (auto simp: audio_packets_def)
  then have "audio_packets ((audio_bytes a @ data) ! 0 AND 0xF0)" using assms(2) by (simp add: audio_bytes_def)
  then have A: "flv_audio_tag_header_read au (audio_bytes a @ data) = Some (2, a)"
    using au [of "audio_bytes a @ data"] audio_read [OF assms(1), of "au\<lparr>a_avpacket := 0\<rparr>" data] assms(2)
    by (simp add: audio_bytes_def)
  have byte: "video_byte v AND 0x0F = v_codecid v" "shr (video_byte v AND 0xF0) 4 = v_keyframe v"
    using assms(3) video_byte_fields [of v] by (simp_all add: video_valid_def)
  have V: "flv_video_tag_header_read vi (video_bytes v @ data) = Some (5, v)" if "video_packets (v_codecid v)"
    using that byte(1) vi [of "video_bytes v @ data"] video_read [OF assms(3), of "vi\<lparr>v_avpacket := 0, v_cts := 0\<rparr>" data]
    by (simp add: video_bytes_def bytes24_def)
  have "flv_parser_audio au (audio_bytes a @ data) ts = Some (Inr
      (if a_avpacket a = 0 then if a_codecid a = 0xA0 then 0x100 else 0x101 else uint (a_codecid a), data, ts, ts, 0))"
    using A assms(2) by (simp add: flv_parser_audio_def audio_bytes_def)
  moreover have "flv_parser_video vi (video_bytes v @ data) ts =
      Some (if v_avpacket v = 0 then Inr (FLV_VIDEO_CODEC_NAME (v_codecid v), data, ts, ts, 0)
        else if v_avpacket v = 1 then Inr (uint (v_codecid v), data, ts + v_cts v, ts, if v_keyframe v = 1 then 1 else 0)
        else Inl 0)" if "video_packets (v_codecid v)"
    using V [OF that] that assms(3) unat_less_3 [of "v_avpacket v"]
    by (auto simp: flv_parser_video_def video_bytes_def bytes24_def video_valid_def)
  moreover have "flv_parser_video vi (video_bytes v @ data) ts =
      Some (Inr (uint (v_codecid v), data, ts, ts, if v_keyframe v = 1 then 1 else 0))" if "\<not> video_packets (v_codecid v)"
    using that byte by (simp add: flv_parser_video_def flv_video_tag_header_read_def video_bytes_def)
  ultimately show ?thesis by (simp add: flv_parser_input_def audio_bytes_def video_bytes_def)
qed

definition some_audio :: flv_audio_tag_header_t where
  "some_audio = \<lparr>a_codecid = 0xA0, a_rate = 3, a_bits = 1, a_channels = 1, a_avpacket = 1\<rparr>"

definition some_video :: flv_video_tag_header_t where
  "some_video = \<lparr>v_codecid = 7, v_keyframe = 1, v_avpacket = 1, v_cts = - 40\<rparr>"

theorem flv_parser_delivers_witness:
  "flv_parser_input some_audio some_video 8 [0xAF, 1, 5, 6] 100 = Some (Inr (0xA0, [5, 6], 100, 100, 0))
   \<and> flv_parser_input some_audio some_video 9 [0x17, 1, 0xFF, 0xFF, 0xD8, 5, 6] 100 = Some (Inr (7, [5, 6], 60, 100, 1))"
proof -
  have "audio_valid some_audio" "audio_packets (a_codecid some_audio)" "video_valid some_video"
    by (simp_all add: audio_valid_def audio_packets_def video_valid_def video_packets_def some_audio_def some_video_def)
  note delivers = flv_parser_delivers [OF this, of some_audio some_video "[5, 6]" 100]
  have "audio_bytes some_audio = [0xAF, 1]" "video_bytes some_video = [0x17, 1, 0xFF, 0xFF, 0xD8]"
    by (simp_all add: audio_bytes_def audio_packets_def video_bytes_def video_packets_def video_byte_def bytes24_def
        some_audio_def some_video_def)
  from delivers [unfolded this] show ?thesis by (simp add: some_audio_def some_video_def video_packets_def)
qed

text \<open>Two defects of the parser.  An MP3 tag has no packet type, and the uninitialised field decides whether its data is
  delivered as MP3 or as an Opus header; and the header of a script tag takes the whole tag, so that the handler never
  gets its data.\<close>

lemma flv_parser_mp3_uninitialised:
  "flv_parser_input (au\<lparr>a_avpacket := 0\<rparr>) vi 8 [0x2F, 1, 2] ts = Some (Inr (0x101, [1, 2], ts, ts, 0))"
  "flv_parser_input (au\<lparr>a_avpacket := 1\<rparr>) vi 8 [0x2F, 1, 2] ts = Some (Inr (0x20, [1, 2], ts, ts, 0))"
  by (simp_all add: flv_parser_input_def flv_parser_audio_def flv_audio_tag_header_read_def audio_packets_def)

lemma flv_parser_script_empty:
  "data \<noteq> [] \<Longrightarrow> flv_parser_input au vi 18 data ts = Some (Inr (0, [], ts, ts, 0))"
  by (cases data) (simp_all add: flv_parser_input_def flv_parser_script_def flv_data_tag_header_read_def)

end
