(* ===== verification/Amf0.thy ===== *)
theory Amf0
  imports Codec_Record
begin

text \<open>
  AMF0 values, \<open>src/media/codec/amf/amf0.c\<close>.  A pointer into a buffer that is written is the list of the bytes written
  so far, and \<open>cap\<close> is the size of the buffer, the distance from its start to \<open>end\<close>; a pointer into a buffer that is
  read is the list of the bytes from it to \<open>end\<close>.  \<open>None\<close> is a null pointer.  The writing functions return \<open>None\<close> when
  they use a null pointer.  The reading functions return a value (\<open>Inr\<close>) or a fault (\<open>Inl\<close>): a failed assertion, a write
  through a null pointer, a target that has another shape or size than its item says, an access or a pointer behind
  \<open>end\<close>, and, apart from these, a bound on calls or rounds of the model that has run out.  A \<open>double\<close> is the word of
  its bits, on a little-endian machine.
\<close>

section \<open>Writing\<close>

type_synonym amf_ptr = "bytes option"

definition AMFWriteInt16 :: "nat \<Rightarrow> amf_ptr \<Rightarrow> u16 \<Rightarrow> amf_ptr option" where
  "AMFWriteInt16 cap ptr value = do {
     w \<leftarrow> ptr;
     if length w + 2 > cap then Some None
     else Some (Some (w @ [ucast (shr value 8), ucast (value AND 0xFF)])) }"

definition AMFWriteInt32 :: "nat \<Rightarrow> amf_ptr \<Rightarrow> u32 \<Rightarrow> amf_ptr option" where
  "AMFWriteInt32 cap ptr value = do {
     w \<leftarrow> ptr;
     if length w + 4 > cap then Some None
     else Some (Some (w @ [ucast (shr value 24), ucast (shr value 16), ucast (shr value 8), ucast (value AND 0xFF)])) }"

definition AMFWriteString16 :: "nat \<Rightarrow> amf_ptr \<Rightarrow> bytes \<Rightarrow> amf_ptr option" where
  "AMFWriteString16 cap ptr string = do {
     w \<leftarrow> ptr;
     if length w + 2 + length string > cap then Some None
     else do {
       ptr \<leftarrow> AMFWriteInt16 cap ptr (of_nat (length string));
       w \<leftarrow> ptr;
       Some (Some (w @ string)) } }"

definition AMFWriteString32 :: "nat \<Rightarrow> amf_ptr \<Rightarrow> bytes \<Rightarrow> amf_ptr option" where
  "AMFWriteString32 cap ptr string = do {
     w \<leftarrow> ptr;
     if length w + 4 + length string > cap then Some None
     else do {
       ptr \<leftarrow> AMFWriteInt32 cap ptr (of_nat (length string));
       w \<leftarrow> ptr;
       Some (Some (w @ string)) } }"

text \<open>\<open>if (!ptr || ptr + n > end) return NULL\<close> and the bytes that are then written.\<close>

definition amf_put :: "nat \<Rightarrow> amf_ptr \<Rightarrow> bytes \<Rightarrow> amf_ptr" where
  "amf_put cap ptr bs = (case ptr of None \<Rightarrow> None | Some w \<Rightarrow> if length w + length bs > cap then None else Some (w @ bs))"

definition AMFWriteNull :: "nat \<Rightarrow> amf_ptr \<Rightarrow> amf_ptr option" where
  "AMFWriteNull cap ptr = Some (amf_put cap ptr [5])"

definition AMFWriteUndefined :: "nat \<Rightarrow> amf_ptr \<Rightarrow> amf_ptr option" where
  "AMFWriteUndefined cap ptr = Some (amf_put cap ptr [6])"

definition AMFWriteObject :: "nat \<Rightarrow> amf_ptr \<Rightarrow> amf_ptr option" where
  "AMFWriteObject cap ptr = Some (amf_put cap ptr [3])"

definition AMFWriteObjectEnd :: "nat \<Rightarrow> amf_ptr \<Rightarrow> amf_ptr option" where
  "AMFWriteObjectEnd cap ptr = Some (amf_put cap ptr [0, 0, 9])"

definition AMFWriteTypedObject :: "nat \<Rightarrow> amf_ptr \<Rightarrow> amf_ptr option" where
  "AMFWriteTypedObject cap ptr = Some (amf_put cap ptr [16])"

definition AMFWriteECMAArarry :: "nat \<Rightarrow> amf_ptr \<Rightarrow> amf_ptr option" where
  "AMFWriteECMAArarry cap ptr =
     (case amf_put cap ptr [8] of None \<Rightarrow> Some None | Some w \<Rightarrow> AMFWriteInt32 cap (Some w) 0)"

definition AMFWriteBoolean :: "nat \<Rightarrow> amf_ptr \<Rightarrow> u8 \<Rightarrow> amf_ptr option" where
  "AMFWriteBoolean cap ptr value = Some (amf_put cap ptr [1, if value = 0 then 0 else 1])"

text \<open>The bytes of a \<open>double\<close>, the most significant first.\<close>

definition double_bytes :: "u64 \<Rightarrow> bytes" where
  "double_bytes v = [ucast (shr v 56), ucast (shr v 48), ucast (shr v 40), ucast (shr v 32), ucast (shr v 24),
     ucast (shr v 16), ucast (shr v 8), ucast v]"

definition AMFWriteDouble :: "nat \<Rightarrow> amf_ptr \<Rightarrow> u64 \<Rightarrow> amf_ptr option" where
  "AMFWriteDouble cap ptr value = Some (amf_put cap ptr (0 # double_bytes value))"

definition AMFWriteString :: "nat \<Rightarrow> amf_ptr \<Rightarrow> bytes \<Rightarrow> amf_ptr option" where
  "AMFWriteString cap ptr string =
     (case ptr of
        None \<Rightarrow> Some None
      | Some w \<Rightarrow>
          if length w + 1 + (if length string < 65536 then 2 else 4) + length string > cap \<or> length string > 0xFFFFFFFF
          then Some None
          else if length string < 65536 then AMFWriteString16 cap (Some (w @ [2])) string
          else AMFWriteString32 cap (Some (w @ [12])) string)"

text \<open>The time zone is written to \<open>ptr + 8\<close>.\<close>

definition AMFWriteDate :: "nat \<Rightarrow> amf_ptr \<Rightarrow> u64 \<Rightarrow> u16 \<Rightarrow> amf_ptr option" where
  "AMFWriteDate cap ptr milliseconds timezone =
     (case ptr of
        None \<Rightarrow> Some None
      | Some w \<Rightarrow>
          if length w + 11 > cap then Some None
          else do {
            r \<leftarrow> AMFWriteDouble cap ptr milliseconds;
            w9 \<leftarrow> r;
            AMFWriteInt16 cap (Some (take (length w + 8) (w9[length w := 11]))) timezone })"

definition AMFWriteNamedBoolean :: "nat \<Rightarrow> amf_ptr \<Rightarrow> bytes \<Rightarrow> u8 \<Rightarrow> amf_ptr option" where
  "AMFWriteNamedBoolean cap ptr name value = do {
     w \<leftarrow> ptr;
     if length w + length name + 2 + 2 > cap then Some None
     else do {
       ptr \<leftarrow> AMFWriteString16 cap ptr name;
       case ptr of None \<Rightarrow> Some None | Some _ \<Rightarrow> AMFWriteBoolean cap ptr value } }"

definition AMFWriteNamedDouble :: "nat \<Rightarrow> amf_ptr \<Rightarrow> bytes \<Rightarrow> u64 \<Rightarrow> amf_ptr option" where
  "AMFWriteNamedDouble cap ptr name value = do {
     w \<leftarrow> ptr;
     if length w + length name + 2 + 8 + 1 > cap then Some None
     else do {
       ptr \<leftarrow> AMFWriteString16 cap ptr name;
       case ptr of None \<Rightarrow> Some None | Some _ \<Rightarrow> AMFWriteDouble cap ptr value } }"

definition AMFWriteNamedString :: "nat \<Rightarrow> amf_ptr \<Rightarrow> bytes \<Rightarrow> bytes \<Rightarrow> amf_ptr option" where
  "AMFWriteNamedString cap ptr name value = do {
     w \<leftarrow> ptr;
     if length w + length name + 2 + length value + 3 > cap then Some None
     else do {
       ptr \<leftarrow> AMFWriteString16 cap ptr name;
       case ptr of None \<Rightarrow> Some None | Some _ \<Rightarrow> AMFWriteString cap ptr value } }"

section \<open>Reading\<close>

datatype amf_fault = Amf_assert | Amf_null | Amf_target | Amf_past_end | Amf_rounds

fun amf_bind :: "amf_fault + 'a \<Rightarrow> ('a \<Rightarrow> amf_fault + 'b) \<Rightarrow> amf_fault + 'b" where
  "amf_bind (Inl e) f = Inl e" |
  "amf_bind (Inr x) f = f x"

text \<open>The next \<open>n\<close> bytes and the pointer behind them; both must not be behind \<open>end\<close>.\<close>

definition get_bytes :: "nat \<Rightarrow> bytes \<Rightarrow> amf_fault + (bytes \<times> bytes)" where
  "get_bytes n p = (if n \<le> length p then Inr (take n p, drop n p) else Inl Amf_past_end)"

text \<open>A read returns the pointer behind the value and the value, when the pointer is not null.\<close>

definition AMFReadInt16 :: "amf_ptr \<Rightarrow> amf_fault + (amf_ptr \<times> u32)" where
  "AMFReadInt16 ptr = (case ptr of
      None \<Rightarrow> Inr (None, 0)
    | Some p \<Rightarrow>
        if length p < 2 then Inr (None, 0)
        else amf_bind (get_bytes 2 p) (\<lambda>(b, q). Inr (Some q, shl (ucast (b ! 0)) 8 OR ucast (b ! 1))))"

definition AMFReadInt32 :: "amf_ptr \<Rightarrow> amf_fault + (amf_ptr \<times> u32)" where
  "AMFReadInt32 ptr = (case ptr of
      None \<Rightarrow> Inr (None, 0)
    | Some p \<Rightarrow>
        if length p < 4 then Inr (None, 0)
        else amf_bind (get_bytes 4 p) (\<lambda>(b, q). Inr (Some q,
          shl (ucast (b ! 0)) 24 OR shl (ucast (b ! 1)) 16 OR shl (ucast (b ! 2)) 8 OR ucast (b ! 3))))"

definition AMFReadNull :: "amf_ptr \<Rightarrow> amf_ptr" where
  "AMFReadNull ptr = ptr"

definition AMFReadUndefined :: "amf_ptr \<Rightarrow> amf_ptr" where
  "AMFReadUndefined ptr = ptr"

definition AMFReadBoolean :: "amf_ptr \<Rightarrow> amf_fault + (amf_ptr \<times> u8 option)" where
  "AMFReadBoolean ptr = (case ptr of
      None \<Rightarrow> Inr (None, None)
    | Some p \<Rightarrow>
        if length p < 1 then Inr (None, None)
        else amf_bind (get_bytes 1 p) (\<lambda>(b, q). Inr (Some q, Some (b ! 0))))"

definition double_of :: "bytes \<Rightarrow> u64" where
  "double_of p = shl (ucast (p ! 0)) 56 OR shl (ucast (p ! 1)) 48 OR shl (ucast (p ! 2)) 40 OR shl (ucast (p ! 3)) 32
     OR shl (ucast (p ! 4)) 24 OR shl (ucast (p ! 5)) 16 OR shl (ucast (p ! 6)) 8 OR ucast (p ! 7)"

definition AMFReadDouble :: "amf_ptr \<Rightarrow> amf_fault + (amf_ptr \<times> u64 option)" where
  "AMFReadDouble ptr = (case ptr of
      None \<Rightarrow> Inr (None, None)
    | Some p \<Rightarrow>
        if length p < 8 then Inr (None, None)
        else amf_bind (get_bytes 8 p) (\<lambda>(b, q). Inr (Some q, Some (double_of b))))"

text \<open>The string is copied, with a terminator, when the target exists and is large enough.\<close>

definition copy_chars :: "bytes option \<Rightarrow> nat \<Rightarrow> bytes \<Rightarrow> nat \<Rightarrow> amf_fault + bytes option" where
  "copy_chars string len_max b len = (case string of
      None \<Rightarrow> Inr None
    | Some s \<Rightarrow>
        if len_max > len
        then (case do { s \<leftarrow> mem_copy s 0 b 0 len; store s len 0 } of None \<Rightarrow> Inl Amf_target | Some s \<Rightarrow> Inr (Some s))
        else Inr (Some s))"

definition AMFReadString :: "amf_ptr \<Rightarrow> bool \<Rightarrow> bytes option \<Rightarrow> nat \<Rightarrow> amf_fault + (amf_ptr \<times> bytes option)" where
  "AMFReadString ptr isLongString string len_max =
     amf_bind (if \<not> isLongString then AMFReadInt16 ptr else AMFReadInt32 ptr) (\<lambda>(ptr, len).
       case ptr of
         None \<Rightarrow> Inr (None, string)
       | Some p \<Rightarrow>
           if length p < unat len then Inr (None, string)
           else amf_bind (get_bytes (unat len) p) (\<lambda>(b, q).
             amf_bind (copy_chars string len_max b (unat len)) (\<lambda>string. Inr (Some q, string))))"

text \<open>\<open>*timezone\<close> is written whenever the number could be read, also when \<open>timezone\<close> is null; \<open>junk\<close> is what it gets
  when there is no time zone.\<close>

definition AMFReadDate :: "u16 \<Rightarrow> amf_ptr \<Rightarrow> bool \<Rightarrow> amf_fault + (amf_ptr \<times> (u64 \<times> u16) option)" where
  "AMFReadDate junk ptr target = amf_bind (AMFReadDouble ptr) (\<lambda>(ptr, d).
     case (ptr, d) of
       (Some p, Some d) \<Rightarrow>
         if target
         then amf_bind (AMFReadInt16 (Some p)) (\<lambda>(q, v). Inr (q, Some (d, if q = None then junk else ucast v)))
         else Inl Amf_null
     | _ \<Rightarrow> Inr (None, None))"

section \<open>Reading items\<close>

text \<open>What the \<open>value\<close> of an item points to; \<open>size\<close> is the size of a string or the number of the items of an object.\<close>

datatype amf_object_item_t =
  AmfItem (item_type: u8) (item_name: bytes) (item_value: amf_store) (item_size: nat)
and amf_store = StoreNull | StoreByte u8 | StoreDouble u64 | StoreChars bytes | StoreDate u64 u16
  | StoreItems "amf_object_item_t list"

definition with_value :: "amf_object_item_t \<Rightarrow> amf_store \<Rightarrow> amf_object_item_t" where
  "with_value it v = AmfItem (item_type it) (item_name it) v (item_size it)"

text \<open>Writing through the pointer \<open>value\<close>, unless it is null or there is no item.\<close>

definition put_byte :: "u8 option \<Rightarrow> amf_object_item_t option \<Rightarrow> amf_fault + amf_object_item_t option" where
  "put_byte v item = (case (v, item) of
      (Some b, Some it) \<Rightarrow> (case item_value it of
          StoreNull \<Rightarrow> Inr item | StoreByte _ \<Rightarrow> Inr (Some (with_value it (StoreByte b))) | _ \<Rightarrow> Inl Amf_target)
    | _ \<Rightarrow> Inr item)"

definition put_double :: "u64 option \<Rightarrow> amf_object_item_t option \<Rightarrow> amf_fault + amf_object_item_t option" where
  "put_double v item = (case (v, item) of
      (Some d, Some it) \<Rightarrow> (case item_value it of
          StoreNull \<Rightarrow> Inr item | StoreDouble _ \<Rightarrow> Inr (Some (with_value it (StoreDouble d))) | _ \<Rightarrow> Inl Amf_target)
    | _ \<Rightarrow> Inr item)"

definition chars_of :: "amf_object_item_t option \<Rightarrow> amf_fault + bytes option" where
  "chars_of item = (case item of None \<Rightarrow> Inr None
    | Some it \<Rightarrow> (case item_value it of StoreNull \<Rightarrow> Inr None | StoreChars s \<Rightarrow> Inr (Some s) | _ \<Rightarrow> Inl Amf_target))"

definition size_of :: "amf_object_item_t option \<Rightarrow> nat" where
  "size_of item = (case item of None \<Rightarrow> 0 | Some it \<Rightarrow> item_size it)"

definition put_chars :: "bytes option \<Rightarrow> amf_object_item_t option \<Rightarrow> amf_object_item_t option" where
  "put_chars s item = (case (s, item) of (Some s, Some it) \<Rightarrow> Some (with_value it (StoreChars s)) | _ \<Rightarrow> item)"

definition items_of :: "amf_object_item_t option \<Rightarrow> amf_fault + amf_object_item_t list" where
  "items_of item = (case item of None \<Rightarrow> Inr []
    | Some it \<Rightarrow> (case item_value it of
        StoreNull \<Rightarrow> if item_size it = 0 then Inr [] else Inl Amf_target
      | StoreItems xs \<Rightarrow> if item_size it = length xs then Inr xs else Inl Amf_target
      | _ \<Rightarrow> Inl Amf_target))"

definition put_items :: "amf_object_item_t list \<Rightarrow> amf_object_item_t option \<Rightarrow> amf_object_item_t option" where
  "put_items xs item = (case item of None \<Rightarrow> None
    | Some it \<Rightarrow> (case item_value it of StoreItems _ \<Rightarrow> Some (with_value it (StoreItems xs)) | _ \<Rightarrow> item))"

definition amf_read_item_type_check :: "u8 \<Rightarrow> u8 \<Rightarrow> bool" where
  "amf_read_item_type_check type0 itemtype \<longleftrightarrow> type0 = itemtype \<or> itemtype = 3 \<and> (type0 = 8 \<or> type0 = 5)"

text \<open>The first item with a name and a type, or the number of the items.\<close>

fun find_item :: "bytes \<Rightarrow> u8 \<Rightarrow> amf_object_item_t list \<Rightarrow> nat" where
  "find_item name ty [] = 0" |
  "find_item name ty (it # items) =
     (if item_name it = name \<and> amf_read_item_type_check ty (item_type it) then 0 else Suc (find_item name ty items))"

definition item_at :: "amf_object_item_t list \<Rightarrow> nat \<Rightarrow> amf_object_item_t option" where
  "item_at items i = (if i < length items then Some (items ! i) else None)"

definition put_item :: "amf_object_item_t list \<Rightarrow> nat \<Rightarrow> amf_object_item_t option \<Rightarrow> amf_object_item_t list" where
  "put_item items i item = (case item of None \<Rightarrow> items | Some it \<Rightarrow> items[i := it])"

text \<open>The end of \<open>amf_read_object\<close>.\<close>

definition object_end :: "bytes \<Rightarrow> amf_fault + amf_ptr" where
  "object_end p =
     (if p \<noteq> [] then amf_bind (get_bytes 1 p) (\<lambda>(b, q). Inr (if b ! 0 = 9 then Some q else None)) else Inr None)"

text \<open>The recursive functions.  A call of \<open>amf_read_item\<close> is at most as deep as there are bytes behind it, and a loop makes
  at most as many rounds as there are bytes: the first argument of \<open>amf_read_item\<close> bounds its depth, the first argument
  of the loops their rounds, and \<open>Amf_rounds\<close> says that a bound has run out.  \<open>rd\<close> is \<open>amf_read_item\<close> one level down.\<close>

type_synonym amf_reader = "amf_ptr \<Rightarrow> u8 \<Rightarrow> amf_object_item_t option \<Rightarrow> amf_fault + (amf_ptr \<times> amf_object_item_t option)"

primrec array_loop ::
    "nat \<Rightarrow> amf_reader \<Rightarrow> nat \<Rightarrow> nat \<Rightarrow> amf_ptr \<Rightarrow> amf_object_item_t list \<Rightarrow> amf_fault + (amf_ptr \<times> amf_object_item_t list)" where
  "array_loop 0 rd i count ptr items = Inl Amf_rounds" |
  "array_loop (Suc n) rd i count ptr items =
     (case ptr of
        None \<Rightarrow> Inr (None, items)
      | Some p \<Rightarrow>
          if i < count \<and> p \<noteq> []
          then amf_bind (get_bytes 1 p) (\<lambda>(b, q).
            let j = (if i < length items \<and> amf_read_item_type_check (b ! 0) (item_type (items ! i)) then i else length items)
            in amf_bind (rd (Some q) (b ! 0) (item_at items j)) (\<lambda>(q, item).
              array_loop n rd (Suc i) count q (put_item items j item)))
          else Inr (ptr, items))"

definition amf_read_strict_array :: "amf_reader \<Rightarrow> amf_ptr \<Rightarrow> amf_object_item_t list \<Rightarrow> amf_fault + (amf_ptr \<times> amf_object_item_t list)" where
  "amf_read_strict_array rd ptr items =
     (case ptr of
        None \<Rightarrow> Inr (None, items)
      | Some p \<Rightarrow>
          if length p < 4 then Inr (None, items)
          else amf_bind (AMFReadInt32 ptr) (\<lambda>(ptr, count).
            array_loop (case ptr of None \<Rightarrow> 1 | Some p \<Rightarrow> Suc (length p)) rd 0 (unat count) ptr items))"

primrec object_loop ::
    "nat \<Rightarrow> amf_reader \<Rightarrow> amf_ptr \<Rightarrow> amf_object_item_t list \<Rightarrow> amf_fault + (amf_ptr \<times> amf_object_item_t list)" where
  "object_loop 0 rd data items = Inl Amf_rounds" |
  "object_loop (Suc n) rd data items =
     (case data of
        None \<Rightarrow> Inr (None, items)
      | Some p \<Rightarrow>
          if length p < 2 then amf_bind (object_end p) (\<lambda>q. Inr (q, items))
          else amf_bind (get_bytes 2 p) (\<lambda>(b, p).
            let len = unat (shl (ucast (b ! 0)) 8 OR ucast (b ! 1) :: u32) in
            if len = 0 then amf_bind (object_end p) (\<lambda>q. Inr (q, items))
            else if length p < len + 1 then Inr (None, items)
            else amf_bind (get_bytes len p) (\<lambda>(name, p). amf_bind (get_bytes 1 p) (\<lambda>(ty, p).
              let i = find_item name (ty ! 0) items
              in amf_bind (rd (Some p) (ty ! 0) (item_at items i)) (\<lambda>(q, item). object_loop n rd q (put_item items i item))))))"

definition amf_read_object :: "amf_reader \<Rightarrow> amf_ptr \<Rightarrow> amf_object_item_t list \<Rightarrow> amf_fault + (amf_ptr \<times> amf_object_item_t list)" where
  "amf_read_object rd data items = object_loop (case data of None \<Rightarrow> 1 | Some p \<Rightarrow> Suc (length p)) rd data items"

definition amf_read_ecma_array :: "amf_reader \<Rightarrow> amf_ptr \<Rightarrow> amf_object_item_t list \<Rightarrow> amf_fault + (amf_ptr \<times> amf_object_item_t list)" where
  "amf_read_ecma_array rd ptr items =
     (case ptr of
        None \<Rightarrow> Inr (None, items)
      | Some p \<Rightarrow>
          if length p < 4 then Inr (None, items)
          else amf_bind (get_bytes 4 p) (\<lambda>(_, q). amf_read_object rd (Some q) items))"

primrec amf_read_item :: "nat \<Rightarrow> u16 \<Rightarrow> amf_reader" where
  "amf_read_item 0 junk data ty item = Inl Amf_rounds" |
  "amf_read_item (Suc n) junk data ty item =
     (if ty = 1 then amf_bind (AMFReadBoolean data) (\<lambda>(p, v). amf_bind (put_byte v item) (\<lambda>item. Inr (p, item)))
      else if ty = 0 then amf_bind (AMFReadDouble data) (\<lambda>(p, v). amf_bind (put_double v item) (\<lambda>item. Inr (p, item)))
      else if ty = 2 \<or> ty = 12 then
        amf_bind (chars_of item) (\<lambda>s. amf_bind (AMFReadString data (ty = 12) s (size_of item)) (\<lambda>(p, s). Inr (p, put_chars s item)))
      else if ty = 11 then (case item of
          None \<Rightarrow> amf_bind (AMFReadDate junk data False) (\<lambda>(p, _). Inr (p, None))
        | Some it \<Rightarrow> (case item_value it of
            StoreDate _ _ \<Rightarrow> amf_bind (AMFReadDate junk data True) (\<lambda>(p, v).
              Inr (p, Some (case v of None \<Rightarrow> it | Some (d, z) \<Rightarrow> with_value it (StoreDate d z))))
          | _ \<Rightarrow> amf_bind (AMFReadDate junk data False) (\<lambda>(p, _). Inr (p, Some it))))
      else if ty = 3 then
        amf_bind (items_of item) (\<lambda>items. amf_bind (amf_read_object (amf_read_item n junk) data items) (\<lambda>(p, items).
          Inr (p, put_items items item)))
      else if ty = 5 \<or> ty = 6 then Inr (data, item)
      else if ty = 8 then
        amf_bind (items_of item) (\<lambda>items. amf_bind (amf_read_ecma_array (amf_read_item n junk) data items) (\<lambda>(p, items).
          Inr (p, put_items items item)))
      else if ty = 10 then
        amf_bind (items_of item) (\<lambda>items. amf_bind (amf_read_strict_array (amf_read_item n junk) data items) (\<lambda>(p, items).
          Inr (p, put_items items item)))
      else Inl Amf_assert)"

primrec items_loop :: "amf_object_item_t list \<Rightarrow> amf_reader \<Rightarrow> amf_ptr \<Rightarrow> amf_fault + (amf_ptr \<times> amf_object_item_t list)" where
  "items_loop [] rd data = Inr (data, [])" |
  "items_loop (it # items) rd data =
     (case data of
        None \<Rightarrow> Inr (None, it # items)
      | Some p \<Rightarrow>
          if p = [] then Inr (data, it # items)
          else amf_bind (get_bytes 1 p) (\<lambda>(ty, p).
            if \<not> amf_read_item_type_check (ty ! 0) (item_type it) then Inr (None, it # items)
            else amf_bind (rd (Some p) (ty ! 0) (Some it)) (\<lambda>(q, item). amf_bind (items_loop items rd q) (\<lambda>(q, items).
              Inr (q, (case item of None \<Rightarrow> it | Some it \<Rightarrow> it) # items)))))"

definition amf_read_items :: "u16 \<Rightarrow> amf_ptr \<Rightarrow> amf_object_item_t list \<Rightarrow> amf_fault + (amf_ptr \<times> amf_object_item_t list)" where
  "amf_read_items junk data items =
     items_loop items (amf_read_item (case data of None \<Rightarrow> 1 | Some p \<Rightarrow> Suc (length p)) junk) data"

text \<open>Reading what stands in front of the rest of a buffer.\<close>

lemma get_bytes_append [simp]: "length a = n \<Longrightarrow> get_bytes n (a @ rest) = Inr (a, rest)"
  by (simp add: get_bytes_def)

lemma get_bytes_1 [simp]: "get_bytes (Suc 0) (b # rest) = Inr ([b], rest)"
  by (simp add: get_bytes_def)

lemma get_bytes_2 [simp]: "get_bytes 2 (a # b # rest) = Inr ([a, b], rest)"
  by (simp add: get_bytes_def numeral_eq_Suc)

lemma get_bytes_4 [simp]: "get_bytes 4 (a # b # c # d # rest) = Inr ([a, b, c, d], rest)"
  by (simp add: get_bytes_def numeral_eq_Suc)

end
