(* ===== verification/Amf0_Messages.thy ===== *)
theory Amf0_Messages
  imports Amf0
begin

text \<open>
  Messages of AMF0 values: what the writing functions of \<open>src/media/codec/amf/amf0.c\<close> write, and what the reading
  functions get from it.
\<close>

section \<open>Messages\<close>

text \<open>The values a program can write: simple values, and objects and associative arrays of named simple values.\<close>

datatype amf_simple = AmfBoolean u8 | AmfNumber u64 | AmfString bytes

datatype amf_value = AmfNull | AmfUndefined | AmfSimple amf_simple | AmfObject "(bytes \<times> amf_simple) list"
  | AmfEcma "(bytes \<times> amf_simple) list"

fun write_simple :: "nat \<Rightarrow> amf_ptr \<Rightarrow> amf_simple \<Rightarrow> amf_ptr option" where
  "write_simple cap ptr (AmfBoolean b) = AMFWriteBoolean cap ptr b" |
  "write_simple cap ptr (AmfNumber d) = AMFWriteDouble cap ptr d" |
  "write_simple cap ptr (AmfString s) = AMFWriteString cap ptr s"

fun write_named :: "nat \<Rightarrow> amf_ptr \<Rightarrow> bytes \<times> amf_simple \<Rightarrow> amf_ptr option" where
  "write_named cap ptr (name, AmfBoolean b) = AMFWriteNamedBoolean cap ptr name b" |
  "write_named cap ptr (name, AmfNumber d) = AMFWriteNamedDouble cap ptr name d" |
  "write_named cap ptr (name, AmfString s) = AMFWriteNamedString cap ptr name s"

fun write_nameds :: "nat \<Rightarrow> amf_ptr \<Rightarrow> (bytes \<times> amf_simple) list \<Rightarrow> amf_ptr option" where
  "write_nameds cap ptr [] = Some ptr" |
  "write_nameds cap ptr (p # ps) = do { ptr \<leftarrow> write_named cap ptr p; write_nameds cap ptr ps }"

fun write_value :: "nat \<Rightarrow> amf_ptr \<Rightarrow> amf_value \<Rightarrow> amf_ptr option" where
  "write_value cap ptr AmfNull = AMFWriteNull cap ptr" |
  "write_value cap ptr AmfUndefined = AMFWriteUndefined cap ptr" |
  "write_value cap ptr (AmfSimple v) = write_simple cap ptr v" |
  "write_value cap ptr (AmfObject ps) = do {
     ptr \<leftarrow> AMFWriteObject cap ptr; ptr \<leftarrow> write_nameds cap ptr ps; AMFWriteObjectEnd cap ptr }" |
  "write_value cap ptr (AmfEcma ps) = do {
     ptr \<leftarrow> AMFWriteECMAArarry cap ptr; ptr \<leftarrow> write_nameds cap ptr ps; AMFWriteObjectEnd cap ptr }"

fun write_values :: "nat \<Rightarrow> amf_ptr \<Rightarrow> amf_value list \<Rightarrow> amf_ptr option" where
  "write_values cap ptr [] = Some ptr" |
  "write_values cap ptr (v # vs) = do { ptr \<leftarrow> write_value cap ptr v; write_values cap ptr vs }"

text \<open>The type of a value and the bytes behind it.\<close>

fun simple_type :: "amf_simple \<Rightarrow> u8" where
  "simple_type (AmfBoolean b) = 1" |
  "simple_type (AmfNumber d) = 0" |
  "simple_type (AmfString s) = (if length s < 65536 then 2 else 12)"

definition len16 :: "nat \<Rightarrow> bytes" where
  "len16 n = [ucast (shr (of_nat n :: u16) 8), ucast (of_nat n :: u16)]"

definition len32 :: "nat \<Rightarrow> bytes" where
  "len32 n = [ucast (shr (of_nat n :: u32) 24), ucast (shr (of_nat n :: u32) 16), ucast (shr (of_nat n :: u32) 8), ucast (of_nat n :: u32)]"

fun simple_body :: "amf_simple \<Rightarrow> bytes" where
  "simple_body (AmfBoolean b) = [if b = 0 then 0 else 1]" |
  "simple_body (AmfNumber d) = double_bytes d" |
  "simple_body (AmfString s) = (if length s < 65536 then len16 (length s) else len32 (length s)) @ s"

fun named_bytes :: "bytes \<times> amf_simple \<Rightarrow> bytes" where
  "named_bytes (name, v) = len16 (length name) @ name @ simple_type v # simple_body v"

definition nameds_bytes :: "(bytes \<times> amf_simple) list \<Rightarrow> bytes" where
  "nameds_bytes ps = concat (map named_bytes ps) @ [0, 0, 9]"

fun value_type :: "amf_value \<Rightarrow> u8" where
  "value_type AmfNull = 5" |
  "value_type AmfUndefined = 6" |
  "value_type (AmfSimple v) = simple_type v" |
  "value_type (AmfObject ps) = 3" |
  "value_type (AmfEcma ps) = 8"

fun value_body :: "amf_value \<Rightarrow> bytes" where
  "value_body AmfNull = []" |
  "value_body AmfUndefined = []" |
  "value_body (AmfSimple v) = simple_body v" |
  "value_body (AmfObject ps) = nameds_bytes ps" |
  "value_body (AmfEcma ps) = [0, 0, 0, 0] @ nameds_bytes ps"

definition value_bytes :: "amf_value \<Rightarrow> bytes" where
  "value_bytes v = value_type v # value_body v"

text \<open>Names have 16 bits of length and are not empty, strings have 32 bits.\<close>

fun simple_ok :: "amf_simple \<Rightarrow> bool" where
  "simple_ok (AmfString s) \<longleftrightarrow> length s < 2 ^ 32" |
  "simple_ok _ \<longleftrightarrow> True"

definition named_ok :: "bytes \<times> amf_simple \<Rightarrow> bool" where
  "named_ok p \<longleftrightarrow> fst p \<noteq> [] \<and> length (fst p) < 2 ^ 16 \<and> simple_ok (snd p)"

fun value_ok :: "amf_value \<Rightarrow> bool" where
  "value_ok (AmfSimple v) \<longleftrightarrow> simple_ok v" |
  "value_ok (AmfObject ps) \<longleftrightarrow> list_all named_ok ps" |
  "value_ok (AmfEcma ps) \<longleftrightarrow> list_all named_ok ps" |
  "value_ok _ \<longleftrightarrow> True"

section \<open>What is written\<close>

lemma low_byte_16: "ucast (w AND 0xFF :: u16) = (ucast w :: u8)"
proof -
  have "(0xFF :: u16) = mask 8" by (simp add: mask_eq_exp_minus_1)
  then have "w AND 0xFF = take_bit 8 w" by (simp only: take_bit_eq_mask)
  then show ?thesis by (simp only:) (rule bit_word_eqI, simp add: bit_simps)
qed

lemma low_byte_32: "ucast (w AND 0xFF :: u32) = (ucast w :: u8)"
proof -
  have "(0xFF :: u32) = mask 8" by (simp add: mask_eq_exp_minus_1)
  then have "w AND 0xFF = take_bit 8 w" by (simp only: take_bit_eq_mask)
  then show ?thesis by (simp only:) (rule bit_word_eqI, simp add: bit_simps)
qed

lemma length_lens [simp]: "length (len16 n) = 2" "length (len32 n) = 4" "length (double_bytes d) = 8"
  by (simp_all add: len16_def len32_def double_bytes_def)

lemma write_string16:
  "length w + 2 + length s \<le> cap \<Longrightarrow> AMFWriteString16 cap (Some w) s = Some (Some (w @ len16 (length s) @ s))"
  by (simp add: AMFWriteString16_def AMFWriteInt16_def len16_def low_byte_16)

lemma write_string32:
  "length w + 4 + length s \<le> cap \<Longrightarrow> AMFWriteString32 cap (Some w) s = Some (Some (w @ len32 (length s) @ s))"
  by (simp add: AMFWriteString32_def AMFWriteInt32_def len32_def low_byte_32)

lemma write_simple_bytes:
  "simple_ok v \<Longrightarrow> length w + 1 + length (simple_body v) \<le> cap \<Longrightarrow>
   write_simple cap (Some w) v = Some (Some (w @ simple_type v # simple_body v))"
  by (cases v) (auto simp: AMFWriteBoolean_def AMFWriteDouble_def AMFWriteString_def amf_put_def write_string16 write_string32)

lemma write_named_bytes:
  assumes "named_ok p" "length w + length (named_bytes p) \<le> cap"
  shows "write_named cap (Some w) p = Some (Some (w @ named_bytes p))"
proof -
  obtain name v where p: "p = (name, v)" by (cases p)
  have n: "AMFWriteString16 cap (Some w) name = Some (Some (w @ len16 (length name) @ name))"
    using assms(2) by (intro write_string16) (simp add: p)
  have "write_simple cap (Some (w @ len16 (length name) @ name)) v
      = Some (Some ((w @ len16 (length name) @ name) @ simple_type v # simple_body v))"
    using assms by (intro write_simple_bytes) (simp_all add: p named_ok_def)
  then show ?thesis
    using n assms(2) by (cases v) (auto simp: p AMFWriteNamedBoolean_def AMFWriteNamedDouble_def AMFWriteNamedString_def split: if_splits)
qed

lemma write_nameds_bytes:
  "list_all named_ok ps \<Longrightarrow> length w + length (concat (map named_bytes ps)) \<le> cap \<Longrightarrow>
   write_nameds cap (Some w) ps = Some (Some (w @ concat (map named_bytes ps)))"
proof (induction ps arbitrary: w)
  case (Cons p ps)
  have "write_named cap (Some w) p = Some (Some (w @ named_bytes p))" using Cons.prems by (intro write_named_bytes) simp_all
  moreover have "write_nameds cap (Some (w @ named_bytes p)) ps = Some (Some ((w @ named_bytes p) @ concat (map named_bytes ps)))"
    using Cons.prems by (intro Cons.IH) simp_all
  ultimately show ?case by simp
qed simp

lemma write_value_bytes:
  assumes "value_ok v" "length w + length (value_bytes v) \<le> cap"
  shows "write_value cap (Some w) v = Some (Some (w @ value_bytes v))"
proof (cases v)
  case (AmfObject ps)
  then show ?thesis
    using assms write_nameds_bytes [of ps "w @ [3]" cap]
    by (simp add: AMFWriteObject_def AMFWriteObjectEnd_def amf_put_def value_bytes_def nameds_bytes_def)
next
  case (AmfEcma ps)
  have "AMFWriteECMAArarry cap (Some w) = Some (Some (w @ [8, 0, 0, 0, 0]))"
    using assms(2) AmfEcma by (simp add: AMFWriteECMAArarry_def AMFWriteInt32_def amf_put_def value_bytes_def nameds_bytes_def)
  then show ?thesis
    using assms write_nameds_bytes [of ps "w @ [8, 0, 0, 0, 0]" cap] AmfEcma
    by (simp add: AMFWriteObjectEnd_def amf_put_def value_bytes_def nameds_bytes_def)
qed (use assms write_simple_bytes in \<open>simp_all add: AMFWriteNull_def AMFWriteUndefined_def amf_put_def value_bytes_def\<close>)

lemma write_values_bytes:
  "list_all value_ok vs \<Longrightarrow> length w + length (concat (map value_bytes vs)) \<le> cap \<Longrightarrow>
   write_values cap (Some w) vs = Some (Some (w @ concat (map value_bytes vs)))"
proof (induction vs arbitrary: w)
  case (Cons v vs)
  have "write_value cap (Some w) v = Some (Some (w @ value_bytes v))" using Cons.prems by (intro write_value_bytes) simp_all
  moreover have "write_values cap (Some (w @ value_bytes v)) vs = Some (Some ((w @ value_bytes v) @ concat (map value_bytes vs)))"
    using Cons.prems by (intro Cons.IH) simp_all
  ultimately show ?case by simp
qed simp

section \<open>What is read\<close>

lemma byte_field:
  "bit (shl (ucast (ucast (shr d k) :: u8)) k :: 'a word) n \<longleftrightarrow> k \<le> n \<and> n < k + 8 \<and> n < LENGTH('a) \<and> bit d n" for d :: "'a::len word"
proof (cases "k \<le> n")
  case True
  then show ?thesis by (auto simp: bit_simps)
qed (simp add: bit_simps)

lemma byte_field_0: "bit (ucast (ucast d :: u8) :: 'a word) n \<longleftrightarrow> n < 8 \<and> n < LENGTH('a) \<and> bit d n" for d :: "'a::len word"
  by (auto simp: bit_simps)

lemma double_roundtrip: "double_of (double_bytes d) = d"
proof (rule bit_word_eqI)
  fix n assume "n < LENGTH(64)"
  then have n: "n < 64" by simp
  show "bit (double_of (double_bytes d)) n = bit d n"
    using n by (cases "bit d n")
      (simp_all add: double_of_def double_bytes_def bit_or_iff byte_field byte_field_0, linarith)
qed

lemma read_len32:
  assumes "n < 2 ^ 32"
  shows "AMFReadInt32 (Some (len32 n @ rest)) = Inr (Some rest, of_nat n)"
  using le32_bytes [of "of_nat n"] by (simp add: AMFReadInt32_def len32_def le32_def)

lemma len16_value:
  assumes "n < 2 ^ 16"
  shows "shl (ucast (ucast (shr (of_nat n :: u16) 8) :: u8)) 8 OR ucast (ucast (of_nat n :: u16) :: u8) = (of_nat n :: u32)"
proof -
  have "shl (ucast (ucast (shr w 8) :: u8)) 8 OR ucast (ucast w :: u8) = (ucast w :: u32)" for w :: u16
  proof (rule bit_word_eqI)
    fix k assume "k < LENGTH(32)"
    then consider "k < 8" | "8 \<le> k" "k - 8 < 8" "k < 16" "k < 32" | "16 \<le> k" "\<not> k - 8 < 8" "k < 32" by force
    then show "bit (shl (ucast (ucast (shr w 8) :: u8)) 8 OR ucast (ucast w :: u8) :: u32) k = bit (ucast w :: u32) k"
      using bit_imp_le_length [of w k] by cases (auto simp: bit_simps)
  qed
  moreover have "ucast (of_nat n :: u16) = (of_nat n :: u32)"
    using assms by (simp add: word_unat_eq_iff unat_of_nat unsigned_ucast_eq take_bit_nat_eq_self)
  ultimately show ?thesis by simp
qed

lemma unat_len16: "n < 2 ^ 16 \<Longrightarrow> unat (of_nat n :: u32) = n"
  by (simp add: unat_of_nat)

lemma unat_len32: "n < 2 ^ 32 \<Longrightarrow> unat (of_nat n :: u32) = n"
  by (simp add: unat_of_nat)

lemma read_len16:
  assumes "n < 2 ^ 16"
  shows "AMFReadInt16 (Some (len16 n @ rest)) = Inr (Some rest, of_nat n)"
  using len16_value [OF assms] by (simp add: AMFReadInt16_def len16_def)

text \<open>The memory of an item has the shape and the size that its type asks for; the items of an object are simple.\<close>

fun simple_item :: "amf_object_item_t \<Rightarrow> bool" where
  "simple_item (AmfItem ty name (StoreByte b) n) \<longleftrightarrow> ty = 1" |
  "simple_item (AmfItem ty name (StoreDouble d) n) \<longleftrightarrow> ty = 0" |
  "simple_item (AmfItem ty name (StoreChars s) n) \<longleftrightarrow> (ty = 2 \<or> ty = 12) \<and> n = length s" |
  "simple_item _ \<longleftrightarrow> False"

text \<open>What a simple value leaves in the memory of an item of its type.  A string is copied with a terminating zero when
  there is room for both.\<close>

fun stored :: "amf_store \<Rightarrow> amf_simple \<Rightarrow> amf_store" where
  "stored _ (AmfBoolean b) = StoreByte (if b = 0 then 0 else 1)" |
  "stored _ (AmfNumber d) = StoreDouble d" |
  "stored (StoreChars s) (AmfString t) = StoreChars (if length t < length s then t @ 0 # drop (Suc (length t)) s else s)" |
  "stored x (AmfString t) = x"

lemma read_string:
  assumes "length t < 2 ^ 32"
  shows "AMFReadString (Some (simple_body (AmfString t) @ rest)) (\<not> length t < 65536) None n = Inr (Some rest, None)"
    "AMFReadString (Some (simple_body (AmfString t) @ rest)) (\<not> length t < 65536) (Some s) (length s)
      = Inr (Some rest, Some (if length t < length s then t @ 0 # drop (Suc (length t)) s else s))"
proof -
  have len: "(if length t < 65536 then AMFReadInt16 else AMFReadInt32) (Some (simple_body (AmfString t) @ rest))
      = Inr (Some (t @ rest), of_nat (length t))"
    using assms read_len16 [of "length t" "t @ rest"] read_len32 [of "length t" "t @ rest"] by simp
  have u: "unat (of_nat (length t) :: u32) = length t" using assms by (rule unat_len32)
  show "AMFReadString (Some (simple_body (AmfString t) @ rest)) (\<not> length t < 65536) None n = Inr (Some rest, None)"
    using len u by (simp add: AMFReadString_def copy_chars_def split: if_splits)
  have "mem_copy s 0 t 0 (length t) = Some (t @ drop (length t) s)" if "length t < length s"
    using that by (simp add: mem_copy_def)
  moreover have "(t @ drop (length t) s)[length t := 0] = t @ 0 # drop (Suc (length t)) s" if "length t < length s"
    using that by (simp add: list_update_append Cons_nth_drop_Suc [symmetric])
  ultimately show "AMFReadString (Some (simple_body (AmfString t) @ rest)) (\<not> length t < 65536) (Some s) (length s)
      = Inr (Some rest, Some (if length t < length s then t @ 0 # drop (Suc (length t)) s else s))"
    using len u by (auto simp: AMFReadString_def copy_chars_def split: if_splits)
qed

lemma read_simple_skip:
  "simple_ok v \<Longrightarrow> amf_read_item (Suc n) junk (Some (simple_body v @ rest)) (simple_type v) None = Inr (Some rest, None)"
proof (cases v)
  case (AmfString t)
  assume "simple_ok v"
  then show ?thesis using read_string(1) [of t rest 0] AmfString
    by (auto simp: chars_of_def size_of_def put_chars_def simp del: simple_body.simps)
qed (simp_all add: AMFReadBoolean_def AMFReadDouble_def put_byte_def put_double_def double_roundtrip)

lemma read_simple_item:
  assumes "simple_ok v" "simple_item it" "item_type it = simple_type v"
  shows "amf_read_item (Suc n) junk (Some (simple_body v @ rest)) (simple_type v) (Some it)
    = Inr (Some rest, Some (with_value it (stored (item_value it) v)))"
proof (cases v)
  case (AmfString t)
  then obtain s where "item_value it = StoreChars s" "item_size it = length s"
    using assms(2,3) by (cases it rule: simple_item.cases) (auto split: if_splits)
  then show ?thesis using read_string(2) [of t rest s] AmfString assms(1)
    by (auto simp: chars_of_def size_of_def put_chars_def simp del: simple_body.simps)
qed (use assms in \<open>cases it rule: simple_item.cases; auto simp: AMFReadBoolean_def AMFReadDouble_def put_byte_def put_double_def
    double_roundtrip with_value_def split: if_splits\<close>)+

section \<open>Objects\<close>

definition assign :: "amf_object_item_t list \<Rightarrow> bytes \<times> amf_simple \<Rightarrow> amf_object_item_t list" where
  "assign items p = (let i = find_item (fst p) (simple_type (snd p)) items in
     if i < length items then items[i := with_value (items ! i) (stored (item_value (items ! i)) (snd p))] else items)"

lemma find_item_found:
  "find_item name ty items < length items \<Longrightarrow> amf_read_item_type_check ty (item_type (items ! find_item name ty items))"
  by (induction items) (auto split: if_splits)

lemma simple_item_type: "simple_item it \<Longrightarrow> item_type it \<noteq> 3"
  by (cases it rule: simple_item.cases) auto

lemma simple_item_stored:
  assumes "simple_item it" "item_type it = simple_type v"
  shows "simple_item (with_value it (stored (item_value it) v))"
  using assms by (cases it rule: simple_item.cases; cases v) (auto simp: with_value_def split: if_splits)

lemma assign_simple:
  assumes "list_all simple_item items"
  shows "list_all simple_item (assign items p)"
proof -
  let ?i = "find_item (fst p) (simple_type (snd p)) items"
  have "simple_item (with_value (items ! ?i) (stored (item_value (items ! ?i)) (snd p)))" if "?i < length items"
    using that assms find_item_found [OF that] simple_item_type [of "items ! ?i"]
    by (intro simple_item_stored) (auto simp: list_all_length amf_read_item_type_check_def)
  then show ?thesis using assms by (auto simp: assign_def Let_def list_all_length nth_list_update)
qed

lemma read_named:
  assumes "named_ok p" "list_all simple_item items"
  shows "object_loop (Suc n) (amf_read_item (Suc k) junk) (Some (named_bytes p @ rest)) items
    = object_loop n (amf_read_item (Suc k) junk) (Some rest) (assign items p)"
proof -
  obtain name v where p: "p = (name, v)" by (cases p)
  have name: "name \<noteq> []" "length name < 2 ^ 16" and v: "simple_ok v" using assms(1) by (simp_all add: named_ok_def p)
  let ?i = "find_item name (simple_type v) items" and ?rd = "amf_read_item (Suc k) junk"
  have item: "?rd (Some (simple_body v @ rest)) (simple_type v) (item_at items ?i) = Inr (Some rest,
      if ?i < length items then Some (with_value (items ! ?i) (stored (item_value (items ! ?i)) v)) else None)"
  proof (cases "?i < length items")
    case True
    then have "item_type (items ! ?i) = simple_type v"
      using assms(2) find_item_found [OF True] simple_item_type [of "items ! ?i"]
      by (auto simp: list_all_length amf_read_item_type_check_def)
    then show ?thesis
      using True assms(2) read_simple_item [OF v, of "items ! ?i" k junk rest] by (simp add: item_at_def list_all_length)
  qed (use read_simple_skip [OF v] in \<open>simp add: item_at_def\<close>)
  have len: "unat (shl (ucast (len16 (length name) ! 0)) 8 OR ucast (len16 (length name) ! 1) :: u32) = length name"
    using len16_value [OF name(2)] unat_len16 [OF name(2)] by (simp add: len16_def)
  have "named_bytes p @ rest = len16 (length name) @ name @ simple_type v # simple_body v @ rest" by (simp add: p)
  moreover have "(len16 (length name) @ xs) ! 0 = len16 (length name) ! 0" "(len16 (length name) @ xs) ! 1 = len16 (length name) ! 1" for xs
    by (simp_all add: nth_append)
  ultimately show ?thesis
    using len name(1) item by (simp add: Let_def nth_append put_item_def assign_def p del: amf_read_item.simps)
qed

lemma read_nameds:
  "list_all named_ok ps \<Longrightarrow> list_all simple_item items \<Longrightarrow> length ps < n \<Longrightarrow>
   object_loop n (amf_read_item (Suc k) junk) (Some (nameds_bytes ps @ rest)) items = Inr (Some rest, foldl assign items ps)"
proof (induction ps arbitrary: n items)
  case Nil
  then show ?case by (cases n) (simp_all add: nameds_bytes_def object_end_def del: amf_read_item.simps)
next
  case (Cons p ps)
  then obtain m where n: "n = Suc m" "length ps < m" by (cases n) auto
  have "nameds_bytes (p # ps) @ rest = named_bytes p @ nameds_bytes ps @ rest" by (simp add: nameds_bytes_def)
  then have "object_loop n (amf_read_item (Suc k) junk) (Some (nameds_bytes (p # ps) @ rest)) items
      = object_loop m (amf_read_item (Suc k) junk) (Some (nameds_bytes ps @ rest)) (assign items p)"
    using read_named [of p items m k junk "nameds_bytes ps @ rest"] Cons.prems by (simp add: n(1) del: amf_read_item.simps object_loop.simps)
  also have "\<dots> = Inr (Some rest, foldl assign (assign items p) ps)"
    using Cons.prems n(2) assign_simple by (intro Cons.IH) simp_all
  finally show ?case by (simp del: amf_read_item.simps)
qed

lemma length_nameds: "length ps \<le> length (nameds_bytes ps)"
proof -
  have "length ps \<le> length (concat (map named_bytes ps))"
  proof (induction ps)
    case (Cons p ps)
    then show ?case by (cases p) simp
  qed simp
  then show ?thesis by (simp add: nameds_bytes_def)
qed

lemma read_object_nameds:
  assumes "list_all named_ok ps" "list_all simple_item items"
  shows "amf_read_object (amf_read_item (Suc k) junk) (Some (nameds_bytes ps @ rest)) items = Inr (Some rest, foldl assign items ps)"
  unfolding amf_read_object_def using length_nameds [of ps] assms
  by (simp add: read_nameds del: amf_read_item.simps object_loop.simps)

section \<open>Whole messages\<close>

text \<open>An item fits a value: it has its type (an object also for an associative array and for null) and memory for it.\<close>

fun fits_value :: "amf_object_item_t \<Rightarrow> amf_value \<Rightarrow> bool" where
  "fits_value it (AmfSimple v) \<longleftrightarrow> item_type it = simple_type v \<and> simple_item it" |
  "fits_value it AmfNull \<longleftrightarrow> item_type it = 5 \<or> item_type it = 3" |
  "fits_value it AmfUndefined \<longleftrightarrow> item_type it = 6" |
  "fits_value it (AmfObject ps) \<longleftrightarrow> item_type it = 3 \<and>
     (\<exists>xs. item_value it = StoreItems xs \<and> item_size it = length xs \<and> list_all simple_item xs)" |
  "fits_value it (AmfEcma ps) \<longleftrightarrow> (item_type it = 8 \<or> item_type it = 3) \<and>
     (\<exists>xs. item_value it = StoreItems xs \<and> item_size it = length xs \<and> list_all simple_item xs)"

text \<open>The item afterwards.\<close>

fun gets_value :: "amf_object_item_t \<Rightarrow> amf_value \<Rightarrow> amf_object_item_t" where
  "gets_value it (AmfSimple v) = with_value it (stored (item_value it) v)" |
  "gets_value it (AmfObject ps) = (case item_value it of
      StoreItems xs \<Rightarrow> with_value it (StoreItems (foldl assign xs ps)) | _ \<Rightarrow> it)" |
  "gets_value it (AmfEcma ps) = (case item_value it of
      StoreItems xs \<Rightarrow> with_value it (StoreItems (foldl assign xs ps)) | _ \<Rightarrow> it)" |
  "gets_value it _ = it"

lemma length_value_body: "value_bytes v = value_type v # value_body v"
  by (simp add: value_bytes_def)

lemma read_value:
  assumes "value_ok v" "fits_value it v"
  shows "amf_read_item (Suc (Suc k)) junk (Some (value_body v @ rest)) (value_type v) (Some it) = Inr (Some rest, Some (gets_value it v))"
proof (cases v)
  case (AmfSimple x)
  then show ?thesis using assms read_simple_item [of x it "Suc k" junk rest] by (simp del: amf_read_item.simps)
next
  case (AmfObject ps)
  then obtain xs where xs: "item_value it = StoreItems xs" "item_size it = length xs" "list_all simple_item xs"
    using assms(2) by auto
  have "amf_read_object (amf_read_item (Suc k) junk) (Some (nameds_bytes ps @ rest)) xs = Inr (Some rest, foldl assign xs ps)"
    using assms(1) AmfObject xs(3) by (intro read_object_nameds) simp_all
  then show ?thesis
    unfolding amf_read_item.simps(2) [of "Suc k"] using AmfObject xs
    by (simp add: items_of_def put_items_def del: amf_read_item.simps)
next
  case (AmfEcma ps)
  then obtain xs where xs: "item_value it = StoreItems xs" "item_size it = length xs" "list_all simple_item xs"
    using assms(2) by auto
  have "amf_read_object (amf_read_item (Suc k) junk) (Some (nameds_bytes ps @ rest)) xs = Inr (Some rest, foldl assign xs ps)"
    using assms(1) AmfEcma xs(3) by (intro read_object_nameds) simp_all
  then have "amf_read_ecma_array (amf_read_item (Suc k) junk) (Some ([0, 0, 0, 0] @ nameds_bytes ps @ rest)) xs
      = Inr (Some rest, foldl assign xs ps)"
    by (simp add: amf_read_ecma_array_def del: amf_read_item.simps)
  then show ?thesis
    unfolding amf_read_item.simps(2) [of "Suc k"] using AmfEcma xs
    by (simp add: items_of_def put_items_def del: amf_read_item.simps)
qed simp_all

lemma read_values:
  "list_all value_ok vs \<Longrightarrow> list_all2 fits_value items vs \<Longrightarrow>
   items_loop items (amf_read_item (Suc (Suc k)) junk) (Some (concat (map value_bytes vs) @ rest))
     = Inr (Some rest, map2 gets_value items vs)"
proof (induction vs arbitrary: items)
  case (Cons v vs)
  then obtain it its where items: "items = it # its" "fits_value it v" "list_all2 fits_value its vs"
    by (auto simp: list_all2_Cons2)
  have "amf_read_item_type_check (value_type v) (item_type it)"
    using items(2) by (cases v) (auto simp: amf_read_item_type_check_def)
  moreover have "items_loop its (amf_read_item (Suc (Suc k)) junk) (Some (concat (map value_bytes vs) @ rest))
      = Inr (Some rest, map2 gets_value its vs)"
    using Cons.prems items(3) by (intro Cons.IH) simp_all
  ultimately show ?case
    using read_value [of v it k junk "concat (map value_bytes vs) @ rest"] items(2) Cons.prems(1)
    by (simp add: items(1) length_value_body [of v] del: amf_read_item.simps)
qed simp

text \<open>C20: A message of null and undefined values, booleans, numbers, strings of any length, objects and associative
  arrays, written with the writing functions into a buffer with room, is written completely and nothing else is; read with
  one item for each value it gives every item its value, for objects every named item the value of its name and type,
  and the pointer to the bytes behind the message; items that a message does not name keep what they had.\<close>

theorem amf_message_roundtrip:
  assumes "list_all value_ok vs" "list_all2 fits_value items vs" "length w + length (concat (map value_bytes vs)) \<le> cap"
  shows "\<exists>msg. write_values cap (Some w) vs = Some (Some (w @ msg)) \<and>
    amf_read_items junk (Some (msg @ rest)) items = Inr (Some rest, map2 gets_value items vs)"
proof (cases "vs = []")
  case True
  then show ?thesis using assms(2) by (auto simp: amf_read_items_def)
next
  case False
  let ?msg = "concat (map value_bytes vs)"
  obtain b bs where "?msg = b # bs" using False by (cases vs) (auto simp: value_bytes_def)
  then obtain k where k: "Suc (length (?msg @ rest)) = Suc (Suc k)" by simp
  have "amf_read_items junk (Some (?msg @ rest)) items = Inr (Some rest, map2 gets_value items vs)"
    unfolding amf_read_items_def using read_values [OF assms(1,2), of k junk rest] k by (simp del: amf_read_item.simps)
  then show ?thesis using write_values_bytes [OF assms(1,3)] by blast
qed

text \<open>An object with a number and a string, and one item for each.\<close>

definition some_items :: "amf_object_item_t list" where
  "some_items = [AmfItem 2 [] (StoreChars [7, 7, 7]) 3,
     AmfItem 3 [] (StoreItems [AmfItem 1 [98] (StoreByte 9) 1, AmfItem 0 [97] (StoreDouble 0) 8]) 2]"

definition some_values :: "amf_value list" where
  "some_values = [AmfSimple (AmfString [104]), AmfObject [([97], AmfNumber 0x3FF0000000000000), ([99], AmfBoolean 1)]]"

theorem amf_message_roundtrip_witness:
  "\<exists>msg. write_values 64 (Some []) some_values = Some (Some msg) \<and>
    amf_read_items 0 (Some (msg @ [1, 2])) some_items = Inr (Some [1, 2],
      [AmfItem 2 [] (StoreChars [104, 0, 7]) 3,
       AmfItem 3 [] (StoreItems [AmfItem 1 [98] (StoreByte 9) 1, AmfItem 0 [97] (StoreDouble 0x3FF0000000000000) 8]) 2])"
proof -
  have "list_all value_ok some_values" by (simp add: some_values_def named_ok_def)
  moreover have "list_all2 fits_value some_items some_values" by (simp add: some_values_def some_items_def)
  moreover have "length [] + length (concat (map value_bytes some_values)) \<le> 64"
    by (simp add: some_values_def value_bytes_def nameds_bytes_def)
  moreover have "map2 gets_value some_items some_values = [AmfItem 2 [] (StoreChars [104, 0, 7]) 3,
       AmfItem 3 [] (StoreItems [AmfItem 1 [98] (StoreByte 9) 1, AmfItem 0 [97] (StoreDouble 0x3FF0000000000000) 8]) 2]"
    by (simp add: some_values_def some_items_def with_value_def assign_def amf_read_item_type_check_def)
  ultimately show ?thesis using amf_message_roundtrip [of some_values some_items "[]" 64 0 "[1, 2]"] by simp
qed

end
