(* ===== verification/Amf0_Bounds.thy ===== *)
theory Amf0_Bounds
  imports Amf0 "HOL-Library.Sublist"
begin

text \<open>
  The reading functions of \<open>src/media/codec/amf/amf0.c\<close> stay in the buffer and end.  A read of a byte behind \<open>end\<close>, or a
  pointer moved behind it, is the fault \<open>Amf_past_end\<close> of the model, and a depth of calls or a number of rounds greater
  than the number of the bytes left is the fault \<open>Amf_rounds\<close>; neither comes about, whatever the bytes are.  The pointer
  that is returned is null or points into the buffer, not before the pointer that was passed.
\<close>

section \<open>Results inside a buffer\<close>

definition in_buffer :: "bytes \<Rightarrow> amf_fault + (amf_ptr \<times> 'a) \<Rightarrow> bool" where
  "in_buffer p r \<longleftrightarrow> (case r of
      Inl f \<Rightarrow> f \<noteq> Amf_past_end \<and> f \<noteq> Amf_rounds
    | Inr (q, _) \<Rightarrow> (case q of None \<Rightarrow> True | Some q \<Rightarrow> suffix q p))"

definition no_access :: "amf_fault + 'a \<Rightarrow> bool" where
  "no_access r \<longleftrightarrow> r \<noteq> Inl Amf_past_end \<and> r \<noteq> Inl Amf_rounds"

lemma in_buffer_simps [simp]:
  "in_buffer p (Inr (None, x))" "in_buffer p (Inr (Some q, x)) \<longleftrightarrow> suffix q p"
  "in_buffer p (Inl f) \<longleftrightarrow> f \<noteq> Amf_past_end \<and> f \<noteq> Amf_rounds"
  by (simp_all add: in_buffer_def)

lemma in_buffer_mono: "suffix q p \<Longrightarrow> in_buffer q r \<Longrightarrow> in_buffer p r"
  using suffix_order.trans by (auto simp: in_buffer_def split: sum.splits option.splits)

lemma in_buffer_bind:
  assumes "in_buffer p r" "\<And>q x. suffix q p \<Longrightarrow> r = Inr (Some q, x) \<Longrightarrow> in_buffer p (f (Some q, x))" "\<And>x. in_buffer p (f (None, x))"
  shows "in_buffer p (amf_bind r f)"
proof (cases r)
  case (Inr y)
  obtain q x where y: "y = (q, x)" by (cases y)
  show ?thesis
  proof (cases q)
    case None
    then show ?thesis using assms(3) by (simp add: Inr y)
  next
    case (Some q')
    have "suffix q' p" using assms(1) by (simp add: Inr y Some)
    then show ?thesis using assms(2) [of q' x] by (simp add: Inr y Some)
  qed
qed (use assms(1) in simp)

lemma in_buffer_no_access:
  assumes "no_access r" "\<And>x. in_buffer p (f x)"
  shows "in_buffer p (amf_bind r f)"
  using assms by (cases r) (auto simp: no_access_def)

lemma in_buffer_get: "n \<le> length p \<Longrightarrow> in_buffer p (f (take n p, drop n p)) \<Longrightarrow> in_buffer p (amf_bind (get_bytes n p) f)"
  by (simp add: get_bytes_def)

lemma no_access_targets [simp]:
  "no_access (put_byte v item)" "no_access (put_double d item)" "no_access (chars_of item)" "no_access (items_of item)"
  "no_access (copy_chars s m b n)"
  by (auto simp: no_access_def put_byte_def put_double_def chars_of_def items_of_def copy_chars_def
      split: option.splits amf_store.splits)

section \<open>Numbers, strings and dates\<close>

lemma AMFReadInt_in_buffer: "in_buffer p (AMFReadInt16 (Some p))" "in_buffer p (AMFReadInt32 (Some p))"
  by (auto simp: AMFReadInt16_def AMFReadInt32_def suffix_drop intro!: in_buffer_get)

lemma AMFReadBoolean_in_buffer: "in_buffer p (AMFReadBoolean (Some p))"
  by (cases p) (simp_all add: AMFReadBoolean_def suffix_Cons)

lemma AMFReadDouble_in_buffer: "in_buffer p (AMFReadDouble (Some p))"
  by (auto simp: AMFReadDouble_def suffix_drop intro!: in_buffer_get)

lemma AMFReadString_in_buffer: "in_buffer p (AMFReadString (Some p) l s m)"
proof -
  let ?rest = "\<lambda>(ptr, len). case ptr of None \<Rightarrow> Inr (None, s)
    | Some q \<Rightarrow> if length q < unat len then Inr (None, s)
       else amf_bind (get_bytes (unat len) q) (\<lambda>(b, q'). amf_bind (copy_chars s m b (unat len)) (\<lambda>s. Inr (Some q', s)))"
  have rest: "in_buffer q (?rest (Some q, len))" for q and len :: u32
    by (auto simp: suffix_drop intro!: in_buffer_get in_buffer_no_access [OF no_access_targets(5)])
  have "in_buffer p (amf_bind (if \<not> l then AMFReadInt16 (Some p) else AMFReadInt32 (Some p)) ?rest)"
  proof (rule in_buffer_bind)
    show "in_buffer p (?rest (Some q, len))" if "suffix q p" for q and len :: u32 by (rule in_buffer_mono [OF that rest])
  qed (use AMFReadInt_in_buffer [of p] in simp_all)
  then show ?thesis by (simp only: AMFReadString_def)
qed

lemma AMFReadDate_in_buffer: "in_buffer p (AMFReadDate junk (Some p) t)"
  unfolding AMFReadDate_def
proof (rule in_buffer_bind [OF AMFReadDouble_in_buffer])
  fix q and d :: "u64 option"
  assume q: "suffix q p"
  have zone: "in_buffer q (amf_bind (AMFReadInt16 (Some q)) (\<lambda>(q, v). Inr (q, Some (e, if q = None then junk else ucast v))))"
    for e :: u64 by (intro in_buffer_bind AMFReadInt_in_buffer) simp_all
  show "in_buffer p (case (Some q, d) of (ptr, d) \<Rightarrow> (case (ptr, d) of
      (Some p, Some d) \<Rightarrow> if t then amf_bind (AMFReadInt16 (Some p)) (\<lambda>(q, v). Inr (q, Some (d, if q = None then junk else ucast v)))
        else Inl Amf_null
    | _ \<Rightarrow> Inr (None, None)))"
    by (cases d) (simp_all add: in_buffer_mono [OF q zone])
qed simp

section \<open>Objects and arrays\<close>

text \<open>A reader stays in every buffer that is shorter than \<open>m\<close>.\<close>

definition reader_below :: "nat \<Rightarrow> amf_reader \<Rightarrow> bool" where
  "reader_below m rd \<longleftrightarrow> (\<forall>p ty it. length p < m \<longrightarrow> in_buffer p (rd (Some p) ty it))"

lemma reader_belowD: "reader_below m rd \<Longrightarrow> length p < m \<Longrightarrow> in_buffer p (rd (Some p) ty it)"
  by (simp add: reader_below_def)

lemma object_end_in_buffer: "in_buffer p (amf_bind (object_end p) (\<lambda>q. Inr (q, items)))"
  by (cases p) (auto simp: object_end_def suffix_Cons)

lemma array_loop_in_buffer:
  "reader_below m rd \<Longrightarrow> length p \<le> m \<Longrightarrow> length p < n \<Longrightarrow> in_buffer p (array_loop n rd i count (Some p) items)"
proof (induction n arbitrary: i p items)
  case (Suc n)
  show ?case
  proof (cases "i < count \<and> p \<noteq> []")
    case True
    then obtain b q where p: "p = b # q" by (cases p) auto
    let ?j = "if i < length items \<and> amf_read_item_type_check b (item_type (items ! i)) then i else length items"
    have "in_buffer q (amf_bind (rd (Some q) b (item_at items ?j))
        (\<lambda>(q, item). array_loop n rd (Suc i) count q (put_item items ?j item)))"
    proof (rule in_buffer_bind)
      show "in_buffer q (rd (Some q) b (item_at items ?j))" using Suc.prems(2) by (intro reader_belowD [OF Suc.prems(1)]) (simp add: p)
      show "in_buffer q (case (Some q', it) of (q, item) \<Rightarrow> array_loop n rd (Suc i) count q (put_item items ?j item))"
        if q': "suffix q' q" for q' it
      proof -
        have "in_buffer q' (array_loop n rd (Suc i) count (Some q') (put_item items ?j it))"
          using Suc.prems suffix_length_le [OF q'] by (intro Suc.IH) (auto simp: p)
        from in_buffer_mono [OF q' this] show ?thesis by (simp only: prod.case)
      qed
      show "in_buffer q (case (None, it) of (q, item) \<Rightarrow> array_loop n rd (Suc i) count q (put_item items ?j item))" for it
        using Suc.prems by (cases n) (simp_all add: p)
    qed
    from in_buffer_mono [OF _ this, of p]
    have "in_buffer p (amf_bind (rd (Some q) b (item_at items ?j))
        (\<lambda>(q, item). array_loop n rd (Suc i) count q (put_item items ?j item)))"
      by (simp only: p suffix_Cons suffix_order.refl disj_not1 simp_thms)
    then show ?thesis using True by (simp add: p Let_def)
  next
    case False
    then have "\<not> (i < count \<and> p \<noteq> [])" .
    then show ?thesis by (simp only: array_loop.simps option.case if_False in_buffer_simps suffix_order.refl)
  qed
qed simp

lemma object_round_in_buffer:
  assumes "in_buffer p (rd (Some p) ty it)" "\<And>q item. suffix q p \<Longrightarrow> in_buffer q (next (Some q) item)" "\<And>item. in_buffer p (next None item)"
  shows "in_buffer p (amf_bind (rd (Some p) ty it) (\<lambda>(q, item). next q item))"
  using assms(1)
proof (rule in_buffer_bind)
  show "in_buffer p (case (Some q, x) of (q, item) \<Rightarrow> next q item)" if "suffix q p" for q x
    using in_buffer_mono [OF that assms(2) [OF that]] by simp
qed (simp add: assms(3))

lemma object_loop_in_buffer:
  "reader_below m rd \<Longrightarrow> length p \<le> m \<Longrightarrow> length p < n \<Longrightarrow> in_buffer p (object_loop n rd (Some p) items)"
proof (induction n arbitrary: p items)
  case (Suc n)
  show ?case
  proof (cases "length p < 2")
    case True
    then show ?thesis using object_end_in_buffer by simp
  next
    case False
    then obtain a b q where p: "p = a # b # q" by (cases p; cases "tl p") auto
    have qp: "suffix q p" by (simp add: p suffix_Cons)
    let ?len = "unat (shl (ucast a) 8 OR ucast b :: u32)"
    consider "?len = 0" | "?len \<noteq> 0" "length q < ?len + 1" | "?len \<noteq> 0" "?len + 1 \<le> length q" by linarith
    then show ?thesis
    proof cases
      case 1
      then show ?thesis using in_buffer_mono [OF qp object_end_in_buffer] by (simp add: p Let_def)
    next
      case 2
      then show ?thesis by (simp add: p Let_def)
    next
      case 3
      let ?name = "take ?len q"
      obtain ty r where r: "drop ?len q = ty # r" using 3 by (cases "drop ?len q") auto
      let ?i = "find_item ?name ty items"
      have rp: "suffix r p" using qp suffix_drop [of ?len q] suffix_ConsD suffix_order.trans unfolding r by metis
      have len: "length r < length p" "length r < m" using arg_cong [OF r, of length] Suc.prems by (auto simp: p)
      have "in_buffer r (amf_bind (rd (Some r) ty (item_at items ?i)) (\<lambda>(q, item). object_loop n rd q (put_item items ?i item)))"
      proof (rule object_round_in_buffer)
        show "in_buffer r (rd (Some r) ty (item_at items ?i))" using Suc.prems(1) len(2) by (rule reader_belowD)
        show "in_buffer s (object_loop n rd (Some s) (put_item items ?i item))" if "suffix s r" for s item
          using Suc.prems len suffix_length_le [OF that] by (intro Suc.IH) auto
        show "in_buffer r (object_loop n rd None (put_item items ?i item))" for item
          using Suc.prems len(1) by (cases n) simp_all
      qed
      then show ?thesis
        using 3 in_buffer_mono [OF rp] r by (simp add: p Let_def get_bytes_def)
    qed
  qed
qed simp

lemma amf_read_object_in_buffer:
  "reader_below m rd \<Longrightarrow> length p \<le> m \<Longrightarrow> in_buffer p (amf_read_object rd (Some p) items)"
  unfolding amf_read_object_def by (simp add: object_loop_in_buffer del: object_loop.simps)

lemma amf_read_ecma_array_in_buffer:
  assumes "reader_below m rd" "length p \<le> m"
  shows "in_buffer p (amf_read_ecma_array rd (Some p) items)"
proof -
  have "in_buffer (drop 4 p) (amf_read_object rd (Some (drop 4 p)) items)"
    using assms(2) by (intro amf_read_object_in_buffer [OF assms(1)]) simp
  then show ?thesis
    using in_buffer_mono [OF suffix_drop] by (auto simp: amf_read_ecma_array_def intro!: in_buffer_get)
qed

lemma amf_read_strict_array_in_buffer:
  assumes "reader_below m rd" "length p \<le> m"
  shows "in_buffer p (amf_read_strict_array rd (Some p) items)"
proof -
  let ?loop = "\<lambda>(ptr, count). array_loop (case ptr of None \<Rightarrow> 1 | Some p \<Rightarrow> Suc (length p)) rd 0 (unat count) ptr items"
  have loop: "in_buffer p (?loop (Some q, count))" if "suffix q p" for q and count :: u32
    using array_loop_in_buffer [OF assms(1), of q "Suc (length q)"] assms(2) suffix_length_le [OF that]
    by (simp add: in_buffer_mono [OF that] del: array_loop.simps)
  have "in_buffer p (amf_bind (AMFReadInt32 (Some p)) ?loop)"
    using loop by (intro in_buffer_bind AMFReadInt_in_buffer) simp_all
  then show ?thesis by (simp add: amf_read_strict_array_def)
qed

section \<open>Items\<close>

lemma in_buffer_result: "in_buffer p r \<Longrightarrow> in_buffer p (amf_bind r (\<lambda>(q, v). Inr (q, f v)))"
  by (rule in_buffer_bind) simp_all

lemma if_both: "in_buffer p r \<Longrightarrow> in_buffer p s \<Longrightarrow> in_buffer p (if c then r else s)"
  by simp

lemma amf_read_item_in_buffer: "reader_below n (amf_read_item n junk)"
proof (induction n)
  case (Suc n)
  show ?case unfolding reader_below_def
  proof (intro allI impI)
    fix p :: bytes and ty :: u8 and it
    assume "length p < Suc n"
    then have p: "length p \<le> n" by simp
    have targets: "in_buffer p (amf_bind (AMFReadBoolean (Some p)) (\<lambda>(q, v). amf_bind (put_byte v it) (\<lambda>item. Inr (q, item))))"
        "in_buffer p (amf_bind (AMFReadDouble (Some p)) (\<lambda>(q, v). amf_bind (put_double v it) (\<lambda>item. Inr (q, item))))"
      by (rule in_buffer_bind [OF AMFReadBoolean_in_buffer] in_buffer_bind [OF AMFReadDouble_in_buffer];
          simp add: in_buffer_no_access)+
    have chars: "in_buffer p (amf_bind (chars_of it) (\<lambda>s. amf_bind (AMFReadString (Some p) l s k) (\<lambda>(q, s). Inr (q, put_chars s it))))"
      for l k by (intro in_buffer_no_access in_buffer_result AMFReadString_in_buffer) simp
    have nested: "in_buffer p (amf_bind (items_of it) (\<lambda>xs. amf_bind (f xs) (\<lambda>(q, xs). Inr (q, put_items xs it))))"
      if "\<And>xs. in_buffer p (f xs)" for f
      using that by (intro in_buffer_no_access in_buffer_result) simp
    note nested = nested [OF amf_read_object_in_buffer [OF Suc p]] nested [OF amf_read_ecma_array_in_buffer [OF Suc p]]
      nested [OF amf_read_strict_array_in_buffer [OF Suc p]]
    show "in_buffer p (amf_read_item (Suc n) junk (Some p) ty it)"
      unfolding amf_read_item.simps(2)
      by (intro targets chars nested if_both) (auto intro!: in_buffer_result AMFReadDate_in_buffer split: option.split amf_store.split)
  qed
qed (simp add: reader_below_def)

lemma items_loop_in_buffer: "reader_below m rd \<Longrightarrow> length p \<le> m \<Longrightarrow> in_buffer p (items_loop items rd (Some p))"
proof (induction items arbitrary: p)
  case (Cons it items)
  show ?case
  proof (cases p)
    case (Cons ty q)
    let ?rest = "\<lambda>q item. amf_bind (items_loop items rd q)
      (\<lambda>(q, items). Inr (q, (case item of None \<Rightarrow> it | Some it \<Rightarrow> it) # items))"
    have "in_buffer q (amf_bind (rd (Some q) ty (Some it)) (\<lambda>(q, item). ?rest q item))"
    proof (rule object_round_in_buffer)
      show "in_buffer q (rd (Some q) ty (Some it))" using Cons.prems(2) by (intro reader_belowD [OF Cons.prems(1)]) (simp add: Cons)
      show "in_buffer s (?rest (Some s) item)" if "suffix s q" for s item
        using Cons.prems suffix_length_le [OF that] by (intro in_buffer_result Cons.IH) (simp_all add: Cons)
      show "in_buffer q (?rest None item)" for item by (cases items) simp_all
    qed
    from in_buffer_mono [OF _ this, of p] show ?thesis by (simp add: Cons suffix_Cons)
  qed simp
qed simp

section \<open>The property\<close>

text \<open>C36: Whatever bytes a buffer holds and whatever items are asked for, reading the items ends, with calls no deeper and
  loops no longer than there are bytes; it reads no byte behind the end of the buffer and moves no pointer there; and the
  pointer it returns is null or one into the buffer, not before the one that was passed.\<close>

theorem amf_read_ends:
  "amf_read_items junk (Some p) items \<notin> {Inl Amf_past_end, Inl Amf_rounds} \<and>
   (\<forall>q items'. amf_read_items junk (Some p) items = Inr (Some q, items') \<longrightarrow> suffix q p)"
proof -
  have "in_buffer p (items_loop items (amf_read_item (Suc (length p)) junk) (Some p))"
    by (rule items_loop_in_buffer [OF amf_read_item_in_buffer]) simp
  then have "in_buffer p (amf_read_items junk (Some p) items)" by (simp add: amf_read_items_def)
  then show ?thesis by (auto simp: in_buffer_def)
qed

text \<open>A boolean in front of another byte, and an object whose string is said to be longer than the buffer.\<close>

theorem amf_read_ends_witness:
  "amf_read_items 0 (Some [1, 1, 5]) [AmfItem 1 [] (StoreByte 0) 1] = Inr (Some [5], [AmfItem 1 [] (StoreByte 1) 1]) \<and>
   suffix [5] [1, 1, 5 :: u8] \<and>
   amf_read_items 0 (Some [3, 0, 1, 97, 2, 0, 9, 104]) [AmfItem 3 [] (StoreItems []) 0] \<notin> {Inl Amf_past_end, Inl Amf_rounds}"
proof -
  have one: "amf_read_items 0 (Some [1, 1, 5]) [AmfItem 1 [] (StoreByte 0) 1] = Inr (Some [5], [AmfItem 1 [] (StoreByte 1) 1])"
    by (simp add: amf_read_items_def amf_read_item_type_check_def AMFReadBoolean_def put_byte_def with_value_def)
  then show ?thesis
    using amf_read_ends [of 0 "[1, 1, 5]" "[AmfItem 1 [] (StoreByte 0) 1]"]
      amf_read_ends [of 0 "[3, 0, 1, 97, 2, 0, 9, 104]" "[AmfItem 3 [] (StoreItems []) 0]"] by blast
qed

section \<open>Defects\<close>

text \<open>A date is written with its time zone over the last byte of the number, and the reader gets no time zone; skipping a
  date that no item asks for writes the time zone through a null pointer; and the functions that write named values use
  the null pointer that a write into a full buffer returned.\<close>

lemma AMFWriteDate_overlaps:
  "AMFWriteDate 11 (Some []) d z = Some (Some (11 # take 7 (double_bytes d) @ [ucast (shr z 8), ucast (z AND 0xFF)]))"
  "AMFReadDate junk (Some (take 7 (double_bytes d) @ [ucast (shr z 8), ucast (z AND 0xFF)])) True
     = Inr (None, Some (double_of (take 7 (double_bytes d) @ [ucast (shr z 8), ucast (z AND 0xFF)]), junk))"
  by (simp_all add: AMFWriteDate_def AMFWriteDouble_def amf_put_def AMFWriteInt16_def AMFReadDate_def AMFReadDouble_def
      AMFReadInt16_def double_bytes_def double_of_def get_bytes_def)

lemma amf_skipped_date_crashes: "8 \<le> length p \<Longrightarrow> amf_read_item (Suc n) junk (Some p) 11 None = Inl Amf_null"
  by (simp add: AMFReadDate_def AMFReadDouble_def get_bytes_def)

lemma AMFWriteNamed_null:
  "AMFWriteNamedBoolean cap None name b = None" "AMFWriteNamedDouble cap None name d = None" "AMFWriteNamedString cap None name s = None"
  by (simp_all add: AMFWriteNamedBoolean_def AMFWriteNamedDouble_def AMFWriteNamedString_def)

end
