(* ===== verification/Uri_Parse.thy ===== *)
theory Uri_Parse
  imports Prelude
begin

text \<open>
  The URI parser, \<open>src/uri-parse/uri-parse.c\<close>.  The \<open>len\<close> characters of the argument are a list of bytes, and the
  pointer \<open>str\<close> is the list of the characters from it to \<open>pend\<close>, which is empty also when \<open>str\<close> has moved behind \<open>pend\<close>;
  \<open>after\<close> is the byte behind the last character, if it may be read.  The memory behind the structure \<open>uri_t\<close> is the
  list of the bytes written so far, \<open>cap\<close> its size, and the strings of the structure are positions in it.  What
  stops the program is a \<open>uri_fault\<close>.
\<close>

section \<open>The code\<close>

datatype uri_fault = Assert_failed | Int_overflow | Out_of_bounds

definition s_characters :: "u32 list" where
  "s_characters = [0x00, 0xAFFFFFFA, 0xAFFFFFFF, 0x47FFFFFE, 0x00, 0x00, 0x00, 0x00]"

definition uri_characters_check :: "u8 \<Rightarrow> bool" where
  "uri_characters_check c \<longleftrightarrow>
     (let n = unat c div 32; m = unat c mod 32 in (s_characters ! n) AND push_bit m 1 \<noteq> 0)"

record uri_component_t =
  has_scheme :: bool
  has_userinfo :: bool
  has_host :: bool
  has_port :: bool

datatype uri_state = URI_PARSE_START | URI_PARSE_SCHEME | URI_PARSE_AUTHORITY | URI_PARSE_USERINFO | URI_PARSE_HOST
  | URI_PARSE_PORT | URI_PARSE_HOST_IPV6

text \<open>The characters \<open>/ ? # : @ [ ]\<close> are 47, 63, 35, 58, 64, 91 and 93.\<close>

abbreviation is_end :: "u8 \<Rightarrow> bool" where
  "is_end c \<equiv> c = 47 \<or> c = 63 \<or> c = 35"

function check_loop :: "uri_state \<Rightarrow> uri_component_t \<Rightarrow> bytes \<Rightarrow> uri_fault + (int \<times> uri_component_t)" where
  "check_loop st it [] = Inr (0, it)" |
  "check_loop st it (c # str) =
     (if \<not> uri_characters_check c then Inr (-1, it)
      else case st of
        URI_PARSE_START \<Rightarrow>
          if c = 47 then Inr (0, it)
          else if c = 91 then check_loop URI_PARSE_HOST_IPV6 (it\<lparr>has_host := True\<rparr>) str
          else check_loop URI_PARSE_SCHEME (it\<lparr>has_host := True\<rparr>) (c # str)
      | URI_PARSE_SCHEME \<Rightarrow>
          if c = 58 then check_loop URI_PARSE_AUTHORITY it str
          else if c = 64 then check_loop URI_PARSE_HOST (it\<lparr>has_userinfo := True\<rparr>) str
          else if is_end c then Inr (0, it)
          else check_loop URI_PARSE_SCHEME it str
      | URI_PARSE_AUTHORITY \<Rightarrow>
          if c = 47
          then (case str of
              d # rest \<Rightarrow> if d = 47 then check_loop URI_PARSE_HOST (it\<lparr>has_scheme := True\<rparr>) rest
                          else Inr (0, it\<lparr>has_port := True\<rparr>)
            | [] \<Rightarrow> Inr (0, it\<lparr>has_port := True\<rparr>))
          else check_loop URI_PARSE_PORT (it\<lparr>has_port := True\<rparr>) str
      | URI_PARSE_HOST \<Rightarrow>
          if c = 93 then Inl Assert_failed
          else if c = 64 then check_loop URI_PARSE_HOST (it\<lparr>has_userinfo := True\<rparr>) str
          else if c = 91 then check_loop URI_PARSE_HOST_IPV6 it str
          else if c = 58 then check_loop URI_PARSE_PORT (it\<lparr>has_port := True\<rparr>) str
          else if is_end c then Inr (0, it)
          else check_loop URI_PARSE_HOST it str
      | URI_PARSE_PORT \<Rightarrow>
          if c = 64 then check_loop URI_PARSE_HOST (it\<lparr>has_port := False, has_userinfo := True\<rparr>) str
          else if c = 91 \<or> c = 93 \<or> c = 58 then Inr (-1, it)
          else if is_end c then Inr (0, it\<lparr>has_port := True\<rparr>)
          else check_loop URI_PARSE_PORT it str
      | URI_PARSE_HOST_IPV6 \<Rightarrow>
          if c = 93 then check_loop URI_PARSE_HOST it str
          else if c = 64 \<or> c = 91 \<or> is_end c then Inr (-1, it)
          else check_loop URI_PARSE_HOST_IPV6 it str
      | URI_PARSE_USERINFO \<Rightarrow> Inl Assert_failed)"
  by pat_completeness auto
termination
  by (relation "measures [\<lambda>(st, it, str). length str, \<lambda>(st, it, str). if st = URI_PARSE_START then 1 else 0]") auto

lemmas check_simps [simp] =
  check_loop.simps(2) [of URI_PARSE_START, unfolded uri_state.case] check_loop.simps(2) [of URI_PARSE_SCHEME, unfolded uri_state.case]
  check_loop.simps(2) [of URI_PARSE_AUTHORITY, unfolded uri_state.case] check_loop.simps(2) [of URI_PARSE_HOST, unfolded uri_state.case]
  check_loop.simps(2) [of URI_PARSE_PORT, unfolded uri_state.case] check_loop.simps(2) [of URI_PARSE_HOST_IPV6, unfolded uri_state.case]
  check_loop.simps(2) [of URI_PARSE_USERINFO, unfolded uri_state.case]

declare check_loop.simps(2) [simp del]

text \<open>Induction over the rest of the string, for the states behind the first character.\<close>

lemma check_loop_induct [consumes 1, case_names less]:
  assumes "st \<noteq> URI_PARSE_START"
    and "\<And>st it str. (\<And>st' it' str'. length str' < length str \<Longrightarrow> st' \<noteq> URI_PARSE_START \<Longrightarrow> P st' it' str') \<Longrightarrow>
      st \<noteq> URI_PARSE_START \<Longrightarrow> P st it str"
  shows "P st it str"
  using assms(1)
proof (induction "length str" arbitrary: st it str rule: less_induct)
  case less
  show ?case using assms(2) less by blast
qed

definition uri_check :: "bytes \<Rightarrow> uri_fault + (int \<times> uri_component_t)" where
  "uri_check str = check_loop URI_PARSE_START
     \<lparr>has_scheme = False, has_userinfo = False, has_host = False, has_port = False\<rparr> str"

record uri_t =
  scheme :: "nat option"
  userinfo :: "nat option"
  host :: "nat option"
  port :: int
  path :: nat
  query :: "nat option"
  fragment :: "nat option"
  uri_chars :: bytes

text \<open>\<open>*p++ = c\<close>, and \<open>while (str < pend && ...) *p++ = *str++\<close>.\<close>

definition uri_put :: "nat \<Rightarrow> bytes \<Rightarrow> u8 \<Rightarrow> uri_fault + bytes" where
  "uri_put cap p c = (if length p < cap then Inr (p @ [c]) else Inl Out_of_bounds)"

primrec copy_while :: "nat \<Rightarrow> (u8 \<Rightarrow> bool) \<Rightarrow> bytes \<Rightarrow> bytes \<Rightarrow> uri_fault + (bytes \<times> bytes)" where
  "copy_while cap cond p [] = Inr (p, [])" |
  "copy_while cap cond p (c # str) =
     (if cond c then (case uri_put cap p c of Inl e \<Rightarrow> Inl e | Inr p \<Rightarrow> copy_while cap cond p str) else Inr (p, c # str))"

text \<open>A loop of that form, followed by \<open>*p++ = 0\<close>; the string starts at the position that \<open>p\<close> had before it.\<close>

definition copy_string :: "nat \<Rightarrow> (u8 \<Rightarrow> bool) \<Rightarrow> bytes \<Rightarrow> bytes \<Rightarrow> uri_fault + (bytes \<times> bytes)" where
  "copy_string cap cond p str =
     (case copy_while cap cond p str of
        Inl e \<Rightarrow> Inl e
      | Inr (p, str) \<Rightarrow> (case uri_put cap p 0 of Inl e \<Rightarrow> Inl e | Inr p \<Rightarrow> Inr (p, str)))"

text \<open>\<open>*str && NULL == strchr(":/?#", *str)\<close>.\<close>

definition not_delim :: "u8 \<Rightarrow> bool" where
  "not_delim c \<longleftrightarrow> c \<noteq> 0 \<and> c \<notin> {58, 47, 63, 35}"

definition bad_delim :: "bytes \<Rightarrow> bool" where
  "bad_delim str = (case str of [] \<Rightarrow> False | c # _ \<Rightarrow> not_delim c)"

primrec port_loop :: "int \<Rightarrow> bytes \<Rightarrow> uri_fault + (int \<times> bytes)" where
  "port_loop n [] = Inr (n, [])" |
  "port_loop n (c # str) =
     (if 48 \<le> c \<and> c \<le> 57
      then let n = n * 10 + (uint c - 48) in if n > 0x7FFFFFFF then Inl Int_overflow else port_loop n str
      else Inr (n, c # str))"

text \<open>\<open>while (str < pend && *++str) *p++ = *str\<close>; the first argument is the byte at \<open>pend\<close>.\<close>

primrec fragment_loop :: "u8 option \<Rightarrow> nat \<Rightarrow> bytes \<Rightarrow> bytes \<Rightarrow> uri_fault + bytes" where
  "fragment_loop after cap p [] = Inr p" |
  "fragment_loop after cap p (c # str) =
     (case (case str of [] \<Rightarrow> after | d # _ \<Rightarrow> Some d) of
        None \<Rightarrow> Inl Out_of_bounds
      | Some d \<Rightarrow>
          if d = 0 then Inr p else (case uri_put cap p d of Inl e \<Rightarrow> Inl e | Inr p \<Rightarrow> fragment_loop after cap p str))"

text \<open>The sections of \<open>uri_parse_complex\<close>, each with the memory and the pointer it leaves.\<close>

definition parse_scheme :: "nat \<Rightarrow> bool \<Rightarrow> bytes \<Rightarrow> bytes \<Rightarrow> uri_fault + (nat option \<times> bytes \<times> bytes)" where
  "parse_scheme cap has p str =
     (if has
      then (case copy_string cap (\<lambda>c. c \<noteq> 58) p str of Inl e \<Rightarrow> Inl e | Inr (q, str) \<Rightarrow> Inr (Some (length p), q, drop 3 str))
      else Inr (None, p, str))"

definition parse_userinfo :: "nat \<Rightarrow> bool \<Rightarrow> bytes \<Rightarrow> bytes \<Rightarrow> uri_fault + (nat option \<times> bytes \<times> bytes)" where
  "parse_userinfo cap has p str =
     (if has
      then (case copy_string cap (\<lambda>c. c \<noteq> 64) p str of Inl e \<Rightarrow> Inl e | Inr (q, str) \<Rightarrow> Inr (Some (length p), q, drop 1 str))
      else Inr (None, p, str))"

text \<open>\<open>None\<close> is \<open>return -1\<close>.\<close>

definition parse_host :: "nat \<Rightarrow> bool \<Rightarrow> bytes \<Rightarrow> bytes \<Rightarrow> uri_fault + (nat option \<times> bytes \<times> bytes) option" where
  "parse_host cap has p str =
     (if \<not> has then Inr (Some (None, p, str))
      else case str of
        [] \<Rightarrow> Inl Assert_failed
      | c # str' \<Rightarrow>
          if c = 91
          then (case copy_string cap (\<lambda>c. c \<noteq> 93) p str' of
              Inl e \<Rightarrow> Inl e
            | Inr (q, str) \<Rightarrow>
                let str = drop 1 str in if bad_delim str then Inr None else Inr (Some (Some (length p), q, str)))
          else (case copy_string cap not_delim p str of
              Inl e \<Rightarrow> Inl e | Inr (q, str) \<Rightarrow> Inr (Some (Some (length p), q, str))))"

definition parse_port :: "bool \<Rightarrow> bytes \<Rightarrow> uri_fault + (int \<times> bytes) option" where
  "parse_port has str =
     (if \<not> has then Inr (Some (0, str))
      else case port_loop 0 (drop 1 str) of
        Inl e \<Rightarrow> Inl e
      | Inr (n, str) \<Rightarrow> if bad_delim str then Inr None else Inr (Some (n, str)))"

definition parse_path :: "nat \<Rightarrow> bytes \<Rightarrow> bytes \<Rightarrow> uri_fault + (bytes \<times> bytes)" where
  "parse_path cap p str =
     (if str \<noteq> [] \<and> hd str = 47 then copy_string cap (\<lambda>c. c \<noteq> 0 \<and> c \<noteq> 63 \<and> c \<noteq> 35) p str
      else case uri_put cap p 47 of
        Inl e \<Rightarrow> Inl e
      | Inr q \<Rightarrow> (case uri_put cap q 0 of Inl e \<Rightarrow> Inl e | Inr q \<Rightarrow> Inr (q, str)))"

definition parse_query :: "nat \<Rightarrow> bytes \<Rightarrow> bytes \<Rightarrow> uri_fault + (nat option \<times> bytes \<times> bytes)" where
  "parse_query cap p str =
     (if str \<noteq> [] \<and> hd str = 63
      then (case copy_string cap (\<lambda>c. c \<noteq> 0 \<and> c \<noteq> 35) p (tl str) of
          Inl e \<Rightarrow> Inl e | Inr (q, str) \<Rightarrow> Inr (Some (length p), q, str))
      else Inr (None, p, str))"

definition parse_fragment :: "u8 option \<Rightarrow> nat \<Rightarrow> bytes \<Rightarrow> bytes \<Rightarrow> uri_fault + (nat option \<times> bytes)" where
  "parse_fragment after cap p str =
     (if str \<noteq> [] \<and> hd str = 35
      then (case fragment_loop after cap p str of
          Inl e \<Rightarrow> Inl e
        | Inr q \<Rightarrow> (case uri_put cap q 0 of Inl e \<Rightarrow> Inl e | Inr q \<Rightarrow> Inr (Some (length p), q)))
      else Inr (None, p))"

definition uri_parse_complex :: "u8 option \<Rightarrow> nat \<Rightarrow> bytes \<Rightarrow> uri_fault + uri_t option" where
  "uri_parse_complex after cap str =
     (case uri_check str of
        Inl e \<Rightarrow> Inl e
      | Inr (r, items) \<Rightarrow>
     if r \<noteq> 0 then Inr None
     else case parse_scheme cap (has_scheme items) [] str of
        Inl e \<Rightarrow> Inl e
      | Inr (sch, p, str) \<Rightarrow>
     (case parse_userinfo cap (has_userinfo items) p str of
        Inl e \<Rightarrow> Inl e
      | Inr (usr, p, str) \<Rightarrow>
     (case parse_host cap (has_host items) p str of
        Inl e \<Rightarrow> Inl e
      | Inr None \<Rightarrow> Inr None
      | Inr (Some (hst, p, str)) \<Rightarrow>
     (case parse_port (has_port items) str of
        Inl e \<Rightarrow> Inl e
      | Inr None \<Rightarrow> Inr None
      | Inr (Some (prt, str)) \<Rightarrow>
     (case parse_path cap p str of
        Inl e \<Rightarrow> Inl e
      | Inr (p', str) \<Rightarrow>
     (case parse_query cap p' str of
        Inl e \<Rightarrow> Inl e
      | Inr (qry, q, str) \<Rightarrow>
     (case parse_fragment after cap q str of
        Inl e \<Rightarrow> Inl e
      | Inr (frg, q) \<Rightarrow>
          Inr (Some \<lparr>scheme = sch, userinfo = usr, host = hst, port = prt, path = length p, query = qry,
            fragment = frg, uri_chars = q\<rparr>))))))))"

text \<open>The first argument says whether the allocation succeeds; a null pointer is \<open>None\<close>.\<close>

definition uri_parse :: "bool \<Rightarrow> u8 option \<Rightarrow> bytes option \<Rightarrow> uri_fault + uri_t option" where
  "uri_parse alloc after uri =
     (case uri of
        None \<Rightarrow> Inr None
      | Some str \<Rightarrow>
          if str = [] \<or> hd str = 0 \<or> \<not> alloc then Inr None else uri_parse_complex after (length str + 5) str)"

end
