(* ===== verification/Uri_Bounds.thy ===== *)
theory Uri_Bounds
  imports Uri_Parse
begin

text \<open>
  The memory that \<open>uri_parse\<close> allocates: \<open>len + 5\<close> bytes behind the structure are enough for the strings of every URI,
  and nothing is read behind the byte that follows its last character.
\<close>

section \<open>Copying\<close>

lemma copy_while_eq:
  "copy_while cap cond p str =
     (if length p + length (takeWhile cond str) \<le> cap \<or> takeWhile cond str = [] then Inr (p @ takeWhile cond str, dropWhile cond str)
      else Inl Out_of_bounds)"
  by (induction str arbitrary: p) (auto simp: uri_put_def)

lemma copy_string_eq:
  "copy_string cap cond p str =
     (if length p + length (takeWhile cond str) < cap then Inr (p @ takeWhile cond str @ [0], dropWhile cond str)
      else Inl Out_of_bounds)"
  by (auto simp: copy_string_def copy_while_eq uri_put_def)

lemma length_takeWhile_dropWhile: "length (takeWhile P xs) + length (dropWhile P xs) = length xs"
  by (metis length_append takeWhile_dropWhile_id)

text \<open>\<open>room cap k p str\<close>: the bytes written exceed the characters behind \<open>str\<close> by at most \<open>k\<close>.\<close>

definition room :: "nat \<Rightarrow> nat \<Rightarrow> bytes \<Rightarrow> bytes \<Rightarrow> bool" where
  "room n k p str \<longleftrightarrow> length p + length str \<le> n + k"

text \<open>A result that is no access out of bounds, and keeps \<open>P\<close> when there is a value.\<close>

definition stays :: "('a \<Rightarrow> bool) \<Rightarrow> uri_fault + 'a \<Rightarrow> bool" where
  "stays P r \<longleftrightarrow> (case r of Inl e \<Rightarrow> e \<noteq> Out_of_bounds | Inr x \<Rightarrow> P x)"

lemma stays_simps [simp]: "stays P (Inl e) \<longleftrightarrow> e \<noteq> Out_of_bounds" "stays P (Inr x) \<longleftrightarrow> P x"
  by (simp_all add: stays_def)

text \<open>The sequences of \<open>uri_parse_complex\<close>: a section that may fail, and the rest for each of its results.\<close>

lemma stays_case1:
  assumes "stays P r" "\<And>x. P x \<Longrightarrow> stays Q (f x)"
  shows "stays Q (case r of Inl e \<Rightarrow> Inl e | Inr x \<Rightarrow> f x)"
  using assms by (cases r) auto

lemma stays_case2:
  assumes "stays (\<lambda>(q, s). P q s) r" "\<And>q s. P q s \<Longrightarrow> stays Q (f q s)"
  shows "stays Q (case r of Inl e \<Rightarrow> Inl e | Inr (q, s) \<Rightarrow> f q s)"
  using assms by (cases r) auto

lemma stays_case3:
  assumes "stays (\<lambda>(_, q, s). P q s) r" "\<And>a q s. P q s \<Longrightarrow> stays Q (f a q s)"
  shows "stays Q (case r of Inl e \<Rightarrow> Inl e | Inr (a, q, s) \<Rightarrow> f a q s)"
  using assms by (cases r) auto

lemma stays_optional2:
  assumes "stays (\<lambda>r. case r of None \<Rightarrow> True | Some (_, s) \<Rightarrow> P s) r" "\<And>n s. P s \<Longrightarrow> stays Q (f n s)" "Q None"
  shows "stays Q (case r of Inl e \<Rightarrow> Inl e | Inr None \<Rightarrow> Inr None | Inr (Some (n, s)) \<Rightarrow> f n s)"
  using assms by (cases r) (auto split: option.splits)

lemma stays_optional3:
  assumes "stays (\<lambda>r. case r of None \<Rightarrow> True | Some (_, q, s) \<Rightarrow> P q s) r" "\<And>a q s. P q s \<Longrightarrow> stays Q (f a q s)" "Q None"
  shows "stays Q (case r of Inl e \<Rightarrow> Inl e | Inr None \<Rightarrow> Inr None | Inr (Some (a, q, s)) \<Rightarrow> f a q s)"
  using assms by (cases r) (auto split: option.splits)

lemma parse_scheme_room:
  assumes "room n 0 p str" "n + 1 \<le> cap" "has \<Longrightarrow> 58 \<in> set str"
  shows "stays (\<lambda>(_, q, str'). room n 0 q str') (parse_scheme cap has p str)"
proof (cases has)
  case True
  let ?P = "\<lambda>c :: u8. c \<noteq> 58"
  have "dropWhile ?P str \<noteq> []" using assms(3) [OF True] by (simp add: dropWhile_eq_Nil_conv)
  then have "length (dropWhile ?P str) \<ge> 1" by (cases "dropWhile ?P str") simp_all
  then show ?thesis using True assms(1,2) length_takeWhile_dropWhile [of ?P str]
    by (simp add: parse_scheme_def copy_string_eq room_def)
qed (use assms in \<open>simp add: parse_scheme_def\<close>)

lemma parse_userinfo_room:
  assumes "room n 0 p str" "n + 1 \<le> cap"
  shows "stays (\<lambda>(_, q, str'). room n 1 q str') (parse_userinfo cap has p str)"
  using assms length_takeWhile_dropWhile [of "\<lambda>c :: u8. c \<noteq> 64" str]
  by (auto simp: parse_userinfo_def copy_string_eq room_def)

lemma parse_host_room:
  assumes "room n 1 p str" "n + 2 \<le> cap"
  shows "stays (\<lambda>r. case r of None \<Rightarrow> True | Some (_, q, str') \<Rightarrow> room n 2 q str') (parse_host cap has p str)"
proof (cases str)
  case (Cons c str')
  show ?thesis
    using assms length_takeWhile_dropWhile [of "\<lambda>c :: u8. c \<noteq> 93" str'] length_takeWhile_dropWhile [of not_delim str] Cons
    by (auto simp: parse_host_def copy_string_eq room_def Let_def)
qed (use assms in \<open>simp add: parse_host_def room_def\<close>)

lemma port_loop_rest: "stays (\<lambda>(_, str'). length str' \<le> length str) (port_loop n str)"
proof (induction str arbitrary: n)
  case (Cons c str)
  have "stays (\<lambda>(_, str'). length str' \<le> length (c # str)) (port_loop m str)" for m
    using Cons.IH [of m] by (cases "port_loop m str") auto
  then show ?case by (simp add: Let_def)
qed simp

lemma parse_port_rest:
  "stays (\<lambda>r. case r of None \<Rightarrow> True | Some (_, str') \<Rightarrow> length str' \<le> length str) (parse_port has str)"
  using port_loop_rest [of "drop 1 str" 0] by (auto simp: parse_port_def stays_def split: sum.splits)

lemma parse_path_room:
  assumes "room n 2 p str" "n + 4 \<le> cap"
  shows "stays (\<lambda>(q, str'). room n 4 q str') (parse_path cap p str)"
  using assms length_takeWhile_dropWhile [of "\<lambda>c :: u8. c \<noteq> 0 \<and> c \<noteq> 63 \<and> c \<noteq> 35" str]
  by (auto simp: parse_path_def copy_string_eq room_def uri_put_def)

lemma parse_query_room:
  assumes "room n 4 p str" "n + 4 \<le> cap"
  shows "stays (\<lambda>(_, q, str'). room n 4 q str') (parse_query cap p str)"
proof (cases str)
  case (Cons c str')
  then show ?thesis
    using assms length_takeWhile_dropWhile [of "\<lambda>c :: u8. c \<noteq> 0 \<and> c \<noteq> 35" str']
    by (auto simp: parse_query_def copy_string_eq room_def)
qed (use assms in \<open>simp add: parse_query_def\<close>)

lemma fragment_loop_room:
  "length p + length str \<le> cap \<Longrightarrow> stays (\<lambda>q. length q \<le> length p + length str) (fragment_loop (Some a) cap p str)"
proof (induction str arbitrary: p)
  case (Cons c str)
  have step: "stays (\<lambda>q. length q \<le> length p + length (c # str)) (fragment_loop (Some a) cap (p @ [d]) str)" for d
    using Cons.IH [of "p @ [d]"] Cons.prems by simp
  show ?case using Cons.prems step by (cases str) (simp_all add: uri_put_def)
qed simp

lemma parse_fragment_room:
  assumes "room n 4 p str" "n + 5 \<le> cap"
  shows "stays (\<lambda>_. True) (parse_fragment (Some a) cap p str)"
  using assms fragment_loop_room [of p str cap a]
  by (auto simp: parse_fragment_def room_def stays_def uri_put_def split: sum.splits)

section \<open>What the check finds\<close>

text \<open>A scheme is found only behind a colon.\<close>

lemma check_loop_scheme:
  assumes "st \<noteq> URI_PARSE_START" "check_loop st it str = Inr (r, it')" "has_scheme it'"
  shows "has_scheme it \<or> st = URI_PARSE_AUTHORITY \<or> 58 \<in> set str"
  using assms
proof (induction st it str rule: check_loop_induct)
  case (less st it str)
  show ?case
  proof (cases str)
    case Nil
    then show ?thesis using less.prems by simp
  next
    case (Cons c str')
    have IH: "check_loop st' it2 str2 = Inr (r, it') \<Longrightarrow> length str2 < length str \<Longrightarrow> st' \<noteq> URI_PARSE_START \<Longrightarrow>
        has_scheme it2 \<or> st' = URI_PARSE_AUTHORITY \<or> 58 \<in> set str2" for st' it2 str2
      using less by blast
    show ?thesis
      using less.prems less.hyps Cons by (cases st) (auto split: if_splits list.splits dest!: IH)
  qed
qed

lemma uri_check_scheme: "uri_check str = Inr (r, items) \<Longrightarrow> has_scheme items \<Longrightarrow> 58 \<in> set str"
  by (cases str) (auto simp: uri_check_def simp del: check_simps(2,6) split: if_splits dest!: check_loop_scheme [rotated])

lemma check_loop_in_bounds:
  assumes "st \<noteq> URI_PARSE_START"
  shows "check_loop st it str \<noteq> Inl Out_of_bounds"
  using assms
proof (induction st it str rule: check_loop_induct)
  case (less st it str)
  show ?case using less by (cases str; cases st) (auto split: list.splits)
qed

lemma uri_check_in_bounds: "uri_check str \<noteq> Inl Out_of_bounds"
  by (cases str) (auto simp: uri_check_def check_loop_in_bounds simp del: check_simps(2,6))

lemma uri_parse_complex_stays: "stays (\<lambda>_. True) (uri_parse_complex (Some a) (length str + 5) str)"
proof (cases "uri_check str")
  case (Inl e)
  then show ?thesis using uri_check_in_bounds [of str] by (auto simp: uri_parse_complex_def)
next
  case (Inr ri)
  let ?n = "length str" and ?cap = "length str + 5"
  obtain r it where ri: "ri = (r, it)" by (cases ri)
  have s: "stays (\<lambda>(_, q, str'). room ?n 0 q str') (parse_scheme ?cap (has_scheme it) [] str)"
    using uri_check_scheme Inr ri by (intro parse_scheme_room) (auto simp: room_def)
  have u: "stays (\<lambda>(_, q, str'). room ?n 1 q str') (parse_userinfo ?cap has p str2)" if "room ?n 0 p str2" for has p str2
    using that by (intro parse_userinfo_room) simp_all
  have h: "stays (\<lambda>r. case r of None \<Rightarrow> True | Some (_, q, str') \<Rightarrow> room ?n 2 q str') (parse_host ?cap has p str2)"
    if "room ?n 1 p str2" for has p str2 using that by (intro parse_host_room) simp_all
  have pt: "stays (\<lambda>r. case r of None \<Rightarrow> True | Some (_, str') \<Rightarrow> room ?n 2 p str') (parse_port has str2)"
    if "room ?n 2 p str2" for has p str2
    using parse_port_rest [of str2 has] that by (cases "parse_port has str2") (auto simp: room_def split: option.splits)
  have pa: "stays (\<lambda>(q, str'). room ?n 4 q str') (parse_path ?cap p str2)" if "room ?n 2 p str2" for p str2
    using that by (intro parse_path_room) simp_all
  have q: "stays (\<lambda>(_, q, str'). room ?n 4 q str') (parse_query ?cap p str2)" if "room ?n 4 p str2" for p str2
    using that by (intro parse_query_room) simp_all
  have f: "stays (\<lambda>_. True) (parse_fragment (Some a) ?cap p str2)" if "room ?n 4 p str2" for p str2
    by (rule parse_fragment_room [OF that]) simp
  show ?thesis
    unfolding uri_parse_complex_def Inr ri sum.case prod.case
    apply (cases "r = 0") prefer 2 apply simp
    apply (simp only: not_False_eq_True if_False simp_thms)
    apply (rule stays_case3 [OF s], rule stays_case3 [OF u], assumption, rule stays_optional3 [OF h], assumption)
    apply (rule stays_optional2 [OF pt], assumption, rule stays_case2 [OF pa], assumption)
    apply (rule stays_case3 [OF q], assumption, rule stays_case1 [OF f], assumption)
    apply (simp_all add: split_paired_all)
    done
qed

text \<open>C28: Whatever the characters of the URI are, \<open>uri_parse\<close> writes only into the memory it has allocated and reads no
  byte behind the one that follows the URI.\<close>

theorem uri_parse_in_bounds: "uri_parse alloc (Some a) uri \<noteq> Inl Out_of_bounds"
  using uri_parse_complex_stays [of a "the uri"] by (auto simp: uri_parse_def stays_def split: option.splits sum.splits)

end
