(* ===== verification/Uri_Roundtrip.thy ===== *)
theory Uri_Roundtrip
  imports Uri_Bounds
begin

text \<open>
  The parser finds the parts of a URI that is put together as RFC 3986 says.  \<open>uri_parts\<close> are the parts, \<open>uri_string\<close>
  the URI made of them, and \<open>uri_ok\<close> says which characters each part may hold.
\<close>

section \<open>URIs and their parts\<close>

record uri_parts =
  p_scheme :: "bytes option"
  p_user :: "(bytes \<times> bytes option) option"
  p_ipv6 :: bool
  p_host :: bytes
  p_port :: "bytes option"
  p_path :: bytes
  p_query :: "bytes option"
  p_fragment :: "bytes option"

definition user_string :: "bytes \<times> bytes option \<Rightarrow> bytes" where
  "user_string up = fst up @ (case snd up of None \<Rightarrow> [] | Some pwd \<Rightarrow> 58 # pwd)"

definition host_string :: "bool \<Rightarrow> bytes \<Rightarrow> bytes" where
  "host_string ipv6 h = (if ipv6 then 91 # h @ [93] else h)"

definition port_string :: "bytes option \<Rightarrow> bytes" where
  "port_string prt = (case prt of None \<Rightarrow> [] | Some ds \<Rightarrow> 58 # ds)"

definition tail_string :: "uri_parts \<Rightarrow> bytes" where
  "tail_string x = p_path x @ (case p_query x of None \<Rightarrow> [] | Some q \<Rightarrow> 63 # q) @ (case p_fragment x of None \<Rightarrow> [] | Some f \<Rightarrow> 35 # f)"

definition uri_string :: "uri_parts \<Rightarrow> bytes" where
  "uri_string x = (case p_scheme x of None \<Rightarrow> [] | Some s \<Rightarrow> s @ [58, 47, 47])
     @ (case p_user x of None \<Rightarrow> [] | Some up \<Rightarrow> user_string up @ [64])
     @ host_string (p_ipv6 x) (p_host x) @ port_string (p_port x) @ tail_string x"

definition name_char :: "u8 \<Rightarrow> bool" where
  "name_char c \<longleftrightarrow> uri_characters_check c \<and> c \<notin> {47, 63, 35, 58, 64, 91, 93}"

definition ipv6_char :: "u8 \<Rightarrow> bool" where
  "ipv6_char c \<longleftrightarrow> uri_characters_check c \<and> c \<notin> {47, 63, 35, 64, 91, 93}"

definition port_value :: "int \<Rightarrow> bytes \<Rightarrow> int" where
  "port_value n ds = foldl (\<lambda>n c. n * 10 + (uint c - 48)) n ds"

definition digit :: "u8 \<Rightarrow> bool" where
  "digit c \<longleftrightarrow> 48 \<le> c \<and> c \<le> 57"

definition user_ok :: "bool \<Rightarrow> bytes \<times> bytes option \<Rightarrow> bool" where
  "user_ok sch up \<longleftrightarrow> list_all name_char (fst up) \<and>
     (case snd up of None \<Rightarrow> True | Some pwd \<Rightarrow> list_all name_char pwd \<and> (sch \<or> pwd \<noteq> []))"

definition port_ok :: "bytes option \<Rightarrow> bool" where
  "port_ok prt = (case prt of None \<Rightarrow> True | Some ds \<Rightarrow> ds \<noteq> [] \<and> list_all digit ds \<and> port_value 0 ds \<le> 0x7FFFFFFF)"

definition tail_ok :: "uri_parts \<Rightarrow> bool" where
  "tail_ok x \<longleftrightarrow> (p_path x = [] \<or> hd (p_path x) = 47) \<and> list_all (\<lambda>c. c \<noteq> 0 \<and> c \<noteq> 63 \<and> c \<noteq> 35) (p_path x)
     \<and> (case p_query x of None \<Rightarrow> True | Some q \<Rightarrow> list_all (\<lambda>c. c \<noteq> 0 \<and> c \<noteq> 35) q)
     \<and> (case p_fragment x of None \<Rightarrow> True | Some f \<Rightarrow> list_all (\<lambda>c. c \<noteq> 0) f)"

definition uri_ok :: "uri_parts \<Rightarrow> bool" where
  "uri_ok x \<longleftrightarrow> (case p_scheme x of None \<Rightarrow> True | Some s \<Rightarrow> list_all name_char s)
     \<and> (case p_user x of None \<Rightarrow> True | Some up \<Rightarrow> user_ok (p_scheme x \<noteq> None) up)
     \<and> (if p_ipv6 x then list_all ipv6_char (p_host x) else p_host x \<noteq> [] \<and> list_all name_char (p_host x))
     \<and> port_ok (p_port x) \<and> tail_ok x"

section \<open>The check\<close>

lemma special_chars [simp]:
  "uri_characters_check 47" "uri_characters_check 63" "uri_characters_check 35" "uri_characters_check 58"
  "uri_characters_check 64" "uri_characters_check 91" "uri_characters_check 93" "\<not> uri_characters_check 0"
  by (simp_all add: uri_characters_check_def s_characters_def Let_def)

lemma walk_scheme: "list_all name_char s \<Longrightarrow> check_loop URI_PARSE_SCHEME it (s @ r) = check_loop URI_PARSE_SCHEME it r"
  by (induction s) (auto simp: name_char_def)

lemma walk_host: "list_all name_char s \<Longrightarrow> check_loop URI_PARSE_HOST it (s @ r) = check_loop URI_PARSE_HOST it r"
  by (induction s) (auto simp: name_char_def)

lemma walk_port: "list_all name_char s \<Longrightarrow> check_loop URI_PARSE_PORT it (s @ r) = check_loop URI_PARSE_PORT it r"
  by (induction s) (auto simp: name_char_def)

lemma walk_ipv6: "list_all ipv6_char s \<Longrightarrow> check_loop URI_PARSE_HOST_IPV6 it (s @ r) = check_loop URI_PARSE_HOST_IPV6 it r"
  by (induction s) (auto simp: ipv6_char_def)

lemma digit_cases: "digit c \<Longrightarrow> c \<in> {48, 49, 50, 51, 52, 53, 54, 55, 56, 57}"
proof -
  assume "digit c"
  then have "48 \<le> unat c \<and> unat c \<le> 57" by (simp add: digit_def word_le_nat_alt)
  then have "unat c \<in> {48, 49, 50, 51, 52, 53, 54, 55, 56, 57}" by simp arith
  then show ?thesis by (simp add: word_unat_eq_iff)
qed

lemma digit_name_char: "digit c \<Longrightarrow> name_char c"
  by (drule digit_cases) (auto simp: name_char_def uri_characters_check_def s_characters_def Let_def)

lemma digits_name_char: "list_all digit ds \<Longrightarrow> list_all name_char ds"
  by (auto simp: list_all_iff digit_name_char)

text \<open>What follows the authority is empty or starts with one of \<open>/ ? #\<close>.\<close>

definition ends :: "bytes \<Rightarrow> bool" where
  "ends t \<longleftrightarrow> (case t of [] \<Rightarrow> True | c # _ \<Rightarrow> is_end c)"

lemma ends_tail: "tail_ok x \<Longrightarrow> ends (tail_string x)"
  by (cases "p_path x") (auto simp: tail_ok_def tail_string_def ends_def split: option.splits)

lemma check_ends:
  assumes "ends t"
  shows "check_loop URI_PARSE_SCHEME it t = Inr (0, it)" "check_loop URI_PARSE_HOST it t = Inr (0, it)"
    "check_loop URI_PARSE_PORT (it\<lparr>has_port := True\<rparr>) t = Inr (0, it\<lparr>has_port := True\<rparr>)"
  using assms by (cases t; auto simp: ends_def)+

lemma check_port:
  assumes "port_ok prt" "ends t"
  shows "check_loop URI_PARSE_HOST it (port_string prt @ t) = Inr (0, if prt = None then it else it\<lparr>has_port := True\<rparr>)"
  using assms by (auto simp: port_ok_def port_string_def check_ends walk_port digits_name_char split: option.splits)

definition host_ok :: "bool \<Rightarrow> bytes \<Rightarrow> bool" where
  "host_ok ipv6 h \<longleftrightarrow> (if ipv6 then list_all ipv6_char h else h \<noteq> [] \<and> list_all name_char h)"

lemma check_host:
  assumes "host_ok ipv6 h" "port_ok prt" "ends t"
  shows "check_loop URI_PARSE_HOST it (host_string ipv6 h @ port_string prt @ t)
    = Inr (0, if prt = None then it else it\<lparr>has_port := True\<rparr>)"
  using assms check_port [of prt t]
  by (auto simp: host_ok_def host_string_def walk_host walk_ipv6)

lemma no_port: "\<not> has_port it \<Longrightarrow> it\<lparr>has_port := False, has_userinfo := True\<rparr> = it\<lparr>has_userinfo := True\<rparr>"
  by (cases it) simp

lemma check_user:
  assumes "user_ok True up" "\<not> has_port it"
  shows "check_loop URI_PARSE_HOST it (user_string up @ 64 # r) = check_loop URI_PARSE_HOST (it\<lparr>has_userinfo := True\<rparr>) r"
  using assms by (auto simp: user_ok_def user_string_def walk_host walk_port no_port split: option.splits)

lemma check_user_first:
  assumes "user_ok False up" "\<not> has_port it"
  shows "check_loop URI_PARSE_SCHEME it (user_string up @ 64 # r) = check_loop URI_PARSE_HOST (it\<lparr>has_userinfo := True\<rparr>) r"
proof (cases "snd up")
  case None
  then show ?thesis using assms by (simp add: user_ok_def user_string_def walk_scheme)
next
  case (Some pwd)
  then obtain c pwd' where pwd: "pwd = c # pwd'" using assms by (cases pwd) (auto simp: user_ok_def)
  then have "name_char c" "list_all name_char pwd'" using assms Some by (simp_all add: user_ok_def)
  then show ?thesis using assms Some pwd by (simp add: user_ok_def user_string_def walk_scheme walk_port no_port) (simp add: name_char_def no_port)
qed

lemma check_host_first:
  assumes "host_ok False h" "port_ok prt" "ends t"
  shows "check_loop URI_PARSE_SCHEME it (h @ port_string prt @ t) = Inr (0, if prt = None then it else it\<lparr>has_port := True\<rparr>)"
proof (cases prt)
  case None
  then show ?thesis using assms by (simp add: host_ok_def port_string_def walk_scheme check_ends)
next
  case (Some ds)
  then obtain c ds' where ds: "ds = c # ds'" using assms by (cases ds) (auto simp: port_ok_def)
  then have "name_char c" "list_all name_char ds'"
    using assms(2) Some digits_name_char [of ds] by (simp_all add: port_ok_def)
  then show ?thesis using assms Some ds
    by (simp add: host_ok_def port_string_def walk_scheme walk_port check_ends) (simp add: name_char_def)
qed

text \<open>The first character decides between a path, an address in brackets and the rest.\<close>

lemma check_start:
  assumes "c \<noteq> 47" "c \<noteq> 91" "uri_characters_check c"
  shows "uri_check (c # str) = check_loop URI_PARSE_SCHEME
    \<lparr>has_scheme = False, has_userinfo = False, has_host = True, has_port = False\<rparr> (c # str)"
  using assms by (simp add: uri_check_def)

lemma check_start_names:
  assumes "list_all name_char s" "c \<in> {58, 64}"
  shows "uri_check (s @ c # str) = check_loop URI_PARSE_SCHEME
    \<lparr>has_scheme = False, has_userinfo = False, has_host = True, has_port = False\<rparr> (s @ c # str)"
  using assms by (cases s) (auto simp: name_char_def simp del: check_simps intro!: check_start)

lemma check_start_host:
  assumes "list_all name_char s" "s \<noteq> []"
  shows "uri_check (s @ str) = check_loop URI_PARSE_SCHEME
    \<lparr>has_scheme = False, has_userinfo = False, has_host = True, has_port = False\<rparr> (s @ str)"
  using assms by (cases s) (auto simp: name_char_def simp del: check_simps intro!: check_start)

lemma check_start_user:
  assumes "user_ok False up"
  shows "uri_check (user_string up @ 64 # str) = check_loop URI_PARSE_SCHEME
    \<lparr>has_scheme = False, has_userinfo = False, has_host = True, has_port = False\<rparr> (user_string up @ 64 # str)"
  using assms check_start_names [of "fst up"] by (auto simp: user_ok_def user_string_def simp del: check_simps split: option.splits)

lemma uri_ok_parts:
  assumes "uri_ok x"
  shows "host_ok (p_ipv6 x) (p_host x)" "port_ok (p_port x)" "ends (tail_string x)"
  using assms ends_tail by (simp_all add: uri_ok_def host_ok_def)

lemma uri_check_string:
  assumes "uri_ok x"
  shows "uri_check (uri_string x) = Inr (0, \<lparr>has_scheme = p_scheme x \<noteq> None, has_userinfo = p_user x \<noteq> None,
    has_host = True, has_port = p_port x \<noteq> None\<rparr>)"
proof (cases "p_scheme x")
  case (Some s)
  note host = check_host [OF uri_ok_parts [OF assms]]
  have s: "list_all name_char s" using assms Some by (simp add: uri_ok_def)
  have "uri_check (uri_string x) = check_loop URI_PARSE_HOST
      \<lparr>has_scheme = True, has_userinfo = False, has_host = True, has_port = False\<rparr>
      ((case p_user x of None \<Rightarrow> [] | Some up \<Rightarrow> user_string up @ [64]) @ host_string (p_ipv6 x) (p_host x)
        @ port_string (p_port x) @ tail_string x)"
    using check_start_names [OF s, of 58] walk_scheme [OF s] Some by (simp add: uri_string_def)
  then show ?thesis using assms Some host check_user by (auto simp: uri_ok_def split: option.splits)
next
  case None
  note host = check_host [OF uri_ok_parts [OF assms]]
  show ?thesis
  proof (cases "p_user x")
    case (Some up)
    then have up: "user_ok False up" using assms None by (simp add: uri_ok_def)
    show ?thesis using check_start_user [OF up] check_user_first [OF up] None Some host
      by (simp add: uri_string_def del: check_simps)
  next
    case none: None
    show ?thesis
    proof (cases "p_ipv6 x")
      case True
      then show ?thesis using None none uri_ok_parts [OF assms]
        by (simp add: uri_string_def host_string_def uri_check_def host_ok_def walk_ipv6 check_port)
    next
      case False
      then show ?thesis using None none uri_ok_parts [OF assms] check_start_host check_host_first
        by (simp add: uri_string_def host_string_def host_ok_def del: check_simps)
    qed
  qed
qed

section \<open>The sections of the parser\<close>

lemma takeWhile_part:
  "list_all P s \<Longrightarrow> (case r of [] \<Rightarrow> True | c # _ \<Rightarrow> \<not> P c) \<Longrightarrow> takeWhile P (s @ r) = s \<and> dropWhile P (s @ r) = r"
  by (induction s) (auto split: list.splits)

lemma copy_string_part:
  assumes "list_all P s" "case r of [] \<Rightarrow> True | c # _ \<Rightarrow> \<not> P c" "length p + length s < cap"
  shows "copy_string cap P p (s @ r) = Inr (p @ s @ [0], r)"
  using takeWhile_part [OF assms(1,2)] assms(3) by (simp add: copy_string_eq)

lemma list_all_name_char: "list_all name_char s \<Longrightarrow> (\<And>c. name_char c \<Longrightarrow> P c) \<Longrightarrow> list_all P s"
  by (auto simp: list_all_iff)

lemma ipv6_char_facts: "ipv6_char c \<Longrightarrow> c \<noteq> 0 \<and> c \<noteq> 93"
  by (auto simp: ipv6_char_def)

lemma name_char_facts: "name_char c \<Longrightarrow> not_delim c \<and> c \<noteq> 58 \<and> c \<noteq> 64 \<and> c \<noteq> 0 \<and> c \<noteq> 91 \<and> c \<noteq> 93"
  by (auto simp: name_char_def not_delim_def)

lemma parse_scheme_part:
  assumes "list_all name_char s" "length p + length s < cap"
  shows "parse_scheme cap True p (s @ 58 # 47 # 47 # r) = Inr (Some (length p), p @ s @ [0], r)"
  using assms copy_string_part [of "\<lambda>c. c \<noteq> 58" s "58 # 47 # 47 # r" p cap]
  by (simp add: parse_scheme_def list_all_name_char name_char_facts)

lemma user_string_chars: "user_ok sch up \<Longrightarrow> list_all (\<lambda>c. c \<noteq> 64 \<and> c \<noteq> 0) (user_string up)"
  by (auto simp: user_ok_def user_string_def list_all_iff dest: name_char_facts split: option.splits)

lemma parse_userinfo_part:
  assumes "user_ok sch up" "length p + length (user_string up) < cap"
  shows "parse_userinfo cap True p (user_string up @ 64 # r) = Inr (Some (length p), p @ user_string up @ [0], r)"
  using assms user_string_chars [OF assms(1)] copy_string_part [of "\<lambda>c. c \<noteq> 64" "user_string up" "64 # r" p cap]
  by (simp add: parse_userinfo_def list_all_iff)

definition delims :: "bytes \<Rightarrow> bool" where
  "delims r \<longleftrightarrow> (case r of [] \<Rightarrow> True | c # _ \<Rightarrow> c = 58 \<or> is_end c)"

lemma delims_rest: "ends t \<Longrightarrow> delims (port_string prt @ t)" "ends t \<Longrightarrow> delims t"
  by (auto simp: ends_def delims_def port_string_def split: list.splits option.splits)

lemma delims_not_delim: "delims r \<Longrightarrow> (case r of [] \<Rightarrow> True | c # _ \<Rightarrow> \<not> not_delim c)" "delims r \<Longrightarrow> \<not> bad_delim r"
  by (auto simp: delims_def not_delim_def bad_delim_def split: list.splits)

lemma host_ok_chars: "host_ok ipv6 h \<Longrightarrow> list_all (\<lambda>c. c \<noteq> 0 \<and> c \<noteq> 93) h"
  using ipv6_char_facts name_char_facts by (auto simp: host_ok_def list_all_iff split: if_splits)

lemma parse_host_part:
  assumes "host_ok ipv6 h" "delims r" "length p + length h < cap"
  shows "parse_host cap True p (host_string ipv6 h @ r) = Inr (Some (Some (length p), p @ h @ [0], r))"
proof (cases ipv6)
  case True
  have "copy_string cap (\<lambda>c. c \<noteq> 93) p (h @ 93 # r) = Inr (p @ h @ [0], 93 # r)"
    using host_ok_chars [OF assms(1)] assms(3) by (intro copy_string_part) (simp_all add: list_all_iff)
  then show ?thesis using True delims_not_delim(2) [OF assms(2)] by (simp add: host_string_def parse_host_def)
next
  case False
  then obtain c h' where h: "h = c # h'" "list_all name_char h" using assms(1) by (cases h) (auto simp: host_ok_def)
  then have "copy_string cap not_delim p (h @ r) = Inr (p @ h @ [0], r)"
    using assms(3) delims_not_delim(1) [OF assms(2)]
    by (intro copy_string_part) (auto intro: list_all_name_char simp: name_char_facts)
  then show ?thesis using False h by (simp add: host_string_def parse_host_def name_char_def)
qed

lemma port_value_mono: "list_all digit ds \<Longrightarrow> 0 \<le> n \<Longrightarrow> n \<le> port_value n ds"
proof (induction ds arbitrary: n)
  case (Cons c ds)
  have c: "48 \<le> uint c" using Cons.prems by (simp add: digit_def word_le_def)
  then have "n * 10 + (uint c - 48) \<le> port_value (n * 10 + (uint c - 48)) ds"
    using Cons.prems by (intro Cons.IH) simp_all
  moreover have "port_value n (c # ds) = port_value (n * 10 + (uint c - 48)) ds" by (simp add: port_value_def)
  ultimately show ?case using c Cons.prems by simp
qed (simp add: port_value_def)

lemma port_loop_part:
  "list_all digit ds \<Longrightarrow> 0 \<le> n \<Longrightarrow> port_value n ds \<le> 0x7FFFFFFF \<Longrightarrow> ends r \<Longrightarrow> port_loop n (ds @ r) = Inr (port_value n ds, r)"
proof (induction ds arbitrary: n)
  case Nil
  then show ?case by (cases r) (auto simp: port_value_def ends_def)
next
  case (Cons c ds)
  let ?m = "n * 10 + (uint c - 48)"
  have c: "48 \<le> c" "c \<le> 57" "48 \<le> uint c" using Cons.prems by (simp_all add: digit_def word_le_def)
  have m: "port_value n (c # ds) = port_value ?m ds" by (simp add: port_value_def)
  have "?m \<le> port_value ?m ds" using Cons.prems c by (intro port_value_mono) simp_all
  then have "?m \<le> 0x7FFFFFFF" using Cons.prems(3) m by simp
  moreover have "port_loop ?m (ds @ r) = Inr (port_value ?m ds, r)" using Cons.prems c m by (intro Cons.IH) simp_all
  ultimately show ?case using c m by (simp add: Let_def)
qed

lemma parse_port_part:
  assumes "port_ok prt" "ends t"
  shows "parse_port (prt \<noteq> None) (port_string prt @ t) = Inr (Some (case prt of None \<Rightarrow> 0 | Some ds \<Rightarrow> port_value 0 ds, t))"
  using assms port_loop_part [of _ 0 t] delims_not_delim(2) [OF delims_rest(2) [OF assms(2)]]
  by (auto simp: parse_port_def port_string_def port_ok_def split: option.splits)

definition path_of :: "bytes \<Rightarrow> bytes" where
  "path_of pth = (if pth = [] then [47] else pth)"

lemma parse_path_part:
  assumes "pth = [] \<or> hd pth = 47" "list_all (\<lambda>c. c \<noteq> 0 \<and> c \<noteq> 63 \<and> c \<noteq> 35) pth" "r = [] \<or> hd r = 63 \<or> hd r = 35"
    "length p + length pth + 1 < cap"
  shows "parse_path cap p (pth @ r) = Inr (p @ path_of pth @ [0], r)"
proof (cases pth)
  case Nil
  then show ?thesis using assms by (auto simp: parse_path_def path_of_def uri_put_def)
next
  case (Cons c pth')
  then show ?thesis using assms copy_string_part [of _ pth r p cap]
    by (cases r) (auto simp: parse_path_def path_of_def)
qed

lemma parse_query_part:
  assumes "case q of None \<Rightarrow> True | Some s \<Rightarrow> list_all (\<lambda>c. c \<noteq> 0 \<and> c \<noteq> 35) s" "r = [] \<or> hd r = 35"
    "length p + (case q of None \<Rightarrow> 0 | Some s \<Rightarrow> length s) < cap"
  shows "parse_query cap p ((case q of None \<Rightarrow> [] | Some s \<Rightarrow> 63 # s) @ r)
    = Inr (map_option (\<lambda>_. length p) q, p @ (case q of None \<Rightarrow> [] | Some s \<Rightarrow> s @ [0]), r)"
proof (cases q)
  case None
  then show ?thesis using assms by (auto simp: parse_query_def)
next
  case (Some s)
  then show ?thesis using assms copy_string_part [of _ s r p cap] by (cases r) (auto simp: parse_query_def)
qed

lemma fragment_loop_part:
  "list_all (\<lambda>c. c \<noteq> 0) f \<Longrightarrow> length p + length f \<le> cap \<Longrightarrow> fragment_loop (Some 0) cap p (c # f) = Inr (p @ f)"
  by (induction f arbitrary: p c) (auto simp: uri_put_def)

lemma parse_fragment_part:
  assumes "case fr of None \<Rightarrow> True | Some f \<Rightarrow> list_all (\<lambda>c. c \<noteq> 0) f \<and> after = Some 0"
    "length p + (case fr of None \<Rightarrow> 0 | Some f \<Rightarrow> length f) < cap"
  shows "parse_fragment after cap p (case fr of None \<Rightarrow> [] | Some f \<Rightarrow> 35 # f)
    = Inr (map_option (\<lambda>_. length p) fr, p @ (case fr of None \<Rightarrow> [] | Some f \<Rightarrow> f @ [0]))"
proof (cases fr)
  case None
  then show ?thesis using assms by (auto simp: parse_fragment_def)
next
  case (Some f)
  then show ?thesis using assms fragment_loop_part [of f p cap 35] by (simp add: parse_fragment_def uri_put_def)
qed

lemma uri_string_first:
  assumes "uri_ok x"
  shows "uri_string x \<noteq> []" "hd (uri_string x) \<noteq> 0"
  using uri_check_string [OF assms] by (cases "uri_string x"; force simp: uri_check_def)+

section \<open>The whole parser\<close>

text \<open>A string of the parsed URI.\<close>

definition string_at :: "uri_t \<Rightarrow> nat \<Rightarrow> bytes" where
  "string_at u o' = takeWhile (\<lambda>c. c \<noteq> 0) (drop o' (uri_chars u))"

abbreviation terminated :: "bytes option \<Rightarrow> bytes" where
  "terminated s \<equiv> (case s of None \<Rightarrow> [] | Some s \<Rightarrow> s @ [0])"

definition clean :: "bytes option \<Rightarrow> bool" where
  "clean s \<longleftrightarrow> (case s of None \<Rightarrow> True | Some s \<Rightarrow> 0 \<notin> set s)"

lemma string_at_part:
  "0 \<notin> set s \<Longrightarrow> uri_chars u = a @ s @ 0 # b \<Longrightarrow> string_at u (length a) = s"
  by (induction s) (auto simp: string_at_def takeWhile_append)

lemma string_at_optional:
  assumes "clean s" "uri_chars u = a @ terminated s @ b"
  shows "map_option (string_at u) (map_option (\<lambda>_. length a) s) = s"
  using assms string_at_part [of "the s" u a b] by (cases s) (auto simp: clean_def)

definition parsed :: "uri_parts \<Rightarrow> uri_t" where
  "parsed x = (let s = terminated (p_scheme x); u = s @ terminated (map_option user_string (p_user x)); h = u @ p_host x @ [0];
      p = h @ path_of (p_path x) @ [0]; q = p @ terminated (p_query x) in
     \<lparr>scheme = map_option (\<lambda>_. 0) (p_scheme x), userinfo = map_option (\<lambda>_. length s) (p_user x), host = Some (length u),
      port = (case p_port x of None \<Rightarrow> 0 | Some ds \<Rightarrow> port_value 0 ds), path = length h,
      query = map_option (\<lambda>_. length p) (p_query x), fragment = map_option (\<lambda>_. length q) (p_fragment x),
      uri_chars = q @ terminated (p_fragment x)\<rparr>)"

lemma uri_parse_string:
  assumes ok: "uri_ok x" and after: "p_fragment x \<noteq> None \<Longrightarrow> after = Some 0"
  shows "uri_parse True after (Some (uri_string x)) = Inr (Some (parsed x))"
proof -
  let ?cap = "length (uri_string x) + 5"
  let ?s = "terminated (p_scheme x)" let ?u = "?s @ terminated (map_option user_string (p_user x))"
  let ?h = "?u @ p_host x @ [0]" let ?p = "?h @ path_of (p_path x) @ [0]" let ?q = "?p @ terminated (p_query x)"
  let ?t = "tail_string x"
  let ?r1 = "host_string (p_ipv6 x) (p_host x) @ port_string (p_port x) @ ?t"
  let ?r0 = "(case p_user x of None \<Rightarrow> [] | Some up \<Rightarrow> user_string up @ [64]) @ ?r1"
  let ?fr = "case p_fragment x of None \<Rightarrow> [] | Some f \<Rightarrow> 35 # f"
  let ?qr = "(case p_query x of None \<Rightarrow> [] | Some q \<Rightarrow> 63 # q) @ ?fr"
  note parts = uri_ok_parts [OF ok]
  have tail: "tail_ok x" using ok by (simp add: uri_ok_def)
  have str: "uri_string x = (case p_scheme x of None \<Rightarrow> [] | Some s \<Rightarrow> s @ [58, 47, 47]) @ ?r0" by (simp add: uri_string_def)
  have len: "length (uri_string x) = (case p_scheme x of None \<Rightarrow> 0 | Some s \<Rightarrow> length s + 3)
      + (case p_user x of None \<Rightarrow> 0 | Some up \<Rightarrow> length (user_string up) + 1) + length (host_string (p_ipv6 x) (p_host x))
      + length (port_string (p_port x)) + length (p_path x) + (case p_query x of None \<Rightarrow> 0 | Some q \<Rightarrow> length q + 1)
      + (case p_fragment x of None \<Rightarrow> 0 | Some f \<Rightarrow> length f + 1)"
    by (simp add: uri_string_def tail_string_def split: option.splits)
  have hl: "length (p_host x) \<le> length (host_string (p_ipv6 x) (p_host x))" by (simp add: host_string_def)
  have pl: "length (path_of (p_path x)) \<le> length (p_path x) + 1" by (simp add: path_of_def)
  have sch: "parse_scheme ?cap (p_scheme x \<noteq> None) [] (uri_string x) = Inr (map_option (\<lambda>_. 0) (p_scheme x), ?s, ?r0)"
    using ok len parse_scheme_part [of _ "[]" ?cap ?r0]
    by (cases "p_scheme x") (simp_all add: str uri_ok_def, simp add: parse_scheme_def)
  have usr: "parse_userinfo ?cap (p_user x \<noteq> None) ?s ?r0 = Inr (map_option (\<lambda>_. length ?s) (p_user x), ?u, ?r1)"
    using ok len parse_userinfo_part [of "p_scheme x \<noteq> None" _ ?s ?cap ?r1]
    by (cases "p_user x"; cases "p_scheme x") (simp_all add: uri_ok_def parse_userinfo_def)
  have hst: "parse_host ?cap True ?u ?r1 = Inr (Some (Some (length ?u), ?h, port_string (p_port x) @ ?t))"
    using parse_host_part [OF parts(1) delims_rest(1) [OF parts(3)], of ?u ?cap] len hl
    by (simp split: option.splits)
  have prt: "parse_port (p_port x \<noteq> None) (port_string (p_port x) @ ?t)
      = Inr (Some (case p_port x of None \<Rightarrow> 0 | Some ds \<Rightarrow> port_value 0 ds, p_path x @ ?qr))"
    using parse_port_part [OF parts(2,3)] by (simp add: tail_string_def)
  have pth: "parse_path ?cap ?h (p_path x @ ?qr) = Inr (?p, ?qr)"
    using tail len hl parse_path_part [of "p_path x" ?qr ?h ?cap] by (simp add: tail_ok_def split: option.splits)
  have qry: "parse_query ?cap ?p ?qr = Inr (map_option (\<lambda>_. length ?p) (p_query x), ?q, ?fr)"
    using tail len hl pl parse_query_part [of "p_query x" ?fr ?p ?cap] by (simp add: tail_ok_def split: option.splits)
  have frg: "parse_fragment after ?cap ?q ?fr = Inr (map_option (\<lambda>_. length ?q) (p_fragment x), ?q @ terminated (p_fragment x))"
    using tail len hl pl after by (intro parse_fragment_part) (simp_all add: tail_ok_def split: option.splits)
  have "uri_parse_complex after ?cap (uri_string x) = Inr (Some (parsed x))"
    unfolding uri_parse_complex_def uri_check_string [OF ok]
    by (simp only: sum.case prod.case if_False simp_thms uri_component_t.select_convs sch usr hst prt pth qry frg option.case)
      (simp only: parsed_def Let_def)
  then show ?thesis using uri_string_first [OF ok] by (simp add: uri_parse_def)
qed

lemma no_zero: "list_all P s \<Longrightarrow> \<not> P 0 \<Longrightarrow> 0 \<notin> set s"
  by (auto simp: list_all_iff)

lemma uri_ok_clean:
  assumes "uri_ok x"
  shows "clean (p_scheme x)" "clean (map_option user_string (p_user x))" "0 \<notin> set (p_host x)" "0 \<notin> set (path_of (p_path x))"
    "clean (p_query x)" "clean (p_fragment x)"
proof -
  have "\<not> name_char 0" by (simp add: name_char_def)
  then show "clean (p_scheme x)" using assms no_zero [of name_char] by (cases "p_scheme x") (simp_all add: uri_ok_def clean_def)
  show "clean (map_option user_string (p_user x))"
    using assms no_zero [OF user_string_chars] by (cases "p_user x") (auto simp: uri_ok_def clean_def)
  show "0 \<notin> set (p_host x)" using no_zero [OF host_ok_chars [OF uri_ok_parts(1) [OF assms]]] by simp
  have tail: "tail_ok x" using assms by (simp add: uri_ok_def)
  show "0 \<notin> set (path_of (p_path x))" using tail no_zero [of _ "p_path x"] by (auto simp: tail_ok_def path_of_def)
  show "clean (p_query x)" using tail no_zero by (cases "p_query x") (auto simp: tail_ok_def clean_def)
  show "clean (p_fragment x)" using tail no_zero by (cases "p_fragment x") (auto simp: tail_ok_def clean_def)
qed

text \<open>C21: A URI that is put together from a scheme, user and password, a host or an IPv6 address in brackets, a port, a path, a query
  and a fragment is parsed into these parts; the path is \<open>/\<close> when there is none.\<close>

theorem uri_parse_roundtrip:
  assumes "uri_ok x" "p_fragment x \<noteq> None \<Longrightarrow> after = Some 0"
  shows "\<exists>u. uri_parse True after (Some (uri_string x)) = Inr (Some u)
    \<and> map_option (string_at u) (scheme u) = p_scheme x
    \<and> map_option (string_at u) (userinfo u) = map_option user_string (p_user x)
    \<and> map_option (string_at u) (host u) = Some (p_host x)
    \<and> port u = (case p_port x of None \<Rightarrow> 0 | Some ds \<Rightarrow> port_value 0 ds)
    \<and> string_at u (path u) = path_of (p_path x)
    \<and> map_option (string_at u) (query u) = p_query x
    \<and> map_option (string_at u) (fragment u) = p_fragment x"
proof (intro exI conjI)
  note c = uri_ok_clean [OF assms(1)]
  let ?u = "parsed x"
  let ?s = "terminated (p_scheme x)" let ?us = "?s @ terminated (map_option user_string (p_user x))"
  let ?h = "?us @ p_host x @ [0]" let ?p = "?h @ path_of (p_path x) @ [0]" let ?q = "?p @ terminated (p_query x)"
  have ch: "uri_chars ?u = ?q @ terminated (p_fragment x)" unfolding parsed_def Let_def by simp
  show "uri_parse True after (Some (uri_string x)) = Inr (Some ?u)" by (rule uri_parse_string [OF assms])
  show "map_option (string_at ?u) (scheme ?u) = p_scheme x"
    using string_at_optional [OF c(1), of ?u "[]"] unfolding ch by (simp add: parsed_def Let_def)
  have "map_option (string_at ?u) (map_option (\<lambda>_. length ?s) (map_option user_string (p_user x))) = map_option user_string (p_user x)"
    unfolding ch by (rule string_at_optional [OF c(2)]) (simp only: ch append_assoc)
  then show "map_option (string_at ?u) (userinfo ?u) = map_option user_string (p_user x)"
    by (simp add: parsed_def Let_def option.map_comp comp_def)
  have "string_at ?u (length ?us) = p_host x"
    by (rule string_at_part [OF c(3)]) (simp only: ch append_assoc append_Cons append_Nil)
  then show "map_option (string_at ?u) (host ?u) = Some (p_host x)" unfolding parsed_def Let_def by simp
  show "port ?u = (case p_port x of None \<Rightarrow> 0 | Some ds \<Rightarrow> port_value 0 ds)" by (simp add: parsed_def Let_def)
  have "string_at ?u (length ?h) = path_of (p_path x)"
    by (rule string_at_part [OF c(4)]) (simp only: ch append_assoc append_Cons append_Nil)
  then show "string_at ?u (path ?u) = path_of (p_path x)" unfolding parsed_def Let_def by simp
  have "map_option (string_at ?u) (map_option (\<lambda>_. length ?p) (p_query x)) = p_query x"
    by (rule string_at_optional [OF c(5)]) (simp only: ch append_assoc)
  then show "map_option (string_at ?u) (query ?u) = p_query x" unfolding parsed_def Let_def by simp
  have "map_option (string_at ?u) (map_option (\<lambda>_. length ?q) (p_fragment x)) = p_fragment x"
    by (rule string_at_optional [OF c(6), of _ _ "[]"]) (simp only: ch append_assoc append_Nil2)
  then show "map_option (string_at ?u) (fragment ?u) = p_fragment x" unfolding parsed_def Let_def by simp
qed

text \<open>\<open>h://u:p@[::1]:80/a?b#c\<close>.\<close>

definition some_uri :: uri_parts where
  "some_uri = \<lparr>p_scheme = Some [104], p_user = Some ([117], Some [112]), p_ipv6 = True, p_host = [58, 58, 49], p_port = Some [56, 48],
     p_path = [47, 97], p_query = Some [98], p_fragment = Some [99]\<rparr>"

lemma uri_string_some_uri: "uri_string some_uri = map of_char ''h://u:p@[::1]:80/a?b#c''"
  by (simp add: uri_string_def some_uri_def user_string_def host_string_def port_string_def tail_string_def)

theorem uri_parse_roundtrip_witness:
  "\<exists>u. uri_parse True (Some 0) (Some (map of_char ''h://u:p@[::1]:80/a?b#c'')) = Inr (Some u) \<and> port u = 80
    \<and> map_option (string_at u) (host u) = Some (map of_char ''::1'')"
proof -
  have "uri_ok some_uri"
    by (simp add: uri_ok_def some_uri_def user_ok_def port_ok_def tail_ok_def name_char_def ipv6_char_def digit_def port_value_def
        uri_characters_check_def s_characters_def Let_def)
  from uri_parse_roundtrip [OF this refl] show ?thesis
    unfolding uri_string_some_uri by (auto simp: some_uri_def port_value_def)
qed

text \<open>Four defects.  A URI that ends behind the scheme or the user fails an assertion, and so does a closing bracket in
  the host; a port of more than 31 bits overflows; and the fragment of a URI that is followed by another character
  gets that character too.\<close>

lemma uri_parse_no_host: "uri_parse True after (Some (map of_char ''http://'')) = Inl Assert_failed"
  by (simp add: uri_parse_def uri_parse_complex_def uri_check_def uri_characters_check_def s_characters_def Let_def
      parse_scheme_def parse_userinfo_def parse_host_def copy_string_eq)

lemma uri_parse_bracket: "uri_parse True after (Some (map of_char ''h://a]'')) = Inl Assert_failed"
  by (simp add: uri_parse_def uri_parse_complex_def uri_check_def uri_characters_check_def s_characters_def Let_def)

lemma uri_parse_port_overflow: "uri_parse True after (Some (map of_char ''a:9999999999'')) = Inl Int_overflow"
  by (simp add: uri_parse_def uri_parse_complex_def uri_check_def uri_characters_check_def s_characters_def Let_def
      parse_scheme_def parse_userinfo_def parse_host_def copy_string_eq not_delim_def parse_port_def)

lemma uri_parse_fragment_overrun:
  "\<exists>u. uri_parse True (Some 120) (Some (map of_char ''/#c'')) = Inr (Some u) \<and> map_option (string_at u) (fragment u) = Some (map of_char ''cx'')"
  by (simp add: uri_parse_def uri_parse_complex_def uri_check_def uri_characters_check_def s_characters_def Let_def
      parse_scheme_def parse_userinfo_def parse_host_def copy_string_eq parse_port_def parse_path_def parse_query_def parse_fragment_def
      uri_put_def string_at_def)

end
