(* ===== verification/Uri_Query.thy ===== *)
theory Uri_Query
  imports Uri_Roundtrip Ring
begin

text \<open>
  Printing the path of a parsed URI, splitting its user information (\<open>src/uri-parse/uri-parse.c\<close>) and splitting a query into names
  and values (\<open>src/uri-parse/uri-query.c\<close>).  \<open>None\<close> is an access out of bounds.  A query is the list of the characters before its
  terminator, pointers into it are positions.
\<close>

section \<open>Path and user information\<close>

text \<open>\<open>snprintf(buf + off, n, ...)\<close> with the characters that the format gives; the length is the number of these characters.\<close>

definition snprintf :: "bytes \<Rightarrow> nat \<Rightarrow> nat \<Rightarrow> bytes \<Rightarrow> (bytes \<times> nat) option" where
  "snprintf buf off n s =
     (if n = 0 then Some (buf, length s)
      else do { buf \<leftarrow> mem_copy buf off (take (n - 1) s @ [0]) 0 (min (n - 1) (length s) + 1); Some (buf, length s) })"

definition path_suffix :: "uri_t \<Rightarrow> u8 \<Rightarrow> nat option \<Rightarrow> bytes \<times> nat \<Rightarrow> nat \<Rightarrow> (bytes \<times> nat option) option" where
  "path_suffix uri c part bn len = (case bn of (buf, n) \<Rightarrow>
     (case part of
        None \<Rightarrow> Some (buf, Some n)
      | Some pos \<Rightarrow>
          if string_at uri pos = [] then Some (buf, Some n)
          else do {
            (buf, r) \<leftarrow> snprintf buf n (len - n) (c # string_at uri pos);
            Some (buf, if r + n \<ge> len then None else Some (n + r)) }))"

text \<open>The second result is \<open>None\<close> for \<open>return -1\<close>.\<close>

definition uri_path :: "uri_t \<Rightarrow> bytes \<Rightarrow> nat \<Rightarrow> (bytes \<times> nat option) option" where
  "uri_path uri buf len = do {
     (buf, n) \<leftarrow> snprintf buf 0 len (string_at uri (path uri));
     if n \<ge> len then Some (buf, None)
     else do {
       (buf, r) \<leftarrow> path_suffix uri 63 (query uri) (buf, n) len;
       case r of None \<Rightarrow> Some (buf, None) | Some n \<Rightarrow> path_suffix uri 35 (fragment uri) (buf, n) len } }"

definition uri_userinfo :: "uri_t \<Rightarrow> bytes \<Rightarrow> nat \<Rightarrow> bytes \<Rightarrow> nat \<Rightarrow> (bytes \<times> bytes) option" where
  "uri_userinfo uri usr n1 pwd n2 =
     (case userinfo uri of
        None \<Rightarrow> do { usr \<leftarrow> store usr 0 0; pwd \<leftarrow> store pwd 0 0; Some (usr, pwd) }
      | Some pos \<Rightarrow>
          let s = string_at uri pos in
          if 58 \<in> set s
          then do {
            (usr, _) \<leftarrow> snprintf usr 0 n1 (takeWhile (\<lambda>c. c \<noteq> 58) s);
            (pwd, _) \<leftarrow> snprintf pwd 0 n2 (tl (dropWhile (\<lambda>c. c \<noteq> 58) s));
            Some (usr, pwd) }
          else do { (usr, _) \<leftarrow> snprintf usr 0 n1 s; pwd \<leftarrow> store pwd 0 0; Some (usr, pwd) })"

section \<open>Queries\<close>

record uri_query_t =
  q_name :: nat
  n_name :: int
  q_value :: "nat option"
  n_value :: int

text \<open>\<open>strpbrk\<close> and \<open>strchr\<close> from a position.\<close>

definition find_from :: "(u8 \<Rightarrow> bool) \<Rightarrow> bytes \<Rightarrow> nat \<Rightarrow> nat option" where
  "find_from P s q = (let k = q + length (takeWhile (\<lambda>c. \<not> P c) (drop q s)) in if k < length s then Some k else None)"

lemma find_from_ge: "find_from P s q = Some p \<Longrightarrow> q \<le> p \<and> p < length s"
  by (auto simp: find_from_def Let_def split: if_splits)

text \<open>The items found so far: the first \<open>N\<close> in the local array, the others in \<open>*items\<close>, which grows by 64 cells.\<close>

record query_items =
  q_count :: nat
  q_capacity :: nat
  items0 :: "uri_query_t list"
  items :: "uri_query_t list"

definition add_item :: "(nat \<Rightarrow> bool) \<Rightarrow> uri_query_t \<Rightarrow> query_items \<Rightarrow> uri_query_t \<Rightarrow> query_items option" where
  "add_item alloc junk st it =
     (if q_count st < 64 then Some (st\<lparr>items0 := items0 st @ [it], q_count := q_count st + 1\<rparr>)
      else
        let st = (if q_count st \<ge> q_capacity st
                  then if alloc (q_count st)
                       then Some (st\<lparr>q_capacity := q_count st + 64,
                              items := items st @ replicate (q_count st + 64 - length (items st)) junk\<rparr>)
                       else None
                  else Some st)
        in case st of None \<Rightarrow> None | Some st \<Rightarrow> Some (st\<lparr>items := (items st)[q_count st := it], q_count := q_count st + 1\<rparr>))"

text \<open>\<open>Inl\<close> is a \<open>return\<close> inside the loop with \<open>*items\<close>: \<open>-1\<close>, or \<open>-ENOMEM\<close>, which is \<open>-12\<close>.\<close>

function query_loop :: "(nat \<Rightarrow> bool) \<Rightarrow> uri_query_t \<Rightarrow> bytes \<Rightarrow> nat \<Rightarrow> nat \<Rightarrow> nat \<Rightarrow> query_items
    \<Rightarrow> (int \<times> uri_query_t list option) + query_items" where
  "query_loop alloc junk s e pos p st =
     (if \<not> p < e then Inr st
      else case find_from (\<lambda>c. c = 38 \<or> c = 61) s pos of
        None \<Rightarrow> Inr st
      | Some p \<Rightarrow>
          if p > e then Inr st
          else if p = pos
          then if s ! p = 38 then query_loop alloc junk s e (p + 1) p st else Inl (-1, None)
          else
            let p' = (if s ! p = 61 then case find_from (\<lambda>c. c = 38) s (p + 1) of None \<Rightarrow> e | Some p' \<Rightarrow> p' else p);
                it = (if s ! p = 61
                      then \<lparr>q_name = pos, n_name = int (p - pos), q_value = Some (p + 1), n_value = int p' - int (p + 1)\<rparr>
                      else \<lparr>q_name = pos, n_name = int (p - pos), q_value = None, n_value = 0\<rparr>)
            in case add_item alloc junk st it of
                 None \<Rightarrow> Inl (-12, if items st = [] then None else Some (items st))
               | Some st \<Rightarrow> query_loop alloc junk s e (p' + 1) p' st)"
  by pat_completeness auto
termination
proof (relation "measures [\<lambda>(_, _, s, e, pos, p, _). if p < e then 1 else 0, \<lambda>(_, _, s, e, pos, p, _). Suc e - pos]", goal_cases)
  case 1
  then show ?case by simp
next
  case (2 alloc junk s e pos p st q)
  then show ?case by (auto dest: find_from_ge)
next
  case (3 alloc junk s e pos p st q p' it st')
  then show ?case by (auto dest!: find_from_ge split: if_splits option.splits)
qed

declare query_loop.simps [simp del]

text \<open>The result is the number that is returned and \<open>*items\<close>.\<close>

definition uri_query :: "(nat \<Rightarrow> bool) \<Rightarrow> uri_query_t \<Rightarrow> bytes \<Rightarrow> nat \<Rightarrow> int \<times> uri_query_t list option" where
  "uri_query alloc junk s e =
     (case query_loop alloc junk s e 0 0 \<lparr>q_count = 0, q_capacity = 0, items0 = [], items = []\<rparr> of
        Inl r \<Rightarrow> r
      | Inr st \<Rightarrow>
          if q_count st \<le> 64 \<and> q_count st > 0
          then if alloc (q_count st) then (int (q_count st), Some (items0 st)) else (-12, None)
          else if q_count st > 64 then (int (q_count st), Some (take (q_count st) (items0 st @ drop 64 (items st))))
          else (0, None))"

section \<open>Correctness\<close>

text \<open>The names and values of a query and the string made of them.\<close>

type_synonym name_value = "bytes \<times> bytes option"

fun name_value_string :: "name_value \<Rightarrow> bytes" where
  "name_value_string (n, v) = n @ (case v of None \<Rightarrow> [] | Some v \<Rightarrow> 61 # v)"

fun query_string :: "name_value list \<Rightarrow> bytes" where
  "query_string [] = []" |
  "query_string [kv] = name_value_string kv" |
  "query_string (kv # kvs) = name_value_string kv @ 38 # query_string kvs"

definition name_value_ok :: "name_value \<Rightarrow> bool" where
  "name_value_ok kv \<longleftrightarrow> fst kv \<noteq> [] \<and> list_all (\<lambda>c. c \<noteq> 38 \<and> c \<noteq> 61) (fst kv) \<and>
     (case snd kv of None \<Rightarrow> True | Some v \<Rightarrow> list_all (\<lambda>c. c \<noteq> 38) v)"

definition resolve :: "bytes \<Rightarrow> uri_query_t \<Rightarrow> name_value" where
  "resolve s it = (take (nat (n_name it)) (drop (q_name it) s), map_option (\<lambda>p. take (nat (n_value it)) (drop p s)) (q_value it))"

lemma find_from_hit: "list_all (\<lambda>c. \<not> P c) b \<Longrightarrow> P c \<Longrightarrow> find_from P (a @ b @ c # d) (length a) = Some (length a + length b)"
  using takeWhile_part [of "\<lambda>c. \<not> P c" b "c # d"] by (simp add: find_from_def Let_def)

lemma find_from_none: "list_all (\<lambda>c. \<not> P c) b \<Longrightarrow> find_from P (a @ b) (length a) = None"
proof -
  assume "list_all (\<lambda>c. \<not> P c) b"
  then have "takeWhile (\<lambda>c. \<not> P c) b = b" by (simp only: takeWhile_eq_all_conv list_all_iff)
  then show ?thesis by (simp add: find_from_def Let_def del: takeWhile_eq_all_conv)
qed

text \<open>The items that are stored.\<close>

definition holds :: "query_items \<Rightarrow> uri_query_t list \<Rightarrow> bool" where
  "holds st L \<longleftrightarrow> q_count st = length L \<and> items0 st = take 64 L \<and> length (items st) = q_capacity st
     \<and> (length L \<le> 64 \<longrightarrow> q_capacity st = 0) \<and> (64 < length L \<longrightarrow> length L \<le> q_capacity st)
     \<and> take (length L - 64) (drop 64 (items st)) = drop 64 L"

lemma take_drop_update:
  assumes "take (k - m) (drop m M) = xs" "m \<le> k" "k < length M"
  shows "take (Suc k - m) (drop m (M[k := x])) = xs @ [x]"
  using assms by (simp add: drop_update_swap Suc_diff_le take_Suc_conv_app_nth)

lemma add_item_holds:
  assumes "\<forall>n. alloc n" "holds st L"
  shows "\<exists>st'. add_item alloc junk st it = Some st' \<and> holds st' (L @ [it])"
proof (cases "length L < 64")
  case True
  then show ?thesis using assms by (simp add: add_item_def holds_def)
next
  case False
  define M where "M = (if length L \<ge> q_capacity st
    then items st @ replicate (length L + 64 - length (items st)) junk else items st)"
  have h: "length (items st) = q_capacity st" "q_count st = length L" "take (length L - 64) (drop 64 (items st)) = drop 64 L"
    using assms(2) by (simp_all add: holds_def)
  have M: "length L < length M" using assms(2) False by (auto simp: M_def holds_def)
  have "take (length L - 64) (drop 64 M) = drop 64 L"
  proof (cases "length L = 64")
    case False
    then have "length L \<le> length (items st)" using assms(2) \<open>\<not> length L < 64\<close> by (simp add: holds_def)
    then show ?thesis using h(3) by (simp add: M_def)
  qed simp
  then have d: "take (Suc (length L) - 64) (drop 64 (M[length L := it])) = drop 64 L @ [it]"
    using False M by (intro take_drop_update) simp_all
  show ?thesis using assms False h d M by (auto simp: add_item_def holds_def M_def Let_def)
qed

text \<open>The items that are found: a name without a value at the end of the query is not.\<close>

definition found_items :: "name_value list \<Rightarrow> name_value list" where
  "found_items kvs = (if kvs \<noteq> [] \<and> snd (last kvs) = None then butlast kvs else kvs)"

lemma found_items_Cons: "kvs \<noteq> [] \<Longrightarrow> found_items (kv # kvs) = kv # found_items kvs"
  by (simp add: found_items_def)

lemma query_loop_strings:
  assumes "\<forall>n. alloc n"
  shows "kvs \<noteq> [] \<Longrightarrow> list_all name_value_ok kvs \<Longrightarrow> s = pre @ query_string kvs \<Longrightarrow> p < length s \<Longrightarrow> holds st L \<Longrightarrow>
    \<exists>st' its. query_loop alloc junk s (length s) (length pre) p st = Inr st' \<and> holds st' (L @ its)
      \<and> map (resolve s) its = found_items kvs"
proof (induction kvs arbitrary: pre p st L)
  case (Cons kv kvs)
  obtain n v where kv: "kv = (n, v)" by (cases kv)
  have n: "n \<noteq> []" "list_all (\<lambda>c. \<not> (c = 38 \<or> c = 61)) n" using Cons.prems(2) kv by (simp_all add: name_value_ok_def)
  define it where "it = \<lparr>q_name = length pre, n_name = int (length n), q_value = map_option (\<lambda>_. length pre + length n + 1) v,
    n_value = (case v of None \<Rightarrow> 0 | Some v \<Rightarrow> int (length v))\<rparr>"
  obtain st1 where st1: "add_item alloc junk st it = Some st1" "holds st1 (L @ [it])"
    using add_item_holds [OF assms Cons.prems(5), where it = it and junk = junk] by blast
  show ?case
  proof (cases v)
    case None
    show ?thesis
    proof (cases "kvs = []")
      case True
      then have s: "s = pre @ n" using Cons.prems(3) kv None by simp
      have "find_from (\<lambda>c. c = 38 \<or> c = 61) s (length pre) = None" unfolding s by (rule find_from_none [OF n(2)])
      then have "query_loop alloc junk s (length s) (length pre) p st = Inr st" by (subst query_loop.simps) simp
      then show ?thesis using Cons.prems(5) True kv None by (intro exI [of _ st] exI [of _ "[]"]) (simp add: found_items_def)
    next
      case False
      then have "kvs \<noteq> []" by simp
      then have s: "s = pre @ n @ 38 # query_string kvs" using Cons.prems(3) kv None by (cases kvs) simp_all
      have f: "find_from (\<lambda>c. c = 38 \<or> c = 61) s (length pre) = Some (length pre + length n)"
        unfolding s using n(2) by (intro find_from_hit) simp_all
      have "query_loop alloc junk s (length s) (length pre) p st
          = query_loop alloc junk s (length s) (length (pre @ n @ [38])) (length pre + length n) st1"
        using Cons.prems(4) n(1) st1(1) None f by (subst query_loop.simps) (simp add: s it_def nth_append Let_def)
      moreover obtain st2 its where "query_loop alloc junk s (length s) (length (pre @ n @ [38])) (length pre + length n) st1 = Inr st2"
          "holds st2 ((L @ [it]) @ its)" "map (resolve s) its = found_items kvs"
        using Cons.IH [OF \<open>kvs \<noteq> []\<close>, of "pre @ n @ [38]" "length pre + length n" st1 "L @ [it]"] Cons.prems(2) s st1(2) \<open>kvs \<noteq> []\<close> by auto
      moreover have "resolve s it = kv" by (simp add: resolve_def it_def s kv None)
      ultimately show ?thesis using found_items_Cons [OF \<open>kvs \<noteq> []\<close>] by (intro exI [of _ st2] exI [of _ "it # its"]) simp
    qed
  next
    case (Some v')
    have v': "list_all (\<lambda>c. \<not> c = 38) v'" using Cons.prems(2) kv Some by (simp add: name_value_ok_def)
    show ?thesis
    proof (cases "kvs = []")
      case True
      then have s: "s = pre @ n @ 61 # v'" using Cons.prems(3) kv Some by simp
      have f: "find_from (\<lambda>c. c = 38 \<or> c = 61) s (length pre) = Some (length pre + length n)"
        unfolding s using n(2) by (intro find_from_hit) simp_all
      have g: "find_from (\<lambda>c. c = 38) s (length pre + length n + 1) = None"
        using find_from_none [OF v', of "pre @ n @ [61]"] by (simp add: s)
      have "query_loop alloc junk s (length s) (length pre) p st = query_loop alloc junk s (length s) (length s + 1) (length s) st1"
        using Cons.prems(4) n(1) st1(1) Some f g by (subst query_loop.simps) (simp add: s it_def nth_append Let_def)
      also have "\<dots> = Inr st1" by (subst query_loop.simps) simp
      finally show ?thesis using st1(2) True by (intro exI [of _ st1] exI [of _ "[it]"]) (simp add: resolve_def it_def s kv Some found_items_def)
    next
      case False
      then have s: "s = pre @ n @ 61 # v' @ 38 # query_string kvs" using Cons.prems(3) kv Some by (cases kvs) simp_all
      have f: "find_from (\<lambda>c. c = 38 \<or> c = 61) s (length pre) = Some (length pre + length n)"
        unfolding s using n(2) by (intro find_from_hit) simp_all
      have g: "find_from (\<lambda>c. c = 38) s (length pre + length n + 1) = Some (length pre + length n + 1 + length v')"
        using find_from_hit [OF v' refl, of "pre @ n @ [61]"] by (simp add: s)
      let ?pre = "pre @ n @ 61 # v' @ [38]"
      have "query_loop alloc junk s (length s) (length pre) p st
          = query_loop alloc junk s (length s) (length ?pre) (length pre + length n + 1 + length v') st1"
        using Cons.prems(4) n(1) st1(1) Some f g by (subst query_loop.simps) (simp add: s it_def nth_append Let_def add.assoc)
      moreover obtain st2 its where
          "query_loop alloc junk s (length s) (length ?pre) (length pre + length n + 1 + length v') st1 = Inr st2"
          "holds st2 ((L @ [it]) @ its)" "map (resolve s) its = found_items kvs"
        using Cons.IH [OF False, of ?pre "length pre + length n + 1 + length v'" st1 "L @ [it]"] Cons.prems(2) s st1(2) False by auto
      moreover have "resolve s it = kv" by (simp add: resolve_def it_def s kv Some)
      ultimately show ?thesis using found_items_Cons [OF False] by (intro exI [of _ st2] exI [of _ "it # its"]) simp
    qed
  qed
qed simp

text \<open>C37: A query made of names and values is split into these, in order and however many they are, when memory is found;
  only a name without a value at the end of the query is lost, and when nothing is found there is no array.\<close>

theorem uri_query_correct:
  assumes "list_all name_value_ok kvs" "\<forall>n. alloc n"
  shows "\<exists>its. uri_query alloc junk (query_string kvs) (length (query_string kvs))
        = (int (length (found_items kvs)), if found_items kvs = [] then None else Some its)
    \<and> map (resolve (query_string kvs)) its = found_items kvs"
proof -
  let ?s = "query_string kvs" and ?st = "\<lparr>q_count = 0, q_capacity = 0, items0 = [], items = []\<rparr>"
  have h: "holds ?st []" by (simp add: holds_def)
  have "\<exists>st its. query_loop alloc junk ?s (length ?s) 0 0 ?st = Inr st \<and> holds st its \<and> map (resolve ?s) its = found_items kvs"
  proof (cases "kvs = []")
    case True
    then show ?thesis using h by (intro exI [of _ ?st] exI [of _ "[]"]) (simp add: query_loop.simps found_items_def)
  next
    case False
    then have "?s \<noteq> []" using assms(1) by (cases kvs rule: query_string.cases) (auto simp: name_value_ok_def)
    then show ?thesis using query_loop_strings [OF assms(2) False assms(1), of ?s "[]" 0 ?st "[]" junk] h by simp
  qed
  then obtain st its where 1: "query_loop alloc junk ?s (length ?s) 0 0 ?st = Inr st" "holds st its"
      "map (resolve ?s) its = found_items kvs" by blast
  have l: "length its = length (found_items kvs)" using arg_cong [OF 1(3), of length] by simp
  have "uri_query alloc junk ?s (length ?s) = (int (length its), if its = [] then None else Some its)"
  proof (cases "length its \<le> 64")
    case True
    then show ?thesis using 1(1,2) assms(2) by (simp add: uri_query_def holds_def)
  next
    case False
    then have "take (length its) (take 64 its @ drop 64 (items st)) = its" "its \<noteq> []"
      using 1(2) by (auto simp: holds_def min_def)
    then show ?thesis using 1(1,2) False by (simp add: uri_query_def holds_def)
  qed
  moreover have "its = [] \<longleftrightarrow> found_items kvs = []" using l by (cases its; cases "found_items kvs") simp_all
  ultimately have "uri_query alloc junk ?s (length ?s)
      = (int (length (found_items kvs)), if found_items kvs = [] then None else Some its)" by (simp only: l)
  with 1(3) show ?thesis by (intro exI [of _ its] conjI)
qed

theorem uri_query_correct_witness:
  "\<exists>its. uri_query (\<lambda>_. True) \<lparr>q_name = 0, n_name = 0, q_value = None, n_value = 0\<rparr> (map of_char ''a=1&b&c='') 8 = (3, Some its)
    \<and> map (resolve (map of_char ''a=1&b&c='')) its = [([97], Some [49]), ([98], None), ([99], Some [])]"
proof -
  let ?kvs = "[([97], Some [49]), ([98], None), ([99], Some [])] :: name_value list"
  let ?junk = "\<lparr>q_name = 0, n_name = 0, q_value = None, n_value = 0\<rparr> :: uri_query_t"
  have "list_all name_value_ok ?kvs" by (simp add: name_value_ok_def)
  from uri_query_correct [OF this, of "\<lambda>_. True" ?junk] show ?thesis by (simp add: numeral_eq_Suc found_items_def)
qed

text \<open>Two defects: a name without a value is lost at the end of the query, and when the query ends before its string does,
  the last value runs on behind the end.\<close>

lemma uri_query_last_name: "fst (uri_query (\<lambda>_. True) junk (map of_char ''a=1&b'') 5) = 1"
  by (simp add: uri_query_def query_loop.simps find_from_def Let_def add_item_def nth_Cons')

lemma uri_query_value_overrun:
  "map_option (map (resolve (map of_char ''a=12''))) (snd (uri_query (\<lambda>_. True) junk (map of_char ''a=12&'') 3)) = Some [([97], Some [49, 50])]"
  by (simp add: uri_query_def query_loop.simps find_from_def Let_def add_item_def resolve_def nth_Cons')

section \<open>Printing the path\<close>

lemma snprintf_fits:
  assumes "length s < n" "off + n \<le> length buf"
  shows "snprintf buf off n s = Some (take off buf @ s @ 0 # drop (off + length s + 1) buf, length s)"
proof -
  have "take (n - 1) s = s" "min (n - 1) (length s) = length s" using assms(1) by simp_all
  then show ?thesis using assms by (simp add: snprintf_def mem_copy_def)
qed

definition suffix_string :: "uri_t \<Rightarrow> u8 \<Rightarrow> nat option \<Rightarrow> bytes" where
  "suffix_string u c part = (case part of None \<Rightarrow> [] | Some pos \<Rightarrow> if string_at u pos = [] then [] else c # string_at u pos)"

lemma path_suffix_fits:
  assumes "n + length (suffix_string u c part) < len" "len = length buf" "take (Suc n) buf = w @ [0]" "length w = n"
  shows "\<exists>buf'. path_suffix u c part (buf, n) len = Some (buf', Some (n + length (suffix_string u c part)))
    \<and> length buf' = len \<and> take (Suc (n + length (suffix_string u c part))) buf' = (w @ suffix_string u c part) @ [0]"
proof (cases "suffix_string u c part = []")
  case True
  then show ?thesis using assms by (auto simp: path_suffix_def suffix_string_def split: option.splits if_splits)
next
  case False
  then obtain pos where pos: "part = Some pos" "string_at u pos \<noteq> []" by (auto simp: suffix_string_def split: option.splits if_splits)
  have w: "take n buf = w" using assms(3,4) by (metis append_eq_conv_conj le_add2 min.absorb1 plus_1_eq_Suc take_take)
  have "snprintf buf n (len - n) (c # string_at u pos)
      = Some (take n buf @ (c # string_at u pos) @ 0 # drop (n + length (c # string_at u pos) + 1) buf, length (c # string_at u pos))"
    using assms pos by (intro snprintf_fits) (simp_all add: suffix_string_def)
  then show ?thesis using assms pos w by (simp add: path_suffix_def suffix_string_def)
qed

text \<open>A buffer that is large enough gets the path with the query and the fragment, unless these are empty.\<close>

lemma uri_path_correct:
  assumes "length s < length buf" "s = string_at u (path u) @ suffix_string u 63 (query u) @ suffix_string u 35 (fragment u)"
  shows "\<exists>buf'. uri_path u buf (length buf) = Some (buf', Some (length s)) \<and> take (Suc (length s)) buf' = s @ [0]"
proof -
  let ?p = "string_at u (path u)" let ?q = "suffix_string u 63 (query u)"
  let ?buf = "?p @ 0 # drop (length ?p + 1) buf"
  have 1: "snprintf buf 0 (length buf) ?p = Some (?buf, length ?p)" using assms snprintf_fits [of ?p "length buf" 0 buf] by simp
  have l: "length ?buf = length buf" using assms by simp
  obtain buf2 where 2: "path_suffix u 63 (query u) (?buf, length ?p) (length buf) = Some (buf2, Some (length ?p + length ?q))"
      "length buf2 = length buf" "take (Suc (length ?p + length ?q)) buf2 = (?p @ ?q) @ [0]"
    using path_suffix_fits [of "length ?p" u 63 "query u" "length buf" ?buf ?p] assms l by fastforce
  let ?f = "suffix_string u 35 (fragment u)"
  have s: "length s = length ?p + length ?q + length ?f" "s = (?p @ ?q) @ ?f" using assms(2) by simp_all
  have "length ?p + length ?q + length ?f < length buf" "length (?p @ ?q) = length ?p + length ?q" using assms(1) s(1) by simp_all
  from path_suffix_fits [OF this(1) 2(2) [symmetric] 2(3) this(2)]
  obtain buf3 where 3: "path_suffix u 35 (fragment u) (buf2, length ?p + length ?q) (length buf) = Some (buf3, Some (length s))"
      "take (Suc (length s)) buf3 = s @ [0]"
    unfolding s(1) s(2) [symmetric] by blast
  show ?thesis using 1 2(1) 3 assms by (simp add: uri_path_def)
qed

text \<open>User and password are split at the first colon.\<close>

lemma uri_userinfo_split:
  assumes "userinfo u = Some pos" "string_at u pos = a @ 58 # b" "58 \<notin> set a"
    "length a < n1" "n1 \<le> length usr" "length b < n2" "n2 \<le> length pwd"
  shows "uri_userinfo u usr n1 pwd n2 = Some (a @ 0 # drop (length a + 1) usr, b @ 0 # drop (length b + 1) pwd)"
proof -
  have "list_all (\<lambda>c. c \<noteq> 58) a" using assms(3) by (auto simp: list_all_iff)
  then have "takeWhile (\<lambda>c. c \<noteq> 58) (a @ 58 # b) = a" "dropWhile (\<lambda>c. c \<noteq> 58) (a @ 58 # b) = 58 # b"
    using takeWhile_part [of "\<lambda>c. c \<noteq> 58" a "58 # b"] by simp_all
  then show ?thesis using assms snprintf_fits [of a n1 0 usr] snprintf_fits [of b n2 0 pwd] by (simp add: uri_userinfo_def)
qed

end
