(* ===== verification/Spec2Isabelle.thy ===== *)
theory Spec2Isabelle
  imports Base64 Urlcodec Bits Bitmap Fifo Ringtab Heap Heap_Timer Crc Hkdf Md5 Aes_Modes Channel Bst_No_Parent Bsearch Argv Mp3_Header Webm_Vpx Opus_Head Aom_Av1 Time_Wheel_Run Rbtree_Dict Flv_File Amf0_Messages Amf0_Bounds Uri_Query
begin

text \<open>
  A verification of the C library collection under \<open>src\<close>: independent modules, each a directory with one
  or a few \<open>.c\<close> files and its public header under \<open>include\<close>, used by linking the ones that are needed.
  The modules modelled here are those whose behaviour is their own: codecs, bit streams, queues and ring
  tables, a heap and the timer on top of it, checksums, hash functions with the message authentication and
  key derivation built on them, a block cipher with its modes, a blocking channel between threads, a timing wheel,
  a search tree and a red-black tree over intrusive nodes, a binary search, the splitting of a command line,
  the configuration records of media codecs, AMF0 values, the FLV container and a URI parser.

  \<^bold>\<open>Conventions.\<close>  Unsigned integers of the sources are words of their width (\<open>u8\<close>, \<open>u16\<close>, \<open>u32\<close>, \<open>u64\<close> of
  \<open>Prelude\<close>), so that every addition and shift wraps as in C; \<open>unsigned long\<close> has 64 bits, as on the target
  the code is built for; signed quantities that the code keeps small are \<open>int\<close> or \<open>nat\<close>.  A structure is
  a \<open>record\<close> with the fields of the C structure, an enumeration a \<open>datatype\<close>.  A buffer is the list of its
  bytes, read by \<open>fetch\<close> and written by \<open>store\<close>, both of which are \<open>None\<close> out of range: a function that
  returns \<open>Some\<close> has made no access outside its buffers, and a failed assertion is \<open>None\<close> as well.
  A possibly failing allocation is an argument that says whether or where memory was found; clocks,
  callbacks and uninitialised memory are arguments too.  Loops are recursive functions with a termination
  proof; those that may run for ever on some state (the zeros of \<open>bits_read_ue\<close>, \<open>CRC32MPEG2\<close>, the loop of
  \<open>md5_update\<close>, \<open>heap_timer_run\<close>, the clean-up loops of \<open>ringtab\<close>, the walks over linked timers and tree nodes and the
  reading of all tags of a file) are \<open>partial_function (option)\<close>, where not returning is \<open>None\<close>, and that they
  return is proved where they do.  The only bounds are those of the recursive readers of AMF0 items, the number of
  bytes that are left; running out of them is a fault of its own, and \<open>amf_read_ends\<close> shows that it never comes about.

  \<^bold>\<open>Shared theories.\<close>
  \<^item> \<open>Prelude\<close>: words, bytes, array access, and the collections \<open>bitwise_eqs\<close> and \<open>nat_bits\<close>.
  \<^item> \<open>Bit_Stream\<close>: locales of a reader and a writer of bit fields; the client lemma reads back any sequence
    of fields.
  \<^item> \<open>Ring\<close>: reading and writing runs of cells in a ring, and the locale of a bounded queue with its
    order and no-loss theorem; \<open>Fifo\<close> and \<open>Ringtab\<close> interpret it.
  \<^item> \<open>Heap_Order\<close>: heap-ordered arrays over a strict weak order, and the locale of a priority queue from
    which heap sort follows; \<open>Heap\<close> interprets it and \<open>Heap_Timer\<close> uses the interpretation.
  \<^item> \<open>Hweight\<close> (\<open>src/bitmap/hweight.c\<close>): the population counts, by digits of a number.
  \<^item> \<open>Merkle_Damgard\<close>, \<open>Sha_Functions\<close>: the contract of a block-wise hash module and the theorem that any
    division of the input gives the digest of the whole; \<open>Sha1\<close>, \<open>Sha256\<close>, \<open>Sha512\<close> interpret it.
  \<^item> \<open>Gf256\<close>, \<open>Fips197\<close>: the field with 256 elements and the cipher as the standard defines it.

  \<^bold>\<open>Components.\<close>
  \<^item> \<open>Base64\<close> (\<open>src/base64/base64.c\<close>): encoders and decoders of base64, base64url, base32 and base16.
    Decoding undoes encoding, also of consecutive chunks, and the number of bytes every function writes is bounded.
  \<^item> \<open>Urlcodec\<close> (\<open>src/urlcodec/urlcodec.c\<close>): percent-encoding with its source and target limits; round
    trip, bounds and the missing terminator at the limit.
  \<^item> \<open>Bits\<close> (\<open>src/bits/bits.c\<close>): the bit-stream reader and writer and the Exp-Golomb codes; fields are read
    back as written, the end of the stream is an error that does not move the position, and an
    Exp-Golomb code without a set bit makes the reader run for ever.
  \<^item> \<open>Bitmap\<close> (\<open>src/bitmap/bitmap.c\<close>): ranges, weights and the searches, against the list of bits.
  \<^item> \<open>Fifo\<close> (\<open>src/fifo/fifo.c\<close>): the ring buffer with 32-bit indices that wrap; a refinement of a bounded
    queue of elements, in bounds at every position of the indices.
  \<^item> \<open>Ringtab\<close> (\<open>src/ringtab/ringtab.c\<close>): the table of handed-out, queued and dirty items; order
    under any sequence of calls that take turns, what the clean-ups release, and the defects at the boundaries and
    under overlapping calls.
  \<^item> \<open>Heap\<close> (\<open>src/heap/heap.c\<close>) and \<open>Heap_Timer\<close> (\<open>src/heap_timer/heap_timer.c\<close>): the invariant of every
    operation, sorting, and that a run of the timer, for any readings of the clock up to a bound, ends, fires
    the due events in the order of their clocks, each once per interval, and leaves none due.
  \<^item> \<open>Crc\<close> (\<open>src/crc/crc.c\<close>): the table-driven word-wise checksum equals the bit-wise register; the MPEG-2
    variant with its eight-bit loop counter.
  \<^item> \<open>Sha1\<close>, \<open>Sha256\<close>, \<open>Sha512\<close>, \<open>Usha\<close>, \<open>Hmac\<close>, \<open>Hkdf\<close> (\<open>src/sha\<close>): all functions of the files in the
    default build (\<open>sha384-512.c\<close> without \<open>USE_32BIT_ONLY\<close>), up to the digests of FIPS 180, the MAC of RFC 2104
    and the key derivation of RFC 5869, with the error codes and the behaviour at the length limit.
  \<^item> \<open>Md5\<close> (\<open>src/md5/md5.c\<close>): the digest of RFC 1321 for any division of the input.
  \<^item> \<open>Aes_Tables\<close>, \<open>Aes\<close>, \<open>Aes_Modes\<close> (\<open>src/aes/aes.c\<close>): generation of the tables, the key schedules, the
    block function, CBC and CFB128.  The tables hold the S-box and its products, the block function is
    the cipher of FIPS 197, and decryption undoes encryption in every mode.
  \<^item> \<open>Channel\<close> (\<open>src/channel/channel.c\<close>): pushing and popping threads as a step relation over the shared
    structure, the mutex and the two semaphores; every interleaving keeps the invariant, delivers in order
    and can go on.
  \<^item> \<open>Bst_No_Parent\<close> (\<open>src/bst_no_parent/bst.c\<close>): insertion, deletion and traversals against the sorted
    sequence of keys.
  \<^item> \<open>Bsearch\<close> (\<open>src/bsearch/bsearch.c\<close>) and \<open>Argv\<close> (\<open>src/argv/argv_split.c\<close>).
  \<^item> \<open>Node_Order\<close>: locales of an ordered dictionary of nodes that are searched by descending a tree.  \<open>Rb_Shape\<close>,
    \<open>Rb_Balance\<close>: red-black trees as trees, and the repairs after an insertion and an erasure.
    \<open>Rbtree\<close>, \<open>Rbtree_Rep\<close>, \<open>Rbtree_Insert\<close>, \<open>Rbtree_Walk\<close>, \<open>Rbtree_Erase\<close>, \<open>Rbtree_Dict\<close> (\<open>src/rbtree/rbtree.c\<close>,
    \<open>include/rbtree.h\<close> and the search and insertion of \<open>test/test.c\<close>): the code on a store of nodes with parent pointers
    and colours; a store represents a tree, and every operation keeps the red-black invariant, the order and every
    node outside the tree, ends, and refines a dictionary.
  \<^item> \<open>Time_Wheel\<close>, \<open>Time_Wheel_Cascade\<close>, \<open>Time_Wheel_Run\<close> (\<open>src/time_wheel/twtimer.c\<close>): the five levels of buckets of
    doubly linked timers; with callbacks that leave the wheel alone a run fires every timer that is due at its tick
    and no other; with callbacks that start and stop timers it ends, fires nothing early and keeps the wheel well formed.
  \<^item> \<open>Codec_Record\<close> (shared fields and bytes), \<open>Mp3_Header\<close>, \<open>Webm_Vpx\<close>, \<open>Opus_Head\<close>, \<open>Aom_Av1\<close>
    (\<open>src/media/codec/mp3-header\<close>, \<open>webm-vpx\<close>, \<open>opus-head\<close>, \<open>aom-av1\<close>): the codec records are read back as saved, and the frames
    of an Opus packet tile it.
  \<^item> \<open>Amf0\<close>, \<open>Amf0_Messages\<close>, \<open>Amf0_Bounds\<close> (\<open>src/media/codec/amf/amf0.c\<close>): the writers, the readers and the mutually
    recursive readers of items; messages are read back as written, and reading any bytes ends inside the buffer.
  \<^item> \<open>Flv_Header\<close>, \<open>Flv_File\<close> (\<open>src/media/format/flv/flv-header.c\<close>, \<open>flv-reader.c\<close>, \<open>flv-writer.c\<close>, \<open>flv-parser.c\<close>): a
    file that is written is read back tag by tag, and the parser delivers the data of AAC, Opus and all video tags.
  \<^item> \<open>Uri_Parse\<close>, \<open>Uri_Bounds\<close>, \<open>Uri_Roundtrip\<close>, \<open>Uri_Query\<close> (\<open>src/uri-parse\<close>): the state machine that checks a URI, the sections
    of the parser over the memory it allocates, and the splitting of queries; a URI is parsed into the parts it is made
    of, no URI makes the parser leave its memory, and the assertions that some URIs break are shown.

  \<^bold>\<open>Not modelled.\<close>  Modules that are wrappers of the operating system or of third-party code: \<open>log\<close>,
  \<open>daemon\<close>, \<open>proc\<close>, \<open>backtrace\<close>, \<open>config\<close>, \<open>xmlcfg\<close>, \<open>uuid\<close>, \<open>thread-pool\<close>, \<open>task-queue\<close>, \<open>sbox\<close> and the
  portability headers of \<open>src/include\<close>; \<open>src/crc/byte_order.c\<close>, which is vendored; \<open>mpool\<close>, whose lock-free
  queue needs a memory model; the functions for AMF3, the parameter sets of H.264 and H.265, the AAC configurations, the
  FLV muxer and demuxer and the MP4, MPEG-TS and HLS containers, which build on them and on callbacks for input
  and output; the AVL tree, the second red-black tree and the tree with parent pointers, which repeat
  the subject of \<open>rbtree\<close>; the lists, the stack and the hash of \<open>src/include\<close>.  Printing functions, which only write to standard output, are left out of
  the modules above.

  \<^bold>\<open>Extensions.\<close>  The method carries over to the remaining trees (\<open>rbtree_new\<close>, \<open>avl\<close>, \<open>bst\<close>) with the locales of \<open>Node_Order\<close>, and
  to the remaining codecs and containers with the lemmas of \<open>Codec_Record\<close> and \<open>Bits\<close>.
\<close>

end
